(* ===== verification/Prelude.thy ===== *)
theory Prelude
  imports Main "HOL-Library.Word"
begin

text \<open>
  The vocabulary every component shares: Go's byte slices as lists of 8-bit words, the fixed-width
  integers, the little- and big-endian codecs of \<^verbatim>\<open>encoding/binary\<close>, reads and
  writes of a sub-slice, the three-way comparison of byte strings, and the contract of a
  three-way comparison as a locale.

  A Go \<^verbatim>\<open>string\<close> is a byte sequence too, so it has the same type as
  \<^verbatim>\<open>[]byte\<close>. Go's \<^verbatim>\<open>int\<close> is 64 bits wide; the quantities the code
  keeps in one (offsets, lengths, 32-bit fields read from a page) stay far below the limit and
  are modelled as \<open>nat\<close> or \<open>int\<close>.
\<close>

unbundle bit_operations_syntax

section \<open>Types and collections\<close>

type_synonym byte = "8 word"
type_synonym bytes = "byte list"
type_synonym u16 = "16 word"
type_synonym u32 = "32 word"
type_synonym u64 = "64 word"

named_theorems codec_simps \<open>round-trip equations of the fixed-width codecs\<close>
named_theorems region_simps \<open>reads and writes of disjoint or equal regions of a buffer\<close>

text \<open>The bytes of an ASCII string literal.\<close>

definition str :: "string \<Rightarrow> bytes" where
  "str s = map of_char s"

section \<open>Regions of a buffer\<close>

text \<open>\<open>sub b off n\<close> is Go's \<^verbatim>\<open>b[off:off+n]\<close>, and \<open>write_at b off d\<close> is
  \<^verbatim>\<open>copy(b[off:], d)\<close> for data that fits.\<close>

definition sub :: "'a list \<Rightarrow> nat \<Rightarrow> nat \<Rightarrow> 'a list" where
  "sub b off n = take n (drop off b)"

definition write_at :: "'a list \<Rightarrow> nat \<Rightarrow> 'a list \<Rightarrow> 'a list" where
  "write_at b off d = take off b @ d @ drop (off + length d) b"

lemma length_sub [simp]: "length (sub b off n) = min n (length b - off)"
  by (simp add: sub_def)

lemma length_write_at [simp]:
  "off + length d \<le> length b \<Longrightarrow> length (write_at b off d) = length b"
  by (simp add: write_at_def)

lemma nth_sub: "i < n \<Longrightarrow> off + i < length b \<Longrightarrow> sub b off n ! i = b ! (off + i)"
  by (simp add: sub_def)

lemma nth_write_at:
  "off + length d \<le> length b \<Longrightarrow> i < length b \<Longrightarrow>
    write_at b off d ! i = (if off \<le> i \<and> i < off + length d then d ! (i - off) else b ! i)"
  by (auto simp: write_at_def nth_append min_def)

lemma sub_write_same [region_simps]:
  "off + length d \<le> length b \<Longrightarrow> n = length d \<Longrightarrow> sub (write_at b off d) off n = d"
  by (simp add: sub_def write_at_def)

lemma sub_write_before [region_simps]:
  "off + length d \<le> length b \<Longrightarrow> o' + n \<le> off \<Longrightarrow> sub (write_at b off d) o' n = sub b o' n"
  by (rule nth_equalityI) (auto simp: nth_sub nth_write_at)

lemma sub_write_after [region_simps]:
  "off + length d \<le> length b \<Longrightarrow> off + length d \<le> o' \<Longrightarrow> sub (write_at b off d) o' n = sub b o' n"
  by (rule nth_equalityI) (auto simp: nth_sub nth_write_at)

lemma sub_sub: "i + m \<le> n \<Longrightarrow> sub (sub b off n) i m = sub b (off + i) m"
  by (rule nth_equalityI) (auto simp: nth_sub add.assoc)

lemma sub_all [simp]: "sub b 0 (length b) = b"
  by (simp add: sub_def)

lemma sub_append_left: "off + n \<le> length a \<Longrightarrow> sub (a @ b) off n = sub a off n"
  by (simp add: sub_def)

lemma sub_append_right: "length a \<le> off \<Longrightarrow> sub (a @ b) off n = sub b (off - length a) n"
  by (simp add: sub_def)

lemma sub_append_same [simp]: "sub (a @ b) (length a) n = take n b"
  by (simp add: sub_def)

lemma write_at_sub_id: "off + n \<le> length b \<Longrightarrow> write_at b off (sub b off n) = b"
  by (simp add: write_at_def sub_def min_def) (metis append_take_drop_id drop_drop add.commute)

section \<open>Little-endian and big-endian integers\<close>

text \<open>\<open>le_put n w\<close> is \<^verbatim>\<open>LittleEndian.PutUint\<close> of the low \<open>n\<close> bytes, \<open>be_put\<close> the
  big-endian counterpart; \<open>le_get\<close> and \<open>be_get\<close> read them back.\<close>

fun le_put :: "nat \<Rightarrow> 'a::len word \<Rightarrow> bytes" where
  "le_put 0 w = []"
| "le_put (Suc n) w = ucast w # le_put n (drop_bit 8 w)"

fun le_get :: "bytes \<Rightarrow> 'a::len word" where
  "le_get [] = 0"
| "le_get (b # bs) = ucast b OR push_bit 8 (le_get bs)"

definition be_put :: "nat \<Rightarrow> 'a::len word \<Rightarrow> bytes" where
  "be_put n w = rev (le_put n w)"

definition be_get :: "bytes \<Rightarrow> 'a::len word" where
  "be_get bs = le_get (rev bs)"

lemma length_le_put [simp]: "length (le_put n w) = n"
  by (induction n arbitrary: w) auto

lemma length_be_put [simp]: "length (be_put n w) = n"
  by (simp add: be_put_def)

lemma le_get_put: "le_get (le_put n w) = take_bit (8 * n) w"
proof (induction n arbitrary: w)
  case 0
  then show ?case by simp
next
  case (Suc n)
  show ?case by (rule bit_word_eqI) (auto simp: Suc bit_simps)
qed

lemma le_get_put_id [simp, codec_simps]:
  "LENGTH('a) \<le> 8 * n \<Longrightarrow> le_get (le_put n w) = (w :: 'a::len word)"
  by (simp add: le_get_put take_bit_word_eq_self)

lemma be_get_put_id [simp, codec_simps]:
  "LENGTH('a) \<le> 8 * n \<Longrightarrow> be_get (be_put n w) = (w :: 'a::len word)"
  by (simp add: be_get_def be_put_def)

lemma not_bit_byte [simp]: "8 \<le> n \<Longrightarrow> \<not> bit (b :: byte) n"
  using bit_imp_le_length by force

lemma not_bit_le_get: "8 * length bs \<le> n \<Longrightarrow> \<not> bit (le_get bs :: 'a::len word) n"
  by (induction bs arbitrary: n) (auto simp: bit_simps)

lemma bit_le_getD: "bit (le_get bs :: 'a::len word) n \<Longrightarrow> n < 8 * length bs"
  using not_bit_le_get by (meson not_le)

lemma drop_bit_le_get:
  assumes "8 * Suc (length bs) \<le> LENGTH('a)"
  shows "drop_bit 8 (le_get (b # bs) :: 'a::len word) = le_get bs"
  by (rule bit_word_eqI) (use assms in \<open>auto simp: bit_simps dest: bit_le_getD\<close>)

lemma ucast_le_get:
  assumes "8 \<le> LENGTH('a)"
  shows "ucast (le_get (b # bs) :: 'a::len word) = b"
  by (rule bit_word_eqI) (use assms in \<open>auto simp: bit_simps\<close>)

lemma le_put_get [simp, codec_simps]:
  "length bs = n \<Longrightarrow> 8 * n \<le> LENGTH('a) \<Longrightarrow> le_put n (le_get bs :: 'a::len word) = bs"
proof (induction n arbitrary: bs)
  case 0
  then show ?case by simp
next
  case (Suc n)
  then obtain b bs' where bs: "bs = b # bs'" by (cases bs) auto
  have "drop_bit 8 (le_get bs :: 'a word) = le_get bs'" and "ucast (le_get bs :: 'a word) = b"
    using Suc.prems bs by (simp_all add: drop_bit_le_get ucast_le_get del: le_get.simps)
  then show ?case using Suc bs by (simp del: le_get.simps)
qed

lemma be_put_get [simp, codec_simps]:
  "length bs = n \<Longrightarrow> 8 * n \<le> LENGTH('a) \<Longrightarrow> be_put n (be_get bs :: 'a::len word) = bs"
  by (simp add: be_put_def be_get_def)

lemma unat_of_nat_id: "n < 2 ^ LENGTH('a) \<Longrightarrow> unat (of_nat n :: 'a::len word) = n"
  by (simp add: unat_of_nat)

lemma of_nat_unat_id: "of_nat (unat w) = (w :: 'a::len word)"
  by simp

text \<open>Fields of a buffer at a byte offset.\<close>

abbreviation get16 :: "bytes \<Rightarrow> nat \<Rightarrow> u16" where
  "get16 b off \<equiv> le_get (sub b off 2)"
abbreviation get32 :: "bytes \<Rightarrow> nat \<Rightarrow> u32" where
  "get32 b off \<equiv> le_get (sub b off 4)"
abbreviation get64 :: "bytes \<Rightarrow> nat \<Rightarrow> u64" where
  "get64 b off \<equiv> le_get (sub b off 8)"

section \<open>Three-way comparisons\<close>

text \<open>The result of \<^verbatim>\<open>cmp.Compare\<close>-style helpers: minus one, zero or one.\<close>

definition cmp3 :: "'a::linorder \<Rightarrow> 'a \<Rightarrow> int" where
  "cmp3 a b = (if a < b then -1 else if b < a then 1 else 0)"

text \<open>\<^verbatim>\<open>bytes.Compare\<close>, which is also the order of Go strings.\<close>

fun bytes_cmp :: "bytes \<Rightarrow> bytes \<Rightarrow> int" where
  "bytes_cmp [] [] = 0"
| "bytes_cmp [] (y # ys) = -1"
| "bytes_cmp (x # xs) [] = 1"
| "bytes_cmp (x # xs) (y # ys) = (if x < y then -1 else if y < x then 1 else bytes_cmp xs ys)"

text \<open>The contract of a three-way comparison that orders totally up to equivalence. Every
  comparison of the code is checked against it once, and sorting, range predicates and key
  order use only these laws.\<close>

locale three_way =
  fixes cmp :: "'a \<Rightarrow> 'a \<Rightarrow> int"
  assumes cmp_range: "cmp a b \<in> {-1, 0, 1}"
    and cmp_swap: "cmp b a = - cmp a b"
    and cmp_le_trans: "cmp a b \<le> 0 \<Longrightarrow> cmp b c \<le> 0 \<Longrightarrow> cmp a c \<le> 0"
begin

lemma cmp_refl: "cmp a a = 0"
  using cmp_swap[of a a] by simp

lemma cmp_eq_trans: "cmp a b = 0 \<Longrightarrow> cmp b c = 0 \<Longrightarrow> cmp a c = 0"
  using cmp_le_trans[of a b c] cmp_le_trans[of c b a] cmp_swap[of a b] cmp_swap[of b c]
    cmp_swap[of a c] by simp

lemma cmp_eq_left: "cmp a b = 0 \<Longrightarrow> cmp a c = cmp b c"
  using cmp_le_trans[of a b c] cmp_le_trans[of b a c] cmp_le_trans[of c a b] cmp_le_trans[of c b a]
    cmp_swap[of a b] cmp_swap[of a c] cmp_swap[of b c] cmp_range[of a c] cmp_range[of b c] by auto

lemma cmp_eq_right: "cmp b c = 0 \<Longrightarrow> cmp a b = cmp a c"
  using cmp_eq_left[of b c a] cmp_swap[of b a] cmp_swap[of c a] by simp

lemma cmp_less_le_trans: "cmp a b < 0 \<Longrightarrow> cmp b c \<le> 0 \<Longrightarrow> cmp a c < 0"
  using cmp_le_trans[of a b c] cmp_le_trans[of b c a] cmp_swap[of a b] cmp_swap[of a c]
    cmp_range[of a c] by auto

lemma cmp_le_less_trans: "cmp a b \<le> 0 \<Longrightarrow> cmp b c < 0 \<Longrightarrow> cmp a c < 0"
  using cmp_le_trans[of a b c] cmp_le_trans[of c a b] cmp_swap[of b c] cmp_swap[of a c]
    cmp_range[of a c] by auto

lemma cmp_total: "cmp a b \<le> 0 \<or> cmp b a \<le> 0"
  using cmp_swap[of a b] by auto

end

text \<open>The same contract on a set of values, for comparisons that are analysed by induction on
  the size of their arguments, and its closure properties.\<close>

definition three_way_on :: "'a set \<Rightarrow> ('a \<Rightarrow> 'a \<Rightarrow> int) \<Rightarrow> bool" where
  "three_way_on S c \<longleftrightarrow>
     (\<forall>a\<in>S. \<forall>b\<in>S. c a b \<in> {-1, 0, 1} \<and> c b a = - c a b) \<and>
     (\<forall>a\<in>S. \<forall>b\<in>S. \<forall>d\<in>S. c a b \<le> 0 \<longrightarrow> c b d \<le> 0 \<longrightarrow> c a d \<le> 0)"

lemma three_way_onD:
  assumes "three_way_on S c" and "a \<in> S" "b \<in> S"
  shows "c a b \<in> {-1, 0, 1}" and "c b a = - c a b"
    and "d \<in> S \<Longrightarrow> c a b \<le> 0 \<Longrightarrow> c b d \<le> 0 \<Longrightarrow> c a d \<le> 0"
  using assms unfolding three_way_on_def by blast+

lemma three_way_on_UNIV: "three_way_on UNIV c \<longleftrightarrow> three_way c"
  unfolding three_way_on_def three_way_def by blast

lemma three_way_on_eq:
  assumes "three_way_on S c" "a \<in> S" "b \<in> S" "d \<in> S" "c a b = 0"
  shows "c a d = c b d"
proof -
  note t = three_way_onD[OF assms(1)]
  have "c b a = 0" using t(2)[OF assms(2,3)] assms(5) by simp
  then have "c a d \<le> 0 \<longleftrightarrow> c b d \<le> 0" "c d a \<le> 0 \<longleftrightarrow> c d b \<le> 0"
    using t(3)[of a b d] t(3)[of b a d] t(3)[of d a b] t(3)[of d b a] assms by auto
  then show ?thesis
    using t(1)[of a d] t(1)[of b d] t(2)[of a d] t(2)[of b d] assms by auto
qed

lemma three_way_on_vimage:
  "three_way_on T c \<Longrightarrow> (\<And>a. a \<in> S \<Longrightarrow> f a \<in> T) \<Longrightarrow> three_way_on S (\<lambda>a b. c (f a) (f b))"
  unfolding three_way_on_def by blast

lemma three_way_on_cong:
  assumes "three_way_on S c" and "\<And>a b. a \<in> S \<Longrightarrow> b \<in> S \<Longrightarrow> c a b = c' a b"
  shows "three_way_on S c'"
  unfolding three_way_on_def
proof (intro conjI ballI impI)
  fix a b assume "a \<in> S" "b \<in> S"
  then show "c' a b \<in> {-1, 0, 1}" "c' b a = - c' a b"
    using three_way_onD(1,2)[OF assms(1), of a b] assms(2)[of a b] assms(2)[of b a] by metis+
next
  fix a b d assume "a \<in> S" "b \<in> S" "d \<in> S" "c' a b \<le> 0" "c' b d \<le> 0"
  then show "c' a d \<le> 0"
    using three_way_onD(3)[OF assms(1), of a b d] assms(2)[of a b] assms(2)[of b d] assms(2)[of a d] by metis
qed

lemma three_way_on_subset: "three_way_on T c \<Longrightarrow> S \<subseteq> T \<Longrightarrow> three_way_on S c"
  unfolding three_way_on_def by blast

lemma three_way_on_lex:
  assumes c: "three_way_on S c" and d: "three_way_on S d"
  shows "three_way_on S (\<lambda>a b. if c a b \<noteq> 0 then c a b else d a b)" (is "three_way_on S ?l")
proof -
  note C = three_way_onD[OF c] and D = three_way_onD[OF d]
  have "?l a b \<in> {-1, 0, 1} \<and> ?l b a = - ?l a b" if "a \<in> S" "b \<in> S" for a b
    using C(1,2)[OF that] D(1,2)[OF that] by auto
  moreover have "?l x z \<le> 0" if S: "x \<in> S" "y \<in> S" "z \<in> S" and le: "?l x y \<le> 0" "?l y z \<le> 0" for x y z
  proof -
    have xy: "c x y \<le> 0" and yz: "c y z \<le> 0" using le by (auto split: if_splits)
    then have xz: "c x z \<le> 0" using C(3) S by blast
    show ?thesis
    proof (cases "c x z = 0")
      case True
      then have "c z x = 0" using C(2)[of x z] S by simp
      then have "c z y \<le> 0" "c y x \<le> 0" using C(3)[of z x y] C(3)[of y z x] xy yz S by auto
      then have "c x y = 0" "c y z = 0" using C(2)[of x y] C(2)[of y z] xy yz S by auto
      then show ?thesis using le D(3)[of x y z] S True by simp
    qed (use xz in simp)
  qed
  ultimately show ?thesis unfolding three_way_on_def by blast
qed

text \<open>Values partitioned by a rank that decides between classes.\<close>

lemma three_way_on_ranked:
  fixes rk :: "'a \<Rightarrow> nat"
  assumes within: "\<And>r. three_way_on {a \<in> S. rk a = r} c"
    and across: "\<And>a b. a \<in> S \<Longrightarrow> b \<in> S \<Longrightarrow> rk a \<noteq> rk b \<Longrightarrow> c a b = (if rk a < rk b then -1 else 1)"
  shows "three_way_on S c"
proof -
  note W = three_way_onD[OF within]
  have "c a b \<in> {-1, 0, 1} \<and> c b a = - c a b" if "a \<in> S" "b \<in> S" for a b
    using across[of a b] across[of b a] W(1,2)[of a "rk a" b] that by (cases "rk a = rk b") auto
  moreover have le: "rk a \<le> rk b" if "a \<in> S" "b \<in> S" "c a b \<le> 0" for a b
    using across[OF that(1,2)] that(3) by (cases "rk a = rk b") (auto split: if_splits)
  moreover have "c x z \<le> 0" if S: "x \<in> S" "y \<in> S" "z \<in> S" and "c x y \<le> 0" "c y z \<le> 0" for x y z
    using le[of x y] le[of y z] that across[of x z] W(3)[of x "rk x" y z] by (cases "rk x = rk z") auto
  ultimately show ?thesis unfolding three_way_on_def by blast
qed

lemma cmp3_simps [simp]:
  "cmp3 a b = 0 \<longleftrightarrow> a = b"
  "cmp3 a b < 0 \<longleftrightarrow> a < b" "cmp3 a b \<le> 0 \<longleftrightarrow> a \<le> b"
  "0 < cmp3 a b \<longleftrightarrow> b < a" "0 \<le> cmp3 a b \<longleftrightarrow> b \<le> a"
  "cmp3 a b = -1 \<longleftrightarrow> a < b" "cmp3 a b = 1 \<longleftrightarrow> b < a"
  by (auto simp: cmp3_def)

interpretation lin_cmp: three_way "cmp3 :: 'a::linorder \<Rightarrow> 'a \<Rightarrow> int"
proof unfold_locales
  show "cmp3 a b \<in> {-1, 0, 1}" and "cmp3 b a = - cmp3 a b" for a b :: 'a
    by (auto simp: cmp3_def)
qed (auto intro: order_trans)

lemma three_way_on_cmp3: "three_way_on S (cmp3 :: 'a::linorder \<Rightarrow> 'a \<Rightarrow> int)"
  by (rule three_way_on_subset[OF _ subset_UNIV]) (simp only: three_way_on_UNIV lin_cmp.three_way_axioms)

lemma bytes_cmp_range: "bytes_cmp a b \<in> {-1, 0, 1}"
  by (induction a b rule: bytes_cmp.induct) auto

lemma bytes_cmp_swap: "bytes_cmp b a = - bytes_cmp a b"
  by (induction a b rule: bytes_cmp.induct) auto

lemma bytes_cmp_eq_0 [simp]: "bytes_cmp a b = 0 \<longleftrightarrow> a = b"
  by (induction a b rule: bytes_cmp.induct) auto

lemma bytes_cmp_le_trans: "bytes_cmp a b \<le> 0 \<Longrightarrow> bytes_cmp b c \<le> 0 \<Longrightarrow> bytes_cmp a c \<le> 0"
proof (induction a b arbitrary: c rule: bytes_cmp.induct)
  case (4 x xs y ys)
  then show ?case by (cases c) (auto split: if_splits)
qed (case_tac c; auto)+

interpretation byte_cmp: three_way bytes_cmp
  by unfold_locales (rule bytes_cmp_range, rule bytes_cmp_swap, erule (1) bytes_cmp_le_trans)

lemma three_way_on_bytes_cmp: "three_way_on S bytes_cmp"
  by (rule three_way_on_subset[OF _ subset_UNIV]) (simp only: three_way_on_UNIV byte_cmp.three_way_axioms)

lemma bytes_cmp_append_same [simp]: "bytes_cmp (p @ a) (p @ b) = bytes_cmp a b"
  by (induction p) auto

lemma three_way_on_key: "three_way_on S (\<lambda>a b. cmp3 (f a) (f b))"
  by (rule three_way_on_vimage[OF three_way_on_cmp3 UNIV_I])

lemma three_way_on_bytes_key: "three_way_on S (\<lambda>a b. bytes_cmp (f a) (f b))"
  by (rule three_way_on_vimage[OF three_way_on_bytes_cmp UNIV_I])

text \<open>No string of a prefix-free pair is a prefix of the other; then the order is decided
  before either ends, so anything may be appended.\<close>

lemma bytes_cmp_append_decided:
  assumes "\<And>r. b \<noteq> a @ r" and "\<And>r. a \<noteq> b @ r"
  shows "bytes_cmp (a @ x) (b @ y) = bytes_cmp a b"
  using assms by (induction a b rule: bytes_cmp.induct) auto

lemma bytes_cmp_append_eq_length:
  "length a = length b \<Longrightarrow>
    bytes_cmp (a @ x) (b @ y) = (if a = b then bytes_cmp x y else bytes_cmp a b)"
  by (induction a b rule: list_induct2) auto

section \<open>Big-endian order\<close>

lemma le_put_snoc: "le_put (Suc n) w = le_put n w @ [ucast (drop_bit (8 * n) w)]"
proof (induction n arbitrary: w)
  case (Suc n)
  have "le_put (Suc (Suc n)) w = ucast w # le_put (Suc n) (drop_bit 8 w)"
    by simp
  also have "\<dots> = (ucast w # le_put n (drop_bit 8 w)) @ [ucast (drop_bit (8 * n) (drop_bit 8 w))]"
    by (simp only: Suc.IH append_Cons)
  finally show ?case by (simp add: add.commute)
qed simp

lemma be_put_Suc: "be_put (Suc n) w = ucast (drop_bit (8 * n) w) # be_put n w"
  by (simp add: be_put_def le_put_snoc del: le_put.simps)

lemma digit_lex:
  fixes a b :: int
  assumes "0 < P"
  shows "cmp3 a b = (if a div P = b div P then cmp3 (a mod P) (b mod P) else cmp3 (a div P) (b div P))"
proof -
  have eq: "x = P * (x div P) + x mod P" for x :: int by simp
  have bnd: "0 \<le> x mod P" "x mod P < P" for x :: int using assms by simp_all
  have lt: "x div P < y div P \<Longrightarrow> x < y" for x y :: int
    using assms by (meson not_le zdiv_mono1)
  show ?thesis
  proof (cases "a div P = b div P")
    case True
    then have "a < b \<longleftrightarrow> a mod P < b mod P" "b < a \<longleftrightarrow> b mod P < a mod P"
      using eq[of a] eq[of b] by (metis add_less_cancel_left)+
    then show ?thesis using True by (simp add: cmp3_def)
  next
    case False
    then have "a div P < b div P \<or> b div P < a div P" by linarith
    then show ?thesis using lt[of a b] lt[of b a] by (auto simp: cmp3_def)
  qed
qed

lemma bytes_cmp_Cons_cmp3:
  "bytes_cmp (x # xs) (y # ys) = (if uint x = uint y then bytes_cmp xs ys else cmp3 (uint x) (uint y))"
  by (auto simp: cmp3_def word_less_def word_uint_eq_iff)

lemma take_bit_uint [simp]: "take_bit LENGTH('a) (uint w) = uint (w :: 'a::len word)"
  by (metis order_refl take_bit_word_eq_self unsigned_take_bit_eq)

lemma uint_top_byte:
  "uint (ucast (drop_bit (8 * n) w) :: byte) = take_bit (8 * Suc n) (uint w) div 2 ^ (8 * n)"
proof -
  have "uint (ucast (drop_bit (8 * n) w) :: byte) = take_bit 8 (drop_bit (8 * n) (uint w))"
    by (simp add: unsigned_drop_bit_eq unsigned_ucast_eq)
  also have "\<dots> = drop_bit (8 * n) (take_bit (8 * Suc n) (uint w))"
    by (simp add: take_bit_drop_bit add.commute)
  finally show ?thesis by (simp add: drop_bit_eq_div)
qed

text \<open>Big-endian bytes compare as the numbers they encode.\<close>

lemma be_put_cmp_take:
  "bytes_cmp (be_put n a) (be_put n b) = cmp3 (take_bit (8 * n) (uint a)) (take_bit (8 * n) (uint b))"
proof (induction n)
  case 0
  then show ?case by (simp add: be_put_def cmp3_def)
next
  case (Suc n)
  have low: "take_bit (8 * Suc n) x mod 2 ^ (8 * n) = take_bit (8 * n) x" for x :: int
    by (simp flip: take_bit_eq_mod)
  show ?case
    unfolding be_put_Suc bytes_cmp_Cons_cmp3 uint_top_byte Suc.IH
    using digit_lex[of "2 ^ (8 * n)" "take_bit (8 * Suc n) (uint a)" "take_bit (8 * Suc n) (uint b)"]
    unfolding low by simp
qed

lemma be_put_cmp:
  fixes a b :: "'a::len word"
  assumes "LENGTH('a) \<le> 8 * n"
  shows "bytes_cmp (be_put n a) (be_put n b) = cmp3 a b"
proof -
  have "take_bit (8 * n) (uint w) = uint w" for w :: "'a word"
    using take_bit_word_eq_self[OF assms, of w] by (metis unsigned_take_bit_eq)
  then show ?thesis by (simp add: be_put_cmp_take cmp3_def word_less_def)
qed

section \<open>Complements and digits\<close>

lemma unat_not: "unat (NOT w) = 2 ^ LENGTH('a) - 1 - unat (w :: 'a::len word)"
proof -
  have "NOT w = - 1 - w" by (simp add: not_eq_complement)
  then show ?thesis by (simp add: unat_sub unsigned_minus_1_eq_mask mask_eq_exp_minus_1)
qed

lemma byte_max: "(t :: byte) \<le> 0xFF"
  using unsigned_less[of t, where 'a = nat] by (simp add: word_le_nat_alt)

lemma byte_pos: "(c :: byte) \<noteq> 0 \<Longrightarrow> 0 < c"
  by (simp add: word_neq_0_conv)

lemma be_put_inj:
  fixes a b :: "'a::len word"
  shows "LENGTH('a) \<le> 8 * n \<Longrightarrow> be_put n a = be_put n b \<longleftrightarrow> a = b"
  using be_put_cmp[of n a b] by (metis bytes_cmp_eq_0 cmp3_simps(1))

lemma nth_le_put: "i < n \<Longrightarrow> le_put n w ! i = ucast (drop_bit (8 * i) w)"
proof (induction n arbitrary: i w)
  case (Suc n)
  then show ?case by (cases i) (simp_all add: add.commute)
qed simp

lemma le_put_ucast: "8 * n \<le> LENGTH('b) \<Longrightarrow> le_put n (ucast w :: 'b::len word) = le_put n (w :: 'a::len word)"
  by (rule nth_equalityI) (auto simp: nth_le_put intro!: bit_word_eqI simp: bit_simps)

lemma xor_cancel: "(m XOR c) XOR m = (c :: byte)" "(c XOR m) XOR m = c"
  by (rule bit_word_eqI; auto simp: bit_simps)+

lemma xor_cancel_right: "a XOR m = b XOR m \<longleftrightarrow> a = (b :: 'a::len word)"
  by (metis xor.assoc xor_self_eq xor.right_neutral)

lemma ucast_up_down: "LENGTH('a) \<le> LENGTH('b) \<Longrightarrow> ucast (ucast w :: 'b::len word) = (w :: 'a::len word)"
  by (rule bit_word_eqI) (auto simp: bit_simps dest: bit_imp_le_length)

end
