(* ===== verification/Float64.thy ===== *)
theory Float64
  imports Prelude
begin

text \<open>
  Go's \<^verbatim>\<open>float64\<close>, represented by its IEEE 754 bit pattern
  (\<^verbatim>\<open>math.Float64bits\<close>). The order of two floats is decided on exact integers:
  every finite double is an integer multiple of $2^{-1074}$, so \<open>f64_val\<close> is that integer, and the
  same formula places the infinities beyond every finite value. \<open>f64_of_int\<close> is the
  conversion \<^verbatim>\<open>float64(i)\<close> with rounding to nearest, ties to even.
\<close>

type_synonym f64 = u64

definition f64_sign :: "f64 \<Rightarrow> bool" where
  "f64_sign f = bit f 63"

definition f64_body :: "f64 \<Rightarrow> nat" where
  "f64_body f = unat (take_bit 63 f)"

definition f64_exp :: "f64 \<Rightarrow> nat" where
  "f64_exp f = f64_body f div 2 ^ 52"

definition f64_man :: "f64 \<Rightarrow> nat" where
  "f64_man f = f64_body f mod 2 ^ 52"

definition f64_nan :: "f64 \<Rightarrow> bool" where
  "f64_nan f = (f64_exp f = 2047 \<and> f64_man f \<noteq> 0)"

definition f64_inf :: "f64 \<Rightarrow> bool" where
  "f64_inf f = (f64_exp f = 2047 \<and> f64_man f = 0)"

text \<open>The magnitude of a bit pattern without its sign, in units of $2^{-1074}$.\<close>

definition mag_of_body :: "nat \<Rightarrow> nat" where
  "mag_of_body m = (if m div 2 ^ 52 = 0 then m mod 2 ^ 52
     else (2 ^ 52 + m mod 2 ^ 52) * 2 ^ (m div 2 ^ 52 - 1))"

definition f64_val :: "f64 \<Rightarrow> int" where
  "f64_val f = (if f64_sign f then - int (mag_of_body (f64_body f)) else int (mag_of_body (f64_body f)))"

definition f64_lt :: "f64 \<Rightarrow> f64 \<Rightarrow> bool" where
  "f64_lt a b = (\<not> f64_nan a \<and> \<not> f64_nan b \<and> f64_val a < f64_val b)"

definition f64_eq :: "f64 \<Rightarrow> f64 \<Rightarrow> bool" where
  "f64_eq a b = (\<not> f64_nan a \<and> \<not> f64_nan b \<and> f64_val a = f64_val b)"

fun floor_log2 :: "nat \<Rightarrow> nat" where
  "floor_log2 n = (if n < 2 then 0 else Suc (floor_log2 (n div 2)))"

declare floor_log2.simps [simp del]

text \<open>The significand of a positive integer, rounded to 53 bits.\<close>

definition round_sig :: "nat \<Rightarrow> nat" where
  "round_sig n = (let e = floor_log2 n in
     if e \<le> 52 then n * 2 ^ (52 - e)
     else (let s = e - 52; q = n div 2 ^ s; r = n mod 2 ^ s in
       if 2 ^ (s - 1) < r \<or> (r = 2 ^ (s - 1) \<and> odd q) then q + 1 else q))"

definition f64_of_int :: "int \<Rightarrow> f64" where
  "f64_of_int i = (if i = 0 then 0
     else let n = nat \<bar>i\<bar>; b = (floor_log2 n + 1023) * 2 ^ 52 + (round_sig n - 2 ^ 52)
       in of_nat (b + (if i < 0 then 2 ^ 63 else 0)))"

section \<open>Magnitudes\<close>

text \<open>Written with the quotient and remainder of the bit pattern as separate variables, the
  magnitude grows with the pattern: within one exponent by the mantissa, across exponents by at
  least a factor of two.\<close>

definition mag2 :: "nat \<Rightarrow> nat \<Rightarrow> nat" where
  "mag2 e m = (if e = 0 then m else (2 ^ 52 + m) * 2 ^ (e - 1))"

lemma mag_of_body_mag2: "mag_of_body b = mag2 (b div 2 ^ 52) (b mod 2 ^ 52)"
  by (simp add: mag_of_body_def mag2_def)

lemma mag2_mono_man: "m < m' \<Longrightarrow> mag2 e m < mag2 e m'"
  by (simp add: mag2_def)

lemma mag2_lower: "0 < e \<Longrightarrow> 2 ^ (51 + e) \<le> mag2 e m"
  by (cases e) (simp_all add: mag2_def power_add)

lemma mag2_upper: "m < 2 ^ 52 \<Longrightarrow> mag2 e m < 2 ^ (52 + e)"
  by (cases e) (simp_all add: mag2_def power_add)

lemma mag2_mono_exp: "m < 2 ^ 52 \<Longrightarrow> e < e' \<Longrightarrow> mag2 e m < mag2 e' m'"
proof -
  assume "m < 2 ^ 52" "e < e'"
  have "mag2 e m < 2 ^ (52 + e)" by (rule mag2_upper) fact
  also have "\<dots> \<le> (2::nat) ^ (51 + e')" using \<open>e < e'\<close> by (intro power_increasing) auto
  also have "\<dots> \<le> mag2 e' m'" using \<open>e < e'\<close> by (intro mag2_lower) auto
  finally show ?thesis .
qed

lemma mag_of_body_mono: "a < b \<Longrightarrow> mag_of_body a < mag_of_body b"
proof -
  assume ab: "a < b"
  have le: "a div 2 ^ 52 \<le> b div 2 ^ 52" using ab by (intro div_le_mono) simp
  show ?thesis
  proof (cases "a div 2 ^ 52 = b div 2 ^ 52")
    case True
    have "a mod 2 ^ 52 < b mod 2 ^ 52"
      using ab True by (metis add_less_cancel_left div_mult_mod_eq)
    then show ?thesis unfolding mag_of_body_mag2 True by (rule mag2_mono_man)
  next
    case False
    with le show ?thesis unfolding mag_of_body_mag2 by (intro mag2_mono_exp) simp_all
  qed
qed

lemma mag_of_body_less_iff [simp]: "mag_of_body a < mag_of_body b \<longleftrightarrow> a < b"
  using mag_of_body_mono by (metis linorder_neqE_nat order_less_asym)

lemma mag_of_body_eq_iff [simp]: "mag_of_body a = mag_of_body b \<longleftrightarrow> a = b"
  by (metis mag_of_body_less_iff less_irrefl linorder_neqE_nat)

lemma mag_of_body_0 [simp]: "mag_of_body 0 = 0"
  by (simp add: mag_of_body_def)

lemma mag_of_body_eq_0 [simp]: "mag_of_body a = 0 \<longleftrightarrow> a = 0"
  using mag_of_body_eq_iff[of a 0] by simp

lemma f64_body_lt: "f64_body f < 2 ^ 63"
  unfolding f64_body_def unsigned_take_bit_eq by (rule take_bit_nat_less_exp)


section \<open>Conversion from integers\<close>

lemma floor_log2_bounds: "0 < n \<Longrightarrow> 2 ^ floor_log2 n \<le> n \<and> n < 2 ^ Suc (floor_log2 n)"
proof (induction n rule: floor_log2.induct)
  case (1 n)
  show ?case
  proof (cases "n < 2")
    case True
    with "1.prems" have "n = 1" by simp
    then show ?thesis by (simp add: floor_log2.simps)
  next
    case False
    then have "2 ^ floor_log2 (n div 2) \<le> n div 2" "n div 2 < 2 ^ Suc (floor_log2 (n div 2))"
      using 1 by simp_all
    then show ?thesis using False by (subst (1 2) floor_log2.simps) auto
  qed
qed

lemma unat_of_nat_u64: "n < 2 ^ 64 \<Longrightarrow> unat (of_nat n :: u64) = n"
  by (simp add: unat_of_nat)

lemma f64_sign_unat: "f64_sign f \<longleftrightarrow> odd (unat f div 2 ^ 63)"
proof -
  have "f64_sign f \<longleftrightarrow> bit (unat f) 63"
    by (simp add: f64_sign_def bit_unsigned_iff)
  then show ?thesis by (simp only: bit_iff_odd)
qed

lemma divmod_shift: "m < (P::nat) \<Longrightarrow> (e * P + m) div P = e" "m < P \<Longrightarrow> (e * P + m) mod P = m"
  by simp_all

lemma f64_parts_of_nat:
  assumes "b < 2 ^ 63"
  shows "f64_body (of_nat b) = b" "\<not> f64_sign (of_nat b)"
    "f64_body (of_nat (b + 2 ^ 63)) = b" "f64_sign (of_nat (b + 2 ^ 63))"
proof -
  have sign: "f64_sign (of_nat k) \<longleftrightarrow> odd (k div 2 ^ 63)" if "k < 2 ^ 64" for k
    using that unfolding f64_sign_unat by (simp add: unat_of_nat)
  have body: "f64_body (of_nat k) = k mod 2 ^ 63" if "k < 2 ^ 64" for k
    unfolding f64_body_def unsigned_take_bit_eq unat_of_nat_u64[OF that] by (simp only: take_bit_eq_mod)
  show "f64_body (of_nat b) = b" "f64_body (of_nat (b + 2 ^ 63)) = b"
    using assms by (subst body; simp)+
  show "\<not> f64_sign (of_nat b)" "f64_sign (of_nat (b + 2 ^ 63))"
    using assms by (subst sign; simp add: div_add_self2)+
qed

lemma round_sig_small: "floor_log2 n \<le> 52 \<Longrightarrow> round_sig n = n * 2 ^ (52 - floor_log2 n)"
  by (simp add: round_sig_def Let_def)

text \<open>Integers of at most 53 bits convert exactly.\<close>

lemma mag_of_small_int:
  assumes "0 < n" "n < 2 ^ 53"
  shows "mag_of_body ((floor_log2 n + 1023) * 2 ^ 52 + (round_sig n - 2 ^ 52)) = n * 2 ^ 1074"
    and "(floor_log2 n + 1023) * 2 ^ 52 + (round_sig n - 2 ^ 52) < 2 ^ 63"
proof -
  let ?e = "floor_log2 n"
  have b: "2 ^ ?e \<le> n" "n < 2 ^ Suc ?e" using floor_log2_bounds assms by auto
  have e: "?e \<le> 52"
  proof (rule ccontr)
    assume "\<not> ?e \<le> 52"
    then have "(2::nat) ^ 53 \<le> 2 ^ ?e" by (intro power_increasing) auto
    then show False using b assms by linarith
  qed
  then have sig: "round_sig n = n * 2 ^ (52 - ?e)" by (rule round_sig_small)
  have p: "(2::nat) ^ 52 = 2 ^ ?e * 2 ^ (52 - ?e)" using e by (simp flip: power_add)
  have lo: "2 ^ 52 \<le> round_sig n" unfolding sig p using b by simp
  have hi: "round_sig n < 2 ^ 53"
  proof -
    have "n * 2 ^ (52 - ?e) < 2 ^ Suc ?e * 2 ^ (52 - ?e)" using b by simp
    also have "\<dots> = 2 ^ 53" using p by simp
    finally show ?thesis unfolding sig .
  qed
  let ?m = "round_sig n - 2 ^ 52"
  have m: "?m < 2 ^ 52" using hi lo by simp
  have dv: "((?e + 1023) * 2 ^ 52 + ?m) div 2 ^ 52 = ?e + 1023"
    and md: "((?e + 1023) * 2 ^ 52 + ?m) mod 2 ^ 52 = ?m" by (rule divmod_shift[OF m])+
  have "mag_of_body ((?e + 1023) * 2 ^ 52 + ?m) = round_sig n * 2 ^ (?e + 1022)"
    unfolding mag_of_body_mag2 dv md mag2_def using lo by simp
  also have "\<dots> = n * (2 ^ (52 - ?e) * 2 ^ (?e + 1022))" unfolding sig by simp
  also have "(2::nat) ^ (52 - ?e) * 2 ^ (?e + 1022) = 2 ^ 1074" using e by (simp flip: power_add)
  finally show "mag_of_body ((?e + 1023) * 2 ^ 52 + ?m) = n * 2 ^ 1074" .
  have "(?e + 1023) * 2 ^ 52 + ?m < (?e + 1023) * 2 ^ 52 + 2 ^ 52" using m by simp
  also have "\<dots> \<le> 1076 * 2 ^ 52" using e by simp
  finally show "(?e + 1023) * 2 ^ 52 + ?m < 2 ^ 63" by simp
qed

text \<open>The bit pattern of an integer and its parts.\<close>

definition int_body :: "int \<Rightarrow> nat" where
  "int_body i = (if i = 0 then 0
     else (floor_log2 (nat \<bar>i\<bar>) + 1023) * 2 ^ 52 + (round_sig (nat \<bar>i\<bar>) - 2 ^ 52))"

lemma f64_of_int_body:
  assumes "int_body i < 2 ^ 63"
  shows "f64_body (f64_of_int i) = int_body i" and "f64_sign (f64_of_int i) \<longleftrightarrow> i < 0"
proof -
  have "f64_of_int i = of_nat (int_body i + (if i < 0 then 2 ^ 63 else 0))"
    by (simp add: f64_of_int_def int_body_def Let_def)
  then show "f64_body (f64_of_int i) = int_body i" and "f64_sign (f64_of_int i) \<longleftrightarrow> i < 0"
    using f64_parts_of_nat[OF assms] by (cases "i < 0"; simp)+
qed

lemma f64_nan_body: "f64_nan f \<longleftrightarrow> 2047 * 2 ^ 52 < f64_body f"
proof -
  define q r where qr: "q = f64_body f div 2 ^ 52" "r = f64_body f mod 2 ^ 52"
  have b: "f64_body f = q * 2 ^ 52 + r" and r: "r < 2 ^ 52" unfolding qr by simp_all
  have "q < 2048" using f64_body_lt[of f] b by simp
  then have "2047 * 2 ^ 52 < f64_body f \<longleftrightarrow> q = 2047 \<and> r \<noteq> 0"
    using r unfolding b by (cases "q = 2047") auto
  then show ?thesis unfolding f64_nan_def f64_exp_def f64_man_def qr by simp
qed

lemma f64_of_int_exact:
  assumes "\<bar>i\<bar> < 2 ^ 53"
  shows "f64_val (f64_of_int i) = i * 2 ^ 1074"
proof -
  have "int_body i < 2 ^ 63 \<and> int (mag_of_body (int_body i)) = \<bar>i\<bar> * 2 ^ 1074"
  proof (cases "i = 0")
    case False
    then have "0 < nat \<bar>i\<bar>" "nat \<bar>i\<bar> < 2 ^ 53" using assms by auto
    from mag_of_small_int[OF this] False show ?thesis unfolding int_body_def by simp
  qed (simp add: int_body_def)
  then show ?thesis unfolding f64_val_def using f64_of_int_body[of i] by auto
qed

text \<open>Bounds: every 64-bit integer converts to a finite double.\<close>

lemma floor_log2_less: "0 < n \<Longrightarrow> n < 2 ^ k \<Longrightarrow> floor_log2 n < k"
  using floor_log2_bounds[of n] by (metis leD leI le_less_trans power_increasing one_le_numeral)

lemma round_sig_le: "0 < n \<Longrightarrow> round_sig n \<le> 2 ^ 53"
proof -
  assume n: "0 < n"
  let ?e = "floor_log2 n"
  have hi: "n < 2 ^ Suc ?e" using floor_log2_bounds[OF n] by simp
  show ?thesis
  proof (cases "?e \<le> 52")
    case True
    have "n * 2 ^ (52 - ?e) \<le> 2 ^ Suc ?e * 2 ^ (52 - ?e)" using hi by simp
    also have "\<dots> = 2 ^ 53" using True by (simp flip: power_add power_Suc)
    finally show ?thesis using True by (simp add: round_sig_small)
  next
    case False
    have "Suc ?e = 53 + (?e - 52)" using False by simp
    then have "(2::nat) ^ Suc ?e = 2 ^ 53 * 2 ^ (?e - 52)" by (metis power_add)
    then have "n div 2 ^ (?e - 52) < 2 ^ 53" using hi by (simp add: less_mult_imp_div_less)
    then show ?thesis using False by (simp add: round_sig_def Let_def)
  qed
qed

lemma int_body_bound: "\<bar>i\<bar> < 2 ^ 64 \<Longrightarrow> int_body i < 1088 * 2 ^ 52"
proof (cases "i = 0")
  case False
  assume i: "\<bar>i\<bar> < 2 ^ 64"
  let ?n = "nat \<bar>i\<bar>"
  have n: "0 < ?n" "?n < 2 ^ 64" using False i by auto
  have "floor_log2 ?n < 64" using floor_log2_less[OF n] .
  moreover have "round_sig ?n \<le> 2 ^ 53" using round_sig_le n by simp
  ultimately have "(floor_log2 ?n + 1023) * 2 ^ 52 + (round_sig ?n - 2 ^ 52) \<le> 1086 * 2 ^ 52 + 2 ^ 52"
    by simp
  then show ?thesis using False by (simp add: int_body_def)
qed (simp add: int_body_def)

lemma f64_of_int_not_nan: "\<bar>i\<bar> < 2 ^ 64 \<Longrightarrow> \<not> f64_nan (f64_of_int i)"
  using int_body_bound[of i] f64_of_int_body(1)[of i] by (simp add: f64_nan_body)

lemma mag_of_body_bound: "b < 2 ^ 63 \<Longrightarrow> mag_of_body b < 2 ^ 2099"
proof -
  assume "b < 2 ^ 63"
  then have "b div 2 ^ 52 \<le> 2047" by simp
  moreover have "mag_of_body b < 2 ^ (52 + b div 2 ^ 52)"
    unfolding mag_of_body_mag2 by (intro mag2_upper) simp
  moreover have "(2::nat) ^ (52 + b div 2 ^ 52) \<le> 2 ^ 2099"
    using calculation(1) by (intro power_increasing) auto
  ultimately show ?thesis by linarith
qed

lemma f64_val_bound: "\<bar>f64_val f\<bar> < 2 ^ 2099"
  using mag_of_body_bound[OF f64_body_lt[of f]] by (simp add: f64_val_def flip: of_nat_less_iff)

lemma f64_inf_body: "f64_inf f \<longleftrightarrow> f64_body f = 2047 * 2 ^ 52"
proof
  assume "f64_inf f"
  then show "f64_body f = 2047 * 2 ^ 52"
    using div_mult_mod_eq[of "f64_body f" "2 ^ 52"] by (simp add: f64_inf_def f64_exp_def f64_man_def)
qed (simp add: f64_inf_def f64_exp_def f64_man_def)

lemma mag_inf: "mag_of_body (2047 * 2 ^ 52) = 2 ^ 2098"
proof -
  have "mag_of_body (2047 * 2 ^ 52) = 2 ^ 52 * 2 ^ 2046"
    unfolding mag_of_body_mag2 mag2_def by simp
  then show ?thesis by (simp flip: power_add)
qed

end
