(* ===== verification/Bson_Raw.thy ===== *)
theory Bson_Raw
  imports Float64
begin

text \<open>
  The BSON value model of \<^verbatim>\<open>src/bson\<close>: type bytes (\<^verbatim>\<open>types.go\<close>), raw
  documents (\<^verbatim>\<open>bson.go\<close>), raw values and their typed accessors
  (\<^verbatim>\<open>value.go\<close>), the structural reader (\<^verbatim>\<open>reader.go\<close>), the builder
  (\<^verbatim>\<open>builder.go\<close>) and the \<^verbatim>\<open>_id\<close> normalisation (\<^verbatim>\<open>id.go\<close>).
  Documents are byte lists exactly as on the wire; the reader walks them by offset as the code
  does, and a suffix-consuming parser (\<open>parse_elems\<close>) is the reference the proofs use.
\<close>

section \<open>Types (types.go)\<close>

abbreviation TypeDouble :: byte where "TypeDouble \<equiv> 0x01"
abbreviation TypeString :: byte where "TypeString \<equiv> 0x02"
abbreviation TypeDocument :: byte where "TypeDocument \<equiv> 0x03"
abbreviation TypeArray :: byte where "TypeArray \<equiv> 0x04"
abbreviation TypeBinary :: byte where "TypeBinary \<equiv> 0x05"
abbreviation TypeUndefined :: byte where "TypeUndefined \<equiv> 0x06"
abbreviation TypeObjectID :: byte where "TypeObjectID \<equiv> 0x07"
abbreviation TypeBoolean :: byte where "TypeBoolean \<equiv> 0x08"
abbreviation TypeDateTime :: byte where "TypeDateTime \<equiv> 0x09"
abbreviation TypeNull :: byte where "TypeNull \<equiv> 0x0A"
abbreviation TypeRegex :: byte where "TypeRegex \<equiv> 0x0B"
abbreviation TypeDBPointer :: byte where "TypeDBPointer \<equiv> 0x0C"
abbreviation TypeJavaScript :: byte where "TypeJavaScript \<equiv> 0x0D"
abbreviation TypeSymbol :: byte where "TypeSymbol \<equiv> 0x0E"
abbreviation TypeCodeWithScope :: byte where "TypeCodeWithScope \<equiv> 0x0F"
abbreviation TypeInt32 :: byte where "TypeInt32 \<equiv> 0x10"
abbreviation TypeTimestamp :: byte where "TypeTimestamp \<equiv> 0x11"
abbreviation TypeInt64 :: byte where "TypeInt64 \<equiv> 0x12"
abbreviation TypeDecimal128 :: byte where "TypeDecimal128 \<equiv> 0x13"
abbreviation TypeMinKey :: byte where "TypeMinKey \<equiv> 0xFF"
abbreviation TypeMaxKey :: byte where "TypeMaxKey \<equiv> 0x7F"

definition IsNumeric :: "byte \<Rightarrow> bool" where
  "IsNumeric t = (t \<in> {TypeDouble, TypeInt32, TypeInt64, TypeDecimal128})"

section \<open>Raw documents and values (bson.go, value.go)\<close>

datatype bson_error =
    ErrTooShort | ErrLengthMismatch | ErrMalformed | ErrInvalidUTF8 | ErrEmbeddedNUL
  | ErrTooDeep | ErrTooLarge | ErrInvalidIDType

abbreviation MinDocLen :: nat where "MinDocLen \<equiv> 5"
abbreviation MaxDepth :: nat where "MaxDepth \<equiv> 100"
abbreviation MaxDocSize :: nat where "MaxDocSize \<equiv> 16 * 1024 * 1024"

record rawvalue =
  vtype :: byte
  vdata :: bytes

record element =
  ekey :: bytes
  evalue :: rawvalue

abbreviation RawValue :: "byte \<Rightarrow> bytes \<Rightarrow> rawvalue" where
  "RawValue t d \<equiv> \<lparr>vtype = t, vdata = d\<rparr>"

abbreviation Element :: "bytes \<Rightarrow> rawvalue \<Rightarrow> element" where
  "Element k v \<equiv> \<lparr>ekey = k, evalue = v\<rparr>"

text \<open>\<^verbatim>\<open>Raw.Len\<close>; every caller has checked that four bytes are there.\<close>

definition Raw_Len :: "bytes \<Rightarrow> nat" where
  "Raw_Len r = unat (get32 r 0)"

definition DoubleOK :: "rawvalue \<Rightarrow> f64 option" where
  "DoubleOK v = (if vtype v \<noteq> TypeDouble \<or> length (vdata v) < 8 then None
     else Some (get64 (vdata v) 0))"

definition Int32OK :: "rawvalue \<Rightarrow> int option" where
  "Int32OK v = (if vtype v \<noteq> TypeInt32 \<or> length (vdata v) < 4 then None
     else Some (sint (get32 (vdata v) 0)))"

definition Int64OK :: "rawvalue \<Rightarrow> int option" where
  "Int64OK v = (if vtype v \<noteq> TypeInt64 \<or> length (vdata v) < 8 then None
     else Some (sint (get64 (vdata v) 0)))"

text \<open>The unchecked accessors return the zero value where the checked one reports false.\<close>

definition DoubleV :: "rawvalue \<Rightarrow> f64" where
  "DoubleV v = (case DoubleOK v of None \<Rightarrow> 0 | Some f \<Rightarrow> f)"

definition Int32V :: "rawvalue \<Rightarrow> int" where
  "Int32V v = (case Int32OK v of None \<Rightarrow> 0 | Some i \<Rightarrow> i)"

definition Int64V :: "rawvalue \<Rightarrow> int" where
  "Int64V v = (case Int64OK v of None \<Rightarrow> 0 | Some i \<Rightarrow> i)"

definition DateTimeV :: "rawvalue \<Rightarrow> int" where
  "DateTimeV v = (if vtype v \<noteq> TypeDateTime \<or> length (vdata v) < 8 then 0
     else sint (get64 (vdata v) 0))"

definition TimestampV :: "rawvalue \<Rightarrow> u64" where
  "TimestampV v = (if vtype v \<noteq> TypeTimestamp \<or> length (vdata v) < 8 then 0
     else get64 (vdata v) 0)"

definition BooleanV :: "rawvalue \<Rightarrow> bool" where
  "BooleanV v = (vtype v = TypeBoolean \<and> length (vdata v) \<ge> 1 \<and> vdata v ! 0 \<noteq> 0)"

definition AsFloat64 :: "rawvalue \<Rightarrow> f64 option" where
  "AsFloat64 v =
     (if vtype v = TypeDouble then DoubleOK v
      else if vtype v = TypeInt32 then map_option f64_of_int (Int32OK v)
      else if vtype v = TypeInt64 then map_option f64_of_int (Int64OK v)
      else None)"

definition StringValueOK :: "rawvalue \<Rightarrow> bytes option" where
  "StringValueOK v =
     (if vtype v \<notin> {TypeString, TypeSymbol, TypeJavaScript} then None
      else if length (vdata v) < 4 then None
      else let n = unat (get32 (vdata v) 0) in
        if n < 1 \<or> 4 + n > length (vdata v) then None
        else Some (sub (vdata v) 4 (n - 1)))"

definition StringValue :: "rawvalue \<Rightarrow> bytes" where
  "StringValue v = (case StringValueOK v of None \<Rightarrow> [] | Some s \<Rightarrow> s)"

definition ObjectIDV :: "rawvalue \<Rightarrow> bytes" where
  "ObjectIDV v = (if vtype v = TypeObjectID \<and> length (vdata v) \<ge> 12 then take 12 (vdata v)
     else replicate 12 0)"

definition BinaryOK :: "rawvalue \<Rightarrow> (byte \<times> bytes) option" where
  "BinaryOK v =
     (if vtype v \<noteq> TypeBinary \<or> length (vdata v) < 5 then None
      else let n = unat (get32 (vdata v) 0) in
        if 5 + n > length (vdata v) then None
        else Some (vdata v ! 4, sub (vdata v) 5 n))"

definition Decimal128V :: "rawvalue \<Rightarrow> bytes" where
  "Decimal128V v = (if vtype v = TypeDecimal128 \<and> length (vdata v) \<ge> 16 then take 16 (vdata v)
     else replicate 16 0)"

text \<open>A nil \<^verbatim>\<open>Raw\<close> is the empty byte list.\<close>

definition DocumentV :: "rawvalue \<Rightarrow> bytes" where
  "DocumentV v = (if (vtype v = TypeDocument \<or> vtype v = TypeArray) \<and> length (vdata v) \<ge> MinDocLen
     then vdata v else [])"

text \<open>\<^verbatim>\<open>cstrEnd\<close>: the index of the first NUL at or after \<open>off\<close>.\<close>

function cstrEnd :: "bytes \<Rightarrow> nat \<Rightarrow> nat option" where
  "cstrEnd b i = (if i < length b then (if b ! i = 0 then Some i else cstrEnd b (i + 1)) else None)"
  by pat_completeness auto
termination
  by (relation "measure (\<lambda>(b, i). length b - i)") auto

declare cstrEnd.simps [simp del]

lemma cstrEnd_bounds: "cstrEnd b i = Some j \<Longrightarrow> i \<le> j \<and> j < length b \<and> b ! j = 0"
proof (induction b i rule: cstrEnd.induct)
  case (1 b i)
  then show ?case by (subst (asm) cstrEnd.simps) (auto split: if_splits)
qed

definition RegexOK :: "rawvalue \<Rightarrow> (bytes \<times> bytes) option" where
  "RegexOK v =
     (if vtype v \<noteq> TypeRegex then None
      else case cstrEnd (vdata v) 0 of None \<Rightarrow> None
        | Some i \<Rightarrow> (case cstrEnd (vdata v) (i + 1) of None \<Rightarrow> None
          | Some j \<Rightarrow> Some (take i (vdata v), sub (vdata v) (i + 1) (j - (i + 1)))))"

section \<open>The reader (reader.go)\<close>

definition need :: "bytes \<Rightarrow> nat \<Rightarrow> bson_error + nat" where
  "need b n = (if length b < n then Inl ErrMalformed else Inr n)"

text \<open>\<^verbatim>\<open>scanValue\<close>: the number of payload bytes the value of type \<open>t\<close> takes at the front
  of \<open>b\<close>. The byte the string and document cases inspect is inside \<open>b\<close> by the length test
  before it.\<close>

definition scanValue :: "bytes \<Rightarrow> byte \<Rightarrow> bson_error + nat" where
  "scanValue b t =
     (if t \<in> {TypeDouble, TypeDateTime, TypeTimestamp, TypeInt64} then need b 8
      else if t = TypeInt32 then need b 4
      else if t = TypeObjectID then need b 12
      else if t = TypeBoolean then need b 1
      else if t = TypeDecimal128 then need b 16
      else if t \<in> {TypeNull, TypeUndefined, TypeMinKey, TypeMaxKey} then Inr 0
      else if t \<in> {TypeString, TypeJavaScript, TypeSymbol} then
        (if length b < 4 then Inl ErrMalformed
         else let n = unat (get32 b 0) in
           if n < 1 \<or> 4 + n > length b \<or> b ! (4 + n - 1) \<noteq> 0 then Inl ErrMalformed else Inr (4 + n))
      else if t \<in> {TypeDocument, TypeArray} then
        (if length b < 4 then Inl ErrMalformed
         else let n = unat (get32 b 0) in
           if n < MinDocLen \<or> n > length b \<or> b ! (n - 1) \<noteq> 0 then Inl ErrMalformed else Inr n)
      else if t = TypeBinary then
        (if length b < 5 then Inl ErrMalformed
         else let n = unat (get32 b 0) in
           if 5 + n > length b then Inl ErrMalformed else Inr (5 + n))
      else if t = TypeRegex then
        (case cstrEnd b 0 of None \<Rightarrow> Inl ErrMalformed
          | Some i \<Rightarrow> (case cstrEnd b (i + 1) of None \<Rightarrow> Inl ErrMalformed | Some j \<Rightarrow> Inr (j + 1)))
      else if t = TypeDBPointer then
        (if length b < 4 then Inl ErrMalformed
         else let n = unat (get32 b 0) in
           if n < 1 \<or> 4 + n + 12 > length b then Inl ErrMalformed else Inr (4 + n + 12))
      else if t = TypeCodeWithScope then
        (if length b < 4 then Inl ErrMalformed
         else let n = unat (get32 b 0) in
           if n < 4 \<or> n > length b then Inl ErrMalformed else Inr n)
      else Inl ErrMalformed)"

text \<open>The loop of \<^verbatim>\<open>Raw.Elements\<close>, at offset \<open>off\<close> with the elements read so far.\<close>

function elements_loop :: "bytes \<Rightarrow> nat \<Rightarrow> element list \<Rightarrow> bson_error + element list" where
  "elements_loop r off out =
     (if off \<ge> length r then Inl ErrMalformed
      else let t = r ! off in
        if t = 0 then (if off \<noteq> length r - 1 then Inl ErrMalformed else Inr out)
        else case cstrEnd r (off + 1) of None \<Rightarrow> Inl ErrMalformed
          | Some ke \<Rightarrow>
            let key = sub r (off + 1) (ke - (off + 1)) in
            (case scanValue (drop (ke + 1) r) t of Inl e \<Rightarrow> Inl e
              | Inr n \<Rightarrow> elements_loop r (ke + 1 + n)
                    (out @ [Element key (RawValue t (sub r (ke + 1) n))])))"
  by pat_completeness auto
termination
  by (relation "measure (\<lambda>(r, off, out). length r - off)") (auto dest!: cstrEnd_bounds)

declare elements_loop.simps [simp del]

definition Elements :: "bytes \<Rightarrow> bson_error + element list" where
  "Elements r =
     (if length r < MinDocLen then Inl ErrTooShort
      else if Raw_Len r \<noteq> length r then Inl ErrLengthMismatch
      else elements_loop r 4 [])"

text \<open>\<^verbatim>\<open>Raw.Lookup\<close> stops at the first match.\<close>

function lookup_loop :: "bytes \<Rightarrow> bytes \<Rightarrow> nat \<Rightarrow> rawvalue option" where
  "lookup_loop r key off =
     (if off < length r then
        (let t = r ! off in
         if t = 0 then None
         else case cstrEnd r (off + 1) of None \<Rightarrow> None
           | Some ke \<Rightarrow>
             (case scanValue (drop (ke + 1) r) t of Inl e \<Rightarrow> None
               | Inr n \<Rightarrow>
                 if sub r (off + 1) (ke - (off + 1)) = key then Some (RawValue t (sub r (ke + 1) n))
                 else lookup_loop r key (ke + 1 + n)))
      else None)"
  by pat_completeness auto
termination
  by (relation "measure (\<lambda>(r, key, off). length r - off)") (auto dest!: cstrEnd_bounds)

declare lookup_loop.simps [simp del]

definition Lookup :: "bytes \<Rightarrow> bytes \<Rightarrow> rawvalue option" where
  "Lookup r key = (if length r < MinDocLen \<or> Raw_Len r \<noteq> length r then None else lookup_loop r key 4)"

text \<open>\<^verbatim>\<open>utf8.Valid\<close> of the standard library: the well-formed sequences of the UTF-8
  definition, without overlong forms and surrogates.\<close>

definition utf8_cont :: "byte \<Rightarrow> bool" where
  "utf8_cont b = (0x80 \<le> b \<and> b \<le> 0xBF)"

definition utf8_in :: "byte \<Rightarrow> byte \<Rightarrow> byte \<Rightarrow> bool" where
  "utf8_in lo hi b = (lo \<le> b \<and> b \<le> hi)"

fun utf8_valid :: "bytes \<Rightarrow> bool" where
  "utf8_valid [] = True"
| "utf8_valid (a # s) =
     (if a < 0x80 then utf8_valid s
      else if utf8_in 0xC2 0xDF a then
        (case s of b # s' \<Rightarrow> utf8_cont b \<and> utf8_valid s' | _ \<Rightarrow> False)
      else if utf8_in 0xE0 0xEF a then
        (case s of b # c # s' \<Rightarrow>
             utf8_in (if a = 0xE0 then 0xA0 else 0x80) (if a = 0xED then 0x9F else 0xBF) b
             \<and> utf8_cont c \<and> utf8_valid s'
           | _ \<Rightarrow> False)
      else if utf8_in 0xF0 0xF4 a then
        (case s of b # c # d # s' \<Rightarrow>
             utf8_in (if a = 0xF0 then 0x90 else 0x80) (if a = 0xF4 then 0x8F else 0xBF) b
             \<and> utf8_cont c \<and> utf8_cont d \<and> utf8_valid s'
           | _ \<Rightarrow> False)
      else False)"

definition WellFormed :: "bytes \<Rightarrow> bson_error option" where
  "WellFormed r =
     (if length r < MinDocLen then Some ErrTooShort
      else if Raw_Len r \<noteq> length r then Some ErrLengthMismatch
      else if r ! (length r - 1) \<noteq> 0 then Some ErrLengthMismatch
      else None)"

lemma scanValue_le: "scanValue b t = Inr n \<Longrightarrow> n \<le> length b"
  by (auto simp: scanValue_def need_def Let_def Suc_le_eq dest!: cstrEnd_bounds
      split: if_splits option.splits)

text \<open>\<^verbatim>\<open>validateDoc\<close> and its loop. A nested document is at least two bytes shorter than
  the document around it, so the recursion ends; \<open>None\<close> is success.\<close>

function (sequential) validateDoc :: "bytes \<Rightarrow> nat \<Rightarrow> bson_error option"
  and validate_loop :: "bytes \<Rightarrow> nat \<Rightarrow> nat \<Rightarrow> bson_error option" where
  "validateDoc b depth =
     (if depth > MaxDepth then Some ErrTooDeep
      else if length b < MinDocLen \<or> unat (get32 b 0) \<noteq> length b \<or> b ! (length b - 1) \<noteq> 0
      then Some ErrMalformed
      else validate_loop b depth 4)"
| "validate_loop b depth off =
     (if off \<ge> length b then Some ErrMalformed
      else let t = b ! off in
        if t = 0 then (if off \<noteq> length b - 1 then Some ErrMalformed else None)
        else case cstrEnd b (off + 1) of None \<Rightarrow> Some ErrMalformed
          | Some ke \<Rightarrow>
            if \<not> utf8_valid (sub b (off + 1) (ke - (off + 1))) then Some ErrInvalidUTF8
            else (case scanValue (drop (ke + 1) b) t of Inl e \<Rightarrow> Some e
              | Inr n \<Rightarrow>
                let val = sub b (ke + 1) n in
                if t \<in> {TypeString, TypeJavaScript, TypeSymbol} then
                  (let s = sub val 4 (unat (get32 val 0) - 1) in
                   if \<not> utf8_valid s then Some ErrInvalidUTF8
                   else if 0 \<in> set s then Some ErrEmbeddedNUL
                   else validate_loop b depth (ke + 1 + n))
                else if t \<in> {TypeDocument, TypeArray} then
                  (case validateDoc val (depth + 1) of Some e \<Rightarrow> Some e
                    | None \<Rightarrow> validate_loop b depth (ke + 1 + n))
                else validate_loop b depth (ke + 1 + n)))"
  by pat_completeness auto
termination
  by (relation "measures [\<lambda>x. case x of Inl (b, d) \<Rightarrow> length b | Inr (b, d, off) \<Rightarrow> length b,
        \<lambda>x. case x of Inl (b, d) \<Rightarrow> Suc (length b) | Inr (b, d, off) \<Rightarrow> length b - off]")
     (auto dest!: cstrEnd_bounds)

declare validateDoc.simps [simp del] validate_loop.simps [simp del]

definition Validate :: "bytes \<Rightarrow> bson_error option" where
  "Validate r =
     (case WellFormed r of Some e \<Rightarrow> Some e
      | None \<Rightarrow> if length r > MaxDocSize then Some ErrTooLarge else validateDoc r 1)"


section \<open>The builder (builder.go)\<close>

text \<open>A \<^verbatim>\<open>Builder\<close> is its body buffer; each method returns the extended body.\<close>

definition elem :: "bytes \<Rightarrow> byte \<Rightarrow> bytes \<Rightarrow> bytes" where
  "elem body t key = body @ [t] @ key @ [0]"

definition AppendValue :: "bytes \<Rightarrow> bytes \<Rightarrow> rawvalue \<Rightarrow> bytes" where
  "AppendValue body key v = elem body (vtype v) key @ vdata v"

definition AppendDouble :: "bytes \<Rightarrow> bytes \<Rightarrow> f64 \<Rightarrow> bytes" where
  "AppendDouble body key v = elem body TypeDouble key @ le_put 8 v"

definition AppendString :: "bytes \<Rightarrow> bytes \<Rightarrow> bytes \<Rightarrow> bytes" where
  "AppendString body key v =
     elem body TypeString key @ le_put 4 (of_nat (length v + 1) :: u32) @ v @ [0]"

definition AppendInt32 :: "bytes \<Rightarrow> bytes \<Rightarrow> u32 \<Rightarrow> bytes" where
  "AppendInt32 body key v = elem body TypeInt32 key @ le_put 4 v"

definition AppendInt64 :: "bytes \<Rightarrow> bytes \<Rightarrow> u64 \<Rightarrow> bytes" where
  "AppendInt64 body key v = elem body TypeInt64 key @ le_put 8 v"

definition AppendObjectID :: "bytes \<Rightarrow> bytes \<Rightarrow> bytes \<Rightarrow> bytes" where
  "AppendObjectID body key oid = elem body TypeObjectID key @ oid"

definition AppendBoolean :: "bytes \<Rightarrow> bytes \<Rightarrow> bool \<Rightarrow> bytes" where
  "AppendBoolean body key v = elem body TypeBoolean key @ (if v then [0x01] else [0x00])"

definition AppendDateTime :: "bytes \<Rightarrow> bytes \<Rightarrow> u64 \<Rightarrow> bytes" where
  "AppendDateTime body key msec = elem body TypeDateTime key @ le_put 8 msec"

definition AppendTimestamp :: "bytes \<Rightarrow> bytes \<Rightarrow> u64 \<Rightarrow> bytes" where
  "AppendTimestamp body key v = elem body TypeTimestamp key @ le_put 8 v"

definition AppendNull :: "bytes \<Rightarrow> bytes \<Rightarrow> bytes" where
  "AppendNull body key = elem body TypeNull key"

definition AppendBinary :: "bytes \<Rightarrow> bytes \<Rightarrow> byte \<Rightarrow> bytes \<Rightarrow> bytes" where
  "AppendBinary body key subtype data =
     elem body TypeBinary key @ le_put 4 (of_nat (length data) :: u32) @ [subtype] @ data"

definition AppendDocument :: "bytes \<Rightarrow> bytes \<Rightarrow> bytes \<Rightarrow> bytes" where
  "AppendDocument body key doc = elem body TypeDocument key @ doc"

definition AppendArray :: "bytes \<Rightarrow> bytes \<Rightarrow> bytes \<Rightarrow> bytes" where
  "AppendArray body key arr = elem body TypeArray key @ arr"

definition Build :: "bytes \<Rightarrow> bytes" where
  "Build body = le_put 4 (of_nat (4 + length body + 1) :: u32) @ body @ [0]"

text \<open>\<^verbatim>\<open>itoa\<close>: the decimal digits of \<open>n\<close>, least significant written last.\<close>

fun itoa_loop :: "nat \<Rightarrow> bytes \<Rightarrow> bytes" where
  "itoa_loop n buf = (if n > 0 then itoa_loop (n div 10) (of_nat (48 + n mod 10) # buf) else buf)"

declare itoa_loop.simps [simp del]

definition itoa :: "nat \<Rightarrow> bytes" where
  "itoa n = (if n = 0 then [48] else itoa_loop n [])"

fun build_array_loop :: "nat \<Rightarrow> rawvalue list \<Rightarrow> bytes \<Rightarrow> bytes" where
  "build_array_loop i [] body = body"
| "build_array_loop i (v # vs) body = build_array_loop (i + 1) vs (AppendValue body (itoa i) v)"

definition BuildArray :: "rawvalue list \<Rightarrow> bytes" where
  "BuildArray vals = Build (build_array_loop 0 vals [])"

section \<open>Identity normalisation (id.go)\<close>

definition idField :: bytes where
  "idField = str ''_id''"

definition ValidIDType :: "byte \<Rightarrow> bool" where
  "ValidIDType t = (t \<in> {TypeDouble, TypeString, TypeBinary, TypeObjectID, TypeBoolean,
     TypeDateTime, TypeInt32, TypeTimestamp, TypeInt64, TypeDecimal128, TypeDocument})"

text \<open>The index of the first element named \<^verbatim>\<open>_id\<close>.\<close>

fun id_index :: "element list \<Rightarrow> nat option" where
  "id_index [] = None"
| "id_index (e # es) = (if ekey e = idField then Some 0 else map_option Suc (id_index es))"

definition append_all :: "bytes \<Rightarrow> element list \<Rightarrow> bytes" where
  "append_all body es = foldl (\<lambda>b e. AppendValue b (ekey e) (evalue e)) body es"

definition default_value :: "rawvalue option \<Rightarrow> rawvalue" where
  "default_value v = (case v of None \<Rightarrow> RawValue 0 [] | Some x \<Rightarrow> x)"

text \<open>\<^verbatim>\<open>EnsureID\<close>; the generator's fresh ObjectId is the argument \<open>oid\<close>.\<close>

definition EnsureID :: "bytes \<Rightarrow> bytes \<Rightarrow> bson_error + (bytes \<times> rawvalue)" where
  "EnsureID d oid =
     (case Validate d of Some e \<Rightarrow> Inl e
      | None \<Rightarrow> (case Elements d of Inl e \<Rightarrow> Inl e
        | Inr elems \<Rightarrow> (case id_index elems of
            None \<Rightarrow>
              (let out = Build (append_all (AppendObjectID [] idField oid) elems)
               in Inr (out, default_value (Lookup out idField)))
          | Some idIdx \<Rightarrow>
              if \<not> ValidIDType (vtype (evalue (elems ! idIdx))) then Inl ErrInvalidIDType
              else if idIdx = 0 then Inr (d, default_value (Lookup d idField))
              else
                (let body = AppendValue [] idField (evalue (elems ! idIdx));
                     out = Build (append_all body (take idIdx elems @ drop (idIdx + 1) elems))
                 in Inr (out, default_value (Lookup out idField))))))"

definition IDOf :: "bytes \<Rightarrow> rawvalue option" where
  "IDOf d = Lookup d idField"

section \<open>The reference parser\<close>

text \<open>A C string at the front of a byte list, and what follows it.\<close>

fun cstr :: "bytes \<Rightarrow> (bytes \<times> bytes) option" where
  "cstr [] = None"
| "cstr (b # bs) = (if b = 0 then Some ([], bs) else map_option (\<lambda>(k, r). (b # k, r)) (cstr bs))"

lemma cstr_length: "cstr s = Some (k, r) \<Longrightarrow> s = k @ [0] @ r \<and> 0 \<notin> set k"
  by (induction s arbitrary: k r) (auto split: if_splits)

function parse_elems :: "bytes \<Rightarrow> bson_error + element list" where
  "parse_elems [] = Inl ErrMalformed"
| "parse_elems (t # s) =
     (if t = 0 then (if s = [] then Inr [] else Inl ErrMalformed)
      else case cstr s of None \<Rightarrow> Inl ErrMalformed
        | Some (key, rest) \<Rightarrow> (case scanValue rest t of Inl e \<Rightarrow> Inl e
          | Inr n \<Rightarrow> (case parse_elems (drop n rest) of Inl e \<Rightarrow> Inl e
            | Inr es \<Rightarrow> Inr (Element key (RawValue t (take n rest)) # es))))"
  by pat_completeness auto
termination
  by (relation "measure length") (auto dest: cstr_length)

lemma cstr_append: "0 \<notin> set k \<Longrightarrow> cstr (k @ 0 # r) = Some (k, r)"
  by (induction k) auto

lemma cstrEnd_cstr:
  "i \<le> length r \<Longrightarrow>
    cstrEnd r i = (case cstr (drop i r) of None \<Rightarrow> None | Some (k, _) \<Rightarrow> Some (i + length k))"
proof (induction r i rule: cstrEnd.induct)
  case (1 r i)
  show ?case
  proof (cases "i < length r")
    case True
    then have d: "drop i r = r ! i # drop (i + 1) r" by (simp add: Cons_nth_drop_Suc)
    show ?thesis
    proof (cases "r ! i = 0")
      case True
      then show ?thesis using \<open>i < length r\<close> by (subst cstrEnd.simps) (simp add: d)
    next
      case False
      then show ?thesis using \<open>i < length r\<close> 1
        by (subst cstrEnd.simps) (auto simp: d split: option.splits)
    qed
  next
    case False
    then show ?thesis using 1 by (subst cstrEnd.simps) simp
  qed
qed

text \<open>One step of an offset walk over \<open>r\<close>, in terms of the suffix at the offset.\<close>

lemma drop_step: "off < length r \<Longrightarrow> drop off r = r ! off # drop (Suc off) r"
  by (simp add: Cons_nth_drop_Suc)

lemma cstr_step_None:
  "off < length r \<Longrightarrow> cstr (drop (Suc off) r) = None \<Longrightarrow> cstrEnd r (Suc off) = None"
  by (simp add: cstrEnd_cstr)

lemma cstr_step:
  assumes "off < length r" and "cstr (drop (Suc off) r) = Some (k, rest)"
  shows "cstrEnd r (Suc off) = Some (Suc off + length k)"
    and "drop (Suc (Suc off + length k) + n) r = drop n rest"
    and "sub r (Suc off) (length k) = k"
    and "sub r (Suc (Suc off + length k)) n = take n rest"
proof -
  show "cstrEnd r (Suc off) = Some (Suc off + length k)"
    using assms by (simp add: cstrEnd_cstr)
  have split: "drop (Suc off) r = k @ 0 # rest"
    using cstr_length[OF assms(2)] by simp
  have "drop (Suc (Suc off + length k) + n) r = drop (Suc (length k) + n) (drop (Suc off) r)" for n
    by (simp add: add.commute add.left_commute)
  then show dr: "drop (Suc (Suc off + length k) + n) r = drop n rest" for n
    by (simp add: split)
  show "sub r (Suc off) (length k) = k"
    by (simp add: sub_def split)
  show "sub r (Suc (Suc off + length k)) n = take n rest"
    using dr[of 0] by (simp add: sub_def)
qed

lemmas cstr_steps = cstr_step cstr_step(2)[where n = 0, simplified]

lemma elements_loop_parse:
  "elements_loop r off out =
     (case parse_elems (drop off r) of Inl e \<Rightarrow> Inl e | Inr es \<Rightarrow> Inr (out @ es))"
proof (induction r off out rule: elements_loop.induct)
  case (1 r off out)
  show ?case
  proof (cases "off < length r \<and> r ! off \<noteq> 0 \<and> cstr (drop (Suc off) r) \<noteq> None")
    case False
    then consider "length r \<le> off" | "off < length r" "r ! off = 0"
      | "off < length r" "r ! off \<noteq> 0" "cstr (drop (Suc off) r) = None" by force
    then show ?thesis
    proof cases
      case 2
      then have "off = length r - 1 \<longleftrightarrow> drop (Suc off) r = []" by auto
      with 2 show ?thesis by (subst elements_loop.simps) (simp add: drop_step[of off r] Let_def)
    qed (subst elements_loop.simps; simp add: drop_step[of off r] Let_def cstr_step_None)+
  next
    case True
    then obtain k rest where off: "off < length r" "r ! off \<noteq> 0"
      and k: "cstr (drop (Suc off) r) = Some (k, rest)" by auto
    note st = cstr_steps[OF off(1) k]
    show ?thesis
    proof (cases "scanValue rest (r ! off)")
      case (Inl e)
      then show ?thesis using off k
        by (subst elements_loop.simps) (simp add: drop_step Let_def st[simplified])
    next
      case (Inr n)
      let ?out = "out @ [Element k (RawValue (r ! off) (take n rest))]"
      have "elements_loop r off out = elements_loop r (Suc (Suc off + length k) + n) ?out"
        using off Inr by (subst elements_loop.simps) (simp add: Let_def st[simplified])
      also have "\<dots> = (case parse_elems (drop n rest) of Inl e \<Rightarrow> Inl e | Inr es \<Rightarrow> Inr (?out @ es))"
        using 1[OF _ refl, of "Suc off + length k" _ n] off Inr st
        by (simp add: st[simplified] split: sum.splits)
      finally show ?thesis using off k Inr by (auto simp: drop_step split: sum.splits)
    qed
  qed
qed

lemma lookup_loop_parse:
  "parse_elems (drop off r) = Inr es \<Longrightarrow>
    lookup_loop r key off = map_option evalue (find (\<lambda>e. ekey e = key) es)"
proof (induction r key off arbitrary: es rule: lookup_loop.induct)
  case (1 r key off)
  have off: "off < length r" using "1.prems" by (rule contrapos_pp) simp
  show ?case
  proof (cases "r ! off = 0")
    case True
    then show ?thesis using "1.prems" off
      by (subst lookup_loop.simps) (auto simp: drop_step split: if_splits)
  next
    case False
    then obtain k rest n es' where k: "cstr (drop (Suc off) r) = Some (k, rest)"
      and n: "scanValue rest (r ! off) = Inr n" and p: "parse_elems (drop n rest) = Inr es'"
      and es: "es = Element k (RawValue (r ! off) (take n rest)) # es'"
      using "1.prems" off by (auto simp: drop_step split: option.splits sum.splits)
    note st = cstr_steps[OF off k]
    have "lookup_loop r key (Suc (Suc off + length k) + n) = map_option evalue (find (\<lambda>e. ekey e = key) es')"
      if "k \<noteq> key"
      using 1(1)[OF off refl False, of "Suc off + length k" n es'] n p that st by (simp add: st[simplified])
    then show ?thesis using off False n st
      by (subst lookup_loop.simps, cases "k = key") (auto simp: Let_def es)
  qed
qed

section \<open>Sizing is stable\<close>

lemma get32_append: "4 \<le> length b \<Longrightarrow> get32 (b @ c) 0 = get32 b 0"
  by (simp add: sub_def)

lemma get32_take: "4 \<le> n \<Longrightarrow> get32 (take n b) 0 = get32 b 0"
  by (simp add: sub_def min_def)

lemma cstr_append_some: "cstr b = Some (k, r) \<Longrightarrow> cstr (b @ c) = Some (k, r @ c)"
  by (induction b arbitrary: k r) (auto split: if_splits)

lemma cstrEnd_append: "cstrEnd b i = Some j \<Longrightarrow> cstrEnd (b @ c) i = Some j"
proof -
  assume a: "cstrEnd b i = Some j"
  then have i: "i \<le> length b" using cstrEnd_bounds by fastforce
  then obtain k r where "cstr (drop i b) = Some (k, r)" and "j = i + length k"
    using a by (auto simp: cstrEnd_cstr split: option.splits)
  then show ?thesis using i by (simp add: cstrEnd_cstr cstr_append_some)
qed

lemma cstrEnd_take: "cstrEnd b i = Some j \<Longrightarrow> j < m \<Longrightarrow> cstrEnd (take m b) i = Some j"
proof (induction b i rule: cstrEnd.induct)
  case (1 b i)
  note b = cstrEnd_bounds[OF "1.prems"(1)]
  show ?case
  proof (cases "b ! i = 0")
    case True
    then have "j = i" using "1.prems"(1) b by (subst (asm) cstrEnd.simps) (auto split: if_splits)
    with True b "1.prems"(2) show ?thesis by (subst cstrEnd.simps) simp
  next
    case False
    then have "cstrEnd b (i + 1) = Some j"
      using "1.prems"(1) b by (subst (asm) cstrEnd.simps) (auto split: if_splits)
    with 1 False b show ?thesis by (subst cstrEnd.simps) auto
  qed
qed

text \<open>The nine ways a value is sized, by type byte.\<close>

definition scan_fixed :: "byte \<Rightarrow> nat option" where
  "scan_fixed t =
     (if t \<in> {TypeDouble, TypeDateTime, TypeTimestamp, TypeInt64} then Some 8
      else if t = TypeInt32 then Some 4 else if t = TypeObjectID then Some 12
      else if t = TypeBoolean then Some 1 else if t = TypeDecimal128 then Some 16
      else if t \<in> {TypeNull, TypeUndefined, TypeMinKey, TypeMaxKey} then Some 0 else None)"

abbreviation is_stringy :: "byte \<Rightarrow> bool" where
  "is_stringy t \<equiv> t \<in> {TypeString, TypeJavaScript, TypeSymbol}"
abbreviation is_docish :: "byte \<Rightarrow> bool" where
  "is_docish t \<equiv> t \<in> {TypeDocument, TypeArray}"

lemma scan_class [case_names fixed string doc binary regex dbptr code bad]:
  obtains (fixed) k where "scan_fixed t = Some k" "\<And>b. scanValue b t = need b k"
    | (string) "is_stringy t" "\<And>b. scanValue b t = (if length b < 4 then Inl ErrMalformed
         else let n = unat (get32 b 0) in
           if n < 1 \<or> 4 + n > length b \<or> b ! (4 + n - 1) \<noteq> 0 then Inl ErrMalformed else Inr (4 + n))"
    | (doc) "is_docish t" "\<And>b. scanValue b t = (if length b < 4 then Inl ErrMalformed
         else let n = unat (get32 b 0) in
           if n < MinDocLen \<or> n > length b \<or> b ! (n - 1) \<noteq> 0 then Inl ErrMalformed else Inr n)"
    | (binary) "t = TypeBinary" "\<And>b. scanValue b t = (if length b < 5 then Inl ErrMalformed
         else let n = unat (get32 b 0) in
           if 5 + n > length b then Inl ErrMalformed else Inr (5 + n))"
    | (regex) "t = TypeRegex" "\<And>b. scanValue b t = (case cstrEnd b 0 of None \<Rightarrow> Inl ErrMalformed
          | Some i \<Rightarrow> (case cstrEnd b (i + 1) of None \<Rightarrow> Inl ErrMalformed | Some j \<Rightarrow> Inr (j + 1)))"
    | (dbptr) "t = TypeDBPointer" "\<And>b. scanValue b t = (if length b < 4 then Inl ErrMalformed
         else let n = unat (get32 b 0) in
           if n < 1 \<or> 4 + n + 12 > length b then Inl ErrMalformed else Inr (4 + n + 12))"
    | (code) "t = TypeCodeWithScope" "\<And>b. scanValue b t = (if length b < 4 then Inl ErrMalformed
         else let n = unat (get32 b 0) in
           if n < 4 \<or> n > length b then Inl ErrMalformed else Inr n)"
    | (bad) "\<And>b. scanValue b t = Inl ErrMalformed"
proof (cases "scan_fixed t")
  case (Some k)
  then have "scanValue b t = need b k" for b
    by (auto simp: scan_fixed_def scanValue_def need_def split: if_splits)
  with Some show ?thesis by (rule fixed)
next
  case None
  then have nf: "t \<notin> {TypeDouble, TypeDateTime, TypeTimestamp, TypeInt64}" "t \<noteq> TypeInt32"
    "t \<noteq> TypeObjectID" "t \<noteq> TypeBoolean" "t \<noteq> TypeDecimal128"
    "t \<notin> {TypeNull, TypeUndefined, TypeMinKey, TypeMaxKey}"
    by (auto simp: scan_fixed_def split: if_splits)
  note eq = scanValue_def[of _ t, unfolded if_not_P[OF nf(1)] if_not_P[OF nf(2)] if_not_P[OF nf(3)]
      if_not_P[OF nf(4)] if_not_P[OF nf(5)] if_not_P[OF nf(6)]]
  consider "is_stringy t" | "is_docish t" | "t = TypeBinary" | "t = TypeRegex" | "t = TypeDBPointer"
    | "t = TypeCodeWithScope" | "\<not> is_stringy t" "\<not> is_docish t" "t \<noteq> TypeBinary" "t \<noteq> TypeRegex"
      "t \<noteq> TypeDBPointer" "t \<noteq> TypeCodeWithScope" by blast
  then show ?thesis
  proof cases
    case 1 show ?thesis by (rule string[OF 1]) (use 1 in \<open>simp only: eq if_True\<close>)
  next
    case 2
    then have "\<not> is_stringy t" by auto
    with 2 show ?thesis by (intro doc[OF 2]) (simp only: eq if_True if_False)
  next
    case 3 then show ?thesis by (intro binary) (simp_all add: scanValue_def)
  next
    case 4 then show ?thesis by (intro regex) (simp_all add: scanValue_def)
  next
    case 5 then show ?thesis by (intro dbptr) (simp_all add: scanValue_def)
  next
    case 6 then show ?thesis by (intro code) (simp_all add: scanValue_def)
  next
    case 7 then show ?thesis by (intro bad) (simp only: eq if_False)
  qed
qed

text \<open>The bytes after a value do not change its size, and the value's own bytes determine
  it.\<close>

lemma scanValue_append:
  assumes "scanValue b t = Inr n"
  shows "scanValue (b @ c) t = Inr n"
proof (cases t rule: scan_class)
  case (regex)
  then show ?thesis using assms
    by (auto simp: regex(2) cstrEnd_append split: option.splits)
qed (use assms in \<open>auto simp: need_def Let_def get32_append nth_append split: if_splits\<close>)

lemma scanValue_take:
  assumes "scanValue b t = Inr n"
  shows "scanValue (take n b) t = Inr n"
proof (cases t rule: scan_class)
  case (regex)
  then obtain i j where ij: "cstrEnd b 0 = Some i" "cstrEnd b (i + 1) = Some j" "n = j + 1"
    using assms by (auto split: option.splits)
  moreover have "cstrEnd (take n b) 0 = Some i" "cstrEnd (take n b) (i + 1) = Some j"
    using ij cstrEnd_bounds[OF ij(2)] by (auto intro!: cstrEnd_take)
  ultimately show ?thesis by (simp add: regex(2))
qed (use assms in \<open>auto simp: need_def Let_def get32_take split: if_splits\<close>)

section \<open>Reading back what was built\<close>

text \<open>An element the reader could have produced: a nonzero type byte, a NUL-free name, and data
  of exactly the size the type announces.\<close>

definition wf_element :: "element \<Rightarrow> bool" where
  "wf_element e = (vtype (evalue e) \<noteq> 0 \<and> 0 \<notin> set (ekey e) \<and>
     scanValue (vdata (evalue e)) (vtype (evalue e)) = Inr (length (vdata (evalue e))))"

definition enc_element :: "element \<Rightarrow> bytes" where
  "enc_element e = vtype (evalue e) # ekey e @ 0 # vdata (evalue e)"

definition enc_elements :: "element list \<Rightarrow> bytes" where
  "enc_elements es = concat (map enc_element es)"

lemma append_all_enc: "append_all body es = body @ enc_elements es"
  by (induction es arbitrary: body)
    (simp_all add: append_all_def enc_elements_def AppendValue_def elem_def enc_element_def)

lemma parse_enc_elements: "list_all wf_element es \<Longrightarrow> parse_elems (enc_elements es @ [0]) = Inr es"
proof (induction es)
  case (Cons e es)
  then have sv: "scanValue (vdata (evalue e) @ enc_elements es @ [0]) (vtype (evalue e))
      = Inr (length (vdata (evalue e)))"
    by (auto simp: wf_element_def intro: scanValue_append)
  have "enc_elements (e # es) @ [0]
      = vtype (evalue e) # ekey e @ 0 # vdata (evalue e) @ enc_elements es @ [0]"
    by (simp add: enc_elements_def enc_element_def)
  then show ?case using Cons sv by (simp add: cstr_append wf_element_def)
qed (simp add: enc_elements_def)

lemma parse_elems_enc: "parse_elems s = Inr es \<Longrightarrow> s = enc_elements es @ [0] \<and> list_all wf_element es"
proof (induction s arbitrary: es rule: parse_elems.induct)
  case (2 t s)
  show ?case
  proof (cases "t = 0")
    case True
    then show ?thesis using "2.prems" by (auto simp: enc_elements_def split: if_splits)
  next
    case False
    then obtain k rest n es' where k: "cstr s = Some (k, rest)" and n: "scanValue rest t = Inr n"
      and p: "parse_elems (drop n rest) = Inr es'"
      and es: "es = Element k (RawValue t (take n rest)) # es'"
      using "2.prems" by (auto split: option.splits sum.splits)
    have IH: "drop n rest = enc_elements es' @ [0]" "list_all wf_element es'"
      using 2(1)[OF False k refl n p] by auto
    then have "rest = take n rest @ enc_elements es' @ [0]" by (metis append_take_drop_id)
    then have "t # s = enc_elements es @ [0]"
      using cstr_length[OF k] by (simp add: es enc_elements_def enc_element_def)
    moreover have "wf_element (Element k (RawValue t (take n rest)))"
      using False cstr_length[OF k] scanValue_take[OF n] scanValue_le[OF n]
      by (simp add: wf_element_def min_def)
    ultimately show ?thesis using IH by (simp add: es)
  qed
qed simp

lemma length_Build [simp]: "length (Build body) = length body + 5"
  by (simp add: Build_def)

lemma Raw_Len_Build: "length body + 5 < 2 ^ 32 \<Longrightarrow> Raw_Len (Build body) = length body + 5"
  using unat_of_nat_id[of "4 + length body + 1", where 'a = 32]
  unfolding Raw_Len_def Build_def sub_def by (simp del: of_nat_add)

lemma drop_Build: "drop 4 (Build body) = body @ [0]"
  by (simp add: Build_def)

lemma read_built:
  assumes "list_all wf_element es" and "length (append_all [] es) + 5 < 2 ^ 32"
  shows "Elements (Build (append_all [] es)) = Inr es"
  using assms parse_enc_elements[of es]
  by (simp add: Elements_def Raw_Len_Build elements_loop_parse drop_Build append_all_enc)

text \<open>C33. Building a document from well-formed elements and reading its elements gives the same
  elements back, in order.\<close>

theorem Elements_Build:
  assumes "list_all wf_element es" and "length (append_all [] es) + 5 < 2 ^ 32"
  shows "Elements (Build (append_all [] es)) = Inr es"
  using assms by (rule read_built)

theorem Elements_Build_witness:
  "Elements (Build (append_all [] [Element (str ''a'') (RawValue TypeInt32 (le_put 4 (7 :: u32)))]))
    = Inr [Element (str ''a'') (RawValue TypeInt32 (le_put 4 (7 :: u32)))]"
proof -
  have "list_all wf_element [Element (str ''a'') (RawValue TypeInt32 (le_put 4 (7 :: u32)))]" by code_simp
  moreover have "length (append_all [] [Element (str ''a'') (RawValue TypeInt32 (le_put 4 (7 :: u32)))]) = 7" by code_simp
  ultimately show ?thesis by (intro Elements_Build) simp_all
qed

lemma Elements_parse:
  assumes "Elements r = Inr es"
  shows "5 \<le> length r" "Raw_Len r = length r" "parse_elems (drop 4 r) = Inr es"
  using assms by (auto simp: Elements_def elements_loop_parse split: if_splits sum.splits)

lemma Raw_Len_bytes: "5 \<le> length r \<Longrightarrow> Raw_Len r = length r \<Longrightarrow> take 4 r = le_put 4 (of_nat (length r) :: u32)"
proof -
  assume "5 \<le> length r" "Raw_Len r = length r"
  then have "le_put 4 (get32 r 0) = take 4 r" by (simp add: sub_def)
  moreover have "get32 r 0 = of_nat (length r)"
    using \<open>Raw_Len r = length r\<close> by (metis Raw_Len_def of_nat_unat_id)
  ultimately show ?thesis by simp
qed

lemma rebuild_read:
  assumes "Elements r = Inr es"
  shows "Build (append_all [] es) = r \<and> list_all wf_element es"
proof -
  note p = Elements_parse[OF assms]
  have d: "drop 4 r = enc_elements es @ [0]" and wf: "list_all wf_element es"
    using parse_elems_enc[OF p(3)] by auto
  have "length (drop 4 r) = length (enc_elements es) + 1"
    unfolding d by simp
  then have "length r = length (enc_elements es) + 5"
    using p(1) by simp
  then have "Build (append_all [] es) = take 4 r @ drop 4 r"
    using Raw_Len_bytes[OF p(1,2)] d by (simp add: Build_def append_all_enc add.commute)
  then show ?thesis using wf by simp
qed

text \<open>Conversely, the elements the reader returns rebuild the document byte for byte.\<close>

theorem Build_Elements:
  assumes "Elements r = Inr es"
  shows "Build (append_all [] es) = r \<and> list_all wf_element es"
  using assms by (rule rebuild_read)

theorem Build_Elements_witness:
  "Build (append_all [] [Element (str ''b'') (RawValue TypeBoolean [1])]) = [9, 0, 0, 0, 8, 98, 0, 1, 0]"
proof -
  have "Elements [9, 0, 0, 0, 8, 98, 0, 1, 0] = Inr [Element (str ''b'') (RawValue TypeBoolean [1])]" by code_simp
  from Build_Elements[OF this] show ?thesis by blast
qed

lemma lookup_read:
  assumes "Elements r = Inr es"
  shows "Lookup r key = map_option evalue (find (\<lambda>e. ekey e = key) es)"
  using Elements_parse[OF assms] lookup_loop_parse[of 4 r es key] by (simp add: Lookup_def)

text \<open>On every document the reader accepts, \<^verbatim>\<open>Lookup\<close> returns the value of the first
  element with the key, and reports absence exactly when no element has it.\<close>

theorem Lookup_Elements:
  assumes "Elements r = Inr es"
  shows "Lookup r key = map_option evalue (find (\<lambda>e. ekey e = key) es)"
  using assms by (rule lookup_read)

theorem Lookup_Elements_witness:
  "Lookup [9, 0, 0, 0, 8, 98, 0, 1, 0] (str ''b'') = Some (RawValue TypeBoolean [1])"
proof -
  have "Elements [9, 0, 0, 0, 8, 98, 0, 1, 0] = Inr [Element (str ''b'') (RawValue TypeBoolean [1])]" by code_simp
  from Lookup_Elements[OF this, of "str ''b''"] show ?thesis by simp
qed

section \<open>Deep validation\<close>

text \<open>What the validator requires of one element of a document at the given depth.\<close>

definition valid_element :: "nat \<Rightarrow> element \<Rightarrow> bool" where
  "valid_element depth e =
     (let v = evalue e; s = sub (vdata v) 4 (unat (get32 (vdata v) 0) - 1) in
      utf8_valid (ekey e) \<and>
      (is_stringy (vtype v) \<longrightarrow> utf8_valid s \<and> 0 \<notin> set s) \<and>
      (is_docish (vtype v) \<longrightarrow> validateDoc (vdata v) (depth + 1) = None))"

lemma stringy_not_docish: "is_stringy t \<Longrightarrow> \<not> is_docish t"
  by auto

lemma validate_loop_parse:
  "validate_loop b depth off = None \<longleftrightarrow>
     (\<exists>es. parse_elems (drop off b) = Inr es \<and> list_all (valid_element depth) es)"
proof (induction "length b - off" arbitrary: off rule: less_induct)
  case less
  show ?case
  proof (cases "off < length b \<and> b ! off \<noteq> 0 \<and> cstr (drop (Suc off) b) \<noteq> None")
    case False
    then consider "length b \<le> off" | "off < length b" "b ! off = 0"
      | "off < length b" "b ! off \<noteq> 0" "cstr (drop (Suc off) b) = None" by force
    then show ?thesis
    proof cases
      case 2
      then have "off = length b - 1 \<longleftrightarrow> drop (Suc off) b = []" by auto
      with 2 show ?thesis by (subst validate_loop.simps) (simp add: drop_step[of off b] Let_def)
    qed (subst validate_loop.simps; simp add: drop_step[of off b] Let_def cstr_step_None)+
  next
    case True
    then obtain k rest where off: "off < length b" "b ! off \<noteq> 0"
      and k: "cstr (drop (Suc off) b) = Some (k, rest)" by auto
    note st = cstr_steps[OF off(1) k]
    show ?thesis
    proof (cases "scanValue rest (b ! off)")
      case (Inl e)
      then show ?thesis using off k
        by (subst validate_loop.simps) (simp add: drop_step Let_def st[simplified])
    next
      case (Inr n)
      let ?v = "RawValue (b ! off) (take n rest)"
      let ?off = "Suc (Suc off + length k) + n"
      have step: "validate_loop b depth off = None \<longleftrightarrow>
          valid_element depth (Element k ?v) \<and> validate_loop b depth ?off = None"
        using off Inr
        by (subst validate_loop.simps)
          (auto simp: Let_def st[simplified] valid_element_def split: option.splits)
      have IH: "validate_loop b depth ?off = None \<longleftrightarrow>
          (\<exists>es. parse_elems (drop n rest) = Inr es \<and> list_all (valid_element depth) es)"
        using less[of ?off] off st(2)[of n] by simp
      show ?thesis unfolding step IH using off k Inr by (auto simp: drop_step split: sum.splits)
    qed
  qed
qed

text \<open>The declarative meaning of a valid document: the reader accepts it, names and strings are
  well-formed UTF-8, strings hold no NUL, nested documents are valid one level deeper, and the
  depth stays within the limit.\<close>

inductive valid_doc :: "nat \<Rightarrow> bytes \<Rightarrow> bool" where
  valid_docI: "depth \<le> MaxDepth \<Longrightarrow> Elements b = Inr es \<Longrightarrow>
    (\<And>e. e \<in> set es \<Longrightarrow> utf8_valid (ekey e)) \<Longrightarrow>
    (\<And>e s. e \<in> set es \<Longrightarrow> StringValueOK (evalue e) = Some s \<Longrightarrow> utf8_valid s \<and> 0 \<notin> set s) \<Longrightarrow>
    (\<And>e. e \<in> set es \<Longrightarrow> is_docish (vtype (evalue e)) \<Longrightarrow> valid_doc (depth + 1) (vdata (evalue e))) \<Longrightarrow>
    valid_doc depth b"

inductive_cases valid_docE: "valid_doc depth b"
inductive_simps valid_doc_iff: "valid_doc depth b"

lemma Elements_last_zero: "Elements b = Inr es \<Longrightarrow> b ! (length b - 1) = 0"
proof -
  assume "Elements b = Inr es"
  then have "Build (append_all [] es) = b" by (simp add: rebuild_read)
  moreover have "Build x ! (length (Build x) - 1) = 0" for x
    by (simp add: Build_def nth_append)
  ultimately show ?thesis by metis
qed

lemma validateDoc_Elements:
  "validateDoc b depth = None \<longleftrightarrow>
     depth \<le> MaxDepth \<and> (\<exists>es. Elements b = Inr es \<and> list_all (valid_element depth) es)"
proof -
  have "Elements b = Inr es \<longleftrightarrow> 5 \<le> length b \<and> unat (get32 b 0) = length b \<and> b ! (length b - 1) = 0
      \<and> parse_elems (drop 4 b) = Inr es" for es
    using Elements_last_zero[of b es]
    by (auto simp: Elements_def Raw_Len_def elements_loop_parse split: sum.splits)
  then show ?thesis
    by (subst validateDoc.simps) (auto simp: validate_loop_parse)
qed

lemma wf_element_string:
  assumes "wf_element e" and "is_stringy (vtype (evalue e))"
  shows "StringValueOK (evalue e) = Some (sub (vdata (evalue e)) 4 (unat (get32 (vdata (evalue e)) 0) - 1))"
proof -
  have "scanValue (vdata (evalue e)) (vtype (evalue e)) = Inr (length (vdata (evalue e)))"
    using assms by (simp add: wf_element_def)
  then have "4 \<le> length (vdata (evalue e)) \<and> 1 \<le> unat (get32 (vdata (evalue e)) 0)
      \<and> 4 + unat (get32 (vdata (evalue e)) 0) \<le> length (vdata (evalue e))"
    using assms(2) by (auto simp: scanValue_def Let_def split: if_splits)
  then show ?thesis using assms(2) by (auto simp: StringValueOK_def Let_def)
qed

lemma StringValueOK_stringy: "StringValueOK v = Some s \<Longrightarrow> is_stringy (vtype v)"
  by (auto simp: StringValueOK_def split: if_splits)

lemma valid_element_iff:
  assumes "wf_element e"
  shows "valid_element depth e \<longleftrightarrow> utf8_valid (ekey e) \<and>
     (\<forall>s. StringValueOK (evalue e) = Some s \<longrightarrow> utf8_valid s \<and> 0 \<notin> set s) \<and>
     (is_docish (vtype (evalue e)) \<longrightarrow> validateDoc (vdata (evalue e)) (depth + 1) = None)"
  using wf_element_string[OF assms] StringValueOK_stringy[of "evalue e"]
  unfolding valid_element_def Let_def by (metis option.inject)

lemma length_enc_element: "e \<in> set es \<Longrightarrow> length (vdata (evalue e)) + 2 \<le> length (enc_elements es)"
  by (induction es) (auto simp: enc_elements_def enc_element_def)

lemma Elements_shorter:
  assumes "Elements b = Inr es" and "e \<in> set es"
  shows "length (vdata (evalue e)) + 7 \<le> length b"
proof -
  have "length b = length (enc_elements es) + 5"
    using rebuild_read[OF assms(1)] by (metis append_Nil append_all_enc length_Build)
  then show ?thesis using length_enc_element[OF assms(2)] by simp
qed

lemma validateDoc_valid: "validateDoc b depth = None \<longleftrightarrow> valid_doc depth b"
proof (induction "length b" arbitrary: b depth rule: less_induct)
  case less
  show ?case
  proof (cases "Elements b")
    case (Inl e)
    then show ?thesis by (auto simp: validateDoc_Elements elim: valid_docE)
  next
    case (Inr es)
    have "wf_element e" if "e \<in> set es" for e
      using rebuild_read[OF Inr] that by (simp add: list_all_iff)
    moreover have "validateDoc (vdata (evalue e)) (depth + 1) = None \<longleftrightarrow> valid_doc (depth + 1) (vdata (evalue e))"
      if "e \<in> set es" for e
      using less[of "vdata (evalue e)" "depth + 1"] Elements_shorter[OF Inr that] by simp
    ultimately have ve: "\<forall>e\<in>set es. valid_element depth e \<longleftrightarrow> utf8_valid (ekey e) \<and>
        (\<forall>s. StringValueOK (evalue e) = Some s \<longrightarrow> utf8_valid s \<and> 0 \<notin> set s) \<and>
        (is_docish (vtype (evalue e)) \<longrightarrow> valid_doc (depth + 1) (vdata (evalue e)))"
      using valid_element_iff by blast
    have "validateDoc b depth = None \<longleftrightarrow> depth \<le> MaxDepth \<and> (\<forall>e\<in>set es. valid_element depth e)"
      using Inr by (simp add: validateDoc_Elements list_all_iff)
    also have "\<dots> \<longleftrightarrow> valid_doc depth b"
    proof
      assume A: "depth \<le> MaxDepth \<and> (\<forall>e\<in>set es. valid_element depth e)"
      show "valid_doc depth b"
        by (rule valid_docI[OF _ Inr]) (use A ve in blast)+
    next
      assume "valid_doc depth b"
      then obtain es' where d: "depth \<le> MaxDepth" and es': "Elements b = Inr es'"
        and "\<And>e. e \<in> set es' \<Longrightarrow> utf8_valid (ekey e)"
        and "\<And>e s. e \<in> set es' \<Longrightarrow> StringValueOK (evalue e) = Some s \<Longrightarrow> utf8_valid s \<and> 0 \<notin> set s"
        and "\<And>e. e \<in> set es' \<Longrightarrow> is_docish (vtype (evalue e)) \<Longrightarrow> valid_doc (depth + 1) (vdata (evalue e))"
        by cases blast
      moreover have "es' = es" using Inr es' by simp
      ultimately have "\<forall>e\<in>set es. valid_element depth e" using ve by blast
      with d show "depth \<le> MaxDepth \<and> (\<forall>e\<in>set es. valid_element depth e)" by blast
    qed
    finally show ?thesis .
  qed
qed

text \<open>C32. \<^verbatim>\<open>Validate\<close> accepts exactly the documents of at most 16 MiB that are valid at
  depth one.\<close>

theorem Validate_valid_doc:
  "Validate r = None \<longleftrightarrow> length r \<le> MaxDocSize \<and> valid_doc 1 r"
proof -
  have "WellFormed r = None" if "valid_doc 1 r"
  proof -
    from that obtain es where es: "Elements r = Inr es" by cases
    show ?thesis using Elements_parse[OF es] Elements_last_zero[OF es] by (simp add: WellFormed_def)
  qed
  then show ?thesis
    by (auto simp: Validate_def validateDoc_valid split: option.splits)
qed

section \<open>Identity normalisation\<close>

lemma idField_bytes: "idField = [0x5F, 0x69, 0x64]"
  by (simp add: idField_def str_def)

lemma id_index_Some:
  "id_index es = Some i \<Longrightarrow>
    i < length es \<and> ekey (es ! i) = idField \<and> (\<forall>j<i. ekey (es ! j) \<noteq> idField)"
proof (induction es arbitrary: i)
  case (Cons e es)
  then show ?case by (cases i) (auto simp: nth_Cons' split: if_splits)
qed simp

lemma id_index_None: "id_index es = None \<Longrightarrow> e \<in> set es \<Longrightarrow> ekey e \<noteq> idField"
  by (induction es) (auto split: if_splits)

text \<open>The elements of the normalised document: identity first, the others in stored order.\<close>

definition normalised :: "element list \<Rightarrow> bytes \<Rightarrow> element list" where
  "normalised es oid = (case id_index es of
     None \<Rightarrow> Element idField (RawValue TypeObjectID oid) # es
   | Some i \<Rightarrow> es ! i # take i es @ drop (i + 1) es)"

lemma normalised_perm:
  "id_index es = Some i \<Longrightarrow> es = take i es @ es ! i # drop (i + 1) es"
  using id_index_Some[of es i] by (simp add: id_take_nth_drop)

lemma normalised_wf:
  assumes "list_all wf_element es" and "length oid = 12"
  shows "list_all wf_element (normalised es oid)"
proof (cases "id_index es")
  case None
  have "wf_element (Element idField (RawValue TypeObjectID oid))"
    using assms(2) by (simp add: wf_element_def idField_bytes scanValue_def need_def)
  with None assms(1) show ?thesis by (simp add: normalised_def)
next
  case (Some i)
  then show ?thesis using assms(1) by (subst (asm) normalised_perm[OF Some]) (simp add: normalised_def)
qed

lemma normalised_size:
  "length oid = 12 \<Longrightarrow> length (enc_elements (normalised es oid)) =
     length (enc_elements es) + (if id_index es = None then 17 else 0)"
proof (cases "id_index es")
  case (Some i)
  have "length (enc_elements es) = length (enc_elements (take i es @ es ! i # drop (i + 1) es))"
    using normalised_perm[OF Some] by simp
  then show ?thesis by (simp add: normalised_def Some enc_elements_def)
qed (simp add: normalised_def enc_elements_def enc_element_def idField_bytes)

lemma normalised_0: "id_index es = Some 0 \<Longrightarrow> normalised es oid = es"
  using id_index_Some[of es 0] by (cases es) (auto simp: normalised_def)

lemma normalised_hd: "ekey (hd (normalised es oid)) = idField" "normalised es oid \<noteq> []"
  using id_index_Some[of es] by (auto simp: normalised_def split: option.splits)

text \<open>Every successful branch frames the normalised element list; the branch that returns its
  input unchanged does so because the list is already normalised.\<close>

lemma EnsureID_out:
  assumes "EnsureID d oid = Inr (out, idv)"
  obtains es where "Validate d = None" "Elements d = Inr es"
    "out = Build (append_all [] (normalised es oid))" "idv = default_value (Lookup out idField)"
    "ValidIDType (vtype (evalue (hd (normalised es oid))))"
proof -
  obtain es where es: "Elements d = Inr es" and v: "Validate d = None"
    using assms by (auto simp: EnsureID_def split: option.splits sum.splits)
  show ?thesis
  proof (cases "id_index es")
    case None
    have "append_all (AppendObjectID [] idField oid) es = append_all [] (normalised es oid)"
      by (simp add: append_all_enc AppendObjectID_def elem_def enc_elements_def enc_element_def
          normalised_def None)
    then show ?thesis using assms None es v
      by (intro that[of es]) (auto simp: EnsureID_def Let_def normalised_def ValidIDType_def)
  next
    case (Some i)
    note i = id_index_Some[OF Some]
    have "append_all (AppendValue [] idField (evalue (es ! i))) (take i es @ drop (i + 1) es)
        = append_all [] (normalised es oid)"
      using i by (simp add: append_all_enc AppendValue_def elem_def enc_elements_def enc_element_def
          normalised_def Some)
    moreover have "i = 0 \<Longrightarrow> d = Build (append_all [] (normalised es oid))"
      using rebuild_read[OF es] normalised_0 Some by simp
    moreover have "hd (normalised es oid) = es ! i" by (simp add: normalised_def Some)
    ultimately show ?thesis using assms Some es v
      by (intro that[of es]) (auto simp: EnsureID_def Let_def split: if_splits)
  qed
qed

lemma EnsureID_elements:
  assumes "EnsureID d oid = Inr (out, idv)" and "length oid = 12"
  obtains es where "Validate d = None" "Elements d = Inr es" "Elements out = Inr (normalised es oid)"
    "idv = evalue (hd (normalised es oid))" "ValidIDType (vtype idv)"
    "length out = length d + (if id_index es = None then 17 else 0)"
proof -
  from EnsureID_out[OF assms(1)] obtain es where v: "Validate d = None" and es: "Elements d = Inr es"
    and out: "out = Build (append_all [] (normalised es oid))" "idv = default_value (Lookup out idField)"
    and ty: "ValidIDType (vtype (evalue (hd (normalised es oid))))" by metis
  have d: "Build (append_all [] es) = d" and wf: "list_all wf_element es"
    using rebuild_read[OF es] by auto
  have size: "length out = length d + (if id_index es = None then 17 else 0)"
    using d[symmetric] normalised_size[OF assms(2), of es] by (simp add: out(1) append_all_enc)
  have "length d \<le> MaxDocSize" using v by (auto simp: Validate_def split: option.splits if_splits)
  then have "length (append_all [] (normalised es oid)) + 5 < 2 ^ 32"
    using size by (simp add: out(1) split: if_splits)
  then have r: "Elements out = Inr (normalised es oid)"
    unfolding out(1) by (intro read_built normalised_wf wf assms(2))
  have "Lookup out idField = Some (evalue (hd (normalised es oid)))"
    using lookup_read[OF r, of idField] normalised_hd[of es oid] by (cases "normalised es oid") auto
  then have "idv = evalue (hd (normalised es oid))" by (simp add: out(2) default_value_def)
  with v es r ty size show ?thesis by (intro that[of es]) simp_all
qed

text \<open>When \<^verbatim>\<open>EnsureID\<close> succeeds, the returned document lists the identity first, of an
  allowed type, followed by the input's other elements in stored order; a missing identity is the
  generator's ObjectId; and the returned value is the one \<^verbatim>\<open>IDOf\<close> finds.\<close>

theorem EnsureID_normalises:
  assumes "EnsureID d oid = Inr (out, idv)" and "length oid = 12"
  shows "\<exists>es rest. Elements d = Inr es \<and> Elements out = Inr (Element idField idv # rest)
     \<and> ValidIDType (vtype idv) \<and> IDOf out = Some idv
     \<and> (case id_index es of
          None \<Rightarrow> idv = RawValue TypeObjectID oid \<and> rest = es \<and> length out = length d + 17
        | Some i \<Rightarrow> idv = evalue (es ! i) \<and> rest = take i es @ drop (i + 1) es \<and> length out = length d)"
proof -
  from EnsureID_elements[OF assms] obtain es where es: "Elements d = Inr es"
    and r: "Elements out = Inr (normalised es oid)" and idv: "idv = evalue (hd (normalised es oid))"
    and ty: "ValidIDType (vtype idv)" and len: "length out = length d + (if id_index es = None then 17 else 0)"
    by metis
  have hd: "normalised es oid = Element idField idv # tl (normalised es oid)"
    using normalised_hd[of es oid] idv by (cases "normalised es oid") auto
  have "IDOf out = Some idv"
    using lookup_read[OF r, of idField] unfolding IDOf_def by (subst (asm) hd) simp
  then show ?thesis using es r ty len idv hd
    by (intro exI[of _ es] exI[of _ "tl (normalised es oid)"])
      (auto simp: normalised_def split: option.splits)
qed

lemma EnsureID_example:
  "EnsureID [9, 0, 0, 0, 8, 98, 0, 1, 0] [1, 2, 3, 4, 5, 6, 7, 8, 9, 10, 11, 12]
    = Inr ([26, 0, 0, 0, 7, 95, 105, 100, 0, 1, 2, 3, 4, 5, 6, 7, 8, 9, 10, 11, 12, 8, 98, 0, 1, 0],
        RawValue TypeObjectID [1, 2, 3, 4, 5, 6, 7, 8, 9, 10, 11, 12])"
proof -
  have "WellFormed [9, 0, 0, 0, 8, 98, 0, 1, 0] = None" "validateDoc [9, 0, 0, 0, 8, 98, 0, 1, 0] 1 = None"
    by code_simp+
  then have v: "Validate [9, 0, 0, 0, 8, 98, 0, 1, 0] = None" by (simp add: Validate_def)
  have e: "Elements [9, 0, 0, 0, 8, 98, 0, 1, 0] = Inr [Element (str ''b'') (RawValue TypeBoolean [1])]"
    and i: "id_index [Element (str ''b'') (RawValue TypeBoolean [1])] = None"
    and o: "Build (append_all (AppendObjectID [] idField [1, 2, 3, 4, 5, 6, 7, 8, 9, 10, 11, 12])
        [Element (str ''b'') (RawValue TypeBoolean [1])])
      = [26, 0, 0, 0, 7, 95, 105, 100, 0, 1, 2, 3, 4, 5, 6, 7, 8, 9, 10, 11, 12, 8, 98, 0, 1, 0]"
    and l: "default_value (Lookup [26, 0, 0, 0, 7, 95, 105, 100, 0, 1, 2, 3, 4, 5, 6, 7, 8, 9, 10, 11, 12, 8, 98, 0, 1, 0] idField)
      = RawValue TypeObjectID [1, 2, 3, 4, 5, 6, 7, 8, 9, 10, 11, 12]"
    by code_simp+
  show ?thesis by (simp only: EnsureID_def v e i o l sum.case option.case Let_def)
qed

theorem EnsureID_normalises_witness:
  "\<exists>rest. Elements [26, 0, 0, 0, 7, 95, 105, 100, 0, 1, 2, 3, 4, 5, 6, 7, 8, 9, 10, 11, 12, 8, 98, 0, 1, 0]
    = Inr (Element idField (RawValue TypeObjectID [1, 2, 3, 4, 5, 6, 7, 8, 9, 10, 11, 12]) # rest)"
  using EnsureID_normalises[OF EnsureID_example] by auto

lemma EnsureID_valid_out:
  assumes "EnsureID d oid = Inr (out, idv)" and "length oid = 12" and "length out \<le> MaxDocSize"
  shows "Validate out = None"
proof -
  from EnsureID_elements[OF assms(1,2)] obtain es where v: "Validate d = None"
    and es: "Elements d = Inr es" and r: "Elements out = Inr (normalised es oid)" by metis
  have "valid_doc 1 d" using v by (auto simp: Validate_def validateDoc_valid split: option.splits if_splits)
  then have d: "\<forall>e\<in>set es. utf8_valid (ekey e)"
    "\<forall>e\<in>set es. \<forall>s. StringValueOK (evalue e) = Some s \<longrightarrow> utf8_valid s \<and> 0 \<notin> set s"
    "\<forall>e\<in>set es. is_docish (vtype (evalue e)) \<longrightarrow> valid_doc (1 + 1) (vdata (evalue e))"
    using es by (cases, simp_all)+
  let ?e = "Element idField (RawValue TypeObjectID oid)"
  have sub: "set (normalised es oid) \<subseteq> insert ?e (set es)"
    using id_index_Some[of es]
    by (auto simp: normalised_def dest: in_set_takeD in_set_dropD split: option.splits)
  have e: "utf8_valid (ekey ?e)" "StringValueOK (evalue ?e) = None" "\<not> is_docish (vtype (evalue ?e))"
    by (simp_all add: idField_bytes StringValueOK_def)
  have "valid_doc 1 out"
    by (rule valid_docI[OF _ r]) (use sub d e in \<open>force+\<close>)
  then have "validateDoc out 1 = None" by (simp add: validateDoc_valid)
  moreover have "WellFormed out = None"
    using Elements_parse[OF r] Elements_last_zero[OF r] by (simp add: WellFormed_def)
  ultimately show ?thesis using assms(3) by (simp add: Validate_def)
qed

text \<open>Normalisation is idempotent: a normalised document within the size limit is returned
  unchanged with the same identity, whatever the generator would mint.\<close>

theorem EnsureID_idempotent:
  assumes "EnsureID d oid = Inr (out, idv)" and "length oid = 12" and "length out \<le> MaxDocSize"
  shows "EnsureID out oid' = Inr (out, idv)"
proof -
  from EnsureID_elements[OF assms(1,2)] obtain es where r: "Elements out = Inr (normalised es oid)"
    and idv: "idv = evalue (hd (normalised es oid))" and ty: "ValidIDType (vtype idv)" by metis
  obtain rest where n: "normalised es oid = Element idField idv # rest"
    using normalised_hd[of es oid] idv by (cases "normalised es oid") auto
  have "Lookup out idField = Some idv" using lookup_read[OF r, of idField] by (simp add: n)
  then show ?thesis using EnsureID_valid_out[OF assms] r ty
    by (simp add: EnsureID_def n default_value_def)
qed

theorem EnsureID_idempotent_witness:
  "EnsureID [26, 0, 0, 0, 7, 95, 105, 100, 0, 1, 2, 3, 4, 5, 6, 7, 8, 9, 10, 11, 12, 8, 98, 0, 1, 0] (replicate 12 0)
    = Inr ([26, 0, 0, 0, 7, 95, 105, 100, 0, 1, 2, 3, 4, 5, 6, 7, 8, 9, 10, 11, 12, 8, 98, 0, 1, 0],
        RawValue TypeObjectID [1, 2, 3, 4, 5, 6, 7, 8, 9, 10, 11, 12])"
  using EnsureID_idempotent[OF EnsureID_example] by simp

section \<open>Typed values\<close>

text \<open>The value each typed method of the builder appends.\<close>

definition StringVal :: "bytes \<Rightarrow> rawvalue" where
  "StringVal s = RawValue TypeString (le_put 4 (of_nat (length s + 1) :: u32) @ s @ [0])"

definition BinaryVal :: "byte \<Rightarrow> bytes \<Rightarrow> rawvalue" where
  "BinaryVal st data = RawValue TypeBinary (le_put 4 (of_nat (length data) :: u32) @ [st] @ data)"

definition wf_value :: "rawvalue \<Rightarrow> bool" where
  "wf_value v = (scanValue (vdata v) (vtype v) = Inr (length (vdata v)))"

lemma append_typed:
  "AppendDouble body k f = AppendValue body k (RawValue TypeDouble (le_put 8 f))"
  "AppendString body k s = AppendValue body k (StringVal s)"
  "AppendInt32 body k i = AppendValue body k (RawValue TypeInt32 (le_put 4 i))"
  "AppendInt64 body k j = AppendValue body k (RawValue TypeInt64 (le_put 8 j))"
  "AppendObjectID body k oid = AppendValue body k (RawValue TypeObjectID oid)"
  "AppendBoolean body k b = AppendValue body k (RawValue TypeBoolean [if b then 1 else 0])"
  "AppendDateTime body k j = AppendValue body k (RawValue TypeDateTime (le_put 8 j))"
  "AppendTimestamp body k j = AppendValue body k (RawValue TypeTimestamp (le_put 8 j))"
  "AppendNull body k = AppendValue body k (RawValue TypeNull [])"
  "AppendBinary body k st data = AppendValue body k (BinaryVal st data)"
  "AppendDocument body k d = AppendValue body k (RawValue TypeDocument d)"
  "AppendArray body k d = AppendValue body k (RawValue TypeArray d)"
  by (simp_all add: AppendDouble_def AppendString_def AppendInt32_def AppendInt64_def
      AppendObjectID_def AppendBoolean_def AppendDateTime_def AppendTimestamp_def AppendNull_def
      AppendBinary_def AppendDocument_def AppendArray_def AppendValue_def StringVal_def BinaryVal_def)

lemma sub0_full: "length b = n \<Longrightarrow> sub b 0 n = b"
  by (simp add: sub_def)

lemma get32_len_prefix:
  "n < 2 ^ 32 \<Longrightarrow> unat (get32 (le_put 4 (of_nat n :: u32) @ r) 0) = n"
  using unat_of_nat_id[of n, where 'a = 32] by (simp add: sub_def)

lemma StringVal_ok: "length s + 1 < 2 ^ 32 \<Longrightarrow> wf_value (StringVal s) \<and> StringValueOK (StringVal s) = Some s"
  using get32_len_prefix[of "length s + 1" "s @ [0]"]
  by (simp add: wf_value_def StringVal_def StringValueOK_def scanValue_def Let_def sub_def nth_append
      del: of_nat_Suc of_nat_add)

lemma BinaryVal_ok:
  "length data < 2 ^ 32 \<Longrightarrow> wf_value (BinaryVal st data) \<and> BinaryOK (BinaryVal st data) = Some (st, data)"
  using get32_len_prefix[of "length data" "st # data"]
  by (simp add: wf_value_def BinaryVal_def BinaryOK_def scanValue_def Let_def sub_def nth_append)

lemma lookup_appended:
  assumes "list_all wf_element es" and "\<forall>e\<in>set es. ekey e \<noteq> k" and "0 \<notin> set k"
    and "wf_value v" and "vtype v \<noteq> 0"
    and "length (enc_elements es) + length k + length (vdata v) + 7 < 2 ^ 32"
  shows "Lookup (Build (AppendValue (append_all [] es) k v)) k = Some v"
proof -
  let ?es = "es @ [Element k v]"
  have b: "AppendValue (append_all [] es) k v = append_all [] ?es"
    by (simp add: append_all_enc AppendValue_def elem_def enc_elements_def enc_element_def)
  have "Elements (Build (append_all [] ?es)) = Inr ?es"
    using assms by (intro read_built)
      (auto simp: wf_element_def wf_value_def append_all_enc enc_elements_def enc_element_def)
  moreover have "find (\<lambda>e. ekey e = k) es = None" using assms(2) by (simp add: find_None_iff)
  then have "find (\<lambda>e. ekey e = k) ?es = Some (Element k v)" by (induction es) (auto split: if_splits)
  ultimately show ?thesis unfolding b by (simp add: lookup_read)
qed

lemma fixed_values_ok:
  "wf_value (RawValue TypeDouble (le_put 8 f))" "wf_value (RawValue TypeInt32 (le_put 4 i))"
  "wf_value (RawValue TypeInt64 (le_put 8 j))" "wf_value (RawValue TypeBoolean [c])"
  "wf_value (RawValue TypeDateTime (le_put 8 j))" "wf_value (RawValue TypeTimestamp (le_put 8 j))"
  "wf_value (RawValue TypeNull [])" "length oid = 12 \<Longrightarrow> wf_value (RawValue TypeObjectID oid)"
  by (simp_all add: wf_value_def scanValue_def need_def)

lemma fixed_accessors:
  fixes f :: f64 and i :: u32 and j :: u64
  shows
  "DoubleOK (RawValue TypeDouble (le_put 8 f)) = Some f"
  "Int32OK (RawValue TypeInt32 (le_put 4 i)) = Some (sint i)"
  "Int64OK (RawValue TypeInt64 (le_put 8 j)) = Some (sint j)"
  "BooleanV (RawValue TypeBoolean [if b then 1 else 0]) = b"
  "DateTimeV (RawValue TypeDateTime (le_put 8 j)) = sint j"
  "TimestampV (RawValue TypeTimestamp (le_put 8 j)) = j"
  "length oid = 12 \<Longrightarrow> ObjectIDV (RawValue TypeObjectID oid) = oid"
  by (simp_all add: DoubleOK_def Int32OK_def Int64OK_def BooleanV_def DateTimeV_def TimestampV_def
      ObjectIDV_def sub0_full)

text \<open>A value appended with a typed method under a fresh name is found by
  \<^verbatim>\<open>Lookup\<close> in the finished document, and its typed accessor returns the value.\<close>

theorem typed_append_roundtrip:
  assumes "list_all wf_element es" and "\<forall>e\<in>set es. ekey e \<noteq> k" and "0 \<notin> set k"
    and "length (enc_elements es) + length k + length s + 20 < 2 ^ 32" and "length oid = 12"
    and "body = append_all [] es"
  shows "Option.bind (Lookup (Build (AppendDouble body k f)) k) DoubleOK = Some f
    \<and> Option.bind (Lookup (Build (AppendString body k s)) k) StringValueOK = Some s
    \<and> Option.bind (Lookup (Build (AppendInt32 body k i)) k) Int32OK = Some (sint i)
    \<and> Option.bind (Lookup (Build (AppendInt64 body k j)) k) Int64OK = Some (sint j)
    \<and> map_option ObjectIDV (Lookup (Build (AppendObjectID body k oid)) k) = Some oid
    \<and> map_option BooleanV (Lookup (Build (AppendBoolean body k b)) k) = Some b
    \<and> map_option DateTimeV (Lookup (Build (AppendDateTime body k j)) k) = Some (sint j)
    \<and> map_option TimestampV (Lookup (Build (AppendTimestamp body k j)) k) = Some j
    \<and> map_option vtype (Lookup (Build (AppendNull body k)) k) = Some TypeNull
    \<and> Option.bind (Lookup (Build (AppendBinary body k st s)) k) BinaryOK = Some (st, s)"
proof -
  have app: "Lookup (Build (AppendValue body k v)) k = Some v"
    if "wf_value v" "vtype v \<noteq> 0" "length (vdata v) \<le> length s + 12" for v
    using assms that by (auto intro!: lookup_appended)
  have s: "length s + 1 < 2 ^ 32" "length s < 2 ^ 32" using assms(4) by simp_all
  have str: "Lookup (Build (AppendValue body k (StringVal s))) k = Some (StringVal s)"
    using StringVal_ok[OF s(1)] by (intro app) (simp_all add: StringVal_def)
  have bin: "Lookup (Build (AppendValue body k (BinaryVal st s))) k = Some (BinaryVal st s)"
    using BinaryVal_ok[OF s(2)] by (intro app) (simp_all add: BinaryVal_def)
  have fixed: "Lookup (Build (AppendValue body k (RawValue TypeDouble (le_put 8 f)))) k = Some (RawValue TypeDouble (le_put 8 f))"
    "Lookup (Build (AppendValue body k (RawValue TypeInt32 (le_put 4 i)))) k = Some (RawValue TypeInt32 (le_put 4 i))"
    "Lookup (Build (AppendValue body k (RawValue TypeInt64 (le_put 8 j)))) k = Some (RawValue TypeInt64 (le_put 8 j))"
    "Lookup (Build (AppendValue body k (RawValue TypeObjectID oid))) k = Some (RawValue TypeObjectID oid)"
    "Lookup (Build (AppendValue body k (RawValue TypeBoolean [if b then 1 else 0]))) k
      = Some (RawValue TypeBoolean [if b then 1 else 0])"
    "Lookup (Build (AppendValue body k (RawValue TypeDateTime (le_put 8 j)))) k = Some (RawValue TypeDateTime (le_put 8 j))"
    "Lookup (Build (AppendValue body k (RawValue TypeTimestamp (le_put 8 j)))) k = Some (RawValue TypeTimestamp (le_put 8 j))"
    "Lookup (Build (AppendValue body k (RawValue TypeNull []))) k = Some (RawValue TypeNull [])"
    by (rule app; simp add: fixed_values_ok assms(5))+
  show ?thesis
    by (intro conjI; simp only: append_typed fixed str bin bind.bind_lunit option.map fixed_accessors
        fixed_accessors(7)[OF assms(5)] StringVal_ok[OF s(1)] BinaryVal_ok[OF s(2)] rawvalue.simps)
qed

theorem typed_append_roundtrip_witness:
  "Option.bind (Lookup (Build (AppendInt64 (append_all [] [Element (str ''b'') (RawValue TypeBoolean [1])]) (str ''n'') 5)) (str ''n'')) Int64OK = Some 5"
proof -
  let ?es = "[Element (str ''b'') (RawValue TypeBoolean [1])]"
  have "list_all wf_element ?es" by code_simp
  moreover have "\<forall>e\<in>set ?es. ekey e \<noteq> str ''n''" "0 \<notin> set (str ''n'')" by (simp_all add: str_def)
  moreover have "length (enc_elements ?es) + length (str ''n'') + length ([] :: bytes) + 20 < 2 ^ 32"
    by (simp add: enc_elements_def enc_element_def str_def)
  moreover have "length (replicate 12 (0 :: byte)) = 12" by simp
  ultimately show ?thesis
    using typed_append_roundtrip[of ?es "str ''n''" "[]" "replicate 12 0" "append_all [] ?es" 0 0 5] by simp
qed

end
