(* ===== verification/Bson_Compare.thy ===== *)
theory Bson_Compare
  imports Bson_Raw
begin

text \<open>
  The total order over BSON values (\<^verbatim>\<open>src/bson/compare.go\<close>). The definitions follow the
  code case by case; the main result is that \<^verbatim>\<open>Compare\<close> satisfies the
  \<open>three_way\<close> contract on arbitrary raw values, malformed payloads included, which is what
  sorting, range operators and index order rely on.
\<close>

section \<open>Scalar comparisons\<close>

definition cmpString :: "bytes \<Rightarrow> bytes \<Rightarrow> int" where
  "cmpString a b = bytes_cmp a b"

definition cmpInt :: "nat \<Rightarrow> nat \<Rightarrow> int" where
  "cmpInt a b = (if a < b then -1 else if a > b then 1 else 0)"

definition cmpByte :: "byte \<Rightarrow> byte \<Rightarrow> int" where
  "cmpByte a b = cmpInt (unat a) (unat b)"

definition cmpInt64 :: "int \<Rightarrow> int \<Rightarrow> int" where
  "cmpInt64 a b = (if a < b then -1 else if a > b then 1 else 0)"

definition cmpUint64 :: "u64 \<Rightarrow> u64 \<Rightarrow> int" where
  "cmpUint64 a b = (if a < b then -1 else if a > b then 1 else 0)"

definition cmpFloat64 :: "f64 \<Rightarrow> f64 \<Rightarrow> int" where
  "cmpFloat64 a b = (if f64_lt a b then -1 else if f64_lt b a then 1 else 0)"

definition cmpBool :: "bool \<Rightarrow> bool \<Rightarrow> int" where
  "cmpBool a b = (if a = b then 0 else if \<not> a then -1 else 1)"

section \<open>Numbers\<close>

definition isNaN :: "rawvalue \<Rightarrow> bool" where
  "isNaN v = (case DoubleOK v of None \<Rightarrow> False | Some f \<Rightarrow> f64_nan f)"

definition asInt64 :: "rawvalue \<Rightarrow> int option" where
  "asInt64 v =
     (if vtype v = TypeInt32 then Some (Int32V v)
      else if vtype v = TypeInt64 then Some (Int64V v)
      else None)"

text \<open>\<^verbatim>\<open>compareFloatInt64\<close>. The \<^verbatim>\<open>big.Float\<close> comparison of the last line is
  exact; in units of $2^{-1074}$ both operands are integers.\<close>

definition compareFloatInt64 :: "f64 \<Rightarrow> int \<Rightarrow> int" where
  "compareFloatInt64 f i =
     (if f64_inf f \<and> \<not> f64_sign f then 1
      else if f64_inf f \<and> f64_sign f then -1
      else if - (2 ^ 53) < i \<and> i < 2 ^ 53 then cmpFloat64 f (f64_of_int i)
      else cmp3 (f64_val f) (i * 2 ^ 1074))"

definition float_or_zero :: "f64 option \<Rightarrow> f64" where
  "float_or_zero f = (case f of None \<Rightarrow> 0 | Some x \<Rightarrow> x)"

definition compareNumbers :: "rawvalue \<Rightarrow> rawvalue \<Rightarrow> int" where
  "compareNumbers a b =
     (if isNaN a \<or> isNaN b then
        (if isNaN a \<and> isNaN b then 0 else if isNaN a then 1 else -1)
      else case (asInt64 a, asInt64 b) of
        (Some ai, Some bi) \<Rightarrow> cmpInt64 ai bi
      | (Some ai, None) \<Rightarrow> - compareFloatInt64 (float_or_zero (AsFloat64 b)) ai
      | (None, Some bi) \<Rightarrow> compareFloatInt64 (float_or_zero (AsFloat64 a)) bi
      | (None, None) \<Rightarrow> cmpFloat64 (float_or_zero (AsFloat64 a)) (float_or_zero (AsFloat64 b)))"

section \<open>Type ranks\<close>

datatype rank =
    rankMinKey | rankNull | rankNumber | rankString | rankObject | rankArray | rankBinary
  | rankObjectID | rankBool | rankDate | rankTimestamp | rankRegex | rankMaxKey

text \<open>The ranks are the constants \<^verbatim>\<open>iota\<close> numbers from zero.\<close>

primrec rank_no :: "rank \<Rightarrow> nat" where
  "rank_no rankMinKey = 0"
| "rank_no rankNull = 1"
| "rank_no rankNumber = 2"
| "rank_no rankString = 3"
| "rank_no rankObject = 4"
| "rank_no rankArray = 5"
| "rank_no rankBinary = 6"
| "rank_no rankObjectID = 7"
| "rank_no rankBool = 8"
| "rank_no rankDate = 9"
| "rank_no rankTimestamp = 10"
| "rank_no rankRegex = 11"
| "rank_no rankMaxKey = 12"

definition CanonicalType :: "byte \<Rightarrow> rank" where
  "CanonicalType t =
     (if t = TypeMinKey then rankMinKey
      else if t = TypeNull \<or> t = TypeUndefined then rankNull
      else if t \<in> {TypeDouble, TypeInt32, TypeInt64, TypeDecimal128} then rankNumber
      else if t \<in> {TypeString, TypeSymbol, TypeJavaScript} then rankString
      else if t = TypeDocument then rankObject
      else if t = TypeArray then rankArray
      else if t = TypeBinary then rankBinary
      else if t = TypeObjectID then rankObjectID
      else if t = TypeBoolean then rankBool
      else if t = TypeDateTime then rankDate
      else if t = TypeTimestamp then rankTimestamp
      else if t = TypeRegex then rankRegex
      else if t = TypeMaxKey then rankMaxKey
      else rankMaxKey)"

section \<open>Documents, arrays and the order itself\<close>

definition compareBinary :: "rawvalue \<Rightarrow> rawvalue \<Rightarrow> int" where
  "compareBinary a b =
     (let (sa, da) = (case BinaryOK a of None \<Rightarrow> (0, []) | Some x \<Rightarrow> x);
          (sb, db) = (case BinaryOK b of None \<Rightarrow> (0, []) | Some x \<Rightarrow> x);
          c1 = cmpInt (length da) (length db); c2 = cmpByte sa sb
      in if c1 \<noteq> 0 then c1 else if c2 \<noteq> 0 then c2 else bytes_cmp da db)"

definition compareRegex :: "rawvalue \<Rightarrow> rawvalue \<Rightarrow> int" where
  "compareRegex a b =
     (let (pa, oa) = (case RegexOK a of None \<Rightarrow> ([], []) | Some x \<Rightarrow> x);
          (pb, ob) = (case RegexOK b of None \<Rightarrow> ([], []) | Some x \<Rightarrow> x);
          c = cmpString pa pb
      in if c \<noteq> 0 then c else cmpString oa ob)"

text \<open>Elements of a document; a document the reader rejects has none, as the code drops the
  error and ranges over a nil slice.\<close>

definition elements_of :: "bytes \<Rightarrow> element list" where
  "elements_of r = (case Elements r of Inl e \<Rightarrow> [] | Inr es \<Rightarrow> es)"

text \<open>The common loop of \<^verbatim>\<open>compareDocuments\<close> and \<^verbatim>\<open>compareArrays\<close>: the first
  nonzero comparison of corresponding elements decides, then the lengths.\<close>

fun elems_cmp :: "(element \<Rightarrow> element \<Rightarrow> int) \<Rightarrow> element list \<Rightarrow> element list \<Rightarrow> int" where
  "elems_cmp c (x # xs) (y # ys) = (let r = c x y in if r \<noteq> 0 then r else elems_cmp c xs ys)"
| "elems_cmp c xs ys = cmpInt (length xs) (length ys)"

lemma elems_cmp_cong [fundef_cong]:
  assumes "xs = xs'" "ys = ys'" "\<And>x y. x \<in> set xs' \<Longrightarrow> y \<in> set ys' \<Longrightarrow> c x y = c' x y"
  shows "elems_cmp c xs ys = elems_cmp c' xs' ys'"
  using assms(3) unfolding assms(1,2)
  by (induction c xs' ys' rule: elems_cmp.induct) (auto simp: Let_def)

lemma elements_of_shorter: "e \<in> set (elements_of b) \<Longrightarrow> length (vdata (evalue e)) < length b"
  using Elements_shorter[of b] by (force simp: elements_of_def split: sum.splits)

lemma DocumentV_length: "length (DocumentV v) \<le> length (vdata v)"
  by (simp add: DocumentV_def)

text \<open>\<^verbatim>\<open>Compare\<close>, with the bodies of \<^verbatim>\<open>compareDocuments\<close> (names, then values) and
  \<^verbatim>\<open>compareArrays\<close> (values only) as the element comparison handed to the loop.\<close>

function Compare :: "rawvalue \<Rightarrow> rawvalue \<Rightarrow> int" where
  "Compare a b =
     (let ra = CanonicalType (vtype a); rb = CanonicalType (vtype b) in
      if ra \<noteq> rb then (if rank_no ra < rank_no rb then -1 else 1)
      else case ra of
        rankNull \<Rightarrow> 0 | rankMinKey \<Rightarrow> 0 | rankMaxKey \<Rightarrow> 0
      | rankNumber \<Rightarrow> compareNumbers a b
      | rankString \<Rightarrow> cmpString (StringValue a) (StringValue b)
      | rankObject \<Rightarrow>
          elems_cmp (\<lambda>x y. let c = cmpString (ekey x) (ekey y) in
              if c \<noteq> 0 then c else Compare (evalue x) (evalue y))
            (elements_of (DocumentV a)) (elements_of (DocumentV b))
      | rankArray \<Rightarrow>
          elems_cmp (\<lambda>x y. Compare (evalue x) (evalue y))
            (elements_of (DocumentV a)) (elements_of (DocumentV b))
      | rankBinary \<Rightarrow> compareBinary a b
      | rankObjectID \<Rightarrow> bytes_cmp (ObjectIDV a) (ObjectIDV b)
      | rankBool \<Rightarrow> cmpBool (BooleanV a) (BooleanV b)
      | rankDate \<Rightarrow> cmpInt64 (DateTimeV a) (DateTimeV b)
      | rankTimestamp \<Rightarrow> cmpUint64 (TimestampV a) (TimestampV b)
      | rankRegex \<Rightarrow> compareRegex a b)"
  by pat_completeness auto
termination
proof (relation "measure (\<lambda>(a, b). length (vdata a))", goal_cases)
  case (2 a b ra rb x y)
  then show ?case using elements_of_shorter[of x "DocumentV a"] DocumentV_length[of a] by simp
next
  case (3 a b ra rb x y)
  then show ?case using elements_of_shorter[of x "DocumentV a"] DocumentV_length[of a] by simp
qed simp

declare Compare.simps [simp del]

definition Equal :: "rawvalue \<Rightarrow> rawvalue \<Rightarrow> bool" where
  "Equal a b = (Compare a b = 0)"

definition compareDocuments :: "bytes \<Rightarrow> bytes \<Rightarrow> int" where
  "compareDocuments a b =
     elems_cmp (\<lambda>x y. let c = cmpString (ekey x) (ekey y) in
         if c \<noteq> 0 then c else Compare (evalue x) (evalue y))
       (elements_of a) (elements_of b)"

definition compareArrays :: "bytes \<Rightarrow> bytes \<Rightarrow> int" where
  "compareArrays a b = elems_cmp (\<lambda>x y. Compare (evalue x) (evalue y)) (elements_of a) (elements_of b)"

section \<open>Numbers compare by value\<close>

text \<open>The place of a number on the exact line in units of $2^{-1074}$, with NaN above
  everything. Decimal128 values and truncated payloads read as zero, as the code promotes
  them.\<close>

definition num_key :: "rawvalue \<Rightarrow> int" where
  "num_key v =
     (if isNaN v then 2 ^ 2200
      else case asInt64 v of Some i \<Rightarrow> i * 2 ^ 1074
        | None \<Rightarrow> f64_val (float_or_zero (AsFloat64 v)))"

lemma cmp_defs_cmp3:
  "cmpInt a b = cmp3 a b" "cmpInt64 i j = cmp3 i j" "cmpUint64 u v = cmp3 u v"
  "cmpByte p q = cmp3 p q" "cmpBool x y = cmp3 x y"
  by (auto simp: cmpInt_def cmpInt64_def cmpUint64_def cmpByte_def cmpBool_def cmp3_def word_less_nat_alt)

lemma asInt64_bound: "asInt64 v = Some i \<Longrightarrow> \<bar>i\<bar> \<le> 2 ^ 63"
proof -
  have "\<bar>sint (w :: u32)\<bar> \<le> 2 ^ 63" and "\<bar>sint (u :: u64)\<bar> \<le> 2 ^ 63" for w u
    using sint_range_size[of w] sint_range_size[of u] by (auto simp: word_size)
  then show "asInt64 v = Some i \<Longrightarrow> ?thesis"
    by (auto simp: asInt64_def Int32V_def Int32OK_def Int64V_def Int64OK_def split: if_splits)
qed

lemma cmpFloat64_val: "\<not> f64_nan a \<Longrightarrow> \<not> f64_nan b \<Longrightarrow> cmpFloat64 a b = cmp3 (f64_val a) (f64_val b)"
  by (simp add: cmpFloat64_def f64_lt_def cmp3_def)

lemma compareFloatInt64_val:
  assumes "\<not> f64_nan f" and "\<bar>i\<bar> \<le> 2 ^ 63"
  shows "compareFloatInt64 f i = cmp3 (f64_val f) (i * 2 ^ 1074)"
proof (cases "f64_inf f")
  case True
  then have mag: "mag_of_body (f64_body f) = 2 ^ 2098" by (simp add: f64_inf_body mag_inf[simplified])
  have "\<bar>i * 2 ^ 1074\<bar> \<le> 2 ^ 63 * 2 ^ 1074" using assms(2) by (simp add: abs_mult)
  also have "\<dots> = (2::int) ^ 1137" by (simp flip: power_add)
  also have "\<dots> < 2 ^ 2098" by (intro power_strict_increasing) auto
  finally have "\<bar>i * 2 ^ 1074\<bar> < 2 ^ 2098" .
  then show ?thesis using True mag
    by (auto simp: compareFloatInt64_def f64_val_def cmp3_def)
next
  case False
  then show ?thesis
    using assms f64_of_int_exact[of i] f64_of_int_not_nan[of i]
    by (auto simp: compareFloatInt64_def cmpFloat64_val abs_if split: if_splits)
qed

lemma float_or_zero_not_nan: "\<not> isNaN v \<Longrightarrow> asInt64 v = None \<Longrightarrow> \<not> f64_nan (float_or_zero (AsFloat64 v))"
proof -
  have "\<not> f64_nan 0" by (simp add: f64_nan_def f64_exp_def f64_body_def)
  then show "\<not> isNaN v \<Longrightarrow> asInt64 v = None \<Longrightarrow> ?thesis"
    by (auto simp: isNaN_def asInt64_def AsFloat64_def float_or_zero_def split: option.splits if_splits)
qed

lemma num_key_not_nan: "\<not> isNaN v \<Longrightarrow> \<bar>num_key v\<bar> < 2 ^ 2200"
proof (cases "asInt64 v")
  case None
  assume "\<not> isNaN v"
  have "(2::int) ^ 2099 \<le> 2 ^ 2200" by (intro power_increasing) auto
  then show ?thesis using f64_val_bound[of "float_or_zero (AsFloat64 v)"] None \<open>\<not> isNaN v\<close>
    by (simp add: num_key_def)
next
  case (Some i)
  assume "\<not> isNaN v"
  have "\<bar>i * 2 ^ 1074\<bar> \<le> 2 ^ 63 * 2 ^ 1074" using asInt64_bound[OF Some] by (simp add: abs_mult)
  also have "\<dots> = (2::int) ^ 1137" by (simp flip: power_add)
  also have "\<dots> < 2 ^ 2200" by (intro power_strict_increasing) auto
  finally show ?thesis using Some \<open>\<not> isNaN v\<close> by (simp add: num_key_def)
qed

lemma compareNumbers_key: "compareNumbers a b = cmp3 (num_key a) (num_key b)"
proof (cases "isNaN a \<or> isNaN b")
  case True
  then show ?thesis
    using num_key_not_nan[of a] num_key_not_nan[of b]
    by (auto simp: compareNumbers_def num_key_def cmp3_def abs_less_iff)
next
  case False
  then have n: "\<not> isNaN a" "\<not> isNaN b" by auto
  have scale: "cmp3 (i * numeral k) (j * numeral k) = cmp3 i j" for i j :: int and k
    by (simp add: cmp3_def)
  have swap: "- cmp3 x y = cmp3 y x" for x y :: int by (simp add: cmp3_def)
  show ?thesis
    using n float_or_zero_not_nan[of a] float_or_zero_not_nan[of b] asInt64_bound[of a] asInt64_bound[of b]
    by (auto simp: compareNumbers_def num_key_def cmp_defs_cmp3 scale swap compareFloatInt64_val
        cmpFloat64_val split: option.splits)
qed

section \<open>The contract\<close>

lemma elems_cmp_three_way:
  assumes "three_way_on S c"
  shows "three_way_on {xs. set xs \<subseteq> S} (elems_cmp c)"
  unfolding three_way_on_def
proof (intro conjI ballI impI)
  note C = three_way_onD[OF assms]
  fix xs ys assume "xs \<in> {xs. set xs \<subseteq> S}" "ys \<in> {xs. set xs \<subseteq> S}"
  then have S: "set xs \<subseteq> S" "set ys \<subseteq> S" by auto
  then show "elems_cmp c xs ys \<in> {-1, 0, 1}"
    by (induction xs ys rule: list_induct2') (use C(1) in \<open>auto simp: Let_def cmpInt_def\<close>)
  show "elems_cmp c ys xs = - elems_cmp c xs ys"
    using S
  proof (induction xs ys rule: list_induct2')
    case (4 x xs y ys)
    then show ?case using C(2)[of x y] by (auto simp: Let_def)
  qed (auto simp: cmpInt_def)
next
  note C = three_way_onD[OF assms] and E = three_way_on_eq[OF assms]
  fix xs ys zs
  assume "xs \<in> {xs. set xs \<subseteq> S}" "ys \<in> {xs. set xs \<subseteq> S}" "zs \<in> {xs. set xs \<subseteq> S}"
    and "elems_cmp c xs ys \<le> 0" "elems_cmp c ys zs \<le> 0"
  then show "elems_cmp c xs zs \<le> 0"
  proof (induction xs arbitrary: ys zs)
    case Nil
    then show ?case by (cases zs) (auto simp: cmpInt_def)
  next
    case (Cons x xs)
    obtain y ys' where ys: "ys = y # ys'" using Cons.prems(4) by (cases ys) (auto simp: cmpInt_def)
    obtain z zs' where zs: "zs = z # zs'" using Cons.prems(5) ys by (cases zs) (auto simp: cmpInt_def)
    have S: "x \<in> S" "y \<in> S" "z \<in> S" using Cons.prems ys zs by auto
    have le: "c x y \<le> 0" "c y z \<le> 0"
      using Cons.prems(4,5) by (auto simp: ys zs Let_def split: if_splits)
    then have xz: "c x z \<le> 0" using C(3) S by blast
    show ?case
    proof (cases "c x z = 0")
      case True
      then have "c z x = 0" using C(2)[of x z] S by simp
      then have "c z y \<le> 0" "c y x \<le> 0" using C(3)[of z x y] C(3)[of y z x] le S by auto
      then have "c x y = 0" "c y z = 0" using C(2)[of x y] C(2)[of y z] le S by auto
      then show ?thesis using Cons.IH[of ys' zs'] Cons.prems True by (auto simp: ys zs)
    qed (use xz in \<open>simp add: zs Let_def\<close>)
  qed
qed

text \<open>Within one rank the order is the rank's own comparison.\<close>

lemma Compare_same_rank:
  assumes "CanonicalType (vtype a) = r" "CanonicalType (vtype b) = r"
  shows "Compare a b = (case r of
        rankNull \<Rightarrow> 0 | rankMinKey \<Rightarrow> 0 | rankMaxKey \<Rightarrow> 0
      | rankNumber \<Rightarrow> compareNumbers a b
      | rankString \<Rightarrow> cmpString (StringValue a) (StringValue b)
      | rankObject \<Rightarrow> compareDocuments (DocumentV a) (DocumentV b)
      | rankArray \<Rightarrow> compareArrays (DocumentV a) (DocumentV b)
      | rankBinary \<Rightarrow> compareBinary a b
      | rankObjectID \<Rightarrow> bytes_cmp (ObjectIDV a) (ObjectIDV b)
      | rankBool \<Rightarrow> cmpBool (BooleanV a) (BooleanV b)
      | rankDate \<Rightarrow> cmpInt64 (DateTimeV a) (DateTimeV b)
      | rankTimestamp \<Rightarrow> cmpUint64 (TimestampV a) (TimestampV b)
      | rankRegex \<Rightarrow> compareRegex a b)"
  using assms by (subst Compare.simps)
    (simp add: Let_def compareDocuments_def compareArrays_def split: rank.split)

lemma rank_no_inj [simp]: "rank_no r = rank_no s \<longleftrightarrow> r = s"
  by (cases r; cases s) simp_all

lemma Compare_diff_rank:
  "CanonicalType (vtype a) \<noteq> CanonicalType (vtype b) \<Longrightarrow>
    Compare a b = (if rank_no (CanonicalType (vtype a)) < rank_no (CanonicalType (vtype b)) then -1 else 1)"
  by (subst Compare.simps) (simp add: Let_def)

abbreviation bin_parts :: "rawvalue \<Rightarrow> byte \<times> bytes" where
  "bin_parts v \<equiv> (case BinaryOK v of None \<Rightarrow> (0, []) | Some x \<Rightarrow> x)"

abbreviation rgx_parts :: "rawvalue \<Rightarrow> bytes \<times> bytes" where
  "rgx_parts v \<equiv> (case RegexOK v of None \<Rightarrow> ([], []) | Some x \<Rightarrow> x)"

lemma compareBinary_three_way: "three_way_on S compareBinary"
proof -
  let ?f = "\<lambda>v. length (snd (bin_parts v))" and ?g = "\<lambda>v. fst (bin_parts v)" and ?h = "\<lambda>v. snd (bin_parts v)"
  have "three_way_on S (\<lambda>a b. if cmp3 (?f a) (?f b) \<noteq> 0 then cmp3 (?f a) (?f b)
      else if cmp3 (?g a) (?g b) \<noteq> 0 then cmp3 (?g a) (?g b) else bytes_cmp (?h a) (?h b))"
    by (intro three_way_on_lex three_way_on_key three_way_on_bytes_key)
  then show ?thesis
    by (rule three_way_on_cong) (auto simp: compareBinary_def Let_def cmp_defs_cmp3 split: prod.splits)
qed

lemma compareRegex_three_way: "three_way_on S compareRegex"
proof -
  let ?f = "\<lambda>v. fst (rgx_parts v)" and ?g = "\<lambda>v. snd (rgx_parts v)"
  have "three_way_on S (\<lambda>a b. if bytes_cmp (?f a) (?f b) \<noteq> 0 then bytes_cmp (?f a) (?f b)
      else bytes_cmp (?g a) (?g b))"
    by (intro three_way_on_lex three_way_on_bytes_key)
  then show ?thesis
    by (rule three_way_on_cong) (auto simp: compareRegex_def Let_def cmpString_def split: prod.splits)
qed

text \<open>A constant comparison, and a comparison of documents whose values are already known to be
  ordered.\<close>

lemma three_way_on_const: "three_way_on S (\<lambda>a b. 0)"
  by (simp add: three_way_on_def)

lemma documents_three_way:
  assumes "three_way_on V Compare"
  shows "three_way_on {d. \<forall>e\<in>set (elements_of d). evalue e \<in> V} compareDocuments"
    and "three_way_on {d. \<forall>e\<in>set (elements_of d). evalue e \<in> V} compareArrays"
proof -
  let ?E = "{e. evalue e \<in> V}"
  have vals: "three_way_on ?E (\<lambda>x y. Compare (evalue x) (evalue y))"
    by (rule three_way_on_vimage[OF assms]) simp
  moreover have "three_way_on ?E (\<lambda>x y. bytes_cmp (ekey x) (ekey y))"
    by (rule three_way_on_bytes_key)
  ultimately have "three_way_on ?E (\<lambda>x y. let c = cmpString (ekey x) (ekey y) in
      if c \<noteq> 0 then c else Compare (evalue x) (evalue y))"
    unfolding Let_def cmpString_def by (intro three_way_on_lex)
  from elems_cmp_three_way[OF this]
  show "three_way_on {d. \<forall>e\<in>set (elements_of d). evalue e \<in> V} compareDocuments"
    unfolding compareDocuments_def by (rule three_way_on_vimage) auto
  from elems_cmp_three_way[OF vals]
  show "three_way_on {d. \<forall>e\<in>set (elements_of d). evalue e \<in> V} compareArrays"
    unfolding compareArrays_def by (rule three_way_on_vimage) auto
qed

lemma Compare_three_way_rank:
  assumes "three_way_on {v. length (vdata v) < n} Compare"
  shows "three_way_on {v. length (vdata v) < Suc n \<and> CanonicalType (vtype v) = r} Compare" (is "three_way_on ?S _")
proof -
  let ?D = "{d. \<forall>e\<in>set (elements_of d). evalue e \<in> {v. length (vdata v) < n}}"
  have doc: "DocumentV a \<in> ?D" if "a \<in> ?S" for a
    using elements_of_shorter[of _ "DocumentV a"] DocumentV_length[of a] that by fastforce
  have docs: "three_way_on ?S (\<lambda>a b. compareDocuments (DocumentV a) (DocumentV b))"
    by (rule three_way_on_vimage[OF documents_three_way(1)[OF assms]]) (rule doc)
  have arrs: "three_way_on ?S (\<lambda>a b. compareArrays (DocumentV a) (DocumentV b))"
    by (rule three_way_on_vimage[OF documents_three_way(2)[OF assms]]) (rule doc)
  have "three_way_on ?S (\<lambda>a b. case r of
        rankNull \<Rightarrow> 0 | rankMinKey \<Rightarrow> 0 | rankMaxKey \<Rightarrow> 0
      | rankNumber \<Rightarrow> compareNumbers a b
      | rankString \<Rightarrow> cmpString (StringValue a) (StringValue b)
      | rankObject \<Rightarrow> compareDocuments (DocumentV a) (DocumentV b)
      | rankArray \<Rightarrow> compareArrays (DocumentV a) (DocumentV b)
      | rankBinary \<Rightarrow> compareBinary a b
      | rankObjectID \<Rightarrow> bytes_cmp (ObjectIDV a) (ObjectIDV b)
      | rankBool \<Rightarrow> cmpBool (BooleanV a) (BooleanV b)
      | rankDate \<Rightarrow> cmpInt64 (DateTimeV a) (DateTimeV b)
      | rankTimestamp \<Rightarrow> cmpUint64 (TimestampV a) (TimestampV b)
      | rankRegex \<Rightarrow> compareRegex a b)"
    unfolding compareNumbers_key cmpString_def cmp_defs_cmp3
    using docs arrs by (cases r) (simp_all add: three_way_on_const three_way_on_key three_way_on_bytes_key
        compareBinary_three_way compareRegex_three_way)
  then show ?thesis
    by (rule three_way_on_cong) (simp add: Compare_same_rank[of _ r])
qed

lemma Compare_three_way: "three_way_on {v. length (vdata v) < n} Compare"
proof (induction n)
  case 0
  then show ?case by (simp add: three_way_on_def)
next
  case (Suc n)
  show ?case
  proof (rule three_way_on_ranked[where rk = "\<lambda>v. rank_no (CanonicalType (vtype v))"])
    fix k
    show "three_way_on {a \<in> {v. length (vdata v) < Suc n}. rank_no (CanonicalType (vtype a)) = k} Compare"
    proof (cases "\<exists>r. rank_no r = k")
      case True
      then obtain r where k: "k = rank_no r" by auto
      show ?thesis using Compare_three_way_rank[OF Suc.IH, of r] by (simp add: k)
    next
      case False
      then show ?thesis by (auto simp: three_way_on_def)
    qed
  qed (simp add: Compare_diff_rank)
qed

interpretation bson_cmp: three_way Compare
proof
  fix a b c :: rawvalue
  let ?n = "Suc (length (vdata a) + length (vdata b) + length (vdata c))"
  note C = three_way_onD[OF Compare_three_way[of ?n]]
  show "Compare a b \<in> {-1, 0, 1}" "Compare b a = - Compare a b" by (rule C; simp)+
  show "Compare a b \<le> 0 \<Longrightarrow> Compare b c \<le> 0 \<Longrightarrow> Compare a c \<le> 0" by (rule C(3)[of a b c]) simp_all
qed

text \<open>C34. \<^verbatim>\<open>Compare\<close> is a total order up to equivalence on all raw values: it only returns
  minus one, zero or one, exchanging the arguments negates it, and it is transitive. Malformed
  and mixed-type values are included.\<close>

theorem Compare_total_preorder:
  "Compare a b \<in> {-1, 0, 1} \<and> Compare a a = 0 \<and> Compare b a = - Compare a b
     \<and> (Compare a b \<le> 0 \<longrightarrow> Compare b c \<le> 0 \<longrightarrow> Compare a c \<le> 0)"
  using bson_cmp.cmp_range[of a b] bson_cmp.cmp_refl[of a] bson_cmp.cmp_swap[of b a]
    bson_cmp.cmp_le_trans[of a b c] by simp

theorem Compare_total_preorder_witness:
  "Compare (RawValue TypeInt32 [1, 0, 0, 0]) (RawValue TypeInt32 [9, 0, 0, 0]) \<le> 0"
proof -
  have "Compare (RawValue TypeInt32 [1, 0, 0, 0]) (RawValue TypeInt32 [5, 0, 0, 0]) \<le> 0"
    "Compare (RawValue TypeInt32 [5, 0, 0, 0]) (RawValue TypeInt32 [9, 0, 0, 0]) \<le> 0"
    by code_simp+
  then show ?thesis
    using Compare_total_preorder[of "RawValue TypeInt32 [1, 0, 0, 0]" "RawValue TypeInt32 [5, 0, 0, 0]"
        "RawValue TypeInt32 [9, 0, 0, 0]"] by blast
qed

text \<open>Numbers of the int32, int64 and double types compare by their exact value on one line,
  whatever their types, with NaN above all others; no precision is lost for large integers.\<close>

theorem Compare_numbers_exact:
  assumes "CanonicalType (vtype a) = rankNumber" and "CanonicalType (vtype b) = rankNumber"
  shows "Compare a b = cmp3 (num_key a) (num_key b)"
  using assms by (simp add: Compare_same_rank[of _ rankNumber] compareNumbers_key)

theorem Compare_numbers_exact_witness:
  "Compare (RawValue TypeInt32 [1, 0, 0, 0]) (RawValue TypeInt64 [2, 0, 0, 0, 0, 0, 0, 0])
    = cmp3 (num_key (RawValue TypeInt32 [1, 0, 0, 0])) (num_key (RawValue TypeInt64 [2, 0, 0, 0, 0, 0, 0, 0]))"
proof -
  have "CanonicalType (vtype (RawValue TypeInt32 [1, 0, 0, 0])) = rankNumber"
    "CanonicalType (vtype (RawValue TypeInt64 [2, 0, 0, 0, 0, 0, 0, 0])) = rankNumber"
    by code_simp+
  then show ?thesis by (rule Compare_numbers_exact)
qed

end
