(* ===== verification/Index_Key.thy ===== *)
theory Index_Key
  imports Bson_Compare
begin

text \<open>
  Record identifiers (\<^verbatim>\<open>src/storage/spi.go\<close>) and the order-preserving key encoding of the
  index layer: \<^verbatim>\<open>src/index/key.go\<close> (tags, typed helpers, tree keys),
  \<^verbatim>\<open>encode.go\<close> (any value to a key), \<^verbatim>\<open>decode.go\<close> (a key field back to a value)
  and \<^verbatim>\<open>field.go\<close> (descending fields, compound keys, bounds). The contract of a field
  encoding is the locale \<open>ordered_encoding\<close>: it carries a comparison to
  \<^verbatim>\<open>bytes.Compare\<close> and no key is a proper prefix of another. Compound and descending keys
  are proved correct once from it, and the interpretation shows which values the code's
  encoding satisfies it for.
\<close>

section \<open>Record identifiers (storage/spi.go)\<close>

record rid =
  PageNo :: u32
  Slot :: u16

abbreviation RID :: "u32 \<Rightarrow> u16 \<Rightarrow> rid" where
  "RID p s \<equiv> \<lparr>PageNo = p, Slot = s\<rparr>"

definition NullRID :: rid where
  "NullRID = RID 0xFFFFFFFF 0xFFFF"

definition IsNull :: "rid \<Rightarrow> bool" where
  "IsNull r = (r = NullRID)"

definition IsValid :: "rid \<Rightarrow> bool" where
  "IsValid r = (\<not> IsNull r \<and> PageNo r \<noteq> 0)"

definition RID_Encode :: "rid \<Rightarrow> u64" where
  "RID_Encode r = push_bit 32 (ucast (PageNo r)) OR ucast (Slot r)"

definition DecodeRID :: "u64 \<Rightarrow> rid" where
  "DecodeRID v = RID (ucast (drop_bit 32 v)) (ucast v)"

section \<open>Keys and tags (key.go)\<close>

abbreviation tagMinKey :: byte where "tagMinKey \<equiv> 0x01"
abbreviation tagNull :: byte where "tagNull \<equiv> 0x05"
abbreviation tagNumber :: byte where "tagNumber \<equiv> 0x10"
abbreviation tagString :: byte where "tagString \<equiv> 0x20"
abbreviation tagDocument :: byte where "tagDocument \<equiv> 0x30"
abbreviation tagArray :: byte where "tagArray \<equiv> 0x38"
abbreviation tagBinary :: byte where "tagBinary \<equiv> 0x40"
abbreviation tagObjectID :: byte where "tagObjectID \<equiv> 0x48"
abbreviation tagBool :: byte where "tagBool \<equiv> 0x50"
abbreviation tagDate :: byte where "tagDate \<equiv> 0x58"
abbreviation tagTimestamp :: byte where "tagTimestamp \<equiv> 0x60"
abbreviation tagRegex :: byte where "tagRegex \<equiv> 0x68"
abbreviation tagMaxKey :: byte where "tagMaxKey \<equiv> 0xFF"

abbreviation ridSuffixLen :: nat where "ridSuffixLen \<equiv> 6"

datatype index_error =
    ErrUnindexableType | ErrCorruptKey | ErrNotCovered | IndexBson bson_error

text \<open>The sign-bit transform of an IEEE pattern and its inverse, as \<^verbatim>\<open>encodeNumber\<close>,
  \<^verbatim>\<open>appendSignFlipped64\<close> and \<^verbatim>\<open>unflipSign\<close> write them.\<close>

definition flipSign :: "u64 \<Rightarrow> u64" where
  "flipSign bits = (if bits AND push_bit 63 1 = 0 then bits OR push_bit 63 1 else NOT bits)"

definition unflipSign :: "u64 \<Rightarrow> u64" where
  "unflipSign bits = (if bits AND push_bit 63 1 \<noteq> 0 then bits AND NOT (push_bit 63 1) else NOT bits)"

definition encodeNumber :: "f64 \<Rightarrow> bytes" where
  "encodeNumber v = tagNumber # be_put 8 (flipSign v)"

definition EncodeObjectID :: "bytes \<Rightarrow> bytes" where
  "EncodeObjectID oid = tagObjectID # take 12 oid"

definition EncodeInt64 :: "int \<Rightarrow> bytes" where
  "EncodeInt64 v = encodeNumber (f64_of_int v)"

definition EncodeFloat64 :: "f64 \<Rightarrow> bytes" where
  "EncodeFloat64 v = encodeNumber v"

definition EncodeBool :: "bool \<Rightarrow> bytes" where
  "EncodeBool b = [tagBool, if b then 1 else 0]"

definition EncodeNull :: bytes where
  "EncodeNull = [tagNull]"

definition EncodeMinKey :: bytes where
  "EncodeMinKey = [tagMinKey]"

definition EncodeMaxKey :: bytes where
  "EncodeMaxKey = [tagMaxKey]"

definition putRIDSuffix :: "rid \<Rightarrow> bytes" where
  "putRIDSuffix r = be_put 4 (PageNo r) @ be_put 2 (Slot r)"

definition treeKey :: "bytes \<Rightarrow> rid \<Rightarrow> bytes" where
  "treeKey field r = field @ putRIDSuffix r"

text \<open>A tree key shorter than the suffix makes the slice expressions of
  \<^verbatim>\<open>ridFromSuffix\<close> and \<^verbatim>\<open>fieldOf\<close> panic; \<open>None\<close> is that case.\<close>

definition ridFromSuffix :: "bytes \<Rightarrow> rid option" where
  "ridFromSuffix tk =
     (if length tk < ridSuffixLen then None
      else let s = drop (length tk - ridSuffixLen) tk in
        Some (RID (be_get (sub s 0 4)) (be_get (sub s 4 2))))"

definition fieldOf :: "bytes \<Rightarrow> bytes option" where
  "fieldOf tk = (if length tk < ridSuffixLen then None else Some (take (length tk - ridSuffixLen) tk))"

section \<open>Values to keys (encode.go)\<close>

text \<open>The loop of \<^verbatim>\<open>appendOrderedBytes\<close>: a content NUL becomes 00 FF, and the value
  ends with 00 01.\<close>

fun appendOrderedBytes :: "bytes \<Rightarrow> bytes \<Rightarrow> bytes" where
  "appendOrderedBytes dst [] = dst @ [0x00, 0x01]"
| "appendOrderedBytes dst (c # s) =
     appendOrderedBytes (if c = 0 then dst @ [0x00, 0xFF] else dst @ [c]) s"

definition EncodeString :: "bytes \<Rightarrow> bytes" where
  "EncodeString s = appendOrderedBytes [tagString] s"

definition appendString :: "bytes \<Rightarrow> bytes \<Rightarrow> bytes" where
  "appendString dst s = appendOrderedBytes (dst @ [tagString]) s"

definition appendSignFlipped64 :: "bytes \<Rightarrow> u64 \<Rightarrow> bytes" where
  "appendSignFlipped64 dst bits = dst @ be_put 8 (flipSign bits)"

definition appendNumber :: "bytes \<Rightarrow> f64 \<Rightarrow> bytes" where
  "appendNumber dst f = appendSignFlipped64 (dst @ [tagNumber]) f"

definition appendOrderedInt64 :: "bytes \<Rightarrow> int \<Rightarrow> bytes" where
  "appendOrderedInt64 dst v = dst @ be_put 8 ((word_of_int v :: u64) XOR push_bit 63 1)"

definition appendDecimal128 :: "bytes \<Rightarrow> bytes \<Rightarrow> bytes" where
  "appendDecimal128 dst v =
     (let be = rev v in
      dst @ [tagNumber] @
        (if be ! 0 AND 0x80 = 0 then be[0 := be ! 0 OR 0x80] else map NOT be))"

text \<open>\<^verbatim>\<open>sort.SliceStable\<close> by field name: insertion that keeps equal names in their
  order.\<close>

fun insort_field :: "element \<Rightarrow> element list \<Rightarrow> element list" where
  "insort_field e [] = [e]"
| "insort_field e (x # xs) =
     (if bytes_cmp (ekey x) (ekey e) < 0 then x # insort_field e xs else e # x # xs)"

definition sort_fields :: "element list \<Rightarrow> element list" where
  "sort_fields es = foldr insort_field es []"

lemma set_insort_field [simp]: "set (insort_field e xs) = insert e (set xs)"
  by (induction xs) auto

lemma set_sort_fields [simp]: "set (sort_fields es) = set es"
  unfolding sort_fields_def by (induction es) simp_all

fun escape_name :: "bytes \<Rightarrow> bytes" where
  "escape_name [] = []"
| "escape_name (c # s) = (if c = 0 then [0x00, 0x01] else [c]) @ escape_name s"

text \<open>\<^verbatim>\<open>appendDocKey\<close>, with the encoder of the field values as its first argument:
  the code's mutual recursion is tied in \<open>appendValueKey\<close>.\<close>

fun append_fields ::
  "(bytes \<Rightarrow> rawvalue \<Rightarrow> index_error + bytes) \<Rightarrow> bytes \<Rightarrow> element list \<Rightarrow> index_error + bytes" where
  "append_fields f dst [] = Inr dst"
| "append_fields f dst (e # es) =
     (case f (dst @ escape_name (ekey e) @ [0x00]) (evalue e) of
        Inl err \<Rightarrow> Inl err
      | Inr d \<Rightarrow> append_fields f d es)"

definition appendDocKey ::
  "(bytes \<Rightarrow> rawvalue \<Rightarrow> index_error + bytes) \<Rightarrow> bytes \<Rightarrow> byte \<Rightarrow> bytes \<Rightarrow> bool \<Rightarrow> index_error + bytes" where
  "appendDocKey f dst tag doc sortFields =
     (case Elements doc of
        Inl e \<Rightarrow> Inl (IndexBson e)
      | Inr es \<Rightarrow>
          (case append_fields f (dst @ [tag]) (if sortFields then sort_fields es else es) of
             Inl e \<Rightarrow> Inl e
           | Inr d \<Rightarrow> Inr (d @ [0x00, 0x00])))"

lemma append_fields_cong:
  "(\<And>d e. e \<in> set es \<Longrightarrow> f d (evalue e) = g d (evalue e)) \<Longrightarrow> append_fields f dst es = append_fields g dst es"
  by (induction es arbitrary: dst) (auto split: sum.splits)

lemma appendDocKey_cong [fundef_cong]:
  assumes "dst = dst'" "tag = tag'" "doc = doc'" "sf = sf'"
    and "\<And>d v. length (vdata v) < length doc' \<Longrightarrow> f d v = g d v"
  shows "appendDocKey f dst tag doc sf = appendDocKey g dst' tag' doc' sf'"
proof (cases "Elements doc'")
  case (Inr es)
  have "append_fields f d fs = append_fields g d fs" if "set fs \<subseteq> set es" for d fs
    using that Elements_shorter[OF Inr] by (intro append_fields_cong assms(5)) fastforce
  then show ?thesis by (simp add: appendDocKey_def assms(1-4) Inr)
qed (simp add: appendDocKey_def assms(1-4))

function appendValueKey :: "bytes \<Rightarrow> rawvalue \<Rightarrow> index_error + bytes" where
  "appendValueKey dst v =
     (let t = vtype v in
      if t = TypeMinKey then Inr (dst @ [tagMinKey])
      else if t = TypeMaxKey then Inr (dst @ [tagMaxKey])
      else if t = TypeNull \<or> t = TypeUndefined then Inr (dst @ [tagNull])
      else if t = TypeDouble then Inr (appendNumber dst (DoubleV v))
      else if t = TypeInt32 then Inr (appendNumber dst (f64_of_int (Int32V v)))
      else if t = TypeInt64 then Inr (appendNumber dst (f64_of_int (Int64V v)))
      else if t = TypeDecimal128 then Inr (appendDecimal128 dst (Decimal128V v))
      else if t \<in> {TypeString, TypeSymbol, TypeJavaScript} then
        (case StringValueOK v of None \<Rightarrow> Inl ErrCorruptKey | Some s \<Rightarrow> Inr (appendString dst s))
      else if t = TypeObjectID then Inr (dst @ [tagObjectID] @ ObjectIDV v)
      else if t = TypeBoolean then Inr (dst @ [tagBool, if BooleanV v then 1 else 0])
      else if t = TypeDateTime then Inr (appendOrderedInt64 (dst @ [tagDate]) (DateTimeV v))
      else if t = TypeTimestamp then
        (let ts = TimestampV v in
         Inr (dst @ [tagTimestamp] @ be_put 4 (ucast (drop_bit 32 ts) :: u32) @ be_put 4 (ucast ts :: u32)))
      else if t = TypeBinary then
        (case BinaryOK v of None \<Rightarrow> Inl ErrCorruptKey
          | Some (st, data) \<Rightarrow>
              Inr (dst @ [tagBinary] @ be_put 4 (of_nat (length data) :: u32) @ data @ [st]))
      else if t = TypeRegex then
        (case RegexOK v of None \<Rightarrow> Inl ErrCorruptKey
          | Some (pat, opt) \<Rightarrow> Inr (dst @ [tagRegex] @ pat @ [0x00] @ opt @ [0x00]))
      else if t = TypeDocument then appendDocKey appendValueKey dst tagDocument (DocumentV v) True
      else if t = TypeArray then appendDocKey appendValueKey dst tagArray (DocumentV v) False
      else Inl ErrUnindexableType)"
  by pat_completeness auto
termination
  by (relation "measure (\<lambda>(dst, v). length (vdata v))")
    (auto intro: less_le_trans[OF _ DocumentV_length])

declare appendValueKey.simps [simp del]

definition EncodeValue :: "rawvalue \<Rightarrow> index_error + bytes" where
  "EncodeValue v = appendValueKey [] v"

section \<open>Fields, compound keys and bounds (field.go)\<close>

abbreviation invert :: "bytes \<Rightarrow> bytes" where
  "invert k \<equiv> map (\<lambda>c. 0xFF XOR c) k"

definition EncodeField :: "rawvalue \<Rightarrow> bool \<Rightarrow> index_error + bytes" where
  "EncodeField v descending =
     (case EncodeValue v of Inl e \<Rightarrow> Inl e
      | Inr k \<Rightarrow> Inr (if descending then invert k else k))"

definition AppendField :: "bytes \<Rightarrow> rawvalue \<Rightarrow> bool \<Rightarrow> index_error + bytes" where
  "AppendField dst v descending =
     (case appendValueKey dst v of Inl e \<Rightarrow> Inl e
      | Inr d \<Rightarrow> Inr (if descending then take (length dst) d @ invert (drop (length dst) d) else d))"

definition EncodeBoundMin :: "bool \<Rightarrow> bytes" where
  "EncodeBoundMin descending = (if descending then [0xFF XOR tagMaxKey] else [tagMinKey])"

definition EncodeBoundMax :: "bool \<Rightarrow> bytes" where
  "EncodeBoundMax descending = (if descending then [0xFF XOR tagMinKey] else [tagMaxKey])"

section \<open>Keys to values (decode.go)\<close>

definition readMasked64 :: "bytes \<Rightarrow> byte \<Rightarrow> u64" where
  "readMasked64 b msk = be_get (map (\<lambda>c. c XOR msk) (sub b 0 8))"

definition readMasked32 :: "bytes \<Rightarrow> byte \<Rightarrow> u32" where
  "readMasked32 b msk = be_get (map (\<lambda>c. c XOR msk) (sub b 0 4))"

function decode_string_loop :: "bytes \<Rightarrow> byte \<Rightarrow> nat \<Rightarrow> bytes \<Rightarrow> index_error + (bytes \<times> nat)" where
  "decode_string_loop b msk i out =
     (if i < length b then
        (let c = b ! i XOR msk in
         if c = 0 then
           (if i + 1 \<ge> length b then Inl ErrCorruptKey
            else let d = b ! (i + 1) XOR msk in
              if d = 0x01 then Inr (out, i + 2)
              else if d = 0xFF then decode_string_loop b msk (i + 2) (out @ [0])
              else Inl ErrCorruptKey)
         else decode_string_loop b msk (i + 1) (out @ [c]))
      else Inl ErrCorruptKey)"
  by pat_completeness auto
termination
  by (relation "measure (\<lambda>(b, msk, i, out). length b - i)") auto

declare decode_string_loop.simps [simp del]

definition decodeString :: "bytes \<Rightarrow> byte \<Rightarrow> index_error + (bytes \<times> nat)" where
  "decodeString b msk = decode_string_loop b msk 0 []"

text \<open>\<^verbatim>\<open>AppendDecodedField\<close> returns the grown builder body and the bytes consumed.\<close>

definition AppendDecodedField ::
  "bytes \<Rightarrow> bytes \<Rightarrow> bytes \<Rightarrow> bool \<Rightarrow> index_error + (bytes \<times> nat)" where
  "AppendDecodedField bldr key b descending =
     (let msk = (if descending then 0xFF else 0) in
      if length b = 0 then Inl ErrCorruptKey
      else let tag = b ! 0 XOR msk in
        if tag = tagMinKey then Inr (AppendValue bldr key (RawValue TypeMinKey []), 1)
        else if tag = tagMaxKey then Inr (AppendValue bldr key (RawValue TypeMaxKey []), 1)
        else if tag = tagNull then Inr (AppendNull bldr key, 1)
        else if tag = tagBool then
          (if length b < 2 then Inl ErrCorruptKey
           else Inr (AppendBoolean bldr key (b ! 1 XOR msk \<noteq> 0), 2))
        else if tag = tagNumber then
          (if length b < 9 then Inl ErrCorruptKey
           else Inr (AppendDouble bldr key (unflipSign (readMasked64 (sub b 1 8) msk)), 9))
        else if tag = tagDate then
          (if length b < 9 then Inl ErrCorruptKey
           else Inr (AppendDateTime bldr key (readMasked64 (sub b 1 8) msk XOR push_bit 63 1), 9))
        else if tag = tagTimestamp then
          (if length b < 9 then Inl ErrCorruptKey
           else let hi = ucast (readMasked32 (sub b 1 4) msk) :: u64;
                    lo = ucast (readMasked32 (sub b 5 4) msk) :: u64 in
             Inr (AppendTimestamp bldr key (push_bit 32 hi OR lo), 9))
        else if tag = tagObjectID then
          (if length b < 13 then Inl ErrCorruptKey
           else Inr (AppendObjectID bldr key (map (\<lambda>c. c XOR msk) (sub b 1 12)), 13))
        else if tag = tagString then
          (case decodeString (drop 1 b) msk of
             Inl e \<Rightarrow> Inl e
           | Inr (s, n) \<Rightarrow> Inr (AppendString bldr key s, n + 1))
        else if tag = tagBinary then
          (if length b < 5 then Inl ErrCorruptKey
           else let ln = unat (readMasked32 (sub b 1 4) msk) in
             if length b < 5 + ln + 1 then Inl ErrCorruptKey
             else Inr (AppendBinary bldr key (b ! (5 + ln) XOR msk)
                    (map (\<lambda>c. c XOR msk) (sub b 5 ln)), 5 + ln + 1))
        else Inl ErrNotCovered)"

definition FieldLen :: "bytes \<Rightarrow> bool \<Rightarrow> index_error + nat" where
  "FieldLen b descending =
     (case AppendDecodedField [] (str ''_'') b descending of Inl e \<Rightarrow> Inl e | Inr (_, n) \<Rightarrow> Inr n)"

section \<open>The contract of a field encoding\<close>

locale ordered_encoding =
  fixes enc :: "'a \<Rightarrow> bytes" and cmp :: "'a \<Rightarrow> 'a \<Rightarrow> int" and ok :: "'a \<Rightarrow> bool"
  assumes enc_order: "ok a \<Longrightarrow> ok b \<Longrightarrow> bytes_cmp (enc a) (enc b) = cmp a b"
    and enc_prefix_free: "ok a \<Longrightarrow> ok b \<Longrightarrow> enc a @ x = enc b @ y \<Longrightarrow> enc a = enc b"

lemma bytes_cmp_map_anti:
  assumes "\<And>c d. (f c < f d) = (d < (c :: byte))"
    and "\<And>r. b \<noteq> a @ r" and "\<And>r. a \<noteq> b @ r"
  shows "bytes_cmp (map f a @ x) (map f b @ y) = - bytes_cmp a b"
  using assms(2,3) by (induction a b rule: bytes_cmp.induct) (auto simp: assms(1))

lemma invert_anti: "(0xFF XOR c < 0xFF XOR d) = (d < (c :: byte))"
proof -
  have ff: "(0xFF :: byte) = -1" by simp
  have "0xFF XOR w = NOT w" for w :: byte
    by (metis ff bit.xor_one_left)
  moreover have "unat c < 256" "unat d < 256" using unsigned_less[of c] unsigned_less[of d] by simp_all
  ultimately show ?thesis by (simp add: word_less_nat_alt unat_not) linarith
qed

context ordered_encoding
begin

text \<open>What follows a key never changes an order its field decides, and decides it otherwise.\<close>

lemma enc_append:
  assumes "ok a" "ok b"
  shows "bytes_cmp (enc a @ x) (enc b @ y) = (if cmp a b \<noteq> 0 then cmp a b else bytes_cmp x y)"
proof (cases "enc a = enc b")
  case False
  then have "enc b \<noteq> enc a @ r" "enc a \<noteq> enc b @ r" for r
    using enc_prefix_free[OF assms, of r "[]"] enc_prefix_free[OF assms, of "[]" r]
    by (metis append_Nil2)+
  moreover have "cmp a b \<noteq> 0" using False enc_order[OF assms] bytes_cmp_eq_0 by metis
  ultimately show ?thesis by (simp add: bytes_cmp_append_decided enc_order[OF assms])
qed (use enc_order[OF assms] byte_cmp.cmp_refl in auto)

lemma invert_append:
  assumes "ok a" "ok b"
  shows "bytes_cmp (invert (enc a) @ x) (invert (enc b) @ y)
    = (if cmp a b \<noteq> 0 then - cmp a b else bytes_cmp x y)"
proof (cases "enc a = enc b")
  case False
  then have "enc b \<noteq> enc a @ r" "enc a \<noteq> enc b @ r" for r
    using enc_prefix_free[OF assms, of r "[]"] enc_prefix_free[OF assms, of "[]" r]
    by (metis append_Nil2)+
  moreover have "cmp a b \<noteq> 0" using False enc_order[OF assms] bytes_cmp_eq_0 by metis
  ultimately show ?thesis by (simp add: bytes_cmp_map_anti[OF invert_anti] enc_order[OF assms])
qed (use enc_order[OF assms] byte_cmp.cmp_refl in auto)

end

section \<open>Numbers, strings and regular expressions in byte order\<close>

abbreviation top :: u64 where "top \<equiv> push_bit 63 1"

lemma and_top: "f AND top = 0 \<longleftrightarrow> \<not> bit f 63"
  by (simp only: push_bit_of_1 and_exp_eq_0_iff_not_bit)

lemma bit_top: "bit top n \<longleftrightarrow> n = 63"
  by (simp only: push_bit_of_1 bit_exp_iff) auto

lemma unat_top: "unat top = 2 ^ 63"
  by (simp add: push_bit_of_1)

lemma flipSign_bits: "bit (flipSign f) n \<longleftrightarrow> n < 64 \<and> (if n = 63 then \<not> bit f 63 else bit f n \<noteq> bit f 63)"
  by (cases "n < 64") (auto simp only: flipSign_def and_top bit_or_iff bit_top bit_not_iff possible_bit_word
      len_of_numeral_defs if_True if_False split: if_splits dest: bit_imp_le_length)

lemma unflip_flip: "unflipSign (flipSign f) = f"
proof (rule bit_word_eqI)
  fix n assume n: "n < LENGTH(64)"
  have "unflipSign w = (if bit w 63 then w AND NOT top else NOT w)" for w
    by (simp only: unflipSign_def and_top not_not)
  then show "bit (unflipSign (flipSign f)) n = bit f n"
    using n by (simp only: if_distrib[of "\<lambda>w. bit w n"] bit_and_iff bit_not_iff bit_top flipSign_bits possible_bit_word) auto
qed

lemma unat_sign_body: "unat f = (if f64_sign f then 2 ^ 63 else 0) + f64_body f"
proof -
  have "unat f div 2 ^ 63 < 2" using unsigned_less[of f] by (simp add: div_less_iff_less_mult)
  then have "unat f div 2 ^ 63 = (if f64_sign f then 1 else 0)"
    unfolding f64_sign_unat by (auto elim: oddE)
  moreover have "f64_body f = unat f mod 2 ^ 63"
    unfolding f64_body_def unsigned_take_bit_eq take_bit_eq_mod[of 63 "unat f"] ..
  ultimately show ?thesis using div_mult_mod_eq[of "unat f" "2 ^ 63"] by (simp split: if_splits)
qed

lemma unat_flipSign:
  "unat (flipSign f) = (if f64_sign f then 2 ^ 63 - 1 - f64_body f else 2 ^ 63 + f64_body f)"
proof (cases "f64_sign f")
  case True
  then have "flipSign f = NOT f" by (simp only: flipSign_def and_top f64_sign_def not_True_eq_False if_False)
  then show ?thesis using unat_sign_body[of f] True by (simp add: unat_not)
next
  case False
  then have "f AND top = 0" unfolding and_top f64_sign_def .
  then have "flipSign f = f + top" by (simp add: flipSign_def disjunctive_add_eq_or)
  moreover have "unat f + unat top < 2 ^ LENGTH(64)"
    using unat_sign_body[of f] f64_body_lt[of f] False by (simp add: unat_top)
  ultimately have "unat (flipSign f) = unat f + unat top" by (simp only: unat_add_lem)
  then show ?thesis using unat_sign_body[of f] False by (simp add: unat_top)
qed

lemma flipSign_cmp:
  assumes "f64_sign a \<longrightarrow> f64_body a \<noteq> 0" and "f64_sign b \<longrightarrow> f64_body b \<noteq> 0"
  shows "cmp3 (flipSign a) (flipSign b) = cmp3 (f64_val a) (f64_val b)"
proof -
  have "0 < mag_of_body x" if "x \<noteq> 0" for x using that mag_of_body_less_iff[of 0 x] by simp
  note pos = this[of "f64_body a"] this[of "f64_body b"]
  show ?thesis
    using assms f64_body_lt[of a] f64_body_lt[of b] pos
    by (cases "f64_sign a"; cases "f64_sign b")
      (simp_all add: cmp3_def f64_val_def word_less_nat_alt unat_flipSign, linarith+)
qed

lemma appendOrderedBytes_acc: "appendOrderedBytes dst s = dst @ appendOrderedBytes [] s"
proof (induction s arbitrary: dst)
  case (Cons c s)
  show ?case using Cons.IH[of "dst @ [0, 0xFF]"] Cons.IH[of "dst @ [c]"] Cons.IH[of "[0, 0xFF]"] Cons.IH[of "[c]"]
    by simp
qed simp

lemma ordered_bytes [simp]:
  "appendOrderedBytes [] [] = [0, 1]"
  "appendOrderedBytes [] (c # s) = (if c = 0 then 0 # 0xFF # appendOrderedBytes [] s else c # appendOrderedBytes [] s)"
  using appendOrderedBytes_acc[of "[0, 0xFF]" s] appendOrderedBytes_acc[of "[c]" s] by simp_all

declare appendOrderedBytes.simps [simp del]

lemma ordered_bytes_cmp: "bytes_cmp (appendOrderedBytes [] s) (appendOrderedBytes [] t) = bytes_cmp s t"
  by (induction s t rule: bytes_cmp.induct) (auto simp: byte_pos)

lemma ordered_bytes_prefix: "appendOrderedBytes [] s @ x = appendOrderedBytes [] t @ y \<Longrightarrow> s = t"
  by (induction s t rule: bytes_cmp.induct) (auto split: if_splits)

lemma nul_terminated_cmp:
  "0 \<notin> set p \<Longrightarrow> 0 \<notin> set q \<Longrightarrow>
    bytes_cmp (p @ 0 # x) (q @ 0 # y) = (if p = q then bytes_cmp x y else bytes_cmp p q)"
  by (induction p q rule: bytes_cmp.induct) (auto simp: byte_pos)

lemma nul_terminated_eq:
  fixes p q :: bytes
  shows "0 \<notin> set p \<Longrightarrow> 0 \<notin> set q \<Longrightarrow> p @ 0 # x = q @ 0 # y \<longleftrightarrow> p = q \<and> x = y"
  by (induction p q rule: bytes_cmp.induct) auto

lemma RegexOK_nul_free: "RegexOK v = Some (p, opt) \<Longrightarrow> 0 \<notin> set p \<and> 0 \<notin> set opt"
proof -
  assume "RegexOK v = Some (p, opt)"
  then obtain i j where i: "cstrEnd (vdata v) 0 = Some i" and j: "cstrEnd (vdata v) (i + 1) = Some j"
    and p: "p = take i (vdata v)" and opt: "opt = sub (vdata v) (i + 1) (j - (i + 1))"
    by (auto simp: RegexOK_def split: if_splits option.splits)
  have nf: "0 \<notin> set (sub b m (n - m))" if c: "cstrEnd b m = Some n" and m: "m \<le> length b" for b m n
  proof -
    obtain k r where "cstr (drop m b) = Some (k, r)" "n = m + length k"
      using c m cstrEnd_cstr[of m b] by (cases "cstr (drop m b)") auto
    then show ?thesis using cstr_length[of "drop m b"] by (simp add: sub_def)
  qed
  show ?thesis using nf[OF i] nf[OF j] cstrEnd_bounds[OF i] p opt by (simp add: sub_def)
qed

section \<open>Which values have exact keys\<close>

primrec rank_tag :: "rank \<Rightarrow> byte" where
  "rank_tag rankMinKey = tagMinKey"
| "rank_tag rankNull = tagNull"
| "rank_tag rankNumber = tagNumber"
| "rank_tag rankString = tagString"
| "rank_tag rankObject = tagDocument"
| "rank_tag rankArray = tagArray"
| "rank_tag rankBinary = tagBinary"
| "rank_tag rankObjectID = tagObjectID"
| "rank_tag rankBool = tagBool"
| "rank_tag rankDate = tagDate"
| "rank_tag rankTimestamp = tagTimestamp"
| "rank_tag rankRegex = tagRegex"
| "rank_tag rankMaxKey = tagMaxKey"

lemma rank_tag_less: "rank_tag r < rank_tag s \<longleftrightarrow> rank_no r < rank_no s"
  by (cases r; cases s) simp_all

definition num_f64 :: "rawvalue \<Rightarrow> f64" where
  "num_f64 v = (if vtype v = TypeDouble then DoubleV v
     else if vtype v = TypeInt32 then f64_of_int (Int32V v) else f64_of_int (Int64V v))"

text \<open>The values whose key order is the value order: integers up to $2^{53}$ in size (larger
  ones are rounded to a float), doubles other than NaN and negative zero, strings, regular
  expressions and binaries (of one subtype \<open>st\<close>) with a readable payload, and every value of
  the other scalar types.\<close>

definition exact_key :: "byte \<Rightarrow> rawvalue \<Rightarrow> bool" where
  "exact_key st v = (let t = vtype v in
     if t = TypeDouble then \<not> f64_nan (DoubleV v) \<and> (f64_sign (DoubleV v) \<longrightarrow> f64_body (DoubleV v) \<noteq> 0)
     else if t = TypeInt64 then \<bar>Int64V v\<bar> < 2 ^ 53
     else if t \<in> {TypeString, TypeSymbol, TypeJavaScript} then StringValueOK v \<noteq> None
     else if t = TypeBinary then map_option fst (BinaryOK v) = Some st
     else if t = TypeRegex then RegexOK v \<noteq> None
     else t \<in> {TypeMinKey, TypeMaxKey, TypeNull, TypeUndefined, TypeInt32, TypeObjectID,
       TypeBoolean, TypeDateTime, TypeTimestamp})"

definition key_body :: "rawvalue \<Rightarrow> bytes" where
  "key_body v = (case CanonicalType (vtype v) of
     rankNumber \<Rightarrow> be_put 8 (flipSign (num_f64 v))
   | rankString \<Rightarrow> appendOrderedBytes [] (StringValue v)
   | rankObjectID \<Rightarrow> ObjectIDV v
   | rankBool \<Rightarrow> [if BooleanV v then 1 else 0]
   | rankDate \<Rightarrow> be_put 8 ((word_of_int (DateTimeV v) :: u64) XOR push_bit 63 1)
   | rankTimestamp \<Rightarrow> be_put 4 (ucast (drop_bit 32 (TimestampV v)) :: u32) @ be_put 4 (ucast (TimestampV v) :: u32)
   | rankBinary \<Rightarrow> (let (st, d) = the (BinaryOK v) in be_put 4 (of_nat (length d) :: u32) @ d @ [st])
   | rankRegex \<Rightarrow> (let (p, opt) = the (RegexOK v) in p @ [0] @ opt @ [0])
   | _ \<Rightarrow> [])"

lemma encode_exact:
  "exact_key st v \<Longrightarrow> appendValueKey dst v = Inr (dst @ rank_tag (CanonicalType (vtype v)) # key_body v)"
  by (subst appendValueKey.simps)
    (auto simp: exact_key_def Let_def CanonicalType_def key_body_def num_f64_def appendNumber_def
      appendSignFlipped64_def appendString_def appendOrderedInt64_def StringValue_def
      appendOrderedBytes_acc[of "dst @ [tagString]"] split: if_splits option.splits)

definition value_key :: "rawvalue \<Rightarrow> bytes" where
  "value_key v = (case EncodeValue v of Inl _ \<Rightarrow> [] | Inr k \<Rightarrow> k)"

lemma value_key_exact: "exact_key st v \<Longrightarrow> value_key v = rank_tag (CanonicalType (vtype v)) # key_body v"
  by (simp add: value_key_def EncodeValue_def encode_exact)

text \<open>Per type, the body of a key carries the comparison and its end is determined by its
  beginning.\<close>

definition body_ok :: "rawvalue \<Rightarrow> rawvalue \<Rightarrow> bool" where
  "body_ok a b \<longleftrightarrow> bytes_cmp (key_body a) (key_body b) = Compare a b
     \<and> (\<forall>x y. key_body a @ x = key_body b @ y \<longrightarrow> key_body a = key_body b)"

lemma body_ok_length:
  "bytes_cmp (key_body a) (key_body b) = Compare a b \<Longrightarrow> length (key_body a) = length (key_body b) \<Longrightarrow> body_ok a b"
  by (simp add: body_ok_def)

lemma exact_number:
  assumes "exact_key st v" and "CanonicalType (vtype v) = rankNumber"
  shows "num_key v = f64_val (num_f64 v)" and "f64_sign (num_f64 v) \<longrightarrow> f64_body (num_f64 v) \<noteq> 0"
proof -
  have int: "f64_sign (f64_of_int i) \<longrightarrow> f64_body (f64_of_int i) \<noteq> 0" if "\<bar>i\<bar> < 2 ^ 53" for i
  proof (cases "i = 0")
    case True
    then show ?thesis by (simp add: f64_of_int_def f64_sign_def)
  next
    case False
    then have "f64_val (f64_of_int i) \<noteq> 0" using f64_of_int_exact[OF that] by simp
    then show ?thesis by (auto simp: f64_val_def)
  qed
  have i32: "\<bar>Int32V v\<bar> < 2 ^ 53"
  proof -
    have "\<bar>sint (w :: u32)\<bar> < 2 ^ 53" for w using sint_range_size[of w] by (auto simp: word_size)
    then show ?thesis by (simp add: Int32V_def Int32OK_def)
  qed
  have t: "vtype v = TypeDouble \<or> vtype v = TypeInt32 \<or> vtype v = TypeInt64"
    using assms by (auto simp: exact_key_def CanonicalType_def Let_def split: if_splits)
  then show "f64_sign (num_f64 v) \<longrightarrow> f64_body (num_f64 v) \<noteq> 0"
    using assms(1) int i32 by (auto simp: exact_key_def num_f64_def Let_def)
  show "num_key v = f64_val (num_f64 v)"
    using t assms(1) f64_of_int_exact i32
    by (auto simp: exact_key_def num_f64_def num_key_def isNaN_def asInt64_def DoubleOK_def DoubleV_def
        AsFloat64_def float_or_zero_def Let_def split: if_splits option.splits)
qed

lemma body_ok_number:
  assumes "exact_key st a" "exact_key st b"
    and r: "CanonicalType (vtype a) = rankNumber" "CanonicalType (vtype b) = rankNumber"
  shows "body_ok a b"
  using exact_number[OF assms(1) r(1)] exact_number[OF assms(2) r(2)]
  by (intro body_ok_length)
    (simp_all add: key_body_def r be_put_cmp flipSign_cmp Compare_same_rank[OF r] compareNumbers_key)

lemma body_ok_string:
  assumes r: "CanonicalType (vtype a) = rankString" "CanonicalType (vtype b) = rankString"
  shows "body_ok a b"
  by (auto simp: body_ok_def key_body_def r ordered_bytes_cmp Compare_same_rank[OF r] cmpString_def
      dest: ordered_bytes_prefix)

lemma sint_top_cmp: "cmp3 ((word_of_int (sint (u :: u64)) :: u64) XOR top) (word_of_int (sint v) XOR top) = cmp3 (sint u) (sint (v :: u64))"
proof -
  have u: "int (unat (w XOR top)) = sint w + 2 ^ 63" for w :: u64
  proof -
    have s: "f64_sign (w XOR top) = (\<not> f64_sign w)"
      unfolding f64_sign_def by (simp only: bit_xor_iff bit_top) simp
    have "take_bit 63 (w XOR top) = take_bit 63 w"
      by (rule bit_word_eqI) (simp only: bit_take_bit_iff bit_xor_iff bit_top, auto)
    then have b: "f64_body (w XOR top) = f64_body w" by (simp only: f64_body_def)
    have "sint w = int (unat w) - (if f64_sign w then 2 ^ 64 else 0)"
      using signed_take_bit_eq_take_bit_minus[of 63 "uint w"] take_bit_uint[of w]
      by (simp add: sint_uint f64_sign_def bit_uint_iff)
    then show ?thesis using unat_sign_body[of "w XOR top"] unat_sign_body[of w] s b by simp
  qed
  have "unat (a XOR top) < unat (b XOR top) \<longleftrightarrow> sint a < sint b" for a b :: u64
    using u[of a] u[of b] by linarith
  then show ?thesis by (simp only: cmp3_def word_less_nat_alt of_int_sint scast_id)
qed

lemma DateTimeV_sint: "\<exists>w :: u64. DateTimeV v = sint w"
  by (auto simp: DateTimeV_def intro: exI[of _ 0])

lemma body_ok_date:
  assumes r: "CanonicalType (vtype a) = rankDate" "CanonicalType (vtype b) = rankDate"
  shows "body_ok a b"
proof -
  obtain u w where "DateTimeV a = sint (u :: u64)" "DateTimeV b = sint (w :: u64)"
    using DateTimeV_sint by metis
  then show ?thesis
    by (intro body_ok_length)
      (simp_all only: key_body_def r be_put_cmp sint_top_cmp rank.case Compare_same_rank[OF r] cmp_defs_cmp3
        length_be_put len_of_numeral_defs)
qed

lemma be_put_split: "be_put 4 (ucast (drop_bit 32 u) :: u32) @ be_put 4 (ucast u :: u32) = be_put 8 (u :: u64)"
proof -
  have "le_put 8 u = le_put 4 u @ le_put 4 (drop_bit 32 u)"
    by (rule nth_equalityI) (auto simp: nth_append nth_le_put algebra_simps)
  then show ?thesis by (simp add: be_put_def le_put_ucast)
qed

lemma timestamp_split_cmp:
  "bytes_cmp (be_put 4 (ucast (drop_bit 32 (u :: u64)) :: u32) @ be_put 4 (ucast u :: u32))
     (be_put 4 (ucast (drop_bit 32 v) :: u32) @ be_put 4 (ucast v :: u32)) = cmp3 u v"
  by (simp add: be_put_split be_put_cmp)

lemma body_ok_timestamp:
  assumes r: "CanonicalType (vtype a) = rankTimestamp" "CanonicalType (vtype b) = rankTimestamp"
  shows "body_ok a b"
  by (intro body_ok_length)
    (simp_all add: key_body_def r timestamp_split_cmp Compare_same_rank[OF r] cmp_defs_cmp3)

lemma body_ok_simple:
  assumes "CanonicalType (vtype a) = r" "CanonicalType (vtype b) = r"
    and "r \<in> {rankMinKey, rankNull, rankObjectID, rankBool, rankMaxKey}"
  shows "body_ok a b"
proof -
  have l: "length (ObjectIDV v) = 12" for v by (simp add: ObjectIDV_def)
  show ?thesis using assms(3)
    by (intro body_ok_length) (auto simp: key_body_def assms(1,2) Compare_same_rank[OF assms(1,2)] l cmpBool_def)
qed

lemma body_ok_regex:
  assumes "exact_key st a" "exact_key st b"
    and r: "CanonicalType (vtype a) = rankRegex" "CanonicalType (vtype b) = rankRegex"
  shows "body_ok a b"
proof -
  have "vtype v = TypeRegex" if "CanonicalType (vtype v) = rankRegex" for v
    using that by (auto simp: CanonicalType_def split: if_splits)
  then have "vtype a = TypeRegex" "vtype b = TypeRegex" using r by blast+
  then obtain p oa q ob where a: "RegexOK a = Some (p, oa)" and b: "RegexOK b = Some (q, ob)"
    using assms(1,2) by (auto simp: exact_key_def Let_def)
  note nf = RegexOK_nul_free[OF a] RegexOK_nul_free[OF b]
  show ?thesis using nf nul_terminated_cmp[of p q "oa @ [0]" "ob @ [0]"] nul_terminated_cmp[of oa ob "[]" "[]"]
    by (auto simp: body_ok_def key_body_def r a b Compare_same_rank[OF r] compareRegex_def cmpString_def
        nul_terminated_eq Let_def)
qed

lemma body_ok_binary:
  assumes "exact_key st a" "exact_key st b"
    and r: "CanonicalType (vtype a) = rankBinary" "CanonicalType (vtype b) = rankBinary"
  shows "body_ok a b"
proof -
  have "vtype v = TypeBinary" if "CanonicalType (vtype v) = rankBinary" for v
    using that by (auto simp: CanonicalType_def split: if_splits)
  then have "vtype a = TypeBinary" "vtype b = TypeBinary" using r by blast+
  then obtain da db where a: "BinaryOK a = Some (st, da)" and b: "BinaryOK b = Some (st, db)"
    using assms(1,2) by (auto simp: exact_key_def Let_def)
  have len: "length d < 2 ^ 32" if "BinaryOK v = Some (s, d)" for v s d
  proof -
    have "length d \<le> unat (get32 (vdata v) 0)"
      using that by (auto simp: BinaryOK_def Let_def split: if_splits)
    also have "\<dots> < 2 ^ 32" using unsigned_less[of "get32 (vdata v) 0"] by simp
    finally show ?thesis .
  qed
  let ?l = "\<lambda>d. of_nat (length (d :: bytes)) :: u32"
  have u: "unat (?l da) = length da" "unat (?l db) = length db"
    using len[OF a] len[OF b] by (simp_all add: unat_of_nat_id)
  then have c: "cmp3 (?l da) (?l db) = cmp3 (length da) (length db)"
    by (simp add: cmp3_def word_less_nat_alt)
  have bc: "bytes_cmp (be_put 4 (?l da)) (be_put 4 (?l db)) = cmp3 (length da) (length db)"
    using c be_put_cmp[of 4 "?l da" "?l db"] by simp
  then have l: "be_put 4 (?l da) = be_put 4 (?l db) \<longleftrightarrow> length da = length db"
    by (metis bytes_cmp_eq_0 cmp3_simps(1))
  have tail: "bytes_cmp (da @ [st]) (db @ [st]) = bytes_cmp da db" if "length da = length db"
    using bytes_cmp_append_eq_length[OF that, of "[st]" "[st]"] by auto
  show ?thesis unfolding body_ok_def
  proof (intro conjI allI impI)
    show "bytes_cmp (key_body a) (key_body b) = Compare a b"
      using bc l tail
      by (simp add: key_body_def r a b bytes_cmp_append_eq_length Compare_same_rank[OF r] compareBinary_def
          cmp_defs_cmp3 Let_def)
    show "key_body a = key_body b" if "key_body a @ x = key_body b @ y" for x y
      using that l by (auto simp: key_body_def r a b)
  qed
qed

lemma body_ok_exact:
  assumes "exact_key st a" "exact_key st b" and "CanonicalType (vtype a) = CanonicalType (vtype b)"
  shows "body_ok a b"
proof -
  have "CanonicalType (vtype b) \<notin> {rankObject, rankArray}"
    using assms(2) by (auto simp: exact_key_def CanonicalType_def Let_def split: if_splits)
  then show ?thesis
    using assms body_ok_number body_ok_string body_ok_date body_ok_timestamp body_ok_simple body_ok_regex
      body_ok_binary
    by (cases "CanonicalType (vtype b)") auto
qed

interpretation key_enc: ordered_encoding value_key Compare "exact_key st" for st
proof
  fix a b x y assume ok: "exact_key st a" "exact_key st b"
  let ?r = "\<lambda>v. CanonicalType (vtype v)"
  note k = value_key_exact[OF ok(1)] value_key_exact[OF ok(2)]
  show "bytes_cmp (value_key a) (value_key b) = Compare a b"
  proof (cases "?r a = ?r b")
    case True
    then show ?thesis using body_ok_exact[OF ok True] by (simp add: k body_ok_def)
  next
    case False
    then show ?thesis using rank_tag_less[of "?r a" "?r b"] rank_tag_less[of "?r b" "?r a"]
      rank_no_inj[of "?r a" "?r b"]
      by (auto simp: k Compare_diff_rank simp del: rank_no_inj)
  qed
  assume eq: "value_key a @ x = value_key b @ y"
  then have "rank_tag (?r a) = rank_tag (?r b)" by (simp add: k)
  then have "\<not> rank_no (?r a) < rank_no (?r b)" "\<not> rank_no (?r b) < rank_no (?r a)"
    using rank_tag_less by (metis less_irrefl)+
  then have "?r a = ?r b" by (metis linorder_neqE_nat rank_no_inj)
  then show "value_key a = value_key b" using body_ok_exact[OF ok] eq by (auto simp: k body_ok_def)
qed

section \<open>Appending, bounds and tree keys\<close>

lemma append_fields_acc:
  assumes "\<And>d e. e \<in> set es \<Longrightarrow> f d (evalue e) = map_sum id (\<lambda>k. d @ k) (f [] (evalue e))"
  shows "append_fields f dst es = map_sum id (\<lambda>k. dst @ k) (append_fields f [] es)"
  using assms
proof (induction es arbitrary: dst)
  case (Cons e es)
  let ?n = "escape_name (ekey e) @ [0]"
  have f: "f d (evalue e) = map_sum id (\<lambda>k. d @ k) (f [] (evalue e))" for d by (rule Cons.prems) simp
  have ih: "append_fields f d es = map_sum id (\<lambda>k. d @ k) (append_fields f [] es)" for d
    by (rule Cons.IH) (rule Cons.prems, simp)
  show ?case
  proof (cases "f [] (evalue e)")
    case (Inr k)
    show ?thesis using f[of "dst @ ?n"] f[of ?n] ih[of "dst @ ?n @ k"] ih[of "?n @ k"]
      by (cases "append_fields f [] es") (simp_all add: Inr)
  qed (use f[of "dst @ ?n"] f[of ?n] in simp)
qed simp

lemma appendDocKey_acc:
  assumes "\<And>d v. length (vdata v) < length doc \<Longrightarrow> f d v = map_sum id (\<lambda>k. d @ k) (f [] v)"
  shows "appendDocKey f dst tag doc sf = map_sum id (\<lambda>k. dst @ k) (appendDocKey f [] tag doc sf)"
proof (cases "Elements doc")
  case (Inr es)
  define fs where "fs = (if sf then sort_fields es else es)"
  have fs: "append_fields f d fs = map_sum id (\<lambda>k. d @ k) (append_fields f [] fs)" for d
  proof (rule append_fields_acc, rule assms)
    fix e assume "e \<in> set fs"
    then show "length (vdata (evalue e)) < length doc"
      using Elements_shorter[OF Inr, of e] by (auto simp: fs_def split: if_splits)
  qed
  show ?thesis using fs[of "dst @ [tag]"] fs[of "[tag]"]
    by (cases "append_fields f [] fs") (simp_all add: appendDocKey_def Inr flip: fs_def)
qed (simp add: appendDocKey_def)

lemma appendValueKey_acc: "appendValueKey dst v = map_sum id (\<lambda>k. dst @ k) (appendValueKey [] v)"
proof (induction "length (vdata v)" arbitrary: dst v rule: less_induct)
  case less
  have doc: "appendDocKey appendValueKey dst tag (DocumentV v) sf
    = map_sum id (\<lambda>k. dst @ k) (appendDocKey appendValueKey [] tag (DocumentV v) sf)" for tag sf
    by (rule appendDocKey_acc, rule less, erule less_le_trans, rule DocumentV_length)
  show ?case
    by (subst (1 2) appendValueKey.simps)
      (simp add: Let_def doc appendNumber_def appendSignFlipped64_def appendDecimal128_def appendString_def
        appendOrderedBytes_acc[of "dst @ [tagString]"] appendOrderedBytes_acc[of "[tagString]"]
        appendOrderedInt64_def split: option.split prod.split)
qed

lemma AppendField_EncodeField: "AppendField dst v desc = map_sum id (\<lambda>k. dst @ k) (EncodeField v desc)"
  unfolding AppendField_def EncodeField_def EncodeValue_def
  by (subst appendValueKey_acc) (auto split: sum.splits)

text \<open>Every key starts with a tag, and only the sentinels use the outermost two, alone.\<close>

lemma key_shape:
  assumes "EncodeValue v = Inr k"
  obtains t body where "k = t # body" "tagMinKey \<le> t" "t \<in> {tagMinKey, tagMaxKey} \<longrightarrow> body = []"
proof -
  have doc: "\<exists>body. k' = t # body" if "appendDocKey appendValueKey [] t d sf = Inr k'" for t d sf k'
    using that append_fields_acc[of _ appendValueKey "[t]", OF appendValueKey_acc]
    by (auto simp: appendDocKey_def map_sum_def split: sum.splits)
  show ?thesis
    using assms doc that unfolding EncodeValue_def
    by (subst (asm) appendValueKey.simps)
      (fastforce simp: Let_def appendNumber_def appendSignFlipped64_def appendDecimal128_def appendString_def
        appendOrderedBytes_acc[of "[tagString]"] appendOrderedInt64_def split: if_splits option.splits prod.splits)
qed

lemma RID_halves:
  "drop_bit 32 (RID_Encode r) = ucast (PageNo r)" "take_bit 32 (RID_Encode r) = ucast (Slot r)"
  unfolding RID_Encode_def
  by (rule bit_word_eqI, auto simp: bit_simps dest: bit_imp_le_length)+

lemma RID_Encode_unat: "unat (RID_Encode r) = unat (PageNo r) * 2 ^ 32 + unat (Slot r)"
proof -
  let ?v = "RID_Encode r"
  have "unat ?v div 2 ^ 32 = unat (drop_bit 32 ?v)" "unat ?v mod 2 ^ 32 = unat (take_bit 32 ?v)"
    by (simp_all add: drop_bit_eq_div take_bit_eq_mod unat_div unat_mod)
  moreover have "unat (ucast (PageNo r) :: u64) = unat (PageNo r)" "unat (ucast (Slot r) :: u64) = unat (Slot r)"
    by (simp_all add: unsigned_ucast_eq take_bit_nat_eq_self_iff less_trans[OF unsigned_less])
  ultimately show ?thesis using div_mult_mod_eq[of "unat ?v" "2 ^ 32"] by (simp only: RID_halves)
qed

lemma decode_loop_ordered:
  "decode_string_loop (pre @ map (\<lambda>c. msk XOR c) (appendOrderedBytes [] s) @ rest) msk (length pre) out
     = Inr (out @ s, length pre + length (appendOrderedBytes [] s))"
proof (induction s arbitrary: pre out)
  case Nil
  show ?case by (subst decode_string_loop.simps) (simp add: nth_append xor_cancel)
next
  case (Cons c s)
  show ?case
    using Cons.IH[of "pre @ [msk XOR 0, msk XOR 0xFF]" "out @ [0]"] Cons.IH[of "pre @ [msk XOR c]" "out @ [c]"]
    by (subst decode_string_loop.simps) (simp add: nth_append xor_cancel)
qed

text \<open>The value a covered scan reconstructs: numbers come back as doubles, undefined as null,
  symbols and JavaScript as strings.\<close>

definition covered :: "rawvalue \<Rightarrow> rawvalue option" where
  "covered v = (let t = vtype v in
     if t = TypeMinKey \<or> t = TypeMaxKey then Some (RawValue t [])
     else if t = TypeNull \<or> t = TypeUndefined then Some (RawValue TypeNull [])
     else if t \<in> {TypeDouble, TypeInt32, TypeInt64} then Some (RawValue TypeDouble (le_put 8 (num_f64 v)))
     else if t \<in> {TypeString, TypeSymbol, TypeJavaScript} then map_option StringVal (StringValueOK v)
     else if t = TypeObjectID then Some (RawValue t (ObjectIDV v))
     else if t = TypeBoolean then Some (RawValue t [if BooleanV v then 1 else 0])
     else if t = TypeDateTime then Some (RawValue t (le_put 8 (word_of_int (DateTimeV v) :: u64)))
     else if t = TypeTimestamp then Some (RawValue t (le_put 8 (TimestampV v)))
     else if t = TypeBinary then map_option (\<lambda>(st, d). BinaryVal st d) (BinaryOK v)
     else None)"

abbreviation dmask :: "bool \<Rightarrow> byte" where
  "dmask d \<equiv> if d then 0xFF else 0"

abbreviation masked :: "bool \<Rightarrow> bytes \<Rightarrow> bytes" where
  "masked d k \<equiv> map (\<lambda>c. dmask d XOR c) k"

lemma EncodeField_masked: "EncodeField v d = map_sum id (masked d) (EncodeValue v)"
  by (auto simp: EncodeField_def split: sum.split)

text \<open>The decoder looks at its input only through the mask, so decoding an inverted field is
  decoding the ascending one.\<close>

lemma decode_string_masked: "decode_string_loop (map (\<lambda>c. m XOR c) b) m i out = decode_string_loop b 0 i out"
proof (induction b "0 :: byte" i out rule: decode_string_loop.induct)
  case (1 b i out)
  show ?case
    using 1 by (subst (1 2) decode_string_loop.simps) (simp add: xor_cancel Let_def)
qed

lemma sub_masked: "map (\<lambda>c. c XOR m) (sub (map (\<lambda>c. m XOR c) b) i n) = sub (b :: bytes) i n"
  by (simp add: sub_def drop_map take_map comp_def xor_cancel)

lemma read_masked:
  "readMasked64 (sub (map (\<lambda>c. m XOR c) b) i 8) m = readMasked64 (sub b i 8) 0"
  "readMasked32 (sub (map (\<lambda>c. m XOR c) b) i 4) m = readMasked32 (sub b i 4) 0"
  by (simp_all add: readMasked64_def readMasked32_def sub_sub sub_masked)

lemma decode_masked: "AppendDecodedField bldr key (masked d b) d = AppendDecodedField bldr key b False"
proof (cases d)
  case True
  have str: "decodeString (drop 1 (map (\<lambda>c. 0xFF XOR c) b)) 0xFF = decodeString (drop 1 b) 0"
    unfolding decodeString_def drop_map by (rule decode_string_masked)
  show ?thesis unfolding AppendDecodedField_def str Let_def
    by (simp only: True if_True if_False length_map nth_map xor_cancel read_masked sub_masked str
        xor.right_neutral map_idI refl cong: if_cong)
qed simp

lemma decode_string_ordered:
  "decodeString (appendOrderedBytes [] s @ rest) 0 = Inr (s, length (appendOrderedBytes [] s))"
  using decode_loop_ordered[of "[]" 0 s rest "[]"] by (simp add: decodeString_def)

lemma read_be_put:
  "sub (t # be_put 8 w @ r) (Suc 0) 8 = be_put 8 w" "readMasked64 (be_put 8 (u :: u64)) 0 = u"
  "sub (t # be_put 4 x @ r) (Suc 0) 4 = be_put 4 x" "readMasked32 (be_put 4 (y :: u32)) 0 = y"
  by (simp_all add: sub_def readMasked64_def readMasked32_def)

lemma timestamp_halves:
  "push_bit 32 (ucast (ucast (drop_bit 32 u) :: u32)) OR ucast (ucast u :: u32) = (u :: u64)"
  by (rule bit_word_eqI) (auto simp: bit_simps)

lemma BinaryOK_length: "BinaryOK v = Some (st, d) \<Longrightarrow> length d < 2 ^ 32"
proof -
  assume "BinaryOK v = Some (st, d)"
  then have "length d \<le> unat (get32 (vdata v) 0)"
    by (auto simp: BinaryOK_def Let_def split: if_splits)
  also have "\<dots> < 2 ^ 32" using unsigned_less[of "get32 (vdata v) 0"] by simp
  finally show ?thesis .
qed

definition decodes :: "rawvalue \<Rightarrow> bool" where
  "decodes v \<longleftrightarrow> (\<forall>k w bldr key rest. EncodeValue v = Inr k \<longrightarrow> covered v = Some w \<longrightarrow>
     AppendDecodedField bldr key (k @ rest) False = Inr (AppendValue bldr key w, length k))"

lemma decodesI:
  assumes "\<And>k w. EncodeValue v = Inr k \<Longrightarrow> covered v = Some w \<Longrightarrow>
    (\<And>bldr key rest. AppendDecodedField bldr key (k @ rest) False = Inr (AppendValue bldr key w, length k))"
  shows "decodes v"
  using assms by (simp add: decodes_def)

lemma decodes_num:
  assumes num: "vtype v \<in> {TypeDouble, TypeInt32, TypeInt64}"
  shows "decodes v"
proof (rule decodesI)
  fix k w bldr key rest assume asm: "EncodeValue v = Inr k" "covered v = Some w"
  have k: "k = tagNumber # be_put 8 (flipSign (num_f64 v))"
    using num asm(1) by (auto simp: EncodeValue_def appendValueKey.simps[of "[]" v] num_f64_def
        appendNumber_def appendSignFlipped64_def)
  have w: "w = RawValue TypeDouble (le_put 8 (num_f64 v))"
    using num asm(2) by (auto simp: covered_def Let_def)
  show "AppendDecodedField bldr key (k @ rest) False = Inr (AppendValue bldr key w, length k)" by (simp add: k w AppendDecodedField_def Let_def read_be_put unflip_flip append_typed)
qed

lemma decodes_str:
  assumes str: "vtype v \<in> {TypeString, TypeSymbol, TypeJavaScript}" "StringValueOK v = Some s"
  shows "decodes v"
proof (rule decodesI)
  fix k w bldr key rest assume asm: "EncodeValue v = Inr k" "covered v = Some w"
  have k: "k = tagString # appendOrderedBytes [] s" and w: "w = StringVal s"
    using str asm by (auto simp: EncodeValue_def appendValueKey.simps[of "[]" v] appendString_def
        appendOrderedBytes_acc[of "[tagString]"] covered_def Let_def)
  show "AppendDecodedField bldr key (k @ rest) False = Inr (AppendValue bldr key w, length k)" by (simp add: k w AppendDecodedField_def Let_def decode_string_ordered append_typed)
qed

lemma decodes_date:
  assumes date: "vtype v = TypeDateTime"
  shows "decodes v"
proof (rule decodesI)
  fix k w bldr key rest assume asm: "EncodeValue v = Inr k" "covered v = Some w"
  have k: "k = tagDate # be_put 8 ((word_of_int (DateTimeV v) :: u64) XOR top)"
    using date asm(1) by (auto simp: EncodeValue_def appendValueKey.simps[of "[]" v] appendOrderedInt64_def)
  have w: "w = RawValue TypeDateTime (le_put 8 (word_of_int (DateTimeV v) :: u64))"
    using date asm(2) by (auto simp: covered_def Let_def)
  have x: "(u XOR top) XOR top = u" for u by (simp add: xor.assoc)
  show "AppendDecodedField bldr key (k @ rest) False = Inr (AppendValue bldr key w, length k)" using x[of "word_of_int (DateTimeV v)"]
    by (simp add: k w AppendDecodedField_def Let_def read_be_put append_typed)
qed

lemma decodes_ts:
  assumes ts: "vtype v = TypeTimestamp"
  shows "decodes v"
proof (rule decodesI)
  fix k w bldr key rest assume asm: "EncodeValue v = Inr k" "covered v = Some w"
  let ?u = "TimestampV v"
  have k: "k = tagTimestamp # be_put 4 (ucast (drop_bit 32 ?u) :: u32) @ be_put 4 (ucast ?u :: u32)"
    using ts asm(1) by (auto simp: EncodeValue_def appendValueKey.simps[of "[]" v] Let_def)
  have w: "w = RawValue TypeTimestamp (le_put 8 ?u)" using ts asm(2) by (auto simp: covered_def Let_def)
  have s5: "sub (t # be_put 4 x @ be_put 4 y @ r) 5 4 = be_put 4 y" for t x y r by (simp add: sub_def)
  show "AppendDecodedField bldr key (k @ rest) False = Inr (AppendValue bldr key w, length k)"
    by (simp add: k w AppendDecodedField_def Let_def read_be_put s5 timestamp_halves append_typed)
qed

lemma decodes_bin:
  assumes bin: "vtype v = TypeBinary" "BinaryOK v = Some (st, d)"
  shows "decodes v"
proof (rule decodesI)
  fix k w bldr key rest assume asm: "EncodeValue v = Inr k" "covered v = Some w"
  have k: "k = tagBinary # be_put 4 (of_nat (length d) :: u32) @ d @ [st]" and w: "w = BinaryVal st d"
    using bin asm by (auto simp: EncodeValue_def appendValueKey.simps[of "[]" v] covered_def Let_def)
  have u: "unat (of_nat (length d) :: u32) = length d"
    using BinaryOK_length[OF bin(2)] by (simp add: unat_of_nat_id)
  show "AppendDecodedField bldr key (k @ rest) False = Inr (AppendValue bldr key w, length k)"
    by (simp add: k w AppendDecodedField_def Let_def read_be_put append_typed u nth_append sub_def)
qed

lemma decodes_oid:
  assumes oid: "vtype v = TypeObjectID"
  shows "decodes v"
proof (rule decodesI)
  fix k w bldr key rest assume asm: "EncodeValue v = Inr k" "covered v = Some w"
  have k: "k = tagObjectID # ObjectIDV v" and w: "w = RawValue TypeObjectID (ObjectIDV v)"
    using oid asm by (auto simp: EncodeValue_def appendValueKey.simps[of "[]" v] covered_def Let_def)
  have "length (ObjectIDV v) = 12" by (simp add: ObjectIDV_def)
  then show "AppendDecodedField bldr key (k @ rest) False = Inr (AppendValue bldr key w, length k)" by (simp add: k w AppendDecodedField_def Let_def append_typed sub_def)
qed

lemma decodes_bool:
  assumes bool: "vtype v = TypeBoolean"
  shows "decodes v"
proof (rule decodesI)
  fix k w bldr key rest assume asm: "EncodeValue v = Inr k" "covered v = Some w"
  have "k = [tagBool, if BooleanV v then 1 else 0]" "w = RawValue TypeBoolean [if BooleanV v then 1 else 0]"
    using bool asm by (auto simp: EncodeValue_def appendValueKey.simps[of "[]" v] covered_def)
  then show "AppendDecodedField bldr key (k @ rest) False = Inr (AppendValue bldr key w, length k)"
    by (simp add: AppendDecodedField_def append_typed)
qed

lemma decodes_unit:
  assumes t: "vtype v = t" and "(t, tag, t') \<in> {(TypeMinKey, tagMinKey, TypeMinKey),
    (TypeMaxKey, tagMaxKey, TypeMaxKey), (TypeNull, tagNull, TypeNull), (TypeUndefined, tagNull, TypeNull)}"
  shows "decodes v"
proof (rule decodesI)
  fix k w bldr key rest assume asm: "EncodeValue v = Inr k" "covered v = Some w"
  have "k = [tag]" "w = RawValue t' []"
    using assms asm by (auto simp: EncodeValue_def appendValueKey.simps[of "[]" v] covered_def)
  then show "AppendDecodedField bldr key (k @ rest) False = Inr (AppendValue bldr key w, length k)"
    using assms(2) by (auto simp: AppendDecodedField_def append_typed)
qed

lemma decodes_none: "covered v = None \<Longrightarrow> decodes v"
  by (simp add: decodes_def)

lemma decodes_all: "decodes v"
proof -
  let ?fixed = "{TypeBoolean, TypeDateTime, TypeTimestamp, TypeObjectID, TypeBinary}"
  let ?num = "{TypeDouble, TypeInt32, TypeInt64}" and ?str = "{TypeString, TypeSymbol, TypeJavaScript}"
    and ?small = "{TypeMinKey, TypeMaxKey, TypeNull, TypeUndefined}"
  consider "vtype v \<in> ?num" | "vtype v \<in> ?str" | "vtype v \<in> ?small" | "vtype v \<in> ?fixed"
    | "vtype v \<notin> ?num \<union> ?str \<union> ?small \<union> ?fixed" by blast
  then show ?thesis
  proof cases
    case 2
    show ?thesis
    proof (cases "StringValueOK v")
      case None
      then show ?thesis using 2 by (auto simp: covered_def intro!: decodes_none)
    qed (rule decodes_str[OF 2])
  next
    case 4
    then consider "vtype v = TypeBoolean" | "vtype v = TypeDateTime" | "vtype v = TypeTimestamp"
      | "vtype v = TypeObjectID" | "vtype v = TypeBinary" by blast
    then show ?thesis
    proof cases
      case 5
      show ?thesis
      proof (cases "BinaryOK v")
        case None
        then show ?thesis using 5 by (intro decodes_none) (simp add: covered_def)
      qed (use decodes_bin[OF 5] in auto)
    qed (rule decodes_bool decodes_date decodes_ts decodes_oid, assumption)+
  next
    case 3
    then show ?thesis using decodes_unit[OF refl] by auto
  next
    case 5
    then show ?thesis by (intro decodes_none) (simp add: covered_def Let_def)
  qed (rule decodes_num)
qed

lemma decode_ascending:
  assumes "EncodeValue v = Inr k" and "covered v = Some w"
  shows "AppendDecodedField bldr key (k @ rest) False = Inr (AppendValue bldr key w, length k)"
  using assms decodes_all[of v] by (simp add: decodes_def)

text \<open>C35. For values with exact keys (integers up to $2^{53}$, doubles other than NaN and
  negative zero, readable strings and regular expressions, binaries of one subtype, and the other
  scalars), \<^verbatim>\<open>EncodeValue\<close> succeeds, \<^verbatim>\<open>bytes.Compare\<close> of the two keys is
  \<^verbatim>\<open>bson.Compare\<close> of the two values, a descending field reverses it, and no key is a
  proper prefix of another.\<close>

theorem EncodeValue_order:
  assumes "exact_key st a" and "exact_key st b"
  shows "\<exists>ka kb. EncodeValue a = Inr ka \<and> EncodeValue b = Inr kb
    \<and> EncodeField a True = Inr (invert ka) \<and> EncodeField b True = Inr (invert kb)
    \<and> bytes_cmp ka kb = Compare a b \<and> bytes_cmp (invert ka) (invert kb) = - Compare a b
    \<and> (\<forall>r. ka @ r = kb \<longrightarrow> r = [])"
proof -
  have k: "EncodeValue v = Inr (value_key v)" if "exact_key st v" for v
    using that by (simp add: EncodeValue_def encode_exact value_key_exact)
  have "bytes_cmp (invert (value_key a)) (invert (value_key b)) = - Compare a b"
    using key_enc.invert_append[OF assms, of "[]" "[]"] by simp
  moreover have "r = []" if "value_key a @ r = value_key b" for r
    using key_enc.enc_prefix_free[OF assms, of r "[]"] that by simp
  ultimately show ?thesis using key_enc.enc_order[OF assms] k assms by (auto simp: EncodeField_def)
qed

theorem EncodeValue_order_witness:
  "\<exists>ka kb. EncodeValue (RawValue TypeInt32 [2, 0, 0, 0]) = Inr ka
    \<and> EncodeValue (RawValue TypeInt32 [0xFF, 0xFF, 0xFF, 0xFF]) = Inr kb \<and> bytes_cmp ka kb = 1"
proof -
  have ok: "exact_key 0 (RawValue TypeInt32 d)" for d by (simp add: exact_key_def)
  have "Compare (RawValue TypeInt32 [2, 0, 0, 0]) (RawValue TypeInt32 [0xFF, 0xFF, 0xFF, 0xFF]) = 1"
    by code_simp
  then show ?thesis
    using EncodeValue_order[OF ok ok, of "[2, 0, 0, 0]" "[0xFF, 0xFF, 0xFF, 0xFF]"] by auto
qed

text \<open>C36. Covered scans: decoding an encoded field, ascending or descending, from the front of
  a compound key appends the covered form of the value to the builder and consumes exactly the
  field, so \<^verbatim>\<open>FieldLen\<close> finds the next field. The covered form is the value as the key keeps it:
  a number as the double it was encoded by, undefined as null, a symbol or JavaScript code as a string,
  and every other scalar but a regular expression as itself; there is none for documents, arrays,
  decimals and regular expressions.\<close>

theorem AppendDecodedField_EncodeField:
  assumes "covered v = Some w" and "EncodeField v desc = Inr k"
  shows "AppendDecodedField bldr key (k @ rest) desc = Inr (AppendValue bldr key w, length k)
    \<and> FieldLen (k @ rest) desc = Inr (length k)"
proof -
  obtain k' where k': "EncodeValue v = Inr k'" and k: "k = masked desc k'"
    using assms(2) by (cases "EncodeValue v") (auto simp: EncodeField_masked)
  have "masked desc (masked desc rest) = rest"
    by (rule nth_equalityI) (use xor_cancel in \<open>simp_all add: xor.commute\<close>)
  then have b: "k @ rest = masked desc (k' @ masked desc rest)" by (simp only: k map_append)
  have "AppendDecodedField bl ke (k @ rest) desc = Inr (AppendValue bl ke w, length k)" for bl ke
    unfolding b decode_masked using decode_ascending[OF k' assms(1)] by (simp add: k)
  then show ?thesis by (simp add: FieldLen_def)
qed

theorem AppendDecodedField_witness:
  "FieldLen [0xAF, 0xFE, 0x42, 0x42] True = Inr 2"
proof -
  let ?v = "RawValue TypeBoolean [1]"
  have "covered ?v = Some ?v" "EncodeField ?v True = Inr [0xAF, 0xFE]"
    by (simp add: covered_def BooleanV_def) code_simp
  from AppendDecodedField_EncodeField[OF this, of "[]" "[]" "[0x42, 0x42]"] show ?thesis by simp
qed

text \<open>C37. The bounds of an open range bracket every indexable value, nested documents
  included, ascending and descending.\<close>

theorem EncodeBound_brackets:
  assumes "EncodeField v desc = Inr k"
  shows "bytes_cmp (EncodeBoundMin desc) k \<le> 0 \<and> bytes_cmp k (EncodeBoundMax desc) \<le> 0"
proof -
  obtain k' where k': "EncodeValue v = Inr k'" and k: "k = masked desc k'"
    using assms by (cases "EncodeValue v") (auto simp: EncodeField_masked)
  obtain t body where t: "k' = t # body" "tagMinKey \<le> t" "t \<in> {tagMinKey, tagMaxKey} \<longrightarrow> body = []"
    using key_shape[OF k'] by metis
  have "t \<le> tagMaxKey" by (rule byte_max)
  then have asc: "bytes_cmp [tagMinKey] (t # body) \<le> 0" "bytes_cmp (t # body) [tagMaxKey] \<le> 0"
    using t(2,3) by (auto simp: not_less)
  have "t = tagMinKey \<or> tagMinKey < t" "t = tagMaxKey \<or> t < tagMaxKey"
    using t(2) \<open>t \<le> tagMaxKey\<close> by auto
  then have "bytes_cmp [0xFF XOR tagMaxKey] (invert (t # body)) \<le> 0"
    "bytes_cmp (invert (t # body)) [0xFF XOR tagMinKey] \<le> 0"
    using t(3) invert_anti[of t tagMaxKey] invert_anti[of tagMaxKey t] invert_anti[of t tagMinKey]
      invert_anti[of tagMinKey t]
    by auto
  moreover have "masked False b = b" for b by (rule map_idI) simp
  ultimately show ?thesis using asc
    by (cases desc) (simp_all only: k t(1) EncodeBoundMin_def EncodeBoundMax_def if_True if_False)
qed

theorem EncodeBound_brackets_witness:
  "bytes_cmp (EncodeBoundMin True) [0xAF, 0xFE] \<le> 0 \<and> bytes_cmp [0xAF, 0xFE] (EncodeBoundMax True) \<le> 0"
proof (rule EncodeBound_brackets)
  show "EncodeField (RawValue TypeBoolean [1]) True = Inr [0xAF, 0xFE]" by code_simp
qed

lemma RID_cmp:
  "cmp3 (RID_Encode r) (RID_Encode s)
    = (if PageNo r \<noteq> PageNo s then cmp3 (PageNo r) (PageNo s) else cmp3 (Slot r) (Slot s))"
proof -
  have "unat (Slot x) < 2 ^ 32" for x by (rule less_trans[OF unsigned_less]) simp
  note b = this[of r] this[of s]
  show ?thesis using b
    by (auto simp: cmp3_def word_less_nat_alt RID_Encode_unat word_unat_eq_iff)
qed

lemma RID_page: "ucast (ucast w :: u64) = (w :: u32)"
  by (rule bit_word_eqI) (simp add: bit_simps)

lemma RID_slot: "ucast (RID_Encode r) = Slot r"
  unfolding RID_Encode_def by (rule bit_word_eqI) (simp add: bit_simps)

lemma putRIDSuffix_cmp: "bytes_cmp (putRIDSuffix r) (putRIDSuffix s) = cmp3 (RID_Encode r) (RID_Encode s)"
  using be_put_cmp[of 4 "PageNo r" "PageNo s"] be_put_cmp[of 2 "Slot r" "Slot s"]
  by (auto simp: putRIDSuffix_def bytes_cmp_append_eq_length RID_cmp be_put_inj)

lemma treeKey_cmp: "bytes_cmp (treeKey f r) (treeKey f s) = cmp3 (RID_Encode r) (RID_Encode s)"
  by (simp add: treeKey_def putRIDSuffix_cmp)

lemma treeKey_parts:
  "ridFromSuffix (treeKey field r) = Some r" "fieldOf (treeKey field r) = Some field"
  by (simp_all add: ridFromSuffix_def fieldOf_def treeKey_def putRIDSuffix_def sub_def)

text \<open>Record identifiers round-trip through their 64-bit form and through the tree-key
  suffix, both forms order them by page and then slot, and the field part of a tree key comes
  back unchanged.\<close>

theorem RID_roundtrip_order:
  "DecodeRID (RID_Encode r) = r
    \<and> ridFromSuffix (treeKey field r) = Some r \<and> fieldOf (treeKey field r) = Some field
    \<and> cmp3 (RID_Encode r) (RID_Encode s) = (if PageNo r \<noteq> PageNo s then cmp3 (PageNo r) (PageNo s) else cmp3 (Slot r) (Slot s))
    \<and> bytes_cmp (treeKey field r) (treeKey field s) = cmp3 (RID_Encode r) (RID_Encode s)"
proof -
  have "DecodeRID (RID_Encode r) = r"
    by (simp add: DecodeRID_def RID_halves RID_slot RID_page)
  then show ?thesis using treeKey_parts by (simp add: RID_cmp[of r s] putRIDSuffix_cmp treeKey_cmp)
qed

end
