(* ===== verification/Index_Spec.thy ===== *)
theory Index_Spec
  imports Index_Key
begin

text \<open>
  Secondary index specifications (\<^verbatim>\<open>src/catalog/spec.go\<close>): the key parts of an index,
  the resolution of a dotted path to the indexed values with multikey expansion, and the
  extraction of a document's index keys by appending one field encoding per key part. The
  theorem on compound keys rests on the \<open>ordered_encoding\<close> contract of \<open>Index_Key\<close>.
\<close>

section \<open>Specifications\<close>

record KeyPart =
  Field :: bytes
  Desc :: bool

record IndexSpec =
  spec_Name :: bytes
  spec_Key :: "KeyPart list"
  spec_Unique :: bool
  spec_Sparse :: bool
  spec_PartialFilter :: "bytes option"
  spec_ExpireAfterSeconds :: int
  spec_Multikey :: bool
  spec_Root :: u32

datatype catalog_error =
    ErrIndexExists | ErrIndexNotFound | ErrCannotDropID | ErrBadIndexSpec | ErrParallelArrays
  | CatalogIndex index_error

definition name_part :: "KeyPart \<Rightarrow> bytes" where
  "name_part p = Field p @ str ''_'' @ (if Desc p then str ''-1'' else str ''1'')"

fun default_name_rest :: "KeyPart list \<Rightarrow> bytes" where
  "default_name_rest [] = []"
| "default_name_rest (p # ps) = str ''_'' @ name_part p @ default_name_rest ps"

definition DefaultName :: "KeyPart list \<Rightarrow> bytes" where
  "DefaultName key = (case key of [] \<Rightarrow> [] | p # ps \<Rightarrow> name_part p @ default_name_rest ps)"

definition spec_validate :: "IndexSpec \<Rightarrow> catalog_error option" where
  "spec_validate s =
     (if length (spec_Key s) = 0 then Some ErrBadIndexSpec
      else if \<exists>p\<in>set (spec_Key s). Field p = [] then Some ErrBadIndexSpec
      else if spec_ExpireAfterSeconds s > 0 \<and> length (spec_Key s) \<noteq> 1 then Some ErrBadIndexSpec
      else None)"

section \<open>Dotted paths\<close>

text \<open>\<^verbatim>\<open>strings.Split(path, ".")\<close>.\<close>

fun split_dots :: "bytes \<Rightarrow> bytes list" where
  "split_dots [] = [[]]"
| "split_dots (c # s) =
     (if c = 0x2E then [] # split_dots s
      else case split_dots s of [] \<Rightarrow> [[c]] | p # ps \<Rightarrow> (c # p) # ps)"

definition spec_arrayElems :: "rawvalue \<Rightarrow> rawvalue list" where
  "spec_arrayElems v = map evalue (elements_of (DocumentV v))"

text \<open>The state the Go code threads through pointers: the values found so far and whether an
  array was crossed.\<close>

type_synonym found = "rawvalue list \<times> bool"

fun descend_each ::
  "(rawvalue \<Rightarrow> found \<Rightarrow> bool \<times> found) \<Rightarrow> rawvalue list \<Rightarrow> bool \<Rightarrow> found \<Rightarrow> bool \<times> found" where
  "descend_each f [] hit st = (hit, st)"
| "descend_each f (e # es) hit st = (let (h, st') = f e st in descend_each f es (hit \<or> h) st')"

lemma descend_each_cong [fundef_cong]:
  assumes "es = es'" "hit = hit'" "st = st'" "\<And>e s. e \<in> set es' \<Longrightarrow> f e s = g e s"
  shows "descend_each f es hit st = descend_each g es' hit' st'"
  using assms(4) unfolding assms(1-3) by (induction es' arbitrary: hit' st') (auto simp: Let_def split: prod.split)

lemma spec_arrayElems_shorter: "e \<in> set (spec_arrayElems v) \<Longrightarrow> length (vdata e) < length (vdata v)"
  using elements_of_shorter[of _ "DocumentV v"] DocumentV_length[of v]
  by (fastforce simp: spec_arrayElems_def)

function spec_descend :: "rawvalue \<Rightarrow> bytes list \<Rightarrow> found \<Rightarrow> bool \<times> found" where
  "spec_descend v parts st =
     (let (out, saw) = st in
      case parts of
        [] \<Rightarrow> (if vtype v = TypeArray then (True, out @ spec_arrayElems v, True)
              else (True, out @ [v], saw))
      | p # ps \<Rightarrow>
          (if vtype v = TypeDocument then
             (case Lookup (DocumentV v) p of
                None \<Rightarrow> (False, out, saw)
              | Some u \<Rightarrow> spec_descend u ps (out, saw))
           else if vtype v = TypeArray then
             descend_each (\<lambda>e s. spec_descend e parts s) (spec_arrayElems v) False (out, True)
           else (False, out, saw)))"
  by pat_completeness auto
termination
  by (relation "measures [\<lambda>(v, parts, st). length parts, \<lambda>(v, parts, st). length (vdata v)]")
    (auto dest: spec_arrayElems_shorter)

declare spec_descend.simps [simp del]

definition fieldValues :: "bytes \<Rightarrow> bytes \<Rightarrow> rawvalue list \<times> bool \<times> bool" where
  "fieldValues doc path =
     (let (present, vals, saw) = spec_descend (RawValue TypeDocument doc) (split_dots path) ([], False)
      in (vals, present, saw))"

definition nullValue :: rawvalue where
  "nullValue = RawValue TypeNull []"

section \<open>Key extraction\<close>

text \<open>The first loop of \<^verbatim>\<open>Keys\<close>: the values of every key part, whether any is
  present, and the position of the array part (\<^verbatim>\<open>-1\<close> is \<open>None\<close>).\<close>

fun collect_fields ::
  "bytes \<Rightarrow> KeyPart list \<Rightarrow> nat \<Rightarrow> rawvalue list list \<Rightarrow> bool \<Rightarrow> nat option
    \<Rightarrow> catalog_error + (rawvalue list list \<times> bool \<times> nat option)" where
  "collect_fields doc [] i per anyp arr = Inr (per, anyp, arr)"
| "collect_fields doc (p # ps) i per anyp arr =
     (let (vals, present, saw) = fieldValues doc (Field p); anyp' = (anyp \<or> present) in
      if saw \<and> arr \<noteq> None then Inl ErrParallelArrays
      else let arr' = (if saw then Some i else arr);
               vals' = (if vals = [] then [nullValue] else vals) in
        collect_fields doc ps (i + 1) (per @ [vals']) anyp' arr')"

text \<open>The inner loop over the key parts, for fan-out position \<open>j\<close>. The lists \<open>collect_fields\<close>
  returns are never empty, so the first element exists.\<close>

fun append_parts :: "bytes \<Rightarrow> (rawvalue \<times> bool) list \<Rightarrow> index_error + bytes" where
  "append_parts k [] = Inr k"
| "append_parts k ((v, d) # ps) =
     (case AppendField k v d of Inl e \<Rightarrow> Inl e | Inr k' \<Rightarrow> append_parts k' ps)"

definition row_values :: "rawvalue list list \<Rightarrow> nat option \<Rightarrow> nat \<Rightarrow> rawvalue list" where
  "row_values per arr j = map (\<lambda>i. if arr = Some i then per ! i ! j else per ! i ! 0) [0..<length per]"

fun build_keys ::
  "KeyPart list \<Rightarrow> rawvalue list list \<Rightarrow> nat option \<Rightarrow> nat list \<Rightarrow> index_error + bytes list" where
  "build_keys key per arr [] = Inr []"
| "build_keys key per arr (j # js) =
     (case append_parts [] (zip (row_values per arr j) (map Desc key)) of
        Inl e \<Rightarrow> Inl e
      | Inr k \<Rightarrow> (case build_keys key per arr js of Inl e \<Rightarrow> Inl e | Inr ks \<Rightarrow> Inr (k # ks)))"

text \<open>\<^verbatim>\<open>Keys\<close>: the keys, whether the document is indexed, and whether an array was
  expanded.\<close>

definition spec_Keys :: "IndexSpec \<Rightarrow> bytes \<Rightarrow> catalog_error + (bytes list \<times> bool \<times> bool)" where
  "spec_Keys s doc =
     (case collect_fields doc (spec_Key s) 0 [] False None of
        Inl e \<Rightarrow> Inl e
      | Inr (per, anyp, arr) \<Rightarrow>
          (let multikey = (arr \<noteq> None) in
           if spec_Sparse s \<and> \<not> anyp then Inr ([], False, multikey)
           else let fan = (case arr of None \<Rightarrow> 1 | Some i \<Rightarrow> length (per ! i)) in
             (case build_keys (spec_Key s) per arr [0..<fan] of
                Inl e \<Rightarrow> Inl (CatalogIndex e)
              | Inr ks \<Rightarrow> Inr (ks, True, multikey))))"

section \<open>Compound keys\<close>

text \<open>The order a compound index promises: field by field, each in its direction.\<close>

fun dir_cmp :: "('a \<Rightarrow> 'a \<Rightarrow> int) \<Rightarrow> bool list \<Rightarrow> 'a list \<Rightarrow> 'a list \<Rightarrow> int" where
  "dir_cmp c (d # ds) (v # vs) (w # ws) =
     (if c v w \<noteq> 0 then (if d then - c v w else c v w) else dir_cmp c ds vs ws)"
| "dir_cmp c _ _ _ = 0"

abbreviation dir_enc :: "('a \<Rightarrow> bytes) \<Rightarrow> 'a \<times> bool \<Rightarrow> bytes" where
  "dir_enc f p \<equiv> (if snd p then invert (f (fst p)) else f (fst p))"

context ordered_encoding
begin

lemma compound_order:
  assumes "length vs = length ds" "length ws = length ds" "list_all ok vs" "list_all ok ws"
  shows "bytes_cmp (concat (map (dir_enc enc) (zip vs ds)) @ x) (concat (map (dir_enc enc) (zip ws ds)) @ y)
    = (if dir_cmp cmp ds vs ws \<noteq> 0 then dir_cmp cmp ds vs ws else bytes_cmp x y)"
  using assms
proof (induction ds arbitrary: vs ws)
  case (Cons d ds)
  then obtain v vs' w ws' where v: "vs = v # vs'" "ws = w # ws'" by (auto simp: length_Suc_conv)
  then have ok: "ok v" "ok w" using Cons.prems by auto
  show ?case using Cons.IH[of vs' ws'] Cons.prems
    by (auto simp: v enc_append[OF ok] invert_append[OF ok])
qed simp

end

lemma append_parts_concat:
  "list_all (exact_key st) vs \<Longrightarrow> length vs = length ds \<Longrightarrow>
    append_parts k (zip vs ds) = Inr (k @ concat (map (dir_enc value_key) (zip vs ds)))"
proof (induction vs arbitrary: ds k)
  case (Cons v vs)
  then obtain d ds' where ds: "ds = d # ds'" by (cases ds) auto
  have "EncodeValue v = Inr (value_key v)"
    using Cons.prems encode_exact[of st v "[]"] value_key_exact[of st v] by (simp add: EncodeValue_def)
  then show ?case using Cons by (simp add: ds AppendField_EncodeField EncodeField_def)
qed simp

text \<open>C38. When all their field values have exact keys (integers up to $2^{53}$, doubles other than NaN and
  negative zero, readable strings and regular expressions, binaries of one subtype, and the other
  scalars; no decimal128, document or array), tree keys of a compound index sort by the fields in order,
  each by \<^verbatim>\<open>bson.Compare\<close> in its direction, and then by record identifier: two entries compare
  equal only when they are the same record under equal fields.\<close>

theorem compound_tree_key_order:
  assumes "list_all (exact_key st) vs" and "list_all (exact_key st) ws"
    and "length vs = length ds" and "length ws = length ds"
  shows "\<exists>ka kb. append_parts [] (zip vs ds) = Inr ka \<and> append_parts [] (zip ws ds) = Inr kb
    \<and> bytes_cmp (treeKey ka r) (treeKey kb s)
      = (if dir_cmp Compare ds vs ws \<noteq> 0 then dir_cmp Compare ds vs ws
         else cmp3 (RID_Encode r) (RID_Encode s))"
  using append_parts_concat[OF assms(1,3), of "[]"] append_parts_concat[OF assms(2,4), of "[]"]
    key_enc.compound_order[OF assms(3,4,1,2)]
  by (simp add: treeKey_def putRIDSuffix_cmp)

theorem compound_tree_key_order_witness:
  "\<exists>ka kb. append_parts [] [(RawValue TypeBoolean [1], False), (RawValue TypeInt32 [1, 0, 0, 0], True)] = Inr ka
    \<and> append_parts [] [(RawValue TypeBoolean [1], False), (RawValue TypeInt32 [2, 0, 0, 0], True)] = Inr kb
    \<and> bytes_cmp (treeKey ka (RID 1 1)) (treeKey kb (RID 1 1)) = 1"
proof -
  let ?t = "RawValue TypeBoolean [1]" and ?i = "\<lambda>n. RawValue TypeInt32 [n, 0, 0, 0]"
  have ok: "list_all (exact_key 0) [?t, ?i n]" for n by (simp add: exact_key_def)
  have "dir_cmp Compare [False, True] [?t, ?i 1] [?t, ?i 2] = 1" by code_simp
  then show ?thesis
    using compound_tree_key_order[OF ok[of 1] ok[of 2], of "[False, True]" "RID 1 1" "RID 1 1"]
    by (simp del: dir_cmp.simps append_parts.simps)
qed

section \<open>Every indexed value is in a key\<close>

lemma descend_each_saw:
  assumes "\<And>e out. e \<in> set es \<Longrightarrow> snd (snd (f e (out, True)))"
  shows "snd (snd (descend_each f es hit (out, True)))"
  using assms
proof (induction es arbitrary: hit out)
  case (Cons e es)
  obtain h out' s where f: "f e (out, True) = (h, out', s)" by (metis prod_cases3)
  then have "s = True" using Cons.prems[of e out] by simp
  then show ?case using Cons by (simp add: f)
qed simp

lemma spec_descend_saw: "snd (snd (spec_descend v parts (out, True)))"
proof (induction v parts "(out, True)" arbitrary: out rule: spec_descend.induct)
  case (1 v parts out)
  then show ?case
    by (subst spec_descend.simps) (auto split: list.split option.split intro!: descend_each_saw)
qed

lemma spec_descend_single:
  assumes "spec_descend v parts (out, False) = (h, out', False)"
  shows "out' = out \<or> (\<exists>u. out' = out @ [u])"
  using assms
proof (induction v parts "(out, False)" arbitrary: out rule: spec_descend.induct)
  case (1 v parts out)
  show ?case
  proof (cases "vtype v = TypeArray")
    case True
    then show ?thesis using 1(3) descend_each_saw[of "spec_arrayElems v" "\<lambda>e s. spec_descend e parts s" False out,
        OF spec_descend_saw]
      by (auto simp: spec_descend.simps[of v] split: list.splits)
  next
    case False
    then show ?thesis using 1
      by (auto simp: spec_descend.simps[of v] split: list.splits option.splits if_splits)
  qed
qed

definition part_values :: "bytes \<Rightarrow> KeyPart \<Rightarrow> rawvalue list" where
  "part_values doc p = (let vals = fst (fieldValues doc (Field p)) in if vals = [] then [nullValue] else vals)"

lemma part_values_single:
  assumes "\<not> snd (snd (fieldValues doc (Field p)))" shows "\<exists>u. part_values doc p = [u]"
proof -
  obtain h out saw where s: "spec_descend (RawValue TypeDocument doc) (split_dots (Field p)) ([], False) = (h, out, saw)"
    by (metis prod_cases3)
  then have "out = [] \<or> (\<exists>u. out = [u])"
    using assms spec_descend_single[of _ _ "[]" h out] by (auto simp: fieldValues_def)
  then show ?thesis by (auto simp: part_values_def fieldValues_def s)
qed

lemma collect_fields_result:
  assumes "collect_fields doc ps i per anyp arr = Inr (per', anyp', arr')"
  shows "per' = per @ map (part_values doc) ps"
    and "\<forall>n<length ps. snd (snd (fieldValues doc (Field (ps ! n)))) \<longrightarrow> arr' = Some (i + n)"
    and "arr' = arr \<or> (\<exists>n<length ps. arr' = Some (i + n))"
    and "arr \<noteq> None \<longrightarrow> arr' = arr"
proof -
  have "per' = per @ map (part_values doc) ps
    \<and> (\<forall>n<length ps. snd (snd (fieldValues doc (Field (ps ! n)))) \<longrightarrow> arr' = Some (i + n))
    \<and> (arr' = arr \<or> (\<exists>n<length ps. arr' = Some (i + n))) \<and> (arr \<noteq> None \<longrightarrow> arr' = arr)"
    using assms
  proof (induction ps arbitrary: i per anyp arr)
    case (Cons p ps)
    obtain vals pres saw where f: "fieldValues doc (Field p) = (vals, pres, saw)" by (metis prod_cases3)
    let ?arr = "if saw then Some i else arr"
    have nc: "\<not> (saw \<and> arr \<noteq> None)" and
      rec: "collect_fields doc ps (i + 1) (per @ [part_values doc p]) (anyp \<or> pres) ?arr = Inr (per', anyp', arr')"
      using Cons.prems by (auto simp: f part_values_def Let_def split: if_splits)
    from Cons.IH[OF rec] nc show ?case
      by (auto simp: f nth_Cons' less_Suc_eq_0_disj split: if_splits)
  qed simp
  then show "per' = per @ map (part_values doc) ps"
    "\<forall>n<length ps. snd (snd (fieldValues doc (Field (ps ! n)))) \<longrightarrow> arr' = Some (i + n)"
    "arr' = arr \<or> (\<exists>n<length ps. arr' = Some (i + n))" "arr \<noteq> None \<longrightarrow> arr' = arr" by blast+
qed

lemma collect_fields_array:
  assumes "collect_fields doc ps i per anyp arr = Inr (per', anyp', arr')"
  shows "arr' = arr \<or> (\<exists>n<length ps. arr' = Some (i + n) \<and> snd (snd (fieldValues doc (Field (ps ! n)))))"
  using assms
proof (induction ps arbitrary: i per anyp arr)
  case (Cons p ps)
  obtain vals pres saw where f: "fieldValues doc (Field p) = (vals, pres, saw)" by (metis prod_cases3)
  let ?arr = "if saw then Some i else arr"
  have "collect_fields doc ps (i + 1) (per @ [part_values doc p]) (anyp \<or> pres) ?arr = Inr (per', anyp', arr')"
    using Cons.prems by (auto simp: f part_values_def Let_def split: if_splits)
  from Cons.IH[OF this] consider "arr' = ?arr" | n where "n < length ps" "arr' = Some (i + 1 + n)" "snd (snd (fieldValues doc (Field (ps ! n))))" by blast
  then show ?case
  proof cases
    case 1
    then show ?thesis using f by (cases saw) auto
  next
    case (2 n)
    then show ?thesis by (intro disjI2 exI[of _ "Suc n"]) simp
  qed
qed simp

lemma build_keys_result:
  "build_keys key per arr js = Inr ks \<Longrightarrow>
    list_all2 (\<lambda>j k. append_parts [] (zip (row_values per arr j) (map Desc key)) = Inr k) js ks"
  by (induction js arbitrary: ks) (auto split: sum.splits)

lemma part_values_ne: "part_values doc p \<noteq> []"
  by (simp add: part_values_def Let_def)

lemma length_row [simp]: "length (row_values per arr j) = length per"
  by (simp add: row_values_def)

lemma nth_row: "i < length per \<Longrightarrow> row_values per arr j ! i = (if arr = Some i then per ! i ! j else per ! i ! 0)"
  by (simp add: row_values_def)

text \<open>The values of the parts in row \<open>j\<close>: the \<open>j\<close>-th value of the multikey part \<open>arr\<close>, the one value of any other.\<close>

definition fan_row :: "bytes \<Rightarrow> KeyPart list \<Rightarrow> nat option \<Rightarrow> nat \<Rightarrow> rawvalue list" where
  "fan_row doc key arr j = map (\<lambda>i. part_values doc (key ! i) ! (if arr = Some i then j else 0)) [0..<length key]"

definition fan_out :: "bytes \<Rightarrow> KeyPart list \<Rightarrow> nat option \<Rightarrow> nat" where
  "fan_out doc key arr = (case arr of None \<Rightarrow> 1 | Some i \<Rightarrow> length (part_values doc (key ! i)))"

text \<open>The part \<open>arr\<close> is the one whose path crosses an array, and every other part has one value.\<close>

definition multikey_part :: "bytes \<Rightarrow> KeyPart list \<Rightarrow> nat option \<Rightarrow> bool" where
  "multikey_part doc key arr \<longleftrightarrow> (case arr of None \<Rightarrow> True | Some i \<Rightarrow> i < length key)
     \<and> (\<forall>i < length key. (arr = Some i \<longleftrightarrow> snd (snd (fieldValues doc (Field (key ! i))))) \<and> (arr \<noteq> Some i \<longrightarrow> length (part_values doc (key ! i)) = 1))"

lemma row_values_fan: "row_values (map (part_values doc) key) arr j = fan_row doc key arr j"
  by (auto simp: row_values_def fan_row_def)

lemma collect_multikey:
  assumes "collect_fields doc key 0 [] False None = Inr (per, anyp, arr)"
  shows "per = map (part_values doc) key" "multikey_part doc key arr"
proof -
  note R = collect_fields_result[OF assms]
  show "per = map (part_values doc) key" using R(1) by simp
  have "arr = Some i \<longleftrightarrow> snd (snd (fieldValues doc (Field (key ! i))))" if "i < length key" for i
    using R(2) collect_fields_array[OF assms] that by auto
  moreover from this have "length (part_values doc (key ! i)) = 1" if "i < length key" "arr \<noteq> Some i" for i
    using that part_values_single[of doc "key ! i"] by fastforce
  moreover have "case arr of None \<Rightarrow> True | Some i \<Rightarrow> i < length key" using R(3) by auto
  ultimately show "multikey_part doc key arr" by (simp add: multikey_part_def)
qed

lemma fan_row_covers:
  assumes m: "multikey_part doc key arr" and i: "i < length key" and v: "v \<in> set (part_values doc (key ! i))"
  shows "\<exists>j < fan_out doc key arr. fan_row doc key arr j ! i = v"
proof (cases "arr = Some i")
  case True
  then show ?thesis using i v by (auto simp: fan_out_def fan_row_def in_set_conv_nth)
next
  case False
  then obtain u where u: "part_values doc (key ! i) = [u]" using m i by (auto simp: multikey_part_def length_Suc_conv)
  have "0 < fan_out doc key arr" using m part_values_ne[of doc] by (auto simp: fan_out_def multikey_part_def split: option.splits)
  then show ?thesis using False i v u by (auto simp: fan_row_def)
qed

text \<open>C39. The keys of an indexed document. At most one part of the index crosses an array. Without one there
  is a single key; with one there is exactly one key for each value the array part has, in their order,
  no more and no fewer. Each key is the concatenated field encodings of its row: the row's value of the
  array part and the one value of every other part, null where the document has none. So every value
  the document has at an indexed path occurs at its place in a key. The flag reported tells whether an
  array was crossed.\<close>

theorem Keys_complete:
  assumes "spec_Keys s doc = Inr (ks, True, m)"
  shows "\<exists>arr. multikey_part doc (spec_Key s) arr \<and> (m \<longleftrightarrow> arr \<noteq> None) \<and> length ks = fan_out doc (spec_Key s) arr
    \<and> (\<forall>j < length ks. append_parts [] (zip (fan_row doc (spec_Key s) arr j) (map Desc (spec_Key s))) = Inr (ks ! j))
    \<and> (\<forall>i < length (spec_Key s). \<forall>v \<in> set (part_values doc (spec_Key s ! i)). \<exists>j < length ks. fan_row doc (spec_Key s) arr j ! i = v)"
proof -
  let ?key = "spec_Key s"
  obtain per anyp arr where c: "collect_fields doc ?key 0 [] False None = Inr (per, anyp, arr)"
    using assms by (auto simp: spec_Keys_def split: sum.splits)
  note M = collect_multikey[OF c]
  have fan: "(case arr of None \<Rightarrow> 1 | Some i \<Rightarrow> length (per ! i)) = fan_out doc ?key arr"
    using M by (auto simp: fan_out_def multikey_part_def split: option.splits)
  have k: "build_keys ?key per arr [0..<fan_out doc ?key arr] = Inr ks \<and> (m \<longleftrightarrow> arr \<noteq> None)"
    using assms c by (simp add: spec_Keys_def fan Let_def del: build_keys.simps split: if_splits sum.splits)
  have b: "list_all2 (\<lambda>j k. append_parts [] (zip (fan_row doc ?key arr j) (map Desc ?key)) = Inr k) [0..<fan_out doc ?key arr] ks" "m \<longleftrightarrow> arr \<noteq> None"
    using build_keys_result[of ?key per arr "[0..<fan_out doc ?key arr]" ks] k by (simp_all add: M(1) row_values_fan)
  have len: "length ks = fan_out doc ?key arr" using list_all2_lengthD[OF b(1)] by simp
  have "append_parts [] (zip (fan_row doc ?key arr j) (map Desc ?key)) = Inr (ks ! j)" if "j < length ks" for j
    using list_all2_nthD[OF b(1), of j] that len by simp
  then show ?thesis using M(2) b(2) len fan_row_covers[OF M(2)] by (intro exI[of _ arr]) auto
qed

definition tags_spec :: IndexSpec where
  "tags_spec = \<lparr>spec_Name = str ''a_1'', spec_Key = [\<lparr>Field = str ''a'', Desc = False\<rparr>], spec_Unique = False,
     spec_Sparse = False, spec_PartialFilter = None, spec_ExpireAfterSeconds = 0, spec_Multikey = False,
     spec_Root = 0\<rparr>"

definition tags_doc :: bytes where
  "tags_doc = [0x15, 0, 0, 0, 0x04, 0x61, 0, 0x0D, 0, 0, 0, 0x08, 0x30, 0, 1, 0x08, 0x31, 0, 0, 0, 0]"

theorem Keys_complete_witness:
  "spec_Keys tags_spec tags_doc = Inr ([[0x50, 1], [0x50, 0]], True, True)
    \<and> (\<exists>arr. multikey_part tags_doc (spec_Key tags_spec) arr \<and> arr \<noteq> None \<and> fan_out tags_doc (spec_Key tags_spec) arr = 2
        \<and> append_parts [] (zip (fan_row tags_doc (spec_Key tags_spec) arr 1) (map Desc (spec_Key tags_spec))) = Inr [0x50, 0])"
proof -
  have k: "spec_Keys tags_spec tags_doc = Inr ([[0x50, 1], [0x50, 0]], True, True)" by code_simp
  show ?thesis using Keys_complete[OF k] k by (auto simp: less_Suc_eq numeral_2_eq_2)
qed

end
