(* ===== verification/Format_Page.thy ===== *)
theory Format_Page
  imports Prelude
begin

text \<open>
  The page layer of the file format (\<^verbatim>\<open>src/format/page.go\<close>,
  \<^verbatim>\<open>checksum.go\<close>, \<^verbatim>\<open>errors.go\<close>): page types, the common 32-byte page header and its
  codec, the two checksum algorithms and the trailing page checksum. A page is the list of its
  bytes. An access the Go runtime bounds-checks and that would panic is the value \<open>None\<close>.
\<close>

section \<open>Errors\<close>

datatype format_error =
    ErrTooSmall | ErrNotDocDB | ErrUnsupportedChecksum | ErrHeaderCorrupt | ErrUnsupportedMajor
  | ErrInvalidPageSize | ErrUnsupportedFeature | ErrPageChecksum | ErrUnknownPageType
  | ErrPageTooSmall | ErrNoSpace | ErrBadSlot | ErrSlotDead | ErrChainCorrupt

section \<open>Checksums (checksum.go)\<close>

abbreviation ChecksumNone :: byte where "ChecksumNone \<equiv> 0x00"
abbreviation ChecksumCRC32C :: byte where "ChecksumCRC32C \<equiv> 0x01"
abbreviation ChecksumXXHash32 :: byte where "ChecksumXXHash32 \<equiv> 0x02"

definition Supported :: "byte \<Rightarrow> bool" where
  "Supported a = (a \<in> {ChecksumNone, ChecksumCRC32C, ChecksumXXHash32})"

text \<open>CRC-32 with the Castagnoli polynomial, reflected, as \<^verbatim>\<open>hash/crc32\<close> defines it:
  the table entry of a byte is eight shift steps.\<close>

definition crc_bit :: "u32 \<Rightarrow> u32" where
  "crc_bit c = (if bit c 0 then drop_bit 1 c XOR 0x82F63B78 else drop_bit 1 c)"

definition crc_byte :: "u32 \<Rightarrow> byte \<Rightarrow> u32" where
  "crc_byte c b = (crc_bit ^^ 8) (c XOR ucast b)"

definition crc32c :: "bytes \<Rightarrow> u32" where
  "crc32c data = NOT (fold (\<lambda>b c. crc_byte c b) data (NOT 0))"

abbreviation xxPrime1 :: u32 where "xxPrime1 \<equiv> 2654435761"
abbreviation xxPrime2 :: u32 where "xxPrime2 \<equiv> 2246822519"
abbreviation xxPrime3 :: u32 where "xxPrime3 \<equiv> 3266489917"
abbreviation xxPrime4 :: u32 where "xxPrime4 \<equiv> 668265263"
abbreviation xxPrime5 :: u32 where "xxPrime5 \<equiv> 374761393"

definition rotl32 :: "u32 \<Rightarrow> nat \<Rightarrow> u32" where
  "rotl32 x r = push_bit r x OR drop_bit (32 - r) x"

definition xxRound :: "u32 \<Rightarrow> u32 \<Rightarrow> u32" where
  "xxRound acc inp = rotl32 (acc + inp * xxPrime2) 13 * xxPrime1"

definition le32 :: "bytes \<Rightarrow> nat \<Rightarrow> u32" where
  "le32 b i = ucast (b ! i) OR push_bit 8 (ucast (b ! (i + 1))) OR push_bit 16 (ucast (b ! (i + 2)))
     OR push_bit 24 (ucast (b ! (i + 3)))"

text \<open>The three loops of \<^verbatim>\<open>xxhash32\<close>: 16-byte stripes over four lanes, 4-byte words,
  single bytes.\<close>

function xx_stripes :: "bytes \<Rightarrow> nat \<Rightarrow> u32 \<times> u32 \<times> u32 \<times> u32 \<Rightarrow> nat \<times> u32 \<times> u32 \<times> u32 \<times> u32" where
  "xx_stripes data i vs =
     (let (v1, v2, v3, v4) = vs in
      if i + 16 \<le> length data then
        xx_stripes data (i + 16) (xxRound v1 (le32 data i), xxRound v2 (le32 data (i + 4)),
          xxRound v3 (le32 data (i + 8)), xxRound v4 (le32 data (i + 12)))
      else (i, v1, v2, v3, v4))"
  by pat_completeness auto
termination
  by (relation "measure (\<lambda>(d, i, vs). length d - i)") auto

function xx_words :: "bytes \<Rightarrow> nat \<Rightarrow> u32 \<Rightarrow> nat \<times> u32" where
  "xx_words data i h =
     (if i + 4 \<le> length data then
        xx_words data (i + 4) (rotl32 (h + le32 data i * xxPrime3) 17 * xxPrime4)
      else (i, h))"
  by pat_completeness auto
termination
  by (relation "measure (\<lambda>(d, i, h). length d - i)") auto

function xx_bytes :: "bytes \<Rightarrow> nat \<Rightarrow> u32 \<Rightarrow> u32" where
  "xx_bytes data i h =
     (if i < length data then
        xx_bytes data (i + 1) (rotl32 (h + ucast (data ! i) * xxPrime5) 11 * xxPrime1)
      else h)"
  by pat_completeness auto
termination
  by (relation "measure (\<lambda>(d, i, h). length d - i)") auto

declare xx_stripes.simps [simp del] xx_words.simps [simp del] xx_bytes.simps [simp del]

definition xx_avalanche :: "u32 \<Rightarrow> u32" where
  "xx_avalanche h0 =
     (let h1 = (h0 XOR drop_bit 15 h0) * xxPrime2;
          h2 = (h1 XOR drop_bit 13 h1) * xxPrime3
      in h2 XOR drop_bit 16 h2)"

definition xxhash32 :: "bytes \<Rightarrow> u32 \<Rightarrow> u32" where
  "xxhash32 data seed =
     (let n = length data;
          (i, h) = (if n \<ge> 16 then
              (case xx_stripes data 0 (seed + xxPrime1 + xxPrime2, seed + xxPrime2, seed, seed - xxPrime1) of
                 (i, v1, v2, v3, v4) \<Rightarrow> (i, rotl32 v1 1 + rotl32 v2 7 + rotl32 v3 12 + rotl32 v4 18))
            else (0, seed + xxPrime5));
          (j, h') = xx_words data i (h + of_nat n)
      in xx_avalanche (xx_bytes data j h'))"

text \<open>\<^verbatim>\<open>Checksum\<close> panics on an unsupported algorithm.\<close>

definition Checksum :: "byte \<Rightarrow> bytes \<Rightarrow> u32 option" where
  "Checksum a data =
     (if a = ChecksumNone then Some 0
      else if a = ChecksumCRC32C then Some (crc32c data)
      else if a = ChecksumXXHash32 then Some (xxhash32 data 0)
      else None)"

definition Verify :: "byte \<Rightarrow> bytes \<Rightarrow> u32 \<Rightarrow> bool option" where
  "Verify a data want =
     (if a = ChecksumNone then Some True else map_option (\<lambda>c. c = want) (Checksum a data))"

section \<open>The common page header (page.go)\<close>

abbreviation PageFree :: byte where "PageFree \<equiv> 0x00"
abbreviation PageHeap :: byte where "PageHeap \<equiv> 0x01"
abbreviation PageBTreeInterior :: byte where "PageBTreeInterior \<equiv> 0x02"
abbreviation PageBTreeLeaf :: byte where "PageBTreeLeaf \<equiv> 0x03"
abbreviation PageOverflowHead :: byte where "PageOverflowHead \<equiv> 0x04"
abbreviation PageOverflowCont :: byte where "PageOverflowCont \<equiv> 0x05"
abbreviation PageCatalog :: byte where "PageCatalog \<equiv> 0x06"
abbreviation PageFreelistTrunk :: byte where "PageFreelistTrunk \<equiv> 0x07"
abbreviation PageFreelistLeaf :: byte where "PageFreelistLeaf \<equiv> 0x08"
abbreviation PageColumnarDir :: byte where "PageColumnarDir \<equiv> 0x09"
abbreviation PageColumnarSeg :: byte where "PageColumnarSeg \<equiv> 0x0A"
abbreviation PageHeapFSMap :: byte where "PageHeapFSMap \<equiv> 0x0B"

definition Known :: "byte \<Rightarrow> bool" where
  "Known t = (t \<le> PageHeapFSMap)"

abbreviation NullPage :: u32 where "NullPage \<equiv> 0xFFFFFFFF"
abbreviation PageHeaderSize :: nat where "PageHeaderSize \<equiv> 32"
abbreviation ChecksumSize :: nat where "ChecksumSize \<equiv> 4"

record PageHeader =
  Type :: byte
  Flags :: byte
  Codec :: byte
  EntryCount :: u32
  PageLSN :: u64
  CollIDEntry :: u32
  FreeStart :: u16
  FreeEnd :: u16
  RightSib :: u32

definition header_bytes :: "PageHeader \<Rightarrow> bytes" where
  "header_bytes h = [Type h, Flags h, Codec h, 0] @ le_put 4 (EntryCount h) @ le_put 8 (PageLSN h)
     @ le_put 4 (CollIDEntry h) @ le_put 2 (FreeStart h) @ le_put 2 (FreeEnd h) @ le_put 4 (RightSib h)
     @ le_put 4 (0 :: u32)"

definition EncodeInto :: "PageHeader \<Rightarrow> bytes \<Rightarrow> bytes option" where
  "EncodeInto h p = (if length p < PageHeaderSize then None else Some (write_at p 0 (header_bytes h)))"

definition DecodePageHeader :: "bytes \<Rightarrow> PageHeader option" where
  "DecodePageHeader p =
     (if length p < PageHeaderSize then None
      else Some \<lparr>Type = p ! 0, Flags = p ! 1, Codec = p ! 2, EntryCount = get32 p 4, PageLSN = get64 p 8,
        CollIDEntry = get32 p 16, FreeStart = get16 p 20, FreeEnd = get16 p 22, RightSib = get32 p 24\<rparr>)"

text \<open>\<^verbatim>\<open>BodySize\<close> is an \<^verbatim>\<open>int\<close> and negative for a tiny page size.\<close>

definition BodySize :: "u32 \<Rightarrow> int" where
  "BodySize ps = int (unat ps) - int PageHeaderSize - int ChecksumSize"

definition ComputePageChecksum :: "bytes \<Rightarrow> byte \<Rightarrow> u32 option" where
  "ComputePageChecksum p algo =
     (if length p < ChecksumSize then None else Checksum algo (take (length p - ChecksumSize) p))"

definition WritePageChecksum :: "bytes \<Rightarrow> byte \<Rightarrow> bytes option" where
  "WritePageChecksum p algo =
     map_option (\<lambda>s. write_at p (length p - ChecksumSize) (le_put 4 s)) (ComputePageChecksum p algo)"

text \<open>The result of \<^verbatim>\<open>VerifyPageChecksum\<close>: \<open>Some None\<close> is a nil error.\<close>

definition VerifyPageChecksum :: "bytes \<Rightarrow> byte \<Rightarrow> format_error option option" where
  "VerifyPageChecksum p algo =
     (if length p < ChecksumSize then None
      else map_option (\<lambda>ok. if ok then None else Some ErrPageChecksum)
        (Verify algo (take (length p - ChecksumSize) p) (get32 p (length p - ChecksumSize))))"

definition InitPage :: "bytes \<Rightarrow> byte \<Rightarrow> u32 \<Rightarrow> bytes option" where
  "InitPage p t collID =
     EncodeInto \<lparr>Type = t, Flags = 0, Codec = 0, EntryCount = 0, PageLSN = 0, CollIDEntry = collID,
       FreeStart = 0, FreeEnd = word_of_int (int (length p) - int PageHeaderSize - int ChecksumSize),
       RightSib = NullPage\<rparr> (replicate (length p) 0)"

section \<open>The header codec\<close>

lemma length_header_bytes [simp]: "length (header_bytes h) = 32"
  by (simp add: header_bytes_def)

lemma header_bytes_parts:
  "header_bytes h ! 0 = Type h" "header_bytes h ! Suc 0 = Flags h" "header_bytes h ! 2 = Codec h"
  "sub (header_bytes h) 4 4 = le_put 4 (EntryCount h)" "sub (header_bytes h) 8 8 = le_put 8 (PageLSN h)"
  "sub (header_bytes h) 16 4 = le_put 4 (CollIDEntry h)" "sub (header_bytes h) 20 2 = le_put 2 (FreeStart h)"
  "sub (header_bytes h) 22 2 = le_put 2 (FreeEnd h)" "sub (header_bytes h) 24 4 = le_put 4 (RightSib h)"
  by (simp_all add: header_bytes_def sub_def)

lemma write_header_sub:
  "32 \<le> length p \<Longrightarrow> i + n \<le> 32 \<Longrightarrow> sub (write_at p 0 (header_bytes h)) i n = sub (header_bytes h) i n"
  by (simp add: write_at_def sub_def)

lemma write_header_nth: "32 \<le> length p \<Longrightarrow> i < 32 \<Longrightarrow> write_at p 0 (header_bytes h) ! i = header_bytes h ! i"
  by (simp add: nth_write_at)

lemma Decode_EncodeInto: "EncodeInto h p = Some q \<Longrightarrow> DecodePageHeader q = Some h"
  by (auto simp: EncodeInto_def DecodePageHeader_def write_header_sub write_header_nth header_bytes_parts
      split: if_splits)

lemma EncodeInto_Some: "32 \<le> length p \<Longrightarrow> EncodeInto h p = Some (write_at p 0 (header_bytes h))"
  by (simp add: EncodeInto_def)

text \<open>Encoding a page header and decoding it gives the header back, and the bytes behind the
  header keep their values.\<close>

theorem PageHeader_roundtrip:
  assumes "PageHeaderSize \<le> length p"
  shows "\<exists>q. EncodeInto h p = Some q \<and> DecodePageHeader q = Some h \<and> length q = length p
    \<and> drop PageHeaderSize q = drop PageHeaderSize p"
  using assms Decode_EncodeInto[OF EncodeInto_Some[OF assms]]
  by (simp add: EncodeInto_Some write_at_def)

theorem PageHeader_roundtrip_witness:
  "\<exists>q. EncodeInto \<lparr>Type = 1, Flags = 2, Codec = 3, EntryCount = 4, PageLSN = 5, CollIDEntry = 6,
      FreeStart = 7, FreeEnd = 8, RightSib = 9\<rparr> (replicate 40 0) = Some q \<and> length q = 40"
  using PageHeader_roundtrip[of "replicate 40 0"] by fastforce

section \<open>Error detection\<close>

text \<open>One shift step of the CRC can be undone: the polynomial's top bit is set, so the top bit of
  the result tells which branch was taken.\<close>

lemma crc_bit_inj: "crc_bit x = crc_bit y \<Longrightarrow> x = y"
proof -
  assume eq: "crc_bit x = crc_bit y"
  have top: "bit (crc_bit z) 31 \<longleftrightarrow> bit z 0" for z
    using bit_imp_le_length[of z 32] by (auto simp: crc_bit_def bit_simps)
  have low: "bit x 0 = bit y 0" using eq top[of x] top[of y] by simp
  then have sh: "drop_bit 1 x = drop_bit 1 y"
    using eq by (auto simp: crc_bit_def xor_cancel_right split: if_splits)
  show "x = y"
  proof (rule bit_word_eqI)
    fix n assume "n < LENGTH(32)"
    show "bit x n = bit y n"
    proof (cases n)
      case (Suc m)
      then show ?thesis using arg_cong[OF sh, of "\<lambda>w. bit w m"] by (simp add: bit_simps)
    qed (use low in simp)
  qed
qed

lemma crc_steps_inj: "(crc_bit ^^ n) x = (crc_bit ^^ n) y \<Longrightarrow> x = y"
  by (induction n) (auto dest: crc_bit_inj)

lemma crc_byte_inj: "crc_byte c b = crc_byte c' b \<Longrightarrow> c = c'" "crc_byte c b = crc_byte c b' \<Longrightarrow> b = b'"
proof -
  show "crc_byte c b = crc_byte c' b \<Longrightarrow> c = c'"
    unfolding crc_byte_def by (drule crc_steps_inj) (simp add: xor_cancel_right)
  assume "crc_byte c b = crc_byte c b'"
  then have "c XOR ucast b = c XOR (ucast b' :: u32)" unfolding crc_byte_def by (rule crc_steps_inj)
  then have "(ucast b :: u32) = ucast b'" using xor_cancel_right by (metis xor.commute)
  then have "ucast (ucast b :: u32) = (ucast (ucast b' :: u32) :: byte)" by simp
  then show "b = b'" by (simp add: ucast_up_down)
qed

lemma crc_fold_inj: "fold (\<lambda>b c. crc_byte c b) xs c = fold (\<lambda>b c. crc_byte c b) xs c' \<Longrightarrow> c = c'"
  by (induction xs arbitrary: c c') (auto dest: crc_byte_inj)

lemma crc32c_update: "i < length xs \<Longrightarrow> crc32c (xs[i := b]) = crc32c xs \<Longrightarrow> b = xs ! i"
proof -
  assume i: "i < length xs" and eq: "crc32c (xs[i := b]) = crc32c xs"
  let ?f = "\<lambda>b c. crc_byte c b"
  define c where "c = fold ?f (take i xs) (NOT 0)"
  have "fold ?f (xs[i := b]) (NOT 0) = fold ?f (drop (Suc i) xs) (?f b c)"
    by (simp only: upd_conv_take_nth_drop[OF i] c_def fold_append fold_simps o_apply)
  moreover have "fold ?f xs (NOT 0) = fold ?f (drop (Suc i) xs) (?f (xs ! i) c)"
    by (subst id_take_nth_drop[OF i]) (simp only: c_def fold_append fold_simps o_apply)
  ultimately have "fold ?f (drop (Suc i) xs) (?f b c) = fold ?f (drop (Suc i) xs) (?f (xs ! i) c)"
    using eq by (simp add: crc32c_def)
  then show "b = xs ! i" by (intro crc_byte_inj(2)) (rule crc_fold_inj)
qed

lemma Checksum_Supported: "Supported a \<longleftrightarrow> Checksum a data \<noteq> None"
  by (auto simp: Supported_def Checksum_def)

lemma write_checksum_parts:
  assumes "4 \<le> length p"
  shows "take (length p - 4) (write_at p (length p - 4) (le_put 4 s)) = take (length p - 4) p"
    and "sub (write_at p (length p - 4) (le_put 4 s)) (length p - 4) 4 = le_put 4 s"
    and "length (write_at p (length p - 4) (le_put 4 s)) = length p"
  using assms by (simp_all add: write_at_def sub_def)

text \<open>Writing the trailing checksum leaves the page's other bytes alone and the page then
  verifies, under every supported algorithm.\<close>

theorem WritePageChecksum_verifies:
  assumes "Supported algo" and "ChecksumSize \<le> length p"
  shows "\<exists>q. WritePageChecksum p algo = Some q \<and> length q = length p
    \<and> take (length p - ChecksumSize) q = take (length p - ChecksumSize) p
    \<and> VerifyPageChecksum q algo = Some None"
proof -
  obtain s where s: "Checksum algo (take (length p - 4) p) = Some s"
    using assms(1) Checksum_Supported by auto
  note w = write_checksum_parts[OF assms(2), of s]
  have "Verify algo (take (length p - 4) p) s = Some True" by (simp add: Verify_def s)
  then show ?thesis using assms(2) w
    by (simp add: WritePageChecksum_def ComputePageChecksum_def VerifyPageChecksum_def s)
qed

theorem WritePageChecksum_verifies_witness:
  "\<exists>q. WritePageChecksum [1, 2, 3, 4, 5, 6] ChecksumXXHash32 = Some q
    \<and> VerifyPageChecksum q ChecksumXXHash32 = Some None"
  using WritePageChecksum_verifies[of ChecksumXXHash32 "[1, 2, 3, 4, 5, 6]"] by (auto simp: Supported_def)

lemma crc_seal_broken:
  assumes len: "4 \<le> length p" and ok: "crc32c (take (length p - 4) p) = get32 p (length p - 4)"
    and i: "i < length p" and b: "b \<noteq> p ! i"
  shows "crc32c (take (length p - 4) (p[i := b])) \<noteq> get32 (p[i := b]) (length p - 4)"
proof (cases "i < length p - 4")
  case True
  have "take (length p - 4) (p[i := b]) = (take (length p - 4) p)[i := b]" by (simp add: take_update_swap)
  moreover have "sub (p[i := b]) (length p - 4) 4 = sub p (length p - 4) 4"
    using True by (simp add: sub_def drop_update_cancel)
  ultimately show ?thesis using crc32c_update[of i "take (length p - 4) p" b] True b ok by auto
next
  case False
  let ?s = "length p - 4"
  have "get32 (p[i := b]) ?s \<noteq> get32 p ?s"
  proof
    assume "get32 (p[i := b]) ?s = get32 p ?s"
    then have "le_put 4 (get32 (p[i := b]) ?s) = le_put 4 (get32 p ?s)" by simp
    then have "sub (p[i := b]) ?s 4 = sub p ?s 4" using len by simp
    then have "sub (p[i := b]) ?s 4 ! (i - ?s) = sub p ?s 4 ! (i - ?s)" by simp
    then show False using False i b len by (simp add: nth_sub)
  qed
  then show ?thesis using ok False by simp
qed

text \<open>C40. CRC32C page checksums detect every single-byte corruption: if a page verifies, changing
  any one byte, in the header, the body or the checksum itself, makes verification fail.\<close>

theorem single_byte_corruption_detected:
  assumes "VerifyPageChecksum p ChecksumCRC32C = Some None" and "i < length p" and "b \<noteq> p ! i"
  shows "VerifyPageChecksum (p[i := b]) ChecksumCRC32C = Some (Some ErrPageChecksum)"
proof -
  have len: "4 \<le> length p" and ok: "crc32c (take (length p - 4) p) = get32 p (length p - 4)"
    using assms(1) by (auto simp: VerifyPageChecksum_def Verify_def Checksum_def split: if_splits)
  show ?thesis using crc_seal_broken[OF len ok assms(2,3)] len
    by (simp add: VerifyPageChecksum_def Verify_def Checksum_def)
qed

theorem single_byte_corruption_witness:
  "VerifyPageChecksum [1, 7, 82, 159, 248, 3] ChecksumCRC32C = Some (Some ErrPageChecksum)"
proof -
  have "VerifyPageChecksum [1, 2, 82, 159, 248, 3] ChecksumCRC32C = Some None" by code_simp
  from single_byte_corruption_detected[OF this, of 1 7] show ?thesis by simp
qed

end
