(* ===== verification/Format_Header.thy ===== *)
theory Format_Header
  imports Format_Page
begin

text \<open>
  The 128-byte database header on page 0 (\<^verbatim>\<open>src/format/header.go\<close>): its layout,
  \<^verbatim>\<open>Encode\<close>, \<^verbatim>\<open>DecodeHeader\<close> with the open sequence's checks in order, and the
  trusted page count.
\<close>

section \<open>Layout\<close>

abbreviation HeaderSize :: nat where "HeaderSize \<equiv> 128"

definition Magic :: bytes where
  "Magic = [0x64, 0x6F, 0x63, 0x00, 0x66, 0x6D, 0x74, 0x20, 0x31, 0x0A, 0x00, 0xFF, 0x0D, 0x0A, 0x1A, 0x0A]"

abbreviation FormatMajorCurrent :: u16 where "FormatMajorCurrent \<equiv> 1"
abbreviation FormatMinorCurrent :: u16 where "FormatMinorCurrent \<equiv> 0"

definition ValidPageSize :: "u32 \<Rightarrow> bool" where
  "ValidPageSize ps = (ps \<in> {4096, 8192, 16384, 32768, 65536})"

definition knownFeatureMask :: u64 where
  "knownFeatureMask = 1 OR push_bit 1 1 OR push_bit 2 1 OR push_bit 3 1"

record Header =
  FormatMajor :: u16
  FormatMinor :: u16
  PageSize :: u32
  PageCount :: u32
  FileChangeCounter :: u32
  VersionValidFor :: u32
  FreelistRoot :: u32
  FreelistPageCount :: u32
  CatalogRoot :: u32
  SchemaCookie :: u32
  ColumnarRoot :: u32
  TxnHighWater :: u64
  FeatureFlags :: u64
  DefaultCodec :: byte
  ChecksumAlgo :: byte
  TextEncoding :: byte
  EncryptionFlags :: byte
  ApplicationID :: u32
  UserVersion :: u32
  WALSalt :: u64
  DatabaseUUID :: bytes
  HeaderChecksum :: u32

definition NewHeader :: "u32 \<Rightarrow> byte \<Rightarrow> u64 \<Rightarrow> bytes \<Rightarrow> Header" where
  "NewHeader pageSize algo walSalt uuid =
     \<lparr>FormatMajor = FormatMajorCurrent, FormatMinor = FormatMinorCurrent, PageSize = pageSize, PageCount = 1,
      FileChangeCounter = 0, VersionValidFor = 0, FreelistRoot = NullPage, FreelistPageCount = 0,
      CatalogRoot = NullPage, SchemaCookie = 0, ColumnarRoot = NullPage, TxnHighWater = 0, FeatureFlags = 0,
      DefaultCodec = 0, ChecksumAlgo = algo, TextEncoding = 1, EncryptionFlags = 0, ApplicationID = 0,
      UserVersion = 0, WALSalt = walSalt, DatabaseUUID = uuid, HeaderChecksum = 0\<rparr>"

text \<open>Bytes 0 to 123, the part the checksum covers. The UUID field is a 16-byte array in the
  code; \<open>take\<close> and padding keep its width here.\<close>

definition uuid16 :: "bytes \<Rightarrow> bytes" where
  "uuid16 u = take 16 (u @ replicate 16 0)"

definition header_prefix :: "Header \<Rightarrow> bytes" where
  "header_prefix h =
     Magic @ le_put 2 (FormatMajor h) @ le_put 2 (FormatMinor h) @ le_put 4 (PageSize h) @ le_put 4 (PageCount h)
     @ le_put 4 (FileChangeCounter h) @ le_put 4 (VersionValidFor h) @ le_put 4 (FreelistRoot h)
     @ le_put 4 (FreelistPageCount h) @ le_put 4 (CatalogRoot h) @ le_put 4 (SchemaCookie h)
     @ le_put 4 (ColumnarRoot h) @ le_put 8 (TxnHighWater h) @ le_put 8 (FeatureFlags h)
     @ [DefaultCodec h, ChecksumAlgo h, TextEncoding h, EncryptionFlags h]
     @ le_put 4 (ApplicationID h) @ le_put 4 (UserVersion h) @ le_put 8 (WALSalt h) @ uuid16 (DatabaseUUID h)
     @ replicate 16 0"

text \<open>\<^verbatim>\<open>Encode\<close> panics on an unsupported algorithm.\<close>

definition Encode :: "Header \<Rightarrow> bytes option" where
  "Encode h =
     (if \<not> Supported (ChecksumAlgo h) then None
      else map_option (\<lambda>s. header_prefix h @ le_put 4 s) (Checksum (ChecksumAlgo h) (header_prefix h)))"

definition read_header :: "bytes \<Rightarrow> Header" where
  "read_header b =
     \<lparr>FormatMajor = get16 b 16, FormatMinor = get16 b 18, PageSize = get32 b 20, PageCount = get32 b 24,
      FileChangeCounter = get32 b 28, VersionValidFor = get32 b 32, FreelistRoot = get32 b 36,
      FreelistPageCount = get32 b 40, CatalogRoot = get32 b 44, SchemaCookie = get32 b 48,
      ColumnarRoot = get32 b 52, TxnHighWater = get64 b 56, FeatureFlags = get64 b 64,
      DefaultCodec = b ! 72, ChecksumAlgo = b ! 73, TextEncoding = b ! 74, EncryptionFlags = b ! 75,
      ApplicationID = get32 b 76, UserVersion = get32 b 80, WALSalt = get64 b 84,
      DatabaseUUID = sub b 92 16, HeaderChecksum = get32 b 124\<rparr>"

text \<open>\<^verbatim>\<open>DecodeHeader\<close>: each step's check before the next field is trusted. \<open>Verify\<close> cannot
  panic here because the algorithm was just checked.\<close>

definition DecodeHeader :: "bytes \<Rightarrow> format_error + Header" where
  "DecodeHeader b =
     (if length b < HeaderSize then Inl ErrTooSmall
      else if take 16 b \<noteq> Magic then Inl ErrNotDocDB
      else if \<not> Supported (b ! 73) then Inl ErrUnsupportedChecksum
      else if Verify (b ! 73) (take 124 b) (get32 b 124) \<noteq> Some True then Inl ErrHeaderCorrupt
      else if get16 b 16 > FormatMajorCurrent then Inl ErrUnsupportedMajor
      else if \<not> ValidPageSize (get32 b 20) then Inl ErrInvalidPageSize
      else if get64 b 64 AND NOT knownFeatureMask \<noteq> 0 then Inl ErrUnsupportedFeature
      else Inr (read_header b))"

text \<open>A zero page size makes the division panic.\<close>

definition PageCountForFileLen :: "Header \<Rightarrow> nat \<Rightarrow> u32 option" where
  "PageCountForFileLen h fileLen =
     (if FileChangeCounter h = VersionValidFor h then Some (PageCount h)
      else if PageSize h = 0 then None
      else Some (of_nat (fileLen div unat (PageSize h))))"

section \<open>Round trip and checks\<close>

lemma length_uuid16 [simp]: "length (uuid16 u) = 16"
  by (simp add: uuid16_def)

lemma length_header_prefix [simp]: "length (header_prefix h) = 124"
  by (simp add: header_prefix_def Magic_def)

lemma header_prefix_fields:
  "read_header (header_prefix h @ le_put 4 s @ rest)
    = h\<lparr>DatabaseUUID := uuid16 (DatabaseUUID h), HeaderChecksum := s\<rparr>"
  by (simp add: read_header_def header_prefix_def Magic_def sub_def nth_append)

definition openable :: "Header \<Rightarrow> bool" where
  "openable h \<longleftrightarrow> Supported (ChecksumAlgo h) \<and> FormatMajor h \<le> FormatMajorCurrent \<and> ValidPageSize (PageSize h)
     \<and> FeatureFlags h AND NOT knownFeatureMask = 0 \<and> length (DatabaseUUID h) = 16"

lemma header_get:
  "get16 (header_prefix h @ r) 16 = FormatMajor h" "get32 (header_prefix h @ r) 20 = PageSize h"
  "get64 (header_prefix h @ r) 64 = FeatureFlags h" "(header_prefix h @ r) ! 73 = ChecksumAlgo h"
  "take 16 (header_prefix h @ r) = Magic"
  by (simp_all add: header_prefix_def Magic_def sub_def nth_append)

lemma DecodeHeader_Encode:
  assumes "openable h"
  shows "\<exists>s. Checksum (ChecksumAlgo h) (header_prefix h) = Some s
    \<and> Encode h = Some (header_prefix h @ le_put 4 s)
    \<and> DecodeHeader (header_prefix h @ le_put 4 s @ rest) = Inr (h\<lparr>HeaderChecksum := s\<rparr>)"
proof -
  obtain s where s: "Checksum (ChecksumAlgo h) (header_prefix h) = Some s"
    using assms Checksum_Supported by (auto simp: openable_def)
  let ?b = "header_prefix h @ le_put 4 s @ rest"
  have r: "read_header ?b = h\<lparr>HeaderChecksum := s\<rparr>"
    using header_prefix_fields[of h s rest] assms by (simp add: openable_def uuid16_def)
  have "DecodeHeader ?b = Inr (read_header ?b)"
    unfolding DecodeHeader_def header_get using assms s
    by (simp add: openable_def Verify_def not_less sub_def)
  then show ?thesis using assms s r by (simp add: Encode_def openable_def)
qed

text \<open>Opening a written header: every header this build may write (supported algorithm,
  current major version, valid page size, known features) decodes from its own encoding to the same
  header with its checksum filled in, whatever follows it on page 0.\<close>

theorem Header_roundtrip:
  assumes "openable h"
  shows "\<exists>b s. Encode h = Some b \<and> length b = HeaderSize \<and> DecodeHeader (b @ rest) = Inr (h\<lparr>HeaderChecksum := s\<rparr>)
    \<and> Checksum (ChecksumAlgo h) (take 124 b) = Some s"
  using DecodeHeader_Encode[OF assms, of rest] by fastforce

theorem Header_roundtrip_witness:
  "\<exists>b s. Encode (NewHeader 8192 ChecksumCRC32C 7 (replicate 16 9)) = Some b
    \<and> DecodeHeader (b @ [1, 2]) = Inr (NewHeader 8192 ChecksumCRC32C 7 (replicate 16 9)\<lparr>HeaderChecksum := s\<rparr>)"
proof -
  have "openable (NewHeader 8192 ChecksumCRC32C 7 (replicate 16 9))" by code_simp
  from Header_roundtrip[OF this, of "[1, 2]"] show ?thesis by blast
qed

text \<open>Any single-byte corruption of a header sealed with CRC32C makes \<^verbatim>\<open>DecodeHeader\<close>
  fail, except at offset 73: that byte names the algorithm itself.\<close>

theorem Header_corruption_detected:
  assumes "openable h" and "ChecksumAlgo h = ChecksumCRC32C" and "Encode h = Some b"
    and "i < HeaderSize" and "i \<noteq> 73" and "c \<noteq> b ! i"
  shows "\<exists>e. DecodeHeader (b[i := c]) = Inl e"
proof -
  obtain s where b: "b = header_prefix h @ le_put 4 s" and s: "crc32c (header_prefix h) = s"
    using DecodeHeader_Encode[OF assms(1), of "[]"] assms(2,3) by (auto simp: Checksum_def)
  let ?b = "b[i := c]"
  have len: "length b = 128" by (simp add: b)
  have "?b ! 73 = ChecksumCRC32C" using assms(2,5) header_get(4)[of h "le_put 4 s"] by (simp add: b)
  moreover have "crc32c (take 124 ?b) \<noteq> get32 ?b 124"
    using crc_seal_broken[of b i c] assms(4,6) s by (simp add: len) (simp add: b sub_def)
  ultimately have "Verify (?b ! 73) (take 124 ?b) (get32 ?b 124) \<noteq> Some True"
    by (simp add: Verify_def Checksum_def)
  then show ?thesis by (simp add: DecodeHeader_def)
qed

theorem Header_corruption_witness:
  "\<exists>b. Encode (NewHeader 8192 ChecksumCRC32C 7 (replicate 16 9)) = Some b
    \<and> (\<exists>e. DecodeHeader (b[24 := b ! 24 + 1]) = Inl e)"
proof -
  let ?h = "NewHeader 8192 ChecksumCRC32C 7 (replicate 16 9)"
  have o: "openable ?h" and a: "ChecksumAlgo ?h = ChecksumCRC32C" by (code_simp, simp add: NewHeader_def)
  obtain b where b: "Encode ?h = Some b" using a by (auto simp: Encode_def Supported_def Checksum_def)
  have "b ! 24 + 1 \<noteq> b ! 24" by simp
  from Header_corruption_detected[OF o a b _ _ this] b show ?thesis by auto
qed

text \<open>The exception is real: setting the algorithm byte to \<open>ChecksumNone\<close> turns verification off,
  so a header with that byte cleared is accepted, whatever its checksum.\<close>

lemma Header_algo_byte_unprotected:
  assumes "openable h" and "Encode h = Some b"
  shows "\<exists>h'. DecodeHeader (b[73 := ChecksumNone]) = Inr h' \<and> ChecksumAlgo h' = ChecksumNone"
proof -
  obtain s :: u32 where b: "b = header_prefix h @ le_put 4 s"
    using DecodeHeader_Encode[OF assms(1), of "[]"] assms(2) by auto
  let ?h = "h\<lparr>ChecksumAlgo := ChecksumNone\<rparr>"
  have "(header_prefix h)[73 := ChecksumNone] = header_prefix ?h"
    by (simp add: header_prefix_def Magic_def list_update_append)
  then have u: "b[73 := ChecksumNone] = header_prefix ?h @ le_put 4 s"
    by (simp add: b list_update_append)
  have "DecodeHeader (header_prefix ?h @ le_put 4 s) = Inr (read_header (header_prefix ?h @ le_put 4 s))"
    unfolding DecodeHeader_def header_get using assms(1)
    by (simp add: openable_def Verify_def Supported_def not_less)
  then show ?thesis using header_prefix_fields[of ?h s "[]"] by (simp add: u)
qed

end
