(* ===== verification/Format_Slotted.thy ===== *)
theory Format_Slotted
  imports Format_Page "HOL-Library.Monad_Syntax"
begin

text \<open>
  The slotted page (\<^verbatim>\<open>src/format/slotted.go\<close>): a slot directory growing up from the body
  start, cells growing down from the body end, dead and forwarding tombstones, and compaction. The
  state is the page buffer itself. Every slice expression is bounds-checked as the Go runtime does:
  \<open>None\<close> is a panic. An operation returns \<open>None\<close>, or \<open>Some\<close> of an error, or \<open>Some\<close> of the new
  buffer (and result).

  The abstract view of a page is the list of its slots (\<open>slots\<close>). The invariant \<open>page_ok\<close> rules out
  every panic, and each operation refines one list operation on the abstract slots.
\<close>

section \<open>Access\<close>

abbreviation slotEntrySize :: nat where "slotEntrySize \<equiv> 4"
abbreviation cellOffsetDead :: u16 where "cellOffsetDead \<equiv> 0xFFFF"
abbreviation cellOffsetForward :: u16 where "cellOffsetForward \<equiv> 0xFFFE"
abbreviation maxCellLen :: nat where "maxCellLen \<equiv> 0xFFFD"
abbreviation forwardCellLen :: nat where "forwardCellLen \<equiv> 8"

text \<open>The body slice panics on a buffer shorter than header and checksum.\<close>

definition body :: "bytes \<Rightarrow> bytes option" where
  "body buf = (if length buf < PageHeaderSize + ChecksumSize then None
     else Some (sub buf PageHeaderSize (length buf - PageHeaderSize - ChecksumSize)))"

definition bodyLen :: "bytes \<Rightarrow> int" where
  "bodyLen buf = int (length buf) - int PageHeaderSize - int ChecksumSize"

definition setHeader :: "bytes \<Rightarrow> PageHeader \<Rightarrow> bytes option" where
  "setHeader buf h = EncodeInto h buf"

definition slice :: "bytes \<Rightarrow> int \<Rightarrow> nat \<Rightarrow> bytes option" where
  "slice b lo n = (if 0 \<le> lo \<and> lo + int n \<le> int (length b) then Some (sub b (nat lo) n) else None)"

text \<open>A \<^verbatim>\<open>copy\<close> into a slice of the body.\<close>

definition copy_body :: "bytes \<Rightarrow> int \<Rightarrow> bytes \<Rightarrow> bytes option" where
  "copy_body buf lo data = do {
     b \<leftarrow> body buf;
     _ \<leftarrow> slice b lo (length data);
     Some (write_at buf (PageHeaderSize + nat lo) data) }"

definition SlotCount :: "bytes \<Rightarrow> nat option" where
  "SlotCount buf = map_option (\<lambda>h. unat (EntryCount h)) (DecodePageHeader buf)"

definition FreeBytes :: "bytes \<Rightarrow> int option" where
  "FreeBytes buf = map_option (\<lambda>h. int (unat (FreeEnd h)) - int (unat (FreeStart h))) (DecodePageHeader buf)"

definition slotAt :: "bytes \<Rightarrow> nat \<Rightarrow> (u16 \<times> u16) option" where
  "slotAt buf i = do {
     b \<leftarrow> body buf;
     x \<leftarrow> slice b (int (i * slotEntrySize)) 2;
     y \<leftarrow> slice b (int (i * slotEntrySize + 2)) 2;
     Some (le_get x, le_get y) }"

definition setSlot :: "bytes \<Rightarrow> nat \<Rightarrow> u16 \<Rightarrow> u16 \<Rightarrow> bytes option" where
  "setSlot buf i off len = do {
     buf1 \<leftarrow> copy_body buf (int (i * slotEntrySize)) (le_put 2 off);
     copy_body buf1 (int (i * slotEntrySize + 2)) (le_put 2 len) }"

text \<open>The slot argument of the exported operations is a Go \<^verbatim>\<open>int\<close>.\<close>

definition in_range :: "bytes \<Rightarrow> int \<Rightarrow> bool option" where
  "in_range buf i = map_option (\<lambda>n. \<not> (i < 0 \<or> i \<ge> int n)) (SlotCount buf)"

definition IsLive :: "bytes \<Rightarrow> int \<Rightarrow> bool option" where
  "IsLive buf i = do {
     r \<leftarrow> in_range buf i;
     if \<not> r then Some False
     else do { (off, _) \<leftarrow> slotAt buf (nat i); Some (off \<noteq> cellOffsetDead \<and> off \<noteq> cellOffsetForward) } }"

definition IsForward :: "bytes \<Rightarrow> int \<Rightarrow> bool option" where
  "IsForward buf i = do {
     r \<leftarrow> in_range buf i;
     if \<not> r then Some False
     else do { (off, _) \<leftarrow> slotAt buf (nat i); Some (off = cellOffsetForward) } }"

fun live_sum :: "bytes \<Rightarrow> nat list \<Rightarrow> int \<Rightarrow> int option" where
  "live_sum buf [] tot = Some tot"
| "live_sum buf (i # is) tot = do {
     (off, len) \<leftarrow> slotAt buf i;
     live_sum buf is (if off = cellOffsetDead then tot
       else if off = cellOffsetForward then tot + int forwardCellLen
       else tot + int (unat len)) }"

definition liveTotal :: "bytes \<Rightarrow> int option" where
  "liveTotal buf = do { n \<leftarrow> SlotCount buf; live_sum buf [0..<n] (int (n * slotEntrySize)) }"

definition AvailBytes :: "bytes \<Rightarrow> int option" where
  "AvailBytes buf = map_option (\<lambda>t. bodyLen buf - t) (liveTotal buf)"

definition CanAdd :: "bytes \<Rightarrow> nat \<Rightarrow> bool option" where
  "CanAdd buf payloadLen = map_option (\<lambda>t. bodyLen buf - t \<ge> int (payloadLen + slotEntrySize)) (liveTotal buf)"

section \<open>Compaction\<close>

text \<open>The snapshot loop: slot number, forwarding flag and copied payload of every live or
  forwarding cell, in slot order.\<close>

fun snapshot :: "bytes \<Rightarrow> nat list \<Rightarrow> (nat \<times> bool \<times> bytes) list option" where
  "snapshot buf [] = Some []"
| "snapshot buf (i # is) = do {
     b \<leftarrow> body buf;
     (off, len) \<leftarrow> slotAt buf i;
     if off = cellOffsetDead then snapshot buf is
     else if off = cellOffsetForward then do {
       d \<leftarrow> slice b (int (unat len)) forwardCellLen;
       cs \<leftarrow> snapshot buf is;
       Some ((i, True, d) # cs) }
     else do {
       d \<leftarrow> slice b (int (unat off)) (unat len);
       cs \<leftarrow> snapshot buf is;
       Some ((i, False, d) # cs) } }"

text \<open>The rewrite loop, from the high end downward.\<close>

fun rewrite :: "bytes \<Rightarrow> (nat \<times> bool \<times> bytes) list \<Rightarrow> int \<Rightarrow> (bytes \<times> int) option" where
  "rewrite buf [] e = Some (buf, e)"
| "rewrite buf ((i, fwd, d) # cs) e = do {
     let start = e - int (length d);
     buf1 \<leftarrow> copy_body buf start d;
     buf2 \<leftarrow> (if fwd then setSlot buf1 i cellOffsetForward (word_of_int start)
             else setSlot buf1 i (word_of_int start) (of_nat (length d)));
     rewrite buf2 cs start }"

definition Compact :: "bytes \<Rightarrow> bytes option" where
  "Compact buf = do {
     n \<leftarrow> SlotCount buf;
     cells \<leftarrow> snapshot buf [0..<n];
     (buf1, e) \<leftarrow> rewrite buf cells (bodyLen buf);
     h \<leftarrow> DecodePageHeader buf1;
     setHeader buf1 (h\<lparr>FreeEnd := word_of_int e\<rparr>) }"

section \<open>Cells\<close>

text \<open>The step \<^verbatim>\<open>AddCell\<close> and \<^verbatim>\<open>SetForward\<close> begin with: if the gap is too small,
  compact when that would free enough room, else report no space.\<close>

definition make_room :: "bytes \<Rightarrow> int \<Rightarrow> (format_error + bytes) option" where
  "make_room buf need = do {
     free \<leftarrow> FreeBytes buf;
     if free < need then do {
       t \<leftarrow> liveTotal buf;
       if bodyLen buf - t < need then Some (Inl ErrNoSpace)
       else map_option Inr (Compact buf) }
     else Some (Inr buf) }"

definition append_cell :: "bytes \<Rightarrow> bytes \<Rightarrow> (bytes \<times> nat) option" where
  "append_cell buf payload = do {
     h \<leftarrow> DecodePageHeader buf;
     let cellOff = int (unat (FreeEnd h)) - int (length payload);
     buf1 \<leftarrow> copy_body buf cellOff payload;
     let slot = unat (EntryCount h);
     buf2 \<leftarrow> setSlot buf1 slot (word_of_int cellOff) (of_nat (length payload));
     buf3 \<leftarrow> setHeader buf2 (h\<lparr>EntryCount := EntryCount h + 1,
       FreeStart := FreeStart h + of_nat slotEntrySize, FreeEnd := word_of_int cellOff\<rparr>);
     Some (buf3, slot) }"

definition AddCell :: "bytes \<Rightarrow> bytes \<Rightarrow> (format_error + bytes \<times> nat) option" where
  "AddCell buf payload =
     (if length payload > maxCellLen then Some (Inl ErrNoSpace)
      else do {
        r \<leftarrow> make_room buf (int (length payload + slotEntrySize));
        case r of Inl e \<Rightarrow> Some (Inl e) | Inr buf1 \<Rightarrow> map_option Inr (append_cell buf1 payload) })"

definition Cell :: "bytes \<Rightarrow> int \<Rightarrow> (format_error + bytes) option" where
  "Cell buf i = do {
     r \<leftarrow> in_range buf i;
     if \<not> r then Some (Inl ErrBadSlot)
     else do {
       (off, len) \<leftarrow> slotAt buf (nat i);
       if off = cellOffsetDead \<or> off = cellOffsetForward then Some (Inl ErrSlotDead)
       else do {
         b \<leftarrow> body buf;
         d \<leftarrow> slice b (int (unat off)) (unat len);
         Some (Inr d) } } }"

definition UpdateInPlace :: "bytes \<Rightarrow> int \<Rightarrow> bytes \<Rightarrow> (format_error + bytes) option" where
  "UpdateInPlace buf i payload = do {
     r \<leftarrow> in_range buf i;
     if \<not> r then Some (Inl ErrBadSlot)
     else do {
       (off, len) \<leftarrow> slotAt buf (nat i);
       if off = cellOffsetDead \<or> off = cellOffsetForward then Some (Inl ErrSlotDead)
       else if unat len \<noteq> length payload then Some (Inl ErrNoSpace)
       else map_option Inr (copy_body buf (int (unat off)) payload) } }"

text \<open>The tail of \<^verbatim>\<open>ReplaceCell\<close>: the payload goes below the free end under the same slot.\<close>

definition rewrite_slot :: "bytes \<Rightarrow> nat \<Rightarrow> bytes \<Rightarrow> bytes option" where
  "rewrite_slot buf i payload = do {
     h \<leftarrow> DecodePageHeader buf;
     let cellOff = int (unat (FreeEnd h)) - int (length payload);
     buf1 \<leftarrow> copy_body buf cellOff payload;
     buf2 \<leftarrow> setSlot buf1 i (word_of_int cellOff) (of_nat (length payload));
     setHeader buf2 (h\<lparr>FreeEnd := word_of_int cellOff\<rparr>) }"

definition ReplaceCell :: "bytes \<Rightarrow> int \<Rightarrow> bytes \<Rightarrow> (format_error + bytes) option" where
  "ReplaceCell buf i payload = do {
     r \<leftarrow> in_range buf i;
     if \<not> r then Some (Inl ErrBadSlot)
     else do {
       (off, oldLen) \<leftarrow> slotAt buf (nat i);
       if off = cellOffsetDead \<or> off = cellOffsetForward then Some (Inl ErrSlotDead)
       else if length payload > maxCellLen then Some (Inl ErrNoSpace)
       else if unat oldLen = length payload then map_option Inr (copy_body buf (int (unat off)) payload)
       else do {
         t \<leftarrow> liveTotal buf;
         if bodyLen buf - t + int (unat oldLen) < int (length payload) then Some (Inl ErrNoSpace)
         else do {
           buf1 \<leftarrow> setSlot buf (nat i) cellOffsetDead 0;
           free \<leftarrow> FreeBytes buf1;
           buf2 \<leftarrow> (if free < int (length payload) then Compact buf1 else Some buf1);
           map_option Inr (rewrite_slot buf2 (nat i) payload) } } } }"

definition DeleteCell :: "bytes \<Rightarrow> int \<Rightarrow> (format_error + bytes) option" where
  "DeleteCell buf i = do {
     r \<leftarrow> in_range buf i;
     if \<not> r then Some (Inl ErrBadSlot)
     else map_option Inr (setSlot buf (nat i) cellOffsetDead 0) }"

text \<open>The tail of \<^verbatim>\<open>SetForward\<close>: the 8-byte target record and the slot.\<close>

definition write_target :: "bytes \<Rightarrow> nat \<Rightarrow> int \<Rightarrow> u32 \<Rightarrow> u16 \<Rightarrow> bytes option" where
  "write_target buf i cellOff targetPage targetSlot = do {
     buf1 \<leftarrow> copy_body buf cellOff (le_put 4 targetPage);
     buf2 \<leftarrow> copy_body buf1 (cellOff + 4) (le_put 2 targetSlot);
     buf3 \<leftarrow> copy_body buf2 (cellOff + 6) (le_put 2 (0 :: u16));
     setSlot buf3 i cellOffsetForward (word_of_int cellOff) }"

definition fresh_target :: "bytes \<Rightarrow> nat \<Rightarrow> u32 \<Rightarrow> u16 \<Rightarrow> bytes option" where
  "fresh_target buf i targetPage targetSlot = do {
     h \<leftarrow> DecodePageHeader buf;
     let cellOff = int (unat (FreeEnd h)) - int forwardCellLen;
     buf1 \<leftarrow> setHeader buf (h\<lparr>FreeEnd := word_of_int cellOff\<rparr>);
     write_target buf1 i cellOff targetPage targetSlot }"

text \<open>The old cell is reused when it is live and large enough (offset 0 stands for none, as in
  the code); otherwise the target takes a fresh cell from the gap.\<close>

definition SetForward :: "bytes \<Rightarrow> int \<Rightarrow> u32 \<Rightarrow> u16 \<Rightarrow> (format_error + bytes) option" where
  "SetForward buf i targetPage targetSlot = do {
     r \<leftarrow> in_range buf i;
     if \<not> r then Some (Inl ErrBadSlot)
     else do {
       (off, len) \<leftarrow> slotAt buf (nat i);
       let reuse = (if off \<noteq> cellOffsetDead \<and> off \<noteq> cellOffsetForward \<and> unat len \<ge> forwardCellLen
                    then int (unat off) else 0);
       if reuse \<noteq> 0 then map_option Inr (write_target buf (nat i) reuse targetPage targetSlot)
       else do {
         r1 \<leftarrow> make_room buf (int forwardCellLen);
         case r1 of Inl e \<Rightarrow> Some (Inl e)
         | Inr buf1 \<Rightarrow> map_option Inr (fresh_target buf1 (nat i) targetPage targetSlot) } } }"

definition Forward :: "bytes \<Rightarrow> int \<Rightarrow> (u32 \<times> u16) option option" where
  "Forward buf i = do {
     r \<leftarrow> in_range buf i;
     if \<not> r then Some None
     else do {
       (off, contentOff) \<leftarrow> slotAt buf (nat i);
       if off \<noteq> cellOffsetForward then Some None
       else do {
         b \<leftarrow> body buf;
         p \<leftarrow> slice b (int (unat contentOff)) 4;
         s \<leftarrow> slice b (int (unat contentOff) + 4) 2;
         Some (Some (le_get p, le_get s)) } } }"

section \<open>The abstract page\<close>

datatype slot = Dead | Live bytes | Forwarded u32 u16

text \<open>What the directory says about a slot: nothing, or a cell (forwarding or not) with its
  body offset and bytes.\<close>

datatype entry = EDead | ECell bool nat bytes

definition rd_slot :: "bytes \<Rightarrow> nat \<Rightarrow> u16 \<times> u16" where
  "rd_slot buf i = (get16 buf (32 + 4 * i), get16 buf (34 + 4 * i))"

definition rd_body :: "bytes \<Rightarrow> nat \<Rightarrow> nat \<Rightarrow> bytes" where
  "rd_body buf lo n = sub buf (32 + lo) n"

definition read_entry :: "bytes \<Rightarrow> nat \<Rightarrow> entry" where
  "read_entry buf i = (case rd_slot buf i of (off, len) \<Rightarrow>
     if off = cellOffsetDead then EDead
     else if off = cellOffsetForward then ECell True (unat len) (rd_body buf (unat len) 8)
     else ECell False (unat off) (rd_body buf (unat off) (unat len)))"

fun view :: "entry \<Rightarrow> slot" where
  "view EDead = Dead"
| "view (ECell False off d) = Live d"
| "view (ECell True off d) = Forwarded (get32 d 0) (get16 d 4)"

definition hdr :: "bytes \<Rightarrow> PageHeader" where
  "hdr buf = (case DecodePageHeader buf of Some h \<Rightarrow> h | None \<Rightarrow> undefined)"

abbreviation nslots :: "bytes \<Rightarrow> nat" where
  "nslots buf \<equiv> unat (EntryCount (hdr buf))"

abbreviation fend :: "bytes \<Rightarrow> nat" where
  "fend buf \<equiv> unat (FreeEnd (hdr buf))"

abbreviation blen :: "bytes \<Rightarrow> nat" where
  "blen buf \<equiv> length buf - 36"

definition entries :: "bytes \<Rightarrow> entry list" where
  "entries buf = map (read_entry buf) [0..<nslots buf]"

definition slots :: "bytes \<Rightarrow> slot list" where
  "slots buf = map view (entries buf)"

text \<open>The invariant: the directory ends where free space starts, every cell lies between the end
  of free space and the end of the body, and no two cells overlap.\<close>

fun within :: "nat \<Rightarrow> nat \<Rightarrow> entry \<Rightarrow> bool" where
  "within lo hi EDead = True"
| "within lo hi (ECell f off d) = (lo \<le> off \<and> off + length d \<le> hi \<and> (f \<longrightarrow> length d = 8))"

fun apart :: "entry \<Rightarrow> entry \<Rightarrow> bool" where
  "apart (ECell f o1 d1) (ECell g o2 d2) = (o1 + length d1 \<le> o2 \<or> o2 + length d2 \<le> o1)"
| "apart _ _ = True"

fun all_apart :: "entry list \<Rightarrow> bool" where
  "all_apart [] = True"
| "all_apart (e # es) = (list_all (apart e) es \<and> all_apart es)"

definition page_ok :: "bytes \<Rightarrow> bool" where
  "page_ok buf \<longleftrightarrow> 36 \<le> length buf \<and> length buf \<le> 65536
     \<and> unat (FreeStart (hdr buf)) = 4 * nslots buf \<and> 4 * nslots buf \<le> fend buf \<and> fend buf \<le> blen buf
     \<and> list_all (within (fend buf) (blen buf)) (entries buf) \<and> all_apart (entries buf)"

section \<open>Reads and writes of the buffer\<close>

lemma apart_sym: "apart a b = apart b a"
  by (cases a; cases b) auto

lemma all_apart_iff: "all_apart es \<longleftrightarrow> (\<forall>i<length es. \<forall>j<length es. i \<noteq> j \<longrightarrow> apart (es ! i) (es ! j))"
proof (induction es)
  case (Cons e es)
  show ?case
  proof
    assume "all_apart (e # es)"
    then show "\<forall>i<length (e # es). \<forall>j<length (e # es). i \<noteq> j \<longrightarrow> apart ((e # es) ! i) ((e # es) ! j)"
      using Cons.IH apart_sym by (auto simp: nth_Cons' list_all_length)
  next
    assume r: "\<forall>i<length (e # es). \<forall>j<length (e # es). i \<noteq> j \<longrightarrow> apart ((e # es) ! i) ((e # es) ! j)"
    have "apart e (es ! j)" if "j < length es" for j using r[rule_format, of 0 "Suc j"] that by simp
    moreover have "apart (es ! i) (es ! j)" if "i < length es" "j < length es" "i \<noteq> j" for i j
      using r[rule_format, of "Suc i" "Suc j"] that by simp
    ultimately show "all_apart (e # es)" using Cons.IH by (simp add: list_all_length)
  qed
qed simp

definition put_slot :: "bytes \<Rightarrow> nat \<Rightarrow> u16 \<Rightarrow> u16 \<Rightarrow> bytes" where
  "put_slot buf i off len = write_at buf (32 + 4 * i) (le_put 2 off @ le_put 2 len)"

definition put_body :: "bytes \<Rightarrow> nat \<Rightarrow> bytes \<Rightarrow> bytes" where
  "put_body buf lo d = write_at buf (32 + lo) d"

definition put_hdr :: "bytes \<Rightarrow> PageHeader \<Rightarrow> bytes" where
  "put_hdr buf h = write_at buf 0 (header_bytes h)"

lemma write_at_merge:
  "off + length x + length y \<le> length b \<Longrightarrow> write_at (write_at b off x) (off + length x) y = write_at b off (x @ y)"
  by (simp add: write_at_def add.commute add.left_commute)

lemma nth_write_before: "i < off \<Longrightarrow> off \<le> length b \<Longrightarrow> write_at b off d ! i = b ! i"
  by (simp add: write_at_def nth_append)

lemma sub_write_second:
  "off + length x + length y \<le> length b \<Longrightarrow> sub (write_at b off (x @ y)) (off + length x) (length y) = y"
  by (simp add: write_at_def sub_def)

lemma sub_write_first:
  "off + length x + length y \<le> length b \<Longrightarrow> sub (write_at b off (x @ y)) off (length x) = x"
  by (simp add: write_at_def sub_def)

lemma length_puts [simp]:
  "4 * i + 4 \<le> blen buf \<Longrightarrow> 36 \<le> length buf \<Longrightarrow> length (put_slot buf i o1 l1) = length buf"
  "lo + length d \<le> blen buf \<Longrightarrow> 36 \<le> length buf \<Longrightarrow> length (put_body buf lo d) = length buf"
  "36 \<le> length buf \<Longrightarrow> length (put_hdr buf h) = length buf"
  by (simp_all add: put_slot_def put_body_def put_hdr_def)

lemma body_Some: "36 \<le> length buf \<Longrightarrow> body buf = Some (sub buf 32 (blen buf))"
  by (simp add: body_def)

lemma slice_body: "lo + n \<le> blen buf \<Longrightarrow> slice (sub buf 32 (blen buf)) (int lo) n = Some (rd_body buf lo n)"
  by (simp add: slice_def sub_sub rd_body_def)

lemma copy_body_Some:
  "36 \<le> length buf \<Longrightarrow> lo + length d \<le> blen buf \<Longrightarrow> copy_body buf (int lo) d = Some (put_body buf lo d)"
  by (simp add: copy_body_def body_Some slice_body put_body_def)

lemma uint_accesses:
  fixes w :: u16
  shows "unat w + n \<le> blen buf \<Longrightarrow> slice (sub buf 32 (blen buf)) (uint w) n = Some (rd_body buf (unat w) n)"
    and "36 \<le> length buf \<Longrightarrow> unat w + length d \<le> blen buf \<Longrightarrow> copy_body buf (uint w) d = Some (put_body buf (unat w) d)"
  using slice_body[of "unat w" n buf] copy_body_Some[of buf "unat w" d] by simp_all

lemma slotAt_Some: "36 \<le> length buf \<Longrightarrow> 4 * i + 4 \<le> blen buf \<Longrightarrow> slotAt buf i = Some (rd_slot buf i)"
  using slice_body[of "i * 4" 2 buf] slice_body[of "i * 4 + 2" 2 buf]
  by (simp add: slotAt_def body_Some rd_slot_def rd_body_def mult.commute)

lemma setSlot_Some:
  "36 \<le> length buf \<Longrightarrow> 4 * i + 4 \<le> blen buf \<Longrightarrow> setSlot buf i off len = Some (put_slot buf i off len)"
  using copy_body_Some[of buf "i * 4" "le_put 2 off"]
    copy_body_Some[of "put_body buf (i * 4) (le_put 2 off)" "i * 4 + 2" "le_put 2 len"]
    write_at_merge[of "32 + i * 4" "le_put 2 off" "le_put 2 len" buf]
  by (simp add: setSlot_def put_body_def put_slot_def mult.commute)

lemma setHeader_Some: "36 \<le> length buf \<Longrightarrow> setHeader buf h = Some (put_hdr buf h)"
  by (simp add: setHeader_def EncodeInto_def put_hdr_def)

lemma DecodePageHeader_hdr: "36 \<le> length buf \<Longrightarrow> DecodePageHeader buf = Some (hdr buf)"
  by (simp add: hdr_def DecodePageHeader_def)

lemma hdr_put [simp]:
  "36 \<le> length buf \<Longrightarrow> hdr (put_hdr buf h) = h"
  "4 * i + 4 \<le> blen buf \<Longrightarrow> 36 \<le> length buf \<Longrightarrow> hdr (put_slot buf i o1 l1) = hdr buf"
  "lo + length d \<le> blen buf \<Longrightarrow> 36 \<le> length buf \<Longrightarrow> hdr (put_body buf lo d) = hdr buf"
proof -
  show "hdr (put_hdr buf h) = h" if "36 \<le> length buf"
    using Decode_EncodeInto[OF EncodeInto_Some, of buf h] that by (simp add: hdr_def put_hdr_def)
qed (simp_all add: hdr_def put_slot_def put_body_def DecodePageHeader_def sub_write_before nth_write_before)

lemma rd_slot_put [simp]:
  "4 * i + 4 \<le> blen buf \<Longrightarrow> 36 \<le> length buf \<Longrightarrow> 4 * j + 4 \<le> blen buf \<Longrightarrow>
    rd_slot (put_slot buf i o1 l1) j = (if j = i then (o1, l1) else rd_slot buf j)"
  "lo + length d \<le> blen buf \<Longrightarrow> 36 \<le> length buf \<Longrightarrow> 4 * j + 4 \<le> lo \<Longrightarrow>
    rd_slot (put_body buf lo d) j = rd_slot buf j"
  "36 \<le> length buf \<Longrightarrow> rd_slot (put_hdr buf h) j = rd_slot buf j"
proof -
  assume i: "4 * i + 4 \<le> blen buf" "36 \<le> length buf" "4 * j + 4 \<le> blen buf"
  have off: "34 + 4 * j = (32 + 4 * j) + length (le_put 2 o1)" by simp
  consider "j = i" | "j < i" | "i < j" by linarith
  then show "rd_slot (put_slot buf i o1 l1) j = (if j = i then (o1, l1) else rd_slot buf j)"
  proof cases
    case 1
    then show ?thesis using i sub_write_first[of "32 + 4 * j" "le_put 2 o1" "le_put 2 l1" buf]
      sub_write_second[of "32 + 4 * j" "le_put 2 o1" "le_put 2 l1" buf]
      by (simp add: rd_slot_def put_slot_def)
  qed (use i in \<open>simp_all add: rd_slot_def put_slot_def sub_write_before sub_write_after\<close>)
qed (simp_all add: rd_slot_def put_body_def put_hdr_def sub_write_before sub_write_after)

lemma rd_body_put [simp]:
  "4 * i + 4 \<le> lo \<Longrightarrow> lo + n \<le> blen buf \<Longrightarrow> 36 \<le> length buf \<Longrightarrow>
    rd_body (put_slot buf i o1 l1) lo n = rd_body buf lo n"
  "lo + length d \<le> blen buf \<Longrightarrow> 36 \<le> length buf \<Longrightarrow> rd_body (put_body buf lo d) lo (length d) = d"
  "36 \<le> length buf \<Longrightarrow> rd_body (put_hdr buf h) lo n = rd_body buf lo n"
  by (simp_all add: rd_body_def put_slot_def put_body_def put_hdr_def sub_write_after sub_write_same)

lemma rd_body_put_apart:
  "lo' + length d \<le> blen buf \<Longrightarrow> lo + n \<le> lo' \<or> lo' + length d \<le> lo \<Longrightarrow> 36 \<le> length buf \<Longrightarrow> lo + n \<le> blen buf \<Longrightarrow>
    rd_body (put_body buf lo' d) lo n = rd_body buf lo n"
  by (auto simp: rd_body_def put_body_def sub_write_before sub_write_after)

lemma length_rd_body [simp]: "36 \<le> length buf \<Longrightarrow> lo + n \<le> blen buf \<Longrightarrow> length (rd_body buf lo n) = n"
  by (simp add: rd_body_def)

section \<open>Entries\<close>

lemma read_entry_cases:
  assumes "within lo (blen buf) (read_entry buf i)" and "36 \<le> length buf"
  obtains (dead) l where "rd_slot buf i = (cellOffsetDead, l)" "read_entry buf i = EDead"
  | (fwd) l where "rd_slot buf i = (cellOffsetForward, l)" "unat l + 8 \<le> blen buf" "lo \<le> unat l"
      "read_entry buf i = ECell True (unat l) (rd_body buf (unat l) 8)"
  | (live) q l where "rd_slot buf i = (q, l)" "q \<noteq> cellOffsetDead" "q \<noteq> cellOffsetForward"
      "unat q + unat l \<le> blen buf" "lo \<le> unat q"
      "read_entry buf i = ECell False (unat q) (rd_body buf (unat q) (unat l))"
proof -
  obtain q l where s: "rd_slot buf i = (q, l)" by (cases "rd_slot buf i")
  have len: "a + m \<le> blen buf" if "a + length (rd_body buf a m) \<le> blen buf" for a m
    using that assms(2) by (auto simp: rd_body_def min_def split: if_splits)
  consider "q = cellOffsetDead" | "q = cellOffsetForward" | "q \<noteq> cellOffsetDead" "q \<noteq> cellOffsetForward" by blast
  then show ?thesis
  proof cases
    case 1
    then show ?thesis using dead s by (simp add: read_entry_def)
  next
    case 2
    then have r: "read_entry buf i = ECell True (unat l) (rd_body buf (unat l) 8)"
      using s by (simp add: read_entry_def)
    then show ?thesis using fwd s 2 assms(1) len[of "unat l" 8] by simp
  next
    case 3
    then have r: "read_entry buf i = ECell False (unat q) (rd_body buf (unat q) (unat l))"
      using s by (simp add: read_entry_def)
    then show ?thesis using live s 3 assms(1) len[of "unat q" "unat l"] by simp
  qed
qed

lemma read_entry_put_body:
  assumes "36 \<le> length buf" "4 * i + 4 \<le> lo" "lo + length d \<le> blen buf"
    and "within l (blen buf) (read_entry buf i)" and "apart (read_entry buf i) (ECell f lo d)"
  shows "read_entry (put_body buf lo d) i = read_entry buf i"
  using assms(4,1)
proof (cases rule: read_entry_cases)
  case (fwd m)
  then show ?thesis using assms by (simp add: read_entry_def rd_body_put_apart)
next
  case (live q m)
  then show ?thesis using assms by (simp add: read_entry_def rd_body_put_apart)
qed (use assms in \<open>simp add: read_entry_def\<close>)

lemma read_entry_put_slot:
  assumes "36 \<le> length buf" "4 * i + 4 \<le> blen buf" "4 * j + 4 \<le> blen buf" "i \<noteq> j"
    and "within (4 * i + 4) (blen buf) (read_entry buf j)"
  shows "read_entry (put_slot buf i q l) j = read_entry buf j"
  using assms(5,1)
  by (cases rule: read_entry_cases) (use assms in \<open>simp_all add: read_entry_def\<close>)

lemma read_entry_put_hdr: "36 \<le> length buf \<Longrightarrow> read_entry (put_hdr buf h) j = read_entry buf j"
  by (simp add: read_entry_def split: prod.split)

text \<open>The slot words that describe a cell.\<close>

definition slot_words :: "bool \<Rightarrow> nat \<Rightarrow> nat \<Rightarrow> u16 \<times> u16" where
  "slot_words f off len = (if f then (cellOffsetForward, of_nat off) else (of_nat off, of_nat len))"

lemma read_entry_new:
  assumes "36 \<le> length buf" "length buf \<le> 65536" "4 * i + 4 \<le> off" "off + length d \<le> blen buf"
    and "f \<longrightarrow> length d = 8" and "rd_body buf off (length d) = d"
  shows "read_entry (case_prod (put_slot buf i) (slot_words f off (length d))) i = ECell f off d"
proof -
  have u: "unat (of_nat off :: u16) = off" "unat (of_nat (length d) :: u16) = length d"
    using assms(2-4) by (simp_all add: unat_of_nat_id)
  have "(of_nat off :: u16) \<noteq> cellOffsetDead" "(of_nat off :: u16) \<noteq> cellOffsetForward"
    using u(1) assms(2,4) by (auto dest: arg_cong[of _ _ unat])
  then show ?thesis using assms u by (auto simp: read_entry_def slot_words_def)
qed

lemma within_mono: "within lo hi e \<Longrightarrow> lo' \<le> lo \<Longrightarrow> within lo' hi e"
  by (cases e) auto

section \<open>Space accounting\<close>

fun esize :: "entry \<Rightarrow> nat" where
  "esize EDead = 0"
| "esize (ECell f off d) = length d"

definition used :: "bytes \<Rightarrow> nat" where
  "used buf = sum_list (map esize (entries buf))"

fun interval :: "entry \<Rightarrow> nat set" where
  "interval EDead = {}"
| "interval (ECell f off d) = {off..<off + length d}"

lemma apart_sum: "all_apart es \<Longrightarrow> card (\<Union> (interval ` set es)) = sum_list (map esize es)"
proof (induction es)
  case (Cons e es)
  have fin: "finite (interval a)" "card (interval a) = esize a" for a by (cases a; simp)+
  have "interval e \<inter> \<Union> (interval ` set es) = {}"
  proof -
    have "interval e \<inter> interval a = {}" if "apart e a" for a using that by (cases e; cases a) auto
    then show ?thesis using Cons.prems by (auto simp: list_all_iff)
  qed
  then have "card (interval e \<union> \<Union> (interval ` set es)) = card (interval e) + card (\<Union> (interval ` set es))"
    using fin by (intro card_Un_disjoint) auto
  then show ?case using Cons fin by simp
qed simp

lemma page_okD:
  assumes "page_ok buf"
  shows "36 \<le> length buf" "length buf \<le> 65536" "unat (FreeStart (hdr buf)) = 4 * nslots buf"
    "4 * nslots buf \<le> fend buf" "fend buf \<le> blen buf"
    "i < nslots buf \<Longrightarrow> 4 * i + 4 \<le> fend buf" "i < nslots buf \<Longrightarrow> 4 * i + 4 \<le> blen buf"
    "i < nslots buf \<Longrightarrow> within (fend buf) (blen buf) (read_entry buf i)"
    "i < nslots buf \<Longrightarrow> j < nslots buf \<Longrightarrow> i \<noteq> j \<Longrightarrow> apart (read_entry buf i) (read_entry buf j)"
  using assms by (auto simp: page_ok_def entries_def list_all_length all_apart_iff)

lemma used_le:
  assumes "page_ok buf" shows "used buf \<le> blen buf - fend buf"
proof -
  have "interval e \<subseteq> {fend buf..<blen buf}" if "within (fend buf) (blen buf) e" for e
    using that by (cases e) auto
  then have "\<Union> (interval ` set (entries buf)) \<subseteq> {fend buf..<blen buf}"
    using assms by (auto simp: page_ok_def list_all_iff)
  then have "card (\<Union> (interval ` set (entries buf))) \<le> card {fend buf..<blen buf}"
    by (intro card_mono) auto
  then show ?thesis using apart_sum[of "entries buf"] assms by (simp add: page_ok_def used_def)
qed

lemma live_sum_entries:
  assumes "page_ok buf" and "\<forall>i\<in>set is. i < nslots buf"
  shows "live_sum buf is tot = Some (tot + int (sum_list (map (\<lambda>i. esize (read_entry buf i)) is)))"
  using assms(2)
proof (induction "is" arbitrary: tot)
  case (Cons i "is")
  note P = page_okD[OF assms(1)]
  have i: "i < nslots buf" using Cons.prems by simp
  have s: "slotAt buf i = Some (rd_slot buf i)" using P(1) P(7)[OF i] by (rule slotAt_Some)
  from P(8)[OF i] P(1) show ?case
    by (cases rule: read_entry_cases) (use Cons P(1) in \<open>simp_all add: s\<close>)
qed simp

lemma liveTotal_used: "page_ok buf \<Longrightarrow> liveTotal buf = Some (int (4 * nslots buf + used buf))"
  using live_sum_entries[of buf "[0..<nslots buf]"] page_okD(1)[of buf]
  by (simp add: liveTotal_def SlotCount_def DecodePageHeader_hdr used_def entries_def comp_def mult.commute)

section \<open>Compaction keeps every slot\<close>

definition cells_of :: "bytes \<Rightarrow> nat list \<Rightarrow> (nat \<times> bool \<times> bytes) list" where
  "cells_of buf is = List.map_filter
     (\<lambda>i. case read_entry buf i of EDead \<Rightarrow> None | ECell f off d \<Rightarrow> Some (i, f, d)) is"

lemma snapshot_cells:
  assumes "page_ok buf" and "\<forall>i\<in>set is. i < nslots buf"
  shows "snapshot buf is = Some (cells_of buf is)"
  using assms(2)
proof (induction "is")
  case (Cons i "is")
  note P = page_okD[OF assms(1)]
  have i: "i < nslots buf" using Cons.prems by simp
  have s: "slotAt buf i = Some (rd_slot buf i)" using P(1) P(7)[OF i] by (rule slotAt_Some)
  from P(8)[OF i] P(1) show ?case
    by (cases rule: read_entry_cases)
      (use Cons P(1) in \<open>simp_all add: s body_Some cells_of_def map_filter_simps uint_accesses\<close>)
qed (simp add: cells_of_def map_filter_simps)

text \<open>Where the rewrite loop puts the cells.\<close>

fun placed :: "nat \<Rightarrow> (nat \<times> bool \<times> bytes) list \<Rightarrow> (nat \<times> entry) list" where
  "placed e [] = []"
| "placed e ((i, f, d) # cs) = (i, ECell f (e - length d) d) # placed (e - length d) cs"

abbreviation csize :: "(nat \<times> bool \<times> bytes) list \<Rightarrow> nat" where
  "csize cs \<equiv> sum_list (map (\<lambda>(i, f, d). length d) cs)"

definition cell_ok :: "nat \<Rightarrow> nat \<times> bool \<times> bytes \<Rightarrow> bool" where
  "cell_ok n c = (case c of (i, f, d) \<Rightarrow> i < n \<and> (f \<longrightarrow> length d = 8))"

lemma placed_within:
  "csize cs + b \<le> e \<Longrightarrow> list_all (cell_ok n) cs \<Longrightarrow> (i, a) \<in> set (placed e cs) \<Longrightarrow> within (e - csize cs) e a"
proof (induction e cs rule: placed.induct)
  case (2 e j f d cs)
  have "within (e - length d - csize cs) e a'" if "within (e - length d - csize cs) (e - length d) a'" for a'
    using that by (cases a') auto
  then show ?case using 2 by (auto simp: cell_ok_def)
qed simp

lemma placed_apart: "csize cs \<le> e \<Longrightarrow> list_all (cell_ok n) cs \<Longrightarrow> all_apart (map snd (placed e cs))"
proof (induction e cs rule: placed.induct)
  case (2 e j f d cs)
  have "apart (ECell f (e - length d) d) a" if a: "a \<in> set (map snd (placed (e - length d) cs))" for a
  proof -
    obtain i where "(i, a) \<in> set (placed (e - length d) cs)" using a by auto
    then have "within (e - length d - csize cs) (e - length d) a"
      using 2 placed_within[of cs 0 "e - length d" n i a] by simp
    then show ?thesis by (cases a) auto
  qed
  then show ?case using 2 by (simp add: list_all_iff)
qed simp

lemma map_fst_placed: "map fst (placed e cs) = map fst cs"
  by (induction e cs rule: placed.induct) auto

text \<open>One turn of the rewrite loop.\<close>

definition write_cell :: "bytes \<Rightarrow> nat \<Rightarrow> bool \<Rightarrow> nat \<Rightarrow> bytes \<Rightarrow> bytes" where
  "write_cell buf i f off d = case_prod (put_slot (put_body buf off d) i) (slot_words f off (length d))"

lemma write_cell_step:
  assumes "36 \<le> length buf" "length buf \<le> 65536" "4 * n + length d \<le> e" "e \<le> blen buf" "i < n"
  shows "rewrite buf ((i, f, d) # cs) (int e) = rewrite (write_cell buf i f (e - length d) d) cs (int (e - length d))"
proof -
  have start: "int e - int (length d) = int (e - length d)" using assms(3) by simp
  have w: "word_of_int (int (e - length d)) = (of_nat (e - length d) :: u16)" by simp
  have "copy_body buf (int (e - length d)) d = Some (put_body buf (e - length d) d)"
    using assms by (intro copy_body_Some) auto
  moreover have "setSlot (put_body buf (e - length d) d) i a b = Some (put_slot (put_body buf (e - length d) d) i a b)" for a b
    using assms by (intro setSlot_Some) auto
  ultimately show ?thesis by (simp add: start w write_cell_def slot_words_def Let_def del: of_nat_diff)
qed

lemma write_cell_facts:
  assumes "36 \<le> length buf" "length buf \<le> 65536" "4 * n \<le> off" "off + length d \<le> blen buf" "i < n"
    and "f \<longrightarrow> length d = 8"
  shows "length (write_cell buf i f off d) = length buf" "hdr (write_cell buf i f off d) = hdr buf"
    "read_entry (write_cell buf i f off d) i = ECell f off d"
    "j < n \<Longrightarrow> j \<noteq> i \<Longrightarrow> rd_slot (write_cell buf i f off d) j = rd_slot buf j"
    "off + length d \<le> lo \<Longrightarrow> lo + m \<le> blen buf \<Longrightarrow> rd_body (write_cell buf i f off d) lo m = rd_body buf lo m"
proof -
  let ?b = "put_body buf off d"
  have b: "36 \<le> length ?b" "length ?b = length buf" using assms by simp_all
  show "length (write_cell buf i f off d) = length buf" "hdr (write_cell buf i f off d) = hdr buf"
    using assms b by (auto simp: write_cell_def slot_words_def)
  show "read_entry (write_cell buf i f off d) i = ECell f off d"
    using read_entry_new[of ?b i off d f] assms b by (simp add: write_cell_def)
  show "j < n \<Longrightarrow> j \<noteq> i \<Longrightarrow> rd_slot (write_cell buf i f off d) j = rd_slot buf j"
    using assms b by (auto simp: write_cell_def slot_words_def)
  show "off + length d \<le> lo \<Longrightarrow> lo + m \<le> blen buf \<Longrightarrow> rd_body (write_cell buf i f off d) lo m = rd_body buf lo m"
    using assms b by (auto simp: write_cell_def slot_words_def rd_body_put_apart)
qed

lemma read_entry_keep:
  assumes "within e (blen b) (read_entry b i)" "36 \<le> length b" "rd_slot b' i = rd_slot b i"
    and "\<And>lo m. e \<le> lo \<Longrightarrow> lo + m \<le> blen b \<Longrightarrow> rd_body b' lo m = rd_body b lo m"
  shows "read_entry b' i = read_entry b i"
  using assms(1,2) by (cases rule: read_entry_cases) (use assms(3,4) in \<open>simp_all add: read_entry_def\<close>)

lemma rewrite_ok:
  assumes "36 \<le> length buf" "length buf \<le> 65536" "e \<le> blen buf" "4 * n + csize cs \<le> e"
    and "list_all (cell_ok n) cs" "distinct (map fst cs)"
  shows "\<exists>buf'. rewrite buf cs (int e) = Some (buf', int (e - csize cs)) \<and> length buf' = length buf \<and> hdr buf' = hdr buf
    \<and> (\<forall>j<n. j \<notin> fst ` set cs \<longrightarrow> rd_slot buf' j = rd_slot buf j)
    \<and> (\<forall>lo m. e \<le> lo \<longrightarrow> lo + m \<le> blen buf \<longrightarrow> rd_body buf' lo m = rd_body buf lo m)
    \<and> (\<forall>(i, a)\<in>set (placed e cs). read_entry buf' i = a)"
  using assms
proof (induction cs arbitrary: buf e)
  case (Cons c cs)
  obtain i f d where c: "c = (i, f, d)" by (cases c)
  let ?off = "e - length d" and ?b = "write_cell buf i f (e - length d) d"
  have i: "i < n" "f \<longrightarrow> length d = 8" using Cons.prems(5) by (auto simp: c cell_ok_def)
  have sp: "4 * n \<le> ?off" "?off + length d \<le> blen buf" "?off + length d = e" using Cons.prems(3,4) by (auto simp: c)
  note W = write_cell_facts[OF Cons.prems(1,2) sp(1,2) i]
  have step: "rewrite buf (c # cs) (int e) = rewrite ?b cs (int ?off)"
    unfolding c using Cons.prems i by (intro write_cell_step) (auto simp: c)
  have "\<exists>buf'. rewrite ?b cs (int ?off) = Some (buf', int (?off - csize cs)) \<and> length buf' = length ?b \<and> hdr buf' = hdr ?b
    \<and> (\<forall>j<n. j \<notin> fst ` set cs \<longrightarrow> rd_slot buf' j = rd_slot ?b j)
    \<and> (\<forall>lo m. ?off \<le> lo \<longrightarrow> lo + m \<le> blen ?b \<longrightarrow> rd_body buf' lo m = rd_body ?b lo m)
    \<and> (\<forall>(i, a)\<in>set (placed ?off cs). read_entry buf' i = a)"
    using Cons.prems W(1) by (intro Cons.IH) (auto simp: c)
  then obtain buf' where r: "rewrite ?b cs (int ?off) = Some (buf', int (?off - csize cs))"
    and l: "length buf' = length buf" "hdr buf' = hdr buf"
    and sl: "\<forall>j<n. j \<notin> fst ` set cs \<longrightarrow> rd_slot buf' j = rd_slot ?b j"
    and bd: "\<forall>lo m. ?off \<le> lo \<longrightarrow> lo + m \<le> blen buf \<longrightarrow> rd_body buf' lo m = rd_body ?b lo m"
    and pl: "\<forall>(i, a)\<in>set (placed ?off cs). read_entry buf' i = a"
    unfolding W(1,2) by blast
  have "i \<notin> fst ` set cs" using Cons.prems(6) by (simp add: c)
  then have "read_entry buf' i = read_entry ?b i"
    using W(1,3) sl bd i sp Cons.prems(1) by (intro read_entry_keep[where e = ?off]) auto
  then have "\<forall>(i, a)\<in>set (placed e (c # cs)). read_entry buf' i = a" using pl W(3) by (simp add: c)
  moreover have "\<forall>j<n. j \<notin> fst ` set (c # cs) \<longrightarrow> rd_slot buf' j = rd_slot buf j" using sl W(4) by (auto simp: c)
  moreover have "\<forall>lo m. e \<le> lo \<longrightarrow> lo + m \<le> blen buf \<longrightarrow> rd_body buf' lo m = rd_body buf lo m"
    using bd W(5) sp(3) by auto
  ultimately show ?case using r l unfolding step by (simp add: c add.commute)
qed simp

lemma cells_of_facts:
  assumes "page_ok buf"
  shows "csize (cells_of buf [0..<nslots buf]) = used buf"
    and "list_all (cell_ok (nslots buf)) (cells_of buf [0..<nslots buf])"
    and "distinct (map fst (cells_of buf [0..<nslots buf]))"
    and "(i, f, d) \<in> set (cells_of buf [0..<nslots buf]) \<longleftrightarrow> i < nslots buf \<and> (\<exists>off. read_entry buf i = ECell f off d)"
proof -
  have "csize (cells_of buf is) = sum_list (map (\<lambda>i. esize (read_entry buf i)) is)" for "is"
    by (induction "is") (auto simp: cells_of_def map_filter_simps split: entry.split)
  then show "csize (cells_of buf [0..<nslots buf]) = used buf" by (simp add: used_def entries_def comp_def)
  have m: "(i, f, d) \<in> set (cells_of buf is) \<longleftrightarrow> i \<in> set is \<and> (\<exists>off. read_entry buf i = ECell f off d)" for "is" i f d
    by (induction "is") (auto simp: cells_of_def map_filter_simps split: entry.split)
  then show "(i, f, d) \<in> set (cells_of buf [0..<nslots buf]) \<longleftrightarrow> i < nslots buf \<and> (\<exists>off. read_entry buf i = ECell f off d)"
    by simp
  have "f \<longrightarrow> length d = 8" if "i < nslots buf" "read_entry buf i = ECell f off d" for i f off d
    using page_okD(8)[OF assms that(1)] that(2) by simp
  then show "list_all (cell_ok (nslots buf)) (cells_of buf [0..<nslots buf])"
    using m by (auto simp: list_all_iff cell_ok_def)
  have "set (map fst (cells_of buf is)) \<subseteq> set is" for "is" using m by auto
  then have "distinct is \<Longrightarrow> distinct (map fst (cells_of buf is))" for "is"
    by (induction "is") (auto simp: cells_of_def map_filter_simps split: entry.split)
  then show "distinct (map fst (cells_of buf [0..<nslots buf]))" by simp
qed

lemma placed_lookup:
  assumes "distinct (map fst cs)" "all_apart (map snd (placed e cs))"
    and "(i, a) \<in> set (placed e cs)" "(j, b) \<in> set (placed e cs)" "i \<noteq> j"
  shows "apart a b"
proof -
  obtain k l where k: "k < length (placed e cs)" "placed e cs ! k = (i, a)"
    and l: "l < length (placed e cs)" "placed e cs ! l = (j, b)"
    using assms(3,4) by (auto simp: in_set_conv_nth)
  then have "k \<noteq> l" using assms(5) by auto
  then have "apart (map snd (placed e cs) ! k) (map snd (placed e cs) ! l)"
    using assms(2) k(1) l(1) unfolding all_apart_iff length_map by blast
  then show ?thesis using k l by simp
qed

lemma placed_mem: "(i, f, d) \<in> set cs \<Longrightarrow> \<exists>off. (i, ECell f off d) \<in> set (placed e cs)"
  by (induction e cs rule: placed.induct) auto

text \<open>A page is given by its length, its header and its entries.\<close>

lemma page_okI:
  assumes "36 \<le> length buf" "length buf \<le> 65536" "hdr buf = h" "unat (EntryCount h) = length es"
    and "unat (FreeStart h) = 4 * length es" "4 * length es \<le> unat (FreeEnd h)" "unat (FreeEnd h) \<le> blen buf"
    and "\<And>i. i < length es \<Longrightarrow> read_entry buf i = es ! i"
    and "\<And>i. i < length es \<Longrightarrow> within (unat (FreeEnd h)) (blen buf) (es ! i)"
    and "\<And>i j. i < length es \<Longrightarrow> j < length es \<Longrightarrow> i \<noteq> j \<Longrightarrow> apart (es ! i) (es ! j)"
  shows "page_ok buf" and "entries buf = es"
proof -
  show e: "entries buf = es" using assms by (auto simp: entries_def intro: nth_equalityI)
  show "page_ok buf" unfolding page_ok_def e all_apart_iff list_all_length using assms by simp
qed

text \<open>After the rewrite loop every slot shows what it showed before, and its cell, if any, is one of
  the placed ones.\<close>

lemma rewrite_entries:
  assumes "page_ok buf"
  defines "n \<equiv> nslots buf" and "cs \<equiv> cells_of buf [0..<nslots buf]"
  obtains b where "rewrite buf cs (int (blen buf)) = Some (b, int (blen buf - used buf))"
    "length b = length buf" "hdr b = hdr buf"
    "\<And>i. i < n \<Longrightarrow> view (read_entry b i) = view (read_entry buf i) \<and> esize (read_entry b i) = esize (read_entry buf i)"
    "\<And>i. i < n \<Longrightarrow> read_entry b i = EDead \<or> (i, read_entry b i) \<in> set (placed (blen buf) cs)"
proof -
  note P = page_okD[OF assms(1)] and C = cells_of_facts[OF assms(1), folded n_def cs_def]
  have sp: "4 * n + csize cs \<le> blen buf" using used_le[OF assms(1)] P(4,5) by (simp add: C(1) n_def)
  obtain b where r: "rewrite buf cs (int (blen buf)) = Some (b, int (blen buf - used buf))"
    and l: "length b = length buf" "hdr b = hdr buf"
    and sl: "\<forall>j<n. j \<notin> fst ` set cs \<longrightarrow> rd_slot b j = rd_slot buf j"
    and pl: "\<forall>(i, a)\<in>set (placed (blen buf) cs). read_entry b i = a"
    using rewrite_ok[OF P(1,2) order_refl sp C(2,3)] unfolding C(1) by blast
  have "(view (read_entry b i) = view (read_entry buf i) \<and> esize (read_entry b i) = esize (read_entry buf i))
      \<and> (read_entry b i = EDead \<or> (i, read_entry b i) \<in> set (placed (blen buf) cs))" if i: "i < n" for i
  proof (cases "read_entry buf i")
    case EDead
    then have "i \<notin> fst ` set cs" using C(4) by force
    then have "rd_slot b i = rd_slot buf i" using sl i by simp
    then have "read_entry b i = EDead" using EDead by (auto simp: read_entry_def split: prod.splits if_splits)
    then show ?thesis using EDead by simp
  next
    case (ECell f off d)
    then obtain off' where p: "(i, ECell f off' d) \<in> set (placed (blen buf) cs)"
      using placed_mem[of i f d cs "blen buf"] C(4) i by blast
    then have "read_entry b i = ECell f off' d" using pl by fastforce
    then show ?thesis using p ECell by (cases f) simp_all
  qed
  then show ?thesis using that r l by blast
qed

lemma Compact_ok:
  assumes "page_ok buf"
  obtains buf' where "Compact buf = Some buf'" "page_ok buf'" "slots buf' = slots buf"
    "length buf' = length buf" "hdr buf' = (hdr buf)\<lparr>FreeEnd := of_nat (blen buf - used buf)\<rparr>"
    "used buf' = used buf" "fend buf' = blen buf - used buf"
proof -
  note P = page_okD[OF assms] and C = cells_of_facts[OF assms]
  let ?n = "nslots buf" and ?cs = "cells_of buf [0..<nslots buf]"
  define e where "e = blen buf - used buf"
  have sp: "4 * ?n \<le> e" "e + used buf = blen buf" using used_le[OF assms] P(4,5) by (simp_all add: e_def)
  obtain b where r: "rewrite buf ?cs (int (blen buf)) = Some (b, int e)" and l: "length b = length buf" "hdr b = hdr buf"
    and v: "\<And>i. i < ?n \<Longrightarrow> view (read_entry b i) = view (read_entry buf i) \<and> esize (read_entry b i) = esize (read_entry buf i)"
    and pl: "\<And>i. i < ?n \<Longrightarrow> read_entry b i = EDead \<or> (i, read_entry b i) \<in> set (placed (blen buf) ?cs)"
    using rewrite_entries[OF assms] unfolding e_def by blast
  let ?h = "(hdr buf)\<lparr>FreeEnd := of_nat e\<rparr>" and ?es = "map (read_entry b) [0..<nslots buf]"
  have fe: "unat (of_nat e :: u16) = e" using P(1,2) sp by (intro unat_of_nat_id) simp
  have "within e (blen buf) (read_entry b i)" if "i < ?n" for i
    using pl[OF that] placed_within[of ?cs e "blen buf" ?n i "read_entry b i"] sp C(1,2) by (auto simp: e_def)
  moreover have "apart (read_entry b i) (read_entry b j)" if "i < ?n" "j < ?n" "i \<noteq> j" for i j
    using pl[OF that(1)] pl[OF that(2)] placed_apart[OF _ C(2), of "blen buf"] sp C(1) that
      placed_lookup[OF C(3), of "blen buf" i "read_entry b i" j "read_entry b j"]
    by (auto simp: apart_sym)
  ultimately have ok: "page_ok (put_hdr b ?h)" "entries (put_hdr b ?h) = ?es"
    using P l sp by (auto simp: fe read_entry_put_hdr intro!: page_okI[where h = ?h and es = ?es])
  moreover have "Compact buf = Some (put_hdr b ?h)"
    using snapshot_cells[OF assms, of "[0..<?n]"] P(1) r l
    by (simp add: Compact_def SlotCount_def DecodePageHeader_hdr bodyLen_def setHeader_Some of_nat_diff)
  moreover have "slots (put_hdr b ?h) = slots buf" "used (put_hdr b ?h) = used buf"
    using v by (auto simp: slots_def used_def ok(2) entries_def[of buf] intro!: arg_cong[of _ _ sum_list])
  ultimately show ?thesis using that[of "put_hdr b ?h"] P(1) l fe by (simp add: e_def)
qed

section \<open>Operations on one slot\<close>

lemma update_entry_ok:
  assumes "page_ok buf" "i < nslots buf" "length buf' = length buf"
    and "nslots buf' = nslots buf" "FreeStart (hdr buf') = FreeStart (hdr buf)"
    and "4 * nslots buf \<le> fend buf'" "fend buf' \<le> fend buf"
    and "\<And>j. j < nslots buf \<Longrightarrow> j \<noteq> i \<Longrightarrow> read_entry buf' j = read_entry buf j"
    and "within (fend buf') (blen buf) (read_entry buf' i)"
    and "\<And>j. j < nslots buf \<Longrightarrow> j \<noteq> i \<Longrightarrow> apart (read_entry buf' i) (read_entry buf j)"
  shows "page_ok buf'" and "slots buf' = (slots buf)[i := view (read_entry buf' i)]"
proof -
  note P = page_okD[OF assms(1)]
  let ?es = "(entries buf)[i := read_entry buf' i]"
  have len: "length ?es = nslots buf" by (simp add: entries_def)
  have nth: "?es ! j = read_entry buf' j" if "j < nslots buf" for j
    using that assms(2,8) by (cases "j = i") (simp_all add: entries_def)
  have w: "within (fend buf') (blen buf) (read_entry buf' j)" if "j < nslots buf" for j
    using that assms(7-9) P(8)[OF that] within_mono by (cases "j = i") auto
  have ap: "apart (read_entry buf' j) (read_entry buf' k)" if "j < nslots buf" "k < nslots buf" "j \<noteq> k" for j k
    using that assms(8,10) P(9) apart_sym by (cases "j = i"; cases "k = i") metis+
  have "page_ok buf' \<and> entries buf' = ?es"
    using P assms(3-7) nth w ap len by (intro conjI page_okI[where h = "hdr buf'" and es = ?es]) auto
  then show "page_ok buf'" "slots buf' = (slots buf)[i := view (read_entry buf' i)]"
    by (simp_all add: slots_def map_update)
qed

lemma append_entry_ok:
  assumes "page_ok buf" "length buf' = length buf" "nslots buf' = nslots buf + 1"
    and "unat (FreeStart (hdr buf')) = 4 * (nslots buf + 1)"
    and "4 * (nslots buf + 1) \<le> fend buf'" "fend buf' \<le> fend buf"
    and "\<And>j. j < nslots buf \<Longrightarrow> read_entry buf' j = read_entry buf j"
    and "within (fend buf') (blen buf) (read_entry buf' (nslots buf))"
    and "\<And>j. j < nslots buf \<Longrightarrow> apart (read_entry buf' (nslots buf)) (read_entry buf j)"
  shows "page_ok buf'" and "slots buf' = slots buf @ [view (read_entry buf' (nslots buf))]"
proof -
  note P = page_okD[OF assms(1)]
  let ?es = "entries buf @ [read_entry buf' (nslots buf)]"
  have len: "length ?es = nslots buf + 1" by (simp add: entries_def)
  have nth: "?es ! j = read_entry buf' j" if "j < nslots buf + 1" for j
    using that assms(7) by (cases "j = nslots buf") (simp_all add: entries_def nth_append)
  have w: "within (fend buf') (blen buf) (read_entry buf' j)" if "j < nslots buf + 1" for j
    using that assms(6-8) P(8)[of j] within_mono by (cases "j = nslots buf") auto
  have ap: "apart (read_entry buf' j) (read_entry buf' k)"
    if "j < nslots buf + 1" "k < nslots buf + 1" "j \<noteq> k" for j k
  proof -
    have jk: "j = nslots buf \<or> j < nslots buf" "k = nslots buf \<or> k < nslots buf" using that by auto
    then show ?thesis using that(3) assms(7,9) P(9) apart_sym by metis
  qed
  have "page_ok buf' \<and> entries buf' = ?es"
    using P assms(2-6) nth w ap len by (intro conjI page_okI[where h = "hdr buf'" and es = ?es]) auto
  then show "page_ok buf'" "slots buf' = slots buf @ [view (read_entry buf' (nslots buf))]"
    by (simp_all add: slots_def)
qed

text \<open>Writing a new cell into the gap below \<open>fend\<close>: what the three placing operations share.\<close>

lemma gap_write:
  assumes "page_ok buf" "length d \<le> fend buf" "4 * n \<le> fend buf - length d" "nslots buf \<le> n" "i < n" "f \<longrightarrow> length d = 8"
  defines "b \<equiv> write_cell buf i f (fend buf - length d) d"
  shows "length b = length buf" "hdr b = hdr buf" "read_entry b i = ECell f (fend buf - length d) d"
    "j < nslots buf \<Longrightarrow> j \<noteq> i \<Longrightarrow> read_entry b j = read_entry buf j"
    "j < nslots buf \<Longrightarrow> apart (ECell f (fend buf - length d) d) (read_entry buf j)"
    "within (fend buf - length d) (blen buf) (ECell f (fend buf - length d) d)"
proof -
  note P = page_okD[OF assms(1)]
  let ?off = "fend buf - length d"
  have sp: "?off + length d \<le> blen buf" "?off + length d = fend buf" using assms(2) P(5) by auto
  note W = write_cell_facts[OF P(1,2) assms(3) sp(1) assms(5,6)]
  show "length b = length buf" "hdr b = hdr buf" "read_entry b i = ECell f ?off d"
    using W(1-3) by (simp_all add: b_def)
  show "within ?off (blen buf) (ECell f ?off d)" using sp assms(6) by simp
  show "apart (ECell f ?off d) (read_entry buf j)" if j: "j < nslots buf"
    using P(8)[OF j] sp(2) by (cases "read_entry buf j") auto
  show "read_entry b j = read_entry buf j" if j: "j < nslots buf" "j \<noteq> i"
    using P(1) P(8)[OF j(1)] W(4)[of j] W(5) sp(2) assms(4) j unfolding b_def
    by (intro read_entry_keep[where e = "fend buf"]) auto
qed

lemma in_range_ok: "page_ok buf \<Longrightarrow> in_range buf i = Some (0 \<le> i \<and> i < int (nslots buf))"
  using page_okD(1)[of buf] by (auto simp: in_range_def SlotCount_def DecodePageHeader_hdr)

lemma length_slots [simp]: "length (slots buf) = nslots buf"
  by (simp add: slots_def entries_def)

lemma nth_slots: "i < nslots buf \<Longrightarrow> slots buf ! i = view (read_entry buf i)"
  by (simp add: slots_def entries_def)

lemma slotAt_ok: "page_ok buf \<Longrightarrow> i < nslots buf \<Longrightarrow> slotAt buf i = Some (rd_slot buf i)"
  using slotAt_Some[of buf i] page_okD(1,7) by blast

lemma write_cell_ops:
  assumes "36 \<le> length buf" "4 * i + 4 \<le> off" "off + length d \<le> blen buf"
  shows "copy_body buf (int off) d = Some (put_body buf off d)"
    "setSlot (put_body buf off d) i (of_nat off) (of_nat (length d)) = Some (write_cell buf i False off d)"
    "setSlot (put_body buf off d) i cellOffsetForward (of_nat off) = Some (write_cell buf i True off d)"
  using assms by (simp_all add: copy_body_Some setSlot_Some write_cell_def slot_words_def)

lemma put_hdr_read:
  "36 \<le> length b \<Longrightarrow> read_entry (put_hdr b h) j = read_entry b j \<and> hdr (put_hdr b h) = h \<and> length (put_hdr b h) = length b"
  by (simp add: read_entry_put_hdr)

definition place :: "bytes \<Rightarrow> nat \<Rightarrow> bool \<Rightarrow> bytes \<Rightarrow> bytes" where
  "place buf i f d = put_hdr (write_cell buf i f (fend buf - length d) d)
     ((hdr buf)\<lparr>FreeEnd := of_nat (fend buf - length d)\<rparr>)"

lemma fend_word: "page_ok buf \<Longrightarrow> unat (of_nat (fend buf - m) :: u16) = fend buf - m"
  using page_okD(1,2,5)[of buf] by (intro unat_of_nat_id) simp

text \<open>Placing a cell under an existing slot number.\<close>

lemma place_ok:
  assumes "page_ok buf" "i < nslots buf" "length d \<le> fend buf" "4 * nslots buf \<le> fend buf - length d" "f \<longrightarrow> length d = 8"
  shows "page_ok (place buf i f d)" "slots (place buf i f d) = (slots buf)[i := view (ECell f 0 d)]"
    "length (place buf i f d) = length buf"
proof -
  note G = gap_write[OF assms(1,3,4) order_refl assms(2,5)] and P = page_okD[OF assms(1)]
  let ?b = "write_cell buf i f (fend buf - length d) d"
  have r: "read_entry (place buf i f d) j = read_entry ?b j" for j
    using G(1) P(1) by (simp add: place_def read_entry_put_hdr)
  have h: "hdr (place buf i f d) = (hdr buf)\<lparr>FreeEnd := of_nat (fend buf - length d)\<rparr>"
    and l: "length (place buf i f d) = length buf"
    using G(1) P(1) by (simp_all add: place_def)
  have "view (ECell f (fend buf - length d) d) = view (ECell f 0 d)" by (cases f) simp_all
  then show "page_ok (place buf i f d)" "slots (place buf i f d) = (slots buf)[i := view (ECell f 0 d)]"
    using update_entry_ok[OF assms(1,2) l] G(3-6) assms(4) fend_word[OF assms(1)] by (simp_all add: r h)
  show "length (place buf i f d) = length buf" by (rule l)
qed

lemma sum_kill: "i < length es \<Longrightarrow> sum_list (map esize (es[i := EDead])) + esize (es ! i) = sum_list (map esize es)"
  by (induction es arbitrary: i) (auto simp: nth_Cons split: nat.split)

lemma nth_entries: "i < nslots buf \<Longrightarrow> entries buf ! i = read_entry buf i" "length (entries buf) = nslots buf"
  by (simp_all add: entries_def)

text \<open>Killing a slot frees its cell.\<close>

lemma kill_ok:
  assumes "page_ok buf" "i < nslots buf"
  defines "b \<equiv> put_slot buf i cellOffsetDead 0"
  shows "setSlot buf i cellOffsetDead 0 = Some b" "page_ok b" "slots b = (slots buf)[i := Dead]"
    "length b = length buf" "hdr b = hdr buf" "used b + esize (read_entry buf i) = used buf"
proof -
  note P = page_okD[OF assms(1)]
  show "setSlot buf i cellOffsetDead 0 = Some b" using P(1) P(7)[OF assms(2)] by (simp add: setSlot_Some b_def)
  show l: "length b = length buf" "hdr b = hdr buf" using P(1) P(7)[OF assms(2)] by (simp_all add: b_def)
  have k: "read_entry b i = EDead" using P(1) P(7)[OF assms(2)] by (simp add: b_def read_entry_def)
  have o: "read_entry b j = read_entry buf j" if "j < nslots buf" "j \<noteq> i" for j
    unfolding b_def using P(1) P(7)[OF assms(2)] P(7)[OF that(1)] P(8)[OF that(1)] P(6)[OF assms(2)] that
    by (intro read_entry_put_slot) (auto intro: within_mono)
  show "page_ok b" "slots b = (slots buf)[i := Dead]"
    using update_entry_ok[OF assms(1,2) l(1)] l(2) P(4) k o by simp_all
  have "entries b = (entries buf)[i := EDead]"
    using k o l(2) assms(2) by (auto simp: entries_def nth_list_update intro!: nth_equalityI)
  then show "used b + esize (read_entry buf i) = used buf"
    using sum_kill[of i "entries buf"] assms(2) by (simp add: used_def nth_entries)
qed

lemma FreeBytes_ok: "page_ok buf \<Longrightarrow> FreeBytes buf = Some (int (fend buf) - int (4 * nslots buf))"
  by (simp only: FreeBytes_def DecodePageHeader_hdr page_okD(1,3) option.map)

declare of_nat_unat [simp del]

lemma bodyLen_ok: "page_ok buf \<Longrightarrow> bodyLen buf = int (blen buf)"
  using page_okD(1)[of buf] by (simp add: bodyLen_def)

text \<open>The tail of \<^verbatim>\<open>AddCell\<close>, once the gap is large enough.\<close>

lemma add_in_gap:
  assumes "page_ok buf" "4 * nslots buf + length p + 4 \<le> fend buf"
  obtains buf' where "append_cell buf p = Some (buf', nslots buf)" "page_ok buf'"
    "slots buf' = slots buf @ [Live p]" "length buf' = length buf"
proof -
  define off where "off = fend buf - length p"
  let ?n = "nslots buf"
  note P = page_okD[OF assms(1)]
  have sp: "length p \<le> fend buf" "4 * (?n + 1) \<le> off" "4 * ?n + 4 \<le> off" "off + length p \<le> blen buf"
    using assms(2) P(5) by (auto simp: off_def)
  note G = gap_write[OF assms(1) sp(1), folded off_def, OF sp(2), of ?n False, simplified]
    and W = write_cell_ops[OF P(1) sp(3,4)]
  let ?b = "write_cell buf ?n False off p"
  let ?h = "(hdr buf)\<lparr>EntryCount := EntryCount (hdr buf) + 1, FreeStart := FreeStart (hdr buf) + 4, FreeEnd := of_nat off\<rparr>"
  have cell: "int (fend buf) - int (length p) = int off" using sp by (simp add: off_def)
  have small: "4 * ?n + 4 \<le> 65500" using assms(2) P(1,2,5) by simp
  have n1: "unat (EntryCount (hdr buf) + 1) = ?n + 1" using small by (subst unat_word_ariths) simp
  have f1: "unat (FreeStart (hdr buf) + 4) = 4 * (?n + 1)" using small P(3) by (subst unat_word_ariths) simp
  have o1: "unat (of_nat off :: u16) = off" using fend_word[OF assms(1), of "length p"] by (simp only: off_def)
  have "off \<le> fend buf" by (simp add: off_def)
  have r: "read_entry (put_hdr ?b ?h) j = read_entry ?b j" for j using G(1) P(1) by (simp add: read_entry_put_hdr)
  have ok: "page_ok (put_hdr ?b ?h)" "slots (put_hdr ?b ?h) = slots buf @ [Live p]"
    using append_entry_ok[OF assms(1), of "put_hdr ?b ?h"] G P(1) sp(2) \<open>off \<le> fend buf\<close>
    by (simp_all add: r n1 f1 o1)
  have "append_cell buf p = Some (put_hdr ?b ?h, ?n)"
    using G(1,2) P(1) W(1,2) unfolding append_cell_def DecodePageHeader_hdr[OF P(1)] Let_def Option.bind.bind_lunit cell
    by (simp add: setHeader_Some)
  then show ?thesis using that ok G(1) P(1) by simp
qed

lemma make_room_ok:
  assumes "page_ok buf" "4 * nslots buf + used buf + m \<le> blen buf"
  obtains b where "make_room buf (int m) = Some (Inr b)" "page_ok b" "slots b = slots buf" "length b = length buf"
    "4 * nslots b + m \<le> fend b"
proof (cases "4 * nslots buf + m \<le> fend buf")
  case True
  then show ?thesis using that[of buf] assms(1) by (simp add: make_room_def FreeBytes_ok)
next
  case False
  obtain b where b: "Compact buf = Some b" "page_ok b" "slots b = slots buf" "length b = length buf"
    "fend b = blen buf - used buf"
    using Compact_ok[OF assms(1)] by metis
  have "nslots b = nslots buf" using b(3) by (metis length_slots)
  then show ?thesis using that[of b] b assms False
    by (simp add: make_room_def FreeBytes_ok liveTotal_used bodyLen_ok)
qed

lemma make_room_full:
  assumes "page_ok buf" "blen buf < 4 * nslots buf + used buf + m"
  shows "make_room buf (int m) = Some (Inl ErrNoSpace)"
proof -
  have "int (fend buf) - int (4 * nslots buf) < int m"
    using assms(2) used_le[OF assms(1)] page_okD(5)[OF assms(1)] by linarith
  moreover have "int (blen buf) - int (4 * nslots buf + used buf) < int m" using assms(2) by linarith
  ultimately show ?thesis
    by (simp only: make_room_def FreeBytes_ok[OF assms(1)] liveTotal_used[OF assms(1)] bodyLen_ok[OF assms(1)]
        Option.bind.bind_lunit if_True)
qed

definition fits :: "bytes \<Rightarrow> bytes \<Rightarrow> bool" where
  "fits buf p \<longleftrightarrow> length p \<le> maxCellLen \<and> 4 * nslots buf + used buf + length p + 4 \<le> blen buf"

lemma AddCell_full: "page_ok buf \<Longrightarrow> \<not> fits buf p \<Longrightarrow> AddCell buf p = Some (Inl ErrNoSpace)"
  using make_room_full[of buf "length p + 4"] by (auto simp: AddCell_def fits_def)

lemma AddCell_ok:
  assumes "page_ok buf" "fits buf p"
  obtains buf' where "AddCell buf p = Some (Inr (buf', nslots buf))" "page_ok buf'"
    "slots buf' = slots buf @ [Live p]" "length buf' = length buf"
proof -
  have p: "\<not> length p > maxCellLen" and sp: "4 * nslots buf + used buf + (length p + 4) \<le> blen buf"
    using assms(2) by (auto simp: fits_def)
  obtain b where b: "make_room buf (int (length p + 4)) = Some (Inr b)" "page_ok b" "slots b = slots buf"
    "length b = length buf" "4 * nslots b + (length p + 4) \<le> fend b"
    using make_room_ok[OF assms(1) sp] by metis
  have n: "nslots b = nslots buf" using b(3) by (metis length_slots)
  have "4 * nslots b + length p + 4 \<le> fend b" using b(5) by simp
  then obtain b' where b': "append_cell b p = Some (b', nslots b)" "page_ok b'"
    "slots b' = slots b @ [Live p]" "length b' = length b" by (rule add_in_gap[OF b(2)])
  have "AddCell buf p = Some (Inr (b', nslots buf))"
    unfolding AddCell_def b(1) using p b'(1) n by (simp only: if_False Option.bind.bind_lunit sum.case option.map)
  then show ?thesis using that b' b(3,4) by simp
qed

text \<open>A live slot and a forwarding slot, read from the buffer.\<close>

lemma slots_live:
  assumes "page_ok buf" "i < nslots buf" "slots buf ! i = Live d"
  obtains q l where "rd_slot buf i = (q, l)" "q \<noteq> cellOffsetDead" "q \<noteq> cellOffsetForward"
    "unat q + unat l \<le> blen buf" "fend buf \<le> unat q" "d = rd_body buf (unat q) (unat l)" "length d = unat l"
    "read_entry buf i = ECell False (unat q) d"
  using page_okD(8)[OF assms(1,2)] page_okD(1)[OF assms(1)]
  by (cases rule: read_entry_cases) (use assms that page_okD(1)[OF assms(1)] in \<open>auto simp: nth_slots\<close>)

lemma slots_not_live:
  assumes "page_ok buf" "i < nslots buf" "\<And>d. slots buf ! i \<noteq> Live d"
  obtains q l where "rd_slot buf i = (q, l)" "q = cellOffsetDead \<or> q = cellOffsetForward"
  using page_okD(8)[OF assms(1,2)] page_okD(1)[OF assms(1)]
  by (cases rule: read_entry_cases) (use assms that in \<open>auto simp: nth_slots\<close>)

lemma Cell_ok:
  assumes "page_ok buf"
  shows "Cell buf i = Some (if i < 0 \<or> i \<ge> int (nslots buf) then Inl ErrBadSlot
    else case slots buf ! nat i of Live d \<Rightarrow> Inr d | _ \<Rightarrow> Inl ErrSlotDead)"
proof (cases "0 \<le> i \<and> i < int (nslots buf)")
  case True
  then have i: "nat i < nslots buf" by linarith
  note s = slotAt_ok[OF assms i] and P = page_okD[OF assms]
  show ?thesis
  proof (cases "\<exists>d. slots buf ! nat i = Live d")
    case live: True
    then obtain d where d: "slots buf ! nat i = Live d" by blast
    show ?thesis
      by (rule slots_live[OF assms i d])
        (use True P(1) d in \<open>simp add: Cell_def in_range_ok[OF assms] s body_Some slice_body\<close>)
  next
    case False
    then obtain q l where "rd_slot buf (nat i) = (q, l)" "q = cellOffsetDead \<or> q = cellOffsetForward"
      using slots_not_live[OF assms i] by metis
    then show ?thesis using True False by (auto simp: Cell_def in_range_ok[OF assms] s split: slot.split)
  qed
qed (auto simp: Cell_def in_range_ok[OF assms])

text \<open>Overwriting a cell in place, with a payload that fits in it.\<close>

lemma overwrite_body:
  assumes "page_ok buf" "i < nslots buf" "read_entry buf i = ECell g off d0" "length d \<le> length d0"
  shows "4 * nslots buf \<le> off" "off + length d \<le> blen buf" "4 * i + 4 \<le> off"
    "j < nslots buf \<Longrightarrow> j \<noteq> i \<Longrightarrow> apart (ECell f off d) (read_entry buf j)"
    "j < nslots buf \<Longrightarrow> j \<noteq> i \<Longrightarrow> read_entry (put_body buf off d) j = read_entry buf j"
proof -
  note P = page_okD[OF assms(1)]
  show sp: "4 * nslots buf \<le> off" "off + length d \<le> blen buf" "4 * i + 4 \<le> off"
    using P(8)[OF assms(2)] P(4) P(6)[OF assms(2)] assms(3,4) by simp_all
  show ap: "apart (ECell f off d) (read_entry buf j)" if "j < nslots buf" "j \<noteq> i" for j f
    using P(9)[OF assms(2) that(1)] that assms(3,4) by (cases "read_entry buf j") auto
  show "read_entry (put_body buf off d) j = read_entry buf j" if "j < nslots buf" "j \<noteq> i"
    using ap[OF that, of False] sp P(1) P(8)[OF that(1)] that
    by (intro read_entry_put_body[where f = False and l = "fend buf"]) (auto simp: apart_sym)
qed

lemma overwrite_same:
  assumes "page_ok buf" "i < nslots buf" "rd_slot buf i = (q, l)" "read_entry buf i = ECell False (unat q) d0"
    and "unat l = length d" "length d = length d0" "q \<noteq> cellOffsetDead" "q \<noteq> cellOffsetForward"
  shows "page_ok (put_body buf (unat q) d)" "slots (put_body buf (unat q) d) = (slots buf)[i := Live d]"
    "length (put_body buf (unat q) d) = length buf"
proof -
  note P = page_okD[OF assms(1)] and O = overwrite_body[OF assms(1,2,4), of d]
  have r: "read_entry (put_body buf (unat q) d) i = ECell False (unat q) d"
    using assms O(2,3) P(1) rd_body_put(2)[of "unat q" d buf] by (simp add: read_entry_def)
  have w: "within (fend buf) (blen buf) (ECell False (unat q) d)"
    using P(8)[OF assms(2)] assms(4,6) by simp
  show "length (put_body buf (unat q) d) = length buf" using O(2) P(1) assms(6) by simp
  then show "page_ok (put_body buf (unat q) d)" "slots (put_body buf (unat q) d) = (slots buf)[i := Live d]"
    using update_entry_ok[OF assms(1,2), of "put_body buf (unat q) d"] O(2,4,5) P(1,4) w assms(6) by (simp_all add: r)
qed

lemma overwrite_forward:
  assumes "page_ok buf" "i < nslots buf" "read_entry buf i = ECell g off d0" "length d = 8" "8 \<le> length d0"
  shows "page_ok (write_cell buf i True off d)" "slots (write_cell buf i True off d) = (slots buf)[i := view (ECell True 0 d)]"
    "length (write_cell buf i True off d) = length buf"
proof -
  note P = page_okD[OF assms(1)] and O = overwrite_body[OF assms(1-3), of d]
  have le: "length d \<le> length d0" using assms(4,5) by simp
  note W = write_cell_facts[OF P(1,2) O(1)[OF le] O(2)[OF le] assms(2), of True]
  have o: "read_entry (write_cell buf i True off d) j = read_entry buf j" if j: "j < nslots buf" "j \<noteq> i" for j
  proof -
    let ?b = "put_body buf off d"
    have "within (4 * i + 4) (blen ?b) (read_entry ?b j)"
      using O(5)[OF le j] P(8)[OF j(1)] P(6)[OF assms(2)] O(2)[OF le] P(1) by (auto intro: within_mono)
    then have "read_entry (put_slot ?b i x y) j = read_entry ?b j" for x y
      using O(2)[OF le] P(1) P(7)[OF assms(2)] P(7)[OF j(1)] j by (intro read_entry_put_slot) auto
    then show ?thesis using O(5)[OF le j] by (simp add: write_cell_def slot_words_def)
  qed
  have w: "within (fend buf) (blen buf) (ECell True off d)" using P(8)[OF assms(2)] assms(3-5) by simp
  show "length (write_cell buf i True off d) = length buf" using W(1) assms(4) by simp
  then show "page_ok (write_cell buf i True off d)"
    "slots (write_cell buf i True off d) = (slots buf)[i := view (ECell True 0 d)]"
    using update_entry_ok[OF assms(1,2), of "write_cell buf i True off d"] W(2,3) O(4)[OF le] o P(4) w assms(4)
    by simp_all
qed

text \<open>The specification of an operation on slot \<open>i\<close>: out of range and dead slots are errors, and
  otherwise the slot takes the new value.\<close>

definition updates :: "bytes \<Rightarrow> nat \<Rightarrow> slot \<Rightarrow> bytes \<Rightarrow> bool" where
  "updates buf i v buf' \<longleftrightarrow> page_ok buf' \<and> slots buf' = (slots buf)[i := v] \<and> length buf' = length buf"

lemma nat_range: "0 \<le> i \<Longrightarrow> i < int n \<Longrightarrow> nat i < n"
  by linarith

lemma DeleteCell_ok:
  assumes "page_ok buf"
  shows "i < 0 \<or> i \<ge> int (nslots buf) \<Longrightarrow> DeleteCell buf i = Some (Inl ErrBadSlot)"
    and "0 \<le> i \<Longrightarrow> i < int (nslots buf) \<Longrightarrow> \<exists>buf'. DeleteCell buf i = Some (Inr buf') \<and> updates buf (nat i) Dead buf'"
  using kill_ok[OF assms nat_range] by (auto simp: DeleteCell_def in_range_ok[OF assms] updates_def)

lemma UpdateInPlace_ok:
  assumes "page_ok buf" "0 \<le> i" "i < int (nslots buf)" "slots buf ! nat i = Live d0"
  shows "length p \<noteq> length d0 \<Longrightarrow> UpdateInPlace buf i p = Some (Inl ErrNoSpace)"
    and "length p = length d0 \<Longrightarrow> \<exists>buf'. UpdateInPlace buf i p = Some (Inr buf') \<and> updates buf (nat i) (Live p) buf'"
proof -
  note i = nat_range[OF assms(2,3)] and P = page_okD[OF assms(1)]
  obtain q l where s: "rd_slot buf (nat i) = (q, l)" and q: "q \<noteq> cellOffsetDead" "q \<noteq> cellOffsetForward"
    and b: "unat q + unat l \<le> blen buf" and d: "length d0 = unat l"
    and r: "read_entry buf (nat i) = ECell False (unat q) d0"
    by (rule slots_live[OF assms(1) i assms(4)])
  note S = slotAt_ok[OF assms(1) i, unfolded s] in_range_ok[OF assms(1)]
  show "length p \<noteq> length d0 \<Longrightarrow> UpdateInPlace buf i p = Some (Inl ErrNoSpace)"
    using assms(2,3) q d by (simp add: UpdateInPlace_def S)
  assume p: "length p = length d0"
  then have "UpdateInPlace buf i p = Some (Inr (put_body buf (unat q) p))"
    using assms(2,3) q d b P(1) by (simp add: UpdateInPlace_def S copy_body_Some)
  then show "\<exists>buf'. UpdateInPlace buf i p = Some (Inr buf') \<and> updates buf (nat i) (Live p) buf'"
    using overwrite_same[OF assms(1) i s r] p d q by (simp add: updates_def)
qed

lemma rewrite_slot_place:
  assumes "page_ok b" "i < nslots b" "4 * nslots b + length p \<le> fend b"
  shows "rewrite_slot b i p = Some (place b i False p)"
proof -
  define off where "off = fend b - length p"
  note P = page_okD[OF assms(1)]
  have sp: "4 * i + 4 \<le> off" "off + length p \<le> blen b" "int (fend b) - int (length p) = int off"
    "4 * nslots b \<le> off" using assms(2,3) P(5) by (auto simp: off_def)
  note W = write_cell_ops[OF P(1) sp(1,2)]
  have h: "hdr (write_cell b i False off p) = hdr b" "length (write_cell b i False off p) = length b"
    using write_cell_facts(1,2)[OF P(1,2) sp(4,2) assms(2), of False] by simp_all
  show ?thesis unfolding rewrite_slot_def DecodePageHeader_hdr[OF P(1)] Let_def Option.bind.bind_lunit sp(3)
    using W(1,2) h P(1) by (simp add: setHeader_Some place_def flip: off_def)
qed

definition fits_replace :: "bytes \<Rightarrow> bytes \<Rightarrow> bytes \<Rightarrow> bool" where
  "fits_replace buf d0 p \<longleftrightarrow> length p \<le> maxCellLen
     \<and> (length p = length d0 \<or> 4 * nslots buf + used buf + length p \<le> blen buf + length d0)"

text \<open>The second half of \<^verbatim>\<open>ReplaceCell\<close>, after the old cell was dropped.\<close>

lemma replace_room:
  assumes "page_ok buf" "i < nslots buf" "4 * nslots buf + used buf + length p \<le> blen buf"
  obtains b where "(if int (fend buf) - int (4 * nslots buf) < int (length p) then Compact buf else Some buf) = Some b"
    "page_ok b" "slots b = slots buf" "length b = length buf" "4 * nslots b + length p \<le> fend b"
proof (cases "4 * nslots buf + length p \<le> fend buf")
  case True
  then show ?thesis using that[of buf] assms(1) by simp
next
  case False
  obtain b where b: "Compact buf = Some b" "page_ok b" "slots b = slots buf" "length b = length buf"
    "fend b = blen buf - used buf"
    using Compact_ok[OF assms(1)] by metis
  have "nslots b = nslots buf" using b(3) by (metis length_slots)
  then show ?thesis using that[of b] b assms False by simp
qed

lemma ReplaceCell_ok:
  assumes "page_ok buf" "0 \<le> i" "i < int (nslots buf)" "slots buf ! nat i = Live d0"
  shows "\<not> fits_replace buf d0 p \<Longrightarrow> ReplaceCell buf i p = Some (Inl ErrNoSpace)"
    and "fits_replace buf d0 p \<Longrightarrow> \<exists>buf'. ReplaceCell buf i p = Some (Inr buf') \<and> updates buf (nat i) (Live p) buf'"
proof -
  note i = nat_range[OF assms(2,3)] and P = page_okD[OF assms(1)]
  obtain q l where s: "rd_slot buf (nat i) = (q, l)" and q: "q \<noteq> cellOffsetDead" "q \<noteq> cellOffsetForward"
    and b: "unat q + unat l \<le> blen buf" and d: "length d0 = unat l"
    and r: "read_entry buf (nat i) = ECell False (unat q) d0"
    by (rule slots_live[OF assms(1) i assms(4)])
  note S = slotAt_ok[OF assms(1) i, unfolded s] in_range_ok[OF assms(1)] liveTotal_used[OF assms(1)]
    bodyLen_ok[OF assms(1)]
  show "\<not> fits_replace buf d0 p \<Longrightarrow> ReplaceCell buf i p = Some (Inl ErrNoSpace)"
    using assms(2,3) q d by (auto simp: ReplaceCell_def S fits_replace_def)
  assume f: "fits_replace buf d0 p"
  show "\<exists>buf'. ReplaceCell buf i p = Some (Inr buf') \<and> updates buf (nat i) (Live p) buf'"
  proof (cases "length p = length d0")
    case True
    then have "ReplaceCell buf i p = Some (Inr (put_body buf (unat q) p))"
      using assms(2,3) q d b P(1) f by (simp add: ReplaceCell_def S copy_body_Some fits_replace_def)
    then show ?thesis using overwrite_same[OF assms(1) i s r] True d q by (simp add: updates_def)
  next
    case False
    note K = kill_ok[OF assms(1) i]
    let ?k = "put_slot buf (nat i) cellOffsetDead 0"
    have n: "nslots ?k = nslots buf" using K(5) by simp
    have sp: "4 * nslots ?k + used ?k + length p \<le> blen ?k"
      using f False K(4,5,6) r by (simp add: fits_replace_def)
    obtain b where b: "(if int (fend ?k) - int (4 * nslots ?k) < int (length p) then Compact ?k else Some ?k) = Some b"
      "page_ok b" "slots b = slots ?k" "length b = length ?k" "4 * nslots b + length p \<le> fend b"
      using replace_room[OF K(2) _ sp] i n by metis
    have nb: "nat i < nslots b" using b(3) n i by (metis length_slots)
    have "ReplaceCell buf i p = Some (Inr (place b (nat i) False p))"
      using assms(2,3) q d f False K(1) b(1) rewrite_slot_place[OF b(2) nb b(5)]
      by (simp add: ReplaceCell_def S fits_replace_def FreeBytes_ok[OF K(2)])
    moreover have "updates buf (nat i) (Live p) (place b (nat i) False p)"
      using place_ok[OF b(2) nb, of p False] b(3-5) K(3,4) by (simp add: updates_def)
    ultimately show ?thesis by blast
  qed
qed

definition target :: "u32 \<Rightarrow> u16 \<Rightarrow> bytes" where
  "target p s = le_put 4 p @ le_put 2 s @ le_put 2 (0 :: u16)"

lemma target_view [simp]: "length (target p s) = 8" "get32 (target p s) 0 = p" "get16 (target p s) 4 = s"
  by (simp_all add: target_def sub_def)

lemma write_target_cell:
  assumes "36 \<le> length buf" "4 * i + 4 \<le> off" "off + 8 \<le> blen buf"
  shows "write_target buf i (int off) p s = Some (write_cell buf i True off (target p s))"
proof -
  have add: "int off + 4 = int (off + 4)" "int off + 6 = int (off + 6)" by simp_all
  have m: "put_body (put_body (put_body buf off (le_put 4 p)) (off + 4) (le_put 2 s)) (off + 6) (le_put 2 (0 :: u16))
    = put_body buf off (target p s)"
    using assms write_at_merge[of "32 + off" "le_put 4 p" "le_put 2 s" buf]
      write_at_merge[of "32 + off" "le_put 4 p @ le_put 2 s" "le_put 2 (0 :: u16)" buf]
    by (simp add: put_body_def target_def add.assoc)
  show ?thesis unfolding write_target_def add
    using assms write_cell_ops(3)[OF assms(1,2), of "target p s"] by (simp add: copy_body_Some m del: of_nat_add)
qed

text \<open>A forwarding target needs no room when the slot holds a live cell of eight bytes or more.\<close>

definition fits_forward :: "bytes \<Rightarrow> nat \<Rightarrow> bool" where
  "fits_forward buf i \<longleftrightarrow> (\<exists>d. slots buf ! i = Live d \<and> 8 \<le> length d) \<or> 4 * nslots buf + used buf + 8 \<le> blen buf"

lemma write_at_commute:
  "p + length x \<le> q \<Longrightarrow> q + length y \<le> length b \<Longrightarrow> write_at (write_at b p x) q y = write_at (write_at b q y) p x"
  by (rule nth_equalityI) (auto simp: nth_write_at)

lemma write_cell_put_hdr:
  assumes "36 \<le> length b" "4 * i + 4 \<le> blen b" "off + length d \<le> blen b"
  shows "write_cell (put_hdr b h) i f off d = put_hdr (write_cell b i f off d) h"
  using assms write_at_commute[of 0 "header_bytes h" "32 + off" d b]
    write_at_commute[of 0 "header_bytes h" "32 + 4 * i" _ "write_at b (32 + off) d"]
  by (auto simp: write_cell_def put_hdr_def put_body_def put_slot_def slot_words_def)

lemma forward_fresh:
  assumes "page_ok b" "i < nslots b" "4 * nslots b + 8 \<le> fend b"
  shows "fresh_target b i p s = Some (place b i True (target p s))"
proof -
  define off where "off = fend b - 8"
  note P = page_okD[OF assms(1)]
  have sp: "4 * i + 4 \<le> off" "off + 8 \<le> blen b" "int (fend b) - int 8 = int off"
    using assms(2,3) P(5) by (auto simp: off_def)
  let ?b = "put_hdr b ((hdr b)\<lparr>FreeEnd := of_nat off\<rparr>)"
  have "write_target ?b i (int off) p s = Some (write_cell ?b i True off (target p s))"
    using sp P(1) by (intro write_target_cell) simp_all
  also have "write_cell ?b i True off (target p s) = place b i True (target p s)"
    using sp P(1) by (simp add: write_cell_put_hdr place_def off_def)
  finally show ?thesis
    unfolding fresh_target_def DecodePageHeader_hdr[OF P(1)] Let_def Option.bind.bind_lunit sp(3) using P(1)
    by (simp add: setHeader_Some)
qed

lemma SetForward_fresh:
  assumes "page_ok buf" "0 \<le> i" "i < int (nslots buf)" "\<not> (\<exists>d. slots buf ! nat i = Live d \<and> 8 \<le> length d)"
  shows "SetForward buf i p s = do { r1 \<leftarrow> make_room buf (int 8);
    case r1 of Inl e \<Rightarrow> Some (Inl e) | Inr buf1 \<Rightarrow> map_option Inr (fresh_target buf1 (nat i) p s) }"
proof -
  note i = nat_range[OF assms(2,3)]
  obtain q l where s: "rd_slot buf (nat i) = (q, l)"
    and small: "q = cellOffsetDead \<or> q = cellOffsetForward \<or> \<not> 8 \<le> unat l"
  proof (cases "\<exists>d. slots buf ! nat i = Live d")
    case True
    then obtain d where d: "slots buf ! nat i = Live d" by blast
    then obtain q l where "rd_slot buf (nat i) = (q, l)" "length d = unat l"
      using slots_live[OF assms(1) i d] by metis
    then show ?thesis using that assms(4) d by auto
  next
    case False
    then show ?thesis using slots_not_live[OF assms(1) i] that by metis
  qed
  show ?thesis using assms(2,3) small
    by (auto simp: SetForward_def slotAt_ok[OF assms(1) i] in_range_ok[OF assms(1)] s Let_def)
qed

lemma SetForward_ok:
  assumes "page_ok buf" "0 \<le> i" "i < int (nslots buf)"
  shows "\<not> fits_forward buf (nat i) \<Longrightarrow> SetForward buf i p s = Some (Inl ErrNoSpace)"
    and "fits_forward buf (nat i) \<Longrightarrow>
      \<exists>buf'. SetForward buf i p s = Some (Inr buf') \<and> updates buf (nat i) (Forwarded p s) buf'"
proof -
  note i = nat_range[OF assms(2,3)] and P = page_okD[OF assms(1)]
  note S = slotAt_ok[OF assms(1) i] in_range_ok[OF assms(1)]
  let ?live = "\<exists>d. slots buf ! nat i = Live d \<and> 8 \<le> length d"
  note none = SetForward_fresh[OF assms]
  show "SetForward buf i p s = Some (Inl ErrNoSpace)" if "\<not> fits_forward buf (nat i)"
    using that none make_room_full[OF assms(1), of 8] by (simp add: fits_forward_def)
  show "\<exists>buf'. SetForward buf i p s = Some (Inr buf') \<and> updates buf (nat i) (Forwarded p s) buf'"
    if f: "fits_forward buf (nat i)"
  proof (cases ?live)
    case False
    then have "4 * nslots buf + used buf + 8 \<le> blen buf" using f unfolding fits_forward_def by blast
    then obtain b where b: "make_room buf (int 8) = Some (Inr b)" "page_ok b" "slots b = slots buf"
      "length b = length buf" "4 * nslots b + 8 \<le> fend b"
      by (rule make_room_ok[OF assms(1)])
    have n: "nat i < nslots b" using b(3) i by (metis length_slots)
    have "SetForward buf i p s = Some (Inr (place b (nat i) True (target p s)))"
      unfolding none[OF False] b(1) using forward_fresh[OF b(2) n b(5)] by simp
    then show ?thesis using place_ok[OF b(2) n, of "target p s" True] b(3-5) by (simp add: updates_def)
  next
    case True
    then obtain d where d: "slots buf ! nat i = Live d" "8 \<le> length d" by blast
    obtain q l where s: "rd_slot buf (nat i) = (q, l)" and q: "q \<noteq> cellOffsetDead" "q \<noteq> cellOffsetForward"
      and b: "unat q + unat l \<le> blen buf" "fend buf \<le> unat q" and l: "length d = unat l"
      and r: "read_entry buf (nat i) = ECell False (unat q) d"
      by (rule slots_live[OF assms(1) i d(1)])
    have off: "4 * nat i + 4 \<le> unat q" "unat q + 8 \<le> blen buf" using P(6)[OF i] b d(2) l by auto
    then have "SetForward buf i p s = Some (Inr (write_cell buf (nat i) True (unat q) (target p s)))"
      using assms(2,3) q l d(2) write_target_cell[OF P(1) off] by (simp add: SetForward_def S s Let_def)
    then show ?thesis using overwrite_forward[OF assms(1) i r, of "target p s"] d(2) by (simp add: updates_def)
  qed
qed

lemma slot_kind:
  assumes "page_ok buf" "i < nslots buf" "rd_slot buf i = (q, l)"
  shows "(\<exists>d. slots buf ! i = Live d) \<longleftrightarrow> q \<noteq> cellOffsetDead \<and> q \<noteq> cellOffsetForward"
    "(\<exists>p s. slots buf ! i = Forwarded p s) \<longleftrightarrow> q = cellOffsetForward"
  using page_okD(8)[OF assms(1,2)] page_okD(1)[OF assms(1)]
  by (cases rule: read_entry_cases; use assms in \<open>auto simp: nth_slots\<close>)+

lemma IsLive_ok:
  assumes "page_ok buf"
  shows "IsLive buf i = Some (0 \<le> i \<and> i < int (nslots buf) \<and> (\<exists>d. slots buf ! nat i = Live d))"
    and "IsForward buf i = Some (0 \<le> i \<and> i < int (nslots buf) \<and> (\<exists>p s. slots buf ! nat i = Forwarded p s))"
proof -
  have "(IsLive buf i = Some (\<exists>d. slots buf ! nat i = Live d)) \<and> (IsForward buf i = Some (\<exists>p s. slots buf ! nat i = Forwarded p s))"
    if r: "0 \<le> i" "i < int (nslots buf)"
  proof -
    note i = nat_range[OF r]
    obtain q l where s: "rd_slot buf (nat i) = (q, l)" by (cases "rd_slot buf (nat i)")
    show ?thesis using r slot_kind[OF assms i s]
      by (simp add: IsLive_def IsForward_def in_range_ok[OF assms] slotAt_ok[OF assms i] s)
  qed
  then show "IsLive buf i = Some (0 \<le> i \<and> i < int (nslots buf) \<and> (\<exists>d. slots buf ! nat i = Live d))"
    "IsForward buf i = Some (0 \<le> i \<and> i < int (nslots buf) \<and> (\<exists>p s. slots buf ! nat i = Forwarded p s))"
    by (auto simp: IsLive_def IsForward_def in_range_ok[OF assms])
qed

lemma Forward_ok:
  assumes "page_ok buf"
  shows "Forward buf i = Some (if i < 0 \<or> i \<ge> int (nslots buf) then None
    else case slots buf ! nat i of Forwarded p s \<Rightarrow> Some (p, s) | _ \<Rightarrow> None)"
proof (cases "0 \<le> i \<and> i < int (nslots buf)")
  case True
  then have i: "nat i < nslots buf" by linarith
  note P = page_okD[OF assms] and s = slotAt_ok[OF assms i]
  have add: "int c + 4 = int (c + 4)" for c by simp
  from P(8)[OF i] P(1) show ?thesis
  proof (cases rule: read_entry_cases)
    case (fwd l)
    have "rd_body buf (unat l) 4 = sub (rd_body buf (unat l) 8) 0 4"
      "rd_body buf (unat l + 4) 2 = sub (rd_body buf (unat l) 8) 4 2" by (simp_all add: rd_body_def sub_sub add.assoc)
    then show ?thesis using True fwd P(1)
      by (simp add: Forward_def in_range_ok[OF assms] s body_Some add slice_body nth_slots[OF i] del: of_nat_add)
  qed (use True in \<open>simp_all add: Forward_def in_range_ok[OF assms] s nth_slots[OF i]\<close>)
qed (auto simp: Forward_def in_range_ok[OF assms])

section \<open>The contract of a slot store\<close>

text \<open>What the record store above a page may assume: a step never panics, keeps the invariant,
  and either changes nothing (an error) or has the effect the specification gives it.\<close>

datatype slot_op =
    Add bytes | Update int bytes | Replace int bytes | Delete int | Redirect int u32 u16

fun slot_effect :: "slot_op \<Rightarrow> slot list \<Rightarrow> slot list" where
  "slot_effect (Add d) ss = ss @ [Live d]"
| "slot_effect (Update i d) ss = ss[nat i := Live d]"
| "slot_effect (Replace i d) ss = ss[nat i := Live d]"
| "slot_effect (Delete i) ss = ss[nat i := Dead]"
| "slot_effect (Redirect i p s) ss = ss[nat i := Forwarded p s]"

fun touches :: "slot_op \<Rightarrow> nat set" where
  "touches (Add d) = {}"
| "touches (Update i d) = {nat i}"
| "touches (Replace i d) = {nat i}"
| "touches (Delete i) = {nat i}"
| "touches (Redirect i p s) = {nat i}"

fun run_ops :: "('p \<Rightarrow> slot_op \<Rightarrow> 'p option) \<Rightarrow> 'p \<Rightarrow> slot_op list \<Rightarrow> 'p option" where
  "run_ops step p [] = Some p"
| "run_ops step p (op # ops) = do { p' \<leftarrow> step p op; run_ops step p' ops }"

locale slot_store =
  fixes ok :: "'p \<Rightarrow> bool" and st :: "'p \<Rightarrow> slot list" and step :: "'p \<Rightarrow> slot_op \<Rightarrow> 'p option"
  assumes step_law: "ok p \<Longrightarrow> \<exists>p'. step p op = Some p' \<and> ok p' \<and> st p' \<in> {st p, slot_effect op (st p)}"
begin

lemma step_stable:
  assumes "ok p" "step p op = Some p'"
  shows "ok p'" "length (st p) \<le> length (st p')"
    "i < length (st p) \<Longrightarrow> i \<notin> touches op \<Longrightarrow> st p' ! i = st p ! i"
  using step_law[OF assms(1), of op] assms(2) by (cases op; auto simp: nth_append)+

lemma run_stable:
  assumes "ok p"
  shows "\<exists>p'. run_ops step p ops = Some p' \<and> ok p' \<and> length (st p) \<le> length (st p')
    \<and> (\<forall>i<length (st p). i \<notin> \<Union> (touches ` set ops) \<longrightarrow> st p' ! i = st p ! i)"
  using assms
proof (induction ops arbitrary: p)
  case (Cons op ops)
  obtain q where q: "step p op = Some q" using step_law[OF Cons.prems] by blast
  note S = step_stable[OF Cons.prems q]
  obtain p' where "run_ops step q ops = Some p'" "ok p'" "length (st q) \<le> length (st p')"
    "\<forall>i<length (st q). i \<notin> \<Union> (touches ` set ops) \<longrightarrow> st p' ! i = st q ! i"
    using Cons.IH[OF S(1)] by blast
  then show ?case using q S(2,3) by (auto intro!: exI[of _ p'])
qed simp

end

text \<open>The page as a slot store: an operation that reports an error has not written the page.\<close>

fun page_step :: "bytes \<Rightarrow> slot_op \<Rightarrow> bytes option" where
  "page_step buf (Add d) = map_option (case_sum (\<lambda>e. buf) fst) (AddCell buf d)"
| "page_step buf (Update i d) = map_option (case_sum (\<lambda>e. buf) id) (UpdateInPlace buf i d)"
| "page_step buf (Replace i d) = map_option (case_sum (\<lambda>e. buf) id) (ReplaceCell buf i d)"
| "page_step buf (Delete i) = map_option (case_sum (\<lambda>e. buf) id) (DeleteCell buf i)"
| "page_step buf (Redirect i p s) = map_option (case_sum (\<lambda>e. buf) id) (SetForward buf i p s)"

lemma slot_op_errors:
  assumes "page_ok buf"
  shows "i < 0 \<or> i \<ge> int (nslots buf) \<Longrightarrow> UpdateInPlace buf i d = Some (Inl ErrBadSlot)"
    "i < 0 \<or> i \<ge> int (nslots buf) \<Longrightarrow> ReplaceCell buf i d = Some (Inl ErrBadSlot)"
    "i < 0 \<or> i \<ge> int (nslots buf) \<Longrightarrow> SetForward buf i p s = Some (Inl ErrBadSlot)"
    "0 \<le> i \<Longrightarrow> i < int (nslots buf) \<Longrightarrow> \<forall>d. slots buf ! nat i \<noteq> Live d \<Longrightarrow> UpdateInPlace buf i d = Some (Inl ErrSlotDead)"
    "0 \<le> i \<Longrightarrow> i < int (nslots buf) \<Longrightarrow> \<forall>d. slots buf ! nat i \<noteq> Live d \<Longrightarrow> ReplaceCell buf i d = Some (Inl ErrSlotDead)"
proof -
  show "i < 0 \<or> i \<ge> int (nslots buf) \<Longrightarrow> UpdateInPlace buf i d = Some (Inl ErrBadSlot)"
    "i < 0 \<or> i \<ge> int (nslots buf) \<Longrightarrow> ReplaceCell buf i d = Some (Inl ErrBadSlot)"
    "i < 0 \<or> i \<ge> int (nslots buf) \<Longrightarrow> SetForward buf i p s = Some (Inl ErrBadSlot)"
    by (auto simp: UpdateInPlace_def ReplaceCell_def SetForward_def in_range_ok[OF assms])
  assume r: "0 \<le> i" "i < int (nslots buf)" and d: "\<forall>d. slots buf ! nat i \<noteq> Live d"
  note i = nat_range[OF r]
  obtain q l where s: "rd_slot buf (nat i) = (q, l)" "q = cellOffsetDead \<or> q = cellOffsetForward"
    using slots_not_live[OF assms i] d by metis
  then show "UpdateInPlace buf i d = Some (Inl ErrSlotDead)" "ReplaceCell buf i d = Some (Inl ErrSlotDead)" for d
    using r by (auto simp: UpdateInPlace_def ReplaceCell_def in_range_ok[OF assms] slotAt_ok[OF assms i])
qed

definition outcome :: "bytes \<Rightarrow> nat \<Rightarrow> slot \<Rightarrow> (format_error + bytes) option \<Rightarrow> bool" where
  "outcome buf i v r \<longleftrightarrow> (\<exists>e. r = Some (Inl e)) \<or> (\<exists>b. r = Some (Inr b) \<and> updates buf i v b)"

lemma slot_ops_outcome:
  assumes "page_ok buf"
  shows "outcome buf (nat i) (Live d) (UpdateInPlace buf i d)" "outcome buf (nat i) (Live d) (ReplaceCell buf i d)"
    "outcome buf (nat i) Dead (DeleteCell buf i)" "outcome buf (nat i) (Forwarded p s) (SetForward buf i p s)"
proof -
  note E = slot_op_errors[OF assms]
  consider (bad) "i < 0 \<or> i \<ge> int (nslots buf)"
    | (dead) "0 \<le> i" "i < int (nslots buf)" "\<forall>d. slots buf ! nat i \<noteq> Live d"
    | (live) d0 where "0 \<le> i" "i < int (nslots buf)" "slots buf ! nat i = Live d0" by fastforce
  then show "outcome buf (nat i) (Live d) (UpdateInPlace buf i d)"
    by cases (use E(1,4) UpdateInPlace_ok[OF assms, of i] in \<open>(auto simp: outcome_def)[2], unfold outcome_def, metis\<close>)
  consider (bad) "i < 0 \<or> i \<ge> int (nslots buf)"
    | (dead) "0 \<le> i" "i < int (nslots buf)" "\<forall>d. slots buf ! nat i \<noteq> Live d"
    | (live) d0 where "0 \<le> i" "i < int (nslots buf)" "slots buf ! nat i = Live d0" by fastforce
  then show "outcome buf (nat i) (Live d) (ReplaceCell buf i d)"
    by cases (use E(2,5) ReplaceCell_ok[OF assms, of i] in \<open>(auto simp: outcome_def)[2], unfold outcome_def, metis\<close>)
  have r: "(i < 0 \<or> i \<ge> int (nslots buf)) \<or> (0 \<le> i \<and> i < int (nslots buf))" by linarith
  then show "outcome buf (nat i) Dead (DeleteCell buf i)"
    using DeleteCell_ok[OF assms, of i] unfolding outcome_def by blast
  show "outcome buf (nat i) (Forwarded p s) (SetForward buf i p s)"
    using r E(3) SetForward_ok[OF assms, of i] unfolding outcome_def by blast
qed

lemma outcome_step:
  "page_ok buf \<Longrightarrow> outcome buf i v r \<Longrightarrow>
    \<exists>b. map_option (case_sum (\<lambda>e. buf) id) r = Some b \<and> page_ok b \<and> slots b \<in> {slots buf, (slots buf)[i := v]}"
  by (auto simp: updates_def outcome_def)

interpretation page: slot_store page_ok slots page_step
proof
  fix buf op assume ok: "page_ok buf"
  show "\<exists>b. page_step buf op = Some b \<and> page_ok b \<and> slots b \<in> {slots buf, slot_effect op (slots buf)}"
  proof (cases op)
    case (Add d)
    show ?thesis
    proof (cases "fits buf d")
      case True
      then obtain b where "AddCell buf d = Some (Inr (b, nslots buf))" "page_ok b" "slots b = slots buf @ [Live d]"
        by (rule AddCell_ok[OF ok])
      then show ?thesis by (simp add: Add)
    qed (use ok AddCell_full[OF ok] in \<open>simp add: Add\<close>)
  qed (use slot_ops_outcome[OF ok] outcome_step[OF ok] in simp_all)
qed

section \<open>The guarantees\<close>

text \<open>A fresh page of any permitted size satisfies the invariant and has no slots.\<close>

theorem InitPage_empty:
  assumes "36 \<le> length p" and "length p \<le> 65536"
  shows "\<exists>buf. InitPage p t collID = Some buf \<and> page_ok buf \<and> slots buf = [] \<and> length buf = length p
    \<and> AvailBytes buf = Some (int (length p) - 36)"
proof -
  let ?h = "\<lparr>Type = t, Flags = 0, Codec = 0, EntryCount = 0, PageLSN = 0, CollIDEntry = collID, FreeStart = 0,
    FreeEnd = of_nat (blen p), RightSib = NullPage\<rparr>"
  let ?b = "put_hdr (replicate (length p) 0) ?h"
  have "int (length p) - int 32 - int 4 = int (blen p)" using assms(1) by simp
  then have i: "InitPage p t collID = Some ?b"
    using assms(1) unfolding InitPage_def by (simp add: EncodeInto_def put_hdr_def)
  have h: "hdr ?b = ?h" and l: "length ?b = length p" using assms(1) by simp_all
  have "unat (of_nat (blen p) :: u16) = blen p" using assms by (intro unat_of_nat_id) simp
  then have ok: "page_ok ?b" "entries ?b = []"
    using assms h l by (auto intro!: page_okI[where h = ?h and es = "[]"])
  then show ?thesis using i l assms(1)
    by (simp add: slots_def AvailBytes_def liveTotal_used bodyLen_ok used_def nth_entries(2)[symmetric])
qed

theorem InitPage_empty_witness:
  "\<exists>buf. InitPage (replicate 64 0) PageHeap 7 = Some buf \<and> page_ok buf \<and> slots buf = []"
  using InitPage_empty[of "replicate 64 0" PageHeap 7] by auto

text \<open>C30. \<^verbatim>\<open>AddCell\<close> succeeds exactly when \<^verbatim>\<open>CanAdd\<close> says so (and the payload is
  addressable): it appends one live slot holding the payload and returns its number, compacting
  when it must, and every other slot keeps its contents; otherwise it reports no space.\<close>

theorem AddCell_refines:
  assumes "page_ok buf"
  shows "(if CanAdd buf (length d) = Some True \<and> length d \<le> maxCellLen
      then \<exists>buf'. AddCell buf d = Some (Inr (buf', length (slots buf))) \<and> page_ok buf'
        \<and> slots buf' = slots buf @ [Live d] \<and> length buf' = length buf
      else AddCell buf d = Some (Inl ErrNoSpace))"
proof -
  have "(CanAdd buf (length d) = Some True \<and> length d \<le> maxCellLen) = fits buf d"
    using page_okD(1)[OF assms] by (auto simp: CanAdd_def liveTotal_used[OF assms] bodyLen_ok[OF assms] fits_def)
  moreover have "\<exists>buf'. AddCell buf d = Some (Inr (buf', length (slots buf))) \<and> page_ok buf'
      \<and> slots buf' = slots buf @ [Live d] \<and> length buf' = length buf" if "fits buf d"
    by (rule AddCell_ok[OF assms that]) auto
  ultimately show ?thesis using AddCell_full[OF assms] by auto
qed

definition sample_page :: bytes where
  "sample_page = [1, 0, 0, 0, 2, 0, 0, 0, 0, 0, 0, 0, 0, 0, 0, 0, 7, 0, 0, 0, 8, 0, 24, 0, 0xFF, 0xFF, 0xFF, 0xFF,
     0, 0, 0, 0, 26, 0, 2, 0, 24, 0, 2, 0, 0, 0, 0, 0, 0, 0, 0, 0, 0, 0, 0, 0, 0, 0, 0, 0, 11, 22, 33, 44, 0, 0, 0, 0]"

lemma sample_page_parts:
  "length sample_page = 64"
  "hdr sample_page = \<lparr>Type = 1, Flags = 0, Codec = 0, EntryCount = 2, PageLSN = 0, CollIDEntry = 7, FreeStart = 8,
    FreeEnd = 24, RightSib = NullPage\<rparr>"
  "entries sample_page = [ECell False 26 [33, 44], ECell False 24 [11, 22]]"
  by code_simp+

lemma sample_page_ok: "page_ok sample_page" "slots sample_page = [Live [33, 44], Live [11, 22]]"
  by (simp_all add: page_ok_def slots_def sample_page_parts)

theorem AddCell_refines_witness:
  "\<exists>buf'. AddCell sample_page [1, 2, 3] = Some (Inr (buf', 2))
    \<and> slots buf' = [Live [33, 44], Live [11, 22], Live [1, 2, 3]]"
proof -
  have "CanAdd sample_page (length [1, 2, 3 :: byte]) = Some True" by code_simp
  then show ?thesis using AddCell_refines[OF sample_page_ok(1), of "[1, 2, 3]"] sample_page_ok(2) by auto
qed

text \<open>\<^verbatim>\<open>ReplaceCell\<close> on a live slot keeps the slot number and every other slot: it
  succeeds exactly when the payload fits once the old cell is reclaimed, and an error leaves the
  page alone. \<^verbatim>\<open>UpdateInPlace\<close> does the same for a payload of equal length.\<close>

theorem ReplaceCell_refines:
  assumes "page_ok buf" and "0 \<le> i" and "i < int (length (slots buf))" and "slots buf ! nat i = Live d0"
  shows "(if length d \<le> maxCellLen
        \<and> (length d = length d0 \<or> (\<exists>a. AvailBytes buf = Some a \<and> int (length d) \<le> a + int (length d0)))
      then \<exists>buf'. ReplaceCell buf i d = Some (Inr buf') \<and> page_ok buf' \<and> slots buf' = (slots buf)[nat i := Live d]
      else ReplaceCell buf i d = Some (Inl ErrNoSpace))
    \<and> (if length d = length d0
       then \<exists>buf'. UpdateInPlace buf i d = Some (Inr buf') \<and> page_ok buf' \<and> slots buf' = (slots buf)[nat i := Live d]
       else UpdateInPlace buf i d = Some (Inl ErrNoSpace))"
proof -
  have i: "i < int (nslots buf)" using assms(3) by simp
  note R = ReplaceCell_ok[OF assms(1,2) i assms(4), of d] and U = UpdateInPlace_ok[OF assms(1,2) i assms(4), of d]
  have "(length d \<le> maxCellLen \<and> (length d = length d0
      \<or> (\<exists>a. AvailBytes buf = Some a \<and> int (length d) \<le> a + int (length d0)))) = fits_replace buf d0 d"
    using page_okD(1)[OF assms(1)]
    by (auto simp: AvailBytes_def liveTotal_used[OF assms(1)] bodyLen_ok[OF assms(1)] fits_replace_def)
  then show ?thesis using R U unfolding updates_def by auto
qed

theorem ReplaceCell_refines_witness:
  "\<exists>buf'. ReplaceCell sample_page 0 [5, 6, 7, 8] = Some (Inr buf') \<and> slots buf' = [Live [5, 6, 7, 8], Live [11, 22]]"
proof -
  have "AvailBytes sample_page = Some 16" by code_simp
  then show ?thesis using ReplaceCell_refines[OF sample_page_ok(1), of 0 "[33, 44]" "[5, 6, 7, 8]"] sample_page_ok(2)
    by auto
qed

text \<open>A forwarding tombstone set on any slot reads back its target through
  \<^verbatim>\<open>Forward\<close>, and the slot is no longer live; a live cell of eight bytes or more always has
  room for it. The other slots keep their contents.\<close>

theorem SetForward_Forward:
  assumes "page_ok buf" and "0 \<le> i" and "i < int (length (slots buf))" and "SetForward buf i p s = Some (Inr buf')"
  shows "page_ok buf' \<and> slots buf' = (slots buf)[nat i := Forwarded p s]
    \<and> Forward buf' i = Some (Some (p, s)) \<and> IsLive buf' i = Some False \<and> IsForward buf' i = Some True"
proof -
  have i: "i < int (nslots buf)" "nat i < nslots buf" using assms(2,3) by auto
  have u: "updates buf (nat i) (Forwarded p s) buf'"
    using slot_ops_outcome(4)[OF assms(1), of i p s] assms(4) by (auto simp: outcome_def)
  then have ok: "page_ok buf'" "slots buf' = (slots buf)[nat i := Forwarded p s]" by (auto simp: updates_def)
  have n: "nslots buf' = nslots buf" using ok(2) by (metis length_slots length_list_update)
  have v: "slots buf' ! nat i = Forwarded p s" using ok(2) i by simp
  show ?thesis using ok Forward_ok[OF ok(1), of i] IsLive_ok[OF ok(1), of i] assms(2) i n v by auto
qed

theorem SetForward_Forward_witness:
  "\<exists>buf'. SetForward sample_page 1 9 3 = Some (Inr buf') \<and> Forward buf' 1 = Some (Some (9, 3))"
proof -
  have "fits_forward sample_page 1" by (simp add: fits_forward_def sample_page_parts used_def)
  then obtain b where b: "SetForward sample_page 1 9 3 = Some (Inr b)"
    using SetForward_ok(2)[OF sample_page_ok(1), of 1] sample_page_ok(2) length_slots[of sample_page] by auto
  then show ?thesis using SetForward_Forward[OF sample_page_ok(1) _ _ b] sample_page_ok(2) by simp
qed

text \<open>\<^verbatim>\<open>Compact\<close> never changes what any slot holds, and leaves as contiguous free
  space everything that \<^verbatim>\<open>AvailBytes\<close> promised.\<close>

theorem Compact_refines:
  assumes "page_ok buf"
  shows "\<exists>buf'. Compact buf = Some buf' \<and> page_ok buf' \<and> slots buf' = slots buf \<and> FreeBytes buf' = AvailBytes buf"
proof -
  obtain b where b: "Compact buf = Some b" "page_ok b" "slots b = slots buf" "length b = length buf"
    "fend b = blen buf - used buf"
    using Compact_ok[OF assms] by metis
  have n: "nslots b = nslots buf" using b(3) by (metis length_slots)
  have "used buf \<le> blen buf" using used_le[OF assms] by simp
  then have "FreeBytes b = AvailBytes buf"
    using b(5) n by (simp add: FreeBytes_ok[OF b(2)] AvailBytes_def liveTotal_used[OF assms] bodyLen_ok[OF assms] of_nat_diff)
  then show ?thesis using b by blast
qed

theorem Compact_refines_witness:
  "\<exists>buf'. Compact sample_page = Some buf' \<and> slots buf' = [Live [33, 44], Live [11, 22]]"
  using Compact_refines[OF sample_page_ok(1)] sample_page_ok(2) by auto

text \<open>C31. Record identifiers stay valid: whatever sequence of cell operations runs on a page, with
  whatever arguments, no access is out of bounds, the invariant holds at the end, slot numbers are
  never reused, and a slot no operation named still holds what it held.\<close>

theorem slots_stable:
  assumes "page_ok buf"
  shows "\<exists>buf'. run_ops page_step buf ops = Some buf' \<and> page_ok buf' \<and> length (slots buf) \<le> length (slots buf')
    \<and> (\<forall>i<length (slots buf). i \<notin> \<Union> (touches ` set ops) \<longrightarrow> slots buf' ! i = slots buf ! i)"
  using assms by (rule page.run_stable)

theorem slots_stable_witness:
  "\<exists>buf'. run_ops page_step sample_page [Delete 1, Add [1, 2, 3, 4, 5, 6, 7, 8, 9], Replace 2 [4]] = Some buf'
    \<and> slots buf' ! 0 = Live [33, 44]"
  using slots_stable[OF sample_page_ok(1), of "[Delete 1, Add [1, 2, 3, 4, 5, 6, 7, 8, 9], Replace 2 [4]]"]
    sample_page_ok(2) by fastforce

declare of_nat_unat [simp]

end
