(* ===== verification/Vfs_Mem.thy ===== *)
theory Vfs_Mem
  imports Prelude "HOL-Library.Monad_Syntax"
begin

text \<open>
  The in-memory file system (\<^verbatim>\<open>src/vfs/memfs.go\<close>) behind the \<^verbatim>\<open>FS\<close> and
  \<^verbatim>\<open>File\<close> interfaces of \<^verbatim>\<open>src/vfs/vfs.go\<close>. A path names a shared buffer; open
  handles keep the buffer alive after a delete, so buffers live in a store of their own. The
  interface the log and the pager rely on is the locale \<open>positional_file\<close>.
\<close>

section \<open>Positional I/O on one buffer\<close>

text \<open>\<^verbatim>\<open>ReadAt\<close> into a buffer of \<open>n\<close> bytes: the bytes read, and whether the call reports \<^verbatim>\<open>io.EOF\<close>.
  Offsets are the non-negative ones; the callers never pass another.\<close>

definition memReadAt :: "bytes \<Rightarrow> nat \<Rightarrow> nat \<Rightarrow> bytes \<times> bool" where
  "memReadAt data n off =
     (if off \<ge> length data then ([], True)
      else let got = take n (drop off data) in (got, length got < n))"

definition memWriteAt :: "bytes \<Rightarrow> bytes \<Rightarrow> nat \<Rightarrow> bytes" where
  "memWriteAt data p off =
     (let stop = off + length p;
          grown = (if stop > length data then data @ replicate (stop - length data) 0 else data)
      in write_at grown off p)"

definition memTruncate :: "bytes \<Rightarrow> nat \<Rightarrow> bytes" where
  "memTruncate data sz =
     (if sz \<le> length data then take sz data else data @ replicate (sz - length data) 0)"

section \<open>Files\<close>

datatype vfs_error = ErrExist | ErrNotExist | ErrPermission

record MemFS =
  files :: "string \<rightharpoonup> nat"
  buffers :: "nat \<Rightarrow> bytes"
  next_buffer :: nat

record memFile =
  buffer :: nat
  readOnly :: bool

record OpenFlags =
  OpenCreate :: bool
  OpenReadOnly :: bool
  OpenExclusive :: bool

definition NewMemFS :: MemFS where
  "NewMemFS = \<lparr>files = Map.empty, buffers = (\<lambda>_. []), next_buffer = 0\<rparr>"

definition mem_Open :: "MemFS \<Rightarrow> string \<Rightarrow> OpenFlags \<Rightarrow> vfs_error + (MemFS \<times> memFile)" where
  "mem_Open m path fl =
     (case files m path of
        Some d \<Rightarrow> if OpenExclusive fl \<and> OpenCreate fl then Inl ErrExist
          else Inr (m, \<lparr>buffer = d, readOnly = OpenReadOnly fl\<rparr>)
      | None \<Rightarrow> if \<not> OpenCreate fl then Inl ErrNotExist
          else let d = next_buffer m in
            Inr (m\<lparr>files := (files m)(path \<mapsto> d), buffers := (buffers m)(d := []), next_buffer := d + 1\<rparr>,
              \<lparr>buffer = d, readOnly = OpenReadOnly fl\<rparr>))"

definition mem_Delete :: "MemFS \<Rightarrow> string \<Rightarrow> vfs_error + MemFS" where
  "mem_Delete m path =
     (case files m path of None \<Rightarrow> Inl ErrNotExist | Some d \<Rightarrow> Inr (m\<lparr>files := (files m)(path := None)\<rparr>))"

definition mem_Exists :: "MemFS \<Rightarrow> string \<Rightarrow> bool" where
  "mem_Exists m path = (files m path \<noteq> None)"

definition mem_ReadAt :: "MemFS \<Rightarrow> memFile \<Rightarrow> nat \<Rightarrow> nat \<Rightarrow> bytes \<times> bool" where
  "mem_ReadAt m f n off = memReadAt (buffers m (buffer f)) n off"

definition mem_WriteAt :: "MemFS \<Rightarrow> memFile \<Rightarrow> bytes \<Rightarrow> nat \<Rightarrow> vfs_error + MemFS" where
  "mem_WriteAt m f p off =
     (if readOnly f then Inl ErrPermission
      else Inr (m\<lparr>buffers := (buffers m)(buffer f := memWriteAt (buffers m (buffer f)) p off)\<rparr>))"

definition mem_Truncate :: "MemFS \<Rightarrow> memFile \<Rightarrow> nat \<Rightarrow> MemFS" where
  "mem_Truncate m f sz = m\<lparr>buffers := (buffers m)(buffer f := memTruncate (buffers m (buffer f)) sz)\<rparr>"

definition mem_Size :: "MemFS \<Rightarrow> memFile \<Rightarrow> nat" where
  "mem_Size m f = length (buffers m (buffer f))"

definition mem_Snapshot :: "MemFS \<Rightarrow> string \<Rightarrow> bytes option" where
  "mem_Snapshot m path = map_option (buffers m) (files m path)"

section \<open>The interface of a positional file\<close>

text \<open>What a client sees of a file is its size and the byte at each offset.\<close>

locale positional_file =
  fixes flen :: "'f \<Rightarrow> nat" and byte_at :: "'f \<Rightarrow> nat \<Rightarrow> byte"
    and read :: "'f \<Rightarrow> nat \<Rightarrow> nat \<Rightarrow> bytes" and wr :: "'f \<Rightarrow> bytes \<Rightarrow> nat \<Rightarrow> 'f" and trunc :: "'f \<Rightarrow> nat \<Rightarrow> 'f"
  assumes size_wr: "flen (wr f p off) = max (flen f) (off + length p)"
    and byte_wr: "i < flen (wr f p off) \<Longrightarrow> byte_at (wr f p off) i =
      (if off \<le> i \<and> i < off + length p then p ! (i - off) else if i < flen f then byte_at f i else 0)"
    and size_trunc: "flen (trunc f n) = n"
    and byte_trunc: "i < n \<Longrightarrow> byte_at (trunc f n) i = (if i < flen f then byte_at f i else 0)"
    and read_bytes: "read f n off = map (byte_at f) [off..<min (off + n) (flen f)]"
begin

lemma read_own_write: "read (wr f p off) (length p) off = p"
proof -
  have "min (off + length p) (flen (wr f p off)) = off + length p" by (simp add: size_wr)
  then show ?thesis
    by (auto simp: read_bytes size_wr byte_wr intro!: nth_equalityI)
qed

lemma read_other_write:
  assumes "off + n \<le> o' \<or> o' + length p \<le> off" "off + n \<le> flen f"
  shows "read (wr f p o') n off = read f n off"
  using assms by (auto simp: read_bytes size_wr byte_wr min_def intro!: nth_equalityI)

lemma read_full: "off + n \<le> flen f \<Longrightarrow> length (read f n off) = n"
  by (simp add: read_bytes)

end

interpretation mem_file: positional_file length nth "\<lambda>f n off. fst (memReadAt f n off)" memWriteAt memTruncate
proof
  fix f p :: bytes and off i n :: nat
  show "length (memWriteAt f p off) = max (length f) (off + length p)"
    by (auto simp: memWriteAt_def Let_def max_def)
  show "memWriteAt f p off ! i = (if off \<le> i \<and> i < off + length p then p ! (i - off)
      else if i < length f then f ! i else 0)" if "i < length (memWriteAt f p off)"
    using that by (auto simp: memWriteAt_def Let_def nth_write_at nth_append split: if_splits)
  show "length (memTruncate f n) = n" by (simp add: memTruncate_def)
  show "memTruncate f n ! i = (if i < length f then f ! i else 0)" if "i < n"
    using that by (auto simp: memTruncate_def nth_append)
  show "fst (memReadAt f n off) = map ((!) f) [off..<min (off + n) (length f)]"
    by (auto simp: memReadAt_def Let_def intro!: nth_equalityI)
qed

lemma memReadAt_eof: "0 < n \<Longrightarrow> snd (memReadAt f n off) \<longleftrightarrow> length f < off + n"
  by (auto simp: memReadAt_def Let_def)

section \<open>Paths never share a buffer\<close>

text \<open>A name leads to a buffer that was allocated, and to its own.\<close>

definition fs_ok :: "MemFS \<Rightarrow> bool" where
  "fs_ok m \<longleftrightarrow> (\<forall>p d. files m p = Some d \<longrightarrow> d < next_buffer m)
     \<and> (\<forall>p q d. files m p = Some d \<longrightarrow> files m q = Some d \<longrightarrow> p = q)"

lemma fs_ok_NewMemFS: "fs_ok NewMemFS"
  by (simp add: fs_ok_def NewMemFS_def)

lemma fs_ok_fresh: "fs_ok m \<Longrightarrow> files m q \<noteq> Some (next_buffer m)"
  unfolding fs_ok_def by blast

lemma fs_ok_Open:
  assumes "fs_ok m" "mem_Open m path fl = Inr (m', f)"
  shows "fs_ok m' \<and> files m' path = Some (buffer f)"
proof (cases "files m path")
  case None
  with assms have "m' = m\<lparr>files := (files m)(path \<mapsto> next_buffer m),
      buffers := (buffers m)(next_buffer m := []), next_buffer := next_buffer m + 1\<rparr>"
    and "buffer f = next_buffer m"
    by (auto simp: mem_Open_def Let_def split: if_splits)
  then show ?thesis
    using assms(1) None fs_ok_fresh[OF assms(1)] unfolding fs_ok_def
    by (auto simp: less_Suc_eq)
qed (use assms in \<open>auto simp: mem_Open_def split: if_splits\<close>)

lemma fs_ok_Delete: "fs_ok m \<Longrightarrow> mem_Delete m path = Inr m' \<Longrightarrow> fs_ok m'"
  unfolding fs_ok_def mem_Delete_def by (auto split: option.splits if_splits)

lemma fs_ok_WriteAt: "fs_ok m \<Longrightarrow> mem_WriteAt m f p off = Inr m' \<Longrightarrow> fs_ok m'"
  by (auto simp: fs_ok_def mem_WriteAt_def split: if_splits)

lemma fs_ok_Truncate: "fs_ok m \<Longrightarrow> fs_ok (mem_Truncate m f sz)"
  by (simp add: fs_ok_def mem_Truncate_def)

lemma fs_ok_inj: "fs_ok m \<Longrightarrow> files m p = Some d \<Longrightarrow> files m q = Some d \<Longrightarrow> p = q"
  unfolding fs_ok_def by blast

text \<open>In a file system where no two names share a buffer (an invariant of \<^verbatim>\<open>Open\<close>,
  \<^verbatim>\<open>Delete\<close>, \<^verbatim>\<open>WriteAt\<close> and \<^verbatim>\<open>Truncate\<close>), a write through the handle an open returned
  is read back in full with no end-of-file, grows the file only as far as it must, leaves every
  range it does not touch and the content of every other path as they were, and is refused on a
  read-only handle.\<close>

theorem mem_read_after_write:
  assumes ok: "fs_ok m0" and opened: "mem_Open m0 path fl = Inr (m, f)" and w: "\<not> OpenReadOnly fl"
  shows "\<exists>m'. mem_WriteAt m f p off = Inr m' \<and> fs_ok m'
    \<and> fst (mem_ReadAt m' f (length p) off) = p \<and> (p \<noteq> [] \<longrightarrow> \<not> snd (mem_ReadAt m' f (length p) off))
    \<and> mem_Size m' f = max (mem_Size m f) (off + length p)
    \<and> (\<forall>n i. (i + n \<le> off \<or> off + length p \<le> i) \<and> i + n \<le> mem_Size m f
          \<longrightarrow> fst (mem_ReadAt m' f n i) = fst (mem_ReadAt m f n i))
    \<and> (\<forall>other. other \<noteq> path \<longrightarrow> mem_Snapshot m' other = mem_Snapshot m0 other)
    \<and> mem_WriteAt m (f\<lparr>readOnly := True\<rparr>) p off = Inl ErrPermission"
proof -
  let ?d = "memWriteAt (buffers m (buffer f)) p off"
  let ?m' = "m\<lparr>buffers := (buffers m)(buffer f := ?d)\<rparr>"
  from fs_ok_Open[OF ok opened] have ok1: "fs_ok m" and here: "files m path = Some (buffer f)" by auto
  have wr: "mem_WriteAt m f p off = Inr ?m'"
    using opened w by (auto simp: mem_WriteAt_def mem_Open_def Let_def split: option.splits if_splits)
  have "mem_Snapshot m other = mem_Snapshot m0 other" if "other \<noteq> path" for other
  proof (cases "files m0 other")
    case (Some d)
    then have "d < next_buffer m0" using ok by (auto simp: fs_ok_def)
    then show ?thesis
      using Some opened that by (auto simp: mem_Open_def mem_Snapshot_def Let_def split: option.splits if_splits)
  qed (use opened that in \<open>auto simp: mem_Open_def mem_Snapshot_def Let_def split: option.splits if_splits\<close>)
  moreover have "mem_Snapshot ?m' other = mem_Snapshot m other" if "other \<noteq> path" for other
    using fs_ok_inj[OF ok1 here, of other] that by (cases "files m other") (auto simp: mem_Snapshot_def)
  moreover have "\<not> snd (memReadAt ?d (length p) off)" if "p \<noteq> []"
    using that memReadAt_eof[of "length p" ?d off] mem_file.size_wr[of "buffers m (buffer f)" p off] by simp
  ultimately show ?thesis
    using wr mem_file.read_own_write mem_file.read_other_write mem_file.size_wr fs_ok_WriteAt[OF ok1 wr]
    by (auto simp: mem_ReadAt_def mem_Size_def mem_WriteAt_def)
qed

theorem mem_read_after_write_witness:
  "\<exists>m'. mem_WriteAt (fst (projr (mem_Open NewMemFS ''db'' \<lparr>OpenCreate = True, OpenReadOnly = False, OpenExclusive = True\<rparr>)))
        \<lparr>buffer = 0, readOnly = False\<rparr> [1, 2, 3] 5 = Inr m'
    \<and> fst (mem_ReadAt m' \<lparr>buffer = 0, readOnly = False\<rparr> (length [1, 2, 3 :: nat]) 5) = [1, 2, 3]"
proof -
  let ?fl = "\<lparr>OpenCreate = True, OpenReadOnly = False, OpenExclusive = True\<rparr>"
  let ?m = "fst (projr (mem_Open NewMemFS ''db'' ?fl))"
  have "mem_Open NewMemFS ''db'' ?fl = Inr (?m, \<lparr>buffer = 0, readOnly = False\<rparr>)"
    by (simp add: mem_Open_def NewMemFS_def)
  from mem_read_after_write[OF fs_ok_NewMemFS this, of "[1, 2, 3]" 5] show ?thesis
    by auto
qed

end
