(* ===== verification/Wal.thy ===== *)
theory Wal
  imports Vfs_Mem
begin

text \<open>
  The write-ahead log: \<^verbatim>\<open>src/wal/wal.go\<close> (header, frame layout, chained checksums),
  \<^verbatim>\<open>src/wal/writer.go\<close> (the append path) and \<^verbatim>\<open>src/wal/reader.go\<close> (the recovery
  scan). The log's file is the byte buffer of \<open>Vfs_Mem\<close>, read and written through its
  \<^verbatim>\<open>ReadAt\<close>, \<^verbatim>\<open>WriteAt\<close> and \<^verbatim>\<open>Truncate\<close>; the file operations of that
  buffer do not fail, so the writer's I/O error returns do not appear.
\<close>

section \<open>FNV-1a\<close>

text \<open>The 32-bit and 64-bit FNV-1a hashes of Go's \<^verbatim>\<open>hash/fnv\<close>.\<close>

definition fnv_step :: "'a::len word \<Rightarrow> 'a word \<Rightarrow> byte \<Rightarrow> 'a word" where
  "fnv_step prime h b = (h XOR ucast b) * prime"

definition fnv32a :: "bytes \<Rightarrow> u32" where
  "fnv32a bs = foldl (fnv_step 16777619) 2166136261 bs"

definition fnv64a :: "bytes \<Rightarrow> u64" where
  "fnv64a bs = foldl (fnv_step 1099511628211) 14695981039346656037 bs"

section \<open>Header and frame layout\<close>

abbreviation WALHeaderSize :: nat where "WALHeaderSize \<equiv> 32"
abbreviation FrameHeaderSize :: nat where "FrameHeaderSize \<equiv> 24"
abbreviation WALMagic :: u32 where "WALMagic \<equiv> 0x44574C0A"
abbreviation WALFormatVersion :: u16 where "WALFormatVersion \<equiv> 1"

definition LSNEpoch :: u64 where
  "LSNEpoch = push_bit 40 1"

datatype wal_error = ErrBadWALMagic | ErrWALVersion | ErrWALHeaderCorrupt | ErrWALShort
  | ErrPageSizeMismatch | ErrEmptyCommit

record WALHeader =
  wFormatVersion :: u16
  wFlags :: u16
  wPageSize :: u32
  wCheckpointSeq :: u32
  wSalt1 :: u32
  wSalt2 :: u32

definition NewWALHeader :: "u32 \<Rightarrow> u32 \<Rightarrow> u32 \<Rightarrow> u32 \<Rightarrow> WALHeader" where
  "NewWALHeader pageSize checkpointSeq salt1 salt2 =
     \<lparr>wFormatVersion = WALFormatVersion, wFlags = 0, wPageSize = pageSize, wCheckpointSeq = checkpointSeq,
      wSalt1 = salt1, wSalt2 = salt2\<rparr>"

definition headerChecksum :: "bytes \<Rightarrow> u32 \<times> u32" where
  "headerChecksum b = (let sum = fnv64a b in (ucast sum, ucast (drop_bit 32 sum)))"

definition wal_prefix :: "WALHeader \<Rightarrow> bytes" where
  "wal_prefix h =
     le_put 4 WALMagic @ le_put 2 (wFormatVersion h) @ le_put 2 (wFlags h) @ le_put 4 (wPageSize h)
     @ le_put 4 (wCheckpointSeq h) @ le_put 4 (wSalt1 h) @ le_put 4 (wSalt2 h)"

definition EncodeWALHeader :: "WALHeader \<Rightarrow> bytes" where
  "EncodeWALHeader h =
     (let (c1, c2) = headerChecksum (wal_prefix h) in wal_prefix h @ le_put 4 c1 @ le_put 4 c2)"

definition DecodeWALHeader :: "bytes \<Rightarrow> wal_error + WALHeader" where
  "DecodeWALHeader b =
     (if length b < WALHeaderSize then Inl ErrWALShort
      else if get32 b 0 \<noteq> WALMagic then Inl ErrBadWALMagic
      else if get16 b 4 \<noteq> WALFormatVersion then Inl ErrWALVersion
      else if (get32 b 24, get32 b 28) \<noteq> headerChecksum (take 24 b) then Inl ErrWALHeaderCorrupt
      else Inr \<lparr>wFormatVersion = get16 b 4, wFlags = get16 b 6, wPageSize = get32 b 8,
        wCheckpointSeq = get32 b 12, wSalt1 = get32 b 16, wSalt2 = get32 b 20\<rparr>)"

definition BaseLSN :: "WALHeader \<Rightarrow> u64" where
  "BaseLSN h = ucast (wCheckpointSeq h) * LSNEpoch + 1"

definition initialPrevChecksum :: "WALHeader \<Rightarrow> u32" where
  "initialPrevChecksum h = fst (headerChecksum (take 24 (EncodeWALHeader h)))"

record FrameHeader =
  PageID :: u64
  FrameLSN :: u64
  CommitMarker :: u32
  fChecksum :: u32

definition IsCommit :: "FrameHeader \<Rightarrow> bool" where
  "IsCommit fh = (CommitMarker fh \<noteq> 0)"

definition encodeFrameHeaderPrefix :: "u64 \<Rightarrow> u64 \<Rightarrow> u32 \<Rightarrow> bytes" where
  "encodeFrameHeaderPrefix pageID lsn commitMarker = le_put 8 pageID @ le_put 8 lsn @ le_put 4 commitMarker"

definition frameChecksum :: "u32 \<Rightarrow> u32 \<Rightarrow> u32 \<Rightarrow> bytes \<Rightarrow> bytes \<Rightarrow> u32" where
  "frameChecksum salt1 salt2 prevCksum headerPrefix payload =
     fnv32a ((le_put 4 salt1 @ le_put 4 salt2 @ le_put 4 prevCksum) @ headerPrefix @ payload)"

definition FrameSize :: "u32 \<Rightarrow> nat" where
  "FrameSize pageSize = FrameHeaderSize + unat pageSize"

definition FrameOffset :: "u32 \<Rightarrow> u32 \<Rightarrow> nat" where
  "FrameOffset frameNo pageSize = WALHeaderSize + unat (frameNo - 1) * FrameSize pageSize"

section \<open>The writer\<close>

record PageImage =
  iPageID :: u64
  iPayload :: bytes

record Writer =
  wfile :: bytes
  wheader :: WALHeader
  wpageSize :: u32
  writeOffset :: nat
  nextFrame :: u32
  nextLSN :: u64
  prevCksum :: u32

definition CreateWriter :: "bytes \<Rightarrow> WALHeader \<Rightarrow> Writer" where
  "CreateWriter file h =
     \<lparr>wfile = memWriteAt (memTruncate file 0) (EncodeWALHeader h) 0, wheader = h, wpageSize = wPageSize h,
      writeOffset = WALHeaderSize, nextFrame = 1, nextLSN = BaseLSN h, prevCksum = initialPrevChecksum h\<rparr>"

definition ResumeWriter :: "bytes \<Rightarrow> WALHeader \<Rightarrow> u32 \<Rightarrow> u64 \<Rightarrow> u32 \<Rightarrow> Writer" where
  "ResumeWriter file h afterFrame next prev =
     \<lparr>wfile = file, wheader = h, wpageSize = wPageSize h,
      writeOffset = WALHeaderSize + unat afterFrame * FrameSize (wPageSize h),
      nextFrame = afterFrame + 1, nextLSN = next, prevCksum = prev\<rparr>"

definition appendFrame :: "Writer \<Rightarrow> u64 \<Rightarrow> u32 \<Rightarrow> bytes \<Rightarrow> Writer \<times> u64 \<times> u32" where
  "appendFrame w pageID commitMarker payload =
     (let lsn = nextLSN w;
          prefix = encodeFrameHeaderPrefix pageID lsn commitMarker;
          cksum = frameChecksum (wSalt1 (wheader w)) (wSalt2 (wheader w)) (prevCksum w) prefix payload;
          hdr = prefix @ le_put 4 cksum;
          f1 = memWriteAt (wfile w) hdr (writeOffset w);
          f2 = memWriteAt f1 payload (writeOffset w + FrameHeaderSize)
      in (w\<lparr>wfile := f2, prevCksum := cksum, writeOffset := writeOffset w + FrameSize (wpageSize w),
            nextFrame := nextFrame w + 1, nextLSN := nextLSN w + 1\<rparr>, lsn, nextFrame w))"

text \<open>The loop of \<^verbatim>\<open>AppendCommit\<close>: only the last frame carries the marker, and its LSN and
  number are the result.\<close>

fun append_loop :: "Writer \<Rightarrow> PageImage list \<Rightarrow> u32 \<Rightarrow> Writer \<times> u64 \<times> u32" where
  "append_loop w [] dbSize = (w, 0, 0)"
| "append_loop w [fr] dbSize = appendFrame w (iPageID fr) dbSize (iPayload fr)"
| "append_loop w (fr # g # rest) dbSize =
     append_loop (fst (appendFrame w (iPageID fr) 0 (iPayload fr))) (g # rest) dbSize"

definition AppendCommit :: "Writer \<Rightarrow> PageImage list \<Rightarrow> u32 \<Rightarrow> wal_error + (Writer \<times> u64 \<times> u32)" where
  "AppendCommit w frames dbSizePages =
     (if frames = [] then Inl ErrEmptyCommit
      else Inr (append_loop w frames (if dbSizePages = 0 then 1 else dbSizePages)))"

definition FrameCount :: "Writer \<Rightarrow> u32" where
  "FrameCount w = nextFrame w - 1"

section \<open>The recovery scan\<close>

record Frame =
  fHeader :: FrameHeader
  FrameNo :: u32
  fPayload :: bytes

record ScanResult =
  Committed :: "Frame list"
  DurableLSN :: u64
  DBSizePages :: u32
  LastFrameNo :: u32
  LastChecksum :: u32
  TornTail :: bool
  ScannedFrames :: u32

definition NoResult :: ScanResult where
  "NoResult = \<lparr>Committed = [], DurableLSN = 0, DBSizePages = 0, LastFrameNo = 0, LastChecksum = 0,
     TornTail = False, ScannedFrames = 0\<rparr>"

text \<open>The variables of the loop that it updates per frame.\<close>

record scan_state =
  frames :: "Frame list"
  lastCommitIdx :: int
  torn :: bool
  scanned :: u32

definition read_frame_header :: "bytes \<Rightarrow> FrameHeader" where
  "read_frame_header b =
     \<lparr>PageID = get64 b 0, FrameLSN = get64 b 8, CommitMarker = get32 b 16, fChecksum = get32 b 20\<rparr>"

definition note_frame :: "scan_state \<Rightarrow> Frame \<Rightarrow> scan_state" where
  "note_frame st f =
     (let fs = frames st @ [f] in
      st\<lparr>frames := fs, scanned := FrameNo f,
         lastCommitIdx := if IsCommit (fHeader f) then int (length fs) - 1 else lastCommitIdx st\<rparr>)"

function scan_loop :: "bytes \<Rightarrow> WALHeader \<Rightarrow> u32 \<Rightarrow> nat \<Rightarrow> u32 \<Rightarrow> scan_state \<Rightarrow> scan_state" where
  "scan_loop file hdr prev offset frameNo st =
     (let no = frameNo + 1;
          frameSize = FrameSize (wPageSize hdr);
          buf = fst (memReadAt file frameSize offset)
      in if length buf < frameSize then (if 0 < length buf then st\<lparr>torn := True\<rparr> else st)
         else let fh = read_frame_header buf;
                  payload = drop FrameHeaderSize buf;
                  want = frameChecksum (wSalt1 hdr) (wSalt2 hdr) prev (take 20 buf) payload
              in if want \<noteq> fChecksum fh then st\<lparr>torn := True\<rparr>
                 else scan_loop file hdr (fChecksum fh) (offset + frameSize) no
                        (note_frame st \<lparr>fHeader = fh, FrameNo = no, fPayload = payload\<rparr>))"
  by pat_completeness auto
termination
proof (relation "measure (\<lambda>(file, _, _, offset, _, _). length file - offset)", goal_cases)
  case (2 f hdr prev offset frameNo st no frameSize buf)
  then have "24 \<le> frameSize" "\<not> length buf < frameSize" by (simp_all add: FrameSize_def)
  moreover have "length buf \<le> length f - offset"
    using 2 by (auto simp: memReadAt_def Let_def split: if_splits)
  ultimately show ?case using 2 by simp
qed simp

declare scan_loop.simps [simp del]

definition finish_scan :: "scan_state \<Rightarrow> ScanResult" where
  "finish_scan st =
     (let res = NoResult\<lparr>TornTail := torn st, ScannedFrames := scanned st\<rparr> in
      if lastCommitIdx st \<ge> 0 then
        let c = take (nat (lastCommitIdx st + 1)) (frames st); l = last c in
        res\<lparr>Committed := c, DurableLSN := FrameLSN (fHeader l), DBSizePages := CommitMarker (fHeader l),
            LastFrameNo := FrameNo l, LastChecksum := fChecksum (fHeader l)\<rparr>
      else res)"

definition Scan :: "bytes \<Rightarrow> u32 \<Rightarrow> wal_error + ScanResult" where
  "Scan file expectedPageSize =
     (let hb = fst (memReadAt file WALHeaderSize 0) in
      if length hb < WALHeaderSize then Inr NoResult
      else case DecodeWALHeader hb of
        Inl e \<Rightarrow> Inr NoResult
      | Inr hdr \<Rightarrow>
          if wPageSize hdr \<noteq> expectedPageSize then Inl ErrPageSizeMismatch
          else Inr (finish_scan (scan_loop file hdr (initialPrevChecksum hdr) WALHeaderSize 0
                 \<lparr>frames = [], lastCommitIdx = -1, torn = False, scanned = 0\<rparr>)))"

section \<open>FNV-1a detects a changed byte\<close>

text \<open>Both steps of FNV-1a, the exclusive or and the multiplication by an odd prime, are
  permutations of the state, so two inputs that differ in one byte never collide.\<close>

lemma mult_unit_cancel:
  fixes a b p q :: "'a::len word"
  assumes "p * q = 1" and "a * p = b * p"
  shows "a = b"
proof -
  have "(a * p) * q = (b * p) * q" using assms(2) by simp
  then show ?thesis using assms(1) by (simp add: mult.assoc)
qed

lemma fnv_step_state: "p * q = 1 \<Longrightarrow> fnv_step p a c = fnv_step p b c \<longleftrightarrow> a = b"
  unfolding fnv_step_def using mult_unit_cancel xor_cancel_right by blast

lemma fnv_step_byte:
  fixes p :: "'a::len word"
  assumes "p * q = 1" "8 \<le> LENGTH('a)"
  shows "fnv_step p h c = fnv_step p h d \<longleftrightarrow> c = d"
proof
  assume "fnv_step p h c = fnv_step p h d"
  then have "ucast c XOR h = (ucast d XOR h :: 'a word)"
    unfolding fnv_step_def using mult_unit_cancel[OF assms(1)] by (simp add: xor.commute)
  then have "ucast (ucast c :: 'a word) = (ucast (ucast d :: 'a word) :: byte)" by (simp add: xor_cancel_right)
  then show "c = d" using assms(2) by (simp add: ucast_up_down)
qed simp

lemma fnv_fold_state: "p * q = 1 \<Longrightarrow> foldl (fnv_step p) a bs = foldl (fnv_step p) b bs \<longleftrightarrow> a = b"
  by (induction bs arbitrary: a b) (simp_all add: fnv_step_state)

lemma fnv_fold_update:
  fixes p :: "'a::len word"
  assumes pq: "p * q = 1" "8 \<le> LENGTH('a)" and i: "i < length bs" "c \<noteq> bs ! i"
  shows "foldl (fnv_step p) h (bs[i := c]) \<noteq> foldl (fnv_step p) h bs"
proof -
  have "bs = take i bs @ bs ! i # drop (Suc i) bs" and "bs[i := c] = take i bs @ c # drop (Suc i) bs"
    using i(1) by (simp_all add: id_take_nth_drop upd_conv_take_nth_drop)
  then have "foldl (fnv_step p) h bs = foldl (fnv_step p) (fnv_step p (foldl (fnv_step p) h (take i bs)) (bs ! i)) (drop (Suc i) bs)"
    and "foldl (fnv_step p) h (bs[i := c]) = foldl (fnv_step p) (fnv_step p (foldl (fnv_step p) h (take i bs)) c) (drop (Suc i) bs)"
    by (metis foldl_append foldl_Cons)+
  then show ?thesis using i(2) by (simp add: fnv_fold_state[OF pq(1)] fnv_step_byte[OF pq])
qed

lemma fnv32a_update: "i < length bs \<Longrightarrow> c \<noteq> bs ! i \<Longrightarrow> fnv32a (bs[i := c]) \<noteq> fnv32a bs"
  unfolding fnv32a_def by (rule fnv_fold_update[where q = 899433627]) simp_all

lemma fnv64a_update: "i < length bs \<Longrightarrow> c \<noteq> bs ! i \<Longrightarrow> fnv64a (bs[i := c]) \<noteq> fnv64a bs"
  unfolding fnv64a_def by (rule fnv_fold_update[where q = 14886173955864302971]) simp_all

lemma headerChecksum_inj: "headerChecksum a = headerChecksum b \<longleftrightarrow> fnv64a a = fnv64a b"
proof
  assume e: "headerChecksum a = headerChecksum b"
  have "bit (fnv64a a) n = bit (fnv64a b) n" if "n < 64" for n
  proof (cases "n < 32")
    case True
    have "bit (ucast (fnv64a a) :: u32) n = bit (ucast (fnv64a b) :: u32) n"
      using e by (simp add: headerChecksum_def Let_def)
    then show ?thesis using True by (simp add: bit_simps)
  next
    case False
    have "bit (ucast (drop_bit 32 (fnv64a a)) :: u32) (n - 32) = bit (ucast (drop_bit 32 (fnv64a b)) :: u32) (n - 32)"
      using e by (simp add: headerChecksum_def Let_def)
    moreover have "n - 32 < 32" using False that by simp
    ultimately show ?thesis using False that by (simp add: bit_simps)
  qed
  then show "fnv64a a = fnv64a b" by (intro bit_word_eqI) simp
qed (simp add: headerChecksum_def)

section \<open>The log header\<close>

lemma length_wal_prefix [simp]: "length (wal_prefix h) = 24"
  by (simp add: wal_prefix_def)

lemma length_EncodeWALHeader [simp]: "length (EncodeWALHeader h) = 32"
  by (simp add: EncodeWALHeader_def Let_def split: prod.splits)

lemma DecodeWALHeader_Encode:
  assumes "wFormatVersion h = WALFormatVersion"
  shows "DecodeWALHeader (EncodeWALHeader h @ rest) = Inr h"
proof -
  obtain c1 c2 where c: "headerChecksum (wal_prefix h) = (c1, c2)" by fastforce
  have g: "get32 (wal_prefix h @ r) 0 = WALMagic" "get16 (wal_prefix h @ r) 4 = wFormatVersion h"
    "get16 (wal_prefix h @ r) 6 = wFlags h" "get32 (wal_prefix h @ r) 8 = wPageSize h"
    "get32 (wal_prefix h @ r) 12 = wCheckpointSeq h" "get32 (wal_prefix h @ r) 16 = wSalt1 h"
    "get32 (wal_prefix h @ r) 20 = wSalt2 h" for r
    by (simp_all add: wal_prefix_def sub_def)
  show ?thesis
    using assms by (simp add: DecodeWALHeader_def EncodeWALHeader_def c g) (simp add: sub_def)
qed

lemma split_fields:
  "a + m \<le> length b \<Longrightarrow> sub b a m @ sub b (a + m) n = sub b a (m + n)"
  by (simp add: sub_def take_add ac_simps)

lemma Encode_DecodeWALHeader:
  assumes "DecodeWALHeader b = Inr h" and "length b = 32"
  shows "EncodeWALHeader h = b" and "wFormatVersion h = WALFormatVersion"
proof -
  have m: "get32 b 0 = WALMagic" and v: "get16 b 4 = WALFormatVersion"
    and c: "headerChecksum (take 24 b) = (get32 b 24, get32 b 28)"
    and h: "h = \<lparr>wFormatVersion = get16 b 4, wFlags = get16 b 6, wPageSize = get32 b 8,
        wCheckpointSeq = get32 b 12, wSalt1 = get32 b 16, wSalt2 = get32 b 20\<rparr>"
    using assms(1) by (auto simp: DecodeWALHeader_def split: if_splits)
  have "wal_prefix h = sub b 0 4 @ sub b 4 2 @ sub b 6 2 @ sub b 8 4 @ sub b 12 4 @ sub b 16 4 @ sub b 20 4"
    unfolding wal_prefix_def m[symmetric] using assms(2) by (simp add: h)
  also have "\<dots> = take 24 b"
    using assms(2) split_fields[of 16 4 b 4] split_fields[of 12 4 b 8] split_fields[of 8 4 b 12]
      split_fields[of 6 2 b 16] split_fields[of 4 2 b 18] split_fields[of 0 4 b 20] by (simp add: sub_def)
  finally have p: "wal_prefix h = take 24 b" .
  have "EncodeWALHeader h = take 24 b @ sub b 24 4 @ sub b 28 4"
    using assms(2) c by (simp add: EncodeWALHeader_def p)
  also have "\<dots> = b" using assms(2) split_fields[of 24 4 b 4] by (simp add: sub_def)
  finally show "EncodeWALHeader h = b" .
  show "wFormatVersion h = WALFormatVersion" using v by (simp add: h)
qed

text \<open>A field of the buffer changes when one of its bytes does.\<close>

lemma field_update:
  assumes "off \<le> i" "i < off + n" "off + n \<le> length b" "c \<noteq> b ! i" "8 * n \<le> LENGTH('a)"
  shows "(le_get (sub (b[i := c]) off n) :: 'a::len word) \<noteq> le_get (sub b off n)"
proof
  assume "(le_get (sub (b[i := c]) off n) :: 'a word) = le_get (sub b off n)"
  then have "le_put n (le_get (sub (b[i := c]) off n) :: 'a word) = le_put n (le_get (sub b off n) :: 'a word)" by simp
  then have "sub (b[i := c]) off n = sub b off n" using assms(3,5) by simp
  then have "sub (b[i := c]) off n ! (i - off) = sub b off n ! (i - off)" by simp
  then show False using assms(1-4) by (simp add: nth_sub)
qed

lemma sub_update_outside: "i < off \<or> off + n \<le> i \<Longrightarrow> sub (b[i := c]) off n = sub b off n"
  by (auto simp: sub_def drop_update_swap drop_update_cancel)

lemma DecodeWALHeader_corrupt:
  assumes "i < 32" and "c \<noteq> EncodeWALHeader h ! i"
  shows "\<exists>e. DecodeWALHeader ((EncodeWALHeader h)[i := c]) = Inl e"
proof -
  let ?b = "EncodeWALHeader h" let ?b' = "?b[i := c]"
  have ok: "headerChecksum (take 24 ?b) = (get32 ?b 24, get32 ?b 28)"
    by (simp add: EncodeWALHeader_def sub_def Let_def split: prod.splits)
  have "(get32 ?b' 24, get32 ?b' 28) \<noteq> headerChecksum (take 24 ?b')"
  proof (cases "i < 24")
    case True
    then have "fnv64a ((take 24 ?b)[i := c]) \<noteq> fnv64a (take 24 ?b)"
      using assms by (intro fnv64a_update) auto
    then show ?thesis
      using ok True by (simp add: sub_update_outside take_update_swap flip: headerChecksum_inj)
  next
    case False
    then have "get32 ?b' 24 \<noteq> get32 ?b 24 \<or> get32 ?b' 28 \<noteq> get32 ?b 28"
      using assms field_update[of 24 i 4 ?b c, where 'a = 32]
        field_update[of 28 i 4 ?b c, where 'a = 32] by (cases "i < 28") auto
    then show ?thesis using ok False by simp
  qed
  then show ?thesis by (auto simp: DecodeWALHeader_def)
qed

end
