(* ===== verification/Wal_Scan.thy ===== *)
theory Wal_Scan
  imports Wal
begin

text \<open>
  The recovery scan of \<^verbatim>\<open>src/wal/reader.go\<close> on chains of frames: what a chain of frames
  is, that the scan walks exactly the chained part of a file, and which part of it is reported as
  committed.
\<close>

section \<open>Chains of frames\<close>

definition frame_prefix :: "Frame \<Rightarrow> bytes" where
  "frame_prefix f = encodeFrameHeaderPrefix (PageID (fHeader f)) (FrameLSN (fHeader f)) (CommitMarker (fHeader f))"

definition frame_bytes :: "Frame \<Rightarrow> bytes" where
  "frame_bytes f = frame_prefix f @ le_put 4 (fChecksum (fHeader f)) @ fPayload f"

definition wire :: "Frame list \<Rightarrow> bytes" where
  "wire fs = concat (map frame_bytes fs)"

text \<open>Frames numbered on from \<open>no\<close> whose checksums chain on from \<open>prev\<close>.\<close>

fun chained :: "WALHeader \<Rightarrow> u32 \<Rightarrow> u32 \<Rightarrow> Frame list \<Rightarrow> bool" where
  "chained h prev no [] = True"
| "chained h prev no (f # fs) \<longleftrightarrow>
     length (fPayload f) = unat (wPageSize h) \<and> FrameNo f = no + 1
     \<and> fChecksum (fHeader f) = frameChecksum (wSalt1 h) (wSalt2 h) prev (frame_prefix f) (fPayload f)
     \<and> chained h (fChecksum (fHeader f)) (no + 1) fs"

fun end_cksum :: "u32 \<Rightarrow> Frame list \<Rightarrow> u32" where
  "end_cksum prev [] = prev"
| "end_cksum prev (f # fs) = end_cksum (fChecksum (fHeader f)) fs"

lemma wire_simps [simp]: "wire [] = []" "wire (f # fs) = frame_bytes f @ wire fs" "wire (fs @ gs) = wire fs @ wire gs"
  by (simp_all add: wire_def)

lemma length_frame_prefix [simp]: "length (frame_prefix f) = 20"
  by (simp add: frame_prefix_def encodeFrameHeaderPrefix_def)

lemma length_frame_bytes [simp]: "length (frame_bytes f) = 24 + length (fPayload f)"
  by (simp add: frame_bytes_def)

lemma end_cksum_append [simp]: "end_cksum prev (fs @ gs) = end_cksum (end_cksum prev fs) gs"
  by (induction fs arbitrary: prev) auto

lemma end_cksum_last: "fs \<noteq> [] \<Longrightarrow> end_cksum prev fs = fChecksum (fHeader (last fs))"
  by (induction fs arbitrary: prev) auto

lemma chained_append:
  "chained h prev no (fs @ gs) \<longleftrightarrow> chained h prev no fs \<and> chained h (end_cksum prev fs) (no + of_nat (length fs)) gs"
  by (induction fs arbitrary: prev no) (auto simp: add.assoc)

lemma length_wire: "chained h prev no fs \<Longrightarrow> length (wire fs) = length fs * FrameSize (wPageSize h)"
  by (induction fs arbitrary: prev no) (auto simp: FrameSize_def)

lemma chained_take: "chained h prev no fs \<Longrightarrow> chained h prev no (take n fs)"
  by (metis append_take_drop_id chained_append)

lemma read_frame_bytes:
  "read_frame_header (frame_bytes f @ r) = fHeader f"
  "take 20 (frame_bytes f @ r) = frame_prefix f"
  "drop 24 (frame_bytes f) = fPayload f"
  by (simp_all add: read_frame_header_def frame_bytes_def frame_prefix_def encodeFrameHeaderPrefix_def sub_def)

lemma frame_bytes_of_buf:
  assumes "24 \<le> length b"
  shows "frame_bytes \<lparr>fHeader = read_frame_header b, FrameNo = n, fPayload = drop 24 b\<rparr> = b"
    and "frame_prefix \<lparr>fHeader = read_frame_header b, FrameNo = n, fPayload = drop 24 b\<rparr> = take 20 b"
proof -
  show "frame_prefix \<lparr>fHeader = read_frame_header b, FrameNo = n, fPayload = drop 24 b\<rparr> = take 20 b"
    using assms split_fields[of 8 8 b 4] split_fields[of 0 8 b 12]
    by (simp add: frame_prefix_def encodeFrameHeaderPrefix_def read_frame_header_def) (simp add: sub_def)
  moreover have "take 20 b @ sub b 20 4 @ drop 24 b = b"
  proof -
    have "take 20 b @ sub b 20 4 = take 24 b" using split_fields[of 0 20 b 4] assms by (simp add: sub_def)
    then show ?thesis by (metis append_assoc append_take_drop_id)
  qed
  ultimately show "frame_bytes \<lparr>fHeader = read_frame_header b, FrameNo = n, fPayload = drop 24 b\<rparr> = b"
    using assms unfolding frame_bytes_def by (simp add: read_frame_header_def)
qed

section \<open>The scan on a chain\<close>

lemma scan_step:
  assumes "length (fPayload f) = unat (wPageSize h)" and "drop off img = frame_bytes f @ rest"
    and "FrameNo f = no + 1"
  shows "scan_loop img h prev off no st =
    (if frameChecksum (wSalt1 h) (wSalt2 h) prev (frame_prefix f) (fPayload f) \<noteq> fChecksum (fHeader f)
     then st\<lparr>torn := True\<rparr>
     else scan_loop img h (fChecksum (fHeader f)) (off + FrameSize (wPageSize h)) (no + 1) (note_frame st f))"
proof -
  have "off < length img"
    using assms(2) by (metis append_is_Nil_conv drop_eq_Nil length_frame_bytes list.size(3) not_less
        add_is_0 zero_neq_numeral)
  then have b: "fst (memReadAt img (FrameSize (wPageSize h)) off) = frame_bytes f"
    using assms(1,2) by (simp add: memReadAt_def FrameSize_def)
  have f: "\<lparr>fHeader = fHeader f, FrameNo = no + 1, fPayload = fPayload f\<rparr> = f" using assms(3) by simp
  show ?thesis
    by (subst scan_loop.simps, unfold b Let_def)
      (use assms(1) read_frame_bytes(1,2)[of f "[]"] read_frame_bytes(3)[of f] in \<open>simp add: FrameSize_def f\<close>)
qed

lemma scan_chained:
  assumes "chained h prev no fs" and "drop off img = wire fs @ rest"
  shows "scan_loop img h prev off no st =
    scan_loop img h (end_cksum prev fs) (off + length (wire fs)) (no + of_nat (length fs)) (foldl note_frame st fs)"
  using assms
proof (induction fs arbitrary: prev off no st)
  case (Cons f fs)
  have d: "drop (off + FrameSize (wPageSize h)) img = wire fs @ rest"
  proof -
    have "drop (FrameSize (wPageSize h)) (drop off img) = wire fs @ rest"
      using Cons.prems by (simp add: FrameSize_def del: drop_drop)
    then show ?thesis by (simp add: add.commute)
  qed
  have p: "length (fPayload f) = unat (wPageSize h)" "FrameNo f = no + 1"
      "frameChecksum (wSalt1 h) (wSalt2 h) prev (frame_prefix f) (fPayload f) = fChecksum (fHeader f)"
    and c: "chained h (fChecksum (fHeader f)) (no + 1) fs"
    using Cons.prems(1) by auto
  show ?case
    using scan_step[OF p(1) _ p(2), of off img "wire fs @ rest" prev st] Cons.prems(2) p(1,3)
      Cons.IH[OF c d, of "note_frame st f"]
    by (simp add: FrameSize_def add.assoc)
qed simp

lemma scan_short:
  "length img - off < FrameSize (wPageSize h) \<Longrightarrow>
    scan_loop img h prev off no st = (if length img \<le> off then st else st\<lparr>torn := True\<rparr>)"
  by (subst scan_loop.simps) (simp add: memReadAt_def Let_def)

lemma scan_sound:
  "\<exists>fs t. chained h prev no fs \<and> sub img off (length (wire fs)) = wire fs
    \<and> scan_loop img h prev off no st = (foldl note_frame st fs)\<lparr>torn := t\<rparr>
    \<and> (t \<longrightarrow> torn st \<or> off + length (wire fs) < length img)"
proof (induction img h prev off no st rule: scan_loop.induct)
  case (1 img h prev off no st)
  let ?n = "FrameSize (wPageSize h)"
  let ?b = "fst (memReadAt img ?n off)"
  let ?f = "\<lparr>fHeader = read_frame_header ?b, FrameNo = no + 1, fPayload = drop 24 ?b\<rparr>"
  consider (short) "length img - off < ?n"
    | (bad) "\<not> length img - off < ?n" "frameChecksum (wSalt1 h) (wSalt2 h) prev (take 20 ?b) (drop 24 ?b) \<noteq> fChecksum (read_frame_header ?b)"
    | (good) "\<not> length img - off < ?n" "frameChecksum (wSalt1 h) (wSalt2 h) prev (take 20 ?b) (drop 24 ?b) = fChecksum (read_frame_header ?b)"
    by blast
  then show ?case
  proof cases
    case short
    show ?thesis
      by (rule exI[of _ "[]"], rule exI[of _ "torn (scan_loop img h prev off no st)"])
        (use scan_short[OF short, of prev no st] in \<open>auto simp: sub_def\<close>)
  next
    case bad
    have len: "?n \<le> length img - off" "24 \<le> ?n" using bad(1) by (simp_all add: FrameSize_def)
    then have b: "?b = sub img off ?n" by (auto simp: memReadAt_def sub_def Let_def)
    then have l: "length ?b = ?n" using len by simp
    show ?thesis
      by (rule exI[of _ "[]"], rule exI[of _ True], subst scan_loop.simps)
        (use bad(2) l len in \<open>auto simp: Let_def sub_def\<close>)
  next
    case good
    have len: "?n \<le> length img - off" "24 \<le> ?n" using good(1) by (simp_all add: FrameSize_def)
    then have b: "?b = sub img off ?n" by (auto simp: memReadAt_def sub_def Let_def)
    then have l: "length ?b = ?n" using len by simp
    have e: "scan_loop img h prev off no st
      = scan_loop img h (fChecksum (read_frame_header ?b)) (off + ?n) (no + 1) (note_frame st ?f)"
      by (subst scan_loop.simps) (use good(2) l in \<open>simp add: Let_def\<close>)
    from "1"[OF refl refl refl _ refl refl refl] l good(2)
    obtain fs t where fs: "chained h (fChecksum (read_frame_header ?b)) (no + 1) fs"
      "sub img (off + ?n) (length (wire fs)) = wire fs"
      "scan_loop img h (fChecksum (read_frame_header ?b)) (off + ?n) (no + 1) (note_frame st ?f)
        = (foldl note_frame (note_frame st ?f) fs)\<lparr>torn := t\<rparr>"
      "t \<longrightarrow> torn (note_frame st ?f) \<or> off + ?n + length (wire fs) < length img"
      by auto
    have fb: "frame_bytes ?f = ?b" "frame_prefix ?f = take 20 ?b"
      using frame_bytes_of_buf[of ?b "no + 1"] l len(2) by simp_all
    have "length (drop 24 ?b) = unat (wPageSize h)" using l by (simp add: FrameSize_def)
    then have c: "chained h prev no (?f # fs)"
      using fs(1) good(2) by (simp add: fb)
    have lw: "length (wire (?f # fs)) = ?n + length (wire fs)" by (simp add: fb(1) l)
    have "sub img off (?n + length (wire fs)) = ?b @ wire fs"
      using split_fields[of off ?n img "length (wire fs)"] len fs(2) by (simp only: b)
    then have s: "sub img off (length (wire (?f # fs))) = wire (?f # fs)"
      by (simp only: lw) (simp only: wire_simps(2) fb(1))
    have "torn (note_frame st ?f) = torn st" by (simp add: note_frame_def Let_def)
    with fs(4) have l: "t \<longrightarrow> torn st \<or> off + length (wire (?f # fs)) < length img"
      by (simp only: lw add.assoc)
    show ?thesis
      by (intro exI conjI, rule c, rule s) (use e fs(3) in \<open>simp only: foldl_Cons\<close>, rule l)
  qed
qed

section \<open>The committed prefix\<close>

fun upto_commit :: "Frame list \<Rightarrow> Frame list" where
  "upto_commit [] = []"
| "upto_commit (f # fs) = (if upto_commit fs \<noteq> [] \<or> IsCommit (fHeader f) then f # upto_commit fs else [])"

lemma upto_commit_snoc: "upto_commit (fs @ [f]) = (if IsCommit (fHeader f) then fs @ [f] else upto_commit fs)"
  by (induction fs) auto

lemma upto_commit_append: "upto_commit (fs @ gs) = (if upto_commit gs \<noteq> [] then fs @ upto_commit gs else upto_commit fs)"
  by (induction fs) auto

lemma upto_commit_prefix: "\<exists>rest. fs = upto_commit fs @ rest \<and> upto_commit rest = []"
  by (induction fs) auto

lemma upto_commit_last: "upto_commit fs \<noteq> [] \<Longrightarrow> IsCommit (fHeader (last (upto_commit fs)))"
  by (induction fs) auto

lemma upto_commit_full: "fs = [] \<or> IsCommit (fHeader (last fs)) \<Longrightarrow> upto_commit fs = fs"
  by (cases fs rule: rev_cases) (auto simp: upto_commit_snoc)

lemma upto_commit_none: "(\<And>f. f \<in> set fs \<Longrightarrow> \<not> IsCommit (fHeader f)) \<Longrightarrow> upto_commit fs = []"
  by (induction fs) auto

lemma chained_upto_commit: "chained h prev no fs \<Longrightarrow> chained h prev no (upto_commit fs)"
  by (metis upto_commit_prefix chained_append)

abbreviation scan_start :: scan_state where
  "scan_start \<equiv> \<lparr>frames = [], lastCommitIdx = -1, torn = False, scanned = 0\<rparr>"

lemma note_frames:
  "frames (foldl note_frame scan_start fs) = fs
    \<and> lastCommitIdx (foldl note_frame scan_start fs) = int (length (upto_commit fs)) - 1
    \<and> torn (foldl note_frame scan_start fs) = False"
proof (induction fs rule: rev_induct)
  case (snoc f fs)
  then show ?case by (simp add: note_frame_def Let_def upto_commit_snoc)
qed simp

text \<open>What the scan reports for a chain it accepted.\<close>

definition reports :: "ScanResult \<Rightarrow> Frame list \<Rightarrow> bool" where
  "reports r c \<longleftrightarrow> Committed r = c
     \<and> (if c = [] then DurableLSN r = 0 \<and> DBSizePages r = 0 \<and> LastFrameNo r = 0
        else DurableLSN r = FrameLSN (fHeader (last c)) \<and> DBSizePages r = CommitMarker (fHeader (last c))
          \<and> LastFrameNo r = FrameNo (last c) \<and> LastChecksum r = fChecksum (fHeader (last c)))"

lemma finish_scan_reports:
  "reports (finish_scan ((foldl note_frame scan_start fs)\<lparr>torn := t\<rparr>)) (upto_commit fs)
    \<and> TornTail (finish_scan ((foldl note_frame scan_start fs)\<lparr>torn := t\<rparr>)) = t"
proof -
  obtain rest where "fs = upto_commit fs @ rest" using upto_commit_prefix by blast
  then have "take (length (upto_commit fs)) fs = upto_commit fs" by (metis append_eq_conv_conj)
  then show ?thesis
    using note_frames[of fs]
    by (cases "upto_commit fs") (auto simp: finish_scan_def Let_def NoResult_def reports_def nat_add_distrib)
qed

lemma Scan_valid:
  assumes "DecodeWALHeader (take 32 img) = Inr h" and "32 \<le> length img"
  shows "Scan img (wPageSize h)
    = Inr (finish_scan (scan_loop img h (initialPrevChecksum h) 32 0 scan_start))"
proof -
  have "img \<noteq> []" using assms(2) by auto
  then show ?thesis using assms by (simp add: Scan_def memReadAt_def Let_def)
qed

text \<open>An image that starts with the header and a chain, followed by something the scan refuses.\<close>

lemma Scan_chain:
  assumes v: "wFormatVersion h = WALFormatVersion"
    and img: "img = EncodeWALHeader h @ wire fs @ rest"
    and c: "chained h (initialPrevChecksum h) 0 fs"
    and stop: "scan_loop img h (end_cksum (initialPrevChecksum h) fs) (32 + length (wire fs)) (of_nat (length fs))
        (foldl note_frame scan_start fs) = (foldl note_frame scan_start fs)\<lparr>torn := t\<rparr>"
  shows "\<exists>r. Scan img (wPageSize h) = Inr r \<and> reports r (upto_commit fs) \<and> TornTail r = t"
proof -
  have "DecodeWALHeader (take 32 img) = Inr h" using DecodeWALHeader_Encode[OF v, of "[]"] by (simp add: img)
  then have "Scan img (wPageSize h)
    = Inr (finish_scan (scan_loop img h (initialPrevChecksum h) 32 0 scan_start))"
    by (rule Scan_valid) (simp add: img)
  also have "scan_loop img h (initialPrevChecksum h) 32 0 scan_start = (foldl note_frame scan_start fs)\<lparr>torn := t\<rparr>"
    using scan_chained[OF c, of 32 img rest scan_start] stop by (simp add: img)
  finally show ?thesis using finish_scan_reports by blast
qed

lemma Scan_chain_short:
  assumes "wFormatVersion h = WALFormatVersion" and "chained h (initialPrevChecksum h) 0 fs"
    and "length rest < FrameSize (wPageSize h)"
  shows "\<exists>r. Scan (EncodeWALHeader h @ wire fs @ rest) (wPageSize h) = Inr r \<and> reports r (upto_commit fs)
    \<and> TornTail r = (rest \<noteq> [])"
proof (rule Scan_chain[OF assms(1) refl assms(2)])
  show "scan_loop (EncodeWALHeader h @ wire fs @ rest) h (end_cksum (initialPrevChecksum h) fs) (32 + length (wire fs))
      (of_nat (length fs)) (foldl note_frame scan_start fs) = (foldl note_frame scan_start fs)\<lparr>torn := rest \<noteq> []\<rparr>"
    using assms(3) note_frames[of fs] by (subst scan_short) auto
qed

lemma Scan_extends:
  assumes v: "wFormatVersion h = WALFormatVersion" and c: "chained h (initialPrevChecksum h) 0 fs"
  shows "\<exists>r gs. Scan (EncodeWALHeader h @ wire fs @ rest) (wPageSize h) = Inr r \<and> reports r (upto_commit (fs @ gs))"
proof -
  let ?img = "EncodeWALHeader h @ wire fs @ rest"
  obtain gs t where g: "scan_loop ?img h (end_cksum (initialPrevChecksum h) fs) (32 + length (wire fs)) (of_nat (length fs))
      (foldl note_frame scan_start fs) = (foldl note_frame (foldl note_frame scan_start fs) gs)\<lparr>torn := t\<rparr>"
    using scan_sound by blast
  have "DecodeWALHeader (take 32 ?img) = Inr h" using DecodeWALHeader_Encode[OF v, of "[]"] by simp
  then have "Scan ?img (wPageSize h) = Inr (finish_scan (scan_loop ?img h (initialPrevChecksum h) 32 0 scan_start))"
    by (rule Scan_valid) simp
  also have "scan_loop ?img h (initialPrevChecksum h) 32 0 scan_start = (foldl note_frame scan_start (fs @ gs))\<lparr>torn := t\<rparr>"
    using scan_chained[OF c, of 32 ?img rest scan_start] g by simp
  finally show ?thesis using finish_scan_reports by blast
qed

section \<open>What the writer appends\<close>

text \<open>The images of a commit with the marker each frame carries, and the frames they become.\<close>

fun marked :: "PageImage list \<Rightarrow> u32 \<Rightarrow> (PageImage \<times> u32) list" where
  "marked [] db = []"
| "marked [fr] db = [(fr, db)]"
| "marked (fr # g # rest) db = (fr, 0) # marked (g # rest) db"

definition frame_of :: "WALHeader \<Rightarrow> u32 \<Rightarrow> u64 \<Rightarrow> u32 \<Rightarrow> PageImage \<times> u32 \<Rightarrow> Frame" where
  "frame_of h prev lsn no im =
     (let prefix = encodeFrameHeaderPrefix (iPageID (fst im)) lsn (snd im) in
      \<lparr>fHeader = \<lparr>PageID = iPageID (fst im), FrameLSN = lsn, CommitMarker = snd im,
         fChecksum = frameChecksum (wSalt1 h) (wSalt2 h) prev prefix (iPayload (fst im))\<rparr>,
       FrameNo = no, fPayload = iPayload (fst im)\<rparr>)"

fun frames_of :: "WALHeader \<Rightarrow> u32 \<Rightarrow> u64 \<Rightarrow> u32 \<Rightarrow> (PageImage \<times> u32) list \<Rightarrow> Frame list" where
  "frames_of h prev lsn no [] = []"
| "frames_of h prev lsn no (im # ims) =
     (let f = frame_of h prev lsn no im in f # frames_of h (fChecksum (fHeader f)) (lsn + 1) (no + 1) ims)"

definition append_image :: "Writer \<Rightarrow> PageImage \<times> u32 \<Rightarrow> Writer" where
  "append_image w im = fst (appendFrame w (iPageID (fst im)) (snd im) (iPayload (fst im)))"

lemma append_loop_images: "fst (append_loop w ims db) = foldl append_image w (marked ims db)"
  by (induction w ims db rule: append_loop.induct) (auto simp: append_image_def)

text \<open>The writer stands right after the frames \<open>fs\<close> of its file.\<close>

definition at_tail :: "Writer \<Rightarrow> Frame list \<Rightarrow> bool" where
  "at_tail w fs \<longleftrightarrow>
     wFormatVersion (wheader w) = WALFormatVersion \<and> wpageSize w = wPageSize (wheader w)
     \<and> chained (wheader w) (initialPrevChecksum (wheader w)) 0 fs
     \<and> writeOffset w = 32 + length (wire fs)
     \<and> take (writeOffset w) (wfile w) = EncodeWALHeader (wheader w) @ wire fs
     \<and> prevCksum w = end_cksum (initialPrevChecksum (wheader w)) fs
     \<and> nextFrame w = of_nat (length fs) + 1"

lemma memWriteAt_inside:
  "off \<le> length d \<Longrightarrow> memWriteAt d p off = take off d @ p @ drop (off + length p) d"
  by (auto simp: memWriteAt_def write_at_def Let_def)

lemma memWriteAt_twice:
  assumes "off \<le> length d"
  shows "memWriteAt (memWriteAt d p off) q (off + length p) = take off d @ (p @ q) @ drop (off + length p + length q) d"
proof -
  have "memWriteAt d p off = (take off d @ p) @ drop (off + length p) d"
    using assms by (simp add: memWriteAt_inside)
  then show ?thesis using assms by (subst memWriteAt_inside) (simp_all add: ac_simps)
qed

end
