(* ===== verification/Wal_Recovery.thy ===== *)
theory Wal_Recovery
  imports Wal_Scan
begin

text \<open>
  The append path of \<^verbatim>\<open>src/wal/writer.go\<close> against the scan: the writer keeps its file a
  chain of frames, recovery returns what was committed, also after a cut, a corrupted byte or a
  resumed writer. The interface between the commit path and recovery is the locale \<open>commit_log\<close>.
\<close>

section \<open>The writer's file\<close>

lemma frame_of_simps [simp]:
  "fPayload (frame_of h prev lsn no im) = iPayload (fst im)" "FrameNo (frame_of h prev lsn no im) = no"
  "FrameLSN (fHeader (frame_of h prev lsn no im)) = lsn" "CommitMarker (fHeader (frame_of h prev lsn no im)) = snd im"
  "PageID (fHeader (frame_of h prev lsn no im)) = iPageID (fst im)"
  "fChecksum (fHeader (frame_of h prev lsn no im))
    = frameChecksum (wSalt1 h) (wSalt2 h) prev (frame_prefix (frame_of h prev lsn no im)) (iPayload (fst im))"
  by (simp_all add: frame_of_def Let_def frame_prefix_def)

lemma append_image_file:
  assumes "writeOffset w \<le> length (wfile w)"
  shows "append_image w im =
    (let f = frame_of (wheader w) (prevCksum w) (nextLSN w) (nextFrame w) im in
     w\<lparr>wfile := take (writeOffset w) (wfile w) @ frame_bytes f @ drop (writeOffset w + length (frame_bytes f)) (wfile w),
       prevCksum := fChecksum (fHeader f), writeOffset := writeOffset w + FrameSize (wpageSize w),
       nextFrame := nextFrame w + 1, nextLSN := nextLSN w + 1\<rparr>)"
proof -
  let ?f = "frame_of (wheader w) (prevCksum w) (nextLSN w) (nextFrame w) im"
  let ?hdr = "frame_prefix ?f @ le_put 4 (fChecksum (fHeader ?f))"
  have p: "encodeFrameHeaderPrefix (iPageID (fst im)) (nextLSN w) (snd im) = frame_prefix ?f"
    by (simp add: frame_prefix_def)
  have "memWriteAt (memWriteAt (wfile w) ?hdr (writeOffset w)) (iPayload (fst im)) (writeOffset w + 24)
      = take (writeOffset w) (wfile w) @ frame_bytes ?f @ drop (writeOffset w + length (frame_bytes ?f)) (wfile w)"
    using memWriteAt_twice[OF assms, of ?hdr "iPayload (fst im)"] by (simp add: frame_bytes_def add.assoc)
  then show ?thesis by (simp add: append_image_def appendFrame_def p Let_def)
qed

lemma at_tailD:
  assumes "at_tail w fs"
  shows "wFormatVersion (wheader w) = WALFormatVersion" "wpageSize w = wPageSize (wheader w)"
    "chained (wheader w) (initialPrevChecksum (wheader w)) 0 fs" "writeOffset w = 32 + length (wire fs)"
    "take (writeOffset w) (wfile w) = EncodeWALHeader (wheader w) @ wire fs"
    "prevCksum w = end_cksum (initialPrevChecksum (wheader w)) fs" "nextFrame w = of_nat (length fs) + 1"
  using assms unfolding at_tail_def by blast+

lemma at_tail_len:
  assumes "at_tail w fs" shows "writeOffset w \<le> length (wfile w)"
  using arg_cong[OF at_tailD(5)[OF assms], of length] at_tailD(4)[OF assms] by simp

lemma append_image_fields [simp]:
  "wheader (append_image w im) = wheader w" "nextLSN (append_image w im) = nextLSN w + 1"
  "nextFrame (append_image w im) = nextFrame w + 1" "wpageSize (append_image w im) = wpageSize w"
  "writeOffset (append_image w im) = writeOffset w + FrameSize (wpageSize w)"
  "prevCksum (append_image w im)
    = fChecksum (fHeader (frame_of (wheader w) (prevCksum w) (nextLSN w) (nextFrame w) im))"
  by (simp_all add: append_image_def appendFrame_def Let_def frame_prefix_def)

lemma append_image_tail:
  assumes a: "at_tail w fs" and p: "length (iPayload (fst im)) = unat (wPageSize (wheader w))"
  shows "at_tail (append_image w im) (fs @ [frame_of (wheader w) (prevCksum w) (nextLSN w) (nextFrame w) im])"
proof -
  let ?f = "frame_of (wheader w) (prevCksum w) (nextLSN w) (nextFrame w) im"
  have n: "length (frame_bytes ?f) = FrameSize (wpageSize w)"
    using at_tailD(2)[OF a] p by (simp add: FrameSize_def)
  have "chained (wheader w) (initialPrevChecksum (wheader w)) 0 (fs @ [?f])"
    using at_tailD(3,6,7)[OF a] p by (simp add: chained_append)
  moreover have "take (writeOffset w + FrameSize (wpageSize w)) (wfile (append_image w im))
      = EncodeWALHeader (wheader w) @ wire (fs @ [?f])"
    using at_tail_len[OF a] n at_tailD(4,5)[OF a] by (simp add: append_image_file Let_def)
  ultimately show ?thesis
    using at_tailD(1,2,4,7)[OF a] n unfolding at_tail_def by (simp add: FrameSize_def)
qed

lemma append_images_tail:
  assumes "at_tail w fs" and "\<forall>im \<in> set ims. length (iPayload (fst im)) = unat (wPageSize (wheader w))"
  shows "at_tail (foldl append_image w ims)
      (fs @ frames_of (wheader w) (prevCksum w) (nextLSN w) (nextFrame w) ims)
    \<and> wheader (foldl append_image w ims) = wheader w
    \<and> nextLSN (foldl append_image w ims) = nextLSN w + of_nat (length ims)
    \<and> writeOffset w \<le> writeOffset (foldl append_image w ims)
    \<and> length (wfile (foldl append_image w ims)) = max (length (wfile w)) (writeOffset (foldl append_image w ims))"
  using assms
proof (induction ims arbitrary: w fs)
  case Nil
  then show ?case using at_tail_len[of w fs] by simp
next
  case (Cons im ims)
  have t: "at_tail (append_image w im) (fs @ [frame_of (wheader w) (prevCksum w) (nextLSN w) (nextFrame w) im])"
    using Cons.prems by (intro append_image_tail) auto
  have "length (wfile (append_image w im)) = max (length (wfile w)) (writeOffset (append_image w im))"
    using at_tail_len[OF Cons.prems(1)] at_tailD(2)[OF Cons.prems(1)] Cons.prems(2)
    by (simp add: append_image_file Let_def FrameSize_def max_def)
  then show ?case
    using Cons.IH[OF t] Cons.prems(2) by (simp add: Let_def add.assoc max_def)
qed

lemma CreateWriter_tail:
  assumes "wFormatVersion h = WALFormatVersion"
  shows "at_tail (CreateWriter img h) []" and "wfile (CreateWriter img h) = EncodeWALHeader h"
proof -
  show f: "wfile (CreateWriter img h) = EncodeWALHeader h"
    by (simp add: CreateWriter_def memTruncate_def memWriteAt_inside)
  show "at_tail (CreateWriter img h) []"
    unfolding at_tail_def f using assms by (simp add: CreateWriter_def)
qed

section \<open>Sequences of commits\<close>

type_synonym commit = "PageImage list \<times> u32"

fun append_commits :: "Writer \<Rightarrow> commit list \<Rightarrow> wal_error + Writer" where
  "append_commits w [] = Inr w"
| "append_commits w (c # cs) =
     (case AppendCommit w (fst c) (snd c) of Inl e \<Rightarrow> Inl e | Inr (w', _) \<Rightarrow> append_commits w' cs)"

text \<open>What the log should hold for a sequence of commits: each image in order, zero markers but
  for the last image of a commit, which carries the database size (at least one page).\<close>

definition commit_records :: "commit \<Rightarrow> (PageImage \<times> u32) list" where
  "commit_records c = map (\<lambda>im. (im, 0)) (butlast (fst c)) @ [(last (fst c), if snd c = 0 then 1 else snd c)]"

definition log_records :: "commit list \<Rightarrow> (PageImage \<times> u32) list" where
  "log_records cs = concat (map commit_records cs)"

definition commit_ok :: "u32 \<Rightarrow> commit \<Rightarrow> bool" where
  "commit_ok ps c \<longleftrightarrow> fst c \<noteq> [] \<and> (\<forall>im \<in> set (fst c). length (iPayload im) = unat ps)"

definition frame_record :: "Frame \<Rightarrow> PageImage \<times> u32" where
  "frame_record f = (\<lparr>iPageID = PageID (fHeader f), iPayload = fPayload f\<rparr>, CommitMarker (fHeader f))"

text \<open>How many of the commits lie wholly within the first \<open>n\<close> frames.\<close>

fun whole_commits :: "nat \<Rightarrow> commit list \<Rightarrow> nat" where
  "whole_commits n [] = 0"
| "whole_commits n (c # cs) = (if length (fst c) \<le> n then Suc (whole_commits (n - length (fst c)) cs) else 0)"

lemma marked_records: "ims \<noteq> [] \<Longrightarrow> marked ims (if db = 0 then 1 else db) = commit_records (ims, db)"
  by (induction ims "if db = 0 then 1 else db" rule: marked.induct) (auto simp: commit_records_def)

lemma log_records_simps [simp]:
  "log_records [] = []" "log_records (c # cs) = commit_records c @ log_records cs"
  "log_records (cs @ ds) = log_records cs @ log_records ds"
  by (simp_all add: log_records_def)

lemma length_commit_records: "fst c \<noteq> [] \<Longrightarrow> length (commit_records c) = length (fst c)"
  by (simp add: commit_records_def Suc_leI)

lemma append_commits_images:
  "\<forall>c \<in> set cs. fst c \<noteq> [] \<Longrightarrow> append_commits w cs = Inr (foldl append_image w (log_records cs))"
proof (induction cs arbitrary: w)
  case (Cons c cs)
  then have "AppendCommit w (fst c) (snd c)
      = Inr (foldl append_image w (commit_records c), snd (append_loop w (fst c) (if snd c = 0 then 1 else snd c)))"
    using append_loop_images[of w "fst c" "if snd c = 0 then 1 else snd c"] marked_records[of "fst c" "snd c"]
    by (simp add: AppendCommit_def prod_eq_iff)
  then show ?case using Cons by simp
qed simp

lemma log_records_ok:
  assumes "\<forall>c \<in> set cs. commit_ok ps c" and "im \<in> set (log_records cs)"
  shows "length (iPayload (fst im)) = unat ps"
  using assms by (fastforce simp: log_records_def commit_records_def commit_ok_def dest: in_set_butlastD)

lemma take_log_records:
  assumes "\<forall>c \<in> set cs. fst c \<noteq> []"
  shows "\<exists>part. take n (log_records cs) = log_records (take (whole_commits n cs) cs) @ part \<and> (\<forall>im \<in> set part. snd im = 0)"
  using assms
proof (induction n cs rule: whole_commits.induct)
  case (2 n c cs)
  show ?case
  proof (cases "length (fst c) \<le> n")
    case True
    then show ?thesis using 2 by (auto simp: length_commit_records)
  next
    case False
    then have "take n (commit_records c) = map (\<lambda>im. (im, 0)) (take n (fst c))"
      by (simp add: commit_records_def take_map take_butlast)
    then show ?thesis using False 2(2) by (auto simp: length_commit_records)
  qed
qed simp

section \<open>Frames of a sequence of commits\<close>

lemma frames_of_records: "map frame_record (frames_of h prev lsn no ims) = ims"
  by (induction ims arbitrary: prev lsn no) (auto simp: Let_def frame_record_def)

lemma length_frames_of [simp]: "length (frames_of h prev lsn no ims) = length ims"
  by (metis frames_of_records length_map)

lemma frames_of_nth:
  "i < length ims \<Longrightarrow> FrameLSN (fHeader (frames_of h prev lsn no ims ! i)) = lsn + of_nat i
    \<and> FrameNo (frames_of h prev lsn no ims ! i) = no + of_nat i"
proof (induction ims arbitrary: prev lsn no i)
  case (Cons im ims)
  then show ?case by (cases i) (auto simp: Let_def)
qed simp

lemma frames_of_append:
  "frames_of h prev lsn no (xs @ ys) = frames_of h prev lsn no xs
     @ frames_of h (end_cksum prev (frames_of h prev lsn no xs)) (lsn + of_nat (length xs)) (no + of_nat (length xs)) ys"
  by (induction xs arbitrary: prev lsn no) (auto simp: Let_def add.assoc)

lemma take_frames_of: "take n (frames_of h prev lsn no ims) = frames_of h prev lsn no (take n ims)"
  by (induction ims arbitrary: prev lsn no n) (auto simp: Let_def take_Cons split: nat.splits)

lemma frame_record_eq: "f \<in> set (frames_of h prev lsn no ims) \<Longrightarrow> frame_record f \<in> set ims"
  by (metis frames_of_records image_eqI list.set_map)

lemma upto_commit_log:
  assumes "\<forall>c \<in> set cs. fst c \<noteq> []"
  shows "upto_commit (frames_of h prev lsn no (log_records cs)) = frames_of h prev lsn no (log_records cs)"
proof (cases "cs = []")
  case False
  then obtain ds c where cs: "cs = ds @ [c]" by (metis rev_exhaust)
  have "snd (last (log_records cs)) \<noteq> 0" by (simp add: cs commit_records_def)
  moreover have ne: "log_records cs \<noteq> []" by (simp add: cs commit_records_def)
  ultimately have "IsCommit (fHeader (last (frames_of h prev lsn no (log_records cs))))"
    by (metis IsCommit_def frame_record_def frames_of_records last_map list.map_disc_iff snd_conv)
  then show ?thesis by (simp add: upto_commit_full)
qed simp

lemma upto_commit_part:
  assumes "\<forall>im \<in> set part. snd im = 0"
  shows "upto_commit (frames_of h prev lsn no part) = []"
  using assms frame_record_eq by (intro upto_commit_none) (force simp: IsCommit_def frame_record_def)

lemma upto_commit_take:
  assumes "\<forall>c \<in> set cs. fst c \<noteq> []"
  shows "upto_commit (take n (frames_of h prev lsn no (log_records cs)))
    = frames_of h prev lsn no (log_records (take (whole_commits n cs) cs))"
proof -
  obtain part where p: "take n (log_records cs) = log_records (take (whole_commits n cs) cs) @ part"
    "\<forall>im \<in> set part. snd im = 0"
    using take_log_records[OF assms] by blast
  have "\<forall>c \<in> set (take (whole_commits n cs) cs). fst c \<noteq> []" using assms by (meson in_set_takeD)
  then show ?thesis
    by (simp add: take_frames_of p(1) frames_of_append upto_commit_append upto_commit_part[OF p(2)] upto_commit_log)
qed

section \<open>The interface of a commit log\<close>

text \<open>What the commit path and recovery rely on: a log that holds some records holds them and the
  commit's own after an append, and recovery returns exactly what the log holds.\<close>

locale commit_log =
  fixes holds :: "'w \<Rightarrow> 'r list \<Rightarrow> bool" and app :: "'w \<Rightarrow> 'c \<Rightarrow> 'w" and recs :: "'c \<Rightarrow> 'r list"
    and ok :: "'w \<Rightarrow> 'c \<Rightarrow> bool" and recovered :: "'w \<Rightarrow> 'r list"
  assumes app_holds: "holds w rs \<Longrightarrow> ok w c \<Longrightarrow> holds (app w c) (rs @ recs c)"
    and app_ok: "ok (app w c) d = ok w d"
    and recovered_holds: "holds w rs \<Longrightarrow> recovered w = rs"
begin

lemma app_all: "holds w rs \<Longrightarrow> \<forall>c \<in> set cs. ok w c \<Longrightarrow> holds (foldl app w cs) (rs @ concat (map recs cs))"
proof (induction cs arbitrary: w rs)
  case (Cons c cs)
  then show ?case using Cons.IH[of "app w c" "rs @ recs c"] by (simp add: app_holds app_ok)
qed simp

lemma replay: "holds w rs \<Longrightarrow> \<forall>c \<in> set cs. ok w c \<Longrightarrow> recovered (foldl app w cs) = rs @ concat (map recs cs)"
  using app_all recovered_holds by blast

end

definition wal_holds :: "Writer \<Rightarrow> (PageImage \<times> u32) list \<Rightarrow> bool" where
  "wal_holds w rs \<longleftrightarrow> (\<exists>fs. at_tail w fs \<and> length (wfile w) = writeOffset w \<and> map frame_record fs = rs \<and> upto_commit fs = fs)"

definition wal_append :: "Writer \<Rightarrow> commit \<Rightarrow> Writer" where
  "wal_append w c = foldl append_image w (commit_records c)"

definition wal_recovered :: "Writer \<Rightarrow> (PageImage \<times> u32) list" where
  "wal_recovered w = (case Scan (wfile w) (wPageSize (wheader w)) of Inl e \<Rightarrow> [] | Inr r \<Rightarrow> map frame_record (Committed r))"

lemma at_tail_Scan:
  assumes "at_tail w fs" and "length (wfile w) = writeOffset w"
  shows "\<exists>r. Scan (wfile w) (wPageSize (wheader w)) = Inr r \<and> reports r (upto_commit fs) \<and> \<not> TornTail r"
proof -
  have "wfile w = EncodeWALHeader (wheader w) @ wire fs @ []"
    using at_tailD(5)[OF assms(1)] assms(2) by simp
  then show ?thesis
    using Scan_chain_short[OF at_tailD(1,3)[OF assms(1)], of "[]"] by (simp add: FrameSize_def)
qed

lemma append_image_header: "wheader (foldl append_image w ims) = wheader w"
  by (induction ims arbitrary: w) auto

lemma commit_records_ok: "commit_ok ps c \<Longrightarrow> im \<in> set (commit_records c) \<Longrightarrow> length (iPayload (fst im)) = unat ps"
  using log_records_ok[of "[c]" ps im] by simp

interpretation wal_log: commit_log wal_holds wal_append commit_records "\<lambda>w. commit_ok (wPageSize (wheader w))" wal_recovered
proof
  fix w rs c
  assume h: "wal_holds w rs" and ok: "commit_ok (wPageSize (wheader w)) c"
  then obtain fs where fs: "at_tail w fs" "length (wfile w) = writeOffset w" "map frame_record fs = rs" "upto_commit fs = fs"
    by (auto simp: wal_holds_def)
  let ?gs = "frames_of (wheader w) (prevCksum w) (nextLSN w) (nextFrame w) (commit_records c)"
  have "\<forall>im \<in> set (commit_records c). length (iPayload (fst im)) = unat (wPageSize (wheader w))"
    using commit_records_ok[OF ok] by blast
  note t = append_images_tail[OF fs(1) this]
  have "upto_commit ?gs = ?gs"
    using upto_commit_log[of "[c]" "wheader w" "prevCksum w" "nextLSN w" "nextFrame w"] ok
    by (simp add: commit_ok_def)
  then have "upto_commit (fs @ ?gs) = fs @ ?gs" using fs(4) by (simp add: upto_commit_append)
  moreover have "map frame_record (fs @ ?gs) = rs @ commit_records c" using fs(3) by (simp add: frames_of_records)
  ultimately show "wal_holds (wal_append w c) (rs @ commit_records c)"
    unfolding wal_holds_def wal_append_def using t fs(2) by (metis max.absorb2)
next
  show "commit_ok (wPageSize (wheader (wal_append w c))) d = commit_ok (wPageSize (wheader w)) d" for w c d
    by (simp add: wal_append_def append_image_header)
next
  show "wal_recovered w = rs" if "wal_holds w rs" for w rs
    using that at_tail_Scan by (fastforce simp: wal_holds_def wal_recovered_def reports_def)
qed

lemma wal_append_all: "foldl wal_append w cs = foldl append_image w (log_records cs)"
  by (induction cs arbitrary: w) (auto simp: wal_append_def)

section \<open>Recovery of what was written\<close>

text \<open>The image a fresh log holds after a sequence of commits.\<close>

lemma fresh_log:
  assumes v: "wFormatVersion h = WALFormatVersion" and ok: "\<forall>c \<in> set cs. commit_ok (wPageSize h) c"
  defines "fs \<equiv> frames_of h (initialPrevChecksum h) (BaseLSN h) 1 (log_records cs)"
  shows "\<exists>w. append_commits (CreateWriter img h) cs = Inr w \<and> at_tail w fs \<and> wheader w = h
    \<and> wfile w = EncodeWALHeader h @ wire fs \<and> length (wfile w) = writeOffset w
    \<and> nextLSN w = BaseLSN h + of_nat (length (log_records cs))"
proof -
  let ?c = "CreateWriter img h" let ?w = "foldl append_image ?c (log_records cs)"
  have f: "wheader ?c = h" "prevCksum ?c = initialPrevChecksum h" "nextLSN ?c = BaseLSN h" "nextFrame ?c = 1"
    by (simp_all add: CreateWriter_def)
  have l0: "length (wfile ?c) = 32" by (simp add: CreateWriter_tail(2)[OF v])
  have "\<forall>im \<in> set (log_records cs). length (iPayload (fst im)) = unat (wPageSize (wheader ?c))"
    unfolding f(1) using log_records_ok[OF ok] by blast
  note a = append_images_tail[OF CreateWriter_tail(1)[OF v] this, unfolded f append_Nil l0, folded fs_def]
  then have t: "at_tail ?w fs" "wheader ?w = h" "nextLSN ?w = BaseLSN h + of_nat (length (log_records cs))"
    and len: "length (wfile ?w) = max 32 (writeOffset ?w)"
    by blast+
  have l: "length (wfile ?w) = writeOffset ?w" using len at_tailD(4)[OF t(1)] by simp
  have "append_commits ?c cs = Inr ?w"
    using ok by (intro append_commits_images) (auto simp: commit_ok_def)
  then show ?thesis using t l at_tailD(5)[OF t(1)] by auto
qed

text \<open>C24. Recovery returns what was committed. After any sequence of well-formed commits to a fresh
  log, the appends all succeed and a scan returns every page image of every commit, in order, with
  zero markers but for each commit's last image, consecutive LSNs from the generation's base,
  consecutive frame numbers, the database size of the last commit and no torn tail.\<close>

theorem wal_recovers_commits:
  assumes "wFormatVersion h = WALFormatVersion" and "\<forall>c \<in> set cs. commit_ok (wPageSize h) c"
  shows "\<exists>w r. append_commits (CreateWriter img h) cs = Inr w \<and> Scan (wfile w) (wPageSize h) = Inr r
    \<and> map frame_record (Committed r) = log_records cs \<and> \<not> TornTail r
    \<and> (\<forall>i < length (log_records cs). FrameLSN (fHeader (Committed r ! i)) = BaseLSN h + of_nat i
          \<and> FrameNo (Committed r ! i) = 1 + of_nat i)
    \<and> (cs \<noteq> [] \<longrightarrow> DBSizePages r = (if snd (last cs) = 0 then 1 else snd (last cs)) \<and> DurableLSN r = nextLSN w - 1)"
proof -
  let ?fs = "frames_of h (initialPrevChecksum h) (BaseLSN h) 1 (log_records cs)"
  obtain w where w: "append_commits (CreateWriter img h) cs = Inr w" "at_tail w ?fs" "wheader w = h"
      "length (wfile w) = writeOffset w" "nextLSN w = BaseLSN h + of_nat (length (log_records cs))"
    using fresh_log[OF assms, of img] by auto
  have u: "upto_commit ?fs = ?fs" using assms(2) by (intro upto_commit_log) (auto simp: commit_ok_def)
  obtain r where r: "Scan (wfile w) (wPageSize h) = Inr r" "reports r ?fs" "\<not> TornTail r"
    using at_tail_Scan[OF w(2,4)] u w(3) by auto
  have l: "DBSizePages r = (if snd (last cs) = 0 then 1 else snd (last cs)) \<and> DurableLSN r = nextLSN w - 1" if "cs \<noteq> []"
  proof -
    have ne: "log_records cs \<noteq> []" and m: "snd (last (log_records cs)) = (if snd (last cs) = 0 then 1 else snd (last cs))"
      using that by (cases cs rule: rev_cases; simp add: commit_records_def)+
    then have ne': "?fs \<noteq> []" by (metis frames_of_records list.map_disc_iff)
    then have "CommitMarker (fHeader (last ?fs)) = snd (last (log_records cs))"
      by (metis frame_record_def frames_of_records last_map snd_conv)
    moreover have "FrameLSN (fHeader (last ?fs)) = nextLSN w - 1"
      using ne ne' frames_of_nth[of "length (log_records cs) - 1" "log_records cs"] w(5)
      by (simp add: last_conv_nth of_nat_diff Suc_leI)
    ultimately show ?thesis using r(2) ne' m by (simp add: reports_def)
  qed
  have "Committed r = ?fs" using r(2) by (simp add: reports_def)
  then show ?thesis using w(1) r(1,3) l by (simp add: frames_of_records frames_of_nth)
qed

text \<open>A small log for the examples: two commits of one-byte pages, the second with size zero.\<close>

abbreviation ex_header :: WALHeader where "ex_header \<equiv> NewWALHeader 1 3 5 7"

abbreviation ex_commits :: "commit list" where
  "ex_commits \<equiv> [([\<lparr>iPageID = 4, iPayload = [9]\<rparr>, \<lparr>iPageID = 6, iPayload = [8]\<rparr>], 7), ([\<lparr>iPageID = 4, iPayload = [1]\<rparr>], 0)]"

definition ex_log :: bytes where
  "ex_log = (case append_commits (CreateWriter [] ex_header) ex_commits of Inl e \<Rightarrow> [] | Inr w \<Rightarrow> wfile w)"

lemma ex_version: "wFormatVersion ex_header = WALFormatVersion" and ex_page: "wPageSize ex_header = 1"
  by (simp_all add: NewWALHeader_def)

lemma ex_ok: "\<forall>c \<in> set ex_commits. commit_ok (wPageSize ex_header) c"
  by (simp add: commit_ok_def NewWALHeader_def)

theorem wal_recovers_commits_witness:
  "\<exists>w r. append_commits (CreateWriter [] ex_header) ex_commits = Inr w \<and> Scan (wfile w) 1 = Inr r
    \<and> map frame_record (Committed r)
      = [(\<lparr>iPageID = 4, iPayload = [9]\<rparr>, 0), (\<lparr>iPageID = 6, iPayload = [8]\<rparr>, 7), (\<lparr>iPageID = 4, iPayload = [1]\<rparr>, 1)]
    \<and> \<not> TornTail r"
  using wal_recovers_commits[OF ex_version ex_ok, of "[]"]
  by (auto simp: ex_page commit_records_def)

lemma wire_cut:
  assumes "chained h prev no fs"
  shows "\<exists>rest. take b (wire fs) = wire (take (b div FrameSize (wPageSize h)) fs) @ rest \<and> length rest < FrameSize (wPageSize h)"
proof -
  let ?n = "FrameSize (wPageSize h)" let ?m = "b div ?n"
  have pos: "0 < ?n" by (simp add: FrameSize_def)
  have w: "wire fs = wire (take ?m fs) @ wire (drop ?m fs)" by (metis append_take_drop_id wire_simps(3))
  show ?thesis
  proof (cases "?m < length fs")
    case True
    then have "length (wire (take ?m fs)) = ?m * ?n" using length_wire[OF chained_take[OF assms]] by simp
    moreover have "?m * ?n \<le> b" "b - ?m * ?n < ?n"
      using pos by (simp_all add: div_times_less_eq_dividend minus_div_mult_eq_mod)
    ultimately show ?thesis by (subst w) auto
  next
    case False
    then have "length (wire fs) \<le> b"
      using length_wire[OF assms] by (metis div_times_less_eq_dividend le_trans mult_le_mono1 not_less)
    then show ?thesis using False pos by auto
  qed
qed

lemma Scan_short_header: "length img < 32 \<Longrightarrow> Scan img ps = Inr NoResult"
  by (simp add: Scan_def memReadAt_def Let_def)

text \<open>C13. Commits are atomic across a crash. If only the first \<open>k\<close> bytes of the log survive,
  recovery returns exactly the commits that lie wholly within them, all their images and nothing
  of a commit cut short, for every \<open>k\<close>, a cut inside the log header included.\<close>

theorem wal_crash_atomic:
  assumes "wFormatVersion h = WALFormatVersion" and "\<forall>c \<in> set cs. commit_ok (wPageSize h) c"
  shows "\<exists>w r. append_commits (CreateWriter img h) cs = Inr w \<and> Scan (take k (wfile w)) (wPageSize h) = Inr r
    \<and> map frame_record (Committed r) = log_records (take (whole_commits ((k - 32) div FrameSize (wPageSize h)) cs) cs)"
proof -
  let ?fs = "frames_of h (initialPrevChecksum h) (BaseLSN h) 1 (log_records cs)"
  let ?n = "(k - 32) div FrameSize (wPageSize h)"
  have ne: "\<forall>c \<in> set cs. fst c \<noteq> []" using assms(2) by (auto simp: commit_ok_def)
  obtain w where w: "append_commits (CreateWriter img h) cs = Inr w" "at_tail w ?fs" "wheader w = h"
      "wfile w = EncodeWALHeader h @ wire ?fs"
    using fresh_log[OF assms, of img] by auto
  have c: "chained h (initialPrevChecksum h) 0 ?fs" using at_tailD(3)[OF w(2)] w(3) by simp
  show ?thesis
  proof (cases "k < 32")
    case True
    then have "whole_commits ?n cs = 0" using ne by (cases cs) auto
    then show ?thesis using w(1) True Scan_short_header[of "take k (wfile w)"] by (auto simp: NoResult_def)
  next
    case False
    obtain rest where rest: "take (k - 32) (wire ?fs) = wire (take ?n ?fs) @ rest" "length rest < FrameSize (wPageSize h)"
      using wire_cut[OF c] by blast
    have "take k (wfile w) = EncodeWALHeader h @ wire (take ?n ?fs) @ rest" using False rest(1) by (simp add: w(4))
    then obtain r where "Scan (take k (wfile w)) (wPageSize h) = Inr r" "reports r (upto_commit (take ?n ?fs))"
      using Scan_chain_short[OF assms(1) chained_take[OF c] rest(2)] by metis
    then show ?thesis using w(1) by (auto simp: reports_def upto_commit_take[OF ne] frames_of_records)
  qed
qed

theorem wal_crash_atomic_witness:
  "\<exists>w r. append_commits (CreateWriter [] ex_header) ex_commits = Inr w \<and> Scan (take 100 (wfile w)) 1 = Inr r
    \<and> map frame_record (Committed r) = [(\<lparr>iPageID = 4, iPayload = [9]\<rparr>, 0), (\<lparr>iPageID = 6, iPayload = [8]\<rparr>, 7)]"
  using wal_crash_atomic[OF ex_version ex_ok, of "[]" 100]
  by (auto simp: ex_page commit_records_def FrameSize_def)

section \<open>Corruption\<close>

lemma frame_seal_broken:
  assumes "24 \<le> length b" and ok: "frameChecksum s1 s2 prev (take 20 b) (drop 24 b) = get32 b 20"
    and i: "i < length b" and c: "c \<noteq> b ! i"
  shows "frameChecksum s1 s2 prev (take 20 (b[i := c])) (drop 24 (b[i := c])) \<noteq> get32 (b[i := c]) 20"
proof -
  let ?seed = "le_put 4 s1 @ le_put 4 s2 @ le_put 4 prev"
  let ?a = "?seed @ take 20 b @ drop 24 b"
  consider "i < 20" | "20 \<le> i" "i < 24" | "24 \<le> i" by linarith
  then show ?thesis
  proof cases
    case 1
    then have "?seed @ take 20 (b[i := c]) @ drop 24 (b[i := c]) = ?a[12 + i := c]"
      using assms(1) by (simp add: list_update_append take_update_swap drop_update_cancel)
    moreover have "?a ! (12 + i) = b ! i" using 1 assms(1) by (simp add: nth_append)
    ultimately show ?thesis
      using fnv32a_update[of "12 + i" ?a c] 1 assms by (simp add: frameChecksum_def sub_update_outside)
  next
    case 2
    then show ?thesis
      using ok field_update[of 20 i 4 b c, where 'a = 32] assms(1) c by (simp add: drop_update_cancel)
  next
    case 3
    then have i4: "\<not> i - 4 < 20" by simp
    with 3 have "?seed @ take 20 (b[i := c]) @ drop 24 (b[i := c]) = ?a[i + 8 := c]"
      using i by (simp add: list_update_append drop_update_swap)
    moreover have "?a ! (i + 8) = b ! i" using 3 i i4 by (simp add: nth_append)
    ultimately show ?thesis
      using fnv32a_update[of "i + 8" ?a c] 3 assms by (simp add: frameChecksum_def sub_update_outside)
  qed
qed

lemma scan_bad_frame:
  assumes "length b = FrameSize (wPageSize h)" and "drop off img = b @ rest"
    and "frameChecksum (wSalt1 h) (wSalt2 h) prev (take 20 b) (drop 24 b) \<noteq> get32 b 20"
  shows "scan_loop img h prev off no st = st\<lparr>torn := True\<rparr>"
proof -
  have b: "24 \<le> length b" using assms(1) by (simp add: FrameSize_def)
  let ?f = "\<lparr>fHeader = read_frame_header b, FrameNo = no + 1, fPayload = drop 24 b\<rparr>"
  have "fChecksum (read_frame_header b) = get32 b 20" by (simp add: read_frame_header_def)
  then show ?thesis
    using scan_step[of ?f h off img rest no prev st] frame_bytes_of_buf[OF b, of "no + 1"] assms
    by (simp add: FrameSize_def)
qed

lemma wire_bad_byte:
  assumes c: "chained h prev no fs" and i: "i < length (wire fs)"
  defines "n \<equiv> i div FrameSize (wPageSize h)" and "j \<equiv> i mod FrameSize (wPageSize h)"
  shows "n < length fs" and "(wire fs)[i := x] = wire (take n fs) @ (frame_bytes (fs ! n))[j := x] @ wire (drop (Suc n) fs)"
    and "wire fs ! i = frame_bytes (fs ! n) ! j" and "j < length (frame_bytes (fs ! n))"
proof -
  let ?s = "FrameSize (wPageSize h)"
  have s: "0 < ?s" by (simp add: FrameSize_def)
  have ij: "i = n * ?s + j" by (simp add: n_def j_def)
  show n: "n < length fs" using i length_wire[OF c] unfolding n_def by (simp add: less_mult_imp_div_less)
  have w: "fs = take n fs @ fs ! n # drop (Suc n) fs" using n by (simp add: id_take_nth_drop)
  have l: "length (wire (take n fs)) = n * ?s" using length_wire[OF chained_take[OF c]] n by simp
  have "chained h (end_cksum prev (take n fs)) (no + of_nat n) (fs ! n # drop (Suc n) fs)"
    using c w n by (metis chained_append length_take min.absorb4)
  then have f: "length (frame_bytes (fs ! n)) = ?s" by (simp add: FrameSize_def)
  show j: "j < length (frame_bytes (fs ! n))" unfolding f j_def using s by simp
  have "wire fs = wire (take n fs) @ frame_bytes (fs ! n) @ wire (drop (Suc n) fs)"
    by (metis w wire_simps(2,3))
  then show "(wire fs)[i := x] = wire (take n fs) @ (frame_bytes (fs ! n))[j := x] @ wire (drop (Suc n) fs)"
    and "wire fs ! i = frame_bytes (fs ! n) ! j"
    using j by (simp_all add: ij list_update_append nth_append l)
qed

lemma Scan_bad_byte:
  assumes v: "wFormatVersion h = WALFormatVersion" and c: "chained h (initialPrevChecksum h) 0 fs"
    and i: "i < length (wire fs)" and x: "x \<noteq> wire fs ! i"
  shows "\<exists>r. Scan (EncodeWALHeader h @ (wire fs)[i := x]) (wPageSize h) = Inr r
    \<and> reports r (upto_commit (take (i div FrameSize (wPageSize h)) fs)) \<and> TornTail r"
proof -
  let ?n = "i div FrameSize (wPageSize h)" let ?j = "i mod FrameSize (wPageSize h)"
  let ?f = "fs ! ?n" let ?b = "(frame_bytes ?f)[?j := x]"
  note w = wire_bad_byte[OF c i]
  let ?img = "EncodeWALHeader h @ wire (take ?n fs) @ ?b @ wire (drop (Suc ?n) fs)"
  let ?prev = "end_cksum (initialPrevChecksum h) (take ?n fs)"
  have "chained h ?prev (0 + of_nat ?n) (drop ?n fs)"
    using c w(1) chained_append[of h _ 0 "take ?n fs" "drop ?n fs"] by simp
  then have f: "length (fPayload ?f) = unat (wPageSize h)"
    "frameChecksum (wSalt1 h) (wSalt2 h) ?prev (frame_prefix ?f) (fPayload ?f) = fChecksum (fHeader ?f)"
    using w(1) by (simp_all add: Cons_nth_drop_Suc[symmetric])
  have g: "get32 (frame_bytes ?f) 20 = fChecksum (fHeader ?f)" by (simp add: frame_bytes_def sub_def)
  have "frameChecksum (wSalt1 h) (wSalt2 h) ?prev (take 20 ?b) (drop 24 ?b) \<noteq> get32 ?b 20"
    using f(2) g w(3,4) x read_frame_bytes(2)[of ?f "[]"] read_frame_bytes(3)[of ?f]
    by (intro frame_seal_broken) auto
  then have "scan_loop ?img h ?prev (32 + length (wire (take ?n fs))) (of_nat (length (take ?n fs)))
      (foldl note_frame scan_start (take ?n fs)) = (foldl note_frame scan_start (take ?n fs))\<lparr>torn := True\<rparr>"
    using f(1) by (intro scan_bad_frame[where rest = "wire (drop (Suc ?n) fs)"]) (simp_all add: FrameSize_def)
  from Scan_chain[OF v refl chained_take[OF c] this] show ?thesis by (simp add: w(2))
qed

text \<open>C25. Recovery is not fooled by a corrupted byte. If any one byte of the log is changed, in the
  header, a frame header, a payload or a checksum, recovery returns exactly the commits that end
  before that byte: FNV-1a never misses a one-byte change, and the chain stops there.\<close>

theorem wal_corruption_contained:
  assumes "wFormatVersion h = WALFormatVersion" and "\<forall>c \<in> set cs. commit_ok (wPageSize h) c"
    and "append_commits (CreateWriter img h) cs = Inr w"
    and "i < length (wfile w)" and "x \<noteq> wfile w ! i"
  shows "\<exists>r. Scan ((wfile w)[i := x]) (wPageSize h) = Inr r
    \<and> map frame_record (Committed r) = log_records (take (whole_commits ((i - 32) div FrameSize (wPageSize h)) cs) cs)"
proof -
  let ?fs = "frames_of h (initialPrevChecksum h) (BaseLSN h) 1 (log_records cs)"
  have ne: "\<forall>c \<in> set cs. fst c \<noteq> []" using assms(2) by (auto simp: commit_ok_def)
  have w: "at_tail w ?fs" "wheader w = h" "wfile w = EncodeWALHeader h @ wire ?fs"
    using fresh_log[OF assms(1,2), of img] assms(3) by auto
  have c: "chained h (initialPrevChecksum h) 0 ?fs" using at_tailD(3)[OF w(1)] w(2) by simp
  show ?thesis
  proof (cases "i < 32")
    case True
    then have "(wfile w)[i := x] = (EncodeWALHeader h)[i := x] @ wire ?fs" by (simp add: w(3) list_update_append)
    moreover obtain e where "DecodeWALHeader ((EncodeWALHeader h)[i := x]) = Inl e"
      using DecodeWALHeader_corrupt[OF True] assms(5) True by (auto simp: w(3) nth_append)
    moreover have "whole_commits ((i - 32) div FrameSize (wPageSize h)) cs = 0" using ne True by (cases cs) auto
    ultimately show ?thesis by (simp add: Scan_def memReadAt_def NoResult_def)
  next
    case False
    then have "(wfile w)[i := x] = EncodeWALHeader h @ (wire ?fs)[i - 32 := x]" by (simp add: w(3) list_update_append)
    moreover have "i - 32 < length (wire ?fs)" and "x \<noteq> wire ?fs ! (i - 32)"
      using False assms(4,5) by (auto simp: w(3) nth_append)
    ultimately obtain r where "Scan ((wfile w)[i := x]) (wPageSize h) = Inr r"
        "reports r (upto_commit (take ((i - 32) div FrameSize (wPageSize h)) ?fs))"
      using Scan_bad_byte[OF assms(1) c, of "i - 32" x] by metis
    then show ?thesis by (auto simp: reports_def upto_commit_take[OF ne] frames_of_records)
  qed
qed

theorem wal_corruption_contained_witness:
  "\<exists>r. Scan (ex_log[90 := ex_log ! 90 + 1]) 1 = Inr r
    \<and> map frame_record (Committed r) = [(\<lparr>iPageID = 4, iPayload = [9]\<rparr>, 0), (\<lparr>iPageID = 6, iPayload = [8]\<rparr>, 7)]"
proof -
  obtain w where w: "append_commits (CreateWriter [] ex_header) ex_commits = Inr w" "ex_log = wfile w"
    using fresh_log[OF ex_version ex_ok, of "[]"] by (auto simp: ex_log_def)
  have "length ex_log = 107" by code_simp
  then show ?thesis
    using wal_corruption_contained[OF ex_version ex_ok w(1), of 90 "ex_log ! 90 + 1"]
    by (simp add: w(2) ex_page commit_records_def FrameSize_def)
qed

section \<open>Any file, and resuming a log\<close>

lemma Scan_sound_frames:
  assumes "Scan img ps = Inr r" and "DecodeWALHeader (take 32 img) = Inr h" and "32 \<le> length img"
  shows "wPageSize h = ps \<and> (\<exists>fs t. chained h (initialPrevChecksum h) 0 fs \<and> sub img 32 (length (wire fs)) = wire fs
    \<and> reports r (upto_commit fs) \<and> TornTail r = t)"
proof -
  have ps: "wPageSize h = ps"
  proof (rule ccontr)
    assume "wPageSize h \<noteq> ps"
    moreover have "img \<noteq> []" using assms(3) by auto
    ultimately show False using assms by (simp add: Scan_def memReadAt_def Let_def)
  qed
  obtain fs t where "chained h (initialPrevChecksum h) 0 fs" "sub img 32 (length (wire fs)) = wire fs"
    "scan_loop img h (initialPrevChecksum h) 32 0 scan_start = (foldl note_frame scan_start fs)\<lparr>torn := t\<rparr>"
    using scan_sound by blast
  then show ?thesis
    using ps assms(1) Scan_valid[OF assms(2,3)] finish_scan_reports[where fs = fs and t = t] by auto
qed

lemma sub_prefix: "sub img off (length (a @ b)) = a @ b \<Longrightarrow> sub img off (length a) = a"
  by (drule arg_cong[of _ _ "take (length a)"]) (simp add: sub_def min_def)

lemma wal_scan_frames:
  assumes "Scan img ps = Inr r" and "Committed r \<noteq> []"
  shows "32 \<le> length img \<and> reports r (Committed r) \<and> (\<exists>h. DecodeWALHeader (take 32 img) = Inr h \<and> wPageSize h = ps
    \<and> chained h (initialPrevChecksum h) 0 (Committed r)
    \<and> sub img 32 (length (wire (Committed r))) = wire (Committed r)
    \<and> IsCommit (fHeader (last (Committed r))) \<and> DBSizePages r = CommitMarker (fHeader (last (Committed r))))"
proof -
  have len: "32 \<le> length img" using assms Scan_short_header[of img ps] by (force simp: NoResult_def)
  then have "img \<noteq> []" by auto
  then obtain h where h: "DecodeWALHeader (take 32 img) = Inr h"
    using assms len by (cases "DecodeWALHeader (take 32 img)") (auto simp: Scan_def memReadAt_def Let_def NoResult_def)
  obtain fs where fs: "wPageSize h = ps" "chained h (initialPrevChecksum h) 0 fs"
      "sub img 32 (length (wire fs)) = wire fs" "reports r (upto_commit fs)"
    using Scan_sound_frames[OF assms(1) h len] by blast
  have r: "Committed r = upto_commit fs" using fs(4) by (simp add: reports_def)
  obtain gs where "fs = upto_commit fs @ gs" using upto_commit_prefix by blast
  then have "wire fs = wire (Committed r) @ wire gs" by (metis r wire_simps(3))
  then have "sub img 32 (length (wire (Committed r))) = wire (Committed r)"
    using fs(3) by (metis sub_prefix)
  then show ?thesis
    using h len fs assms(2) chained_upto_commit[OF fs(2)] upto_commit_last[of fs] by (auto simp: r reports_def)
qed

text \<open>Recovery invents nothing. Whatever bytes the file holds, if a scan returns frames then the
  file has a valid header of the expected page size, the frames are the file's own bytes from the
  first frame on, their salted checksums chain without a gap from the header, they are numbered
  from one, and the last of them is a commit.\<close>

theorem wal_scan_sound:
  assumes "Scan img ps = Inr r" and "Committed r \<noteq> []"
  shows "\<exists>h. DecodeWALHeader (take 32 img) = Inr h \<and> wPageSize h = ps
    \<and> chained h (initialPrevChecksum h) 0 (Committed r)
    \<and> sub img 32 (length (wire (Committed r))) = wire (Committed r)
    \<and> IsCommit (fHeader (last (Committed r))) \<and> DBSizePages r = CommitMarker (fHeader (last (Committed r)))"
  using wal_scan_frames[OF assms] by blast

theorem wal_scan_sound_witness:
  "\<exists>r h. Scan ex_log 1 = Inr r \<and> DecodeWALHeader (take 32 ex_log) = Inr h
    \<and> chained h (initialPrevChecksum h) 0 (Committed r) \<and> length (Committed r) = 3"
proof -
  have "case Scan ex_log 1 of Inl e \<Rightarrow> False | Inr r \<Rightarrow> length (Committed r) = 3" by code_simp
  then obtain r where r: "Scan ex_log 1 = Inr r" "length (Committed r) = 3" by (cases "Scan ex_log 1") auto
  then have "Committed r \<noteq> []" by auto
  from wal_scan_sound[OF r(1) this] r show ?thesis by blast
qed

lemma Resume_tail:
  assumes "DecodeWALHeader (take 32 img) = Inr h" and "32 \<le> length img"
    and c: "chained h (initialPrevChecksum h) 0 fs" and s: "sub img 32 (length (wire fs)) = wire fs"
    and "fs \<noteq> []" and small: "length fs < 2 ^ 32"
  shows "at_tail (ResumeWriter img h (FrameNo (last fs)) next (fChecksum (fHeader (last fs)))) fs"
proof -
  have h: "EncodeWALHeader h = take 32 img" "wFormatVersion h = WALFormatVersion"
    using Encode_DecodeWALHeader[OF assms(1)] assms(2) by simp_all
  have no: "FrameNo (last fs) = of_nat (length fs)"
    using c assms(5) by (cases fs rule: rev_cases) (auto simp: chained_append)
  then have n: "unat (FrameNo (last fs)) * FrameSize (wPageSize h) = length (wire fs)"
    using small by (simp add: length_wire[OF c] unat_of_nat_id)
  have "take (32 + length (wire fs)) img = take 32 img @ wire fs"
    using s by (simp add: take_add sub_def)
  then show ?thesis
    unfolding at_tail_def ResumeWriter_def using h c n no end_cksum_last[OF assms(5)]
    by simp
qed

text \<open>C26. Writing goes on where recovery stopped. Take any file a scan accepts with at least one
  commit, whatever bytes follow the committed prefix, and resume the writer from the scan's result:
  after more commits a scan returns the frames recovered before followed by all of the new ones; once
  the new frames reach the old end of the file nothing else follows them.\<close>

theorem wal_resume:
  assumes sc: "Scan img ps = Inr r" and ne: "Committed r \<noteq> []" and small: "length (Committed r) < 2 ^ 32"
    and h: "DecodeWALHeader (take 32 img) = Inr h" and ok: "\<forall>c \<in> set cs. commit_ok ps c"
  shows "\<exists>w r' extra. append_commits (ResumeWriter img h (LastFrameNo r) next (LastChecksum r)) cs = Inr w
    \<and> Scan (wfile w) ps = Inr r'
    \<and> map frame_record (Committed r') = map frame_record (Committed r) @ log_records cs @ extra
    \<and> take (length (Committed r)) (Committed r') = Committed r
    \<and> (length img \<le> writeOffset w \<longrightarrow> extra = [])"
proof -
  have fs: "wPageSize h = ps" "chained h (initialPrevChecksum h) 0 (Committed r)"
      "sub img 32 (length (wire (Committed r))) = wire (Committed r)" "IsCommit (fHeader (last (Committed r)))"
    and len: "32 \<le> length img" and rp: "reports r (Committed r)"
    using wal_scan_frames[OF sc ne] h by auto
  let ?s = "ResumeWriter img h (LastFrameNo r) next (LastChecksum r)"
  let ?w = "foldl append_image ?s (log_records cs)"
  let ?gs = "frames_of h (prevCksum ?s) (nextLSN ?s) (nextFrame ?s) (log_records cs)"
  let ?all = "Committed r @ ?gs"
  have f: "wheader ?s = h" "wfile ?s = img" by (simp_all add: ResumeWriter_def)
  have "LastFrameNo r = FrameNo (last (Committed r)) \<and> LastChecksum r = fChecksum (fHeader (last (Committed r)))"
    using rp ne by (simp add: reports_def)
  then have t0: "at_tail ?s (Committed r)" using Resume_tail[OF h len fs(2,3) ne small] by simp
  have "\<forall>im \<in> set (log_records cs). length (iPayload (fst im)) = unat (wPageSize (wheader ?s))"
    unfolding f fs(1) using log_records_ok[OF ok] by blast
  note t = append_images_tail[OF t0 this, unfolded f]
  have a: "append_commits ?s cs = Inr ?w" using ok by (intro append_commits_images) (auto simp: commit_ok_def)
  have u: "upto_commit ?all = ?all"
    using fs(4) ok upto_commit_log[of cs h] by (simp add: upto_commit_append commit_ok_def upto_commit_full)
  show ?thesis
  proof (cases "length img \<le> writeOffset ?w")
    case True
    then have "length (wfile ?w) = writeOffset ?w" using t by simp
    then obtain r' where "Scan (wfile ?w) ps = Inr r'" "reports r' ?all"
      using at_tail_Scan[of ?w ?all] t u fs(1) by auto
    then show ?thesis using a by (intro exI[of _ ?w] exI[of _ r'] exI[of _ "[]"]) (simp add: reports_def frames_of_records)
  next
    case False
    have c: "chained h (initialPrevChecksum h) 0 ?all" and v: "wFormatVersion h = WALFormatVersion"
      using at_tailD(1,3)[of ?w ?all] t by auto
    have "wfile ?w = EncodeWALHeader h @ wire ?all @ drop (writeOffset ?w) (wfile ?w)"
      using at_tailD(5)[of ?w ?all] t by (metis append_assoc append_take_drop_id)
    then obtain r' gs where r': "Scan (wfile ?w) ps = Inr r'" "reports r' (upto_commit (?all @ gs))"
      using Scan_extends[OF v c] fs(1) by metis
    have "upto_commit (?all @ gs) = ?all @ upto_commit gs" by (metis append_Nil2 u upto_commit_append)
    then have "Committed r' = ?all @ upto_commit gs" using r'(2) by (simp add: reports_def)
    then show ?thesis
      using a r'(1) False
      by (intro exI[of _ ?w] exI[of _ r'] exI[of _ "map frame_record (upto_commit gs)"]) (simp add: frames_of_records)
  qed
qed

theorem wal_resume_witness:
  "\<exists>r w r'. Scan ex_log 1 = Inr r
    \<and> append_commits (ResumeWriter ex_log ex_header (LastFrameNo r) 100 (LastChecksum r)) [([\<lparr>iPageID = 2, iPayload = [5]\<rparr>], 9)] = Inr w
    \<and> Scan (wfile w) 1 = Inr r' \<and> take 3 (Committed r') = Committed r"
proof -
  have "case Scan ex_log 1 of Inl e \<Rightarrow> False | Inr r \<Rightarrow> length (Committed r) = 3" by code_simp
  then obtain r where r: "Scan ex_log 1 = Inr r" "length (Committed r) = 3" by (cases "Scan ex_log 1") auto
  have h: "DecodeWALHeader (take 32 ex_log) = Inr ex_header" by code_simp
  have "Committed r \<noteq> []" "length (Committed r) < 2 ^ 32" using r(2) by auto
  from wal_resume[OF r(1) this h, of "[([\<lparr>iPageID = 2, iPayload = [5]\<rparr>], 9)]" 100] r show ?thesis
    by (auto simp: commit_ok_def)
qed

text \<open>The condition that something was committed is needed: with no commit recovered the result's
  checksum is zero, not the header's seed, and a writer resumed from it appends frames that the
  next scan refuses.\<close>

lemma wal_resume_empty_loses:
  "Scan (EncodeWALHeader ex_header) 1 = Inr NoResult
    \<and> (case append_commits (ResumeWriter (EncodeWALHeader ex_header) ex_header 0 1 0) ex_commits of
         Inl e \<Rightarrow> False | Inr w \<Rightarrow> Scan (wfile w) 1 = Inr (NoResult\<lparr>TornTail := True\<rparr>))"
  by code_simp

end
