(* ===== verification/Mvcc_Version.thy ===== *)
theory Mvcc_Version
  imports Prelude
begin

text \<open>
  Version chains (\<^verbatim>\<open>src/mvcc/version.go\<close>): the committed versions of one record from
  the newest to the oldest, the version a snapshot sees, and the collection of versions no live
  snapshot can reach. The linked list of the code is a list here; its nodes belong to one chain.
\<close>

section \<open>Versions\<close>

datatype VersionKind = KindInsert | KindUpdate | KindDelete

record version =
  v_commitVer :: u64
  v_txnID :: u64
  v_kind :: VersionKind
  v_data :: bytes

type_synonym VersionChain = "version list"

definition visibleTo :: "version \<Rightarrow> u64 \<Rightarrow> bool" where
  "visibleTo v startVer \<longleftrightarrow> v_txnID v = 0 \<and> v_commitVer v \<le> startVer"

text \<open>The document a version shows: nothing for a tombstone.\<close>

definition shown :: "version \<Rightarrow> bytes option" where
  "shown v = (if v_kind v = KindDelete then None else Some (v_data v))"

fun visibleAt :: "VersionChain \<Rightarrow> u64 \<Rightarrow> bytes option" where
  "visibleAt [] startVer = None"
| "visibleAt (v # vs) startVer = (if \<not> visibleTo v startVer then visibleAt vs startVer else shown v)"

definition chain_Len :: "VersionChain \<Rightarrow> nat" where
  "chain_Len c = length c"

text \<open>The walk of \<^verbatim>\<open>gc\<close>: the chain cut after the newest version at or below the watermark,
  if there is one.\<close>

fun cut_tail :: "VersionChain \<Rightarrow> u64 \<Rightarrow> VersionChain option" where
  "cut_tail [] wm = None"
| "cut_tail (v # vs) wm = (if v_commitVer v \<le> wm then Some [v] else map_option (Cons v) (cut_tail vs wm))"

definition gc :: "VersionChain \<Rightarrow> u64 \<Rightarrow> VersionChain \<times> bool" where
  "gc c wm =
     (case cut_tail c wm of
        None \<Rightarrow> (c, False)
      | Some c' \<Rightarrow> (c', length c' = 1 \<and> v_kind (last c') = KindDelete \<and> v_commitVer (last c') < wm))"

section \<open>The interface of a versioned record\<close>

text \<open>What a store of versions promises its readers: a version put at \<open>cv\<close> is seen from \<open>cv\<close> on
  and by nobody below, and collection at a watermark changes nothing for a snapshot at or above it.\<close>

locale versioned =
  fixes okc :: "'c \<Rightarrow> bool" and read :: "'c \<Rightarrow> u64 \<Rightarrow> 'd option" and put :: "u64 \<Rightarrow> 'w \<Rightarrow> 'c \<Rightarrow> 'c"
    and eff :: "'w \<Rightarrow> 'd option" and collect :: "u64 \<Rightarrow> 'c \<Rightarrow> 'c"
  assumes put_old: "s < cv \<Longrightarrow> read (put cv w c) s = read c s"
    and put_new: "cv \<le> s \<Longrightarrow> read (put cv w c) s = eff w"
    and put_ok: "okc c \<Longrightarrow> okc (put cv w c)"
    and collect_read: "okc c \<Longrightarrow> wm \<le> s \<Longrightarrow> read (collect wm c) s = read c s"
    and collect_ok: "okc c \<Longrightarrow> okc (collect wm c)"
begin

text \<open>Later puts and collections never disturb an old enough snapshot.\<close>

lemma puts_old: "\<forall>(cv, w) \<in> set ws. s < cv \<Longrightarrow> read (fold (\<lambda>(cv, w). put cv w) ws c) s = read c s"
  by (induction ws arbitrary: c) (auto simp: put_old)

lemma put_collect_stable:
  "okc c \<Longrightarrow> wm \<le> s \<Longrightarrow> s < cv \<Longrightarrow> read (collect wm (put cv w c)) s = read c s"
  by (simp add: collect_read put_ok put_old)

end

definition committed :: "VersionChain \<Rightarrow> bool" where
  "committed c \<longleftrightarrow> (\<forall>v \<in> set c. v_txnID v = 0)"

text \<open>Publishing stamps the commit version and clears the transaction id.\<close>

definition stamp :: "u64 \<Rightarrow> version \<Rightarrow> version" where
  "stamp cv v = v\<lparr>v_commitVer := cv, v_txnID := 0\<rparr>"

definition push :: "u64 \<Rightarrow> version \<Rightarrow> VersionChain \<Rightarrow> VersionChain" where
  "push cv v c = stamp cv v # c"

lemma stamp_simps [simp]:
  "v_commitVer (stamp cv v) = cv" "v_txnID (stamp cv v) = 0" "shown (stamp cv v) = shown v"
  "visibleTo (stamp cv v) s \<longleftrightarrow> cv \<le> s"
  by (simp_all add: stamp_def shown_def visibleTo_def)

lemma cut_tail_visible:
  assumes "wm \<le> s"
  shows "committed c \<Longrightarrow> cut_tail c wm = Some c' \<Longrightarrow> visibleAt c' s = visibleAt c s"
proof (induction c arbitrary: c')
  case (Cons v c)
  show ?case
  proof (cases "v_commitVer v \<le> wm")
    case True
    then have "visibleTo v s" using Cons.prems(1) assms by (simp add: committed_def visibleTo_def)
    then show ?thesis using Cons.prems(2) True by auto
  next
    case False
    then obtain c'' where "cut_tail c wm = Some c''" "c' = v # c''" using Cons.prems by auto
    then show ?thesis using Cons.IH Cons.prems(1) by (simp add: committed_def)
  qed
qed simp

lemma cut_tail_prefix: "cut_tail c wm = Some c' \<Longrightarrow> \<exists>d. c' @ d = c"
proof (induction c arbitrary: c')
  case (Cons v c)
  show ?case
  proof (cases "v_commitVer v \<le> wm")
    case False
    then obtain c'' where "cut_tail c wm = Some c''" "c' = v # c''" using Cons.prems by auto
    then show ?thesis using Cons.IH by auto
  qed (use Cons.prems in auto)
qed simp

lemma gc_visible: "committed c \<Longrightarrow> wm \<le> s \<Longrightarrow> visibleAt (fst (gc c wm)) s = visibleAt c s"
  by (auto simp: gc_def cut_tail_visible split: option.split)

lemma gc_prefix: "\<exists>d. c = fst (gc c wm) @ d"
  using cut_tail_prefix[of c wm] by (cases "cut_tail c wm") (auto simp: gc_def)

lemma gc_committed: "committed c \<Longrightarrow> committed (fst (gc c wm))"
  unfolding committed_def by (metis UnCI gc_prefix set_append)

lemma gc_dead: "committed c \<Longrightarrow> wm \<le> s \<Longrightarrow> snd (gc c wm) \<Longrightarrow> visibleAt c s = None"
proof -
  assume c: "committed c" and s: "wm \<le> s" and dead: "snd (gc c wm)"
  then obtain v where v: "fst (gc c wm) = [v]" "v_kind v = KindDelete" "v_commitVer v < wm"
    by (auto simp: gc_def length_Suc_conv split: option.splits)
  have "v_txnID v = 0" using gc_committed[OF c, of wm] v(1) by (simp add: committed_def)
  then show "visibleAt c s = None"
    using gc_visible[OF c s] v s by (auto simp: visibleTo_def shown_def split: if_splits)
qed

interpretation chain: versioned committed visibleAt push shown "\<lambda>wm c. fst (gc c wm)"
proof
  show "visibleAt (push cv w c) s = visibleAt c s" if "s < cv" for s cv w c
    using that by (auto simp: push_def)
  show "visibleAt (push cv w c) s = shown w" if "cv \<le> s" for s cv w c
    using that by (simp add: push_def)
  show "committed (push cv w c)" if "committed c" for cv w c
    using that by (simp add: push_def committed_def)
qed (simp_all add: gc_visible gc_committed)

text \<open>Exactly one version at or below the watermark survives collection, the one the oldest
  snapshot may still see.\<close>

lemma gc_minimal:
  "length (filter (\<lambda>v. v_commitVer v \<le> wm) (fst (gc c wm))) \<le> 1"
proof -
  have none: "cut_tail c wm = None \<Longrightarrow> filter (\<lambda>v. v_commitVer v \<le> wm) c = []" for c
    by (induction c) (auto split: if_splits)
  have some: "cut_tail c wm = Some c' \<Longrightarrow> length (filter (\<lambda>v. v_commitVer v \<le> wm) c') = 1" for c c'
    by (induction c arbitrary: c') (auto split: if_splits)
  show ?thesis using none some by (auto simp: gc_def split: option.splits)
qed

text \<open>Collection is safe and thorough. For every snapshot at or above the watermark a collected
  chain shows what it showed before, and if the whole record is reported dead no such snapshot sees
  it; the kept versions are the newest ones in order, and at most one of them is at or below the
  watermark.\<close>

theorem gc_safe:
  assumes "committed c" and "wm \<le> s"
  shows "visibleAt (fst (gc c wm)) s = visibleAt c s \<and> (snd (gc c wm) \<longrightarrow> visibleAt c s = None)
    \<and> (\<exists>d. c = fst (gc c wm) @ d) \<and> length (filter (\<lambda>v. v_commitVer v \<le> wm) (fst (gc c wm))) \<le> 1"
  using gc_visible[OF assms] gc_dead[OF assms] gc_prefix[of c wm] gc_minimal[of wm c] by simp

theorem gc_safe_witness:
  "visibleAt (fst (gc [\<lparr>v_commitVer = 5, v_txnID = 0, v_kind = KindUpdate, v_data = [2]\<rparr>,
      \<lparr>v_commitVer = 3, v_txnID = 0, v_kind = KindInsert, v_data = [1]\<rparr>] 6)) 7 = Some [2]"
proof -
  let ?c = "[\<lparr>v_commitVer = 5, v_txnID = 0, v_kind = KindUpdate, v_data = [2]\<rparr>,
      \<lparr>v_commitVer = 3, v_txnID = 0, v_kind = KindInsert, v_data = [1]\<rparr>]"
  have "committed ?c" "(6 :: u64) \<le> 7" "visibleAt ?c 7 = Some [2]" by code_simp+
  then show ?thesis using gc_safe[of ?c 6 7] by simp
qed

end
