(* ===== verification/Mvcc_Oracle.thy ===== *)
theory Mvcc_Oracle
  imports Mvcc_Version "HOL-Library.AList" "HOL-Library.Multiset"
begin

text \<open>
  The version oracle (\<^verbatim>\<open>src/mvcc/oracle.go\<close> and the tracking state of
  \<^verbatim>\<open>src/mvcc/ssi.go\<close>): assignment of start and commit versions, the live snapshots and
  their watermark, and first-committer-wins validation over the committed-since index. A Go map is
  an association list with distinct keys; the loops over maps do not depend on the order. Every
  method runs under the oracle's mutex, so a method is one step.
\<close>

section \<open>State\<close>

datatype mvcc_error = ErrTxnDone | ConflictError u64 | SerializationFailureError | ErrReadOnly | ErrNotFound
  | ErrMaxRetries | DurableFailed nat

record committedTxn =
  ct_commitVer :: u64
  ct_writeSet :: "u64 list"

record ssiTxn =
  sx_startVer :: u64
  sx_reads :: "u64 list"
  sx_inConflict :: bool
  sx_outConflict :: bool
  sx_doomed :: bool

record ssiCommitted =
  sc_commitVer :: u64
  sc_startVer :: u64
  sc_reads :: "u64 list"
  sc_writes :: "u64 list"
  sc_inConflict :: bool
  sc_outConflict :: bool

record Oracle =
  o_commitVer :: u64
  o_nextTxn :: u64
  o_live :: "(u64 \<times> nat) list"
  o_minLive :: u64
  o_recent :: "committedTxn list"
  o_ssiLive :: "(u64 \<times> ssiTxn) list"
  o_ssiRecent :: "ssiCommitted list"

definition NewOracle :: "u64 \<Rightarrow> Oracle" where
  "NewOracle startCommitVer =
     \<lparr>o_commitVer = startCommitVer, o_nextTxn = 0, o_live = [], o_minLive = startCommitVer, o_recent = [],
      o_ssiLive = [], o_ssiRecent = []\<rparr>"

section \<open>Operations\<close>

text \<open>The zero value of a missing map entry.\<close>

definition live_count :: "(u64 \<times> nat) list \<Rightarrow> u64 \<Rightarrow> nat" where
  "live_count live s = (case map_of live s of None \<Rightarrow> 0 | Some n \<Rightarrow> n)"

definition Acquire :: "Oracle \<Rightarrow> Oracle \<times> u64 \<times> u64" where
  "Acquire ora =
     (let startVer = o_commitVer ora; tid = o_nextTxn ora + 1 in
      (ora\<lparr>o_nextTxn := tid,
         o_minLive := (if o_live ora = [] then startVer else o_minLive ora),
         o_live := AList.update startVer (live_count (o_live ora) startVer + 1) (o_live ora)\<rparr>,
       startVer, tid))"

definition min_key :: "(u64 \<times> nat) list \<Rightarrow> u64" where
  "min_key live = foldl (\<lambda>m s. if s < m then s else m) (NOT 0) (map fst live)"

definition releaseLocked :: "Oracle \<Rightarrow> u64 \<Rightarrow> Oracle" where
  "releaseLocked ora startVer =
     (let n = live_count (o_live ora) startVer;
          live' = (if n \<le> 1 then AList.delete startVer (o_live ora) else AList.update startVer (n - 1) (o_live ora));
          ora1 = ora\<lparr>o_live := live'\<rparr>
      in if startVer \<noteq> o_minLive ora then ora1
         else if live' = [] then ora1\<lparr>o_minLive := o_commitVer ora\<rparr>
         else ora1\<lparr>o_minLive := min_key live'\<rparr>)"

definition pruneLocked :: "Oracle \<Rightarrow> Oracle" where
  "pruneLocked ora = ora\<lparr>o_recent := dropWhile (\<lambda>c. ct_commitVer c \<le> o_minLive ora) (o_recent ora)\<rparr>"

definition Release :: "Oracle \<Rightarrow> u64 \<Rightarrow> Oracle" where
  "Release ora startVer = pruneLocked (releaseLocked ora startVer)"

fun intersects :: "u64 list \<Rightarrow> u64 list \<Rightarrow> bool" where
  "intersects [] bs = False"
| "intersects as [] = False"
| "intersects (a # as) (b # bs) =
     (if a = b then True else if a < b then intersects as (b # bs) else intersects (a # as) bs)"

definition sortedKeys :: "u64 list \<Rightarrow> u64 list" where
  "sortedKeys keys = sort keys"

text \<open>The validation loop, on the index from its newest entry back.\<close>

fun find_conflict :: "committedTxn list \<Rightarrow> u64 \<Rightarrow> u64 list \<Rightarrow> u64 option" where
  "find_conflict [] startVer writeSet = None"
| "find_conflict (c # cs) startVer writeSet =
     (if ct_commitVer c \<le> startVer then None
      else if intersects (ct_writeSet c) writeSet then Some (ct_commitVer c)
      else find_conflict cs startVer writeSet)"

text \<open>\<^verbatim>\<open>Commit\<close>. The durability hook is a function of the version to an error or none (a nil hook
  is the constant \<open>None\<close>); \<open>publish\<close> acts on the engine's state \<open>s\<close>.\<close>

definition oracle_Commit ::
  "Oracle \<Rightarrow> u64 \<Rightarrow> u64 list \<Rightarrow> (u64 \<Rightarrow> nat option) \<Rightarrow> (u64 \<Rightarrow> 's \<Rightarrow> 's) \<Rightarrow> 's \<Rightarrow> Oracle \<times> 's \<times> (mvcc_error + u64)" where
  "oracle_Commit ora startVer writeSet durable publish s =
     (case find_conflict (rev (o_recent ora)) startVer writeSet of
        Some cv \<Rightarrow> (pruneLocked (releaseLocked ora startVer), s, Inl (ConflictError cv))
      | None \<Rightarrow>
          let cv = o_commitVer ora + 1 in
          case durable cv of
            Some e \<Rightarrow> (pruneLocked (releaseLocked ora startVer), s, Inl (DurableFailed e))
          | None \<Rightarrow>
              let ora1 = ora\<lparr>o_commitVer := cv,
                    o_recent := o_recent ora @ [\<lparr>ct_commitVer = cv, ct_writeSet = writeSet\<rparr>]\<rparr>
              in (pruneLocked (releaseLocked ora1 startVer), publish cv s, Inr cv))"

definition Watermark :: "Oracle \<Rightarrow> u64" where
  "Watermark ora = o_minLive ora"

definition LiveSnapshots :: "Oracle \<Rightarrow> nat" where
  "LiveSnapshots ora = sum_list (map snd (o_live ora))"

section \<open>Sets of keys and the watermark\<close>

lemma intersects_iff: "sorted as \<Longrightarrow> sorted bs \<Longrightarrow> intersects as bs \<longleftrightarrow> set as \<inter> set bs \<noteq> {}"
proof (induction as bs rule: intersects.induct)
  case (3 a as b bs)
  consider "a = b" | "a < b" | "b < a" by (rule linorder_cases)
  then show ?case
  proof cases
    case 2
    then have "a \<notin> set (b # bs)" using 3(4) by auto
    moreover have "intersects as (b # bs) \<longleftrightarrow> set as \<inter> set (b # bs) \<noteq> {}" using 3(1,3,4) 2 by simp
    ultimately show ?thesis using 2 by simp
  next
    case 3
    then have "b \<notin> set (a # as)" using \<open>sorted (a # as)\<close> by auto
    moreover have "intersects (a # as) bs \<longleftrightarrow> set (a # as) \<inter> set bs \<noteq> {}"
      using "3.IH"(2) 3 "3.prems" by simp
    ultimately show ?thesis using 3 by auto
  qed simp
qed auto

lemma min_key_Min: "live \<noteq> [] \<Longrightarrow> min_key live = Min (fst ` set live)"
proof -
  have fold: "foldl (\<lambda>m s. if s < m then s else m) a xs = Min (insert a (set xs))" for a :: u64 and xs
  proof (induction xs arbitrary: a)
    case (Cons x xs)
    have "foldl (\<lambda>m s. if s < m then s else m) a (x # xs) = Min (insert (min x a) (set xs))"
    proof -
      have "(if x < a then x else a) = min x a" by (auto simp: min_def)
      then show ?thesis using Cons[of "min x a"] by (simp only: foldl_Cons)
    qed
    also have "\<dots> = Min (insert a (set (x # xs)))"
      by (cases "xs = []") (simp_all add: min.assoc min.commute min.left_commute)
    finally show ?case .
  qed simp
  assume "live \<noteq> []"
  then have "Min (insert (NOT 0) (fst ` set live)) = Min (fst ` set live)"
    by (subst Min_insert) (simp_all add: min_absorb2)
  then show ?thesis by (simp add: min_key_def fold)
qed

text \<open>The oracle's state against the multiset of start versions of the unfinished transactions.\<close>

definition live_ok :: "(u64 \<times> nat) list \<Rightarrow> u64 multiset \<Rightarrow> bool" where
  "live_ok live S \<longleftrightarrow> distinct (map fst live) \<and> (\<forall>s. map_of live s = (if s \<in># S then Some (count S s) else None))"

definition watermark_of :: "u64 \<Rightarrow> u64 multiset \<Rightarrow> u64" where
  "watermark_of cv S = (if S = {#} then cv else Min (set_mset S))"

definition oracle_ok :: "Oracle \<Rightarrow> u64 multiset \<Rightarrow> bool" where
  "oracle_ok ora S \<longleftrightarrow> live_ok (o_live ora) S \<and> (\<forall>s \<in># S. s \<le> o_commitVer ora)
     \<and> o_minLive ora = watermark_of (o_commitVer ora) S
     \<and> sorted_wrt (<) (map ct_commitVer (o_recent ora))
     \<and> (\<forall>c \<in> set (o_recent ora). o_minLive ora < ct_commitVer c \<and> ct_commitVer c \<le> o_commitVer ora \<and> sorted (ct_writeSet c))"

lemma live_ok_dom: "live_ok live S \<Longrightarrow> fst ` set live = set_mset S"
proof -
  assume "live_ok live S"
  then have "dom (map_of live) = set_mset S" by (auto simp: live_ok_def dom_def split: if_splits)
  then show ?thesis by (simp add: dom_map_of_conv_image_fst)
qed

lemma live_ok_Nil: "live_ok live S \<Longrightarrow> live = [] \<longleftrightarrow> S = {#}"
  using live_ok_dom[of live S] by (metis image_is_empty set_empty set_mset_eq_empty_iff)

lemma live_count_ok: "live_ok live S \<Longrightarrow> live_count live s = count S s"
  by (auto simp: live_ok_def live_count_def not_in_iff)

lemma live_ok_add:
  "live_ok live S \<Longrightarrow> live_ok (AList.update s (live_count live s + 1) live) (add_mset s S)"
  unfolding live_count_ok
  by (auto simp: live_ok_def update_conv' distinct_update live_count_def not_in_iff split: option.splits)

lemma live_ok_remove:
  assumes "live_ok live S" and "s \<in># S"
  shows "live_ok (if live_count live s \<le> 1 then AList.delete s live else AList.update s (live_count live s - 1) live) (S - {#s#})"
proof (cases "count S s \<le> 1")
  case True
  then have "count S s = 1" using assms(2) by (metis One_nat_def count_eq_zero_iff le_antisym less_Suc0 not_less)
  then show ?thesis
    using assms True unfolding live_count_ok[OF assms(1)]
    by (auto simp: live_ok_def delete_conv' distinct_delete in_diff_count)
next
  case False
  then show ?thesis
    using assms unfolding live_count_ok[OF assms(1)]
    by (auto simp: live_ok_def update_conv' distinct_update in_diff_count)
qed

lemma watermark_of_add: "\<forall>s \<in># S. s \<le> cv \<Longrightarrow> watermark_of cv (add_mset cv S) = watermark_of cv S"
proof (cases "S = {#}")
  case False
  assume "\<forall>s \<in># S. s \<le> cv"
  then have "Min (set_mset S) \<le> cv" using False by (meson Min_in finite_set_mset set_mset_eq_empty_iff)
  then show ?thesis using False by (simp add: watermark_of_def min_absorb2)
qed (simp add: watermark_of_def)

lemma watermark_of_le: "s \<in># S \<Longrightarrow> watermark_of cv S \<le> s" "\<forall>s \<in># S. s \<le> cv \<Longrightarrow> watermark_of cv S \<le> cv"
  by (auto simp: watermark_of_def)

lemma watermark_of_mono:
  assumes "\<forall>s \<in># S. s \<le> cv" and "cv \<le> cv'" and "T \<subseteq># S"
  shows "watermark_of cv S \<le> watermark_of cv' T"
proof (cases "T = {#}")
  case True
  then show ?thesis using watermark_of_le(2)[OF assms(1)] assms(2) by (simp add: watermark_of_def)
next
  case False
  then have "Min (set_mset T) \<in># S" using assms(3) by (meson Min_in finite_set_mset mset_subset_eqD set_mset_eq_empty_iff)
  from watermark_of_le(1)[OF this, of cv] show ?thesis using False by (simp add: watermark_of_def[of cv' T])
qed

section \<open>The oracle's invariant\<close>

lemma NewOracle_ok: "oracle_ok (NewOracle v) {#}"
  by (simp add: oracle_ok_def NewOracle_def live_ok_def watermark_of_def)

lemma Acquire_ok:
  assumes "oracle_ok ora S"
  shows "oracle_ok (fst (Acquire ora)) (add_mset (o_commitVer ora) S)
    \<and> o_minLive (fst (Acquire ora)) = o_minLive ora \<and> o_commitVer (fst (Acquire ora)) = o_commitVer ora
    \<and> o_recent (fst (Acquire ora)) = o_recent ora \<and> fst (snd (Acquire ora)) = o_commitVer ora"
proof -
  have l: "live_ok (o_live ora) S" and le: "\<forall>s \<in># S. s \<le> o_commitVer ora"
    and m: "o_minLive ora = watermark_of (o_commitVer ora) S"
    using assms by (auto simp: oracle_ok_def)
  have "(if o_live ora = [] then o_commitVer ora else o_minLive ora) = o_minLive ora"
    using live_ok_Nil[OF l] m by (simp add: watermark_of_def)
  then show ?thesis
    using assms live_ok_add[OF l, of "o_commitVer ora"] watermark_of_add[OF le] m
    by (simp add: Acquire_def Let_def oracle_ok_def)
qed

text \<open>Everything but the lower bound on the index, which pruning restores.\<close>

definition oracle_unpruned :: "Oracle \<Rightarrow> u64 multiset \<Rightarrow> bool" where
  "oracle_unpruned ora S \<longleftrightarrow> live_ok (o_live ora) S \<and> (\<forall>s \<in># S. s \<le> o_commitVer ora)
     \<and> sorted_wrt (<) (map ct_commitVer (o_recent ora))
     \<and> (\<forall>c \<in> set (o_recent ora). ct_commitVer c \<le> o_commitVer ora \<and> sorted (ct_writeSet c))"

lemma releaseLocked_simps [simp]:
  "o_commitVer (releaseLocked ora s) = o_commitVer ora" "o_recent (releaseLocked ora s) = o_recent ora"
  "o_nextTxn (releaseLocked ora s) = o_nextTxn ora"
  by (simp_all add: releaseLocked_def Let_def)

lemma pruneLocked_simps [simp]:
  "o_commitVer (pruneLocked ora) = o_commitVer ora" "o_minLive (pruneLocked ora) = o_minLive ora"
  "o_live (pruneLocked ora) = o_live ora" "o_nextTxn (pruneLocked ora) = o_nextTxn ora"
  by (simp_all add: pruneLocked_def)

lemma releaseLocked_watermark:
  assumes l: "live_ok (o_live ora) S" and s: "s \<in># S" and m: "o_minLive ora = watermark_of cv S"
  shows "o_minLive (releaseLocked ora s) = watermark_of (o_commitVer ora) (S - {#s#})"
    and "live_ok (o_live (releaseLocked ora s)) (S - {#s#})"
proof -
  let ?l = "if live_count (o_live ora) s \<le> 1 then AList.delete s (o_live ora)
    else AList.update s (live_count (o_live ora) s - 1) (o_live ora)"
  note r = live_ok_remove[OF l s]
  show "live_ok (o_live (releaseLocked ora s)) (S - {#s#})"
  proof -
    have "o_live (releaseLocked ora s) = ?l" by (simp add: releaseLocked_def Let_def)
    then show ?thesis using r by (simp only:)
  qed
  have min: "o_minLive ora = Min (set_mset S)" using m s by (auto simp: watermark_of_def)
  show "o_minLive (releaseLocked ora s) = watermark_of (o_commitVer ora) (S - {#s#})"
  proof (cases "s = o_minLive ora")
    case True
    then show ?thesis
      using live_ok_Nil[OF r] min_key_Min[of ?l] live_ok_dom[OF r]
      by (auto simp: releaseLocked_def Let_def watermark_of_def)
  next
    case False
    have "Min (set_mset S) \<in># S" using s by (intro Min_in) auto
    with False have ne: "Min (set_mset S) \<in># S - {#s#}" using min by (simp add: in_diff_count)
    have "Min (set_mset (S - {#s#})) = Min (set_mset S)"
      using ne by (intro Min_eqI) (auto dest: in_diffD)
    then show ?thesis using False ne min by (auto simp: releaseLocked_def Let_def watermark_of_def)
  qed
qed

lemma dropWhile_le_sorted:
  "sorted_wrt (<) (map ct_commitVer cs) \<Longrightarrow> dropWhile (\<lambda>c. ct_commitVer c \<le> wm) cs = filter (\<lambda>c. wm < ct_commitVer c) cs"
proof (induction cs)
  case (Cons c cs)
  show ?case
  proof (cases "ct_commitVer c \<le> wm")
    case False
    then have "\<forall>d \<in> set cs. wm < ct_commitVer d" using Cons.prems by force
    then show ?thesis using False by (simp add: filter_id_conv)
  qed (use Cons in auto)
qed simp

lemma release_prune_ok:
  assumes u: "oracle_unpruned ora S" and s: "s \<in># S" and m: "o_minLive ora = watermark_of cv S"
  shows "oracle_ok (pruneLocked (releaseLocked ora s)) (S - {#s#})
    \<and> o_recent (pruneLocked (releaseLocked ora s))
      = filter (\<lambda>c. watermark_of (o_commitVer ora) (S - {#s#}) < ct_commitVer c) (o_recent ora)"
proof -
  have l: "live_ok (o_live ora) S" and srt: "sorted_wrt (<) (map ct_commitVer (o_recent ora))"
    using u by (auto simp: oracle_unpruned_def)
  note r = releaseLocked_watermark[OF l s m]
  have rec: "o_recent (pruneLocked (releaseLocked ora s))
      = filter (\<lambda>c. watermark_of (o_commitVer ora) (S - {#s#}) < ct_commitVer c) (o_recent ora)"
    by (simp add: pruneLocked_def r dropWhile_le_sorted[OF srt])
  have "sorted_wrt (<) (map ct_commitVer (filter P (o_recent ora)))" for P
    using srt by (simp add: sorted_wrt_map sorted_wrt_filter)
  then show ?thesis
    using u rec r unfolding oracle_ok_def oracle_unpruned_def by (auto dest: in_diffD)
qed

lemma oracle_ok_unpruned: "oracle_ok ora S \<Longrightarrow> oracle_unpruned ora S"
  by (auto simp: oracle_ok_def oracle_unpruned_def)

lemma Release_ok:
  assumes "oracle_ok ora S" and "s \<in># S"
  shows "oracle_ok (Release ora s) (S - {#s#}) \<and> o_commitVer (Release ora s) = o_commitVer ora
    \<and> o_minLive ora \<le> o_minLive (Release ora s)
    \<and> o_recent (Release ora s) = filter (\<lambda>c. o_minLive (Release ora s) < ct_commitVer c) (o_recent ora)"
proof -
  have m: "o_minLive ora = watermark_of (o_commitVer ora) S" and le: "\<forall>s \<in># S. s \<le> o_commitVer ora"
    and l: "live_ok (o_live ora) S"
    using assms(1) by (auto simp: oracle_ok_def)
  show ?thesis
    using release_prune_ok[OF oracle_ok_unpruned[OF assms(1)] assms(2) m] releaseLocked_watermark(1)[OF l assms(2) m]
      watermark_of_mono[OF le order_refl, of "S - {#s#}"] m by (simp add: Release_def)
qed

section \<open>First committer wins\<close>

lemma find_conflict_complete:
  assumes "sorted_wrt (\<lambda>a b. ct_commitVer b < ct_commitVer a) cs" and "find_conflict cs startVer ws = None"
    and "c \<in> set cs" and "startVer < ct_commitVer c"
  shows "\<not> intersects (ct_writeSet c) ws"
  using assms by (induction cs) (auto split: if_splits)

lemma find_conflict_sound:
  "find_conflict cs startVer ws = Some cv \<Longrightarrow>
    \<exists>c \<in> set cs. ct_commitVer c = cv \<and> startVer < cv \<and> intersects (ct_writeSet c) ws"
  by (induction cs) (auto split: if_splits)

lemma find_conflict_iff:
  assumes "oracle_ok ora S" and "sorted ws"
  shows "find_conflict (rev (o_recent ora)) startVer ws = None \<longleftrightarrow>
    (\<forall>c \<in> set (o_recent ora). startVer < ct_commitVer c \<longrightarrow> set (ct_writeSet c) \<inter> set ws = {})"
proof -
  have s: "sorted_wrt (\<lambda>a b. ct_commitVer b < ct_commitVer a) (rev (o_recent ora))"
    and w: "\<And>c. c \<in> set (o_recent ora) \<Longrightarrow> intersects (ct_writeSet c) ws \<longleftrightarrow> set (ct_writeSet c) \<inter> set ws \<noteq> {}"
    using assms intersects_iff by (auto simp: oracle_ok_def sorted_wrt_rev sorted_wrt_map)
  show ?thesis
    using find_conflict_complete[OF s] find_conflict_sound[of "rev (o_recent ora)" startVer ws] w
    by (cases "find_conflict (rev (o_recent ora)) startVer ws") (auto, blast)
qed

lemma u64_succ: "(w :: u64) < NOT 0 \<Longrightarrow> w < w + 1"
proof -
  assume "w < NOT 0"
  have "1 + w \<noteq> 0"
  proof
    assume "1 + w = 0"
    then have "w = - 1" by (simp add: add_eq_0_iff)
    then show False using \<open>w < NOT 0\<close> by simp
  qed
  then show ?thesis by (simp add: word_less_nat_alt unatSuc add.commute)
qed

text \<open>The oracle after a successful commit.\<close>

lemma commit_oracle_ok:
  assumes o: "oracle_ok ora S" and s: "s \<in># S" and cv: "o_commitVer ora < NOT 0" and ws: "sorted ws"
  defines "ora' \<equiv> Release (ora\<lparr>o_commitVer := o_commitVer ora + 1,
    o_recent := o_recent ora @ [\<lparr>ct_commitVer = o_commitVer ora + 1, ct_writeSet = ws\<rparr>]\<rparr>) s"
  shows "oracle_ok ora' (S - {#s#})" and "o_commitVer ora' = o_commitVer ora + 1" and "o_minLive ora \<le> o_minLive ora'"
    and "o_recent ora' = filter (\<lambda>c. o_minLive ora' < ct_commitVer c)
      (o_recent ora @ [\<lparr>ct_commitVer = o_commitVer ora + 1, ct_writeSet = ws\<rparr>])"
proof -
  let ?cv = "o_commitVer ora + 1" let ?e = "\<lparr>ct_commitVer = ?cv, ct_writeSet = ws\<rparr>"
  let ?ora1 = "ora\<lparr>o_commitVer := ?cv, o_recent := o_recent ora @ [?e]\<rparr>"
  have lt: "o_commitVer ora < ?cv" by (rule u64_succ[OF cv])
  have m: "o_minLive ?ora1 = watermark_of (o_commitVer ora) S" and le: "\<forall>s \<in># S. s \<le> o_commitVer ora"
    and l: "live_ok (o_live ?ora1) S" and rc: "\<forall>c \<in> set (o_recent ora). ct_commitVer c \<le> o_commitVer ora"
    using o by (auto simp: oracle_ok_def)
  have u: "oracle_unpruned ?ora1 S"
    using o ws lt unfolding oracle_unpruned_def oracle_ok_def by (fastforce simp: sorted_wrt_append)
  note r = release_prune_ok[OF u s m] releaseLocked_watermark(1)[OF l s m]
  show "oracle_ok ora' (S - {#s#})" "o_commitVer ora' = ?cv"
    using r by (simp_all add: ora'_def Release_def)
  show "o_minLive ora \<le> o_minLive ora'"
    using watermark_of_mono[OF le less_imp_le[OF lt], of "S - {#s#}"] r m by (simp add: ora'_def Release_def)
  show "o_recent ora' = filter (\<lambda>c. o_minLive ora' < ct_commitVer c) (o_recent ora @ [?e])"
    using r by (simp add: ora'_def Release_def)
qed

end
