(* ===== verification/Mvcc_Store.thy ===== *)
theory Mvcc_Store
  imports Mvcc_Oracle Index_Key
begin

text \<open>
  Transactions and the record store (\<^verbatim>\<open>src/mvcc/txn.go\<close>, \<^verbatim>\<open>src/mvcc/store.go\<close>)
  over the oracle and the version chains, and the system of a store with its transactions as a
  step relation.
\<close>

section \<open>Transactions\<close>

text \<open>A nil pending map is \<open>None\<close>.\<close>

record Txn =
  t_startVer :: u64
  t_commitVer :: u64
  t_txnID :: u64
  t_writable :: bool
  t_done :: bool
  t_pending :: "(u64 \<times> version) list option"
  t_writeSet :: "u64 list"

definition oracle_Begin :: "Oracle \<Rightarrow> bool \<Rightarrow> Oracle \<times> Txn" where
  "oracle_Begin ora writable =
     (let (ora', startVer, tid) = Acquire ora in
      (ora', \<lparr>t_startVer = startVer, t_commitVer = 0, t_txnID = tid, t_writable = writable, t_done = False,
         t_pending = None, t_writeSet = []\<rparr>))"

definition txn_note :: "Txn \<Rightarrow> u64 \<Rightarrow> version \<Rightarrow> Txn" where
  "txn_note t key v =
     (case t_pending t of
        None \<Rightarrow> t\<lparr>t_pending := Some [(key, v)], t_writeSet := [key]\<rparr>
      | Some p \<Rightarrow> t\<lparr>t_pending := Some (AList.update key v p), t_writeSet := List.insert key (t_writeSet t)\<rparr>)"

definition sortedWriteSet :: "Txn \<Rightarrow> u64 list" where
  "sortedWriteSet t = sortedKeys (t_writeSet t)"

section \<open>The store\<close>

record Store =
  s_oracle :: Oracle
  s_chains :: "(u64 \<times> VersionChain) list"
  s_nextRID :: u64

definition NewStore :: Store where
  "NewStore = \<lparr>s_oracle = NewOracle 0, s_chains = [], s_nextRID = 0\<rparr>"

definition store_Begin :: "Store \<Rightarrow> bool \<Rightarrow> Store \<times> Txn" where
  "store_Begin st writable = (let (ora', t) = oracle_Begin (s_oracle st) writable in (st\<lparr>s_oracle := ora'\<rparr>, t))"

definition allocRID :: "Store \<Rightarrow> Store \<times> rid" where
  "allocRID st = (let n = s_nextRID st + 1 in (st\<lparr>s_nextRID := n\<rparr>, RID (ucast (drop_bit 16 n) + 1) (ucast n)))"

definition chain_of :: "(u64 \<times> VersionChain) list \<Rightarrow> u64 \<Rightarrow> VersionChain" where
  "chain_of cs key = (case map_of cs key of None \<Rightarrow> [] | Some c \<Rightarrow> c)"

text \<open>What the committed chains show a snapshot.\<close>

definition view :: "(u64 \<times> VersionChain) list \<Rightarrow> u64 \<Rightarrow> u64 \<Rightarrow> bytes option" where
  "view cs startVer key = (case map_of cs key of None \<Rightarrow> None | Some c \<Rightarrow> visibleAt c startVer)"

definition store_read :: "Store \<Rightarrow> Txn \<Rightarrow> rid \<Rightarrow> bytes option" where
  "store_read st t rid =
     (let key = RID_Encode rid in
      case Option.bind (t_pending t) (\<lambda>p. map_of p key) of
        Some v \<Rightarrow> shown v
      | None \<Rightarrow> view (s_chains st) (t_startVer t) key)"

definition store_Insert :: "Store \<Rightarrow> Txn \<Rightarrow> bytes \<Rightarrow> Store \<times> Txn \<times> (mvcc_error + rid)" where
  "store_Insert st t doc =
     (if \<not> t_writable t then (st, t, Inl ErrReadOnly)
      else let (st', rid) = allocRID st in
        (st', txn_note t (RID_Encode rid) \<lparr>v_commitVer = 0, v_txnID = t_txnID t, v_kind = KindInsert, v_data = doc\<rparr>, Inr rid))"

definition store_Update :: "Store \<Rightarrow> Txn \<Rightarrow> rid \<Rightarrow> bytes \<Rightarrow> Txn \<times> mvcc_error option" where
  "store_Update st t rid newDoc =
     (if \<not> t_writable t then (t, Some ErrReadOnly)
      else if store_read st t rid = None then (t, Some ErrNotFound)
      else (txn_note t (RID_Encode rid) \<lparr>v_commitVer = 0, v_txnID = t_txnID t, v_kind = KindUpdate, v_data = newDoc\<rparr>, None))"

definition store_Delete :: "Store \<Rightarrow> Txn \<Rightarrow> rid \<Rightarrow> Txn \<times> mvcc_error option" where
  "store_Delete st t rid =
     (if \<not> t_writable t then (t, Some ErrReadOnly)
      else if store_read st t rid = None then (t, Some ErrNotFound)
      else (txn_note t (RID_Encode rid) \<lparr>v_commitVer = 0, v_txnID = t_txnID t, v_kind = KindDelete, v_data = []\<rparr>, None))"

definition store_Get :: "Store \<Rightarrow> Txn \<Rightarrow> rid \<Rightarrow> mvcc_error + bytes" where
  "store_Get st t rid = (case store_read st t rid of Some doc \<Rightarrow> Inr doc | None \<Rightarrow> Inl ErrNotFound)"

fun publish :: "u64 \<Rightarrow> (u64 \<times> version) list \<Rightarrow> (u64 \<times> VersionChain) list \<Rightarrow> (u64 \<times> VersionChain) list" where
  "publish cv [] cs = cs"
| "publish cv ((key, v) # p) cs = publish cv p (AList.update key (push cv v (chain_of cs key)) cs)"

definition discard :: "Txn \<Rightarrow> Txn" where
  "discard t = t\<lparr>t_pending := None\<rparr>"

definition txn_Commit :: "Store \<Rightarrow> Txn \<Rightarrow> (u64 \<Rightarrow> nat option) \<Rightarrow> Store \<times> Txn \<times> mvcc_error option" where
  "txn_Commit st t durable =
     (if t_done t then (st, t, Some ErrTxnDone)
      else if \<not> t_writable t \<or> t_writeSet t = []
      then (st\<lparr>s_oracle := Release (s_oracle st) (t_startVer t)\<rparr>, t\<lparr>t_done := True\<rparr>, None)
      else
        (case oracle_Commit (s_oracle st) (t_startVer t) (sortedWriteSet t) durable
           (\<lambda>cv cs. publish cv (case t_pending t of None \<Rightarrow> [] | Some p \<Rightarrow> p) cs) (s_chains st) of
           (ora', cs, Inl e) \<Rightarrow> (st\<lparr>s_oracle := ora', s_chains := cs\<rparr>, (discard t)\<lparr>t_done := True\<rparr>, Some e)
         | (ora', cs, Inr cv) \<Rightarrow> (st\<lparr>s_oracle := ora', s_chains := cs\<rparr>, t\<lparr>t_commitVer := cv, t_done := True\<rparr>, None)))"

definition txn_Rollback :: "Store \<Rightarrow> Txn \<Rightarrow> Store \<times> Txn \<times> mvcc_error option" where
  "txn_Rollback st t =
     (if t_done t then (st, t, Some ErrTxnDone)
      else (st\<lparr>s_oracle := Release (s_oracle st) (t_startVer t)\<rparr>, (discard t)\<lparr>t_done := True\<rparr>, None))"

fun gc_chains :: "u64 \<Rightarrow> (u64 \<times> VersionChain) list \<Rightarrow> (u64 \<times> VersionChain) list \<times> nat" where
  "gc_chains wm [] = ([], 0)"
| "gc_chains wm ((key, c) # cs) =
     (let (cs', n) = gc_chains wm cs; (c', dead) = gc c wm; dropped = chain_Len c - chain_Len c' in
      if dead then (cs', n + dropped + chain_Len c') else ((key, c') # cs', n + dropped))"

definition store_GC :: "Store \<Rightarrow> Store \<times> nat" where
  "store_GC st = (let (cs, n) = gc_chains (Watermark (s_oracle st)) (s_chains st) in (st\<lparr>s_chains := cs\<rparr>, n))"

definition store_Versions :: "Store \<Rightarrow> nat" where
  "store_Versions st = sum_list (map (\<lambda>(key, c). chain_Len c) (s_chains st))"

text \<open>\<^verbatim>\<open>WithTransaction\<close>: the body acts on the store and the transaction. Both conflict errors unwrap
  to \<^verbatim>\<open>storage.ErrConflict\<close>.\<close>

abbreviation MaxRetries :: nat where "MaxRetries \<equiv> 3"

fun is_conflict :: "mvcc_error \<Rightarrow> bool" where
  "is_conflict (ConflictError v) = True"
| "is_conflict SerializationFailureError = True"
| "is_conflict e = False"

fun retry_loop ::
  "nat \<Rightarrow> Store \<Rightarrow> (Store \<Rightarrow> Txn \<Rightarrow> Store \<times> Txn \<times> mvcc_error option) \<Rightarrow> (u64 \<Rightarrow> nat option) \<Rightarrow> Store \<times> mvcc_error option" where
  "retry_loop 0 st fn durable = (st, Some ErrMaxRetries)"
| "retry_loop (Suc n) st fn durable =
     (let (st1, t) = store_Begin st True; (st2, t', err) = fn st1 t in
      case err of
        Some e \<Rightarrow> let (st3, _, _) = txn_Rollback st2 t' in
          if is_conflict e then retry_loop n st3 fn durable else (st3, Some e)
      | None \<Rightarrow>
          let (st3, _, cerr) = txn_Commit st2 t' durable in
          case cerr of None \<Rightarrow> (st3, None)
          | Some e \<Rightarrow> if is_conflict e then retry_loop n st3 fn durable else (st3, Some e))"

definition WithTransaction ::
  "Store \<Rightarrow> (Store \<Rightarrow> Txn \<Rightarrow> Store \<times> Txn \<times> mvcc_error option) \<Rightarrow> (u64 \<Rightarrow> nat option) \<Rightarrow> Store \<times> mvcc_error option" where
  "WithTransaction st fn durable = retry_loop MaxRetries st fn durable"

section \<open>The system\<close>

type_synonym sys = "Store \<times> Txn list"

text \<open>One call of the store's interface by some client, on any of the transactions begun so far. A
  commit stays below the last version number.\<close>

inductive mvcc_step :: "sys \<Rightarrow> sys \<Rightarrow> bool" where
  Begin: "store_Begin st w = (st', t) \<Longrightarrow> mvcc_step (st, ts) (st', ts @ [t])"
| Insert: "i < length ts \<Longrightarrow> store_Insert st (ts ! i) doc = (st', t', r) \<Longrightarrow> mvcc_step (st, ts) (st', ts[i := t'])"
| Update: "i < length ts \<Longrightarrow> store_Update st (ts ! i) rid doc = (t', e) \<Longrightarrow> mvcc_step (st, ts) (st, ts[i := t'])"
| Delete: "i < length ts \<Longrightarrow> store_Delete st (ts ! i) rid = (t', e) \<Longrightarrow> mvcc_step (st, ts) (st, ts[i := t'])"
| Commit: "i < length ts \<Longrightarrow> o_commitVer (s_oracle st) < NOT 0 \<Longrightarrow>
    txn_Commit st (ts ! i) durable = (st', t', e) \<Longrightarrow> mvcc_step (st, ts) (st', ts[i := t'])"
| Rollback: "i < length ts \<Longrightarrow> txn_Rollback st (ts ! i) = (st', t', e) \<Longrightarrow> mvcc_step (st, ts) (st', ts[i := t'])"
| GC: "store_GC st = (st', n) \<Longrightarrow> mvcc_step (st, ts) (st', ts)"

definition reachable :: "sys \<Rightarrow> bool" where
  "reachable s \<longleftrightarrow> mvcc_step\<^sup>*\<^sup>* (NewStore, []) s"

text \<open>The start versions of the unfinished transactions.\<close>

definition starts :: "Txn list \<Rightarrow> u64 multiset" where
  "starts ts = image_mset t_startVer (filter_mset (\<lambda>t. \<not> t_done t) (mset ts))"

definition txn_ok :: "Txn \<Rightarrow> bool" where
  "txn_ok t \<longleftrightarrow> (case t_pending t of None \<Rightarrow> True | Some p \<Rightarrow> distinct (map fst p))
     \<and> (\<not> t_done t \<longrightarrow> set (t_writeSet t) = (case t_pending t of None \<Rightarrow> {} | Some p \<Rightarrow> fst ` set p))"

definition chain_ok :: "u64 \<Rightarrow> VersionChain \<Rightarrow> bool" where
  "chain_ok cv c \<longleftrightarrow> committed c \<and> sorted_wrt (\<lambda>a b. v_commitVer b < v_commitVer a) c \<and> (\<forall>v \<in> set c. v_commitVer v \<le> cv)"

text \<open>Every version above the watermark is in the committed-since index under its key.\<close>

definition indexed :: "Oracle \<Rightarrow> u64 \<Rightarrow> VersionChain \<Rightarrow> bool" where
  "indexed ora key c \<longleftrightarrow> (\<forall>v \<in> set c. o_minLive ora < v_commitVer v \<longrightarrow>
     (\<exists>e \<in> set (o_recent ora). ct_commitVer e = v_commitVer v \<and> key \<in> set (ct_writeSet e)))"

text \<open>Conversely, every entry of the index is a version of each of its keys.\<close>

definition recorded :: "Oracle \<Rightarrow> (u64 \<times> VersionChain) list \<Rightarrow> bool" where
  "recorded ora cs \<longleftrightarrow> (\<forall>e \<in> set (o_recent ora). \<forall>key \<in> set (ct_writeSet e).
     \<exists>v \<in> set (chain_of cs key). v_commitVer v = ct_commitVer e)"

definition sys_ok :: "sys \<Rightarrow> bool" where
  "sys_ok = (\<lambda>(st, ts). oracle_ok (s_oracle st) (starts ts) \<and> distinct (map fst (s_chains st))
     \<and> (\<forall>(key, c) \<in> set (s_chains st). chain_ok (o_commitVer (s_oracle st)) c \<and> indexed (s_oracle st) key c)
     \<and> recorded (s_oracle st) (s_chains st) \<and> (\<forall>t \<in> set ts. txn_ok t))"

end
