(* ===== verification/Mvcc_Isolation.thy ===== *)
theory Mvcc_Isolation
  imports Mvcc_Store
begin

text \<open>
  Snapshot isolation of the store: the invariant of the reachable states, reads that never change
  under a snapshot, commits that become visible at once and never overwrite a version their snapshot
  did not see, and safe collection.
\<close>

section \<open>Chains of the store\<close>

lemma chain_of_map: "map_of cs k = Some c \<Longrightarrow> chain_of cs k = c" "map_of cs k = None \<Longrightarrow> chain_of cs k = []"
  by (simp_all add: chain_of_def)

lemma view_chain_of: "view cs s k = visibleAt (chain_of cs k) s"
  by (simp add: view_def chain_of_def split: option.split)

lemma publish_keys: "distinct (map fst cs) \<Longrightarrow> distinct (map fst (publish cv p cs))"
  by (induction cv p cs rule: publish.induct) (simp_all add: distinct_update)

lemma publish_chain_of:
  "distinct (map fst p) \<Longrightarrow> chain_of (publish cv p cs) k
    = (case map_of p k of None \<Rightarrow> chain_of cs k | Some v \<Rightarrow> push cv v (chain_of cs k))"
proof (induction cv p cs rule: publish.induct)
  case (2 cv key v p cs)
  then have "key \<notin> set (map fst p)" by simp
  then have "map_of p key = None" by (metis map_of_eq_None_iff list.set_map)
  then show ?case using 2 by (auto simp: chain_of_def update_conv' split: option.splits)
qed (simp add: chain_of_def)

lemma map_of_chain_of: "(k, c) \<in> set cs \<Longrightarrow> distinct (map fst cs) \<Longrightarrow> chain_of cs k = c"
  by (simp add: chain_of_def)

lemma gc_chains_fst [simp]:
  "fst (gc_chains wm []) = []"
  "fst (gc_chains wm ((k, c) # cs))
    = (if snd (gc c wm) then fst (gc_chains wm cs) else (k, fst (gc c wm)) # fst (gc_chains wm cs))"
  by (simp_all add: Let_def split: prod.splits)

declare gc_chains.simps [simp del]

lemma gc_chains_chain_of:
  assumes "distinct (map fst cs)"
  shows "chain_of (fst (gc_chains wm cs)) k = (if snd (gc (chain_of cs k) wm) then [] else fst (gc (chain_of cs k) wm))"
    and "fst ` set (fst (gc_chains wm cs)) \<subseteq> fst ` set cs" and "distinct (map fst (fst (gc_chains wm cs)))"
proof -
  have sub: "fst ` set (fst (gc_chains wm cs)) \<subseteq> fst ` set cs" for wm cs
  proof (induction cs)
    case (Cons a cs)
    then show ?case by (cases a) (simp add: subset_insertI2 insert_mono)
  qed simp
  show "fst ` set (fst (gc_chains wm cs)) \<subseteq> fst ` set cs" by (rule sub)
  show "distinct (map fst (fst (gc_chains wm cs)))"
    using assms
  proof (induction wm cs rule: gc_chains.induct)
    case (2 wm key c cs)
    then have "key \<notin> fst ` set (fst (gc_chains wm cs))" using sub[of wm cs] by auto
    then show ?case using 2 by simp
  qed simp
  show "chain_of (fst (gc_chains wm cs)) k = (if snd (gc (chain_of cs k) wm) then [] else fst (gc (chain_of cs k) wm))"
    using assms
  proof (induction wm cs rule: gc_chains.induct)
    case (2 wm key c cs)
    have none: "map_of (fst (gc_chains wm cs)) key = None" using 2(2) sub[of wm cs]
      by (force simp: map_of_eq_None_iff)
    show ?case
      using 2 none by (cases "k = key") (simp_all add: chain_of_def)
  qed (simp add: chain_of_def gc_def)
qed

section \<open>The invariant of each step\<close>

lemma sys_okD:
  assumes "sys_ok (st, ts)"
  shows "oracle_ok (s_oracle st) (starts ts)" "distinct (map fst (s_chains st))" "recorded (s_oracle st) (s_chains st)"
    "t \<in> set ts \<Longrightarrow> txn_ok t" "chain_ok (o_commitVer (s_oracle st)) (chain_of (s_chains st) k)"
    "indexed (s_oracle st) k (chain_of (s_chains st) k)"
proof -
  show "chain_ok (o_commitVer (s_oracle st)) (chain_of (s_chains st) k)" "indexed (s_oracle st) k (chain_of (s_chains st) k)"
    using assms
    by (cases "map_of (s_chains st) k";
        force simp: sys_ok_def chain_of_def chain_ok_def committed_def indexed_def dest!: map_of_SomeD)+
qed (use assms in \<open>auto simp: sys_ok_def\<close>)

lemma sys_okI:
  assumes "oracle_ok (s_oracle st) (starts ts)" "distinct (map fst (s_chains st))" "recorded (s_oracle st) (s_chains st)"
    "\<And>t. t \<in> set ts \<Longrightarrow> txn_ok t" "\<And>k. chain_ok (o_commitVer (s_oracle st)) (chain_of (s_chains st) k)"
    "\<And>k. indexed (s_oracle st) k (chain_of (s_chains st) k)"
  shows "sys_ok (st, ts)"
  using assms(1-4) assms(5,6)[of "fst _"] map_of_chain_of[OF _ assms(2)] unfolding sys_ok_def
  by (auto, metis assms(5), metis assms(6))

lemma chain_ok_mono: "chain_ok cv c \<Longrightarrow> cv \<le> cv' \<Longrightarrow> chain_ok cv' c"
  by (fastforce simp: chain_ok_def)

lemma chain_ok_push: "chain_ok cv c \<Longrightarrow> cv < cv' \<Longrightarrow> chain_ok cv' (push cv' v c)"
  by (fastforce simp: chain_ok_def push_def committed_def)

lemma chain_ok_gc: "chain_ok cv c \<Longrightarrow> chain_ok cv (fst (gc c wm))"
proof -
  assume c: "chain_ok cv c"
  obtain d where "c = fst (gc c wm) @ d" using gc_prefix by blast
  then have "sorted_wrt (\<lambda>a b. v_commitVer b < v_commitVer a) (fst (gc c wm))" "set (fst (gc c wm)) \<subseteq> set c"
    using c by (metis chain_ok_def sorted_wrt_append, metis set_append sup_ge1)
  then show ?thesis using c by (auto simp: chain_ok_def committed_def)
qed

lemma indexed_subset: "indexed ora k c \<Longrightarrow> set c' \<subseteq> set c \<Longrightarrow> indexed ora k c'"
  by (auto simp: indexed_def)

lemma indexed_prune:
  assumes "indexed ora k c" and "o_minLive ora \<le> o_minLive ora'"
    and "o_recent ora' = filter (\<lambda>e. o_minLive ora' < ct_commitVer e) (o_recent ora)"
  shows "indexed ora' k c"
  using assms by (fastforce simp: indexed_def)

lemma recorded_prune:
  "recorded ora cs \<Longrightarrow> o_recent ora' = filter P (o_recent ora) \<Longrightarrow> recorded ora' cs"
  by (auto simp: recorded_def)

lemma starts_append: "starts (ts @ [t]) = (if t_done t then starts ts else add_mset (t_startVer t) (starts ts))"
  by (simp add: starts_def)

lemma starts_same:
  "i < length ts \<Longrightarrow> t_done t' = t_done (ts ! i) \<Longrightarrow> t_startVer t' = t_startVer (ts ! i) \<Longrightarrow> starts (ts[i := t']) = starts ts"
proof -
  assume i: "i < length ts" and d: "t_done t' = t_done (ts ! i)" "t_startVer t' = t_startVer (ts ! i)"
  obtain M where "mset ts = add_mset (ts ! i) M" using i by (metis nth_mem multi_member_split set_mset_mset)
  then show ?thesis using d i by (simp add: starts_def mset_update)
qed

lemma starts_finish:
  "i < length ts \<Longrightarrow> \<not> t_done (ts ! i) \<Longrightarrow> t_done t' \<Longrightarrow>
    starts (ts[i := t']) = starts ts - {#t_startVer (ts ! i)#} \<and> t_startVer (ts ! i) \<in># starts ts"
proof -
  assume i: "i < length ts" and d: "\<not> t_done (ts ! i)" "t_done t'"
  obtain M where "mset ts = add_mset (ts ! i) M" using i by (metis nth_mem multi_member_split set_mset_mset)
  then show ?thesis using d i by (simp add: starts_def mset_update)
qed

lemma txn_note_ok:
  "txn_ok t \<Longrightarrow> txn_ok (txn_note t k v)" "t_done (txn_note t k v) = t_done t" "t_startVer (txn_note t k v) = t_startVer t"
  by (auto simp: txn_ok_def txn_note_def distinct_update dom_update update_conv' split: option.splits)

lemma sys_ok_update:
  assumes "sys_ok (st, ts)" and "i < length ts" and "txn_ok t'"
    and "oracle_ok (s_oracle st') (starts (ts[i := t']))" and "distinct (map fst (s_chains st'))"
    and "recorded (s_oracle st') (s_chains st')"
    and "\<And>k. chain_ok (o_commitVer (s_oracle st')) (chain_of (s_chains st') k)"
    and "\<And>k. indexed (s_oracle st') k (chain_of (s_chains st') k)"
  shows "sys_ok (st', ts[i := t'])"
proof (rule sys_okI[OF assms(4-6) _ assms(7,8)])
  show "txn_ok t" if "t \<in> set (ts[i := t'])" for t
    using that assms(3) sys_okD(4)[OF assms(1)] by (auto dest!: set_update_subset_insert[THEN subsetD])
qed

lemma sys_ok_note:
  assumes s: "sys_ok (st, ts)" and "i < length ts" and "t' = ts ! i \<or> (\<exists>k v. t' = txn_note (ts ! i) k v)"
    and "s_oracle st' = s_oracle st" and "s_chains st' = s_chains st"
  shows "sys_ok (st', ts[i := t'])"
proof (rule sys_ok_update[OF s assms(2)])
  have "txn_ok (ts ! i)" using sys_okD(4)[OF s] assms(2) by simp
  then show "txn_ok t'" using assms(3) txn_note_ok(1) by auto
  have "starts (ts[i := t']) = starts ts" using assms(2,3) by (intro starts_same) (auto simp: txn_note_ok)
  then show "oracle_ok (s_oracle st') (starts (ts[i := t']))" using sys_okD(1)[OF s] assms(4) by simp
qed (simp_all add: assms(4,5) sys_okD[OF s])

lemma sys_ok_release:
  assumes s: "sys_ok (st, ts)" and i: "i < length ts" and d: "\<not> t_done (ts ! i)" and t': "t_done t'" "txn_ok t'"
  shows "sys_ok (st\<lparr>s_oracle := Release (s_oracle st) (t_startVer (ts ! i))\<rparr>, ts[i := t'])"
proof -
  note f = starts_finish[OF i d t'(1)]
  note r = Release_ok[OF sys_okD(1)[OF s], of "t_startVer (ts ! i)"]
  let ?o = "Release (s_oracle st) (t_startVer (ts ! i))"
  have rec: "recorded ?o (s_chains st)"
    using recorded_prune[OF sys_okD(3)[OF s], of ?o "\<lambda>c. o_minLive ?o < ct_commitVer c"] r f by simp
  have "indexed ?o k (chain_of (s_chains st) k)" for k
    using indexed_prune[OF sys_okD(6)[OF s], of ?o k] r f by simp
  then show ?thesis
    using r f rec by (intro sys_ok_update[OF s i t'(2)]) (simp_all add: sys_okD[OF s])
qed

text \<open>Versions above the watermark survive collection.\<close>

lemma gc_keeps:
  assumes "sorted_wrt (\<lambda>a b. v_commitVer b < v_commitVer a) c" and "v \<in> set c" and "wm < v_commitVer v"
  shows "v \<in> set (fst (gc c wm)) \<and> \<not> snd (gc c wm)"
proof -
  have keep: "v \<in> set c'" if "cut_tail c wm = Some c'" for c'
    using assms that
  proof (induction c arbitrary: c')
    case (Cons w c)
    show ?case
    proof (cases "v_commitVer w \<le> wm")
      case True
      then have "v \<noteq> w" "v \<notin> set c" using Cons.prems(1,3) by auto
      then show ?thesis using Cons.prems(2) by simp
    qed (use Cons in auto)
  qed simp
  have "\<not> (length c' = 1 \<and> v_commitVer (last c') < wm)" if "cut_tail c wm = Some c'" for c'
    using keep[OF that] assms(3) by (cases c') auto
  then show ?thesis using keep assms(2) by (auto simp: gc_def split: option.split)
qed

lemma sys_ok_GC:
  assumes s: "sys_ok (st, ts)"
  shows "sys_ok (fst (store_GC st), ts)"
proof -
  let ?wm = "o_minLive (s_oracle st)" let ?cs = "fst (gc_chains ?wm (s_chains st))"
  let ?c = "\<lambda>k. chain_of (s_chains st) k"
  have st': "fst (store_GC st) = st\<lparr>s_chains := ?cs\<rparr>"
    by (simp add: store_GC_def Watermark_def split: prod.split)
  note g = gc_chains_chain_of[OF sys_okD(2)[OF s]]
  have sub: "set (fst (gc c ?wm)) \<subseteq> set c" for c by (metis gc_prefix set_append sup_ge1)
  have "chain_ok (o_commitVer (s_oracle st)) (chain_of ?cs k)" for k
    using chain_ok_gc[OF sys_okD(5)[OF s, of k], of ?wm] unfolding g(1) by (simp add: chain_ok_def committed_def)
  moreover have "indexed (s_oracle st) k (chain_of ?cs k)" for k
    using indexed_subset[OF sys_okD(6)[OF s, of k] sub] unfolding g(1) by (simp add: indexed_def)
  moreover have "recorded (s_oracle st) ?cs"
    unfolding recorded_def
  proof (intro ballI)
    fix e k assume e: "e \<in> set (o_recent (s_oracle st))" "k \<in> set (ct_writeSet e)"
    then obtain v where v: "v \<in> set (?c k)" "v_commitVer v = ct_commitVer e"
      using sys_okD(3)[OF s] unfolding recorded_def by blast
    have "?wm < v_commitVer v" using sys_okD(1)[OF s] e(1) unfolding oracle_ok_def v(2) by blast
    moreover have "sorted_wrt (\<lambda>a b. v_commitVer b < v_commitVer a) (?c k)"
      using sys_okD(5)[OF s, of k] by (simp add: chain_ok_def)
    ultimately show "\<exists>v \<in> set (chain_of ?cs k). v_commitVer v = ct_commitVer e"
      using gc_keeps[OF _ v(1)] v(2) unfolding g(1) by auto
  qed
  ultimately show ?thesis using sys_okD[OF s] g(3) unfolding st' by (intro sys_okI) simp_all
qed

section \<open>Commits\<close>

definition pending_of :: "Txn \<Rightarrow> (u64 \<times> version) list" where
  "pending_of t = (case t_pending t of None \<Rightarrow> [] | Some p \<Rightarrow> p)"

lemma txn_Commit_writer:
  assumes "\<not> t_done t" and "t_writable t" and "t_writeSet t \<noteq> []"
  shows "txn_Commit st t durable =
    (case find_conflict (rev (o_recent (s_oracle st))) (t_startVer t) (sortedWriteSet t) of
       Some cv \<Rightarrow> (st\<lparr>s_oracle := Release (s_oracle st) (t_startVer t)\<rparr>, (discard t)\<lparr>t_done := True\<rparr>, Some (ConflictError cv))
     | None \<Rightarrow> (case durable (o_commitVer (s_oracle st) + 1) of
         Some e \<Rightarrow> (st\<lparr>s_oracle := Release (s_oracle st) (t_startVer t)\<rparr>, (discard t)\<lparr>t_done := True\<rparr>, Some (DurableFailed e))
       | None \<Rightarrow>
           (st\<lparr>s_oracle := Release ((s_oracle st)\<lparr>o_commitVer := o_commitVer (s_oracle st) + 1,
                  o_recent := o_recent (s_oracle st) @ [\<lparr>ct_commitVer = o_commitVer (s_oracle st) + 1, ct_writeSet = sortedWriteSet t\<rparr>]\<rparr>) (t_startVer t),
               s_chains := publish (o_commitVer (s_oracle st) + 1) (pending_of t) (s_chains st)\<rparr>,
            t\<lparr>t_commitVer := o_commitVer (s_oracle st) + 1, t_done := True\<rparr>, None)))"
  using assms by (auto simp: txn_Commit_def oracle_Commit_def Release_def pending_of_def Let_def split: option.splits)

lemma txn_ok_pending:
  "txn_ok t \<Longrightarrow> distinct (map fst (pending_of t))"
  "txn_ok t \<Longrightarrow> \<not> t_done t \<Longrightarrow> set (t_writeSet t) = fst ` set (pending_of t)"
  by (auto simp: txn_ok_def pending_of_def split: option.splits)

lemma txn_ok_done: "txn_ok t \<Longrightarrow> txn_ok ((discard t)\<lparr>t_done := True\<rparr>)" "txn_ok t \<Longrightarrow> txn_ok (t\<lparr>t_done := True\<rparr>)"
  "txn_ok t \<Longrightarrow> txn_ok (t\<lparr>t_commitVer := cv, t_done := True\<rparr>)"
  by (simp_all add: txn_ok_def discard_def)

lemma indexed_commit:
  assumes i: "indexed ora k c" and m: "o_minLive ora \<le> o_minLive ora'"
    and r: "o_recent ora' = filter (\<lambda>c. o_minLive ora' < ct_commitVer c) (o_recent ora @ [\<lparr>ct_commitVer = cv, ct_writeSet = ws\<rparr>])"
  shows "indexed ora' k c" and "k \<in> set ws \<Longrightarrow> indexed ora' k (push cv v c)"
proof -
  show c: "indexed ora' k c" using i m r by (fastforce simp: indexed_def)
  show "indexed ora' k (push cv v c)" if "k \<in> set ws"
    using c that r by (auto simp: indexed_def push_def)
qed

lemma sys_ok_commit:
  assumes s: "sys_ok (st, ts)" and i: "i < length ts" and d: "\<not> t_done (ts ! i)" and cv: "o_commitVer (s_oracle st) < NOT 0"
  defines "t \<equiv> ts ! i" and "cv \<equiv> o_commitVer (s_oracle st) + 1"
  shows "sys_ok (st\<lparr>s_oracle := Release ((s_oracle st)\<lparr>o_commitVer := cv,
                  o_recent := o_recent (s_oracle st) @ [\<lparr>ct_commitVer = cv, ct_writeSet = sortedWriteSet t\<rparr>]\<rparr>) (t_startVer t),
               s_chains := publish cv (pending_of t) (s_chains st)\<rparr>, ts[i := t\<lparr>t_commitVer := cv, t_done := True\<rparr>])"
proof -
  let ?ws = "sortedWriteSet t" let ?e = "\<lparr>ct_commitVer = cv, ct_writeSet = ?ws\<rparr>" let ?o = "s_oracle st"
  let ?o' = "Release (?o\<lparr>o_commitVer := cv, o_recent := o_recent ?o @ [?e]\<rparr>) (t_startVer t)"
  let ?cs = "publish cv (pending_of t) (s_chains st)" let ?t' = "t\<lparr>t_commitVer := cv, t_done := True\<rparr>"
  have tok: "txn_ok t" using sys_okD(4)[OF s] i by (simp add: t_def)
  have keys: "set ?ws = fst ` set (pending_of t)"
    using txn_ok_pending(2)[OF tok] d by (simp add: t_def sortedWriteSet_def sortedKeys_def)
  note f = starts_finish[OF i d, of ?t'] and lt = u64_succ[OF cv]
  have st_in: "t_startVer t \<in># starts ts" using f by (simp add: t_def)
  have wss: "sorted ?ws" by (simp add: sortedWriteSet_def sortedKeys_def)
  note c = commit_oracle_ok[OF sys_okD(1)[OF s] st_in cv wss, folded cv_def]
  note pub = publish_chain_of[OF txn_ok_pending(1)[OF tok], of cv "s_chains st"]
  have mem: "k \<in> set ?ws \<longleftrightarrow> map_of (pending_of t) k \<noteq> None" for k
    unfolding keys by (simp add: map_of_eq_None_iff)
  have ch: "chain_ok cv (chain_of ?cs k)" for k
    using chain_ok_push[OF sys_okD(5)[OF s, of k] lt, folded cv_def]
      chain_ok_mono[OF sys_okD(5)[OF s, of k] less_imp_le[OF lt], folded cv_def]
    by (simp add: pub split: option.split)
  have ix: "indexed ?o' k (chain_of ?cs k)" for k
    using indexed_commit[OF sys_okD(6)[OF s] c(3,4)] mem[of k] by (auto simp: pub split: option.split)
  have new: "set (o_recent ?o') \<subseteq> insert ?e (set (o_recent ?o))" unfolding c(4) by auto
  have rec: "recorded ?o' ?cs"
    unfolding recorded_def
  proof (intro ballI)
    fix e k assume e: "e \<in> set (o_recent ?o')" "k \<in> set (ct_writeSet e)"
    show "\<exists>v \<in> set (chain_of ?cs k). v_commitVer v = ct_commitVer e"
    proof (cases "e = ?e")
      case True
      then show ?thesis using e(2) mem[of k] by (auto simp: pub push_def split: option.split)
    next
      case False
      then have "e \<in> set (o_recent ?o)" using e(1) new by blast
      then obtain v where "v \<in> set (chain_of (s_chains st) k)" "v_commitVer v = ct_commitVer e"
        using sys_okD(3)[OF s] e(2) unfolding recorded_def by blast
      then show ?thesis by (auto simp: pub push_def split: option.split)
    qed
  qed
  show ?thesis
    using c(1,2) f ch ix rec publish_keys[OF sys_okD(2)[OF s]] txn_ok_done(3)[OF tok]
    by (intro sys_ok_update[OF s i]) (simp_all add: t_def)
qed

section \<open>Reachable states\<close>

lemma store_Insert_note:
  "store_Insert st t doc = (st', t', r) \<Longrightarrow>
    s_oracle st' = s_oracle st \<and> s_chains st' = s_chains st \<and> (t' = t \<or> (\<exists>k v. t' = txn_note t k v))"
  by (auto simp: store_Insert_def allocRID_def Let_def split: if_splits)

lemma store_Update_note: "store_Update st t rid doc = (t', e) \<Longrightarrow> t' = t \<or> (\<exists>k v. t' = txn_note t k v)"
  by (auto simp: store_Update_def split: if_splits)

lemma store_Delete_note: "store_Delete st t rid = (t', e) \<Longrightarrow> t' = t \<or> (\<exists>k v. t' = txn_note t k v)"
  by (auto simp: store_Delete_def split: if_splits)

lemma sys_ok_Commit:
  assumes s: "sys_ok (st, ts)" and i: "i < length ts" and cv: "o_commitVer (s_oracle st) < NOT 0"
    and c: "txn_Commit st (ts ! i) durable = (st', t', e)"
  shows "sys_ok (st', ts[i := t'])"
proof -
  have tok: "txn_ok (ts ! i)" using sys_okD(4)[OF s] i by simp
  consider (ended) "t_done (ts ! i)"
    | (reads) "\<not> t_done (ts ! i)" "\<not> t_writable (ts ! i) \<or> t_writeSet (ts ! i) = []"
    | (writes) "\<not> t_done (ts ! i)" "t_writable (ts ! i)" "t_writeSet (ts ! i) \<noteq> []" by blast
  then show ?thesis
  proof cases
    case ended
    then show ?thesis using c s by (auto simp: txn_Commit_def)
  next
    case reads
    then show ?thesis using c sys_ok_release[OF s i reads(1), of "(ts ! i)\<lparr>t_done := True\<rparr>"] txn_ok_done(2)[OF tok]
      by (auto simp: txn_Commit_def)
  next
    case writes
    then show ?thesis
      using c txn_Commit_writer[OF writes, of st durable] sys_ok_commit[OF s i writes(1) cv]
        sys_ok_release[OF s i writes(1), of "(discard (ts ! i))\<lparr>t_done := True\<rparr>"] txn_ok_done(1)[OF tok]
      by (auto split: option.splits)
  qed
qed

lemma sys_ok_step: "mvcc_step s s' \<Longrightarrow> sys_ok s \<Longrightarrow> sys_ok s'"
proof (induction rule: mvcc_step.induct)
  case (Begin st w st' t ts)
  let ?o = "fst (Acquire (s_oracle st))"
  have st': "st' = st\<lparr>s_oracle := ?o\<rparr>" and t: "t_startVer t = o_commitVer (s_oracle st)" "\<not> t_done t" "txn_ok t"
    using Begin(1) Acquire_ok[OF sys_okD(1)[OF Begin(2)]]
    by (auto simp: store_Begin_def oracle_Begin_def txn_ok_def split: prod.splits)
  have a: "oracle_ok ?o (starts (ts @ [t]))" "o_minLive ?o = o_minLive (s_oracle st)"
    "o_recent ?o = o_recent (s_oracle st)" "o_commitVer ?o = o_commitVer (s_oracle st)"
    using Acquire_ok[OF sys_okD(1)[OF Begin(2)]] t by (simp_all add: starts_append)
  have "indexed ?o k (chain_of (s_chains st) k)" for k
    using sys_okD(6)[OF Begin(2), of k] by (simp add: indexed_def a)
  moreover have "recorded ?o (s_chains st)" using sys_okD(3)[OF Begin(2)] by (simp add: recorded_def a)
  ultimately show ?case
    using a sys_okD[OF Begin(2)] t(3) unfolding st' by (intro sys_okI) auto
next
  case (Insert i ts st doc st' t' r)
  then show ?case using store_Insert_note sys_ok_note by metis
next
  case (Update i ts st rid doc t' e)
  then show ?case using store_Update_note sys_ok_note by metis
next
  case (Delete i ts st rid t' e)
  then show ?case using store_Delete_note sys_ok_note by metis
next
  case (Commit i ts st durable st' t' e)
  then show ?case using sys_ok_Commit by blast
next
  case (Rollback i ts st st' t' e)
  have "txn_ok (ts ! i)" using sys_okD(4)[OF Rollback(3)] Rollback(1) by simp
  then show ?case
    using Rollback sys_ok_release[OF Rollback(3,1), of "(discard (ts ! i))\<lparr>t_done := True\<rparr>"] txn_ok_done(1)
    by (auto simp: txn_Rollback_def split: if_splits)
next
  case (GC st st' n ts)
  then show ?case using sys_ok_GC by (metis fst_conv)
qed

lemma reachable_ok: "reachable s \<Longrightarrow> sys_ok s"
proof -
  have init: "sys_ok (NewStore, [])"
    using NewOracle_ok[of 0] by (simp add: sys_ok_def NewStore_def recorded_def starts_def NewOracle_def)
  have "mvcc_step\<^sup>*\<^sup>* s s' \<Longrightarrow> sys_ok s \<Longrightarrow> sys_ok s'" for s s'
    by (induction rule: rtranclp_induct) (auto intro: sys_ok_step)
  then show "reachable s \<Longrightarrow> sys_ok s" using init by (auto simp: reachable_def)
qed

section \<open>Snapshot isolation\<close>

lemma live_size: "live_ok live S \<Longrightarrow> sum_list (map snd live) = size S"
proof -
  assume l: "live_ok live S"
  then have d: "distinct (map fst live)" by (simp add: live_ok_def)
  have "count S (fst p) = snd p" if "p \<in> set live" for p
  proof -
    have "map_of live (fst p) = Some (snd p)" using that d by (simp add: map_of_is_SomeI)
    then show ?thesis using l by (auto simp: live_ok_def split: if_splits)
  qed
  then have "sum_list (map snd live) = sum_list (map (\<lambda>p. count S (fst p)) live)" by (simp cong: map_cong)
  also have "\<dots> = (\<Sum>s \<in> set (map fst live). count S s)"
    using sum_list_distinct_conv_sum_set[OF d, of "count S"] by (simp add: comp_def)
  also have "\<dots> = size S" by (simp add: live_ok_dom[OF l] size_multiset_overloaded_eq)
  finally show ?thesis .
qed

lemma active_start:
  "sys_ok (st, ts) \<Longrightarrow> i < length ts \<Longrightarrow> \<not> t_done (ts ! i) \<Longrightarrow>
    o_minLive (s_oracle st) \<le> t_startVer (ts ! i) \<and> t_startVer (ts ! i) \<le> o_commitVer (s_oracle st)"
proof -
  assume s: "sys_ok (st, ts)" and i: "i < length ts" "\<not> t_done (ts ! i)"
  have "t_startVer (ts ! i) \<in># starts ts" using starts_finish[OF i, of "(ts ! i)\<lparr>t_done := True\<rparr>"] by simp
  then show ?thesis using sys_okD(1)[OF s] watermark_of_le(1) by (simp add: oracle_ok_def)
qed

text \<open>C19. In every reachable state the oracle tracks exactly the unfinished transactions: as many live
  snapshots as there are, and the watermark is the least of their start versions, or the commit version
  when there are none. No start version exceeds the commit version, and every chain lists committed
  versions from the newest to the oldest, none above the commit version.\<close>

theorem oracle_tracks_snapshots:
  assumes "reachable (st, ts)"
  shows "LiveSnapshots (s_oracle st) = length (filter (\<lambda>t. \<not> t_done t) ts)
    \<and> Watermark (s_oracle st) = (if \<forall>t \<in> set ts. t_done t then o_commitVer (s_oracle st)
        else Min (t_startVer ` {t \<in> set ts. \<not> t_done t}))
    \<and> (\<forall>t \<in> set ts. \<not> t_done t \<longrightarrow> t_startVer t \<le> o_commitVer (s_oracle st))
    \<and> (\<forall>k. chain_ok (o_commitVer (s_oracle st)) (chain_of (s_chains st) k))"
proof -
  have s: "sys_ok (st, ts)" by (rule reachable_ok[OF assms])
  have "size (starts ts) = length (filter (\<lambda>t. \<not> t_done t) ts)"
    by (simp add: starts_def flip: mset_filter)
  moreover have set: "set_mset (starts ts) = t_startVer ` {t \<in> set ts. \<not> t_done t}" by (auto simp: starts_def)
  moreover have e: "starts ts = {#} \<longleftrightarrow> (\<forall>t \<in> set ts. t_done t)"
    unfolding set_mset_eq_empty_iff[symmetric] set by auto
  moreover have "LiveSnapshots (s_oracle st) = size (starts ts)"
    using sys_okD(1)[OF s] live_size[of "o_live (s_oracle st)" "starts ts"] by (simp add: LiveSnapshots_def oracle_ok_def)
  moreover have "Watermark (s_oracle st) = watermark_of (o_commitVer (s_oracle st)) (starts ts)" "\<forall>v \<in># starts ts. v \<le> o_commitVer (s_oracle st)"
    using sys_okD(1)[OF s] by (simp_all add: Watermark_def oracle_ok_def)
  ultimately show ?thesis using sys_okD(5)[OF s] by (simp add: watermark_of_def)
qed

lemma view_release [simp]: "s_chains (st\<lparr>s_oracle := x\<rparr>) = s_chains st"
  by simp

lemma commit_view:
  assumes s: "sys_ok (st, ts)" and i: "i < length ts" and c: "txn_Commit st (ts ! i) durable = (st', t', e)"
  shows "s_chains st' = s_chains st \<or> (\<not> t_done (ts ! i) \<and> e = None \<and> t_commitVer t' = o_commitVer (s_oracle st) + 1
    \<and> find_conflict (rev (o_recent (s_oracle st))) (t_startVer (ts ! i)) (sortedWriteSet (ts ! i)) = None
    \<and> (\<forall>k. chain_of (s_chains st') k = (case map_of (pending_of (ts ! i)) k of None \<Rightarrow> chain_of (s_chains st) k
        | Some v \<Rightarrow> push (o_commitVer (s_oracle st) + 1) v (chain_of (s_chains st) k))))"
proof (cases "\<not> t_done (ts ! i) \<and> t_writable (ts ! i) \<and> t_writeSet (ts ! i) \<noteq> []")
  case True
  then have w: "\<not> t_done (ts ! i)" "t_writable (ts ! i)" "t_writeSet (ts ! i) \<noteq> []" by auto
  have "distinct (map fst (pending_of (ts ! i)))" using txn_ok_pending(1) sys_okD(4)[OF s] i by simp
  from publish_chain_of[OF this] show ?thesis
    using c txn_Commit_writer[OF w, of st durable] w(1) by (auto split: option.splits)
qed (use c in \<open>auto simp: txn_Commit_def split: if_splits\<close>)

lemma step_view:
  assumes "mvcc_step (st, ts) (st', ts')" and s: "sys_ok (st, ts)"
    and lo: "o_minLive (s_oracle st) \<le> v" and hi: "v \<le> o_commitVer (s_oracle st)"
  shows "view (s_chains st') v k = view (s_chains st) v k"
  using assms(1)
proof cases
  case (Begin w t)
  then show ?thesis by (auto simp: store_Begin_def split: prod.splits)
next
  case (Insert i doc t' r)
  then show ?thesis using store_Insert_note by metis
next
  case (Commit i durable t' e)
  have lt: "v < o_commitVer (s_oracle st) + 1" using hi u64_succ[OF Commit(3)] by simp
  from commit_view[OF s Commit(2,4)] show ?thesis
    using chain.put_old[OF lt] by (cases "map_of (pending_of (ts ! i)) k") (auto simp: view_chain_of)
next
  case (Rollback i t' e)
  then show ?thesis by (auto simp: txn_Rollback_def split: if_splits)
next
  case (GC n)
  have "committed (chain_of (s_chains st) k)" using sys_okD(5)[OF s, of k] by (simp add: chain_ok_def)
  note g = chain.collect_read[OF this lo] gc_dead[OF this lo]
  have "s_chains st' = fst (gc_chains (o_minLive (s_oracle st)) (s_chains st))"
    using GC by (auto simp: store_GC_def Watermark_def split: prod.splits)
  then show ?thesis using gc_chains_chain_of(1)[OF sys_okD(2)[OF s]] g by (simp add: view_chain_of)
qed auto

lemma step_txns:
  assumes "mvcc_step (st, ts) (st', ts')" and "i < length ts"
  shows "i < length ts' \<and> t_startVer (ts' ! i) = t_startVer (ts ! i) \<and> (t_done (ts ! i) \<longrightarrow> t_done (ts' ! i))"
  using assms(1)
proof cases
  case (Insert j doc t' r)
  then show ?thesis using assms(2) store_Insert_note txn_note_ok(2,3) by (cases "i = j") (simp, metis, simp)
next
  case (Update j rid doc t' e)
  then show ?thesis using assms(2) store_Update_note txn_note_ok(2,3) by (cases "i = j") (simp, metis, simp)
next
  case (Delete j rid t' e)
  then show ?thesis using assms(2) store_Delete_note txn_note_ok(2,3) by (cases "i = j") (simp, metis, simp)
next
  case (Commit j durable t' e)
  have "t_startVer t' = t_startVer (ts ! j)" "t_done t'"
    using Commit(4) by (auto simp: txn_Commit_def discard_def split: if_splits prod.splits sum.splits)
  then show ?thesis using Commit assms(2) by (cases "i = j") auto
next
  case (Rollback j t' e)
  then show ?thesis using assms(2) by (cases "i = j") (auto simp: txn_Rollback_def discard_def split: if_splits)
qed (use assms(2) in \<open>auto simp: nth_append\<close>)

text \<open>C15. Reads are repeatable. From any reachable state, whatever any client does next, as long as
  a transaction has not finished every record shows it the committed document it showed before:
  later commits, rollbacks and collections do not reach its snapshot.\<close>

theorem snapshot_reads_stable:
  assumes "reachable (st, ts)" and "mvcc_step\<^sup>*\<^sup>* (st, ts) (st', ts')" and "i < length ts" and "\<not> t_done (ts' ! i)"
  shows "view (s_chains st') (t_startVer (ts' ! i)) k = view (s_chains st) (t_startVer (ts ! i)) k"
proof -
  have "i < length ts' \<and> t_startVer (ts' ! i) = t_startVer (ts ! i) \<and> sys_ok (st', ts')
    \<and> (\<not> t_done (ts' ! i) \<longrightarrow> view (s_chains st') (t_startVer (ts ! i)) k = view (s_chains st) (t_startVer (ts ! i)) k)"
    using assms(2)
  proof (induction "(st', ts')" arbitrary: st' ts' rule: rtranclp_induct)
    case base
    then show ?case using assms(3) reachable_ok[OF assms(1)] by simp
  next
    case (step y)
    obtain st1 ts1 where y: "y = (st1, ts1)" by fastforce
    note IH = step(3)[OF y]
    have t: "i < length ts' \<and> t_startVer (ts' ! i) = t_startVer (ts1 ! i) \<and> (t_done (ts1 ! i) \<longrightarrow> t_done (ts' ! i))"
      using step_txns[of st1 ts1 st' ts' i] step(2) IH by (simp add: y)
    have "view (s_chains st') (t_startVer (ts ! i)) k = view (s_chains st1) (t_startVer (ts ! i)) k"
      if "\<not> t_done (ts' ! i)"
      using step_view[of st1 ts1 st' ts' "t_startVer (ts ! i)" k] step(2) IH t that active_start[of st1 ts1 i]
      by (simp add: y)
    then show ?case using IH t sys_ok_step[OF step(2)] by (auto simp: y)
  qed
  then show ?thesis using assms(4) by simp
qed

text \<open>A transaction reads its own writes: a buffered update is what it reads back, a buffered
  deletion hides the record, and either is refused when the transaction may not write or the record
  is not visible to it.\<close>

theorem read_your_writes:
  assumes "store_Update st t rid doc = (t1, e1)" and "store_Delete st t rid = (t2, e2)"
  shows "(e1 = None \<longrightarrow> store_Get st t1 rid = Inr doc) \<and> (e2 = None \<longrightarrow> store_Get st t2 rid = Inl ErrNotFound)
    \<and> (\<forall>r. RID_Encode r \<noteq> RID_Encode rid \<longrightarrow> store_Get st t1 r = store_Get st t r \<and> store_Get st t2 r = store_Get st t r)
    \<and> (e1 = None \<longleftrightarrow> t_writable t \<and> store_Get st t rid \<noteq> Inl ErrNotFound) \<and> (e2 = None \<longleftrightarrow> e1 = None)"
proof -
  have pend: "Option.bind (t_pending (txn_note t k v)) (\<lambda>p. map_of p k')
      = (if k' = k then Some v else Option.bind (t_pending t) (\<lambda>p. map_of p k'))" for k k' v
    by (auto simp: txn_note_def update_conv' split: option.splits)
  have read: "store_read st (txn_note t k v) r = (if RID_Encode r = k then shown v else store_read st t r)" for k v r
    by (simp add: store_read_def pend Let_def txn_note_ok(3) split: option.split)
  show ?thesis
    using assms by (auto simp: store_Update_def store_Delete_def store_Get_def read shown_def split: if_splits option.splits)
qed

text \<open>C16. A commit is atomic. If a reachable transaction with writes commits, it gets the next commit
  version; every snapshot from that version on sees each of its writes, deletions included, every
  older snapshot sees none of them, and no other record changes for anybody.\<close>

theorem commit_atomic_visibility:
  assumes r: "reachable (st, ts)" and i: "i < length ts" and "o_commitVer (s_oracle st) < NOT 0"
    and d: "\<not> t_done (ts ! i)" and w: "t_writable (ts ! i)" and ne: "t_writeSet (ts ! i) \<noteq> []"
    and c: "txn_Commit st (ts ! i) durable = (st', t', None)"
  shows "t_commitVer t' = o_commitVer (s_oracle st) + 1 \<and> o_commitVer (s_oracle st') = t_commitVer t'
    \<and> (\<forall>v k. view (s_chains st') v k = (case map_of (pending_of (ts ! i)) k of
          Some x \<Rightarrow> if t_commitVer t' \<le> v then shown x else view (s_chains st) v k
        | None \<Rightarrow> view (s_chains st) v k))"
proof -
  have s: "sys_ok (st, ts)" by (rule reachable_ok[OF r])
  have tok: "txn_ok (ts ! i)" using sys_okD(4)[OF s] i by simp
  note wr = txn_Commit_writer[OF d w ne, of st durable] and pub = publish_chain_of[OF txn_ok_pending(1)[OF tok]]
  let ?cv = "o_commitVer (s_oracle st) + 1"
  have st': "s_chains st' = publish ?cv (pending_of (ts ! i)) (s_chains st)" and t': "t_commitVer t' = ?cv"
    and "o_commitVer (s_oracle st') = ?cv"
    using c wr by (auto simp: Release_def split: option.splits)
  moreover have "view (s_chains st') v k = (case map_of (pending_of (ts ! i)) k of
      Some x \<Rightarrow> if ?cv \<le> v then shown x else view (s_chains st) v k | None \<Rightarrow> view (s_chains st) v k)" for v k
    using chain.put_new[of ?cv v] chain.put_old[of v ?cv]
    by (simp add: st' view_chain_of pub not_le split: option.split)
  ultimately show ?thesis unfolding t' by blast
qed

text \<open>C17. First committer wins, exactly. In a reachable state a transaction with writes is refused
  for a conflict if and only if some record it wrote has a version newer than its snapshot; so a
  commit never overwrites a version the transaction did not see, and no transaction is refused
  without cause.\<close>

theorem first_committer_wins:
  assumes r: "reachable (st, ts)" and i: "i < length ts" and d: "\<not> t_done (ts ! i)" and w: "t_writable (ts ! i)"
    and ne: "t_writeSet (ts ! i) \<noteq> []" and c: "txn_Commit st (ts ! i) durable = (st', t', e)"
  shows "(\<exists>cv. e = Some (ConflictError cv)) \<longleftrightarrow>
    (\<exists>k \<in> set (t_writeSet (ts ! i)). \<exists>v \<in> set (chain_of (s_chains st) k). t_startVer (ts ! i) < v_commitVer v)"
proof -
  have s: "sys_ok (st, ts)" by (rule reachable_ok[OF r])
  let ?t = "ts ! i" let ?s = "t_startVer ?t"
  have lo: "o_minLive (s_oracle st) \<le> ?s" using active_start[OF s i d] by simp
  have ws: "sorted (sortedWriteSet ?t)" "set (sortedWriteSet ?t) = set (t_writeSet ?t)"
    by (simp_all add: sortedWriteSet_def sortedKeys_def)
  have "(\<exists>cv. e = Some (ConflictError cv)) \<longleftrightarrow> find_conflict (rev (o_recent (s_oracle st))) ?s (sortedWriteSet ?t) \<noteq> None"
    using c txn_Commit_writer[OF d w ne, of st durable] by (auto split: option.splits)
  also have "\<dots> \<longleftrightarrow> (\<exists>x \<in> set (o_recent (s_oracle st)). ?s < ct_commitVer x \<and> set (ct_writeSet x) \<inter> set (t_writeSet ?t) \<noteq> {})"
    unfolding ws(2)[symmetric] find_conflict_iff[OF sys_okD(1)[OF s] ws(1), of ?s] by blast
  also have "\<dots> \<longleftrightarrow> (\<exists>k \<in> set (t_writeSet ?t). \<exists>v \<in> set (chain_of (s_chains st) k). ?s < v_commitVer v)"
  proof
    assume "\<exists>x \<in> set (o_recent (s_oracle st)). ?s < ct_commitVer x \<and> set (ct_writeSet x) \<inter> set (t_writeSet ?t) \<noteq> {}"
    then obtain x k where "x \<in> set (o_recent (s_oracle st))" "?s < ct_commitVer x" "k \<in> set (ct_writeSet x)" "k \<in> set (t_writeSet ?t)"
      by blast
    then show "\<exists>k \<in> set (t_writeSet ?t). \<exists>v \<in> set (chain_of (s_chains st) k). ?s < v_commitVer v"
      using sys_okD(3)[OF s] unfolding recorded_def by metis
  next
    assume "\<exists>k \<in> set (t_writeSet ?t). \<exists>v \<in> set (chain_of (s_chains st) k). ?s < v_commitVer v"
    then obtain k v where k: "k \<in> set (t_writeSet ?t)" and v: "v \<in> set (chain_of (s_chains st) k)" "?s < v_commitVer v" by blast
    have "o_minLive (s_oracle st) < v_commitVer v" using lo v(2) by simp
    then obtain x where "x \<in> set (o_recent (s_oracle st))" "ct_commitVer x = v_commitVer v" "k \<in> set (ct_writeSet x)"
      using sys_okD(6)[OF s, of k] v(1) unfolding indexed_def by blast
    then show "\<exists>x \<in> set (o_recent (s_oracle st)). ?s < ct_commitVer x \<and> set (ct_writeSet x) \<inter> set (t_writeSet ?t) \<noteq> {}"
      using v(2) k by (metis IntI empty_iff)
  qed
  finally show ?thesis .
qed

lemma gc_chains_count:
  "sum_list (map (\<lambda>(k, c). chain_Len c) (fst (gc_chains wm cs))) + snd (gc_chains wm cs)
    = sum_list (map (\<lambda>(k, c). chain_Len c) cs)"
proof (induction wm cs rule: gc_chains.induct)
  case (2 wm key c cs)
  have "length (fst (gc c wm)) \<le> length c" using gc_prefix[of c wm] by (metis le_add1 length_append)
  then show ?case using 2 by (auto simp: gc_chains.simps Let_def chain_Len_def split: prod.splits)
qed (simp add: gc_chains.simps)

text \<open>C20. Store-wide collection frees what it says and disturbs nobody: in a reachable state every
  unfinished transaction reads the same documents after it, and the number it returns is exactly the
  number of versions that are gone.\<close>

theorem store_GC_safe:
  assumes r: "reachable (st, ts)" and g: "store_GC st = (st', n)"
  shows "store_Versions st' + n = store_Versions st
    \<and> (\<forall>i < length ts. \<not> t_done (ts ! i) \<longrightarrow> (\<forall>rid. store_Get st' (ts ! i) rid = store_Get st (ts ! i) rid))"
proof -
  have s: "sys_ok (st, ts)" by (rule reachable_ok[OF r])
  have "store_Versions st' + n = store_Versions st"
    using g gc_chains_count[of "o_minLive (s_oracle st)" "s_chains st"]
    by (auto simp: store_GC_def store_Versions_def Watermark_def split: prod.splits)
  moreover have "store_Get st' (ts ! i) rid = store_Get st (ts ! i) rid" if "i < length ts" "\<not> t_done (ts ! i)" for i rid
    using step_view[OF mvcc_step.GC[OF g] s] active_start[OF s that]
    by (simp add: store_Get_def store_read_def Let_def split: option.split)
  ultimately show ?thesis by blast
qed

section \<open>Example runs\<close>

text \<open>Calls by name, for runs that can be evaluated; a call on a transaction that does not exist is
  no step.\<close>

datatype call = CBegin bool | CInsert nat bytes | CUpdate nat rid bytes | CDelete nat rid | CCommit nat | CRollback nat | CGC

fun exec :: "sys \<Rightarrow> call \<Rightarrow> sys" where
  "exec (st, ts) (CBegin w) = (let (st', t) = store_Begin st w in (st', ts @ [t]))"
| "exec (st, ts) (CInsert i doc) =
     (if i < length ts then let (st', t, r) = store_Insert st (ts ! i) doc in (st', ts[i := t]) else (st, ts))"
| "exec (st, ts) (CUpdate i rid doc) =
     (if i < length ts then let (t, e) = store_Update st (ts ! i) rid doc in (st, ts[i := t]) else (st, ts))"
| "exec (st, ts) (CDelete i rid) =
     (if i < length ts then let (t, e) = store_Delete st (ts ! i) rid in (st, ts[i := t]) else (st, ts))"
| "exec (st, ts) (CCommit i) =
     (if i < length ts \<and> o_commitVer (s_oracle st) < NOT 0
      then let (st', t, e) = txn_Commit st (ts ! i) (\<lambda>v. None) in (st', ts[i := t]) else (st, ts))"
| "exec (st, ts) (CRollback i) =
     (if i < length ts then let (st', t, e) = txn_Rollback st (ts ! i) in (st', ts[i := t]) else (st, ts))"
| "exec (st, ts) CGC = (let (st', n) = store_GC st in (st', ts))"

definition run :: "call list \<Rightarrow> sys" where
  "run cs = foldl exec (NewStore, []) cs"

lemma exec_step: "exec s c = s \<or> mvcc_step s (exec s c)"
  by (cases s; cases c) (auto simp: Let_def intro: mvcc_step.intros split: prod.splits)

lemma reachable_run: "reachable (run cs)"
proof (induction cs rule: rev_induct)
  case (snoc c cs)
  then show ?case
    using exec_step[of "run cs" c] unfolding reachable_def run_def by (auto intro: rtranclp.rtrancl_into_rtrancl)
qed (simp add: run_def reachable_def)

text \<open>One transaction inserts a record and commits; two more begin and update it.\<close>

abbreviation ex_calls :: "call list" where
  "ex_calls \<equiv> [CBegin True, CInsert 0 [5], CCommit 0, CBegin True, CBegin True, CUpdate 1 (RID 1 1) [6], CUpdate 2 (RID 1 1) [7]]"

lemma reach_ex: "reachable (fst (run cs), snd (run cs))"
  by (simp add: reachable_run)

theorem oracle_tracks_snapshots_witness:
  "LiveSnapshots (s_oracle (fst (run ex_calls))) = 2 \<and> Watermark (s_oracle (fst (run ex_calls))) = 1"
proof -
  have "length (filter (\<lambda>t. \<not> t_done t) (snd (run ex_calls))) = 2" by code_simp
  moreover have "t_startVer ` {t \<in> set (snd (run ex_calls)). \<not> t_done t} = {1}"
    unfolding set_filter[symmetric] set_map[symmetric] by code_simp
  moreover have "\<not> (\<forall>t \<in> set (snd (run ex_calls)). t_done t)" by code_simp
  ultimately show ?thesis using oracle_tracks_snapshots[OF reach_ex[of ex_calls]] by (simp only: if_False) simp
qed

theorem snapshot_reads_stable_witness:
  "view (s_chains (fst (run (ex_calls @ [CCommit 1])))) 1 (RID_Encode (RID 1 1)) = view (s_chains (fst (run ex_calls))) 1 (RID_Encode (RID 1 1))"
proof -
  have "run (ex_calls @ [CCommit 1]) = exec (run ex_calls) (CCommit 1)" by (simp add: run_def)
  then have "mvcc_step\<^sup>*\<^sup>* (fst (run ex_calls), snd (run ex_calls)) (fst (run (ex_calls @ [CCommit 1])), snd (run (ex_calls @ [CCommit 1])))"
    using exec_step[of "run ex_calls" "CCommit 1"] by auto
  moreover have "2 < length (snd (run ex_calls))" "\<not> t_done (snd (run (ex_calls @ [CCommit 1])) ! 2)"
    "t_startVer (snd (run (ex_calls @ [CCommit 1])) ! 2) = 1" "t_startVer (snd (run ex_calls) ! 2) = 1"
    by code_simp+
  ultimately show ?thesis
    using snapshot_reads_stable[OF reach_ex[of ex_calls], of _ _ 2 "RID_Encode (RID 1 1)"] by metis
qed

theorem read_your_writes_witness:
  "store_Get (fst (run ex_calls)) (fst (store_Update (fst (run ex_calls)) (snd (run ex_calls) ! 1) (RID 1 1) [9])) (RID 1 1) = Inr [9]"
proof -
  let ?st = "fst (run ex_calls)" let ?t = "snd (run ex_calls) ! 1"
  have "snd (store_Update ?st ?t (RID 1 1) [9]) = None" by code_simp
  then show ?thesis
    using read_your_writes[OF prod.collapse[symmetric] prod.collapse[symmetric], of ?st ?t "RID 1 1" "[9]"] by blast
qed

theorem commit_atomic_visibility_witness:
  "\<exists>st' t'. txn_Commit (fst (run ex_calls)) (snd (run ex_calls) ! 1) (\<lambda>v. None) = (st', t', None) \<and> t_commitVer t' = 2
    \<and> view (s_chains st') 2 (RID_Encode (RID 1 1)) = Some [6]"
proof -
  let ?st = "fst (run ex_calls)" let ?ts = "snd (run ex_calls)"
  have h: "1 < length ?ts" "o_commitVer (s_oracle ?st) < NOT 0" "\<not> t_done (?ts ! 1)" "t_writable (?ts ! 1)" "t_writeSet (?ts ! 1) \<noteq> []"
    by code_simp+
  have v: "o_commitVer (s_oracle ?st) + 1 = 2" "map_option shown (map_of (pending_of (?ts ! 1)) (RID_Encode (RID 1 1))) = Some (Some [6])"
    by code_simp+
  have "snd (snd (txn_Commit ?st (?ts ! 1) (\<lambda>v. None))) = None" by code_simp
  then obtain st' t' where c: "txn_Commit ?st (?ts ! 1) (\<lambda>v. None) = (st', t', None)" by (metis prod.exhaust_sel)
  from commit_atomic_visibility[OF reach_ex h c] v c show ?thesis by auto
qed

theorem first_committer_wins_witness:
  "\<exists>cv. snd (snd (txn_Commit (fst (run (ex_calls @ [CCommit 1]))) (snd (run (ex_calls @ [CCommit 1])) ! 2) (\<lambda>v. None))) = Some (ConflictError cv)"
proof -
  let ?st = "fst (run (ex_calls @ [CCommit 1]))" let ?ts = "snd (run (ex_calls @ [CCommit 1]))"
  let ?c = "txn_Commit ?st (?ts ! 2) (\<lambda>v. None)"
  have h: "2 < length ?ts" "\<not> t_done (?ts ! 2)" "t_writable (?ts ! 2)" "t_writeSet (?ts ! 2) \<noteq> []"
    "\<exists>k \<in> set (t_writeSet (?ts ! 2)). \<exists>v \<in> set (chain_of (s_chains ?st) k). t_startVer (?ts ! 2) < v_commitVer v"
    by code_simp+
  have c: "?c = (fst ?c, fst (snd ?c), snd (snd ?c))" by simp
  from first_committer_wins[OF reach_ex h(1-4) c] h(5) show ?thesis by blast
qed

theorem store_GC_safe_witness:
  "store_Versions (fst (store_GC (fst (run ex_calls)))) + snd (store_GC (fst (run ex_calls))) = 1"
proof -
  have "store_Versions (fst (run ex_calls)) = 1" by code_simp
  then show ?thesis
    using store_GC_safe[OF reach_ex[of ex_calls], of "fst (store_GC (fst (run ex_calls)))" "snd (store_GC (fst (run ex_calls)))"] by simp
qed

end
