(* ===== verification/Mvcc_Ssi.thy ===== *)
theory Mvcc_Ssi
  imports Mvcc_Oracle
begin

text \<open>
  Serializable snapshot isolation (\<^verbatim>\<open>src/mvcc/ssi.go\<close>): tracking of read-write
  antidependencies among concurrent serializable transactions, and the commit that aborts the pivot
  of a dangerous structure.
\<close>

section \<open>Operations\<close>

definition RegisterSSI :: "Oracle \<Rightarrow> u64 \<Rightarrow> u64 \<Rightarrow> Oracle" where
  "RegisterSSI ora txnID startVer =
     ora\<lparr>o_ssiLive := AList.update txnID
       \<lparr>sx_startVer = startVer, sx_reads = [], sx_inConflict = False, sx_outConflict = False, sx_doomed = False\<rparr> (o_ssiLive ora)\<rparr>"

definition ReleaseSSI :: "Oracle \<Rightarrow> u64 \<Rightarrow> Oracle" where
  "ReleaseSSI ora txnID = ora\<lparr>o_ssiLive := AList.delete txnID (o_ssiLive ora)\<rparr>"

text \<open>The loop of \<^verbatim>\<open>RecordRead\<close>. The write sets are sorted, so the binary search is membership.\<close>

fun read_edges :: "u64 \<Rightarrow> u64 \<Rightarrow> ssiTxn \<Rightarrow> ssiCommitted list \<Rightarrow> ssiTxn \<times> ssiCommitted list" where
  "read_edges startVer key t [] = (t, [])"
| "read_edges startVer key t (c # cs) =
     (if sc_commitVer c \<le> startVer \<or> key \<notin> set (sc_writes c)
      then let (t', cs') = read_edges startVer key t cs in (t', c # cs')
      else let c' = c\<lparr>sc_inConflict := True\<rparr>;
               t1 = t\<lparr>sx_outConflict := True\<rparr>;
               t2 = (if sc_inConflict c' \<and> sc_outConflict c' then t1\<lparr>sx_doomed := True\<rparr> else t1);
               (t', cs') = read_edges startVer key t2 cs
           in (t', c' # cs'))"

definition RecordRead :: "Oracle \<Rightarrow> u64 \<Rightarrow> u64 \<Rightarrow> u64 \<Rightarrow> Oracle" where
  "RecordRead ora txnID startVer key =
     (case map_of (o_ssiLive ora) txnID of
        None \<Rightarrow> ora
      | Some t \<Rightarrow>
          let (t', cs) = read_edges startVer key (t\<lparr>sx_reads := List.insert key (sx_reads t)\<rparr>) (o_ssiRecent ora)
          in ora\<lparr>o_ssiLive := AList.update txnID t' (o_ssiLive ora), o_ssiRecent := cs\<rparr>)"

definition intersectsMapSorted :: "u64 list \<Rightarrow> u64 list \<Rightarrow> bool" where
  "intersectsMapSorted m s = list_ex (\<lambda>k. k \<in> set m) s"

text \<open>The conflict flags of the committing transaction: incoming, outgoing, doomed.\<close>

record flags =
  fl_in :: bool
  fl_out :: bool
  fl_doomed :: bool

text \<open>Incoming edges from live readers.\<close>

fun live_edges :: "u64 \<Rightarrow> u64 list \<Rightarrow> (u64 \<times> ssiTxn) list \<Rightarrow> flags \<Rightarrow> (u64 \<times> ssiTxn) list \<times> flags" where
  "live_edges txnID writeSet [] fl = ([], fl)"
| "live_edges txnID writeSet ((i, t) # ts) fl =
     (if i = txnID \<or> \<not> intersectsMapSorted (sx_reads t) writeSet
      then let (ts', fl') = live_edges txnID writeSet ts fl in ((i, t) # ts', fl')
      else let t' = t\<lparr>sx_outConflict := True\<rparr>;
               fl1 = fl\<lparr>fl_in := True, fl_doomed := fl_doomed fl \<or> (sx_inConflict t' \<and> sx_outConflict t')\<rparr>;
               (ts', fl') = live_edges txnID writeSet ts fl1
           in ((i, t') # ts', fl'))"

text \<open>Edges with one committed transaction; \<open>selfReads\<close> is the nil map for an untracked transaction.\<close>

definition committed_in :: "u64 list \<Rightarrow> ssiCommitted \<times> flags \<Rightarrow> ssiCommitted \<times> flags" where
  "committed_in writeSet = (\<lambda>(c, fl).
     if intersects (sc_reads c) writeSet
     then (c\<lparr>sc_outConflict := True\<rparr>, fl\<lparr>fl_in := True, fl_doomed := fl_doomed fl \<or> sc_inConflict c\<rparr>)
     else (c, fl))"

definition committed_out :: "u64 list option \<Rightarrow> ssiCommitted \<times> flags \<Rightarrow> ssiCommitted \<times> flags" where
  "committed_out selfReads = (\<lambda>(c, fl).
     if (case selfReads of None \<Rightarrow> False | Some rs \<Rightarrow> intersectsMapSorted rs (sc_writes c))
     then (c\<lparr>sc_inConflict := True\<rparr>, fl\<lparr>fl_out := True, fl_doomed := fl_doomed fl \<or> sc_outConflict c\<rparr>)
     else (c, fl))"

fun recent_edges :: "u64 \<Rightarrow> u64 list \<Rightarrow> u64 list option \<Rightarrow> ssiCommitted list \<Rightarrow> flags \<Rightarrow> ssiCommitted list \<times> flags" where
  "recent_edges startVer writeSet selfReads [] fl = ([], fl)"
| "recent_edges startVer writeSet selfReads (c # cs) fl =
     (if sc_commitVer c \<le> startVer
      then let (cs', fl') = recent_edges startVer writeSet selfReads cs fl in (c # cs', fl')
      else let (c', fl1) = committed_out selfReads (committed_in writeSet (c, fl));
               (cs', fl') = recent_edges startVer writeSet selfReads cs fl1
           in (c' # cs', fl'))"

definition pruneSSILocked :: "Oracle \<Rightarrow> Oracle" where
  "pruneSSILocked ora = ora\<lparr>o_ssiRecent := dropWhile (\<lambda>c. sc_commitVer c \<le> o_minLive ora) (o_ssiRecent ora)\<rparr>"

definition finish_ssi :: "Oracle \<Rightarrow> u64 \<Rightarrow> u64 \<Rightarrow> Oracle" where
  "finish_ssi ora startVer txnID =
     pruneSSILocked (pruneLocked (releaseLocked (ora\<lparr>o_ssiLive := AList.delete txnID (o_ssiLive ora)\<rparr>) startVer))"

text \<open>\<^verbatim>\<open>abortSSILocked\<close> and the tail of a commit tear down the same way.\<close>

definition abortSSILocked :: "Oracle \<Rightarrow> u64 \<Rightarrow> u64 \<Rightarrow> Oracle" where
  "abortSSILocked ora startVer txnID = finish_ssi ora startVer txnID"

definition CommitSerializable ::
  "Oracle \<Rightarrow> u64 \<Rightarrow> u64 \<Rightarrow> u64 list \<Rightarrow> (u64 \<Rightarrow> nat option) \<Rightarrow> (u64 \<Rightarrow> 's \<Rightarrow> 's) \<Rightarrow> 's \<Rightarrow> Oracle \<times> 's \<times> (mvcc_error + u64)" where
  "CommitSerializable ora startVer txnID writeSet durable publish s =
     (case find_conflict (rev (o_recent ora)) startVer writeSet of
        Some cv \<Rightarrow> (abortSSILocked ora startVer txnID, s, Inl (ConflictError cv))
      | None \<Rightarrow>
          let self = map_of (o_ssiLive ora) txnID;
              selfReads = map_option sx_reads self;
              fl0 = (case self of None \<Rightarrow> \<lparr>fl_in = False, fl_out = False, fl_doomed = False\<rparr>
                     | Some t \<Rightarrow> \<lparr>fl_in = sx_inConflict t, fl_out = sx_outConflict t, fl_doomed = sx_doomed t\<rparr>);
              (live', fl1) = live_edges txnID writeSet (o_ssiLive ora) fl0;
              (recent', fl) = recent_edges startVer writeSet selfReads (o_ssiRecent ora) fl1;
              ora1 = ora\<lparr>o_ssiLive := live', o_ssiRecent := recent'\<rparr>
          in if fl_doomed fl \<or> (fl_in fl \<and> fl_out fl)
             then (abortSSILocked ora1 startVer txnID, s, Inl SerializationFailureError)
             else
               let cv = o_commitVer ora + 1 in
               case durable cv of
                 Some e \<Rightarrow> (abortSSILocked ora1 startVer txnID, s, Inl (DurableFailed e))
               | None \<Rightarrow>
                   let ora2 = ora1\<lparr>o_commitVer := cv,
                         o_recent := o_recent ora @ [\<lparr>ct_commitVer = cv, ct_writeSet = writeSet\<rparr>],
                         o_ssiRecent := recent' @ [\<lparr>sc_commitVer = cv, sc_startVer = startVer,
                           sc_reads = sortedKeys (case selfReads of None \<Rightarrow> [] | Some rs \<Rightarrow> rs), sc_writes = writeSet,
                           sc_inConflict = fl_in fl, sc_outConflict = fl_out fl\<rparr>]\<rparr>
                   in (finish_ssi ora2 startVer txnID, publish cv s, Inr cv))"

section \<open>What the loops compute\<close>

lemma intersectsMapSorted_iff: "intersectsMapSorted m s \<longleftrightarrow> set m \<inter> set s \<noteq> {}"
  by (auto simp: intersectsMapSorted_def list_ex_iff)

text \<open>The loop bodies act on each entry alone.\<close>

definition read_hit :: "u64 \<Rightarrow> u64 \<Rightarrow> ssiCommitted \<Rightarrow> bool" where
  "read_hit startVer key c \<longleftrightarrow> startVer < sc_commitVer c \<and> key \<in> set (sc_writes c)"

lemma read_edges_char:
  "snd (read_edges startVer key t cs) = map (\<lambda>c. if read_hit startVer key c then c\<lparr>sc_inConflict := True\<rparr> else c) cs
    \<and> sx_startVer (fst (read_edges startVer key t cs)) = sx_startVer t
    \<and> sx_reads (fst (read_edges startVer key t cs)) = sx_reads t"
proof (induction cs arbitrary: t)
  case (Cons c cs)
  show ?case
  proof (cases "read_hit startVer key c")
    case True
    then have "\<not> (sc_commitVer c \<le> startVer \<or> key \<notin> set (sc_writes c))" by (auto simp: read_hit_def)
    then show ?thesis using True Cons by (simp add: case_prod_unfold Let_def)
  next
    case False
    then have "sc_commitVer c \<le> startVer \<or> key \<notin> set (sc_writes c)" by (auto simp: read_hit_def)
    then show ?thesis using False Cons by (simp add: case_prod_unfold)
  qed
qed simp

lemma live_edges_char:
  "fst (live_edges txnID ws ts fl)
      = map (\<lambda>(i, t). (i, if i \<noteq> txnID \<and> set (sx_reads t) \<inter> set ws \<noteq> {} then t\<lparr>sx_outConflict := True\<rparr> else t)) ts
    \<and> (fl_in fl \<longrightarrow> fl_in (snd (live_edges txnID ws ts fl)))
    \<and> fl_out (snd (live_edges txnID ws ts fl)) = fl_out fl
    \<and> (fl_doomed fl \<longrightarrow> fl_doomed (snd (live_edges txnID ws ts fl)))"
proof (induction ts arbitrary: fl)
  case (Cons a ts)
  obtain i t where a: "a = (i, t)" by fastforce
  show ?case
  proof (cases "i \<noteq> txnID \<and> set (sx_reads t) \<inter> set ws \<noteq> {}")
    case True
    then have "\<not> (i = txnID \<or> \<not> intersectsMapSorted (sx_reads t) ws)" by (simp add: intersectsMapSorted_iff)
    then show ?thesis using True Cons by (simp add: a case_prod_unfold Let_def)
  next
    case False
    then have "i = txnID \<or> \<not> intersectsMapSorted (sx_reads t) ws" by (simp add: intersectsMapSorted_iff)
    then show ?thesis using False Cons by (auto simp: a case_prod_unfold)
  qed
qed simp

text \<open>A committed neighbour after the loop.\<close>

definition edge_in :: "u64 \<Rightarrow> u64 list \<Rightarrow> ssiCommitted \<Rightarrow> bool" where
  "edge_in startVer ws c \<longleftrightarrow> startVer < sc_commitVer c \<and> set (sc_reads c) \<inter> set ws \<noteq> {}"

definition edge_out :: "u64 \<Rightarrow> u64 list option \<Rightarrow> ssiCommitted \<Rightarrow> bool" where
  "edge_out startVer selfReads c \<longleftrightarrow>
     startVer < sc_commitVer c \<and> (\<exists>rs. selfReads = Some rs \<and> set rs \<inter> set (sc_writes c) \<noteq> {})"

definition marked_c :: "u64 \<Rightarrow> u64 list \<Rightarrow> u64 list option \<Rightarrow> ssiCommitted \<Rightarrow> ssiCommitted" where
  "marked_c startVer ws selfReads c =
     c\<lparr>sc_inConflict := sc_inConflict c \<or> edge_out startVer selfReads c,
       sc_outConflict := sc_outConflict c \<or> edge_in startVer ws c\<rparr>"

lemma recent_edges_char:
  assumes "sorted ws" and "\<forall>c \<in> set cs. sorted (sc_reads c)"
  shows "fst (recent_edges startVer ws selfReads cs fl) = map (marked_c startVer ws selfReads) cs
    \<and> fl_in (snd (recent_edges startVer ws selfReads cs fl)) = (fl_in fl \<or> (\<exists>c \<in> set cs. edge_in startVer ws c))
    \<and> fl_out (snd (recent_edges startVer ws selfReads cs fl)) = (fl_out fl \<or> (\<exists>c \<in> set cs. edge_out startVer selfReads c))
    \<and> fl_doomed (snd (recent_edges startVer ws selfReads cs fl)) = (fl_doomed fl
        \<or> (\<exists>c \<in> set cs. edge_in startVer ws c \<and> sc_inConflict c)
        \<or> (\<exists>c \<in> set cs. edge_out startVer selfReads c \<and> (sc_outConflict c \<or> edge_in startVer ws c)))"
  using assms(2)
proof (induction cs arbitrary: fl)
  case (Cons c cs)
  have i: "intersects (sc_reads c) ws \<longleftrightarrow> set (sc_reads c) \<inter> set ws \<noteq> {}"
    using Cons.prems assms(1) by (intro intersects_iff) auto
  let ?r = "committed_out selfReads (committed_in ws (c, fl))"
  show ?case
  proof (cases "sc_commitVer c \<le> startVer")
    case True
    then have e: "\<not> edge_in startVer ws c" "\<not> edge_out startVer selfReads c"
      by (auto simp: edge_in_def edge_out_def)
    then have "marked_c startVer ws selfReads c = c" by (simp add: marked_c_def)
    then show ?thesis using Cons True e by (simp add: case_prod_unfold)
  next
    case False
    then have lt: "startVer < sc_commitVer c" by simp
    then have m: "fst ?r = marked_c startVer ws selfReads c" "fl_in (snd ?r) = (fl_in fl \<or> edge_in startVer ws c)"
      "fl_out (snd ?r) = (fl_out fl \<or> edge_out startVer selfReads c)"
      "fl_doomed (snd ?r) = (fl_doomed fl \<or> (edge_in startVer ws c \<and> sc_inConflict c)
         \<or> (edge_out startVer selfReads c \<and> (sc_outConflict c \<or> edge_in startVer ws c)))"
      by (auto simp: committed_in_def committed_out_def i intersectsMapSorted_iff edge_in_def edge_out_def marked_c_def
          split: option.splits)
    show ?thesis
      using Cons.IH[of "snd ?r"] Cons.prems False m by (simp add: case_prod_unfold) blast
  qed
qed simp

section \<open>Histories of serializable transactions\<close>

record htxn =
  h_start :: u64
  h_commit :: u64
  h_reads :: "u64 list"
  h_writes :: "u64 list"

text \<open>A read-write antidependency between two concurrent committed transactions: \<open>a\<close> read a record
  whose version by \<open>b\<close> it could not see.\<close>

definition rw :: "htxn \<Rightarrow> htxn \<Rightarrow> bool" where
  "rw a b \<longleftrightarrow> h_commit a \<noteq> h_commit b \<and> set (h_reads a) \<inter> set (h_writes b) \<noteq> {} \<and> h_start a < h_commit b \<and> h_start b < h_commit a"

text \<open>An unfinished serializable transaction: its id, its snapshot and the keys it has read.\<close>

record stxn =
  st_id :: u64
  st_start :: u64
  st_reads :: "u64 list"

text \<open>The oracle, the unfinished serializable transactions, the start versions of the unfinished
  snapshot transactions, and the committed serializable transactions.\<close>

type_synonym ssys = "Oracle \<times> stxn list \<times> u64 list \<times> htxn list"

inductive ssi_step :: "ssys \<Rightarrow> ssys \<Rightarrow> bool" where
  begin_ser: "Acquire ora = (ora', s, tid) \<Longrightarrow> tid \<notin> st_id ` set act \<Longrightarrow>
    ssi_step (ora, act, si, H) (RegisterSSI ora' tid s, \<lparr>st_id = tid, st_start = s, st_reads = []\<rparr> # act, si, H)"
| begin_si: "Acquire ora = (ora', s, tid) \<Longrightarrow> ssi_step (ora, act, si, H) (ora', act, s # si, H)"
| read_key: "t \<in> set act \<Longrightarrow>
    ssi_step (ora, act, si, H)
      (RecordRead ora (st_id t) (st_start t) key, t\<lparr>st_reads := key # st_reads t\<rparr> # remove1 t act, si, H)"
| commit_ser: "t \<in> set act \<Longrightarrow> sorted ws \<Longrightarrow> o_commitVer ora < NOT 0 \<Longrightarrow>
    CommitSerializable ora (st_start t) (st_id t) ws durable (\<lambda>v u. u) () = (ora', u, Inr cv) \<Longrightarrow>
    ssi_step (ora, act, si, H)
      (ora', remove1 t act, si, \<lparr>h_start = st_start t, h_commit = cv, h_reads = st_reads t, h_writes = ws\<rparr> # H)"
| abort_ser: "t \<in> set act \<Longrightarrow>
    CommitSerializable ora (st_start t) (st_id t) ws durable (\<lambda>v u. u) () = (ora', u, Inl e) \<Longrightarrow>
    sorted ws \<Longrightarrow> ssi_step (ora, act, si, H) (ora', remove1 t act, si, H)"
| end_ser: "t \<in> set act \<Longrightarrow>
    ssi_step (ora, act, si, H) (Release (ReleaseSSI ora (st_id t)) (st_start t), remove1 t act, si, H)"
| commit_si: "s \<in> set si \<Longrightarrow> sorted ws \<Longrightarrow> o_commitVer ora < NOT 0 \<Longrightarrow>
    oracle_Commit ora s ws durable (\<lambda>v u. u) () = (ora', u, r) \<Longrightarrow> ssi_step (ora, act, si, H) (ora', act, remove1 s si, H)"
| end_si: "s \<in> set si \<Longrightarrow> ssi_step (ora, act, si, H) (Release ora s, act, remove1 s si, H)"

inductive ssi_reachable :: "ssys \<Rightarrow> bool" where
  start: "ssi_reachable (NewOracle v, [], [], [])"
| step: "ssi_reachable a \<Longrightarrow> ssi_step a b \<Longrightarrow> ssi_reachable b"

text \<open>The conflict order of committed transactions: \<open>a\<close> before \<open>b\<close> when \<open>b\<close> overwrote \<open>a\<close>'s version,
  or read or overwrote from a snapshot that holds it, or when \<open>a\<close> read a version \<open>b\<close> replaced.\<close>

definition conflict_before :: "htxn \<Rightarrow> htxn \<Rightarrow> bool" where
  "conflict_before a b \<longleftrightarrow> h_commit a \<noteq> h_commit b \<and>
     (set (h_writes a) \<inter> set (h_writes b) \<noteq> {} \<and> h_commit a < h_commit b
      \<or> set (h_writes a) \<inter> set (h_reads b) \<noteq> {} \<and> h_commit a \<le> h_start b
      \<or> set (h_reads a) \<inter> set (h_writes b) \<noteq> {} \<and> h_start a < h_commit b)"

section \<open>The invariant\<close>

definition matches :: "ssiCommitted \<Rightarrow> htxn \<Rightarrow> bool" where
  "matches c h \<longleftrightarrow> sc_commitVer c = h_commit h \<and> set (sc_reads c) = set (h_reads h) \<and> sc_writes c = h_writes h"

definition live_tracked :: "(u64 \<times> ssiTxn) list \<Rightarrow> stxn list \<Rightarrow> bool" where
  "live_tracked live act \<longleftrightarrow> distinct (map st_id act)
     \<and> (\<forall>t \<in> set act. \<exists>x. map_of live (st_id t) = Some x \<and> set (sx_reads x) = set (st_reads t))"

definition flagged :: "htxn list \<Rightarrow> ssiCommitted \<Rightarrow> bool" where
  "flagged H c \<longleftrightarrow> (\<forall>h \<in> set H. \<forall>g \<in> set H. matches c h \<longrightarrow>
      (rw h g \<longrightarrow> sc_outConflict c) \<and> (rw g h \<longrightarrow> sc_inConflict c))"

definition recent_tracked :: "u64 \<Rightarrow> ssiCommitted list \<Rightarrow> htxn list \<Rightarrow> bool" where
  "recent_tracked wm cs H \<longleftrightarrow> sorted_wrt (<) (map sc_commitVer cs)
     \<and> (\<forall>c \<in> set cs. sorted (sc_reads c) \<and> flagged H c \<and> (\<exists>h \<in> set H. sc_commitVer c = h_commit h))
     \<and> (\<forall>h \<in> set H. wm < h_commit h \<longrightarrow> (\<exists>c \<in> set cs. matches c h))"

definition writes_tracked :: "u64 \<Rightarrow> committedTxn list \<Rightarrow> htxn list \<Rightarrow> bool" where
  "writes_tracked wm cs H \<longleftrightarrow>
     (\<forall>h \<in> set H. wm < h_commit h \<longrightarrow> \<lparr>ct_commitVer = h_commit h, ct_writeSet = h_writes h\<rparr> \<in> set cs)"

definition no_danger :: "htxn list \<Rightarrow> bool" where
  "no_danger H \<longleftrightarrow> (\<forall>a \<in> set H. \<forall>b \<in> set H. \<forall>c \<in> set H. \<not> (rw a b \<and> rw b c))"

definition writers_ordered :: "htxn list \<Rightarrow> bool" where
  "writers_ordered H \<longleftrightarrow> (\<forall>a \<in> set H. \<forall>b \<in> set H.
     h_commit a < h_commit b \<longrightarrow> set (h_writes a) \<inter> set (h_writes b) \<noteq> {} \<longrightarrow> h_commit a \<le> h_start b)"

definition history_ok :: "u64 \<Rightarrow> htxn list \<Rightarrow> bool" where
  "history_ok cv H \<longleftrightarrow> (\<forall>h \<in> set H. h_start h < h_commit h \<and> h_commit h \<le> cv) \<and> distinct (map h_commit H)
     \<and> no_danger H \<and> writers_ordered H"

definition ssi_ok :: "ssys \<Rightarrow> bool" where
  "ssi_ok = (\<lambda>(ora, act, si, H). oracle_ok ora (mset (map st_start act) + mset si) \<and> live_tracked (o_ssiLive ora) act
     \<and> recent_tracked (o_minLive ora) (o_ssiRecent ora) H \<and> writes_tracked (o_minLive ora) (o_recent ora) H
     \<and> history_ok (o_commitVer ora) H)"

text \<open>More flags, a higher watermark and pruning keep the tracking.\<close>

lemma recent_tracked_weaken:
  assumes r: "recent_tracked wm cs H" and wm: "wm \<le> wm'"
    and f: "\<And>c. sc_commitVer (f c) = sc_commitVer c \<and> sc_reads (f c) = sc_reads c \<and> sc_writes (f c) = sc_writes c
      \<and> (sc_inConflict c \<longrightarrow> sc_inConflict (f c)) \<and> (sc_outConflict c \<longrightarrow> sc_outConflict (f c))"
  shows "recent_tracked wm' (map f cs) H"
proof -
  have m: "matches (f c) h = matches c h" for c h using f by (simp add: matches_def)
  have "flagged H (f c)" if "flagged H c" for c using that f unfolding flagged_def m by blast
  moreover have "sorted_wrt (<) (map sc_commitVer (map f cs))" using r f by (simp add: recent_tracked_def comp_def)
  moreover have "\<exists>c \<in> set (map f cs). matches c h" if "h \<in> set H" "wm' < h_commit h" for h
    using that r wm m unfolding recent_tracked_def by (metis dual_order.strict_trans2 image_eqI list.set_map)
  ultimately show ?thesis using r f unfolding recent_tracked_def by auto
qed

lemma dropWhile_sc_sorted:
  "sorted_wrt (<) (map sc_commitVer cs) \<Longrightarrow> dropWhile (\<lambda>c. sc_commitVer c \<le> wm) cs = filter (\<lambda>c. wm < sc_commitVer c) cs"
proof (induction cs)
  case (Cons c cs)
  show ?case
  proof (cases "sc_commitVer c \<le> wm")
    case False
    then have "\<forall>d \<in> set cs. wm < sc_commitVer d" using Cons.prems by force
    then show ?thesis using False by (simp add: filter_id_conv)
  qed (use Cons in auto)
qed simp

lemma recent_tracked_prune:
  assumes "recent_tracked wm cs H" and "wm \<le> wm'"
  shows "recent_tracked wm' (dropWhile (\<lambda>c. sc_commitVer c \<le> wm') cs) H"
proof -
  have t: "recent_tracked wm' cs H" using recent_tracked_weaken[OF assms, of "\<lambda>c. c"] by simp
  then have s: "sorted_wrt (<) (map sc_commitVer cs)" by (simp add: recent_tracked_def)
  have k: "\<exists>c \<in> set (filter (\<lambda>c. wm' < sc_commitVer c) cs). matches c h" if h: "h \<in> set H" "wm' < h_commit h" for h
  proof -
    obtain c where "c \<in> set cs" "matches c h" using t h by (auto simp: recent_tracked_def)
    then show ?thesis using h(2) by (intro bexI[of _ c]) (auto simp: matches_def)
  qed
  have "sorted_wrt (<) (map sc_commitVer (filter P cs))" for P
    using s by (simp add: sorted_wrt_map sorted_wrt_filter)
  then show ?thesis using t k unfolding dropWhile_sc_sorted[OF s] recent_tracked_def by simp
qed

lemma writes_tracked_weaken:
  assumes "writes_tracked wm cs H" and "wm \<le> wm'" and "cs' = filter (\<lambda>c. wm' < ct_commitVer c) cs"
  shows "writes_tracked wm' cs' H"
  using assms unfolding writes_tracked_def by auto

lemma releaseLocked_ssi:
  "releaseLocked (ora\<lparr>o_ssiLive := l, o_ssiRecent := r\<rparr>) s = (releaseLocked ora s)\<lparr>o_ssiLive := l, o_ssiRecent := r\<rparr>"
  by (cases "s = o_minLive ora") (simp_all add: releaseLocked_def Let_def)

lemma Release_ssi:
  "Release (ora\<lparr>o_ssiLive := l, o_ssiRecent := r\<rparr>) s = (Release ora s)\<lparr>o_ssiLive := l, o_ssiRecent := r\<rparr>"
  by (simp add: Release_def releaseLocked_ssi pruneLocked_def)

lemma ssi_fields_kept [simp]:
  "o_ssiLive (releaseLocked ora s) = o_ssiLive ora" "o_ssiRecent (releaseLocked ora s) = o_ssiRecent ora"
  "o_ssiLive (pruneLocked ora) = o_ssiLive ora" "o_ssiRecent (pruneLocked ora) = o_ssiRecent ora"
  "o_ssiLive (Release ora s) = o_ssiLive ora" "o_ssiRecent (Release ora s) = o_ssiRecent ora"
  by (simp_all add: releaseLocked_def pruneLocked_def Release_def Let_def)

lemma oracle_ok_ssi [simp]: "oracle_ok (ora\<lparr>o_ssiLive := l, o_ssiRecent := r\<rparr>) S = oracle_ok ora S"
  by (simp add: oracle_ok_def)

lemma finish_ssi_eq:
  "finish_ssi (ora\<lparr>o_ssiLive := l, o_ssiRecent := r\<rparr>) s tid =
     (Release ora s)\<lparr>o_ssiLive := AList.delete tid l,
       o_ssiRecent := dropWhile (\<lambda>c. sc_commitVer c \<le> o_minLive (Release ora s)) r\<rparr>"
proof -
  have e: "ora\<lparr>o_ssiLive := l, o_ssiRecent := r\<rparr>\<lparr>o_ssiLive := AList.delete tid l\<rparr>
      = ora\<lparr>o_ssiLive := AList.delete tid l, o_ssiRecent := r\<rparr>" by simp
  have d: "AList.delete tid (o_ssiLive (ora\<lparr>o_ssiLive := l, o_ssiRecent := r\<rparr>)) = AList.delete tid l" by simp
  show ?thesis
    unfolding finish_ssi_def d e releaseLocked_ssi by (simp add: pruneLocked_def Release_def pruneSSILocked_def)
qed

definition reads_of :: "(u64 \<times> ssiTxn) list \<Rightarrow> u64 \<Rightarrow> u64 list" where
  "reads_of live txnID = (case map_of live txnID of None \<Rightarrow> [] | Some t \<Rightarrow> sx_reads t)"

definition self_flags :: "ssiTxn option \<Rightarrow> flags" where
  "self_flags self = (case self of None \<Rightarrow> \<lparr>fl_in = False, fl_out = False, fl_doomed = False\<rparr>
     | Some t \<Rightarrow> \<lparr>fl_in = sx_inConflict t, fl_out = sx_outConflict t, fl_doomed = sx_doomed t\<rparr>)"

definition commit_flags :: "Oracle \<Rightarrow> u64 \<Rightarrow> u64 \<Rightarrow> u64 list \<Rightarrow> flags" where
  "commit_flags ora s tid ws =
     snd (recent_edges s ws (map_option sx_reads (map_of (o_ssiLive ora) tid)) (o_ssiRecent ora)
       (snd (live_edges tid ws (o_ssiLive ora) (self_flags (map_of (o_ssiLive ora) tid)))))"

text \<open>The oracle with the edges of the committing transaction recorded.\<close>

definition with_edges :: "Oracle \<Rightarrow> u64 \<Rightarrow> u64 \<Rightarrow> u64 list \<Rightarrow> Oracle" where
  "with_edges ora s tid ws =
     ora\<lparr>o_ssiLive := fst (live_edges tid ws (o_ssiLive ora) (self_flags (map_of (o_ssiLive ora) tid))),
         o_ssiRecent := fst (recent_edges s ws (map_option sx_reads (map_of (o_ssiLive ora) tid)) (o_ssiRecent ora)
           (snd (live_edges tid ws (o_ssiLive ora) (self_flags (map_of (o_ssiLive ora) tid)))))\<rparr>"

definition with_commit :: "Oracle \<Rightarrow> u64 \<Rightarrow> u64 \<Rightarrow> u64 list \<Rightarrow> Oracle" where
  "with_commit ora s tid ws =
     (with_edges ora s tid ws)\<lparr>o_commitVer := o_commitVer ora + 1,
        o_recent := o_recent ora @ [\<lparr>ct_commitVer = o_commitVer ora + 1, ct_writeSet = ws\<rparr>],
        o_ssiRecent := o_ssiRecent (with_edges ora s tid ws) @ [\<lparr>sc_commitVer = o_commitVer ora + 1, sc_startVer = s,
          sc_reads = sortedKeys (reads_of (o_ssiLive ora) tid), sc_writes = ws,
          sc_inConflict = fl_in (commit_flags ora s tid ws), sc_outConflict = fl_out (commit_flags ora s tid ws)\<rparr>]\<rparr>"

lemma CommitSerializable_cases:
  "CommitSerializable ora s tid ws durable pub x =
    (case find_conflict (rev (o_recent ora)) s ws of
       Some cv \<Rightarrow> (finish_ssi ora s tid, x, Inl (ConflictError cv))
     | None \<Rightarrow>
         if fl_doomed (commit_flags ora s tid ws) \<or> (fl_in (commit_flags ora s tid ws) \<and> fl_out (commit_flags ora s tid ws))
         then (finish_ssi (with_edges ora s tid ws) s tid, x, Inl SerializationFailureError)
         else (case durable (o_commitVer ora + 1) of
             Some e \<Rightarrow> (finish_ssi (with_edges ora s tid ws) s tid, x, Inl (DurableFailed e))
           | None \<Rightarrow> (finish_ssi (with_commit ora s tid ws) s tid, pub (o_commitVer ora + 1) x, Inr (o_commitVer ora + 1))))"
proof -
  have r: "(case map_option sx_reads m of None \<Rightarrow> [] | Some rs \<Rightarrow> rs) = (case m of None \<Rightarrow> [] | Some t \<Rightarrow> sx_reads t)" for m
    by (cases m) auto
  show ?thesis
    unfolding CommitSerializable_def Let_def abortSSILocked_def r
    by (simp add: case_prod_unfold commit_flags_def with_edges_def with_commit_def self_flags_def reads_of_def split: option.split)
qed



lemma map_of_map_entry: "map_of (map (\<lambda>(i, t). (i, f i t)) ts) i = map_option (f i) (map_of ts i)"
  by (induction ts) auto

lemma with_edges_eq:
  assumes "sorted ws" and "\<forall>c \<in> set (o_ssiRecent ora). sorted (sc_reads c)"
  shows "\<exists>l. with_edges ora s tid ws
      = ora\<lparr>o_ssiLive := l,
            o_ssiRecent := map (marked_c s ws (map_option sx_reads (map_of (o_ssiLive ora) tid))) (o_ssiRecent ora)\<rparr>
    \<and> (\<forall>act. live_tracked (o_ssiLive ora) act \<longrightarrow> live_tracked l act)"
proof -
  let ?l = "fst (live_edges tid ws (o_ssiLive ora) (self_flags (map_of (o_ssiLive ora) tid)))"
  let ?f = "\<lambda>i t. if i \<noteq> tid \<and> set (sx_reads t) \<inter> set ws \<noteq> {} then t\<lparr>sx_outConflict := True\<rparr> else t"
  have l: "?l = map (\<lambda>(i, t). (i, ?f i t)) (o_ssiLive ora)" using live_edges_char by blast
  have m: "map_of ?l i = map_option (?f i) (map_of (o_ssiLive ora) i)" for i
    unfolding l by (rule map_of_map_entry)
  have "\<exists>y. map_of ?l i = Some y \<and> set (sx_reads y) = R" if "map_of (o_ssiLive ora) i = Some x \<and> set (sx_reads x) = R" for i x R
    using that unfolding m by (intro exI[of _ "?f i x"]) simp
  then have "live_tracked ?l act" if "live_tracked (o_ssiLive ora) act" for act
    using that unfolding live_tracked_def by blast
  then show ?thesis using recent_edges_char[OF assms] unfolding with_edges_def by (intro exI[of _ ?l]) simp
qed

lemma commit_flags_char:
  assumes "sorted ws" and "\<forall>c \<in> set (o_ssiRecent ora). sorted (sc_reads c)"
    and "\<not> (fl_doomed (commit_flags ora s tid ws) \<or> (fl_in (commit_flags ora s tid ws) \<and> fl_out (commit_flags ora s tid ws)))"
  defines "self \<equiv> map_option sx_reads (map_of (o_ssiLive ora) tid)"
  shows "(\<exists>c \<in> set (o_ssiRecent ora). edge_in s ws c) \<Longrightarrow> fl_in (commit_flags ora s tid ws)"
    and "(\<exists>c \<in> set (o_ssiRecent ora). edge_out s self c) \<Longrightarrow> fl_out (commit_flags ora s tid ws)"
    and "\<not> ((\<exists>c \<in> set (o_ssiRecent ora). edge_in s ws c) \<and> (\<exists>c \<in> set (o_ssiRecent ora). edge_out s self c))"
    and "c \<in> set (o_ssiRecent ora) \<Longrightarrow> edge_in s ws c \<Longrightarrow> \<not> sc_inConflict c"
    and "c \<in> set (o_ssiRecent ora) \<Longrightarrow> edge_out s self c \<Longrightarrow> \<not> sc_outConflict c"
  using assms(3) recent_edges_char[OF assms(1,2), of s self]
  unfolding commit_flags_def self_def by blast+


section \<open>A commit extends the history\<close>

text \<open>The edges of the committing transaction \<open>n\<close> in the history are edges of the loop.\<close>

lemma rw_edges:
  assumes r: "recent_tracked wm cs H" and wm: "wm \<le> h_start n" and h: "h \<in> set H" and rs: "set rs = set (h_reads n)"
  shows "rw h n \<Longrightarrow> \<exists>c \<in> set cs. matches c h \<and> edge_in (h_start n) (h_writes n) c"
    and "rw n h \<Longrightarrow> \<exists>c \<in> set cs. matches c h \<and> edge_out (h_start n) (Some rs) c"
proof -
  assume e: "rw h n"
  then have "wm < h_commit h" using wm by (auto simp: rw_def)
  then obtain c where "c \<in> set cs" "matches c h" using r h by (auto simp: recent_tracked_def)
  then show "\<exists>c \<in> set cs. matches c h \<and> edge_in (h_start n) (h_writes n) c"
    using e by (intro bexI[of _ c]) (auto simp: edge_in_def matches_def rw_def)
next
  assume e: "rw n h"
  then have "wm < h_commit h" using wm by (auto simp: rw_def)
  then obtain c where "c \<in> set cs" "matches c h" using r h by (auto simp: recent_tracked_def)
  then show "\<exists>c \<in> set cs. matches c h \<and> edge_out (h_start n) (Some rs) c"
    using e rs by (intro bexI[of _ c]) (auto simp: edge_out_def matches_def rw_def)
qed

lemma rw_irrefl [simp]: "\<not> rw a a"
  by (simp add: rw_def)

lemma no_danger_Cons:
  assumes r: "recent_tracked wm cs H" and wm: "wm \<le> h_start n" and rs: "set rs = set (h_reads n)" and nd: "no_danger H"
    and piv: "\<not> ((\<exists>c \<in> set cs. edge_in (h_start n) (h_writes n) c) \<and> (\<exists>c \<in> set cs. edge_out (h_start n) (Some rs) c))"
    and dm: "\<And>c. c \<in> set cs \<Longrightarrow> edge_in (h_start n) (h_writes n) c \<Longrightarrow> \<not> sc_inConflict c"
      "\<And>c. c \<in> set cs \<Longrightarrow> edge_out (h_start n) (Some rs) c \<Longrightarrow> \<not> sc_outConflict c"
  shows "no_danger (n # H)"
proof -
  note e = rw_edges[OF r wm _ rs]
  have mid: "\<not> (rw a n \<and> rw n c)" if "a \<in> set H" "c \<in> set H" for a c using e that piv by blast
  have fl: "\<And>c. c \<in> set cs \<Longrightarrow> flagged H c" using r by (simp add: recent_tracked_def)
  have m1: "\<not> rw b c" if "rw n b" "b \<in> set H" "c \<in> set H" for b c
    using e(2)[OF that(2,1)] dm(2) fl that unfolding flagged_def by blast
  have m2: "\<not> rw a b" if "rw b n" "b \<in> set H" "a \<in> set H" for a b
    using e(1)[OF that(2,1)] dm(1) fl that unfolding flagged_def by blast
  show ?thesis
    unfolding no_danger_def
  proof (intro ballI notI)
    fix a b c
    assume "a \<in> set (n # H)" "b \<in> set (n # H)" "c \<in> set (n # H)" and ab: "rw a b \<and> rw b c"
    then consider "b = n" "a \<in> set H" "c \<in> set H" | "b \<in> set H" "a = n" "c = n" | "b \<in> set H" "a = n" "c \<in> set H"
      | "b \<in> set H" "a \<in> set H" "c = n" | "a \<in> set H" "b \<in> set H" "c \<in> set H"
      by auto
    then show False
    proof cases
      case 5
      then show ?thesis using nd ab unfolding no_danger_def by blast
    qed (use ab mid m1 m2 in blast)+
  qed
qed

lemma recent_tracked_commit:
  assumes r: "recent_tracked wm cs H" and wm: "wm \<le> h_start n" and rs: "set rs = set (h_reads n)"
    and lt: "\<forall>h \<in> set H. h_commit h < h_commit n"
    and inn: "(\<exists>c \<in> set cs. edge_in (h_start n) (h_writes n) c) \<Longrightarrow> sc_inConflict new"
    and out: "(\<exists>c \<in> set cs. edge_out (h_start n) (Some rs) c) \<Longrightarrow> sc_outConflict new"
    and new: "matches new n" "sorted (sc_reads new)"
  shows "recent_tracked wm (map (marked_c (h_start n) (h_writes n) (Some rs)) cs @ [new]) (n # H)"
proof -
  let ?m = "marked_c (h_start n) (h_writes n) (Some rs)"
  have f: "sc_commitVer (?m c) = sc_commitVer c" "sc_reads (?m c) = sc_reads c" "sc_writes (?m c) = sc_writes c" for c
    by (simp_all add: marked_c_def)
  have mm: "matches (?m c) h = matches c h" for c h using f by (simp add: matches_def)
  have r': "recent_tracked wm (map ?m cs) H" by (rule recent_tracked_weaken[OF r]) (auto simp: marked_c_def)
  have cv: "\<exists>h \<in> set H. sc_commitVer c = h_commit h" if "c \<in> set (map ?m cs)" for c
    using r' that by (auto simp: recent_tracked_def)
  then have clt: "sc_commitVer c < h_commit n" if "c \<in> set (map ?m cs)" for c using lt that by fastforce
  note e = rw_edges[OF r wm _ rs]
  have edge: "sc_outConflict (?m c)" if "rw h n" "matches c h" "h \<in> set H" "c \<in> set cs" for c h
    using that by (auto simp: marked_c_def edge_in_def rw_def matches_def)
  have edge': "sc_inConflict (?m c)" if "rw n h" "matches c h" "h \<in> set H" "c \<in> set cs" for c h
    using that rs by (auto simp: marked_c_def edge_out_def rw_def matches_def)
  have "flagged (n # H) c" if c: "c \<in> set (map ?m cs)" for c
  proof -
    obtain d where d: "d \<in> set cs" "c = ?m d" using c by auto
    have nn: "\<not> matches c n" using clt[OF c] by (auto simp: matches_def)
    have "flagged H c" using r' c unfolding recent_tracked_def by blast
    then show ?thesis using nn edge edge' d mm unfolding flagged_def by (simp add: rw_irrefl)
  qed
  moreover have "flagged (n # H) new"
    unfolding flagged_def
  proof (intro ballI impI)
    fix h g assume h: "h \<in> set (n # H)" "g \<in> set (n # H)" "matches new h"
    have "h = n" using h new(1) lt by (fastforce simp: matches_def)
    moreover have "sc_outConflict new" if "rw n g" "g \<in> set H" using e(2)[OF that(2,1)] out by blast
    moreover have "sc_inConflict new" if "rw g n" "g \<in> set H" using e(1)[OF that(2,1)] inn by blast
    ultimately show "(rw h g \<longrightarrow> sc_outConflict new) \<and> (rw g h \<longrightarrow> sc_inConflict new)" using h(2) by auto
  qed
  ultimately show ?thesis
    using r' clt cv new unfolding recent_tracked_def by (auto simp: sorted_wrt_append matches_def)
qed


lemma writers_ordered_Cons:
  assumes w: "writes_tracked wm cs H" and wm: "wm \<le> h_start n" and wo: "writers_ordered H"
    and lt: "\<forall>h \<in> set H. h_commit h < h_commit n"
    and disj: "\<forall>c \<in> set cs. h_start n < ct_commitVer c \<longrightarrow> set (ct_writeSet c) \<inter> set (h_writes n) = {}"
  shows "writers_ordered (n # H)"
proof -
  have "h_commit a \<le> h_start n" if a: "a \<in> set H" "set (h_writes a) \<inter> set (h_writes n) \<noteq> {}" for a
  proof (rule ccontr)
    assume "\<not> h_commit a \<le> h_start n"
    then have "h_start n < h_commit a" "wm < h_commit a" using wm by auto
    then have "\<lparr>ct_commitVer = h_commit a, ct_writeSet = h_writes a\<rparr> \<in> set cs" using w a(1) by (simp add: writes_tracked_def)
    then show False using disj \<open>h_start n < h_commit a\<close> a(2) by fastforce
  qed
  then show ?thesis using wo lt unfolding writers_ordered_def by (simp add: order.asym) (metis order.asym)
qed

text \<open>An order with versions: without a dangerous structure the conflict order has no cycle. The first
  transaction of a cycle to commit would be the far end of two consecutive antidependencies.\<close>

lemma conflict_before_cases:
  assumes h: "history_ok cv H" and ab: "a \<in> set H" "b \<in> set H" and c: "conflict_before a b"
  shows "h_commit a \<le> h_start b \<or> rw a b"
proof (cases "h_commit a \<le> h_start b")
  case False
  have "\<not> (set (h_writes a) \<inter> set (h_writes b) \<noteq> {} \<and> h_commit a < h_commit b)"
    using h ab False unfolding history_ok_def writers_ordered_def by blast
  then show ?thesis using c False unfolding conflict_before_def rw_def by auto
qed simp

lemma no_cycle:
  assumes h: "history_ok cv H"
  shows "acyclic {(a, b). a \<in> set H \<and> b \<in> set H \<and> conflict_before a b}"
proof -
  let ?R = "{(a, b). a \<in> set H \<and> b \<in> set H \<and> conflict_before a b}"
  have st: "h_start x < h_commit x" if "x \<in> set H" for x using h that by (simp add: history_ok_def)
  have inj: "inj_on h_commit (set H)" using h by (simp add: history_ok_def distinct_map)
  have nd: "no_danger H" using h by (simp add: history_ok_def)
  show ?thesis
  proof (rule ccontr)
    assume "\<not> acyclic ?R"
    then obtain x where x: "(x, x) \<in> ?R\<^sup>+" by (auto simp: acyclic_def)
    define Cyc where "Cyc = {y. (x, y) \<in> ?R\<^sup>+ \<and> (y, x) \<in> ?R\<^sup>+}"
    have sub: "Cyc \<subseteq> set H" unfolding Cyc_def by (auto elim: tranclE)
    have ne: "Cyc \<noteq> {}" using x by (auto simp: Cyc_def)
    have fin: "finite Cyc" using sub finite_subset by blast
    obtain c where c: "c \<in> Cyc" "\<forall>y \<in> Cyc. h_commit c \<le> h_commit y"
      using fin ne by (meson arg_min_if_finite(1) arg_min_least)
    have pred: "\<exists>z \<in> Cyc. conflict_before z y" if y: "y \<in> Cyc" for y
    proof -
      have "(y, y) \<in> ?R\<^sup>+" using y by (auto simp: Cyc_def)
      then obtain z where z: "(y, z) \<in> ?R\<^sup>*" "(z, y) \<in> ?R" by (meson tranclD2)
      have "(x, y) \<in> ?R\<^sup>+" "(y, x) \<in> ?R\<^sup>+" using y by (auto simp: Cyc_def)
      then have "(x, z) \<in> ?R\<^sup>+" "(z, x) \<in> ?R\<^sup>+"
        using z by (meson trancl_rtrancl_trancl, meson trancl_into_trancl2)
      then show ?thesis using z(2) by (auto simp: Cyc_def)
    qed
    obtain b where b: "b \<in> Cyc" "conflict_before b c" using pred[OF c(1)] by blast
    obtain a where a: "a \<in> Cyc" "conflict_before a b" using pred[OF b(1)] by blast
    have mem: "a \<in> set H" "b \<in> set H" "c \<in> set H" using a b c sub by auto
    have "rw b c" using conflict_before_cases[OF h mem(2,3) b(2)] c(2) b(1) st[OF mem(3)] by (meson leD le_less_trans)
    moreover have "rw a b"
      using conflict_before_cases[OF h mem(1,2) a(2)] calculation c(2) a(1) unfolding rw_def by (meson leD le_less_trans)
    ultimately show False using nd mem unfolding no_danger_def by blast
  qed
qed


section \<open>Every step keeps the invariant\<close>

lemma act_remove:
  assumes "t \<in> set act"
  shows "mset (map st_start (remove1 t act)) + mset si = mset (map st_start act) + mset si - {#st_start t#}"
    and "st_start t \<in># mset (map st_start act) + mset si"
proof -
  have "mset act = add_mset t (mset (remove1 t act))" using assms by simp
  then have "mset (map st_start act) = add_mset (st_start t) (mset (map st_start (remove1 t act)))"
    by (simp only: mset_map image_mset_add_mset)
  then show "mset (map st_start (remove1 t act)) + mset si = mset (map st_start act) + mset si - {#st_start t#}"
    and "st_start t \<in># mset (map st_start act) + mset si" by simp_all
qed

lemma remove1_ids:
  assumes "distinct (map st_id act)" and "t \<in> set act"
  shows "distinct (map st_id (remove1 t act))" and "st_id t \<notin> st_id ` set (remove1 t act)"
    and "set (remove1 t act) \<subseteq> set act"
proof -
  have d: "distinct act" and i: "inj_on st_id (set act)" using assms(1) by (auto simp: distinct_map)
  have s: "set (remove1 t act) = set act - {t}" using d by (rule set_remove1_eq)
  show "set (remove1 t act) \<subseteq> set act" using s by blast
  show "distinct (map st_id (remove1 t act))" using i d s by (auto simp: distinct_map intro: inj_on_subset)
  show "st_id t \<notin> st_id ` set (remove1 t act)" using i assms(2) unfolding s by (auto simp: inj_on_def)
qed

lemma live_tracked_delete:
  assumes l: "live_tracked l act" and t: "t \<in> set act"
  shows "live_tracked (AList.delete (st_id t) l) (remove1 t act)"
proof -
  have d: "distinct (map st_id act)" using l by (simp add: live_tracked_def)
  have "map_of (AList.delete (st_id t) l) (st_id u) = map_of l (st_id u)" if "u \<in> set (remove1 t act)" for u
    using remove1_ids(2)[OF d t] that by (auto simp: delete_conv' image_iff)
  then show ?thesis using l remove1_ids[OF d t] unfolding live_tracked_def by (metis subsetD)
qed

lemma live_tracked_update:
  assumes l: "live_tracked l act" and t: "t \<in> set act" and x: "set (sx_reads x) = set (st_reads t')" and i: "st_id t' = st_id t"
  shows "live_tracked (AList.update (st_id t) x l) (t' # remove1 t act)"
proof -
  have d: "distinct (map st_id act)" using l by (simp add: live_tracked_def)
  have "map_of (AList.update (st_id t) x l) (st_id u) = map_of l (st_id u)" if "u \<in> set (remove1 t act)" for u
    using remove1_ids(2)[OF d t] that by (auto simp: update_conv' image_iff)
  then have "\<forall>u \<in> set (remove1 t act). \<exists>y. map_of (AList.update (st_id t) x l) (st_id u) = Some y \<and> set (sx_reads y) = set (st_reads u)"
    using l remove1_ids(3)[OF d t] unfolding live_tracked_def by (metis subsetD)
  then show ?thesis using remove1_ids[OF d t] x i unfolding live_tracked_def by (simp add: update_conv')
qed

text \<open>A transaction that ends without a commit, with the flags it may have set.\<close>

lemma ssi_ok_release:
  assumes ok: "ssi_ok (ora, act, si, H)" and t: "s \<in># mset (map st_start act) + mset si"
    and m: "mset (map st_start act') + mset si' = mset (map st_start act) + mset si - {#s#}"
    and l: "live_tracked l act'" and r: "recent_tracked (o_minLive ora) r H"
  shows "ssi_ok ((Release ora s)\<lparr>o_ssiLive := l, o_ssiRecent := dropWhile (\<lambda>c. sc_commitVer c \<le> o_minLive (Release ora s)) r\<rparr>, act', si', H)"
    and "ssi_ok ((Release ora s)\<lparr>o_ssiLive := l, o_ssiRecent := r\<rparr>, act', si', H)"
proof -
  have ora: "oracle_ok ora (mset (map st_start act) + mset si)" using ok by (simp add: ssi_ok_def)
  note rel = Release_ok[OF ora t]
  have w: "writes_tracked (o_minLive (Release ora s)) (o_recent (Release ora s)) H"
    using writes_tracked_weaken[of "o_minLive ora" "o_recent ora" H] ok rel unfolding ssi_ok_def by blast
  have h: "history_ok (o_commitVer ora) H" using ok by (simp add: ssi_ok_def)
  show "ssi_ok ((Release ora s)\<lparr>o_ssiLive := l, o_ssiRecent := dropWhile (\<lambda>c. sc_commitVer c \<le> o_minLive (Release ora s)) r\<rparr>, act', si', H)"
    using rel w h l recent_tracked_prune[OF r] m by (simp add: ssi_ok_def)
  have "recent_tracked (o_minLive (Release ora s)) r H"
    using recent_tracked_weaken[OF r, of _ "\<lambda>c. c"] rel by simp
  then show "ssi_ok ((Release ora s)\<lparr>o_ssiLive := l, o_ssiRecent := r\<rparr>, act', si', H)"
    using rel w h l m by (simp add: ssi_ok_def)
qed

lemma ssi_ok_abort:
  assumes ok: "ssi_ok (ora, act, si, H)" and t: "t \<in> set act" and ws: "sorted ws"
  shows "ssi_ok (finish_ssi ora (st_start t) (st_id t), remove1 t act, si, H)"
    and "ssi_ok (finish_ssi (with_edges ora (st_start t) (st_id t) ws) (st_start t) (st_id t), remove1 t act, si, H)"
proof -
  have l: "live_tracked (o_ssiLive ora) act" and r: "recent_tracked (o_minLive ora) (o_ssiRecent ora) H"
    using ok by (simp_all add: ssi_ok_def)
  note rel = ssi_ok_release(1)[OF ok act_remove(2)[OF t] act_remove(1)[OF t]]
  show "ssi_ok (finish_ssi ora (st_start t) (st_id t), remove1 t act, si, H)"
    using finish_ssi_eq[where ora = ora and l = "o_ssiLive ora" and r = "o_ssiRecent ora"]
      rel[OF live_tracked_delete[OF l t] r] by simp
  have "\<forall>c \<in> set (o_ssiRecent ora). sorted (sc_reads c)" using r by (simp add: recent_tracked_def)
  then obtain l' where w: "with_edges ora (st_start t) (st_id t) ws = ora\<lparr>o_ssiLive := l',
      o_ssiRecent := map (marked_c (st_start t) ws (map_option sx_reads (map_of (o_ssiLive ora) (st_id t)))) (o_ssiRecent ora)\<rparr>"
    and l': "live_tracked l' act"
    using with_edges_eq[OF ws] l by blast
  have "recent_tracked (o_minLive ora) (map (marked_c s ws rs) (o_ssiRecent ora)) H" for s rs
    by (rule recent_tracked_weaken[OF r]) (auto simp: marked_c_def)
  then show "ssi_ok (finish_ssi (with_edges ora (st_start t) (st_id t) ws) (st_start t) (st_id t), remove1 t act, si, H)"
    using rel[OF live_tracked_delete[OF l' t]] unfolding w finish_ssi_eq by blast
qed

lemma ssi_ok_read:
  assumes ok: "ssi_ok (ora, act, si, H)" and t: "t \<in> set act"
  shows "ssi_ok (RecordRead ora (st_id t) (st_start t) key, t\<lparr>st_reads := key # st_reads t\<rparr> # remove1 t act, si, H)"
proof -
  have l: "live_tracked (o_ssiLive ora) act" and r: "recent_tracked (o_minLive ora) (o_ssiRecent ora) H"
    using ok by (simp_all add: ssi_ok_def)
  obtain x where x: "map_of (o_ssiLive ora) (st_id t) = Some x" "set (sx_reads x) = set (st_reads t)"
    using l t by (auto simp: live_tracked_def)
  let ?re = "read_edges (st_start t) key (x\<lparr>sx_reads := List.insert key (sx_reads x)\<rparr>) (o_ssiRecent ora)"
  note ch = read_edges_char[of "st_start t" key "x\<lparr>sx_reads := List.insert key (sx_reads x)\<rparr>" "o_ssiRecent ora"]
  have e: "RecordRead ora (st_id t) (st_start t) key = ora\<lparr>o_ssiLive := AList.update (st_id t) (fst ?re) (o_ssiLive ora), o_ssiRecent := snd ?re\<rparr>"
    by (simp add: RecordRead_def x case_prod_unfold Let_def)
  have "live_tracked (AList.update (st_id t) (fst ?re) (o_ssiLive ora)) (t\<lparr>st_reads := key # st_reads t\<rparr> # remove1 t act)"
    using ch x by (intro live_tracked_update[OF l t]) simp_all
  moreover have "recent_tracked (o_minLive ora) (snd ?re) H"
    unfolding ch[THEN conjunct1] by (rule recent_tracked_weaken[OF r]) auto
  moreover have "add_mset (st_start t) (mset (map st_start (remove1 t act))) = mset (map st_start act)"
    using act_remove[OF t, of "[]"] by simp
  ultimately show ?thesis using ok unfolding ssi_ok_def e by simp
qed


lemma history_ok_mono: "history_ok cv H \<Longrightarrow> cv \<le> cv' \<Longrightarrow> history_ok cv' H"
  by (auto simp: history_ok_def)

lemma ssi_ok_commit:
  assumes ok: "ssi_ok (ora, act, si, H)" and t: "t \<in> set act" and ws: "sorted ws" and cv: "o_commitVer ora < NOT 0"
    and nc: "find_conflict (rev (o_recent ora)) (st_start t) ws = None"
    and fl: "\<not> (fl_doomed (commit_flags ora (st_start t) (st_id t) ws)
      \<or> (fl_in (commit_flags ora (st_start t) (st_id t) ws) \<and> fl_out (commit_flags ora (st_start t) (st_id t) ws)))"
  shows "ssi_ok (finish_ssi (with_commit ora (st_start t) (st_id t) ws) (st_start t) (st_id t), remove1 t act, si,
    \<lparr>h_start = st_start t, h_commit = o_commitVer ora + 1, h_reads = st_reads t, h_writes = ws\<rparr> # H)"
proof -
  let ?n = "\<lparr>h_start = st_start t, h_commit = o_commitVer ora + 1, h_reads = st_reads t, h_writes = ws\<rparr>"
  let ?s = "st_start t" let ?wm = "o_minLive ora" let ?S = "mset (map st_start act) + mset si"
  have l: "live_tracked (o_ssiLive ora) act" and r: "recent_tracked ?wm (o_ssiRecent ora) H" and o: "oracle_ok ora ?S"
    and w: "writes_tracked ?wm (o_recent ora) H" and h: "history_ok (o_commitVer ora) H"
    using ok by (simp_all add: ssi_ok_def)
  obtain x where x: "map_of (o_ssiLive ora) (st_id t) = Some x" "set (sx_reads x) = set (st_reads t)"
    using l t by (auto simp: live_tracked_def)
  have srt: "\<forall>c \<in> set (o_ssiRecent ora). sorted (sc_reads c)" using r by (simp add: recent_tracked_def)
  have wms: "?wm \<le> h_start ?n"
    using o watermark_of_le(1)[OF act_remove(2)[OF t]] by (simp add: oracle_ok_def)
  have scv: "h_start ?n \<le> o_commitVer ora" using o act_remove(2)[OF t] by (simp add: oracle_ok_def)
  have lt: "\<forall>h \<in> set H. h_commit h < h_commit ?n" using h u64_succ[OF cv] by (auto simp: history_ok_def)
  have rs: "set (sx_reads x) = set (h_reads ?n)" using x by simp
  note fc = commit_flags_char[OF ws srt fl, unfolded x(1), simplified]
  have nd: "no_danger (?n # H)"
    using fc(3-5) h by (intro no_danger_Cons[OF r wms rs]) (auto simp: history_ok_def)
  have wo: "writers_ordered (?n # H)"
    using find_conflict_iff[OF o ws] nc h lt by (intro writers_ordered_Cons[OF w wms]) (auto simp: history_ok_def)
  have h': "history_ok (o_commitVer ora + 1) (?n # H)"
    using history_ok_mono[OF h] u64_succ[OF cv] scv lt nd wo by (force simp: history_ok_def)
  let ?new = "\<lparr>sc_commitVer = o_commitVer ora + 1, sc_startVer = ?s, sc_reads = sortedKeys (reads_of (o_ssiLive ora) (st_id t)),
    sc_writes = ws, sc_inConflict = fl_in (commit_flags ora ?s (st_id t) ws), sc_outConflict = fl_out (commit_flags ora ?s (st_id t) ws)\<rparr>"
  let ?r = "map (marked_c ?s ws (Some (sx_reads x))) (o_ssiRecent ora) @ [?new]"
  have r': "recent_tracked ?wm ?r (?n # H)"
    using recent_tracked_commit[OF r wms rs lt, of ?new] fc(1,2) x by (simp add: matches_def reads_of_def sortedKeys_def)
  obtain l' where we: "with_edges ora ?s (st_id t) ws = ora\<lparr>o_ssiLive := l',
      o_ssiRecent := map (marked_c ?s ws (Some (sx_reads x))) (o_ssiRecent ora)\<rparr>" and l': "live_tracked l' act"
    using with_edges_eq[OF ws srt, of ?s "st_id t"] l x by auto
  let ?oc = "ora\<lparr>o_commitVer := o_commitVer ora + 1,
    o_recent := o_recent ora @ [\<lparr>ct_commitVer = o_commitVer ora + 1, ct_writeSet = ws\<rparr>]\<rparr>"
  have wc: "with_commit ora ?s (st_id t) ws = ?oc\<lparr>o_ssiLive := l', o_ssiRecent := ?r\<rparr>"
    unfolding with_commit_def we by simp
  note co = commit_oracle_ok[OF o act_remove(2)[OF t] cv ws]
  have w': "writes_tracked (o_minLive (Release ?oc ?s)) (o_recent (Release ?oc ?s)) (?n # H)"
    by (rule writes_tracked_weaken[OF _ co(3,4)]) (use w in \<open>auto simp: writes_tracked_def\<close>)
  show ?thesis
    using co(1,2) act_remove(1)[OF t, of si] live_tracked_delete[OF l' t] recent_tracked_prune[OF r' co(3)] w' h'
    unfolding wc finish_ssi_eq by (simp add: ssi_ok_def)
qed

lemma ssi_ok_commit_si:
  assumes ok: "ssi_ok (ora, act, si, H)" and s: "s \<in> set si" and ws: "sorted ws" and cv: "o_commitVer ora < NOT 0"
    and c: "oracle_Commit ora s ws durable pub x = (ora', y, r)"
  shows "ssi_ok (ora', act, remove1 s si, H)"
proof -
  let ?S = "mset (map st_start act) + mset si"
  have l: "live_tracked (o_ssiLive ora) act" and rt: "recent_tracked (o_minLive ora) (o_ssiRecent ora) H" and o: "oracle_ok ora ?S"
    and w: "writes_tracked (o_minLive ora) (o_recent ora) H" and h: "history_ok (o_commitVer ora) H"
    using ok by (simp_all add: ssi_ok_def)
  have m: "mset (map st_start act) + mset (remove1 s si) = ?S - {#s#}" and sS: "s \<in># ?S" using s by simp_all
  let ?oc = "ora\<lparr>o_commitVer := o_commitVer ora + 1,
    o_recent := o_recent ora @ [\<lparr>ct_commitVer = o_commitVer ora + 1, ct_writeSet = ws\<rparr>]\<rparr>"
  consider "ora' = Release ora s" | "ora' = Release ?oc s"
    using c by (auto simp: oracle_Commit_def Release_def Let_def split: option.splits)
  then show ?thesis
  proof cases
    case 1
    have e: "(Release ora s)\<lparr>o_ssiLive := o_ssiLive ora, o_ssiRecent := o_ssiRecent ora\<rparr> = Release ora s"
      using Release_ssi[where ora = ora and l = "o_ssiLive ora" and r = "o_ssiRecent ora" and s = s] by simp
    show ?thesis using ssi_ok_release(2)[OF ok sS m l rt] unfolding 1 e .
  next
    case 2
    note co = commit_oracle_ok[OF o sS cv ws]
    have "writes_tracked (o_minLive (Release ?oc s)) (o_recent (Release ?oc s)) H"
      by (rule writes_tracked_weaken[OF _ co(3,4)]) (use w in \<open>auto simp: writes_tracked_def\<close>)
    moreover have "recent_tracked (o_minLive (Release ?oc s)) (o_ssiRecent ora) H"
      using recent_tracked_weaken[OF rt co(3), of "\<lambda>c. c"] by simp
    ultimately show ?thesis
      using co(1,2) m l history_ok_mono[OF h less_imp_le[OF u64_succ[OF cv]]] unfolding 2 by (simp add: ssi_ok_def)
  qed
qed


lemma Release_ssi_self: "(Release ora s)\<lparr>o_ssiLive := l, o_ssiRecent := o_ssiRecent ora\<rparr> = Release (ora\<lparr>o_ssiLive := l\<rparr>) s"
  using Release_ssi[where ora = ora and l = l and r = "o_ssiRecent ora" and s = s] by simp

lemma ssi_ok_end:
  assumes ok: "ssi_ok (ora, act, si, H)"
  shows "t \<in> set act \<Longrightarrow> ssi_ok (Release (ReleaseSSI ora (st_id t)) (st_start t), remove1 t act, si, H)"
    and "s \<in> set si \<Longrightarrow> ssi_ok (Release ora s, act, remove1 s si, H)"
proof -
  have l: "live_tracked (o_ssiLive ora) act" and r: "recent_tracked (o_minLive ora) (o_ssiRecent ora) H"
    using ok by (simp_all add: ssi_ok_def)
  show "ssi_ok (Release (ReleaseSSI ora (st_id t)) (st_start t), remove1 t act, si, H)" if t: "t \<in> set act"
    using ssi_ok_release(2)[OF ok act_remove(2)[OF t] act_remove(1)[OF t] live_tracked_delete[OF l t] r]
    unfolding ReleaseSSI_def Release_ssi_self .
  show "ssi_ok (Release ora s, act, remove1 s si, H)" if s: "s \<in> set si"
  proof -
    have "ora\<lparr>o_ssiLive := o_ssiLive ora\<rparr> = ora" by simp
    then show ?thesis
      using ssi_ok_release(2)[OF ok _ _ l r, of s "remove1 s si", unfolded Release_ssi_self] s by simp
  qed
qed

lemma ssi_ok_begin:
  assumes ok: "ssi_ok (ora, act, si, H)" and a: "Acquire ora = (ora', s, tid)"
  shows "ssi_ok (ora', act, s # si, H)"
    and "tid \<notin> st_id ` set act \<Longrightarrow> ssi_ok (RegisterSSI ora' tid s, \<lparr>st_id = tid, st_start = s, st_reads = []\<rparr> # act, si, H)"
proof -
  have "oracle_ok ora (mset (map st_start act) + mset si)" using ok by (simp add: ssi_ok_def)
  note q = Acquire_ok[OF this, unfolded a, simplified]
  have k: "o_ssiLive ora' = o_ssiLive ora" "o_ssiRecent ora' = o_ssiRecent ora"
    using a by (auto simp: Acquire_def Let_def)
  show "ssi_ok (ora', act, s # si, H)" using ok q k by (simp add: ssi_ok_def)
  assume tid: "tid \<notin> st_id ` set act"
  let ?x = "\<lparr>sx_startVer = s, sx_reads = [], sx_inConflict = False, sx_outConflict = False, sx_doomed = False\<rparr>"
  have "live_tracked (AList.update tid ?x (o_ssiLive ora)) (\<lparr>st_id = tid, st_start = s, st_reads = []\<rparr> # act)"
    using ok tid by (auto simp: ssi_ok_def live_tracked_def update_conv' image_iff)
  moreover have "oracle_ok (ora'\<lparr>o_ssiLive := l\<rparr>) S = oracle_ok ora' S" for l S by (simp add: oracle_ok_def)
  ultimately show "ssi_ok (RegisterSSI ora' tid s, \<lparr>st_id = tid, st_start = s, st_reads = []\<rparr> # act, si, H)"
    using ok q k by (simp add: ssi_ok_def RegisterSSI_def)
qed

lemma ssi_step_ok: "ssi_step a b \<Longrightarrow> ssi_ok a \<Longrightarrow> ssi_ok b"
proof (induction rule: ssi_step.induct)
  case (commit_ser t act ws ora durable ora' u cv si H)
  then show ?case
    unfolding CommitSerializable_cases using ssi_ok_commit[of ora act si H t ws] by (auto split: option.splits if_splits)
next
  case (abort_ser t act ora ws durable ora' u e si H)
  then show ?case
    unfolding CommitSerializable_cases using ssi_ok_abort[of ora act si H t ws] by (auto split: option.splits if_splits)
qed (simp_all add: ssi_ok_begin ssi_ok_read ssi_ok_end ssi_ok_commit_si)

lemma ssi_reachable_ok: "ssi_reachable a \<Longrightarrow> ssi_ok a"
proof (induction rule: ssi_reachable.induct)
  case (start v)
  then show ?case
    using NewOracle_ok[of v]
    by (simp add: ssi_ok_def NewOracle_def live_tracked_def recent_tracked_def writes_tracked_def history_ok_def no_danger_def writers_ordered_def)
qed (rule ssi_step_ok)

section \<open>Serializability\<close>

text \<open>C14. The committed serializable transactions of every reachable state are conflict
  serializable: whatever transactions of either isolation level began, read, committed, aborted or
  ended, in any interleaving, the order that write-write, write-read and read-write conflicts force on
  the transactions committed by \<^verbatim>\<open>CommitSerializable\<close> has no cycle.\<close>

theorem CommitSerializable_serializable:
  assumes "ssi_reachable (ora, act, si, H)"
  shows "acyclic {(a, b). a \<in> set H \<and> b \<in> set H \<and> conflict_before a b}"
  using ssi_reachable_ok[OF assms] no_cycle by (auto simp: ssi_ok_def)


section \<open>Example runs\<close>

text \<open>Calls by transaction id, for runs that can be evaluated; a call on an unknown transaction is
  skipped.\<close>

datatype ssi_call = SBegin | SRead u64 u64 | SCommit u64 "u64 list" | SEnd u64

definition by_id :: "stxn list \<Rightarrow> u64 \<Rightarrow> stxn option" where
  "by_id act i = find (\<lambda>t. st_id t = i) act"

fun ssi_exec :: "ssys \<Rightarrow> ssi_call \<Rightarrow> ssys" where
  "ssi_exec (ora, act, si, H) SBegin =
     (let (ora', s, tid) = Acquire ora in
      if tid \<in> st_id ` set act then (ora, act, si, H)
      else (RegisterSSI ora' tid s, \<lparr>st_id = tid, st_start = s, st_reads = []\<rparr> # act, si, H))"
| "ssi_exec (ora, act, si, H) (SRead i key) =
     (case by_id act i of None \<Rightarrow> (ora, act, si, H)
      | Some t \<Rightarrow> (RecordRead ora (st_id t) (st_start t) key, t\<lparr>st_reads := key # st_reads t\<rparr> # remove1 t act, si, H))"
| "ssi_exec (ora, act, si, H) (SCommit i ws) =
     (case by_id act i of None \<Rightarrow> (ora, act, si, H)
      | Some t \<Rightarrow>
          if sorted ws \<and> o_commitVer ora < NOT 0
          then case CommitSerializable ora (st_start t) (st_id t) ws (\<lambda>v. None) (\<lambda>v u. u) () of
              (ora', u, Inr cv) \<Rightarrow> (ora', remove1 t act, si,
                \<lparr>h_start = st_start t, h_commit = cv, h_reads = st_reads t, h_writes = ws\<rparr> # H)
            | (ora', u, Inl e) \<Rightarrow> (ora', remove1 t act, si, H)
          else (ora, act, si, H))"
| "ssi_exec (ora, act, si, H) (SEnd i) =
     (case by_id act i of None \<Rightarrow> (ora, act, si, H)
      | Some t \<Rightarrow> (Release (ReleaseSSI ora (st_id t)) (st_start t), remove1 t act, si, H))"

definition ssi_run :: "ssi_call list \<Rightarrow> ssys" where
  "ssi_run cs = foldl ssi_exec (NewOracle 0, [], [], []) cs"

lemma by_id_in: "by_id act i = Some t \<Longrightarrow> t \<in> set act"
  by (auto simp: by_id_def find_Some_iff)

lemma ssi_exec_step: "ssi_exec s c = s \<or> ssi_step s (ssi_exec s c)"
proof (cases s)
  case (fields ora act si H)
  show ?thesis
  proof (cases c)
    case SBegin
    then show ?thesis by (auto simp: fields Let_def intro: ssi_step.begin_ser split: prod.splits)
  qed (auto simp: fields intro: ssi_step.intros dest: by_id_in split: option.splits prod.splits sum.splits)
qed

lemma ssi_reachable_run: "ssi_reachable (ssi_run cs)"
proof (induction cs rule: rev_induct)
  case (snoc c cs)
  then show ?case
    using ssi_exec_step[of "ssi_run cs" c] ssi_reachable.step[of "ssi_run cs" "ssi_exec (ssi_run cs) c"]
    unfolding ssi_run_def by (auto simp del: ssi_exec.simps)
qed (simp add: ssi_run_def ssi_reachable.start)

text \<open>A transaction reads what another concurrent one writes, and both commit; then the write skew is
  attempted and refused.\<close>

definition ex_history :: "ssi_call list \<Rightarrow> htxn list" where
  "ex_history cs = snd (snd (snd (ssi_run cs)))"

theorem CommitSerializable_serializable_witness:
  "length (ex_history [SBegin, SBegin, SRead 1 10, SRead 2 20, SCommit 1 [20], SCommit 2 [30]]) = 2
    \<and> length (ex_history [SBegin, SBegin, SRead 1 10, SRead 2 20, SCommit 1 [20], SCommit 2 [10]]) = 1
    \<and> (let H = ex_history [SBegin, SBegin, SRead 1 10, SRead 2 20, SCommit 1 [20], SCommit 2 [30]]
       in acyclic {(a, b). a \<in> set H \<and> b \<in> set H \<and> conflict_before a b})"
proof -
  have "length (ex_history [SBegin, SBegin, SRead 1 10, SRead 2 20, SCommit 1 [20], SCommit 2 [30]]) = 2" by code_simp
  moreover have "length (ex_history [SBegin, SBegin, SRead 1 10, SRead 2 20, SCommit 1 [20], SCommit 2 [10]]) = 1" by code_simp
  moreover have "acyclic {(a, b). a \<in> set (ex_history cs) \<and> b \<in> set (ex_history cs) \<and> conflict_before a b}" for cs
    using CommitSerializable_serializable[of "fst (ssi_run cs)" "fst (snd (ssi_run cs))" "fst (snd (snd (ssi_run cs)))" "ex_history cs"]
      ssi_reachable_run[of cs] by (simp add: ex_history_def)
  ultimately show ?thesis by (simp add: Let_def)
qed

text \<open>The guarantee does not extend to read-only serializable transactions, whose reads
  \<^verbatim>\<open>ReleaseSSI\<close> discards: transaction 1 reads record 2, transaction 2 overwrites it and commits,
  transaction 3 begins after that, reads records 1 and 2 and ends, and then transaction 1 writes record
  1 and is let through. Transaction 3 saw 2's write and not 1's, and 1 did not see 2's: no serial order
  has all three.\<close>

lemma read_only_anomaly_missed:
  "ex_history [SBegin, SRead 1 2, SBegin, SCommit 2 [2], SBegin, SRead 3 1, SRead 3 2, SEnd 3, SCommit 1 [1]]
     = [\<lparr>h_start = 0, h_commit = 2, h_reads = [2], h_writes = [1]\<rparr>, \<lparr>h_start = 0, h_commit = 1, h_reads = [], h_writes = [2]\<rparr>]
   \<and> fst (snd (ssi_run [SBegin, SRead 1 2, SBegin, SCommit 2 [2], SBegin, SRead 3 1, SRead 3 2]))
     = [\<lparr>st_id = 3, st_start = 1, st_reads = [2, 1]\<rparr>, \<lparr>st_id = 1, st_start = 0, st_reads = [2]\<rparr>]"
  by code_simp

end
