(* ===== verification/Colstore_Value.thy ===== *)
theory Colstore_Value
  imports Bson_Raw
begin

text \<open>
  The typed values of the column store (\<^verbatim>\<open>src/colstore/value.go\<close>) and the
  variable-length integers of \<^verbatim>\<open>encoding/binary\<close> they are serialized with. A value has the
  fields of the Go struct; a field its kind does not use is zero. A float is its bit pattern.
\<close>

section \<open>Values\<close>

definition KindNull :: byte where "KindNull = 0"
definition KindBool :: byte where "KindBool = 1"
definition KindInt :: byte where "KindInt = 2"
definition KindFloat :: byte where "KindFloat = 3"
definition KindString :: byte where "KindString = 4"
definition KindOther :: byte where "KindOther = 5"

lemmas kind_defs = KindNull_def KindBool_def KindInt_def KindFloat_def KindString_def KindOther_def

record col_Value =
  cv_Kind :: byte
  cv_I :: u64
  cv_F :: f64
  cv_S :: bytes
  cv_tag :: byte

abbreviation zero_Value :: "byte \<Rightarrow> col_Value" where
  "zero_Value k \<equiv> \<lparr>cv_Kind = k, cv_I = 0, cv_F = 0, cv_S = [], cv_tag = 0\<rparr>"

definition NullValue :: col_Value where
  "NullValue = zero_Value KindNull"

definition FromRawValue :: "rawvalue \<Rightarrow> col_Value" where
  "FromRawValue v =
     (if vtype v = 0 \<or> vtype v = TypeNull \<or> vtype v = TypeUndefined then NullValue
      else if vtype v = TypeBoolean then (zero_Value KindBool)\<lparr>cv_I := (if BooleanV v then 1 else 0)\<rparr>
      else if vtype v = TypeInt32 then (zero_Value KindInt)\<lparr>cv_I := of_int (Int32V v)\<rparr>
      else if vtype v = TypeInt64 then (zero_Value KindInt)\<lparr>cv_I := of_int (Int64V v)\<rparr>
      else if vtype v = TypeDateTime then (zero_Value KindInt)\<lparr>cv_I := of_int (DateTimeV v)\<rparr>
      else if vtype v = TypeTimestamp then (zero_Value KindInt)\<lparr>cv_I := TimestampV v\<rparr>
      else if vtype v = TypeDouble then (zero_Value KindFloat)\<lparr>cv_F := DoubleV v\<rparr>
      else if vtype v = TypeString then (zero_Value KindString)\<lparr>cv_S := StringValue v\<rparr>
      else (zero_Value KindOther)\<lparr>cv_S := vdata v, cv_tag := vtype v\<rparr>)"

definition FromField :: "bytes \<Rightarrow> bytes \<Rightarrow> col_Value" where
  "FromField doc path = (case Lookup doc path of None \<Rightarrow> NullValue | Some v \<Rightarrow> FromRawValue v)"

definition AsFloat :: "col_Value \<Rightarrow> f64 option" where
  "AsFloat v =
     (if cv_Kind v = KindInt \<or> cv_Kind v = KindBool then Some (f64_of_int (sint (cv_I v)))
      else if cv_Kind v = KindFloat then Some (cv_F v)
      else None)"

text \<open>The conversion \<^verbatim>\<open>string(b)\<close> of a byte is the UTF-8 encoding of that code point.\<close>

definition string_of_byte :: "byte \<Rightarrow> bytes" where
  "string_of_byte b = (if b < 128 then [b] else [192 OR drop_bit 6 b, 128 OR (b AND 63)])"

definition hashKey :: "col_Value \<Rightarrow> bytes" where
  "hashKey v =
     (case AsFloat v of
        Some f \<Rightarrow> 110 # le_put 8 f
      | None \<Rightarrow>
          if cv_Kind v = KindString then 115 # cv_S v
          else if cv_Kind v = KindOther then 111 # string_of_byte (cv_tag v) @ cv_S v
          else [122])"

definition strictKey :: "col_Value \<Rightarrow> bytes" where
  "strictKey v =
     (if cv_Kind v = KindBool then (if cv_I v \<noteq> 0 then [98, 49] else [98, 48])
      else if cv_Kind v = KindInt then 105 # le_put 8 (cv_I v)
      else if cv_Kind v = KindFloat then 102 # le_put 8 (cv_F v)
      else if cv_Kind v = KindString then 115 # cv_S v
      else if cv_Kind v = KindOther then 111 # string_of_byte (cv_tag v) @ cv_S v
      else [122])"

definition compareNumericOrString :: "col_Value \<Rightarrow> col_Value \<Rightarrow> int option" where
  "compareNumericOrString a b =
     (case AsFloat a of
        Some f1 \<Rightarrow>
          (case AsFloat b of
             Some f2 \<Rightarrow> Some (if f64_lt f1 f2 then -1 else if f64_lt f2 f1 then 1 else 0)
           | None \<Rightarrow> None)
      | None \<Rightarrow>
          if cv_Kind a = KindString \<and> cv_Kind b = KindString then Some (bytes_cmp (cv_S a) (cv_S b)) else None)"

definition comparableForZone :: "col_Value \<Rightarrow> bool" where
  "comparableForZone v = (AsFloat v \<noteq> None \<or> cv_Kind v = KindString)"

definition scratch :: "bytes \<Rightarrow> rawvalue" where
  "scratch b = (case Lookup (Build b) (str ''v'') of None \<Rightarrow> RawValue 0 [] | Some rv \<Rightarrow> rv)"

definition ToRawValue :: "col_Value \<Rightarrow> rawvalue" where
  "ToRawValue v =
     (if cv_Kind v = KindBool then scratch (AppendBoolean [] (str ''v'') (cv_I v \<noteq> 0))
      else if cv_Kind v = KindInt then scratch (AppendInt64 [] (str ''v'') (cv_I v))
      else if cv_Kind v = KindFloat then scratch (AppendDouble [] (str ''v'') (cv_F v))
      else if cv_Kind v = KindString then scratch (AppendString [] (str ''v'') (cv_S v))
      else if cv_Kind v = KindOther then RawValue (cv_tag v) (cv_S v)
      else scratch (AppendNull [] (str ''v'')))"

text \<open>What \<^verbatim>\<open>FromRawValue\<close> produces.\<close>

definition col_ok :: "col_Value \<Rightarrow> bool" where
  "col_ok v \<longleftrightarrow> cv_Kind v \<in> {KindNull, KindBool, KindInt, KindFloat, KindString, KindOther}
     \<and> (cv_Kind v = KindBool \<longrightarrow> cv_I v \<in> {0, 1}) \<and> (cv_Kind v \<notin> {KindBool, KindInt} \<longrightarrow> cv_I v = 0)
     \<and> (cv_Kind v \<noteq> KindFloat \<longrightarrow> cv_F v = 0) \<and> (cv_Kind v \<notin> {KindString, KindOther} \<longrightarrow> cv_S v = [])
     \<and> (cv_Kind v \<noteq> KindOther \<longrightarrow> cv_tag v = 0)"

lemma col_ok_cases [consumes 1, case_names null bool int float string other]:
  assumes "col_ok v"
  obtains "v = zero_Value KindNull" | b where "v = (zero_Value KindBool)\<lparr>cv_I := b\<rparr>" "b = 0 \<or> b = 1"
    | i where "v = (zero_Value KindInt)\<lparr>cv_I := i\<rparr>" | f where "v = (zero_Value KindFloat)\<lparr>cv_F := f\<rparr>"
    | s where "v = (zero_Value KindString)\<lparr>cv_S := s\<rparr>" | s g where "v = (zero_Value KindOther)\<lparr>cv_S := s, cv_tag := g\<rparr>"
  using assms by (cases v) (auto simp: col_ok_def kind_defs)

lemma FromRawValue_ok: "col_ok (FromRawValue v)"
  by (simp add: FromRawValue_def NullValue_def col_ok_def kind_defs)

lemma FromField_ok: "col_ok (FromField doc path)"
  by (simp add: FromField_def FromRawValue_ok NullValue_def split: option.split) (simp add: col_ok_def kind_defs)

lemma byte_bit7: "bit (b :: byte) 7 \<longleftrightarrow> 128 \<le> b"
proof -
  have "unat b < 256" using unsigned_less[of b] by simp
  then have "unat b div 128 = (if 128 \<le> unat b then 1 else 0)" by (auto intro: div_nat_eqI)
  then have "odd (unat b div 128) \<longleftrightarrow> 128 \<le> unat b" by simp
  moreover have "bit b 7 \<longleftrightarrow> odd (unat b div 128)" using bit_unsigned_iff[of b 7, where ?'a = nat] by (simp add: bit_iff_odd)
  ultimately show ?thesis by (simp add: word_le_nat_alt)
qed

definition byte_of_string :: "bytes \<Rightarrow> byte" where
  "byte_of_string l = (if bit (hd l) 7 then push_bit 6 (hd l AND 3) OR (hd (tl l) AND 63) else hd l)"

lemma byte_of_string: "byte_of_string (string_of_byte b @ s) = b"
proof (cases "b < 128")
  case True
  then have "\<not> 128 \<le> b" by (simp add: not_le)
  then show ?thesis using True byte_bit7[of b] by (simp add: string_of_byte_def byte_of_string_def)
next
  case False
  have "push_bit 6 ((192 OR drop_bit 6 b) AND 3) OR ((128 OR (b AND 63)) AND 63) = b"
  proof (rule bit_word_eqI)
    fix n assume "n < LENGTH(8)"
    then have "n \<in> {0, 1, 2, 3, 4, 5, 6, 7}" by auto
    then show "bit (push_bit 6 ((192 OR drop_bit 6 b) AND 3) OR ((128 OR (b AND 63)) AND 63)) n = bit b n"
      by (auto simp: bit_simps)
  qed
  moreover have "bit (192 OR drop_bit 6 b) 7" by (simp add: bit_simps)
  ultimately show ?thesis using False by (simp add: string_of_byte_def byte_of_string_def)
qed

lemma string_of_byte_inj: "string_of_byte a @ s = string_of_byte b @ t \<longleftrightarrow> a = b \<and> s = t"
  using byte_of_string[of a s] byte_of_string[of b t] by auto

lemma strictKey_inj: "col_ok v \<Longrightarrow> col_ok w \<Longrightarrow> strictKey v = strictKey w \<longleftrightarrow> v = w"
proof -
  have le: "le_put 8 x = le_put 8 y \<longleftrightarrow> x = y" for x y :: u64
  proof
    assume "le_put 8 x = le_put 8 y"
    then have "le_get (le_put 8 x) = (le_get (le_put 8 y) :: u64)" by simp
    then show "x = y" by simp
  qed simp
  assume v: "col_ok v" and w: "col_ok w"
  show ?thesis
    using v
  proof (cases rule: col_ok_cases)
    case null
    from w show ?thesis by (cases rule: col_ok_cases) (use null in \<open>auto simp: strictKey_def kind_defs\<close>)
  next
    case (bool b)
    from w show ?thesis by (cases rule: col_ok_cases) (use bool in \<open>auto simp: strictKey_def kind_defs\<close>)
  next
    case (int i)
    from w show ?thesis by (cases rule: col_ok_cases) (use int in \<open>auto simp: strictKey_def kind_defs le\<close>)
  next
    case (float f)
    from w show ?thesis by (cases rule: col_ok_cases) (use float in \<open>auto simp: strictKey_def kind_defs le\<close>)
  next
    case (string s)
    from w show ?thesis by (cases rule: col_ok_cases) (use string in \<open>auto simp: strictKey_def kind_defs\<close>)
  next
    case (other s g)
    from w show ?thesis
      by (cases rule: col_ok_cases) (use other in \<open>auto simp: strictKey_def kind_defs string_of_byte_inj\<close>)
  qed
qed

section \<open>Materialization\<close>

text \<open>The BSON types the column store keeps opaque.\<close>

definition opaque_type :: "byte \<Rightarrow> bool" where
  "opaque_type t \<longleftrightarrow> t \<notin> {0, TypeNull, TypeUndefined, TypeBoolean, TypeInt32, TypeInt64, TypeDateTime, TypeTimestamp,
     TypeDouble, TypeString}"

lemma scratch_value:
  assumes "wf_value v" and "vtype v \<noteq> 0" and "length (vdata v) + 8 < 2 ^ 32"
  shows "scratch (AppendValue [] (str ''v'') v) = v"
proof -
  have "str ''v'' = [118]" by (simp add: str_def)
  then have "Lookup (Build (AppendValue (append_all [] []) (str ''v'') v)) (str ''v'') = Some v"
    using assms by (intro lookup_appended) (simp_all add: enc_elements_def)
  then show ?thesis by (simp add: scratch_def append_all_enc enc_elements_def)
qed

lemma ToRawValue_simps:
  assumes "length (cv_S v) + 13 < 2 ^ 32"
  shows "cv_Kind v = KindBool \<Longrightarrow> ToRawValue v = RawValue TypeBoolean [if cv_I v \<noteq> 0 then 1 else 0]"
    and "cv_Kind v = KindInt \<Longrightarrow> ToRawValue v = RawValue TypeInt64 (le_put 8 (cv_I v))"
    and "cv_Kind v = KindFloat \<Longrightarrow> ToRawValue v = RawValue TypeDouble (le_put 8 (cv_F v))"
    and "cv_Kind v = KindString \<Longrightarrow> ToRawValue v = StringVal (cv_S v)"
    and "cv_Kind v = KindNull \<Longrightarrow> ToRawValue v = RawValue TypeNull []"
proof -
  have "scratch (AppendValue [] (str ''v'') (StringVal (cv_S v))) = StringVal (cv_S v)"
    using assms StringVal_ok[of "cv_S v"] by (intro scratch_value) (simp_all add: StringVal_def)
  then show "cv_Kind v = KindString \<Longrightarrow> ToRawValue v = StringVal (cv_S v)"
    by (simp add: ToRawValue_def append_typed kind_defs)
qed (simp_all add: ToRawValue_def append_typed kind_defs scratch_value fixed_values_ok)

text \<open>Materializing a value and projecting it again gives the value back.\<close>

lemma FromRawValue_ToRawValue:
  assumes ok: "col_ok v" and len: "length (cv_S v) + 13 < 2 ^ 32" and tag: "cv_Kind v = KindOther \<Longrightarrow> opaque_type (cv_tag v)"
  shows "FromRawValue (ToRawValue v) = v"
  using ok
proof (cases rule: col_ok_cases)
  case null
  then show ?thesis using ToRawValue_simps(5)[OF len] by (simp add: FromRawValue_def NullValue_def)
next
  case (bool b)
  then show ?thesis using ToRawValue_simps(1)[OF len] by (auto simp: FromRawValue_def BooleanV_def)
next
  case (int i)
  then show ?thesis
    using ToRawValue_simps(2)[OF len] fixed_accessors(3)[of i] by (simp add: FromRawValue_def Int64V_def)
next
  case (float f)
  then show ?thesis
    using ToRawValue_simps(3)[OF len] fixed_accessors(1)[of f] by (simp add: FromRawValue_def DoubleV_def)
next
  case (string s)
  then show ?thesis
    using ToRawValue_simps(4)[OF len] StringVal_ok[of s] len by (simp add: FromRawValue_def StringValue_def) (simp add: StringVal_def)
next
  case (other s g)
  then show ?thesis using tag by (simp add: ToRawValue_def FromRawValue_def kind_defs opaque_type_def)
qed


text \<open>A date, collapsed to an integer, comes back as an int64.\<close>

lemma ToRawValue_date: "ToRawValue (FromRawValue (RawValue TypeDateTime (le_put 8 (j :: u64)))) = RawValue TypeInt64 (le_put 8 j)"
  using ToRawValue_simps(2)[of "(zero_Value KindInt)\<lparr>cv_I := j\<rparr>"] fixed_accessors(5)[of j] by (simp add: FromRawValue_def)

end
