(* ===== verification/Colstore_Encoding.thy ===== *)
theory Colstore_Encoding
  imports Colstore_Value "HOL-Library.Signed_Division"
begin

text \<open>
  The column encodings (\<^verbatim>\<open>src/colstore/encoding.go\<close>): plain, run-length, dictionary,
  bit-packed, frame-of-reference and delta streams behind a null bitmap, and the choice of the
  smallest. Decoding an arbitrary buffer can return \<^verbatim>\<open>ErrCorruptColumn\<close> or panic; both are
  error values of the model. Allocation is taken to succeed.
\<close>

section \<open>Results\<close>

datatype col_error = ErrCorruptColumn | ColPanic

type_synonym 'a col_result = "col_error + 'a"

definition bind_res :: "'e + 'a \<Rightarrow> ('a \<Rightarrow> 'e + 'b) \<Rightarrow> 'e + 'b" where
  "bind_res r f = (case r of Inl e \<Rightarrow> Inl e | Inr a \<Rightarrow> f a)"

lemma bind_res_simps [simp]: "bind_res (Inl e) f = Inl e" "bind_res (Inr a) f = f a"
  by (simp_all add: bind_res_def)

lemma bind_res_cong [fundef_cong]:
  "r = r' \<Longrightarrow> (\<And>a. r' = Inr a \<Longrightarrow> f a = g a) \<Longrightarrow> bind_res r f = bind_res r' g"
  by (cases r') simp_all

section \<open>Variable-length integers\<close>

lemma unat_drop_bit: "unat (drop_bit n w :: u64) = unat w div 2 ^ n"
  unfolding unsigned_drop_bit_eq using unsigned_less[of w, where ?'a = nat] by (simp add: drop_bit_eq_div take_bit_nat_eq_self)

function AppendUvarint :: "u64 \<Rightarrow> bytes" where
  "AppendUvarint v = (if 128 \<le> v then (ucast v OR 128) # AppendUvarint (drop_bit 7 v) else [ucast v])"
  by pat_completeness auto
termination
proof (relation "measure unat")
  fix v :: u64 assume "128 \<le> v"
  then have "0 < unat v" by (simp add: word_le_nat_alt)
  then show "(drop_bit 7 v, v) \<in> measure unat" by (simp add: unat_drop_bit)
qed simp

declare AppendUvarint.simps [simp del]

fun uvarint_loop :: "bytes \<Rightarrow> nat \<Rightarrow> nat \<Rightarrow> u64 \<Rightarrow> (u64 \<times> nat) option" where
  "uvarint_loop [] i s x = None"
| "uvarint_loop (b # bs) i s x =
     (if i = 10 then None
      else if b < 128 then (if i = 9 \<and> 1 < b then None else Some (x OR push_bit s (ucast b), i + 1))
      else uvarint_loop bs (i + 1) (s + 7) (x OR push_bit s (ucast (b AND 127))))"

text \<open>\<^verbatim>\<open>binary.Uvarint\<close>; the callers only test for a count of at most zero, which is \<open>None\<close>.\<close>

definition Uvarint :: "bytes \<Rightarrow> (u64 \<times> nat) option" where
  "Uvarint buf = uvarint_loop buf 0 0 0"

definition AppendVarint :: "u64 \<Rightarrow> bytes" where
  "AppendVarint x = AppendUvarint (if sint x < 0 then NOT (push_bit 1 x) else push_bit 1 x)"

definition Varint :: "bytes \<Rightarrow> (u64 \<times> nat) option" where
  "Varint buf = map_option (\<lambda>(ux, n). (if ux AND 1 \<noteq> 0 then NOT (drop_bit 1 ux) else drop_bit 1 ux, n)) (Uvarint buf)"

section \<open>Bits\<close>

definition zigzag :: "u64 \<Rightarrow> u64" where
  "zigzag v = push_bit 1 v XOR signed_drop_bit 63 v"

definition unzigzag :: "u64 \<Rightarrow> u64" where
  "unzigzag u = drop_bit 1 u XOR - (u AND 1)"

function bitWidth :: "u64 \<Rightarrow> nat" where
  "bitWidth m = (if 0 < m then 1 + bitWidth (drop_bit 1 m) else 0)"
  by pat_completeness auto
termination
proof (relation "measure unat")
  fix v :: u64 assume "0 < v"
  then have "0 < unat v" by (simp add: word_less_nat_alt)
  then show "(drop_bit 1 v, v) \<in> measure unat" by (simp add: unat_drop_bit)
qed simp

declare bitWidth.simps [simp del]

text \<open>The loops that set bits \<open>bit, bit + 1, \<dots>\<close> of a buffer, and that read them.\<close>

fun set_bits :: "bool list \<Rightarrow> nat \<Rightarrow> bytes \<Rightarrow> bytes" where
  "set_bits [] i out = out"
| "set_bits (x # xs) i out =
     set_bits xs (i + 1) (if x then out[i div 8 := out ! (i div 8) OR push_bit (i mod 8) 1] else out)"

definition get_bit :: "bytes \<Rightarrow> nat \<Rightarrow> bool" where
  "get_bit data i \<longleftrightarrow> data ! (i div 8) AND push_bit (i mod 8) 1 \<noteq> 0"

definition packBits :: "u64 list \<Rightarrow> nat \<Rightarrow> bytes" where
  "packBits vals width =
     (if width = 0 then []
      else set_bits (concat (map (\<lambda>v. map (\<lambda>b. v AND push_bit b 1 \<noteq> 0) [0..<width]) vals)) 0
             (replicate ((width * length vals + 7) div 8) 0))"

fun unpack_value :: "bytes \<Rightarrow> nat \<Rightarrow> nat \<Rightarrow> nat \<Rightarrow> u64 \<Rightarrow> u64" where
  "unpack_value data i 0 b v = v"
| "unpack_value data i (Suc w) b v =
     unpack_value data (i + 1) w (b + 1) (if get_bit data i then v OR push_bit b 1 else v)"

fun unpack_loop :: "bytes \<Rightarrow> nat \<Rightarrow> nat \<Rightarrow> nat \<Rightarrow> u64 list" where
  "unpack_loop data width i 0 = []"
| "unpack_loop data width i (Suc n) = unpack_value data i width 0 0 # unpack_loop data width (i + width) n"

definition unpackBits :: "bytes \<Rightarrow> nat \<Rightarrow> nat \<Rightarrow> u64 list option" where
  "unpackBits data width count =
     (if width = 0 then Some (replicate count 0)
      else if length data < (width * count + 7) div 8 then None
      else Some (unpack_loop data width 0 count))"

section \<open>One value\<close>

definition putValue :: "bytes \<Rightarrow> col_Value \<Rightarrow> bytes" where
  "putValue dst v =
     (let dst = dst @ [cv_Kind v] in
      if cv_Kind v = KindBool \<or> cv_Kind v = KindInt then dst @ AppendVarint (cv_I v)
      else if cv_Kind v = KindFloat then dst @ le_put 8 (cv_F v)
      else if cv_Kind v = KindString then dst @ AppendUvarint (of_nat (length (cv_S v))) @ cv_S v
      else if cv_Kind v = KindOther then dst @ [cv_tag v] @ AppendUvarint (of_nat (length (cv_S v))) @ cv_S v
      else dst)"

text \<open>A length-prefixed string at \<open>off\<close>. The bounds check adds signed 64-bit integers, so a huge length
  wraps past it and the slice expression panics.\<close>

definition get_string :: "bytes \<Rightarrow> nat \<Rightarrow> (bytes \<times> nat) col_result" where
  "get_string b off =
     (case Uvarint (drop off b) of
        None \<Rightarrow> Inl ErrCorruptColumn
      | Some (ln, k) \<Rightarrow>
          let hi = sint (of_nat (off + k) + ln) in
          if int (length b) < hi then Inl ErrCorruptColumn
          else if hi < int (off + k) then Inl ColPanic
          else Inr (sub b (off + k) (nat hi - (off + k)), nat hi))"

text \<open>\<^verbatim>\<open>ok = false\<close> is \<open>ErrCorruptColumn\<close>, which is what every decoder makes of it.\<close>

definition getValue :: "bytes \<Rightarrow> (col_Value \<times> nat) col_result" where
  "getValue b =
     (if b = [] then Inl ErrCorruptColumn
      else let kind = b ! 0 in
        if kind = KindNull then Inr (NullValue, 1)
        else if kind = KindBool \<or> kind = KindInt then
          (case Varint (drop 1 b) of None \<Rightarrow> Inl ErrCorruptColumn | Some (i, k) \<Rightarrow> Inr ((zero_Value kind)\<lparr>cv_I := i\<rparr>, 1 + k))
        else if kind = KindFloat then
          (if length b < 9 then Inl ErrCorruptColumn else Inr ((zero_Value KindFloat)\<lparr>cv_F := le_get (sub b 1 8)\<rparr>, 9))
        else if kind = KindString then
          bind_res (get_string b 1) (\<lambda>(s, n). Inr ((zero_Value KindString)\<lparr>cv_S := s\<rparr>, n))
        else if kind = KindOther then
          (if length b < 2 then Inl ErrCorruptColumn
           else bind_res (get_string b 2) (\<lambda>(s, n). Inr ((zero_Value KindOther)\<lparr>cv_S := s, cv_tag := b ! 1\<rparr>, n)))
        else Inl ErrCorruptColumn)"

text \<open>\<open>m\<close> values in a row and the bytes after them.\<close>

fun get_values :: "bytes \<Rightarrow> nat \<Rightarrow> (col_Value list \<times> bytes) col_result" where
  "get_values b 0 = Inr ([], b)"
| "get_values b (Suc m) =
     bind_res (getValue b) (\<lambda>(v, n). bind_res (get_values (drop n b) m) (\<lambda>(vs, r). Inr (v # vs, r)))"

section \<open>Encodings\<close>

definition encPlain :: byte where "encPlain = 1"
definition encDict :: byte where "encDict = 2"
definition encRLE :: byte where "encRLE = 3"
definition encBitpack :: byte where "encBitpack = 4"
definition encFOR :: byte where "encFOR = 5"
definition encDelta :: byte where "encDelta = 6"

lemmas enc_defs = encPlain_def encDict_def encRLE_def encBitpack_def encFOR_def encDelta_def

definition encodePlain :: "col_Value list \<Rightarrow> bytes" where
  "encodePlain vals = foldl putValue [encPlain] vals"

definition decodePlain :: "bytes \<Rightarrow> nat \<Rightarrow> col_Value list col_result" where
  "decodePlain b m = bind_res (get_values b m) (\<lambda>(vs, r). Inr vs)"

text \<open>The runs of equal values: each run is a first value and the number of values equal to it.\<close>

function runs_of :: "col_Value list \<Rightarrow> (col_Value \<times> nat) list" where
  "runs_of [] = []"
| "runs_of (v # vs) =
     (v, 1 + length (takeWhile (\<lambda>w. strictKey w = strictKey v) vs)) # runs_of (dropWhile (\<lambda>w. strictKey w = strictKey v) vs)"
  by pat_completeness auto
termination
  by (relation "measure length") (auto simp: less_Suc_eq_le length_dropWhile_le)

definition encodeRLE :: "col_Value list \<Rightarrow> bytes" where
  "encodeRLE vals =
     foldl (\<lambda>out (v, n). putValue out v @ AppendUvarint (of_nat n))
       ([encRLE] @ AppendUvarint (of_nat (length (runs_of vals)))) (runs_of vals)"

fun rle_loop :: "bytes \<Rightarrow> nat \<Rightarrow> col_Value list col_result" where
  "rle_loop b 0 = Inr []"
| "rle_loop b (Suc r) =
     bind_res (getValue b) (\<lambda>(v, n).
       case Uvarint (drop n b) of
         None \<Rightarrow> Inl ErrCorruptColumn
       | Some (ln, kk) \<Rightarrow>
           bind_res (rle_loop (drop kk (drop n b)) r) (\<lambda>vs. Inr (replicate (unat ln) v @ vs)))"

definition decodeRLE :: "bytes \<Rightarrow> nat \<Rightarrow> col_Value list col_result" where
  "decodeRLE b m =
     (case Uvarint b of
        None \<Rightarrow> Inl ErrCorruptColumn
      | Some (runs, k) \<Rightarrow>
          bind_res (rle_loop (drop k b) (unat runs)) (\<lambda>out. if length out \<noteq> m then Inl ErrCorruptColumn else Inr out))"

text \<open>The dictionary loop: the codes assigned so far, the dictionary, and the codes of the rest.\<close>

fun dict_loop :: "col_Value list \<Rightarrow> (bytes \<times> nat) list \<Rightarrow> col_Value list \<Rightarrow> col_Value list \<times> nat list" where
  "dict_loop [] codeOf dict = (dict, [])"
| "dict_loop (v # vs) codeOf dict =
     (case map_of codeOf (strictKey v) of
        Some c \<Rightarrow> let (d, cs) = dict_loop vs codeOf dict in (d, c # cs)
      | None \<Rightarrow>
          let c = length dict; (d, cs) = dict_loop vs ((strictKey v, c) # codeOf) (dict @ [v])
          in (d, c # cs))"

definition encodeDict :: "col_Value list \<Rightarrow> bytes" where
  "encodeDict vals =
     (let (dict, codes) = dict_loop vals [] [];
          width = (if 1 < length dict then bitWidth (of_nat (length dict - 1)) else 0)
      in foldl putValue ([encDict] @ AppendUvarint (of_nat (length dict))) dict @ [of_nat width]
           @ packBits (map of_nat codes) width)"

text \<open>The range test converts the code to a signed integer; the index expression does not.\<close>

fun dict_values :: "col_Value list \<Rightarrow> u64 list \<Rightarrow> col_Value list col_result" where
  "dict_values dict [] = Inr []"
| "dict_values dict (c # cs) =
     (if int (length dict) \<le> sint c then Inl ErrCorruptColumn
      else if length dict \<le> unat c then Inl ColPanic
      else bind_res (dict_values dict cs) (\<lambda>vs. Inr (dict ! unat c # vs)))"

definition decodeDict :: "bytes \<Rightarrow> nat \<Rightarrow> col_Value list col_result" where
  "decodeDict b m =
     (case Uvarint b of
        None \<Rightarrow> Inl ErrCorruptColumn
      | Some (dn, k) \<Rightarrow>
          bind_res (get_values (drop k b) (unat dn)) (\<lambda>(dict, b).
            case b of
              [] \<Rightarrow> Inl ErrCorruptColumn
            | w # b \<Rightarrow>
                (case unpackBits b (unat w) m of
                   None \<Rightarrow> Inl ErrCorruptColumn
                 | Some codes \<Rightarrow> dict_values dict codes)))"

definition homogeneousIntKind :: "col_Value list \<Rightarrow> byte option" where
  "homogeneousIntKind vals =
     (case vals of
        [] \<Rightarrow> None
      | v # vs \<Rightarrow>
          if cv_Kind v \<noteq> KindInt \<and> cv_Kind v \<noteq> KindBool then None
          else if list_all (\<lambda>w. cv_Kind w = cv_Kind v) vals then Some (cv_Kind v) else None)"

definition max_of :: "u64 list \<Rightarrow> u64" where
  "max_of zz = foldl (\<lambda>m z. if m < z then z else m) 0 zz"

definition encodeBitpack :: "col_Value list \<Rightarrow> byte \<Rightarrow> bytes" where
  "encodeBitpack vals rk =
     (let zz = map (\<lambda>v. zigzag (cv_I v)) vals; width = bitWidth (max_of zz)
      in [encBitpack, rk, of_nat width] @ packBits zz width)"

definition decodeBitpack :: "bytes \<Rightarrow> nat \<Rightarrow> col_Value list col_result" where
  "decodeBitpack b m =
     (if length b < 2 then Inl ErrCorruptColumn
      else case unpackBits (drop 2 b) (unat (b ! 1)) m of
          None \<Rightarrow> Inl ErrCorruptColumn
        | Some raw \<Rightarrow> Inr (map (\<lambda>u. (zero_Value (b ! 0))\<lparr>cv_I := unzigzag u\<rparr>) raw))"

definition encodeFOR :: "col_Value list \<Rightarrow> byte \<Rightarrow> bytes" where
  "encodeFOR vals rk =
     (let base = foldl (\<lambda>m v. if sint (cv_I v) < sint m then cv_I v else m) (cv_I (hd vals)) vals;
          offs = map (\<lambda>v. cv_I v - base) vals; width = bitWidth (max_of offs)
      in [encFOR, rk] @ AppendVarint base @ [of_nat width] @ packBits offs width)"

definition decodeFOR :: "bytes \<Rightarrow> nat \<Rightarrow> col_Value list col_result" where
  "decodeFOR b m =
     (if length b < 1 then Inl ErrCorruptColumn
      else case Varint (drop 1 b) of
          None \<Rightarrow> Inl ErrCorruptColumn
        | Some (base, k) \<Rightarrow>
            let b' = drop (1 + k) b in
            if length b' < 1 then Inl ErrCorruptColumn
            else case unpackBits (drop 1 b') (unat (b' ! 0)) m of
                None \<Rightarrow> Inl ErrCorruptColumn
              | Some offs \<Rightarrow> Inr (map (\<lambda>u. (zero_Value (b ! 0))\<lparr>cv_I := base + u\<rparr>) offs))"

fun deltas_of :: "u64 \<Rightarrow> col_Value list \<Rightarrow> u64 list" where
  "deltas_of prev [] = []"
| "deltas_of prev (v # vs) = zigzag (cv_I v - prev) # deltas_of (cv_I v) vs"

definition encodeDelta :: "col_Value list \<Rightarrow> byte \<Rightarrow> bytes" where
  "encodeDelta vals rk =
     (case vals of
        [] \<Rightarrow> [encDelta, rk] @ AppendVarint 0 @ [0]
      | v # vs \<Rightarrow>
          let zz = deltas_of (cv_I v) vs; width = bitWidth (max_of zz)
          in [encDelta, rk] @ AppendVarint (cv_I v) @ [of_nat width] @ packBits zz width)"

fun undelta :: "byte \<Rightarrow> u64 \<Rightarrow> u64 list \<Rightarrow> col_Value list" where
  "undelta rk cur [] = []"
| "undelta rk cur (u # us) = (zero_Value rk)\<lparr>cv_I := cur + unzigzag u\<rparr> # undelta rk (cur + unzigzag u) us"

text \<open>Unlike the other decoders this one reads its first byte unchecked.\<close>

definition decodeDelta :: "bytes \<Rightarrow> nat \<Rightarrow> col_Value list col_result" where
  "decodeDelta b m =
     (if b = [] then Inl ColPanic
      else case Varint (drop 1 b) of
          None \<Rightarrow> Inl ErrCorruptColumn
        | Some (first, k) \<Rightarrow>
            let b' = drop (1 + k) b in
            if length b' < 1 then Inl ErrCorruptColumn
            else if m = 0 then Inr []
            else case unpackBits (drop 1 b') (unat (b' ! 0)) (m - 1) of
                None \<Rightarrow> Inl ErrCorruptColumn
              | Some deltas \<Rightarrow> Inr ((zero_Value (b ! 0))\<lparr>cv_I := first\<rparr> # undelta (b ! 0) first deltas))"

section \<open>Columns\<close>

text \<open>The smallest of the applicable encodings, the earlier one on a tie.\<close>

definition shorter :: "bytes \<Rightarrow> bytes \<Rightarrow> bytes" where
  "shorter best c = (if length c < length best then c else best)"

definition chooseEncoding :: "col_Value list \<Rightarrow> bytes" where
  "chooseEncoding vals =
     (let best = shorter (shorter (encodePlain vals) (encodeRLE vals)) (encodeDict vals) in
      case homogeneousIntKind vals of
        None \<Rightarrow> best
      | Some rk \<Rightarrow> shorter (shorter (shorter best (encodeBitpack vals rk)) (encodeFOR vals rk)) (encodeDelta vals rk))"

definition decodeStream :: "bytes \<Rightarrow> nat \<Rightarrow> col_Value list col_result" where
  "decodeStream b m =
     (case b of
        [] \<Rightarrow> if m = 0 then Inr [] else Inl ErrCorruptColumn
      | tag # body \<Rightarrow>
          if tag = encPlain then decodePlain body m
          else if tag = encDict then decodeDict body m
          else if tag = encRLE then decodeRLE body m
          else if tag = encBitpack then decodeBitpack body m
          else if tag = encFOR then decodeFOR body m
          else if tag = encDelta then decodeDelta body m
          else Inl ErrCorruptColumn)"

definition appendNullBitmap :: "bytes \<Rightarrow> col_Value list \<Rightarrow> bytes" where
  "appendNullBitmap dst vals =
     dst @ set_bits (map (\<lambda>v. cv_Kind v = KindNull) vals) 0 (replicate ((length vals + 7) div 8) 0)"

definition readNullBitmap :: "bytes \<Rightarrow> nat \<Rightarrow> bool list" where
  "readNullBitmap b n = map (get_bit b) [0..<n]"

definition EncodeColumn :: "col_Value list \<Rightarrow> bytes" where
  "EncodeColumn vals =
     appendNullBitmap (AppendUvarint (of_nat (length vals))) vals @ chooseEncoding (filter (\<lambda>v. cv_Kind v \<noteq> KindNull) vals)"

text \<open>The last equation is never used: a stream holds as many values as the bitmap asks for
  (\<open>decodeStream_length\<close>).\<close>

fun scatter :: "bool list \<Rightarrow> col_Value list \<Rightarrow> col_Value list" where
  "scatter [] stream = []"
| "scatter (True # ns) stream = NullValue # scatter ns stream"
| "scatter (False # ns) (v # stream) = v # scatter ns stream"
| "scatter (False # ns) [] = []"

definition DecodeColumn :: "bytes \<Rightarrow> col_Value list col_result" where
  "DecodeColumn b =
     (case Uvarint b of
        None \<Rightarrow> Inl ErrCorruptColumn
      | Some (n64, k) \<Rightarrow>
          let b = drop k b; n = sint n64; nb = sint (n64 + 7) sdiv 8 in
          if int (length b) < nb then Inl ErrCorruptColumn
          else if nb < 0 \<or> n < 0 then Inl ColPanic
          else
            let nulls = readNullBitmap (take (nat nb) b) (nat n) in
            bind_res (decodeStream (drop (nat nb) b) (length (filter Not nulls)))
              (\<lambda>stream. Inr (scatter nulls stream)))"


section \<open>Integers read back\<close>

lemma byte_bit_cases: "bit (b :: byte) n \<Longrightarrow> n \<in> {0, 1, 2, 3, 4, 5, 6, 7}"
  by (drule bit_imp_le_length) auto

lemma and_127_bit: "bit (b AND 127 :: byte) n \<longleftrightarrow> n < 7 \<and> bit b n"
  using byte_bit_cases[of b n] by (auto simp: bit_and_iff)

lemma or_128_bit: "bit (b OR 128 :: byte) n \<longleftrightarrow> n = 7 \<or> bit b n"
  using byte_bit_cases[of 128 n] by (auto simp: bit_or_iff)

lemma uvarint_step:
  fixes v x :: u64
  shows "(x OR push_bit s (ucast ((ucast v OR 128) AND 127 :: byte))) OR push_bit (s + 7) (drop_bit 7 v) = x OR push_bit s v"
proof (rule bit_word_eqI)
  fix n assume n: "n < LENGTH(64)"
  have "bit (ucast ((ucast v OR 128) AND 127 :: byte) :: u64) k \<longleftrightarrow> k < 7 \<and> bit v k" for k
    unfolding bit_unsigned_iff and_127_bit or_128_bit by (auto dest: bit_imp_le_length)
  note k = this
  show "bit ((x OR push_bit s (ucast ((ucast v OR 128) AND 127 :: byte))) OR push_bit (s + 7) (drop_bit 7 v)) n = bit (x OR push_bit s v) n"
  proof (cases "n < s")
    case False
    then obtain m where m: "n = s + m" by (auto dest: le_Suc_ex simp: not_less)
    show ?thesis using n unfolding m bit_or_iff bit_push_bit_iff bit_drop_bit_eq k by (cases "m < 7") auto
  qed (auto simp: bit_or_iff bit_push_bit_iff)
qed

lemma uvarint_loop_append:
  assumes "i \<le> 9" and "unat v < 2 ^ (64 - 7 * i)"
  shows "uvarint_loop (AppendUvarint v @ r) i (7 * i) x = Some (x OR push_bit (7 * i) v, i + length (AppendUvarint v))"
  using assms
proof (induction v arbitrary: i x rule: AppendUvarint.induct)
  case (1 v)
  show ?case
  proof (cases "128 \<le> v")
    case True
    have i: "i < 9"
    proof (rule ccontr)
      assume "\<not> i < 9"
      then have "unat v < 2" using 1(2,3) by simp
      then show False using True by (simp add: word_le_nat_alt)
    qed
    have d: "unat (drop_bit 7 v) < 2 ^ (64 - 7 * Suc i)"
    proof -
      have "64 - 7 * i = (64 - 7 * Suc i) + 7" using i by simp
      then have "(2::nat) ^ (64 - 7 * i) = 2 ^ (64 - 7 * Suc i) * 2 ^ 7" by (simp only: power_add)
      then show ?thesis using 1(3) by (simp add: unat_drop_bit less_mult_imp_div_less)
    qed
    have hi: "\<not> (ucast v OR 128 :: byte) < 128" using byte_bit7[of "ucast v OR 128"] by (simp add: or_128_bit not_less)
    have "uvarint_loop (AppendUvarint (drop_bit 7 v) @ r) (Suc i) (7 * Suc i) y
        = Some (y OR push_bit (7 * Suc i) (drop_bit 7 v), Suc i + length (AppendUvarint (drop_bit 7 v)))" for y
      using 1(1)[OF True, of "Suc i"] i d by simp
    then show ?thesis
      using True i hi uvarint_step[of x "7 * i" v]
      by (subst (1 2) AppendUvarint.simps) (simp add: add.commute mult.commute)
  next
    case False
    then have "unat v < 128" by (simp add: word_le_nat_alt not_le)
    then have u: "unat (ucast v :: byte) = unat v" by (simp add: unsigned_ucast_eq unsigned_take_bit_eq take_bit_nat_eq_self)
    then have "unat (ucast (ucast v :: byte) :: u64) = unat v" by (simp add: unsigned_ucast_eq unsigned_take_bit_eq take_bit_nat_eq_self)
    then have "(ucast (ucast v :: byte) :: u64) = v" by (simp only: unsigned_word_eqI)
    moreover have "i = 9 \<Longrightarrow> unat v < 2" using 1(3) by simp
    ultimately have lo: "(ucast v :: byte) < 128" "\<not> (i = 9 \<and> 1 < (ucast v :: byte))" "ucast (ucast v :: byte) = v"
      using u \<open>unat v < 128\<close> by (auto simp: word_less_nat_alt)
    then show ?thesis using False 1(2) by (subst (1 2) AppendUvarint.simps) simp
  qed
qed


lemma Uvarint_append [simp]: "Uvarint (AppendUvarint v @ r) = Some (v, length (AppendUvarint v))"
  using uvarint_loop_append[of 0 v r 0] unsigned_less[of v, where ?'a = nat] by (simp add: Uvarint_def)

lemma bit_shl_1: "bit (push_bit 1 x :: u64) n \<longleftrightarrow> 0 < n \<and> n < 64 \<and> bit x (n - 1)"
  unfolding bit_push_bit_iff by (auto simp: Suc_le_eq)

lemma shl_shr_neg: "bit (x :: u64) 63 \<Longrightarrow> drop_bit 1 (NOT (push_bit 1 x)) = NOT x \<and> NOT (push_bit 1 x) AND 1 = 1"
proof
  assume x: "bit x 63"
  show "drop_bit 1 (NOT (push_bit 1 x)) = NOT x"
  proof (rule bit_word_eqI)
    fix n assume "n < LENGTH(64)"
    then show "bit (drop_bit 1 (NOT (push_bit 1 x))) n = bit (NOT x) n"
      unfolding bit_drop_bit_eq bit_not_iff bit_shl_1 comp_def using x by (cases "n = 63") auto
  qed
  show "NOT (push_bit 1 x) AND 1 = 1"
    by (rule bit_word_eqI) (auto simp only: bit_and_iff bit_not_iff bit_shl_1 bit_1_iff possible_bit_word)
qed

lemma shl_low: "(push_bit 1 x :: u64) AND 1 = 0"
  by (rule bit_word_eqI) (auto simp only: bit_and_iff bit_shl_1 bit_1_iff bit_0_eq bot_apply bot_bool_def)

lemma shl_shr_pos: "\<not> bit (x :: u64) 63 \<Longrightarrow> drop_bit 1 (push_bit 1 x) = x"
proof (rule bit_word_eqI)
  fix n assume "\<not> bit x 63" "n < LENGTH(64)"
  then show "bit (drop_bit 1 (push_bit 1 x)) n = bit x n"
    unfolding bit_drop_bit_eq bit_shl_1 comp_def by (cases "n = 63") auto
qed

lemma sint_neg_bit: "sint (x :: u64) < 0 \<longleftrightarrow> bit x 63"
  using bit_last_iff[of x] by simp

lemma Varint_append [simp]: "Varint (AppendVarint x @ r) = Some (x, length (AppendVarint x))"
  using shl_shr_neg[of x] shl_shr_pos[of x] shl_low[of x]
  by (cases "bit x 63") (simp_all add: Varint_def AppendVarint_def sint_neg_bit del: One_nat_def)

lemma unzigzag_zigzag [simp]: "unzigzag (zigzag v) = v"
proof -
  have s: "signed_drop_bit 63 v = (if bit v 63 then - 1 else 0)"
  proof (rule bit_word_eqI)
    fix n assume "n < LENGTH(64)"
    then show "bit (signed_drop_bit 63 v) n = bit (if bit v 63 then - 1 else 0 :: u64) n"
      by (cases "n = 0") (auto simp: bit_signed_drop_bit_iff)
  qed
  show ?thesis
    using shl_shr_neg[of v] shl_shr_pos[of v] shl_low[of v]
    by (cases "bit v 63") (simp_all add: unzigzag_def zigzag_def s del: One_nat_def)
qed

section \<open>Bits read back\<close>

lemma length_set_bits [simp]: "length (set_bits xs i out) = length out"
  by (induction xs arbitrary: i out) simp_all

lemma push_bit_1_nonzero: "(w :: 'a::len word) AND push_bit b 1 \<noteq> 0 \<longleftrightarrow> bit w b"
proof
  assume "w AND push_bit b 1 \<noteq> 0"
  then obtain n where "bit (w AND push_bit b 1) n" using bit_eq_iff[of "w AND push_bit b 1" 0] by auto
  then show "bit w b" by (auto simp: bit_simps)
next
  assume "bit w b"
  then have "bit (w AND push_bit b 1) b" using bit_imp_le_length by (auto simp: bit_simps)
  then show "w AND push_bit b 1 \<noteq> 0" by auto
qed

lemma get_bit_iff: "get_bit data i \<longleftrightarrow> bit (data ! (i div 8)) (i mod 8)"
  unfolding get_bit_def push_bit_1_nonzero ..

lemma get_set_bits:
  assumes "p < 8 * length out" and "i + length xs \<le> 8 * length out"
  shows "get_bit (set_bits xs i out) p \<longleftrightarrow> get_bit out p \<or> (i \<le> p \<and> p < i + length xs \<and> xs ! (p - i))"
  using assms
proof (induction xs arbitrary: i out)
  case (Cons x xs)
  let ?out = "if x then out[i div 8 := out ! (i div 8) OR push_bit (i mod 8) 1] else out"
  have len: "length ?out = length out" by simp
  have "i div 8 < length out" "p div 8 < length out" using Cons.prems by (auto simp: less_mult_imp_div_less mult.commute)
  then have one: "get_bit ?out p \<longleftrightarrow> get_bit out p \<or> (p = i \<and> x)"
    by (auto simp: get_bit_iff nth_list_update bit_simps) (metis div_mult_mod_eq)+
  have "get_bit (set_bits xs (i + 1) ?out) p \<longleftrightarrow> get_bit ?out p \<or> (i + 1 \<le> p \<and> p < i + 1 + length xs \<and> xs ! (p - (i + 1)))"
    using Cons.IH[of ?out "i + 1"] Cons.prems len by simp
  then show ?case using one by (cases "p = i") (auto simp: nth_Cons' Suc_le_eq)
qed auto


lemma get_bit_zeros [simp]: "p < 8 * n \<Longrightarrow> \<not> get_bit (replicate n 0) p"
  by (simp add: get_bit_iff less_mult_imp_div_less mult.commute)

text \<open>Packing bits into the fewest bytes and reading them back.\<close>

lemma get_packed:
  assumes "p < length xs"
  shows "get_bit (set_bits xs 0 (replicate ((length xs + 7) div 8) 0)) p = xs ! p"
proof -
  have "length xs \<le> 8 * ((length xs + 7) div 8)" by linarith
  then show ?thesis using assms by (subst get_set_bits) simp_all
qed

lemma unpack_value_bits:
  "bit (unpack_value data i w b v) n \<longleftrightarrow> bit v n \<or> (b \<le> n \<and> n < b + w \<and> n < 64 \<and> get_bit data (i + (n - b)))"
proof (induction w arbitrary: i b v)
  case (Suc w)
  let ?v = "if get_bit data i then v OR push_bit b 1 else v"
  have "bit ?v n \<longleftrightarrow> bit v n \<or> (n = b \<and> n < 64 \<and> get_bit data i)"
    by (auto simp: bit_or_iff bit_exp_iff)
  then have "bit (unpack_value data i (Suc w) b v) n \<longleftrightarrow> (bit v n \<or> (n = b \<and> n < 64 \<and> get_bit data i))
      \<or> (b + 1 \<le> n \<and> n < b + 1 + w \<and> n < 64 \<and> get_bit data (i + 1 + (n - (b + 1))))"
    using Suc.IH[of "i + 1" "b + 1" ?v] by simp
  moreover have "i + 1 + (n - (b + 1)) = i + (n - b)" if "b + 1 \<le> n" using that by simp
  ultimately show ?case by (cases "n = b") auto
qed auto

lemma nth_concat_blocks:
  "\<forall>x \<in> set xss. length x = w \<Longrightarrow> k < length xss \<Longrightarrow> j < w \<Longrightarrow> concat xss ! (k * w + j) = xss ! k ! j"
proof (induction xss arbitrary: k)
  case (Cons x xss)
  then show ?case by (cases k) (auto simp: nth_append)
qed simp

lemma length_concat_blocks: "\<forall>x \<in> set xss. length x = w \<Longrightarrow> length (concat xss) = w * length xss"
  by (induction xss) auto

lemma unpack_loop_nth: "k < n \<Longrightarrow> unpack_loop data w i n ! k = unpack_value data (i + k * w) w 0 0"
proof (induction n arbitrary: k i)
  case (Suc n)
  then show ?case by (cases k) (auto simp: add.assoc)
qed simp

lemma length_unpack_loop [simp]: "length (unpack_loop data w i n) = n"
  by (induction n arbitrary: i) simp_all

lemma unpackBits_packBits:
  assumes w: "\<forall>v \<in> set vals. take_bit w v = v"
  shows "unpackBits (packBits vals w) w (length vals) = Some vals"
proof (cases "w = 0")
  case True
  then have "\<forall>v \<in> set vals. v = 0" using w by simp
  then have "vals = replicate (length vals) 0" by (intro replicate_eqI) auto
  then show ?thesis using True by (simp add: unpackBits_def)
next
  case False
  let ?b = "concat (map (\<lambda>v. map (\<lambda>b. v AND push_bit b 1 \<noteq> 0) [0..<w]) vals)"
  have len: "length ?b = w * length vals" using length_concat_blocks[of "map (\<lambda>v. map (\<lambda>b. v AND push_bit b 1 \<noteq> 0) [0..<w]) vals" w] by simp
  have p: "packBits vals w = set_bits ?b 0 (replicate ((length ?b + 7) div 8) 0)"
    unfolding len using False by (simp add: packBits_def)
  have "unpack_loop (packBits vals w) w 0 (length vals) = vals"
  proof (rule nth_equalityI)
    fix k assume "k < length (unpack_loop (packBits vals w) w 0 (length vals))"
    then have k: "k < length vals" by simp
    have "unpack_value (packBits vals w) (k * w) w 0 0 = vals ! k"
    proof (rule bit_word_eqI)
      fix n assume n: "n < LENGTH(64)"
      show "bit (unpack_value (packBits vals w) (k * w) w 0 0) n = bit (vals ! k) n"
      proof (cases "n < w")
        case True
        have "k * w + n < length ?b"
        proof -
          have "k * w + n < k * w + w" using True by simp
          also have "\<dots> \<le> length vals * w" using k by (metis Suc_leI mult_Suc mult_le_mono1 add.commute)
          finally show ?thesis unfolding len by (simp add: mult.commute)
        qed
        then have "get_bit (packBits vals w) (k * w + n) = ?b ! (k * w + n)" unfolding p by (rule get_packed)
        also have "\<dots> = bit (vals ! k) n"
          using nth_concat_blocks[of "map (\<lambda>v. map (\<lambda>b. v AND push_bit b 1 \<noteq> 0) [0..<w]) vals" w k n] k True
          by (simp add: push_bit_1_nonzero del: push_bit_of_1)
        finally show ?thesis using True n by (simp add: unpack_value_bits)
      next
        case False
        have "take_bit w (vals ! k) = vals ! k" using w k by simp
        then have "\<not> bit (vals ! k) n" using False by (metis bit_take_bit_iff)
        then show ?thesis using False by (simp add: unpack_value_bits)
      qed
    qed
    then show "unpack_loop (packBits vals w) w 0 (length vals) ! k = vals ! k" using k by (simp add: unpack_loop_nth)
  qed simp
  moreover have "length (packBits vals w) = (w * length vals + 7) div 8" unfolding p len by simp
  ultimately show ?thesis using False by (simp add: unpackBits_def)
qed


section \<open>Values read back\<close>

lemma sint_of_nat_u64: "n < 2 ^ 63 \<Longrightarrow> sint (of_nat n :: u64) = int n"
  by (simp add: signed_of_nat signed_take_bit_int_eq_self)

lemma length_AppendUvarint_pos: "0 < length (AppendUvarint v)"
  by (subst AppendUvarint.simps) simp

lemma length_AppendUvarint: "length (AppendUvarint v) \<le> 10"
proof -
  have "length (AppendUvarint v) \<le> Suc k" if "unat v < 2 ^ (7 * Suc k)" for k
    using that
  proof (induction k arbitrary: v)
    case 0
    then show ?case by (subst AppendUvarint.simps) (simp add: word_le_nat_alt)
  next
    case (Suc k)
    have "unat (drop_bit 7 v) < 2 ^ (7 * Suc k)"
      using Suc.prems by (simp add: unat_drop_bit power_add less_mult_imp_div_less mult.commute)
    then show ?case using Suc.IH by (subst AppendUvarint.simps) simp
  qed
  from this[of 9] show ?thesis using unsigned_less[of v, where ?'a = nat] by simp
qed

lemma get_string_append:
  assumes "length p \<le> 2" and "length s < 2 ^ 62"
  shows "get_string (p @ AppendUvarint (of_nat (length s)) @ s @ r) (length p)
    = Inr (s, length p + length (AppendUvarint (of_nat (length s))) + length s)"
proof -
  let ?u = "AppendUvarint (of_nat (length s))"
  have hi: "sint (of_nat (length p + length ?u) + of_nat (length s) :: u64) = int (length p + length ?u + length s)"
    using sint_of_nat_u64[of "length p + length ?u + length s"] assms length_AppendUvarint[of "of_nat (length s)"] by simp
  have "nat (int (length p + length ?u + length s)) = length p + length ?u + length s" by simp
  then show ?thesis unfolding get_string_def by (simp add: hi sub_def del: of_nat_add)
qed

lemma putValue_append: "putValue dst v = dst @ putValue [] v"
  by (simp add: putValue_def Let_def)

lemma foldl_putValue: "foldl putValue dst vs = dst @ concat (map (putValue []) vs)"
  by (induction vs arbitrary: dst) (simp, metis (no_types, lifting) append.assoc concat.simps(2) foldl_Cons list.simps(9) putValue_append)

definition storable :: "col_Value \<Rightarrow> bool" where
  "storable v \<longleftrightarrow> col_ok v \<and> length (cv_S v) < 2 ^ 62"

lemma getValue_putValue:
  assumes "storable v"
  shows "getValue (putValue [] v @ r) = Inr (v, length (putValue [] v))"
proof -
  have ok: "col_ok v" and len: "length (cv_S v) < 2 ^ 62" using assms by (auto simp: storable_def)
  show ?thesis
    using ok
  proof (cases rule: col_ok_cases)
    case (string s)
    then show ?thesis
      using get_string_append[of "[KindString]" s r] len by (simp add: getValue_def putValue_def kind_defs)
  next
    case (other s g)
    have l2: "length [KindOther, g] = 2" by simp
    show ?thesis
      using get_string_append[of "[KindOther, g]" s r, unfolded l2] len other by (simp add: getValue_def putValue_def kind_defs)
  qed (simp_all add: getValue_def putValue_def kind_defs NullValue_def sub_def)
qed

lemma get_values_put:
  "list_all storable vs \<Longrightarrow> get_values (concat (map (putValue []) vs) @ r) (length vs) = Inr (vs, r)"
  by (induction vs) (simp_all add: getValue_putValue)

section \<open>Streams read back\<close>

lemma decode_plain: "list_all storable vs \<Longrightarrow> decodeStream (encodePlain vs) (length vs) = Inr vs"
  using get_values_put[of vs "[]"] by (simp add: encodePlain_def foldl_putValue decodeStream_def decodePlain_def)

lemma runs_of_expand:
  "list_all storable vs \<Longrightarrow> concat (map (\<lambda>(v, n). replicate n v) (runs_of vs)) = vs
    \<and> list_all (\<lambda>(v, n). storable v \<and> n \<le> length vs) (runs_of vs) \<and> length (runs_of vs) \<le> length vs"
proof (induction vs rule: runs_of.induct)
  case (2 v vs)
  let ?P = "\<lambda>w. strictKey w = strictKey v"
  have d: "list_all storable (dropWhile ?P vs)" using "2.prems" by (auto simp: list_all_iff dest: set_dropWhileD)
  have "takeWhile ?P vs = replicate (length (takeWhile ?P vs)) v"
  proof (rule replicate_eqI)
    fix w assume "w \<in> set (takeWhile ?P vs)"
    then show "w = v" using "2.prems" strictKey_inj by (auto simp: list_all_iff storable_def dest: set_takeWhileD)
  qed simp
  then have "replicate (length (takeWhile ?P vs)) v @ dropWhile ?P vs = vs" by (metis takeWhile_dropWhile_id)
  moreover have "length (dropWhile ?P vs) \<le> length vs" "length (takeWhile ?P vs) \<le> length vs"
    by (simp_all add: length_dropWhile_le length_takeWhile_le)
  ultimately show ?case using "2.IH"[OF d] "2.prems" by (auto simp: list_all_iff)
qed simp

lemma rle_loop_put:
  assumes "list_all (\<lambda>(v, n). storable v \<and> n < 2 ^ 63) rs"
  shows "rle_loop (concat (map (\<lambda>(v, n). putValue [] v @ AppendUvarint (of_nat n)) rs)) (length rs)
    = Inr (concat (map (\<lambda>(v, n). replicate n v) rs))"
  using assms by (induction rs) (auto simp: getValue_putValue unat_of_nat_id)

lemma foldl_runs:
  "foldl (\<lambda>out (v, n). putValue out v @ AppendUvarint (of_nat n)) dst rs
    = dst @ concat (map (\<lambda>(v, n). putValue [] v @ AppendUvarint (of_nat n)) rs)"
proof (induction rs arbitrary: dst)
  case (Cons a rs)
  then show ?case by (cases a) (simp add: putValue_append[of dst])
qed simp

lemma decode_rle:
  assumes "list_all storable vs" and "length vs < 2 ^ 63"
  shows "decodeStream (encodeRLE vs) (length vs) = Inr vs"
proof -
  have r: "concat (map (\<lambda>(v, n). replicate n v) (runs_of vs)) = vs" "length (runs_of vs) < 2 ^ 63"
    "list_all (\<lambda>(v, n). storable v \<and> n < 2 ^ 63) (runs_of vs)"
    using runs_of_expand[OF assms(1)] assms(2) by (auto simp: list_all_iff)
  have "unat (of_nat (length (runs_of vs)) :: u64) = length (runs_of vs)" using r(2) by (simp add: unat_of_nat_id)
  then show ?thesis
    using rle_loop_put[OF r(3)] r(1) by (simp add: encodeRLE_def foldl_runs decodeStream_def decodeRLE_def enc_defs)
qed


text \<open>The dictionary: every code names an entry equal to the value.\<close>

lemma dict_loop_ok:
  assumes "list_all storable vs" and "list_all storable dict"
    and "\<And>k c. map_of codeOf k = Some c \<Longrightarrow> c < length dict \<and> strictKey (dict ! c) = k"
    and "dict_loop vs codeOf dict = (d, cs)"
  shows "length cs = length vs \<and> list_all storable d \<and> (\<exists>e. d = dict @ e) \<and> length d \<le> length dict + length vs
    \<and> (\<forall>i < length vs. cs ! i < length d \<and> d ! (cs ! i) = vs ! i)"
  using assms
proof (induction vs arbitrary: codeOf dict d cs)
  case (Cons v vs)
  show ?case
  proof (cases "map_of codeOf (strictKey v)")
    case (Some c)
    then obtain cs' where r: "dict_loop vs codeOf dict = (d, cs')" "cs = c # cs'"
      using Cons.prems(4) by (auto split: prod.splits)
    have ih: "length cs' = length vs \<and> list_all storable d \<and> (\<exists>e. d = dict @ e) \<and> length d \<le> length dict + length vs
      \<and> (\<forall>i < length vs. cs' ! i < length d \<and> d ! (cs' ! i) = vs ! i)"
      using Cons.IH[OF _ Cons.prems(2) Cons.prems(3) r(1)] Cons.prems(1) by simp
    have c: "c < length dict" "strictKey (dict ! c) = strictKey v" using Cons.prems(3)[OF Some] by auto
    then have "dict ! c = v" using Cons.prems(1,2) strictKey_inj by (auto simp: list_all_length storable_def)
    then have "c < length d \<and> d ! c = v" using ih c by (auto simp: nth_append)
    then show ?thesis using ih r(2) by (auto simp: nth_Cons split: nat.splits)
  next
    case None
    then obtain cs' where r: "dict_loop vs ((strictKey v, length dict) # codeOf) (dict @ [v]) = (d, cs')" "cs = length dict # cs'"
      using Cons.prems(4) by (auto simp: Let_def split: prod.splits)
    have k: "c < length (dict @ [v]) \<and> strictKey ((dict @ [v]) ! c) = k" if "map_of ((strictKey v, length dict) # codeOf) k = Some c" for k c
      using that Cons.prems(3)[of k c] by (auto simp: nth_append split: if_splits)
    have ih: "length cs' = length vs \<and> list_all storable d \<and> (\<exists>e. d = (dict @ [v]) @ e) \<and> length d \<le> length (dict @ [v]) + length vs
      \<and> (\<forall>i < length vs. cs' ! i < length d \<and> d ! (cs' ! i) = vs ! i)"
      using Cons.IH[OF _ _ k r(1)] Cons.prems(1,2) by simp
    then have "length dict < length d \<and> d ! length dict = v" by auto
    then show ?thesis using ih r(2) by (auto simp: nth_Cons split: nat.splits)
  qed
qed auto

lemma take_bit_bitWidth:
  assumes "unat v \<le> unat m" shows "take_bit (bitWidth m) (v :: u64) = v"
proof -
  have "unat m < 2 ^ bitWidth m" for m
  proof (induction m rule: bitWidth.induct)
    case (1 m)
    then show ?case by (subst bitWidth.simps) (auto simp: unat_drop_bit word_less_nat_alt)
  qed
  from this[of m] have "unat v < 2 ^ bitWidth m" using assms by simp
  then have "unat (take_bit (bitWidth m) v) = unat v" by (simp add: unsigned_take_bit_eq take_bit_nat_eq_self)
  then show ?thesis by (simp only: unsigned_word_eqI)
qed

lemma bitWidth_le: "bitWidth m \<le> 64"
proof -
  have "bitWidth m \<le> k" if "unat m < 2 ^ k" for k
    using that
  proof (induction k arbitrary: m)
    case 0
    then show ?case by (subst bitWidth.simps) (simp add: word_less_nat_alt)
  next
    case (Suc k)
    have "unat (drop_bit 1 m) < 2 ^ k" using Suc.prems by (simp add: unat_drop_bit)
    then show ?case using Suc.IH by (subst bitWidth.simps) simp
  qed
  from this[of 64] show ?thesis using unsigned_less[of m, where ?'a = nat] by simp
qed

lemma unat_width [simp]: "unat (of_nat (bitWidth m) :: byte) = bitWidth m"
  using bitWidth_le[of m] by (simp add: unat_of_nat_id)

lemma dict_values_map:
  "\<forall>c \<in> set cs. c < length d \<Longrightarrow> length d < 2 ^ 63 \<Longrightarrow> dict_values d (map of_nat cs) = Inr (map ((!) d) cs)"
  by (induction cs) (auto simp: unat_of_nat_id sint_of_nat_u64)

lemma decode_dict:
  assumes "list_all storable vs" and "length vs < 2 ^ 63"
  shows "decodeStream (encodeDict vs) (length vs) = Inr vs"
proof -
  obtain d cs where r: "dict_loop vs [] [] = (d, cs)" by fastforce
  have ok: "length cs = length vs" "list_all storable d" "length d \<le> length vs" "\<forall>i < length vs. cs ! i < length d \<and> d ! (cs ! i) = vs ! i"
    using dict_loop_ok[OF assms(1) _ _ r] by auto
  define w where "w = (if 1 < length d then bitWidth (of_nat (length d - 1)) else 0)"
  have lt: "\<forall>c \<in> set cs. c < length d" using ok(1,4) by (metis in_set_conv_nth)
  have "take_bit w (of_nat c :: u64) = of_nat c" if "c \<in> set cs" for c
  proof (cases "1 < length d")
    case True
    have "c \<le> length d - 1" "length d - 1 < 2 ^ 64" using lt that ok(3) assms(2) by fastforce+
    moreover have "unat (of_nat n :: u64) = n" if "n < 2 ^ 64" for n using that by (simp add: unat_of_nat_id)
    ultimately have "unat (of_nat c :: u64) \<le> unat (of_nat (length d - 1) :: u64)" by (metis le_less_trans)
    from take_bit_bitWidth[OF this] show ?thesis unfolding w_def if_P[OF True] .
  next
    case False
    then have "c = 0" using lt that by fastforce
    then show ?thesis by simp
  qed
  then have u: "unpackBits (packBits (map of_nat cs) w) w (length vs) = Some (map of_nat cs)"
    using unpackBits_packBits[of "map of_nat cs" w] ok(1) by simp
  have "unat (of_nat w :: byte) = w" unfolding w_def by simp
  moreover have "map ((!) d) cs = vs" using ok by (auto intro: nth_equalityI)
  moreover have "unat (of_nat (length d) :: u64) = length d" using ok(3) assms(2) by (simp add: unat_of_nat_id)
  moreover have "encodeDict vs = encDict # AppendUvarint (of_nat (length d)) @ concat (map (putValue []) d) @ of_nat w # packBits (map of_nat cs) w"
    unfolding encodeDict_def r prod.case Let_def foldl_putValue w_def[symmetric] by simp
  ultimately show ?thesis
    using get_values_put[OF ok(2)] u dict_values_map[OF lt] ok(3) assms(2)
    by (simp add: decodeStream_def decodeDict_def enc_defs)
qed


text \<open>The integer codecs.\<close>

lemma max_of_ge: "z \<in> set zz \<Longrightarrow> unat z \<le> unat (max_of zz)"
proof -
  have "m \<le> foldl (\<lambda>m z. if m < z then z else m) m zz \<and> (\<forall>z \<in> set zz. z \<le> foldl (\<lambda>m z. if m < z then z else m) m zz)" for m :: u64
    by (induction zz arbitrary: m) (auto, (meson le_less_trans less_imp_le order_trans not_less)+)
  then show "z \<in> set zz \<Longrightarrow> unat z \<le> unat (max_of zz)" by (simp add: max_of_def word_le_nat_alt)
qed

lemma unpack_max:
  "length zz = n \<Longrightarrow> unpackBits (packBits zz (bitWidth (max_of zz))) (bitWidth (max_of zz)) n = Some zz"
  using unpackBits_packBits[of zz "bitWidth (max_of zz)"] by (auto simp: take_bit_bitWidth max_of_ge)

lemma homogeneous_values:
  assumes "homogeneousIntKind vs = Some rk" and "list_all storable vs"
  shows "vs \<noteq> [] \<and> (\<forall>v \<in> set vs. v = (zero_Value rk)\<lparr>cv_I := cv_I v\<rparr>)"
proof -
  have k: "vs \<noteq> []" "rk = KindInt \<or> rk = KindBool" "\<forall>v \<in> set vs. cv_Kind v = rk"
    using assms(1) by (auto simp: homogeneousIntKind_def list_all_iff split: list.splits if_splits)
  have "v = (zero_Value rk)\<lparr>cv_I := cv_I v\<rparr>" if "v \<in> set vs" for v
  proof -
    have "col_ok v" "cv_Kind v = rk" using that assms(2) k(3) by (auto simp: list_all_iff storable_def)
    then show ?thesis
    proof (cases rule: col_ok_cases)
      case (bool b)
      then show ?thesis using \<open>cv_Kind v = rk\<close> by simp
    next
      case (int i)
      then show ?thesis using \<open>cv_Kind v = rk\<close> by simp
    qed (use k(2) \<open>cv_Kind v = rk\<close> in \<open>simp_all add: kind_defs\<close>)
  qed
  then show ?thesis using k(1) by blast
qed

lemma rebuild_ints: "\<forall>v \<in> set vs. v = (zero_Value rk)\<lparr>cv_I := cv_I v\<rparr> \<Longrightarrow> map (\<lambda>v. (zero_Value rk)\<lparr>cv_I := cv_I v\<rparr>) vs = vs"
  by (simp add: map_idI)

lemma decode_bitpack:
  assumes "\<forall>v \<in> set vs. v = (zero_Value rk)\<lparr>cv_I := cv_I v\<rparr>"
  shows "decodeStream (encodeBitpack vs rk) (length vs) = Inr vs"
  using unpack_max[of "map (\<lambda>v. zigzag (cv_I v)) vs" "length vs"] rebuild_ints[OF assms]
  by (simp add: encodeBitpack_def decodeStream_def decodeBitpack_def enc_defs Let_def comp_def)

lemma decode_for:
  assumes "\<forall>v \<in> set vs. v = (zero_Value rk)\<lparr>cv_I := cv_I v\<rparr>"
  shows "decodeStream (encodeFOR vs rk) (length vs) = Inr vs"
proof -
  define base where "base = foldl (\<lambda>m v. if sint (cv_I v) < sint m then cv_I v else m) (cv_I (hd vs)) vs"
  show ?thesis
    using unpack_max[of "map (\<lambda>v. cv_I v - base) vs" "length vs"] rebuild_ints[OF assms]
    by (simp add: encodeFOR_def decodeStream_def decodeFOR_def enc_defs Let_def comp_def flip: base_def)
qed

lemma undelta_deltas:
  "\<forall>v \<in> set vs. v = (zero_Value rk)\<lparr>cv_I := cv_I v\<rparr> \<Longrightarrow> undelta rk cur (deltas_of cur vs) = vs"
  by (induction vs arbitrary: cur) auto

lemma length_deltas_of [simp]: "length (deltas_of cur vs) = length vs"
  by (induction vs arbitrary: cur) auto

lemma decode_delta:
  assumes "vs \<noteq> []" and "\<forall>v \<in> set vs. v = (zero_Value rk)\<lparr>cv_I := cv_I v\<rparr>"
  shows "decodeStream (encodeDelta vs rk) (length vs) = Inr vs"
proof -
  obtain v ws where vs: "vs = v # ws" using assms(1) by (cases vs) auto
  have "undelta rk (cv_I v) (deltas_of (cv_I v) ws) = ws" "v = (zero_Value rk)\<lparr>cv_I := cv_I v\<rparr>"
    using assms(2) vs by (auto intro: undelta_deltas)
  then show ?thesis
    using unpack_max[of "deltas_of (cv_I v) ws" "length ws"]
    by (simp add: vs encodeDelta_def decodeStream_def decodeDelta_def enc_defs Let_def)
qed

section \<open>Columns read back\<close>

lemma decode_choice:
  assumes "list_all storable vs" and "length vs < 2 ^ 63"
  shows "decodeStream (chooseEncoding vs) (length vs) = Inr vs"
proof -
  have sh: "decodeStream (shorter a b) n = Inr vs" if "decodeStream a n = Inr vs" "decodeStream b n = Inr vs" for a b n
    using that by (simp add: shorter_def)
  note base = sh[OF sh[OF decode_plain[OF assms(1)] decode_rle[OF assms]] decode_dict[OF assms]]
  show ?thesis
  proof (cases "homogeneousIntKind vs")
    case None
    then show ?thesis using base by (simp add: chooseEncoding_def)
  next
    case (Some rk)
    then have "vs \<noteq> []" "\<forall>v \<in> set vs. v = (zero_Value rk)\<lparr>cv_I := cv_I v\<rparr>" using homogeneous_values[OF Some assms(1)] by auto
    then show ?thesis
      using sh[OF sh[OF sh[OF base decode_bitpack] decode_for] decode_delta] Some by (simp add: chooseEncoding_def)
  qed
qed

lemma scatter_filter:
  "list_all storable vs \<Longrightarrow> scatter (map (\<lambda>v. cv_Kind v = KindNull) vs) (filter (\<lambda>v. cv_Kind v \<noteq> KindNull) vs) = vs"
proof (induction vs)
  case (Cons v vs)
  have "cv_Kind v = KindNull \<Longrightarrow> v = NullValue"
    using Cons.prems by (cases v) (auto simp: storable_def col_ok_def NullValue_def kind_defs)
  then show ?case using Cons by auto
qed simp

lemma readNullBitmap_packed:
  "readNullBitmap (set_bits xs 0 (replicate ((length xs + 7) div 8) 0)) (length xs) = xs"
  by (rule nth_equalityI) (simp_all add: readNullBitmap_def get_packed)

text \<open>A decoder that succeeds returns as many values as it was asked for.\<close>

lemma length_get_values: "get_values b m = Inr (vs, r) \<Longrightarrow> length vs = m"
  by (induction m arbitrary: b vs) (auto simp: bind_res_def split: sum.splits)

lemma length_unpackBits: "unpackBits data w n = Some vs \<Longrightarrow> length vs = n"
  by (auto simp: unpackBits_def split: if_splits)

lemma length_dict_values: "dict_values d cs = Inr vs \<Longrightarrow> length vs = length cs"
  by (induction cs arbitrary: vs) (auto simp: bind_res_def split: if_splits sum.splits)

lemma length_undelta [simp]: "length (undelta rk cur us) = length us"
  by (induction us arbitrary: cur) auto

lemma decodeStream_length: "decodeStream b m = Inr vs \<Longrightarrow> length vs = m"
  by (auto simp: decodeStream_def decodePlain_def decodeDict_def decodeRLE_def decodeBitpack_def decodeFOR_def
      decodeDelta_def bind_res_def Let_def split: list.splits if_splits sum.splits option.splits prod.splits
      dest: length_get_values length_unpackBits length_dict_values)

lemma column_roundtrip:
  assumes "list_all storable vals" and "length vals < 2 ^ 62"
  shows "DecodeColumn (EncodeColumn vals) = Inr vals"
proof -
  let ?nulls = "map (\<lambda>v. cv_Kind v = KindNull) vals" let ?nn = "filter (\<lambda>v. cv_Kind v \<noteq> KindNull) vals"
  let ?bm = "set_bits ?nulls 0 (replicate ((length vals + 7) div 8) 0)"
  have n: "sint (of_nat (length vals) :: u64) = int (length vals)" using assms(2) by (simp add: sint_of_nat_u64)
  have nb: "sint (of_nat (length vals) + 7 :: u64) sdiv 8 = int ((length vals + 7) div 8)"
    using assms(2) sint_of_nat_u64[of "length vals + 7"] by (simp add: signed_divide_int_def zdiv_int)
  have r: "readNullBitmap ?bm (length vals) = ?nulls" using readNullBitmap_packed[of ?nulls] by simp
  have d: "decodeStream (chooseEncoding ?nn) (length ?nn) = Inr ?nn"
    using assms by (intro decode_choice) (auto simp: list_all_iff intro: le_less_trans[OF length_filter_le])
  show ?thesis
    using scatter_filter[OF assms(1)] d
    by (simp add: EncodeColumn_def DecodeColumn_def appendNullBitmap_def Let_def n nb r filter_map comp_def)
qed


text \<open>C27. A column decodes to the values it was encoded from, whatever mix of nulls, numbers, strings
  and opaque values it holds and whichever of the six encodings was the smallest: positions, kinds and
  bit patterns are all preserved.\<close>

theorem DecodeColumn_EncodeColumn:
  assumes "list_all storable vals" and "length vals < 2 ^ 62"
  shows "DecodeColumn (EncodeColumn vals) = Inr vals"
  using assms by (rule column_roundtrip)

theorem DecodeColumn_EncodeColumn_witness:
  "DecodeColumn (EncodeColumn [(zero_Value KindInt)\<lparr>cv_I := 7\<rparr>, NullValue, (zero_Value KindString)\<lparr>cv_S := [104, 105]\<rparr>])
    = Inr [(zero_Value KindInt)\<lparr>cv_I := 7\<rparr>, NullValue, (zero_Value KindString)\<lparr>cv_S := [104, 105]\<rparr>]"
  by (rule DecodeColumn_EncodeColumn) (simp_all add: storable_def col_ok_def NullValue_def kind_defs)

text \<open>The chosen stream is no longer than any of the applicable ones.\<close>

lemma chooseEncoding_smallest:
  "length (chooseEncoding vs) \<le> length (encodePlain vs)" "length (chooseEncoding vs) \<le> length (encodeRLE vs)"
  "length (chooseEncoding vs) \<le> length (encodeDict vs)"
  "homogeneousIntKind vs = Some rk \<Longrightarrow> length (chooseEncoding vs) \<le> length (encodeBitpack vs rk)"
  "homogeneousIntKind vs = Some rk \<Longrightarrow> length (chooseEncoding vs) \<le> length (encodeFOR vs rk)"
  "homogeneousIntKind vs = Some rk \<Longrightarrow> length (chooseEncoding vs) \<le> length (encodeDelta vs rk)"
  by (auto simp: chooseEncoding_def shorter_def Let_def split: option.split)

text \<open>A corrupt column can panic instead of being reported: a delta stream cut after its tag, and a
  string whose length wraps the bounds check.\<close>

lemma DecodeColumn_panics:
  "DecodeColumn [1, 0, 6] = Inl ColPanic"
  "DecodeColumn ([1, 0, 1, 4] @ [255, 255, 255, 255, 255, 255, 255, 255, 127]) = Inl ColPanic"
  by code_simp+

end
