(* ===== verification/Colstore_Segment.thy ===== *)
theory Colstore_Segment
  imports Colstore_Encoding
begin

text \<open>
  Column segments (\<^verbatim>\<open>src/colstore/segment.go\<close>) and the range predicate of
  \<^verbatim>\<open>src/colstore/aggregate.go\<close>: building a segment with its zone map, visibility of an entry,
  pruning by the zone map, and the serialized form.
\<close>

section \<open>Segments\<close>

definition SegmentSize :: nat where "SegmentSize = 1024"

record Segment =
  seg_Field :: bytes
  seg_FirstRID :: u64
  seg_n :: nat
  seg_enc :: bytes
  seg_rids :: "u64 list"
  seg_write :: "u64 list"
  seg_del :: "u64 list"
  seg_hasZone :: bool
  seg_zoneMin :: col_Value
  seg_zoneMax :: col_Value

text \<open>The loop of \<^verbatim>\<open>computeZone\<close>; the state is the zone found so far, none before the first
  non-null value.\<close>

fun zone_loop :: "col_Value list \<Rightarrow> (col_Value \<times> col_Value) option \<Rightarrow> bool \<times> (col_Value \<times> col_Value) option" where
  "zone_loop [] z = (z \<noteq> None, z)"
| "zone_loop (v # vs) z =
     (if cv_Kind v = KindNull then zone_loop vs z
      else if \<not> comparableForZone v then (False, z)
      else case z of
          None \<Rightarrow> zone_loop vs (Some (v, v))
        | Some (mn, mx) \<Rightarrow>
            zone_loop vs (Some
              (case compareNumericOrString v mn of Some c \<Rightarrow> if c < 0 then v else mn | None \<Rightarrow> mn,
               case compareNumericOrString v mx of Some c \<Rightarrow> if c > 0 then v else mx | None \<Rightarrow> mx)))"

definition computeZone :: "Segment \<Rightarrow> col_Value list \<Rightarrow> Segment" where
  "computeZone s vals =
     (case zone_loop vals None of
        (h, None) \<Rightarrow> s\<lparr>seg_hasZone := h\<rparr>
      | (h, Some (mn, mx)) \<Rightarrow> s\<lparr>seg_hasZone := h, seg_zoneMin := mn, seg_zoneMax := mx\<rparr>)"

definition buildSegment :: "bytes \<Rightarrow> col_Value list \<Rightarrow> u64 list \<Rightarrow> u64 list \<Rightarrow> u64 list \<Rightarrow> Segment" where
  "buildSegment field vals rids write del =
     computeZone \<lparr>seg_Field = field, seg_FirstRID = (if 0 < length rids then rids ! 0 else 0), seg_n = length vals,
       seg_enc = EncodeColumn vals, seg_rids = rids, seg_write = write, seg_del = del,
       seg_hasZone = False, seg_zoneMin = zero_Value 0, seg_zoneMax = zero_Value 0\<rparr> vals"

definition seg_Values :: "Segment \<Rightarrow> col_Value list col_result" where
  "seg_Values s = DecodeColumn (seg_enc s)"

definition seg_visible :: "Segment \<Rightarrow> nat \<Rightarrow> u64 \<Rightarrow> bool" where
  "seg_visible s i snap =
     (if snap < seg_write s ! i then False else seg_del s ! i = 0 \<or> snap < seg_del s ! i)"

definition skipForRange :: "Segment \<Rightarrow> bytes \<Rightarrow> col_Value \<Rightarrow> bool" where
  "skipForRange s op bound =
     (if \<not> seg_hasZone s then False
      else if op = str ''$gt'' then
        (case compareNumericOrString (seg_zoneMax s) bound of Some c \<Rightarrow> c \<le> 0 | None \<Rightarrow> False)
      else if op = str ''$gte'' then
        (case compareNumericOrString (seg_zoneMax s) bound of Some c \<Rightarrow> c < 0 | None \<Rightarrow> False)
      else if op = str ''$lt'' then
        (case compareNumericOrString (seg_zoneMin s) bound of Some c \<Rightarrow> c \<ge> 0 | None \<Rightarrow> False)
      else if op = str ''$lte'' then
        (case compareNumericOrString (seg_zoneMin s) bound of Some c \<Rightarrow> c > 0 | None \<Rightarrow> False)
      else False)"

definition liveCount :: "Segment \<Rightarrow> u64 \<Rightarrow> nat" where
  "liveCount s snap = length (filter (\<lambda>i. seg_visible s i snap) [0..<seg_n s])"

definition EncodedSize :: "Segment \<Rightarrow> nat" where
  "EncodedSize s = length (seg_enc s)"

section \<open>Range predicates\<close>

record RangePred =
  rp_Field :: bytes
  rp_Op :: bytes
  rp_Bound :: col_Value

definition rp_matches :: "RangePred \<Rightarrow> col_Value \<Rightarrow> bool" where
  "rp_matches p v =
     (case compareNumericOrString v (rp_Bound p) of
        None \<Rightarrow> False
      | Some c \<Rightarrow>
          if rp_Op p = str ''$gt'' then c > 0
          else if rp_Op p = str ''$gte'' then c \<ge> 0
          else if rp_Op p = str ''$lt'' then c < 0
          else if rp_Op p = str ''$lte'' then c \<le> 0
          else if rp_Op p = str ''$eq'' then c = 0
          else False)"

section \<open>The serialized form\<close>

datatype seg_error = ErrBadSegment | SegPanic

definition seg_res :: "'a col_result \<Rightarrow> seg_error + 'a" where
  "seg_res r = (case r of Inl ErrCorruptColumn \<Rightarrow> Inl ErrBadSegment | Inl ColPanic \<Rightarrow> Inl SegPanic | Inr a \<Rightarrow> Inr a)"

fun put_deltas :: "u64 \<Rightarrow> u64 list \<Rightarrow> bytes" where
  "put_deltas prev [] = []"
| "put_deltas prev (r # rs) = AppendUvarint (r - prev) @ put_deltas r rs"

definition put_uvarints :: "u64 list \<Rightarrow> bytes" where
  "put_uvarints ws = concat (map AppendUvarint ws)"

definition MarshalBinary :: "Segment \<Rightarrow> bytes" where
  "MarshalBinary s =
     AppendUvarint (of_nat (length (seg_Field s))) @ seg_Field s @ AppendUvarint (seg_FirstRID s)
     @ AppendUvarint (of_nat (seg_n s)) @ put_deltas (seg_FirstRID s) (seg_rids s)
     @ put_uvarints (seg_write s) @ put_uvarints (seg_del s)
     @ (if seg_hasZone s then putValue (putValue [1] (seg_zoneMin s)) (seg_zoneMax s) else [0])
     @ AppendUvarint (of_nat (length (seg_enc s))) @ seg_enc s"

text \<open>The reader is the unread rest of the buffer.\<close>

definition rd_uvarint :: "bytes \<Rightarrow> seg_error + (u64 \<times> bytes)" where
  "rd_uvarint b = (case Uvarint b of None \<Rightarrow> Inl ErrBadSegment | Some (v, n) \<Rightarrow> Inr (v, drop n b))"

text \<open>A length and that many bytes; the length is compared and sliced as a signed integer.\<close>

definition rd_block :: "bytes \<Rightarrow> seg_error + (bytes \<times> bytes)" where
  "rd_block b = bind_res (rd_uvarint b) (\<lambda>(ln, b).
     if int (length b) < sint ln then Inl ErrBadSegment
     else if sint ln < 0 then Inl SegPanic
     else Inr (take (nat (sint ln)) b, drop (nat (sint ln)) b))"

fun rd_uvarints :: "nat \<Rightarrow> bytes \<Rightarrow> seg_error + (u64 list \<times> bytes)" where
  "rd_uvarints 0 b = Inr ([], b)"
| "rd_uvarints (Suc n) b =
     bind_res (rd_uvarint b) (\<lambda>(v, b). bind_res (rd_uvarints n b) (\<lambda>(vs, b). Inr (v # vs, b)))"

fun add_deltas :: "u64 \<Rightarrow> u64 list \<Rightarrow> u64 list" where
  "add_deltas prev [] = []"
| "add_deltas prev (d # ds) = (prev + d) # add_deltas (prev + d) ds"

definition rd_value :: "bytes \<Rightarrow> seg_error + (col_Value \<times> bytes)" where
  "rd_value b = bind_res (seg_res (getValue b)) (\<lambda>(v, n). Inr (v, drop n b))"

definition rd_zone :: "bytes \<Rightarrow> seg_error + ((col_Value \<times> col_Value) option \<times> bytes)" where
  "rd_zone b =
     (case b of
        [] \<Rightarrow> Inl ErrBadSegment
      | zflag # b \<Rightarrow>
          if zflag = 1
          then bind_res (rd_value b) (\<lambda>(mn, b). bind_res (rd_value b) (\<lambda>(mx, b). Inr (Some (mn, mx), b)))
          else Inr (None, b))"

definition UnmarshalSegment :: "bytes \<Rightarrow> seg_error + Segment" where
  "UnmarshalSegment b =
     bind_res (rd_block b) (\<lambda>(field, b).
     bind_res (rd_uvarint b) (\<lambda>(first, b).
     bind_res (rd_uvarint b) (\<lambda>(n64, b).
     if sint n64 < 0 then Inl SegPanic
     else let n = nat (sint n64) in
     bind_res (rd_uvarints n b) (\<lambda>(deltas, b).
     bind_res (rd_uvarints n b) (\<lambda>(write, b).
     bind_res (rd_uvarints n b) (\<lambda>(del, b).
     bind_res (rd_zone b) (\<lambda>(zone, b).
     bind_res (rd_block b) (\<lambda>(enc, b).
       Inr \<lparr>seg_Field = field, seg_FirstRID = first, seg_n = n, seg_enc = enc, seg_rids = add_deltas first deltas,
         seg_write = write, seg_del = del, seg_hasZone = (zone \<noteq> None),
         seg_zoneMin = (case zone of None \<Rightarrow> zero_Value 0 | Some (mn, mx) \<Rightarrow> mn),
         seg_zoneMax = (case zone of None \<Rightarrow> zero_Value 0 | Some (mn, mx) \<Rightarrow> mx)\<rparr>))))))))"

section \<open>Round trip\<close>

lemma rd_uvarint_put [simp]: "rd_uvarint (AppendUvarint v @ r) = Inr (v, r)"
  by (simp add: rd_uvarint_def)

lemma rd_block_put [simp]: "length s < 2 ^ 63 \<Longrightarrow> rd_block (AppendUvarint (of_nat (length s)) @ s @ r) = Inr (s, r)"
  by (simp add: rd_block_def sint_of_nat_u64)

lemma rd_uvarints_put: "rd_uvarints (length ws) (put_uvarints ws @ r) = Inr (ws, r)"
  by (induction ws) (simp_all add: put_uvarints_def)

fun deltas_from :: "u64 \<Rightarrow> u64 list \<Rightarrow> u64 list" where
  "deltas_from prev [] = []"
| "deltas_from prev (r # rs) = (r - prev) # deltas_from r rs"

lemma rd_deltas_put: "rd_uvarints (length rs) (put_deltas prev rs @ r) = Inr (deltas_from prev rs, r)"
  by (induction rs arbitrary: prev) simp_all

lemma add_deltas_from [simp]: "add_deltas prev (deltas_from prev rs) = rs"
  by (induction rs arbitrary: prev) simp_all

lemma rd_value_put [simp]: "storable v \<Longrightarrow> rd_value (putValue [] v @ r) = Inr (v, r)"
  by (simp add: rd_value_def getValue_putValue seg_res_def)

text \<open>The arrays of a segment are as long as its entry count.\<close>

definition seg_ok :: "Segment \<Rightarrow> bool" where
  "seg_ok s \<longleftrightarrow> length (seg_rids s) = seg_n s \<and> length (seg_write s) = seg_n s \<and> length (seg_del s) = seg_n s
     \<and> seg_n s < 2 ^ 62 \<and> length (seg_Field s) < 2 ^ 62 \<and> length (seg_enc s) < 2 ^ 62
     \<and> storable (seg_zoneMin s) \<and> storable (seg_zoneMax s)"

text \<open>A segment survives serialization: its field, record identifiers, version stamps, zone map
  and encoded column are read back as they were. (A segment without a zone map reads back with the
  zero bounds.)\<close>

theorem UnmarshalSegment_MarshalBinary:
  assumes "seg_ok s"
  shows "UnmarshalSegment (MarshalBinary s) =
    Inr (if seg_hasZone s then s else s\<lparr>seg_zoneMin := zero_Value 0, seg_zoneMax := zero_Value 0\<rparr>)"
proof -
  have ok: "length (seg_rids s) = seg_n s" "length (seg_write s) = seg_n s" "length (seg_del s) = seg_n s"
    "length (seg_Field s) < 2 ^ 63" "length (seg_enc s) < 2 ^ 63" "storable (seg_zoneMin s)" "storable (seg_zoneMax s)"
    and n: "sint (of_nat (seg_n s) :: u64) = int (seg_n s)"
    using assms by (auto simp: seg_ok_def sint_of_nat_u64)
  have arr: "rd_uvarints (seg_n s) (put_deltas (seg_FirstRID s) (seg_rids s) @ r) = Inr (deltas_from (seg_FirstRID s) (seg_rids s), r)"
    "rd_uvarints (seg_n s) (put_uvarints (seg_write s) @ r) = Inr (seg_write s, r)"
    "rd_uvarints (seg_n s) (put_uvarints (seg_del s) @ r) = Inr (seg_del s, r)" for r
    using rd_deltas_put[of "seg_rids s"] rd_uvarints_put[of "seg_write s"] rd_uvarints_put[of "seg_del s"] ok(1-3) by simp_all
  have e: "rd_block (AppendUvarint (of_nat (length (seg_enc s))) @ seg_enc s) = Inr (seg_enc s, [])"
    using rd_block_put[of "seg_enc s" "[]"] ok(5) by simp
  have z: "rd_zone ((if seg_hasZone s then putValue (putValue [1] (seg_zoneMin s)) (seg_zoneMax s) else [0]) @ r)
      = Inr (if seg_hasZone s then Some (seg_zoneMin s, seg_zoneMax s) else None, r)" for r
    using ok(6,7) putValue_append[of "[1]"] putValue_append[of "putValue [1] (seg_zoneMin s)" "seg_zoneMax s"]
    by (simp add: rd_zone_def)
  show ?thesis
    unfolding UnmarshalSegment_def MarshalBinary_def
    using ok(4) by (simp add: n arr z e)
qed


theorem UnmarshalSegment_MarshalBinary_witness:
  "let s = buildSegment [97] [(zero_Value KindString)\<lparr>cv_S := [104]\<rparr>, (zero_Value KindString)\<lparr>cv_S := [105]\<rparr>] [10, 11] [1, 1] [0, 4]
   in UnmarshalSegment (MarshalBinary s) = Inr s"
proof -
  let ?s = "buildSegment [97] [(zero_Value KindString)\<lparr>cv_S := [104]\<rparr>, (zero_Value KindString)\<lparr>cv_S := [105]\<rparr>] [10, 11] [1, 1] [0, 4]"
  have f: "seg_hasZone ?s" "length (seg_enc ?s) < 100" "seg_n ?s = 2" "seg_Field ?s = [97]" "length (seg_rids ?s) = 2"
    "length (seg_write ?s) = 2" "length (seg_del ?s) = 2" "col_ok (seg_zoneMin ?s)" "col_ok (seg_zoneMax ?s)"
    "cv_S (seg_zoneMin ?s) = [104]" "cv_S (seg_zoneMax ?s) = [105]"
    by code_simp+
  then have "seg_ok ?s" by (simp add: seg_ok_def storable_def)
  then show ?thesis using UnmarshalSegment_MarshalBinary[of ?s] f(1) by (simp only: Let_def if_True)
qed

section \<open>Zone maps\<close>

definition not_nan :: "col_Value \<Rightarrow> bool" where
  "not_nan v \<longleftrightarrow> \<not> (cv_Kind v = KindFloat \<and> f64_nan (cv_F v))"

lemma AsFloat_not_nan: "not_nan v \<Longrightarrow> AsFloat v = Some f \<Longrightarrow> \<not> f64_nan f"
proof -
  have "\<bar>sint (cv_I v)\<bar> < 2 ^ 64" using sint_range_size[of "cv_I v"] by (auto simp: word_size)
  then show "not_nan v \<Longrightarrow> AsFloat v = Some f \<Longrightarrow> \<not> f64_nan f"
    using f64_of_int_not_nan by (auto simp: AsFloat_def not_nan_def kind_defs split: if_splits)
qed

text \<open>Without NaN the comparison is that of exact values within the family of numbers, and of bytes
  within the family of strings.\<close>

definition same_family :: "col_Value \<Rightarrow> col_Value \<Rightarrow> bool" where
  "same_family a b \<longleftrightarrow> (AsFloat a = None \<longleftrightarrow> AsFloat b = None) \<and> (cv_Kind a = KindString \<longleftrightarrow> cv_Kind b = KindString)"

definition below :: "col_Value \<Rightarrow> col_Value \<Rightarrow> bool" where
  "below a b \<longleftrightarrow> (\<forall>f h. AsFloat a = Some f \<longrightarrow> AsFloat b = Some h \<longrightarrow> f64_val f \<le> f64_val h)
     \<and> (cv_Kind a = KindString \<longrightarrow> cv_Kind b = KindString \<longrightarrow> bytes_cmp (cv_S a) (cv_S b) \<le> 0)"

lemma bytes_cmp_self [simp]: "bytes_cmp a a = 0"
  by simp

lemma below_refl [simp]: "below a a" "same_family a a"
  by (simp_all add: below_def same_family_def)

lemma below_trans: "below a b \<Longrightarrow> below b c \<Longrightarrow> same_family a b \<or> same_family b c \<Longrightarrow> below a c"
proof -
  assume ab: "below a b" and bc: "below b c" and f: "same_family a b \<or> same_family b c"
  have "f64_val x \<le> f64_val y" if "AsFloat a = Some x" "AsFloat c = Some y" for x y
  proof -
    have "AsFloat b \<noteq> None" using f that by (auto simp: same_family_def)
    then obtain z where z: "AsFloat b = Some z" by blast
    have "f64_val x \<le> f64_val z" "f64_val z \<le> f64_val y" using ab bc that z by (auto simp: below_def)
    then show ?thesis by simp
  qed
  moreover have "bytes_cmp (cv_S a) (cv_S c) \<le> 0" if "cv_Kind a = KindString" "cv_Kind c = KindString"
  proof -
    have "cv_Kind b = KindString" using f that by (auto simp: same_family_def)
    then have "bytes_cmp (cv_S a) (cv_S b) \<le> 0" "bytes_cmp (cv_S b) (cv_S c) \<le> 0" using ab bc that by (auto simp: below_def)
    then show ?thesis by (rule bytes_cmp_le_trans)
  qed
  ultimately show "below a c" by (simp add: below_def)
qed

lemma same_family_trans: "same_family a b \<Longrightarrow> same_family b c \<Longrightarrow> same_family a c"
  by (simp add: same_family_def)

lemma string_not_numeric: "cv_Kind a = KindString \<Longrightarrow> AsFloat a = None"
  by (simp add: AsFloat_def kind_defs)

text \<open>One step of the running maximum (and, with the sign turned, minimum).\<close>

lemma zone_max_step:
  assumes "not_nan v" "not_nan mx"
  defines "mx' \<equiv> case compareNumericOrString v mx of Some c \<Rightarrow> if c > 0 then v else mx | None \<Rightarrow> mx"
  shows "same_family mx' mx" "below mx mx'" "below v mx'" "mx' \<in> {v, mx}"
  using AsFloat_not_nan[OF assms(1)] AsFloat_not_nan[OF assms(2)] bytes_cmp_swap[of "cv_S v" "cv_S mx"]
  unfolding mx'_def
  by (auto simp: compareNumericOrString_def same_family_def below_def f64_lt_def string_not_numeric split: option.splits)

lemma zone_min_step:
  assumes "not_nan v" "not_nan mn"
  defines "mn' \<equiv> case compareNumericOrString v mn of Some c \<Rightarrow> if c < 0 then v else mn | None \<Rightarrow> mn"
  shows "same_family mn' mn" "below mn' mn" "below mn' v" "mn' \<in> {v, mn}"
  using AsFloat_not_nan[OF assms(1)] AsFloat_not_nan[OF assms(2)] bytes_cmp_swap[of "cv_S v" "cv_S mn"]
  unfolding mn'_def
  by (auto simp: compareNumericOrString_def same_family_def below_def f64_lt_def string_not_numeric split: option.splits)

lemma zone_loop_bounds:
  assumes "zone_loop vs (Some (mn, mx)) = (True, Some (mn', mx'))" and "\<forall>v \<in> set vs. not_nan v" and "not_nan mn" "not_nan mx"
  shows "same_family mx' mx \<and> same_family mn' mn \<and> below mx mx' \<and> below mn' mn \<and> not_nan mn' \<and> not_nan mx'
    \<and> {mn', mx'} \<subseteq> {mn, mx} \<union> set vs
    \<and> (\<forall>v \<in> set vs. cv_Kind v \<noteq> KindNull \<longrightarrow> below v mx' \<and> below mn' v)"
  using assms
proof (induction vs arbitrary: mn mx)
  case (Cons v vs)
  show ?case
  proof (cases "cv_Kind v = KindNull")
    case True
    then show ?thesis using Cons.IH[of mn mx] Cons.prems by auto
  next
    case False
    define mx1 where "mx1 = (case compareNumericOrString v mx of Some c \<Rightarrow> if c > 0 then v else mx | None \<Rightarrow> mx)"
    define mn1 where "mn1 = (case compareNumericOrString v mn of Some c \<Rightarrow> if c < 0 then v else mn | None \<Rightarrow> mn)"
    have nv: "not_nan v" using Cons.prems by simp
    note x = zone_max_step[OF nv Cons.prems(4), folded mx1_def] and n = zone_min_step[OF nv Cons.prems(3), folded mn1_def]
    have r: "zone_loop vs (Some (mn1, mx1)) = (True, Some (mn', mx'))"
      using Cons.prems(1) False by (simp add: mn1_def mx1_def split: if_splits)
    have nn: "not_nan mn1" "not_nan mx1" using x(4) n(4) nv Cons.prems by auto
    note ih = Cons.IH[OF r _ nn]
    have ih': "same_family mx' mx1" "same_family mn' mn1" "below mx1 mx'" "below mn' mn1" "not_nan mn'" "not_nan mx'"
      "{mn', mx'} \<subseteq> {mn1, mx1} \<union> set vs" "\<forall>v \<in> set vs. cv_Kind v \<noteq> KindNull \<longrightarrow> below v mx' \<and> below mn' v"
      using ih Cons.prems(2) by auto
    have sx: "same_family mx1 mx'" "same_family mn1 mn'" "same_family mx1 mx" "same_family mn1 mn"
      using ih'(1,2) x(1) n(1) by (auto simp: same_family_def)
    have "below mx mx'" "below mn' mn" "below v mx'" "below mn' v"
      using below_trans[OF x(2) ih'(3)] below_trans[OF ih'(4) n(2)] below_trans[OF x(3) ih'(3)] below_trans[OF ih'(4) n(3)]
        sx ih'(1,2) by blast+
    moreover have "same_family mx' mx" "same_family mn' mn"
      using same_family_trans[OF ih'(1) x(1)] same_family_trans[OF ih'(2) n(1)] by auto
    ultimately show ?thesis using ih' x(4) n(4) by auto
  qed
qed simp

text \<open>The zone of a built segment encloses its non-null values.\<close>

lemma zone_loop_None:
  assumes "zone_loop vs None = (True, z)" and "\<forall>v \<in> set vs. not_nan v"
  shows "\<exists>mn mx. z = Some (mn, mx) \<and> not_nan mn \<and> not_nan mx
    \<and> (\<forall>v \<in> set vs. cv_Kind v \<noteq> KindNull \<longrightarrow> below v mx \<and> below mn v)"
  using assms
proof (induction vs)
  case (Cons v vs)
  show ?case
  proof (cases "cv_Kind v = KindNull")
    case False
    then have r: "zone_loop vs (Some (v, v)) = (True, z)" using Cons.prems(1) by (simp split: if_splits)
    have "z \<noteq> None"
    proof -
      have "snd (zone_loop vs (Some y)) \<noteq> None" for y
        by (induction vs arbitrary: y) (auto split: option.splits)
      then show ?thesis using r by (metis snd_conv)
    qed
    then obtain mn mx where "z = Some (mn, mx)" by fastforce
    then show ?thesis using zone_loop_bounds[of vs v v mn mx] r Cons.prems(2) by auto
  qed (use Cons in auto)
qed simp

lemma buildSegment_zone:
  "seg_hasZone (buildSegment field vals rids write del) \<longleftrightarrow> fst (zone_loop vals None)"
  "snd (zone_loop vals None) = Some (mn, mx) \<Longrightarrow>
    seg_zoneMin (buildSegment field vals rids write del) = mn \<and> seg_zoneMax (buildSegment field vals rids write del) = mx"
  by (auto simp: buildSegment_def computeZone_def split: prod.splits option.splits)


text \<open>What the comparison with the bound says about a value below or above the zone's end.\<close>

lemma compare_below:
  assumes "below v w" and "not_nan v" "not_nan w" and "compareNumericOrString v b = Some c" and "compareNumericOrString w b = Some d"
  shows "d \<le> 0 \<Longrightarrow> c \<le> 0" and "d < 0 \<Longrightarrow> c < 0" and "0 \<le> c \<Longrightarrow> 0 \<le> d" and "0 < c \<Longrightarrow> 0 < d"
proof -
  have "(d \<le> 0 \<longrightarrow> c \<le> 0) \<and> (d < 0 \<longrightarrow> c < 0) \<and> (0 \<le> c \<longrightarrow> 0 \<le> d) \<and> (0 < c \<longrightarrow> 0 < d)"
  proof (cases "AsFloat v")
    case (Some f)
    then obtain g h where g: "AsFloat b = Some g" "AsFloat w = Some h"
      using assms(4,5) by (auto simp: compareNumericOrString_def string_not_numeric split: option.splits if_splits)
    then have "f64_val f \<le> f64_val h" "\<not> f64_nan f" "\<not> f64_nan h"
      using assms(1) Some AsFloat_not_nan[OF assms(2)] AsFloat_not_nan[OF assms(3)] by (auto simp: below_def)
    then show ?thesis using assms(4,5) Some g by (auto simp: compareNumericOrString_def f64_lt_def split: if_splits)
  next
    case None
    then have s: "cv_Kind v = KindString" "cv_Kind b = KindString" "c = bytes_cmp (cv_S v) (cv_S b)"
      using assms(4) by (auto simp: compareNumericOrString_def split: if_splits)
    then have w: "cv_Kind w = KindString" "d = bytes_cmp (cv_S w) (cv_S b)"
      using assms(5) string_not_numeric[OF s(2)] by (auto simp: compareNumericOrString_def split: option.splits if_splits)
    have "bytes_cmp (cv_S v) (cv_S w) \<le> 0" using assms(1) s w by (simp add: below_def)
    then have "d \<le> 0 \<Longrightarrow> c \<le> 0" "d < 0 \<Longrightarrow> c < 0"
      unfolding s(3) w(2) using bytes_cmp_le_trans byte_cmp.cmp_le_less_trans by blast+
    then show ?thesis by (meson not_le)
  qed
  then show "d \<le> 0 \<Longrightarrow> c \<le> 0" and "d < 0 \<Longrightarrow> c < 0" and "0 \<le> c \<Longrightarrow> 0 \<le> d" and "0 < c \<Longrightarrow> 0 < d" by auto
qed

lemma skip_sound:
  assumes nan: "\<forall>v \<in> set vals. not_nan v" and sk: "skipForRange (buildSegment field vals rids write del) (rp_Op p) (rp_Bound p)"
    and v: "v \<in> set vals"
  shows "\<not> rp_matches p v"
proof
  assume m: "rp_matches p v"
  have "seg_hasZone (buildSegment field vals rids write del)" using sk unfolding skipForRange_def by (rule contrapos_pp) simp
  then obtain z where z: "zone_loop vals None = (True, z)" unfolding buildSegment_zone by (metis prod.exhaust_sel)
  obtain mn mx where b: "z = Some (mn, mx)" "not_nan mn" "not_nan mx"
    "\<forall>v \<in> set vals. cv_Kind v \<noteq> KindNull \<longrightarrow> below v mx \<and> below mn v"
    using zone_loop_None[OF z nan] by blast
  have zz: "seg_zoneMin (buildSegment field vals rids write del) = mn" "seg_zoneMax (buildSegment field vals rids write del) = mx"
    using buildSegment_zone(2)[of vals mn mx] z b(1) by auto
  obtain c where c: "compareNumericOrString v (rp_Bound p) = Some c" using m by (auto simp: rp_matches_def split: option.splits)
  then have "cv_Kind v \<noteq> KindNull" by (auto simp: compareNumericOrString_def AsFloat_def kind_defs split: option.splits if_splits)
  then have bl: "below v mx" "below mn v" using b(4) v by auto
  have nv: "not_nan v" using nan v by simp
  show False
    using sk m c compare_below[OF bl(1) nv b(3) c] compare_below[OF bl(2) b(2) nv _ c]
    by (fastforce simp: skipForRange_def rp_matches_def zz split: if_splits option.splits)
qed

text \<open>C29. Zone-map pruning is sound on columns without NaN: a segment that a range predicate skips has
  no value that satisfies the predicate, whatever the bound and the mix of numbers and strings.\<close>

theorem skipForRange_sound:
  assumes "\<forall>v \<in> set vals. not_nan v" and "skipForRange (buildSegment field vals rids write del) (rp_Op p) (rp_Bound p)"
  shows "filter (rp_matches p) vals = []"
  using skip_sound[OF assms] by (auto simp: filter_empty_conv)

theorem skipForRange_sound_witness:
  "filter (rp_matches \<lparr>rp_Field = [97], rp_Op = str ''$gt'', rp_Bound = (zero_Value KindString)\<lparr>cv_S := [120]\<rparr>\<rparr>)
     [(zero_Value KindString)\<lparr>cv_S := [104]\<rparr>, NullValue, (zero_Value KindString)\<lparr>cv_S := [105]\<rparr>] = []"
proof -
  let ?vals = "[(zero_Value KindString)\<lparr>cv_S := [104]\<rparr>, NullValue, (zero_Value KindString)\<lparr>cv_S := [105]\<rparr>]"
  have "\<forall>v \<in> set ?vals. not_nan v" by code_simp
  moreover have "skipForRange (buildSegment [97] ?vals [1, 2, 3] [1, 1, 1] [0, 0, 0]) (str ''$gt'') ((zero_Value KindString)\<lparr>cv_S := [120]\<rparr>)"
    by code_simp
  ultimately show ?thesis
    using skipForRange_sound[of ?vals "[97]" "[1, 2, 3]" "[1, 1, 1]" "[0, 0, 0]"
        "\<lparr>rp_Field = [97], rp_Op = str ''$gt'', rp_Bound = (zero_Value KindString)\<lparr>cv_S := [120]\<rparr>\<rparr>"] by simp
qed

text \<open>With a NaN first the zone map never moves, and a matching value is pruned.\<close>

lemma skipForRange_nan_unsound:
  "let nan = (zero_Value KindFloat)\<lparr>cv_F := 0x7FF8000000000001\<rparr>; one = (zero_Value KindFloat)\<lparr>cv_F := 0x3FF0000000000000\<rparr>;
       zero = zero_Value KindFloat
   in skipForRange (buildSegment [97] [nan, one] [1, 2] [1, 1] [0, 0]) (str ''$gt'') zero
     \<and> rp_matches \<lparr>rp_Field = [97], rp_Op = str ''$gt'', rp_Bound = zero\<rparr> one"
proof -
  have n: "f64_nan 0x7FF8000000000001" and "\<not> f64_nan 0" "\<not> f64_nan 0x3FF0000000000000"
    by (simp_all add: f64_nan_def f64_exp_def f64_man_def f64_body_def)
  moreover have "f64_val 0 < f64_val 0x3FF0000000000000"
    by (simp add: f64_val_def f64_sign_def f64_body_def mag_of_body_def)
  ultimately have l: "f64_lt 0 0x3FF0000000000000" "\<not> f64_lt 0x3FF0000000000000 0" by (simp_all add: f64_lt_def)
  have "\<not> f64_lt 0x7FF8000000000001 x" "\<not> f64_lt x 0x7FF8000000000001" for x using n by (simp_all add: f64_lt_def)
  then show ?thesis
    by (simp add: skipForRange_def buildSegment_def computeZone_def compareNumericOrString_def comparableForZone_def AsFloat_def
        rp_matches_def kind_defs l str_def)
qed

end
