(* ===== verification/Sort_Search.thy ===== *)
theory Sort_Search
  imports Main
begin

text \<open>
  Go's \<^verbatim>\<open>sort.Search\<close>: the binary search every sorted structure of the program uses. On a
  predicate that stays true once it is true it returns the first index where it holds.
\<close>

function search_loop :: "nat \<Rightarrow> nat \<Rightarrow> (nat \<Rightarrow> bool) \<Rightarrow> nat" where
  "search_loop i j f =
     (if i < j then let h = (i + j) div 2 in if f h then search_loop i h f else search_loop (h + 1) j f else i)"
  by pat_completeness auto
termination
  by (relation "measure (\<lambda>(i, j, f). j - i)") auto

declare search_loop.simps [simp del]

definition sort_Search :: "nat \<Rightarrow> (nat \<Rightarrow> bool) \<Rightarrow> nat" where
  "sort_Search n f = search_loop 0 n f"

definition stays_true :: "nat \<Rightarrow> (nat \<Rightarrow> bool) \<Rightarrow> bool" where
  "stays_true n f \<longleftrightarrow> (\<forall>a b. a \<le> b \<longrightarrow> b < n \<longrightarrow> f a \<longrightarrow> f b)"

lemma search_loop_least:
  assumes st: "stays_true n f"
    and "i \<le> j" and "j \<le> n" and "\<And>a. a < i \<Longrightarrow> \<not> f a" and "\<And>a. j \<le> a \<Longrightarrow> a < n \<Longrightarrow> f a"
  shows "search_loop i j f \<le> n \<and> (\<forall>a < search_loop i j f. \<not> f a) \<and> (\<forall>a. search_loop i j f \<le> a \<longrightarrow> a < n \<longrightarrow> f a)"
  using assms(2-)
proof (induction "j - i" arbitrary: i j rule: less_induct)
  case less
  have mono: "f b" if "a \<le> b" "b < n" "f a" for a b using st that by (auto simp: stays_true_def)
  show ?case
  proof (cases "i < j")
    case True
    let ?h = "(i + j) div 2"
    have h: "i \<le> ?h" "?h < j" "?h < n" using True less.prems(2) by auto
    show ?thesis
    proof (cases "f ?h")
      case f: True
      have "search_loop i ?h f \<le> n \<and> (\<forall>a < search_loop i ?h f. \<not> f a) \<and> (\<forall>a. search_loop i ?h f \<le> a \<longrightarrow> a < n \<longrightarrow> f a)"
        using h mono[OF _ _ f] less.prems by (intro less.hyps) auto
      then show ?thesis using True f by (subst (1 2 3) search_loop.simps) (simp add: Let_def)
    next
      case f: False
      have lo: "\<not> f a" if "a < ?h + 1" for a
      proof
        assume "f a"
        then have "f ?h" using mono[of a ?h] that h(3) by simp
        then show False using f by simp
      qed
      have "search_loop (?h + 1) j f \<le> n \<and> (\<forall>a < search_loop (?h + 1) j f. \<not> f a)
          \<and> (\<forall>a. search_loop (?h + 1) j f \<le> a \<longrightarrow> a < n \<longrightarrow> f a)"
        using h lo less.prems by (intro less.hyps) auto
      then show ?thesis using True f by (subst (1 2 3) search_loop.simps) (simp add: Let_def)
    qed
  next
    case False
    then have "i = j" using less.prems(1) by simp
    then show ?thesis using less.prems False by (subst (1 2 3) search_loop.simps) auto
  qed
qed

lemma sort_Search_least:
  assumes "stays_true n f"
  shows "sort_Search n f \<le> n" and "a < sort_Search n f \<Longrightarrow> \<not> f a" and "sort_Search n f \<le> a \<Longrightarrow> a < n \<Longrightarrow> f a"
  using search_loop_least[OF assms, of 0 n] unfolding sort_Search_def by auto

lemma sort_Search_eqI:
  assumes "stays_true n f" and "k \<le> n" and "\<And>a. a < k \<Longrightarrow> \<not> f a" and "k < n \<Longrightarrow> f k"
  shows "sort_Search n f = k"
proof -
  note s = sort_Search_least[OF assms(1)]
  consider "sort_Search n f < k" | "sort_Search n f = k" | "k < sort_Search n f" by linarith
  then show ?thesis
  proof cases
    case 1
    then show ?thesis using s(3)[of "sort_Search n f"] assms(2,3) by auto
  next
    case 3
    then show ?thesis using s(1) s(2)[of k] assms(4) by auto
  qed
qed

end
