(* ===== verification/Colstore_Store.thy ===== *)
theory Colstore_Store
  imports Colstore_Segment Sort_Search
begin

text \<open>
  The column store of a collection (\<^verbatim>\<open>src/colstore/store.go\<close>, the scan of
  \<^verbatim>\<open>src/colstore/aggregate.go\<close> and \<^verbatim>\<open>Reconstruct\<close>): rows shredded into
  per-field segments behind an in-progress buffer, tombstones, and the snapshot scan with zone-map
  pruning. Every method runs under the store's mutex, so a method is one step. A Go map from field
  to slice is a function with the empty list for a missing key.
\<close>

section \<open>State\<close>

datatype Mode = ModeOff | ModeTransactional | ModeLazy

record segBound =
  sb_first :: u64
  sb_n :: nat

record col_Store =
  cs_mode :: Mode
  cs_fields :: "bytes list"
  cs_segs :: "bytes \<Rightarrow> Segment list"
  cs_bounds :: "segBound list"
  cs_bufVals :: "bytes \<Rightarrow> col_Value list"
  cs_bufRIDs :: "u64 list"
  cs_bufWrite :: "u64 list"
  cs_bufDel :: "u64 list"
  cs_live :: "bytes \<rightharpoonup> u64"
  cs_nextRID :: u64

definition New :: "Mode \<Rightarrow> bytes list \<Rightarrow> col_Store" where
  "New mode fs =
     \<lparr>cs_mode = mode, cs_fields = fs, cs_segs = (\<lambda>f. []), cs_bounds = [], cs_bufVals = (\<lambda>f. []), cs_bufRIDs = [],
      cs_bufWrite = [], cs_bufDel = [], cs_live = Map.empty, cs_nextRID = 0\<rparr>"

definition idKey :: "bytes \<Rightarrow> bytes" where
  "idKey doc = (case IDOf doc of None \<Rightarrow> [] | Some v \<Rightarrow> strictKey (FromRawValue v))"

section \<open>Maintenance\<close>

definition flushLocked :: "col_Store \<Rightarrow> col_Store" where
  "flushLocked s =
     (if cs_bufRIDs s = [] then s
      else
        let s1 = foldl (\<lambda>s f. s\<lparr>cs_segs := (cs_segs s)(f := cs_segs s f @
                   [buildSegment f (cs_bufVals s f) (cs_bufRIDs s) (cs_bufWrite s) (cs_bufDel s)]),
                   cs_bufVals := (cs_bufVals s)(f := [])\<rparr>) s (cs_fields s)
        in s1\<lparr>cs_bounds := cs_bounds s @ [\<lparr>sb_first = cs_bufRIDs s ! 0, sb_n = length (cs_bufRIDs s)\<rparr>],
             cs_bufRIDs := [], cs_bufWrite := [], cs_bufDel := []\<rparr>)"

definition insertLocked :: "col_Store \<Rightarrow> bytes \<Rightarrow> bytes \<Rightarrow> u64 \<Rightarrow> col_Store" where
  "insertLocked s key doc ver =
     (let rid = cs_nextRID s;
          s1 = foldl (\<lambda>s f. s\<lparr>cs_bufVals := (cs_bufVals s)(f := cs_bufVals s f @ [FromField doc f])\<rparr>)
                 (s\<lparr>cs_nextRID := rid + 1\<rparr>) (cs_fields s);
          s2 = s1\<lparr>cs_bufRIDs := cs_bufRIDs s @ [rid], cs_bufWrite := cs_bufWrite s @ [ver], cs_bufDel := cs_bufDel s @ [0],
                  cs_live := (if key \<noteq> [] then (cs_live s)(key \<mapsto> rid) else cs_live s)\<rparr>
      in if length (cs_bufRIDs s2) \<ge> SegmentSize then flushLocked s2 else s2)"

definition locateBound :: "col_Store \<Rightarrow> u64 \<Rightarrow> nat option" where
  "locateBound s rid =
     (let k = sort_Search (length (cs_bounds s)) (\<lambda>i. rid < sb_first (cs_bounds s ! i) + of_nat (sb_n (cs_bounds s ! i))) in
      if k < length (cs_bounds s) \<and> sb_first (cs_bounds s ! k) \<le> rid then Some k else None)"

text \<open>The mark on one delete column, if the entry is there and not deleted yet.\<close>

definition mark_deleted :: "u64 list \<Rightarrow> nat \<Rightarrow> u64 \<Rightarrow> u64 list" where
  "mark_deleted del off ver = (if off < length del \<and> del ! off = 0 then del[off := ver] else del)"

definition tombstoneLocked :: "col_Store \<Rightarrow> u64 \<Rightarrow> u64 \<Rightarrow> col_Store" where
  "tombstoneLocked s rid ver =
     (if cs_bufRIDs s \<noteq> [] \<and> cs_bufRIDs s ! 0 \<le> rid
      then s\<lparr>cs_bufDel := mark_deleted (cs_bufDel s) (unat (rid - cs_bufRIDs s ! 0)) ver\<rparr>
      else case locateBound s rid of
          None \<Rightarrow> s
        | Some k \<Rightarrow>
            let off = unat (rid - sb_first (cs_bounds s ! k)) in
            foldl (\<lambda>s f. s\<lparr>cs_segs := (cs_segs s)(f := (cs_segs s f)[k := (cs_segs s f ! k)
                \<lparr>seg_del := mark_deleted (seg_del (cs_segs s f ! k)) off ver\<rparr>])\<rparr>) s (cs_fields s))"

definition col_Insert :: "col_Store \<Rightarrow> bytes \<Rightarrow> u64 \<Rightarrow> col_Store" where
  "col_Insert s doc ver = insertLocked s (idKey doc) doc ver"

definition col_Update :: "col_Store \<Rightarrow> bytes \<Rightarrow> bytes \<Rightarrow> u64 \<Rightarrow> col_Store" where
  "col_Update s oldID newDoc ver =
     (let s1 = (case cs_live s (idKey oldID) of Some rid \<Rightarrow> tombstoneLocked s rid ver | None \<Rightarrow> s)
      in insertLocked s1 (idKey newDoc) newDoc ver)"

definition col_Delete :: "col_Store \<Rightarrow> bytes \<Rightarrow> u64 \<Rightarrow> col_Store" where
  "col_Delete s doc ver =
     (case cs_live s (idKey doc) of
        Some rid \<Rightarrow> let s1 = tombstoneLocked s rid ver in s1\<lparr>cs_live := (cs_live s1)(idKey doc := None)\<rparr>
      | None \<Rightarrow> s)"

definition col_Flush :: "col_Store \<Rightarrow> col_Store" where
  "col_Flush s = flushLocked s"

definition Rebuild :: "col_Store \<Rightarrow> bytes list \<Rightarrow> u64 \<Rightarrow> col_Store" where
  "Rebuild s docs ver =
     flushLocked (foldl (\<lambda>s d. insertLocked s (idKey d) d ver) (New (cs_mode s) (cs_fields s)) docs)"

definition SegmentCount :: "col_Store \<Rightarrow> nat" where
  "SegmentCount s = length (cs_bounds s)"

definition buf_visible :: "col_Store \<Rightarrow> nat \<Rightarrow> u64 \<Rightarrow> bool" where
  "buf_visible s i snap = (cs_bufWrite s ! i \<le> snap \<and> (cs_bufDel s ! i = 0 \<or> snap < cs_bufDel s ! i))"

definition RowCount :: "col_Store \<Rightarrow> u64 \<Rightarrow> nat" where
  "RowCount s snap =
     (if cs_fields s \<noteq> [] then sum_list (map (\<lambda>g. liveCount g snap) (cs_segs s (cs_fields s ! 0))) else 0)
     + length (filter (\<lambda>i. buf_visible s i snap) [0..<length (cs_bufRIDs s)])"

definition Covers :: "col_Store \<Rightarrow> bytes list \<Rightarrow> bool" where
  "Covers s nd = list_all (\<lambda>f. f \<in> set (cs_fields s)) nd"

section \<open>The scan\<close>

text \<open>The decoded column of field \<open>f\<close> in block \<open>k\<close>; the index expression panics on a field that is not
  projected.\<close>

definition column :: "col_Store \<Rightarrow> bytes \<Rightarrow> nat \<Rightarrow> col_Value list col_result" where
  "column s f k = (if k < length (cs_segs s f) then seg_Values (cs_segs s f ! k) else Inl ColPanic)"

fun columns :: "col_Store \<Rightarrow> bytes list \<Rightarrow> nat \<Rightarrow> col_Value list list col_result" where
  "columns s [] k = Inr []"
| "columns s (f # fs) k = bind_res (column s f k) (\<lambda>c. bind_res (columns s fs k) (\<lambda>cs. Inr (c # cs)))"

fun predColumn :: "col_Store \<Rightarrow> bytes \<Rightarrow> nat \<Rightarrow> bytes list \<Rightarrow> col_Value list list \<Rightarrow> col_Value list col_result" where
  "predColumn s field k (f # nd) (c # cols) = (if f = field then Inr c else predColumn s field k nd cols)"
| "predColumn s field k nd cols = column s field k"

definition row_at :: "col_Value list list \<Rightarrow> nat \<Rightarrow> col_Value list col_result" where
  "row_at cols i = (if list_all (\<lambda>c. i < length c) cols then Inr (map (\<lambda>c. c ! i) cols) else Inl ColPanic)"

text \<open>The rows of a block: \<open>keep\<close> is visibility and the predicate.\<close>

fun block_rows :: "(nat \<Rightarrow> bool) \<Rightarrow> col_Value list list \<Rightarrow> nat list \<Rightarrow> col_Value list list col_result" where
  "block_rows keep cols [] = Inr []"
| "block_rows keep cols (i # is) =
     (if keep i then bind_res (row_at cols i) (\<lambda>r. bind_res (block_rows keep cols is) (\<lambda>rs. Inr (r # rs)))
      else block_rows keep cols is)"

definition skipped :: "col_Store \<Rightarrow> RangePred option \<Rightarrow> nat \<Rightarrow> bool" where
  "skipped s pred k =
     (case pred of
        None \<Rightarrow> False
      | Some p \<Rightarrow> rp_Field p \<in> set (cs_fields s) \<and> skipForRange (cs_segs s (rp_Field p) ! k) (rp_Op p) (rp_Bound p))"

definition scan_block ::
  "col_Store \<Rightarrow> u64 \<Rightarrow> bytes list \<Rightarrow> RangePred option \<Rightarrow> nat \<Rightarrow> col_Value list list col_result" where
  "scan_block s snap nd pred k =
     bind_res (columns s nd k) (\<lambda>cols.
     let vis = cs_segs s (cs_fields s ! 0) ! k in
     case pred of
       None \<Rightarrow> block_rows (\<lambda>i. seg_visible vis i snap) cols [0..<seg_n vis]
     | Some p \<Rightarrow>
         bind_res (predColumn s (rp_Field p) k nd cols) (\<lambda>pc.
           block_rows (\<lambda>i. seg_visible vis i snap \<and> rp_matches p (pc ! i)) cols [0..<seg_n vis]))"

text \<open>The rows handed to the callback, and the error that ended the walk, if any.\<close>

fun scan_blocks ::
  "col_Store \<Rightarrow> u64 \<Rightarrow> bytes list \<Rightarrow> RangePred option \<Rightarrow> nat list \<Rightarrow> col_Value list list \<times> col_error option" where
  "scan_blocks s snap nd pred [] = ([], None)"
| "scan_blocks s snap nd pred (k # ks) =
     (if skipped s pred k then scan_blocks s snap nd pred ks
      else case scan_block s snap nd pred k of
          Inl e \<Rightarrow> ([], Some e)
        | Inr rows \<Rightarrow> let (rs, e) = scan_blocks s snap nd pred ks in (rows @ rs, e))"

definition scan_buffer :: "col_Store \<Rightarrow> u64 \<Rightarrow> bytes list \<Rightarrow> RangePred option \<Rightarrow> col_Value list list col_result" where
  "scan_buffer s snap nd pred =
     block_rows (\<lambda>i. buf_visible s i snap
         \<and> (case pred of None \<Rightarrow> True | Some p \<Rightarrow> rp_matches p (cs_bufVals s (rp_Field p) ! i)))
       (map (cs_bufVals s) nd) [0..<length (cs_bufRIDs s)]"

definition scan ::
  "col_Store \<Rightarrow> u64 \<Rightarrow> bytes list \<Rightarrow> RangePred option \<Rightarrow> col_Value list list \<times> col_error option" where
  "scan s snap nd pred =
     (if nd = [] then ([], None)
      else case scan_blocks s snap nd pred [0..<length (cs_bounds s)] of
          (rows, Some e) \<Rightarrow> (rows, Some e)
        | (rows, None) \<Rightarrow>
            (case scan_buffer s snap nd pred of
               Inl e \<Rightarrow> (rows, Some e)
             | Inr rs \<Rightarrow> (rows @ rs, None)))"

definition Reconstruct :: "col_Store \<Rightarrow> u64 \<Rightarrow> bytes list \<Rightarrow> RangePred option \<Rightarrow> bytes list" where
  "Reconstruct s snap fs pred =
     map (\<lambda>row. Build (foldl (\<lambda>b (f, v). if cv_Kind v = KindNull then b else AppendValue b f (ToRawValue v)) [] (zip fs row)))
       (fst (scan s snap fs pred))"


section \<open>The abstract store\<close>

text \<open>A store is the list of its rows in insertion order, with the row each document identity is live
  in.\<close>

record crow =
  r_doc :: bytes
  r_write :: u64
  r_del :: u64

record row_store =
  rs_rows :: "crow list"
  rs_live :: "bytes \<rightharpoonup> nat"

definition kill :: "u64 \<Rightarrow> crow \<Rightarrow> crow" where
  "kill ver r = (if r_del r = 0 then r\<lparr>r_del := ver\<rparr> else r)"

definition kill_row :: "crow list \<Rightarrow> nat \<Rightarrow> u64 \<Rightarrow> crow list" where
  "kill_row rows i ver = (if i < length rows then rows[i := kill ver (rows ! i)] else rows)"

definition row_insert :: "row_store \<Rightarrow> bytes \<Rightarrow> u64 \<Rightarrow> row_store" where
  "row_insert a doc ver =
     \<lparr>rs_rows = rs_rows a @ [\<lparr>r_doc = doc, r_write = ver, r_del = 0\<rparr>],
      rs_live = (if idKey doc \<noteq> [] then (rs_live a)(idKey doc \<mapsto> length (rs_rows a)) else rs_live a)\<rparr>"

datatype col_op = OpInsert bytes u64 | OpUpdate bytes bytes u64 | OpDelete bytes u64 | OpFlush

fun row_exec :: "row_store \<Rightarrow> col_op \<Rightarrow> row_store" where
  "row_exec a (OpInsert doc ver) = row_insert a doc ver"
| "row_exec a (OpUpdate old new ver) =
     row_insert (case rs_live a (idKey old) of Some i \<Rightarrow> a\<lparr>rs_rows := kill_row (rs_rows a) i ver\<rparr> | None \<Rightarrow> a) new ver"
| "row_exec a (OpDelete doc ver) =
     (case rs_live a (idKey doc) of
        Some i \<Rightarrow> a\<lparr>rs_rows := kill_row (rs_rows a) i ver, rs_live := (rs_live a)(idKey doc := None)\<rparr>
      | None \<Rightarrow> a)"
| "row_exec a OpFlush = a"

fun col_exec :: "col_Store \<Rightarrow> col_op \<Rightarrow> col_Store" where
  "col_exec s (OpInsert doc ver) = col_Insert s doc ver"
| "col_exec s (OpUpdate old new ver) = col_Update s old new ver"
| "col_exec s (OpDelete doc ver) = col_Delete s doc ver"
| "col_exec s OpFlush = col_Flush s"

definition rows_of :: "col_op list \<Rightarrow> crow list" where
  "rows_of ops = rs_rows (foldl row_exec \<lparr>rs_rows = [], rs_live = Map.empty\<rparr> ops)"

definition row_visible :: "crow \<Rightarrow> u64 \<Rightarrow> bool" where
  "row_visible r snap \<longleftrightarrow> r_write r \<le> snap \<and> (r_del r = 0 \<or> snap < r_del r)"

definition row_matches :: "RangePred option \<Rightarrow> crow \<Rightarrow> bool" where
  "row_matches pred r \<longleftrightarrow> (case pred of None \<Rightarrow> True | Some p \<Rightarrow> rp_matches p (FromField (r_doc r) (rp_Field p)))"

definition row_scan :: "crow list \<Rightarrow> u64 \<Rightarrow> bytes list \<Rightarrow> RangePred option \<Rightarrow> col_Value list list" where
  "row_scan rows snap nd pred =
     map (\<lambda>r. map (FromField (r_doc r)) nd) (filter (\<lambda>r. row_visible r snap \<and> row_matches pred r) rows)"

section \<open>Representation\<close>

definition start_of :: "crow list list \<Rightarrow> nat \<Rightarrow> nat" where
  "start_of blocks k = length (concat (take k blocks))"

definition vals_of :: "bytes \<Rightarrow> crow list \<Rightarrow> col_Value list" where
  "vals_of f rs = map (\<lambda>r. FromField (r_doc r) f) rs"

definition block_seg :: "bytes \<Rightarrow> nat \<Rightarrow> crow list \<Rightarrow> Segment" where
  "block_seg f i blk = buildSegment f (vals_of f blk) (map of_nat [i..<i + length blk]) (map r_write blk) (map r_del blk)"

definition segs_of :: "bytes \<Rightarrow> crow list list \<Rightarrow> Segment list" where
  "segs_of f blocks = map (\<lambda>k. block_seg f (start_of blocks k) (blocks ! k)) [0..<length blocks]"

definition bounds_of :: "crow list list \<Rightarrow> segBound list" where
  "bounds_of blocks = map (\<lambda>k. \<lparr>sb_first = of_nat (start_of blocks k), sb_n = length (blocks ! k)\<rparr>) [0..<length blocks]"

definition holds :: "col_Store \<Rightarrow> crow list list \<Rightarrow> crow list \<Rightarrow> (bytes \<rightharpoonup> nat) \<Rightarrow> bool" where
  "holds s blocks buf live \<longleftrightarrow> cs_fields s \<noteq> [] \<and> distinct (cs_fields s)
     \<and> (\<forall>f \<in> set (cs_fields s). cs_segs s f = segs_of f blocks \<and> cs_bufVals s f = vals_of f buf)
     \<and> cs_bounds s = bounds_of blocks
     \<and> cs_bufRIDs s = map of_nat [length (concat blocks)..<length (concat blocks) + length buf]
     \<and> cs_bufWrite s = map r_write buf \<and> cs_bufDel s = map r_del buf
     \<and> cs_live s = (\<lambda>k. map_option of_nat (live k)) \<and> (\<forall>k i. live k = Some i \<longrightarrow> i < length (concat blocks @ buf))
     \<and> cs_nextRID s = of_nat (length (concat blocks @ buf))"

lemma start_of_append: "k \<le> length blocks \<Longrightarrow> start_of (blocks @ [b]) k = start_of blocks k"
  by (simp add: start_of_def)

lemma segs_of_append: "segs_of f (blocks @ [b]) = segs_of f blocks @ [block_seg f (length (concat blocks)) b]"
  by (simp add: segs_of_def start_of_append nth_append) (simp add: start_of_def)

lemma bounds_of_append:
  "bounds_of (blocks @ [b]) = bounds_of blocks @ [\<lparr>sb_first = of_nat (length (concat blocks)), sb_n = length b\<rparr>]"
  by (simp add: bounds_of_def start_of_append nth_append) (simp add: start_of_def)

lemma New_holds: "fs \<noteq> [] \<Longrightarrow> distinct fs \<Longrightarrow> holds (New m fs) [] [] Map.empty"
  by (simp add: holds_def New_def segs_of_def vals_of_def bounds_of_def)

text \<open>The loops over the fields.\<close>

lemma flush_fields:
  assumes "distinct fs"
  defines "g \<equiv> \<lambda>s f. s\<lparr>cs_segs := (cs_segs s)(f := cs_segs s f @
       [buildSegment f (cs_bufVals s f) (cs_bufRIDs s) (cs_bufWrite s) (cs_bufDel s)]), cs_bufVals := (cs_bufVals s)(f := [])\<rparr>"
  shows "foldl g s fs = s\<lparr>cs_segs := (\<lambda>f. if f \<in> set fs then cs_segs s f @
       [buildSegment f (cs_bufVals s f) (cs_bufRIDs s) (cs_bufWrite s) (cs_bufDel s)] else cs_segs s f),
       cs_bufVals := (\<lambda>f. if f \<in> set fs then [] else cs_bufVals s f)\<rparr>"
  using assms(1)
proof (induction fs rule: rev_induct)
  case (snoc f fs)
  then show ?case by (auto simp: g_def fun_eq_iff intro!: arg_cong2[where f = "\<lambda>a b. s\<lparr>cs_segs := a, cs_bufVals := b\<rparr>"])
qed simp

lemma insert_fields:
  "distinct fs \<Longrightarrow> foldl (\<lambda>s f. s\<lparr>cs_bufVals := (cs_bufVals s)(f := cs_bufVals s f @ [FromField doc f])\<rparr>) s fs
    = s\<lparr>cs_bufVals := (\<lambda>f. if f \<in> set fs then cs_bufVals s f @ [FromField doc f] else cs_bufVals s f)\<rparr>"
proof (induction fs rule: rev_induct)
  case (snoc f fs)
  then show ?case by (auto simp: fun_eq_iff intro!: arg_cong[where f = "\<lambda>a. s\<lparr>cs_bufVals := a\<rparr>"])
qed simp

lemma tombstone_fields:
  "distinct fs \<Longrightarrow> foldl (\<lambda>s f. s\<lparr>cs_segs := (cs_segs s)(f := (cs_segs s f)[k := (cs_segs s f ! k)
       \<lparr>seg_del := mark_deleted (seg_del (cs_segs s f ! k)) off ver\<rparr>])\<rparr>) s fs
    = s\<lparr>cs_segs := (\<lambda>f. if f \<in> set fs then (cs_segs s f)[k := (cs_segs s f ! k)
       \<lparr>seg_del := mark_deleted (seg_del (cs_segs s f ! k)) off ver\<rparr>] else cs_segs s f)\<rparr>"
proof (induction fs rule: rev_induct)
  case (snoc f fs)
  then show ?case by (auto simp: fun_eq_iff intro!: arg_cong[where f = "\<lambda>a. s\<lparr>cs_segs := a\<rparr>"])
qed simp

lemma flush_holds:
  assumes "holds s blocks buf live"
  shows "\<exists>blocks' buf'. holds (flushLocked s) blocks' buf' live \<and> concat blocks' @ buf' = concat blocks @ buf"
proof (cases "buf = []")
  case True
  then show ?thesis using assms by (intro exI[of _ blocks] exI[of _ buf]) (simp add: flushLocked_def holds_def)
next
  case False
  have d: "distinct (cs_fields s)" using assms by (simp add: holds_def)
  have "cs_bufRIDs s \<noteq> []" "cs_bufRIDs s ! 0 = of_nat (length (concat blocks))" "length (cs_bufRIDs s) = length buf"
    using assms False by (simp_all add: holds_def)
  then have "holds (flushLocked s) (blocks @ [buf]) [] live"
    using assms unfolding flushLocked_def Let_def flush_fields[OF d]
    by (simp add: holds_def segs_of_append bounds_of_append block_seg_def vals_of_def)
  then show ?thesis by (intro exI[of _ "blocks @ [buf]"] exI[of _ "[]"]) simp
qed


lemma insert_holds:
  assumes h: "holds s blocks buf live"
  shows "\<exists>blocks' buf'. holds (insertLocked s key doc ver) blocks' buf'
      (if key \<noteq> [] then live(key \<mapsto> length (concat blocks @ buf)) else live)
    \<and> concat blocks' @ buf' = concat blocks @ buf @ [\<lparr>r_doc = doc, r_write = ver, r_del = 0\<rparr>]"
proof -
  let ?r = "\<lparr>r_doc = doc, r_write = ver, r_del = 0\<rparr>" let ?n = "length (concat blocks @ buf)"
  let ?live = "if key \<noteq> [] then live(key \<mapsto> ?n) else live"
  have d: "distinct (cs_fields s)" using h by (simp add: holds_def)
  let ?s = "(s\<lparr>cs_nextRID := cs_nextRID s + 1\<rparr>)
    \<lparr>cs_bufVals := (\<lambda>f. if f \<in> set (cs_fields s) then cs_bufVals s f @ [FromField doc f] else cs_bufVals s f),
     cs_bufRIDs := cs_bufRIDs s @ [cs_nextRID s], cs_bufWrite := cs_bufWrite s @ [ver], cs_bufDel := cs_bufDel s @ [0],
     cs_live := (if key \<noteq> [] then (cs_live s)(key \<mapsto> cs_nextRID s) else cs_live s)\<rparr>"
  have bv: "cs_bufVals (s\<lparr>cs_nextRID := cs_nextRID s + 1\<rparr>) = cs_bufVals s" by simp
  have e: "insertLocked s key doc ver = (if length (cs_bufRIDs ?s) \<ge> SegmentSize then flushLocked ?s else ?s)"
    unfolding insertLocked_def Let_def insert_fields[OF d] bv by simp
  have lv: "(\<forall>k i. ?live k = Some i \<longrightarrow> i < length (concat blocks @ buf @ [?r]))"
    using h unfolding holds_def by (auto simp: less_Suc_eq split: if_splits)
  have "holds ?s blocks (buf @ [?r]) ?live"
    using h lv unfolding holds_def by (auto simp: vals_of_def fun_eq_iff)
  then show ?thesis
    using flush_holds[of ?s blocks "buf @ [?r]" ?live] unfolding e by (auto split: if_splits)
qed

text \<open>The delete column is the only part of a segment a tombstone changes.\<close>

lemma mark_deleted_map:
  "off < length blk \<Longrightarrow> mark_deleted (map r_del blk) off ver = map r_del (blk[off := kill ver (blk ! off)])"
  by (simp add: mark_deleted_def kill_def map_update) (metis list_update_id map_update nth_map length_map)

lemma kill_simps [simp]: "r_doc (kill ver r) = r_doc r" "r_write (kill ver r) = r_write r"
  by (simp_all add: kill_def)

lemma buildSegment_del: "(buildSegment f v r w d)\<lparr>seg_del := d'\<rparr> = buildSegment f v r w d'"
  by (simp add: buildSegment_def computeZone_def split: prod.split option.split)

lemma seg_del_build: "seg_del (buildSegment f v r w d) = d"
  by (simp add: buildSegment_def computeZone_def split: prod.split option.split)

lemma block_seg_kill:
  assumes "off < length blk"
  shows "(block_seg f i blk)\<lparr>seg_del := mark_deleted (seg_del (block_seg f i blk)) off ver\<rparr>
    = block_seg f i (blk[off := kill ver (blk ! off)])"
proof -
  let ?b = "blk[off := kill ver (blk ! off)]"
  have "vals_of f ?b = vals_of f blk" "map r_write ?b = map r_write blk"
    using assms by (auto simp: vals_of_def map_update intro: list_update_same_conv[THEN iffD2])
  then show ?thesis unfolding block_seg_def seg_del_build buildSegment_del mark_deleted_map[OF assms] by simp
qed

lemma start_of_update:
  "k < length blocks \<Longrightarrow> length b = length (blocks ! k) \<Longrightarrow> start_of (blocks[k := b]) j = start_of blocks j"
  unfolding start_of_def length_concat by (simp add: take_map[symmetric] map_update) (metis list_update_id map_update nth_map)

lemma segs_of_update:
  assumes "k < length blocks" and "length b = length (blocks ! k)"
  shows "segs_of f (blocks[k := b]) = (segs_of f blocks)[k := block_seg f (start_of blocks k) b]"
  by (rule nth_equalityI) (use assms in \<open>auto simp: segs_of_def start_of_update nth_list_update\<close>)

lemma bounds_of_update: "k < length blocks \<Longrightarrow> length b = length (blocks ! k) \<Longrightarrow> bounds_of (blocks[k := b]) = bounds_of blocks"
  by (auto simp: bounds_of_def start_of_update nth_list_update)

lemma start_of_Suc: "k < length blocks \<Longrightarrow> start_of blocks (Suc k) = start_of blocks k + length (blocks ! k)"
  by (simp add: start_of_def take_Suc_conv_app_nth)

lemma start_of_mono: "j \<le> k \<Longrightarrow> start_of blocks j \<le> start_of blocks k"
proof -
  assume "j \<le> k"
  then have "take k blocks = take j blocks @ take (k - j) (drop j blocks)" by (metis le_add_diff_inverse take_add)
  then show ?thesis by (simp add: start_of_def)
qed

lemma start_of_le: "start_of blocks k \<le> length (concat blocks)"
  by (metis append_take_drop_id concat_append le_add1 length_append start_of_def)

lemma concat_update:
  assumes "k < length blocks" and "j < length (blocks ! k)"
  shows "(concat blocks)[start_of blocks k + j := x] = concat (blocks[k := (blocks ! k)[j := x]])"
    and "concat blocks ! (start_of blocks k + j) = blocks ! k ! j"
proof -
  have c: "concat blocks = concat (take k blocks) @ blocks ! k @ concat (drop (Suc k) blocks)"
    using assms(1) by (metis concat.simps(2) concat_append id_take_nth_drop)
  have u: "concat (blocks[k := b]) = concat (take k blocks) @ b @ concat (drop (Suc k) blocks)" for b
    using assms(1) by (simp add: upd_conv_take_nth_drop)
  show "(concat blocks)[start_of blocks k + j := x] = concat (blocks[k := (blocks ! k)[j := x]])"
    unfolding u c start_of_def using assms(2) by (simp add: list_update_append)
  show "concat blocks ! (start_of blocks k + j) = blocks ! k ! j"
    unfolding c start_of_def using assms(2) by (simp add: nth_append)
qed

lemma u64_nat_less: "a < 2 ^ 64 \<Longrightarrow> b < 2 ^ 64 \<Longrightarrow> (of_nat a :: u64) < of_nat b \<longleftrightarrow> a < b"
  by (simp add: word_less_nat_alt unat_of_nat_id)

lemma locateBound_finds:
  assumes b: "cs_bounds s = bounds_of blocks" and i: "i < length (concat blocks)" and n: "length (concat blocks) < 2 ^ 63"
  shows "\<exists>k. locateBound s (of_nat i) = Some k \<and> k < length blocks \<and> start_of blocks k \<le> i \<and> i < start_of blocks (Suc k)"
proof -
  let ?P = "\<lambda>k. i < start_of blocks (Suc k)" let ?N = "length blocks"
  let ?Q = "\<lambda>k. of_nat i < sb_first (cs_bounds s ! k) + of_nat (sb_n (cs_bounds s ! k))" let ?k = "sort_Search ?N ?Q"
  have lt: "start_of blocks k < 2 ^ 64" for k using start_of_le[of blocks k] n by simp
  have nth: "cs_bounds s ! k = \<lparr>sb_first = of_nat (start_of blocks k), sb_n = length (blocks ! k)\<rparr>" if "k < ?N" for k
    using that by (simp add: b bounds_of_def)
  have test: "?Q k \<longleftrightarrow> ?P k" if "k < ?N" for k
    using that u64_nat_less[of i "start_of blocks (Suc k)"] lt[of "Suc k"] i n by (simp add: nth start_of_Suc)
  have "?Q c" if "a \<le> c" "c < ?N" "?Q a" for a c
  proof -
    have "?P a" using test[of a] that by simp
    then have "?P c" using start_of_mono[of "Suc a" "Suc c" blocks] that(1) by simp
    then show ?thesis using test[OF that(2)] by simp
  qed
  then have "stays_true ?N ?Q" unfolding stays_true_def by blast
  note sr = sort_Search_least[OF this]
  have k: "?k < ?N"
  proof (rule ccontr)
    assume "\<not> ?k < ?N"
    moreover have N: "0 < ?N" using i by (cases blocks) auto
    ultimately have "?N - 1 < ?k" by linarith
    then have "\<not> ?Q (?N - 1)" by (rule sr(2))
    then show False using test[of "?N - 1"] N i by (simp add: start_of_def)
  qed
  have hi: "?P ?k" using sr(3)[OF order_refl k] unfolding test[OF k] .
  have lo: "start_of blocks ?k \<le> i"
  proof (cases "?k")
    case (Suc j)
    then have "\<not> ?Q j" by (intro sr(2)) simp
    then show ?thesis using test[of j] Suc k by simp
  qed (simp add: start_of_def)
  have "(of_nat (start_of blocks ?k) :: u64) \<le> of_nat i" using lo lt[of ?k] i n u64_nat_less[of i "start_of blocks ?k"] by (simp add: not_less[symmetric])
  then have "locateBound s (of_nat i) = Some ?k"
    using k nth[OF k] by (simp add: locateBound_def Let_def b bounds_of_def)
  then show ?thesis using k hi lo by blast
qed


lemma tombstone_holds:
  assumes h: "holds s blocks buf live" and i: "i < length (concat blocks @ buf)" and n: "length (concat blocks @ buf) < 2 ^ 63"
  shows "\<exists>blocks' buf'. holds (tombstoneLocked s (of_nat i) ver) blocks' buf' live
    \<and> concat blocks' @ buf' = kill_row (concat blocks @ buf) i ver"
proof (cases "i < length (concat blocks)")
  case False
  let ?n = "length (concat blocks)" let ?o = "i - length (concat blocks)"
  let ?buf = "buf[?o := kill ver (buf ! ?o)]"
  have o: "?o < length buf" using i False by auto
  have "cs_bufRIDs s = map of_nat [?n..<?n + length buf]" using h by (simp add: holds_def)
  moreover have "[?n..<?n + length buf] = ?n # [Suc ?n..<?n + length buf]" using o by (intro upt_conv_Cons) auto
  ultimately have r: "cs_bufRIDs s \<noteq> []" "cs_bufRIDs s ! 0 = of_nat ?n" by simp_all
  have le: "(of_nat ?n :: u64) \<le> of_nat i" using False n i u64_nat_less[of i ?n] by (simp add: not_less[symmetric])
  have "(of_nat i :: u64) - of_nat ?n = of_nat ?o" using False by (simp add: of_nat_diff)
  then have "unat ((of_nat i :: u64) - of_nat ?n) = ?o" using i n by (simp add: unat_of_nat_id)
  then have e: "tombstoneLocked s (of_nat i) ver = s\<lparr>cs_bufDel := map r_del ?buf\<rparr>"
    using r le h mark_deleted_map[OF o, of ver] by (simp add: tombstoneLocked_def holds_def)
  have "vals_of f ?buf = vals_of f buf" "map r_write ?buf = map r_write buf" for f
    using o by (auto simp: vals_of_def map_update intro: list_update_same_conv[THEN iffD2])
  then have "holds (s\<lparr>cs_bufDel := map r_del ?buf\<rparr>) blocks ?buf live" using h by (simp add: holds_def)
  moreover have "concat blocks @ ?buf = kill_row (concat blocks @ buf) i ver"
    using False i by (simp add: kill_row_def list_update_append nth_append)
  ultimately show ?thesis unfolding e by blast
next
  case True
  have b: "cs_bounds s = bounds_of blocks" using h by (simp add: holds_def)
  have "length (concat blocks) < 2 ^ 63" using n by simp
  then obtain k where k: "locateBound s (of_nat i) = Some k" "k < length blocks" "start_of blocks k \<le> i" "i < start_of blocks (Suc k)"
    using locateBound_finds[OF b True] by blast
  let ?o = "i - start_of blocks k"
  let ?blk = "(blocks ! k)[?o := kill ver (blocks ! k ! ?o)]"
  have o: "?o < length (blocks ! k)" using k(3,4) start_of_Suc[OF k(2)] by simp
  have "(of_nat i :: u64) - of_nat (start_of blocks k) = of_nat ?o" using k(3) by (simp add: of_nat_diff)
  then have u: "unat ((of_nat i :: u64) - sb_first (cs_bounds s ! k)) = ?o" using i n k(2) by (simp add: unat_of_nat_id b bounds_of_def)
  have nb: "\<not> (cs_bufRIDs s \<noteq> [] \<and> cs_bufRIDs s ! 0 \<le> of_nat i)"
    using h True n u64_nat_less[of i "length (concat blocks)"] by (auto simp: holds_def not_le)
  have d: "distinct (cs_fields s)" using h by (simp add: holds_def)
  have "segs_of f (blocks[k := ?blk]) = (segs_of f blocks)[k := (segs_of f blocks ! k)\<lparr>seg_del := mark_deleted (seg_del (segs_of f blocks ! k)) ?o ver\<rparr>]" for f
    using segs_of_update[OF k(2), of ?blk f] block_seg_kill[OF o] k(2) by (simp add: segs_of_def)
  note seg = this
  have e: "tombstoneLocked s (of_nat i) ver = s\<lparr>cs_segs := (\<lambda>f. if f \<in> set (cs_fields s) then (cs_segs s f)[k := (cs_segs s f ! k)
      \<lparr>seg_del := mark_deleted (seg_del (cs_segs s f ! k)) ?o ver\<rparr>] else cs_segs s f)\<rparr>"
    unfolding tombstoneLocked_def if_not_P[OF nb] by (simp only: k(1) option.case Let_def u tombstone_fields[OF d])
  have "length (concat (blocks[k := ?blk])) = length (concat blocks)"
    using start_of_update[OF k(2), of ?blk "length blocks"] by (simp add: start_of_def)
  then have "holds (tombstoneLocked s (of_nat i) ver) (blocks[k := ?blk]) buf live"
    using h seg bounds_of_update[OF k(2), of ?blk] unfolding e holds_def by simp
  moreover have "concat (blocks[k := ?blk]) @ buf = kill_row (concat blocks @ buf) i ver"
    using concat_update[OF k(2) o] k(3) True by (simp add: kill_row_def list_update_append nth_append)
  ultimately show ?thesis by blast
qed

section \<open>Refinement\<close>

definition represents :: "col_Store \<Rightarrow> row_store \<Rightarrow> bool" where
  "represents s a \<longleftrightarrow> (\<exists>blocks buf. holds s blocks buf (rs_live a) \<and> rs_rows a = concat blocks @ buf)"

lemma length_kill_row [simp]: "length (kill_row rows i ver) = length rows"
  by (simp add: kill_row_def)

lemma representsI: "holds s blocks buf (rs_live a) \<Longrightarrow> concat blocks @ buf = rs_rows a \<Longrightarrow> represents s a"
  unfolding represents_def by metis

lemma represents_insert:
  assumes "represents s a" shows "represents (insertLocked s (idKey doc) doc ver) (row_insert a doc ver)"
proof -
  obtain blocks buf where h: "holds s blocks buf (rs_live a)" and r: "rs_rows a = concat blocks @ buf"
    using assms by (auto simp: represents_def)
  from insert_holds[OF h, of "idKey doc" doc ver, folded r] obtain blocks' buf' where
    "holds (insertLocked s (idKey doc) doc ver) blocks' buf' (if idKey doc \<noteq> [] then (rs_live a)(idKey doc \<mapsto> length (rs_rows a)) else rs_live a)"
    "concat blocks' @ buf' = rs_rows a @ [\<lparr>r_doc = doc, r_write = ver, r_del = 0\<rparr>]" unfolding r by auto
  then show ?thesis by (intro representsI[of _ blocks' buf']) (simp_all add: row_insert_def)
qed

lemma represents_tombstone:
  assumes "represents s a" and "rs_live a k = Some i" and "length (rs_rows a) < 2 ^ 63"
  shows "cs_live s k = Some (of_nat i) \<and> represents (tombstoneLocked s (of_nat i) ver) (a\<lparr>rs_rows := kill_row (rs_rows a) i ver\<rparr>)"
proof -
  obtain blocks buf where h: "holds s blocks buf (rs_live a)" "rs_rows a = concat blocks @ buf"
    using assms(1) by (auto simp: represents_def)
  have i: "i < length (concat blocks @ buf)" and l: "cs_live s k = Some (of_nat i)" using h(1) assms(2) by (auto simp: holds_def)
  obtain blocks' buf' where "holds (tombstoneLocked s (of_nat i) ver) blocks' buf' (rs_live a)"
    "concat blocks' @ buf' = kill_row (rs_rows a) i ver"
    using tombstone_holds[OF h(1) i, of ver] assms(3) h(2) by auto
  then show ?thesis using l by (auto intro!: representsI)
qed

lemma represents_live_None: "represents s a \<Longrightarrow> rs_live a k = None \<Longrightarrow> cs_live s k = None"
  by (auto simp: represents_def holds_def)

lemma represents_flush: "represents s a \<Longrightarrow> represents (flushLocked s) a"
  unfolding represents_def using flush_holds by metis

lemma represents_unlive:
  assumes "represents s a"
  shows "represents (s\<lparr>cs_live := (cs_live s)(k := None)\<rparr>) (a\<lparr>rs_live := (rs_live a)(k := None)\<rparr>)"
proof -
  obtain blocks buf where h: "holds s blocks buf (rs_live a)" "rs_rows a = concat blocks @ buf"
    using assms by (auto simp: represents_def)
  show ?thesis by (rule representsI[of _ blocks buf]) (use h in \<open>auto simp: holds_def fun_eq_iff\<close>)
qed

lemma represents_exec:
  assumes r: "represents s a" and n: "length (rs_rows a) < 2 ^ 63"
  shows "represents (col_exec s op) (row_exec a op)"
proof (cases op)
  case (OpInsert doc ver)
  then show ?thesis using represents_insert[OF r] by (simp add: col_Insert_def)
next
  case (OpUpdate old new ver)
  then show ?thesis
    using represents_insert[OF r] represents_insert represents_tombstone[OF r _ n] represents_live_None[OF r]
    by (cases "rs_live a (idKey old)") (auto simp: col_Update_def Let_def)
next
  case (OpDelete doc ver)
  show ?thesis
  proof (cases "rs_live a (idKey doc)")
    case None
    then show ?thesis using OpDelete r represents_live_None[OF r] by (simp add: col_Delete_def)
  next
    case (Some i)
    from represents_tombstone[OF r Some n, of ver] show ?thesis
      using OpDelete Some represents_unlive[of "tombstoneLocked s (of_nat i) ver" "a\<lparr>rs_rows := kill_row (rs_rows a) i ver\<rparr>" "idKey doc"]
      by (simp add: col_Delete_def Let_def)
  qed
next
  case OpFlush
  then show ?thesis using represents_flush[OF r] by (simp add: col_Flush_def)
qed


section \<open>The scan reads the rows\<close>

lemma length_lookup: "lookup_loop r key off = Some v \<Longrightarrow> length (vdata v) \<le> length r"
proof (induction r key off rule: lookup_loop.induct)
  case (1 r key off)
  then show ?case
    by (subst (asm) (2) lookup_loop.simps) (auto simp: Let_def split: if_splits option.splits sum.splits)
qed

lemma FromField_storable: "length doc < 2 ^ 62 \<Longrightarrow> storable (FromField doc f)"
proof -
  assume d: "length doc < 2 ^ 62"
  have s: "length (StringValue v) \<le> length (vdata v)" for v
    by (auto simp: StringValue_def StringValueOK_def Let_def split: if_splits option.splits)
  have "length (cv_S (FromRawValue v)) \<le> length (vdata v)" for v
    using s[of v] by (simp add: FromRawValue_def NullValue_def)
  moreover have "Lookup doc f = Some v \<Longrightarrow> length (vdata v) \<le> length doc" for v
    by (auto simp: Lookup_def length_lookup split: if_splits)
  ultimately have "length (cv_S (FromField doc f)) \<le> length doc"
    by (auto simp: FromField_def NullValue_def split: option.split) (meson order_trans)
  then show ?thesis using d FromField_ok by (simp add: storable_def)
qed

lemma seg_build_fields:
  "seg_n (buildSegment f v r w d) = length v" "seg_enc (buildSegment f v r w d) = EncodeColumn v"
  "seg_write (buildSegment f v r w d) = w"
  by (simp_all add: buildSegment_def computeZone_def split: prod.split option.split)

lemma column_holds:
  assumes h: "holds s blocks buf live" and f: "f \<in> set (cs_fields s)" and k: "k < length blocks"
    and d: "\<forall>r \<in> set (blocks ! k). length (r_doc r) < 2 ^ 62" and n: "length (blocks ! k) < 2 ^ 62"
  shows "column s f k = Inr (vals_of f (blocks ! k))"
proof -
  have "cs_segs s f = segs_of f blocks" using h f by (simp add: holds_def)
  then have "k < length (cs_segs s f)" "seg_enc (cs_segs s f ! k) = EncodeColumn (vals_of f (blocks ! k))"
    using k by (simp_all add: segs_of_def block_seg_def seg_build_fields)
  then show ?thesis
    using column_roundtrip[of "vals_of f (blocks ! k)"] d n by (simp add: column_def seg_Values_def vals_of_def list_all_iff FromField_storable)
qed

lemma columns_Inr: "(\<And>f. f \<in> set nd \<Longrightarrow> column s f k = Inr (c f)) \<Longrightarrow> columns s nd k = Inr (map c nd)"
  by (induction nd) simp_all

lemma predColumn_Inr: "column s field k = Inr (c field) \<Longrightarrow> predColumn s field k nd (map c nd) = Inr (c field)"
  by (induction nd) simp_all

lemma block_rows_Inr:
  "\<forall>i \<in> set is. \<forall>c \<in> set cols. i < length c \<Longrightarrow> block_rows keep cols is = Inr (map (\<lambda>i. map (\<lambda>c. c ! i) cols) (filter keep is))"
  by (induction "is") (auto simp: row_at_def list_all_iff)

lemma filter_rows:
  "map (\<lambda>i. g (xs ! i)) (filter (\<lambda>i. P (xs ! i)) [0..<length xs]) = map g (filter P xs)"
proof -
  have "filter P xs = map ((!) xs) (filter (P \<circ> (!) xs) [0..<length xs])" by (metis filter_map map_nth)
  then show ?thesis by (simp add: comp_def)
qed

text \<open>Picking the rows of a list by index, column by column, is filtering it.\<close>

lemma block_rows_filter:
  assumes "\<And>i. i < length rs \<Longrightarrow> keep i \<longleftrightarrow> P (rs ! i)"
  shows "block_rows keep (map (\<lambda>f. vals_of f rs) nd) [0..<length rs] = Inr (map (\<lambda>r. map (FromField (r_doc r)) nd) (filter P rs))"
proof -
  have "block_rows keep (map (\<lambda>f. vals_of f rs) nd) [0..<length rs]
      = Inr (map (\<lambda>i. map (\<lambda>c. c ! i) (map (\<lambda>f. vals_of f rs) nd)) (filter keep [0..<length rs]))"
    by (rule block_rows_Inr) (simp add: vals_of_def)
  also have "filter keep [0..<length rs] = filter (\<lambda>i. P (rs ! i)) [0..<length rs]" using assms by (intro filter_cong) auto
  also have "map (\<lambda>i. map (\<lambda>c. c ! i) (map (\<lambda>f. vals_of f rs) nd)) (filter (\<lambda>i. P (rs ! i)) [0..<length rs])
      = map (\<lambda>i. map (FromField (r_doc (rs ! i))) nd) (filter (\<lambda>i. P (rs ! i)) [0..<length rs])"
    by (intro map_cong refl) (auto simp: vals_of_def)
  also have "\<dots> = map (\<lambda>r. map (FromField (r_doc r)) nd) (filter P rs)" by (rule filter_rows)
  finally show ?thesis .
qed

definition pred_ok :: "bytes list \<Rightarrow> RangePred option \<Rightarrow> crow list \<Rightarrow> bool" where
  "pred_ok fs pred rows \<longleftrightarrow> (case pred of None \<Rightarrow> True
     | Some p \<Rightarrow> rp_Field p \<in> set fs \<and> (\<forall>r \<in> set rows. not_nan (FromField (r_doc r) (rp_Field p))))"

lemma scan_block_holds:
  assumes h: "holds s blocks buf live" and nd: "set nd \<subseteq> set (cs_fields s)" and k: "k < length blocks"
    and d: "\<forall>r \<in> set (blocks ! k). length (r_doc r) < 2 ^ 62" and n: "length (blocks ! k) < 2 ^ 62"
    and p: "pred_ok (cs_fields s) pred (blocks ! k)"
  shows "scan_block s snap nd pred k = Inr (row_scan (blocks ! k) snap nd pred)"
    and "skipped s pred k \<Longrightarrow> row_scan (blocks ! k) snap nd pred = []"
proof -
  let ?b = "blocks ! k"
  have col: "column s f k = Inr (vals_of f ?b)" if "f \<in> set (cs_fields s)" for f using column_holds[OF h that k d n] .
  then have cols: "columns s nd k = Inr (map (\<lambda>f. vals_of f ?b) nd)" using nd by (intro columns_Inr) auto
  have "cs_fields s ! 0 \<in> set (cs_fields s)" using h by (simp add: holds_def)
  then have vis: "cs_segs s (cs_fields s ! 0) ! k = block_seg (cs_fields s ! 0) (start_of blocks k) ?b"
    using h k by (simp add: holds_def segs_of_def)
  have sv: "seg_visible (block_seg f i ?b) j snap \<longleftrightarrow> row_visible (?b ! j) snap" if "j < length ?b" for f i j
    using that by (auto simp: seg_visible_def block_seg_def seg_build_fields seg_del_build row_visible_def)
  have sn: "seg_n (block_seg f i ?b) = length ?b" for f i by (simp add: block_seg_def seg_build_fields vals_of_def)
  show "scan_block s snap nd pred k = Inr (row_scan ?b snap nd pred)"
  proof (cases pred)
    case None
    then show ?thesis
      unfolding scan_block_def cols by (simp add: vis sn row_scan_def row_matches_def) (subst block_rows_filter, auto simp: sv)
  next
    case (Some q)
    then have "rp_Field q \<in> set (cs_fields s)" using p by (simp add: pred_ok_def)
    then have pc: "predColumn s (rp_Field q) k nd (map (\<lambda>f. vals_of f ?b) nd) = Inr (vals_of (rp_Field q) ?b)"
      using col by (intro predColumn_Inr) simp
    show ?thesis
      unfolding scan_block_def cols
      by (simp add: Some vis sn pc row_scan_def row_matches_def) (subst block_rows_filter, auto simp: sv vals_of_def)
  qed
  assume sk: "skipped s pred k"
  then obtain q where q: "pred = Some q" "rp_Field q \<in> set (cs_fields s)"
      "skipForRange (cs_segs s (rp_Field q) ! k) (rp_Op q) (rp_Bound q)" by (auto simp: skipped_def split: option.splits)
  have "cs_segs s (rp_Field q) ! k = block_seg (rp_Field q) (start_of blocks k) ?b" using h k q(2) by (simp add: holds_def segs_of_def)
  moreover have "\<forall>v \<in> set (vals_of (rp_Field q) ?b). not_nan v" using p q(1) by (auto simp: pred_ok_def vals_of_def)
  ultimately have "\<not> rp_matches q v" if "v \<in> set (vals_of (rp_Field q) ?b)" for v
    using skip_sound[of "vals_of (rp_Field q) ?b"] q(3) that unfolding block_seg_def by metis
  then show "row_scan ?b snap nd pred = []" by (auto simp: row_scan_def row_matches_def q(1) vals_of_def filter_empty_conv)
qed

lemma row_scan_append: "row_scan (a @ b) snap nd pred = row_scan a snap nd pred @ row_scan b snap nd pred"
  by (simp add: row_scan_def)


lemma scan_blocks_holds:
  assumes h: "holds s blocks buf live" and nd: "set nd \<subseteq> set (cs_fields s)"
    and d: "\<forall>r \<in> set (concat blocks). length (r_doc r) < 2 ^ 62" and n: "length (concat blocks) < 2 ^ 62"
    and p: "pred_ok (cs_fields s) pred (concat blocks)" and "k \<le> length blocks"
  shows "scan_blocks s snap nd pred [k..<length blocks] = (row_scan (concat (drop k blocks)) snap nd pred, None)"
  using assms(6)
proof (induction "length blocks - k" arbitrary: k)
  case 0
  then show ?case by (simp add: row_scan_def)
next
  case (Suc m)
  then have k: "k < length blocks" by simp
  have mem: "blocks ! k \<in> set blocks" using k by simp
  have "length (blocks ! k) \<le> length (concat blocks)" using start_of_Suc[OF k] start_of_le[of blocks "Suc k"] by simp
  then have n': "length (blocks ! k) < 2 ^ 62" using n by simp
  have d': "\<forall>r \<in> set (blocks ! k). length (r_doc r) < 2 ^ 62" and p': "pred_ok (cs_fields s) pred (blocks ! k)"
    using d p mem by (auto simp: pred_ok_def split: option.splits)
  note sb = scan_block_holds[OF h nd k d' n' p', of snap]
  have ih: "scan_blocks s snap nd pred [Suc k..<length blocks] = (row_scan (concat (drop (Suc k) blocks)) snap nd pred, None)"
    using Suc.hyps(1)[of "Suc k"] Suc.hyps(2) k by simp
  have "[k..<length blocks] = k # [Suc k..<length blocks]" using k by (rule upt_conv_Cons)
  moreover have "concat (drop k blocks) = blocks ! k @ concat (drop (Suc k) blocks)" using k by (simp add: Cons_nth_drop_Suc[symmetric])
  ultimately show ?case using ih sb by (simp add: row_scan_append)
qed

lemma scan_holds:
  assumes h: "holds s blocks buf live" and nd: "set nd \<subseteq> set (cs_fields s)" "nd \<noteq> []"
    and d: "\<forall>r \<in> set (concat blocks @ buf). length (r_doc r) < 2 ^ 62" and n: "length (concat blocks @ buf) < 2 ^ 62"
    and p: "pred_ok (cs_fields s) pred (concat blocks @ buf)"
  shows "scan s snap nd pred = (row_scan (concat blocks @ buf) snap nd pred, None)"
proof -
  have b: "scan_blocks s snap nd pred [0..<length blocks] = (row_scan (concat blocks) snap nd pred, None)"
    using scan_blocks_holds[OF h nd(1), of pred 0 snap] d n p by (auto simp: pred_ok_def split: option.splits)
  have bv: "map (cs_bufVals s) nd = map (\<lambda>f. vals_of f buf) nd" "length (cs_bufRIDs s) = length buf" "length (cs_bounds s) = length blocks"
    using h nd(1) by (auto simp: holds_def bounds_of_def)
  have pf: "pred = Some q \<Longrightarrow> cs_bufVals s (rp_Field q) = vals_of (rp_Field q) buf" for q
    using h p by (auto simp: holds_def pred_ok_def)
  have "scan_buffer s snap nd pred = Inr (row_scan buf snap nd pred)"
    unfolding scan_buffer_def bv(1,2) row_scan_def
    by (rule block_rows_filter) (use h pf in \<open>auto simp: holds_def buf_visible_def row_visible_def row_matches_def vals_of_def split: option.splits\<close>)
  then show ?thesis using nd(2) b bv(3) by (simp add: scan_def row_scan_append)
qed

lemma foldl_fields: "(\<And>s x. cs_fields (g s x) = cs_fields s) \<Longrightarrow> cs_fields (foldl g s xs) = cs_fields s"
  by (induction xs arbitrary: s) simp_all

lemma flush_keeps_fields: "cs_fields (flushLocked s) = cs_fields s"
  by (simp add: flushLocked_def Let_def foldl_fields)

lemma insert_keeps_fields: "cs_fields (insertLocked s key doc ver) = cs_fields s"
  by (simp add: insertLocked_def Let_def foldl_fields flush_keeps_fields)

lemma tombstone_keeps_fields: "cs_fields (tombstoneLocked s rid ver) = cs_fields s"
  by (simp add: tombstoneLocked_def Let_def foldl_fields split: option.split)

lemma exec_fields: "cs_fields (col_exec s op) = cs_fields s"
  by (cases op) (simp_all add: col_Insert_def col_Update_def col_Delete_def col_Flush_def Let_def
      flush_keeps_fields insert_keeps_fields tombstone_keeps_fields split: option.split)

lemma row_exec_length: "length (rs_rows (row_exec a op)) \<le> Suc (length (rs_rows a))"
  by (cases op) (auto simp: row_insert_def split: option.split)

lemma represents_run:
  assumes "fs \<noteq> []" and "distinct fs" and "length ops < 2 ^ 62"
  shows "represents (foldl col_exec (New m fs) ops) (foldl row_exec \<lparr>rs_rows = [], rs_live = Map.empty\<rparr> ops)
    \<and> length (rs_rows (foldl row_exec \<lparr>rs_rows = [], rs_live = Map.empty\<rparr> ops)) \<le> length ops
    \<and> cs_fields (foldl col_exec (New m fs) ops) = fs"
  using assms(3)
proof (induction ops rule: rev_induct)
  case Nil
  show ?case using New_holds[OF assms(1,2), of m] by (auto simp: New_def intro!: representsI[of _ "[]" "[]"])
next
  case (snoc op ops)
  let ?a = "foldl row_exec \<lparr>rs_rows = [], rs_live = Map.empty\<rparr> ops" let ?s = "foldl col_exec (New m fs) ops"
  have ih: "represents ?s ?a" "length (rs_rows ?a) \<le> length ops" "cs_fields ?s = fs" using snoc by auto
  then have "represents (col_exec ?s op) (row_exec ?a op)" using snoc.prems by (intro represents_exec) auto
  then show ?case using ih row_exec_length[of ?a op] exec_fields[of ?s op] by simp
qed

text \<open>C18. The column store is a faithful projection of the rows. Let the columns be distinct and at least one,
  the projected fields (at least one) and the predicate's field among them, and let the predicate's column hold no NaN
  in any row. After any sequence of inserts, updates, deletes and flushes, a scan at any snapshot returns
  without error exactly the projected values of the rows visible at that snapshot that satisfy the range
  predicate, in insertion order, as if the store were the plain list of rows: shredding, compression,
  segment boundaries, tombstones in sealed segments and zone-map pruning are invisible. (Fewer than
  $2^{62}$ calls and documents shorter than $2^{62}$ bytes, so that no counter wraps.)\<close>

theorem scan_refines_rows:
  assumes "fs \<noteq> []" and "distinct fs" and "length ops < 2 ^ 62" and "\<forall>r \<in> set (rows_of ops). length (r_doc r) < 2 ^ 62"
    and "set nd \<subseteq> set fs" and "nd \<noteq> []" and "pred_ok fs pred (rows_of ops)"
  shows "scan (foldl col_exec (New m fs) ops) snap nd pred = (row_scan (rows_of ops) snap nd pred, None)"
proof -
  let ?a = "foldl row_exec \<lparr>rs_rows = [], rs_live = Map.empty\<rparr> ops"
  note r = represents_run[OF assms(1-3), of m]
  then obtain blocks buf where h: "holds (foldl col_exec (New m fs) ops) blocks buf (rs_live ?a)" "rs_rows ?a = concat blocks @ buf"
    unfolding represents_def by blast
  show ?thesis
    using scan_holds[OF h(1), of nd pred snap] r assms h(2) by (simp add: rows_of_def)
qed


text \<open>Two rows, the second deleted after a flush: at version 1 both are seen, at version 2 one.\<close>

abbreviation ex_doc :: "byte \<Rightarrow> bytes" where
  "ex_doc i \<equiv> Build (AppendInt32 (AppendInt32 [] (str ''_id'') (ucast i)) (str ''a'') (ucast i))"

definition ex_ops :: "col_op list" where
  "ex_ops = [OpInsert (ex_doc 1) 1, OpInsert (ex_doc 2) 1, OpFlush, OpDelete (ex_doc 2) 2]"

theorem scan_refines_rows_witness:
  "scan (foldl col_exec (New ModeTransactional [str ''a'']) ex_ops) 2 [str ''a''] None
    = ([[(zero_Value KindInt)\<lparr>cv_I := 1\<rparr>]], None)"
proof -
  have "row_scan (rows_of ex_ops) 2 [str ''a''] None = [[(zero_Value KindInt)\<lparr>cv_I := 1\<rparr>]]"
    "list_all (\<lambda>r. length (r_doc r) < 100) (rows_of ex_ops)"
    by code_simp+
  moreover have "length ex_ops < 2 ^ 62" by (simp add: ex_ops_def)
  ultimately show ?thesis
    using scan_refines_rows[of "[str ''a'']" ex_ops "[str ''a'']" None ModeTransactional 2]
    by (fastforce simp: list_all_iff pred_ok_def)
qed

end
