(* ===== verification/Pager_Pool.thy ===== *)
theory Pager_Pool
  imports Prelude "HOL-Library.AList"
begin

text \<open>
  The buffer pool (\<^verbatim>\<open>src/pager/pool.go\<close>, \<^verbatim>\<open>src/pager/frame.go\<close>): the page
  table, the 2Q replacement lists and the choice of a victim. A frame is the table entry of its
  page id, since the code keeps every linked frame in the table under its own id and callers reach
  a frame only while it is pinned. The intrusive lists \<^verbatim>\<open>a1in\<close> and \<^verbatim>\<open>am\<close> are lists of page
  ids, head first, so \<^verbatim>\<open>tail\<close> is the last element; the ghost map \<^verbatim>\<open>a1out\<close> always holds the ids of
  \<^verbatim>\<open>a1outOrder\<close> and is not kept twice.
\<close>

section \<open>Frames and the pool\<close>

datatype policyList = listNone | listA1in | listAm

record pframe =
  fr_Buf :: bytes
  fr_pins :: int
  fr_dirty :: bool
  fr_pageLSN :: u64
  fr_loc :: policyList

record pool =
  pl_pageSize :: nat
  pl_capacity :: nat
  pl_table :: "(u64 \<times> pframe) list"
  pl_a1in :: "u64 list"
  pl_am :: "u64 list"
  pl_a1out :: "u64 list"
  pl_kin :: nat
  pl_ghostCap :: nat
  pl_resident :: nat
  pl_evictions :: nat
  pl_committedLSN :: u64
  pl_freezeDirty :: bool

definition newPool :: "nat \<Rightarrow> nat \<Rightarrow> pool" where
  "newPool pageSize cap0 =
     (let cap = max cap0 2; kin = max (cap div 4) 1 in
      \<lparr>pl_pageSize = pageSize, pl_capacity = cap, pl_table = [], pl_a1in = [], pl_am = [], pl_a1out = [],
       pl_kin = kin, pl_ghostCap = cap div 2, pl_resident = 0, pl_evictions = 0, pl_committedLSN = 0,
       pl_freezeDirty = False\<rparr>)"

definition pool_lookup :: "pool \<Rightarrow> u64 \<Rightarrow> pframe option" where
  "pool_lookup pl pageID = map_of (pl_table pl) pageID"

definition set_frame :: "u64 \<Rightarrow> pframe \<Rightarrow> pool \<Rightarrow> pool" where
  "set_frame pageID f pl = pl\<lparr>pl_table := AList.update pageID f (pl_table pl)\<rparr>"

section \<open>Replacement policy\<close>

definition recordHit :: "pool \<Rightarrow> u64 \<Rightarrow> pframe \<Rightarrow> pool" where
  "recordHit pl pageID f =
     (if fr_loc f = listAm then pl\<lparr>pl_am := pageID # remove1 pageID (pl_am pl)\<rparr> else pl)"

definition removeGhost :: "pool \<Rightarrow> u64 \<Rightarrow> pool" where
  "removeGhost pl pageID = pl\<lparr>pl_a1out := remove1 pageID (pl_a1out pl)\<rparr>"

definition addGhost :: "pool \<Rightarrow> u64 \<Rightarrow> pool" where
  "addGhost pl pageID =
     (if pageID \<in> set (pl_a1out pl) then pl
      else let order = pl_a1out pl @ [pageID] in
        pl\<lparr>pl_a1out := drop (length order - pl_ghostCap pl) order\<rparr>)"

definition admit :: "pool \<Rightarrow> pframe \<Rightarrow> u64 \<Rightarrow> pool" where
  "admit pl f pageID =
     (if pageID \<in> set (pl_a1out pl)
      then let pl1 = removeGhost pl pageID in
        set_frame pageID (f\<lparr>fr_loc := listAm\<rparr>) (pl1\<lparr>pl_am := pageID # pl_am pl1\<rparr>)
      else set_frame pageID (f\<lparr>fr_loc := listA1in\<rparr>) (pl\<lparr>pl_a1in := pageID # pl_a1in pl\<rparr>))"

definition evictable :: "pool \<Rightarrow> pframe \<Rightarrow> bool" where
  "evictable pl v \<longleftrightarrow>
     fr_pins v = 0 \<and> \<not> (fr_dirty v \<and> (pl_freezeDirty pl \<or> fr_pageLSN v > pl_committedLSN pl))"

definition evictFrom :: "pool \<Rightarrow> bool \<Rightarrow> pool \<times> (u64 \<times> pframe) option" where
  "evictFrom pl fromA1 =
     (case find (\<lambda>v. case pool_lookup pl v of None \<Rightarrow> False | Some f \<Rightarrow> evictable pl f)
         (rev (if fromA1 then pl_a1in pl else pl_am pl)) of
        None \<Rightarrow> (pl, None)
      | Some v \<Rightarrow>
          let pl1 = (if fromA1 then addGhost (pl\<lparr>pl_a1in := remove1 v (pl_a1in pl)\<rparr>) v
                     else pl\<lparr>pl_am := remove1 v (pl_am pl)\<rparr>)
          in (pl1\<lparr>pl_evictions := pl_evictions pl1 + 1\<rparr>, map_option (Pair v) (pool_lookup pl v)))"

definition selectVictim :: "pool \<Rightarrow> pool \<times> (u64 \<times> pframe) option" where
  "selectVictim pl =
     (let preferA1 = (length (pl_a1in pl) > pl_kin pl) in
      case evictFrom pl preferA1 of
        (pl1, Some v) \<Rightarrow> (pl1, Some v)
      | (pl1, None) \<Rightarrow> evictFrom pl1 (\<not> preferA1))"

text \<open>The three results of the code: the frame to use, a dirty victim that must be written back
  first, and whether there is one at all.\<close>

definition obtainFrame :: "pool \<Rightarrow> pool \<times> pframe option \<times> (u64 \<times> pframe) option \<times> bool" where
  "obtainFrame pl =
     (if pl_resident pl < pl_capacity pl
      then (pl\<lparr>pl_resident := pl_resident pl + 1\<rparr>,
        Some \<lparr>fr_Buf = replicate (pl_pageSize pl) 0, fr_pins = 0, fr_dirty = False, fr_pageLSN = 0, fr_loc = listNone\<rparr>,
        None, True)
      else case selectVictim pl of
          (pl1, None) \<Rightarrow> (pl1, None, None, False)
        | (pl1, Some (v, f)) \<Rightarrow>
            let pl2 = pl1\<lparr>pl_table := AList.delete v (pl_table pl1)\<rparr> in
            if fr_dirty f then (pl2, None, Some (v, f), True)
            else (pl2, Some (f\<lparr>fr_loc := listNone\<rparr>), None, True))"

definition reuseVictim :: "pframe \<Rightarrow> pframe" where
  "reuseVictim v = v\<lparr>fr_dirty := False, fr_loc := listNone\<rparr>"

definition forget :: "pool \<Rightarrow> u64 \<Rightarrow> pool" where
  "forget pl pageID =
     (case pool_lookup pl pageID of
        None \<Rightarrow> pl
      | Some f \<Rightarrow>
          let pl1 = pl\<lparr>pl_table := AList.delete pageID (pl_table pl)\<rparr>;
              pl2 = (case fr_loc f of
                  listA1in \<Rightarrow> pl1\<lparr>pl_a1in := remove1 pageID (pl_a1in pl1)\<rparr>
                | listAm \<Rightarrow> pl1\<lparr>pl_am := remove1 pageID (pl_am pl1)\<rparr>
                | listNone \<Rightarrow> pl1)
          in pl2\<lparr>pl_resident := pl_resident pl2 - 1\<rparr>)"

section \<open>The structural invariant\<close>

text \<open>The table and the lists agree: every resident page but the header is on exactly one list, the
  one its frame names; the header page is on none; the pool holds at most its capacity.
  The argument \<open>held\<close> counts frames that are detached while their owner fills them.\<close>

definition pool_ok :: "nat \<Rightarrow> pool \<Rightarrow> bool" where
  "pool_ok held pl \<longleftrightarrow>
     distinct (map fst (pl_table pl)) \<and> distinct (pl_a1in pl) \<and> distinct (pl_am pl)
     \<and> 0 \<notin> set (pl_a1in pl) \<and> 0 \<notin> set (pl_am pl)
     \<and> (\<forall>v f. pool_lookup pl v = Some f \<longrightarrow>
          (v \<in> set (pl_a1in pl) \<longleftrightarrow> fr_loc f = listA1in) \<and> (v \<in> set (pl_am pl) \<longleftrightarrow> fr_loc f = listAm)
          \<and> (fr_loc f = listNone \<longleftrightarrow> v = 0))
     \<and> set (pl_a1in pl) \<union> set (pl_am pl) \<subseteq> dom (pool_lookup pl)
     \<and> pl_resident pl = length (pl_table pl) + held \<and> pl_resident pl \<le> pl_capacity pl"

lemma pool_lookup_map: "pool_lookup pl = map_of (pl_table pl)"
  by (rule ext) (simp add: pool_lookup_def)

lemma pool_lookup_simps [simp]:
  "pool_lookup (set_frame v f pl) = (pool_lookup pl)(v \<mapsto> f)"
  "pool_lookup (pl\<lparr>pl_table := AList.delete v t\<rparr>) = (map_of t)(v := None)"
  "pool_lookup (pl\<lparr>pl_a1in := l\<rparr>) = pool_lookup pl" "pool_lookup (pl\<lparr>pl_am := l\<rparr>) = pool_lookup pl"
  "pool_lookup (pl\<lparr>pl_a1out := l\<rparr>) = pool_lookup pl" "pool_lookup (pl\<lparr>pl_resident := n\<rparr>) = pool_lookup pl"
  "pool_lookup (pl\<lparr>pl_evictions := n\<rparr>) = pool_lookup pl" "pool_lookup (pl\<lparr>pl_committedLSN := c\<rparr>) = pool_lookup pl"
  by (auto simp: pool_lookup_def set_frame_def update_conv' delete_conv')

lemma pool_ok_lookup:
  assumes "pool_ok held pl" "pool_lookup pl v = Some f"
  shows "v \<in> set (pl_a1in pl) \<longleftrightarrow> fr_loc f = listA1in" "v \<in> set (pl_am pl) \<longleftrightarrow> fr_loc f = listAm"
    "fr_loc f = listNone \<longleftrightarrow> v = 0"
  using assms unfolding pool_ok_def by blast+

lemma set_frame_simps [simp]:
  "pl_pageSize (set_frame v f pl) = pl_pageSize pl" "pl_capacity (set_frame v f pl) = pl_capacity pl"
  "pl_committedLSN (set_frame v f pl) = pl_committedLSN pl" "pl_freezeDirty (set_frame v f pl) = pl_freezeDirty pl"
  "pl_resident (set_frame v f pl) = pl_resident pl"
  by (simp_all add: set_frame_def)

text \<open>Rewriting a resident frame in place (its bytes, pins, dirty mark or LSN) keeps the invariant.\<close>

lemma pool_ok_set_frame:
  assumes ok: "pool_ok held pl" and f: "pool_lookup pl v = Some f" and g: "fr_loc g = fr_loc f"
  shows "pool_ok held (set_frame v g pl)"
proof -
  have k: "map fst (AList.update v g (pl_table pl)) = map fst (pl_table pl)"
    using f by (auto simp: update_keys pool_lookup_def dest!: map_of_SomeD intro: rev_image_eqI)
  then have "length (AList.update v g (pl_table pl)) = length (pl_table pl)" by (metis length_map)
  then show ?thesis
    using ok g pool_ok_lookup[OF ok f] k unfolding pool_ok_def
    by (auto simp: set_frame_def pool_lookup_def update_conv')
qed


lemma pool_ok_recordHit:
  assumes ok: "pool_ok held pl" and f: "pool_lookup pl v = Some f"
  shows "pool_ok held (recordHit pl v f)"
proof (cases "fr_loc f = listAm")
  case True
  then have v: "v \<in> set (pl_am pl)" using pool_ok_lookup(2)[OF ok f] by simp
  then have "set (v # remove1 v (pl_am pl)) = set (pl_am pl)" using ok by (auto simp: pool_ok_def)
  then show ?thesis using ok v True unfolding pool_ok_def recordHit_def
    by (auto simp: pool_lookup_def)
qed (use ok in \<open>simp add: recordHit_def\<close>)

lemma recordHit_simps [simp]:
  "pool_lookup (recordHit pl v f) = pool_lookup pl" "pl_table (recordHit pl v f) = pl_table pl"
  "pl_pageSize (recordHit pl v f) = pl_pageSize pl" "pl_committedLSN (recordHit pl v f) = pl_committedLSN pl"
  "pl_capacity (recordHit pl v f) = pl_capacity pl" "pl_freezeDirty (recordHit pl v f) = pl_freezeDirty pl"
  by (auto simp: recordHit_def pool_lookup_def)

lemma admit_simps [simp]:
  "pool_lookup (admit pl f v) = (pool_lookup pl)(v \<mapsto> f\<lparr>fr_loc := if v \<in> set (pl_a1out pl) then listAm else listA1in\<rparr>)"
  "pl_pageSize (admit pl f v) = pl_pageSize pl" "pl_committedLSN (admit pl f v) = pl_committedLSN pl"
  "pl_capacity (admit pl f v) = pl_capacity pl" "pl_freezeDirty (admit pl f v) = pl_freezeDirty pl"
  by (auto simp: admit_def Let_def removeGhost_def set_frame_def pool_lookup_def update_conv')

lemma update_update: "AList.update v y (AList.update v x t) = AList.update v y t"
  by (induction t) auto

lemma set_frame_admit:
  "set_frame v (g\<lparr>fr_loc := if v \<in> set (pl_a1out pl) then listAm else listA1in\<rparr>) (admit pl f v) = admit pl g v"
  by (simp add: admit_def set_frame_def removeGhost_def Let_def update_update)

text \<open>A detached frame finds its place: the pool holds one frame less outside the table.\<close>

lemma update_new: "v \<notin> fst ` set t \<Longrightarrow> AList.update v x t = t @ [(v, x)]"
  by (induction t) auto

lemma pool_ok_admit:
  assumes ok: "pool_ok (Suc held) pl" and new: "pool_lookup pl v = None" and v: "v \<noteq> 0"
  shows "pool_ok held (admit pl f v)"
proof -
  have n: "v \<notin> fst ` set (pl_table pl)" using new by (auto simp: pool_lookup_def map_of_eq_None_iff)
  have l: "v \<notin> set (pl_a1in pl)" "v \<notin> set (pl_am pl)" using ok new by (auto simp: pool_ok_def)
  let ?g = "f\<lparr>fr_loc := if v \<in> set (pl_a1out pl) then listAm else listA1in\<rparr>"
  have t: "pl_table (admit pl f v) = pl_table pl @ [(v, ?g)]"
    using n by (simp add: admit_def Let_def removeGhost_def set_frame_def update_new)
  have a: "pl_a1in (admit pl f v) = (if v \<in> set (pl_a1out pl) then pl_a1in pl else v # pl_a1in pl)"
    "pl_am (admit pl f v) = (if v \<in> set (pl_a1out pl) then v # pl_am pl else pl_am pl)"
    "pl_resident (admit pl f v) = pl_resident pl"
    by (simp_all add: admit_def Let_def removeGhost_def set_frame_def)
  have look: "(w \<in> set (pl_a1in (admit pl f v)) \<longleftrightarrow> fr_loc g = listA1in)
      \<and> (w \<in> set (pl_am (admit pl f v)) \<longleftrightarrow> fr_loc g = listAm)
      \<and> (fr_loc g = listNone \<longleftrightarrow> w = 0)"
    if "pool_lookup (admit pl f v) w = Some g" for w g
    using that l v pool_ok_lookup[OF ok, of w g] by (auto simp: a split: if_splits)
  show ?thesis
    using ok n l v look unfolding pool_ok_def t a(3)
    by (auto simp: a dest: subsetD split: if_splits)
qed

lemma forget_simps [simp]:
  "pool_lookup (forget pl v) = (pool_lookup pl)(v := None)"
  "pl_pageSize (forget pl v) = pl_pageSize pl" "pl_committedLSN (forget pl v) = pl_committedLSN pl"
  by (auto simp: forget_def Let_def pool_lookup_def delete_conv' fun_upd_idem split: option.splits policyList.splits)

section \<open>Victims\<close>

text \<open>The frame that \<^verbatim>\<open>obtainFrame\<close> gives up is resident, not pinned, not the header, and holds no
  uncommitted change.\<close>

definition victim_of :: "pool \<Rightarrow> u64 \<Rightarrow> pframe \<Rightarrow> bool" where
  "victim_of pl v f \<longleftrightarrow> pool_lookup pl v = Some f \<and> v \<noteq> 0 \<and> evictable pl f"

lemma addGhost_simps [simp]:
  "pool_lookup (addGhost pl v) = pool_lookup pl" "pl_table (addGhost pl v) = pl_table pl"
  "pl_a1in (addGhost pl v) = pl_a1in pl" "pl_am (addGhost pl v) = pl_am pl"
  "pl_resident (addGhost pl v) = pl_resident pl" "pl_capacity (addGhost pl v) = pl_capacity pl"
  "pl_pageSize (addGhost pl v) = pl_pageSize pl" "pl_committedLSN (addGhost pl v) = pl_committedLSN pl"
  "pl_freezeDirty (addGhost pl v) = pl_freezeDirty pl" "pl_kin (addGhost pl v) = pl_kin pl"
  by (auto simp: addGhost_def Let_def pool_lookup_def)

lemma find_SomeD: "find P xs = Some x \<Longrightarrow> x \<in> set xs \<and> P x"
  by (induction xs) (auto split: if_splits)

lemma evictFrom_Some:
  assumes "evictFrom pl a1 = (pl1, Some (v, f))" and ok: "pool_ok held pl"
  shows "victim_of pl v f \<and> pl_table pl1 = pl_table pl \<and> pl_resident pl1 = pl_resident pl
    \<and> pl_capacity pl1 = pl_capacity pl \<and> pl_pageSize pl1 = pl_pageSize pl \<and> pl_committedLSN pl1 = pl_committedLSN pl
    \<and> pl_freezeDirty pl1 = pl_freezeDirty pl
    \<and> pl_a1in pl1 = (if a1 then remove1 v (pl_a1in pl) else pl_a1in pl)
    \<and> pl_am pl1 = (if a1 then pl_am pl else remove1 v (pl_am pl))
    \<and> v \<in> set (if a1 then pl_a1in pl else pl_am pl)"
proof -
  let ?l = "if a1 then pl_a1in pl else pl_am pl"
  let ?P = "\<lambda>v. case pool_lookup pl v of None \<Rightarrow> False | Some f \<Rightarrow> evictable pl f"
  obtain u where u: "find ?P (rev ?l) = Some u"
    using assms(1) by (auto simp: evictFrom_def split: option.splits)
  then have "u \<in> set ?l" "?P u" using find_SomeD[OF u] by (simp_all del: option.case_eq_if)
  moreover have "v = u" "pool_lookup pl u = Some f"
    using assms(1) u by (auto simp: evictFrom_def Let_def)
  moreover have "0 \<notin> set ?l" using ok by (auto simp: pool_ok_def)
  ultimately show ?thesis
    using assms(1) u by (auto simp: evictFrom_def Let_def victim_of_def split: if_splits)
qed

lemma evictFrom_None: "evictFrom pl a1 = (pl1, None) \<Longrightarrow> pl1 = pl"
  by (auto simp: evictFrom_def Let_def pool_lookup_def find_Some_iff split: option.splits)


lemma selectVictim_None: "selectVictim pl = (pl1, None) \<Longrightarrow> pl1 = pl"
  by (auto simp: selectVictim_def Let_def split: prod.splits option.splits dest!: evictFrom_None)

lemma selectVictim_Some:
  assumes "selectVictim pl = (pl1, Some (v, f))" and ok: "pool_ok held pl"
  obtains a1 where "evictFrom pl a1 = (pl1, Some (v, f))"
  using assms by (auto simp: selectVictim_def Let_def split: prod.splits option.splits dest!: evictFrom_None)

lemma length_delete: "distinct (map fst t) \<Longrightarrow> v \<in> fst ` set t \<Longrightarrow> length t = Suc (length (AList.delete v t))"
  by (induction t) (auto simp: delete_id)

text \<open>Taking a victim out of the table leaves one more frame detached.\<close>

lemma pool_ok_evict:
  assumes ok: "pool_ok held pl" and ev: "evictFrom pl a1 = (pl1, Some (v, f))"
  shows "pool_ok (Suc held) (pl1\<lparr>pl_table := AList.delete v (pl_table pl1)\<rparr>)"
proof -
  note e = evictFrom_Some[OF ev ok]
  have v: "pool_lookup pl v = Some f" using e by (simp add: victim_of_def)
  have d: "distinct (pl_a1in pl)" "distinct (pl_am pl)" "distinct (map fst (pl_table pl))" using ok by (auto simp: pool_ok_def)
  have len: "length (pl_table pl) = Suc (length (AList.delete v (pl_table pl)))"
    using v d(3) by (intro length_delete) (auto simp: pool_lookup_def dest!: map_of_SomeD intro: rev_image_eqI)
  have one: "\<not> (v \<in> set (pl_a1in pl) \<and> v \<in> set (pl_am pl))"
    using pool_ok_lookup(1,2)[OF ok v] by auto
  have sets: "set (pl_a1in pl1) = set (pl_a1in pl) - {v}" "set (pl_am pl1) = set (pl_am pl) - {v}"
    using e d one by auto
  have "distinct (pl_a1in pl1)" "distinct (pl_am pl1)" using e d by auto
  then show ?thesis
    using ok e len sets d(3) unfolding pool_ok_def
    by (auto simp: pool_lookup_def delete_conv' distinct_delete dest: subsetD)
qed

text \<open>What \<^verbatim>\<open>obtainFrame\<close> does: it hands out a fresh frame while there is room, else the frame of a
  victim (written back by the caller when dirty), or fails with the pool unchanged.\<close>

lemma obtainFrame_cases:
  assumes ok: "pool_ok held pl"
  obtains (fresh) g where "obtainFrame pl = (pl\<lparr>pl_resident := pl_resident pl + 1\<rparr>, Some g, None, True)"
      "pl_resident pl < pl_capacity pl" "fr_pins g = 0" "pool_ok (Suc held) (pl\<lparr>pl_resident := pl_resident pl + 1\<rparr>)"
    | (clean) pl1 v f where "obtainFrame pl = (pl1, Some (f\<lparr>fr_loc := listNone\<rparr>), None, True)"
      "victim_of pl v f" "\<not> fr_dirty f" "pool_lookup pl1 = (pool_lookup pl)(v := None)" "pool_ok (Suc held) pl1"
      "pl_pageSize pl1 = pl_pageSize pl" "pl_capacity pl1 = pl_capacity pl" "pl_committedLSN pl1 = pl_committedLSN pl"
      "pl_freezeDirty pl1 = pl_freezeDirty pl"
    | (dirty) pl1 v f where "obtainFrame pl = (pl1, None, Some (v, f), True)"
      "victim_of pl v f" "fr_dirty f" "pool_lookup pl1 = (pool_lookup pl)(v := None)" "pool_ok (Suc held) pl1"
      "pl_pageSize pl1 = pl_pageSize pl" "pl_capacity pl1 = pl_capacity pl" "pl_committedLSN pl1 = pl_committedLSN pl"
      "pl_freezeDirty pl1 = pl_freezeDirty pl"
    | (full) "obtainFrame pl = (pl, None, None, False)"
proof (cases "pl_resident pl < pl_capacity pl")
  case True
  then show ?thesis
    using ok by (intro fresh) (auto simp: obtainFrame_def pool_ok_def pool_lookup_def)
next
  case False
  show ?thesis
  proof (cases "selectVictim pl")
    case (Pair pl1 r)
    show ?thesis
    proof (cases r)
      case None
      then show ?thesis using Pair False selectVictim_None[of pl pl1] by (intro full) (simp add: obtainFrame_def)
    next
      case (Some vf)
      obtain v f where vf: "vf = (v, f)" by (cases vf)
      obtain a1 where ev: "evictFrom pl a1 = (pl1, Some (v, f))"
        using selectVictim_Some[OF _ ok] Pair Some vf by blast
      note e = evictFrom_Some[OF ev ok]
      let ?pl2 = "pl1\<lparr>pl_table := AList.delete v (pl_table pl1)\<rparr>"
      have l: "pool_lookup ?pl2 = (pool_lookup pl)(v := None)" using e by (simp add: pool_lookup_map delete_conv')
      note p = pool_ok_evict[OF ok ev]
      show ?thesis
        using Pair Some vf False e l p clean[of ?pl2 f v] dirty[of ?pl2 v f]
        by (cases "fr_dirty f") (simp_all add: obtainFrame_def)
    qed
  qed
qed

end
