(* ===== verification/Pager.thy ===== *)
theory Pager
  imports Pager_Pool Format_Header Wal_Recovery
begin

text \<open>
  The pager (\<^verbatim>\<open>src/pager/pager.go\<close>): pages over a main file and its log. The two files are
  the byte buffers of \<open>Vfs_Mem\<close>; the log's file is the one inside the log writer. Every method runs
  under the pager's mutex and is one function on the pager's state. A method's error is returned
  beside the state it leaves. The pseudo-random salts and identifiers are arguments. Left out are
  the metric counters, the commit observer, and \<^verbatim>\<open>Sync\<close> and \<^verbatim>\<open>Close\<close> of files, which do nothing on
  the in-memory file system.
\<close>

section \<open>State, errors, sequencing\<close>

datatype pager_error = ErrClosed | ErrCorrupt u64 | ErrPoolExhausted | ErrReadOnly
  | ErrMissing | ErrEOF | ErrWriteAhead u64 | ErrFile vfs_error | ErrFormat format_error | ErrLog wal_error | PagerPanic

text \<open>A step that may fail: \<open>andThen\<close> goes on with the value, or returns the error and the state.\<close>

definition andThen :: "'s \<times> ('e + 'a) \<Rightarrow> ('a \<Rightarrow> 's \<Rightarrow> 's \<times> ('e + 'b)) \<Rightarrow> 's \<times> ('e + 'b)" where
  "andThen r k = (case r of (s, Inl e) \<Rightarrow> (s, Inl e) | (s, Inr x) \<Rightarrow> k x s)"

lemma andThen_simps [simp]: "andThen (s, Inl e) k = (s, Inl e)" "andThen (s, Inr x) k = k x s"
  by (simp_all add: andThen_def)

lemma andThen_Inr: "andThen r k = (s', Inr y) \<longleftrightarrow> (\<exists>s x. r = (s, Inr x) \<and> k x s = (s', Inr y))"
  by (auto simp: andThen_def split: prod.splits sum.splits)

record Options =
  o_PageSize :: u32
  o_PoolPages :: nat
  o_Checksum :: byte
  o_ReadOnly :: bool
  o_CheckpointFrames :: int

definition withDefaults :: "Options \<Rightarrow> Options" where
  "withDefaults opts =
     opts\<lparr>o_PageSize := if o_PageSize opts = 0 then 8192 else o_PageSize opts,
       o_PoolPages := if o_PoolPages opts = 0 then 1024 else o_PoolPages opts,
       o_Checksum := if o_Checksum opts = 0 then ChecksumCRC32C else o_Checksum opts,
       o_CheckpointFrames := if o_CheckpointFrames opts = 0 then 1000 else o_CheckpointFrames opts\<rparr>"

record Pager =
  p_main :: bytes
  p_walw :: "Writer option"
  p_pool :: pool
  p_pageSize :: nat
  p_checksum :: byte
  p_readOnly :: bool
  p_ckptN :: int
  p_hdr :: Header
  p_nextLSN :: u64
  p_walFlushedLSN :: u64
  p_checkpointSeq :: u32
  p_walFrames :: nat
  p_backupActive :: nat
  p_closed :: bool

text \<open>The files of a database: the content at its path and at the path of its log.\<close>

record disk =
  d_main :: "bytes option"
  d_wal :: "bytes option"

abbreviation freelistNextOffset :: nat where "freelistNextOffset \<equiv> PageHeaderSize"

section \<open>Frames\<close>

abbreviation frame_at :: "Pager \<Rightarrow> u64 \<Rightarrow> pframe option" where
  "frame_at p pid \<equiv> pool_lookup (p_pool p) pid"

definition put_frame :: "u64 \<Rightarrow> pframe \<Rightarrow> Pager \<Rightarrow> Pager" where
  "put_frame pid f p = p\<lparr>p_pool := set_frame pid f (p_pool p)\<rparr>"

text \<open>\<^verbatim>\<open>markDirtyLocked\<close> on the frame of page \<open>pid\<close>, whose bytes the caller has just changed to \<open>buf\<close>.\<close>

definition markDirtyLocked :: "u64 \<Rightarrow> bytes \<Rightarrow> Pager \<Rightarrow> Pager" where
  "markDirtyLocked pid buf p =
     (case frame_at p pid of
        None \<Rightarrow> p
      | Some f \<Rightarrow>
          let lsn = p_nextLSN p + 1;
              buf' = (if pid \<noteq> 0 then write_at buf 8 (le_put 8 lsn) else buf)
          in put_frame pid (f\<lparr>fr_Buf := buf', fr_dirty := True, fr_pageLSN := lsn\<rparr>) (p\<lparr>p_nextLSN := lsn\<rparr>))"

definition Unpin :: "u64 \<Rightarrow> Pager \<Rightarrow> Pager" where
  "Unpin pid p =
     (case frame_at p pid of None \<Rightarrow> p | Some f \<Rightarrow> put_frame pid (f\<lparr>fr_pins := fr_pins f - 1\<rparr>) p)"

text \<open>The header in memory, encoded for page 0.\<close>

definition bump_header :: "Header \<Rightarrow> Header" where
  "bump_header h = h\<lparr>FileChangeCounter := FileChangeCounter h + 1, VersionValidFor := FileChangeCounter h + 1\<rparr>"

definition header_page :: "nat \<Rightarrow> Header \<Rightarrow> bytes option" where
  "header_page ps h = map_option (\<lambda>enc. take ps (enc @ replicate (ps - length enc) 0)) (Encode h)"

definition encodeHeaderIntoFrame0 :: "Pager \<Rightarrow> Pager \<times> (pager_error + bytes)" where
  "encodeHeaderIntoFrame0 p =
     (let p1 = p\<lparr>p_hdr := bump_header (p_hdr p)\<rparr> in
      case header_page (p_pageSize p) (p_hdr p1) of None \<Rightarrow> (p1, Inl PagerPanic) | Some buf \<Rightarrow> (p1, Inr buf))"

definition touchHeaderLocked :: "Pager \<Rightarrow> Pager \<times> (pager_error + unit)" where
  "touchHeaderLocked p = andThen (encodeHeaderIntoFrame0 p) (\<lambda>buf p. (markDirtyLocked 0 buf p, Inr ()))"

definition CatalogRoot_of :: "Pager \<Rightarrow> u32" where
  "CatalogRoot_of p = CatalogRoot (p_hdr p)"

definition SetCatalogRoot :: "u32 \<Rightarrow> Pager \<Rightarrow> Pager \<times> (pager_error + unit)" where
  "SetCatalogRoot root p = touchHeaderLocked (p\<lparr>p_hdr := (p_hdr p)\<lparr>CatalogRoot := root\<rparr>\<rparr>)"

definition PageCount_of :: "Pager \<Rightarrow> u32" where
  "PageCount_of p = PageCount (p_hdr p)"

section \<open>Reading pages in\<close>

text \<open>The offset of a page is a product of two \<^verbatim>\<open>int64\<close>, which wraps; a negative one makes the file access panic.\<close>

definition page_off :: "Pager \<Rightarrow> u64 \<Rightarrow> int" where
  "page_off p pid = sint (pid * of_nat (p_pageSize p))"

definition writeBack :: "u64 \<Rightarrow> pframe \<Rightarrow> Pager \<Rightarrow> Pager \<times> (pager_error + unit)" where
  "writeBack pid f p =
     (if p_walFlushedLSN p < fr_pageLSN f then (p, Inl (ErrWriteAhead pid))
      else if page_off p pid < 0 then (p, Inl PagerPanic)
      else (p\<lparr>p_main := memWriteAt (p_main p) (fr_Buf f) (nat (page_off p pid))\<rparr>, Inr ()))"

definition obtainFrameLocked :: "Pager \<Rightarrow> Pager \<times> (pager_error + pframe)" where
  "obtainFrameLocked p =
     (let pl = (p_pool p)\<lparr>pl_committedLSN := p_walFlushedLSN p\<rparr> in
      case obtainFrame pl of
        (pl1, f, victim, ok) \<Rightarrow>
          let p1 = p\<lparr>p_pool := pl1\<rparr> in
          if \<not> ok then (p1, Inl ErrPoolExhausted)
          else (case victim of
              Some (v, vf) \<Rightarrow> andThen (writeBack v vf p1) (\<lambda>_ p. (p, Inr (reuseVictim vf)))
            | None \<Rightarrow> (p1, case f of Some f \<Rightarrow> Inr f | None \<Rightarrow> Inl PagerPanic)))"

definition readPageInto :: "Pager \<Rightarrow> u64 \<Rightarrow> pager_error + bytes" where
  "readPageInto p pid =
     (if page_off p pid < 0 then Inl PagerPanic
      else let (got, eof) = memReadAt (p_main p) (p_pageSize p) (nat (page_off p pid)) in
      if eof \<and> length got < p_pageSize p
      then (if unat pid < unat (PageCount (p_hdr p)) then Inr (replicate (p_pageSize p) 0) else Inl ErrEOF)
      else if pid = 0 then Inr got
      else case VerifyPageChecksum got (p_checksum p) of
          Some None \<Rightarrow> Inr got | Some (Some _) \<Rightarrow> Inl (ErrCorrupt pid) | None \<Rightarrow> Inl PagerPanic)"

definition readPageLSN :: "u64 \<Rightarrow> bytes \<Rightarrow> u64" where
  "readPageLSN pid buf = (if pid = 0 then 0 else get64 buf 8)"

definition fetchLocked :: "u64 \<Rightarrow> Pager \<Rightarrow> Pager \<times> (pager_error + bytes)" where
  "fetchLocked pid p =
     (if p_closed p then (p, Inl ErrClosed)
      else case frame_at p pid of
          Some f \<Rightarrow>
            let f' = f\<lparr>fr_pins := fr_pins f + 1\<rparr>; p1 = put_frame pid f' p
            in (p1\<lparr>p_pool := recordHit (p_pool p1) pid f'\<rparr>, Inr (fr_Buf f))
        | None \<Rightarrow>
            andThen (obtainFrameLocked p) (\<lambda>f p.
              case readPageInto p pid of
                Inl e \<Rightarrow> (p\<lparr>p_pool := (p_pool p)\<lparr>pl_resident := pl_resident (p_pool p) - 1\<rparr>\<rparr>, Inl e)
              | Inr buf \<Rightarrow>
                  (p\<lparr>p_pool := admit (p_pool p) (f\<lparr>fr_Buf := buf, fr_pageLSN := readPageLSN pid buf, fr_dirty := False,
                      fr_pins := fr_pins f + 1\<rparr>) pid\<rparr>, Inr buf)))"

text \<open>\<^verbatim>\<open>Fetch\<close>; its \<^verbatim>\<open>forUpdate\<close> flag is not used by the code. The result is the bytes of the frame,
  which the caller reads, or replaces by \<^verbatim>\<open>MarkDirty\<close>, under the page id until it unpins it.\<close>

definition Fetch :: "u64 \<Rightarrow> Pager \<Rightarrow> Pager \<times> (pager_error + bytes)" where
  "Fetch pid p = fetchLocked pid p"

definition MarkDirty :: "u64 \<Rightarrow> bytes \<Rightarrow> Pager \<Rightarrow> Pager" where
  "MarkDirty pid buf p = markDirtyLocked pid buf p"

section \<open>Allocation\<close>

definition allocateFromFreelist :: "Pager \<Rightarrow> Pager \<times> (pager_error + u64 \<times> bytes)" where
  "allocateFromFreelist p =
     (let pid = ucast (FreelistRoot (p_hdr p)) in
      andThen (fetchLocked pid p) (\<lambda>buf p.
        let nxt = get32 buf freelistNextOffset; h = p_hdr p;
            p1 = p\<lparr>p_hdr := h\<lparr>FreelistRoot := nxt,
              FreelistPageCount := if FreelistPageCount h > 0 then FreelistPageCount h - 1 else FreelistPageCount h\<rparr>\<rparr>;
            zero = replicate (length buf) 0;
            p2 = markDirtyLocked pid zero p1
        in andThen (touchHeaderLocked p2) (\<lambda>_ p.
             (p, Inr (pid, case frame_at p pid of Some f \<Rightarrow> fr_Buf f | None \<Rightarrow> zero)))))"

definition allocateByGrowing :: "Pager \<Rightarrow> Pager \<times> (pager_error + u64 \<times> bytes)" where
  "allocateByGrowing p =
     (let h = p_hdr p; pid = ucast (PageCount h) in
      andThen (touchHeaderLocked (p\<lparr>p_hdr := h\<lparr>PageCount := PageCount h + 1\<rparr>\<rparr>)) (\<lambda>_ p.
        case obtainFrameLocked p of
          (p1, Inl e) \<Rightarrow>
            andThen (touchHeaderLocked (p1\<lparr>p_hdr := (p_hdr p1)\<lparr>PageCount := PageCount (p_hdr p1) - 1\<rparr>\<rparr>)) (\<lambda>_ p. (p, Inl e))
        | (p1, Inr f) \<Rightarrow>
            let zero = replicate (p_pageSize p1) 0;
                p2 = p1\<lparr>p_pool := admit (p_pool p1) (f\<lparr>fr_Buf := zero, fr_pins := fr_pins f + 1\<rparr>) pid\<rparr>;
                p3 = markDirtyLocked pid zero p2
            in (p3, Inr (pid, case frame_at p3 pid of Some g \<Rightarrow> fr_Buf g | None \<Rightarrow> zero))))"

definition Allocate :: "Pager \<Rightarrow> Pager \<times> (pager_error + u64 \<times> bytes)" where
  "Allocate p =
     (if p_closed p then (p, Inl ErrClosed)
      else if p_readOnly p then (p, Inl ErrReadOnly)
      else if FreelistRoot (p_hdr p) \<noteq> NullPage then allocateFromFreelist p
      else allocateByGrowing p)"

definition Free :: "u64 \<Rightarrow> Pager \<Rightarrow> Pager \<times> (pager_error + unit)" where
  "Free pid p =
     (if p_closed p then (p, Inl ErrClosed)
      else if p_readOnly p then (p, Inl ErrReadOnly)
      else andThen (case frame_at p pid of Some f \<Rightarrow> (p, Inr (fr_Buf f)) | None \<Rightarrow> fetchLocked pid p) (\<lambda>buf p.
        case InitPage buf PageFree 0 of
          None \<Rightarrow> (p, Inl PagerPanic)
        | Some b \<Rightarrow>
            let h = p_hdr p;
                b' = write_at b freelistNextOffset (le_put 4 (FreelistRoot h));
                p1 = p\<lparr>p_hdr := h\<lparr>FreelistRoot := ucast pid, FreelistPageCount := FreelistPageCount h + 1\<rparr>\<rparr>;
                p2 = markDirtyLocked pid b' p1
            in andThen (touchHeaderLocked p2) (\<lambda>_ p. (Unpin pid p, Inr ()))))"

section \<open>Commit and checkpoint\<close>

text \<open>Insertion sort from the right, as the code does it.\<close>

definition insert_frame :: "u64 \<times> pframe \<Rightarrow> (u64 \<times> pframe) list \<Rightarrow> (u64 \<times> pframe) list" where
  "insert_frame x fs =
     (let later = (\<lambda>g. fr_pageLSN (snd g) > fr_pageLSN (snd x)) in
      rev (dropWhile later (rev fs)) @ x # rev (takeWhile later (rev fs)))"

definition sortFramesByLSN :: "(u64 \<times> pframe) list \<Rightarrow> (u64 \<times> pframe) list" where
  "sortFramesByLSN fs = foldl (\<lambda>acc x. insert_frame x acc) [] fs"

definition openFreshWAL :: "u32 \<times> u32 \<Rightarrow> Pager \<Rightarrow> Pager" where
  "openFreshWAL salts p =
     (let old = (case p_walw p of None \<Rightarrow> [] | Some w \<Rightarrow> wfile w);
          h = NewWALHeader (of_nat (p_pageSize p)) (p_checkpointSeq p) (fst salts) (snd salts)
      in p\<lparr>p_walw := Some (CreateWriter old h), p_walFrames := 0\<rparr>)"

fun write_back_all :: "(u64 \<times> pframe) list \<Rightarrow> Pager \<Rightarrow> Pager \<times> (pager_error + unit)" where
  "write_back_all [] p = (p, Inr ())"
| "write_back_all ((pid, f) # fs) p =
     andThen (writeBack pid f p) (\<lambda>_ p. write_back_all fs (put_frame pid (f\<lparr>fr_dirty := False\<rparr>) p))"

definition checkpointLocked :: "u32 \<times> u32 \<Rightarrow> Pager \<Rightarrow> Pager \<times> (pager_error + unit)" where
  "checkpointLocked salts p =
     (if p_closed p then (p, Inl ErrClosed)
      else if p_readOnly p then (p, Inl ErrReadOnly)
      else
        let p1 = p\<lparr>p_pool := (p_pool p)\<lparr>pl_committedLSN := p_walFlushedLSN p\<rparr>\<rparr>;
            dirty = filter (\<lambda>(_, f). fr_dirty f \<and> fr_pageLSN f \<le> p_walFlushedLSN p) (pl_table (p_pool p1))
        in andThen (write_back_all (sortFramesByLSN dirty) p1) (\<lambda>_ p.
             (openFreshWAL salts (p\<lparr>p_checkpointSeq := p_checkpointSeq p + 1\<rparr>), Inr ())))"

definition Checkpoint :: "u32 \<times> u32 \<Rightarrow> Pager \<Rightarrow> Pager \<times> (pager_error + unit)" where
  "Checkpoint salts p = checkpointLocked salts p"

text \<open>Sealing a frame writes the checksum into its buffer; the image is a copy of it.\<close>

definition seal :: "Pager \<Rightarrow> u64 \<times> pframe \<Rightarrow> (u64 \<times> pframe) option" where
  "seal p x =
     (if fst x = 0 then Some x
      else map_option (\<lambda>b. (fst x, (snd x)\<lparr>fr_Buf := b\<rparr>)) (WritePageChecksum (fr_Buf (snd x)) (p_checksum p)))"

fun seal_all :: "Pager \<Rightarrow> (u64 \<times> pframe) list \<Rightarrow> (u64 \<times> pframe) list option" where
  "seal_all p [] = Some []"
| "seal_all p (x # xs) = do { y \<leftarrow> seal p x; ys \<leftarrow> seal_all p xs; Some (y # ys) }"

fun set_frames :: "(u64 \<times> pframe) list \<Rightarrow> pool \<Rightarrow> pool" where
  "set_frames [] pl = pl"
| "set_frames ((pid, f) # fs) pl = set_frames fs (set_frame pid f pl)"

definition image_of :: "u64 \<times> pframe \<Rightarrow> PageImage" where
  "image_of x = \<lparr>iPageID = fst x, iPayload = fr_Buf (snd x)\<rparr>"

definition max_lsn :: "(u64 \<times> pframe) list \<Rightarrow> u64" where
  "max_lsn xs = fold (\<lambda>x m. max m (fr_pageLSN (snd x))) xs 0"

definition commitLocked :: "u32 \<times> u32 \<Rightarrow> Pager \<Rightarrow> Pager \<times> (pager_error + unit)" where
  "commitLocked salts p =
     (if p_closed p then (p, Inl ErrClosed)
      else if p_readOnly p then (p, Inl ErrReadOnly)
      else
        let dirty = filter (\<lambda>(_, f). fr_dirty f \<and> fr_pageLSN f > p_walFlushedLSN p) (pl_table (p_pool p)) in
        if dirty = [] then (p, Inr ())
        else (case (seal_all p (sortFramesByLSN dirty), p_walw p) of
            (Some sealed, Some w) \<Rightarrow>
              let p1 = p\<lparr>p_pool := set_frames sealed (p_pool p)\<rparr> in
              (case AppendCommit w (map image_of sealed) (PageCount (p_hdr p)) of
                 Inl e \<Rightarrow> (p1, Inl (ErrLog e))
               | Inr (w', _) \<Rightarrow>
                   let p2 = p1\<lparr>p_walw := Some w', p_walFlushedLSN := max_lsn sealed,
                     p_walFrames := p_walFrames p1 + length sealed\<rparr>
                   in if int (p_walFrames p2) \<ge> p_ckptN p2 \<and> p_backupActive p2 = 0
                      then checkpointLocked salts p2 else (p2, Inr ()))
          | _ \<Rightarrow> (p, Inl PagerPanic)))"

definition Commit :: "u32 \<times> u32 \<Rightarrow> Pager \<Rightarrow> Pager \<times> (pager_error + unit)" where
  "Commit salts p = commitLocked salts p"

definition SetCheckpointThreshold :: "int \<Rightarrow> Pager \<Rightarrow> Pager" where
  "SetCheckpointThreshold n p = p\<lparr>p_ckptN := n\<rparr>"

definition Close :: "u32 \<times> u32 \<Rightarrow> Pager \<Rightarrow> Pager \<times> (pager_error + unit)" where
  "Close salts p =
     (if p_closed p then (p, Inr ())
      else let (p1, r) = (if p_readOnly p then (p, Inr ()) else checkpointLocked salts p) in (p1\<lparr>p_closed := True\<rparr>, r))"

section \<open>Opening and recovery\<close>

definition scanGeneration :: "bytes \<Rightarrow> u32" where
  "scanGeneration wfl =
     (let (hb, eof) = memReadAt wfl WALHeaderSize 0 in
      if eof then 0 else case DecodeWALHeader hb of Inl _ \<Rightarrow> 0 | Inr h \<Rightarrow> wCheckpointSeq h)"

definition replay :: "nat \<Rightarrow> bytes \<Rightarrow> Frame list \<Rightarrow> bytes" where
  "replay ps file frs = foldl (\<lambda>m fr. memWriteAt m (fPayload fr) (unat (PageID (fHeader fr)) * ps)) file frs"

text \<open>The recovered main file and the generation of the scanned log. On a read-only handle the first
  replayed write is refused.\<close>

definition recover :: "nat \<Rightarrow> bool \<Rightarrow> bytes \<Rightarrow> bytes option \<Rightarrow> pager_error + bytes \<times> u32" where
  "recover ps ro main walf =
     (case walf of
        None \<Rightarrow> Inr (main, 0)
      | Some wfl \<Rightarrow>
          (case Scan wfl (of_nat ps) of
             Inl e \<Rightarrow> Inl (ErrLog e)
           | Inr res \<Rightarrow>
               if Committed res = [] then Inr (main, 0)
               else if ro then Inl (ErrFile ErrPermission)
               else Inr (memTruncate (replay ps main (Committed res)) (unat (DBSizePages res) * ps), scanGeneration wfl)))"

definition resident0 :: "pool \<Rightarrow> bytes \<Rightarrow> pool" where
  "resident0 pl buf =
     (let pl1 = set_frame 0 \<lparr>fr_Buf = buf, fr_pins = 1, fr_dirty = False, fr_pageLSN = 0, fr_loc = listNone\<rparr> pl
      in pl1\<lparr>pl_resident := pl_resident pl1 + 1\<rparr>)"

definition openExisting :: "Options \<Rightarrow> u32 \<times> u32 \<Rightarrow> bytes \<Rightarrow> bytes option \<Rightarrow> pager_error + Pager" where
  "openExisting opts salts main walf =
     (let (hb, eof) = memReadAt main HeaderSize 0 in
      if eof then Inl ErrEOF
      else case DecodeHeader hb of
          Inl e \<Rightarrow> Inl (ErrFormat e)
        | Inr hdr \<Rightarrow>
            let ps = unat (PageSize hdr) in
            (case recover ps (o_ReadOnly opts) main walf of
               Inl e \<Rightarrow> Inl e
             | Inr (main', gen) \<Rightarrow>
                 let (hb', eof') = memReadAt main' HeaderSize 0 in
                 if eof' then Inl ErrEOF
                 else (case DecodeHeader hb' of
                     Inl e \<Rightarrow> Inl (ErrFormat e)
                   | Inr hdr' \<Rightarrow>
                       let (full, eof0) = memReadAt main' ps 0 in
                       if eof0 then Inl ErrEOF
                       else let p = \<lparr>p_main = main', p_walw = None, p_pool = resident0 (newPool ps (o_PoolPages opts)) full,
                              p_pageSize = ps, p_checksum = ChecksumAlgo hdr, p_readOnly = o_ReadOnly opts,
                              p_ckptN = o_CheckpointFrames opts, p_hdr = hdr', p_nextLSN = 0, p_walFlushedLSN = 0,
                              p_checkpointSeq = gen + 1, p_walFrames = 0, p_backupActive = 0, p_closed = False\<rparr>
                            in Inr (if o_ReadOnly opts then p else openFreshWAL salts p))))"

definition createNew :: "Options \<Rightarrow> u32 \<times> u32 \<Rightarrow> u64 \<Rightarrow> bytes \<Rightarrow> pager_error + Pager" where
  "createNew opts salts walSalt uuid =
     (let ps = unat (o_PageSize opts);
          hdr = bump_header (NewHeader (o_PageSize opts) (o_Checksum opts) walSalt uuid) in
      case header_page ps hdr of
        None \<Rightarrow> Inl PagerPanic
      | Some buf \<Rightarrow>
          Inr (openFreshWAL salts \<lparr>p_main = memWriteAt [] buf 0, p_walw = None,
            p_pool = resident0 (newPool ps (o_PoolPages opts)) buf, p_pageSize = ps, p_checksum = o_Checksum opts,
            p_readOnly = o_ReadOnly opts, p_ckptN = o_CheckpointFrames opts, p_hdr = hdr, p_nextLSN = 0,
            p_walFlushedLSN = 0, p_checkpointSeq = 1, p_walFrames = 0, p_backupActive = 0, p_closed = False\<rparr>))"

definition Open :: "disk \<Rightarrow> Options \<Rightarrow> u32 \<times> u32 \<Rightarrow> u64 \<Rightarrow> bytes \<Rightarrow> pager_error + Pager" where
  "Open d opts0 salts walSalt uuid =
     (let opts = withDefaults opts0 in
      case d_main d of
        None \<Rightarrow> if o_ReadOnly opts then Inl ErrMissing else createNew opts salts walSalt uuid
      | Some main \<Rightarrow> openExisting opts salts main (d_wal d))"

end
