(* ===== verification/Pager_Invariant.thy ===== *)
theory Pager_Invariant
  imports Pager
begin

text \<open>
  What the pager keeps true of its files, its log and its pool: the committed database can always be
  read off the main file and the log, and the pages in use off the pool and the main file.
\<close>

section \<open>Pages of a file\<close>

definition page_at :: "nat \<Rightarrow> bytes \<Rightarrow> u64 \<Rightarrow> bytes" where
  "page_at ps img pid = sub img (unat pid * ps) ps"

definition has_page :: "nat \<Rightarrow> bytes \<Rightarrow> u64 \<Rightarrow> bool" where
  "has_page ps img pid \<longleftrightarrow> unat pid * ps + ps \<le> length img"

lemma page_ranges:
  fixes a b :: u64
  assumes "a \<noteq> b"
  shows "unat a * ps + ps \<le> unat b * ps \<or> unat b * ps + ps \<le> unat a * ps"
proof -
  have "unat a < unat b \<or> unat b < unat a" using assms by (metis nat_neq_iff word_unat_eq_iff)
  then have "Suc (unat a) * ps \<le> unat b * ps \<or> Suc (unat b) * ps \<le> unat a * ps" by (meson Suc_leI mult_le_mono1)
  then show ?thesis by (simp add: add.commute)
qed

lemma memReadAt_page:
  "has_page ps img pid \<Longrightarrow> 0 < ps \<Longrightarrow> memReadAt img ps (unat pid * ps) = (page_at ps img pid, False)"
  by (auto simp: memReadAt_def has_page_def page_at_def sub_def Let_def)

lemma length_page_at [simp]: "has_page ps img pid \<Longrightarrow> length (page_at ps img pid) = ps"
  by (simp add: page_at_def has_page_def)

lemma page_at_nth: "has_page ps img pid \<Longrightarrow> page_at ps img pid = map ((!) img) [unat pid * ps ..< unat pid * ps + ps]"
  by (rule nth_equalityI) (auto simp: page_at_def has_page_def nth_sub)

lemma write_page:
  assumes "length b = ps"
  shows "has_page ps (memWriteAt img b (unat v * ps)) v" "page_at ps (memWriteAt img b (unat v * ps)) v = b"
    "has_page ps img q \<Longrightarrow> has_page ps (memWriteAt img b (unat v * ps)) q"
    "has_page ps img q \<Longrightarrow> q \<noteq> v \<Longrightarrow> page_at ps (memWriteAt img b (unat v * ps)) q = page_at ps img q"
proof -
  let ?f = "memWriteAt img b (unat v * ps)"
  have l: "length ?f = max (length img) (unat v * ps + ps)" using mem_file.size_wr[of img b] assms by simp
  show h: "has_page ps ?f v" by (simp add: has_page_def l)
  show "has_page ps ?f q" if "has_page ps img q" using that by (simp add: has_page_def l)
  have n: "?f ! i = (if unat v * ps \<le> i \<and> i < unat v * ps + ps then b ! (i - unat v * ps) else img ! i)"
    if "i < length ?f" "i < length img \<or> unat v * ps \<le> i \<and> i < unat v * ps + ps" for i
    using mem_file.byte_wr[OF that(1)] that(2) assms by auto
  have "?f ! (unat v * ps + i) = b ! i" if "i < ps" for i
    using n[of "unat v * ps + i"] that h by (simp add: has_page_def)
  then show "page_at ps ?f v = b"
    using assms h by (intro nth_equalityI) (auto simp: page_at_nth)
  show "page_at ps ?f q = page_at ps img q" if q: "has_page ps img q" "q \<noteq> v"
  proof -
    have hq: "has_page ps ?f q" using q by (simp add: has_page_def l)
    have "?f ! i = img ! i" if "unat q * ps \<le> i" "i < unat q * ps + ps" for i
      using page_ranges[OF q(2), of ps] that q(1) n[of i] l by (auto simp: has_page_def)
    then show ?thesis using q(1) hq by (simp add: page_at_nth)
  qed
qed

lemma truncate_page:
  "has_page ps img pid \<Longrightarrow> unat pid < n \<Longrightarrow> page_at ps (memTruncate img (n * ps)) pid = page_at ps img pid"
  "unat pid < n \<Longrightarrow> has_page ps (memTruncate img (n * ps)) pid"
proof -
  have len: "length (memTruncate img (n * ps)) = n * ps" by (rule mem_file.size_trunc)
  have le: "unat pid * ps + ps \<le> n * ps" if "unat pid < n"
    using mult_le_mono1[of "Suc (unat pid)" n ps] that by simp
  show t: "has_page ps (memTruncate img (n * ps)) pid" if "unat pid < n"
    using le[OF that] by (simp add: has_page_def len)
  show "page_at ps (memTruncate img (n * ps)) pid = page_at ps img pid" if "has_page ps img pid" "unat pid < n"
  proof -
    have "memTruncate img (n * ps) ! i = img ! i" if "i < unat pid * ps + ps" for i
      using mem_file.byte_trunc[of i "n * ps" img] le[OF \<open>unat pid < n\<close>] that \<open>has_page ps img pid\<close>
      by (auto simp: has_page_def)
    then show ?thesis using that t by (simp add: page_at_nth)
  qed
qed

section \<open>What the files hold\<close>

text \<open>The last image of a page in a list of log records, and the page recovery would find.\<close>

definition last_image :: "(PageImage \<times> u32) list \<Rightarrow> u64 \<Rightarrow> bytes option" where
  "last_image recs pid = map_of (rev (map (\<lambda>r. (iPageID (fst r), iPayload (fst r))) recs)) pid"

lemma last_image_Nil [simp]: "last_image [] pid = None"
  by (simp add: last_image_def)

lemma last_image_append: "last_image (xs @ ys) pid = (case last_image ys pid of Some b \<Rightarrow> Some b | None \<Rightarrow> last_image xs pid)"
  unfolding last_image_def by (simp add: map_add_def)

lemma last_image_one: "last_image [frame_record fr] pid = (if pid = PageID (fHeader fr) then Some (fPayload fr) else None)"
  by (simp add: last_image_def frame_record_def)

definition stored :: "nat \<Rightarrow> bytes \<Rightarrow> (PageImage \<times> u32) list \<Rightarrow> u64 \<Rightarrow> bytes option" where
  "stored ps img recs pid =
     (case last_image recs pid of Some b \<Rightarrow> Some b
      | None \<Rightarrow> if has_page ps img pid then Some (page_at ps img pid) else None)"

text \<open>Replaying the records brings every stored page into the file.\<close>

lemma replay_stored:
  assumes "\<forall>r \<in> set recs. length (iPayload (fst r)) = ps" and "map frame_record frs = recs" and "stored ps img recs pid = Some b"
  shows "has_page ps (replay ps img frs) pid \<and> page_at ps (replay ps img frs) pid = b"
  using assms
proof (induction frs arbitrary: recs b rule: rev_induct)
  case Nil
  then show ?case by (auto simp: stored_def replay_def split: if_splits)
next
  case (snoc fr frs)
  let ?m = "replay ps img frs"
  let ?rec = "frame_record fr"
  obtain rs where rs: "recs = rs @ [?rec]" "map frame_record frs = rs" using snoc.prems(2) by auto
  have len: "length (fPayload fr) = ps" using snoc.prems(1) rs(1) by (simp add: frame_record_def)
  have step: "replay ps img (frs @ [fr]) = memWriteAt ?m (fPayload fr) (unat (PageID (fHeader fr)) * ps)"
    by (simp add: replay_def)
  show ?case
  proof (cases "pid = PageID (fHeader fr)")
    case True
    then have "b = fPayload fr" using snoc.prems(3) rs(1)
      by (simp add: stored_def last_image_append last_image_one)
    then show ?thesis using write_page(1,2)[OF len] True step by simp
  next
    case False
    then have "stored ps img rs pid = Some b" using snoc.prems(3) rs(1)
      by (simp add: stored_def last_image_append last_image_one)
    then have "has_page ps ?m pid \<and> page_at ps ?m pid = b" using snoc.IH rs snoc.prems(1) by simp
    then show ?thesis using write_page(3,4)[OF len] False step by metis
  qed
qed

section \<open>The invariant\<close>

definition valid_size :: "nat \<Rightarrow> bool" where
  "valid_size ps \<longleftrightarrow> ps \<in> {4096, 8192, 16384, 32768, 65536}"

text \<open>\<open>com\<close> is the committed database of \<open>n\<close> pages, \<open>recs\<close> the records of the log, \<open>cnt\<close> the number of
  pages in use. A resident page is clean and equal to its committed bytes and to the main file, or
  dirty and committed and in the log, or dirty with an LSN past the durable one.\<close>

definition frame_ok :: "nat \<Rightarrow> (u64 \<Rightarrow> bytes) \<Rightarrow> nat \<Rightarrow> (PageImage \<times> u32) list \<Rightarrow> Pager \<Rightarrow> u64 \<Rightarrow> pframe \<Rightarrow> bool" where
  "frame_ok cnt com n recs p pid f \<longleftrightarrow>
     length (fr_Buf f) = p_pageSize p \<and> unat pid < cnt
     \<and> (if fr_dirty f
        then fr_pageLSN f \<le> p_nextLSN p
          \<and> (fr_pageLSN f \<le> p_walFlushedLSN p \<longrightarrow> unat pid < n \<and> fr_Buf f = com pid \<and> last_image recs pid \<noteq> None)
        else unat pid < n \<and> fr_Buf f = com pid \<and> has_page (p_pageSize p) (p_main p) pid
          \<and> page_at (p_pageSize p) (p_main p) pid = com pid)"

definition header_in :: "nat \<Rightarrow> byte \<Rightarrow> bytes \<Rightarrow> bool" where
  "header_in ps algo b \<longleftrightarrow>
     (\<exists>h. DecodeHeader (take HeaderSize b) = Inr h \<and> unat (PageSize h) = ps \<and> ChecksumAlgo h = algo)"

lemma take_header_page: "HeaderSize \<le> ps \<Longrightarrow> take HeaderSize (page_at ps img 0) = take HeaderSize img"
  by (simp add: page_at_def sub_def min_def)

lemma header_in_page: "HeaderSize \<le> ps \<Longrightarrow> header_in ps algo (page_at ps img 0) = header_in ps algo img"
  by (simp add: header_in_def take_header_page)

definition log_ok :: "nat \<Rightarrow> nat \<Rightarrow> (PageImage \<times> u32) list \<Rightarrow> Pager \<Rightarrow> bool" where
  "log_ok ps n recs p \<longleftrightarrow>
     (\<exists>w. p_walw p = Some w \<and> wal_holds w recs \<and> wPageSize (wheader w) = of_nat ps)
     \<and> (\<forall>r \<in> set recs. unat (iPageID (fst r)) < n \<and> length (iPayload (fst r)) = ps)
     \<and> (recs \<noteq> [] \<longrightarrow> unat (snd (last recs)) = n)"

definition com_ok :: "nat \<Rightarrow> byte \<Rightarrow> (u64 \<Rightarrow> bytes) \<Rightarrow> nat \<Rightarrow> bool" where
  "com_ok ps algo com n \<longleftrightarrow>
     0 < n \<and> n < 2 ^ 32 \<and> header_in ps algo (com 0)
     \<and> (\<exists>h. DecodeHeader (take HeaderSize (com 0)) = Inr h \<and> unat (PageCount h) = n)
     \<and> (\<forall>pid. unat pid < n \<longrightarrow> length (com pid) = ps)
     \<and> (\<forall>pid. unat pid < n \<longrightarrow> pid \<noteq> 0 \<longrightarrow> VerifyPageChecksum (com pid) algo = Some None)"

definition pages_ok :: "nat \<Rightarrow> nat \<Rightarrow> (u64 \<Rightarrow> bytes) \<Rightarrow> nat \<Rightarrow> (PageImage \<times> u32) list \<Rightarrow> Pager \<Rightarrow> bool" where
  "pages_ok held cnt com n recs p \<longleftrightarrow>
     pool_ok held (p_pool p) \<and> pl_pageSize (p_pool p) = p_pageSize p \<and> n \<le> cnt
     \<and> frame_at p 0 \<noteq> None
     \<and> (\<forall>pid f. frame_at p pid = Some f \<longrightarrow> frame_ok cnt com n recs p pid f)
     \<and> (\<forall>pid. unat pid < cnt \<longrightarrow> frame_at p pid = None \<longrightarrow>
          unat pid < n \<and> has_page (p_pageSize p) (p_main p) pid \<and> page_at (p_pageSize p) (p_main p) pid = com pid)
     \<and> (\<forall>pid. unat pid < n \<longrightarrow> stored (p_pageSize p) (p_main p) recs pid = Some (com pid))
     \<and> length (p_main p) \<le> n * p_pageSize p \<and> has_page (p_pageSize p) (p_main p) 0
     \<and> header_in (p_pageSize p) (p_checksum p) (p_main p)
     \<and> p_walFlushedLSN p \<le> p_nextLSN p
     \<and> log_ok (p_pageSize p) n recs p \<and> com_ok (p_pageSize p) (p_checksum p) com n
     \<and> valid_size (p_pageSize p) \<and> Supported (p_checksum p)
     \<and> \<not> p_closed p \<and> \<not> p_readOnly p"

text \<open>The bytes of a page in use.\<close>

definition content :: "Pager \<Rightarrow> u64 \<Rightarrow> bytes" where
  "content p pid = (case frame_at p pid of Some f \<Rightarrow> fr_Buf f | None \<Rightarrow> page_at (p_pageSize p) (p_main p) pid)"

text \<open>The header in memory is the one on page 0.\<close>

definition hdr_ok :: "Pager \<Rightarrow> bool" where
  "hdr_ok p \<longleftrightarrow> openable (p_hdr p) \<and> unat (PageSize (p_hdr p)) = p_pageSize p \<and> ChecksumAlgo (p_hdr p) = p_checksum p
     \<and> (\<exists>s. DecodeHeader (take HeaderSize (content p 0)) = Inr (p_hdr p\<lparr>HeaderChecksum := s\<rparr>))"

definition pager_ok :: "(u64 \<Rightarrow> bytes) \<Rightarrow> nat \<Rightarrow> (PageImage \<times> u32) list \<Rightarrow> Pager \<Rightarrow> bool" where
  "pager_ok com n recs p \<longleftrightarrow> pages_ok 0 (unat (PageCount (p_hdr p))) com n recs p \<and> hdr_ok p"

lemma pages_okD:
  assumes "pages_ok held cnt com n recs p"
  shows "pool_ok held (p_pool p)" "pl_pageSize (p_pool p) = p_pageSize p" "n \<le> cnt" "frame_at p 0 \<noteq> None"
    "frame_at p pid = Some f \<Longrightarrow> frame_ok cnt com n recs p pid f"
    "unat pid < cnt \<Longrightarrow> frame_at p pid = None \<Longrightarrow> unat pid < n"
    "unat pid < cnt \<Longrightarrow> frame_at p pid = None \<Longrightarrow> has_page (p_pageSize p) (p_main p) pid"
    "unat pid < cnt \<Longrightarrow> frame_at p pid = None \<Longrightarrow> page_at (p_pageSize p) (p_main p) pid = com pid"
    "unat pid < n \<Longrightarrow> stored (p_pageSize p) (p_main p) recs pid = Some (com pid)"
    "length (p_main p) \<le> n * p_pageSize p" "has_page (p_pageSize p) (p_main p) 0"
    "header_in (p_pageSize p) (p_checksum p) (p_main p)" "p_walFlushedLSN p \<le> p_nextLSN p"
    "log_ok (p_pageSize p) n recs p" "com_ok (p_pageSize p) (p_checksum p) com n"
    "valid_size (p_pageSize p)" "Supported (p_checksum p)" "\<not> p_closed p" "\<not> p_readOnly p"
  using assms unfolding pages_ok_def by blast+

lemma pages_ok_size: "pages_ok held cnt com n recs p \<Longrightarrow> 4096 \<le> p_pageSize p"
  by (auto simp: valid_size_def dest!: pages_okD(16))

text \<open>The offset of a 32-bit page number does not wrap.\<close>

lemma page_off_small:
  assumes "unat pid < 2 ^ 32" "p_pageSize p \<le> 65536"
  shows "\<not> page_off p pid < 0" "nat (page_off p pid) = unat pid * p_pageSize p"
proof -
  have b: "unat pid * p_pageSize p \<le> 2 ^ 32 * 65536" using assms by (intro mult_le_mono) simp_all
  have ps: "unat (of_nat (p_pageSize p) :: u64) = p_pageSize p" using assms(2) by (simp add: unat_of_nat)
  have u: "unat (pid * of_nat (p_pageSize p)) = unat pid * p_pageSize p"
    using b ps by (subst unat_mult_lem[THEN iffD1]) simp_all
  have ui: "uint (pid * of_nat (p_pageSize p)) = int (unat pid * p_pageSize p)" unfolding u[symmetric] by simp
  have "unat pid * p_pageSize p < 2 ^ 63" using b by (rule le_less_trans) simp
  then have "int (unat pid * p_pageSize p) < 2 ^ 63" by (metis of_nat_less_iff of_nat_numeral of_nat_power)
  then have "page_off p pid = int (unat pid * p_pageSize p)"
    unfolding page_off_def sint_uint ui
    by (intro signed_take_bit_int_eq_self) (simp_all del: of_nat_mult)
  then show "\<not> page_off p pid < 0" "nat (page_off p pid) = unat pid * p_pageSize p" by (simp_all only: nat_int)
qed

lemma page_off_ok:
  assumes "pages_ok held cnt com n recs p" "unat pid < 2 ^ 32"
  shows "\<not> page_off p pid < 0" "nat (page_off p pid) = unat pid * p_pageSize p"
  using page_off_small[OF assms(2), of p] pages_okD(16)[OF assms(1)] by (auto simp: valid_size_def)

lemma pages_ok_count: "pages_ok held cnt com n recs p \<Longrightarrow> n < 2 ^ 32"
  by (auto simp: com_ok_def dest!: pages_okD(15))

end
