(* ===== verification/Pager_Steps.thy ===== *)
theory Pager_Steps
  imports Pager_Invariant
begin

text \<open>
  The pager's operations one by one: each keeps the invariant of \<open>Pager_Invariant\<close>, and each says
  what it does to the pages in use. Fetching, unpinning and evicting change no page; marking a page
  dirty changes that page; allocation adds a zeroed page.
\<close>

section \<open>Changes of the pool\<close>

lemma frame_ok_simps [simp]:
  "frame_ok cnt com n recs (p\<lparr>p_pool := pl\<rparr>) = frame_ok cnt com n recs p"
  "frame_ok cnt com n recs (p\<lparr>p_hdr := h\<rparr>) = frame_ok cnt com n recs p"
  by (auto simp: frame_ok_def fun_eq_iff)

lemma log_ok_simps [simp]:
  "log_ok ps n recs (p\<lparr>p_pool := pl\<rparr>) = log_ok ps n recs p" "log_ok ps n recs (p\<lparr>p_hdr := h\<rparr>) = log_ok ps n recs p"
  "log_ok ps n recs (p\<lparr>p_main := m\<rparr>) = log_ok ps n recs p" "log_ok ps n recs (p\<lparr>p_nextLSN := l\<rparr>) = log_ok ps n recs p"
  by (simp_all add: log_ok_def)

lemma pages_ok_hdr [simp]: "pages_ok held cnt com n recs (p\<lparr>p_hdr := h\<rparr>) = pages_ok held cnt com n recs p"
  by (simp add: pages_ok_def)

lemma pages_ok_pool:
  assumes "pages_ok held cnt com n recs p" and "pool_ok held' pl" and "pl_pageSize pl = p_pageSize p"
    and "pool_lookup pl 0 \<noteq> None" and "\<And>pid f. pool_lookup pl pid = Some f \<Longrightarrow> frame_ok cnt com n recs p pid f"
    and "\<And>pid. unat pid < cnt \<Longrightarrow> pool_lookup pl pid = None \<Longrightarrow> frame_at p pid \<noteq> None \<Longrightarrow>
      unat pid < n \<and> has_page (p_pageSize p) (p_main p) pid \<and> page_at (p_pageSize p) (p_main p) pid = com pid"
  shows "pages_ok held' cnt com n recs (p\<lparr>p_pool := pl\<rparr>)"
  using assms unfolding pages_ok_def by (simp; meson)

text \<open>Only the pins of a page change, or its place in the lists.\<close>

lemma pages_ok_repin:
  assumes ok: "pages_ok held cnt com n recs p" and f: "frame_at p pid = Some f"
  shows "pages_ok held cnt com n recs (put_frame pid (f\<lparr>fr_pins := k\<rparr>) p)"
  unfolding put_frame_def
proof (rule pages_ok_pool[OF ok])
  show "pool_ok held (set_frame pid (f\<lparr>fr_pins := k\<rparr>) (p_pool p))"
    using pool_ok_set_frame[OF pages_okD(1)[OF ok] f] by simp
  show "frame_ok cnt com n recs p v g" if "pool_lookup (set_frame pid (f\<lparr>fr_pins := k\<rparr>) (p_pool p)) v = Some g" for v g
    using that pages_okD(5)[OF ok f] pages_okD(5)[OF ok, of v g] by (auto simp: frame_ok_def split: if_splits)
qed (use pages_okD(2,4)[OF ok] in \<open>auto split: if_splits\<close>)

lemma pages_ok_Unpin: "pages_ok held cnt com n recs p \<Longrightarrow> pages_ok held cnt com n recs (Unpin pid p)"
  by (auto simp: Unpin_def pages_ok_repin split: option.splits)

section \<open>Writing back and eviction\<close>

lemma page_off_bounds:
  assumes "pages_ok held cnt com n recs p" "unat (v :: u64) < n"
  shows "unat v < 2 ^ 32" "p_pageSize p \<le> 65536"
  using assms pages_ok_count[OF assms(1)] by (auto simp: valid_size_def dest!: pages_okD(16))

text \<open>A committed page can be written to the main file at any time.\<close>

lemma pages_ok_write_back:
  assumes ok: "pages_ok held cnt com n recs p" and v: "unat v < n" "last_image recs v \<noteq> None"
  shows "pages_ok held cnt com n recs (p\<lparr>p_main := memWriteAt (p_main p) (com v) (unat v * p_pageSize p)\<rparr>)"
    and "has_page (p_pageSize p) (memWriteAt (p_main p) (com v) (unat v * p_pageSize p)) v"
    and "page_at (p_pageSize p) (memWriteAt (p_main p) (com v) (unat v * p_pageSize p)) v = com v"
proof -
  let ?p = "p\<lparr>p_main := memWriteAt (p_main p) (com v) (unat v * p_pageSize p)\<rparr>"
  let ?ps = "p_pageSize p"
  have c: "com_ok ?ps (p_checksum p) com n" by (rule pages_okD(15)[OF ok])
  then have len: "length (com v) = ?ps" using v(1) by (simp add: com_ok_def)
  note w = write_page[OF len, where v = v]
  show v': "has_page ?ps (memWriteAt (p_main p) (com v) (unat v * p_pageSize p)) v"
    "page_at ?ps (memWriteAt (p_main p) (com v) (unat v * p_pageSize p)) v = com v"
    using w(1,2) by simp_all
  have q: "has_page ?ps (p_main ?p) q \<and> page_at ?ps (p_main ?p) q = com q"
    if "has_page ?ps (p_main p) q" "page_at ?ps (p_main p) q = com q" for q
    using that w(3,4)[where img = "p_main p" and q = q] v' by (cases "q = v") auto
  have fr: "frame_ok cnt com n recs ?p pid f" if "frame_at p pid = Some f" for pid f
    using pages_okD(5)[OF ok that] q[of pid] by (auto simp: frame_ok_def)
  have st: "stored ?ps (p_main ?p) recs pid = Some (com pid)" if "unat pid < n" for pid
    using pages_okD(9)[OF ok that] q[of pid] v(2) unfolding stored_def
    by (auto split: option.splits if_splits)
  have "unat v * ?ps + ?ps \<le> n * ?ps" using v(1) mult_le_mono1[of "Suc (unat v)" n ?ps] by simp
  then have lm: "length (p_main ?p) \<le> n * ?ps"
    using mem_file.size_wr[of "p_main p" "com v" "unat v * p_pageSize p"] pages_okD(10)[OF ok] len by simp
  have "page_at ?ps (p_main ?p) 0 = (if v = 0 then com 0 else page_at ?ps (p_main p) 0)"
    using w(4)[where img = "p_main p" and q = 0] pages_okD(11)[OF ok] v'(2) by auto
  moreover have "header_in ?ps (p_checksum p) (page_at ?ps (p_main p) 0)" "header_in ?ps (p_checksum p) (com 0)"
    using c pages_okD(12)[OF ok] pages_ok_size[OF ok] by (simp_all add: header_in_page com_ok_def)
  ultimately have "header_in ?ps (p_checksum p) (page_at ?ps (p_main ?p) 0)" by simp
  then have h: "header_in ?ps (p_checksum p) (p_main ?p)"
    using pages_ok_size[OF ok] by (simp add: header_in_page)
  show "pages_ok held cnt com n recs ?p"
    using ok fr q st lm h w(3)[where img = "p_main p" and q = 0] unfolding pages_ok_def
    by simp
qed


text \<open>Taking a victim out of the table.\<close>

lemma pages_ok_evict:
  assumes ok: "pages_ok held cnt com n recs p" and pl: "pool_ok (Suc held) pl" "pl_pageSize pl = p_pageSize p"
    "pool_lookup pl = (pool_lookup (p_pool p))(v := None)" and v: "v \<noteq> 0"
    and st: "unat v < n" "has_page (p_pageSize p) (p_main p) v" "page_at (p_pageSize p) (p_main p) v = com v"
  shows "pages_ok (Suc held) cnt com n recs (p\<lparr>p_pool := pl\<rparr>)"
proof (rule pages_ok_pool[OF ok pl(1,2)])
  show "frame_ok cnt com n recs p w g" if "pool_lookup pl w = Some g" for w g
    using that pages_okD(5)[OF ok, of w g] by (auto simp: pl(3) split: if_splits)
qed (use pages_okD(4)[OF ok] v st in \<open>auto simp: pl(3) split: if_splits\<close>)

lemma victim_frame:
  assumes "pages_ok held cnt com n recs p" "victim_of ((p_pool p)\<lparr>pl_committedLSN := p_walFlushedLSN p\<rparr>) v f"
  shows "frame_at p v = Some f" "v \<noteq> 0" "unat v < n" "fr_Buf f = com v" "fr_pins f = 0"
    "fr_dirty f \<Longrightarrow> last_image recs v \<noteq> None \<and> fr_pageLSN f \<le> p_walFlushedLSN p"
    "\<not> fr_dirty f \<Longrightarrow> has_page (p_pageSize p) (p_main p) v \<and> page_at (p_pageSize p) (p_main p) v = com v"
proof -
  have "frame_at p v = Some f" "v \<noteq> 0" and e: "fr_pins f = 0" "fr_dirty f \<longrightarrow> fr_pageLSN f \<le> p_walFlushedLSN p"
    using assms(2) by (auto simp: victim_of_def evictable_def not_less)
  then show "frame_at p v = Some f" "v \<noteq> 0" "fr_pins f = 0" by blast+
  from pages_okD(5)[OF assms(1) this(1)] e(2)
  show "unat v < n" "fr_Buf f = com v" "fr_dirty f \<Longrightarrow> last_image recs v \<noteq> None \<and> fr_pageLSN f \<le> p_walFlushedLSN p"
    "\<not> fr_dirty f \<Longrightarrow> has_page (p_pageSize p) (p_main p) v \<and> page_at (p_pageSize p) (p_main p) v = com v"
    by (auto simp: frame_ok_def split: if_splits)
qed

lemma pages_ok_committed [simp]:
  "pages_ok held cnt com n recs (p\<lparr>p_pool := (p_pool p)\<lparr>pl_committedLSN := c\<rparr>\<rparr>) = pages_ok held cnt com n recs p"
  by (simp add: pages_ok_def pool_ok_def)

text \<open>\<^verbatim>\<open>obtainFrameLocked\<close> changes no page: an evicted page is in the main file. Pinned pages stay, and
  the only error is an exhausted pool.\<close>

definition unmoved :: "nat \<Rightarrow> Pager \<Rightarrow> Pager \<Rightarrow> bool" where
  "unmoved cnt p p' \<longleftrightarrow>
     p' = p\<lparr>p_main := p_main p', p_pool := p_pool p'\<rparr> \<and> (\<forall>pid. unat pid < cnt \<longrightarrow> content p' pid = content p pid)"

lemma obtainFrameLocked_cases:
  assumes ok: "pages_ok held cnt com n recs p"
  obtains (full) p' where "obtainFrameLocked p = (p', Inl ErrPoolExhausted)" "pages_ok held cnt com n recs p'"
      "p' = p\<lparr>p_pool := (p_pool p)\<lparr>pl_committedLSN := p_walFlushedLSN p\<rparr>\<rparr>"
    | (got) p' f where "obtainFrameLocked p = (p', Inr f)" "pages_ok (Suc held) cnt com n recs p'" "unmoved cnt p p'"
      "\<And>pid g. frame_at p' pid = Some g \<Longrightarrow> frame_at p pid = Some g"
      "\<And>pid g. frame_at p pid = Some g \<Longrightarrow> fr_pins g \<noteq> 0 \<Longrightarrow> frame_at p' pid = Some g" "fr_pins f = 0"
proof -
  let ?pl = "(p_pool p)\<lparr>pl_committedLSN := p_walFlushedLSN p\<rparr>"
  let ?p = "p\<lparr>p_pool := ?pl\<rparr>"
  have ok': "pages_ok held cnt com n recs ?p" using ok by simp
  show thesis
  proof (cases rule: obtainFrame_cases[OF pages_okD(1)[OF ok', simplified]])
    case (1 g)
    let ?p' = "p\<lparr>p_pool := ?pl\<lparr>pl_resident := pl_resident ?pl + 1\<rparr>\<rparr>"
    have "pages_ok (Suc held) cnt com n recs ?p'"
      using pages_ok_pool[OF ok 1(4)] pages_okD(2,4,5)[OF ok] by simp
    then show thesis using 1 by (intro got[of ?p' g])
        (auto simp: obtainFrameLocked_def unmoved_def content_def split: option.splits)
  next
    case (2 pl1 v f)
    note vf = victim_frame[OF ok 2(2)]
    have k: "pages_ok (Suc held) cnt com n recs (p\<lparr>p_pool := pl1\<rparr>)"
      using pages_ok_evict[OF ok 2(5) _ _ vf(2,3)] 2 vf(7) pages_okD(2)[OF ok] by simp
    show thesis using 2 vf k
      by (intro got[of "p\<lparr>p_pool := pl1\<rparr>" "f\<lparr>fr_loc := listNone\<rparr>"])
        (auto simp: obtainFrameLocked_def unmoved_def content_def split: if_splits option.splits)
  next
    case (3 pl1 v f)
    note vf = victim_frame[OF ok 3(2)]
    let ?m = "memWriteAt (p_main p) (com v) (unat v * p_pageSize p)"
    let ?p' = "p\<lparr>p_main := ?m, p_pool := pl1\<rparr>"
    note w = pages_ok_write_back[OF ok vf(3) conjunct1[OF vf(6)[OF 3(3)]]]
    have k: "pages_ok (Suc held) cnt com n recs ?p'"
      using pages_ok_evict[OF w(1) 3(5) _ _ vf(2,3)] 3 w(2,3) pages_okD(2)[OF ok] by simp
    have run: "obtainFrameLocked p = (?p', Inr (reuseVictim f))"
      using 3 vf(4,6) page_off_small[of v "p\<lparr>p_pool := pl1\<rparr>"] page_off_bounds[OF ok vf(3)]
      by (simp add: obtainFrameLocked_def writeBack_def Let_def leD)
    have "content ?p' pid = content p pid" if "unat pid < cnt" for pid
    proof (cases "pid = v")
      case True
      then show ?thesis using w(3) vf(1,4) 3(4) by (simp add: content_def)
    next
      case False
      show ?thesis
      proof (cases "frame_at p pid")
        case None
        then have "has_page (p_pageSize p) (p_main p) pid" using pages_okD(7)[OF ok that] by simp
        moreover have "length (com v) = p_pageSize p" using pages_okD(15)[OF ok] vf(3) by (simp add: com_ok_def)
        ultimately show ?thesis using None False 3(4) write_page(4)[of "com v" "p_pageSize p" "p_main p" pid v]
          by (simp add: content_def)
      qed (use False 3(4) in \<open>simp add: content_def\<close>)
    qed
    then show thesis using run k 3 vf
      by (intro got[of ?p' "reuseVictim f"]) (auto simp: unmoved_def reuseVictim_def split: if_splits)
  next
    case 4
    then show thesis using ok' by (intro full[of ?p]) (auto simp: obtainFrameLocked_def)
  qed
qed


section \<open>Fetching\<close>

lemma unmoved_refl: "unmoved cnt p p"
  by (simp add: unmoved_def)

lemma unmoved_trans: "unmoved cnt p q \<Longrightarrow> unmoved cnt q r \<Longrightarrow> unmoved cnt p r"
  unfolding unmoved_def by (cases p; cases q; cases r) auto

lemma unmovedD:
  assumes "unmoved cnt p p'"
  shows "p_hdr p' = p_hdr p" "p_pageSize p' = p_pageSize p" "p_nextLSN p' = p_nextLSN p" "p_checksum p' = p_checksum p"
    "p_walFlushedLSN p' = p_walFlushedLSN p" "p_walw p' = p_walw p"
    "p_ckptN p' = p_ckptN p" "p_walFrames p' = p_walFrames p" "p_backupActive p' = p_backupActive p"
    "unat pid < cnt \<Longrightarrow> content p' pid = content p pid"
proof -
  have e: "p' = p\<lparr>p_main := p_main p', p_pool := p_pool p'\<rparr>" using assms by (simp add: unmoved_def)
  show "p_hdr p' = p_hdr p" "p_pageSize p' = p_pageSize p" "p_nextLSN p' = p_nextLSN p" "p_checksum p' = p_checksum p"
    "p_walFlushedLSN p' = p_walFlushedLSN p" "p_walw p' = p_walw p"
    "p_ckptN p' = p_ckptN p" "p_walFrames p' = p_walFrames p" "p_backupActive p' = p_backupActive p"
    by (subst e, simp)+
  show "content p' pid = content p pid" if "unat pid < cnt" using assms that by (simp add: unmoved_def)
qed

lemma unmoved_hdr_ok: "unmoved cnt p p' \<Longrightarrow> 0 < cnt \<Longrightarrow> hdr_ok p' = hdr_ok p"
  using unmovedD[of cnt p p'] by (simp add: hdr_ok_def)

lemma content_put_frame: "content (put_frame pid f p) = (content p)(pid := fr_Buf f)"
  by (auto simp: content_def put_frame_def fun_eq_iff split: option.splits)

lemma unmoved_pool: "(\<And>pid. content (p\<lparr>p_pool := pl\<rparr>) pid = content p pid) \<Longrightarrow> unmoved cnt p (p\<lparr>p_pool := pl\<rparr>)"
  by (simp add: unmoved_def)

lemma unmoved_put_frame:
  "frame_at p pid = Some f \<Longrightarrow> fr_Buf g = fr_Buf f \<Longrightarrow> unmoved cnt p (put_frame pid g p)"
  unfolding put_frame_def by (rule unmoved_pool) (auto simp: content_def split: option.splits)

lemma unmoved_Unpin: "unmoved cnt p (Unpin pid p)"
  by (auto simp: Unpin_def unmoved_refl split: option.splits intro: unmoved_put_frame)

text \<open>A page in use that is not resident is read from the main file as it was committed.\<close>

lemma readPageInto_ok:
  assumes ok: "pages_ok held cnt com n recs p" and pid: "unat pid < cnt" "frame_at p pid = None"
  shows "readPageInto p pid = Inr (com pid)"
proof -
  have "pid \<noteq> 0" using pid(2) pages_okD(4)[OF ok] by auto
  moreover have "VerifyPageChecksum (com pid) (p_checksum p) = Some None" if "pid \<noteq> 0"
    using pages_okD(15)[OF ok] pages_okD(6)[OF ok pid] that by (simp add: com_ok_def)
  moreover have "memReadAt (p_main p) (p_pageSize p) (unat pid * p_pageSize p) = (com pid, False)"
    using memReadAt_page[OF pages_okD(7)[OF ok pid]] pages_ok_size[OF ok] pages_okD(8)[OF ok pid] by simp
  ultimately show ?thesis using page_off_small[OF page_off_bounds[OF ok pages_okD(6)[OF ok pid]]] by (simp add: readPageInto_def)
qed

lemma pages_ok_admit:
  assumes ok: "pages_ok (Suc held) cnt com n recs p" and pid: "unat pid < cnt" "frame_at p pid = None"
    and f: "fr_Buf f = com pid" "\<not> fr_dirty f"
  shows "pages_ok held cnt com n recs (p\<lparr>p_pool := admit (p_pool p) f pid\<rparr>)"
proof (rule pages_ok_pool[OF ok])
  have z: "pid \<noteq> 0" using pid(2) pages_okD(4)[OF ok] by auto
  show "pool_ok held (admit (p_pool p) f pid)" by (rule pool_ok_admit[OF pages_okD(1)[OF ok] pid(2) z])
  have "length (com pid) = p_pageSize p" using pages_okD(15)[OF ok] pages_okD(6)[OF ok pid] by (simp add: com_ok_def)
  then show "frame_ok cnt com n recs p v g" if "pool_lookup (admit (p_pool p) f pid) v = Some g" for v g
    using that f pid pages_okD(5)[OF ok, of v g] pages_okD(6-8)[OF ok pid] by (auto simp: frame_ok_def split: if_splits)
qed (use pages_okD(2,4)[OF ok] in \<open>auto split: if_splits\<close>)

lemma fetchLocked_cases:
  assumes ok: "pages_ok 0 cnt com n recs p" and pid: "unat pid < cnt"
  obtains (full) p' where "fetchLocked pid p = (p', Inl ErrPoolExhausted)" "pages_ok 0 cnt com n recs p'"
      "unmoved cnt p p'" "frame_at p pid = None"
    | (got) p' f where "fetchLocked pid p = (p', Inr (content p pid))" "pages_ok 0 cnt com n recs p'" "unmoved cnt p p'"
      "frame_at p' pid = Some f" "fr_Buf f = content p pid"
      "\<And>q g. frame_at p q = Some g \<Longrightarrow> q \<noteq> pid \<Longrightarrow> fr_pins g \<noteq> 0 \<Longrightarrow> frame_at p' q = Some g"
      "fr_pins f = (case frame_at p pid of None \<Rightarrow> 1 | Some g \<Rightarrow> fr_pins g + 1)"
proof (cases "frame_at p pid")
  case (Some f)
  let ?f = "f\<lparr>fr_pins := fr_pins f + 1\<rparr>" let ?p = "put_frame pid ?f p"
  let ?p' = "?p\<lparr>p_pool := recordHit (p_pool ?p) pid ?f\<rparr>"
  have p: "pages_ok 0 cnt com n recs ?p" by (rule pages_ok_repin[OF ok Some])
  have l: "frame_at ?p pid = Some ?f" by (simp add: put_frame_def)
  have "pages_ok 0 cnt com n recs ?p'"
    by (rule pages_ok_pool[OF p pool_ok_recordHit[OF pages_okD(1)[OF p] l]]) (use pages_okD[OF p] in auto)
  moreover have "unmoved cnt p ?p'"
    using unmoved_pool[where p = p and pl = "recordHit (set_frame pid ?f (p_pool p)) pid ?f"] Some
    by (auto simp: content_def put_frame_def split: option.splits if_splits)
  ultimately show thesis
    using Some pages_okD(18)[OF ok] by (intro got[of ?p' ?f]) (auto simp: fetchLocked_def content_def put_frame_def Let_def)
next
  case None
  have nc: "\<not> p_closed p" by (rule pages_okD(18)[OF ok])
  show thesis
  proof (cases rule: obtainFrameLocked_cases[OF ok])
    case (1 p')
    then show thesis using None nc by (intro full[of p']) (auto simp: fetchLocked_def unmoved_def content_def split: option.splits)
  next
    case (2 p1 f)
    have n1: "frame_at p1 pid = None" using 2(4)[of pid] None by (cases "frame_at p1 pid") auto
    note r = readPageInto_ok[OF 2(2) pid n1]
    have c: "content p pid = com pid" using None pages_okD(8)[OF ok pid] by (simp add: content_def)
    let ?f = "f\<lparr>fr_Buf := com pid, fr_pageLSN := readPageLSN pid (com pid), fr_dirty := False, fr_pins := fr_pins f + 1\<rparr>"
    let ?p' = "p1\<lparr>p_pool := admit (p_pool p1) ?f pid\<rparr>"
    have u: "unmoved cnt p1 ?p'"
      using c unmovedD(10)[OF 2(3) pid] by (auto simp: unmoved_def content_def split: option.splits)
    show thesis
    proof (rule got)
      show "fetchLocked pid p = (?p', Inr (content p pid))"
        using None nc 2(1) r c by (simp add: fetchLocked_def)
      show "pages_ok 0 cnt com n recs ?p'" by (rule pages_ok_admit[OF 2(2) pid n1]) simp_all
      show "unmoved cnt p ?p'" by (rule unmoved_trans[OF 2(3) u])
    qed (use c None 2(5,6) in \<open>auto\<close>)
  qed
qed


text \<open>A page number past the end of the database is refused.\<close>

lemma fetchLocked_out_of_range:
  assumes ok: "pager_ok com n recs p" and pid: "unat (PageCount (p_hdr p)) \<le> unat pid" and w: "unat pid < 2 ^ 32"
  shows "\<exists>p' e. fetchLocked pid p = (p', Inl e) \<and> e \<in> {ErrEOF, ErrPoolExhausted} \<and> pager_ok com n recs p'
    \<and> unmoved (unat (PageCount (p_hdr p))) p p'"
proof -
  let ?c = "unat (PageCount (p_hdr p))"
  have k: "pages_ok 0 ?c com n recs p" using ok by (simp add: pager_ok_def)
  have pos: "0 < ?c" using pages_okD(3)[OF k] pages_okD(15)[OF k] by (simp add: com_ok_def)
  have none: "frame_at p pid = None" using pages_okD(5)[OF k, of pid] pid by (cases "frame_at p pid") (auto simp: frame_ok_def)
  show ?thesis
  proof (cases rule: obtainFrameLocked_cases[OF k])
    case (1 p')
    then have u: "unmoved ?c p p'" by (auto simp: unmoved_def content_def split: option.splits)
    then show ?thesis using 1 ok none pages_okD(18)[OF k] unmoved_hdr_ok[OF u pos] unmovedD(1)[OF u]
      by (auto simp: fetchLocked_def pager_ok_def)
  next
    case (2 p1 f)
    let ?p' = "p1\<lparr>p_pool := (p_pool p1)\<lparr>pl_resident := pl_resident (p_pool p1) - 1\<rparr>\<rparr>"
    have "n * p_pageSize p1 \<le> unat pid * p_pageSize p1" using pid pages_okD(3)[OF k] by (intro mult_le_mono1) simp
    then have "length (p_main p1) \<le> unat pid * p_pageSize p1" using pages_okD(10)[OF 2(2)] by (rule order.trans[rotated])
    then have "readPageInto p1 pid = Inl ErrEOF"
      using pid pages_ok_size[OF 2(2)] unmovedD(1)[OF 2(3)] page_off_ok[OF 2(2) w]
      by (simp add: readPageInto_def memReadAt_def)
    then have run: "fetchLocked pid p = (?p', Inl ErrEOF)"
      using none pages_okD(18)[OF k] 2(1) by (simp add: fetchLocked_def)
    have "pool_ok 0 (p_pool ?p')" using pages_okD(1)[OF 2(2)] by (auto simp: pool_ok_def)
    then have ok': "pages_ok 0 ?c com n recs ?p'"
      using pages_okD(2,4,5)[OF 2(2)] by (intro pages_ok_pool[OF 2(2)]) auto
    have u: "unmoved ?c p ?p'"
      by (rule unmoved_trans[OF 2(3)]) (auto intro!: unmoved_pool simp: content_def split: option.splits)
    then show ?thesis using run ok' ok unmoved_hdr_ok[OF u pos] unmovedD(1)[OF u]
      by (auto simp: pager_ok_def)
  qed
qed

section \<open>Changing a page\<close>

definition stamp_lsn :: "u64 \<Rightarrow> u64 \<Rightarrow> bytes \<Rightarrow> bytes" where
  "stamp_lsn pid lsn buf = (if pid \<noteq> 0 then write_at buf 8 (le_put 8 lsn) else buf)"

lemma length_stamp_lsn [simp]: "16 \<le> length buf \<Longrightarrow> length (stamp_lsn pid lsn buf) = length buf"
  by (simp add: stamp_lsn_def)

text \<open>The LSN counter has \<open>k\<close> values left.\<close>

definition lsn_room :: "nat \<Rightarrow> Pager \<Rightarrow> bool" where
  "lsn_room k p \<longleftrightarrow> unat (p_nextLSN p) + k < 2 ^ 64"

lemma lsn_step: "lsn_room (Suc k) p \<Longrightarrow> p_nextLSN p < p_nextLSN p + 1 \<and> unat (p_nextLSN p + 1) = Suc (unat (p_nextLSN p))"
proof -
  assume "lsn_room (Suc k) p"
  then have "unat (p_nextLSN p + 1) = Suc (unat (p_nextLSN p))"
    by (auto simp: lsn_room_def unat_word_ariths)
  then show ?thesis by (simp add: word_less_nat_alt)
qed

lemma pages_ok_nextLSN:
  assumes ok: "pages_ok held cnt com n recs p" and l: "p_nextLSN p \<le> l"
  shows "pages_ok held cnt com n recs (p\<lparr>p_nextLSN := l\<rparr>)"
proof -
  have m: "frame_ok cnt com n recs (p\<lparr>p_nextLSN := l\<rparr>) v g" if "frame_at p v = Some g" for v g
    using pages_okD(5)[OF ok that] l by (auto simp: frame_ok_def)
  show ?thesis using ok m order.trans[OF pages_okD(13)[OF ok] l] unfolding pages_ok_def by auto
qed

lemma markDirtyLocked_eq:
  assumes "frame_at p pid = Some f"
  shows "markDirtyLocked pid buf p = put_frame pid (f\<lparr>fr_Buf := stamp_lsn pid (p_nextLSN p + 1) buf, fr_dirty := True,
    fr_pageLSN := p_nextLSN p + 1\<rparr>) (p\<lparr>p_nextLSN := p_nextLSN p + 1\<rparr>)"
  using assms by (simp add: markDirtyLocked_def Let_def stamp_lsn_def)

lemma markDirtyLocked_ok:
  assumes ok: "pages_ok held cnt com n recs p" and f: "frame_at p pid = Some f"
    and buf: "length buf = p_pageSize p" and room: "lsn_room (Suc k) p"
  shows "pages_ok held cnt com n recs (markDirtyLocked pid buf p)"
    and "content (markDirtyLocked pid buf p) = (content p)(pid := stamp_lsn pid (p_nextLSN p + 1) buf)"
    and "lsn_room k (markDirtyLocked pid buf p)"
proof -
  let ?l = "p_nextLSN p + 1" let ?q = "p\<lparr>p_nextLSN := ?l\<rparr>"
  let ?g = "f\<lparr>fr_Buf := stamp_lsn pid ?l buf, fr_dirty := True, fr_pageLSN := ?l\<rparr>"
  have l: "p_nextLSN p < ?l" "unat ?l = Suc (unat (p_nextLSN p))" using lsn_step[OF room] by auto
  have fl: "p_walFlushedLSN p < ?l" using pages_okD(13)[OF ok] l(1) by simp
  have q: "pages_ok held cnt com n recs ?q" using pages_ok_nextLSN[OF ok] l(1) by simp
  have "unat pid < cnt" using pages_okD(5)[OF ok f] by (simp add: frame_ok_def)
  then have g: "frame_ok cnt com n recs ?q pid ?g"
    using fl buf pages_ok_size[OF ok] by (auto simp: frame_ok_def)
  have "pages_ok held cnt com n recs (put_frame pid ?g ?q)"
    unfolding put_frame_def
  proof (rule pages_ok_pool[OF q])
    show "pool_ok held (set_frame pid ?g (p_pool ?q))"
      using pool_ok_set_frame[OF pages_okD(1)[OF ok] f, of ?g] by simp
    show "frame_ok cnt com n recs ?q v h" if "pool_lookup (set_frame pid ?g (p_pool ?q)) v = Some h" for v h
      using that g pages_okD(5)[OF q, of v h] by (auto split: if_splits)
  qed (use pages_okD(2,4)[OF ok] in \<open>auto split: if_splits\<close>)
  then show "pages_ok held cnt com n recs (markDirtyLocked pid buf p)" by (simp add: markDirtyLocked_eq[OF f])
  have "content ?q = content p" by (auto simp: content_def fun_eq_iff split: option.splits)
  then show "content (markDirtyLocked pid buf p) = (content p)(pid := stamp_lsn pid ?l buf)"
    by (simp add: markDirtyLocked_eq[OF f] content_put_frame)
  show "lsn_room k (markDirtyLocked pid buf p)"
    using room l(2) by (simp add: markDirtyLocked_eq[OF f] put_frame_def lsn_room_def)
qed


section \<open>The header page\<close>

definition hdr_fits :: "Pager \<Rightarrow> bool" where
  "hdr_fits p \<longleftrightarrow> openable (p_hdr p) \<and> unat (PageSize (p_hdr p)) = p_pageSize p \<and> ChecksumAlgo (p_hdr p) = p_checksum p"

text \<open>What the operations below leave alone.\<close>

definition kept :: "Pager \<Rightarrow> Pager \<Rightarrow> bool" where
  "kept p p' \<longleftrightarrow> p_pageSize p' = p_pageSize p \<and> p_checksum p' = p_checksum p \<and> p_walw p' = p_walw p
     \<and> p_walFlushedLSN p' = p_walFlushedLSN p \<and> p_ckptN p' = p_ckptN p \<and> p_walFrames p' = p_walFrames p
     \<and> p_backupActive p' = p_backupActive p"

lemma kept_refl [simp]: "kept p p" and kept_trans: "kept p q \<Longrightarrow> kept q r \<Longrightarrow> kept p r"
  by (simp_all add: kept_def)

lemma kept_hdr [simp]: "kept p (p\<lparr>p_hdr := h\<rparr>)"
  by (simp add: kept_def)

lemma kept_unmoved: "unmoved cnt p p' \<Longrightarrow> kept p p'"
  using unmovedD[of cnt p p'] by (simp add: kept_def)

lemma kept_markDirty [simp]: "kept p (markDirtyLocked pid buf p)"
  by (auto simp: markDirtyLocked_def kept_def put_frame_def Let_def split: option.splits)

lemma hdr_markDirty [simp]: "p_hdr (markDirtyLocked pid buf p) = p_hdr p"
  by (auto simp: markDirtyLocked_def put_frame_def Let_def split: option.splits)

lemma frame_markDirty_other: "q \<noteq> pid \<Longrightarrow> frame_at (markDirtyLocked pid buf p) q = frame_at p q"
  by (auto simp: markDirtyLocked_def put_frame_def Let_def split: option.splits)

lemma frame_markDirty_same: "frame_at p pid = Some f \<Longrightarrow> frame_at (markDirtyLocked pid buf p) pid
  = Some (f\<lparr>fr_Buf := stamp_lsn pid (p_nextLSN p + 1) buf, fr_dirty := True, fr_pageLSN := p_nextLSN p + 1\<rparr>)"
  by (simp add: markDirtyLocked_eq put_frame_def)

lemma openable_bump: "openable (bump_header h) = openable h"
  by (simp add: openable_def bump_header_def)

lemma header_page_ok:
  assumes "openable h" "128 \<le> ps"
  shows "\<exists>buf s. header_page ps h = Some buf \<and> length buf = ps \<and> DecodeHeader (take HeaderSize buf) = Inr (h\<lparr>HeaderChecksum := s\<rparr>)"
proof -
  obtain s where s: "Encode h = Some (header_prefix h @ le_put 4 s)"
      "DecodeHeader (header_prefix h @ le_put 4 s @ []) = Inr (h\<lparr>HeaderChecksum := s\<rparr>)"
    using DecodeHeader_Encode[OF assms(1), of "[]"] by auto
  then show ?thesis using assms(2) by (auto simp: header_page_def min_def)
qed

lemma touchHeaderLocked_ok:
  assumes ok: "pages_ok held cnt com n recs p" and h: "hdr_fits p" and room: "lsn_room (Suc k) p"
  obtains p' where "touchHeaderLocked p = (p', Inr ())" "pages_ok held cnt com n recs p'" "hdr_ok p'"
    "p_hdr p' = bump_header (p_hdr p)" "\<forall>pid. pid \<noteq> 0 \<longrightarrow> content p' pid = content p pid" "lsn_room k p'" "kept p p'"
    "\<forall>pid. pid \<noteq> 0 \<longrightarrow> frame_at p' pid = frame_at p pid"
proof -
  let ?h = "bump_header (p_hdr p)" let ?q = "p\<lparr>p_hdr := ?h\<rparr>"
  obtain buf s where b: "header_page (p_pageSize p) ?h = Some buf" "length buf = p_pageSize p"
      "DecodeHeader (take HeaderSize buf) = Inr (?h\<lparr>HeaderChecksum := s\<rparr>)"
    using header_page_ok[of ?h "p_pageSize p"] h pages_ok_size[OF ok] by (auto simp: openable_bump hdr_fits_def)
  obtain f where f: "frame_at p 0 = Some f" using pages_okD(4)[OF ok] by auto
  let ?p = "markDirtyLocked 0 buf ?q"
  have q: "pages_ok held cnt com n recs ?q" "frame_at ?q 0 = Some f" "lsn_room (Suc k) ?q"
    using ok f room by (simp_all add: lsn_room_def)
  note m = markDirtyLocked_ok[OF q(1,2) _ q(3), of buf]
  have c: "content ?q = content p" by (auto simp: content_def fun_eq_iff split: option.splits)
  show thesis
  proof (rule that[of ?p])
    show "touchHeaderLocked p = (?p, Inr ())" by (simp add: touchHeaderLocked_def encodeHeaderIntoFrame0_def Let_def b(1))
    show "pages_ok held cnt com n recs ?p" "lsn_room k ?p" using m b(2) by simp_all
    show "hdr_ok ?p"
      using m(2) b h kept_markDirty[of ?q 0 buf] unfolding hdr_ok_def hdr_fits_def kept_def
      by (auto simp: stamp_lsn_def openable_bump) (simp_all add: bump_header_def)
    show "\<forall>pid. pid \<noteq> 0 \<longrightarrow> content ?p pid = content p pid" using m(2) b(2) c by simp
    show "kept p ?p" by (rule kept_trans[OF kept_hdr kept_markDirty])
    show "\<forall>pid. pid \<noteq> 0 \<longrightarrow> frame_at ?p pid = frame_at p pid" by (simp add: frame_markDirty_other)
  qed simp
qed

lemma hdr_ok_fits: "hdr_ok p \<Longrightarrow> hdr_fits p"
  by (simp add: hdr_ok_def hdr_fits_def)

section \<open>The freelist\<close>

text \<open>The free pages, linked from the header through their next fields. They are pages of the
  database, none is page 0, and none is linked twice.\<close>

fun free_chain :: "(u64 \<Rightarrow> bytes) \<Rightarrow> nat \<Rightarrow> u32 \<Rightarrow> u32 list \<Rightarrow> bool" where
  "free_chain c cnt r [] \<longleftrightarrow> r = NullPage"
| "free_chain c cnt r (x # xs) \<longleftrightarrow> r = x \<and> x \<noteq> NullPage \<and> x \<noteq> 0 \<and> unat x < cnt \<and> x \<notin> set xs
     \<and> free_chain c cnt (get32 (c (ucast x)) freelistNextOffset) xs"

definition free_list :: "Pager \<Rightarrow> u32 list \<Rightarrow> bool" where
  "free_list p xs \<longleftrightarrow> free_chain (content p) (unat (PageCount (p_hdr p))) (FreelistRoot (p_hdr p)) xs"

lemma free_chain_cong:
  "free_chain c cnt r xs \<Longrightarrow> cnt \<le> cnt' \<Longrightarrow> (\<And>x. x \<in> set xs \<Longrightarrow> get32 (c' (ucast x)) freelistNextOffset = get32 (c (ucast x)) freelistNextOffset)
    \<Longrightarrow> free_chain c' cnt' r xs"
  by (induction xs arbitrary: r) auto

lemma free_chainD: "free_chain c cnt r xs \<Longrightarrow> x \<in> set xs \<Longrightarrow> x \<noteq> NullPage \<and> x \<noteq> 0 \<and> unat x < cnt"
  by (induction xs arbitrary: r) auto

lemma ucast_page_eq [simp]: "(ucast (x :: u32) :: u64) = ucast y \<longleftrightarrow> x = y" "(ucast (x :: u32) :: u64) = 0 \<longleftrightarrow> x = 0"
  "unat (ucast x :: u64) = unat x"
proof -
  show u: "unat (ucast x :: u64) = unat x" for x :: u32
    using unsigned_less[of x, where ?'a = nat] by (simp add: unsigned_ucast_eq take_bit_nat_eq_self)
  show "(ucast x :: u64) = ucast y \<longleftrightarrow> x = y" by (metis u word_unat_eq_iff)
  show "(ucast x :: u64) = 0 \<longleftrightarrow> x = 0" by (metis u unat_eq_zero)
qed


lemma free_listD:
  assumes "free_list p xs"
  shows "FreelistRoot (p_hdr p) = NullPage \<longleftrightarrow> xs = []"
    "xs = x # ys \<Longrightarrow> FreelistRoot (p_hdr p) = x"
    "x \<in> set xs \<Longrightarrow> x \<noteq> 0 \<and> unat x < unat (PageCount (p_hdr p))"
  using assms free_chainD[of "content p"] unfolding free_list_def by (cases xs; auto)+

lemma free_chain_distinct: "free_chain c cnt r xs \<Longrightarrow> distinct xs"
  by (induction xs arbitrary: r) auto

section \<open>Allocation\<close>

lemma kept_size: "kept p p' \<Longrightarrow> p_pageSize p' = p_pageSize p"
  by (simp add: kept_def)

lemma content_frame: "frame_at p pid = Some f \<Longrightarrow> content p pid = fr_Buf f"
  by (simp add: content_def)

text \<open>Popping the freelist: its first page, zeroed.\<close>

lemma allocateFromFreelist_cases:
  assumes ok: "pager_ok com n recs p" and fl: "free_list p (x # xs)" and room: "lsn_room (Suc (Suc k)) p"
  obtains (full) p' where "allocateFromFreelist p = (p', Inl ErrPoolExhausted)" "pager_ok com n recs p'"
      "unmoved (unat (PageCount (p_hdr p))) p p'"
    | (got) p' f where "allocateFromFreelist p = (p', Inr (ucast x, fr_Buf f))" "pager_ok com n recs p'" "free_list p' xs"
      "frame_at p' (ucast x) = Some f" "fr_Buf f = stamp_lsn (ucast x) (p_nextLSN p + 1) (replicate (p_pageSize p) 0)"
      "PageCount (p_hdr p') = PageCount (p_hdr p)" "CatalogRoot (p_hdr p') = CatalogRoot (p_hdr p)" "kept p p'" "lsn_room k p'"
      "\<And>q. unat q < unat (PageCount (p_hdr p)) \<Longrightarrow> q \<noteq> 0 \<Longrightarrow> q \<noteq> ucast x \<Longrightarrow> content p' q = content p q"
proof -
  let ?c = "unat (PageCount (p_hdr p))" and ?pid = "ucast x :: u64"
  have k0: "pages_ok 0 ?c com n recs p" and h0: "hdr_ok p" using ok by (simp_all add: pager_ok_def)
  have x: "x \<noteq> 0" "unat x < ?c" "FreelistRoot (p_hdr p) = x"
    and ch: "free_chain (content p) ?c (get32 (content p ?pid) freelistNextOffset) xs" "x \<notin> set xs"
    using fl by (simp_all add: free_list_def)
  have pos: "0 < ?c" using x(2) by simp
  have pid: "unat ?pid < ?c" using x(2) by simp
  show thesis
  proof (cases rule: fetchLocked_cases[OF k0 pid])
    case (1 p')
    then show thesis using x(3) unmoved_hdr_ok[OF 1(3) pos] h0 unmovedD(1)[OF 1(3)]
      by (intro full[of p']) (auto simp: allocateFromFreelist_def pager_ok_def)
  next
    case (2 p1 f)
    note u = unmovedD[OF 2(3)]
    let ?nxt = "get32 (content p ?pid) freelistNextOffset" and ?h = "p_hdr p"
    let ?z = "replicate (length (content p ?pid)) 0 :: bytes"
    let ?h2 = "?h\<lparr>FreelistRoot := ?nxt, FreelistPageCount := if FreelistPageCount ?h > 0 then FreelistPageCount ?h - 1 else FreelistPageCount ?h\<rparr>"
    let ?p2 = "p1\<lparr>p_hdr := ?h2\<rparr>" let ?p3 = "markDirtyLocked ?pid ?z ?p2"
    have len: "length (content p ?pid) = p_pageSize p"
      using pages_okD(5)[OF 2(2) 2(4)] 2(5) u(2) by (simp add: frame_ok_def)
    have r2: "lsn_room (Suc (Suc k)) ?p2" using room u(3) by (simp add: lsn_room_def)
    have k2: "pages_ok 0 ?c com n recs ?p2" and f2: "frame_at ?p2 ?pid = Some f" using 2(2,4) by simp_all
    note m = markDirtyLocked_ok[OF k2 f2 _ r2, of ?z]
    have l2: "length ?z = p_pageSize ?p2" using len u(2) by simp
    have hf: "hdr_fits ?p3"
      using h0 u kept_markDirty[of ?p2 ?pid ?z] by (auto simp: hdr_ok_def hdr_fits_def kept_def openable_def)
    obtain p' where t: "touchHeaderLocked ?p3 = (p', Inr ())" "pages_ok 0 ?c com n recs p'" "hdr_ok p'"
        "p_hdr p' = bump_header (p_hdr ?p3)" "\<forall>pid. pid \<noteq> 0 \<longrightarrow> content p' pid = content ?p3 pid" "lsn_room k p'" "kept ?p3 p'"
        "\<forall>pid. pid \<noteq> 0 \<longrightarrow> frame_at p' pid = frame_at ?p3 pid"
      by (rule touchHeaderLocked_ok[OF m(1)[OF l2] hf m(3)[OF l2]])
    let ?g = "f\<lparr>fr_Buf := stamp_lsn ?pid (p_nextLSN p + 1) ?z, fr_dirty := True, fr_pageLSN := p_nextLSN p + 1\<rparr>"
    have g: "frame_at p' ?pid = Some ?g" using t(8) x(1) frame_markDirty_same[OF f2, of ?z] u(3) by simp
    have hp: "PageCount (p_hdr p') = PageCount ?h" "CatalogRoot (p_hdr p') = CatalogRoot ?h" "FreelistRoot (p_hdr p') = ?nxt"
      by (simp_all add: t(4) bump_header_def)
    have c2: "content ?p2 = content p1" by (auto simp: content_def fun_eq_iff split: option.splits)
    have cq: "content p' q = content p q" if "unat q < ?c" "q \<noteq> 0" "q \<noteq> ?pid" for q
      using t(5) m(2)[OF l2] that c2 u(10)[OF that(1)] by simp
    have run: "allocateFromFreelist p = (p', Inr (?pid, fr_Buf ?g))"
      unfolding allocateFromFreelist_def x(3) Let_def 2(1) andThen_simps u(1) t(1) g by simp
    have "content p' (ucast y) = content p (ucast y)" if "y \<in> set xs" for y
      using cq[of "ucast y"] free_chainD[OF ch(1) that] ch(2) that by auto
    then have fl': "free_list p' xs" unfolding free_list_def hp by (intro free_chain_cong[OF ch(1)]) simp_all
    have kp: "kept p p'"
      by (rule kept_trans[OF kept_unmoved[OF 2(3)] kept_trans[OF kept_hdr kept_trans[OF kept_markDirty t(7)]]])
    show thesis
      by (rule got[OF run _ fl' g _ hp(1,2) kp t(6) cq]) (use t(2,3) hp(1) len in \<open>simp_all add: pager_ok_def\<close>)
  qed
qed


text \<open>Growing the database by one page. The header is counted up first; the new page enters the pool
  dirty and past the durable LSN.\<close>

lemma pages_ok_grow:
  assumes ok: "pages_ok (Suc held) cnt com n recs p" and pid: "unat pid = cnt" "cnt < 2 ^ 32"
    and f: "length (fr_Buf f) = p_pageSize p" "fr_dirty f" "p_walFlushedLSN p < fr_pageLSN f" "fr_pageLSN f \<le> p_nextLSN p"
  shows "pages_ok held (Suc cnt) com n recs (p\<lparr>p_pool := admit (p_pool p) f pid\<rparr>)"
proof -
  have pos: "0 < cnt" using pages_okD(3)[OF ok] pages_okD(15)[OF ok] by (simp add: com_ok_def)
  have z: "pid \<noteq> 0" using pid pos by auto
  have none: "frame_at p pid = None" using pages_okD(5)[OF ok, of pid] pid(1) by (cases "frame_at p pid") (auto simp: frame_ok_def)
  have pl: "pool_ok held (admit (p_pool p) f pid)" by (rule pool_ok_admit[OF pages_okD(1)[OF ok] none z])
  have fr: "frame_ok (Suc cnt) com n recs p v g" if "pool_lookup (admit (p_pool p) f pid) v = Some g" for v g
    using that pid(1) f pages_okD(5)[OF ok, of v g] by (auto simp: frame_ok_def split: if_splits)
  have un: "unat v < n \<and> has_page (p_pageSize p) (p_main p) v \<and> page_at (p_pageSize p) (p_main p) v = com v"
    if "unat v < Suc cnt" "pool_lookup (admit (p_pool p) f pid) v = None" for v
  proof -
    have "v \<noteq> pid" "frame_at p v = None" using that(2) by (auto split: if_splits)
    moreover from this have "unat v < cnt" using that(1) pid(1) by (metis less_antisym word_unat_eq_iff)
    ultimately show ?thesis using pages_okD(6-8)[OF ok] by blast
  qed
  show ?thesis
    using ok pl fr un unfolding pages_ok_def by (auto split: if_splits)
qed

lemma allocateByGrowing_cases:
  assumes ok: "pager_ok com n recs p" and cnt: "Suc (unat (PageCount (p_hdr p))) < 2 ^ 32" and room: "lsn_room (Suc (Suc k)) p"
  obtains (full) p' where "allocateByGrowing p = (p', Inl ErrPoolExhausted)" "pager_ok com n recs p'" "kept p p'"
      "p_hdr p' = bump_header (bump_header (p_hdr p))" "lsn_room k p'"
      "\<forall>q. q \<noteq> 0 \<longrightarrow> unat q < unat (PageCount (p_hdr p)) \<longrightarrow> content p' q = content p q"
    | (got) p' f where "allocateByGrowing p = (p', Inr (ucast (PageCount (p_hdr p)), fr_Buf f))" "pager_ok com n recs p'"
      "frame_at p' (ucast (PageCount (p_hdr p))) = Some f"
      "\<exists>lsn. fr_Buf f = stamp_lsn (ucast (PageCount (p_hdr p))) lsn (replicate (p_pageSize p) 0)"
      "p_hdr p' = bump_header (p_hdr p\<lparr>PageCount := PageCount (p_hdr p) + 1\<rparr>)" "kept p p'" "lsn_room k p'"
      "\<forall>q. q \<noteq> 0 \<longrightarrow> unat q < unat (PageCount (p_hdr p)) \<longrightarrow> content p' q = content p q"
proof -
  let ?c = "unat (PageCount (p_hdr p))" let ?pid = "ucast (PageCount (p_hdr p)) :: u64"
  let ?h = "p_hdr p\<lparr>PageCount := PageCount (p_hdr p) + 1\<rparr>" let ?p0 = "p\<lparr>p_hdr := ?h\<rparr>"
  have k: "pages_ok 0 ?c com n recs ?p0" and h0: "hdr_ok p" using ok by (simp_all add: pager_ok_def)
  have hf: "hdr_fits ?p0" using h0 by (auto simp: hdr_ok_def hdr_fits_def openable_def)
  have r0: "lsn_room (Suc (Suc k)) ?p0" using room by (simp add: lsn_room_def)
  have cnt': "unat (PageCount (p_hdr p) + 1) = Suc ?c" using cnt by (auto simp: unat_word_ariths)
  have pos: "0 < ?c" using pages_okD(3)[OF k] pages_okD(15)[OF k] by (simp add: com_ok_def)
  obtain p1 where t: "touchHeaderLocked ?p0 = (p1, Inr ())" "pages_ok 0 ?c com n recs p1" "hdr_ok p1"
      "p_hdr p1 = bump_header (p_hdr ?p0)" "\<forall>pid. pid \<noteq> 0 \<longrightarrow> content p1 pid = content ?p0 pid" "lsn_room (Suc k) p1" "kept ?p0 p1"
      "\<forall>pid. pid \<noteq> 0 \<longrightarrow> frame_at p1 pid = frame_at ?p0 pid"
    by (rule touchHeaderLocked_ok[OF k hf r0])
  have c0: "content ?p0 = content p" by (auto simp: content_def fun_eq_iff split: option.splits)
  have kp1: "kept p p1" using t(7) kept_trans[OF kept_hdr[of p ?h]] by blast
  show thesis
  proof (cases rule: obtainFrameLocked_cases[OF t(2)])
    case (1 p2)
    then have u: "unmoved ?c p1 p2" by (auto simp: unmoved_def content_def split: option.splits)
    let ?q = "p2\<lparr>p_hdr := (p_hdr p2)\<lparr>PageCount := PageCount (p_hdr p2) - 1\<rparr>\<rparr>"
    have hq: "p_hdr ?q = bump_header (p_hdr p)" using unmovedD(1)[OF u] t(4) by (simp add: bump_header_def)
    have hfq: "hdr_fits ?q" using t(3) unmovedD[OF u] by (auto simp: hdr_ok_def hdr_fits_def openable_def)
    have rq: "lsn_room (Suc k) ?q" using t(6) unmovedD(3)[OF u] by (simp add: lsn_room_def)
    have kq: "pages_ok 0 ?c com n recs ?q" using 1(2) by simp
    obtain p' where t': "touchHeaderLocked ?q = (p', Inr ())" "pages_ok 0 ?c com n recs p'" "hdr_ok p'"
      "p_hdr p' = bump_header (p_hdr ?q)" "\<forall>pid. pid \<noteq> 0 \<longrightarrow> content p' pid = content ?q pid" "lsn_room k p'" "kept ?q p'"
      "\<forall>pid. pid \<noteq> 0 \<longrightarrow> frame_at p' pid = frame_at ?q pid"
      by (rule touchHeaderLocked_ok[OF kq hfq rq])
    have "content ?q = content p2" by (auto simp: content_def fun_eq_iff split: option.splits)
    then have c: "\<forall>q. q \<noteq> 0 \<longrightarrow> unat q < ?c \<longrightarrow> content p' q = content p q"
      using t'(5) unmovedD(10)[OF u] t(5) c0 by simp
    have "kept p p'" by (rule kept_trans[OF kp1 kept_trans[OF kept_unmoved[OF u] kept_trans[OF kept_hdr t'(7)]]])
    then show thesis using t t' 1 hq c
      by (intro full[of p']) (simp_all add: allocateByGrowing_def Let_def pager_ok_def bump_header_def)
  next
    case (2 p2 f)
    note u = unmovedD[OF 2(3)]
    let ?z = "replicate (p_pageSize p2) 0 :: bytes"
    let ?f = "f\<lparr>fr_Buf := ?z, fr_pins := fr_pins f + 1\<rparr>"
    let ?p3 = "p2\<lparr>p_pool := admit (p_pool p2) ?f ?pid\<rparr>" let ?p' = "markDirtyLocked ?pid ?z ?p3"
    let ?l = "p_nextLSN p2 + 1"
    let ?loc = "if ?pid \<in> set (pl_a1out (p_pool p2)) then listAm else listA1in"
    have z: "?pid \<noteq> 0" using pos by auto
    have room2: "lsn_room (Suc k) p2" using t(6) u(3) by (simp add: lsn_room_def)
    have l: "p_nextLSN p2 < ?l" "unat ?l = Suc (unat (p_nextLSN p2))" using lsn_step[OF room2] by auto
    have fl: "p_walFlushedLSN p2 < ?l" using pages_okD(13)[OF 2(2)] l(1) by simp
    have q: "pages_ok (Suc 0) ?c com n recs (p2\<lparr>p_nextLSN := ?l\<rparr>)" using pages_ok_nextLSN[OF 2(2)] l(1) by simp
    let ?g0 = "f\<lparr>fr_Buf := stamp_lsn ?pid ?l ?z, fr_pins := fr_pins f + 1, fr_dirty := True, fr_pageLSN := ?l\<rparr>"
    have look: "frame_at ?p3 ?pid = Some (?f\<lparr>fr_loc := ?loc\<rparr>)" by simp
    have eq: "?p' = p2\<lparr>p_nextLSN := ?l, p_pool := admit (p_pool p2) ?g0 ?pid\<rparr>"
    proof -
      have e: "?f\<lparr>fr_loc := ?loc, fr_Buf := stamp_lsn ?pid ?l ?z, fr_dirty := True, fr_pageLSN := ?l\<rparr> = ?g0\<lparr>fr_loc := ?loc\<rparr>" by simp
      have n: "p_nextLSN ?p3 = p_nextLSN p2" "p_pool (?p3\<lparr>p_nextLSN := ?l\<rparr>) = admit (p_pool p2) ?f ?pid" by simp_all
      have "?p' = ?p3\<lparr>p_nextLSN := ?l, p_pool := admit (p_pool p2) ?g0 ?pid\<rparr>"
        unfolding markDirtyLocked_eq[OF look, of ?z] put_frame_def n e set_frame_admit ..
      then show ?thesis by simp
    qed
    have ok': "pages_ok 0 (Suc ?c) com n recs ?p'"
      unfolding eq using pages_ok_grow[OF q, of ?pid ?g0] cnt fl pages_ok_size[OF 2(2)] by simp
    have run: "allocateByGrowing p = (?p', Inr (?pid, fr_Buf (?g0\<lparr>fr_loc := ?loc\<rparr>)))"
      unfolding allocateByGrowing_def Let_def using t(1) 2(1) frame_markDirty_same[OF look, of ?z] by simp
    have ca: "content ?p' q = content p1 q" if "unat q < ?c" for q
    proof -
      have "q \<noteq> ?pid" using that by auto
      then have "content ?p' q = content p2 q" unfolding eq by (simp add: content_def split: option.splits)
      then show ?thesis using u(10)[OF that] by simp
    qed
    then have cont: "\<forall>q. q \<noteq> 0 \<longrightarrow> unat q < ?c \<longrightarrow> content ?p' q = content p q" using t(5) c0 by simp
    have c00: "content ?p' 0 = content p1 0" using ca[of 0] pos by simp
    have hd: "p_hdr ?p' = bump_header ?h" using u(1) t(4) by simp
    have "hdr_ok ?p'" using t(3) c00 u hd t(4) unfolding hdr_ok_def eq by simp
    moreover have "PageCount (bump_header ?h) = PageCount (p_hdr p) + 1" by (simp add: bump_header_def)
    ultimately have pk: "pager_ok com n recs ?p'" using ok' hd cnt' unfolding pager_ok_def by simp
    have kp: "kept p ?p'" using kp1 kept_unmoved[OF 2(3)] unfolding eq kept_def by simp
    have rm: "lsn_room k ?p'" using room2 l(2) unfolding eq lsn_room_def by simp
    have fr: "frame_at ?p' ?pid = Some (?g0\<lparr>fr_loc := ?loc\<rparr>)" unfolding eq by simp
    have ps: "p_pageSize p2 = p_pageSize p" using kept_size[OF kp1] u(2) by simp
    show thesis by (rule got[OF run pk fr _ hd kp rm cont]) (use ps in auto)
  qed
qed


lemma unmoved_free_list: "unmoved (unat (PageCount (p_hdr p))) p p' \<Longrightarrow> free_list p xs \<Longrightarrow> free_list p' xs"
proof -
  assume u: "unmoved (unat (PageCount (p_hdr p))) p p'" and fl: "free_list p xs"
  have "content p' (ucast y) = content p (ucast y)" if "y \<in> set xs" for y
    using unmovedD(10)[OF u, of "ucast y"] free_listD(3)[OF fl that] by simp
  then show ?thesis using fl free_chain_cong[of "content p"] unmovedD(1)[OF u] unfolding free_list_def by simp
qed

lemma free_list_kept:
  assumes fl: "free_list p xs" and h: "FreelistRoot (p_hdr p') = FreelistRoot (p_hdr p)"
    "unat (PageCount (p_hdr p)) \<le> unat (PageCount (p_hdr p'))"
    and c: "\<And>y. y \<in> set xs \<Longrightarrow> content p' (ucast y) = content p (ucast y)"
  shows "free_list p' xs"
  using fl h free_chain_cong[of "content p" _ _ xs] c unfolding free_list_def by simp

text \<open>Every call of \<^verbatim>\<open>Allocate\<close>: an exhausted pool, or a zeroed page that was free or past the end, and
  no other page of the database changes.\<close>

lemma Allocate_cases:
  assumes ok: "pager_ok com n recs p" and fl: "free_list p xs" and room: "lsn_room (Suc (Suc k)) p"
    and cnt: "Suc (unat (PageCount (p_hdr p))) < 2 ^ 32"
  obtains (full) p' where "Allocate p = (p', Inl ErrPoolExhausted)" "pager_ok com n recs p'" "free_list p' xs" "kept p p'"
      "PageCount (p_hdr p') = PageCount (p_hdr p)" "lsn_room k p'"
      "\<forall>q. q \<noteq> 0 \<longrightarrow> unat q < unat (PageCount (p_hdr p)) \<longrightarrow> content p' q = content p q"
      "CatalogRoot (p_hdr p') = CatalogRoot (p_hdr p)" "\<exists>c v. p_hdr p' = p_hdr p\<lparr>FileChangeCounter := c, VersionValidFor := v\<rparr>"
    | (got) p' pid f xs' where "Allocate p = (p', Inr (pid, fr_Buf f))" "pager_ok com n recs p'" "free_list p' xs'" "kept p p'"
      "frame_at p' pid = Some f" "\<exists>lsn. fr_Buf f = stamp_lsn pid lsn (replicate (p_pageSize p) 0)" "lsn_room k p'"
      "\<forall>q. q \<noteq> 0 \<longrightarrow> q \<noteq> pid \<longrightarrow> unat q < unat (PageCount (p_hdr p)) \<longrightarrow> content p' q = content p q"
      "pid \<noteq> 0" "(\<exists>x. xs = x # xs' \<and> pid = ucast x \<and> PageCount (p_hdr p') = PageCount (p_hdr p))
        \<or> xs = [] \<and> xs' = [] \<and> unat pid = unat (PageCount (p_hdr p)) \<and> unat (PageCount (p_hdr p')) = Suc (unat (PageCount (p_hdr p)))"
      "CatalogRoot (p_hdr p') = CatalogRoot (p_hdr p)"
proof -
  let ?c = "unat (PageCount (p_hdr p))"
  have k: "pages_ok 0 ?c com n recs p" using ok by (simp add: pager_ok_def)
  have pos: "0 < ?c" using pages_okD(3)[OF k] pages_okD(15)[OF k] by (simp add: com_ok_def)
  have cl: "\<not> p_closed p" "\<not> p_readOnly p" by (rule pages_okD(18,19)[OF k])+
  show thesis
  proof (cases xs)
    case (Cons x ys)
    have a: "Allocate p = allocateFromFreelist p" using cl free_listD(1,2)[OF fl] Cons by (simp add: Allocate_def)
    show thesis
    proof (cases rule: allocateFromFreelist_cases[OF ok fl[unfolded Cons] room])
      case (1 p')
      note u = unmovedD[OF 1(3)]
      have "lsn_room k p'" using room u(3) by (simp add: lsn_room_def)
      moreover have "\<exists>c v. p_hdr p' = p_hdr p\<lparr>FileChangeCounter := c, VersionValidFor := v\<rparr>"
        unfolding u(1) by (intro exI[of _ "FileChangeCounter (p_hdr p)"] exI[of _ "VersionValidFor (p_hdr p)"]) simp
      ultimately show thesis
        using 1 a u(1,10) unmoved_free_list[OF 1(3) fl] kept_unmoved[OF 1(3)] by (intro full[of p']) simp_all
    next
      case (2 p' f)
      have "x \<noteq> 0" using free_listD(3)[OF fl] Cons by simp
      then show thesis using 2 a Cons by (intro got[of p' "ucast x" f ys]) auto
    qed
  next
    case Nil
    have a: "Allocate p = allocateByGrowing p" using cl free_listD(1)[OF fl] Nil by (simp add: Allocate_def)
    have nil: "free_list p' []" if "FreelistRoot (p_hdr p') = FreelistRoot (p_hdr p)" for p'
      using that fl Nil by (simp add: free_list_def)
    show thesis
    proof (cases rule: allocateByGrowing_cases[OF ok cnt room])
      case (1 p')
      moreover have "\<exists>c v. p_hdr p' = p_hdr p\<lparr>FileChangeCounter := c, VersionValidFor := v\<rparr>" using 1(4) by (auto simp: bump_header_def)
      ultimately show thesis using a Nil nil[of p'] by (intro full[of p']) (simp_all add: bump_header_def)
    next
      case (2 p' f)
      have "unat (PageCount (p_hdr p) + 1) = Suc ?c" using cnt by (auto simp: unat_word_ariths)
      moreover have "(ucast (PageCount (p_hdr p)) :: u64) \<noteq> 0" using pos by auto
      ultimately show thesis using 2 a Nil nil[of p']
        by (intro got[of p' "ucast (PageCount (p_hdr p))" f "[]"]) (simp_all add: bump_header_def)
    qed
  qed
qed


section \<open>Freeing a page\<close>

lemma page_ucast:
  fixes pid :: u64 and c :: u32
  assumes "unat pid < unat c"
  shows "ucast (ucast pid :: u32) = pid" "unat (ucast pid :: u32) = unat pid" "(ucast pid :: u32) \<noteq> NullPage"
proof -
  have l: "unat pid < 2 ^ 32" using assms unsigned_less[of c, where ?'a = nat] by simp
  show u: "unat (ucast pid :: u32) = unat pid" using l by (simp add: unsigned_ucast_eq take_bit_nat_eq_self)
  then show "ucast (ucast pid :: u32) = pid" by (metis ucast_page_eq(3) word_unat_eq_iff)
  have "unat c < 2 ^ 32" using unsigned_less[of c, where ?'a = nat] by simp
  then have "unat (ucast pid :: u32) < unat NullPage" using u assms by simp
  then show "(ucast pid :: u32) \<noteq> NullPage" by auto
qed

lemma free_page_bytes:
  assumes "4096 \<le> length buf"
  shows "\<exists>b. InitPage buf PageFree 0 = Some b \<and> length b = length buf"
  using assms by (simp add: InitPage_def EncodeInto_def)

lemma stamp_next:
  assumes "36 \<le> length b"
  shows "get32 (stamp_lsn pid l (write_at b freelistNextOffset (le_put 4 r))) freelistNextOffset = r"
  using assms by (auto simp: stamp_lsn_def region_simps)

lemma Free_cases:
  assumes ok: "pager_ok com n recs p" and fl: "free_list p xs" and room: "lsn_room (Suc (Suc k)) p"
    and pid: "pid \<noteq> 0" "unat pid < unat (PageCount (p_hdr p))" "ucast pid \<notin> set xs"
  obtains (full) p' where "Free pid p = (p', Inl ErrPoolExhausted)" "pager_ok com n recs p'" "unmoved (unat (PageCount (p_hdr p))) p p'"
    | (got) p' where "Free pid p = (p', Inr ())" "pager_ok com n recs p'" "free_list p' (ucast pid # xs)" "kept p p'"
      "PageCount (p_hdr p') = PageCount (p_hdr p)" "lsn_room k p'"
      "\<forall>q. q \<noteq> 0 \<longrightarrow> q \<noteq> pid \<longrightarrow> unat q < unat (PageCount (p_hdr p)) \<longrightarrow> content p' q = content p q"
proof -
  let ?c = "unat (PageCount (p_hdr p))"
  have k0: "pages_ok 0 ?c com n recs p" and h0: "hdr_ok p" using ok by (simp_all add: pager_ok_def)
  have pos: "0 < ?c" using pid(2) by simp
  have cl: "\<not> p_closed p" "\<not> p_readOnly p" by (rule pages_okD(18,19)[OF k0])+
  let ?look = "case frame_at p pid of Some f \<Rightarrow> (p, Inr (fr_Buf f)) | None \<Rightarrow> fetchLocked pid p"
  have "(\<exists>p1. ?look = (p1, Inl ErrPoolExhausted) \<and> pages_ok 0 ?c com n recs p1 \<and> unmoved ?c p p1)
    \<or> (\<exists>p1 f. ?look = (p1, Inr (content p pid)) \<and> pages_ok 0 ?c com n recs p1 \<and> unmoved ?c p p1
        \<and> frame_at p1 pid = Some f \<and> fr_Buf f = content p pid)"
  proof (cases "frame_at p pid")
    case None
    show ?thesis by (rule fetchLocked_cases[OF k0 pid(2)]) (use None in auto)
  qed (use k0 unmoved_refl[of ?c p] in \<open>auto simp: content_def\<close>)
  then consider p1 where "?look = (p1, Inl ErrPoolExhausted)" "pages_ok 0 ?c com n recs p1" "unmoved ?c p p1"
    | p1 f where "?look = (p1, Inr (content p pid))" "pages_ok 0 ?c com n recs p1" "unmoved ?c p p1"
        "frame_at p1 pid = Some f" "fr_Buf f = content p pid" by blast
  then show thesis
  proof cases
    case (1 p1)
    then show thesis using cl unmoved_hdr_ok[OF 1(3) pos] h0 unmovedD(1)[OF 1(3)]
      by (intro full[of p1]) (simp_all add: Free_def pager_ok_def)
  next
    case (2 p1 f)
    note u = unmovedD[OF 2(3)]
    have len: "length (content p pid) = p_pageSize p1" using pages_okD(5)[OF 2(2,4)] 2(5) by (simp add: frame_ok_def)
    have ps: "4096 \<le> p_pageSize p1" by (rule pages_ok_size[OF 2(2)])
    obtain b where b: "InitPage (content p pid) PageFree 0 = Some b" "length b = p_pageSize p1"
      using free_page_bytes[of "content p pid"] ps len by auto
    let ?h = "p_hdr p" let ?b = "write_at b freelistNextOffset (le_put 4 (FreelistRoot ?h))"
    let ?p2 = "p1\<lparr>p_hdr := ?h\<lparr>FreelistRoot := ucast pid, FreelistPageCount := FreelistPageCount ?h + 1\<rparr>\<rparr>"
    let ?p3 = "markDirtyLocked pid ?b ?p2"
    have k2: "pages_ok 0 ?c com n recs ?p2" "frame_at ?p2 pid = Some f" and r2: "lsn_room (Suc (Suc k)) ?p2"
      using 2(2,4) room u(3) by (simp_all add: lsn_room_def)
    have lb: "length ?b = p_pageSize ?p2" using b(2) ps by simp
    note m = markDirtyLocked_ok[OF k2 lb r2]
    have hf: "hdr_fits ?p3"
      using h0 u kept_markDirty[of ?p2 pid ?b] by (auto simp: hdr_ok_def hdr_fits_def kept_def openable_def)
    obtain p4 where t: "touchHeaderLocked ?p3 = (p4, Inr ())" "pages_ok 0 ?c com n recs p4" "hdr_ok p4"
        "p_hdr p4 = bump_header (p_hdr ?p3)" "\<forall>pid. pid \<noteq> 0 \<longrightarrow> content p4 pid = content ?p3 pid" "lsn_room k p4" "kept ?p3 p4"
        "\<forall>pid. pid \<noteq> 0 \<longrightarrow> frame_at p4 pid = frame_at ?p3 pid"
      by (rule touchHeaderLocked_ok[OF m(1) hf m(3)])
    let ?p' = "Unpin pid p4"
    note un = unmoved_Unpin[of ?c p4 pid] note uu = unmovedD[OF un]
    have c2: "content ?p2 = content p1" by (auto simp: content_def fun_eq_iff split: option.splits)
    have cq: "content ?p' q = (if q = pid then stamp_lsn pid (p_nextLSN p1 + 1) ?b else content p q)" if "unat q < ?c" "q \<noteq> 0" for q
      using t(5) m(2) that c2 u(10)[OF that(1)] uu(10)[OF that(1)] by simp
    have hp: "PageCount (p_hdr ?p') = PageCount ?h" "FreelistRoot (p_hdr ?p') = ucast pid"
      using uu(1) by (simp_all add: t(4) bump_header_def)
    have run: "Free pid p = (?p', Inr ())"
      unfolding Free_def 2(1) using cl b(1) t(1) u(1) by (simp add: Let_def)
    note pu = page_ucast[OF pid(2)]
    have "ucast y \<noteq> pid" if "y \<in> set xs" for y using pu(1) pid(3) that by (metis ucast_page_eq(1))
    then have "content ?p' (ucast y) = content p (ucast y)" if "y \<in> set xs" for y
      using cq[of "ucast y"] free_listD(3)[OF fl that] that by simp
    then have "free_chain (content ?p') ?c (FreelistRoot ?h) xs"
      using fl free_chain_cong[of "content p" ?c _ xs ?c "content ?p'"] by (simp add: free_list_def)
    moreover have "get32 (content ?p' pid) freelistNextOffset = FreelistRoot ?h"
      using cq[OF pid(2,1)] stamp_next[of b pid "p_nextLSN p1 + 1" "FreelistRoot ?h"] b(2) ps by simp
    ultimately have fl': "free_list ?p' (ucast pid # xs)"
      unfolding free_list_def hp using pid pu by auto
    have kp: "kept p ?p'"
      by (rule kept_trans[OF kept_unmoved[OF 2(3)] kept_trans[OF kept_hdr kept_trans[OF kept_markDirty kept_trans[OF t(7) kept_unmoved[OF un]]]]])
    have "pager_ok com n recs ?p'"
      using pages_ok_Unpin[OF t(2)] t(3) unmoved_hdr_ok[OF un pos] hp(1) by (simp add: pager_ok_def)
    moreover have "lsn_room k ?p'" using t(6) uu(3) by (simp add: lsn_room_def)
    ultimately show thesis using cq by (intro got[OF run _ fl' kp hp(1)]) auto
  qed
qed

text \<open>\<^verbatim>\<open>freeOverflow\<close> of the heap unpins a page before it frees it, so \<^verbatim>\<open>Free\<close> finds the frame resident
  without a pin of its own and takes one off: the count becomes negative, and the page can never be
  evicted until a later fetch brings the count back to zero, while the fetcher still uses it.\<close>

lemma Free_unpinned_negative:
  assumes ok: "pager_ok com n recs p" and f: "frame_at p pid = Some f" "fr_pins f = 0" and z: "pid \<noteq> 0"
    and room: "lsn_room 2 p"
  shows "\<exists>p' g. Free pid p = (p', Inr ()) \<and> frame_at p' pid = Some g \<and> fr_pins g = -1"
proof -
  let ?c = "unat (PageCount (p_hdr p))"
  have k0: "pages_ok 0 ?c com n recs p" and h0: "hdr_ok p" using ok by (simp_all add: pager_ok_def)
  have len: "length (fr_Buf f) = p_pageSize p" using pages_okD(5)[OF k0 f(1)] by (simp add: frame_ok_def)
  have ps: "4096 \<le> p_pageSize p" by (rule pages_ok_size[OF k0])
  obtain b where b: "InitPage (fr_Buf f) PageFree 0 = Some b" "length b = p_pageSize p"
    using free_page_bytes[of "fr_Buf f"] ps len by auto
  let ?h = "p_hdr p" let ?b = "write_at b freelistNextOffset (le_put 4 (FreelistRoot ?h))"
  let ?p2 = "p\<lparr>p_hdr := ?h\<lparr>FreelistRoot := ucast pid, FreelistPageCount := FreelistPageCount ?h + 1\<rparr>\<rparr>"
  let ?p3 = "markDirtyLocked pid ?b ?p2"
  have k2: "pages_ok 0 ?c com n recs ?p2" "frame_at ?p2 pid = Some f" and r2: "lsn_room (Suc (Suc 0)) ?p2"
    using k0 f(1) room by (simp_all add: lsn_room_def)
  have lb: "length ?b = p_pageSize ?p2" using b(2) ps by simp
  note m = markDirtyLocked_ok[OF k2 lb r2]
  have hf: "hdr_fits ?p3"
    using h0 kept_markDirty[of ?p2 pid ?b] by (auto simp: hdr_ok_def hdr_fits_def kept_def openable_def)
  obtain p4 where t: "touchHeaderLocked ?p3 = (p4, Inr ())" "\<forall>pid. pid \<noteq> 0 \<longrightarrow> frame_at p4 pid = frame_at ?p3 pid"
    by (rule touchHeaderLocked_ok[OF m(1) hf m(3)]) (rule that)
  obtain g where g: "frame_at p4 pid = Some g" "fr_pins g = 0"
    using t(2) z frame_markDirty_same[OF k2(2), of ?b] f(2) by auto
  have "Free pid p = (Unpin pid p4, Inr ())"
    using pages_okD(18,19)[OF k0] f(1) b(1) t(1) by (simp add: Free_def Let_def)
  moreover have "frame_at (Unpin pid p4) pid = Some (g\<lparr>fr_pins := -1\<rparr>)"
    using g by (simp add: Unpin_def put_frame_def)
  ultimately show ?thesis by fastforce
qed

end
