(* ===== verification/Pager_Durability.thy ===== *)
theory Pager_Durability
  imports Pager_Steps "HOL-Library.Multiset"
begin

text \<open>
  Commit, checkpoint, crash and recovery of the pager: whatever happens between two commits, and
  wherever the process stops, opening the files gives the database of the last commit.
\<close>

section \<open>Checkpoint\<close>

lemma mset_insert_frame: "mset (insert_frame x fs) = add_mset x (mset fs)"
proof -
  let ?P = "\<lambda>g. fr_pageLSN (snd g) > fr_pageLSN (snd x)"
  have "mset (dropWhile ?P (rev fs)) + mset (takeWhile ?P (rev fs)) = mset (takeWhile ?P (rev fs) @ dropWhile ?P (rev fs))"
    unfolding mset_append by (rule union_commute)
  also have "\<dots> = mset fs" unfolding takeWhile_dropWhile_id by simp
  finally show ?thesis by (simp add: insert_frame_def Let_def)
qed

lemma mset_sortFrames: "mset (sortFramesByLSN fs) = mset fs"
proof -
  have "mset (foldl (\<lambda>acc x. insert_frame x acc) acc fs) = mset acc + mset fs" for acc
    by (induction fs arbitrary: acc) (simp_all add: mset_insert_frame)
  then show ?thesis by (simp add: sortFramesByLSN_def)
qed

lemma sortFrames_simps [simp]:
  "set (sortFramesByLSN fs) = set fs" "sortFramesByLSN fs = [] \<longleftrightarrow> fs = []"
  "distinct (map fst (sortFramesByLSN fs)) = distinct (map fst fs)"
proof -
  show "set (sortFramesByLSN fs) = set fs" by (metis mset_sortFrames set_mset_mset)
  show "sortFramesByLSN fs = [] \<longleftrightarrow> fs = []" by (metis mset_sortFrames mset_zero_iff_right)
  have "mset (map fst (sortFramesByLSN fs)) = mset (map fst fs)" by (simp add: mset_sortFrames)
  then show "distinct (map fst (sortFramesByLSN fs)) = distinct (map fst fs)" by (rule mset_eq_imp_distinct_iff)
qed

text \<open>The resident frames that satisfy a condition, as the code collects them.\<close>

lemma table_filter:
  assumes "pool_ok held (p_pool p)"
  shows "(pid, f) \<in> set (filter P (pl_table (p_pool p))) \<longleftrightarrow> frame_at p pid = Some f \<and> P (pid, f)"
    "distinct (map fst (filter P (pl_table (p_pool p))))"
  using assms by (auto simp: pool_ok_def pool_lookup_def distinct_map_filter dest: map_of_SomeD intro: map_of_is_SomeI)

lemma pages_ok_clean:
  assumes ok: "pages_ok held cnt com n recs p" and f: "frame_at p pid = Some f"
    and c: "unat pid < n" "fr_Buf f = com pid" "has_page (p_pageSize p) (p_main p) pid" "page_at (p_pageSize p) (p_main p) pid = com pid"
  shows "pages_ok held cnt com n recs (put_frame pid (f\<lparr>fr_dirty := False\<rparr>) p)"
  unfolding put_frame_def
proof (rule pages_ok_pool[OF ok])
  show "pool_ok held (set_frame pid (f\<lparr>fr_dirty := False\<rparr>) (p_pool p))"
    using pool_ok_set_frame[OF pages_okD(1)[OF ok] f] by simp
  show "frame_ok cnt com n recs p v g" if "pool_lookup (set_frame pid (f\<lparr>fr_dirty := False\<rparr>) (p_pool p)) v = Some g" for v g
    using that c pages_okD(5)[OF ok f] pages_okD(5)[OF ok, of v g] by (auto simp: frame_ok_def split: if_splits)
qed (use pages_okD(2,4)[OF ok] in \<open>auto split: if_splits\<close>)

definition durable_frame :: "Pager \<Rightarrow> u64 \<times> pframe \<Rightarrow> bool" where
  "durable_frame p x \<longleftrightarrow> frame_at p (fst x) = Some (snd x) \<and> fr_dirty (snd x) \<and> fr_pageLSN (snd x) \<le> p_walFlushedLSN p"

text \<open>The main file has the committed bytes of a page.\<close>

definition in_main :: "(u64 \<Rightarrow> bytes) \<Rightarrow> Pager \<Rightarrow> u64 \<Rightarrow> bool" where
  "in_main com p q \<longleftrightarrow> has_page (p_pageSize p) (p_main p) q \<and> page_at (p_pageSize p) (p_main p) q = com q"

lemma write_back_all_ok:
  assumes "pages_ok 0 cnt com n recs p" "distinct (map fst xs)" "\<forall>x \<in> set xs. durable_frame p x"
  shows "\<exists>p'. write_back_all xs p = (p', Inr ()) \<and> pages_ok 0 cnt com n recs p' \<and> unmoved cnt p p'
    \<and> (\<forall>q g. frame_at p' q = Some g \<longrightarrow> fr_dirty g \<longrightarrow> q \<notin> fst ` set xs \<and> frame_at p q = Some g)
    \<and> (\<forall>q. in_main com p q \<longrightarrow> in_main com p' q)"
  using assms
proof (induction xs arbitrary: p)
  case Nil
  then show ?case by (simp add: unmoved_refl)
next
  case (Cons x xs)
  obtain pid f where x: "x = (pid, f)" by (cases x)
  have f: "frame_at p pid = Some f" "fr_dirty f" "fr_pageLSN f \<le> p_walFlushedLSN p"
    using Cons.prems(3) x by (simp_all add: durable_frame_def)
  have fo: "unat pid < n" "fr_Buf f = com pid" "last_image recs pid \<noteq> None"
    using pages_okD(5)[OF Cons.prems(1) f(1)] f(2,3) by (auto simp: frame_ok_def)
  note w = pages_ok_write_back[OF Cons.prems(1) fo(1,3)]
  let ?q = "p\<lparr>p_main := memWriteAt (p_main p) (com pid) (unat pid * p_pageSize p)\<rparr>"
  let ?p = "put_frame pid (f\<lparr>fr_dirty := False\<rparr>) ?q"
  have ok: "pages_ok 0 cnt com n recs ?p" by (rule pages_ok_clean[OF w(1)]) (use f fo w(2,3) in simp_all)
  have fq: "frame_at ?p q = (if q = pid then Some (f\<lparr>fr_dirty := False\<rparr>) else frame_at p q)" for q
    by (simp add: put_frame_def)
  have pq: "content ?p q = content p q" if "unat q < cnt" for q
  proof (cases "frame_at p q")
    case None
    then have "has_page (p_pageSize p) (p_main p) q" and "q \<noteq> pid" using pages_okD(7)[OF Cons.prems(1) that] f(1) by auto
    moreover have "length (com pid) = p_pageSize p" using pages_okD(15)[OF Cons.prems(1)] fo(1) by (simp add: com_ok_def)
    ultimately show ?thesis
      using None write_page(4)[of "com pid" "p_pageSize p" "p_main p" q pid]
      by (simp add: content_def fq) (simp add: put_frame_def)
  qed (use f fo in \<open>auto simp: content_def fq\<close>)
  then have u: "unmoved cnt p ?p" by (simp add: unmoved_def) (simp add: put_frame_def)
  have "durable_frame ?p y" if "y \<in> set xs" for y
    using that Cons.prems(2,3) x by (auto simp: durable_frame_def put_frame_def rev_image_eqI)
  then obtain p' where p': "write_back_all xs ?p = (p', Inr ())" "pages_ok 0 cnt com n recs p'" "unmoved cnt ?p p'"
      "\<forall>q g. frame_at p' q = Some g \<longrightarrow> fr_dirty g \<longrightarrow> q \<notin> fst ` set xs \<and> frame_at ?p q = Some g"
      "\<forall>q. in_main com ?p q \<longrightarrow> in_main com p' q"
    using Cons.IH[OF ok] Cons.prems(2) by auto
  have lc: "length (com pid) = p_pageSize p" using pages_okD(15)[OF Cons.prems(1)] fo(1) by (simp add: com_ok_def)
  have im: "in_main com p' q" if "in_main com p q" for q
    using p'(5) that write_page(1,2)[OF lc, of "p_main p" pid] write_page(3,4)[OF lc, of "p_main p" q pid]
    by (cases "q = pid") (auto simp: in_main_def put_frame_def)
  have run: "write_back_all (x # xs) p = (p', Inr ())"
    using p'(1) f(3) fo(2) page_off_small[OF page_off_bounds[OF Cons.prems(1) fo(1)]] by (simp add: x writeBack_def leD)
  have "q \<notin> fst ` set (x # xs) \<and> frame_at p q = Some g" if g: "frame_at p' q = Some g" "fr_dirty g" for q g
  proof -
    have a: "q \<notin> fst ` set xs" "frame_at ?p q = Some g" using p'(4) g by blast+
    then have "q \<noteq> pid" using g(2) fq[of q] by auto
    then show ?thesis using a fq[of q] x by simp
  qed
  then show ?case using run p'(2) unmoved_trans[OF u p'(3)] im by auto
qed

definition settled :: "Pager \<Rightarrow> bool" where
  "settled p \<longleftrightarrow> (\<forall>pid f. frame_at p pid = Some f \<longrightarrow> fr_dirty f \<longrightarrow> fr_pageLSN f \<le> p_walFlushedLSN p)"

text \<open>No page with uncommitted changes has its committed bytes in the log alone.\<close>

definition spared :: "(u64 \<Rightarrow> bytes) \<Rightarrow> nat \<Rightarrow> Pager \<Rightarrow> bool" where
  "spared com n p \<longleftrightarrow> (\<forall>pid f. frame_at p pid = Some f \<longrightarrow> fr_dirty f \<longrightarrow> p_walFlushedLSN p < fr_pageLSN f \<longrightarrow> unat pid < n \<longrightarrow> in_main com p pid)"

lemma settled_spared: "settled p \<Longrightarrow> spared com n p"
  by (auto simp: settled_def spared_def dest: leD)

lemma fresh_wal_holds: "wal_holds (CreateWriter old (NewWALHeader ps seq s1 s2)) []"
proof -
  let ?h = "NewWALHeader ps seq s1 s2"
  have v: "wFormatVersion ?h = WALFormatVersion" by (simp add: NewWALHeader_def)
  have "at_tail (CreateWriter old ?h) []" by (rule CreateWriter_tail(1)[OF v])
  moreover have "length (wfile (CreateWriter old ?h)) = writeOffset (CreateWriter old ?h)"
    by (simp add: CreateWriter_tail(2)[OF v]) (simp add: CreateWriter_def)
  ultimately show ?thesis unfolding wal_holds_def by (intro exI[of _ "[]"]) simp
qed

text \<open>With every committed page in the main file, the log may be emptied.\<close>

lemma pages_ok_fresh_log:
  assumes ok: "pages_ok 0 cnt com n recs p" and clean: "\<And>pid f. frame_at p pid = Some f \<Longrightarrow> fr_dirty f \<Longrightarrow>
      p_walFlushedLSN p < fr_pageLSN f \<and> (unat pid < n \<longrightarrow> in_main com p pid)"
  shows "pages_ok 0 cnt com n [] (openFreshWAL salts p)"
proof -
  let ?ps = "p_pageSize p" let ?p = "openFreshWAL salts p"
  have pg: "has_page ?ps (p_main p) pid \<and> page_at ?ps (p_main p) pid = com pid" if "unat pid < n" for pid
  proof (cases "frame_at p pid")
    case None
    then show ?thesis using pages_okD(7,8)[OF ok _ None] that pages_okD(3)[OF ok] by simp
  next
    case (Some f)
    then show ?thesis using pages_okD(5)[OF ok Some] clean[OF Some] that by (auto simp: frame_ok_def in_main_def split: if_splits)
  qed
  have fr: "frame_ok cnt com n [] ?p pid f" if "frame_at p pid = Some f" for pid f
    using pages_okD(5)[OF ok that] clean[OF that] by (auto simp: frame_ok_def openFreshWAL_def Let_def split: if_splits)
  have st: "stored ?ps (p_main p) [] pid = Some (com pid)" if "unat pid < n" for pid
    using pg[OF that] by (simp add: stored_def)
  have lg: "log_ok ?ps n [] ?p"
    using fresh_wal_holds by (simp add: log_ok_def openFreshWAL_def Let_def) (simp add: CreateWriter_def NewWALHeader_def)
  show ?thesis using ok fr st lg unfolding pages_ok_def by (simp add: openFreshWAL_def Let_def)
qed

lemma content_openFreshWAL [simp]: "content (openFreshWAL salts p) = content p"
  by (auto simp: content_def openFreshWAL_def Let_def fun_eq_iff split: option.splits)

lemma checkpointLocked_spared:
  assumes ok: "pager_ok com n recs p" and st: "spared com n p"
  shows "\<exists>p'. checkpointLocked salts p = (p', Inr ()) \<and> pager_ok com n [] p' \<and> (settled p \<longrightarrow> settled p')
    \<and> p_hdr p' = p_hdr p \<and> p_nextLSN p' = p_nextLSN p \<and> p_walFrames p' = 0 \<and> p_pageSize p' = p_pageSize p \<and> p_checksum p' = p_checksum p
    \<and> (\<forall>pid. unat pid < unat (PageCount (p_hdr p)) \<longrightarrow> content p' pid = content p pid)"
proof -
  let ?c = "unat (PageCount (p_hdr p))"
  let ?p1 = "p\<lparr>p_pool := (p_pool p)\<lparr>pl_committedLSN := p_walFlushedLSN p\<rparr>\<rparr>"
  let ?P = "\<lambda>(_, f). fr_dirty f \<and> fr_pageLSN f \<le> p_walFlushedLSN p"
  let ?d = "sortFramesByLSN (filter ?P (pl_table (p_pool ?p1)))"
  have k: "pages_ok 0 ?c com n recs ?p1" and h: "hdr_ok p" using ok by (simp_all add: pager_ok_def)
  have pos: "0 < ?c" using pages_okD(3)[OF k] pages_okD(15)[OF k] by (simp add: com_ok_def)
  note tf = table_filter[OF pages_okD(1)[OF k], where P = ?P]
  have "\<forall>x \<in> set ?d. durable_frame ?p1 x" using tf(1) by (auto simp: durable_frame_def)
  moreover have "distinct (map fst ?d)" using tf(2) by simp
  ultimately obtain p2 where w: "write_back_all ?d ?p1 = (p2, Inr ())" "pages_ok 0 ?c com n recs p2" "unmoved ?c ?p1 p2"
      "\<forall>q g. frame_at p2 q = Some g \<longrightarrow> fr_dirty g \<longrightarrow> q \<notin> fst ` set ?d \<and> frame_at ?p1 q = Some g"
      "\<forall>q. in_main com ?p1 q \<longrightarrow> in_main com p2 q"
    using write_back_all_ok[OF k] by blast
  have u1: "unmoved ?c p ?p1" by (rule unmoved_pool) (auto simp: content_def split: option.splits)
  note u = unmovedD[OF unmoved_trans[OF u1 w(3)]]
  let ?p3 = "p2\<lparr>p_checkpointSeq := p_checkpointSeq p2 + 1\<rparr>" let ?p' = "openFreshWAL salts ?p3"
  have kept: "p_walFlushedLSN p < fr_pageLSN g \<and> frame_at p q = Some g" if g: "frame_at p2 q = Some g" "fr_dirty g" for q g
  proof -
    have q: "q \<notin> fst ` set ?d" "frame_at p q = Some g" using w(4) g by auto
    then have "(q, g) \<notin> set ?d" using imageI[of "(q, g)" "set ?d" fst] by auto
    then show ?thesis using tf(1)[of q g] q(2) g(2) by auto
  qed
  have im: "in_main com p2 q" if "in_main com p q" for q using w(5) that by (simp add: in_main_def)
  have k3: "pages_ok 0 ?c com n recs ?p3" using w(2) by (simp add: pages_ok_def frame_ok_def log_ok_def)
  have "pages_ok 0 ?c com n [] ?p'"
    by (rule pages_ok_fresh_log[OF k3]) (use kept im st u(5) in \<open>auto simp: spared_def in_main_def\<close>)
  moreover have c3: "content ?p3 = content p2" by (auto simp: content_def fun_eq_iff split: option.splits)
  moreover have hp: "p_hdr ?p' = p_hdr p" "p_pageSize ?p' = p_pageSize p" "p_checksum ?p' = p_checksum p" "p_nextLSN ?p' = p_nextLSN p"
    using u by (simp_all add: openFreshWAL_def Let_def)
  ultimately have "pager_ok com n [] ?p'" using h u(10)[of 0] pos by (simp add: pager_ok_def hdr_ok_def)
  moreover have "settled p \<longrightarrow> settled ?p'" using kept by (fastforce simp: settled_def openFreshWAL_def Let_def dest: leD)
  moreover have "checkpointLocked salts p = (?p', Inr ())"
    using pages_okD(18,19)[OF k] w(1) by (simp add: checkpointLocked_def Let_def)
  moreover have "p_walFrames ?p' = 0" by (simp add: openFreshWAL_def Let_def)
  ultimately show ?thesis using hp c3 u(10) by (intro exI[of _ ?p']) simp
qed

lemma checkpointLocked_ok:
  assumes ok: "pager_ok com n recs p" and st: "settled p"
  shows "\<exists>p'. checkpointLocked salts p = (p', Inr ()) \<and> pager_ok com n [] p' \<and> settled p'
    \<and> p_hdr p' = p_hdr p \<and> p_nextLSN p' = p_nextLSN p \<and> p_walFrames p' = 0 \<and> p_pageSize p' = p_pageSize p \<and> p_checksum p' = p_checksum p
    \<and> (\<forall>pid. unat pid < unat (PageCount (p_hdr p)) \<longrightarrow> content p' pid = content p pid)"
  using checkpointLocked_spared[OF ok settled_spared[OF st]] st by auto

section \<open>Commit\<close>

text \<open>Sealing changes only the trailing checksum of a page, and page 0 not at all.\<close>

definition resealed :: "byte \<Rightarrow> u64 \<Rightarrow> bytes \<Rightarrow> bytes \<Rightarrow> bool" where
  "resealed algo pid b b' \<longleftrightarrow> length b' = length b \<and> take (length b - ChecksumSize) b' = take (length b - ChecksumSize) b
     \<and> (if pid = 0 then b' = b else VerifyPageChecksum b' algo = Some None)"

definition seal_rel :: "byte \<Rightarrow> u64 \<times> pframe \<Rightarrow> u64 \<times> pframe \<Rightarrow> bool" where
  "seal_rel algo x y \<longleftrightarrow> fst y = fst x \<and> (\<exists>b. snd y = (snd x)\<lparr>fr_Buf := b\<rparr> \<and> resealed algo (fst x) (fr_Buf (snd x)) b)"

lemma seal_ok:
  assumes "Supported (p_checksum p)" "4 \<le> length (fr_Buf (snd x))"
  shows "\<exists>y. seal p x = Some y \<and> seal_rel (p_checksum p) x y"
proof (cases "fst x = 0")
  case True
  then show ?thesis by (auto simp: seal_def seal_rel_def resealed_def intro: exI[of _ "fr_Buf (snd x)"])
next
  case False
  obtain b where "WritePageChecksum (fr_Buf (snd x)) (p_checksum p) = Some b" "resealed (p_checksum p) (fst x) (fr_Buf (snd x)) b"
    using WritePageChecksum_verifies[OF assms] False by (auto simp: resealed_def)
  then show ?thesis using False by (auto simp: seal_def seal_rel_def)
qed

lemma seal_all_ok:
  assumes "Supported (p_checksum p)" "\<forall>x \<in> set xs. 4 \<le> length (fr_Buf (snd x))"
  shows "\<exists>ys. seal_all p xs = Some ys \<and> list_all2 (seal_rel (p_checksum p)) xs ys"
  using assms(2)
proof (induction xs)
  case (Cons x xs)
  then obtain y ys where "seal p x = Some y" "seal_rel (p_checksum p) x y" "seal_all p xs = Some ys"
      "list_all2 (seal_rel (p_checksum p)) xs ys"
    using seal_ok[OF assms(1), of x] by auto
  then show ?case by auto
qed simp

lemma seal_rel_keys: "list_all2 (seal_rel algo) xs ys \<Longrightarrow> map fst ys = map fst xs"
  by (induction rule: list_all2_induct) (auto simp: seal_rel_def)

lemma seal_rel_map_of:
  assumes "list_all2 (seal_rel algo) xs ys"
  shows "map_of ys q = None \<longleftrightarrow> map_of xs q = None"
    "map_of ys q = Some g \<Longrightarrow> \<exists>f b. map_of xs q = Some f \<and> g = f\<lparr>fr_Buf := b\<rparr> \<and> resealed algo q (fr_Buf f) b"
  using assms by (induction rule: list_all2_induct) (auto simp: seal_rel_def split: if_splits)

text \<open>Putting the sealed frames back.\<close>

lemma set_frames_lookup:
  assumes "distinct (map fst ys)"
  shows "pool_lookup (set_frames ys pl) q = (case map_of ys q of Some g \<Rightarrow> Some g | None \<Rightarrow> pool_lookup pl q)"
  using assms
proof (induction ys pl rule: set_frames.induct)
  case (2 pid f ys pl)
  have "map_of ys pid = None" using 2(2) by (simp add: map_of_eq_None_iff)
  then show ?case using 2 by (cases "q = pid") (simp_all split: option.splits)
qed simp

lemma set_frames_pageSize [simp]: "pl_pageSize (set_frames ys pl) = pl_pageSize pl"
  by (induction ys pl rule: set_frames.induct) simp_all

lemma set_frames_pool_ok:
  assumes "list_all2 (seal_rel algo) xs ys" "pool_ok 0 pl" "\<forall>x \<in> set xs. pool_lookup pl (fst x) = Some (snd x)" "distinct (map fst xs)"
  shows "pool_ok 0 (set_frames ys pl)"
  using assms
proof (induction arbitrary: pl rule: list_all2_induct)
  case (Cons x xs y ys)
  obtain pid f where x: "x = (pid, f)" by (cases x)
  obtain b where y: "y = (pid, f\<lparr>fr_Buf := b\<rparr>)" using Cons.hyps(1) x by (cases y) (auto simp: seal_rel_def)
  let ?q = "set_frame pid (f\<lparr>fr_Buf := b\<rparr>) pl"
  have "pool_ok 0 ?q" using pool_ok_set_frame[OF Cons.prems(1), of pid f "f\<lparr>fr_Buf := b\<rparr>"] Cons.prems(2) x by simp
  moreover have "\<forall>z \<in> set xs. pool_lookup ?q (fst z) = Some (snd z)" using Cons.prems(2,3) x by (auto simp: rev_image_eqI)
  ultimately show ?case using Cons.IH[of ?q] Cons.prems(3) x y by simp
qed simp

lemma max_lsn_ge: "x \<in> set ys \<Longrightarrow> fr_pageLSN (snd x) \<le> max_lsn ys"
  and max_lsn_le: "(\<And>x. x \<in> set ys \<Longrightarrow> fr_pageLSN (snd x) \<le> b) \<Longrightarrow> max_lsn ys \<le> b"
proof -
  have g: "m \<le> fold (\<lambda>x m. max m (fr_pageLSN (snd x))) ys m
    \<and> (x \<in> set ys \<longrightarrow> fr_pageLSN (snd x) \<le> fold (\<lambda>x m. max m (fr_pageLSN (snd x))) ys m)" for m
    by (induction ys arbitrary: m) (auto, (meson max.boundedE order.trans)+)
  then show "x \<in> set ys \<Longrightarrow> fr_pageLSN (snd x) \<le> max_lsn ys" by (simp add: max_lsn_def)
  have l: "m \<le> b \<Longrightarrow> (\<And>x. x \<in> set ys \<Longrightarrow> fr_pageLSN (snd x) \<le> b) \<Longrightarrow> fold (\<lambda>x m. max m (fr_pageLSN (snd x))) ys m \<le> b" for m
    by (induction ys arbitrary: m) auto
  then show "(\<And>x. x \<in> set ys \<Longrightarrow> fr_pageLSN (snd x) \<le> b) \<Longrightarrow> max_lsn ys \<le> b" by (simp add: max_lsn_def)
qed

lemma AppendCommit_append:
  assumes "ims \<noteq> []"
  shows "\<exists>r. AppendCommit w ims db = Inr (wal_append w (ims, db), r)"
  using append_loop_images[of w ims "if db = 0 then 1 else db"] marked_records[OF assms, of db] assms
  by (cases "append_loop w ims (if db = 0 then 1 else db)") (simp add: AppendCommit_def wal_append_def)

lemma map_of_rev_id:
  assumes "distinct (map fst kv)"
  shows "map_of (rev kv) = map_of kv"
proof (rule map_of_inject_set[THEN iffD2])
  show "distinct (map fst (rev kv))" by (metis assms distinct_rev rev_map)
qed (use assms in simp_all)

lemma commit_records_images: "ims \<noteq> [] \<Longrightarrow> map fst (commit_records (ims, db)) = ims"
  by (simp add: commit_records_def o_def)

lemma last_image_commit:
  assumes "ims \<noteq> []" "distinct (map iPageID ims)"
  shows "last_image (commit_records (ims, db)) pid = map_of (map (\<lambda>im. (iPageID im, iPayload im)) ims) pid"
proof -
  note fst_recs = commit_records_images[OF assms(1)]
  let ?kv = "\<lambda>im. (iPageID im, iPayload im)"
  have "map (\<lambda>r. ?kv (fst r)) (commit_records (ims, db)) = map ?kv ims"
    using arg_cong[OF fst_recs[of db], of "map ?kv"] by (simp add: o_def)
  moreover have "distinct (map fst (map ?kv ims))" using assms(2) by (simp add: o_def)
  ultimately show ?thesis unfolding last_image_def by (simp add: map_of_rev_id)
qed


text \<open>When nothing is uncommitted, the pages in use are the committed ones.\<close>

lemma settled_content:
  assumes ok: "pages_ok 0 cnt com n recs p" and st: "settled p" and cnt: "cnt < 2 ^ 32"
  shows "cnt = n" "unat pid < n \<Longrightarrow> content p pid = com pid"
proof -
  have a: "unat q < n \<and> content p q = com q" if "unat q < cnt" for q
  proof (cases "frame_at p q")
    case None
    then show ?thesis using pages_okD(6,8)[OF ok that None] by (simp add: content_def)
  next
    case (Some f)
    then show ?thesis using pages_okD(5)[OF ok Some] st by (auto simp: frame_ok_def settled_def content_def split: if_splits)
  qed
  show "cnt = n"
  proof (rule ccontr)
    assume "cnt \<noteq> n"
    then have "n < cnt" using pages_okD(3)[OF ok] by simp
    moreover from this have "unat (of_nat n :: u64) = n" using cnt by (simp add: unat_of_nat_id)
    ultimately show False using a[of "of_nat n"] by simp
  qed
  then show "unat pid < n \<Longrightarrow> content p pid = com pid" using a by blast
qed

lemma com_cong:
  assumes ok: "pages_ok held cnt com n recs p" and c: "\<And>pid. unat pid < n \<Longrightarrow> com' pid = com pid"
  shows "pages_ok held cnt com' n recs p"
proof -
  have z: "com' 0 = com 0" using c[of 0] pages_okD(15)[OF ok] by (simp add: com_ok_def)
  have "com_ok (p_pageSize p) (p_checksum p) com' n" using pages_okD(15)[OF ok] c z by (auto simp: com_ok_def)
  moreover have "frame_ok cnt com' n recs p pid f" if "frame_at p pid = Some f" for pid f
    using pages_okD(5)[OF ok that] c by (auto simp: frame_ok_def)
  ultimately show ?thesis using ok c unfolding pages_ok_def by (auto simp: c)
qed

text \<open>The state right after the log append: every dirty page sealed, logged and durable.\<close>

definition uncommitted :: "Pager \<Rightarrow> (u64 \<times> pframe) list" where
  "uncommitted p = filter (\<lambda>(_, f). fr_dirty f \<and> fr_pageLSN f > p_walFlushedLSN p) (pl_table (p_pool p))"

definition appended :: "Pager \<Rightarrow> (u64 \<times> pframe) list \<Rightarrow> Pager" where
  "appended p sealed = p\<lparr>p_pool := set_frames sealed (p_pool p),
     p_walw := map_option (\<lambda>w. wal_append w (map image_of sealed, PageCount (p_hdr p))) (p_walw p),
     p_walFlushedLSN := max_lsn sealed, p_walFrames := p_walFrames p + length sealed\<rparr>"

definition commit_point :: "(u64 \<Rightarrow> bytes) \<Rightarrow> nat \<Rightarrow> (PageImage \<times> u32) list \<Rightarrow> Pager \<Rightarrow> (u64 \<times> pframe) list \<Rightarrow> bool" where
  "commit_point com n recs p sealed \<longleftrightarrow> pager_ok com n recs p \<and> uncommitted p \<noteq> []
     \<and> list_all2 (seal_rel (p_checksum p)) (sortFramesByLSN (uncommitted p)) sealed"

lemma appended_fields [simp]:
  "p_main (appended p s) = p_main p" "p_pageSize (appended p s) = p_pageSize p" "p_hdr (appended p s) = p_hdr p"
  "p_checksum (appended p s) = p_checksum p" "p_nextLSN (appended p s) = p_nextLSN p"
  "p_walFlushedLSN (appended p s) = max_lsn s" "p_closed (appended p s) = p_closed p" "p_readOnly (appended p s) = p_readOnly p"
  "pl_pageSize (p_pool (appended p s)) = pl_pageSize (p_pool p)"
  by (simp_all add: appended_def)

lemma commit_pages: "commit_point com n recs p s \<Longrightarrow> pages_ok 0 (unat (PageCount (p_hdr p))) com n recs p"
  and commit_hdr: "commit_point com n recs p s \<Longrightarrow> hdr_ok p"
  and commit_seals: "commit_point com n recs p s \<Longrightarrow> list_all2 (seal_rel (p_checksum p)) (sortFramesByLSN (uncommitted p)) s"
  by (simp_all add: commit_point_def pager_ok_def)

lemma uncommitted_iff:
  assumes "pages_ok 0 cnt com n recs p"
  shows "map_of (sortFramesByLSN (uncommitted p)) q = Some f
      \<longleftrightarrow> frame_at p q = Some f \<and> fr_dirty f \<and> fr_pageLSN f > p_walFlushedLSN p"
    "distinct (map fst (sortFramesByLSN (uncommitted p)))"
proof -
  note tf = table_filter[OF pages_okD(1)[OF assms], where P = "\<lambda>(_, f). fr_dirty f \<and> fr_pageLSN f > p_walFlushedLSN p"]
  show d: "distinct (map fst (sortFramesByLSN (uncommitted p)))" using tf(2) by (simp add: uncommitted_def)
  then show "map_of (sortFramesByLSN (uncommitted p)) q = Some f
      \<longleftrightarrow> frame_at p q = Some f \<and> fr_dirty f \<and> fr_pageLSN f > p_walFlushedLSN p"
    using tf(1)[of q f] by (simp add: map_of_eq_Some_iff uncommitted_def)
qed

lemma commit_distinct: "commit_point com n recs p s \<Longrightarrow> distinct (map fst s)"
  using uncommitted_iff(2)[OF commit_pages] seal_rel_keys[OF commit_seals] by metis

lemma commit_look:
  "commit_point com n recs p s \<Longrightarrow> frame_at (appended p s) q = (case map_of s q of Some g \<Rightarrow> Some g | None \<Rightarrow> frame_at p q)"
  using set_frames_lookup[OF commit_distinct] by (simp add: appended_def)

text \<open>A sealed page is a page that was uncommitted; a page that was not keeps its committed bytes.\<close>

lemma commit_sealed:
  assumes cp: "commit_point com n recs p s" and g: "map_of s q = Some g"
  shows "\<exists>f b. frame_at p q = Some f \<and> g = f\<lparr>fr_Buf := b\<rparr> \<and> resealed (p_checksum p) q (fr_Buf f) b"
    "fr_pageLSN g \<le> max_lsn s" "p_walFlushedLSN p < fr_pageLSN g" "fr_pageLSN g \<le> p_nextLSN p" "fr_dirty g"
    "unat q < unat (PageCount (p_hdr p))" "length (fr_Buf g) = p_pageSize p" "content (appended p s) q = fr_Buf g"
proof -
  note k0 = commit_pages[OF cp]
  obtain f b where f: "map_of (sortFramesByLSN (uncommitted p)) q = Some f" "g = f\<lparr>fr_Buf := b\<rparr>" "resealed (p_checksum p) q (fr_Buf f) b"
    using seal_rel_map_of(2)[OF commit_seals[OF cp] g] by blast
  have u: "frame_at p q = Some f" "fr_dirty f" "fr_pageLSN f > p_walFlushedLSN p" using uncommitted_iff(1)[OF k0] f(1) by auto
  note fo = pages_okD(5)[OF k0 u(1)]
  show "\<exists>f b. frame_at p q = Some f \<and> g = f\<lparr>fr_Buf := b\<rparr> \<and> resealed (p_checksum p) q (fr_Buf f) b" using f u by blast
  show "fr_pageLSN g \<le> max_lsn s" using max_lsn_ge[of "(q, g)" s] map_of_SomeD[OF g] by simp
  show "p_walFlushedLSN p < fr_pageLSN g" "fr_pageLSN g \<le> p_nextLSN p" "fr_dirty g"
    "unat q < unat (PageCount (p_hdr p))" "length (fr_Buf g) = p_pageSize p"
    using fo u f by (auto simp: frame_ok_def resealed_def)
  show "content (appended p s) q = fr_Buf g" using commit_look[OF cp, of q] g by (simp add: content_def)
qed

lemma commit_rest:
  assumes cp: "commit_point com n recs p s" and q: "unat q < unat (PageCount (p_hdr p))" "map_of s q = None"
  shows "unat q < n \<and> content (appended p s) q = com q \<and> content p q = com q"
    "frame_at p q = Some f \<Longrightarrow> \<not> (fr_dirty f \<and> fr_pageLSN f > p_walFlushedLSN p)"
proof -
  note k0 = commit_pages[OF cp]
  have no: "\<not> (fr_dirty f \<and> fr_pageLSN f > p_walFlushedLSN p)" if "frame_at p q = Some f" for f
    using seal_rel_map_of(1)[OF commit_seals[OF cp], of q] q(2) uncommitted_iff(1)[OF k0, of q f] that by auto
  then show "frame_at p q = Some f \<Longrightarrow> \<not> (fr_dirty f \<and> fr_pageLSN f > p_walFlushedLSN p)" .
  show "unat q < n \<and> content (appended p s) q = com q \<and> content p q = com q"
  proof (cases "frame_at p q")
    case None
    then show ?thesis using pages_okD(6,8)[OF k0 q(1) None] q(2) commit_look[OF cp, of q] by (simp add: content_def)
  next
    case (Some f)
    then show ?thesis using pages_okD(5)[OF k0 Some] no[OF Some] q(2) commit_look[OF cp, of q]
      by (auto simp: frame_ok_def content_def split: if_splits)
  qed
qed

lemma commit_lsns:
  assumes cp: "commit_point com n recs p s"
  shows "s \<noteq> []" "p_walFlushedLSN p < max_lsn s" "max_lsn s \<le> p_nextLSN p"
proof -
  have "length s = length (sortFramesByLSN (uncommitted p))" using commit_seals[OF cp] by (simp add: list_all2_lengthD)
  then show ne: "s \<noteq> []" using cp by (auto simp: commit_point_def)
  then obtain x where x: "x \<in> set s" by (cases s) auto
  have m: "map_of s (fst x) = Some (snd x)" if "x \<in> set s" for x
    using that commit_distinct[OF cp] by (simp add: map_of_eq_Some_iff)
  show "p_walFlushedLSN p < max_lsn s" using commit_sealed(2,3)[OF cp m[OF x]] by simp
  show "max_lsn s \<le> p_nextLSN p" using commit_sealed(4)[OF cp m] by (rule max_lsn_le)
qed

lemma commit_last_image:
  assumes cp: "commit_point com n recs p s"
  shows "last_image (recs @ commit_records (map image_of s, db)) q
    = (case map_of s q of Some g \<Rightarrow> Some (fr_Buf g) | None \<Rightarrow> last_image recs q)"
proof -
  have ne: "map image_of s \<noteq> []" using commit_lsns(1)[OF cp] by simp
  have d: "distinct (map iPageID (map image_of s))" using commit_distinct[OF cp] by (simp add: image_of_def o_def)
  have "map_of (map (\<lambda>im. (iPageID im, iPayload im)) (map image_of s)) q = map_option fr_Buf (map_of s q)"
    by (induction s) (auto simp: image_of_def)
  then show ?thesis by (simp add: last_image_append last_image_commit[OF ne d] split: option.splits)
qed

lemma commit_resealed:
  assumes cp: "commit_point com n recs p s" and q: "unat q < unat (PageCount (p_hdr p))"
  shows "content (appended p s) q = content p q \<or> resealed (p_checksum p) q (content p q) (content (appended p s) q)"
    "length (content (appended p s) q) = p_pageSize p"
    "q \<noteq> 0 \<Longrightarrow> VerifyPageChecksum (content (appended p s) q) (p_checksum p) = Some None"
proof -
  have com: "com_ok (p_pageSize p) (p_checksum p) com n" by (rule pages_okD(15)[OF commit_pages[OF cp]])
  have "(content (appended p s) q = content p q \<or> resealed (p_checksum p) q (content p q) (content (appended p s) q))
    \<and> length (content (appended p s) q) = p_pageSize p
    \<and> (q \<noteq> 0 \<longrightarrow> VerifyPageChecksum (content (appended p s) q) (p_checksum p) = Some None)"
  proof (cases "map_of s q")
    case None
    then show ?thesis using commit_rest(1)[OF cp q None] com by (auto simp: com_ok_def)
  next
    case (Some g)
    then obtain f b where "frame_at p q = Some f" "g = f\<lparr>fr_Buf := b\<rparr>" "resealed (p_checksum p) q (fr_Buf f) b"
      using commit_sealed(1)[OF cp] by blast
    then show ?thesis using commit_sealed(7,8)[OF cp Some] by (auto simp: resealed_def content_def split: if_splits)
  qed
  then show "content (appended p s) q = content p q \<or> resealed (p_checksum p) q (content p q) (content (appended p s) q)"
    "length (content (appended p s) q) = p_pageSize p"
    "q \<noteq> 0 \<Longrightarrow> VerifyPageChecksum (content (appended p s) q) (p_checksum p) = Some None" by blast+
qed

lemma commit_header:
  assumes cp: "commit_point com n recs p s"
  shows "hdr_ok (appended p s)" "com_ok (p_pageSize p) (p_checksum p) (content (appended p s)) (unat (PageCount (p_hdr p)))"
proof -
  let ?c = "unat (PageCount (p_hdr p))"
  note k0 = commit_pages[OF cp]
  have pos: "0 < ?c" using pages_okD(3)[OF k0] pages_okD(15)[OF k0] by (simp add: com_ok_def)
  have "content (appended p s) 0 = content p 0" using commit_resealed(1)[OF cp, of 0] pos by (auto simp: resealed_def)
  then show h: "hdr_ok (appended p s)" using commit_hdr[OF cp] by (simp add: hdr_ok_def)
  have "?c < 2 ^ 32" using unsigned_less[of "PageCount (p_hdr p)", where ?'a = nat] by simp
  then show "com_ok (p_pageSize p) (p_checksum p) (content (appended p s)) ?c"
    using h commit_resealed(2,3)[OF cp] pos unfolding com_ok_def header_in_def hdr_ok_def by auto
qed

lemma commit_log:
  assumes cp: "commit_point com n recs p s"
  shows "log_ok (p_pageSize p) (unat (PageCount (p_hdr p))) (recs @ commit_records (map image_of s, PageCount (p_hdr p))) (appended p s)"
proof -
  let ?c = "unat (PageCount (p_hdr p))" and ?ps = "p_pageSize p" and ?ims = "map image_of s"
  let ?rs = "recs @ commit_records (?ims, PageCount (p_hdr p))"
  note k0 = commit_pages[OF cp]
  obtain w where w: "p_walw p = Some w" "wal_holds w recs" "wPageSize (wheader w) = of_nat ?ps"
    using pages_okD(14)[OF k0] by (auto simp: log_ok_def)
  have ne: "?ims \<noteq> []" using commit_lsns(1)[OF cp] by simp
  have pay: "unat (iPageID im) < ?c \<and> length (iPayload im) = ?ps" if "im \<in> set ?ims" for im
  proof -
    have "im \<in> image_of ` set s" using that by simp
    then obtain x where x: "x \<in> set s" "im = image_of x" by (rule imageE)
    then have "map_of s (fst x) = Some (snd x)" using commit_distinct[OF cp] by (simp add: map_of_eq_Some_iff)
    then show ?thesis using commit_sealed(6,7)[OF cp] x(2) by (simp add: image_of_def)
  qed
  have "?ps < 2 ^ 32" using pages_okD(16)[OF k0] by (auto simp: valid_size_def)
  then have "commit_ok (wPageSize (wheader w)) (?ims, PageCount (p_hdr p))"
    using ne pay w by (simp add: commit_ok_def unat_of_nat_id)
  then have "wal_holds (wal_append w (?ims, PageCount (p_hdr p))) ?rs" by (rule wal_log.app_holds[OF w(2)])
  moreover have "unat (iPageID (fst r)) < ?c \<and> length (iPayload (fst r)) = ?ps" if "r \<in> set ?rs" for r
  proof (cases "r \<in> set recs")
    case True
    then show ?thesis using pages_okD(14)[OF k0] pages_okD(3)[OF k0] by (fastforce simp: log_ok_def)
  next
    case False
    then have "fst r \<in> set (map fst (commit_records (?ims, PageCount (p_hdr p))))" using that by simp
    then have "fst r \<in> set ?ims" unfolding commit_records_images[OF ne] .
    then show ?thesis using pay by blast
  qed
  moreover have "unat (snd (last ?rs)) = ?c"
    using pages_okD(3)[OF k0] pages_okD(15)[OF k0] by (auto simp: commit_records_def com_ok_def)
  ultimately show ?thesis using w by (simp add: log_ok_def appended_def wal_append_def append_image_header)
qed

lemma commit_frames:
  assumes cp: "commit_point com n recs p s" and g: "frame_at (appended p s) q = Some g"
  shows "frame_ok (unat (PageCount (p_hdr p))) (content (appended p s)) (unat (PageCount (p_hdr p)))
      (recs @ commit_records (map image_of s, db)) (appended p s) q g"
    "fr_dirty g \<Longrightarrow> fr_pageLSN g \<le> max_lsn s"
proof -
  note k0 = commit_pages[OF cp] and li = commit_last_image[OF cp, of db q] and look = commit_look[OF cp, of q]
  let ?c = "unat (PageCount (p_hdr p))" and ?p' = "appended p s"
  have "frame_ok ?c (content ?p') ?c (recs @ commit_records (map image_of s, db)) ?p' q g \<and> (fr_dirty g \<longrightarrow> fr_pageLSN g \<le> max_lsn s)"
  proof (cases "map_of s q")
    case (Some g')
    then have "g' = g" using g look by simp
    then show ?thesis using commit_sealed(2-8)[OF cp Some] li Some by (simp add: frame_ok_def)
  next
    case None
    then have gp: "frame_at p q = Some g" using g look by simp
    note fo = pages_okD(5)[OF k0 gp]
    then have q: "unat q < ?c" by (simp add: frame_ok_def)
    have "fr_Buf g = content ?p' q" using g by (simp add: content_def)
    then show ?thesis using fo commit_rest[OF cp q None] gp li None commit_lsns(2)[OF cp]
      by (auto simp: frame_ok_def split: if_splits)
  qed
  then show "frame_ok ?c (content ?p') ?c (recs @ commit_records (map image_of s, db)) ?p' q g"
    "fr_dirty g \<Longrightarrow> fr_pageLSN g \<le> max_lsn s" by blast+
qed

lemma commit_append_ok:
  assumes cp: "commit_point com n recs p s"
  shows "pager_ok (content (appended p s)) (unat (PageCount (p_hdr p)))
      (recs @ commit_records (map image_of s, PageCount (p_hdr p))) (appended p s)" "settled (appended p s)"
proof -
  let ?c = "unat (PageCount (p_hdr p))" and ?ps = "p_pageSize p" and ?p' = "appended p s"
  let ?rs = "recs @ commit_records (map image_of s, PageCount (p_hdr p))"
  note k0 = commit_pages[OF cp] and look = commit_look[OF cp]
  show "settled ?p'" using commit_frames(2)[OF cp] by (simp add: settled_def)
  have nf: "has_page ?ps (p_main p) q \<and> page_at ?ps (p_main p) q = content ?p' q" if "unat q < ?c" "frame_at ?p' q = None" for q
  proof -
    have n: "map_of s q = None" "frame_at p q = None" using that(2) look[of q] by (auto split: option.splits)
    then show ?thesis using commit_rest(1)[OF cp that(1)] pages_okD(7,8)[OF k0 that(1)] by simp
  qed
  have str: "stored ?ps (p_main p) ?rs q = Some (content ?p' q)" if "unat q < ?c" for q
  proof (cases "map_of s q")
    case (Some g)
    then show ?thesis using commit_last_image[OF cp, of _ q] commit_sealed(8)[OF cp Some] by (simp add: stored_def)
  next
    case None
    then show ?thesis using commit_last_image[OF cp, of _ q] commit_rest(1)[OF cp that None] pages_okD(9)[OF k0, of q]
      by (simp add: stored_def)
  qed
  have "\<forall>x \<in> set (sortFramesByLSN (uncommitted p)). frame_at p (fst x) = Some (snd x)"
    using uncommitted_iff[OF k0] by (metis map_of_eq_Some_iff prod.collapse)
  then have "pool_ok 0 (p_pool ?p')"
    using set_frames_pool_ok[OF commit_seals[OF cp] pages_okD(1)[OF k0]] uncommitted_iff(2)[OF k0] by (simp add: appended_def)
  moreover have "length (p_main p) \<le> ?c * ?ps" using pages_okD(10)[OF k0] pages_okD(3)[OF k0] by (meson mult_le_mono1 order.trans)
  moreover have "frame_at ?p' 0 \<noteq> None" using pages_okD(4)[OF k0] look[of 0] by (auto split: option.splits)
  ultimately have "pages_ok 0 ?c (content ?p') ?c ?rs ?p'"
    using commit_frames(1)[OF cp] nf str commit_log[OF cp] commit_header(2)[OF cp] commit_lsns(3)[OF cp] pages_okD(2,11,12,16-19)[OF k0]
    unfolding pages_ok_def by simp
  then show "pager_ok (content ?p') ?c ?rs ?p'" using commit_header(1)[OF cp] by (simp add: pager_ok_def)
qed

text \<open>A commit makes the pages in use the committed database, whether it appends to the log, has
  nothing to append, or also checkpoints.\<close>

lemma commit_settled_empty:
  assumes ok: "pager_ok com n recs p" and none: "uncommitted p = []"
  shows "settled p" "pager_ok (content p) (unat (PageCount (p_hdr p))) recs p"
proof -
  let ?c = "unat (PageCount (p_hdr p))"
  have k: "pages_ok 0 ?c com n recs p" and h: "hdr_ok p" using ok by (simp_all add: pager_ok_def)
  show st: "settled p"
    unfolding settled_def using uncommitted_iff(1)[OF k] none by (metis leI map_of.simps(1) option.distinct(1) sortFrames_simps(2))
  have lt: "?c < 2 ^ 32" using unsigned_less[of "PageCount (p_hdr p)", where ?'a = nat] by simp
  have "?c = n" by (rule settled_content(1)[OF k st lt])
  moreover have "content p q = com q" if "unat q < n" for q by (rule settled_content(2)[OF k st lt that])
  ultimately show "pager_ok (content p) ?c recs p" using com_cong[OF k] h by (simp add: pager_ok_def)
qed

lemma commit_seal:
  assumes ok: "pager_ok com n recs p" and some: "uncommitted p \<noteq> []"
  shows "\<exists>s. seal_all p (sortFramesByLSN (uncommitted p)) = Some s \<and> commit_point com n recs p s"
proof -
  have k: "pages_ok 0 (unat (PageCount (p_hdr p))) com n recs p" using ok by (simp add: pager_ok_def)
  have "4 \<le> length (fr_Buf f)" if "(q, f) \<in> set (sortFramesByLSN (uncommitted p))" for q f
  proof -
    have "frame_at p q = Some f" using that uncommitted_iff[OF k] by (metis map_of_is_SomeI)
    then show ?thesis using pages_okD(5)[OF k] pages_ok_size[OF k] by (auto simp: frame_ok_def)
  qed
  then have "\<forall>x \<in> set (sortFramesByLSN (uncommitted p)). 4 \<le> length (fr_Buf (snd x))" by auto
  then show ?thesis using seal_all_ok[OF pages_okD(17)[OF k]] ok some by (auto simp: commit_point_def)
qed

definition same_pages :: "Pager \<Rightarrow> Pager \<Rightarrow> bool" where
  "same_pages p p' \<longleftrightarrow> p_hdr p' = p_hdr p \<and> p_nextLSN p' = p_nextLSN p
     \<and> (\<forall>q. unat q < unat (PageCount (p_hdr p)) \<longrightarrow>
          content p' q = content p q \<or> resealed (p_checksum p) q (content p q) (content p' q))"

lemma commitLocked_run:
  assumes ok: "pager_ok com n recs p" and s: "seal_all p (sortFramesByLSN (uncommitted p)) = Some s" "commit_point com n recs p s"
  shows "commitLocked salts p = (if int (p_walFrames (appended p s)) \<ge> p_ckptN p \<and> p_backupActive p = 0
      then checkpointLocked salts (appended p s) else (appended p s, Inr ()))"
proof -
  have k: "pages_ok 0 (unat (PageCount (p_hdr p))) com n recs p" using ok by (simp add: pager_ok_def)
  obtain w where w: "p_walw p = Some w" using pages_okD(14)[OF k] by (auto simp: log_ok_def)
  have ne: "map image_of s \<noteq> []" using commit_lsns(1)[OF s(2)] by simp
  obtain r where a: "AppendCommit w (map image_of s) (PageCount (p_hdr p)) = Inr (wal_append w (map image_of s, PageCount (p_hdr p)), r)"
    using AppendCommit_append[OF ne] by blast
  have u: "uncommitted p \<noteq> []" using s(2) by (simp add: commit_point_def)
  show ?thesis using pages_okD(18,19)[OF k] u s(1) w a
    unfolding commitLocked_def uncommitted_def by (simp add: Let_def appended_def)
qed

lemma commitLocked_appended:
  assumes ok: "pager_ok com n recs p" and s: "seal_all p (sortFramesByLSN (uncommitted p)) = Some s" "commit_point com n recs p s"
  shows "\<exists>p' recs'. commitLocked salts p = (p', Inr ()) \<and> pager_ok (content (appended p s)) (unat (PageCount (p_hdr p))) recs' p'
    \<and> settled p' \<and> p_hdr p' = p_hdr p \<and> p_nextLSN p' = p_nextLSN p
    \<and> (\<forall>pid. unat pid < unat (PageCount (p_hdr p)) \<longrightarrow> content p' pid = content (appended p s) pid)"
proof (cases "int (p_walFrames (appended p s)) \<ge> p_ckptN p \<and> p_backupActive p = 0")
  case False
  have "commitLocked salts p = (appended p s, Inr ())" using commitLocked_run[OF ok s, of salts] unfolding if_not_P[OF False] .
  then show ?thesis using commit_append_ok[OF s(2)]
    by (intro exI[of _ "appended p s"] exI[of _ "recs @ commit_records (map image_of s, PageCount (p_hdr p))"]) simp
next
  case True
  have run: "commitLocked salts p = checkpointLocked salts (appended p s)" using commitLocked_run[OF ok s, of salts] unfolding if_P[OF True] .
  obtain p' where "checkpointLocked salts (appended p s) = (p', Inr ())" "pager_ok (content (appended p s)) (unat (PageCount (p_hdr p))) [] p'"
      "settled p'" "p_hdr p' = p_hdr p" "p_nextLSN p' = p_nextLSN p"
      "\<forall>pid. unat pid < unat (PageCount (p_hdr p)) \<longrightarrow> content p' pid = content (appended p s) pid"
    using checkpointLocked_ok[OF commit_append_ok[OF s(2)], of salts] by auto
  then show ?thesis unfolding run by (intro exI[of _ p'] exI[of _ "[]"]) simp
qed

lemma commitLocked_ok:
  assumes ok: "pager_ok com n recs p"
  shows "\<exists>p' recs'. commitLocked salts p = (p', Inr ())
    \<and> pager_ok (content p') (unat (PageCount (p_hdr p))) recs' p' \<and> settled p' \<and> same_pages p p'"
proof (cases "uncommitted p = []")
  case True
  then show ?thesis
    using commit_settled_empty[OF ok True] ok unfolding pager_ok_def
    by (intro exI[of _ p] exI[of _ recs]) (auto simp: commitLocked_def uncommitted_def same_pages_def dest: pages_okD(18,19))
next
  case False
  let ?c = "unat (PageCount (p_hdr p))"
  obtain s where s: "seal_all p (sortFramesByLSN (uncommitted p)) = Some s" "commit_point com n recs p s"
    using commit_seal[OF ok False] by blast
  obtain p' recs' where p': "commitLocked salts p = (p', Inr ())" "pager_ok (content (appended p s)) ?c recs' p'" "settled p'"
      "p_hdr p' = p_hdr p" "p_nextLSN p' = p_nextLSN p" "\<forall>pid. unat pid < ?c \<longrightarrow> content p' pid = content (appended p s) pid"
    using commitLocked_appended[OF ok s, of salts] by auto
  have "pages_ok 0 ?c (content (appended p s)) ?c recs' p'" "hdr_ok p'" using p'(2,4) by (simp_all add: pager_ok_def)
  then have "pager_ok (content p') ?c recs' p'" using com_cong[where com' = "content p'"] p'(4,6) by (simp add: pager_ok_def)
  moreover have "same_pages p p'" using commit_resealed(1)[OF s(2)] p'(4-6) by (simp add: same_pages_def)
  ultimately show ?thesis using p'(1,3) by blast
qed

end
