(* ===== verification/Pager_Recovery.thy ===== *)
theory Pager_Recovery
  imports Pager_Durability
begin

text \<open>
  Crash and recovery of the pager. \<open>disk_holds\<close> says that a pair of files holds a database; every
  state of the files that a crash can leave holds the database before or after the commit in
  progress, and \<^verbatim>\<open>Open\<close> on files that hold a database returns a pager whose pages are that database.
\<close>

section \<open>Files that hold a database\<close>

definition disk_log :: "nat \<Rightarrow> disk \<Rightarrow> (PageImage \<times> u32) list option" where
  "disk_log ps d =
     (case d_wal d of
        None \<Rightarrow> Some []
      | Some wfl \<Rightarrow> (case Scan wfl (of_nat ps) of Inl _ \<Rightarrow> None | Inr r \<Rightarrow> Some (map frame_record (Committed r))))"

definition disk_holds :: "nat \<Rightarrow> byte \<Rightarrow> (u64 \<Rightarrow> bytes) \<Rightarrow> nat \<Rightarrow> disk \<Rightarrow> bool" where
  "disk_holds ps algo com n d \<longleftrightarrow>
     valid_size ps \<and> Supported algo \<and> com_ok ps algo com n
     \<and> (\<exists>img recs. d_main d = Some img \<and> disk_log ps d = Some recs
          \<and> (\<forall>r \<in> set recs. length (iPayload (fst r)) = ps) \<and> (recs \<noteq> [] \<longrightarrow> unat (snd (last recs)) = n)
          \<and> header_in ps algo img \<and> has_page ps img 0 \<and> length img \<le> n * ps
          \<and> (\<forall>pid. unat pid < n \<longrightarrow> stored ps img recs pid = Some (com pid)))"

text \<open>The files of a running pager.\<close>

definition disk_of :: "Pager \<Rightarrow> disk" where
  "disk_of p = \<lparr>d_main = Some (p_main p), d_wal = map_option wfile (p_walw p)\<rparr>"

lemma Scan_size:
  assumes "Scan img ps = Inr r" "Committed r \<noteq> []"
  shows "DBSizePages r = snd (last (map frame_record (Committed r)))"
proof -
  have "DBSizePages (finish_scan st) = CommitMarker (fHeader (last (Committed (finish_scan st))))"
    if "Committed (finish_scan st) \<noteq> []" for st
    using that by (auto simp: finish_scan_def Let_def NoResult_def split: if_splits)
  moreover have "NoResult = r \<or> (\<exists>st. finish_scan st = r)"
    using assms(1) by (auto simp: Scan_def Let_def split: if_splits sum.splits)
  ultimately have "DBSizePages r = CommitMarker (fHeader (last (Committed r)))"
    using assms(2) by (auto simp: NoResult_def)
  then show ?thesis using assms(2) by (simp add: last_map frame_record_def)
qed

lemma wal_holds_Scan:
  assumes "wal_holds w recs"
  shows "\<exists>r. Scan (wfile w) (wPageSize (wheader w)) = Inr r \<and> map frame_record (Committed r) = recs"
proof -
  obtain fs where fs: "at_tail w fs" "length (wfile w) = writeOffset w" "map frame_record fs = recs" "upto_commit fs = fs"
    using assms by (auto simp: wal_holds_def)
  then show ?thesis using at_tail_Scan[OF fs(1,2)] by (auto simp: reports_def)
qed

text \<open>With the pages of a pager, any main file and log that store the same pages hold the database.\<close>

lemma pages_disk:
  assumes ok: "pages_ok held cnt com n recs p" and d: "d_main d = Some img" "disk_log (p_pageSize p) d = Some recs'"
    and r: "\<forall>r \<in> set recs'. length (iPayload (fst r)) = p_pageSize p" "recs' \<noteq> [] \<longrightarrow> unat (snd (last recs')) = n"
    and m: "header_in (p_pageSize p) (p_checksum p) img" "has_page (p_pageSize p) img 0" "length img \<le> n * p_pageSize p"
    and s: "\<And>pid. unat pid < n \<Longrightarrow> stored (p_pageSize p) img recs' pid = Some (com pid)"
  shows "disk_holds (p_pageSize p) (p_checksum p) com n d"
  unfolding disk_holds_def using pages_okD(15,16,17)[OF ok] d r m s by blast

lemma disk_of_holds:
  assumes ok: "pages_ok held cnt com n recs p"
  shows "disk_holds (p_pageSize p) (p_checksum p) com n (disk_of p)"
proof (rule pages_disk[OF ok])
  obtain w where w: "p_walw p = Some w" "wal_holds w recs" "wPageSize (wheader w) = of_nat (p_pageSize p)"
    using pages_okD(14)[OF ok] by (auto simp: log_ok_def)
  show "disk_log (p_pageSize p) (disk_of p) = Some recs"
    using wal_holds_Scan[OF w(2)] w by (auto simp: disk_log_def disk_of_def)
  show "\<forall>r \<in> set recs. length (iPayload (fst r)) = p_pageSize p" "recs \<noteq> [] \<longrightarrow> unat (snd (last recs)) = n"
    using pages_okD(14)[OF ok] by (auto simp: log_ok_def)
qed (use pages_okD(9-12)[OF ok] in \<open>auto simp: disk_of_def\<close>)

section \<open>Opening\<close>

lemma DecodeHeader_openable:
  assumes "DecodeHeader b = Inr h"
  shows "openable h" "128 \<le> length b"
  using assms by (auto simp: DecodeHeader_def read_header_def openable_def not_less split: if_splits)

lemma valid_size_header: "DecodeHeader b = Inr h \<Longrightarrow> valid_size (unat (PageSize h))"
  using DecodeHeader_openable(1)[of b h] by (auto simp: openable_def ValidPageSize_def valid_size_def)

lemma read_header_at:
  assumes "has_page ps img 0" "4096 \<le> ps"
  shows "memReadAt img HeaderSize 0 = (take HeaderSize img, False)" "memReadAt img ps 0 = (page_at ps img 0, False)"
proof -
  have "ps \<le> length img" using assms(1) by (simp add: has_page_def)
  then show "memReadAt img HeaderSize 0 = (take HeaderSize img, False)" using assms(2) by (auto simp: memReadAt_def Let_def)
  show "memReadAt img ps 0 = (page_at ps img 0, False)" using memReadAt_page[OF assms(1)] assms(2) by simp
qed

text \<open>Recovery brings every committed page into the main file and cuts the file to its pages.\<close>

lemma recover_ok:
  assumes h: "disk_holds ps algo com n d" and d: "d_main d = Some img"
  shows "\<exists>img' gen. recover ps False img (d_wal d) = Inr (img', gen) \<and> length img' = n * ps
    \<and> (\<forall>pid. unat pid < n \<longrightarrow> has_page ps img' pid \<and> page_at ps img' pid = com pid)"
proof -
  obtain recs where r: "disk_log ps d = Some recs" "\<forall>r \<in> set recs. length (iPayload (fst r)) = ps"
      "recs \<noteq> [] \<longrightarrow> unat (snd (last recs)) = n" "length img \<le> n * ps"
      "\<forall>pid. unat pid < n \<longrightarrow> stored ps img recs pid = Some (com pid)"
    using h d by (auto simp: disk_holds_def)
  have n: "0 < n" "n < 2 ^ 32" using h by (auto simp: disk_holds_def com_ok_def)
  have last: "unat (of_nat (n - 1) :: u64) = n - 1" using n by (intro unat_of_nat_id) simp
  show ?thesis
  proof (cases "recs = []")
    case True
    have pg: "has_page ps img pid \<and> page_at ps img pid = com pid" if "unat pid < n" for pid
      using r(5) that True by (auto simp: stored_def split: if_splits)
    then have "(n - 1) * ps + ps \<le> length img" using pg[of "of_nat (n - 1)"] n unfolding has_page_def last by simp
    then have "length img = n * ps" using r(4) n by (cases n) auto
    moreover have "recover ps False img (d_wal d) = Inr (img, 0)"
      using r(1) True by (auto simp: recover_def disk_log_def split: option.splits sum.splits)
    ultimately show ?thesis using pg by blast
  next
    case False
    then obtain wfl res where w: "d_wal d = Some wfl" "Scan wfl (of_nat ps) = Inr res" "map frame_record (Committed res) = recs"
      using r(1) by (auto simp: disk_log_def split: option.splits sum.splits)
    let ?m = "replay ps img (Committed res)" let ?t = "memTruncate ?m (n * ps)"
    have ne: "Committed res \<noteq> []" using w(3) False by auto
    have "unat (DBSizePages res) = n" using Scan_size[OF w(2) ne] w(3) r(3) False by simp
    then have "recover ps False img (d_wal d) = Inr (?t, scanGeneration wfl)" using w ne by (simp add: recover_def)
    moreover have "length ?t = n * ps" by (rule mem_file.size_trunc)
    moreover have "has_page ps ?t pid \<and> page_at ps ?t pid = com pid" if "unat pid < n" for pid
      using replay_stored[OF r(2) w(3), of img pid "com pid"] r(5) that truncate_page[where ps = ps and img = ?m and pid = pid and n = n] by simp
    ultimately show ?thesis by blast
  qed
qed

text \<open>A pager with every page on disk, page 0 resident and an empty log.\<close>

definition fresh_pager :: "Options \<Rightarrow> nat \<Rightarrow> byte \<Rightarrow> bytes \<Rightarrow> Header \<Rightarrow> u32 \<Rightarrow> Pager" where
  "fresh_pager opts ps algo img hdr gen =
     \<lparr>p_main = img, p_walw = None, p_pool = resident0 (newPool ps (o_PoolPages opts)) (page_at ps img 0),
      p_pageSize = ps, p_checksum = algo, p_readOnly = False, p_ckptN = o_CheckpointFrames opts, p_hdr = hdr,
      p_nextLSN = 0, p_walFlushedLSN = 0, p_checkpointSeq = gen, p_walFrames = 0, p_backupActive = 0, p_closed = False\<rparr>"

lemma resident0_ok:
  "pool_ok 0 (resident0 (newPool ps c) b)" "pl_pageSize (resident0 (newPool ps c) b) = ps"
  "pool_lookup (resident0 (newPool ps c) b) q
    = (if q = 0 then Some \<lparr>fr_Buf = b, fr_pins = 1, fr_dirty = False, fr_pageLSN = 0, fr_loc = listNone\<rparr> else None)"
  by (auto simp: resident0_def newPool_def Let_def pool_ok_def set_frame_def pool_lookup_def)

lemma fresh_pager_ok:
  assumes img: "length img = n * ps" "\<forall>pid. unat pid < n \<longrightarrow> has_page ps img pid \<and> page_at ps img pid = com pid"
    and c: "com_ok ps algo com n" "valid_size ps" "Supported algo"
    and hdr: "DecodeHeader (take HeaderSize img) = Inr (hdr\<lparr>HeaderChecksum := s\<rparr>)" "unat (PageSize hdr) = ps"
      "ChecksumAlgo hdr = algo" "unat (PageCount hdr) = n"
  shows "pager_ok com n [] (openFreshWAL salts (fresh_pager opts ps algo img hdr gen))" (is "pager_ok com n [] ?q")
    and "settled (openFreshWAL salts (fresh_pager opts ps algo img hdr gen))"
    and "unat pid < n \<Longrightarrow> content (openFreshWAL salts (fresh_pager opts ps algo img hdr gen)) pid = com pid"
proof -
  let ?p = "fresh_pager opts ps algo img hdr gen"
  have big: "4096 \<le> ps" using c(2) by (auto simp: valid_size_def)
  have pos: "0 < n" using c(1) by (simp add: com_ok_def)
  have p0: "has_page ps img 0" "page_at ps img 0 = com 0" using img(2) pos by auto
  have len0: "length (com 0) = ps" using c(1) pos by (simp add: com_ok_def)
  have cont: "content ?p q = page_at ps img q" for q by (auto simp: content_def fresh_pager_def resident0_ok)
  then show "unat pid < n \<Longrightarrow> content ?q pid = com pid" using img(2) by simp
  show "settled ?q" by (auto simp: settled_def openFreshWAL_def Let_def fresh_pager_def resident0_ok split: if_splits)
  have f: "p_pageSize ?q = ps" "p_main ?q = img" "p_checksum ?q = algo" "p_hdr ?q = hdr" "p_pool ?q = p_pool ?p"
      "p_nextLSN ?q = 0" "p_walFlushedLSN ?q = 0" "\<not> p_closed ?q" "\<not> p_readOnly ?q"
    by (simp_all add: openFreshWAL_def Let_def fresh_pager_def)
  have lg: "log_ok ps n [] ?q"
    using fresh_wal_holds by (simp add: log_ok_def openFreshWAL_def Let_def fresh_pager_def) (simp add: CreateWriter_def NewWALHeader_def)
  have hin: "header_in ps algo img" using hdr by (auto simp: header_in_def)
  have fr: "frame_ok n com n [] ?q q g" if "frame_at ?p q = Some g" for q g
    using that p0 len0 pos f by (auto simp: frame_ok_def fresh_pager_def resident0_ok split: if_splits)
  have st: "stored ps img [] q = Some (com q)" if "unat q < n" for q using img(2) that by (simp add: stored_def)
  have pl: "pool_ok 0 (p_pool ?p)" "pl_pageSize (p_pool ?p) = ps" "frame_at ?p 0 \<noteq> None"
    by (simp_all add: fresh_pager_def resident0_ok)
  have "pages_ok 0 n com n [] ?q"
    unfolding pages_ok_def f using pl fr st lg hin img p0 c f(8,9) by simp
  moreover have "hdr_ok ?q"
    unfolding hdr_ok_def f content_openFreshWAL cont using hdr DecodeHeader_openable(1)[OF hdr(1)] big
    by (auto simp: take_header_page openable_def)
  ultimately show "pager_ok com n [] ?q" using hdr(4) f by (simp add: pager_ok_def)
qed

definition opened :: "(u64 \<Rightarrow> bytes) \<Rightarrow> nat \<Rightarrow> nat \<Rightarrow> byte \<Rightarrow> Pager \<Rightarrow> bool" where
  "opened com n ps algo p \<longleftrightarrow> pager_ok com n [] p \<and> settled p \<and> p_pageSize p = ps \<and> p_checksum p = algo
     \<and> unat (PageCount (p_hdr p)) = n \<and> p_nextLSN p = 0 \<and> (\<forall>pid. unat pid < n \<longrightarrow> content p pid = com pid)"

lemma Open_ok:
  assumes h: "disk_holds ps algo com n d" and rw: "\<not> o_ReadOnly opts"
  shows "\<exists>p. Open d opts salts ws uuid = Inr p \<and> opened com n ps algo p"
proof -
  obtain img where i: "d_main d = Some img" "header_in ps algo img" "has_page ps img 0"
    using h by (auto simp: disk_holds_def)
  have c: "com_ok ps algo com n" "valid_size ps" "Supported algo" using h by (auto simp: disk_holds_def)
  have big: "4096 \<le> ps" using c(2) by (auto simp: valid_size_def)
  obtain hdr where hdr: "DecodeHeader (take HeaderSize img) = Inr hdr" "unat (PageSize hdr) = ps" "ChecksumAlgo hdr = algo"
    using i(2) by (auto simp: header_in_def)
  obtain img' gen where r: "recover ps False img (d_wal d) = Inr (img', gen)" "length img' = n * ps"
      "\<forall>pid. unat pid < n \<longrightarrow> has_page ps img' pid \<and> page_at ps img' pid = com pid"
    using recover_ok[OF h i(1)] by blast
  have p0: "has_page ps img' 0" "page_at ps img' 0 = com 0" using r(3) c(1) by (auto simp: com_ok_def)
  have tk: "take HeaderSize img' = take HeaderSize (com 0)" using take_header_page[of ps img'] p0(2) big by simp
  obtain hdr' where hdr': "DecodeHeader (take HeaderSize img') = Inr hdr'" "unat (PageCount hdr') = n"
      "unat (PageSize hdr') = ps" "ChecksumAlgo hdr' = algo"
    unfolding tk using c(1) by (auto simp: com_ok_def header_in_def)
  let ?p = "openFreshWAL salts (fresh_pager (withDefaults opts) ps algo img' hdr' (gen + 1))"
  have "openExisting (withDefaults opts) salts img (d_wal d) = Inr ?p"
    unfolding openExisting_def
    using read_header_at[OF i(3) big] hdr r(1) read_header_at[OF p0(1) big] hdr'(1) rw
    by (simp add: withDefaults_def fresh_pager_def)
  then have "Open d opts salts ws uuid = Inr ?p" using i(1) by (simp add: Open_def)
  moreover have "opened com n ps algo ?p"
    unfolding opened_def using fresh_pager_ok[OF r(2,3) c _ hdr'(3,4,2), of "HeaderChecksum hdr'"] hdr'(1,2)
    by (simp add: openFreshWAL_def Let_def fresh_pager_def)
  ultimately show ?thesis by blast
qed

section \<open>Crashes\<close>

text \<open>A log whose last commit is cut short holds the records before it.\<close>

lemma cut_commit:
  assumes w: "wal_holds w recs" and c: "commit_ok (wPageSize (wheader w)) c" and k: "length (wfile w) \<le> k"
  shows "\<exists>r. Scan (take k (wfile (wal_append w c))) (wPageSize (wheader w)) = Inr r
    \<and> map frame_record (Committed r) \<in> {recs, recs @ commit_records c}"
proof -
  obtain fs where fs: "at_tail w fs" "length (wfile w) = writeOffset w" "map frame_record fs = recs" "upto_commit fs = fs"
    using w by (auto simp: wal_holds_def)
  let ?h = "wheader w" let ?n = "FrameSize (wPageSize ?h)"
  let ?gs = "frames_of ?h (prevCksum w) (nextLSN w) (nextFrame w) (log_records [c])"
  let ?w = "wal_append w c"
  have "\<forall>im \<in> set (commit_records c). length (iPayload (fst im)) = unat (wPageSize ?h)" using commit_records_ok[OF c] by blast
  note t = append_images_tail[OF fs(1) this, folded wal_append_def]
  have at: "at_tail ?w (fs @ ?gs)" "wheader ?w = ?h" and len: "length (wfile ?w) = writeOffset ?w" using t fs(2) by auto
  have ch: "chained ?h (initialPrevChecksum ?h) 0 (fs @ ?gs)" using at_tailD(3)[OF at(1)] at(2) by simp
  have img: "wfile ?w = EncodeWALHeader ?h @ wire fs @ wire ?gs"
    using at_tailD(5)[OF at(1)] len at(2) by simp
  have l: "length (wfile w) = 32 + length (wire fs)" using fs(2) at_tailD(4)[OF fs(1)] by simp
  let ?b = "k - length (wfile w)" let ?m = "?b div ?n"
  obtain prev no where chg: "chained ?h prev no ?gs" using ch unfolding chained_append by blast
  obtain rest where rest: "take ?b (wire ?gs) = wire (take ?m ?gs) @ rest" "length rest < ?n" using wire_cut[OF chg] by blast
  have ck: "take k (wfile ?w) = EncodeWALHeader ?h @ wire (fs @ take ?m ?gs) @ rest"
    using k l rest(1) by (simp add: img)
  have "chained ?h (initialPrevChecksum ?h) 0 (fs @ take ?m ?gs)"
    using chained_take[OF ch, of "length fs + ?m"] by simp
  from Scan_chain_short[OF at_tailD(1)[OF fs(1)] this rest(2)]
  obtain r where r: "Scan (take k (wfile ?w)) (wPageSize ?h) = Inr r" "reports r (upto_commit (fs @ take ?m ?gs))"
    unfolding ck by blast
  have ne: "\<forall>c' \<in> set [c]. fst c' \<noteq> []" using c by (simp add: commit_ok_def)
  have "upto_commit (take ?m ?gs) = [] \<or> upto_commit (take ?m ?gs) = ?gs"
    using upto_commit_take[OF ne, of ?m ?h "prevCksum w" "nextLSN w" "nextFrame w"] by (simp split: if_splits)
  then have "Committed r = fs \<or> Committed r = fs @ ?gs" using r(2) fs(4) by (auto simp: reports_def upto_commit_append)
  then have "map frame_record (Committed r) \<in> {recs, recs @ commit_records c}" using fs(3) by (auto simp: frames_of_records)
  then show ?thesis using r(1) by blast
qed

text \<open>The files a checkpoint can leave: some pages written, the next one written in part, or every page
  written and the log being replaced.\<close>

inductive checkpoint_crash :: "u32 \<times> u32 \<Rightarrow> Pager \<Rightarrow> disk \<Rightarrow> bool" for salts p where
  pages: "\<lbrakk>dirty = sortFramesByLSN (filter (\<lambda>(_, f). fr_dirty f \<and> fr_pageLSN f \<le> p_walFlushedLSN p) (pl_table (p_pool p)));
      dirty = xs @ (pid, f) # ys; write_back_all xs p = (q, Inr ())\<rbrakk>
    \<Longrightarrow> checkpoint_crash salts p \<lparr>d_main = Some (memWriteAt (p_main q) (take t (fr_Buf f)) (nat (page_off q pid))),
          d_wal = map_option wfile (p_walw p)\<rparr>"
| log: "\<lbrakk>checkpointLocked salts p = (q, Inr ()); p_walw q = Some w\<rbrakk>
    \<Longrightarrow> checkpoint_crash salts p \<lparr>d_main = Some (p_main q), d_wal = Some (take k (wfile w))\<rparr>"

inductive commit_crash :: "u32 \<times> u32 \<Rightarrow> Pager \<Rightarrow> disk \<Rightarrow> bool" for salts p where
  before: "commit_crash salts p (disk_of p)"
| append: "\<lbrakk>seal_all p (sortFramesByLSN (uncommitted p)) = Some s; p_walw p = Some w; uncommitted p \<noteq> [];
      length (wfile w) \<le> k\<rbrakk>
    \<Longrightarrow> commit_crash salts p \<lparr>d_main = Some (p_main p),
          d_wal = Some (take k (wfile (wal_append w (map image_of s, PageCount (p_hdr p)))))\<rparr>"
| checkpoint: "\<lbrakk>seal_all p (sortFramesByLSN (uncommitted p)) = Some s; uncommitted p \<noteq> []; checkpoint_crash salts (appended p s) d\<rbrakk>
    \<Longrightarrow> commit_crash salts p d"
| after: "commitLocked salts p = (q, Inr ()) \<Longrightarrow> commit_crash salts p (disk_of q)"

text \<open>The database header at the front of the main file is intact: it is 128 bytes, less than a disk sector,
  and opening decodes it before the log is read.\<close>

definition header_whole :: "Pager \<Rightarrow> disk \<Rightarrow> bool" where
  "header_whole p d \<longleftrightarrow> (\<forall>m. d_main d = Some m \<longrightarrow> header_in (p_pageSize p) (p_checksum p) m)"

text \<open>A write of part of a logged page, the header kept, leaves what the files hold.\<close>

lemma write_part:
  assumes "length b \<le> ps" "has_page ps img q" "q \<noteq> v"
  shows "has_page ps (memWriteAt img b (unat v * ps)) q" "page_at ps (memWriteAt img b (unat v * ps)) q = page_at ps img q"
proof -
  let ?f = "memWriteAt img b (unat v * ps)"
  have l: "length ?f = max (length img) (unat v * ps + length b)" by (rule mem_file.size_wr)
  show h: "has_page ps ?f q" using assms(2) by (simp add: has_page_def l)
  have "?f ! i = img ! i" if "unat q * ps \<le> i" "i < unat q * ps + ps" for i
    using page_ranges[OF assms(3), of ps] that assms(1,2) mem_file.byte_wr[of i img b "unat v * ps"] l by (auto simp: has_page_def)
  then show "page_at ps ?f q = page_at ps img q" using h assms(2) by (simp add: page_at_nth)
qed

lemma torn_write:
  assumes ok: "pages_ok 0 cnt com n recs p" and pid: "unat pid < n" "last_image recs pid \<noteq> None"
    and hd: "header_in (p_pageSize p) (p_checksum p) (memWriteAt (p_main p) (take t (com pid)) (nat (page_off p pid)))"
  shows "disk_holds (p_pageSize p) (p_checksum p) com n
    \<lparr>d_main = Some (memWriteAt (p_main p) (take t (com pid)) (nat (page_off p pid))), d_wal = map_option wfile (p_walw p)\<rparr>" (is "disk_holds _ _ _ _ ?d")
proof (rule pages_disk[OF ok])
  let ?ps = "p_pageSize p" let ?f = "memWriteAt (p_main p) (take t (com pid)) (unat pid * ?ps)"
  have lc: "length (com pid) = ?ps" using pages_okD(15)[OF ok] pid(1) by (auto simp: com_ok_def)
  have po: "nat (page_off p pid) = unat pid * ?ps" by (rule page_off_small(2)[OF page_off_bounds[OF ok pid(1)]])
  have d: "disk_log ?ps (disk_of p) = Some recs" and lg: "log_ok ?ps n recs p"
    using pages_okD(14)[OF ok] wal_holds_Scan by (fastforce simp: disk_log_def disk_of_def log_ok_def)+
  show "d_main ?d = Some ?f" by (simp add: po)
  show "disk_log ?ps ?d = Some recs" using d by (simp add: disk_log_def disk_of_def)
  show "\<forall>r \<in> set recs. length (iPayload (fst r)) = ?ps" "recs \<noteq> [] \<longrightarrow> unat (snd (last recs)) = n" using lg by (auto simp: log_ok_def)
  have l: "length ?f = max (length (p_main p)) (unat pid * ?ps + length (take t (com pid)))" by (rule mem_file.size_wr)
  show "has_page ?ps ?f 0" using pages_okD(11)[OF ok] by (simp add: has_page_def l)
  have "Suc (unat pid) * ?ps \<le> n * ?ps" using pid(1) by (intro mult_le_mono1) simp
  then show "length ?f \<le> n * ?ps" using pages_okD(10)[OF ok] lc by (simp add: l)
  show "header_in ?ps (p_checksum p) ?f" using hd by (simp add: po)
  show "stored ?ps ?f recs q = Some (com q)" if "unat q < n" for q
    using pages_okD(9)[OF ok that] pid(2) lc write_part[of "take t (com pid)" ?ps "p_main p" q pid]
    by (cases "q = pid") (auto simp: stored_def split: option.splits if_splits)
qed

lemma checkpoint_crash_holds:
  assumes ok: "pager_ok com n recs p" and st: "spared com n p" and hd: "header_whole p d" and crash: "checkpoint_crash salts p d"
  shows "disk_holds (p_pageSize p) (p_checksum p) com n d"
  using crash
proof cases
  case (pages dirty xs pid f ys q t)
  let ?c = "unat (PageCount (p_hdr p))" let ?P = "\<lambda>(_, f). fr_dirty f \<and> fr_pageLSN f \<le> p_walFlushedLSN p"
  have k: "pages_ok 0 ?c com n recs p" using ok by (simp add: pager_ok_def)
  note tf = table_filter[OF pages_okD(1)[OF k], where P = ?P]
  have set: "set dirty = set (filter ?P (pl_table (p_pool p)))" and dist: "distinct (map fst dirty)"
    using tf(2) by (simp_all add: pages(2))
  have f: "frame_at p pid = Some f" "fr_dirty f" "fr_pageLSN f \<le> p_walFlushedLSN p"
    using tf(1)[of pid f] set by (auto simp: pages(3))
  have fo: "unat pid < n" "fr_Buf f = com pid" "last_image recs pid \<noteq> None"
    using pages_okD(5)[OF k f(1)] f(2,3) by (auto simp: frame_ok_def)
  have "\<forall>x \<in> set xs. durable_frame p x"
  proof
    fix x assume "x \<in> set xs"
    then have "x \<in> set (filter ?P (pl_table (p_pool p)))" unfolding set[symmetric] pages(3) by simp
    then show "durable_frame p x" using tf(1)[of "fst x" "snd x"] by (auto simp: durable_frame_def)
  qed
  moreover have "distinct (map fst xs)" using dist by (simp add: pages(3))
  ultimately obtain q' where q': "write_back_all xs p = (q', Inr ())" "pages_ok 0 ?c com n recs q'" "unmoved ?c p q'"
    using write_back_all_ok[OF k] by blast
  then have "q' = q" using pages(4) by simp
  then show ?thesis using torn_write[OF q'(2) fo(1,3), of t] unmovedD[OF q'(3)] fo(2) hd by (simp add: pages(1) header_whole_def)
next
  case (log q w k)
  obtain q' where "checkpointLocked salts p = (q', Inr ())" and q': "pager_ok com n [] q'"
      "p_pageSize q' = p_pageSize p" "p_checksum q' = p_checksum p"
    using checkpointLocked_spared[OF ok st, of salts] by auto
  then have qq: "q' = q" using log(2) by simp
  have kq: "pages_ok 0 (unat (PageCount (p_hdr q))) com n [] q" using q'(1) qq by (simp add: pager_ok_def)
  have w: "wal_holds w []" "wPageSize (wheader w) = of_nat (p_pageSize q)"
    using pages_okD(14)[OF kq] log(3) by (auto simp: log_ok_def)
  then have "length (wfile w) = 32" using at_tailD(4) by (fastforce simp: wal_holds_def)
  then have "\<exists>r. Scan (take k (wfile w)) (of_nat (p_pageSize q)) = Inr r \<and> Committed r = []"
    using Scan_short_header[of "take k (wfile w)"] wal_holds_Scan[OF w(1)] w(2) by (cases "k < 32") (auto simp: NoResult_def)
  then have "disk_log (p_pageSize q) d = Some []" by (auto simp: disk_log_def log(1))
  then show ?thesis
    using pages_disk[OF kq, of d "p_main q" "[]"] pages_okD(9-12)[OF kq] q'(2,3) qq by (simp add: log(1))
qed

lemma disk_holds_cong:
  assumes "disk_holds ps algo com n d" "\<And>pid. unat pid < n \<Longrightarrow> com' pid = com pid"
  shows "disk_holds ps algo com' n d"
proof -
  have "com' 0 = com 0" using assms by (intro assms(2)) (simp add: disk_holds_def com_ok_def)
  then have "com_ok ps algo com' n" using assms by (auto simp: disk_holds_def com_ok_def)
  then show ?thesis using assms by (auto simp: disk_holds_def)
qed

lemma append_crash_holds:
  assumes cp: "commit_point com n recs p s" and w: "p_walw p = Some w" and k: "length (wfile w) \<le> k"
    and d: "d = \<lparr>d_main = Some (p_main p), d_wal = Some (take k (wfile (wal_append w (map image_of s, PageCount (p_hdr p)))))\<rparr>"
  shows "disk_holds (p_pageSize p) (p_checksum p) com n d
    \<or> disk_holds (p_pageSize p) (p_checksum p) (content (appended p s)) (unat (PageCount (p_hdr p))) d"
proof -
  let ?ps = "p_pageSize p" and ?c = "unat (PageCount (p_hdr p))" and ?cs = "(map image_of s, PageCount (p_hdr p))"
  let ?q = "appended p s" and ?rs = "recs @ commit_records ?cs"
  have k0: "pages_ok 0 ?c com n recs p" by (rule commit_pages[OF cp])
  have k1: "pages_ok 0 ?c (content ?q) ?c ?rs ?q" using commit_append_ok(1)[OF cp] by (simp add: pager_ok_def)
  have w': "wal_holds w recs" "wPageSize (wheader w) = of_nat ?ps" using pages_okD(14)[OF k0] w by (auto simp: log_ok_def)
  have small: "?ps < 2 ^ 32" using pages_okD(16)[OF k0] by (auto simp: valid_size_def)
  have lens: "\<forall>r \<in> set ?rs. length (iPayload (fst r)) = ?ps" using pages_okD(14)[OF k1] by (simp add: log_ok_def)
  have ne: "map image_of s \<noteq> []" using commit_lsns(1)[OF cp] by simp
  have "length (iPayload im) = ?ps" if "im \<in> set (map image_of s)" for im
  proof -
    have "im \<in> fst ` set (commit_records ?cs)" using that commit_records_images[OF ne, of "PageCount (p_hdr p)"] by (metis image_set)
    then show ?thesis using lens by auto
  qed
  then have "commit_ok (wPageSize (wheader w)) ?cs" using ne w'(2) small by (simp add: commit_ok_def unat_of_nat_id)
  from cut_commit[OF w'(1) this k]
  have "disk_log ?ps d = Some recs \<or> disk_log ?ps d = Some ?rs" using w'(2) by (auto simp: disk_log_def d)
  then show ?thesis
  proof
    assume l: "disk_log ?ps d = Some recs"
    have "disk_holds ?ps (p_checksum p) com n d"
      by (rule pages_disk[OF k0 _ l]) (use pages_okD(9-12,14)[OF k0] in \<open>auto simp: d log_ok_def\<close>)
    then show ?thesis ..
  next
    assume l: "disk_log ?ps d = Some ?rs"
    have "disk_holds (p_pageSize ?q) (p_checksum ?q) (content ?q) ?c d"
      by (rule pages_disk[OF k1, of d "p_main p" ?rs]) (use l pages_okD(9-12,14)[OF k1] in \<open>auto simp: d log_ok_def\<close>)
    then show ?thesis by simp
  qed
qed

text \<open>Wherever a commit stops, the files hold the database before it or the database after it.\<close>

lemma commit_crash_holds:
  assumes ok: "pager_ok com n recs p" and hd: "header_whole p d" and crash: "commit_crash salts p d" and run: "commitLocked salts p = (p', r)"
  shows "disk_holds (p_pageSize p) (p_checksum p) com n d
    \<or> disk_holds (p_pageSize p) (p_checksum p) (content p') (unat (PageCount (p_hdr p))) d"
proof -
  let ?c = "unat (PageCount (p_hdr p))"
  have k: "pages_ok 0 ?c com n recs p" using ok by (simp add: pager_ok_def)
  have app: "commit_point com n recs p s" "disk_holds ps algo (content (appended p s)) ?c e \<Longrightarrow> disk_holds ps algo (content p') ?c e"
    if "seal_all p (sortFramesByLSN (uncommitted p)) = Some s" "uncommitted p \<noteq> []" for s ps algo e
  proof -
    show cp: "commit_point com n recs p s" using commit_seal[OF ok that(2)] that(1) by auto
    show "disk_holds ps algo (content p') ?c e" if "disk_holds ps algo (content (appended p s)) ?c e"
      using commitLocked_appended[OF ok \<open>seal_all p _ = _\<close> cp, of salts] run by (intro disk_holds_cong[OF that]) auto
  qed
  show ?thesis
    using crash
  proof cases
    case before
    then show ?thesis using disk_of_holds[OF k] by simp
  next
    case (append s w k)
    then show ?thesis using append_crash_holds[OF app(1) append(3,5,1)] app(2) by blast
  next
    case (checkpoint s)
    note cp = app(1)[OF checkpoint(1,2)]
    have "header_whole (appended p s) d" using hd by (simp add: header_whole_def)
    then show ?thesis
      using checkpoint_crash_holds[OF commit_append_ok(1)[OF cp] settled_spared[OF commit_append_ok(2)[OF cp]] _ checkpoint(3)]
        app(2)[OF checkpoint(1,2)] by simp
  next
    case (after q)
    then have "q = p'" using run by simp
    then obtain recs' where k': "pager_ok (content p') ?c recs' p'" "p_hdr p' = p_hdr p"
      using commitLocked_ok[OF ok, of salts] after(2) by (auto simp: same_pages_def)
    then have "p_pageSize p' = p_pageSize p" "p_checksum p' = p_checksum p" using ok by (simp_all add: pager_ok_def hdr_ok_def)
    then show ?thesis using disk_of_holds[of 0 ?c "content p'" ?c recs' p'] \<open>q = p'\<close> after(1) k' by (simp add: pager_ok_def)
  qed
qed

section \<open>Creating a database\<close>

lemma createNew_ok:
  assumes o: "\<not> o_ReadOnly opts" "ValidPageSize (o_PageSize opts)" "Supported (o_Checksum opts)" "length uuid = 16"
  shows "\<exists>p. createNew opts salts ws uuid = Inr p \<and> opened (content p) 1 (unat (o_PageSize opts)) (o_Checksum opts) p
    \<and> FreelistRoot (p_hdr p) = NullPage \<and> CatalogRoot (p_hdr p) = NullPage"
proof -
  let ?ps = "unat (o_PageSize opts)" and ?h = "bump_header (NewHeader (o_PageSize opts) (o_Checksum opts) ws uuid)"
  have v: "valid_size ?ps" using o(2) by (auto simp: ValidPageSize_def valid_size_def)
  then have big: "4096 \<le> ?ps" by (auto simp: valid_size_def)
  have op: "openable ?h" using o by (simp add: openable_bump) (simp add: openable_def NewHeader_def)
  obtain buf s where b: "header_page ?ps ?h = Some buf" "length buf = ?ps" "DecodeHeader (take HeaderSize buf) = Inr (?h\<lparr>HeaderChecksum := s\<rparr>)"
    using header_page_ok[OF op, of ?ps] big by auto
  have img: "memWriteAt [] buf 0 = buf" by (simp add: memWriteAt_def Let_def write_at_def)
  have pg: "has_page ?ps buf 0" "page_at ?ps buf 0 = buf" using b(2) by (simp_all add: has_page_def page_at_def sub_def)
  have f: "unat (PageSize ?h) = ?ps" "ChecksumAlgo ?h = o_Checksum opts" "unat (PageCount ?h) = 1" "FreelistRoot ?h = NullPage" "CatalogRoot ?h = NullPage"
    by (simp_all add: bump_header_def NewHeader_def)
  have z: "unat pid < 1 \<longleftrightarrow> pid = 0" for pid :: u64 by (simp add: unat_eq_0)
  have c: "com_ok ?ps (o_Checksum opts) (\<lambda>_. buf) 1"
    unfolding com_ok_def header_in_def z using b(2,3) f by (auto intro!: exI[of _ "?h\<lparr>HeaderChecksum := s\<rparr>"])
  let ?p = "openFreshWAL salts (fresh_pager opts ?ps (o_Checksum opts) buf ?h 1)"
  have "createNew opts salts ws uuid = Inr ?p" using b(1) o(1) by (simp add: createNew_def Let_def img fresh_pager_def pg)
  moreover have p: "pager_ok (\<lambda>_. buf) 1 [] ?p" "settled ?p" "\<And>pid. unat pid < 1 \<Longrightarrow> content ?p pid = buf"
    using fresh_pager_ok[OF _ _ c v o(3) b(3) f(1-3), where salts = salts and opts = opts and gen = 1] b(2) pg unfolding z by auto
  moreover have "pager_ok (content ?p) 1 [] ?p" using p(1) com_cong[of 0 _ "\<lambda>_. buf" 1 "[]" ?p "content ?p"] p(3) by (simp add: pager_ok_def)
  ultimately show ?thesis using f by (auto simp: opened_def) (simp_all add: openFreshWAL_def Let_def fresh_pager_def)
qed

end
