(* ===== verification/Pager_Run.thy ===== *)
theory Pager_Run
  imports Pager_Recovery
begin

text \<open>
  Runs of a database file: creation, page operations, commits, checkpoints, crashes and reopening, in
  any order. The state carries beside the pager the database of the last commit (its pages and their
  number); the theorems say what the pager, its files and a reopened database have to do with it.
\<close>

section \<open>The invariant of a run\<close>

definition open_ok :: "Pager \<Rightarrow> (u64 \<Rightarrow> bytes) \<Rightarrow> nat \<Rightarrow> bool" where
  "open_ok p com n \<longleftrightarrow> (\<exists>recs xs. pager_ok com n recs p \<and> free_list p xs)"

lemma open_okE:
  assumes "open_ok p com n"
  obtains recs xs where "pager_ok com n recs p" "free_list p xs"
  using assms by (auto simp: open_ok_def)

lemma pager_ok_unmoved:
  "pages_ok 0 (unat (PageCount (p_hdr p))) com n recs p' \<Longrightarrow> unmoved (unat (PageCount (p_hdr p))) p p' \<Longrightarrow> hdr_ok p
    \<Longrightarrow> pager_ok com n recs p'"
proof -
  assume a: "pages_ok 0 (unat (PageCount (p_hdr p))) com n recs p'" "unmoved (unat (PageCount (p_hdr p))) p p'" "hdr_ok p"
  have "0 < unat (PageCount (p_hdr p))" using pages_okD(3,15)[OF a(1)] by (simp add: com_ok_def)
  then show ?thesis using a unmoved_hdr_ok[OF a(2)] unmovedD(1)[OF a(2)] by (simp add: pager_ok_def)
qed

lemma run_Fetch:
  assumes "open_ok p com n" and w: "unat pid < 2 ^ 32"
  shows "open_ok (fst (Fetch pid p)) com n"
  using assms(1)
proof (rule open_okE)
  fix recs xs assume ok: "pager_ok com n recs p" and fl: "free_list p xs"
  have k: "pages_ok 0 (unat (PageCount (p_hdr p))) com n recs p" and h: "hdr_ok p" using ok by (simp_all add: pager_ok_def)
  have "pager_ok com n recs (fst (Fetch pid p)) \<and> unmoved (unat (PageCount (p_hdr p))) p (fst (Fetch pid p))"
  proof (cases "unat pid < unat (PageCount (p_hdr p))")
    case True
    show ?thesis by (rule fetchLocked_cases[OF k True]) (auto simp: Fetch_def intro: pager_ok_unmoved[OF _ _ h])
  next
    case False
    then show ?thesis using fetchLocked_out_of_range[OF ok _ w] by (auto simp: Fetch_def)
  qed
  then show ?thesis using unmoved_free_list fl by (auto simp: open_ok_def)
qed

lemma run_Unpin:
  assumes "open_ok p com n"
  shows "open_ok (Unpin pid p) com n"
  using assms
proof (rule open_okE)
  fix recs xs assume ok: "pager_ok com n recs p" and fl: "free_list p xs"
  then show ?thesis
    using pages_ok_Unpin pager_ok_unmoved unmoved_Unpin unmoved_free_list unfolding open_ok_def pager_ok_def by blast
qed

lemma run_MarkDirty:
  assumes "open_ok p com n" and g: "pid \<noteq> 0" "frame_at p pid = Some f" "length buf = p_pageSize p" "lsn_room 1 p"
    "free_list p xs" "ucast pid \<notin> set xs"
  shows "open_ok (MarkDirty pid buf p) com n"
  using assms(1)
proof (rule open_okE)
  fix recs ys assume ok: "pager_ok com n recs p"
  have k: "pages_ok 0 (unat (PageCount (p_hdr p))) com n recs p" and h: "hdr_ok p" using ok by (simp_all add: pager_ok_def)
  have room: "lsn_room (Suc 0) p" using g(4) by simp
  note m = markDirtyLocked_ok[OF k g(2,3) room]
  let ?q = "markDirtyLocked pid buf p"
  have f: "p_hdr ?q = p_hdr p" "p_pageSize ?q = p_pageSize p" "p_checksum ?q = p_checksum p"
    using kept_markDirty[of p pid buf] by (simp_all add: kept_def)
  have "hdr_ok ?q" unfolding hdr_ok_def f using h m(2) g(1) by (simp add: hdr_ok_def)
  moreover have "unat pid < unat (PageCount (p_hdr p))" using pages_okD(5)[OF k g(2)] by (simp add: frame_ok_def)
  then have "ucast (ucast pid :: u32) = pid" by (rule page_ucast)
  then have "free_list ?q xs" using g(5,6) m(2) f(1) unfolding free_list_def by (auto elim!: free_chain_cong)
  ultimately show ?thesis using m(1) f(1) unfolding open_ok_def pager_ok_def MarkDirty_def by auto
qed

lemma run_Allocate:
  assumes "open_ok p com n" "lsn_room 2 p" "Suc (unat (PageCount (p_hdr p))) < 2 ^ 32"
  shows "open_ok (fst (Allocate p)) com n"
  using assms(1)
proof (rule open_okE)
  fix recs xs assume ok: "pager_ok com n recs p" "free_list p xs"
  have room: "lsn_room (Suc (Suc 0)) p" using assms(2) by (simp add: numeral_2_eq_2)
  show ?thesis by (rule Allocate_cases[OF ok room assms(3)]) (auto simp: open_ok_def)
qed

lemma run_Free:
  assumes "open_ok p com n" "lsn_room 2 p" "free_list p xs" "pid \<noteq> 0" "unat pid < unat (PageCount (p_hdr p))" "ucast pid \<notin> set xs"
  shows "open_ok (fst (Free pid p)) com n"
  using assms(1)
proof (rule open_okE)
  fix recs ys assume ok: "pager_ok com n recs p"
  have room: "lsn_room (Suc (Suc 0)) p" using assms(2) by (simp add: numeral_2_eq_2)
  show ?thesis
    by (rule Free_cases[OF ok assms(3) room assms(4-6)]) (use assms(3) unmoved_free_list in \<open>auto simp: open_ok_def\<close>)
qed

lemma run_SetCatalogRoot:
  assumes "open_ok p com n" "lsn_room 1 p"
  shows "open_ok (fst (SetCatalogRoot root p)) com n"
  using assms(1)
proof (rule open_okE)
  fix recs xs assume ok: "pager_ok com n recs p" and fl: "free_list p xs"
  let ?p = "p\<lparr>p_hdr := (p_hdr p)\<lparr>CatalogRoot := root\<rparr>\<rparr>"
  have k: "pages_ok 0 (unat (PageCount (p_hdr p))) com n recs ?p" using ok by (simp add: pager_ok_def)
  have h: "hdr_fits ?p" using ok by (auto simp: pager_ok_def hdr_ok_def hdr_fits_def openable_def)
  have room: "lsn_room (Suc 0) ?p" using assms(2) by (simp add: lsn_room_def)
  obtain p' where p': "touchHeaderLocked ?p = (p', Inr ())" "pages_ok 0 (unat (PageCount (p_hdr p))) com n recs p'" "hdr_ok p'"
      "p_hdr p' = bump_header (p_hdr ?p)" "\<forall>pid. pid \<noteq> 0 \<longrightarrow> content p' pid = content ?p pid"
    by (rule touchHeaderLocked_ok[OF k h room])
  have e: "PageCount (p_hdr p') = PageCount (p_hdr p)" "FreelistRoot (p_hdr p') = FreelistRoot (p_hdr p)" by (simp_all add: p'(4) bump_header_def)
  have "content ?p = content p" by (auto simp: content_def fun_eq_iff split: option.splits)
  then have "free_list p' xs" using fl p'(5) e free_listD(3)[OF fl] unfolding free_list_def by (auto elim!: free_chain_cong)
  then show ?thesis using p'(1-3) e by (auto simp: open_ok_def pager_ok_def SetCatalogRoot_def)
qed

lemma resealed_next: "4096 \<le> length b \<Longrightarrow> resealed algo pid b b' \<Longrightarrow> get32 b' freelistNextOffset = get32 b freelistNextOffset"
proof -
  assume a: "4096 \<le> length b" "resealed algo pid b b'"
  have "take 4000 (take (length b - ChecksumSize) b') = take 4000 (take (length b - ChecksumSize) b)"
    using a(2) by (simp add: resealed_def)
  then have t: "take 4000 b' = take 4000 b" using a(1) by (simp add: min_def split: if_splits)
  have g: "sub x freelistNextOffset 4 = sub (take 4000 x) freelistNextOffset 4" for x :: bytes by (simp add: sub_def drop_take min_def)
  show ?thesis by (subst (1 2) g) (simp add: t)
qed

lemma Commit_run:
  assumes ok: "pager_ok com n recs p" and fl: "free_list p xs"
  obtains p' recs' where "Commit salts p = (p', Inr ())" "pager_ok (content p') (unat (PageCount (p_hdr p))) recs' p'"
    "settled p'" "same_pages p p'" "free_list p' xs"
proof -
  obtain p' recs' where p': "commitLocked salts p = (p', Inr ())" "pager_ok (content p') (unat (PageCount (p_hdr p))) recs' p'"
      "settled p'" "same_pages p p'"
    using commitLocked_ok[OF ok] by blast
  have k: "pages_ok 0 (unat (PageCount (p_hdr p))) com n recs p" using ok by (simp add: pager_ok_def)
  have "get32 (content p' (ucast x)) freelistNextOffset = get32 (content p (ucast x)) freelistNextOffset" if "x \<in> set xs" for x
  proof -
    have x: "unat (ucast x :: u64) < unat (PageCount (p_hdr p))" using free_chainD[OF fl[unfolded free_list_def] that] by simp
    have "length (content p (ucast x)) = p_pageSize p"
      using pages_okD(5)[OF k, of "ucast x"] pages_okD(7)[OF k x] by (auto simp: content_def frame_ok_def split: option.splits)
    moreover have "content p' (ucast x) = content p (ucast x) \<or> resealed (p_checksum p) (ucast x) (content p (ucast x)) (content p' (ucast x))"
      using p'(4) x unfolding same_pages_def by blast
    ultimately show ?thesis using resealed_next[of "content p (ucast x)"] pages_ok_size[OF k] by auto
  qed
  then have "free_list p' xs" using fl p'(4) unfolding free_list_def same_pages_def by (auto elim!: free_chain_cong)
  then show ?thesis using that p' by (simp add: Commit_def)
qed

lemma run_Commit:
  assumes "open_ok p com n"
  shows "\<exists>p'. Commit salts p = (p', Inr ()) \<and> open_ok p' (content p') (unat (PageCount (p_hdr p'))) \<and> same_pages p p' \<and> settled p'"
  using assms
proof (rule open_okE)
  fix recs xs assume ok: "pager_ok com n recs p" and fl: "free_list p xs"
  show ?thesis by (rule Commit_run[OF ok fl, of salts]) (auto simp: open_ok_def same_pages_def)
qed

text \<open>The free pages of a committed database.\<close>

definition db_free :: "(u64 \<Rightarrow> bytes) \<Rightarrow> nat \<Rightarrow> bool" where
  "db_free com n \<longleftrightarrow>
     (\<exists>h ys. DecodeHeader (take HeaderSize (com 0)) = Inr h \<and> free_chain com n (FreelistRoot h) ys)"

definition run_ok :: "Pager \<Rightarrow> (u64 \<Rightarrow> bytes) \<Rightarrow> nat \<Rightarrow> bool" where
  "run_ok p com n \<longleftrightarrow> open_ok p com n \<and> db_free com n"

lemma live_db_free:
  assumes "open_ok p com n"
  shows "db_free (content p) (unat (PageCount (p_hdr p)))"
  using assms
proof (rule open_okE)
  fix recs xs assume "pager_ok com n recs p" and fl: "free_list p xs"
  then obtain s where "DecodeHeader (take HeaderSize (content p 0)) = Inr (p_hdr p\<lparr>HeaderChecksum := s\<rparr>)"
    by (auto simp: pager_ok_def hdr_ok_def)
  then show ?thesis using fl by (auto simp: db_free_def free_list_def)
qed

lemma opened_live:
  assumes o: "opened com n ps algo p" and fr: "db_free com n"
  shows "run_ok p com n" "run_ok p (content p) (unat (PageCount (p_hdr p)))"
proof -
  have k: "pager_ok com n [] p" "unat (PageCount (p_hdr p)) = n" and c: "\<And>pid. unat pid < n \<Longrightarrow> content p pid = com pid"
    using o by (simp_all add: opened_def)
  have z: "content p 0 = com 0" using c k(1) by (simp add: pager_ok_def pages_ok_def com_ok_def)
  obtain h ys where h: "DecodeHeader (take HeaderSize (com 0)) = Inr h" "free_chain com n (FreelistRoot h) ys"
    using fr by (auto simp: db_free_def)
  obtain s where "DecodeHeader (take HeaderSize (content p 0)) = Inr (p_hdr p\<lparr>HeaderChecksum := s\<rparr>)"
    using k(1) by (auto simp: pager_ok_def hdr_ok_def)
  then have "FreelistRoot (p_hdr p) = FreelistRoot h" using h(1) z by auto
  then have fl: "free_list p ys"
    using free_chain_cong[OF h(2) order_refl, of "content p"] free_chainD[OF h(2)] c k(2) by (simp add: free_list_def)
  have "pager_ok (content p) n [] p" using com_cong[of 0 n com n "[]" p "content p"] c k by (simp add: pager_ok_def)
  then have "open_ok p com n" "open_ok p (content p) n" using k fl by (auto simp: open_ok_def)
  then show "run_ok p com n" "run_ok p (content p) (unat (PageCount (p_hdr p)))"
    using fr k(2) live_db_free by (auto simp: run_ok_def)
qed

section \<open>Runs\<close>

text \<open>The files found after the process stopped: before, within or after a commit and the checkpoint it
  may start, or while the pool wrote a page back to make room; and within a checkpoint the caller asked
  for, or after a close.\<close>

inductive interrupted :: "Pager \<Rightarrow> disk \<Rightarrow> bool" for p where
  commit: "commit_crash salts p d \<Longrightarrow> interrupted p d"
| evict: "\<lbrakk>frame_at p pid = Some f; fr_dirty f; fr_pageLSN f \<le> p_walFlushedLSN p\<rbrakk>
    \<Longrightarrow> interrupted p \<lparr>d_main = Some (memWriteAt (p_main p) (take t (fr_Buf f)) (nat (page_off p pid))), d_wal = map_option wfile (p_walw p)\<rparr>"

inductive checkpointing :: "Pager \<Rightarrow> disk \<Rightarrow> bool" for p where
  checkpoint: "checkpoint_crash salts p d \<Longrightarrow> checkpointing p d"
| close: "checkpointing p (disk_of (fst (Close salts p)))"

text \<open>The stops that lose nothing. A checkpoint or a close must not run while a page with uncommitted changes
  has its committed bytes in the log alone: the code skips the page and empties the log.\<close>

definition survivable :: "(u64 \<Rightarrow> bytes) \<Rightarrow> nat \<Rightarrow> Pager \<Rightarrow> disk \<Rightarrow> bool" where
  "survivable com n p d \<longleftrightarrow> header_whole p d \<and> (interrupted p d \<or> checkpointing p d \<and> spared com n p)"

definition good_options :: "Options \<Rightarrow> bool" where
  "good_options opts \<longleftrightarrow> \<not> o_ReadOnly opts \<and> ValidPageSize (o_PageSize (withDefaults opts)) \<and> Supported (o_Checksum (withDefaults opts))"

inductive db_run :: "Pager \<Rightarrow> (u64 \<Rightarrow> bytes) \<Rightarrow> nat \<Rightarrow> bool" where
  create: "\<lbrakk>good_options opts; length uuid = 16; Open \<lparr>d_main = None, d_wal = w\<rparr> opts salts ws uuid = Inr p\<rbrakk>
    \<Longrightarrow> db_run p (content p) 1"
| fetch: "\<lbrakk>db_run p com n; unat pid < 2 ^ 32\<rbrakk> \<Longrightarrow> db_run (fst (Fetch pid p)) com n"
| unpin: "db_run p com n \<Longrightarrow> db_run (Unpin pid p) com n"
| store: "\<lbrakk>db_run p com n; pid \<noteq> 0; frame_at p pid = Some f; length buf = p_pageSize p; lsn_room 1 p; free_list p xs;
      ucast pid \<notin> set xs\<rbrakk> \<Longrightarrow> db_run (MarkDirty pid buf p) com n"
| allocate: "\<lbrakk>db_run p com n; lsn_room 2 p; Suc (unat (PageCount (p_hdr p))) < 2 ^ 32\<rbrakk> \<Longrightarrow> db_run (fst (Allocate p)) com n"
| free: "\<lbrakk>db_run p com n; lsn_room 2 p; free_list p xs; pid \<noteq> 0; unat pid < unat (PageCount (p_hdr p)); ucast pid \<notin> set xs\<rbrakk>
    \<Longrightarrow> db_run (fst (Free pid p)) com n"
| root: "\<lbrakk>db_run p com n; lsn_room 1 p\<rbrakk> \<Longrightarrow> db_run (fst (SetCatalogRoot r p)) com n"
| commit: "\<lbrakk>db_run p com n; Commit salts p = (p', res)\<rbrakk> \<Longrightarrow> db_run p' (content p') (unat (PageCount (p_hdr p')))"
| checkpoint: "\<lbrakk>db_run p com n; spared com n p; Checkpoint salts p = (p', res)\<rbrakk> \<Longrightarrow> db_run p' com n"
| threshold: "db_run p com n \<Longrightarrow> db_run (SetCheckpointThreshold k p) com n"
| reopen: "\<lbrakk>db_run p com n; survivable com n p d; \<not> o_ReadOnly opts; Open d opts salts ws uuid = Inr q\<rbrakk>
    \<Longrightarrow> db_run q (content q) (unat (PageCount (p_hdr q)))"

lemma interrupted_holds:
  assumes ok: "pager_ok com n recs p" and hd: "header_whole p d" and d: "interrupted p d"
  shows "disk_holds (p_pageSize p) (p_checksum p) com n d
    \<or> (\<exists>salts p'. Commit salts p = (p', Inr ()) \<and> disk_holds (p_pageSize p) (p_checksum p) (content p') (unat (PageCount (p_hdr p'))) d)"
  using d
proof cases
  case (commit salts)
  obtain p' where p': "commitLocked salts p = (p', Inr ())" "p_hdr p' = p_hdr p"
    using commitLocked_ok[OF ok, of salts] by (auto simp: same_pages_def)
  note commit_crash_holds[OF ok hd commit p'(1), folded p'(2)]
  then show ?thesis using p'(1) unfolding Commit_def by blast
next
  case (evict pid f t)
  have k: "pages_ok 0 (unat (PageCount (p_hdr p))) com n recs p" using ok by (simp add: pager_ok_def)
  have fo: "unat pid < n" "fr_Buf f = com pid" "last_image recs pid \<noteq> None"
    using pages_okD(5)[OF k evict(2)] evict(3,4) by (auto simp: frame_ok_def)
  then show ?thesis using torn_write[OF k fo(1,3), of t] hd by (simp add: evict(1) header_whole_def)
qed

lemma checkpointing_holds:
  assumes ok: "pager_ok com n recs p" and st: "spared com n p" and hd: "header_whole p d" and d: "checkpointing p d"
  shows "disk_holds (p_pageSize p) (p_checksum p) com n d"
  using d
proof cases
  case (checkpoint salts)
  then show ?thesis using checkpoint_crash_holds[OF ok st hd] by blast
next
  case (close salts)
  obtain p' where p': "checkpointLocked salts p = (p', Inr ())" "pager_ok com n [] p'" "p_pageSize p' = p_pageSize p" "p_checksum p' = p_checksum p"
    using checkpointLocked_spared[OF ok st, of salts] by auto
  have "\<not> p_closed p" "\<not> p_readOnly p" using ok pages_okD(18,19) by (auto simp: pager_ok_def)
  then have "d = disk_of p'" using p'(1) by (simp add: close(1) Close_def disk_of_def)
  then show ?thesis using disk_of_holds[of 0 _ com n "[]" p'] p' by (auto simp: pager_ok_def)
qed

lemma survivable_holds:
  assumes "pager_ok com n recs p" "survivable com n p d"
  shows "disk_holds (p_pageSize p) (p_checksum p) com n d
    \<or> (\<exists>salts p'. Commit salts p = (p', Inr ()) \<and> disk_holds (p_pageSize p) (p_checksum p) (content p') (unat (PageCount (p_hdr p'))) d)"
  using assms interrupted_holds checkpointing_holds unfolding survivable_def by blast

text \<open>Opening what a crash left gives the last committed database, or the one being committed.\<close>

lemma survivable_Open:
  assumes ok: "run_ok p com n" and d: "survivable com n p d" and rw: "\<not> o_ReadOnly opts"
  shows "\<exists>q com' n'. Open d opts salts ws uuid = Inr q \<and> opened com' n' (p_pageSize p) (p_checksum p) q \<and> run_ok q com' n'
    \<and> (com' = com \<and> n' = n \<or> (\<exists>salts p'. Commit salts p = (p', Inr ()) \<and> com' = content p' \<and> n' = unat (PageCount (p_hdr p'))))"
proof -
  have live: "open_ok p com n" and fr: "db_free com n" using ok by (simp_all add: run_ok_def)
  obtain recs where k: "pager_ok com n recs p" using live by (auto simp: open_ok_def)
  from survivable_holds[OF k d] show ?thesis
  proof
    assume h: "disk_holds (p_pageSize p) (p_checksum p) com n d"
    then show ?thesis using Open_ok[OF h rw, of salts ws uuid] opened_live(1)[OF _ fr] by blast
  next
    assume "\<exists>salts p'. Commit salts p = (p', Inr ()) \<and> disk_holds (p_pageSize p) (p_checksum p) (content p') (unat (PageCount (p_hdr p'))) d"
    then obtain cs p' where c: "Commit cs p = (p', Inr ())"
        and h: "disk_holds (p_pageSize p) (p_checksum p) (content p') (unat (PageCount (p_hdr p'))) d" by blast
    have "open_ok p' (content p') (unat (PageCount (p_hdr p')))" using run_Commit[OF live, of cs] c by auto
    then have "db_free (content p') (unat (PageCount (p_hdr p')))" by (rule live_db_free)
    then show ?thesis using Open_ok[OF h rw, of salts ws uuid] opened_live(1) c by blast
  qed
qed

lemma create_ok:
  assumes "good_options opts" "length uuid = 16"
  shows "\<exists>p. Open \<lparr>d_main = None, d_wal = w\<rparr> opts salts ws uuid = Inr p \<and> run_ok p (content p) 1
    \<and> p_pageSize p = unat (o_PageSize (withDefaults opts)) \<and> p_nextLSN p = 0 \<and> unat (PageCount (p_hdr p)) = 1 \<and> free_list p [] \<and> CatalogRoot (p_hdr p) = NullPage"
proof -
  let ?o = "withDefaults opts"
  have g: "\<not> o_ReadOnly ?o" "ValidPageSize (o_PageSize ?o)" "Supported (o_Checksum ?o)"
    using assms(1) by (simp_all add: good_options_def) (simp add: withDefaults_def)
  obtain p where p: "createNew ?o salts ws uuid = Inr p" "opened (content p) 1 (unat (o_PageSize ?o)) (o_Checksum ?o) p"
      "FreelistRoot (p_hdr p) = NullPage" "CatalogRoot (p_hdr p) = NullPage"
    using createNew_ok[OF g assms(2)] by blast
  have k: "pager_ok (content p) 1 [] p" "unat (PageCount (p_hdr p)) = 1" using p(2) by (auto simp: opened_def)
  have fl: "free_list p []" using p(3) by (simp add: free_list_def)
  then have l: "open_ok p (content p) 1" using k(1) by (auto simp: open_ok_def)
  have "run_ok p (content p) 1" using live_db_free[OF l] l k(2) by (simp add: run_ok_def)
  then show ?thesis using p(1,2,4) g(1) fl by (auto simp: Open_def opened_def)
qed

lemma db_run_ok: "db_run p com n \<Longrightarrow> run_ok p com n"
proof (induction rule: db_run.induct)
  case (create opts uuid w salts ws p)
  then show ?case using create_ok[OF create(1,2), of w salts ws] by auto
next
  case (commit p com n salts p' res)
  then show ?case using run_Commit[of p com n salts] live_db_free by (auto simp: run_ok_def)
next
  case (checkpoint p com n salts p' res)
  obtain recs xs where k: "pager_ok com n recs p" "free_list p xs" using checkpoint(4) by (auto simp: run_ok_def open_ok_def)
  then obtain q where q: "checkpointLocked salts p = (q, Inr ())" "pager_ok com n [] q" "p_hdr q = p_hdr p"
      "\<forall>pid. unat pid < unat (PageCount (p_hdr p)) \<longrightarrow> content q pid = content p pid"
    using checkpointLocked_spared[OF k(1) checkpoint(2), of salts] by auto
  have "free_list q xs" using k(2) q(3,4) free_listD(3)[OF k(2)] unfolding free_list_def by (auto elim!: free_chain_cong)
  then show ?case using q(1,2) checkpoint(3,4) by (auto simp: run_ok_def open_ok_def Checkpoint_def)
next
  case (threshold p com n k)
  then obtain recs xs where "pager_ok com n recs p" "free_list p xs" by (auto simp: run_ok_def open_ok_def)
  moreover have "content (p\<lparr>p_ckptN := k\<rparr>) = content p" by (auto simp: content_def fun_eq_iff split: option.splits)
  ultimately have "pager_ok com n recs (p\<lparr>p_ckptN := k\<rparr>)" "free_list (p\<lparr>p_ckptN := k\<rparr>) xs"
    by (simp_all add: pager_ok_def hdr_ok_def free_list_def pages_ok_def frame_ok_def log_ok_def)
  then show ?case using threshold(2) by (auto simp: run_ok_def open_ok_def SetCheckpointThreshold_def)
next
  case (reopen p com n d opts salts ws uuid q)
  then obtain com' n' where "opened com' n' (p_pageSize p) (p_checksum p) q" "run_ok q com' n'"
    using survivable_Open[OF reopen(5,2,3), of salts ws uuid] by auto
  then show ?case using opened_live(2) by (auto simp: run_ok_def)
qed (auto simp: run_ok_def intro: run_Fetch run_Unpin run_MarkDirty run_Allocate run_Free run_SetCatalogRoot)

lemma run_header_whole: "db_run p com n \<Longrightarrow> header_whole p (disk_of p)"
  by (auto simp: header_whole_def disk_of_def run_ok_def open_ok_def pager_ok_def dest!: db_run_ok pages_okD(12))

section \<open>What a run guarantees\<close>

text \<open>C1. A crash loses nothing that was committed. Let the process stop anywhere in a page operation, an eviction, a commit
  or the checkpoint a commit starts; or in a checkpoint or close the caller asked for, provided that no
  page with uncommitted changes has its committed bytes in the log alone (\<open>spared\<close>; otherwise the code
  empties the log and the committed bytes are gone). Provided too that the stop did not tear the 128-byte
  header (\<open>header_whole\<close>), opening the files succeeds and gives a database whose pages are exactly those
  of the last commit, or of the commit that was in progress, whatever pages were read, written,
  allocated and freed since.\<close>

theorem pager_crash_recovers:
  assumes "db_run p com n" "interrupted p d \<or> checkpointing p d \<and> spared com n p" "header_whole p d" "\<not> o_ReadOnly opts"
  shows "\<exists>q. Open d opts salts ws uuid = Inr q \<and> db_run q (content q) (unat (PageCount (p_hdr q)))
    \<and> (unat (PageCount (p_hdr q)) = n \<and> (\<forall>pid. unat pid < n \<longrightarrow> content q pid = com pid)
       \<or> (\<exists>cs p'. Commit cs p = (p', Inr ()) \<and> unat (PageCount (p_hdr q)) = unat (PageCount (p_hdr p'))
            \<and> (\<forall>pid. unat pid < unat (PageCount (p_hdr p')) \<longrightarrow> content q pid = content p' pid)))"
proof -
  let ?A = "\<lambda>q n' com'. Open d opts salts ws uuid = Inr q \<and> db_run q (content q) (unat (PageCount (p_hdr q)))
    \<and> unat (PageCount (p_hdr q)) = n' \<and> (\<forall>pid. unat pid < n' \<longrightarrow> content q pid = com' pid)"
  have s: "survivable com n p d" using assms(2,3) by (simp add: survivable_def)
  obtain q com' n' where q: "Open d opts salts ws uuid = Inr q" "opened com' n' (p_pageSize p) (p_checksum p) q"
      "com' = com \<and> n' = n \<or> (\<exists>salts p'. Commit salts p = (p', Inr ()) \<and> com' = content p' \<and> n' = unat (PageCount (p_hdr p')))"
    using survivable_Open[OF db_run_ok[OF assms(1)] s assms(4)] by metis
  have "unat (PageCount (p_hdr q)) = n'" "\<forall>pid. unat pid < n' \<longrightarrow> content q pid = com' pid" using q(2) by (simp_all add: opened_def)
  moreover have "db_run q (content q) (unat (PageCount (p_hdr q)))" by (rule db_run.reopen[OF assms(1) s assms(4) q(1)])
  ultimately have com: "?A q n' com'" using q(1) by blast
  from q(3) show ?thesis
  proof
    assume "com' = com \<and> n' = n"
    then show ?thesis using com by blast
  next
    assume "\<exists>salts p'. Commit salts p = (p', Inr ()) \<and> com' = content p' \<and> n' = unat (PageCount (p_hdr p'))"
    then obtain cs p' where "Commit cs p = (p', Inr ())" "com' = content p'" "n' = unat (PageCount (p_hdr p'))" by blast
    with com have "Commit cs p = (p', Inr ()) \<and> unat (PageCount (p_hdr q)) = unat (PageCount (p_hdr p'))
      \<and> (\<forall>pid. unat pid < unat (PageCount (p_hdr p')) \<longrightarrow> content q pid = content p' pid)" by simp
    then show ?thesis using com by (intro exI[of _ q]) blast
  qed
qed

abbreviation ex_options :: Options where
  "ex_options \<equiv> \<lparr>o_PageSize = 4096, o_PoolPages = 4, o_Checksum = ChecksumCRC32C, o_ReadOnly = False, o_CheckpointFrames = 10\<rparr>"

abbreviation ex_uuid :: bytes where "ex_uuid \<equiv> replicate 16 7"

lemma ex_good: "good_options ex_options" "length ex_uuid = 16" "\<not> o_ReadOnly ex_options"
  by (simp_all add: good_options_def withDefaults_def ValidPageSize_def Supported_def)

lemma ex_create:
  obtains p where "Open \<lparr>d_main = None, d_wal = None\<rparr> ex_options (1, 2) 3 ex_uuid = Inr p" "db_run p (content p) 1"
    "p_nextLSN p = 0" "unat (PageCount (p_hdr p)) = 1" "free_list p []" "CatalogRoot (p_hdr p) = NullPage"
  using create_ok[OF ex_good(1,2), of None "(1, 2)" 3] db_run.create[OF ex_good(1,2), of None "(1, 2)" 3] by (auto simp: withDefaults_def)

theorem pager_crash_recovers_witness:
  "\<exists>p q. Open \<lparr>d_main = None, d_wal = None\<rparr> ex_options (1, 2) 3 ex_uuid = Inr p
    \<and> Open (disk_of p) ex_options (4, 5) 6 ex_uuid = Inr q
    \<and> (unat (PageCount (p_hdr q)) = 1 \<and> content q 0 = content p 0 \<or> (\<exists>cs p'. Commit cs p = (p', Inr ()) \<and> unat (PageCount (p_hdr q)) = unat (PageCount (p_hdr p'))))"
proof (rule ex_create)
  fix p assume p: "Open \<lparr>d_main = None, d_wal = None\<rparr> ex_options (1, 2) 3 ex_uuid = Inr p" "db_run p (content p) 1"
    "p_nextLSN p = 0" "unat (PageCount (p_hdr p)) = 1" "free_list p []"
  have "interrupted p (disk_of p)" by (rule interrupted.commit[OF commit_crash.before])
  moreover have "header_whole p (disk_of p)" by (rule run_header_whole[OF p(2)])
  ultimately have "interrupted p (disk_of p) \<or> checkpointing p (disk_of p) \<and> spared (content p) 1 p" "header_whole p (disk_of p)" by simp_all
  from pager_crash_recovers[OF p(2) this ex_good(3), of "(4, 5)" 6 ex_uuid]
  obtain q where q: "Open (disk_of p) ex_options (4, 5) 6 ex_uuid = Inr q"
      "unat (PageCount (p_hdr q)) = 1 \<and> (\<forall>pid. unat pid < 1 \<longrightarrow> content q pid = content p pid)
       \<or> (\<exists>cs p'. Commit cs p = (p', Inr ()) \<and> unat (PageCount (p_hdr q)) = unat (PageCount (p_hdr p')))" by blast
  then show ?thesis using p(1) by (intro exI[of _ p] exI[of _ q]) auto
qed

text \<open>C21. Commit always succeeds, changes no page (a written page only gets its checksum), and is durable:
  opening the files as they then are gives the committed pages.\<close>

theorem pager_commit_durable:
  assumes "db_run p com n" "\<not> o_ReadOnly opts"
  shows "\<exists>p' q. Commit salts p = (p', Inr ()) \<and> same_pages p p' \<and> Open (disk_of p') opts salts' ws uuid = Inr q
    \<and> PageCount (p_hdr q) = PageCount (p_hdr p)
    \<and> (\<forall>pid. unat pid < unat (PageCount (p_hdr p)) \<longrightarrow> content q pid = content p' pid)"
proof -
  have "open_ok p com n" using db_run_ok[OF assms(1)] by (simp add: run_ok_def)
  then obtain p' where p': "Commit salts p = (p', Inr ())" "open_ok p' (content p') (unat (PageCount (p_hdr p')))" "same_pages p p'"
    using run_Commit by blast
  then obtain recs where "pager_ok (content p') (unat (PageCount (p_hdr p'))) recs p'" by (auto simp: open_ok_def)
  then have h: "disk_holds (p_pageSize p') (p_checksum p') (content p') (unat (PageCount (p_hdr p'))) (disk_of p')"
    using disk_of_holds by (auto simp: pager_ok_def)
  have "p_hdr p' = p_hdr p" using p'(3) by (simp add: same_pages_def)
  then show ?thesis using p'(1,3) Open_ok[OF h assms(2), of salts' ws uuid] by (auto simp: opened_def word_unat_eq_iff)
qed

theorem pager_commit_durable_witness:
  "\<exists>p p' q. Open \<lparr>d_main = None, d_wal = None\<rparr> ex_options (1, 2) 3 ex_uuid = Inr p \<and> Commit (1, 2) p = (p', Inr ())
    \<and> Open (disk_of p') ex_options (4, 5) 6 ex_uuid = Inr q \<and> PageCount (p_hdr q) = PageCount (p_hdr p)"
proof (rule ex_create)
  fix p assume p: "Open \<lparr>d_main = None, d_wal = None\<rparr> ex_options (1, 2) 3 ex_uuid = Inr p" "db_run p (content p) 1"
    "p_nextLSN p = 0" "unat (PageCount (p_hdr p)) = 1" "free_list p []"
  from pager_commit_durable[OF p(2) ex_good(3), of "(1, 2)" "(4, 5)" 6 ex_uuid] p(1) show ?thesis by blast
qed

text \<open>C22. Eviction and reloading are invisible. For a 32-bit page number (every page number in the file is one; the offset of a
  larger identifier wraps): fetching a page in use returns its current bytes, the ones last written,
  whether they are in the pool or only on disk, and changes no page; it fails only with an exhausted
  pool. A page beyond the database is refused.\<close>

theorem pager_fetch_current:
  assumes "db_run p com n" "Fetch pid p = (p', r)" "unat pid < 2 ^ 32"
  shows "(if unat pid < unat (PageCount (p_hdr p)) then r \<in> {Inr (content p pid), Inl ErrPoolExhausted}
      else r \<in> {Inl ErrEOF, Inl ErrPoolExhausted})
    \<and> p_hdr p' = p_hdr p \<and> (\<forall>q. unat q < unat (PageCount (p_hdr p)) \<longrightarrow> content p' q = content p q)"
proof -
  obtain recs where ok: "pager_ok com n recs p" using db_run_ok[OF assms(1)] by (auto simp: run_ok_def open_ok_def)
  then have k: "pages_ok 0 (unat (PageCount (p_hdr p))) com n recs p" by (simp add: pager_ok_def)
  have "(if unat pid < unat (PageCount (p_hdr p)) then r \<in> {Inr (content p pid), Inl ErrPoolExhausted}
      else r \<in> {Inl ErrEOF, Inl ErrPoolExhausted}) \<and> unmoved (unat (PageCount (p_hdr p))) p p'"
  proof (cases "unat pid < unat (PageCount (p_hdr p))")
    case True
    show ?thesis by (rule fetchLocked_cases[OF k True]) (use True assms(2) in \<open>auto simp: Fetch_def\<close>)
  next
    case False
    then show ?thesis using fetchLocked_out_of_range[OF ok _ assms(3)] assms(2) by (auto simp: Fetch_def)
  qed
  then show ?thesis using unmovedD(1,10) by blast
qed

theorem pager_fetch_current_witness:
  "\<exists>p p1 p' r. Open \<lparr>d_main = None, d_wal = None\<rparr> ex_options (1, 2) 3 ex_uuid = Inr p
    \<and> Fetch 0 p = (p1, Inr (content p 0)) \<and> content p1 0 = content p 0
    \<and> Fetch 5 p = (p', r) \<and> r \<in> {Inl ErrEOF, Inl ErrPoolExhausted} \<and> p_hdr p' = p_hdr p"
proof (rule ex_create)
  fix p assume p: "Open \<lparr>d_main = None, d_wal = None\<rparr> ex_options (1, 2) 3 ex_uuid = Inr p" "db_run p (content p) 1"
    "p_nextLSN p = 0" "unat (PageCount (p_hdr p)) = 1" "free_list p []"
  obtain p' r where f: "Fetch 5 p = (p', r)" by (cases "Fetch 5 p")
  obtain p1 r1 where g: "Fetch 0 p = (p1, r1)" by (cases "Fetch 0 p")
  obtain recs where "pages_ok 0 (unat (PageCount (p_hdr p))) (content p) 1 recs p"
    using db_run_ok[OF p(2)] by (auto simp: run_ok_def open_ok_def pager_ok_def)
  then have "frame_at p 0 \<noteq> None" "\<not> p_closed p" using pages_okD(4,18) by blast+
  then have "r1 \<noteq> Inl ErrPoolExhausted" using g by (auto simp: Fetch_def fetchLocked_def Let_def)
  then have "r1 = Inr (content p 0) \<and> content p1 0 = content p 0" using pager_fetch_current[OF p(2) g] p(4) by auto
  moreover have "\<not> unat (5 :: u64) < unat (PageCount (p_hdr p))" using p(4) by simp
  then have "r \<in> {Inl ErrEOF, Inl ErrPoolExhausted} \<and> p_hdr p' = p_hdr p" using pager_fetch_current[OF p(2) f] by auto
  ultimately show ?thesis using p(1) f g by blast
qed

lemma ucast_page_back [simp]: "ucast (ucast (x :: u32) :: u64) = x"
  by (auto simp: bit_eq_iff bit_simps)

text \<open>C23. The allocator never hands out a page that is in use. The page it returns is not the header
  page; it was on the freelist, which it leaves, or lies just past the database, which grows by one; it
  is zeroed but for the eight bytes of its LSN; and the header page, which is written anew, is the only
  other page that changes. When the pool is exhausted the freelist, the number of pages and all pages but
  the header page are as before, and of the header only the change counter and the version it is valid
  for may have moved. (The LSN and page counters must not be about to wrap.)\<close>

theorem Allocate_fresh:
  assumes "db_run p com n" "free_list p xs" "lsn_room 2 p" "Suc (unat (PageCount (p_hdr p))) < 2 ^ 32"
  shows "(\<exists>p' c v. Allocate p = (p', Inl ErrPoolExhausted) \<and> free_list p' xs \<and> hdr_ok p'
      \<and> p_hdr p' = p_hdr p\<lparr>FileChangeCounter := c, VersionValidFor := v\<rparr>
      \<and> (\<forall>q. q \<noteq> 0 \<longrightarrow> unat q < unat (PageCount (p_hdr p)) \<longrightarrow> content p' q = content p q))
    \<or> (\<exists>p' pid b xs'. Allocate p = (p', Inr (pid, b)) \<and> pid \<noteq> 0 \<and> free_list p' xs' \<and> ucast pid \<notin> set xs' \<and> hdr_ok p'
      \<and> content p' pid = b \<and> take 8 b = replicate 8 0 \<and> drop 16 b = replicate (p_pageSize p - 16) 0
      \<and> (if xs = [] then xs' = [] \<and> unat pid = unat (PageCount (p_hdr p)) \<and> unat (PageCount (p_hdr p')) = Suc (unat pid)
         else xs = ucast pid # xs' \<and> PageCount (p_hdr p') = PageCount (p_hdr p))
      \<and> (\<forall>q. q \<noteq> 0 \<longrightarrow> q \<noteq> pid \<longrightarrow> unat q < unat (PageCount (p_hdr p)) \<longrightarrow> content p' q = content p q))"
proof -
  obtain recs where ok: "pager_ok com n recs p" using db_run_ok[OF assms(1)] by (auto simp: run_ok_def open_ok_def)
  then have big: "4096 \<le> p_pageSize p" using pages_ok_size by (auto simp: pager_ok_def)
  have room: "lsn_room (Suc (Suc 0)) p" using assms(3) by (simp add: numeral_2_eq_2)
  show ?thesis
  proof (rule Allocate_cases[OF ok assms(2) room assms(4)], goal_cases)
    case (1 p')
    then show ?case by (auto simp: pager_ok_def)
  next
    case (2 p' pid f xs')
    have h: "hdr_ok p'" using 2(2) by (simp add: pager_ok_def)
    have y: "take 8 (fr_Buf f) = replicate 8 0" using 2(6) big by (auto simp: stamp_lsn_def write_at_def)
    have e: "content p' pid = fr_Buf f" using 2(5) by (simp add: content_def)
    have z: "drop 16 (fr_Buf f) = replicate (p_pageSize p - 16) 0" using 2(6) big by (auto simp: stamp_lsn_def write_at_def)
    have d: "distinct xs" using assms(2) by (auto simp: free_list_def intro: free_chain_distinct)
    show ?case
    proof (rule disjI2, intro exI conjI)
      show "Allocate p = (p', Inr (pid, fr_Buf f))" "pid \<noteq> 0" "free_list p' xs'" "content p' pid = fr_Buf f" "hdr_ok p'" "take 8 (fr_Buf f) = replicate 8 0"
        "drop 16 (fr_Buf f) = replicate (p_pageSize p - 16) 0" by fact+
      show "ucast pid \<notin> set xs'" using 2(10) d by auto
      show "if xs = [] then xs' = [] \<and> unat pid = unat (PageCount (p_hdr p)) \<and> unat (PageCount (p_hdr p')) = Suc (unat pid)
         else xs = ucast pid # xs' \<and> PageCount (p_hdr p') = PageCount (p_hdr p)" using 2(10) by auto
      show "\<forall>q. q \<noteq> 0 \<longrightarrow> q \<noteq> pid \<longrightarrow> unat q < unat (PageCount (p_hdr p)) \<longrightarrow> content p' q = content p q" by fact
    qed
  qed
qed

theorem Allocate_fresh_witness:
  "\<exists>p p' r. Open \<lparr>d_main = None, d_wal = None\<rparr> ex_options (1, 2) 3 ex_uuid = Inr p \<and> Allocate p = (p', r)
    \<and> (r = Inl ErrPoolExhausted \<or> (\<exists>b. r = Inr (1, b)))"
proof (rule ex_create)
  fix p assume p: "Open \<lparr>d_main = None, d_wal = None\<rparr> ex_options (1, 2) 3 ex_uuid = Inr p" "db_run p (content p) 1"
    "p_nextLSN p = 0" "unat (PageCount (p_hdr p)) = 1" "free_list p []"
  have "pid = 1" if "unat (pid :: u64) = 1" for pid using that by (simp add: word_unat_eq_iff)
  then show ?thesis using Allocate_fresh[OF p(2,5)] p(1,3,4) by (fastforce simp: lsn_room_def)
qed

section \<open>Where the code falls short\<close>

text \<open>Page identifiers are 64 bits wide, but the offset wraps: with pages of 4096 bytes, identifiers that differ by
  \<open>2 ^ 52\<close> name the same bytes.\<close>

lemma page_off_wraps:
  assumes "p_pageSize p = 4096"
  shows "page_off p (pid + 2 ^ 52) = page_off p pid"
proof -
  have "(2 ^ 52 * of_nat 4096 :: u64) = 0" by code_simp
  then show ?thesis by (simp only: page_off_def assms distrib_right add_0_right)
qed

text \<open>A checkpoint leaves the page of the main file alone when the page has uncommitted changes, and empties the log all
  the same: if the committed bytes were in the log alone, they are gone.\<close>

lemma write_back_other:
  assumes "write_back_all xs p = (p', Inr ())" "q \<notin> fst ` set xs" "has_page (p_pageSize p) (p_main p) q" "p_pageSize p \<le> 65536"
    "\<forall>x \<in> set xs. unat (fst x) < 2 ^ 32 \<and> length (fr_Buf (snd x)) = p_pageSize p"
  shows "p_pageSize p' = p_pageSize p \<and> page_at (p_pageSize p) (p_main p') q = page_at (p_pageSize p) (p_main p) q"
  using assms
proof (induction xs arbitrary: p)
  case (Cons x xs)
  obtain pid f where x: "x = (pid, f)" by (cases x)
  let ?m = "memWriteAt (p_main p) (fr_Buf f) (unat pid * p_pageSize p)"
  have l: "length (fr_Buf f) = p_pageSize p" "unat pid < 2 ^ 32" "q \<noteq> pid" using Cons.prems(2,5) x by auto
  have o: "\<not> page_off p pid < 0" "nat (page_off p pid) = unat pid * p_pageSize p" using page_off_small[OF l(2) Cons.prems(4)] by auto
  obtain e where w: "write_back_all xs (put_frame pid e (p\<lparr>p_main := ?m\<rparr>)) = (p', Inr ())"
    using Cons.prems(1) o by (auto simp: x writeBack_def split: if_splits)
  show ?case using Cons.IH[OF w] Cons.prems(2,4,5) write_page(3,4)[OF l(1), of "p_main p" q pid] Cons.prems(3) l(3)
    by (simp add: put_frame_def)
qed simp

lemma checkpoint_drops_image:
  assumes ok: "pager_ok com n recs p" and f: "frame_at p q = Some f" "p_walFlushedLSN p < fr_pageLSN f"
    and m: "has_page (p_pageSize p) (p_main p) q" "page_at (p_pageSize p) (p_main p) q \<noteq> com q"
  shows "\<exists>p'. Checkpoint salts p = (p', Inr ()) \<and> page_at (p_pageSize p) (p_main p') q \<noteq> com q
    \<and> (\<exists>w. p_walw p' = Some w \<and> wal_holds w [])"
proof -
  let ?c = "unat (PageCount (p_hdr p))"
  let ?p1 = "p\<lparr>p_pool := (p_pool p)\<lparr>pl_committedLSN := p_walFlushedLSN p\<rparr>\<rparr>"
  let ?P = "\<lambda>(_, f). fr_dirty f \<and> fr_pageLSN f \<le> p_walFlushedLSN p"
  let ?d = "sortFramesByLSN (filter ?P (pl_table (p_pool ?p1)))"
  have k: "pages_ok 0 ?c com n recs ?p1" using ok by (simp add: pager_ok_def)
  note tf = table_filter[OF pages_okD(1)[OF k], where P = ?P]
  have dur: "\<forall>x \<in> set ?d. durable_frame ?p1 x" using tf(1) by (auto simp: durable_frame_def)
  moreover have "distinct (map fst ?d)" using tf(2) by simp
  ultimately obtain p2 where w: "write_back_all ?d ?p1 = (p2, Inr ())" using write_back_all_ok[OF k] by blast
  have ps: "p_pageSize p \<le> 65536" using pages_okD(16)[OF k] by (auto simp: valid_size_def)
  have fr: "unat (fst x) < 2 ^ 32 \<and> length (fr_Buf (snd x)) = p_pageSize ?p1" if "x \<in> set ?d" for x
    using dur that pages_okD(5)[OF k, of "fst x" "snd x"] pages_ok_count[OF k] by (auto simp: durable_frame_def frame_ok_def)
  have nq: "q \<notin> fst ` set ?d" using dur f by (auto simp: durable_frame_def)
  have all: "\<forall>x \<in> set ?d. unat (fst x) < 2 ^ 32 \<and> length (fr_Buf (snd x)) = p_pageSize ?p1" using fr by blast
  have "page_at (p_pageSize p) (p_main p2) q \<noteq> com q"
    using write_back_other[OF w nq _ _ all, simplified] m ps by simp
  moreover have "checkpointLocked salts p = (openFreshWAL salts (p2\<lparr>p_checkpointSeq := p_checkpointSeq p2 + 1\<rparr>), Inr ())"
    using pages_okD(18,19)[OF k] w by (simp add: checkpointLocked_def Let_def)
  ultimately show ?thesis using fresh_wal_holds by (auto simp: Checkpoint_def openFreshWAL_def Let_def)
qed

end
