(* ===== verification/Format_Kind.thy ===== *)
theory Format_Kind
  imports Format_Slotted Pager_Durability
begin

text \<open>
  What a slotted page keeps besides its slots: the cell operations leave the page's type, owner and
  sibling alone, and the stamps of the pager, the LSN in the header and the trailing checksum, leave
  the slots alone.
\<close>

section \<open>The header under cell operations\<close>

definition kind :: "bytes \<Rightarrow> byte \<times> byte \<times> byte \<times> u32 \<times> u32" where
  "kind b = (Type (hdr b), Flags (hdr b), Codec (hdr b), CollIDEntry (hdr b), RightSib (hdr b))"

lemma copy_body_kind:
  assumes "copy_body b lo d = Some b'"
  shows "hdr b' = hdr b \<and> length b' = length b"
proof -
  have l: "36 \<le> length b" using assms by (auto simp: copy_body_def body_def split: if_splits bind_splits)
  then have s: "0 \<le> lo" "nat lo + length d \<le> blen b"
    using assms by (auto simp: copy_body_def body_Some slice_def split: if_splits bind_splits)
  then have "b' = put_body b (nat lo) d" using assms copy_body_Some[OF l s(2)] by simp
  then show ?thesis using l s by simp
qed

lemma setSlot_kind: "setSlot b i o1 l1 = Some b' \<Longrightarrow> hdr b' = hdr b \<and> length b' = length b"
  unfolding setSlot_def by (auto split: bind_splits dest!: copy_body_kind)

lemma setHeader_kind:
  "setHeader b h = Some b' \<Longrightarrow> 36 \<le> length b \<Longrightarrow> hdr b' = h \<and> length b' = length b"
  by (auto simp: setHeader_Some)

lemma rewrite_kind: "rewrite b cs e = Some (b', e') \<Longrightarrow> hdr b' = hdr b \<and> length b' = length b"
proof (induction b cs e rule: rewrite.induct)
  case (2 b i fwd d cs e)
  then show ?case by (auto simp: Let_def split: bind_splits if_splits dest!: copy_body_kind setSlot_kind)
qed simp

lemma Compact_kind:
  assumes "Compact b = Some b'" "36 \<le> length b"
  shows "kind b' = kind b \<and> length b' = length b"
proof -
  obtain b1 e h cells where r: "rewrite b cells (bodyLen b) = Some (b1, e)" "DecodePageHeader b1 = Some h"
      "setHeader b1 (h\<lparr>FreeEnd := word_of_int e\<rparr>) = Some b'"
    using assms(1) by (auto simp: Compact_def split: bind_splits)
  note k = rewrite_kind[OF r(1)]
  then have "h = hdr b" using r(2) DecodePageHeader_hdr[of b1] assms(2) by simp
  then show ?thesis using setHeader_kind[OF r(3)] k assms(2) by (simp add: kind_def)
qed

lemma append_cell_kind:
  assumes "append_cell b d = Some (b', i)" "36 \<le> length b"
  shows "kind b' = kind b \<and> length b' = length b"
  using assms DecodePageHeader_hdr[OF assms(2)]
  by (auto simp: append_cell_def Let_def kind_def split: bind_splits dest!: copy_body_kind setSlot_kind setHeader_kind)

lemma make_room_kind:
  "make_room b n = Some (Inr b') \<Longrightarrow> 36 \<le> length b \<Longrightarrow> kind b' = kind b \<and> length b' = length b"
  by (auto simp: make_room_def split: bind_splits if_splits dest!: Compact_kind)

lemma AddCell_kind: "AddCell b d = Some (Inr (b', i)) \<Longrightarrow> 36 \<le> length b \<Longrightarrow> kind b' = kind b \<and> length b' = length b"
  by (auto simp: AddCell_def split: bind_splits if_splits sum.splits dest!: append_cell_kind make_room_kind)

section \<open>Pages that differ outside their cells\<close>

text \<open>Two pages of one length with equal bytes but for the LSN field and the trailing checksum.\<close>

definition same_cells :: "bytes \<Rightarrow> bytes \<Rightarrow> bool" where
  "same_cells b b' \<longleftrightarrow> length b' = length b \<and> (\<forall>i < length b - 4. i < 8 \<or> 16 \<le> i \<longrightarrow> b' ! i = b ! i)"

lemma same_cells_sub:
  assumes "same_cells b b'" "16 \<le> off \<or> off + n \<le> 8" "off + n \<le> length b - 4"
  shows "sub b' off n = sub b off n"
  using assms by (intro nth_equalityI) (auto simp: same_cells_def nth_sub)

lemma same_cells_hdr:
  assumes s: "same_cells b b'" and l: "36 \<le> length b"
  shows "hdr b' = (hdr b)\<lparr>PageLSN := PageLSN (hdr b')\<rparr>"
proof -
  have d: "DecodePageHeader b = Some (hdr b)" "DecodePageHeader b' = Some (hdr b')"
    using DecodePageHeader_hdr l s by (simp_all add: same_cells_def)
  have "b' ! i = b ! i" if "i < 3" for i using s that l by (simp add: same_cells_def)
  moreover have "sub b' off n = sub b off n" if "off = 4 \<and> n = 4 \<or> 16 \<le> off \<and> off + n \<le> 32" for off n
    using same_cells_sub[OF s] that l by auto
  ultimately have "hdr b' = \<lparr>Type = b ! 0, Flags = b ! 1, Codec = b ! 2, EntryCount = get32 b 4, PageLSN = get64 b' 8,
      CollIDEntry = get32 b 16, FreeStart = get16 b 20, FreeEnd = get16 b 22, RightSib = get32 b 24\<rparr>"
    using d(2) l s by (auto simp: DecodePageHeader_def same_cells_def)
  moreover have "hdr b = \<lparr>Type = b ! 0, Flags = b ! 1, Codec = b ! 2, EntryCount = get32 b 4, PageLSN = get64 b 8,
      CollIDEntry = get32 b 16, FreeStart = get16 b 20, FreeEnd = get16 b 22, RightSib = get32 b 24\<rparr>"
    using d(1) l by (simp add: DecodePageHeader_def)
  ultimately show ?thesis by simp
qed

lemma same_cells_entry:
  assumes s: "same_cells b b'" and ok: "page_ok b" and i: "i < nslots b"
  shows "read_entry b' i = read_entry b i"
proof -
  note P = page_okD[OF ok]
  have sl: "rd_slot b' i = rd_slot b i" using P(1) P(7)[OF i] by (simp add: rd_slot_def same_cells_sub[OF s])
  have b: "rd_body b' lo n = rd_body b lo n" if "lo + n \<le> blen b" for lo n
    using same_cells_sub[OF s, of "32 + lo" n] that P(1) by (simp add: rd_body_def)
  from P(8)[OF i] P(1) show ?thesis by (cases rule: read_entry_cases) (simp_all add: read_entry_def sl b)
qed

lemma same_cells_page:
  assumes s: "same_cells b b'" and ok: "page_ok b"
  shows "page_ok b'" "slots b' = slots b" "kind b' = kind b"
proof -
  note P = page_okD[OF ok] and h = same_cells_hdr[OF s page_okD(1)[OF ok]]
  have f: "EntryCount (hdr b') = EntryCount (hdr b)" "FreeEnd (hdr b') = FreeEnd (hdr b)" "FreeStart (hdr b') = FreeStart (hdr b)"
    by (subst h, simp)+
  have e: "entries b' = entries b" using same_cells_entry[OF s ok] by (auto simp: entries_def f)
  have l: "length b' = length b" using s by (simp add: same_cells_def)
  show "slots b' = slots b" by (simp add: slots_def e)
  show "page_ok b'" using ok unfolding page_ok_def f e l .
  show "kind b' = kind b" unfolding kind_def by (subst (1 2 3 4 5) h) simp
qed

lemma stamp_same_cells: "36 \<le> length b \<Longrightarrow> same_cells b (stamp_lsn pid lsn b)"
  by (auto simp: same_cells_def stamp_lsn_def nth_write_at)

lemma resealed_same_cells: "resealed algo pid b b' \<Longrightarrow> same_cells b b'"
proof -
  assume r: "resealed algo pid b b'"
  have "b' ! i = b ! i" if "i < length b - 4" for i
    using arg_cong[of _ _ "\<lambda>xs. xs ! i", OF conjunct1[OF conjunct2[OF r[unfolded resealed_def]]]] that r by (simp add: resealed_def)
  then show "same_cells b b'" using r by (auto simp: same_cells_def resealed_def)
qed

end
