(* ===== verification/Btree_Page.thy ===== *)
theory Btree_Page
  imports Format_Kind Sort_Search Index_Key Pager "HOL-Library.List_Lexorder"
begin

text \<open>
  The node pages of the B-tree (\<^verbatim>\<open>src/index/btree.go\<close>): leaf and interior payloads, reading the cells
  of a page and filling a page. A page operation changes the frame's buffer in place, so filling
  returns the buffer it leaves beside its error.
\<close>

section \<open>Errors and payloads\<close>

datatype btree_error = ErrKeyTooLarge | ErrDuplicateKey | ErrNotFound | ErrTxReadOnly | ErrReverseUnsupported
  | ErrRollbackUnsupported | ErrPager pager_error | ErrCells format_error | BtreePanic

abbreviation slotDirEntry :: nat where "slotDirEntry \<equiv> 4"

record intEntry =
  sep :: bytes
  child :: u32

definition encodeInterior :: "intEntry \<Rightarrow> bytes" where
  "encodeInterior e = sep e @ be_put 4 (child e)"

text \<open>A payload shorter than a page number makes the slice panic.\<close>

definition decodeInterior :: "bytes \<Rightarrow> intEntry option" where
  "decodeInterior payload =
     (if length payload < 4 then None
      else Some \<lparr>sep = take (length payload - 4) payload, child = be_get (drop (length payload - 4) payload)\<rparr>)"

lemma decodeInterior_encode [simp]: "decodeInterior (encodeInterior e) = Some e"
  by (simp add: decodeInterior_def encodeInterior_def)

section \<open>Reading cells\<close>

text \<open>The loop of \<^verbatim>\<open>loadLeaf\<close> and \<^verbatim>\<open>loadInterior\<close>: the live cells in slot order; a cell that cannot be read is
  skipped.\<close>

fun live_cells :: "bytes \<Rightarrow> nat list \<Rightarrow> bytes list option" where
  "live_cells buf [] = Some []"
| "live_cells buf (i # is) = do {
     l \<leftarrow> IsLive buf (int i);
     if \<not> l then live_cells buf is
     else do {
       c \<leftarrow> Cell buf (int i);
       ks \<leftarrow> live_cells buf is;
       Some (case c of Inl _ \<Rightarrow> ks | Inr k \<Rightarrow> k # ks) } }"

definition leaf_cells :: "bytes \<Rightarrow> (bytes list \<times> u32) option" where
  "leaf_cells buf = do {
     n \<leftarrow> SlotCount buf;
     ks \<leftarrow> live_cells buf [0..<n];
     h \<leftarrow> DecodePageHeader buf;
     Some (ks, RightSib h) }"

definition interior_cells :: "bytes \<Rightarrow> intEntry list option" where
  "interior_cells buf = do {
     n \<leftarrow> SlotCount buf;
     ks \<leftarrow> live_cells buf [0..<n];
     those (map decodeInterior ks) }"

section \<open>Filling a page\<close>

fun add_cells :: "bytes \<Rightarrow> bytes list \<Rightarrow> bytes \<times> (btree_error + unit)" where
  "add_cells buf [] = (buf, Inr ())"
| "add_cells buf (k # ks) =
     (case AddCell buf k of
        None \<Rightarrow> (buf, Inl BtreePanic)
      | Some (Inl e) \<Rightarrow> (buf, Inl (ErrCells e))
      | Some (Inr (buf', _)) \<Rightarrow> add_cells buf' ks)"

definition set_sibling :: "bytes \<Rightarrow> u32 \<Rightarrow> bytes option" where
  "set_sibling buf rightSib = do { h \<leftarrow> DecodePageHeader buf; EncodeInto (h\<lparr>RightSib := rightSib\<rparr>) buf }"

definition fillLeaf :: "bytes \<Rightarrow> u32 \<Rightarrow> bytes list \<Rightarrow> u32 \<Rightarrow> bytes \<times> (btree_error + unit)" where
  "fillLeaf buf collID ks rightSib =
     (case InitPage buf PageBTreeLeaf collID of
        None \<Rightarrow> (buf, Inl BtreePanic)
      | Some b \<Rightarrow> andThen (add_cells b ks) (\<lambda>_ b1.
          case set_sibling b1 rightSib of None \<Rightarrow> (b1, Inl BtreePanic) | Some b2 \<Rightarrow> (b2, Inr ())))"

definition fillInterior :: "bytes \<Rightarrow> u32 \<Rightarrow> intEntry list \<Rightarrow> bytes \<times> (btree_error + unit)" where
  "fillInterior buf collID ents =
     (case InitPage buf PageBTreeInterior collID of
        None \<Rightarrow> (buf, Inl BtreePanic)
      | Some b \<Rightarrow> add_cells b (map encodeInterior ents))"

section \<open>The order of keys\<close>

lemma bytes_cmp_order: "bytes_cmp a b = cmp3 a b"
  by (induction a b rule: bytes_cmp.induct) (auto simp: cmp3_def)

lemma bytes_cmp_iff [simp]:
  "bytes_cmp a b < 0 \<longleftrightarrow> a < b" "bytes_cmp a b \<le> 0 \<longleftrightarrow> a \<le> b" "0 < bytes_cmp a b \<longleftrightarrow> b < a" "0 \<le> bytes_cmp a b \<longleftrightarrow> b \<le> a"
  by (auto simp: bytes_cmp_order cmp3_def)

section \<open>What a node page holds\<close>

definition leaf_page :: "bytes \<Rightarrow> bytes list \<Rightarrow> u32 \<Rightarrow> bool" where
  "leaf_page b ks rs \<longleftrightarrow> page_ok b \<and> slots b = map Live ks \<and> Type (hdr b) = PageBTreeLeaf \<and> RightSib (hdr b) = rs"

definition interior_page :: "bytes \<Rightarrow> intEntry list \<Rightarrow> bool" where
  "interior_page b es \<longleftrightarrow> page_ok b \<and> slots b = map (Live \<circ> encodeInterior) es \<and> Type (hdr b) = PageBTreeInterior"

lemma live_cells_ok:
  assumes ok: "page_ok b" and s: "slots b = map Live ks" and "is = map (\<lambda>i. i + m) [0..<length ks - m]"
  shows "live_cells b is = Some (drop m ks)"
  using assms(3)
proof (induction "length ks - m" arbitrary: m "is")
  case 0
  then show ?case by simp
next
  case (Suc d)
  have n: "nslots b = length ks" using s length_slots[of b] by simp
  have m: "m < length ks" using Suc(2) by simp
  have i: "is = m # map (\<lambda>i. i + Suc m) [0..<length ks - Suc m]"
    unfolding Suc.prems using m by (simp add: upt_conv_Cons map_Suc_upt[symmetric] Suc_diff_Suc[symmetric] del: upt_Suc)
  have sm: "slots b ! m = Live (ks ! m)" using s m by simp
  have "live_cells b is = Some (ks ! m # drop (Suc m) ks)"
    using Suc.hyps(1)[of "Suc m"] Suc(2) m sm n unfolding i by (simp add: IsLive_ok[OF ok] Cell_ok[OF ok])
  then show ?case using m by (simp add: Cons_nth_drop_Suc)
qed

lemma live_cells_all:
  assumes ok: "page_ok b" and s: "slots b = map Live ks"
  shows "live_cells b [0..<nslots b] = Some ks"
  using live_cells_ok[OF assms, of "[0..<nslots b]" 0] length_slots[of b] s by simp

lemma leaf_cells_ok: "leaf_page b ks rs \<Longrightarrow> leaf_cells b = Some (ks, rs)"
  using live_cells_all[of b ks] DecodePageHeader_hdr[of b] page_okD(1)[of b]
  by (simp add: leaf_cells_def leaf_page_def SlotCount_def)

lemma those_decode: "those (map decodeInterior (map encodeInterior es)) = Some es"
  by (induction es) auto

lemma interior_cells_ok: "interior_page b es \<Longrightarrow> interior_cells b = Some es"
  using live_cells_all[of b "map encodeInterior es"] DecodePageHeader_hdr[of b] page_okD(1)[of b] those_decode[of es]
  by (simp add: interior_cells_def interior_page_def SlotCount_def)

lemma same_cells_node:
  assumes "same_cells b b'"
  shows "leaf_page b ks rs \<Longrightarrow> leaf_page b' ks rs" "interior_page b es \<Longrightarrow> interior_page b' es"
  using same_cells_page[OF assms] by (auto simp: leaf_page_def interior_page_def kind_def)

section \<open>Filling succeeds exactly when the cells fit\<close>

definition cells_size :: "bytes list \<Rightarrow> nat" where
  "cells_size ks = sum_list (map (\<lambda>k. length k + 4) ks)"

lemma cells_size_simps [simp]: "cells_size [] = 0" "cells_size (k # ks) = length k + 4 + cells_size ks"
  "cells_size (ks @ ls) = cells_size ks + cells_size ls"
  by (simp_all add: cells_size_def)

lemma live_entries_size: "map view es = map Live ks \<Longrightarrow> 4 * length es + sum_list (map esize es) = cells_size ks"
proof (induction es arbitrary: ks)
  case (Cons e es)
  then obtain k ks' where ks: "ks = k # ks'" "view e = Live k" "map view es = map Live ks'" by (cases ks) auto
  then have "esize e = length k" by (cases e rule: view.cases) auto
  then show ?case using Cons.IH[OF ks(3)] ks(1) by simp
qed simp

lemma used_live: "page_ok b \<Longrightarrow> slots b = map Live ks \<Longrightarrow> 4 * nslots b + used b = cells_size ks"
  using live_entries_size[of "entries b" ks] by (simp add: slots_def used_def nth_entries(2))

lemma add_cells_ok:
  assumes "page_ok b" "slots b = map Live ks0"
  shows "if cells_size (ks0 @ ks) \<le> blen b
    then \<exists>b'. add_cells b ks = (b', Inr ()) \<and> page_ok b' \<and> slots b' = map Live (ks0 @ ks) \<and> length b' = length b \<and> kind b' = kind b
    else \<exists>b'. add_cells b ks = (b', Inl (ErrCells ErrNoSpace)) \<and> length b' = length b"
  using assms
proof (induction ks arbitrary: b ks0)
  case Nil
  have "cells_size ks0 \<le> blen b" using used_live[OF Nil] used_le[OF Nil(1)] page_okD(4,5)[OF Nil(1)] by simp
  then show ?case using Nil by auto
next
  case (Cons k ks)
  note P = page_okD[OF Cons.prems(1)] and u = used_live[OF Cons.prems]
  show ?case
  proof (cases "fits b k")
    case True
    obtain b' where b': "AddCell b k = Some (Inr (b', nslots b))" "page_ok b'" "slots b' = slots b @ [Live k]" "length b' = length b"
      by (rule AddCell_ok[OF Cons.prems(1) True])
    have kd: "kind b' = kind b" using AddCell_kind[OF b'(1) P(1)] by simp
    have s: "slots b' = map Live (ks0 @ [k])" using b'(3) Cons.prems(2) by simp
    show ?thesis using Cons.IH[OF b'(2) s] b'(1,4) kd by (simp split: if_splits)
  next
    case False
    have "\<not> cells_size (ks0 @ k # ks) \<le> blen b" using False u P(2) by (auto simp: fits_def)
    then show ?thesis using AddCell_full[OF Cons.prems(1) False] by auto
  qed
qed

lemma InitPage_kind: "InitPage p t collID = Some b \<Longrightarrow> 36 \<le> length p \<Longrightarrow> kind b = (t, 0, 0, collID, NullPage)"
proof -
  assume a: "InitPage p t collID = Some b" "36 \<le> length p"
  obtain e where "b = put_hdr (replicate (length p) 0) \<lparr>Type = t, Flags = 0, Codec = 0, EntryCount = 0, PageLSN = 0,
      CollIDEntry = collID, FreeStart = 0, FreeEnd = e, RightSib = NullPage\<rparr>"
    using a by (auto simp: InitPage_def EncodeInto_def put_hdr_def split: if_splits)
  then show ?thesis using a(2) by (simp add: kind_def)
qed

lemma set_sibling_ok:
  assumes "page_ok b"
  shows "\<exists>b'. set_sibling b rs = Some b' \<and> page_ok b' \<and> slots b' = slots b \<and> length b' = length b
    \<and> Type (hdr b') = Type (hdr b) \<and> RightSib (hdr b') = rs"
proof -
  note P = page_okD[OF assms]
  let ?h = "(hdr b)\<lparr>RightSib := rs\<rparr>" let ?b = "put_hdr b ?h"
  have h: "hdr ?b = ?h" "length ?b = length b" using P(1) by simp_all
  have e: "entries ?b = entries b" using read_entry_put_hdr[OF P(1)] h by (simp add: entries_def)
  have "set_sibling b rs = Some ?b"
    using P(1) DecodePageHeader_hdr[OF P(1)] by (simp add: set_sibling_def EncodeInto_def put_hdr_def)
  moreover have "page_ok ?b" using assms unfolding page_ok_def h e by simp
  ultimately show ?thesis using h by (simp add: slots_def e)
qed

definition page_len :: "bytes \<Rightarrow> bool" where
  "page_len b \<longleftrightarrow> 36 \<le> length b \<and> length b \<le> 65536"

lemma fill_start:
  assumes "page_len b"
  obtains b0 where "InitPage b t collID = Some b0" "page_ok b0" "slots b0 = map Live []" "length b0 = length b" "Type (hdr b0) = t"
  using assms InitPage_empty[of b t collID] InitPage_kind[of b t collID] by (auto simp: page_len_def kind_def)

lemma fillLeaf_ok:
  assumes "page_len b"
  shows "if cells_size ks \<le> blen b
    then \<exists>b'. fillLeaf b collID ks rs = (b', Inr ()) \<and> leaf_page b' ks rs \<and> length b' = length b
    else \<exists>b'. fillLeaf b collID ks rs = (b', Inl (ErrCells ErrNoSpace)) \<and> length b' = length b"
proof (rule fill_start[OF assms, of PageBTreeLeaf collID])
  fix b0 assume b0: "InitPage b PageBTreeLeaf collID = Some b0" "page_ok b0" "slots b0 = map Live []" "length b0 = length b"
    "Type (hdr b0) = PageBTreeLeaf"
  show ?thesis
  proof (cases "cells_size ks \<le> blen b")
    case True
    then obtain b1 where b1: "add_cells b0 ks = (b1, Inr ())" "page_ok b1" "slots b1 = map Live ks" "length b1 = length b0" "kind b1 = kind b0"
      using add_cells_ok[OF b0(2,3), of ks] b0(4) by auto
    then show ?thesis using set_sibling_ok[OF b1(2), of rs] b0 True by (auto simp: fillLeaf_def leaf_page_def kind_def)
  qed (use add_cells_ok[OF b0(2,3), of ks] b0 in \<open>auto simp: fillLeaf_def\<close>)
qed

lemma fillInterior_ok:
  assumes "page_len b"
  shows "if cells_size (map encodeInterior es) \<le> blen b
    then \<exists>b'. fillInterior b collID es = (b', Inr ()) \<and> interior_page b' es \<and> length b' = length b
    else \<exists>b'. fillInterior b collID es = (b', Inl (ErrCells ErrNoSpace)) \<and> length b' = length b"
proof (rule fill_start[OF assms, of PageBTreeInterior collID])
  fix b0 assume b0: "InitPage b PageBTreeInterior collID = Some b0" "page_ok b0" "slots b0 = map Live []" "length b0 = length b"
    "Type (hdr b0) = PageBTreeInterior"
  show ?thesis using add_cells_ok[OF b0(2,3), of "map encodeInterior es"] b0
    by (auto simp: fillInterior_def interior_page_def kind_def split: if_splits)
qed

end
