(* ===== verification/Btree.thy ===== *)
theory Btree
  imports Btree_Page
begin

text \<open>
  The B-tree (\<^verbatim>\<open>src/index/btree.go\<close>, \<^verbatim>\<open>cursor.go\<close>, \<^verbatim>\<open>tx.go\<close>) over the pager. Every method runs under the
  tree's mutex and is one function on its state, the pager included. A loop that follows page
  numbers ends only on a well-formed tree, so \<open>None\<close> stands for a call that does not return. The
  callback that persists a new root is a function on the pager's state.
\<close>

section \<open>The tree\<close>

record BTree =
  t_pgr :: Pager
  t_collID :: u32
  t_unique :: bool
  t_bodyLen :: int
  t_maxKey :: int
  t_onRoot :: "u32 \<Rightarrow> Pager \<Rightarrow> Pager"
  t_root :: u32
  t_txCounter :: u64

definition OpenWithRoot :: "Pager \<Rightarrow> u32 \<Rightarrow> bool \<Rightarrow> u32 \<Rightarrow> (u32 \<Rightarrow> Pager \<Rightarrow> Pager) option \<Rightarrow> BTree" where
  "OpenWithRoot pgr collID unique root onRoot =
     (let bl = BodySize (of_nat (p_pageSize pgr)) in
      \<lparr>t_pgr = pgr, t_collID = collID, t_unique = unique, t_bodyLen = bl, t_maxKey = bl div 4, 
       t_onRoot = (case onRoot of None \<Rightarrow> \<lambda>_ p. p | Some f \<Rightarrow> f), t_root = root, t_txCounter = 0\<rparr>)"

text \<open>The \<^verbatim>\<open>_id\<close> index keeps its root in the database header.\<close>

definition btree_Open :: "Pager \<Rightarrow> u32 \<Rightarrow> bool \<Rightarrow> BTree" where
  "btree_Open pgr collID unique =
     OpenWithRoot pgr collID unique (CatalogRoot_of pgr) (Some (\<lambda>r p. fst (SetCatalogRoot r p)))"

definition on_pager :: "(Pager \<Rightarrow> Pager \<times> (pager_error + 'a)) \<Rightarrow> BTree \<Rightarrow> BTree \<times> (btree_error + 'a)" where
  "on_pager f t = (case f (t_pgr t) of
     (p, Inl e) \<Rightarrow> (t\<lparr>t_pgr := p\<rparr>, Inl (ErrPager e)) | (p, Inr x) \<Rightarrow> (t\<lparr>t_pgr := p\<rparr>, Inr x))"

definition unpin :: "u32 \<Rightarrow> BTree \<Rightarrow> BTree" where
  "unpin pno t = t\<lparr>t_pgr := Unpin (ucast pno) (t_pgr t)\<rparr>"

definition mark :: "u32 \<Rightarrow> bytes \<Rightarrow> BTree \<Rightarrow> BTree" where
  "mark pno buf t = t\<lparr>t_pgr := MarkDirty (ucast pno) buf (t_pgr t)\<rparr>"

text \<open>A buffer changed in place without \<^verbatim>\<open>MarkDirty\<close>.\<close>

definition poke :: "u32 \<Rightarrow> bytes \<Rightarrow> BTree \<Rightarrow> BTree" where
  "poke pno buf t =
     (case frame_at (t_pgr t) (ucast pno) of None \<Rightarrow> t
      | Some f \<Rightarrow> t\<lparr>t_pgr := put_frame (ucast pno) (f\<lparr>fr_Buf := buf\<rparr>) (t_pgr t)\<rparr>)"

section \<open>Node load and store\<close>

definition loadLeaf :: "u32 \<Rightarrow> BTree \<Rightarrow> BTree \<times> (btree_error + bytes list \<times> u32)" where
  "loadLeaf pno t =
     andThen (on_pager (Fetch (ucast pno)) t) (\<lambda>buf t.
       case leaf_cells buf of None \<Rightarrow> (t, Inl BtreePanic) | Some r \<Rightarrow> (unpin pno t, Inr r))"

definition loadInterior :: "u32 \<Rightarrow> BTree \<Rightarrow> BTree \<times> (btree_error + intEntry list)" where
  "loadInterior pno t =
     andThen (on_pager (Fetch (ucast pno)) t) (\<lambda>buf t.
       case interior_cells buf of None \<Rightarrow> (t, Inl BtreePanic) | Some r \<Rightarrow> (unpin pno t, Inr r))"

definition pageType :: "u32 \<Rightarrow> BTree \<Rightarrow> BTree \<times> (btree_error + byte)" where
  "pageType pno t =
     andThen (on_pager (Fetch (ucast pno)) t) (\<lambda>buf t.
       case DecodePageHeader buf of None \<Rightarrow> (t, Inl BtreePanic) | Some h \<Rightarrow> (unpin pno t, Inr (Type h)))"

text \<open>The end of the four writing functions: on success the buffer is marked dirty.\<close>

definition finish_fill :: "u32 \<Rightarrow> bytes \<times> (btree_error + unit) \<Rightarrow> BTree \<Rightarrow> BTree \<times> (btree_error + unit)" where
  "finish_fill pno r t =
     (case r of (buf, Inl e) \<Rightarrow> (unpin pno (poke pno buf t), Inl e) | (buf, Inr _) \<Rightarrow> (unpin pno (mark pno buf t), Inr ()))"

definition writeLeaf :: "u32 \<Rightarrow> bytes list \<Rightarrow> u32 \<Rightarrow> BTree \<Rightarrow> BTree \<times> (btree_error + unit)" where
  "writeLeaf pno ks rightSib t =
     andThen (on_pager (Fetch (ucast pno)) t) (\<lambda>buf t. finish_fill pno (fillLeaf buf (t_collID t) ks rightSib) t)"

definition writeInterior :: "u32 \<Rightarrow> intEntry list \<Rightarrow> BTree \<Rightarrow> BTree \<times> (btree_error + unit)" where
  "writeInterior pno ents t =
     andThen (on_pager (Fetch (ucast pno)) t) (\<lambda>buf t. finish_fill pno (fillInterior buf (t_collID t) ents) t)"

definition newLeaf :: "bytes list \<Rightarrow> u32 \<Rightarrow> BTree \<Rightarrow> BTree \<times> (btree_error + u32)" where
  "newLeaf ks rightSib t =
     andThen (on_pager Allocate t) (\<lambda>(pid, buf) t.
       andThen (finish_fill (ucast pid) (fillLeaf buf (t_collID t) ks rightSib) t) (\<lambda>_ t. (t, Inr (ucast pid))))"

definition newInterior :: "intEntry list \<Rightarrow> BTree \<Rightarrow> BTree \<times> (btree_error + u32)" where
  "newInterior ents t =
     andThen (on_pager Allocate t) (\<lambda>(pid, buf) t.
       andThen (finish_fill (ucast pid) (fillInterior buf (t_collID t) ents) t) (\<lambda>_ t. (t, Inr (ucast pid))))"

section \<open>Fit checks and descent\<close>

definition leafFits :: "BTree \<Rightarrow> bytes list \<Rightarrow> bool" where
  "leafFits t ks \<longleftrightarrow> int (sum_list (map (\<lambda>k. length k + slotDirEntry) ks)) \<le> t_bodyLen t"

definition interiorFits :: "BTree \<Rightarrow> intEntry list \<Rightarrow> bool" where
  "interiorFits t ents \<longleftrightarrow> int (sum_list (map (\<lambda>e. length (sep e) + 4 + slotDirEntry) ents)) \<le> t_bodyLen t"

text \<open>The loop over the separators from entry 1: the last one not above the key before the first above it.\<close>

fun child_index :: "intEntry list \<Rightarrow> nat \<Rightarrow> nat \<Rightarrow> bytes \<Rightarrow> nat" where
  "child_index [] i idx key = idx"
| "child_index (e # es) i idx key = (if bytes_cmp (sep e) key \<le> 0 then child_index es (i + 1) i key else idx)"

partial_function (option) descend_loop :: "bytes \<Rightarrow> u32 \<Rightarrow> u32 list \<Rightarrow> BTree \<Rightarrow> (BTree \<times> (btree_error + u32 \<times> u32 list)) option" where
  "descend_loop key pno path t =
     (case pageType pno t of
        (t, Inl e) \<Rightarrow> Some (t, Inl e)
      | (t, Inr ty) \<Rightarrow>
          if ty = PageBTreeLeaf then Some (t, Inr (pno, path))
          else (case loadInterior pno t of
              (t, Inl e) \<Rightarrow> Some (t, Inl e)
            | (t, Inr ents) \<Rightarrow>
                if ents = [] then Some (t, Inl BtreePanic)
                else descend_loop key (child (ents ! child_index (tl ents) 1 0 key)) (path @ [pno]) t))"

definition descend :: "bytes \<Rightarrow> BTree \<Rightarrow> (BTree \<times> (btree_error + u32 \<times> u32 list)) option" where
  "descend searchKey t = descend_loop searchKey (t_root t) [] t"

text \<open>Going on with a result that may not come.\<close>

definition andThenO :: "('s \<times> ('e + 'a)) option \<Rightarrow> ('a \<Rightarrow> 's \<Rightarrow> ('s \<times> ('e + 'b)) option) \<Rightarrow> ('s \<times> ('e + 'b)) option" where
  "andThenO r k = (case r of None \<Rightarrow> None | Some (s, Inl e) \<Rightarrow> Some (s, Inl e) | Some (s, Inr x) \<Rightarrow> k x s)"

lemma andThenO_simps [simp]:
  "andThenO None k = None" "andThenO (Some (s, Inl e)) k = Some (s, Inl e)" "andThenO (Some (s, Inr x)) k = k x s"
  by (simp_all add: andThenO_def)

section \<open>Positions\<close>

record pos =
  pos_leaf :: u32
  pos_keys :: "bytes list"
  pos_idx :: nat
  pos_rightSib :: u32

text \<open>The first key not below \<open>search\<close>, from a leaf on; \<open>None\<close> is the position past the end.\<close>

partial_function (option) seek_loop :: "bytes \<Rightarrow> u32 \<Rightarrow> BTree \<Rightarrow> (BTree \<times> (btree_error + pos option)) option" where
  "seek_loop search leaf t =
     (case loadLeaf leaf t of
        (t, Inl e) \<Rightarrow> Some (t, Inl e)
      | (t, Inr (ks, rightSib)) \<Rightarrow>
          let idx = length (takeWhile (\<lambda>k. bytes_cmp k search < 0) ks) in
          if idx < length ks then Some (t, Inr (Some \<lparr>pos_leaf = leaf, pos_keys = ks, pos_idx = idx, pos_rightSib = rightSib\<rparr>))
          else if rightSib = NullPage then Some (t, Inr None)
          else seek_loop search rightSib t)"

definition seek :: "bytes \<Rightarrow> BTree \<Rightarrow> (BTree \<times> (btree_error + pos option)) option" where
  "seek search t = andThenO (descend search t) (\<lambda>(leaf, _) t. seek_loop search leaf t)"

section \<open>Get\<close>

definition zeroRID :: rid where "zeroRID = RID 0 0"

definition getLocked :: "bytes \<Rightarrow> BTree \<Rightarrow> (BTree \<times> (btree_error + rid)) option" where
  "getLocked key t =
     (if t_root t = NullPage then Some (t, Inl ErrNotFound)
      else andThenO (seek (treeKey key zeroRID) t) (\<lambda>q t.
        case q of
          None \<Rightarrow> Some (t, Inl ErrNotFound)
        | Some p \<Rightarrow>
            let k = pos_keys p ! pos_idx p in
            (case (fieldOf k, ridFromSuffix k) of
               (Some f, Some r) \<Rightarrow> Some (t, if f = key then Inr r else Inl ErrNotFound)
             | _ \<Rightarrow> Some (t, Inl BtreePanic))))"

definition btree_Get :: "bytes \<Rightarrow> BTree \<Rightarrow> (BTree \<times> (btree_error + rid)) option" where
  "btree_Get key t = getLocked key t"

section \<open>Put\<close>

definition insert_at :: "nat \<Rightarrow> 'a \<Rightarrow> 'a list \<Rightarrow> 'a list" where
  "insert_at i x xs = take i xs @ x # drop i xs"

definition new_root :: "u32 \<Rightarrow> BTree \<Rightarrow> BTree" where
  "new_root root t = t\<lparr>t_root := root, t_pgr := t_onRoot t root (t_pgr t)\<rparr>"

function insertIntoParent :: "u32 list \<Rightarrow> u32 \<Rightarrow> bytes \<Rightarrow> u32 \<Rightarrow> BTree \<Rightarrow> BTree \<times> (btree_error + unit)" where
  "insertIntoParent path leftChild sp rightChild t =
     (if path = [] then
        andThen (newInterior [\<lparr>sep = [], child = leftChild\<rparr>, \<lparr>sep = sp, child = rightChild\<rparr>] t) (\<lambda>root t.
          (new_root root t, Inr ()))
      else
        andThen (loadInterior (last path) t) (\<lambda>ents0 t.
          let ps = sort_Search (length ents0) (\<lambda>i. bytes_cmp (sep (ents0 ! i)) sp > 0);
              ents = insert_at ps \<lparr>sep = sp, child = rightChild\<rparr> ents0 in
          if interiorFits t ents then writeInterior (last path) ents t
          else
            let mid = length ents div 2;
                promote = sep (ents ! mid);
                right = (drop mid ents)[0 := (ents ! mid)\<lparr>sep := []\<rparr>] in
            andThen (newInterior right t) (\<lambda>rPno t.
            andThen (writeInterior (last path) (take mid ents) t) (\<lambda>_ t.
              insertIntoParent (butlast path) (last path) promote rPno t))))"
  by pat_completeness auto
termination
  by (relation "measure (\<lambda>(path, _). length path)") auto

declare insertIntoParent.simps [simp del]

definition splitLeaf :: "u32 \<Rightarrow> bytes list \<Rightarrow> u32 \<Rightarrow> u32 list \<Rightarrow> BTree \<Rightarrow> BTree \<times> (btree_error + unit)" where
  "splitLeaf leafPno ks oldRightSib path t =
     (let mid = length ks div 2; right = drop mid ks in
      if right = [] then (t, Inl BtreePanic)
      else andThen (newLeaf right oldRightSib t) (\<lambda>rPno t.
           andThen (writeLeaf leafPno (take mid ks) rPno t) (\<lambda>_ t.
             insertIntoParent path leafPno (right ! 0) rPno t)))"

definition put_leaf :: "bytes \<Rightarrow> BTree \<Rightarrow> (BTree \<times> (btree_error + unit)) option" where
  "put_leaf full t =
     andThenO (descend full t) (\<lambda>(leafPno, path) t.
       Some (andThen (loadLeaf leafPno t) (\<lambda>(ks, rightSib) t.
         let ps = sort_Search (length ks) (\<lambda>i. bytes_cmp (ks ! i) full \<ge> 0) in
         if ps < length ks \<and> ks ! ps = full then (t, Inr ())
         else let ks' = insert_at ps full ks in
           if leafFits t ks' then writeLeaf leafPno ks' rightSib t else splitLeaf leafPno ks' rightSib path t)))"

definition btree_Put :: "bool \<Rightarrow> bytes \<Rightarrow> rid \<Rightarrow> BTree \<Rightarrow> (BTree \<times> (btree_error + unit)) option" where
  "btree_Put ro key r t =
     (let full = treeKey key r in
      if ro then Some (t, Inl ErrTxReadOnly)
      else if int (length full + slotDirEntry) > t_maxKey t then Some (t, Inl ErrKeyTooLarge)
      else if t_root t = NullPage then
        Some (andThen (newLeaf [full] NullPage t) (\<lambda>root t. (new_root root t, Inr ())))
      else if t_unique t then
        (case getLocked key t of
           None \<Rightarrow> None
         | Some (t, Inr existing) \<Rightarrow> Some (t, if existing \<noteq> r then Inl ErrDuplicateKey else Inr ())
         | Some (t, Inl e) \<Rightarrow> if e = BtreePanic then Some (t, Inl e) else put_leaf full t)
      else put_leaf full t)"

section \<open>Delete\<close>

definition btree_Delete :: "bool \<Rightarrow> bytes \<Rightarrow> rid \<Rightarrow> BTree \<Rightarrow> (BTree \<times> (btree_error + unit)) option" where
  "btree_Delete ro key r t =
     (if ro then Some (t, Inl ErrTxReadOnly)
      else if t_root t = NullPage then Some (t, Inl ErrNotFound)
      else let full = treeKey key r in
        andThenO (descend full t) (\<lambda>(leafPno, _) t.
          Some (andThen (loadLeaf leafPno t) (\<lambda>(ks, rightSib) t.
            let ps = sort_Search (length ks) (\<lambda>i. bytes_cmp (ks ! i) full \<ge> 0) in
            if ps \<ge> length ks \<or> ks ! ps \<noteq> full then (t, Inl ErrNotFound)
            else writeLeaf leafPno (take ps ks @ drop (ps + 1) ks) rightSib t))))"

end
