(* ===== verification/Btree_Node.thy ===== *)
theory Btree_Node
  imports Btree Pager_Run
begin

text \<open>
  Node input and output against the pager's invariant: what reading, rewriting and allocating a node
  does to the pages in use. The pool may be exhausted at any step; a success has the effect stated.
\<close>

section \<open>Pages in use\<close>

abbreviation cnt :: "Pager \<Rightarrow> nat" where "cnt p \<equiv> unat (PageCount (p_hdr p))"

definition in_use :: "Pager \<Rightarrow> u32 list \<Rightarrow> u32 \<Rightarrow> bool" where
  "in_use p xs q \<longleftrightarrow> q \<noteq> 0 \<and> unat q < cnt p \<and> q \<notin> set xs"

text \<open>Pages in use stay in use, and those outside \<open>W\<close> keep their bytes.\<close>

definition keeps :: "u32 set \<Rightarrow> Pager \<Rightarrow> u32 list \<Rightarrow> Pager \<Rightarrow> u32 list \<Rightarrow> bool" where
  "keeps W p xs p' xs' \<longleftrightarrow> p_pageSize p' = p_pageSize p
     \<and> (\<forall>q. in_use p xs q \<longrightarrow> in_use p' xs' q \<and> (q \<notin> W \<longrightarrow> content p' (ucast q) = content p (ucast q)))"

lemma keeps_refl: "keeps W p xs p xs"
  by (simp add: keeps_def)

lemma keeps_trans: "keeps W p xs q ys \<Longrightarrow> keeps V q ys r zs \<Longrightarrow> keeps (W \<union> V) p xs r zs"
  by (simp add: keeps_def)

lemma keeps_mono: "keeps W p xs q ys \<Longrightarrow> W \<subseteq> V \<Longrightarrow> keeps V p xs q ys"
  by (auto simp: keeps_def)

lemma keepsD: "keeps W p xs p' xs' \<Longrightarrow> in_use p xs q \<Longrightarrow> in_use p' xs' q"
  "keeps W p xs p' xs' \<Longrightarrow> in_use p xs q \<Longrightarrow> q \<notin> W \<Longrightarrow> content p' (ucast q) = content p (ucast q)"
  by (auto simp: keeps_def)

text \<open>Room for \<open>k\<close> more page writes and allocations before a counter would wrap.\<close>

definition room :: "nat \<Rightarrow> Pager \<Rightarrow> bool" where
  "room k p \<longleftrightarrow> lsn_room (4 * k) p \<and> cnt p + k < 2 ^ 32"

lemma room_0: "room 0 p"
  unfolding room_def lsn_room_def using unsigned_less[of "p_nextLSN p", where ?'a = nat] unsigned_less[of "PageCount (p_hdr p)", where ?'a = nat] by simp

definition geometry :: "BTree \<Rightarrow> bool" where
  "geometry t \<longleftrightarrow> t_bodyLen t = int (p_pageSize (t_pgr t)) - 36 \<and> t_maxKey t = t_bodyLen t div 4"

definition tok :: "(u64 \<Rightarrow> bytes) \<Rightarrow> nat \<Rightarrow> (PageImage \<times> u32) list \<Rightarrow> u32 list \<Rightarrow> nat \<Rightarrow> BTree \<Rightarrow> bool" where
  "tok com n recs xs k t \<longleftrightarrow> pager_ok com n recs (t_pgr t) \<and> free_list (t_pgr t) xs \<and> room k (t_pgr t) \<and> geometry t"

lemma tok_mono: "tok com n recs xs k t \<Longrightarrow> j \<le> k \<Longrightarrow> tok com n recs xs j t"
  by (auto simp: tok_def room_def lsn_room_def)

lemma tok_pages: "tok com n recs xs k t \<Longrightarrow> pages_ok 0 (cnt (t_pgr t)) com n recs (t_pgr t)"
  by (simp add: tok_def pager_ok_def)

lemma tok_page_len:
  assumes "tok com n recs xs k t" "unat (pid :: u64) < cnt (t_pgr t)"
  shows "length (content (t_pgr t) pid) = p_pageSize (t_pgr t)" "page_len (content (t_pgr t) pid)"
proof -
  note k = tok_pages[OF assms(1)]
  show l: "length (content (t_pgr t) pid) = p_pageSize (t_pgr t)"
    using pages_okD(5)[OF k, of pid] pages_okD(7)[OF k assms(2)] by (auto simp: content_def frame_ok_def split: option.splits)
  show "page_len (content (t_pgr t) pid)" using pages_okD(16)[OF k] by (auto simp: page_len_def l valid_size_def)
qed

section \<open>Reading\<close>

text \<open>A step that reads: the pool may change, no page does; it delivers \<open>v\<close> or finds the pool exhausted.\<close>

definition reads :: "BTree \<Rightarrow> BTree \<Rightarrow> bool" where
  "reads t t' \<longleftrightarrow> (\<exists>p'. t' = t\<lparr>t_pgr := p'\<rparr> \<and> unmoved (cnt (t_pgr t)) (t_pgr t) p' \<and>
     (\<forall>com n recs. pager_ok com n recs (t_pgr t) \<longrightarrow> pager_ok com n recs p'))"

definition delivers :: "BTree \<Rightarrow> 'a \<Rightarrow> BTree \<times> (btree_error + 'a) \<Rightarrow> bool" where
  "delivers t v r \<longleftrightarrow> reads t (fst r) \<and> snd r \<in> {Inl (ErrPager ErrPoolExhausted), Inr v}"

lemma reads_refl: "reads t t"
  by (auto simp: reads_def unmoved_refl intro: exI[of _ "t_pgr t"])

lemma reads_trans:
  assumes "reads t t'" "reads t' t''"
  shows "reads t t''"
proof -
  obtain p' where p': "t' = t\<lparr>t_pgr := p'\<rparr>" "unmoved (cnt (t_pgr t)) (t_pgr t) p'"
      "\<forall>com n recs. pager_ok com n recs (t_pgr t) \<longrightarrow> pager_ok com n recs p'" using assms(1) by (auto simp: reads_def)
  have c: "cnt p' = cnt (t_pgr t)" using unmovedD(1)[OF p'(2)] by simp
  obtain q where q: "t'' = t\<lparr>t_pgr := q\<rparr>" "unmoved (cnt (t_pgr t)) p' q" "\<forall>com n recs. pager_ok com n recs p' \<longrightarrow> pager_ok com n recs q"
    using assms(2) p'(1) c by (auto simp: reads_def)
  then show ?thesis using p'(3) unmoved_trans[OF p'(2) q(2)] by (auto simp: reads_def)
qed

lemma readsD:
  assumes "reads t t'"
  shows "p_hdr (t_pgr t') = p_hdr (t_pgr t)" "p_pageSize (t_pgr t') = p_pageSize (t_pgr t)" "p_nextLSN (t_pgr t') = p_nextLSN (t_pgr t)"
    "unat pid < cnt (t_pgr t) \<Longrightarrow> content (t_pgr t') pid = content (t_pgr t) pid"
    "t_root t' = t_root t" "t_onRoot t' = t_onRoot t" "t_collID t' = t_collID t" "t_unique t' = t_unique t"
    "t_bodyLen t' = t_bodyLen t" "t_maxKey t' = t_maxKey t"
    "tok com n recs xs k t \<Longrightarrow> tok com n recs xs k t'"
    "in_use (t_pgr t') xs q = in_use (t_pgr t) xs q"
proof -
  obtain p' where p': "t' = t\<lparr>t_pgr := p'\<rparr>" "unmoved (cnt (t_pgr t)) (t_pgr t) p'"
      "\<forall>com n recs. pager_ok com n recs (t_pgr t) \<longrightarrow> pager_ok com n recs p'" using assms by (auto simp: reads_def)
  note u = unmovedD[OF p'(2)]
  show "p_hdr (t_pgr t') = p_hdr (t_pgr t)" "p_pageSize (t_pgr t') = p_pageSize (t_pgr t)" "p_nextLSN (t_pgr t') = p_nextLSN (t_pgr t)"
    "unat pid < cnt (t_pgr t) \<Longrightarrow> content (t_pgr t') pid = content (t_pgr t) pid"
    "t_root t' = t_root t" "t_onRoot t' = t_onRoot t" "t_collID t' = t_collID t" "t_unique t' = t_unique t"
    "t_bodyLen t' = t_bodyLen t" "t_maxKey t' = t_maxKey t" "in_use (t_pgr t') xs q = in_use (t_pgr t) xs q"
    using u p'(1) by (simp_all add: in_use_def)
  show "tok com n recs xs k t \<Longrightarrow> tok com n recs xs k t'"
    using p'(1,3) u unmoved_free_list[OF p'(2)] by (simp add: tok_def room_def lsn_room_def geometry_def)
qed

lemma fetch_page:
  assumes ok: "tok com n recs xs k t" and q: "unat (pid :: u64) < cnt (t_pgr t)"
  shows "reads t (fst (on_pager (Fetch pid) t))"
    "snd (on_pager (Fetch pid) t) = Inl (ErrPager ErrPoolExhausted)
     \<or> snd (on_pager (Fetch pid) t) = Inr (content (t_pgr t) pid)
       \<and> (\<exists>f. frame_at (t_pgr (fst (on_pager (Fetch pid) t))) pid = Some f)"
proof -
  let ?p = "t_pgr t" let ?r = "Fetch pid ?p"
  have a: "pager_ok c m rs (fst ?r)" "unmoved (cnt ?p) ?p (fst ?r)"
      "snd ?r = Inl ErrPoolExhausted \<or> snd ?r = Inr (content ?p pid) \<and> (\<exists>f. frame_at (fst ?r) pid = Some f)"
    if p: "pager_ok c m rs ?p" for c m rs
  proof -
    have k: "pages_ok 0 (cnt ?p) c m rs ?p" and h: "hdr_ok ?p" using p by (simp_all add: pager_ok_def)
    have "pager_ok c m rs (fst ?r) \<and> unmoved (cnt ?p) ?p (fst ?r)
        \<and> (snd ?r = Inl ErrPoolExhausted \<or> snd ?r = Inr (content ?p pid) \<and> (\<exists>f. frame_at (fst ?r) pid = Some f))"
      by (rule fetchLocked_cases[OF k q]) (auto simp: Fetch_def intro: pager_ok_unmoved[OF _ _ h])
    then show "pager_ok c m rs (fst ?r)" "unmoved (cnt ?p) ?p (fst ?r)"
      "snd ?r = Inl ErrPoolExhausted \<or> snd ?r = Inr (content ?p pid) \<and> (\<exists>f. frame_at (fst ?r) pid = Some f)" by blast+
  qed
  have p: "pager_ok com n recs ?p" using ok by (simp add: tok_def)
  have f: "fst (on_pager (Fetch pid) t) = t\<lparr>t_pgr := fst ?r\<rparr>"
    "snd (on_pager (Fetch pid) t) = (case snd ?r of Inl e \<Rightarrow> Inl (ErrPager e) | Inr x \<Rightarrow> Inr x)"
    by (auto simp: on_pager_def split: prod.splits sum.splits)
  show "reads t (fst (on_pager (Fetch pid) t))" unfolding f reads_def using a(1) a(2)[OF p] by blast
  show "snd (on_pager (Fetch pid) t) = Inl (ErrPager ErrPoolExhausted)
     \<or> snd (on_pager (Fetch pid) t) = Inr (content (t_pgr t) pid)
       \<and> (\<exists>f. frame_at (t_pgr (fst (on_pager (Fetch pid) t))) pid = Some f)"
    unfolding f using a(3)[OF p] by auto
qed

lemma reads_unpin: "reads t (unpin q t)"
proof -
  have "pager_ok com n recs (Unpin pid p)" if "pager_ok com n recs p" for com n recs pid p
  proof -
    have "pages_ok 0 (cnt p) com n recs p" "hdr_ok p" using that by (simp_all add: pager_ok_def)
    then show ?thesis using pager_ok_unmoved[OF pages_ok_Unpin unmoved_Unpin] by blast
  qed
  then show ?thesis unfolding reads_def unpin_def using unmoved_Unpin by blast
qed

text \<open>Fetch, look at the bytes, unpin.\<close>

lemma fetch_look:
  assumes ok: "tok com n recs xs k t" and q: "unat q < cnt (t_pgr t)" and v: "g (content (t_pgr t) (ucast q)) = Some v"
  shows "delivers t v (andThen (on_pager (Fetch (ucast q)) t) (\<lambda>buf t. case g buf of None \<Rightarrow> (t, Inl BtreePanic) | Some r \<Rightarrow> (unpin q t, Inr r)))"
proof -
  obtain t1 r where r: "on_pager (Fetch (ucast q)) t = (t1, r)" by (cases "on_pager (Fetch (ucast q)) t")
  have "reads t t1" "r = Inl (ErrPager ErrPoolExhausted) \<or> r = Inr (content (t_pgr t) (ucast q))"
    using fetch_page[OF ok, of "ucast q"] q r by auto
  then show ?thesis using r v reads_trans[OF _ reads_unpin, of t t1 q] by (auto simp: delivers_def)
qed

lemma loadLeaf_reads:
  assumes "tok com n recs xs k t" "unat q < cnt (t_pgr t)" "leaf_page (content (t_pgr t) (ucast q)) ks rs"
  shows "delivers t (ks, rs) (loadLeaf q t)"
  unfolding loadLeaf_def by (rule fetch_look[where g = leaf_cells, OF assms(1,2) leaf_cells_ok[OF assms(3)]])

lemma loadInterior_reads:
  assumes "tok com n recs xs k t" "unat q < cnt (t_pgr t)" "interior_page (content (t_pgr t) (ucast q)) es"
  shows "delivers t es (loadInterior q t)"
  unfolding loadInterior_def by (rule fetch_look[where g = interior_cells, OF assms(1,2) interior_cells_ok[OF assms(3)]])

lemma pageType_reads:
  assumes "tok com n recs xs k t" "unat q < cnt (t_pgr t)" "page_ok (content (t_pgr t) (ucast q))"
  shows "delivers t (Type (hdr (content (t_pgr t) (ucast q)))) (pageType q t)"
proof -
  let ?b = "content (t_pgr t) (ucast q)"
  have v: "map_option Type (DecodePageHeader ?b) = Some (Type (hdr ?b))" using DecodePageHeader_hdr[OF page_okD(1)[OF assms(3)]] by simp
  have e: "(\<lambda>buf t. case DecodePageHeader buf of None \<Rightarrow> (t, Inl BtreePanic) | Some h \<Rightarrow> (unpin q t, Inr (Type h)))
      = (\<lambda>buf t. case map_option Type (DecodePageHeader buf) of None \<Rightarrow> (t, Inl BtreePanic) | Some ty \<Rightarrow> (unpin q t, Inr ty))"
    by (auto simp: fun_eq_iff split: option.splits)
  show ?thesis unfolding pageType_def e by (rule fetch_look[where g = "\<lambda>b. map_option Type (DecodePageHeader b)", OF assms(1,2) v])
qed

section \<open>Writing\<close>

lemma mark_ok:
  assumes ok: "tok com n recs xs (Suc k) t" and q: "in_use (t_pgr t) xs q" and f: "frame_at (t_pgr t) (ucast q) = Some f"
    and b: "length b = p_pageSize (t_pgr t)"
  shows "tok com n recs xs k (mark q b t)" "keeps {q} (t_pgr t) xs (t_pgr (mark q b t)) xs"
    "same_cells b (content (t_pgr (mark q b t)) (ucast q))" "p_hdr (t_pgr (mark q b t)) = p_hdr (t_pgr t)"
proof -
  let ?p = "t_pgr t" let ?q = "markDirtyLocked (ucast q) b ?p"
  have k: "pages_ok 0 (cnt ?p) com n recs ?p" and h: "hdr_ok ?p" and fl: "free_list ?p xs" using ok by (simp_all add: tok_def pager_ok_def)
  have r: "lsn_room (Suc (4 * k + 3)) ?p" and g: "geometry t" using ok by (simp_all add: tok_def room_def)
  note m = markDirtyLocked_ok[OF k f b r]
  have e: "p_hdr ?q = p_hdr ?p" "p_pageSize ?q = p_pageSize ?p" "p_checksum ?q = p_checksum ?p"
    using kept_markDirty[of ?p "ucast q" b] by (simp_all add: kept_def)
  have q0: "q \<noteq> 0" "q \<notin> set xs" using q by (simp_all add: in_use_def)
  have "hdr_ok ?q" unfolding hdr_ok_def e using h m(2) q0 by (simp add: hdr_ok_def)
  moreover have "free_list ?q xs" using fl m(2) e q0 unfolding free_list_def by (auto elim!: free_chain_cong)
  moreover have "room k ?q" using m(3) ok e by (simp add: tok_def room_def lsn_room_def)
  ultimately show "tok com n recs xs k (mark q b t)"
    using m(1) e g by (simp add: tok_def mark_def MarkDirty_def pager_ok_def geometry_def)
  show "keeps {q} ?p xs (t_pgr (mark q b t)) xs" using m(2) e by (auto simp: keeps_def mark_def MarkDirty_def in_use_def)
  have "36 \<le> length b" using b pages_ok_size[OF k] by simp
  then show "same_cells b (content (t_pgr (mark q b t)) (ucast q))" using m(2) by (simp add: mark_def MarkDirty_def stamp_same_cells)
  show "p_hdr (t_pgr (mark q b t)) = p_hdr ?p" using e by (simp add: mark_def MarkDirty_def)
qed

text \<open>The errors of a write; a success writes_page one page in use, or a fresh one.\<close>

abbreviation write_errors :: "btree_error set" where
  "write_errors \<equiv> {ErrPager ErrPoolExhausted, ErrCells ErrNoSpace}"

lemma finish_fill_ok:
  assumes ok: "tok com n recs xs (Suc k) t" and q: "in_use (t_pgr t) xs q" and f: "frame_at (t_pgr t) (ucast q) = Some f"
    and b: "r = (b, Inr ()) \<and> length b = p_pageSize (t_pgr t) \<or> r = (b, Inl (ErrCells ErrNoSpace))"
    and res: "finish_fill q r t = (t', res)"
  shows "res \<in> Inr ` {()} \<union> Inl ` write_errors"
    "res = Inr () \<Longrightarrow> tok com n recs xs k t' \<and> keeps {q} (t_pgr t) xs (t_pgr t') xs \<and> same_cells b (content (t_pgr t') (ucast q))
      \<and> t' = t\<lparr>t_pgr := t_pgr t'\<rparr> \<and> p_hdr (t_pgr t') = p_hdr (t_pgr t)"
proof -
  show "res \<in> Inr ` {()} \<union> Inl ` write_errors" using b res by (auto simp: finish_fill_def)
  assume i: "res = Inr ()"
  then have r: "r = (b, Inr ())" and l: "length b = p_pageSize (t_pgr t)" using b res by (auto simp: finish_fill_def)
  let ?m = "mark q b t"
  have t': "t' = unpin q ?m" using res r by (simp add: finish_fill_def)
  note m = mark_ok[OF ok q f l] and u = readsD[OF reads_unpin[of ?m q]]
  have qs: "unat q < cnt (t_pgr ?m)" using q m(4) by (simp add: in_use_def)
  have "keeps {q} (t_pgr t) xs (t_pgr t') xs"
    unfolding t' using m(2) u(1,2,4,12) by (auto simp: keeps_def in_use_def)
  moreover have "tok com n recs xs k t'" unfolding t' using m(1) by (rule u(11))
  moreover have "same_cells b (content (t_pgr t') (ucast q))" unfolding t' using m(3) u(4)[of "ucast q"] qs by simp
  ultimately show "tok com n recs xs k t' \<and> keeps {q} (t_pgr t) xs (t_pgr t') xs \<and> same_cells b (content (t_pgr t') (ucast q))
      \<and> t' = t\<lparr>t_pgr := t_pgr t'\<rparr> \<and> p_hdr (t_pgr t') = p_hdr (t_pgr t)" using u(1) m(4) by (simp add: t' unpin_def mark_def)
qed

text \<open>The root the header names; only a new root of the tree changes it.\<close>

abbreviation croot :: "BTree \<Rightarrow> u32" where
  "croot t \<equiv> CatalogRoot (p_hdr (t_pgr t))"

definition writes_page :: "(u64 \<Rightarrow> bytes) \<Rightarrow> nat \<Rightarrow> (PageImage \<times> u32) list \<Rightarrow> u32 list \<Rightarrow> nat \<Rightarrow> BTree \<Rightarrow> u32 \<Rightarrow> (bytes \<Rightarrow> bool)
    \<Rightarrow> BTree \<times> (btree_error + unit) \<Rightarrow> bool" where
  "writes_page com n recs xs k t q P r \<longleftrightarrow> snd r \<in> Inr ` {()} \<union> Inl ` write_errors
     \<and> (snd r = Inr () \<longrightarrow> tok com n recs xs k (fst r) \<and> keeps {q} (t_pgr t) xs (t_pgr (fst r)) xs
          \<and> P (content (t_pgr (fst r)) (ucast q)) \<and> fst r = t\<lparr>t_pgr := t_pgr (fst r)\<rparr> \<and> croot (fst r) = croot t)"

lemma keeps_reads: "reads t t' \<Longrightarrow> keeps {} (t_pgr t) xs (t_pgr t') xs"
  using readsD by (simp add: keeps_def in_use_def)

lemma rewrite_page:
  assumes ok: "tok com n recs xs (Suc k) t" and q: "in_use (t_pgr t) xs q"
    and fill: "\<And>c b. page_len b \<Longrightarrow> \<exists>b'. fill c b = (b', Inr ()) \<and> Q b' \<and> length b' = length b \<or> fill c b = (b', Inl (ErrCells ErrNoSpace))"
    and Q: "\<And>b b'. Q b \<Longrightarrow> same_cells b b' \<Longrightarrow> Q b'"
  shows "writes_page com n recs xs k t q Q (andThen (on_pager (Fetch (ucast q)) t) (\<lambda>buf t. finish_fill q (fill (t_collID t) buf) t))"
proof -
  let ?b = "content (t_pgr t) (ucast q)"
  have qc: "unat q < cnt (t_pgr t)" using q by (simp add: in_use_def)
  obtain t1 r where r: "on_pager (Fetch (ucast q)) t = (t1, r)" by (cases "on_pager (Fetch (ucast q)) t")
  have rd: "reads t t1" and rr: "r = Inl (ErrPager ErrPoolExhausted) \<or> r = Inr ?b \<and> (\<exists>f. frame_at (t_pgr t1) (ucast q) = Some f)"
    using fetch_page[OF ok, of "ucast q"] qc r by auto
  note D = readsD[OF rd]
  from rr show ?thesis
  proof
    assume "r = Inl (ErrPager ErrPoolExhausted)"
    then show ?thesis by (simp add: r writes_page_def)
  next
    assume "r = Inr ?b \<and> (\<exists>f. frame_at (t_pgr t1) (ucast q) = Some f)"
    then obtain f where f: "r = Inr ?b" "frame_at (t_pgr t1) (ucast q) = Some f" by blast
    have l: "length ?b = p_pageSize (t_pgr t)" "page_len ?b" using tok_page_len[OF ok, of "ucast q"] qc by auto
    obtain b' where b': "fill (t_collID t1) ?b = (b', Inr ()) \<and> Q b' \<and> length b' = length ?b \<or> fill (t_collID t1) ?b = (b', Inl (ErrCells ErrNoSpace))"
      using fill[OF l(2), of "t_collID t1"] by blast
    obtain t' res where tr: "finish_fill q (fill (t_collID t1) ?b) t1 = (t', res)" by (cases "finish_fill q (fill (t_collID t1) ?b) t1")
    have q1: "in_use (t_pgr t1) xs q" using q D(12) by simp
    have c: "fill (t_collID t1) ?b = (b', Inr ()) \<and> length b' = p_pageSize (t_pgr t1) \<or> fill (t_collID t1) ?b = (b', Inl (ErrCells ErrNoSpace))"
      using b' l(1) D(2) by auto
    note F = finish_fill_ok[OF D(11)[OF ok] q1 f(2) c tr]
    have "Q (content (t_pgr t') (ucast q))" if "res = Inr ()"
      using F(2)[OF that] b' Q tr that by (auto simp: finish_fill_def)
    moreover have "keeps {q} (t_pgr t) xs (t_pgr t') xs" if "res = Inr ()"
      using keeps_trans[OF keeps_reads[OF rd]] F(2)[OF that] by fastforce
    moreover have "t' = t\<lparr>t_pgr := t_pgr t'\<rparr>" if "res = Inr ()"
      using F(2)[OF that] rd by (auto simp: reads_def)
    ultimately show ?thesis using F D(1) by (simp add: r f(1) tr writes_page_def)
  qed
qed

lemma writeLeaf_ok:
  assumes "tok com n recs xs (Suc k) t" "in_use (t_pgr t) xs q"
  shows "writes_page com n recs xs k t q (\<lambda>b. leaf_page b ks rs) (writeLeaf q ks rs t)"
  unfolding writeLeaf_def
proof (rule rewrite_page[OF assms, where fill = "\<lambda>c b. fillLeaf b c ks rs"])
  show "\<exists>b'. fillLeaf b c ks rs = (b', Inr ()) \<and> leaf_page b' ks rs \<and> length b' = length b
      \<or> fillLeaf b c ks rs = (b', Inl (ErrCells ErrNoSpace))" if "page_len b" for b c
    using fillLeaf_ok[OF that, of ks c rs] by (auto split: if_splits)
qed (rule same_cells_node(1))

lemma writeInterior_ok:
  assumes "tok com n recs xs (Suc k) t" "in_use (t_pgr t) xs q"
  shows "writes_page com n recs xs k t q (\<lambda>b. interior_page b es) (writeInterior q es t)"
  unfolding writeInterior_def
proof (rule rewrite_page[OF assms, where fill = "\<lambda>c b. fillInterior b c es"])
  show "\<exists>b'. fillInterior b c es = (b', Inr ()) \<and> interior_page b' es \<and> length b' = length b
      \<or> fillInterior b c es = (b', Inl (ErrCells ErrNoSpace))" if "page_len b" for b c
    using fillInterior_ok[OF that, of es c] by (auto split: if_splits)
qed (rule same_cells_node(2))

text \<open>An error that leaves every page as it was: the pool was exhausted before anything was written.\<close>

definition clean :: "BTree \<Rightarrow> BTree \<times> (btree_error + 'a) \<Rightarrow> bool" where
  "clean t r \<longleftrightarrow> (\<forall>e. snd r = Inl e \<longrightarrow> e = ErrPager ErrPoolExhausted \<and> reads t (fst r))"

lemma clean_reads: "reads t u \<Longrightarrow> clean u r \<Longrightarrow> clean t r"
  using reads_trans by (auto simp: clean_def)

lemma clean_full: "reads t t' \<Longrightarrow> clean t (t', Inl (ErrPager ErrPoolExhausted))"
  by (simp add: clean_def)

lemma clean_Inr [simp]: "clean t (t', Inr x)"
  by (simp add: clean_def)

lemma writeLeaf_clean:
  assumes ok: "tok com n recs xs k t" and q: "unat q < cnt (t_pgr t)" and z: "cells_size ks + 36 \<le> p_pageSize (t_pgr t)"
  shows "clean t (writeLeaf q ks rs t)"
proof -
  let ?b = "content (t_pgr t) (ucast q)"
  obtain t1 r where r: "on_pager (Fetch (ucast q)) t = (t1, r)" by (cases "on_pager (Fetch (ucast q)) t")
  have rr: "reads t t1" "r = Inl (ErrPager ErrPoolExhausted) \<or> r = Inr ?b" using fetch_page[OF ok, of "ucast q"] q r by auto
  have l: "length ?b = p_pageSize (t_pgr t)" "page_len ?b" using tok_page_len[OF ok, of "ucast q"] q by auto
  have "cells_size ks \<le> blen ?b" using l(1) z by simp
  then obtain b' where "fillLeaf ?b (t_collID t1) ks rs = (b', Inr ())" using fillLeaf_ok[OF l(2), of ks "t_collID t1" rs] by auto
  then show ?thesis using rr r by (auto simp: writeLeaf_def finish_fill_def clean_full)
qed

section \<open>Allocating\<close>

text \<open>A new node: a page that was not in use, holding what was written.\<close>

definition adds_page :: "(u64 \<Rightarrow> bytes) \<Rightarrow> nat \<Rightarrow> (PageImage \<times> u32) list \<Rightarrow> u32 list \<Rightarrow> nat \<Rightarrow> BTree \<Rightarrow> (bytes \<Rightarrow> bool)
    \<Rightarrow> BTree \<times> (btree_error + u32) \<Rightarrow> bool" where
  "adds_page com n recs xs k t P r \<longleftrightarrow>
     (case snd r of
        Inl e \<Rightarrow> e \<in> write_errors
      | Inr q \<Rightarrow> \<not> in_use (t_pgr t) xs q \<and> (\<exists>xs'. tok com n recs xs' k (fst r) \<and> keeps {} (t_pgr t) xs (t_pgr (fst r)) xs'
          \<and> in_use (t_pgr (fst r)) xs' q \<and> P (content (t_pgr (fst r)) (ucast q)) \<and> fst r = t\<lparr>t_pgr := t_pgr (fst r)\<rparr> \<and> croot (fst r) = croot t))"

lemma Allocate_in_use:
  assumes ok: "tok com n recs xs (Suc (Suc k)) t" and a: "Allocate (t_pgr t) = (p', Inr (pid, b))"
  shows "\<not> in_use (t_pgr t) xs (ucast pid) \<and> (\<exists>xs' f. tok com n recs xs' (Suc k) (t\<lparr>t_pgr := p'\<rparr>) \<and> keeps {} (t_pgr t) xs p' xs'
    \<and> in_use p' xs' (ucast pid) \<and> frame_at p' (ucast (ucast pid :: u32)) = Some f \<and> page_len b \<and> length b = p_pageSize p')
    \<and> CatalogRoot (p_hdr p') = CatalogRoot (p_hdr (t_pgr t))"
proof -
  let ?p = "t_pgr t" let ?q = "ucast pid :: u32"
  have p: "pager_ok com n recs ?p" "free_list ?p xs" "lsn_room (Suc (Suc (4 * k + 6))) ?p" "Suc (cnt ?p) < 2 ^ 32" and g: "geometry t"
    and c: "cnt ?p + Suc (Suc k) < 2 ^ 32"
    using ok by (simp_all add: tok_def room_def)
  show ?thesis
  proof (rule Allocate_cases[OF p], goal_cases)
    case (1 p')
    then show ?case using a by simp
  next
    case (2 p'' pid' f xs')
    then have e: "p'' = p'" "pid' = pid" "fr_Buf f = b" using a by auto
    note c2 = 2[unfolded e]
    have ps: "p_pageSize p' = p_pageSize ?p" using c2(4) by (simp add: kept_def)
    have d: "distinct xs" using p(2) by (auto simp: free_list_def intro: free_chain_distinct)
    have pc: "cnt p' \<le> Suc (cnt ?p)" "cnt ?p \<le> cnt p'" "unat pid < cnt p'"
      using c2(10) free_listD(3)[OF p(2)] by auto
    then have bk: "ucast ?q = pid" "unat ?q = unat pid" using page_ucast[of pid "PageCount (p_hdr p')"] by auto
    have sub: "set xs' \<subseteq> set xs" using c2(10) by auto
    have nq: "\<not> in_use ?p xs ?q" using c2(10) bk(2) by (auto simp: in_use_def)
    have "?q \<noteq> 0" using bk(1) c2(9) by auto
    moreover have "?q \<notin> set xs'" using c2(10) d by auto
    ultimately have iq: "in_use p' xs' ?q" using pc(3) bk(2) by (simp add: in_use_def)
    have "keeps {} ?p xs p' xs'"
    proof -
      have "content p' (ucast r) = content ?p (ucast r) \<and> in_use p' xs' r" if r: "in_use ?p xs r" for r
      proof -
        have "ucast r \<noteq> pid" using r nq bk(1) by auto
        then show ?thesis using r c2(8) sub pc(2) by (auto simp: in_use_def)
      qed
      then show ?thesis using ps by (simp add: keeps_def)
    qed
    moreover have "tok com n recs xs' (Suc k) (t\<lparr>t_pgr := p'\<rparr>)"
      using c2(2,3,7) g ps c pc(1) by (simp add: tok_def room_def lsn_room_def geometry_def)
    moreover have "length b = p_pageSize p'" "page_len b"
    proof -
      have k: "pages_ok 0 (cnt p') com n recs p'" using c2(2) by (simp add: pager_ok_def)
      show l: "length b = p_pageSize p'" using pages_okD(5)[OF k c2(5)] e(3) by (simp add: frame_ok_def)
      show "page_len b" using pages_okD(16)[OF k] l by (auto simp: page_len_def valid_size_def)
    qed
    ultimately show ?case using nq iq c2 bk(1) by auto
  qed
qed

lemma alloc_page:
  assumes ok: "tok com n recs xs (Suc (Suc k)) t"
    and fill: "\<And>c b. page_len b \<Longrightarrow> \<exists>b'. fill c b = (b', Inr ()) \<and> Q b' \<and> length b' = length b \<or> fill c b = (b', Inl (ErrCells ErrNoSpace))"
    and Q: "\<And>b b'. Q b \<Longrightarrow> same_cells b b' \<Longrightarrow> Q b'"
  shows "adds_page com n recs xs k t Q (andThen (on_pager Allocate t) (\<lambda>(pid, buf) t.
       andThen (finish_fill (ucast pid) (fill (t_collID t) buf) t) (\<lambda>_ t. (t, Inr (ucast pid)))))"
proof (cases "Allocate (t_pgr t)")
  case (Pair p' r)
  have p: "pager_ok com n recs (t_pgr t)" "free_list (t_pgr t) xs" "lsn_room (Suc (Suc (4 * k + 6))) (t_pgr t)" "Suc (cnt (t_pgr t)) < 2 ^ 32"
    using ok by (simp_all add: tok_def room_def)
  show ?thesis
  proof (cases r)
    case (Inl e)
    have "e = ErrPoolExhausted" by (rule Allocate_cases[OF p]) (use Pair Inl in auto)
    then show ?thesis by (simp add: on_pager_def Pair Inl adds_page_def)
  next
    case (Inr pb)
    obtain pid b where pb: "pb = (pid, b)" by (cases pb)
    let ?t = "t\<lparr>t_pgr := p'\<rparr>" let ?q = "ucast pid :: u32"
    obtain xs' f where A: "\<not> in_use (t_pgr t) xs ?q" "tok com n recs xs' (Suc k) ?t" "keeps {} (t_pgr t) xs p' xs'" "in_use p' xs' ?q"
        "frame_at p' (ucast ?q) = Some f" "page_len b" "length b = p_pageSize p'"
        "CatalogRoot (p_hdr p') = croot t"
      using Allocate_in_use[OF ok] Pair Inr pb by blast
    obtain b' where b': "fill (t_collID t) b = (b', Inr ()) \<and> Q b' \<and> length b' = length b \<or> fill (t_collID t) b = (b', Inl (ErrCells ErrNoSpace))"
      using fill[OF A(6), of "t_collID t"] by blast
    obtain t' res where tr: "finish_fill ?q (fill (t_collID t) b) ?t = (t', res)" by (cases "finish_fill ?q (fill (t_collID t) b) ?t")
    have c: "fill (t_collID t) b = (b', Inr ()) \<and> length b' = p_pageSize (t_pgr ?t) \<or> fill (t_collID t) b = (b', Inl (ErrCells ErrNoSpace))"
      using b' A(7) by auto
    have q: "in_use (t_pgr ?t) xs' ?q" "frame_at (t_pgr ?t) (ucast ?q) = Some f" using A(4,5) by simp_all
    note F = finish_fill_ok[OF A(2) q c tr]
    show ?thesis
    proof (cases res)
      case (Inl e)
      then show ?thesis using F(1) by (simp add: on_pager_def Pair Inr pb tr adds_page_def)
    next
      case i: (Inr u)
      then have G: "tok com n recs xs' k t'" "keeps {?q} p' xs' (t_pgr t') xs'" "same_cells b' (content (t_pgr t') (ucast ?q))"
          "t' = t\<lparr>t_pgr := t_pgr t'\<rparr>" "croot t' = croot t" using F(2) A(8) by auto
      have "Q b'" using b' tr i by (auto simp: finish_fill_def)
      then have "Q (content (t_pgr t') (ucast ?q))" using G(3) Q by blast
      moreover have "keeps {} (t_pgr t) xs (t_pgr t') xs'" using A(1,3) G(2) by (auto simp: keeps_def)
      moreover have "in_use (t_pgr t') xs' ?q" using keepsD(1)[OF G(2) A(4)] .
      ultimately show ?thesis using A(1) G(1,4,5) i by (auto simp: on_pager_def Pair Inr pb tr adds_page_def)
    qed
  qed
qed

lemma newLeaf_ok:
  assumes "tok com n recs xs (Suc (Suc k)) t"
  shows "adds_page com n recs xs k t (\<lambda>b. leaf_page b ks rs) (newLeaf ks rs t)"
  unfolding newLeaf_def
proof (rule alloc_page[OF assms, where fill = "\<lambda>c b. fillLeaf b c ks rs"])
  show "\<exists>b'. fillLeaf b c ks rs = (b', Inr ()) \<and> leaf_page b' ks rs \<and> length b' = length b
      \<or> fillLeaf b c ks rs = (b', Inl (ErrCells ErrNoSpace))" if "page_len b" for b c
    using fillLeaf_ok[OF that, of ks c rs] by (auto split: if_splits)
qed (rule same_cells_node(1))

lemma newInterior_ok:
  assumes "tok com n recs xs (Suc (Suc k)) t"
  shows "adds_page com n recs xs k t (\<lambda>b. interior_page b es) (newInterior es t)"
  unfolding newInterior_def
proof (rule alloc_page[OF assms, where fill = "\<lambda>c b. fillInterior b c es"])
  show "\<exists>b'. fillInterior b c es = (b', Inr ()) \<and> interior_page b' es \<and> length b' = length b
      \<or> fillInterior b c es = (b', Inl (ErrCells ErrNoSpace))" if "page_len b" for b c
    using fillInterior_ok[OF that, of es c] by (auto split: if_splits)
qed (rule same_cells_node(2))

end
