(* ===== verification/Btree_Levels.thy ===== *)
theory Btree_Levels
  imports Btree_Node
begin

text \<open>
  The shape of the tree, level by level. A level is a list of nodes, each with its page and the fences
  of its children; a fence is the lower bound of a subtree and the page of its root. The fences of a
  level are the children of the level above, in order. The lowest fences are those of the leaves.
\<close>

section \<open>Fences and levels\<close>

type_synonym fence = "bytes \<times> u32"
type_synonym level = "(u32 \<times> fence list) list"

text \<open>The entries of an interior page: the first separator is left empty.\<close>

definition ents_of :: "fence list \<Rightarrow> intEntry list" where
  "ents_of g = \<lparr>sep = [], child = snd (hd g)\<rparr> # map (\<lambda>x. \<lparr>sep = fst x, child = snd x\<rparr>) (tl g)"

definition node_fence :: "u32 \<times> fence list \<Rightarrow> fence" where
  "node_fence x = (fst (hd (snd x)), fst x)"

abbreviation children :: "level \<Rightarrow> fence list" where
  "children gs \<equiv> concat (map snd gs)"

definition nodes_ok :: "(u32 \<Rightarrow> bytes) \<Rightarrow> level \<Rightarrow> bool" where
  "nodes_ok c gs \<longleftrightarrow> (\<forall>x \<in> set gs. snd x \<noteq> [] \<and> interior_page (c (fst x)) (ents_of (snd x)))"

fun spine :: "(u32 \<Rightarrow> bytes) \<Rightarrow> fence list \<Rightarrow> level list \<Rightarrow> fence list \<Rightarrow> bool" where
  "spine c us [] fs \<longleftrightarrow> us = fs"
| "spine c us (gs # gss) fs \<longleftrightarrow> us = map node_fence gs \<and> nodes_ok c gs \<and> spine c (children gs) gss fs"

definition ordered :: "fence list \<Rightarrow> bool" where
  "ordered fs \<longleftrightarrow> fs \<noteq> [] \<and> fst (hd fs) = [] \<and> sorted_wrt (<) (map fst fs)"

text \<open>The fence a key belongs to.\<close>

definition owns :: "bytes \<Rightarrow> fence list \<Rightarrow> fence list \<Rightarrow> fence \<Rightarrow> fence list \<Rightarrow> bool" where
  "owns key fs A x B \<longleftrightarrow> fs = A @ x # B \<and> fst x \<le> key \<and> (\<forall>y \<in> set B. key < fst y)"

definition on_path :: "bytes \<Rightarrow> level \<Rightarrow> u32 \<Rightarrow> bool" where
  "on_path key gs q \<longleftrightarrow>
     (\<exists>GA g GB. gs = GA @ (q, g) # GB \<and> fst (hd g) \<le> key \<and> (\<forall>x \<in> set GB. key < fst (node_fence x)))"

definition level_pages :: "level list \<Rightarrow> u32 list" where
  "level_pages gss = concat (map (map fst) gss)"

lemma level_pages_simps [simp]: "level_pages [] = []" "level_pages (gs # gss) = map fst gs @ level_pages gss"
  "level_pages (gss @ hss) = level_pages gss @ level_pages hss"
  by (simp_all add: level_pages_def)

lemma spine_append: "spine c us (gss @ hss) fs \<longleftrightarrow> (\<exists>ms. spine c us gss ms \<and> spine c ms hss fs)"
  by (induction gss arbitrary: us) auto

lemma spine_cong:
  assumes "spine c us gss fs" "\<And>q. q \<in> set (level_pages gss) \<Longrightarrow> c' q = c q"
  shows "spine c' us gss fs"
  using assms by (induction gss arbitrary: us) (auto simp: nodes_ok_def)

section \<open>Order\<close>

lemma node_fences_sorted:
  assumes "sorted_wrt (<) (map fst (children gs))" "\<forall>x \<in> set gs. snd x \<noteq> []"
  shows "sorted_wrt (<) (map fst (map node_fence gs))"
  using assms
proof (induction gs)
  case (Cons x gs)
  have "fst (hd (snd x)) < fst (hd (snd y))" if "y \<in> set gs" for y
  proof -
    have "hd (snd x) \<in> set (snd x)" "hd (snd y) \<in> set (snd y)" using Cons.prems(2) that by auto
    then show ?thesis using Cons.prems(1) that by (fastforce simp: sorted_wrt_append)
  qed
  then show ?case using Cons by (auto simp: sorted_wrt_append node_fence_def)
qed simp

lemma ordered_up:
  assumes "ordered (children gs)" "nodes_ok c gs"
  shows "ordered (map node_fence gs)"
proof -
  have ne: "\<forall>x \<in> set gs. snd x \<noteq> []" using assms(2) by (auto simp: nodes_ok_def)
  obtain x xs where gs: "gs = x # xs" using assms(1) by (cases gs) (auto simp: ordered_def)
  then have "fst (hd (snd x)) = []" using assms(1) ne by (simp add: ordered_def)
  then show ?thesis using node_fences_sorted[OF _ ne] assms(1) gs by (simp add: ordered_def node_fence_def)
qed

lemma spine_ordered: "spine c us gss fs \<Longrightarrow> ordered fs \<Longrightarrow> ordered us"
  by (induction gss arbitrary: us) (auto intro: ordered_up)

lemma above_dropWhile:
  fixes key :: "'a::linorder"
  shows "sorted_wrt (<) (map fst fs) \<Longrightarrow> y \<in> set (dropWhile (\<lambda>x. fst x \<le> key) fs) \<Longrightarrow> key < fst y"
  by (induction fs) (auto split: if_splits)

lemma ordered_owns:
  assumes "ordered fs"
  obtains A x B where "owns key fs A x B"
proof -
  have s: "sorted_wrt (<) (map fst fs)" and e: "fst (hd fs) = []" "fs \<noteq> []" using assms by (auto simp: ordered_def)
  let ?T = "takeWhile (\<lambda>y. fst y \<le> key) fs" let ?D = "dropWhile (\<lambda>y. fst y \<le> key) fs"
  have "?T \<noteq> []" using e by (cases fs) auto
  then have "fs = (butlast ?T @ [last ?T]) @ ?D" by (subst append_butlast_last_id) simp_all
  then have fs: "fs = butlast ?T @ last ?T # ?D" by simp
  have l: "fst (last ?T) \<le> key" using \<open>?T \<noteq> []\<close> set_takeWhileD by (metis last_in_set)
  have "key < fst y" if "y \<in> set ?D" for y using above_dropWhile[OF s that] .
  then show ?thesis using that fs l unfolding owns_def by blast
qed

section \<open>Descent, one level\<close>

lemma child_index_takeWhile: "child_index es (Suc i) i key = i + length (takeWhile (\<lambda>e. sep e \<le> key) es)"
  by (induction es arbitrary: i) auto

text \<open>The owner of a key is where a search in the node that owns it ends.\<close>

lemma node_search:
  fixes key :: bytes
  assumes s: "sorted_wrt (<) (map fst g)" and g: "g \<noteq> []" and l: "fst (hd g) \<le> key"
  defines "m \<equiv> length (takeWhile (\<lambda>x. fst x \<le> key) (tl g))"
  shows "m < length g" "fst (g ! m) \<le> key" "\<forall>y \<in> set (drop (Suc m) g). key < fst y"
proof -
  have "m \<le> length g - 1" using length_takeWhile_le[of "\<lambda>x. fst x \<le> key" "tl g"] by (simp add: m_def)
  moreover have "0 < length g" using g by simp
  ultimately show ml: "m < length g" by linarith
  show "fst (g ! m) \<le> key"
  proof (cases m)
    case 0
    then show ?thesis using l g by (simp add: hd_conv_nth)
  next
    case (Suc j)
    then have "g ! m = tl g ! j" using ml g by (simp add: nth_tl)
    also have "\<dots> = takeWhile (\<lambda>x. fst x \<le> key) (tl g) ! j" using Suc by (simp add: takeWhile_nth m_def)
    finally show ?thesis using Suc unfolding m_def by (metis lessI nth_mem set_takeWhileD)
  qed
  have st: "sorted_wrt (<) (map fst (tl g))" using s g by (cases g) auto
  have "drop (Suc m) g = dropWhile (\<lambda>x. fst x \<le> key) (tl g)" by (simp add: m_def drop_Suc dropWhile_eq_drop)
  then show "\<forall>y \<in> set (drop (Suc m) g). key < fst y" using above_dropWhile[OF st] by simp
qed

lemma children_above:
  fixes key :: bytes
  assumes s: "sorted_wrt (<) (map fst (children GB))" and GB: "\<forall>x \<in> set GB. key < fst (node_fence x)" and y: "y \<in> set (children GB)"
  shows "key < fst y"
proof -
  obtain x where x: "x \<in> set GB" "y \<in> set (snd x)" using y by auto
  obtain h hs where hs: "snd x = h # hs" using x(2) by (cases "snd x") auto
  obtain us vs where "GB = us @ x # vs" using x(1) by (auto simp: in_set_conv_decomp)
  then have "sorted_wrt (<) (map fst (snd x))" using s by (simp add: sorted_wrt_append)
  then have "fst h \<le> fst y" using x(2) hs by (auto simp: less_imp_le)
  then show ?thesis using GB x(1) hs by (auto simp: node_fence_def)
qed

lemma node_owns:
  assumes s: "sorted_wrt (<) (map fst (children (GA @ (q, g) # GB)))" and g: "g \<noteq> []" "fst (hd g) \<le> key"
    and GB: "\<forall>x \<in> set GB. key < fst (node_fence x)"
  defines "m \<equiv> length (takeWhile (\<lambda>x. fst x \<le> key) (tl g))"
  shows "m < length g" "owns key (children (GA @ (q, g) # GB)) (children GA @ take m g) (g ! m) (drop (Suc m) g @ children GB)"
proof -
  have sg: "sorted_wrt (<) (map fst g)" and sb: "sorted_wrt (<) (map fst (children GB))" using s by (simp_all add: sorted_wrt_append)
  note n = node_search[OF sg g, folded m_def]
  show ml: "m < length g" by (rule n(1))
  have "children (GA @ (q, take m g @ g ! m # drop (Suc m) g) # GB) = (children GA @ take m g) @ g ! m # (drop (Suc m) g @ children GB)"
    by simp
  then have "children (GA @ (q, g) # GB) = (children GA @ take m g) @ g ! m # (drop (Suc m) g @ children GB)"
    unfolding id_take_nth_drop[OF ml, symmetric] .
  then show "owns key (children (GA @ (q, g) # GB)) (children GA @ take m g) (g ! m) (drop (Suc m) g @ children GB)"
    using n(2,3) children_above[OF sb GB] by (auto simp: owns_def)
qed

lemma owns_unique:
  assumes "owns key fs A x B" "owns key fs A' x' B'"
  shows "A = A' \<and> x = x' \<and> B = B'"
proof -
  have e: "A @ x # B = A' @ x' # B'" using assms by (simp add: owns_def)
  have "length A = length A'"
  proof (rule ccontr)
    assume "length A \<noteq> length A'"
    then have "x' \<in> set B \<or> x \<in> set B'" using e by (auto simp: append_eq_append_conv2 Cons_eq_append_conv append_eq_Cons_conv)
    then show False using assms unfolding owns_def by (meson leD)
  qed
  then show ?thesis using e by simp
qed

lemma owns_node:
  assumes "owns key (map node_fence gs) A x B"
  obtains GA g GB where "gs = GA @ (snd x, g) # GB" "fst x = fst (hd g)" "fst (hd g) \<le> key" "\<forall>y \<in> set GB. key < fst (node_fence y)"
    "map node_fence GA = A" "map node_fence GB = B"
proof -
  have sp: "map node_fence gs = A @ x # B" "fst x \<le> key" "\<forall>y \<in> set B. key < fst y" using assms by (auto simp: owns_def)
  obtain GA rest where gs1: "gs = GA @ rest" "map node_fence GA = A" "map node_fence rest = x # B"
    using sp(1) by (auto simp: map_eq_append_conv)
  obtain gn GB where gs2: "rest = gn # GB" "node_fence gn = x" "map node_fence GB = B" using gs1(3) by (cases rest) auto
  have gn: "gn = (snd x, snd gn)" "fst x = fst (hd (snd gn))" using gs2(2) by (auto simp: node_fence_def prod_eq_iff)
  have gs: "gs = GA @ (snd x, snd gn) # GB" using gs1(1) gs2(1) gn(1) by simp
  have GB: "\<forall>y \<in> set GB. key < fst (node_fence y)" using sp(3) gs2(3) by auto
  show ?thesis by (rule that[OF gs gn(2) _ GB gs1(2) gs2(3)]) (use sp(2) gn(2) in simp)
qed

text \<open>From a node that owns the key, the chosen child owns it one level down.\<close>

lemma descend_node:
  assumes own: "owns key (map node_fence gs) A (l, q) B" and ok: "nodes_ok c gs" and ord: "ordered (children gs)"
  obtains g A' x B' where "on_path key gs q" "interior_page (c q) (ents_of g)" "g \<noteq> []" "(q, g) \<in> set gs"
    "owns key (children gs) A' x B'" "child (ents_of g ! child_index (tl (ents_of g)) 1 0 key) = snd x"
proof -
  obtain GA g GB where gs: "gs = GA @ (q, g) # GB" and l: "fst (hd g) \<le> key" and GB: "\<forall>x \<in> set GB. key < fst (node_fence x)"
    using owns_node[OF own] by (metis snd_conv)
  have mem: "(q, g) \<in> set gs" using gs by simp
  have g: "g \<noteq> []" "interior_page (c q) (ents_of g)" using ok mem by (auto simp: nodes_ok_def)
  have path: "on_path key gs q" unfolding on_path_def using gs l GB by blast
  have s: "sorted_wrt (<) (map fst (children (GA @ (q, g) # GB)))" using ord unfolding gs ordered_def by blast
  let ?m = "length (takeWhile (\<lambda>x. fst x \<le> key) (tl g))"
  note n = node_owns[OF s g(1) l GB]
  have tl: "tl (ents_of g) = map (\<lambda>x. \<lparr>sep = fst x, child = snd x\<rparr>) (tl g)" by (simp add: ents_of_def)
  have tw: "length (takeWhile (\<lambda>e. sep e \<le> key) (tl (ents_of g))) = ?m" unfolding tl by (simp add: takeWhile_map comp_def)
  have "child (ents_of g ! child_index (tl (ents_of g)) 1 0 key) = snd (g ! ?m)"
    using child_index_takeWhile[of "tl (ents_of g)" 0 key] n(1) g(1) unfolding tw
    by (cases ?m) (auto simp: ents_of_def hd_conv_nth nth_tl)
  then show ?thesis using that[OF path g(2,1) mem] n(2) gs by blast
qed

end
