(* ===== verification/Btree_Search.thy ===== *)
theory Btree_Search
  imports Btree_Levels
begin

text \<open>
  The leaves and the searches: descent to the leaf that owns a key, seeking along the leaf chain and
  point lookup.
\<close>

section \<open>Leaves\<close>

type_synonym leaf = "bytes \<times> u32 \<times> bytes list"

abbreviation fences :: "leaf list \<Rightarrow> fence list" where
  "fences ls \<equiv> map (\<lambda>x. (fst x, fst (snd x))) ls"

definition all_keys :: "leaf list \<Rightarrow> bytes list" where
  "all_keys ls = concat (map (snd \<circ> snd) ls)"

definition chain_head :: "leaf list \<Rightarrow> u32" where
  "chain_head ls = (case ls of [] \<Rightarrow> NullPage | x # _ \<Rightarrow> fst (snd x))"

fun leaf_chain :: "(u32 \<Rightarrow> bytes) \<Rightarrow> leaf list \<Rightarrow> bool" where
  "leaf_chain c [] \<longleftrightarrow> True"
| "leaf_chain c (x # ls) \<longleftrightarrow> leaf_page (c (fst (snd x))) (snd (snd x)) (chain_head ls) \<and> leaf_chain c ls"

fun bounded :: "leaf list \<Rightarrow> bool" where
  "bounded [] \<longleftrightarrow> True"
| "bounded (x # ls) \<longleftrightarrow> sorted_wrt (<) (snd (snd x)) \<and> (\<forall>k \<in> set (snd (snd x)). fst x \<le> k \<and> (\<forall>y \<in> set ls. k < fst y)) \<and> bounded ls"

lemma all_keys_simps [simp]: "all_keys [] = []" "all_keys (x # ls) = snd (snd x) @ all_keys ls"
  "all_keys (ls @ ms) = all_keys ls @ all_keys ms"
  by (simp_all add: all_keys_def)

lemma chain_head_simps [simp]: "chain_head [] = NullPage" "chain_head (x # ls) = fst (snd x)"
  by (simp_all add: chain_head_def)

lemma bounded_append:
  "bounded (ls @ ms) \<longleftrightarrow> bounded ls \<and> bounded ms \<and> (\<forall>k \<in> set (all_keys ls). \<forall>y \<in> set ms. k < fst y)"
  by (induction ls) auto

lemma bounded_lower: "bounded ls \<Longrightarrow> k \<in> set (all_keys ls) \<Longrightarrow> \<exists>x \<in> set ls. fst x \<le> k"
  by (induction ls) auto

lemma bounded_sorted: "bounded ls \<Longrightarrow> sorted_wrt (<) (all_keys ls)"
proof (induction ls)
  case (Cons x ls)
  have "k < k'" if k: "k \<in> set (snd (snd x))" "k' \<in> set (all_keys ls)" for k k'
  proof -
    obtain y where "y \<in> set ls" "fst y \<le> k'" using bounded_lower[of ls k'] Cons.prems k(2) by auto
    then show ?thesis using Cons.prems k(1) by fastforce
  qed
  then show ?case using Cons by (auto simp: sorted_wrt_append)
qed simp

text \<open>The leaf that owns a key splits the keys of the tree.\<close>

lemma owns_leaf:
  assumes own: "owns key (fences ls) A x B" and b: "bounded ls"
  obtains LA ks LB where "ls = LA @ (fst x, snd x, ks) # LB" "\<forall>k \<in> set (all_keys LA). k < key" "\<forall>k \<in> set (all_keys LB). key < k"
    "\<forall>k \<in> set (all_keys LA). k < fst x" "fences LA = A" "fences LB = B"
proof -
  have f: "fences ls = A @ x # B" "fst x \<le> key" "\<forall>y \<in> set B. key < fst y" using own by (auto simp: owns_def)
  obtain LA rest where r: "ls = LA @ rest" "fences LA = A" "fences rest = x # B" using f(1) by (auto simp: map_eq_append_conv)
  obtain y LB where y: "rest = y # LB" "(fst y, fst (snd y)) = x" "fences LB = B" using r(3) by (cases rest) auto
  have ls: "ls = LA @ (fst x, snd x, snd (snd y)) # LB" using r(1) y(1,2) by (cases y) auto
  have lo: "\<forall>k \<in> set (all_keys LA). k < fst x" using b unfolding ls bounded_append by auto
  have "key < k" if k: "k \<in> set (all_keys LB)" for k
  proof -
    have "bounded LB" using b unfolding ls bounded_append by simp
    then obtain z where z: "z \<in> set LB" "fst z \<le> k" using bounded_lower k by blast
    have "(fst z, fst (snd z)) \<in> set B" using z(1) unfolding y(3)[symmetric] by auto
    then show ?thesis using f(3) z(2) by fastforce
  qed
  then show ?thesis using that[OF ls] lo f(2) r(2) y(3) by (meson order_less_le_trans)
qed

section \<open>Descent\<close>

text \<open>The pages \<open>P\<close> of the tree hold \<open>c\<close>.\<close>

definition mirrors :: "BTree \<Rightarrow> (u32 \<Rightarrow> bytes) \<Rightarrow> u32 set \<Rightarrow> bool" where
  "mirrors t c P \<longleftrightarrow> (\<forall>q \<in> P. unat q < cnt (t_pgr t) \<and> content (t_pgr t) (ucast q) = c q)"

lemma mirrors_reads: "mirrors t c P \<Longrightarrow> reads t t' \<Longrightarrow> mirrors t' c P"
  using readsD(1,4)[of t t'] by (auto simp: mirrors_def)

lemma mirrorsD: "mirrors t c P \<Longrightarrow> q \<in> P \<Longrightarrow> unat q < cnt (t_pgr t)" "mirrors t c P \<Longrightarrow> q \<in> P \<Longrightarrow> content (t_pgr t) (ucast q) = c q"
  by (simp_all add: mirrors_def)

lemma in_use_not_null: "unat (q :: u32) < unat (m :: u32) \<Longrightarrow> q \<noteq> NullPage"
  using unsigned_less[of m, where ?'a = nat] by auto

text \<open>A search that may run out of pool, or finds something that satisfies \<open>R\<close>.\<close>

definition finds :: "BTree \<Rightarrow> ('a \<Rightarrow> bool) \<Rightarrow> (BTree \<times> (btree_error + 'a)) option \<Rightarrow> bool" where
  "finds t R r \<longleftrightarrow> (\<exists>t' res. r = Some (t', res) \<and> reads t t' \<and> (res = Inl (ErrPager ErrPoolExhausted) \<or> (\<exists>v. res = Inr v \<and> R v)))"

lemma finds_reads: "reads t t' \<Longrightarrow> finds t' R r \<Longrightarrow> finds t R r"
  unfolding finds_def using reads_trans by blast

lemma finds_full: "reads t t' \<Longrightarrow> finds t R (Some (t', Inl (ErrPager ErrPoolExhausted)))"
  by (simp add: finds_def)

lemma finds_mono: "finds t R r \<Longrightarrow> (\<And>v. R v \<Longrightarrow> S v) \<Longrightarrow> finds t S r"
  by (auto simp: finds_def)

lemma finds_bind:
  assumes "finds t R r" "\<And>v t'. reads t t' \<Longrightarrow> R v \<Longrightarrow> finds t' S (g v t')"
  shows "finds t S (andThenO r g)"
proof -
  obtain t' res where r: "r = Some (t', res)" "reads t t'" "res = Inl (ErrPager ErrPoolExhausted) \<or> (\<exists>v. res = Inr v \<and> R v)"
    using assms(1) by (auto simp: finds_def)
  from r(3) show ?thesis
  proof
    assume "\<exists>v. res = Inr v \<and> R v"
    then obtain v where v: "res = Inr v" "R v" by blast
    show ?thesis using finds_reads[OF r(2) assms(2)[OF r(2) v(2)]] r(1) v(1) by simp
  qed (use r in \<open>auto simp: finds_def\<close>)
qed

definition descent :: "bytes \<Rightarrow> level list \<Rightarrow> fence list \<Rightarrow> u32 list \<Rightarrow> u32 \<times> u32 list \<Rightarrow> bool" where
  "descent key gss fs path r \<longleftrightarrow>
     (\<exists>A y B path'. r = (snd y, path @ path') \<and> list_all2 (on_path key) gss path' \<and> owns key fs A y B)"

lemma descent_step: "descent key gss fs (path @ [q]) r \<Longrightarrow> on_path key gs q \<Longrightarrow> descent key (gs # gss) fs path r"
proof -
  assume "descent key gss fs (path @ [q]) r" "on_path key gs q"
  then obtain A y B path' where "r = (snd y, path @ q # path')" "list_all2 (on_path key) (gs # gss) (q # path')" "owns key fs A y B"
    by (auto simp: descent_def)
  then show ?thesis unfolding descent_def by blast
qed

lemma descend_loop_finds:
  assumes "tok com n recs xs k t" "mirrors t c P" "set (level_pages gss) \<subseteq> P" "snd ` set fs \<subseteq> P"
    and "spine c us gss fs" "ordered fs" "owns key us A x B" "\<forall>y \<in> set fs. \<exists>ks rs. leaf_page (c (snd y)) ks rs"
  shows "finds t (descent key gss fs path)
    (descend_loop key (snd x) path t)"
  using assms
proof (induction gss arbitrary: us A x B path t)
  case Nil
  have x: "x \<in> set fs" "owns key fs A x B" using Nil.prems(5,7) by (auto simp: owns_def)
  then obtain ks rs where lp: "leaf_page (c (snd x)) ks rs" using Nil.prems(8) by blast
  have xP: "snd x \<in> P" using x(1) Nil.prems(4) by auto
  note m = mirrorsD[OF Nil.prems(2) xP]
  have "delivers t PageBTreeLeaf (pageType (snd x) t)"
    using pageType_reads[OF Nil.prems(1) m(1)] lp unfolding m(2) by (simp add: leaf_page_def)
  moreover have "descent key [] fs path (snd x, path)" unfolding descent_def
    by (intro exI[of _ A] exI[of _ x] exI[of _ B] exI[of _ "[]"]) (use x(2) in simp)
  ultimately show ?case by (subst descend_loop.simps) (cases "pageType (snd x) t", auto simp: delivers_def finds_def)
next
  case (Cons gs gss)
  have us: "us = map node_fence gs" and nok: "nodes_ok c gs" and sp: "spine c (children gs) gss fs" using Cons.prems(5) by auto
  have ord: "ordered (children gs)" by (rule spine_ordered[OF sp Cons.prems(6)])
  obtain l q where xq: "x = (l, q)" by (cases x)
  obtain g A' y B' where g: "on_path key gs q" "interior_page (c q) (ents_of g)" "g \<noteq> []" "(q, g) \<in> set gs"
      "owns key (children gs) A' y B'" "child (ents_of g ! child_index (tl (ents_of g)) 1 0 key) = snd y"
    using descend_node[OF _ nok ord, of key A l q B] Cons.prems(7) us xq by metis
  have qP: "q \<in> P" using g(4) Cons.prems(3) by force
  note m = mirrorsD[OF Cons.prems(2) qP]
  obtain t1 r1 where r1: "pageType q t = (t1, r1)" by (cases "pageType q t")
  have d1: "reads t t1" "r1 \<in> {Inl (ErrPager ErrPoolExhausted), Inr PageBTreeInterior}"
    using pageType_reads[OF Cons.prems(1) m(1)] g(2) r1 unfolding m(2) by (auto simp: interior_page_def delivers_def)
  note ok1 = readsD(11)[OF d1(1) Cons.prems(1)] and mir1 = mirrors_reads[OF Cons.prems(2) d1(1)]
  note m1 = mirrorsD[OF mir1 qP]
  obtain t2 r2 where r2: "loadInterior q t1 = (t2, r2)" by (cases "loadInterior q t1")
  have d2: "reads t1 t2" "r2 \<in> {Inl (ErrPager ErrPoolExhausted), Inr (ents_of g)}"
    using loadInterior_reads[OF ok1 m1(1), of "ents_of g"] g(2) r2 unfolding m1(2) by (auto simp: delivers_def)
  note rd = reads_trans[OF d1(1) d2(1)]
  have IH: "finds t2 (descent key gss fs (path @ [q]))
      (descend_loop key (snd y) (path @ [q]) t2)"
    by (rule Cons.IH[OF readsD(11)[OF rd Cons.prems(1)] mirrors_reads[OF Cons.prems(2) rd] _ Cons.prems(4) sp Cons.prems(6) g(5) Cons.prems(8)])
      (use Cons.prems(3) in auto)
  have "finds t2 (descent key (gs # gss) fs path) (descend_loop key (snd y) (path @ [q]) t2)"
    by (rule finds_mono[OF IH]) (rule descent_step[OF _ g(1)])
  note F = finds_reads[OF rd this]
  have ne: "ents_of g \<noteq> []" by (simp add: ents_of_def)
  show ?case using d1(2) d2(2) F finds_full[OF d1(1)] finds_full[OF rd] unfolding xq
    by (subst descend_loop.simps) (auto simp: r1 r2 ne g(6)[unfolded One_nat_def])
qed

section \<open>The invariant of the tree\<close>

definition tree_pages :: "leaf list \<Rightarrow> level list \<Rightarrow> u32 list" where
  "tree_pages ls gss = map (fst \<circ> snd) ls @ level_pages gss"

definition tree :: "(u32 \<Rightarrow> bytes) \<Rightarrow> u32 \<Rightarrow> leaf list \<Rightarrow> level list \<Rightarrow> bool" where
  "tree c root ls gss \<longleftrightarrow> ls \<noteq> [] \<and> leaf_chain c ls \<and> bounded ls \<and> ordered (fences ls)
     \<and> spine c [([], root)] gss (fences ls) \<and> distinct (tree_pages ls gss)"

abbreviation node :: "BTree \<Rightarrow> u32 \<Rightarrow> bytes" where
  "node t q \<equiv> content (t_pgr t) (ucast q)"

definition btree_ok :: "(u64 \<Rightarrow> bytes) \<Rightarrow> nat \<Rightarrow> (PageImage \<times> u32) list \<Rightarrow> u32 list \<Rightarrow> nat \<Rightarrow> BTree \<Rightarrow> leaf list \<Rightarrow> level list \<Rightarrow> bool" where
  "btree_ok com n recs xs k t ls gss \<longleftrightarrow> tok com n recs xs k t
     \<and> (if t_root t = NullPage then ls = [] \<and> gss = [] else tree (node t) (t_root t) ls gss)
     \<and> (\<forall>q \<in> set (tree_pages ls gss). in_use (t_pgr t) xs q)"

lemma leaf_chain_cong: "leaf_chain c ls \<Longrightarrow> (\<And>q. q \<in> (fst \<circ> snd) ` set ls \<Longrightarrow> c' q = c q) \<Longrightarrow> leaf_chain c' ls"
  by (induction ls) auto

lemma leaf_chain_pages: "leaf_chain c ls \<Longrightarrow> y \<in> set (fences ls) \<Longrightarrow> \<exists>ks rs. leaf_page (c (snd y)) ks rs"
proof (induction ls)
  case (Cons x ls)
  then consider "y = (fst x, fst (snd x))" | "y \<in> set (fences ls)" by auto
  then show ?case by cases (use Cons in \<open>simp; blast\<close>)+
qed simp

lemma leaf_chain_append:
  "leaf_chain c (ls @ ms) \<longleftrightarrow> (\<forall>i < length ls. leaf_page (c (fst (snd (ls ! i)))) (snd (snd (ls ! i))) (chain_head (drop (Suc i) ls @ ms))) \<and> leaf_chain c ms"
  by (induction ls) (auto simp: nth_Cons' less_Suc_eq_0_disj split: if_splits)

lemma tree_cong:
  assumes "tree c root ls gss" "\<And>q. q \<in> set (tree_pages ls gss) \<Longrightarrow> c' q = c q"
  shows "tree c' root ls gss"
  using assms leaf_chain_cong[of c ls c'] spine_cong[of c _ gss _ c'] by (auto simp: tree_def tree_pages_def)

lemma btree_mirrors: "btree_ok com n recs xs k t ls gss \<Longrightarrow> mirrors t (node t) (set (tree_pages ls gss))"
  by (auto simp: btree_ok_def mirrors_def in_use_def)

lemma btree_ok_reads:
  assumes "btree_ok com n recs xs k t ls gss" "reads t t'"
  shows "btree_ok com n recs xs k t' ls gss"
proof -
  note m = mirrors_reads[OF btree_mirrors[OF assms(1)] assms(2)]
  then have "tree (node t') (t_root t) ls gss" if "tree (node t) (t_root t) ls gss"
    using tree_cong[OF that] by (simp add: mirrors_def)
  then show ?thesis using assms(1) readsD(5,12)[OF assms(2)] readsD(11)[OF assms(2)] by (simp add: btree_ok_def)
qed

lemma btree_treeD:
  assumes "btree_ok com n recs xs k t ls gss" "t_root t \<noteq> NullPage"
  shows "ls \<noteq> []" "leaf_chain (node t) ls" "bounded ls" "ordered (fences ls)" "spine (node t) [([], t_root t)] gss (fences ls)"
    "distinct (tree_pages ls gss)" "tok com n recs xs k t" "q \<in> set (tree_pages ls gss) \<Longrightarrow> in_use (t_pgr t) xs q"
  using assms by (auto simp: btree_ok_def tree_def)

lemma fences_pages: "snd ` set (fences ls) \<subseteq> set (tree_pages ls gss)"
  by (force simp: tree_pages_def)

lemma descend_finds:
  assumes ok: "btree_ok com n recs xs k t ls gss" and r: "t_root t \<noteq> NullPage"
  shows "finds t (descent key gss (fences ls) []) (descend key t)"
proof -
  note T = btree_treeD[OF ok r]
  have own: "owns key [([], t_root t)] [] ([], t_root t) []" by (simp add: owns_def)
  have "finds t (descent key gss (fences ls) []) (descend_loop key (snd ([] :: bytes, t_root t)) [] t)"
    by (rule descend_loop_finds[OF T(7) btree_mirrors[OF ok] _ _ T(5,4) own])
      (use leaf_chain_pages[OF T(2)] fences_pages[of ls gss] in \<open>auto simp: tree_pages_def\<close>)
  then show ?thesis by (simp add: descend_def)
qed

section \<open>Seeking\<close>

definition stands :: "leaf list \<Rightarrow> bytes list \<Rightarrow> pos \<Rightarrow> bool" where
  "stands ls ks p \<longleftrightarrow> (\<exists>pre y rest. ls = pre @ y # rest \<and> pos_leaf p = fst (snd y) \<and> pos_keys p = snd (snd y)
     \<and> pos_rightSib p = chain_head rest \<and> pos_idx p < length (pos_keys p) \<and> ks = drop (pos_idx p) (pos_keys p) @ all_keys rest)"

text \<open>The position of the first of the keys not below \<open>search\<close>, or past the end when there is none.\<close>

definition sought :: "bytes \<Rightarrow> leaf list \<Rightarrow> pos option \<Rightarrow> bool" where
  "sought search ls r \<longleftrightarrow>
     (let ks = dropWhile (\<lambda>k. k < search) (all_keys ls) in case r of None \<Rightarrow> ks = [] | Some p \<Rightarrow> stands ls ks p)"

lemma takeWhile_less: "length (takeWhile P ks) < length ks \<longleftrightarrow> \<not> (\<forall>k \<in> set ks. P k)"
  by (induction ks) auto

lemma sought_here:
  assumes "length (takeWhile (\<lambda>k. k < search) ks) < length ks"
  shows "sought search ((l, q, ks) # rest) (Some \<lparr>pos_leaf = q, pos_keys = ks, pos_idx = length (takeWhile (\<lambda>k. k < search) ks),
    pos_rightSib = chain_head rest\<rparr>)"
proof -
  let ?i = "length (takeWhile (\<lambda>k. k < search) ks)"
  have d: "dropWhile (\<lambda>k. k < search) ks = drop ?i ks" by (rule dropWhile_eq_drop)
  then have "dropWhile (\<lambda>k. k < search) ks \<noteq> []" using assms by simp
  then have "dropWhile (\<lambda>k. k < search) (ks @ all_keys rest) = drop ?i ks @ all_keys rest"
    unfolding d[symmetric] by (subst dropWhile_append) (auto simp: dropWhile_eq_Nil_conv)
  moreover have "stands ((l, q, ks) # rest) (drop ?i ks @ all_keys rest) \<lparr>pos_leaf = q, pos_keys = ks, pos_idx = ?i, pos_rightSib = chain_head rest\<rparr>"
    unfolding stands_def using assms by (intro exI[of _ "[]"] exI[of _ "(l, q, ks)"] exI[of _ rest]) simp
  ultimately show ?thesis by (simp add: sought_def)
qed

lemma sought_later:
  assumes "\<forall>k \<in> set (snd (snd x)). k < search" "sought search ls r"
  shows "sought search (x # ls) r"
proof -
  have "dropWhile (\<lambda>k. k < search) (all_keys (x # ls)) = dropWhile (\<lambda>k. k < search) (all_keys ls)" using assms(1) by simp
  moreover have "stands (x # ls) ks p" if "stands ls ks p" for ks p using that unfolding stands_def by (metis append_Cons)
  ultimately show ?thesis using assms(2) by (auto simp: sought_def Let_def split: option.splits)
qed

lemma seek_loop_finds:
  assumes "tok com n recs xs k t" "mirrors t c P" "(fst \<circ> snd) ` set (x # rest) \<subseteq> P" "leaf_chain c (x # rest)"
  shows "finds t (sought search (x # rest)) (seek_loop search (fst (snd x)) t)"
  using assms
proof (induction rest arbitrary: x t)
  case (Nil x t)
  obtain l q ks where x: "x = (l, q, ks)" by (cases x)
  let ?i = "length (takeWhile (\<lambda>k. k < search) ks)"
  have q: "q \<in> P" using Nil.prems(3) x by simp
  note m = mirrorsD[OF Nil.prems(2) q]
  obtain t1 r1 where r1: "loadLeaf q t = (t1, r1)" by (cases "loadLeaf q t")
  have d1: "reads t t1" "r1 \<in> {Inl (ErrPager ErrPoolExhausted), Inr (ks, NullPage)}"
    using loadLeaf_reads[OF Nil.prems(1) m(1), of ks NullPage] Nil.prems(4) r1 x unfolding m(2) by (auto simp: delivers_def)
  have n: "sought search [(l, q, ks)] None" if "\<not> ?i < length ks"
    using that by (simp add: sought_def takeWhile_less)
  show ?case using d1(2) finds_full[OF d1(1)] d1(1) sought_here[of search ks l q "[]"] n unfolding x
    by (subst seek_loop.simps) (auto simp: r1 finds_def Let_def)
next
  case (Cons y rest)
  obtain l q ks where x: "x = (l, q, ks)" by (cases x)
  let ?i = "length (takeWhile (\<lambda>k. k < search) ks)" let ?y = "fst (snd y)"
  have q: "q \<in> P" "?y \<in> P" using Cons.prems(3) x by auto
  note m = mirrorsD[OF Cons.prems(2) q(1)]
  have ny: "?y \<noteq> NullPage" using mirrorsD(1)[OF Cons.prems(2) q(2)] by (rule in_use_not_null)
  obtain t1 r1 where r1: "loadLeaf q t = (t1, r1)" by (cases "loadLeaf q t")
  have d1: "reads t t1" "r1 \<in> {Inl (ErrPager ErrPoolExhausted), Inr (ks, ?y)}"
    using loadLeaf_reads[OF Cons.prems(1) m(1), of ks ?y] Cons.prems(4) r1 x unfolding m(2) by (auto simp: delivers_def)
  have "finds t1 (sought search (y # rest)) (seek_loop search ?y t1)"
    by (rule Cons.IH[OF readsD(11)[OF d1(1) Cons.prems(1)] mirrors_reads[OF Cons.prems(2) d1(1)]]) (use Cons.prems(3,4) in auto)
  note F = finds_reads[OF d1(1) this]
  have L: "finds t (sought search (x # y # rest)) (seek_loop search ?y t1)" if "\<not> ?i < length ks"
    by (rule finds_mono[OF F]) (use that x in \<open>auto simp: takeWhile_less intro!: sought_later\<close>)
  have H: "finds t (sought search (x # y # rest)) (Some (t1, Inr (Some \<lparr>pos_leaf = q, pos_keys = ks, pos_idx = ?i, pos_rightSib = ?y\<rparr>)))"
    if "?i < length ks" using sought_here[OF that, of l q "y # rest"] d1(1) x by (auto simp: finds_def)
  show ?case using d1(2) finds_full[OF d1(1)] L H ny unfolding x
    by (subst seek_loop.simps) (auto simp: r1 Let_def)
qed

end
