(* ===== verification/Btree_Insert.thy ===== *)
theory Btree_Insert
  imports Btree_Search
begin

text \<open>
  Insertion: a new fence under a node, splits up the path and the growth of a new root, the split of a
  leaf, and the whole of \<^verbatim>\<open>Put\<close> and \<^verbatim>\<open>Delete\<close>.
\<close>

section \<open>Entries of a node\<close>

lemma length_ents_of [simp]: "g \<noteq> [] \<Longrightarrow> length (ents_of g) = length g"
  by (simp add: ents_of_def)

lemma ents_of_nth:
  assumes "i < length g"
  shows "ents_of g ! i = \<lparr>sep = (if i = 0 then [] else fst (g ! i)), child = snd (g ! i)\<rparr>"
  using assms by (cases i; cases g) (auto simp: ents_of_def)

lemma ents_of_append: "g \<noteq> [] \<Longrightarrow> ents_of (g @ h) = ents_of g @ map (\<lambda>x. \<lparr>sep = fst x, child = snd x\<rparr>) h"
  by (cases g) (auto simp: ents_of_def)

lemma ents_of_insert:
  assumes "g1 \<noteq> []"
  shows "insert_at (length g1) \<lparr>sep = sp, child = r\<rparr> (ents_of (g1 @ g2)) = ents_of (g1 @ (sp, r) # g2)"
  using assms by (simp add: ents_of_append insert_at_def)

lemma take_ents_of: "0 < m \<Longrightarrow> g \<noteq> [] \<Longrightarrow> take m (ents_of g) = ents_of (take m g)"
  by (cases g; cases m) (auto simp: ents_of_def take_map)

lemma drop_ents_of:
  assumes "m < length g" 
  shows "(drop m (ents_of g))[0 := (ents_of g ! m)\<lparr>sep := []\<rparr>] = ents_of (drop m g)"
proof (rule nth_equalityI)
  have g: "g \<noteq> []" "drop m g \<noteq> []" using assms by auto
  then show "length ((drop m (ents_of g))[0 := (ents_of g ! m)\<lparr>sep := []\<rparr>]) = length (ents_of (drop m g))" by simp
  show "(drop m (ents_of g))[0 := (ents_of g ! m)\<lparr>sep := []\<rparr>] ! i = ents_of (drop m g) ! i"
    if "i < length ((drop m (ents_of g))[0 := (ents_of g ! m)\<lparr>sep := []\<rparr>])" for i
    using that g assms by (cases i) (auto simp: ents_of_nth)
qed

text \<open>Where the new separator goes.\<close>

lemma sort_Search_split:
  assumes "k \<le> n" "\<And>i. i < k \<Longrightarrow> \<not> f i" "\<And>i. k \<le> i \<Longrightarrow> i < n \<Longrightarrow> f i"
  shows "sort_Search n f = k"
proof (rule sort_Search_eqI)
  show "stays_true n f" unfolding stays_true_def using assms(2,3) by (meson le_trans not_le_imp_less)
qed (use assms in auto)

lemma sorted_last:
  assumes "sorted_wrt (<) (map fst g)" "x \<in> set g"
  shows "fst x \<le> (fst (last g) :: bytes)"
proof -
  have g: "g = butlast g @ [last g]" using assms(2) by (cases g) auto
  then have "x \<in> set (butlast g) \<or> x = last g" using assms(2) by (metis Un_iff empty_iff insert_iff list.set set_append)
  moreover have "\<forall>y \<in> set (butlast g). fst y < fst (last g)" using assms(1) by (subst (asm) g) (simp add: sorted_wrt_append)
  ultimately show ?thesis by (auto simp: less_imp_le)
qed

lemma entry_place:
  assumes s: "sorted_wrt (<) (map fst g1)" and g1: "g1 \<noteq> []" "fst (last g1) < sp" and g2: "\<forall>y \<in> set g2. sp < fst y"
  shows "sort_Search (length (ents_of (g1 @ g2))) (\<lambda>i. sp < sep (ents_of (g1 @ g2) ! i)) = length g1"
proof (rule sort_Search_split)
  show "length g1 \<le> length (ents_of (g1 @ g2))" using g1 by simp
  show "\<not> sp < sep (ents_of (g1 @ g2) ! i)" if i: "i < length g1" for i
  proof (cases "i = 0")
    case False
    have "fst (g1 ! i) \<le> fst (last g1)" by (rule sorted_last[OF s nth_mem[OF i]])
    then show ?thesis using False i g1(2) by (simp add: ents_of_nth nth_append)
  qed (use g1 in \<open>simp add: ents_of_nth\<close>)
  show "sp < sep (ents_of (g1 @ g2) ! i)" if "length g1 \<le> i" "i < length (ents_of (g1 @ g2))" for i
  proof -
    have "0 < i" using that(1) g1(1) by (cases g1) auto
    then show ?thesis using that g1 g2 by (auto simp: ents_of_nth nth_append)
  qed
qed

section \<open>Up the path\<close>

text \<open>What persisting a new root may do to the pager: one page write that leaves every page in use alone.\<close>

definition root_keeper :: "(u32 \<Rightarrow> Pager \<Rightarrow> Pager) \<Rightarrow> bool" where
  "root_keeper f \<longleftrightarrow> (\<forall>r p com n recs xs k. pager_ok com n recs p \<and> free_list p xs \<and> room (Suc k) p
     \<longrightarrow> pager_ok com n recs (f r p) \<and> free_list (f r p) xs \<and> room k (f r p) \<and> keeps {} p xs (f r p) xs)"

text \<open>The interior levels over the fences \<open>fs\<close>.\<close>

definition above :: "(u64 \<Rightarrow> bytes) \<Rightarrow> nat \<Rightarrow> (PageImage \<times> u32) list \<Rightarrow> u32 list \<Rightarrow> nat \<Rightarrow> BTree \<Rightarrow> level list \<Rightarrow> fence list \<Rightarrow> bool" where
  "above com n recs xs k t gss fs \<longleftrightarrow> tok com n recs xs k t \<and> root_keeper (t_onRoot t) \<and> t_root t \<noteq> NullPage
     \<and> spine (node t) [([], t_root t)] gss fs \<and> distinct (level_pages gss) \<and> (\<forall>q \<in> set (level_pages gss). in_use (t_pgr t) xs q)"

text \<open>The root stays as it was, in the tree and in the header, or the new root has been reported.\<close>

definition root_kept :: "BTree \<Rightarrow> BTree \<Rightarrow> bool" where
  "root_kept t t' \<longleftrightarrow> t_root t' = t_root t \<and> croot t' = croot t \<or> (\<exists>p. t_pgr t' = t_onRoot t (t_root t') p)"

lemma root_kept_refl: "root_kept t t"
  by (simp add: root_kept_def)

lemma root_kept_from: "u = t\<lparr>t_pgr := t_pgr u\<rparr> \<Longrightarrow> croot u = croot t \<Longrightarrow> root_kept u t' \<Longrightarrow> root_kept t t'"
  unfolding root_kept_def by (metis BTree.select_convs(6,7) BTree.surjective BTree.update_convs(1))

lemma root_kept_reads: "reads t u \<Longrightarrow> root_kept u t' \<Longrightarrow> root_kept t t'"
  using readsD(1)[of t u] root_kept_from[of u t t'] by (auto simp: reads_def)

lemma root_kept_new: "t_onRoot t1 = t_onRoot t \<Longrightarrow> root_kept t (new_root q t1)"
  by (auto simp: root_kept_def new_root_def)

definition regrown :: "(u64 \<Rightarrow> bytes) \<Rightarrow> nat \<Rightarrow> (PageImage \<times> u32) list \<Rightarrow> nat \<Rightarrow> BTree \<Rightarrow> u32 list \<Rightarrow> level list
    \<Rightarrow> fence list \<Rightarrow> BTree \<Rightarrow> u32 list \<Rightarrow> level list \<Rightarrow> bool" where
  "regrown com n recs k t xs gss fs' t' xs' gss' \<longleftrightarrow> above com n recs xs' k t' gss' fs'
     \<and> keeps (set (level_pages gss)) (t_pgr t) xs (t_pgr t') xs' \<and> t' = t\<lparr>t_pgr := t_pgr t', t_root := t_root t'\<rparr> \<and> root_kept t t'
     \<and> (\<forall>q \<in> set (level_pages gss'). q \<in> set (level_pages gss) \<or> \<not> in_use (t_pgr t) xs q)"

definition grown :: "(u64 \<Rightarrow> bytes) \<Rightarrow> nat \<Rightarrow> (PageImage \<times> u32) list \<Rightarrow> nat \<Rightarrow> BTree \<Rightarrow> u32 list \<Rightarrow> level list
    \<Rightarrow> fence list \<Rightarrow> BTree \<times> (btree_error + unit) \<Rightarrow> bool" where
  "grown com n recs k t xs gss fs' r \<longleftrightarrow> snd r \<in> Inr ` {()} \<union> Inl ` write_errors
     \<and> (snd r = Inr () \<longrightarrow> (\<exists>xs' gss'. regrown com n recs k t xs gss fs' (fst r) xs' gss'))"

lemma aboveD:
  assumes "above com n recs xs k t gss fs"
  shows "tok com n recs xs k t" "root_keeper (t_onRoot t)" "t_root t \<noteq> NullPage" "spine (node t) [([], t_root t)] gss fs"
    "distinct (level_pages gss)" "q \<in> set (level_pages gss) \<Longrightarrow> in_use (t_pgr t) xs q"
  using assms by (auto simp: above_def)

lemma above_keeps:
  assumes a: "above com n recs xs k t gss fs" and kp: "keeps W (t_pgr t) xs (t_pgr t') xs'" and t: "tok com n recs xs' j t'"
    and e: "t' = t\<lparr>t_pgr := t_pgr t'\<rparr>" and W: "W \<inter> set (level_pages gss) = {}"
  shows "above com n recs xs' j t' gss fs"
proof -
  note A = aboveD[OF a]
  have f: "t_root t' = t_root t" "t_onRoot t' = t_onRoot t" by (subst e, simp)+
  have c: "node t' q = node t q" if "q \<in> set (level_pages gss)" for q
    using keepsD(2)[OF kp A(6)[OF that]] W that by blast
  show ?thesis unfolding above_def f using t A(2,3,5) spine_cong[OF A(4) c] keepsD(1)[OF kp A(6)] by blast
qed

lemma above_snoc:
  assumes "above com n recs xs k t (gss @ [gs]) fs"
  shows "above com n recs xs k t gss (map node_fence gs)" "nodes_ok (node t) gs" "children gs = fs"
    "distinct (map fst gs)" "set (map fst gs) \<inter> set (level_pages gss) = {}" "q \<in> set (map fst gs) \<Longrightarrow> in_use (t_pgr t) xs q"
  using assms by (auto simp: above_def spine_append)

lemma regrown_refl: "above com n recs xs k t gss fs \<Longrightarrow> regrown com n recs k t xs gss fs t xs gss"
  by (simp add: regrown_def keeps_refl root_kept_refl)

lemma grown_error: "e \<in> write_errors \<Longrightarrow> grown com n recs k t xs gss fs' (t', Inl e)"
  by (auto simp: grown_def)

text \<open>A level rewritten in place, under levels that have been regrown.\<close>

lemma regrown_snoc:
  assumes a: "above com n recs xs j t (gss @ [gs]) fs" and kp: "keeps (set (map fst gs)) (t_pgr t) xs (t_pgr u) ys"
    and e: "u = t\<lparr>t_pgr := t_pgr u\<rparr>" "croot u = croot t" and r: "regrown com n recs k u ys gss (map node_fence gs') t' xs' gss'"
    and nok: "nodes_ok (node u) gs'" and d: "distinct (map fst gs')" 
    and pg: "\<And>q. q \<in> set (map fst gs') \<Longrightarrow> in_use (t_pgr u) ys q \<and> (q \<in> set (map fst gs) \<or> \<not> in_use (t_pgr t) xs q)"
  shows "regrown com n recs k t xs (gss @ [gs]) (children gs') t' xs' (gss' @ [gs'])"
proof -
  note A = aboveD[OF a] and S = above_snoc[OF a]
  have R: "above com n recs xs' k t' gss' (map node_fence gs')" "keeps (set (level_pages gss)) (t_pgr u) ys (t_pgr t') xs'"
      "t' = u\<lparr>t_pgr := t_pgr t', t_root := t_root t'\<rparr>" "\<forall>q \<in> set (level_pages gss'). q \<in> set (level_pages gss) \<or> \<not> in_use (t_pgr u) ys q" "root_kept u t'"
    using r by (auto simp: regrown_def)
  note R1 = aboveD[OF R(1)]
  have iu: "in_use (t_pgr u) ys q" if "q \<in> set (level_pages gss)" for q using keepsD(1)[OF kp] A(6) that by simp
  have off: "q \<notin> set (level_pages gss)" if "q \<in> set (map fst gs')" for q
    using pg[OF that] S(5) A(6) by auto
  have c: "node t' q = node u q" if "q \<in> set (map fst gs')" for q
    using keepsD(2)[OF R(2)] pg[OF that] off[OF that] by blast
  have n': "nodes_ok (node t') gs'" using nok c by (auto simp: nodes_ok_def)
  have sp: "spine (node t') [([], t_root t')] (gss' @ [gs']) (children gs')"
    using R1(4) n' by (auto simp: spine_append)
  have dd: "set (level_pages gss') \<inter> set (map fst gs') = {}" using R(4) off pg by blast
  have use': "in_use (t_pgr t') xs' q" if "q \<in> set (map fst gs')" for q using keepsD(1)[OF R(2)] pg[OF that] by blast
  have ab: "above com n recs xs' k t' (gss' @ [gs']) (children gs')"
    unfolding above_def using R1 sp dd d use' by auto
  have k2: "keeps (set (level_pages (gss @ [gs]))) (t_pgr t) xs (t_pgr t') xs'"
    by (rule keeps_mono[OF keeps_trans[OF kp R(2)]]) auto
  have e2: "t' = t\<lparr>t_pgr := t_pgr t', t_root := t_root t'\<rparr>" by (subst R(3), subst e(1), simp)
  have "\<not> in_use (t_pgr t) xs q" if "\<not> in_use (t_pgr u) ys q" for q using that keepsD(1)[OF kp] by blast
  then show ?thesis unfolding regrown_def using ab k2 e2 R(4) root_kept_from[OF e R(5)] pg by auto
qed

lemma ordered_insert:
  assumes "ordered (A @ (l, left) # B)" "l < sp" "\<forall>y \<in> set B. sp < fst y"
  shows "ordered (A @ (l, left) # (sp, right) # B)"
  using assms by (cases A) (force simp: ordered_def sorted_wrt_append dest: order_less_trans)+

text \<open>The node on the path holds the fence of the split child.\<close>

lemma path_node:
  assumes p: "on_path key gs q" and nok: "nodes_ok c gs" and ord: "ordered (children gs)" and own: "owns key (children gs) A (l, left) B"
  obtains GA g1 g2 GB where "gs = GA @ (q, g1 @ (l, left) # g2) # GB" "A = children GA @ g1" "B = g2 @ children GB"
    "\<forall>x \<in> set GB. key < fst (node_fence x)" "fst (hd (g1 @ (l, left) # g2)) \<le> key"
    "interior_page (c q) (ents_of (g1 @ (l, left) # g2))"
proof -
  obtain GA g GB where gs: "gs = GA @ (q, g) # GB" and l: "fst (hd g) \<le> key" and GB: "\<forall>x \<in> set GB. key < fst (node_fence x)"
    using p by (auto simp: on_path_def)
  have g: "g \<noteq> []" "interior_page (c q) (ents_of g)" using nok gs by (auto simp: nodes_ok_def)
  have s: "sorted_wrt (<) (map fst (children (GA @ (q, g) # GB)))" using ord unfolding gs ordered_def by blast
  let ?m = "length (takeWhile (\<lambda>x. fst x \<le> key) (tl g))"
  note n = node_owns[OF s g(1) l GB]
  have "A = children GA @ take ?m g" "(l, left) = g ! ?m" "B = drop (Suc ?m) g @ children GB"
    using owns_unique[OF own[unfolded gs] n(2)] by blast+
  moreover from this(2) have "g = take ?m g @ (l, left) # drop (Suc ?m) g" using id_take_nth_drop[OF n(1)] by simp
  ultimately show ?thesis using that[of GA "take ?m g" "drop (Suc ?m) g" GB] gs l GB g(2) by simp
qed

text \<open>Halving the node of the path.\<close>

lemma halves:
  assumes s: "sorted_wrt (<) (map fst g)" and l: "2 \<le> length g"
  defines "m \<equiv> length g div 2"
  shows "0 < m" "m < length g" "take m g \<noteq> []" "drop m g \<noteq> []" "hd (take m g) = hd g" "fst (hd g) < (fst (g ! m) :: bytes)" "hd (drop m g) = g ! m"
proof -
  show m: "0 < m" "m < length g" using l by (auto simp: m_def)
  have g: "g \<noteq> []" using l by auto
  then show "take m g \<noteq> []" "drop m g \<noteq> []" using m by auto
  show "hd (take m g) = hd g" using m by simp
  show "fst (hd g) < fst (g ! m)" using s m g by (simp add: sorted_wrt_iff_nth_less hd_conv_nth)
  show "hd (drop m g) = g ! m" using m by (simp add: hd_drop_conv_nth)
qed

lemma insertIntoParent_root:
  assumes a: "above com n recs xs (3 + k) t [] fs" and own: "owns key fs A (l, left) B"
  shows "grown com n recs k t xs [] (A @ (l, left) # (sp, right) # B) (insertIntoParent [] left sp right t)"
proof -
  note A = aboveD[OF a]
  have fs: "A = []" "B = []" "l = []" "left = t_root t" using A(4) own by (auto simp: owns_def Cons_eq_append_conv)
  let ?g = "[([], left), (sp, right)]"
  obtain t1 r1 where r1: "newInterior [\<lparr>sep = [], child = left\<rparr>, \<lparr>sep = sp, child = right\<rparr>] t = (t1, r1)"
    by (cases "newInterior [\<lparr>sep = [], child = left\<rparr>, \<lparr>sep = sp, child = right\<rparr>] t")
  have "tok com n recs xs (Suc (Suc (Suc k))) t" using A(1) by (simp add: numeral_3_eq_3)
  note ad = newInterior_ok[OF this, of "[\<lparr>sep = [], child = left\<rparr>, \<lparr>sep = sp, child = right\<rparr>]"]
  show ?thesis
  proof (cases r1)
    case (Inl e)
    then show ?thesis using ad r1 by (subst insertIntoParent.simps) (auto simp: adds_page_def intro: grown_error)
  next
    case (Inr q)
    then obtain ys where q: "\<not> in_use (t_pgr t) xs q" "tok com n recs ys (Suc k) t1" "keeps {} (t_pgr t) xs (t_pgr t1) ys" "in_use (t_pgr t1) ys q"
        "interior_page (node t1 q) (ents_of ?g)" "t1 = t\<lparr>t_pgr := t_pgr t1\<rparr>"
      using ad r1 by (auto simp: adds_page_def ents_of_def)
    let ?u = "new_root q t1" let ?p = "t_onRoot t1 q (t_pgr t1)"
    have o: "t_onRoot t1 = t_onRoot t" "t_bodyLen t1 = t_bodyLen t" by (subst q(6), simp)+
    have p: "pager_ok com n recs ?p \<and> free_list ?p ys \<and> room k ?p \<and> keeps {} (t_pgr t1) ys ?p ys"
      using A(2) q(2) unfolding root_keeper_def o tok_def by blast
    have tk: "tok com n recs ys k ?u" using p q(2) by (auto simp: tok_def new_root_def geometry_def keeps_def)
    have ku: "keeps {} (t_pgr t1) ys (t_pgr ?u) ys" using p by (simp add: new_root_def)
    have nz: "q \<noteq> NullPage" using q(4) in_use_not_null[of q "PageCount (p_hdr (t_pgr t1))"] by (simp add: in_use_def)
    have "node ?u q = node t1 q" using keepsD(2)[OF ku q(4)] by simp
    then have "nodes_ok (node ?u) [(q, ?g)]" using q(5) by (simp add: nodes_ok_def)
    then have "above com n recs ys k ?u [[(q, ?g)]] ?g"
      using tk A(2) o nz keepsD(1)[OF ku q(4)] by (auto simp: above_def node_fence_def new_root_def)
    moreover have "?u = t\<lparr>t_pgr := t_pgr ?u, t_root := t_root ?u\<rparr>" unfolding new_root_def by (subst q(6)) simp
    moreover have "keeps {} (t_pgr t) xs (t_pgr ?u) ys" using keeps_trans[OF q(3) ku] by simp
    ultimately have "regrown com n recs k t xs [] (A @ (l, left) # (sp, right) # B) ?u ys [[(q, ?g)]]"
      using q(1) fs root_kept_new[of t1 t q] o(1) by (simp add: regrown_def)
    then show ?thesis using Inr r1 by (subst insertIntoParent.simps) (auto simp: grown_def)
  qed
qed

lemma above_transfer:
  assumes "above com n recs xs k t gss fs" "reads t t'"
  shows "above com n recs xs k t' gss fs"
proof (rule above_keeps[OF assms(1) keeps_reads[OF assms(2)] readsD(11)[OF assms(2) aboveD(1)[OF assms(1)]]])
  show "t' = t\<lparr>t_pgr := t_pgr t'\<rparr>" using assms(2) by (auto simp: reads_def)
qed simp

text \<open>The node is rewritten in place.\<close>

lemma insert_in_place:
  assumes a: "above com n recs xs (Suc k) t (gss @ [gs]) fs" and gs: "gs = GA @ (q, g) # GB" and g': "g' \<noteq> []" "hd g' = hd g"
  shows "grown com n recs k t xs (gss @ [gs]) (children GA @ g' @ children GB) (writeInterior q (ents_of g') t)"
proof -
  note S = above_snoc[OF a]
  let ?r = "writeInterior q (ents_of g') t" let ?gs = "GA @ (q, g') # GB"
  have q: "in_use (t_pgr t) xs q" by (rule S(6)) (simp add: gs)
  note w = writeInterior_ok[OF aboveD(1)[OF a] q, of "ents_of g'"]
  have "\<exists>xs' gss'. regrown com n recs k t xs (gss @ [gs]) (children ?gs) (fst ?r) xs' gss'" if ok: "snd ?r = Inr ()"
  proof -
    have W: "tok com n recs xs k (fst ?r)" "keeps {q} (t_pgr t) xs (t_pgr (fst ?r)) xs" "interior_page (node (fst ?r) q) (ents_of g')"
        "fst ?r = t\<lparr>t_pgr := t_pgr (fst ?r)\<rparr>" "croot (fst ?r) = croot t" using w ok by (auto simp: writes_page_def)
    have "above com n recs xs k (fst ?r) gss (map node_fence gs)"
      by (rule above_keeps[OF S(1) W(2,1,4)]) (use S(5) gs in auto)
    moreover have nf: "map node_fence gs = map node_fence ?gs" using g' by (simp add: gs node_fence_def)
    ultimately have rr: "regrown com n recs k (fst ?r) xs gss (map node_fence ?gs) (fst ?r) xs gss" using regrown_refl by simp
    have "node (fst ?r) (fst x) = node t (fst x)" if "x \<in> set (GA @ GB)" for x
    proof -
      have "fst x \<noteq> q" using S(4) that by (auto simp: gs)
      then show ?thesis using keepsD(2)[OF W(2) S(6)[of "fst x"]] that by (auto simp: gs)
    qed
    then have nok: "nodes_ok (node (fst ?r)) ?gs" using S(2) W(3) g'(1) by (auto simp: nodes_ok_def gs)
    have kp: "keeps (set (map fst gs)) (t_pgr t) xs (t_pgr (fst ?r)) xs" by (rule keeps_mono[OF W(2)]) (simp add: gs)
    have "regrown com n recs k t xs (gss @ [gs]) (children ?gs) (fst ?r) xs (gss @ [?gs])"
      by (rule regrown_snoc[OF a kp W(4,5) rr nok]) (use S(4,6) keepsD(1)[OF W(2)] in \<open>auto simp: gs\<close>)
    then show ?thesis by blast
  qed
  then show ?thesis using w by (auto simp: grown_def writes_page_def)
qed

text \<open>The two halves of a node: the right half on a new page, the left half in place.\<close>

definition halved :: "(u64 \<Rightarrow> bytes) \<Rightarrow> nat \<Rightarrow> (PageImage \<times> u32) list \<Rightarrow> nat \<Rightarrow> BTree \<Rightarrow> u32 list \<Rightarrow> u32 \<Rightarrow> (bytes \<Rightarrow> bool) \<Rightarrow> (bytes \<Rightarrow> bool)
    \<Rightarrow> BTree \<Rightarrow> u32 list \<Rightarrow> u32 \<Rightarrow> bool" where
  "halved com n recs k t xs q L R u ys r \<longleftrightarrow> tok com n recs ys k u \<and> keeps {q} (t_pgr t) xs (t_pgr u) ys \<and> u = t\<lparr>t_pgr := t_pgr u\<rparr> \<and> croot u = croot t
     \<and> \<not> in_use (t_pgr t) xs r \<and> in_use (t_pgr u) ys r \<and> in_use (t_pgr u) ys q \<and> L (node u q) \<and> R (node u r)"

lemma halve:
  assumes add: "adds_page com n recs xs (Suc k) t R (t1, Inr r)" and q: "in_use (t_pgr t) xs q"
    and w: "\<And>ys. tok com n recs ys (Suc k) t1 \<Longrightarrow> in_use (t_pgr t1) ys q \<Longrightarrow> writes_page com n recs ys k t1 q (L r) (u, res)"
  shows "res \<in> Inr ` {()} \<union> Inl ` write_errors" "res = Inr () \<Longrightarrow> \<exists>ys. halved com n recs k t xs q (L r) R u ys r"
proof -
  obtain ys where a: "\<not> in_use (t_pgr t) xs r" "tok com n recs ys (Suc k) t1" "keeps {} (t_pgr t) xs (t_pgr t1) ys" "in_use (t_pgr t1) ys r"
      "R (node t1 r)" "t1 = t\<lparr>t_pgr := t_pgr t1\<rparr>" "croot t1 = croot t" using add by (auto simp: adds_page_def)
  note W = w[OF a(2) keepsD(1)[OF a(3) q]]
  show "res \<in> Inr ` {()} \<union> Inl ` write_errors" using W by (simp add: writes_page_def)
  assume "res = Inr ()"
  then have b: "tok com n recs ys k u" "keeps {q} (t_pgr t1) ys (t_pgr u) ys" "L r (node u q)" "u = t1\<lparr>t_pgr := t_pgr u\<rparr>" "croot u = croot t1"
    using W by (auto simp: writes_page_def)
  have "r \<noteq> q" using a(1) q by blast
  then have "R (node u r)" using keepsD(2)[OF b(2) a(4)] a(5) by simp
  moreover have "u = t\<lparr>t_pgr := t_pgr u\<rparr>" by (subst b(4), subst a(6), simp)
  moreover have "keeps {q} (t_pgr t) xs (t_pgr u) ys" using keeps_trans[OF a(3) b(2)] by simp
  ultimately have "halved com n recs k t xs q (L r) R u ys r"
    unfolding halved_def using a(1,7) b(1,3,5) keepsD(1)[OF b(2)] a(4) keepsD(1)[OF a(3) q] by simp
  then show "\<exists>ys. halved com n recs k t xs q (L r) R u ys r" by blast
qed

lemma insert_halved:
  assumes a: "above com n recs xs j t (gss @ [gs]) fs" and gs: "gs = GA @ (q, g) # GB" and ne: "g1 \<noteq> []" "g2 \<noteq> []" and hd: "hd g1 = hd g"
    and h: "halved com n recs i t xs q (\<lambda>b. interior_page b (ents_of g1)) (\<lambda>b. interior_page b (ents_of g2)) u ys r"
    and up: "above com n recs ys i u gss (map node_fence gs) \<Longrightarrow>
      grown com n recs k u ys gss (map node_fence GA @ (fst (hd g), q) # (fst (hd g2), r) # map node_fence GB) res"
  shows "grown com n recs k t xs (gss @ [gs]) (children GA @ (g1 @ g2) @ children GB) res"
proof -
  note S = above_snoc[OF a]
  have H: "tok com n recs ys i u" "keeps {q} (t_pgr t) xs (t_pgr u) ys" "u = t\<lparr>t_pgr := t_pgr u\<rparr>" "\<not> in_use (t_pgr t) xs r"
      "in_use (t_pgr u) ys r" "in_use (t_pgr u) ys q" "interior_page (node u q) (ents_of g1)" "interior_page (node u r) (ents_of g2)"
      "croot u = croot t"
    using h by (auto simp: halved_def)
  let ?gs = "GA @ (q, g1) # (r, g2) # GB"
  have nf: "map node_fence ?gs = map node_fence GA @ (fst (hd g), q) # (fst (hd g2), r) # map node_fence GB"
    using hd by (simp add: node_fence_def)
  have "above com n recs ys i u gss (map node_fence gs)" by (rule above_keeps[OF S(1) H(2,1,3)]) (use S(5) gs in auto)
  note G = up[OF this, folded nf]
  have old: "fst x \<noteq> q" "fst x \<noteq> r" "node u (fst x) = node t (fst x)" "in_use (t_pgr u) ys (fst x)" if x: "x \<in> set GA \<union> set GB" for x
  proof -
    have m: "fst x \<in> set (map fst gs)" using x by (auto simp: gs)
    show q: "fst x \<noteq> q" using S(4) x by (auto simp: gs)
    show "fst x \<noteq> r" using S(6)[OF m] H(4) by blast
    show "node u (fst x) = node t (fst x)" using keepsD(2)[OF H(2) S(6)[OF m]] q by simp
    show "in_use (t_pgr u) ys (fst x)" by (rule keepsD(1)[OF H(2) S(6)[OF m]])
  qed
  have nok: "nodes_ok (node u) ?gs" using S(2) ne H(7,8) old(3) by (auto simp: nodes_ok_def gs)
  have qr: "q \<noteq> r" using S(6)[of q] H(4) by (auto simp: gs)
  have d: "distinct (map fst ?gs)" using S(4) qr old(2) by (auto simp: gs)
  have kp: "keeps (set (map fst gs)) (t_pgr t) xs (t_pgr u) ys" by (rule keeps_mono[OF H(2)]) (simp add: gs)
  have "regrown com n recs k t xs (gss @ [gs]) (children ?gs) (fst res) xs' (gss' @ [?gs])"
    if "regrown com n recs k u ys gss (map node_fence ?gs) (fst res) xs' gss'" for xs' gss'
    by (rule regrown_snoc[OF a kp H(3,9) that nok d]) (use H(4-6) old(4) in \<open>auto simp: gs\<close>)
  then show ?thesis using G unfolding grown_def by auto
qed

lemma grown_reads:
  assumes rd: "reads t u" and g: "grown com n recs k u xs gss fs r"
  shows "grown com n recs k t xs gss fs r"
proof -
  have u: "u = t\<lparr>t_pgr := t_pgr u\<rparr>" using rd by (auto simp: reads_def)
  have "regrown com n recs k t xs gss fs t' xs' gss'" if "regrown com n recs k u xs gss fs t' xs' gss'" for t' xs' gss'
  proof -
    have "t' = u\<lparr>t_pgr := t_pgr t', t_root := t_root t'\<rparr>" using that by (simp add: regrown_def)
    then have "t' = t\<lparr>t_pgr := t_pgr t', t_root := t_root t'\<rparr>" by (subst (asm) u) simp
    then show ?thesis using that keeps_trans[OF keeps_reads[OF rd]] readsD(12)[OF rd] root_kept_reads[OF rd] unfolding regrown_def by auto
  qed
  then show ?thesis using g unfolding grown_def by blast
qed

definition put_entries :: "u32 list \<Rightarrow> u32 \<Rightarrow> intEntry list \<Rightarrow> BTree \<Rightarrow> BTree \<times> (btree_error + unit)" where
  "put_entries path q ents t =
     (if interiorFits t ents then writeInterior q ents t
      else let mid = length ents div 2; promote = sep (ents ! mid); right = (drop mid ents)[0 := (ents ! mid)\<lparr>sep := []\<rparr>] in
        andThen (newInterior right t) (\<lambda>rPno t. andThen (writeInterior q (take mid ents) t) (\<lambda>_ t. insertIntoParent path q promote rPno t)))"

lemma insertIntoParent_snoc:
  "insertIntoParent (path @ [q]) left sp right t =
     andThen (loadInterior q t) (\<lambda>es t.
       put_entries path q (insert_at (sort_Search (length es) (\<lambda>i. sp < sep (es ! i))) \<lparr>sep = sp, child = right\<rparr> es) t)"
  by (subst insertIntoParent.simps) (simp add: put_entries_def[abs_def] Let_def cong: if_cong)

lemma insert_node:
  assumes a: "above com n recs xs (3 * length (gss @ [gs]) + 3 + k) t (gss @ [gs]) fs" and gs: "gs = GA @ (q, g) # GB"
    and g': "sorted_wrt (<) (map fst g')" "2 \<le> length g'" "hd g' = hd g"
    and up: "\<And>u ys r p. above com n recs ys (3 * length gss + 3 + k) u gss (map node_fence gs) \<Longrightarrow> fst (hd g) < p \<Longrightarrow> p \<in> fst ` set g' \<Longrightarrow>
      grown com n recs k u ys gss (map node_fence GA @ (fst (hd g), q) # (p, r) # map node_fence GB) (insertIntoParent path0 q p r u)"
  shows "grown com n recs k t xs (gss @ [gs]) (children GA @ g' @ children GB)
    (put_entries path0 q (ents_of g') t)"
proof (cases "interiorFits t (ents_of g')")
  case True
  have ne: "g' \<noteq> []" using g'(2) by auto
  have "above com n recs xs (Suc k) t (gss @ [gs]) fs" using a tok_mono by (auto simp: above_def)
  from insert_in_place[OF this gs ne g'(3)] show ?thesis unfolding put_entries_def if_P[OF True] .
next
  case False
  have ne: "g' \<noteq> []" using g'(2) by auto
  let ?m = "length g' div 2"
  note H = halves[OF g'(1,2)]
  have e: "length (ents_of g') div 2 = ?m" "sep (ents_of g' ! ?m) = fst (g' ! ?m)" "take ?m (ents_of g') = ents_of (take ?m g')"
      "(drop ?m (ents_of g'))[0 := (ents_of g' ! ?m)\<lparr>sep := []\<rparr>] = ents_of (drop ?m g')"
    using ne H(1,2) take_ents_of drop_ents_of by (auto simp: ents_of_nth)
  let ?R = "\<lambda>b. interior_page b (ents_of (drop ?m g'))" let ?L = "\<lambda>b. interior_page b (ents_of (take ?m g'))"
  have tk: "tok com n recs xs (Suc (Suc (Suc (3 * length gss + 3 + k)))) t" by (rule tok_mono[OF aboveD(1)[OF a]]) simp
  have q: "in_use (t_pgr t) xs q" by (rule above_snoc(6)[OF a]) (simp add: gs)
  note add = newInterior_ok[OF tk, of "ents_of (drop ?m g')"]
  obtain t1 r1 where r1: "newInterior (ents_of (drop ?m g')) t = (t1, r1)" by (cases "newInterior (ents_of (drop ?m g')) t")
  show ?thesis
  proof (cases r1)
    case (Inl e1)
    then show ?thesis using add r1 unfolding put_entries_def if_not_P[OF False] by (auto simp: Let_def e adds_page_def intro: grown_error)
  next
    case (Inr r)
    obtain u res where u: "writeInterior q (ents_of (take ?m g')) t1 = (u, res)" by (cases "writeInterior q (ents_of (take ?m g')) t1")
    have ad: "adds_page com n recs xs (Suc (3 * length gss + 3 + k)) t ?R (t1, Inr r)" using add r1 Inr by simp
    have w: "writes_page com n recs ys (3 * length gss + 3 + k) t1 q ?L (u, res)"
      if "tok com n recs ys (Suc (3 * length gss + 3 + k)) t1" "in_use (t_pgr t1) ys q" for ys
      using writeInterior_ok[OF that, of "ents_of (take ?m g')"] unfolding u .
    note hv = halve[OF ad q, of "\<lambda>r. ?L" u res, OF w]
    have promoted: "fst (g' ! ?m) \<in> fst ` set g'" using H(2) by auto
    have "grown com n recs k t xs (gss @ [gs]) (children GA @ g' @ children GB) (insertIntoParent path0 q (fst (g' ! ?m)) r u)" if ok: "res = Inr ()"
    proof -
      obtain ys where h: "halved com n recs (3 * length gss + 3 + k) t xs q ?L ?R u ys r" using hv(2)[OF _ _ ok] by blast
      show ?thesis using insert_halved[OF a gs H(3,4) _ h, of k] up[of ys u "fst (g' ! ?m)" r] promoted H(5-7) g'(3) by simp
    qed
    moreover have "res \<in> Inr ` {()} \<union> Inl ` write_errors" using hv(1) by blast
    ultimately show ?thesis using r1 Inr u unfolding put_entries_def if_not_P[OF False] by (auto simp: Let_def e intro: grown_error)
  qed
qed

lemma insertIntoParent_ok:
  assumes "above com n recs xs (3 * length gss + 3 + k) t gss fs" "ordered fs" "list_all2 (on_path key) gss path"
    "owns key fs A (l, left) B" "l < sp" "\<forall>y \<in> set B. sp < fst y"
  shows "grown com n recs k t xs gss (A @ (l, left) # (sp, right) # B) (insertIntoParent path left sp right t)"
  using assms
proof (induction gss arbitrary: xs t fs path A l left B sp right rule: rev_induct)
  case Nil
  then show ?case using insertIntoParent_root[of com n recs xs k t fs key A l left B sp right] by simp
next
  case (snoc gs gss)
  note S = above_snoc[OF snoc.prems(1)]
  obtain path0 q where path: "path = path0 @ [q]" "list_all2 (on_path key) gss path0" "on_path key gs q"
    using snoc.prems(3) by (auto simp: list_all2_append1 list_all2_Cons1)
  obtain GA g1 g2 GB where gs: "gs = GA @ (q, g1 @ (l, left) # g2) # GB" and AB: "A = children GA @ g1" "B = g2 @ children GB"
    and GB: "\<forall>x \<in> set GB. key < fst (node_fence x)" and lo: "fst (hd (g1 @ (l, left) # g2)) \<le> key"
    and pg: "interior_page (node t q) (ents_of (g1 @ (l, left) # g2))"
    using path_node[OF path(3) S(2)] S(3) snoc.prems(2,4) by metis
  let ?g = "g1 @ (l, left) # g2" let ?g' = "g1 @ (l, left) # (sp, right) # g2" let ?res = "A @ (l, left) # (sp, right) # B"
  have ordf: "ordered ?res" using ordered_insert snoc.prems(2,4-6) by (auto simp: owns_def)
  then have s': "sorted_wrt (<) (map fst ?g')" "sorted_wrt (<) (map fst (g1 @ [(l, left)]))" by (auto simp: ordered_def AB sorted_wrt_append)
  have ins: "insert_at (sort_Search (length (ents_of ?g)) (\<lambda>i. sp < sep (ents_of ?g ! i))) \<lparr>sep = sp, child = right\<rparr> (ents_of ?g) = ents_of ?g'"
    using entry_place[OF s'(2), of sp g2] snoc.prems(5,6) ents_of_insert[of "g1 @ [(l, left)]" sp right g2] by (auto simp: AB)
  have q: "in_use (t_pgr t) xs q" by (rule S(6)) (simp add: gs)
  have qc: "unat q < cnt (t_pgr t)" using q by (simp add: in_use_def)
  obtain t1 r1 where r1: "loadInterior q t = (t1, r1)" by (cases "loadInterior q t")
  have d1: "reads t t1" "r1 \<in> {Inl (ErrPager ErrPoolExhausted), Inr (ents_of ?g)}"
    using loadInterior_reads[OF aboveD(1)[OF snoc.prems(1)] qc pg] r1 by (auto simp: delivers_def)
  have a1: "above com n recs xs (3 * length (gss @ [gs]) + 3 + k) t1 (gss @ [gs]) fs" by (rule above_transfer[OF snoc.prems(1) d1(1)])
  have up: "grown com n recs k u ys gss (map node_fence GA @ (fst (hd ?g), q) # (p, r) # map node_fence GB) (insertIntoParent path0 q p r u)"
    if u: "above com n recs ys (3 * length gss + 3 + k) u gss (map node_fence gs)" "fst (hd ?g) < p" "p \<in> fst ` set ?g'" for u ys r p
  proof (rule snoc.IH[OF u(1) _ path(2) _ u(2)])
    show "ordered (map node_fence gs)" by (rule ordered_up[OF _ S(2)]) (use S(3) snoc.prems(2) in simp)
    show "owns key (map node_fence gs) (map node_fence GA) (fst (hd ?g), q) (map node_fence GB)"
      using GB lo by (simp add: owns_def gs node_fence_def)
    have ne: "\<forall>x \<in> set GB. snd x \<noteq> []" using S(2) by (auto simp: nodes_ok_def gs)
    have "sorted_wrt (<) (map fst (children GA) @ map fst ?g' @ map fst (children GB))" using ordf by (simp add: ordered_def AB)
    then have "\<forall>x \<in> set (map fst ?g'). \<forall>y \<in> set (map fst (children GB)). x < y" unfolding sorted_wrt_append by blast
    then have "fst x < fst y" if "x \<in> set ?g'" "y \<in> set (children GB)" for x y
      using that unfolding set_map by blast
    note lt = this
    obtain x where x: "x \<in> set ?g'" "p = fst x" using u(3) by blast
    have "hd (snd y) \<in> set (children GB)" if "y \<in> set GB" for y using that ne hd_in_set[of "snd y"] unfolding set_concat set_map by blast
    then have "p < fst (node_fence y)" if "y \<in> set GB" for y using lt[OF x(1)] that x(2) by (simp add: node_fence_def)
    then show "\<forall>y \<in> set (map node_fence GB). p < fst y" by simp
  qed
  note N = insert_node[OF a1 gs s'(1) _ _ up]
  have "grown com n recs k t1 xs (gss @ [gs]) ?res (put_entries path0 q (ents_of ?g') t1)"
    using N by (simp add: AB hd_append)
  note G = grown_reads[OF d1(1) this]
  show ?case unfolding path(1) insertIntoParent_snoc
    using d1(2) G ins unfolding r1 by (auto intro: grown_error)
qed

end
