(* ===== verification/Btree_Put.thy ===== *)
theory Btree_Put
  imports Btree_Insert
begin

text \<open>
  The whole of \<^verbatim>\<open>Put\<close> and \<^verbatim>\<open>Delete\<close>: the leaf that owns the key is rewritten or split, and the keys of
  the tree change by exactly that key.
\<close>

section \<open>The leaves after a change\<close>

abbreviation leaf_pages :: "leaf list \<Rightarrow> u32 list" where
  "leaf_pages ls \<equiv> map (fst \<circ> snd) ls"

lemma leaf_chain_replace:
  assumes "leaf_chain c (LA @ x # LB)" "\<And>y. y \<in> set LA \<Longrightarrow> c' (fst (snd y)) = c (fst (snd y))"
    "leaf_chain c' ms" "chain_head ms = fst (snd x)"
  shows "leaf_chain c' (LA @ ms)"
  using assms
proof (induction LA)
  case (Cons y LA)
  have "chain_head (LA @ ms) = chain_head (LA @ x # LB)" using assms(4) by (cases LA) simp_all
  then show ?case using Cons by simp
qed simp

lemma leaf_chain_same:
  "leaf_chain c ls \<Longrightarrow> (\<And>y. y \<in> set ls \<Longrightarrow> c' (fst (snd y)) = c (fst (snd y))) \<Longrightarrow> leaf_chain c' ls"
  by (induction ls) simp_all

lemma leaf_chain_tail: "leaf_chain c (LA @ LB) \<Longrightarrow> leaf_chain c LB"
  by (induction LA) auto

lemma rebuilt:
  assumes r: "regrown com n recs k u ys gss (fences ls) t' xs' gss'" and l: "leaf_chain (node u) ls" "ls \<noteq> []" "bounded ls" "ordered (fences ls)"
    and d: "distinct (leaf_pages ls)" and pg: "\<And>q. q \<in> set (leaf_pages ls) \<Longrightarrow> in_use (t_pgr u) ys q \<and> q \<notin> set (level_pages gss)"
  shows "btree_ok com n recs xs' k t' ls gss'"
proof -
  have R: "above com n recs xs' k t' gss' (fences ls)" "keeps (set (level_pages gss)) (t_pgr u) ys (t_pgr t') xs'"
      "\<forall>q \<in> set (level_pages gss'). q \<in> set (level_pages gss) \<or> \<not> in_use (t_pgr u) ys q"
    using r by (auto simp: regrown_def)
  note A = aboveD[OF R(1)]
  have "leaf_chain (node t') ls" by (rule leaf_chain_cong[OF l(1)]) (use keepsD(2)[OF R(2)] pg in auto)
  moreover have "set (leaf_pages ls) \<inter> set (level_pages gss') = {}" using R(3) pg by blast
  moreover have "in_use (t_pgr t') xs' q" if "q \<in> set (leaf_pages ls)" for q using keepsD(1)[OF R(2)] pg[OF that] by blast
  ultimately show ?thesis using A l d by (auto simp: btree_ok_def tree_def tree_pages_def)
qed

text \<open>A write that leaves a tree with the keys \<open>K\<close>, or an error.\<close>

definition stores :: "(u64 \<Rightarrow> bytes) \<Rightarrow> nat \<Rightarrow> (PageImage \<times> u32) list \<Rightarrow> BTree \<Rightarrow> bytes set \<Rightarrow> BTree \<times> (btree_error + unit) \<Rightarrow> bool" where
  "stores com n recs t K r \<longleftrightarrow> snd r \<in> Inr ` {()} \<union> Inl ` write_errors
     \<and> (snd r = Inr () \<longrightarrow> (\<exists>xs ls gss. btree_ok com n recs xs 0 (fst r) ls gss \<and> set (all_keys ls) = K)
          \<and> fst r = t\<lparr>t_pgr := t_pgr (fst r), t_root := t_root (fst r)\<rparr> \<and> root_kept t (fst r))"

lemma stores_error: "e \<in> write_errors \<Longrightarrow> stores com n recs t K (t', Inl e)"
  by (auto simp: stores_def)

lemma stores_reads:
  assumes "reads t u" "stores com n recs u K r"
  shows "stores com n recs t K r"
proof -
  have u: "u = t\<lparr>t_pgr := t_pgr u\<rparr>" using assms(1) by (auto simp: reads_def)
  have "fst r = t\<lparr>t_pgr := t_pgr (fst r), t_root := t_root (fst r)\<rparr>" if "fst r = u\<lparr>t_pgr := t_pgr (fst r), t_root := t_root (fst r)\<rparr>"
    using that by (subst (asm) u) simp
  then show ?thesis using assms(2) root_kept_reads[OF assms(1)] by (auto simp: stores_def)
qed

lemma stores_grown:
  assumes g: "grown com n recs 0 u ys gss (fences ls) r" and u: "u = t\<lparr>t_pgr := t_pgr u\<rparr>" "croot u = croot t" and K: "set (all_keys ls) = K"
    and b: "\<And>xs' gss'. regrown com n recs 0 u ys gss (fences ls) (fst r) xs' gss' \<Longrightarrow> btree_ok com n recs xs' 0 (fst r) ls gss'"
  shows "stores com n recs t K r"
proof -
  have "fst r = t\<lparr>t_pgr := t_pgr (fst r), t_root := t_root (fst r)\<rparr>" if "fst r = u\<lparr>t_pgr := t_pgr (fst r), t_root := t_root (fst r)\<rparr>"
    using that by (subst (asm) u(1)) simp
  then show ?thesis using g b K root_kept_from[OF u] unfolding stores_def grown_def regrown_def by blast
qed

text \<open>The tree with one of its leaves singled out.\<close>

lemma btree_leafD:
  assumes ok: "btree_ok com n recs xs k t (LA @ (l, q, ks) # LB) gss" and r: "t_root t \<noteq> NullPage"
  shows "in_use (t_pgr t) xs q" "leaf_page (node t q) ks (chain_head LB)" "sorted_wrt (<) ks"
    "y \<in> set LA \<union> set LB \<Longrightarrow> fst (snd y) \<noteq> q" "y \<in> set LA \<union> set LB \<Longrightarrow> in_use (t_pgr t) xs (fst (snd y))"
    "y \<in> insert (l, q, ks) (set LA \<union> set LB) \<Longrightarrow> fst (snd y) \<notin> set (level_pages gss)" "distinct (leaf_pages (LA @ (l, q, ks) # LB))"
    "p \<in> set (leaf_pages (LA @ (l, q, ks) # LB)) \<Longrightarrow> in_use (t_pgr t) xs p \<and> p \<notin> set (level_pages gss)"
proof -
  note T = btree_treeD[OF ok r]
  have d: "distinct (leaf_pages (LA @ (l, q, ks) # LB))" "set (leaf_pages (LA @ (l, q, ks) # LB)) \<inter> set (level_pages gss) = {}"
    using T(6) by (auto simp: tree_pages_def)
  have u: "in_use (t_pgr t) xs p" if "p \<in> set (leaf_pages (LA @ (l, q, ks) # LB))" for p
    by (rule T(8)) (use that in \<open>auto simp: tree_pages_def\<close>)
  show "in_use (t_pgr t) xs q" by (rule u) simp
  show "leaf_page (node t q) ks (chain_head LB)" using leaf_chain_tail[OF T(2)] by simp
  show "sorted_wrt (<) ks" using T(3) by (simp add: bounded_append)
  show "distinct (leaf_pages (LA @ (l, q, ks) # LB))" by (rule d(1))
  show "p \<in> set (leaf_pages (LA @ (l, q, ks) # LB)) \<Longrightarrow> in_use (t_pgr t) xs p \<and> p \<notin> set (level_pages gss)"
    using u d(2) by blast
  have m: "fst (snd y) \<in> set (leaf_pages (LA @ (l, q, ks) # LB))" if "y \<in> insert (l, q, ks) (set LA \<union> set LB)" for y
    using that by (auto simp: image_iff)
  show "fst (snd y) \<notin> set (level_pages gss)" if "y \<in> insert (l, q, ks) (set LA \<union> set LB)" using m[OF that] d(2) by blast
  show "in_use (t_pgr t) xs (fst (snd y))" if "y \<in> set LA \<union> set LB" using u m[of y] that by blast
  have "q \<notin> (fst \<circ> snd) ` (set LA \<union> set LB)" using d(1) by auto
  then show "fst (snd y) \<noteq> q" if "y \<in> set LA \<union> set LB" using that by (metis comp_apply image_eqI)
qed

lemma btree_above: "btree_ok com n recs xs k t ls gss \<Longrightarrow> t_root t \<noteq> NullPage \<Longrightarrow> root_keeper (t_onRoot t) \<Longrightarrow> above com n recs xs k t gss (fences ls)"
  using btree_treeD[of com n recs xs k t ls gss] by (auto simp: above_def tree_pages_def)

section \<open>Rewriting a leaf\<close>

lemma rewrite_leaf:
  assumes ok: "btree_ok com n recs xs (Suc k) t (LA @ (l, q, ks) # LB) gss" and r: "t_root t \<noteq> NullPage" and rk: "root_keeper (t_onRoot t)"
    and b: "bounded (LA @ (l, q, ks') # LB)"
  shows "stores com n recs t (set (all_keys (LA @ (l, q, ks') # LB))) (writeLeaf q ks' (chain_head LB) t)"
proof -
  let ?ls = "LA @ (l, q, ks) # LB" let ?ls' = "LA @ (l, q, ks') # LB" let ?r = "writeLeaf q ks' (chain_head LB) t"
  note T = btree_treeD[OF ok r] and L = btree_leafD[OF ok r]
  note w = writeLeaf_ok[OF T(7) L(1), of ks' "chain_head LB"]
  have "\<exists>xs ls gss. btree_ok com n recs xs 0 (fst ?r) ls gss \<and> set (all_keys ls) = set (all_keys ?ls')" if "snd ?r = Inr ()"
  proof -
    have W: "tok com n recs xs k (fst ?r)" "keeps {q} (t_pgr t) xs (t_pgr (fst ?r)) xs" "leaf_page (node (fst ?r) q) ks' (chain_head LB)"
        "fst ?r = t\<lparr>t_pgr := t_pgr (fst ?r)\<rparr>" using w that by (auto simp: writes_page_def)
    have f: "fences ?ls' = fences ?ls" by simp
    have "above com n recs xs 0 (fst ?r) gss (fences ?ls')" unfolding f
      by (rule above_keeps[OF btree_above[OF ok r rk] W(2) tok_mono[OF W(1)] W(4)]) (use L(6)[of "(l, q, ks)"] in auto)
    note rg = regrown_refl[OF this]
    have c: "node (fst ?r) (fst (snd y)) = node t (fst (snd y))" if "y \<in> set LA \<union> set LB" for y
      using keepsD(2)[OF W(2) L(5)[OF that]] L(4)[OF that] by simp
    have "leaf_chain (node t) LB" using leaf_chain_tail[of "node t" "LA @ [(l, q, ks)]" LB] T(2) by simp
    then have "leaf_chain (node (fst ?r)) ((l, q, ks') # LB)" using W(3) leaf_chain_same[of "node t" LB] c by simp
    then have lc: "leaf_chain (node (fst ?r)) ?ls'" by (intro leaf_chain_replace[OF T(2)]) (auto simp: c)
    have "btree_ok com n recs xs 0 (fst ?r) ?ls' gss"
    proof (rule rebuilt[OF rg lc _ b])
      show "ordered (fences ?ls')" using T(4) f by simp
      show "distinct (leaf_pages ?ls')" using L(7) by simp
      show "in_use (t_pgr (fst ?r)) xs y \<and> y \<notin> set (level_pages gss)" if "y \<in> set (leaf_pages ?ls')" for y
        using keepsD(1)[OF W(2)] L(8)[of y] that by simp
    qed simp
    then show ?thesis by blast
  qed
  moreover have "root_kept t (fst ?r)" if "fst ?r = t\<lparr>t_pgr := t_pgr (fst ?r)\<rparr>" "croot (fst ?r) = croot t"
    using root_kept_from[OF that root_kept_refl] .
  ultimately show ?thesis using w by (auto simp: stores_def writes_page_def)
qed

section \<open>Splitting a leaf\<close>

lemma bounded_split:
  assumes b: "bounded (LA @ (l, q, ks) # LB)" and m: "0 < m" "m < length ks"
  shows "bounded (LA @ (l, q, take m ks) # (ks ! m, r, drop m ks) # LB)" "l < ks ! m" "y \<in> set LB \<Longrightarrow> ks ! m < fst y"
proof -
  have B: "sorted_wrt (<) ks" "\<forall>k \<in> set ks. l \<le> k \<and> (\<forall>y \<in> set LB. k < fst y)" "bounded LA" "bounded LB"
      "\<forall>k \<in> set (all_keys LA). k < l \<and> (\<forall>y \<in> set LB. k < fst y)"
    using b by (auto simp: bounded_append)
  have lt: "k < ks ! m" if "k \<in> set (take m ks)" for k
    using that B(1) m by (auto simp: in_set_conv_nth sorted_wrt_iff_nth_less)
  have ge: "ks ! m \<le> k" if k: "k \<in> set (drop m ks)" for k
  proof -
    obtain i where i: "i < length ks - m" "k = ks ! (m + i)" using k by (auto simp: in_set_conv_nth)
    then show ?thesis using B(1) m by (cases i) (auto simp: sorted_wrt_iff_nth_less intro: less_imp_le)
  qed
  have "ks ! 0 \<in> set (take m ks)" using m by (cases ks; cases m) auto
  then show l: "l < ks ! m" using lt B(2) m by (meson in_set_takeD order_le_less_trans)
  show "y \<in> set LB \<Longrightarrow> ks ! m < fst y" using B(2) m by simp
  have s: "sorted_wrt (<) (take m ks)" "sorted_wrt (<) (drop m ks)" using B(1) by (auto intro: sorted_wrt_take sorted_wrt_drop)
  have sub: "set (take m ks) \<subseteq> set ks" "set (drop m ks) \<subseteq> set ks" by (auto dest: in_set_takeD in_set_dropD)
  show "bounded (LA @ (l, q, take m ks) # (ks ! m, r, drop m ks) # LB)"
    using B s lt ge sub l by (fastforce simp: bounded_append)
qed

lemma split_stores:
  assumes ok: "btree_ok com n recs xs k t (LA @ (l, q, ks) # LB) gss" and r: "t_root t \<noteq> NullPage" and rk: "root_keeper (t_onRoot t)"
    and b: "bounded (LA @ (l, q, ks') # LB)" and m: "0 < m" "m < length ks'"
    and h: "halved com n recs (3 * length gss + 3) t xs q (\<lambda>b. leaf_page b (take m ks') p) (\<lambda>b. leaf_page b (drop m ks') (chain_head LB)) u ys p"
    and path: "list_all2 (on_path key) gss path" and own: "owns key (fences (LA @ (l, q, ks) # LB)) (fences LA) (l, q) (fences LB)"
  shows "stores com n recs t (set (all_keys (LA @ (l, q, ks') # LB))) (insertIntoParent path q (ks' ! m) p u)"
proof -
  let ?ls = "LA @ (l, q, ks) # LB" let ?ls' = "LA @ (l, q, take m ks') # (ks' ! m, p, drop m ks') # LB"
  note T = btree_treeD[OF ok r] and L = btree_leafD[OF ok r] and B = bounded_split[OF b m]
  have H: "tok com n recs ys (3 * length gss + 3) u" "keeps {q} (t_pgr t) xs (t_pgr u) ys" "u = t\<lparr>t_pgr := t_pgr u\<rparr>"
      "\<not> in_use (t_pgr t) xs p" "in_use (t_pgr u) ys p" "in_use (t_pgr u) ys q"
      "leaf_page (node u q) (take m ks') p" "leaf_page (node u p) (drop m ks') (chain_head LB)" "croot u = croot t"
    using h by (auto simp: halved_def)
  have ab: "above com n recs ys (3 * length gss + 3 + 0) u gss (fences ?ls)"
    unfolding add_0_right by (rule above_keeps[OF btree_above[OF ok r rk] H(2,1,3)]) (use L(6)[of "(l, q, ks)"] in auto)
  have up: "\<forall>y \<in> set (fences LB). ks' ! m < fst y" using B(3) by auto
  have fs: "fences ?ls' = fences LA @ (l, q) # (ks' ! m, p) # fences LB" "fences ?ls = fences LA @ (l, q) # fences LB" by simp_all
  note G = insertIntoParent_ok[OF ab T(4) path own B(2) up, of p, folded fs(1)]
  have c: "node u (fst (snd y)) = node t (fst (snd y))" if "y \<in> set LA \<union> set LB" for y
    using keepsD(2)[OF H(2) L(5)[OF that]] L(4)[OF that] by simp
  have "leaf_chain (node t) LB" using leaf_chain_tail[of "node t" "LA @ [(l, q, ks)]" LB] T(2) by simp
  then have "leaf_chain (node u) ((l, q, take m ks') # (ks' ! m, p, drop m ks') # LB)" using H(7,8) leaf_chain_same[of "node t" LB] c by simp
  then have lc: "leaf_chain (node u) ?ls'" by (intro leaf_chain_replace[OF T(2)]) (auto simp: c)
  have ord: "ordered (fences ?ls')" unfolding fs(1) by (rule ordered_insert[OF _ B(2) up]) (use T(4) fs(2) in simp)
  have np: "p \<notin> set (leaf_pages ?ls)" "p \<notin> set (level_pages gss)" 
    using L(8)[of p] H(4) T(8)[of p] by (auto simp: tree_pages_def)
  have d: "distinct (leaf_pages ?ls')" using L(7) np(1) by auto
  have pg: "in_use (t_pgr u) ys y \<and> y \<notin> set (level_pages gss)" if "y \<in> set (leaf_pages ?ls')" for y
  proof (cases "y = p")
    case False
    then have "y \<in> set (leaf_pages ?ls)" using that by auto
    then show ?thesis using keepsD(1)[OF H(2)] L(8) by blast
  qed (use H(5) np(2) in simp)
  have "set (take m ks') \<union> set (drop m ks') = set ks'" by (metis append_take_drop_id set_append)
  then have K: "set (all_keys ?ls') = set (all_keys (LA @ (l, q, ks') # LB))" by auto
  show ?thesis by (rule stores_grown[OF G H(3,9) K rebuilt[OF _ lc _ B(1) ord d pg]]) simp_all
qed

lemma splitLeaf_ok:
  assumes ok: "btree_ok com n recs xs (3 * length gss + 6) t (LA @ (l, q, ks) # LB) gss" and r: "t_root t \<noteq> NullPage" and rk: "root_keeper (t_onRoot t)"
    and b: "bounded (LA @ (l, q, ks') # LB)" and two: "2 \<le> length ks'"
    and path: "list_all2 (on_path key) gss path" and own: "owns key (fences (LA @ (l, q, ks) # LB)) (fences LA) (l, q) (fences LB)"
  shows "stores com n recs t (set (all_keys (LA @ (l, q, ks') # LB))) (splitLeaf q ks' (chain_head LB) path t)"
proof -
  let ?m = "length ks' div 2" let ?j = "3 * length gss + 3"
  have m: "0 < ?m" "?m < length ks'" using two by auto
  note T = btree_treeD[OF ok r] and L = btree_leafD[OF ok r] and B = bounded_split[OF b m]
  have tk: "tok com n recs xs (Suc (Suc (Suc ?j))) t" by (rule tok_mono[OF T(7)]) simp
  obtain t1 r1 where r1: "newLeaf (drop ?m ks') (chain_head LB) t = (t1, r1)" by (cases "newLeaf (drop ?m ks') (chain_head LB) t")
  note add = newLeaf_ok[OF tk, of "drop ?m ks'" "chain_head LB", unfolded r1]
  have ne: "drop ?m ks' \<noteq> []" "drop ?m ks' ! 0 = ks' ! ?m" using m by auto
  show ?thesis
  proof (cases r1)
    case (Inl e)
    then show ?thesis using add r1 ne by (auto simp: splitLeaf_def Let_def adds_page_def intro: stores_error)
  next
    case (Inr p)
    obtain u res where u: "writeLeaf q (take ?m ks') p t1 = (u, res)" by (cases "writeLeaf q (take ?m ks') p t1")
    have w: "writes_page com n recs ys ?j t1 q (\<lambda>b. leaf_page b (take ?m ks') p) (u, res)"
      if "tok com n recs ys (Suc ?j) t1" "in_use (t_pgr t1) ys q" for ys
      using writeLeaf_ok[OF that, of "take ?m ks'" p] unfolding u .
    note hv = halve[OF add[unfolded Inr] L(1), of "\<lambda>p b. leaf_page b (take ?m ks') p" u res, OF w]
    have "stores com n recs t (set (all_keys (LA @ (l, q, ks') # LB))) (insertIntoParent path q (ks' ! ?m) p u)" if ok': "res = Inr ()"
    proof -
      obtain ys where h: "halved com n recs ?j t xs q (\<lambda>b. leaf_page b (take ?m ks') p) (\<lambda>b. leaf_page b (drop ?m ks') (chain_head LB)) u ys p"
        using hv(2)[OF _ _ ok'] by blast
      show ?thesis by (rule split_stores[OF ok r rk b m h path own])
    qed
    moreover have "res \<in> Inr ` {()} \<union> Inl ` write_errors" using hv(1) by blast
    ultimately show ?thesis using r1 Inr u ne by (auto simp: splitLeaf_def Let_def intro: stores_error)
  qed
qed

section \<open>Put\<close>

lemma key_place:
  assumes "sorted_wrt (<) ks"
  shows "sort_Search (length ks) (\<lambda>i. (full :: bytes) \<le> ks ! i) = length (takeWhile (\<lambda>k. k < full) ks)"
proof (rule sort_Search_split)
  let ?w = "takeWhile (\<lambda>k. k < full) ks"
  show "length ?w \<le> length ks" by (rule length_takeWhile_le)
  show "\<not> full \<le> ks ! i" if "i < length ?w" for i
    using that nth_mem[OF that] set_takeWhileD[of "?w ! i" "\<lambda>k. k < full" ks] by (simp add: takeWhile_nth not_le)
  show "full \<le> ks ! i" if "length ?w \<le> i" "i < length ks" for i
  proof -
    have w: "length ?w < length ks" using that by simp
    have "full \<le> ks ! length ?w" using nth_length_takeWhile[OF w] by simp
    moreover have "ks ! length ?w \<le> ks ! i" using assms that by (cases "i = length ?w") (auto simp: sorted_wrt_iff_nth_less intro: less_imp_le)
    ultimately show ?thesis by (rule order_trans)
  qed
qed

lemma key_there:
  fixes full :: bytes
  assumes "sorted_wrt (<) ks"
  shows "length (takeWhile (\<lambda>k. k < full) ks) < length ks \<and> ks ! length (takeWhile (\<lambda>k. k < full) ks) = full \<longleftrightarrow> full \<in> set ks"
  using assms
proof (induction ks)
  case (Cons k ks)
  then show ?case by (cases "k < full") auto
qed simp

lemma key_inserted:
  fixes full :: bytes
  assumes "sorted_wrt (<) ks" "full \<notin> set ks"
  shows "set (insert_at (length (takeWhile (\<lambda>k. k < full) ks)) full ks) = insert full (set ks)"
    "sorted_wrt (<) (insert_at (length (takeWhile (\<lambda>k. k < full) ks)) full ks)"
proof -
  let ?T = "takeWhile (\<lambda>k. k < full) ks" let ?D = "dropWhile (\<lambda>k. k < full) ks"
  have e: "insert_at (length ?T) full ks = ?T @ full # ?D"
    by (simp add: insert_at_def takeWhile_eq_take[symmetric] dropWhile_eq_drop[symmetric])
  have u: "set ?T \<union> set ?D = set ks" by (metis set_append takeWhile_dropWhile_id)
  then show "set (insert_at (length ?T) full ks) = insert full (set ks)" unfolding e by auto
  have "sorted_wrt (<) (?T @ ?D)" using assms(1) by simp
  then have s: "sorted_wrt (<) ?T" "sorted_wrt (<) ?D" "\<forall>x \<in> set ?T. \<forall>y \<in> set ?D. x < y" unfolding sorted_wrt_append by blast+
  have "full < y" if y: "y \<in> set ?D" for y
  proof -
    obtain h D where D: "?D = h # D" using y by (cases ?D) auto
    have "\<not> h < full" using hd_dropWhile[of "\<lambda>k. k < full" ks] D by simp
    moreover have "h \<noteq> full" using assms(2) u D by auto
    ultimately show ?thesis using s(2) y D by (auto intro: order_less_trans)
  qed
  then show "sorted_wrt (<) (insert_at (length ?T) full ks)" unfolding e using s by (auto simp: sorted_wrt_append dest: set_takeWhileD)
qed

text \<open>The leaf a key belongs to, found and read.\<close>

definition at_leaf :: "bytes \<Rightarrow> leaf list \<Rightarrow> level list \<Rightarrow> u32 \<times> u32 list \<Rightarrow> leaf list \<Rightarrow> leaf \<Rightarrow> leaf list \<Rightarrow> bool" where
  "at_leaf key ls gss r LA x LB \<longleftrightarrow> ls = LA @ x # LB \<and> fst r = fst (snd x) \<and> list_all2 (on_path key) gss (snd r)
     \<and> owns key (fences ls) (fences LA) (fst x, fst (snd x)) (fences LB)
     \<and> (\<forall>k \<in> set (all_keys LA). k < key) \<and> (\<forall>k \<in> set (all_keys LB). key < k)"

lemma descent_leaf:
  assumes "descent key gss (fences ls) [] r" "bounded ls"
  obtains LA l ks LB where "at_leaf key ls gss r LA (l, fst r, ks) LB"
proof -
  obtain A y B path where d: "r = (snd y, path)" "list_all2 (on_path key) gss path" "owns key (fences ls) A y B"
    using assms(1) by (auto simp: descent_def)
  obtain LA ks LB where l: "ls = LA @ (fst y, snd y, ks) # LB" "\<forall>k \<in> set (all_keys LA). k < key" "\<forall>k \<in> set (all_keys LB). key < k"
      "fences LA = A" "fences LB = B" by (rule owns_leaf[OF d(3) assms(2)]) blast
  have "at_leaf key ls gss r LA (fst y, fst r, ks) LB" using d l by (simp add: at_leaf_def)
  then show ?thesis by (rule that)
qed

text \<open>A leaf with one more key.\<close>

lemma bounded_insert:
  assumes b: "bounded (LA @ (l, q, ks) # LB)" and own: "owns full (fences (LA @ (l, q, ks) # LB)) (fences LA) (l, q) (fences LB)"
    and ks': "sorted_wrt (<) ks'" "set ks' \<subseteq> insert full (set ks)"
  shows "bounded (LA @ (l, q, ks') # LB)"
proof -
  have "\<forall>k \<in> set ks'. l \<le> k \<and> (\<forall>y \<in> set LB. k < fst y)" using b own ks'(2) by (auto simp: bounded_append owns_def)
  then show ?thesis using b ks'(1) by (auto simp: bounded_append)
qed

lemma fits_alone: "geometry t \<Longrightarrow> int (length full + slotDirEntry) \<le> t_maxKey t \<Longrightarrow> leafFits t [full]"
  by (simp add: geometry_def leafFits_def)

definition leaf_step :: "bytes \<Rightarrow> u32 \<times> u32 list \<Rightarrow> BTree \<Rightarrow> BTree \<times> (btree_error + unit)" where
  "leaf_step full v t = andThen (loadLeaf (fst v) t) (\<lambda>(ks, rightSib) t.
     let ps = sort_Search (length ks) (\<lambda>i. bytes_cmp (ks ! i) full \<ge> 0) in
     if ps < length ks \<and> ks ! ps = full then (t, Inr ())
     else let ks' = insert_at ps full ks in
       if leafFits t ks' then writeLeaf (fst v) ks' rightSib t else splitLeaf (fst v) ks' rightSib (snd v) t)"

lemma put_at_leaf:
  assumes ok: "btree_ok com n recs xs (3 * length gss + 6) t ls gss" and r: "t_root t \<noteq> NullPage" and rk: "root_keeper (t_onRoot t)"
    and f: "int (length full + slotDirEntry) \<le> t_maxKey t" and at: "at_leaf full ls gss v LA (l, fst v, ks) LB"
  shows "stores com n recs t (insert full (set (all_keys ls))) (leaf_step full v t)"
proof -
  have ls: "ls = LA @ (l, fst v, ks) # LB" and path: "list_all2 (on_path full) gss (snd v)"
    and own: "owns full (fences (LA @ (l, fst v, ks) # LB)) (fences LA) (l, fst v) (fences LB)" using at by (auto simp: at_leaf_def)
  note ok = ok[unfolded ls]
  note L = btree_leafD[OF ok r] and T = btree_treeD[OF ok r]
  let ?i = "length (takeWhile (\<lambda>k. k < full) ks)" let ?ks = "insert_at ?i full ks"
  have q: "unat (fst v) < cnt (t_pgr t)" using L(1) by (simp add: in_use_def)
  obtain t1 r1 where r1: "loadLeaf (fst v) t = (t1, r1)" by (cases "loadLeaf (fst v) t")
  have d1: "reads t t1" "r1 \<in> {Inl (ErrPager ErrPoolExhausted), Inr (ks, chain_head LB)}"
    using loadLeaf_reads[OF T(7) q L(2)] r1 by (auto simp: delivers_def)
  note ok1 = btree_ok_reads[OF ok d1(1)]
  have t1: "t_root t1 \<noteq> NullPage" "root_keeper (t_onRoot t1)" "int (length full + slotDirEntry) \<le> t_maxKey t1" using r rk f readsD[OF d1(1)] by simp_all
  have geo: "geometry t1" using btree_treeD(7)[OF ok1 t1(1)] by (simp add: tok_def)
  have there: "stores com n recs t1 (insert full (set (all_keys ls))) (t1, Inr ())" if "full \<in> set ks"
  proof -
    have "btree_ok com n recs xs 0 t1 (LA @ (l, fst v, ks) # LB) gss" using ok1 tok_mono by (auto simp: btree_ok_def)
    moreover have "insert full (set (all_keys ls)) = set (all_keys (LA @ (l, fst v, ks) # LB))" using that by (auto simp: ls)
    ultimately have "\<exists>xs ls' gss. btree_ok com n recs xs 0 t1 ls' gss \<and> set (all_keys ls') = insert full (set (all_keys ls))" by metis
    then show ?thesis by (simp add: stores_def root_kept_refl)
  qed
  have put: "stores com n recs t1 (insert full (set (all_keys ls)))
      (if leafFits t1 ?ks then writeLeaf (fst v) ?ks (chain_head LB) t1 else splitLeaf (fst v) ?ks (chain_head LB) (snd v) t1)" if n: "full \<notin> set ks"
  proof -
    note I = key_inserted[OF L(3) n]
    have b: "bounded (LA @ (l, fst v, ?ks) # LB)" by (rule bounded_insert[OF T(3) own I(2)]) (simp add: I(1))
    have K: "set (all_keys (LA @ (l, fst v, ?ks) # LB)) = insert full (set (all_keys ls))" using I(1) by (auto simp: ls)
    have two: "2 \<le> length ?ks" if "\<not> leafFits t1 ?ks" using that fits_alone[OF geo t1(3)] by (cases ks) (auto simp: insert_at_def)
    have ok2: "btree_ok com n recs xs (Suc 0) t1 (LA @ (l, fst v, ks) # LB) gss" using ok1 tok_mono by (auto simp: btree_ok_def)
    show ?thesis using rewrite_leaf[OF ok2 t1(1,2) b] splitLeaf_ok[OF ok1 t1(1,2) b two path own] unfolding K by simp
  qed
  have "leaf_step full v t = (case r1 of Inl e \<Rightarrow> (t1, Inl e) | Inr _ \<Rightarrow> if full \<in> set ks then (t1, Inr ()) else
      if leafFits t1 ?ks then writeLeaf (fst v) ?ks (chain_head LB) t1 else splitLeaf (fst v) ?ks (chain_head LB) (snd v) t1)"
    using d1(2) key_there[OF L(3), of full] key_place[OF L(3), of full] by (auto simp: leaf_step_def r1 Let_def)
  then show ?thesis using d1(2) stores_reads[OF d1(1) there] stores_reads[OF d1(1) put] by (auto intro: stores_error)
qed

lemma put_leaf_ok:
  assumes ok: "btree_ok com n recs xs (3 * length gss + 6) t ls gss" and r: "t_root t \<noteq> NullPage" and rk: "root_keeper (t_onRoot t)"
    and f: "int (length full + slotDirEntry) \<le> t_maxKey t"
  shows "\<exists>res. put_leaf full t = Some res \<and> stores com n recs t (insert full (set (all_keys ls))) res"
proof -
  obtain t1 d where d: "descend full t = Some (t1, d)" "reads t t1" "d = Inl (ErrPager ErrPoolExhausted) \<or> (\<exists>v. d = Inr v \<and> descent full gss (fences ls) [] v)"
    using descend_finds[OF ok r, of full] by (auto simp: finds_def)
  have full: "\<exists>res. put_leaf full t = Some res \<and> stores com n recs t K res" if "d = Inl (ErrPager ErrPoolExhausted)" for K
    using d(1) that by (auto simp: put_leaf_def intro: stores_error)
  show ?thesis
  proof (cases d)
    case (Inl e)
    then show ?thesis using d(3) full by auto
  next
    case (Inr v)
    note ok1 = btree_ok_reads[OF ok d(2)]
    have r1: "t_root t1 \<noteq> NullPage" "root_keeper (t_onRoot t1)" "int (length full + slotDirEntry) \<le> t_maxKey t1" using r rk f readsD[OF d(2)] by simp_all
    note T = btree_treeD[OF ok1 r1(1)]
    obtain LA l ks LB where at: "at_leaf full ls gss v LA (l, fst v, ks) LB" by (rule descent_leaf[OF _ T(3)]) (use d(3) Inr in auto)
    note P = put_at_leaf[OF ok1 r1 at]
    have "put_leaf full t = Some (leaf_step full v t1)" using d(1) Inr by (cases v) (simp add: put_leaf_def leaf_step_def cong: if_cong)
    then show ?thesis using stores_reads[OF d(2) P] by blast
  qed
qed

section \<open>Errors\<close>

lemma leafFits_cells: "geometry t \<Longrightarrow> leafFits t ks \<longleftrightarrow> cells_size ks + 36 \<le> p_pageSize (t_pgr t)"
  by (auto simp: leafFits_def geometry_def cells_size_def)

lemma cells_size_insert: "cells_size (insert_at i x ks) = cells_size (x # ks)"
proof -
  have "cells_size (take i ks) + cells_size (drop i ks) = cells_size ks" by (simp only: cells_size_simps(3)[symmetric] append_take_drop_id)
  then show ?thesis by (simp add: insert_at_def)
qed

lemma leaf_page_size: "leaf_page b ks rs \<Longrightarrow> cells_size ks \<le> blen b"
  using used_live[of b ks] used_le[of b] page_okD(4,5)[of b] by (simp add: leaf_page_def)

text \<open>The leaf the descent ends in has no room for the key.\<close>

definition leaf_splits :: "bytes \<Rightarrow> BTree \<Rightarrow> bool" where
  "leaf_splits full t \<longleftrightarrow>
     (case descend full t of
        Some (u, Inr v) \<Rightarrow> (case loadLeaf (fst v) u of (w, Inr (ks, _)) \<Rightarrow> full \<notin> set ks \<and> \<not> leafFits w (full # ks) | _ \<Rightarrow> False)
      | _ \<Rightarrow> False)"

lemma leaf_step_clean:
  assumes ok: "btree_ok com n recs xs k t ls gss" and r: "t_root t \<noteq> NullPage" and at: "at_leaf full ls gss v LA (l, fst v, ks) LB"
    and fit: "\<And>w ks' rs. loadLeaf (fst v) t = (w, Inr (ks', rs)) \<Longrightarrow> full \<notin> set ks' \<Longrightarrow> leafFits w (full # ks')"
  shows "clean t (leaf_step full v t)"
proof -
  have ls: "ls = LA @ (l, fst v, ks) # LB" using at by (simp add: at_leaf_def)
  note L = btree_leafD[OF ok[unfolded ls] r] and T = btree_treeD[OF ok[unfolded ls] r]
  let ?i = "length (takeWhile (\<lambda>k. k < full) ks)" let ?ks = "insert_at ?i full ks"
  have q: "unat (fst v) < cnt (t_pgr t)" using L(1) by (simp add: in_use_def)
  obtain t1 r1 where r1: "loadLeaf (fst v) t = (t1, r1)" by (cases "loadLeaf (fst v) t")
  have d1: "reads t t1" "r1 \<in> {Inl (ErrPager ErrPoolExhausted), Inr (ks, chain_head LB)}"
    using loadLeaf_reads[OF T(7) q L(2)] r1 by (auto simp: delivers_def)
  note t1 = readsD(11)[OF d1(1) T(7)]
  have g: "geometry t1" using t1 by (simp add: tok_def)
  have w: "leafFits t1 ?ks \<and> clean t1 (writeLeaf (fst v) ?ks (chain_head LB) t1)" if f: "leafFits t1 (full # ks)"
  proof -
    have z: "cells_size ?ks + 36 \<le> p_pageSize (t_pgr t1)" using f unfolding leafFits_cells[OF g] cells_size_insert .
    have "unat (fst v) < cnt (t_pgr t1)" using q readsD(1)[OF d1(1)] by simp
    then show ?thesis using writeLeaf_clean[OF t1 _ z] z leafFits_cells[OF g] by blast
  qed
  have "leaf_step full v t = (case r1 of Inl e \<Rightarrow> (t1, Inl e) | Inr _ \<Rightarrow> if full \<in> set ks then (t1, Inr ()) else
      if leafFits t1 ?ks then writeLeaf (fst v) ?ks (chain_head LB) t1 else splitLeaf (fst v) ?ks (chain_head LB) (snd v) t1)"
    using d1(2) key_there[OF L(3), of full] key_place[OF L(3), of full] by (auto simp: leaf_step_def r1 Let_def)
  moreover have "clean t (writeLeaf (fst v) ?ks (chain_head LB) t1)" if "leafFits t1 (full # ks)" using w[OF that] clean_reads[OF d1(1)] by blast
  ultimately show ?thesis using d1 w fit[of t1 ks "chain_head LB"] r1 by (auto simp: clean_full)
qed

lemma put_leaf_clean:
  assumes ok: "btree_ok com n recs xs k t ls gss" and r: "t_root t \<noteq> NullPage" and ns: "\<not> leaf_splits full t" and p: "put_leaf full t = Some res"
  shows "clean t res"
proof -
  obtain t1 d where d: "descend full t = Some (t1, d)" "reads t t1" "d = Inl (ErrPager ErrPoolExhausted) \<or> (\<exists>v. d = Inr v \<and> descent full gss (fences ls) [] v)"
    using descend_finds[OF ok r, of full] by (auto simp: finds_def)
  show ?thesis
  proof (cases d)
    case (Inl e)
    then show ?thesis using d p by (auto simp: put_leaf_def clean_full)
  next
    case (Inr v)
    note ok1 = btree_ok_reads[OF ok d(2)]
    have r1: "t_root t1 \<noteq> NullPage" using r readsD(5)[OF d(2)] by simp
    obtain LA l ks LB where at: "at_leaf full ls gss v LA (l, fst v, ks) LB"
      by (rule descent_leaf[OF _ btree_treeD(3)[OF ok1 r1]]) (use d(3) Inr in auto)
    have "put_leaf full t = Some (leaf_step full v t1)" using d(1) Inr by (cases v) (simp add: put_leaf_def leaf_step_def cong: if_cong)
    moreover have "clean t1 (leaf_step full v t1)"
      by (rule leaf_step_clean[OF ok1 r1 at]) (use ns d(1) Inr in \<open>auto simp: leaf_splits_def\<close>)
    ultimately show ?thesis using p clean_reads[OF d(2)] by simp
  qed
qed

end
