(* ===== verification/Btree_Index.thy ===== *)
theory Btree_Index
  imports Btree_Put "HOL-Library.Sublist"
begin

text \<open>
  The index as its clients see it: a set of entries, a field key with a record identifier each, on
  which \<^verbatim>\<open>Put\<close>, \<^verbatim>\<open>Delete\<close> and \<^verbatim>\<open>Get\<close> act.
\<close>

section \<open>Room\<close>

text \<open>Room for the page writes of one insertion: three for each level, and there are no more levels than pages.\<close>

definition spacious :: "Pager \<Rightarrow> bool" where
  "spacious p \<longleftrightarrow> room (3 * cnt p + 6) p"

lemma spine_length: "spine c us gss fs \<Longrightarrow> us \<noteq> [] \<Longrightarrow> length gss \<le> length (level_pages gss)"
proof (induction gss arbitrary: us)
  case (Cons gs gss)
  obtain x gs' where gs: "gs = x # gs'" using Cons.prems by (cases gs) auto
  then have "children gs \<noteq> []" using Cons.prems(1) by (auto simp: nodes_ok_def)
  then have "length gss \<le> length (level_pages gss)" using Cons.IH[of "children gs"] Cons.prems(1) by simp
  then show ?case using gs by simp
qed simp

lemma in_use_count:
  assumes "distinct qs" "\<forall>q \<in> set qs. in_use p xs q"
  shows "length qs \<le> cnt p"
proof -
  have "inj_on unat (set qs)" by (rule inj_onI) (simp add: word_unat_eq_iff)
  then have "length qs = card (unat ` set qs)" using assms(1) by (simp add: card_image distinct_card)
  also have "\<dots> \<le> card {..<cnt p}" by (rule card_mono) (use assms(2) in \<open>auto simp: in_use_def\<close>)
  finally show ?thesis by simp
qed

lemma btree_spacious:
  assumes ok: "btree_ok com n recs xs k t ls gss" and s: "spacious (t_pgr t)"
  shows "btree_ok com n recs xs (3 * length gss + 6) t ls gss"
proof -
  have "length gss \<le> cnt (t_pgr t)"
  proof (cases "t_root t = NullPage")
    case False
    note T = btree_treeD[OF ok False]
    have "length gss \<le> length (level_pages gss)" by (rule spine_length[OF T(5)]) simp
    also have "\<dots> \<le> cnt (t_pgr t)" by (rule in_use_count[of _ _ xs]) (use T(6,8) in \<open>auto simp: tree_pages_def\<close>)
    finally show ?thesis .
  qed (use ok in \<open>simp add: btree_ok_def\<close>)
  then have "room (3 * length gss + 6) (t_pgr t)" using s by (auto simp: spacious_def room_def lsn_room_def)
  then show ?thesis using ok by (auto simp: btree_ok_def tok_def)
qed

section \<open>What the index holds\<close>

type_synonym index_entries = "(bytes \<times> rid) set"

abbreviation tree_keys :: "index_entries \<Rightarrow> bytes set" where
  "tree_keys E \<equiv> (\<lambda>(f, r). treeKey f r) ` E"

definition holds_entries :: "(u64 \<Rightarrow> bytes) \<Rightarrow> nat \<Rightarrow> (PageImage \<times> u32) list \<Rightarrow> BTree \<Rightarrow> index_entries \<Rightarrow> bool" where
  "holds_entries com n recs t E \<longleftrightarrow> root_keeper (t_onRoot t)
     \<and> (\<exists>xs ls gss. btree_ok com n recs xs 0 t ls gss \<and> set (all_keys ls) = tree_keys E)"

lemma treeKey_inject [simp]: "treeKey f r = treeKey g s \<longleftrightarrow> f = g \<and> r = s"
  by (metis option.inject treeKey_parts(1,2))

lemma inj_treeKey: "inj_on (\<lambda>(f, r). treeKey f r) E"
  by (auto simp: inj_on_def)

lemma treeKey_mem: "treeKey f r \<in> tree_keys E \<longleftrightarrow> (f, r) \<in> E"
  by (force simp: image_iff)

lemma holds_insert: "tree_keys (insert (f, r) E) = insert (treeKey f r) (tree_keys E)"
  by simp

lemma holds_remove: "tree_keys (E - {(f, r)}) = tree_keys E - {treeKey f r}"
  by (auto simp: image_iff)

lemma holds_reads:
  assumes "holds_entries com n recs t E" "reads t t'"
  shows "holds_entries com n recs t' E"
  using assms btree_ok_reads[OF _ assms(2)] readsD(6)[OF assms(2)] unfolding holds_entries_def by metis

definition writes_entries :: "(u64 \<Rightarrow> bytes) \<Rightarrow> nat \<Rightarrow> (PageImage \<times> u32) list \<Rightarrow> BTree \<Rightarrow> index_entries \<Rightarrow> BTree \<times> (btree_error + unit) \<Rightarrow> bool" where
  "writes_entries com n recs t E r \<longleftrightarrow> snd r \<in> Inr ` {()} \<union> Inl ` write_errors
     \<and> (snd r = Inr () \<longrightarrow> holds_entries com n recs (fst r) E \<and> fst r = t\<lparr>t_pgr := t_pgr (fst r), t_root := t_root (fst r)\<rparr>
          \<and> root_kept t (fst r))"

lemma stores_writes:
  assumes "stores com n recs t (tree_keys E) r" "root_keeper (t_onRoot t)"
  shows "writes_entries com n recs t E r"
proof -
  have "t_onRoot (fst r) = t_onRoot t" if "fst r = t\<lparr>t_pgr := t_pgr (fst r), t_root := t_root (fst r)\<rparr>" by (subst that) simp
  then show ?thesis using assms unfolding stores_def writes_entries_def holds_entries_def by metis
qed

section \<open>Put\<close>

lemma first_leaf:
  assumes ok: "btree_ok com n recs xs 6 t ls gss" and r: "t_root t = NullPage" and rk: "root_keeper (t_onRoot t)"
  shows "stores com n recs t {full} (andThen (newLeaf [full] NullPage t) (\<lambda>root t. (new_root root t, Inr ())))"
proof -
  have tk: "tok com n recs xs (Suc (Suc 1)) t" using ok tok_mono by (auto simp: btree_ok_def)
  obtain t1 r1 where r1: "newLeaf [full] NullPage t = (t1, r1)" by (cases "newLeaf [full] NullPage t")
  note ad = newLeaf_ok[OF tk, of "[full]" NullPage, unfolded r1]
  show ?thesis
  proof (cases r1)
    case (Inl e)
    then show ?thesis using ad r1 by (auto simp: adds_page_def intro: stores_error)
  next
    case (Inr q)
    then obtain ys where q: "tok com n recs ys 1 t1" "in_use (t_pgr t1) ys q" "leaf_page (node t1 q) [full] NullPage" "t1 = t\<lparr>t_pgr := t_pgr t1\<rparr>"
      using ad by (auto simp: adds_page_def)
    let ?u = "new_root q t1" let ?p = "t_onRoot t1 q (t_pgr t1)"
    have o: "t_onRoot t1 = t_onRoot t" by (subst q(4), simp)
    have p: "pager_ok com n recs ?p \<and> free_list ?p ys \<and> room 0 ?p \<and> keeps {} (t_pgr t1) ys ?p ys"
      using rk q(1) unfolding root_keeper_def o tok_def One_nat_def by blast
    have tk: "tok com n recs ys 0 ?u" using p q(1) by (auto simp: tok_def new_root_def geometry_def keeps_def)
    have ku: "keeps {} (t_pgr t1) ys (t_pgr ?u) ys" using p by (simp add: new_root_def)
    have nz: "q \<noteq> NullPage" using q(2) in_use_not_null[of q "PageCount (p_hdr (t_pgr t1))"] by (simp add: in_use_def)
    have "leaf_page (node ?u q) [full] NullPage" using keepsD(2)[OF ku q(2)] q(3) by simp
    then have "tree (node ?u) (t_root ?u) [([], q, [full])] []"
      by (simp add: tree_def ordered_def tree_pages_def new_root_def)
    then have "btree_ok com n recs ys 0 ?u [([], q, [full])] []"
      using tk nz keepsD(1)[OF ku q(2)] by (simp add: btree_ok_def tree_pages_def new_root_def)
    moreover have "?u = t\<lparr>t_pgr := t_pgr ?u, t_root := t_root ?u\<rparr>" unfolding new_root_def by (subst q(4)) simp
    ultimately have "stores com n recs t {full} (?u, Inr ())" unfolding stores_def using root_kept_new[of t1 t q] o by fastforce
    then show ?thesis using r1 Inr by simp
  qed
qed

text \<open>The tail of \<^verbatim>\<open>Put\<close> on a tree with a root.\<close>

lemma put_leaf_writes:
  assumes h: "holds_entries com n recs t E" and s: "spacious (t_pgr t)" and r: "t_root t \<noteq> NullPage"
    and f: "int (length (treeKey key rd) + slotDirEntry) \<le> t_maxKey t"
  shows "\<exists>res. put_leaf (treeKey key rd) t = Some res \<and> writes_entries com n recs t (insert (key, rd) E) res
    \<and> (\<not> leaf_splits (treeKey key rd) t \<longrightarrow> clean t res)"
proof -
  obtain xs ls gss where b: "btree_ok com n recs xs 0 t ls gss" "set (all_keys ls) = tree_keys E" "root_keeper (t_onRoot t)"
    using h by (auto simp: holds_entries_def)
  obtain res where "put_leaf (treeKey key rd) t = Some res" "stores com n recs t (insert (treeKey key rd) (set (all_keys ls))) res"
    using put_leaf_ok[OF btree_spacious[OF b(1) s] r b(3) f] by blast
  then show ?thesis using stores_writes[of com n recs t "insert (key, rd) E" res] b(2,3) put_leaf_clean[OF b(1) r] by (auto simp: holds_insert)
qed

lemma put_empty:
  assumes h: "holds_entries com n recs t E" and s: "spacious (t_pgr t)" and r: "t_root t = NullPage"
  shows "E = {}" "writes_entries com n recs t {(key, rd)} (andThen (newLeaf [treeKey key rd] NullPage t) (\<lambda>root t. (new_root root t, Inr ())))"
    "\<exists>xs. btree_ok com n recs xs 6 t [] [] \<and> root_keeper (t_onRoot t)"
proof -
  obtain xs ls gss where b: "btree_ok com n recs xs 0 t ls gss" "set (all_keys ls) = tree_keys E" "root_keeper (t_onRoot t)"
    using h by (auto simp: holds_entries_def)
  have e: "ls = []" "gss = []" using b(1) r by (auto simp: btree_ok_def)
  then show "E = {}" using b(2) by simp
  have six: "btree_ok com n recs xs 6 t ls gss" using btree_spacious[OF b(1) s] e by simp
  then show "\<exists>xs. btree_ok com n recs xs 6 t [] [] \<and> root_keeper (t_onRoot t)" using e b(3) by blast
  from first_leaf[OF six r b(3), of "treeKey key rd"]
  show "writes_entries com n recs t {(key, rd)} (andThen (newLeaf [treeKey key rd] NullPage t) (\<lambda>root t. (new_root root t, Inr ())))"
    by (intro stores_writes) (use b(3) in auto)
qed

section \<open>Get\<close>

text \<open>Keys that are told apart before either ends, as the self-delimiting field encodings are.\<close>

definition told_apart :: "bytes \<Rightarrow> bytes \<Rightarrow> bool" where
  "told_apart f g \<longleftrightarrow> f = g \<or> \<not> prefix f g \<and> \<not> prefix g f"

lemma less_append: "(f :: bytes) < g \<Longrightarrow> \<not> prefix f g \<Longrightarrow> f @ a < g @ b"
  by (induction f g rule: list_induct2') auto

lemma treeKey_order:
  assumes "told_apart f g"
  shows "treeKey f r \<le> treeKey g s \<longleftrightarrow> f < g \<or> f = g \<and> RID_Encode r \<le> RID_Encode s"
proof -
  consider "f = g" | "f < g" "\<not> prefix f g" | "g < f" "\<not> prefix g f" using assms linorder_less_linear[of f g] by (auto simp: told_apart_def)
  then show ?thesis
  proof cases
    case 1
    have "bytes_cmp (treeKey g r) (treeKey g s) \<le> 0 \<longleftrightarrow> RID_Encode r \<le> RID_Encode s" unfolding treeKey_cmp by (auto simp: cmp3_def)
    then show ?thesis using 1 by simp
  next
    case 2
    then show ?thesis using less_append[OF 2, of "putRIDSuffix r" "putRIDSuffix s"] by (simp add: treeKey_def less_imp_le)
  next
    case 3
    then have "treeKey g s < treeKey f r" using less_append[OF 3, of "putRIDSuffix s" "putRIDSuffix r"] by (simp add: treeKey_def)
    then show ?thesis using 3 by auto
  qed
qed

lemma zeroRID_least: "RID_Encode zeroRID \<le> RID_Encode r"
  by (simp add: zeroRID_def RID_Encode_def)

text \<open>The keys from \<open>search\<close> on.\<close>

lemma sorted_from:
  fixes search :: bytes
  assumes "sorted_wrt (<) ks"
  shows "dropWhile (\<lambda>k. k < search) ks = filter (\<lambda>k. search \<le> k) ks"
  using assms
proof (induction ks)
  case (Cons k ks)
  have "filter (\<lambda>k. search \<le> k) ks = ks" if "search \<le> k" by (rule filter_True) (use Cons.prems that in force)
  then show ?case using Cons by (auto simp: not_less)
qed simp

lemma seek_finds:
  assumes ok: "btree_ok com n recs xs k t ls gss" and r: "t_root t \<noteq> NullPage"
  shows "finds t (sought search ls) (seek search t)"
proof -
  note T = btree_treeD[OF ok r]
  show ?thesis unfolding seek_def
  proof (rule finds_bind[OF descend_finds[OF ok r]])
    fix v u assume u: "reads t u" "descent search gss (fences ls) [] v"
    obtain LA l ks LB where at: "at_leaf search ls gss v LA (l, fst v, ks) LB" by (rule descent_leaf[OF u(2) T(3)])
    have ls: "ls = LA @ (l, fst v, ks) # LB" "\<forall>k \<in> set (all_keys LA). k < search" using at by (auto simp: at_leaf_def)
    have lc: "leaf_chain (node t) ((l, fst v, ks) # LB)" using leaf_chain_tail[of "node t" LA] T(2) ls(1) by blast
    have pg: "(fst \<circ> snd) ` set ((l, fst v, ks) # LB) \<subseteq> set (tree_pages ls gss)" unfolding ls(1) tree_pages_def by auto
    have F: "finds u (sought search ((l, fst v, ks) # LB)) (seek_loop search (fst (snd (l, fst v, ks))) u)"
      by (rule seek_loop_finds[OF readsD(11)[OF u(1) T(7)] mirrors_reads[OF btree_mirrors[OF ok] u(1)] pg lc])
    have "sought search (LA @ ms) x" if "sought search ms x" for ms x using that ls(2)
      by (induction LA) (auto intro!: sought_later)
    then show "finds u (sought search ls) ((\<lambda>(leaf, _) t. seek_loop search leaf t) v u)"
      using finds_mono[OF F] unfolding ls(1) by (cases v) auto
  qed
qed

lemma sorted_hd_least:
  assumes "sorted_wrt (<) ks" "k \<in> set ks"
  shows "hd ks \<le> (k :: bytes)"
  using assms by (cases ks) (auto intro: less_imp_le)

text \<open>The entry of a field with the least record identifier, or none.\<close>

definition got :: "bytes \<Rightarrow> index_entries \<Rightarrow> btree_error + rid \<Rightarrow> bool" where
  "got key E r \<longleftrightarrow> (if \<exists>s. (key, s) \<in> E
     then \<exists>s. r = Inr s \<and> (key, s) \<in> E \<and> (\<forall>s'. (key, s') \<in> E \<longrightarrow> RID_Encode s \<le> RID_Encode s') else r = Inl ErrNotFound)"

lemma got_first:
  assumes ks: "set ks = {k \<in> tree_keys E. treeKey key zeroRID \<le> k}" "sorted_wrt (<) ks" "ks \<noteq> []"
    and ap: "\<And>f r. (f, r) \<in> E \<Longrightarrow> told_apart f key"
  obtains f r where "hd ks = treeKey f r" "(f, r) \<in> E" "got key E (if f = key then Inr r else Inl ErrNotFound)"
proof -
  have "hd ks \<in> set ks" using ks(3) by simp
  then obtain f r where f: "hd ks = treeKey f r" "(f, r) \<in> E" "treeKey key zeroRID \<le> treeKey f r" using ks(1) by auto
  have apf: "told_apart key f" using ap[OF f(2)] by (auto simp: told_apart_def)
  have least: "treeKey f r \<le> treeKey key s" if "(key, s) \<in> E" for s
  proof -
    have "told_apart key key" by (simp add: told_apart_def)
    then have "treeKey key s \<in> set ks" using ks(1) that zeroRID_least[of s] treeKey_mem[of key s E] by (auto simp: treeKey_order)
    then show ?thesis using sorted_hd_least[OF ks(2)] f(1) by metis
  qed
  have "got key E (if f = key then Inr r else Inl ErrNotFound)"
  proof (cases "f = key")
    case True
    have "told_apart key key" by (simp add: told_apart_def)
    then show ?thesis using True f(2) least treeKey_order[of key key r] unfolding got_def by auto
  next
    case False
    then have "key < f" using f(3) treeKey_order[OF apf, of zeroRID r] by simp
    then have "\<nexists>s. (key, s) \<in> E" using least treeKey_order[OF ap[OF f(2)], of r] False by force
    then show ?thesis using False by (simp add: got_def)
  qed
  then show ?thesis using that f(1,2) by blast
qed

lemma stands_hd:
  assumes "stands ls ks p"
  shows "ks \<noteq> []" "pos_keys p ! pos_idx p = hd ks"
  using assms by (auto simp: stands_def hd_append hd_drop_conv_nth)

lemma getLocked_ok:
  assumes h: "holds_entries com n recs t E" and ap: "\<And>f r. (f, r) \<in> E \<Longrightarrow> told_apart f key"
  shows "\<exists>t' r. getLocked key t = Some (t', r) \<and> reads t t' \<and> (r = Inl (ErrPager ErrPoolExhausted) \<or> got key E r)"
proof -
  obtain xs ls gss where b: "btree_ok com n recs xs 0 t ls gss" "set (all_keys ls) = tree_keys E"
    using h by (auto simp: holds_entries_def)
  show ?thesis
  proof (cases "t_root t = NullPage")
    case True
    then have "E = {}" using b by (auto simp: btree_ok_def)
    then show ?thesis using True reads_refl by (auto simp: getLocked_def got_def)
  next
    case r: False
    let ?s = "treeKey key zeroRID" let ?ks = "filter (\<lambda>k. ?s \<le> k) (all_keys ls)"
    have sk: "sorted_wrt (<) (all_keys ls)" by (rule bounded_sorted[OF btree_treeD(3)[OF b(1) r]])
    have ks: "set ?ks = {k \<in> tree_keys E. ?s \<le> k}" "sorted_wrt (<) ?ks" using b(2) sk by (auto intro: sorted_wrt_filter)
    have g: "got key E (Inl ErrNotFound)" if "?ks = []"
    proof -
      have "told_apart key key" by (simp add: told_apart_def)
      then have "(key, s) \<notin> E" for s using that ks(1) zeroRID_least[of s] treeKey_mem[of key s E] by (auto simp: treeKey_order)
      then show ?thesis by (simp add: got_def)
    qed
    obtain t1 q where q: "seek ?s t = Some (t1, q)" "reads t t1" "q = Inl (ErrPager ErrPoolExhausted) \<or> (\<exists>v. q = Inr v \<and> sought ?s ls v)"
      using seek_finds[OF b(1) r, of ?s] by (auto simp: finds_def)
    have S: "case v of None \<Rightarrow> ?ks = [] | Some p \<Rightarrow> stands ls ?ks p" if "sought ?s ls v" for v
      using that unfolding sought_def Let_def sorted_from[OF sk] .
    consider "q = Inl (ErrPager ErrPoolExhausted)" | "q = Inr None" "?ks = []" | p where "q = Inr (Some p)" "stands ls ?ks p"
      using q(3) S by (force split: option.splits)
    then show ?thesis
    proof cases
      case 3
      note p = stands_hd[OF 3(2)]
      obtain f s where f: "hd ?ks = treeKey f s" "got key E (if f = key then Inr s else Inl ErrNotFound)"
        by (rule got_first[OF ks p(1) ap])
      then show ?thesis using 3(1) q(1,2) p(2) r by (auto simp: getLocked_def treeKey_parts)
    qed (use q(1,2) g r in \<open>auto simp: getLocked_def\<close>)
  qed
qed

section \<open>Delete\<close>

lemma key_removed:
  fixes full :: bytes
  assumes "sorted_wrt (<) ks" "full \<in> set ks"
  defines "i \<equiv> length (takeWhile (\<lambda>k. k < full) ks)"
  shows "set (take i ks @ drop (i + 1) ks) = set ks - {full}" "sorted_wrt (<) (take i ks @ drop (i + 1) ks)"
proof -
  have i: "i < length ks" "ks ! i = full" using key_there[OF assms(1), of full] assms(2) by (auto simp: i_def)
  have e: "ks = take i ks @ full # drop (Suc i) ks" using id_take_nth_drop[OF i(1)] i(2) by simp
  have "sorted_wrt (<) (take i ks @ full # drop (Suc i) ks)" using assms(1) e by simp
  then have s: "sorted_wrt (<) (take i ks)" "sorted_wrt (<) (drop (Suc i) ks)" "\<forall>x \<in> set (take i ks). x < full"
      "\<forall>y \<in> set (drop (Suc i) ks). full < y" "\<forall>x \<in> set (take i ks). \<forall>y \<in> set (drop (Suc i) ks). x < y"
    by (simp_all add: sorted_wrt_append)
  then show "sorted_wrt (<) (take i ks @ drop (i + 1) ks)" by (simp add: sorted_wrt_append)
  have "set ks = set (take i ks) \<union> insert full (set (drop (Suc i) ks))" by (subst e) simp
  then show "set (take i ks @ drop (i + 1) ks) = set ks - {full}" using s(3,4) by auto
qed

lemma cells_size_removed: "cells_size (take i ks @ drop (i + 1) ks) \<le> cells_size ks"
proof (cases "i < length ks")
  case True
  have "cells_size ks = cells_size (take i ks @ ks ! i # drop (Suc i) ks)" using id_take_nth_drop[OF True] by simp
  then show ?thesis by simp
qed simp

definition delete_step :: "bytes \<Rightarrow> u32 \<Rightarrow> BTree \<Rightarrow> BTree \<times> (btree_error + unit)" where
  "delete_step full leafPno t = andThen (loadLeaf leafPno t) (\<lambda>(ks, rightSib) t.
     let ps = sort_Search (length ks) (\<lambda>i. bytes_cmp (ks ! i) full \<ge> 0) in
     if ps \<ge> length ks \<or> ks ! ps \<noteq> full then (t, Inl ErrNotFound)
     else writeLeaf leafPno (take ps ks @ drop (ps + 1) ks) rightSib t)"

text \<open>A key removed, or known not to be there.\<close>

definition drops :: "(u64 \<Rightarrow> bytes) \<Rightarrow> nat \<Rightarrow> (PageImage \<times> u32) list \<Rightarrow> BTree \<Rightarrow> bytes \<Rightarrow> bytes set \<Rightarrow> BTree \<times> (btree_error + unit) \<Rightarrow> bool" where
  "drops com n recs t full K r \<longleftrightarrow> (if full \<in> K then stores com n recs t (K - {full}) r \<and> clean t r
     else reads t (fst r) \<and> snd r \<in> Inl ` {ErrNotFound, ErrPager ErrPoolExhausted})"

lemma drops_full: "reads t t' \<Longrightarrow> drops com n recs t full K (t', Inl (ErrPager ErrPoolExhausted))"
  by (simp add: drops_def stores_error clean_full)

lemma drops_reads: "reads t u \<Longrightarrow> drops com n recs u full K r \<Longrightarrow> drops com n recs t full K r"
  using stores_reads[of t u com n recs "K - {full}" r] reads_trans[of t u "fst r"] clean_reads[of t u r] by (auto simp: drops_def split: if_splits)

lemma delete_at_leaf:
  assumes ok: "btree_ok com n recs xs (3 * length gss + 6) t ls gss" and r: "t_root t \<noteq> NullPage" and rk: "root_keeper (t_onRoot t)"
    and at: "at_leaf full ls gss v LA (l, fst v, ks) LB"
  shows "drops com n recs t full (set (all_keys ls)) (delete_step full (fst v) t)"
proof -
  have ls: "ls = LA @ (l, fst v, ks) # LB" and lt: "\<forall>k \<in> set (all_keys LA). k < full" "\<forall>k \<in> set (all_keys LB). full < k"
    and own: "owns full (fences (LA @ (l, fst v, ks) # LB)) (fences LA) (l, fst v) (fences LB)" using at by (auto simp: at_leaf_def)
  note ok = ok[unfolded ls]
  note L = btree_leafD[OF ok r] and T = btree_treeD[OF ok r]
  let ?i = "length (takeWhile (\<lambda>k. k < full) ks)" let ?ks = "take ?i ks @ drop (?i + 1) ks"
  have q: "unat (fst v) < cnt (t_pgr t)" using L(1) by (simp add: in_use_def)
  have there: "full \<in> set (all_keys ls) \<longleftrightarrow> full \<in> set ks" using lt by (auto simp: ls)
  obtain t1 r1 where r1: "loadLeaf (fst v) t = (t1, r1)" by (cases "loadLeaf (fst v) t")
  have d1: "reads t t1" "r1 \<in> {Inl (ErrPager ErrPoolExhausted), Inr (ks, chain_head LB)}"
    using loadLeaf_reads[OF T(7) q L(2)] r1 by (auto simp: delivers_def)
  have ok1: "btree_ok com n recs xs (Suc 0) t1 (LA @ (l, fst v, ks) # LB) gss" using btree_ok_reads[OF ok d1(1)] tok_mono by (auto simp: btree_ok_def)
  have t1: "t_root t1 \<noteq> NullPage" "root_keeper (t_onRoot t1)" using r rk readsD[OF d1(1)] by simp_all
  have del: "stores com n recs t1 (set (all_keys ls) - {full}) (writeLeaf (fst v) ?ks (chain_head LB) t1)" if f: "full \<in> set ks"
  proof -
    note R = key_removed[OF L(3) f]
    have b: "bounded (LA @ (l, fst v, ?ks) # LB)" by (rule bounded_insert[OF T(3) own R(2)]) (use R(1) in auto)
    have K: "set (all_keys (LA @ (l, fst v, ?ks) # LB)) = set (all_keys ls) - {full}" using R(1) lt by (auto simp: ls)
    show ?thesis using rewrite_leaf[OF ok1 t1 b] unfolding K .
  qed
  have cl: "clean t1 (writeLeaf (fst v) ?ks (chain_head LB) t1)"
  proof (rule writeLeaf_clean[OF btree_treeD(7)[OF ok1 t1(1)]])
    show "unat (fst v) < cnt (t_pgr t1)" using q readsD(1)[OF d1(1)] by simp
    have "cells_size ?ks \<le> cells_size ks" by (rule cells_size_removed)
    also have "\<dots> + 36 \<le> p_pageSize (t_pgr t1)"
      using leaf_page_size[OF L(2)] tok_page_len[OF T(7), of "ucast (fst v)"] q readsD(2)[OF d1(1)] by (auto simp: page_len_def)
    finally show "cells_size ?ks + 36 \<le> p_pageSize (t_pgr t1)" by simp
  qed
  have "delete_step full (fst v) t = (case r1 of Inl e \<Rightarrow> (t1, Inl e) | Inr _ \<Rightarrow>
      if full \<in> set ks then writeLeaf (fst v) ?ks (chain_head LB) t1 else (t1, Inl ErrNotFound))"
    using d1(2) key_there[OF L(3), of full] key_place[OF L(3), of full] by (auto simp: delete_step_def r1 Let_def not_less)
  then show ?thesis using d1 stores_reads[OF d1(1) del] clean_reads[OF d1(1) cl] drops_full[OF d1(1)] there by (auto simp: drops_def)
qed

text \<open>The outcome of a deletion.\<close>

definition removes :: "(u64 \<Rightarrow> bytes) \<Rightarrow> nat \<Rightarrow> (PageImage \<times> u32) list \<Rightarrow> BTree \<Rightarrow> bytes \<times> rid \<Rightarrow> index_entries \<Rightarrow> BTree \<times> (btree_error + unit) \<Rightarrow> bool" where
  "removes com n recs t e E r \<longleftrightarrow> (if e \<in> E then writes_entries com n recs t (E - {e}) r \<and> clean t r
     else reads t (fst r) \<and> snd r \<in> Inl ` {ErrNotFound, ErrPager ErrPoolExhausted})"

lemma btree_Delete_ok:
  assumes h: "holds_entries com n recs t E" and s: "spacious (t_pgr t)"
  shows "\<exists>res. btree_Delete False key rd t = Some res \<and> removes com n recs t (key, rd) E res"
proof -
  let ?f = "treeKey key rd"
  obtain xs ls gss where b: "btree_ok com n recs xs 0 t ls gss" "set (all_keys ls) = tree_keys E" "root_keeper (t_onRoot t)"
    using h by (auto simp: holds_entries_def)
  note ok = btree_spacious[OF b(1) s]
  have D: "removes com n recs t (key, rd) E res" if "drops com n recs t ?f (set (all_keys ls)) res" for res
    using that stores_writes[of com n recs t "E - {(key, rd)}" res] b(2,3) treeKey_mem[of key rd E]
    unfolding drops_def removes_def b(2) holds_remove by (simp split: if_splits)
  show ?thesis
  proof (cases "t_root t = NullPage")
    case True
    then have "E = {}" using b by (auto simp: btree_ok_def)
    then show ?thesis using True reads_refl by (auto simp: btree_Delete_def removes_def)
  next
    case r: False
    obtain t1 d where d: "descend ?f t = Some (t1, d)" "reads t t1" "d = Inl (ErrPager ErrPoolExhausted) \<or> (\<exists>v. d = Inr v \<and> descent ?f gss (fences ls) [] v)"
      using descend_finds[OF ok r, of ?f] by (auto simp: finds_def)
    show ?thesis
    proof (cases d)
      case (Inl e)
      then show ?thesis using d D[OF drops_full[OF d(2)]] r by (auto simp: btree_Delete_def Let_def)
    next
      case (Inr v)
      note ok1 = btree_ok_reads[OF ok d(2)]
      have r1: "t_root t1 \<noteq> NullPage" "root_keeper (t_onRoot t1)" using r b(3) readsD[OF d(2)] by simp_all
      obtain LA l ks LB where at: "at_leaf ?f ls gss v LA (l, fst v, ks) LB"
        by (rule descent_leaf[OF _ btree_treeD(3)[OF ok1 r1(1)]]) (use d(3) Inr in auto)
      have "btree_Delete False key rd t = Some (delete_step ?f (fst v) t1)"
        using d(1) Inr r by (cases v) (simp add: btree_Delete_def delete_step_def Let_def)
      then show ?thesis using D[OF drops_reads[OF d(2) delete_at_leaf[OF ok1 r1 at]]] by blast
    qed
  qed
qed

section \<open>The outcome of a put\<close>

lemma put_reads: "reads t u \<Longrightarrow> writes_entries com n recs u E r \<Longrightarrow> writes_entries com n recs t E r"
proof -
  assume a: "reads t u" "writes_entries com n recs u E r"
  then have u: "u = t\<lparr>t_pgr := t_pgr u\<rparr>" by (auto simp: reads_def)
  have "fst r = t\<lparr>t_pgr := t_pgr (fst r), t_root := t_root (fst r)\<rparr>" if "fst r = u\<lparr>t_pgr := t_pgr (fst r), t_root := t_root (fst r)\<rparr>"
    using that by (subst (asm) u) simp
  then show ?thesis using a(2) root_kept_reads[OF a(1)] by (auto simp: writes_entries_def)
qed

lemma spacious_reads: "reads t u \<Longrightarrow> spacious (t_pgr u) = spacious (t_pgr t)"
  using readsD(1,3)[of t u] by (simp add: spacious_def room_def lsn_room_def)

text \<open>The call has to split a leaf: on a unique index the leaf is looked for after the check for a duplicate.\<close>

definition put_splits :: "bytes \<Rightarrow> rid \<Rightarrow> BTree \<Rightarrow> bool" where
  "put_splits key rd t \<longleftrightarrow> t_root t \<noteq> NullPage
     \<and> leaf_splits (treeKey key rd) (if t_unique t then case getLocked key t of None \<Rightarrow> t | Some (u, _) \<Rightarrow> u else t)"

text \<open>An error after which the index holds what it held.\<close>

definition spares :: "(u64 \<Rightarrow> bytes) \<Rightarrow> nat \<Rightarrow> (PageImage \<times> u32) list \<Rightarrow> index_entries \<Rightarrow> BTree \<times> (btree_error + unit) \<Rightarrow> bool" where
  "spares com n recs E r \<longleftrightarrow> (\<forall>e. snd r = Inl e \<longrightarrow> e = ErrPager ErrPoolExhausted \<and> holds_entries com n recs (fst r) E)"

lemma clean_spares: "holds_entries com n recs t E \<Longrightarrow> clean t r \<Longrightarrow> spares com n recs E r"
  using holds_reads by (auto simp: clean_def spares_def)

lemma first_leaf_spares:
  assumes ok: "btree_ok com n recs xs 6 t ls gss" and r: "t_root t = NullPage" and rk: "root_keeper (t_onRoot t)"
    and f: "int (length full + slotDirEntry) \<le> t_maxKey t"
  shows "spares com n recs {} (andThen (newLeaf [full] NullPage t) (\<lambda>root t. (new_root root t, Inr ())))"
proof -
  have tk: "tok com n recs xs (Suc (Suc 1)) t" using ok tok_mono by (auto simp: btree_ok_def)
  have p: "pager_ok com n recs (t_pgr t)" "free_list (t_pgr t) xs" "lsn_room (Suc (Suc 10)) (t_pgr t)" "Suc (cnt (t_pgr t)) < 2 ^ 32"
    and g: "geometry t" using tk by (simp_all add: tok_def room_def lsn_room_def)
  show ?thesis
  proof (cases rule: Allocate_cases[OF p])
    case (1 p')
    let ?t = "t\<lparr>t_pgr := p'\<rparr>"
    have "tok com n recs xs 0 ?t" using 1(2-4) g room_0[of p'] by (simp add: tok_def geometry_def kept_def)
    then have "btree_ok com n recs xs 0 ?t [] []" using r by (simp add: btree_ok_def tree_pages_def)
    then have "holds_entries com n recs ?t {}" using rk unfolding holds_entries_def by force
    then show ?thesis using 1(1) by (simp add: newLeaf_def on_pager_def spares_def)
  next
    case (2 p' pid f xs')
    have "page_len (fr_Buf f)" "length (fr_Buf f) = p_pageSize (t_pgr t)" using Allocate_in_use[OF tk 2(1)] 2(4) by (auto simp: kept_def)
    moreover have "cells_size [full] \<le> blen (fr_Buf f)" using fits_alone[OF g f] calculation(2) by (auto simp: leafFits_cells[OF g])
    ultimately obtain b' where "fillLeaf (fr_Buf f) (t_collID t) [full] NullPage = (b', Inr ())"
      using fillLeaf_ok[of "fr_Buf f" "[full]" "t_collID t" NullPage] by auto
    then show ?thesis using 2(1) by (simp add: newLeaf_def on_pager_def finish_fill_def spares_def)
  qed
qed

text \<open>A duplicate of a unique field is refused, the same entry put again changes nothing.\<close>

definition put_outcome :: "(u64 \<Rightarrow> bytes) \<Rightarrow> nat \<Rightarrow> (PageImage \<times> u32) list \<Rightarrow> BTree \<Rightarrow> bytes \<Rightarrow> rid \<Rightarrow> index_entries \<Rightarrow> BTree \<times> (btree_error + unit) \<Rightarrow> bool" where
  "put_outcome com n recs t key rd E res \<longleftrightarrow>
     (if int (length (treeKey key rd) + slotDirEntry) > t_maxKey t then res = (t, Inl ErrKeyTooLarge)
      else if t_unique t \<and> (\<exists>s. got key E (Inr s) \<and> s \<noteq> rd) then snd res = Inl ErrDuplicateKey \<and> reads t (fst res)
      else writes_entries com n recs t (insert (key, rd) E) res \<and> (\<not> put_splits key rd t \<longrightarrow> spares com n recs E res))"

lemma got_some: "got key E (Inr s) \<longleftrightarrow> (key, s) \<in> E \<and> (\<forall>s'. (key, s') \<in> E \<longrightarrow> RID_Encode s \<le> RID_Encode s')"
  by (auto simp: got_def)

lemma got_unique:
  assumes "got key E (Inr s)" "got key E (Inr s')"
  shows "s = s'"
proof -
  have "DecodeRID (RID_Encode r) = r" for r by (simp add: DecodeRID_def RID_halves RID_slot RID_page)
  moreover have "RID_Encode s = RID_Encode s'" by (rule order_antisym) (use assms in \<open>simp_all add: got_some\<close>)
  ultimately show "s = s'" by metis
qed

lemma writes_same: "holds_entries com n recs u E \<Longrightarrow> reads t u \<Longrightarrow> writes_entries com n recs t E (u, Inr ())"
  using root_kept_reads[OF _ root_kept_refl, of t u] by (auto simp: writes_entries_def reads_def)

lemma put_unique:
  assumes h: "holds_entries com n recs t E" and s: "spacious (t_pgr t)" and u: "t_unique t" and r: "t_root t \<noteq> NullPage"
    and f: "\<not> int (length (treeKey key rd) + slotDirEntry) > t_maxKey t"
    and g: "getLocked key t = Some (t1, q)" "reads t t1" "got key E q"
  shows "\<exists>res. btree_Put False key rd t = Some res \<and> put_outcome com n recs t key rd E res"
proof -
  have h1: "holds_entries com n recs t1 E" "spacious (t_pgr t1)" "t_root t1 \<noteq> NullPage" "int (length (treeKey key rd) + slotDirEntry) \<le> t_maxKey t1"
    using holds_reads[OF h g(2)] s spacious_reads[OF g(2)] readsD(5,10)[OF g(2)] r f by simp_all
  show ?thesis
  proof (cases q)
    case (Inr s)
    then have q: "got key E (Inr s)" using g(3) by simp
    then have in_E: "insert (key, s) E = E" by (auto simp: got_def split: if_splits)
    have P: "btree_Put False key rd t = Some (t1, if s \<noteq> rd then Inl ErrDuplicateKey else Inr ())"
      using u r f g(1) Inr by (simp add: btree_Put_def Let_def)
    show ?thesis
    proof (cases "s = rd")
      case True
      then have "\<not> (\<exists>s. got key E (Inr s) \<and> s \<noteq> rd)" using got_unique[OF q] by blast
      then have "put_outcome com n recs t key rd E (t1, Inr ())" using f writes_same[OF h1(1) g(2)] in_E True by (simp add: put_outcome_def spares_def)
      then show ?thesis using P True by auto
    next
      case False
      then have "\<exists>s. got key E (Inr s) \<and> s \<noteq> rd" using q by blast
      then show ?thesis using P False u f g(2) by (simp add: put_outcome_def)
    qed
  next
    case (Inl e)
    then have n: "e = ErrNotFound" "\<not> (\<exists>s. got key E (Inr s) \<and> s \<noteq> rd)" using g(3) by (auto simp: got_def split: if_splits)
    obtain res where P: "put_leaf (treeKey key rd) t1 = Some res" "writes_entries com n recs t1 (insert (key, rd) E) res"
        "\<not> leaf_splits (treeKey key rd) t1 \<longrightarrow> clean t1 res"
      using put_leaf_writes[OF h1] by blast
    have "spares com n recs E res" if "\<not> put_splits key rd t" using that P(3) clean_spares[OF h1(1)] u r g(1) by (simp add: put_splits_def)
    then have "put_outcome com n recs t key rd E res" using put_reads[OF g(2) P(2)] n(2) f unfolding put_outcome_def by (auto split: if_split)
    moreover have "btree_Put False key rd t = Some res" using u r f g(1) Inl n(1) P(1) by (simp add: btree_Put_def Let_def)
    ultimately show ?thesis by blast
  qed
qed

lemma btree_Put_ok:
  assumes h: "holds_entries com n recs t E" and s: "spacious (t_pgr t)" and ap: "\<And>f r. t_unique t \<Longrightarrow> (f, r) \<in> E \<Longrightarrow> told_apart f key"
    and full: "\<And>t1. t_unique t \<Longrightarrow> getLocked key t \<noteq> Some (t1, Inl (ErrPager ErrPoolExhausted))"
  shows "\<exists>res. btree_Put False key rd t = Some res \<and> put_outcome com n recs t key rd E res"
proof -
  let ?big = "int (length (treeKey key rd) + slotDirEntry) > t_maxKey t"
  consider "?big" | "\<not> ?big" "t_root t = NullPage" | "\<not> ?big" "t_root t \<noteq> NullPage" "t_unique t" | "\<not> ?big" "t_root t \<noteq> NullPage" "\<not> t_unique t" by blast
  then show ?thesis
  proof cases
    case 2
    note e = put_empty[OF h s 2(2)]
    let ?r = "andThen (newLeaf [treeKey key rd] NullPage t) (\<lambda>root t. (new_root root t, Inr ()))"
    have "btree_Put False key rd t = Some ?r" using 2 by (simp add: btree_Put_def Let_def)
    moreover have "spares com n recs {} ?r" using e(3) first_leaf_spares[OF _ 2(2)] 2(1) by fastforce
    moreover from this have "put_outcome com n recs t key rd E ?r" using e(2)[of key rd] 2(1) by (simp add: put_outcome_def e(1) got_def)
    ultimately show ?thesis by blast
  next
    case 3
    obtain t1 q where "getLocked key t = Some (t1, q)" "reads t t1" "q = Inl (ErrPager ErrPoolExhausted) \<or> got key E q"
      using getLocked_ok[OF h, of key] ap[OF 3(3)] by blast
    moreover from this have "got key E q" using full[OF 3(3)] by blast
    ultimately show ?thesis using put_unique[OF h s 3(3,2,1)] by blast
  next
    case 4
    obtain res where P: "put_leaf (treeKey key rd) t = Some res" "writes_entries com n recs t (insert (key, rd) E) res"
        "\<not> leaf_splits (treeKey key rd) t \<longrightarrow> clean t res"
      using put_leaf_writes[OF h s 4(2)] 4(1) by force
    have "spares com n recs E res" if "\<not> put_splits key rd t" using that P(3) clean_spares[OF h] 4(2,3) by (simp add: put_splits_def)
    then show ?thesis using 4 P(1,2) by (simp add: btree_Put_def Let_def put_outcome_def)
  qed (simp add: btree_Put_def Let_def put_outcome_def)
qed

end
