(* ===== verification/Btree_Cursor.thy ===== *)
theory Btree_Cursor
  imports Btree
begin

text \<open>
  The range cursor (\<^verbatim>\<open>src/index/cursor.go\<close>), the statistics walk (\<^verbatim>\<open>src/index/btree.go\<close>) and the
  transaction handle (\<^verbatim>\<open>src/index/tx.go\<close>). A cursor keeps a copy of the keys of its leaf.
\<close>

section \<open>The cursor\<close>

record ScanOpts =
  so_Reverse :: bool
  so_IncludeLo :: bool
  so_IncludeHi :: bool

record cursor =
  c_hi :: "bytes option"
  c_includeHi :: bool
  c_leaf :: u32
  c_keys :: "bytes list"
  c_idx :: nat
  c_rightSib :: u32
  c_primed :: bool
  c_done :: bool
  c_err :: "btree_error option"
  c_curKey :: "bytes option"

partial_function (option) step_loop :: "cursor \<Rightarrow> BTree \<Rightarrow> (BTree \<times> cursor \<times> bool) option" where
  "step_loop c t =
     (if c_idx c < length (c_keys c) then Some (t, c, True)
      else if c_rightSib c = NullPage then Some (t, c, False)
      else (case loadLeaf (c_rightSib c) t of
          (t, Inl e) \<Rightarrow> Some (t, c\<lparr>c_err := Some e\<rparr>, False)
        | (t, Inr (ks, rs)) \<Rightarrow> step_loop (c\<lparr>c_leaf := c_rightSib c, c_keys := ks, c_rightSib := rs, c_idx := 0\<rparr>) t))"

definition cursor_step :: "cursor \<Rightarrow> BTree \<Rightarrow> (BTree \<times> cursor \<times> bool) option" where
  "cursor_step c t = step_loop (c\<lparr>c_idx := c_idx c + 1\<rparr>) t"

text \<open>The loop that skips the entries of an excluded lower bound.\<close>

partial_function (option) skip_run :: "bytes \<Rightarrow> cursor \<Rightarrow> BTree \<Rightarrow> (BTree \<times> (btree_error + cursor)) option" where
  "skip_run lo c t =
     (if c_done c then Some (t, Inr c)
      else if c_idx c \<ge> length (c_keys c) then Some (t, Inl BtreePanic)
      else (case fieldOf (c_keys c ! c_idx c) of
          None \<Rightarrow> Some (t, Inl BtreePanic)
        | Some f \<Rightarrow>
            if f \<noteq> lo then Some (t, Inr c)
            else (case cursor_step c t of
                None \<Rightarrow> None
              | Some (t, c, b) \<Rightarrow> skip_run lo (if b then c else c\<lparr>c_done := True\<rparr>) t)))"

definition btree_Scan :: "bytes option \<Rightarrow> bytes option \<Rightarrow> ScanOpts \<Rightarrow> BTree \<Rightarrow> (BTree \<times> (btree_error + cursor)) option" where
  "btree_Scan lo hi opts t =
     (if so_Reverse opts then Some (t, Inl ErrReverseUnsupported)
      else
        let c = \<lparr>c_hi = hi, c_includeHi = so_IncludeHi opts, c_leaf = 0, c_keys = [], c_idx = 0, c_rightSib = 0,
                 c_primed = False, c_done = False, c_err = None, c_curKey = None\<rparr> in
        if t_root t = NullPage then Some (t, Inr (c\<lparr>c_done := True\<rparr>))
        else andThenO (seek (case lo of None \<Rightarrow> [] | Some l \<Rightarrow> treeKey l zeroRID) t) (\<lambda>q t.
          case q of
            None \<Rightarrow> Some (t, Inr (c\<lparr>c_done := True\<rparr>))
          | Some p \<Rightarrow>
              let c = c\<lparr>c_leaf := pos_leaf p, c_keys := pos_keys p, c_idx := pos_idx p, c_rightSib := pos_rightSib p\<rparr> in
              andThenO (case lo of
                  None \<Rightarrow> Some (t, Inr c)
                | Some l \<Rightarrow> if so_IncludeLo opts then Some (t, Inr c) else skip_run l c t)
                (\<lambda>c t. Some (t, Inr (c\<lparr>c_primed := \<not> c_done c\<rparr>)))))"

text \<open>The test of the upper bound on the current key.\<close>

definition past_hi :: "cursor \<Rightarrow> bytes \<Rightarrow> bool" where
  "past_hi c f = (case c_hi c of None \<Rightarrow> False
     | Some hi \<Rightarrow> c_includeHi c \<and> bytes_cmp f hi > 0 \<or> \<not> c_includeHi c \<and> bytes_cmp f hi \<ge> 0)"

definition cursor_Next :: "cursor \<Rightarrow> BTree \<Rightarrow> (BTree \<times> (btree_error + cursor \<times> bool)) option" where
  "cursor_Next c t =
     (if c_err c \<noteq> None \<or> c_done c then Some (t, Inr (c, False))
      else
        case (if c_primed c then Some (t, c\<lparr>c_primed := False\<rparr>, True) else cursor_step c t) of
          None \<Rightarrow> None
        | Some (t, c, False) \<Rightarrow> Some (t, Inr (c\<lparr>c_done := True\<rparr>, False))
        | Some (t, c, True) \<Rightarrow>
            if c_idx c \<ge> length (c_keys c) then Some (t, Inr (c\<lparr>c_done := True\<rparr>, False))
            else let k = c_keys c ! c_idx c in
              (case (c_hi c, fieldOf k) of
                 (Some _, None) \<Rightarrow> Some (t, Inl BtreePanic)
               | (Some _, Some f) \<Rightarrow>
                   if past_hi c f then Some (t, Inr (c\<lparr>c_done := True\<rparr>, False))
                   else Some (t, Inr (c\<lparr>c_curKey := Some k\<rparr>, True))
               | (None, _) \<Rightarrow> Some (t, Inr (c\<lparr>c_curKey := Some k\<rparr>, True))))"

definition cursor_Key :: "cursor \<Rightarrow> bytes option" where
  "cursor_Key c = Option.bind (c_curKey c) fieldOf"

definition cursor_RID :: "cursor \<Rightarrow> rid option" where
  "cursor_RID c = Option.bind (c_curKey c) ridFromSuffix"

definition cursor_Close :: "cursor \<Rightarrow> cursor" where
  "cursor_Close c = c\<lparr>c_done := True\<rparr>"

section \<open>Statistics\<close>

record IndexStats =
  is_Entries :: u64
  is_DistinctKeys :: u64
  is_Height :: int
  is_Pages :: u64

partial_function (option) height_loop :: "u32 \<Rightarrow> int \<Rightarrow> BTree \<Rightarrow> (BTree \<times> int) option" where
  "height_loop pno height t =
     (case pageType pno t of
        (t, Inl e) \<Rightarrow> Some (t, height)
      | (t, Inr ty) \<Rightarrow>
          if ty = PageBTreeLeaf then Some (t, height)
          else (case loadInterior pno t of
              (t, Inl e) \<Rightarrow> Some (t, height)
            | (t, Inr ents) \<Rightarrow>
                if ents = [] then Some (t, height) else height_loop (child (ents ! 0)) (height + 1) t))"

partial_function (option) entries_loop :: "u32 \<Rightarrow> u64 \<Rightarrow> BTree \<Rightarrow> (BTree \<times> u64) option" where
  "entries_loop leaf seen t =
     (if leaf = NullPage then Some (t, seen)
      else (case loadLeaf leaf t of
          (t, Inl e) \<Rightarrow> Some (t, seen)
        | (t, Inr (ks, rs)) \<Rightarrow> entries_loop rs (seen + of_nat (length ks)) t))"

text \<open>The recursive \<^verbatim>\<open>countPages\<close>, with the pages still to visit on a stack: the children of a node are
  visited in order before what follows it.\<close>

partial_function (option) countPages_from :: "u32 list \<Rightarrow> u64 \<Rightarrow> BTree \<Rightarrow> (BTree \<times> u64) option" where
  "countPages_from ps seen t =
     (case ps of
        [] \<Rightarrow> Some (t, seen)
      | pno # ps \<Rightarrow>
          if pno = NullPage then countPages_from ps seen t
          else (case pageType pno t of
              (t, Inl e) \<Rightarrow> countPages_from ps seen t
            | (t, Inr ty) \<Rightarrow>
                if ty = PageBTreeLeaf then countPages_from ps (seen + 1) t
                else (case loadInterior pno t of
                    (t, Inl e) \<Rightarrow> countPages_from ps (seen + 1) t
                  | (t, Inr ents) \<Rightarrow> countPages_from (map child ents @ ps) (seen + 1) t)))"

definition countPages :: "u32 \<Rightarrow> BTree \<Rightarrow> (BTree \<times> u64) option" where
  "countPages pno t = countPages_from [pno] 0 t"

definition btree_Stats :: "BTree \<Rightarrow> (BTree \<times> IndexStats) option" where
  "btree_Stats t =
     (if t_root t = NullPage then Some (t, \<lparr>is_Entries = 0, is_DistinctKeys = 0, is_Height = 0, is_Pages = 0\<rparr>)
      else do {
        (t, height) \<leftarrow> height_loop (t_root t) 1 t;
        (t, r) \<leftarrow> descend [] t;
        (t, seen) \<leftarrow> (case r of Inl e \<Rightarrow> Some (t, 0) | Inr (leaf, _) \<Rightarrow> entries_loop leaf 0 t);
        (t, pages) \<leftarrow> countPages (t_root t) t;
        Some (t, \<lparr>is_Entries = seen, is_DistinctKeys = seen, is_Height = height, is_Pages = pages\<rparr>) })"

section \<open>Transactions\<close>

record Tx =
  tx_version :: u64
  tx_readOnly :: bool

definition btree_Begin :: "BTree \<Rightarrow> BTree \<times> Tx" where
  "btree_Begin t = (let v = t_txCounter t + 1 in (t\<lparr>t_txCounter := v\<rparr>, \<lparr>tx_version = v, tx_readOnly = False\<rparr>))"

definition btree_BeginReadOnly :: "BTree \<Rightarrow> BTree \<times> Tx" where
  "btree_BeginReadOnly t = (t, \<lparr>tx_version = t_txCounter t, tx_readOnly = True\<rparr>)"

definition Tx_Commit :: "u32 \<times> u32 \<Rightarrow> Tx \<Rightarrow> BTree \<Rightarrow> BTree \<times> (btree_error + unit)" where
  "Tx_Commit salts x t = (if tx_readOnly x then (t, Inr ()) else on_pager (Commit salts) t)"

definition Tx_Rollback :: "Tx \<Rightarrow> btree_error + unit" where
  "Tx_Rollback x = (if tx_readOnly x then Inr () else Inl ErrRollbackUnsupported)"

end
