(* ===== verification/Btree_Scan.thy ===== *)
theory Btree_Scan
  imports Btree_Index Btree_Cursor
begin

text \<open>
  What a cursor yields. A cursor stands on the list of the keys still to come; each step drops one.
\<close>

section \<open>The keys still to come\<close>

definition cursor_at :: "leaf list \<Rightarrow> bytes list \<Rightarrow> cursor \<Rightarrow> bool" where
  "cursor_at ls ks c \<longleftrightarrow> (\<exists>pre y rest. ls = pre @ y # rest \<and> c_keys c = snd (snd y) \<and> c_rightSib c = chain_head rest
     \<and> c_idx c \<le> length (c_keys c) \<and> ks = drop (c_idx c) (c_keys c) @ all_keys rest)"

definition on_key :: "leaf list \<Rightarrow> bytes list \<Rightarrow> cursor \<Rightarrow> bool" where
  "on_key ls ks c \<longleftrightarrow> cursor_at ls ks c \<and> c_idx c < length (c_keys c)"

text \<open>What moving a cursor leaves alone.\<close>

definition same_scan :: "cursor \<Rightarrow> cursor \<Rightarrow> bool" where
  "same_scan c c' \<longleftrightarrow> c_hi c' = c_hi c \<and> c_includeHi c' = c_includeHi c \<and> c_primed c' = c_primed c \<and> c_done c' = c_done c"

definition moved :: "leaf list \<Rightarrow> bytes list \<Rightarrow> BTree \<Rightarrow> cursor \<Rightarrow> (BTree \<times> cursor \<times> bool) option \<Rightarrow> bool" where
  "moved ls ks t c r \<longleftrightarrow> (\<exists>t' c' b. r = Some (t', c', b) \<and> reads t t' \<and> same_scan c c'
     \<and> (c_err c' = Some (ErrPager ErrPoolExhausted) \<and> \<not> b
        \<or> c_err c' = c_err c \<and> (if ks = [] then \<not> b else b \<and> on_key ls ks c')))"

lemma on_keyD:
  assumes "on_key ls ks c"
  shows "ks \<noteq> []" "c_keys c ! c_idx c = hd ks" "cursor_at ls (tl ks) (c\<lparr>c_idx := c_idx c + 1\<rparr>)"
proof -
  obtain pre y rest where c: "ls = pre @ y # rest" "c_keys c = snd (snd y)" "c_rightSib c = chain_head rest" "c_idx c < length (c_keys c)"
      "ks = drop (c_idx c) (c_keys c) @ all_keys rest" using assms by (auto simp: on_key_def cursor_at_def)
  have d: "drop (c_idx c) (c_keys c) = c_keys c ! c_idx c # drop (Suc (c_idx c)) (c_keys c)" using c(4) by (simp add: Cons_nth_drop_Suc)
  show "ks \<noteq> []" "c_keys c ! c_idx c = hd ks" unfolding c(5) d by simp_all
  have "tl ks = drop (Suc (c_idx c)) (c_keys c) @ all_keys rest" unfolding c(5) d by simp
  then show "cursor_at ls (tl ks) (c\<lparr>c_idx := c_idx c + 1\<rparr>)" unfolding cursor_at_def using c(1-4) by (intro exI[of _ pre] exI[of _ y] exI[of _ rest]) simp
qed

lemma moved_reads: "reads t t' \<Longrightarrow> moved ls ks t' c r \<Longrightarrow> moved ls ks t c r"
  unfolding moved_def using reads_trans by blast

lemma moved_scan: "same_scan c c' \<Longrightarrow> c_err c' = c_err c \<Longrightarrow> moved ls ks t c' r \<Longrightarrow> moved ls ks t c r"
  unfolding moved_def same_scan_def by metis

lemma moved_here: "on_key ls ks c \<Longrightarrow> moved ls ks t c (Some (t, c, True))"
  using on_keyD(1)[of ls ks c] by (auto simp: moved_def reads_refl same_scan_def)

lemma step_loop_end:
  assumes "c_rightSib c = NullPage" "\<not> c_idx c < length (c_keys c)"
  shows "moved ls [] t c (step_loop c t)"
  using assms reads_refl[of t] by (subst step_loop.simps) (auto simp: moved_def same_scan_def)

lemma step_loop_moved:
  assumes "btree_ok com n recs xs k t ls gss" "t_root t \<noteq> NullPage" "ls = pre @ y # rest" "c_keys c = snd (snd y)" "c_rightSib c = chain_head rest"
    "c_idx c \<le> length (c_keys c)"
  shows "moved ls (drop (c_idx c) (c_keys c) @ all_keys rest) t c (step_loop c t)"
  using assms
proof (induction rest arbitrary: pre y c t)
  case Nil
  show ?case
  proof (cases "c_idx c < length (c_keys c)")
    case True
    have "on_key ls (drop (c_idx c) (c_keys c) @ all_keys []) c" unfolding on_key_def cursor_at_def using Nil.prems True by blast
    then show ?thesis using moved_here True by (subst step_loop.simps) simp
  next
    case False
    then show ?thesis using step_loop_end[of c ls t] Nil.prems(5) by simp
  qed
next
  case (Cons z rest)
  show ?case
  proof (cases "c_idx c < length (c_keys c)")
    case True
    have "on_key ls (drop (c_idx c) (c_keys c) @ all_keys (z # rest)) c" unfolding on_key_def cursor_at_def using Cons.prems True by blast
    then show ?thesis using moved_here True by (subst step_loop.simps) simp
  next
    case False
    obtain l q ks where z: "z = (l, q, ks)" by (cases z)
    have ls: "ls = (pre @ [y]) @ (l, q, ks) # rest" using Cons.prems(3) z by simp
    note L = btree_leafD[OF Cons.prems(1)[unfolded ls] Cons.prems(2)]
    have q: "unat q < cnt (t_pgr t)" "q \<noteq> NullPage" using L(1) in_use_not_null[of q "PageCount (p_hdr (t_pgr t))"] by (auto simp: in_use_def)
    obtain t1 r1 where r1: "loadLeaf q t = (t1, r1)" by (cases "loadLeaf q t")
    have d1: "reads t t1" "r1 \<in> {Inl (ErrPager ErrPoolExhausted), Inr (ks, chain_head rest)}"
      using loadLeaf_reads[OF btree_treeD(7)[OF Cons.prems(1,2)] q(1) L(2)] r1 by (auto simp: delivers_def)
    let ?c = "c\<lparr>c_leaf := q, c_keys := ks, c_rightSib := chain_head rest, c_idx := 0\<rparr>"
    have "moved ls (drop (c_idx ?c) (c_keys ?c) @ all_keys rest) t1 ?c (step_loop ?c t1)"
      by (rule Cons.IH[OF btree_ok_reads[OF Cons.prems(1) d1(1)] _ ls]) (use Cons.prems(2) readsD(5)[OF d1(1)] in simp_all)
    then have "moved ls (ks @ all_keys rest) t ?c (step_loop ?c t1)" by (intro moved_reads[OF d1(1)]) simp
    then have M: "moved ls (ks @ all_keys rest) t c (step_loop ?c t1)" by (rule moved_scan[rotated 2]) (simp_all add: same_scan_def)
    have F: "moved ls K t c (Some (t1, c\<lparr>c_err := Some (ErrPager ErrPoolExhausted)\<rparr>, False))" for K
      using d1(1) by (auto simp: moved_def same_scan_def)
    have rs: "c_rightSib c = q" "drop (c_idx c) (c_keys c) = []" using Cons.prems(5) False by (simp_all add: z)
    show ?thesis using False d1(2) M F[of "ks @ all_keys rest"] q(2) r1 rs by (subst step_loop.simps) (auto simp: z)
  qed
qed

lemma cursor_step_moved:
  assumes ok: "btree_ok com n recs xs k t ls gss" "t_root t \<noteq> NullPage" and c: "on_key ls ks c"
  shows "moved ls (tl ks) t c (cursor_step c t)"
proof -
  let ?c = "c\<lparr>c_idx := c_idx c + 1\<rparr>"
  obtain pre y rest where a: "ls = pre @ y # rest" "c_keys ?c = snd (snd y)" "c_rightSib ?c = chain_head rest" "c_idx ?c \<le> length (c_keys ?c)"
      "tl ks = drop (c_idx ?c) (c_keys ?c) @ all_keys rest" using on_keyD(3)[OF c] by (auto simp: cursor_at_def)
  have "moved ls (tl ks) t ?c (step_loop ?c t)" unfolding a(5) by (rule step_loop_moved[OF ok a(1-4)])
  then show ?thesis unfolding cursor_step_def by (rule moved_scan[rotated 2]) (simp_all add: same_scan_def)
qed

section \<open>Draining a cursor\<close>

text \<open>The loop of a client: every key \<^verbatim>\<open>Next\<close> stops on, then \<^verbatim>\<open>Err\<close>.\<close>

partial_function (option) drain :: "cursor \<Rightarrow> BTree \<Rightarrow> bytes list \<Rightarrow> (BTree \<times> (btree_error + bytes list)) option" where
  "drain c t acc =
     (case cursor_Next c t of
        None \<Rightarrow> None
      | Some (t, Inl e) \<Rightarrow> Some (t, Inl e)
      | Some (t, Inr (c, b)) \<Rightarrow>
          if b then drain c t (acc @ [case c_curKey c of None \<Rightarrow> [] | Some k \<Rightarrow> k])
          else Some (t, case c_err c of None \<Rightarrow> Inr acc | Some e \<Rightarrow> Inl e))"

text \<open>A field within the upper bound.\<close>

definition below_hi :: "bytes option \<Rightarrow> bool \<Rightarrow> bytes \<Rightarrow> bool" where
  "below_hi hi incl f \<longleftrightarrow> (case hi of None \<Rightarrow> True | Some h \<Rightarrow> if incl then f \<le> h else f < h)"

definition field :: "bytes \<Rightarrow> bytes" where
  "field k = (case fieldOf k of None \<Rightarrow> [] | Some f \<Rightarrow> f)"

lemma field_treeKey [simp]: "field (treeKey f r) = f"
  by (simp add: field_def treeKey_parts)

definition keyed :: "bytes list \<Rightarrow> bool" where
  "keyed ks \<longleftrightarrow> (\<forall>k \<in> set ks. \<exists>f r. k = treeKey f r)"

lemma past_below: "past_hi c f \<longleftrightarrow> \<not> below_hi (c_hi c) (c_includeHi c) f"
  by (auto simp: past_hi_def below_hi_def not_le not_less split: option.splits)

text \<open>A cursor about to yield \<open>ks\<close>.\<close>

definition ready :: "leaf list \<Rightarrow> bytes list \<Rightarrow> cursor \<Rightarrow> bool" where
  "ready ls ks c \<longleftrightarrow> c_err c = None \<and> (c_done c \<and> ks = [] \<or> \<not> c_done c \<and> (if c_primed c then on_key ls ks c else \<exists>k. on_key ls (k # ks) c))"

definition yields :: "leaf list \<Rightarrow> bytes list \<Rightarrow> BTree \<Rightarrow> cursor \<Rightarrow> (BTree \<times> (btree_error + cursor \<times> bool)) option \<Rightarrow> bool" where
  "yields ls ks t c r \<longleftrightarrow> (\<exists>t' c' b. r = Some (t', Inr (c', b)) \<and> reads t t' \<and> c_hi c' = c_hi c \<and> c_includeHi c' = c_includeHi c
     \<and> (c_err c' = Some (ErrPager ErrPoolExhausted) \<and> \<not> b
        \<or> c_err c' = None \<and> (if ks = [] \<or> \<not> below_hi (c_hi c) (c_includeHi c) (field (hd ks)) then \<not> b
             else b \<and> c_curKey c' = Some (hd ks) \<and> ready ls (tl ks) c')))"

text \<open>The part of \<^verbatim>\<open>Next\<close> after the move.\<close>

lemma on_key_scan: "on_key ls ks c \<Longrightarrow> c_keys c' = c_keys c \<Longrightarrow> c_idx c' = c_idx c \<Longrightarrow> c_rightSib c' = c_rightSib c \<Longrightarrow> on_key ls ks c'"
  by (simp only: on_key_def cursor_at_def)

lemma yields_here:
  assumes k: "on_key ls ks c'" "c_primed c' = False" "c_done c' = False" "c_err c' = None" and kd: "keyed ks"
    and c: "c_hi c' = c_hi c" "c_includeHi c' = c_includeHi c" and rd: "reads t t'"
  shows "yields ls ks t c (if c_idx c' \<ge> length (c_keys c') then Some (t', Inr (c'\<lparr>c_done := True\<rparr>, False))
      else let k = c_keys c' ! c_idx c' in
        (case (c_hi c', fieldOf k) of
           (Some _, None) \<Rightarrow> Some (t', Inl BtreePanic)
         | (Some _, Some f) \<Rightarrow>
             if past_hi c' f then Some (t', Inr (c'\<lparr>c_done := True\<rparr>, False)) else Some (t', Inr (c'\<lparr>c_curKey := Some k\<rparr>, True))
         | (None, _) \<Rightarrow> Some (t', Inr (c'\<lparr>c_curKey := Some k\<rparr>, True))))"
proof -
  note K = on_keyD[OF k(1)]
  obtain f r where f: "hd ks = treeKey f r" using kd K(1) by (force simp: keyed_def)
  have i: "\<not> length (c_keys c') \<le> c_idx c'" using k(1) by (simp add: on_key_def)
  have "ready ls (tl ks) (c'\<lparr>c_curKey := Some (hd ks)\<rparr>)"
    using k K(1) on_key_scan[OF k(1), of "c'\<lparr>c_curKey := Some (hd ks)\<rparr>"] by (cases ks) (auto simp: ready_def)
  then show ?thesis using i K(1,2) rd c k(4) unfolding yields_def
    by (auto simp: f treeKey_parts past_below below_hi_def split: option.splits)
qed

lemma cursor_Next_yields:
  assumes ok: "btree_ok com n recs xs k t ls gss" "t_root t \<noteq> NullPage" and c: "ready ls ks c" and kd: "keyed ks"
  shows "yields ls ks t c (cursor_Next c t)"
proof -
  consider "c_done c" "ks = []" | "\<not> c_done c" "c_primed c" "on_key ls ks c" | k where "\<not> c_done c" "\<not> c_primed c" "on_key ls (k # ks) c"
    using c by (auto simp: ready_def split: if_splits)
  moreover have e: "c_err c = None" using c by (simp add: ready_def)
  ultimately show ?thesis
  proof cases
    case 1
    then show ?thesis using e reads_refl[of t] by (auto simp: cursor_Next_def yields_def)
  next
    case 2
    have "on_key ls ks (c\<lparr>c_primed := False\<rparr>)" by (rule on_key_scan[OF 2(3)]) simp_all
    from yields_here[OF this _ _ _ kd, of c t t] show ?thesis using 2 e reads_refl[of t] by (simp add: cursor_Next_def)
  next
    case 3
    obtain t' c' b where m: "cursor_step c t = Some (t', c', b)" "reads t t'" "same_scan c c'"
        "c_err c' = Some (ErrPager ErrPoolExhausted) \<and> \<not> b \<or> c_err c' = c_err c \<and> (if ks = [] then \<not> b else b \<and> on_key ls ks c')"
      using cursor_step_moved[OF ok 3(3)] by (auto simp: moved_def)
    have s: "c_hi c' = c_hi c" "c_includeHi c' = c_includeHi c" "c_primed c' = False" "c_done c' = False" using m(3) 3 by (simp_all add: same_scan_def)
    show ?thesis
    proof (cases b)
      case True
      then have "on_key ls ks c'" "c_err c' = None" using m(4) e by (auto split: if_splits)
      from yields_here[OF this(1) s(3,4) this(2) kd s(1,2) m(2)] show ?thesis using 3 e m(1) True by (simp add: cursor_Next_def)
    next
      case False
      then have "yields ls ks t c (Some (t', Inr (c'\<lparr>c_done := True\<rparr>, False)))" using m(2,4) s e by (auto simp: yields_def split: if_splits)
      then show ?thesis using 3 e m(1) False by (simp add: cursor_Next_def)
    qed
  qed
qed

lemma drain_finds:
  assumes "btree_ok com n recs xs k t ls gss" "t_root t \<noteq> NullPage" "ready ls ks c" "keyed ks"
  shows "finds t (\<lambda>r. r = acc @ takeWhile (\<lambda>k. below_hi (c_hi c) (c_includeHi c) (field k)) ks) (drain c t acc)"
  using assms
proof (induction ks arbitrary: c t acc)
  case Nil
  obtain t' c' where "cursor_Next c t = Some (t', Inr (c', False))" "reads t t'" "c_err c' \<in> {None, Some (ErrPager ErrPoolExhausted)}"
    using cursor_Next_yields[OF Nil.prems] by (auto simp: yields_def)
  then show ?case by (subst drain.simps) (auto simp: finds_def)
next
  case (Cons k ks)
  let ?P = "\<lambda>k. below_hi (c_hi c) (c_includeHi c) (field k)"
  obtain t' c' b where m: "cursor_Next c t = Some (t', Inr (c', b))" "reads t t'" "c_hi c' = c_hi c" "c_includeHi c' = c_includeHi c"
      "c_err c' = Some (ErrPager ErrPoolExhausted) \<and> \<not> b \<or> c_err c' = None \<and> (if ?P k then b \<and> c_curKey c' = Some k \<and> ready ls ks c' else \<not> b)"
    using cursor_Next_yields[OF Cons.prems] by (auto simp: yields_def split: if_splits)
  show ?case
  proof (cases b)
    case True
    then have p: "?P k" "c_curKey c' = Some k" "ready ls ks c'" using m(5) by (auto split: if_splits)
    have "finds t' (\<lambda>r. r = (acc @ [k]) @ takeWhile (\<lambda>k. below_hi (c_hi c') (c_includeHi c') (field k)) ks) (drain c' t' (acc @ [k]))"
      by (rule Cons.IH[OF btree_ok_reads[OF Cons.prems(1) m(2)] _ p(3)]) (use Cons.prems(2,4) readsD(5)[OF m(2)] in \<open>auto simp: keyed_def\<close>)
    from finds_reads[OF m(2) this] show ?thesis using m(1,3,4) True p by (subst drain.simps) simp
  next
    case False
    then show ?thesis using m by (subst drain.simps) (auto simp: finds_def split: if_splits)
  qed
qed

section \<open>Starting a scan\<close>

text \<open>A cursor set up to yield \<open>ks\<close>, unless the pool ran out while it was.\<close>

definition set_up :: "leaf list \<Rightarrow> bytes list \<Rightarrow> cursor \<Rightarrow> cursor \<Rightarrow> bool" where
  "set_up ls ks c c' \<longleftrightarrow> c_hi c' = c_hi c \<and> c_includeHi c' = c_includeHi c
     \<and> (c_err c' = Some (ErrPager ErrPoolExhausted) \<or> c_err c' = None \<and> (if ks = [] then c_done c' else \<not> c_done c' \<and> on_key ls ks c'))"

lemma skip_run_done: "c_done c \<Longrightarrow> skip_run lo c t = Some (t, Inr c)"
  by (subst skip_run.simps) simp

lemma skip_run_finds:
  assumes "btree_ok com n recs xs k t ls gss" "t_root t \<noteq> NullPage" "on_key ls ks c" "\<not> c_done c" "c_err c = None" "keyed ks"
  shows "finds t (set_up ls (dropWhile (\<lambda>k. field k = lo) ks) c) (skip_run lo c t)"
  using assms
proof (induction ks arbitrary: c t)
  case Nil
  then show ?case using on_keyD(1) by blast
next
  case (Cons k ks)
  obtain f r where f: "k = treeKey f r" using Cons.prems(6) by (auto simp: keyed_def)
  have i: "c_idx c < length (c_keys c)" "c_keys c ! c_idx c = k" using Cons.prems(3) on_keyD(2)[OF Cons.prems(3)] by (auto simp: on_key_def)
  show ?case
  proof (cases "f = lo")
    case False
    then show ?thesis using i Cons.prems(3-5) reads_refl[of t] f
      by (subst skip_run.simps) (auto simp: treeKey_parts finds_def set_up_def)
  next
    case True
    obtain t' c' b where m: "cursor_step c t = Some (t', c', b)" "reads t t'" "same_scan c c'"
        "c_err c' = Some (ErrPager ErrPoolExhausted) \<and> \<not> b \<or> c_err c' = None \<and> (if ks = [] then \<not> b else b \<and> on_key ls ks c')"
      using cursor_step_moved[OF Cons.prems(1-3)] Cons.prems(5) by (auto simp: moved_def)
    have run: "skip_run lo c t = skip_run lo (if b then c' else c'\<lparr>c_done := True\<rparr>) t'"
      using i Cons.prems(4) f True m(1) by (subst skip_run.simps) (simp add: treeKey_parts)
    show ?thesis
    proof (cases b)
      case True
      then have c': "on_key ls ks c'" "c_err c' = None" using m(4) by (auto split: if_splits)
      have "finds t' (set_up ls (dropWhile (\<lambda>k. field k = lo) ks) c') (skip_run lo c' t')"
        by (rule Cons.IH[OF btree_ok_reads[OF Cons.prems(1) m(2)] _ c'(1) _ c'(2)])
          (use Cons.prems(2,4,6) readsD(5)[OF m(2)] m(3) in \<open>auto simp: same_scan_def keyed_def\<close>)
      then have "finds t (set_up ls (dropWhile (\<lambda>k. field k = lo) ks) c') (skip_run lo c' t')" by (rule finds_reads[OF m(2)])
      moreover have "set_up ls ks' c' = set_up ls ks' c" for ks' using m(3) by (simp add: set_up_def same_scan_def fun_eq_iff)
      moreover have "dropWhile (\<lambda>k. field k = lo) (k # ks) = dropWhile (\<lambda>k. field k = lo) ks" using f \<open>f = lo\<close> by simp
      ultimately show ?thesis using run True by simp
    next
      case False
      then have "set_up ls (dropWhile (\<lambda>k. field k = lo) (k # ks)) c (c'\<lparr>c_done := True\<rparr>)"
        using m(3,4) f \<open>f = lo\<close> by (auto simp: set_up_def same_scan_def split: if_splits)
      then show ?thesis using run False m(2) skip_run_done[of "c'\<lparr>c_done := True\<rparr>"] by (simp add: finds_def)
    qed
  qed
qed

lemma drain_error: "c_err c = Some e \<Longrightarrow> drain c t acc = Some (t, Inl e)"
  by (subst drain.simps) (simp add: cursor_Next_def)

lemma drain_set_up:
  assumes ok: "btree_ok com n recs xs k t ls gss" "t_root t \<noteq> NullPage" and s: "set_up ls ks c c'" and kd: "keyed ks"
  shows "finds t (\<lambda>r. r = takeWhile (\<lambda>k. below_hi (c_hi c) (c_includeHi c) (field k)) ks) (drain (c'\<lparr>c_primed := \<not> c_done c'\<rparr>) t [])"
proof (cases "c_err c' = None")
  case True
  let ?c = "c'\<lparr>c_primed := \<not> c_done c'\<rparr>"
  have "ready ls ks ?c" using s True on_key_scan[of ls ks c' ?c] by (auto simp: set_up_def ready_def split: if_splits)
  from drain_finds[OF ok this kd, of "[]"] show ?thesis using s by (simp add: set_up_def)
next
  case False
  then have "c_err (c'\<lparr>c_primed := \<not> c_done c'\<rparr>) = Some (ErrPager ErrPoolExhausted)" using s by (auto simp: set_up_def)
  from drain_error[OF this] show ?thesis using finds_full[OF reads_refl] by simp
qed

section \<open>A whole scan\<close>

definition range_start :: "bytes option \<Rightarrow> bytes" where
  "range_start lo = (case lo of None \<Rightarrow> [] | Some l \<Rightarrow> treeKey l zeroRID)"

definition scan_skip :: "bytes option \<Rightarrow> bool \<Rightarrow> bytes list \<Rightarrow> bytes list" where
  "scan_skip lo incl ks = (case lo of None \<Rightarrow> ks | Some l \<Rightarrow> if incl then ks else dropWhile (\<lambda>k. field k = l) ks)"

definition scan_keys :: "bytes option \<Rightarrow> bytes option \<Rightarrow> ScanOpts \<Rightarrow> bytes list \<Rightarrow> bytes list" where
  "scan_keys lo hi opts ks = takeWhile (\<lambda>k. below_hi hi (so_IncludeHi opts) (field k))
     (scan_skip lo (so_IncludeLo opts) (filter (\<lambda>k. range_start lo \<le> k) ks))"

definition scan_all :: "bytes option \<Rightarrow> bytes option \<Rightarrow> ScanOpts \<Rightarrow> BTree \<Rightarrow> (BTree \<times> (btree_error + bytes list)) option" where
  "scan_all lo hi opts t = andThenO (btree_Scan lo hi opts t) (\<lambda>c t. drain c t [])"

lemma keyed_sub: "keyed ks \<Longrightarrow> set ks' \<subseteq> set ks \<Longrightarrow> keyed ks'"
  by (auto simp: keyed_def)

lemma set_scan_skip: "set (scan_skip lo i ks) \<subseteq> set ks"
  by (auto simp: scan_skip_def dest: set_dropWhileD split: option.splits if_splits)

lemma andThenO_assoc: "andThenO (andThenO r f) g = andThenO r (\<lambda>x s. andThenO (f x s) g)"
  by (simp add: andThenO_def split: option.splits sum.splits prod.splits)

text \<open>Once a position is found.\<close>

lemma scan_from:
  assumes ok: "btree_ok com n recs xs k t ls gss" "t_root t \<noteq> NullPage" and p: "stands ls ks p" and kd: "keyed ks"
    and c: "c = c0\<lparr>c_leaf := pos_leaf p, c_keys := pos_keys p, c_idx := pos_idx p, c_rightSib := pos_rightSib p\<rparr>"
      "\<not> c_done c0" "c_err c0 = None"
  shows "finds t (\<lambda>r. r = takeWhile (\<lambda>k. below_hi (c_hi c0) (c_includeHi c0) (field k)) (scan_skip lo incl ks))
    (andThenO (case lo of None \<Rightarrow> Some (t, Inr c) | Some l \<Rightarrow> if incl then Some (t, Inr c) else skip_run l c t)
      (\<lambda>c t. drain (c\<lparr>c_primed := \<not> c_done c\<rparr>) t []))"
proof (rule finds_bind[where R = "set_up ls (scan_skip lo incl ks) c0"])
  obtain pre y rest where y: "ls = pre @ y # rest" "pos_keys p = snd (snd y)" "pos_rightSib p = chain_head rest" "pos_idx p < length (pos_keys p)"
      "ks = drop (pos_idx p) (pos_keys p) @ all_keys rest" using p by (auto simp: stands_def)
  have k: "on_key ls ks c" unfolding on_key_def cursor_at_def c(1)
    by (intro conjI exI[of _ pre] exI[of _ y] exI[of _ rest]) (use y in simp_all)
  have c': "\<not> c_done c" "c_err c = None" "c_hi c = c_hi c0" "c_includeHi c = c_includeHi c0" using c by simp_all
  have S: "set_up ls ks c0 c" using k c' on_keyD(1)[OF k] by (simp add: set_up_def)
  show "finds t (set_up ls (scan_skip lo incl ks) c0) (case lo of None \<Rightarrow> Some (t, Inr c) | Some l \<Rightarrow> if incl then Some (t, Inr c) else skip_run l c t)"
  proof (cases "lo = None \<or> incl")
    case True
    then have "scan_skip lo incl ks = ks" by (auto simp: scan_skip_def split: option.splits)
    then show ?thesis using True S reads_refl[of t] by (auto simp: finds_def split: option.splits)
  next
    case False
    then obtain l where l: "lo = Some l" "\<not> incl" by auto
    have "set_up ls ks' c = set_up ls ks' c0" for ks' unfolding set_up_def fun_eq_iff c'(3,4) by blast
    then show ?thesis using skip_run_finds[OF ok k c'(1,2) kd, of l] l by (simp add: scan_skip_def)
  qed
  show "finds t' (\<lambda>r. r = takeWhile (\<lambda>k. below_hi (c_hi c0) (c_includeHi c0) (field k)) (scan_skip lo incl ks)) (drain (v\<lparr>c_primed := \<not> c_done v\<rparr>) t' [])"
    if "reads t t'" "set_up ls (scan_skip lo incl ks) c0 v" for v t'
    by (rule drain_set_up[OF btree_ok_reads[OF ok(1) that(1)] _ that(2) keyed_sub[OF kd set_scan_skip]]) (use ok(2) readsD(5)[OF that(1)] in simp)
qed

lemma scan_all_finds:
  assumes ok: "btree_ok com n recs xs k t ls gss" and kd: "keyed (all_keys ls)" and fw: "\<not> so_Reverse opts"
  shows "finds t (\<lambda>r. r = scan_keys lo hi opts (all_keys ls)) (scan_all lo hi opts t)"
proof (cases "t_root t = NullPage")
  case True
  let ?c = "\<lparr>c_hi = hi, c_includeHi = so_IncludeHi opts, c_leaf = 0, c_keys = [], c_idx = 0, c_rightSib = 0,
    c_primed = False, c_done = True, c_err = None, c_curKey = None\<rparr>"
  have "ls = []" using ok True by (auto simp: btree_ok_def)
  moreover have "drain ?c t [] = Some (t, Inr [])" by (subst drain.simps) (simp add: cursor_Next_def)
  ultimately show ?thesis using True fw reads_refl[of t]
    by (simp add: scan_all_def btree_Scan_def finds_def scan_keys_def scan_skip_def split: option.splits)
next
  case False
  let ?c = "\<lparr>c_hi = hi, c_includeHi = so_IncludeHi opts, c_leaf = 0, c_keys = [], c_idx = 0, c_rightSib = 0,
    c_primed = False, c_done = False, c_err = None, c_curKey = None\<rparr>"
  have sk: "sorted_wrt (<) (all_keys ls)" by (rule bounded_sorted[OF btree_treeD(3)[OF ok False]])
  let ?ks = "filter (\<lambda>k. range_start lo \<le> k) (all_keys ls)"
  have S: "case v of None \<Rightarrow> ?ks = [] | Some p \<Rightarrow> stands ls ?ks p" if "sought (range_start lo) ls v" for v
    using that unfolding sought_def Let_def sorted_from[OF sk] .
  show ?thesis unfolding scan_all_def btree_Scan_def if_not_P[OF fw] if_not_P[OF False] Let_def andThenO_assoc range_start_def[symmetric]
  proof (rule finds_bind[OF seek_finds[OF ok False]])
    fix v t' assume v: "reads t t'" "sought (range_start lo) ls v"
    note ok' = btree_ok_reads[OF ok v(1)]
    have r': "t_root t' \<noteq> NullPage" using False readsD(5)[OF v(1)] by simp
    show "finds t' (\<lambda>r. r = scan_keys lo hi opts (all_keys ls)) (andThenO (case v of None \<Rightarrow> Some (t', Inr (?c\<lparr>c_done := True\<rparr>))
        | Some p \<Rightarrow> andThenO (case lo of None \<Rightarrow> Some (t', Inr (?c\<lparr>c_leaf := pos_leaf p, c_keys := pos_keys p, c_idx := pos_idx p, c_rightSib := pos_rightSib p\<rparr>))
            | Some l \<Rightarrow> if so_IncludeLo opts then Some (t', Inr (?c\<lparr>c_leaf := pos_leaf p, c_keys := pos_keys p, c_idx := pos_idx p, c_rightSib := pos_rightSib p\<rparr>))
                else skip_run l (?c\<lparr>c_leaf := pos_leaf p, c_keys := pos_keys p, c_idx := pos_idx p, c_rightSib := pos_rightSib p\<rparr>) t')
            (\<lambda>c t. Some (t, Inr (c\<lparr>c_primed := \<not> c_done c\<rparr>)))) (\<lambda>c t. drain c t []))"
    proof (cases v)
      case None
      then have e: "?ks = []" using S[OF v(2)] by simp
      have "drain (?c\<lparr>c_done := True\<rparr>) t' [] = Some (t', Inr [])" by (subst drain.simps) (simp add: cursor_Next_def)
      moreover have "scan_keys lo hi opts (all_keys ls) = []" unfolding scan_keys_def e by (simp add: scan_skip_def split: option.splits)
      ultimately show ?thesis using None reads_refl[of t'] by (simp add: finds_def)
    next
      case (Some p)
      then have "stands ls ?ks p" using S[OF v(2)] by simp
      from scan_from[OF ok' r' this keyed_sub[OF kd] refl, of ?c lo "so_IncludeLo opts"] show ?thesis
        unfolding Some scan_keys_def by (simp add: andThenO_assoc)
    qed
  qed
qed

end
