(* ===== verification/Btree_Walk.thy ===== *)
theory Btree_Walk
  imports Btree_Scan
begin

text \<open>
  The walks of the statistics return: down the first children, along the leaf chain and over all the
  nodes.
\<close>

definition walks :: "BTree \<Rightarrow> (BTree \<times> 'a) option \<Rightarrow> bool" where
  "walks t r \<longleftrightarrow> (\<exists>t' v. r = Some (t', v) \<and> reads t t')"

lemma walks_here: "reads t t' \<Longrightarrow> walks t (Some (t', v))"
  by (simp add: walks_def)

lemma walks_reads: "reads t t' \<Longrightarrow> walks t' r \<Longrightarrow> walks t r"
  unfolding walks_def using reads_trans by blast

lemma walks_bind: "walks t r \<Longrightarrow> (\<And>t' v. reads t t' \<Longrightarrow> walks t' (f (t', v))) \<Longrightarrow> walks t (Option.bind r f)"
  unfolding walks_def using reads_trans by fastforce

text \<open>The pages of a level, interior or leaf.\<close>

lemma level_page:
  assumes "spine c us (gs # gss) fs" "q \<in> snd ` set us"
  obtains g where "interior_page (c q) (ents_of g)" "snd ` set g \<subseteq> snd ` set (children gs)" "g \<noteq> []" "q \<in> set (level_pages (gs # gss))"
proof -
  have us: "us = map node_fence gs" and nok: "nodes_ok c gs" using assms(1) by auto
  obtain x where x: "x \<in> set gs" "q = fst x" using assms(2) by (auto simp: us node_fence_def)
  show ?thesis by (rule that[of "snd x"]) (use x nok in \<open>force simp: nodes_ok_def\<close>)+
qed

lemma children_of: "g \<noteq> [] \<Longrightarrow> child ` set (ents_of g) = snd ` set g"
  by (cases g) (auto simp: ents_of_def image_image)

text \<open>A tree seen from one of its levels down.\<close>

definition seen_below :: "BTree \<Rightarrow> fence list \<Rightarrow> level list \<Rightarrow> fence list \<Rightarrow> bool" where
  "seen_below t us gss fs \<longleftrightarrow> (\<exists>com n recs xs k. tok com n recs xs k t) \<and> spine (node t) us gss fs
     \<and> (\<forall>q \<in> set (level_pages gss) \<union> snd ` set fs. unat q < cnt (t_pgr t)) \<and> (\<forall>y \<in> set fs. \<exists>ks rs. leaf_page (node t (snd y)) ks rs)"

lemma below_reads: "seen_below t us gss fs \<Longrightarrow> reads t t' \<Longrightarrow> seen_below t' us gss fs"
proof -
  assume b: "seen_below t us gss fs" and r: "reads t t'"
  have c: "node t' q = node t q" if "q \<in> set (level_pages gss) \<union> snd ` set fs" for q
    using b that readsD(4)[OF r, of "ucast q"] by (auto simp: seen_below_def)
  have "spine (node t) us gss fs" using b by (simp add: seen_below_def)
  then have sp: "spine (node t') us gss fs" by (rule spine_cong) (rule c, simp)
  obtain com n recs xs k where "tok com n recs xs k t" using b unfolding seen_below_def by (elim conjE exE)
  then have "tok com n recs xs k t'" by (rule readsD(11)[OF r])
  then have "\<exists>com n recs xs k. tok com n recs xs k t'" by (intro exI)
  moreover note sp
  moreover have "\<exists>ks rs. leaf_page (node t' (snd y)) ks rs" if y: "y \<in> set fs" for y
  proof -
    have "node t' (snd y) = node t (snd y)" by (rule c) (use y in simp)
    then show ?thesis using b y unfolding seen_below_def by simp
  qed
  ultimately show ?thesis using b readsD(1)[OF r] unfolding seen_below_def by simp
qed

lemma below_down: "seen_below t us (gs # gss) fs \<Longrightarrow> seen_below t (children gs) gss fs"
  by (auto simp: seen_below_def)

lemma btree_below:
  assumes ok: "btree_ok com n recs xs k t ls gss" and r: "t_root t \<noteq> NullPage"
  shows "seen_below t [([], t_root t)] gss (fences ls)"
proof -
  note T = btree_treeD[OF ok r]
  have "unat q < cnt (t_pgr t)" if "q \<in> set (level_pages gss) \<union> snd ` set (fences ls)" for q
    using T(8)[of q] that fences_pages[of ls gss] by (auto simp: tree_pages_def in_use_def)
  then show ?thesis unfolding seen_below_def using T(5,7) leaf_chain_pages[OF T(2)] by blast
qed

lemma below_leaf:
  assumes "seen_below t us [] fs" "q \<in> snd ` set us"
  shows "delivers t PageBTreeLeaf (pageType q t)"
proof -
  obtain y where y: "y \<in> set fs" "q = snd y" using assms by (auto simp: seen_below_def)
  obtain ks rs where l: "leaf_page (node t q) ks rs" using assms y by (auto simp: seen_below_def)
  obtain com n recs xs k where "tok com n recs xs k t" using assms(1) by (auto simp: seen_below_def)
  then show ?thesis using pageType_reads[of com n recs xs k t q] assms(1) y l by (auto simp: seen_below_def leaf_page_def)
qed

lemma below_interior:
  assumes b: "seen_below t us (gs # gss) fs" and q: "q \<in> snd ` set us"
  obtains es where "delivers t PageBTreeInterior (pageType q t)" "\<And>t'. reads t t' \<Longrightarrow> delivers t' es (loadInterior q t')"
    "es \<noteq> []" "child ` set es \<subseteq> snd ` set (children gs)"
proof -
  have sp: "spine (node t) us (gs # gss) fs" using b by (simp add: seen_below_def)
  obtain g where g: "interior_page (node t q) (ents_of g)" "snd ` set g \<subseteq> snd ` set (children gs)" "g \<noteq> []" "q \<in> set (level_pages (gs # gss))"
    by (rule level_page[OF sp q])
  obtain com n recs xs k where ok: "tok com n recs xs k t" using b by (auto simp: seen_below_def)
  have qc: "unat q < cnt (t_pgr t)" using b g(4) by (auto simp: seen_below_def)
  have l: "delivers t' (ents_of g) (loadInterior q t')" if r: "reads t t'" for t'
    using loadInterior_reads[OF readsD(11)[OF r ok]] readsD(1)[OF r] readsD(4)[OF r, of "ucast q"] qc g(1) by simp
  show ?thesis by (rule that[OF _ l]) (use pageType_reads[OF ok qc] g in \<open>auto simp: interior_page_def ents_of_def children_of[symmetric]\<close>)
qed

lemma height_loop_walks:
  assumes "seen_below t us gss fs" "q \<in> snd ` set us"
  shows "walks t (height_loop q h t)"
  using assms
proof (induction gss arbitrary: us q h t)
  case Nil
  then show ?case using below_leaf[OF Nil] by (subst height_loop.simps) (cases "pageType q t", auto simp: delivers_def intro: walks_here)
next
  case (Cons gs gss)
  obtain es where d: "delivers t PageBTreeInterior (pageType q t)" and l: "\<And>t'. reads t t' \<Longrightarrow> delivers t' es (loadInterior q t')"
    and es: "es \<noteq> []" "child ` set es \<subseteq> snd ` set (children gs)"
    using below_interior[OF Cons.prems] by metis
  obtain t1 r1 where r1: "pageType q t = (t1, r1)" by (cases "pageType q t")
  have d1: "reads t t1" "r1 \<in> {Inl (ErrPager ErrPoolExhausted), Inr PageBTreeInterior}" using d r1 by (auto simp: delivers_def)
  obtain t2 r2 where r2: "loadInterior q t1 = (t2, r2)" by (cases "loadInterior q t1")
  have d2: "reads t1 t2" "r2 \<in> {Inl (ErrPager ErrPoolExhausted), Inr es}" using l[OF d1(1)] r2 by (auto simp: delivers_def)
  note rd = reads_trans[OF d1(1) d2(1)]
  have c: "child (es ! 0) \<in> snd ` set (children gs)" using es by (cases es) auto
  have "walks t2 (height_loop (child (es ! 0)) (h + 1) t2)" by (rule Cons.IH[OF below_reads[OF below_down[OF Cons.prems(1)] rd] c])
  from walks_reads[OF rd this] show ?case using d1 d2 es rd by (subst height_loop.simps) (auto simp: r1 r2 intro: walks_here)
qed

text \<open>Counting the pages of subtrees of one level, then going on with the pages \<open>ps\<close>.\<close>

definition goes_on :: "u32 list \<Rightarrow> BTree \<Rightarrow> (BTree \<times> u64) option \<Rightarrow> bool" where
  "goes_on ps t r \<longleftrightarrow> (\<exists>t' m. reads t t' \<and> r = countPages_from ps m t')"

lemma goes_onI: "reads t t' \<Longrightarrow> goes_on ps t (countPages_from ps m t')"
  by (auto simp: goes_on_def)

lemma goes_on_reads: "reads t t' \<Longrightarrow> goes_on ps t' r \<Longrightarrow> goes_on ps t r"
  unfolding goes_on_def using reads_trans by blast

lemma goes_on_trans: "goes_on qs t r \<Longrightarrow> (\<And>t' m. reads t t' \<Longrightarrow> goes_on ps t' (countPages_from qs m t')) \<Longrightarrow> goes_on ps t r"
  unfolding goes_on_def using reads_trans by blast

lemma countPages_list:
  assumes "seen_below t us gss fs" "set qs \<subseteq> snd ` set us"
    and one: "\<And>t q qs a. seen_below t us gss fs \<Longrightarrow> q \<in> snd ` set us \<Longrightarrow> goes_on (qs @ ps) t (countPages_from (q # qs @ ps) a t)"
  shows "goes_on ps t (countPages_from (qs @ ps) a t)"
  using assms(1,2)
proof (induction qs arbitrary: a t)
  case Nil
  then show ?case using goes_onI[OF reads_refl] by simp
next
  case (Cons q qs)
  have q: "q \<in> snd ` set us" "set qs \<subseteq> snd ` set us" using Cons.prems(2) by auto
  have "goes_on ps t (countPages_from (q # qs @ ps) a t)"
    by (rule goes_on_trans[OF one[OF Cons.prems(1) q(1)]]) (rule Cons.IH[OF below_reads[OF Cons.prems(1)] q(2)])
  then show ?case by simp
qed

lemma countPages_walks:
  assumes "seen_below t us gss fs" "set qs \<subseteq> snd ` set us"
  shows "goes_on ps t (countPages_from (qs @ ps) a t)"
  using assms
proof (induction gss arbitrary: us qs ps a t)
  case Nil
  show ?case
  proof (rule countPages_list[OF Nil])
    fix t q qs a assume b: "seen_below t us [] fs" "q \<in> snd ` set us"
    obtain t1 r1 where r1: "pageType q t = (t1, r1)" by (cases "pageType q t")
    have d1: "reads t t1" "r1 \<in> {Inl (ErrPager ErrPoolExhausted), Inr PageBTreeLeaf}" using below_leaf[OF b] r1 by (auto simp: delivers_def)
    then show "goes_on (qs @ ps) t (countPages_from (q # qs @ ps) a t)"
      by (subst countPages_from.simps) (auto simp: r1 intro: goes_onI reads_refl)
  qed
next
  case (Cons gs gss)
  note IH = Cons.IH
  show ?case
  proof (rule countPages_list[OF Cons.prems])
    fix t q qs a assume b: "seen_below t us (gs # gss) fs" "q \<in> snd ` set us"
    obtain es where d: "delivers t PageBTreeInterior (pageType q t)" and l: "\<And>t'. reads t t' \<Longrightarrow> delivers t' es (loadInterior q t')"
      and es: "es \<noteq> []" "child ` set es \<subseteq> snd ` set (children gs)" using below_interior[OF b] by metis
    obtain t1 r1 where r1: "pageType q t = (t1, r1)" by (cases "pageType q t")
    have d1: "reads t t1" "r1 \<in> {Inl (ErrPager ErrPoolExhausted), Inr PageBTreeInterior}" using d r1 by (auto simp: delivers_def)
    obtain t2 r2 where r2: "loadInterior q t1 = (t2, r2)" by (cases "loadInterior q t1")
    have d2: "reads t1 t2" "r2 \<in> {Inl (ErrPager ErrPoolExhausted), Inr es}" using l[OF d1(1)] r2 by (auto simp: delivers_def)
    note rd = reads_trans[OF d1(1) d2(1)]
    have "goes_on (qs @ ps) t2 (countPages_from (map child es @ qs @ ps) (a + 1) t2)"
      by (rule IH[OF below_reads[OF below_down[OF b(1)] rd]]) (use es(2) in simp)
    then show "goes_on (qs @ ps) t (countPages_from (q # qs @ ps) a t)"
      using d1 d2 rd goes_on_reads[OF rd] by (subst countPages_from.simps) (auto simp: r1 r2 intro: goes_onI reads_refl)
  qed
qed

lemma countPages_returns:
  assumes "seen_below t us gss fs" "q \<in> snd ` set us"
  shows "walks t (countPages q t)"
proof -
  have "goes_on [] t (countPages_from ([q] @ []) 0 t)" by (rule countPages_walks[OF assms(1)]) (use assms(2) in simp)
  then obtain t' m where r: "reads t t'" "countPages_from [q] 0 t = countPages_from [] m t'" by (auto simp: goes_on_def)
  moreover have "countPages_from [] m t' = Some (t', m)" by (subst countPages_from.simps) simp
  ultimately show ?thesis by (simp add: countPages_def walks_def)
qed

lemma entries_loop_walks:
  assumes "tok com n recs xs k t" "mirrors t c P" "set (leaf_pages ls) \<subseteq> P" "leaf_chain c ls"
  shows "walks t (entries_loop (chain_head ls) a t)"
  using assms
proof (induction ls arbitrary: a t)
  case Nil
  then show ?case by (subst entries_loop.simps) (simp add: walks_here reads_refl)
next
  case (Cons x ls)
  have q: "fst (snd x) \<in> P" using Cons.prems(3) by simp
  note m = mirrorsD[OF Cons.prems(2) q]
  obtain t1 r1 where r1: "loadLeaf (fst (snd x)) t = (t1, r1)" by (cases "loadLeaf (fst (snd x)) t")
  have d1: "reads t t1" "r1 \<in> {Inl (ErrPager ErrPoolExhausted), Inr (snd (snd x), chain_head ls)}"
    using loadLeaf_reads[OF Cons.prems(1) m(1), of "snd (snd x)" "chain_head ls"] Cons.prems(4) r1 unfolding m(2) by (auto simp: delivers_def)
  have "walks t1 (entries_loop (chain_head ls) (a + of_nat (length (snd (snd x)))) t1)"
    by (rule Cons.IH[OF readsD(11)[OF d1(1) Cons.prems(1)] mirrors_reads[OF Cons.prems(2) d1(1)]]) (use Cons.prems(3,4) in auto)
  from walks_reads[OF d1(1) this] show ?case using d1 by (subst entries_loop.simps) (auto simp: r1 intro: walks_here reads_refl)
qed

lemma btree_Stats_returns:
  assumes ok: "btree_ok com n recs xs k t ls gss"
  shows "walks t (btree_Stats t)"
proof (cases "t_root t = NullPage")
  case True
  then show ?thesis by (simp add: btree_Stats_def walks_here reads_refl)
next
  case False
  have root: "t_root t \<in> snd ` set [([] :: bytes, t_root t)]" by simp
  have at: "btree_ok com n recs xs k u ls gss" "t_root u \<noteq> NullPage" "t_root u = t_root t" "seen_below u [([], t_root t)] gss (fences ls)" if "reads t u" for u
    using btree_ok_reads[OF ok that] readsD(5)[OF that] False below_reads[OF btree_below[OF ok False] that] by simp_all
  have en: "walks u (case r of Inl e \<Rightarrow> Some (u, 0) | Inr (leaf, _) \<Rightarrow> entries_loop leaf 0 u)"
    if u: "reads t u" "r = Inl (ErrPager ErrPoolExhausted) \<or> (\<exists>v. r = Inr v \<and> descent [] gss (fences ls) [] v)" for u and r :: "btree_error + u32 \<times> u32 list"
  proof (cases r)
    case (Inr v)
    note T = btree_treeD[OF at(1,2)[OF u(1)]]
    obtain LA l ks LB where a: "at_leaf [] ls gss v LA (l, fst v, ks) LB" by (rule descent_leaf[OF _ T(3)]) (use u(2) Inr in auto)
    then have ls: "ls = LA @ (l, fst v, ks) # LB" by (simp add: at_leaf_def)
    have "walks u (entries_loop (chain_head ((l, fst v, ks) # LB)) 0 u)"
      by (rule entries_loop_walks[OF T(7) btree_mirrors[OF at(1)[OF u(1)]] _ leaf_chain_tail[OF T(2)[unfolded ls]]])
        (auto simp: ls tree_pages_def)
    then show ?thesis using Inr by (cases v) simp
  qed (simp add: walks_here reads_refl)
  have de: "walks u (Option.bind (descend [] u) f)"
    if u: "reads t u" and f: "\<And>u' r. reads u u' \<Longrightarrow> r = Inl (ErrPager ErrPoolExhausted) \<or> (\<exists>v. r = Inr v \<and> descent [] gss (fences ls) [] v) \<Longrightarrow> walks u' (f (u', r))" for u and f :: "BTree \<times> (btree_error + u32 \<times> u32 list) \<Rightarrow> (BTree \<times> IndexStats) option"
    using descend_finds[OF at(1,2)[OF u], of "[]"] f walks_reads[of u] unfolding finds_def by fastforce
  have pages: "walks u (Option.bind (countPages (t_root u) u) (\<lambda>(u', p). Some (u', f p)))" if u: "reads t u" for u and f :: "u64 \<Rightarrow> IndexStats"
    using countPages_returns[OF at(4)[OF u] root] at(3)[OF u] by (auto simp: walks_def)
  show ?thesis unfolding btree_Stats_def if_not_P[OF False]
  proof (rule walks_bind[OF height_loop_walks[OF btree_below[OF ok False] root]], unfold prod.case, rule de, goal_cases)
    case (2 u h u' r)
    note rd = reads_trans[OF 2(1,2)]
    show ?case unfolding prod.case
    proof (rule walks_bind[OF en[OF rd 2(3)]], unfold prod.case)
      fix v e assume "reads u' v"
      then show "walks v (Option.bind (countPages (t_root v) v)
          (\<lambda>(w, p). Some (w, \<lparr>is_Entries = e, is_DistinctKeys = e, is_Height = h, is_Pages = p\<rparr>)))"
        by (intro pages reads_trans[OF rd])
    qed
  qed
qed

end
