(* ===== verification/Btree_Durable.thy ===== *)
theory Btree_Durable
  imports Btree_Scan Pager_Run
begin

text \<open>
  The index on a database file: the root kept in the header, what a commit makes durable and what
  opening the files after a crash gives.
\<close>

section \<open>The root in the header\<close>

lemma keeps_header:
  assumes "p_pageSize p' = p_pageSize p" "PageCount (p_hdr p') = PageCount (p_hdr p)"
    "\<forall>pid. pid \<noteq> 0 \<longrightarrow> content p' pid = content p pid"
  shows "keeps {} p xs p' xs"
  using assms by (auto simp: keeps_def in_use_def)

lemma SetCatalogRoot_ok:
  assumes ok: "pager_ok com n recs p" and fl: "free_list p xs" and r: "room (Suc k) p"
  shows "pager_ok com n recs (fst (SetCatalogRoot root p))" "free_list (fst (SetCatalogRoot root p)) xs" "room k (fst (SetCatalogRoot root p))"
    "keeps {} p xs (fst (SetCatalogRoot root p)) xs"
proof -
  let ?p = "p\<lparr>p_hdr := (p_hdr p)\<lparr>CatalogRoot := root\<rparr>\<rparr>"
  have k: "pages_ok 0 (cnt p) com n recs ?p" using ok by (simp add: pager_ok_def)
  have h: "hdr_fits ?p" using ok by (auto simp: pager_ok_def hdr_ok_def hdr_fits_def openable_def)
  have l: "lsn_room (Suc (4 * k + 3)) ?p" using r by (simp add: room_def lsn_room_def)
  obtain p' where p': "touchHeaderLocked ?p = (p', Inr ())" "pages_ok 0 (cnt p) com n recs p'" "hdr_ok p'"
      "p_hdr p' = bump_header (p_hdr ?p)" "\<forall>pid. pid \<noteq> 0 \<longrightarrow> content p' pid = content ?p pid" "lsn_room (4 * k + 3) p'" "kept ?p p'"
    by (rule touchHeaderLocked_ok[OF k h l])
  have e: "fst (SetCatalogRoot root p) = p'" using p'(1) by (simp add: SetCatalogRoot_def)
  have c: "PageCount (p_hdr p') = PageCount (p_hdr p)" "FreelistRoot (p_hdr p') = FreelistRoot (p_hdr p)" using p'(4) by (simp_all add: bump_header_def)
  have "content ?p = content p" by (auto simp: content_def fun_eq_iff split: option.splits)
  then have ct: "\<forall>pid. pid \<noteq> 0 \<longrightarrow> content p' pid = content p pid" using p'(5) by simp
  show "pager_ok com n recs (fst (SetCatalogRoot root p))" unfolding e pager_ok_def using p'(2,3) c(1) by simp
  have nz: "ucast y \<noteq> (0 :: u64)" if "y \<in> set xs" for y
    using free_listD(3)[OF fl that] by (metis ucast_page_back unsigned_0)
  show "free_list (fst (SetCatalogRoot root p)) xs" unfolding e
    by (rule free_list_kept[OF fl c(2)]) (use c(1) ct nz in auto)
  show "room k (fst (SetCatalogRoot root p))" unfolding e using r p'(6) c(1) by (simp add: room_def lsn_room_def)
  show "keeps {} p xs (fst (SetCatalogRoot root p)) xs" unfolding e using p'(7) c(1) ct by (intro keeps_header) (simp_all add: kept_def)
qed

lemma catalog_keeper: "root_keeper (\<lambda>r p. fst (SetCatalogRoot r p))"
  unfolding root_keeper_def by (intro allI impI conjI; elim conjE; rule SetCatalogRoot_ok; assumption)

text \<open>A tree over an open pager.\<close>

lemma geometry_Open:
  assumes "pager_ok com n recs p"
  shows "geometry (btree_Open p coll u)" "geometry (OpenWithRoot p coll u root f)"
proof -
  have "p_pageSize p = unat (PageSize (p_hdr p))" using assms by (auto simp: pager_ok_def hdr_ok_def)
  then have "p_pageSize p < 2 ^ 32" using unsigned_less[of "PageSize (p_hdr p)", where ?'a = nat] by simp
  then have "unat (of_nat (p_pageSize p) :: u32) = p_pageSize p" by (simp add: unat_of_nat)
  then show "geometry (btree_Open p coll u)" "geometry (OpenWithRoot p coll u root f)"
    by (simp_all add: geometry_def btree_Open_def OpenWithRoot_def Let_def BodySize_def)
qed

section \<open>The index of a committed state\<close>

definition index_at :: "(u64 \<Rightarrow> bytes) \<Rightarrow> nat \<Rightarrow> index_entries \<Rightarrow> bool" where
  "index_at com n E \<longleftrightarrow> (\<exists>h xs ls gss. DecodeHeader (take HeaderSize (com 0)) = Inr h \<and> free_chain com n (FreelistRoot h) xs
     \<and> (if CatalogRoot h = NullPage then ls = [] \<and> gss = [] else tree (\<lambda>q. com (ucast q)) (CatalogRoot h) ls gss)
     \<and> (\<forall>q \<in> set (tree_pages ls gss). q \<noteq> 0 \<and> unat q < n \<and> q \<notin> set xs) \<and> set (all_keys ls) = tree_keys E)"

text \<open>The tree reads its root from the header.\<close>

definition rooted :: "BTree \<Rightarrow> bool" where
  "rooted t \<longleftrightarrow> t_root t = CatalogRoot (p_hdr (t_pgr t))"

lemma holds_indexed:
  assumes h: "holds_entries com n recs t E" and r: "rooted t"
  shows "index_at (content (t_pgr t)) (cnt (t_pgr t)) E"
proof -
  obtain xs ls gss where b: "btree_ok com n recs xs 0 t ls gss" "set (all_keys ls) = tree_keys E" using h by (auto simp: holds_entries_def)
  have "pager_ok com n recs (t_pgr t)" "free_list (t_pgr t) xs" using b(1) by (auto simp: btree_ok_def tok_def)
  then obtain s where s: "DecodeHeader (take HeaderSize (content (t_pgr t) 0)) = Inr (p_hdr (t_pgr t)\<lparr>HeaderChecksum := s\<rparr>)"
    by (auto simp: pager_ok_def hdr_ok_def)
  show ?thesis unfolding index_at_def
    by (intro exI[of _ "p_hdr (t_pgr t)\<lparr>HeaderChecksum := s\<rparr>"] exI[of _ xs] exI[of _ ls] exI[of _ gss])
      (use s b \<open>free_list (t_pgr t) xs\<close> r in \<open>auto simp: free_list_def btree_ok_def rooted_def in_use_def\<close>)
qed

lemma indexed_Open:
  assumes o: "opened com n ps algo q" and i: "index_at com n E"
  shows "holds_entries com n [] (btree_Open q coll u) E \<and> rooted (btree_Open q coll u)"
proof -
  have q: "pager_ok com n [] q" "cnt q = n" "\<And>pid. unat pid < n \<Longrightarrow> content q pid = com pid" using o by (auto simp: opened_def)
  have k: "pages_ok 0 n com n [] q" using q(1,2) by (simp add: pager_ok_def)
  have pos: "0 < n" using pages_okD(10,11)[OF k] pages_ok_size[OF k] by (cases n) (auto simp: has_page_def)
  obtain h xs ls gss where h: "DecodeHeader (take HeaderSize (com 0)) = Inr h" "free_chain com n (FreelistRoot h) xs"
      "if CatalogRoot h = NullPage then ls = [] \<and> gss = [] else tree (\<lambda>q. com (ucast q)) (CatalogRoot h) ls gss"
      "\<forall>q \<in> set (tree_pages ls gss). q \<noteq> 0 \<and> unat q < n \<and> q \<notin> set xs" "set (all_keys ls) = tree_keys E"
    using i by (auto simp: index_at_def)
  obtain s where s: "DecodeHeader (take HeaderSize (content q 0)) = Inr (p_hdr q\<lparr>HeaderChecksum := s\<rparr>)"
    using q(1) by (auto simp: pager_ok_def hdr_ok_def)
  have hq: "h = p_hdr q\<lparr>HeaderChecksum := s\<rparr>" using h(1) s q(3)[of 0] pos by simp
  have hf: "FreelistRoot (p_hdr q) = FreelistRoot h" "CatalogRoot (p_hdr q) = CatalogRoot h" by (simp_all add: hq)
  let ?t = "btree_Open q coll u"
  have t: "t_pgr ?t = q" "t_root ?t = CatalogRoot h" "t_onRoot ?t = (\<lambda>r p. fst (SetCatalogRoot r p))"
    by (simp_all add: btree_Open_def OpenWithRoot_def Let_def CatalogRoot_of_def hf)
  have fl: "free_list q xs" unfolding free_list_def hf q(2)
    by (rule free_chain_cong[OF h(2)]) (use q(3) free_chainD[OF h(2)] in auto)
  have tk: "tok com n [] xs 0 ?t" using q(1) fl room_0 geometry_Open(1)[OF q(1)] by (simp add: tok_def t)
  have "tree (node ?t) (CatalogRoot h) ls gss" if "CatalogRoot h \<noteq> NullPage"
    by (rule tree_cong[of "\<lambda>q. com (ucast q)"]) (use h(3,4) that q(3) in \<open>auto simp: t\<close>)
  then have "btree_ok com n [] xs 0 ?t ls gss" using tk h(3,4) q(2) by (auto simp: btree_ok_def t in_use_def)
  then have "holds_entries com n [] ?t E" unfolding holds_entries_def t(3) using h(5) catalog_keeper by blast
  then show ?thesis by (simp add: rooted_def t hf)
qed

section \<open>Commit\<close>

lemma leaf_chain_cells:
  "leaf_chain c ls \<Longrightarrow> (\<And>q. q \<in> set (leaf_pages ls) \<Longrightarrow> same_cells (c q) (c' q)) \<Longrightarrow> leaf_chain c' ls"
  by (induction ls) (auto intro: same_cells_node(1))

lemma spine_cells:
  assumes "spine c us gss fs" "\<And>q. q \<in> set (level_pages gss) \<Longrightarrow> same_cells (c q) (c' q)"
  shows "spine c' us gss fs"
  using assms
proof (induction gss arbitrary: us)
  case (Cons gs gss)
  have "nodes_ok c gs" "\<And>x. x \<in> set gs \<Longrightarrow> same_cells (c (fst x)) (c' (fst x))" using Cons.prems by auto
  then have "nodes_ok c' gs" unfolding nodes_ok_def using same_cells_node(2) by blast
  then show ?case using Cons by simp
qed simp

lemma tree_same_cells:
  assumes t: "tree c root ls gss" and s: "\<And>q. q \<in> set (tree_pages ls gss) \<Longrightarrow> same_cells (c q) (c' q)"
  shows "tree c' root ls gss"
  using t leaf_chain_cells[of c ls c'] spine_cells[of c _ gss _ c'] s by (auto simp: tree_def tree_pages_def)

lemma same_cells_refl: "same_cells b b"
  by (simp add: same_cells_def)

lemma Tx_Commit_ok:
  assumes h: "holds_entries com n recs t E" and rw: "\<not> tx_readOnly x"
  obtains t' recs' where "Tx_Commit salts x t = (t', Inr ())" "holds_entries (content (t_pgr t')) (cnt (t_pgr t')) recs' t' E" "Commit salts (t_pgr t) = (t_pgr t', Inr ())"
    "t' = t\<lparr>t_pgr := t_pgr t'\<rparr>" "p_hdr (t_pgr t') = p_hdr (t_pgr t)"
proof -
  obtain xs ls gss where b: "btree_ok com n recs xs 0 t ls gss" "set (all_keys ls) = tree_keys E" "root_keeper (t_onRoot t)"
    using h by (auto simp: holds_entries_def)
  have p: "pager_ok com n recs (t_pgr t)" "free_list (t_pgr t) xs" and g: "geometry t" using b(1) by (auto simp: btree_ok_def tok_def)
  obtain p' recs' where p': "Commit salts (t_pgr t) = (p', Inr ())" "pager_ok (content p') (cnt (t_pgr t)) recs' p'" "same_pages (t_pgr t) p'" "free_list p' xs"
    by (rule Commit_run[OF p])
  let ?t = "t\<lparr>t_pgr := p'\<rparr>"
  have hd: "p_hdr p' = p_hdr (t_pgr t)" using p'(3) by (simp add: same_pages_def)
  have ps: "p_pageSize p' = p_pageSize (t_pgr t)" using p(1) p'(2) hd by (simp add: pager_ok_def hdr_ok_def)
  have tk: "tok (content p') (cnt p') recs' xs 0 ?t" using p'(2,4) room_0 g hd ps by (simp add: tok_def geometry_def)
  have iu: "in_use p' xs q = in_use (t_pgr t) xs q" for q by (simp add: in_use_def hd)
  have sc: "same_cells (node t q) (node ?t q)" if "q \<in> set (tree_pages ls gss)" for q
  proof -
    have "unat (ucast q :: u64) < cnt (t_pgr t)" using b(1) that by (auto simp: btree_ok_def in_use_def)
    then show ?thesis using p'(3) same_cells_refl resealed_same_cells unfolding same_pages_def by (metis BTree.select_convs(1) BTree.surjective BTree.update_convs(1))
  qed
  have "btree_ok (content p') (cnt p') recs' xs 0 ?t ls gss" using b(1) tk iu tree_same_cells[of "node t" _ ls gss "node ?t"] sc by (auto simp: btree_ok_def)
  then have "holds_entries (content p') (cnt p') recs' ?t E" unfolding holds_entries_def using b(2,3) by auto
  then show ?thesis using that[of ?t recs'] p'(1) rw hd by (simp add: Tx_Commit_def on_pager_def)
qed

section \<open>Roots are reported\<close>

lemma CatalogRoot_set: "CatalogRoot (p_hdr (fst (SetCatalogRoot r p))) = r"
  by (simp add: SetCatalogRoot_def touchHeaderLocked_def encodeHeaderIntoFrame0_def markDirtyLocked_def Let_def andThen_def
      bump_header_def put_frame_def
      split: option.splits prod.splits sum.splits)

text \<open>An index that keeps its root in the header.\<close>

definition catalogued :: "BTree \<Rightarrow> bool" where
  "catalogued t \<longleftrightarrow> rooted t \<and> t_onRoot t = (\<lambda>r p. fst (SetCatalogRoot r p))"

lemma catalogued_kept:
  assumes "catalogued t" "root_kept t t'" "t_onRoot t' = t_onRoot t"
  shows "catalogued t'"
  using assms CatalogRoot_set by (auto simp: catalogued_def rooted_def root_kept_def)

lemma catalogued_Open: "catalogued (btree_Open p coll u)"
  by (simp add: catalogued_def rooted_def btree_Open_def OpenWithRoot_def Let_def CatalogRoot_of_def)

section \<open>Crashes\<close>

text \<open>Whatever was put since the last commit, the files give the entries of that commit, or those of a
  commit that was in progress.\<close>

lemma crash_indexed:
  assumes h: "holds_entries com n recs t E" and r: "rooted t" and c: "index_at com n E0" and d: "survivable com n (t_pgr t) d" and rw: "\<not> o_ReadOnly opts"
  obtains q where "Open d opts salts ws uuid = Inr q" "(\<exists>com' n'. holds_entries com' n' [] (btree_Open q coll u) E0) \<or> (\<exists>com' n'. holds_entries com' n' [] (btree_Open q coll u) E)"
proof -
  have ok: "pager_ok com n recs (t_pgr t)" using h by (auto simp: holds_entries_def btree_ok_def tok_def)
  from survivable_holds[OF ok d] consider (old) "disk_holds (p_pageSize (t_pgr t)) (p_checksum (t_pgr t)) com n d"
    | (new) cs p' where "Commit cs (t_pgr t) = (p', Inr ())"
        "disk_holds (p_pageSize (t_pgr t)) (p_checksum (t_pgr t)) (content p') (cnt p') d" by blast
  then show ?thesis
  proof cases
    case old
    obtain q where q: "Open d opts salts ws uuid = Inr q" "opened com n (p_pageSize (t_pgr t)) (p_checksum (t_pgr t)) q"
      using Open_ok[OF old rw] by blast
    then show ?thesis using that indexed_Open[OF q(2) c] by blast
  next
    case new
    obtain q where q: "Open d opts salts ws uuid = Inr q" "opened (content p') (cnt p') (p_pageSize (t_pgr t)) (p_checksum (t_pgr t)) q"
      using Open_ok[OF new(2) rw] by blast
    let ?x = "\<lparr>tx_version = 0, tx_readOnly = False\<rparr>"
    have x: "\<not> tx_readOnly ?x" by simp
    obtain t' recs' where t': "holds_entries (content (t_pgr t')) (cnt (t_pgr t')) recs' t' E" "Commit cs (t_pgr t) = (t_pgr t', Inr ())"
        "t' = t\<lparr>t_pgr := t_pgr t'\<rparr>" "p_hdr (t_pgr t') = p_hdr (t_pgr t)" by (rule Tx_Commit_ok[OF h x, of cs])
    have "rooted t'" using r t'(4) unfolding rooted_def by (subst t'(3)) simp
    then have "index_at (content p') (cnt p') E" using holds_indexed[OF t'(1)] t'(2) new(1) by simp
    then show ?thesis using that[OF q(1)] indexed_Open[OF q(2)] by blast
  qed
qed

end
