(* ===== verification/Btree_Store.thy ===== *)
theory Btree_Store
  imports Btree_Walk Btree_Durable
begin

text \<open>
  The index as an \<^verbatim>\<open>IndexStore\<close> (\<^verbatim>\<open>src/storage/spi.go\<close>): the contract as a locale, the B-tree as an
  instance of it, and what its calls promise.
\<close>

section \<open>Ranges\<close>

lemma takeWhile_closed:
  fixes ks :: "bytes list"
  assumes "sorted_wrt (<) ks" "\<And>k k'. k \<in> set ks \<Longrightarrow> k' \<in> set ks \<Longrightarrow> k < k' \<Longrightarrow> P k' \<Longrightarrow> P k"
  shows "takeWhile P ks = filter P ks \<and> dropWhile P ks = filter (\<lambda>k. \<not> P k) ks"
  using assms
proof (induction ks)
  case (Cons k ks)
  have IH: "takeWhile P ks = filter P ks \<and> dropWhile P ks = filter (\<lambda>k. \<not> P k) ks"
    by (rule Cons.IH) (use Cons.prems in \<open>simp, metis list.set_intros(2)\<close>)
  have "filter P ks = [] \<and> filter (\<lambda>k. \<not> P k) ks = ks" if "\<not> P k"
  proof -
    have "\<not> P k'" if "k' \<in> set ks" for k' using Cons.prems(1) Cons.prems(2)[of k k'] that \<open>\<not> P k\<close> by auto
    then show ?thesis by (simp add: filter_empty_conv filter_id_conv)
  qed
  then show ?case using IH by simp
qed simp

definition above_lo :: "bytes option \<Rightarrow> bool \<Rightarrow> bytes \<Rightarrow> bool" where
  "above_lo lo incl f \<longleftrightarrow> (case lo of None \<Rightarrow> True | Some l \<Rightarrow> if incl then l \<le> f else l < f)"

text \<open>Fields that are told apart before either ends.\<close>

definition delimited :: "bytes option \<Rightarrow> index_entries \<Rightarrow> bool" where
  "delimited lo E \<longleftrightarrow> (\<forall>x \<in> E. \<forall>y \<in> E. told_apart (fst x) (fst y)) \<and> (\<forall>x \<in> E. \<forall>l. lo = Some l \<longrightarrow> told_apart l (fst x))"

lemma field_mono:
  assumes d: "delimited lo E" and k: "k \<in> tree_keys E" "k' \<in> tree_keys E" "k < k'"
  shows "field k \<le> field k'"
proof -
  obtain f r g s where e: "k = treeKey f r" "(f, r) \<in> E" "k' = treeKey g s" "(g, s) \<in> E" using k by auto
  have "told_apart f g" using d e(2,4) by (force simp: delimited_def)
  then show ?thesis using k(3) treeKey_order[of f g r s] e by (auto simp: less_le)
qed

lemma start_above:
  assumes d: "delimited lo E" and e: "(f, r) \<in> E"
  shows "range_start lo \<le> treeKey f r \<longleftrightarrow> above_lo lo True f"
proof (cases lo)
  case (Some l)
  then have "told_apart l f" using d e by (force simp: delimited_def)
  then show ?thesis using Some treeKey_order[of l f zeroRID r] zeroRID_least[of r] by (auto simp: range_start_def above_lo_def)
qed (simp add: range_start_def above_lo_def)

lemma scan_keys_range:
  assumes d: "delimited lo E" and ks: "set ks = tree_keys E" "sorted_wrt (<) ks"
  shows "sorted_wrt (<) (scan_keys lo hi opts ks)"
    "set (scan_keys lo hi opts ks) = {treeKey f r | f r. (f, r) \<in> E \<and> above_lo lo (so_IncludeLo opts) f \<and> below_hi hi (so_IncludeHi opts) f}"
proof -
  let ?F = "filter (\<lambda>k. range_start lo \<le> k) ks" let ?S = "scan_skip lo (so_IncludeLo opts) ?F"
  have sF: "sorted_wrt (<) ?F" using ks(2) by (rule sorted_wrt_filter)
  then have sS: "sorted_wrt (<) ?S" by (auto simp: scan_skip_def dropWhile_eq_drop intro: sorted_wrt_drop split: option.splits)
  then show "sorted_wrt (<) (scan_keys lo hi opts ks)" unfolding scan_keys_def by (subst takeWhile_eq_take) (rule sorted_wrt_take)
  have F: "k \<in> set ?F \<longleftrightarrow> k \<in> tree_keys E \<and> above_lo lo True (field k)" for k using start_above[OF d] ks(1) by auto
  have S: "set ?S = {k \<in> tree_keys E. above_lo lo (so_IncludeLo opts) (field k)}"
  proof (cases "\<exists>l. lo = Some l \<and> \<not> so_IncludeLo opts")
    case True
    then obtain l where l: "lo = Some l" "\<not> so_IncludeLo opts" by blast
    have "field k = l" if "k \<in> set ?F" "k' \<in> set ?F" "k < k'" "field k' = l" for k k'
      using that F field_mono[OF d, of k k'] l(1) by (auto simp: above_lo_def)
    then have "dropWhile (\<lambda>k. field k = l) ?F = filter (\<lambda>k. field k \<noteq> l) ?F" using takeWhile_closed[OF sF, of "\<lambda>k. field k = l"] by blast
    then have "k \<in> set ?S \<longleftrightarrow> k \<in> set ?F \<and> field k \<noteq> l" for k by (simp add: scan_skip_def l)
    then show ?thesis unfolding set_eq_iff F by (auto simp: l above_lo_def)
  next
    case False
    then have "?S = ?F" "above_lo lo (so_IncludeLo opts) f = above_lo lo True f" for f
      by (auto simp: scan_skip_def above_lo_def split: option.splits)
    then show ?thesis using F by auto
  qed
  have "below_hi hi (so_IncludeHi opts) (field k)" if "k \<in> set ?S" "k' \<in> set ?S" "k < k'" "below_hi hi (so_IncludeHi opts) (field k')" for k k'
    using that S field_mono[OF d, of k k'] by (auto simp: below_hi_def split: option.splits if_splits)
  then have "scan_keys lo hi opts ks = filter (\<lambda>k. below_hi hi (so_IncludeHi opts) (field k)) ?S"
    unfolding scan_keys_def using takeWhile_closed[OF sS, of "\<lambda>k. below_hi hi (so_IncludeHi opts) (field k)"] by blast
  then show "set (scan_keys lo hi opts ks) = {treeKey f r | f r. (f, r) \<in> E \<and> above_lo lo (so_IncludeLo opts) f \<and> below_hi hi (so_IncludeHi opts) f}"
    using S by auto
qed

lemma btree_sorted:
  assumes "btree_ok com n recs xs k t ls gss"
  shows "sorted_wrt (<) (all_keys ls)"
proof (cases "t_root t = NullPage")
  case False
  then show ?thesis using bounded_sorted[OF btree_treeD(3)[OF assms False]] by simp
qed (use assms in \<open>auto simp: btree_ok_def\<close>)

lemma holds_scan:
  assumes h: "holds_entries com n recs t E" and d: "delimited lo E" and fw: "\<not> so_Reverse opts"
  shows "finds t (\<lambda>ks. sorted_wrt (<) ks
    \<and> set ks = {treeKey f r | f r. (f, r) \<in> E \<and> above_lo lo (so_IncludeLo opts) f \<and> below_hi hi (so_IncludeHi opts) f}) (scan_all lo hi opts t)"
proof -
  obtain xs ls gss where b: "btree_ok com n recs xs 0 t ls gss" "set (all_keys ls) = tree_keys E" using h by (auto simp: holds_entries_def)
  have kd: "keyed (all_keys ls)" using b(2) by (auto simp: keyed_def)
  note R = scan_keys_range[OF d b(2) btree_sorted[OF b(1)]]
  show ?thesis by (rule finds_mono[OF scan_all_finds[OF b(1) kd fw]]) (simp only: R)
qed

section \<open>Calls return\<close>

lemma getLocked_returns:
  assumes h: "holds_entries com n recs t E"
  shows "\<exists>t' r. getLocked key t = Some (t', r) \<and> reads t t' \<and> r \<noteq> Inl BtreePanic \<and> (\<forall>s. r = Inr s \<longrightarrow> (key, s) \<in> E)"
proof -
  obtain xs ls gss where b: "btree_ok com n recs xs 0 t ls gss" "set (all_keys ls) = tree_keys E" using h by (auto simp: holds_entries_def)
  show ?thesis
  proof (cases "t_root t = NullPage")
    case True
    then show ?thesis using reads_refl by (auto simp: getLocked_def)
  next
    case r: False
    let ?s = "treeKey key zeroRID"
    have sk: "sorted_wrt (<) (all_keys ls)" by (rule bounded_sorted[OF btree_treeD(3)[OF b(1) r]])
    obtain t1 q where q: "seek ?s t = Some (t1, q)" "reads t t1" "q = Inl (ErrPager ErrPoolExhausted) \<or> (\<exists>v. q = Inr v \<and> sought ?s ls v)"
      using seek_finds[OF b(1) r, of ?s] by (auto simp: finds_def)
    have "\<exists>f s. pos_keys p ! pos_idx p = treeKey f s \<and> (f, s) \<in> E" if "sought ?s ls (Some p)" for p
    proof -
      have "stands ls (filter (\<lambda>k. ?s \<le> k) (all_keys ls)) p" using that by (simp add: sought_def Let_def sorted_from[OF sk])
      then have "pos_keys p ! pos_idx p \<in> set (all_keys ls)" using stands_hd[of ls _ p] hd_in_set by fastforce
      then show ?thesis using b(2) by auto
    qed
    then show ?thesis using q r by (fastforce simp: getLocked_def treeKey_parts split: option.splits)
  qed
qed

lemma btree_Put_returns:
  assumes h: "holds_entries com n recs t E" and s: "spacious (t_pgr t)"
  shows "\<exists>t' res. btree_Put ro key rd t = Some (t', res) \<and> res \<noteq> Inl BtreePanic"
proof (cases "ro \<or> int (length (treeKey key rd) + slotDirEntry) > t_maxKey t")
  case True
  then show ?thesis by (auto simp: btree_Put_def Let_def)
next
  case False
  then have f: "int (length (treeKey key rd) + slotDirEntry) \<le> t_maxKey t" by simp
  have np: "snd res \<noteq> Inl BtreePanic" if "writes_entries com n recs u E' res" for u E' res using that by (auto simp: writes_entries_def)
  have pl: "\<exists>t' res. put_leaf (treeKey key rd) u = Some (t', res) \<and> res \<noteq> Inl BtreePanic" if u: "reads t u" "t_root t \<noteq> NullPage" for u
    using put_leaf_writes[OF holds_reads[OF h u(1)], of key rd] s spacious_reads[OF u(1)] readsD(5,10)[OF u(1)] u(2) f np by fastforce
  show ?thesis
  proof (cases "t_root t = NullPage")
    case True
    then show ?thesis using np[OF put_empty(2)[OF h s True, of key rd]] False
      by (cases "andThen (newLeaf [treeKey key rd] NullPage t) (\<lambda>root t. (new_root root t, Inr ()))") (simp add: btree_Put_def Let_def)
  next
    case r: False
    obtain t1 q where g: "getLocked key t = Some (t1, q)" "reads t t1" "q \<noteq> Inl BtreePanic" using getLocked_returns[OF h] by metis
    show ?thesis
    proof (cases "t_unique t")
      case True
      then show ?thesis using g pl[OF g(2) r] False r by (cases q) (auto simp: btree_Put_def Let_def)
    qed (use pl[OF reads_refl r] False r in \<open>auto simp: btree_Put_def Let_def\<close>)
  qed
qed

lemma btree_Delete_returns:
  assumes h: "holds_entries com n recs t E" and s: "spacious (t_pgr t)"
  shows "\<exists>t' res. btree_Delete ro key rd t = Some (t', res) \<and> res \<noteq> Inl BtreePanic"
proof (cases ro)
  case False
  then show ?thesis using btree_Delete_ok[OF h s, of key rd] by (fastforce simp: removes_def writes_entries_def split: if_splits)
qed (simp add: btree_Delete_def)

lemma scan_returns:
  assumes h: "holds_entries com n recs t E"
  shows "\<exists>t' res. scan_all lo hi opts t = Some (t', res) \<and> res \<noteq> Inl BtreePanic"
proof (cases "so_Reverse opts")
  case False
  obtain xs ls gss where b: "btree_ok com n recs xs 0 t ls gss" "set (all_keys ls) = tree_keys E" using h by (auto simp: holds_entries_def)
  have kd: "keyed (all_keys ls)" using b(2) by (auto simp: keyed_def)
  show ?thesis using scan_all_finds[OF b(1) kd False, of lo hi] by (auto simp: finds_def)
qed (simp add: scan_all_def btree_Scan_def)

section \<open>The contract of an index\<close>

datatype index_op = PutOp bytes rid | DeleteOp bytes rid

fun entries_after :: "index_op list \<Rightarrow> index_entries \<Rightarrow> index_entries" where
  "entries_after [] E = E"
| "entries_after (PutOp k r # ops) E = entries_after ops (insert (k, r) E)"
| "entries_after (DeleteOp k r # ops) E = entries_after ops (E - {(k, r)})"

locale index_store =
  fixes stored :: "'s \<Rightarrow> index_entries \<Rightarrow> bool" and able :: "'s \<Rightarrow> bool"
    and put del :: "bytes \<Rightarrow> rid \<Rightarrow> 's \<Rightarrow> ('s \<times> ('e + unit)) option"
    and scan :: "'s \<Rightarrow> ('s \<times> ('e + bytes list)) option" and busy :: 'e
  assumes put_law: "stored s E \<Longrightarrow> able s \<Longrightarrow> put k r s = Some (s', Inr ()) \<Longrightarrow> stored s' (insert (k, r) E)"
    and del_law: "stored s E \<Longrightarrow> able s \<Longrightarrow> del k r s = Some (s', Inr ()) \<Longrightarrow> stored s' (E - {(k, r)})"
    and scan_law: "stored s E \<Longrightarrow> \<exists>s' res. scan s = Some (s', res) \<and> stored s' E
      \<and> (res = Inl busy \<or> (\<exists>ks. res = Inr ks \<and> sorted_wrt (<) ks \<and> set ks = tree_keys E))"
begin

fun runs :: "index_op list \<Rightarrow> 's \<Rightarrow> 's \<Rightarrow> bool" where
  "runs [] s s' \<longleftrightarrow> s' = s"
| "runs (PutOp k r # ops) s s' \<longleftrightarrow> able s \<and> (\<exists>u. put k r s = Some (u, Inr ()) \<and> runs ops u s')"
| "runs (DeleteOp k r # ops) s s' \<longleftrightarrow> able s \<and> (\<exists>u. del k r s = Some (u, Inr ()) \<and> runs ops u s')"

lemma runs_stored: "runs ops s s' \<Longrightarrow> stored s E \<Longrightarrow> stored s' (entries_after ops E)"
proof (induction ops arbitrary: s E)
  case (Cons op ops)
  then show ?case by (cases op) (auto dest: put_law del_law)
qed simp

lemma history_scan:
  assumes "stored s E" "runs ops s u"
  shows "\<exists>u' res. scan u = Some (u', res) \<and> stored u' (entries_after ops E)
    \<and> res \<in> {Inl busy, Inr (sorted_list_of_set (tree_keys (entries_after ops E)))}"
proof -
  have "ks = sorted_list_of_set (tree_keys (entries_after ops E))" if "sorted_wrt (<) ks" "set ks = tree_keys (entries_after ops E)" for ks
    using that by (metis sorted_list_of_set.idem_if_sorted_distinct strict_sorted_iff)
  then show ?thesis using scan_law[OF runs_stored[OF assms(2,1)]] by blast
qed

end

abbreviation whole :: ScanOpts where
  "whole \<equiv> \<lparr>so_Reverse = False, so_IncludeLo = True, so_IncludeHi = True\<rparr>"

text \<open>The entries of a tree, unique or not, whatever its pager has committed.\<close>

definition tree_holds :: "BTree \<Rightarrow> index_entries \<Rightarrow> bool" where
  "tree_holds t E \<longleftrightarrow> (\<exists>com n recs. holds_entries com n recs t E)"

lemma scan_keys_whole: "scan_keys None None whole ks = ks"
  by (simp add: scan_keys_def scan_skip_def range_start_def below_hi_def)

lemma writes_unique: "writes_entries com n recs t E r \<Longrightarrow> snd r = Inr () \<Longrightarrow> t_unique (fst r) = t_unique t \<and> t_onRoot (fst r) = t_onRoot t"
proof -
  assume "writes_entries com n recs t E r" "snd r = Inr ()"
  then have e: "fst r = t\<lparr>t_pgr := t_pgr (fst r), t_root := t_root (fst r)\<rparr>" by (simp add: writes_entries_def)
  show ?thesis by (subst e, subst (2) e) simp
qed

text \<open>A put that succeeds has put the entry, on a unique index too, whatever its check for a duplicate met.\<close>

lemma put_success:
  assumes h: "holds_entries com n recs t E" and s: "spacious (t_pgr t)" and p: "btree_Put False key r t = Some (t', Inr ())"
  shows "holds_entries com n recs t' (insert (key, r) E)"
proof -
  let ?big = "int (length (treeKey key r) + slotDirEntry) > t_maxKey t"
  have nb: "\<not> ?big" using p by (auto simp: btree_Put_def Let_def split: if_splits)
  show ?thesis
  proof (cases "t_unique t \<and> t_root t \<noteq> NullPage")
    case True
    obtain t1 q where g: "getLocked key t = Some (t1, q)" "reads t t1" "q \<noteq> Inl BtreePanic" "\<And>s. q = Inr s \<Longrightarrow> (key, s) \<in> E"
      using getLocked_returns[OF h, of key] by blast
    note h1 = holds_reads[OF h g(2)]
    show ?thesis
    proof (cases q)
      case (Inr s)
      then have "s = r" "t' = t1" using True g(1) nb p by (auto simp: btree_Put_def Let_def split: if_splits)
      then show ?thesis using h1 g(4)[OF Inr] by (simp add: insert_absorb)
    next
      case (Inl e)
      have "put_leaf (treeKey key r) t1 = Some (t', Inr ())" using True g(1,3) nb p Inl by (simp add: btree_Put_def Let_def)
      moreover have "spacious (t_pgr t1)" "t_root t1 \<noteq> NullPage" "int (length (treeKey key r) + slotDirEntry) \<le> t_maxKey t1"
        using s spacious_reads[OF g(2)] True readsD(5,10)[OF g(2)] nb by simp_all
      ultimately show ?thesis using put_leaf_writes[OF h1, of key r] by (auto simp: writes_entries_def)
    qed
  next
    case other: False
    show ?thesis
    proof (cases "t_root t = NullPage")
      case True
      then show ?thesis using put_empty(1)[OF h s True] put_empty(2)[OF h s True, of key r] nb p by (simp add: btree_Put_def Let_def writes_entries_def)
    next
      case ne: False
      then have "put_leaf (treeKey key r) t = Some (t', Inr ())" using other nb p by (simp add: btree_Put_def Let_def)
      then show ?thesis using put_leaf_writes[OF h s ne, of key r] nb by (auto simp: writes_entries_def)
    qed
  qed
qed

interpretation bt: index_store tree_holds "\<lambda>t. spacious (t_pgr t)" "btree_Put False" "btree_Delete False" "scan_all None None whole" "ErrPager ErrPoolExhausted"
proof
  fix t E k r t' assume a: "tree_holds t E" "spacious (t_pgr t)"
  then obtain com n recs where h: "holds_entries com n recs t E" by (auto simp: tree_holds_def)
  show "tree_holds t' (insert (k, r) E)" if "btree_Put False k r t = Some (t', Inr ())"
    using put_success[OF h a(2) that] by (auto simp: tree_holds_def)
  show "tree_holds t' (E - {(k, r)})" if "btree_Delete False k r t = Some (t', Inr ())"
    using btree_Delete_ok[OF h a(2), of k r] that by (auto simp: removes_def writes_entries_def tree_holds_def split: if_splits)
next
  fix t E assume a: "tree_holds t E"
  then obtain com n recs where h: "holds_entries com n recs t E" by (auto simp: tree_holds_def)
  obtain xs ls gss where b: "btree_ok com n recs xs 0 t ls gss" "set (all_keys ls) = tree_keys E" using h by (auto simp: holds_entries_def)
  have kd: "keyed (all_keys ls)" using b(2) by (auto simp: keyed_def)
  have "finds t (\<lambda>ks. ks = all_keys ls) (scan_all None None whole t)"
    using scan_all_finds[OF b(1) kd, of whole None None] by (simp add: scan_keys_whole)
  then obtain t' res where F: "scan_all None None whole t = Some (t', res)" "reads t t'" "res = Inl (ErrPager ErrPoolExhausted) \<or> res = Inr (all_keys ls)"
    by (auto simp: finds_def)
  have "tree_holds t' E" using holds_reads[OF h F(2)] by (auto simp: tree_holds_def)
  then show "\<exists>t' res. scan_all None None whole t = Some (t', res) \<and> tree_holds t' E
      \<and> (res = Inl (ErrPager ErrPoolExhausted) \<or> (\<exists>ks. res = Inr ks \<and> sorted_wrt (<) ks \<and> set ks = tree_keys E))"
    using F(1,3) btree_sorted[OF b(1)] b(2) by blast
qed

end
