(* ===== verification/Btree_Claims.thy ===== *)
theory Btree_Claims
  imports Btree_Store
begin

text \<open>
  What the B-tree index promises, stated over its operations, and a leaf that cannot be split.
\<close>

section \<open>A fresh index\<close>

abbreviation ex_tree :: "Pager \<Rightarrow> bool \<Rightarrow> BTree" where
  "ex_tree p u \<equiv> btree_Open p 1 u"

lemma ex_pool:
  assumes "Open \<lparr>d_main = None, d_wal = None\<rparr> ex_options (1, 2) 3 ex_uuid = Inr p"
  shows "pl_resident (p_pool p) < pl_capacity (p_pool p)" "p_pageSize p = 4096"
  using assms by (auto simp: Open_def withDefaults_def createNew_def Let_def openFreshWAL_def resident0_def newPool_def set_frame_def split: option.splits)

lemma markDirty_pool: "pl_resident (p_pool (markDirtyLocked pid b p)) = pl_resident (p_pool p) \<and> pl_capacity (p_pool (markDirtyLocked pid b p)) = pl_capacity (p_pool p)"
  by (auto simp: markDirtyLocked_def put_frame_def set_frame_def Let_def split: option.split)

lemma touchHeader_pool:
  assumes "touchHeaderLocked p = (p', r)"
  shows "pl_resident (p_pool p') = pl_resident (p_pool p) \<and> pl_capacity (p_pool p') = pl_capacity (p_pool p) \<and> r \<noteq> Inl ErrPoolExhausted"
  using assms markDirty_pool by (auto simp: touchHeaderLocked_def encodeHeaderIntoFrame0_def Let_def split: option.splits)

text \<open>A pool that is not full has a frame for the next page.\<close>

lemma Allocate_pool_room:
  assumes "pl_resident (p_pool p) < pl_capacity (p_pool p)" "FreelistRoot (p_hdr p) = NullPage"
  shows "snd (Allocate p) \<noteq> Inl ErrPoolExhausted"
proof -
  obtain p1 r where t: "touchHeaderLocked (p\<lparr>p_hdr := (p_hdr p)\<lparr>PageCount := PageCount (p_hdr p) + 1\<rparr>\<rparr>) = (p1, r)" by fastforce
  note k = touchHeader_pool[OF t]
  then show ?thesis using assms
    by (cases r) (auto simp: Allocate_def allocateByGrowing_def t obtainFrameLocked_def obtainFrame_def Let_def)
qed

lemma newLeaf_succeeds:
  assumes ok: "tok com n recs xs (Suc (Suc k)) t" and r: "snd (Allocate (t_pgr t)) \<noteq> Inl ErrPoolExhausted" and z: "cells_size ks + 36 \<le> p_pageSize (t_pgr t)"
  shows "\<exists>u. snd (newLeaf ks rs t) = Inr u"
proof (cases "Allocate (t_pgr t)")
  case (Pair p' res)
  have p: "pager_ok com n recs (t_pgr t)" "free_list (t_pgr t) xs" "lsn_room (Suc (Suc (4 * k + 6))) (t_pgr t)" "Suc (cnt (t_pgr t)) < 2 ^ 32"
    using ok by (simp_all add: tok_def room_def)
  have "res \<noteq> Inl e" for e using Allocate_cases[OF p, where thesis = "res \<noteq> Inl e"] r Pair by fastforce
  then obtain pid b where b: "res = Inr (pid, b)" by (cases res) auto
  have A: "page_len b" "length b = p_pageSize p'" "geometry (t\<lparr>t_pgr := p'\<rparr>)" "geometry t"
    using Allocate_in_use[OF ok] Pair b ok by (auto simp: tok_def)
  then have "cells_size ks \<le> blen b" using z by (simp add: geometry_def)
  then obtain b' where "fillLeaf b (t_collID t) ks rs = (b', Inr ())" using fillLeaf_ok[OF A(1), of ks "t_collID t" rs] by auto
  then show ?thesis by (simp add: newLeaf_def on_pager_def Pair b finish_fill_def)
qed

lemma ex_index:
  obtains p recs where "Open \<lparr>d_main = None, d_wal = None\<rparr> ex_options (1, 2) 3 ex_uuid = Inr p" "holds_entries (content p) 1 recs (ex_tree p u) {}"
    "spacious p" "catalogued (ex_tree p u)" "index_at (content p) 1 {}"
    "\<And>key r. length key \<le> 1000 \<Longrightarrow> \<exists>t'. btree_Put False key r (ex_tree p u) = Some (t', Inr ())"
proof -
  obtain p where p: "Open \<lparr>d_main = None, d_wal = None\<rparr> ex_options (1, 2) 3 ex_uuid = Inr p" "db_run p (content p) 1"
      "p_nextLSN p = 0" "unat (PageCount (p_hdr p)) = 1" "free_list p []" "CatalogRoot (p_hdr p) = NullPage" by (rule ex_create)
  obtain recs where ok: "pager_ok (content p) 1 recs p" using db_run_ok[OF p(2)] by (auto simp: run_ok_def open_ok_def)
  have sp: "spacious p" using p(3,4) by (simp add: spacious_def room_def lsn_room_def)
  have t: "t_pgr (ex_tree p u) = p" "t_root (ex_tree p u) = NullPage" "t_onRoot (ex_tree p u) = (\<lambda>r p. fst (SetCatalogRoot r p))"
    using p(6) by (simp_all add: btree_Open_def OpenWithRoot_def Let_def CatalogRoot_of_def)
  have b: "btree_ok (content p) 1 recs [] 0 (ex_tree p u) [] []"
    using ok p(5) room_0 geometry_Open(1)[OF ok] by (simp add: btree_ok_def tok_def t tree_pages_def)
  then have h: "holds_entries (content p) 1 recs (ex_tree p u) {}" unfolding holds_entries_def t(3) using catalog_keeper by (intro conjI exI) auto
  have ix: "index_at (content p) 1 {}" using holds_indexed[OF h] catalogued_Open[of p 1 u] p(4) by (simp add: catalogued_def t)
  have put: "\<exists>t'. btree_Put False key r (ex_tree p u) = Some (t', Inr ())" if k: "length key \<le> 1000" for key r
  proof -
    have l: "length (treeKey key r) \<le> 1006" using k by (simp add: treeKey_def putRIDSuffix_def)
    have "t_maxKey (ex_tree p u) = 1015" using ex_pool(2)[OF p(1)] by (simp add: btree_Open_def OpenWithRoot_def Let_def BodySize_def)
    then have f: "\<not> int (length (treeKey key r) + slotDirEntry) > t_maxKey (ex_tree p u)" using l by simp
    have "tok (content p) 1 recs [] (Suc (Suc 0)) (ex_tree p u)" using btree_spacious[OF b] sp b by (auto simp: btree_ok_def tok_def t spacious_def room_def lsn_room_def)
    moreover have "snd (Allocate (t_pgr (ex_tree p u))) \<noteq> Inl ErrPoolExhausted"
      unfolding t by (rule Allocate_pool_room[OF ex_pool(1)[OF p(1)]]) (use p(5) in \<open>simp add: free_list_def\<close>)
    ultimately obtain w where "snd (newLeaf [treeKey key r] NullPage (ex_tree p u)) = Inr w"
      using newLeaf_succeeds[of "content p" 1 recs "[]" 0 "ex_tree p u" "[treeKey key r]"] l ex_pool(2)[OF p(1)] by (auto simp: t)
    then show ?thesis using f t(2) by (cases "newLeaf [treeKey key r] NullPage (ex_tree p u)") (simp add: btree_Put_def Let_def)
  qed
  show ?thesis using that[OF p(1) h sp catalogued_Open ix put] by blast
qed

text \<open>The first entry takes one page, so a young index keeps its room.\<close>

lemma first_leaf_room:
  assumes ok: "tok com n recs xs (Suc (Suc (Suc k))) t" and rk: "root_keeper (t_onRoot t)" and nl: "newLeaf ks rs t = (t1, Inr q)"
  shows "room k (t_pgr (new_root q t1))"
proof -
  obtain ys where q: "tok com n recs ys (Suc k) t1" "t1 = t\<lparr>t_pgr := t_pgr t1\<rparr>" using newLeaf_ok[OF ok, of ks rs] nl by (auto simp: adds_page_def)
  have o: "t_onRoot t1 = t_onRoot t" by (subst q(2), simp)
  show ?thesis using rk q(1) unfolding root_keeper_def o tok_def by (auto simp: new_root_def o)
qed

lemma first_put_spacious:
  assumes h: "holds_entries com n recs t {}" and r: "t_root t = NullPage" and s: "cnt (t_pgr t) \<le> 1" "unat (p_nextLSN (t_pgr t)) = 0"
    and p: "btree_Put False key rd t = Some (t', Inr ())"
  shows "spacious (t_pgr t')"
proof -
  define k :: nat where "k = 2 ^ 32 - 100"
  obtain xs ls gss where b: "btree_ok com n recs xs 0 t ls gss" "root_keeper (t_onRoot t)" using h by (auto simp: holds_entries_def)
  have "tok com n recs xs (Suc (Suc (Suc k))) t" using b(1) s by (simp add: btree_ok_def tok_def room_def lsn_room_def k_def)
  note R = first_leaf_room[OF this b(2), of "[treeKey key rd]" NullPage]
  obtain t1 q where q: "newLeaf [treeKey key rd] NullPage t = (t1, Inr q)" "t' = new_root q t1"
    using p r by (cases "newLeaf [treeKey key rd] NullPage t"; cases "snd (newLeaf [treeKey key rd] NullPage t)") (auto simp: btree_Put_def Let_def split: if_splits)
  have "room k (t_pgr t')" unfolding q(2) by (rule R[OF q(1)])
  then show ?thesis by (simp add: spacious_def room_def lsn_room_def k_def)
qed

lemma ex_open:
  assumes "Open \<lparr>d_main = None, d_wal = None\<rparr> ex_options (1, 2) 3 ex_uuid = Inr p"
  shows "t_root (ex_tree p u) = NullPage" "cnt p = 1" "p_nextLSN p = 0"
proof -
  obtain p' where p': "Open \<lparr>d_main = None, d_wal = None\<rparr> ex_options (1, 2) 3 ex_uuid = Inr p'" "p_nextLSN p' = 0" "cnt p' = 1" "CatalogRoot (p_hdr p') = NullPage"
    by (rule ex_create)
  then have "p' = p" using assms by simp
  then show "t_root (ex_tree p u) = NullPage" "cnt p = 1" "p_nextLSN p = 0" using p'(2-4) by (simp_all add: btree_Open_def OpenWithRoot_def Let_def CatalogRoot_of_def)
qed

text \<open>The index after its first entry.\<close>

lemma ex_entry_of:
  assumes "length key \<le> 1000"
  obtains p t recs where "Open \<lparr>d_main = None, d_wal = None\<rparr> ex_options (1, 2) 3 ex_uuid = Inr p" "tree_holds (ex_tree p False) {}" "spacious p"
    "btree_Put False key r (ex_tree p False) = Some (t, Inr ())" "holds_entries (content p) 1 recs t {(key, r)}" "catalogued t"
    "index_at (content p) 1 {}" "spacious (t_pgr t)"
proof (rule ex_index[of False])
  fix p recs assume p: "Open \<lparr>d_main = None, d_wal = None\<rparr> ex_options (1, 2) 3 ex_uuid = Inr p" "holds_entries (content p) 1 recs (ex_tree p False) {}"
    "spacious p" "catalogued (ex_tree p False)" "index_at (content p) 1 {}"
    "\<And>k r. length k \<le> 1000 \<Longrightarrow> \<exists>t'. btree_Put False k r (ex_tree p False) = Some (t', Inr ())"
  have u: "t_pgr (ex_tree p False) = p" "\<not> t_unique (ex_tree p False)" by (simp_all add: btree_Open_def OpenWithRoot_def Let_def)
  obtain t where t: "btree_Put False key r (ex_tree p False) = Some (t, Inr ())" using p(6)[OF assms] by blast
  have w: "writes_entries (content p) 1 recs (ex_tree p False) {(key, r)} (t, Inr ())"
    using btree_Put_ok[OF p(2), of key r] u p(3) t by (auto simp: put_outcome_def split: if_splits)
  have "catalogued t" using w writes_unique[OF w] catalogued_kept[of "ex_tree p False" t] p(4) by (auto simp: writes_entries_def)
  moreover have "holds_entries (content p) 1 recs t {(key, r)}" using w by (simp add: writes_entries_def)
  moreover have "tree_holds (ex_tree p False) {}" using p(2) by (auto simp: tree_holds_def)
  moreover have "spacious (t_pgr t)"
  proof (rule first_put_spacious[OF p(2)])
    show "btree_Put False key r (ex_tree p False) = Some (t, Inr ())" by (rule t)
  qed (use p(1) ex_open in \<open>auto simp: u(1)\<close>)
  ultimately show ?thesis using that p(1,3,5) t by blast
qed

lemma ex_length: "length ([5] :: bytes) \<le> 1000"
  by simp

lemmas ex_entry = ex_entry_of[OF ex_length, of "RID 7 1"]

section \<open>The calls\<close>

text \<open>C4. Putting an entry. On a well-formed index with room for the pages an insertion may take, a call
  returns. A key too large for a page is refused and a second record for a field of a unique index is
  refused, both leaving the entries as they were. Otherwise the index holds exactly one entry more,
  however many leaves and interior nodes had to be split, and a new root has been recorded; or the
  call ends in an error. When the leaf of the key had room for it (\<open>\<not> put_splits\<close>), the error is an
  exhausted pool and the entries are as they were; an exhausted pool or a full page in the middle of a
  split is reported, and nothing is then promised of the index (a legal put can lose entries there, see
  \<open>split_overflows\<close>). On a unique index two conditions are assumed of the check for a duplicate: the
  stored fields are told apart from the field put, none a proper prefix of the other, and the check did
  not itself meet an exhausted pool, which the code takes for an absent field.\<close>

theorem btree_Put_inserts:
  assumes "holds_entries com n recs t E" "spacious (t_pgr t)"
    and "t_unique t \<Longrightarrow> \<forall>x \<in> E. told_apart (fst x) key" "t_unique t \<Longrightarrow> \<forall>t1. getLocked key t \<noteq> Some (t1, Inl (ErrPager ErrPoolExhausted))"
  shows "\<exists>t' res. btree_Put False key r t = Some (t', res) \<and>
    (if int (length (treeKey key r)) + 4 > t_maxKey t then t' = t \<and> res = Inl ErrKeyTooLarge
     else if t_unique t \<and> (\<exists>s. got key E (Inr s) \<and> s \<noteq> r) then holds_entries com n recs t' E \<and> res = Inl ErrDuplicateKey
     else res = Inr () \<and> holds_entries com n recs t' (insert (key, r) E) \<and> (catalogued t \<longrightarrow> catalogued t')
       \<or> res = Inl (ErrPager ErrPoolExhausted) \<and> holds_entries com n recs t' E
       \<or> put_splits key r t \<and> res \<in> {Inl (ErrPager ErrPoolExhausted), Inl (ErrCells ErrNoSpace)})"
proof -
  obtain t' res where p: "btree_Put False key r t = Some (t', res)" "put_outcome com n recs t key r E (t', res)"
    using btree_Put_ok[OF assms(1,2), of key r] assms(3,4) by fastforce
  have "catalogued t \<longrightarrow> catalogued t'" if "writes_entries com n recs t E' (t', Inr ())" for E'
    using that writes_unique[OF that] catalogued_kept[of t t'] by (auto simp: writes_entries_def)
  then show ?thesis using p holds_reads[OF assms(1), of t'] unfolding put_outcome_def
    by (auto simp: writes_entries_def spares_def split: if_splits)
qed

theorem btree_Put_inserts_witness:
  "\<exists>p t com n recs. Open \<lparr>d_main = None, d_wal = None\<rparr> ex_options (1, 2) 3 ex_uuid = Inr p
    \<and> btree_Put False [5] (RID 7 1) (ex_tree p False) = Some (t, Inr ()) \<and> holds_entries com n recs t {([5], RID 7 1)} \<and> catalogued t"
proof (rule ex_index[of False])
  fix p recs assume p: "Open \<lparr>d_main = None, d_wal = None\<rparr> ex_options (1, 2) 3 ex_uuid = Inr p" "holds_entries (content p) 1 recs (ex_tree p False) {}"
    "spacious p" "catalogued (ex_tree p False)" "\<And>key r. length key \<le> 1000 \<Longrightarrow> \<exists>t'. btree_Put False key r (ex_tree p False) = Some (t', Inr ())"
  have u: "t_pgr (ex_tree p False) = p" "\<not> t_unique (ex_tree p False)" by (simp_all add: btree_Open_def OpenWithRoot_def Let_def)
  obtain t where t: "btree_Put False [5] (RID 7 1) (ex_tree p False) = Some (t, Inr ())" using p(5)[of "[5]"] by auto
  from btree_Put_inserts[OF p(2), of "[5]" "RID 7 1"] have "holds_entries (content p) 1 recs t {([5], RID 7 1)} \<and> catalogued t"
    using p(3,4) u t by (auto split: if_splits)
  then show ?thesis using p(1) t by blast
qed

text \<open>C9. Deleting an entry. An entry of the index is removed and every other entry stays; an entry that was
  not there is reported and nothing changes. The only other outcome is an exhausted pool, and then the
  entries are as they were: the shrunken leaf always fits its page.\<close>

theorem btree_Delete_removes:
  assumes "holds_entries com n recs t E" "spacious (t_pgr t)"
  shows "\<exists>t' res. btree_Delete False key r t = Some (t', res) \<and>
    (res = Inl (ErrPager ErrPoolExhausted) \<and> holds_entries com n recs t' E
     \<or> (if (key, r) \<in> E then res = Inr () \<and> holds_entries com n recs t' (E - {(key, r)})
        else res = Inl ErrNotFound \<and> holds_entries com n recs t' E))"
  using btree_Delete_ok[OF assms, of key r] holds_reads[OF assms(1)]
  by (auto simp: removes_def writes_entries_def clean_def split: if_splits)

theorem btree_Delete_removes_witness:
  "\<exists>p t t' res com n recs. Open \<lparr>d_main = None, d_wal = None\<rparr> ex_options (1, 2) 3 ex_uuid = Inr p
    \<and> btree_Put False [5] (RID 7 1) (ex_tree p False) = Some (t, Inr ()) \<and> holds_entries com n recs t {([5], RID 7 1)}
    \<and> btree_Delete False [5] (RID 7 1) t = Some (t', res)
    \<and> (res = Inl (ErrPager ErrPoolExhausted) \<and> holds_entries com n recs t' {([5], RID 7 1)} \<or> res = Inr () \<and> holds_entries com n recs t' {})"
proof (rule ex_entry)
  fix p t recs assume e: "Open \<lparr>d_main = None, d_wal = None\<rparr> ex_options (1, 2) 3 ex_uuid = Inr p" "tree_holds (ex_tree p False) {}" "spacious p"
    "btree_Put False [5] (RID 7 1) (ex_tree p False) = Some (t, Inr ())" "holds_entries (content p) 1 recs t {([5], RID 7 1)}" "catalogued t"
    "index_at (content p) 1 {}" "spacious (t_pgr t)"
  obtain t' res where r: "btree_Delete False [5] (RID 7 1) t = Some (t', res)" "res = Inl (ErrPager ErrPoolExhausted)
      \<and> holds_entries (content p) 1 recs t' {([5], RID 7 1)} \<or> res = Inr () \<and> holds_entries (content p) 1 recs t' {}"
    using btree_Delete_removes[OF e(5,8), of "[5]" "RID 7 1"] by auto
  show ?thesis using e(1,4,5) r by blast
qed

text \<open>C10. Looking a field up. When the stored fields can be told apart from the field asked for, none being a
  proper prefix of the other, the call returns the entry of that field with the least record
  identifier, or says that there is none, unless it met an exhausted pool; and the entries stay.\<close>

theorem btree_Get_least:
  assumes "holds_entries com n recs t E" "\<forall>x \<in> E. told_apart (fst x) key"
  shows "\<exists>t' res. btree_Get key t = Some (t', res) \<and> holds_entries com n recs t' E
    \<and> (res = Inl (ErrPager ErrPoolExhausted)
       \<or> res = Inl ErrNotFound \<and> (\<forall>s. (key, s) \<notin> E)
       \<or> (\<exists>s. res = Inr s \<and> (key, s) \<in> E \<and> (\<forall>s'. (key, s') \<in> E \<longrightarrow> RID_Encode s \<le> RID_Encode s')))"
proof -
  obtain t' res where "getLocked key t = Some (t', res)" "reads t t'" "res = Inl (ErrPager ErrPoolExhausted) \<or> got key E res"
    using getLocked_ok[OF assms(1), of key] assms(2) by fastforce
  then show ?thesis using holds_reads[OF assms(1)] by (auto simp: btree_Get_def got_def split: if_splits)
qed

theorem btree_Get_least_witness:
  "\<exists>p t t' res. Open \<lparr>d_main = None, d_wal = None\<rparr> ex_options (1, 2) 3 ex_uuid = Inr p
    \<and> btree_Put False [5] (RID 7 1) (ex_tree p False) = Some (t, Inr ())
    \<and> btree_Get [5] t = Some (t', res) \<and> res \<in> {Inr (RID 7 1), Inl (ErrPager ErrPoolExhausted)}"
proof (rule ex_entry)
  fix p t recs assume e: "Open \<lparr>d_main = None, d_wal = None\<rparr> ex_options (1, 2) 3 ex_uuid = Inr p" "tree_holds (ex_tree p False) {}" "spacious p"
    "btree_Put False [5] (RID 7 1) (ex_tree p False) = Some (t, Inr ())" "holds_entries (content p) 1 recs t {([5], RID 7 1)}" "catalogued t"
    "index_at (content p) 1 {}" "spacious (t_pgr t)"
  show ?thesis using btree_Get_least[OF e(5), of "[5]"] e(1,4) by (fastforce simp: told_apart_def)
qed

text \<open>C5. Scanning a range. When no stored field is a proper prefix of another and none is one of the lower
  bound or has it as one (\<open>delimited\<close>), as with the self-delimiting field encodings, draining a forward
  cursor returns and, unless it met an exhausted pool, yields each entry whose field lies within the
  bounds, once, in the order of field and record identifier, and no other. The entries stay.\<close>

theorem btree_Scan_range:
  assumes "holds_entries com n recs t E" "delimited lo E" "\<not> so_Reverse opts"
  shows "\<exists>t' res. scan_all lo hi opts t = Some (t', res) \<and> holds_entries com n recs t' E
    \<and> (res = Inl (ErrPager ErrPoolExhausted)
       \<or> (\<exists>ks. res = Inr ks \<and> sorted_wrt (<) ks
            \<and> set ks = {treeKey f r | f r. (f, r) \<in> E \<and> above_lo lo (so_IncludeLo opts) f \<and> below_hi hi (so_IncludeHi opts) f}))"
  using holds_scan[OF assms, of hi] holds_reads[OF assms(1)] unfolding finds_def by blast

theorem btree_Scan_range_witness:
  "\<exists>p t t' res. Open \<lparr>d_main = None, d_wal = None\<rparr> ex_options (1, 2) 3 ex_uuid = Inr p
    \<and> btree_Put False [5] (RID 7 1) (ex_tree p False) = Some (t, Inr ())
    \<and> scan_all (Some [5]) (Some [9]) whole t = Some (t', res) \<and> res \<in> {Inr [treeKey [5] (RID 7 1)], Inl (ErrPager ErrPoolExhausted)}"
proof (rule ex_entry)
  fix p t recs assume e: "Open \<lparr>d_main = None, d_wal = None\<rparr> ex_options (1, 2) 3 ex_uuid = Inr p" "tree_holds (ex_tree p False) {}" "spacious p"
    "btree_Put False [5] (RID 7 1) (ex_tree p False) = Some (t, Inr ())" "holds_entries (content p) 1 recs t {([5], RID 7 1)}" "catalogued t"
    "index_at (content p) 1 {}" "spacious (t_pgr t)"
  have d: "delimited (Some [5]) {([5], RID 7 1)}" "\<not> so_Reverse whole" by (simp_all add: delimited_def told_apart_def)
  obtain t' res where r: "scan_all (Some [5]) (Some [9]) whole t = Some (t', res)"
      "res = Inl (ErrPager ErrPoolExhausted) \<or> (\<exists>ks. res = Inr ks \<and> sorted_wrt (<) ks \<and> set ks = {treeKey f r | f r. (f, r) \<in> {([5], RID 7 1)}
        \<and> above_lo (Some [5]) True f \<and> below_hi (Some [9]) True f})"
    using btree_Scan_range[OF e(5) d, of "Some [9]"] by auto
  have "{treeKey f r | f r. (f, r) \<in> {([5], RID 7 1)} \<and> above_lo (Some [5]) True f \<and> below_hi (Some [9]) True f} = {treeKey [5] (RID 7 1)}"
    by (auto simp: above_lo_def below_hi_def)
  moreover have "ks = [k]" if "sorted_wrt (<) ks" "set ks = {k}" for ks and k :: bytes
    using that by (cases ks; cases "tl ks") auto
  ultimately have "res \<in> {Inr [treeKey [5] (RID 7 1)], Inl (ErrPager ErrPoolExhausted)}" using r(2) by auto
  then show ?thesis using r(1) e(1,4) by blast
qed

text \<open>C6. Calls on a well-formed index return: the descents, the walk along the leaf chain, the cursor's
  loops and the walks of the statistics all end.\<close>

theorem btree_calls_return:
  assumes "holds_entries com n recs t E" "spacious (t_pgr t)"
  shows "btree_Get key t \<noteq> None \<and> btree_Put ro key r t \<noteq> None \<and> btree_Delete ro key r t \<noteq> None
    \<and> scan_all lo hi opts t \<noteq> None \<and> btree_Stats t \<noteq> None"
proof -
  obtain xs ls gss where "btree_ok com n recs xs 0 t ls gss" using assms(1) by (auto simp: holds_entries_def)
  then have "btree_Stats t \<noteq> None" using btree_Stats_returns by (fastforce simp: walks_def)
  then show ?thesis using getLocked_returns[OF assms(1), of key] btree_Put_returns[OF assms, of ro key r] btree_Delete_returns[OF assms, of ro key r]
      scan_returns[OF assms(1), of lo hi opts] by (auto simp: btree_Get_def)
qed

theorem btree_calls_return_witness:
  "\<exists>p. Open \<lparr>d_main = None, d_wal = None\<rparr> ex_options (1, 2) 3 ex_uuid = Inr p
    \<and> btree_Put False [5] (RID 7 1) (ex_tree p True) \<noteq> None \<and> btree_Stats (ex_tree p True) \<noteq> None"
proof (rule ex_index[of True])
  fix p recs assume p: "Open \<lparr>d_main = None, d_wal = None\<rparr> ex_options (1, 2) 3 ex_uuid = Inr p" "holds_entries (content p) 1 recs (ex_tree p True) {}" "spacious p"
  have "t_pgr (ex_tree p True) = p" by (simp add: btree_Open_def OpenWithRoot_def Let_def)
  then show ?thesis using btree_calls_return[OF p(2), of "[5]" False "RID 7 1" None None whole] p(1,3) by auto
qed

text \<open>C7. A well-formed index never panics: every page the tree reaches is a leaf or an interior node whose
  cells can be read, so no call indexes outside a page or a key.\<close>

theorem btree_never_panics:
  assumes "holds_entries com n recs t E" "spacious (t_pgr t)"
  shows "(\<forall>t'. btree_Get key t \<noteq> Some (t', Inl BtreePanic)) \<and> (\<forall>t'. btree_Put ro key r t \<noteq> Some (t', Inl BtreePanic))
    \<and> (\<forall>t'. btree_Delete ro key r t \<noteq> Some (t', Inl BtreePanic)) \<and> (\<forall>t'. scan_all lo hi opts t \<noteq> Some (t', Inl BtreePanic))"
  using getLocked_returns[OF assms(1), of key] btree_Put_returns[OF assms, of ro key r] btree_Delete_returns[OF assms, of ro key r]
    scan_returns[OF assms(1), of lo hi opts] by (auto simp: btree_Get_def)

theorem btree_never_panics_witness:
  "\<exists>p. Open \<lparr>d_main = None, d_wal = None\<rparr> ex_options (1, 2) 3 ex_uuid = Inr p
    \<and> (\<forall>t'. btree_Put False [5] (RID 7 1) (ex_tree p True) \<noteq> Some (t', Inl BtreePanic))"
proof (rule ex_index[of True])
  fix p recs assume p: "Open \<lparr>d_main = None, d_wal = None\<rparr> ex_options (1, 2) 3 ex_uuid = Inr p" "holds_entries (content p) 1 recs (ex_tree p True) {}" "spacious p"
  have "t_pgr (ex_tree p True) = p" by (simp add: btree_Open_def OpenWithRoot_def Let_def)
  then show ?thesis using btree_never_panics[OF p(2), of "[5]" False "RID 7 1" None None whole] p(1,3) by auto
qed

section \<open>Histories\<close>

text \<open>C2. The index refines a set of entries. After any sequence of puts and deletes that succeeded, each on an
  index with room for the pages it may take, on a unique index or not, a scan of the whole index
  returns, and unless it met an exhausted pool it yields the entries of the same updates to a set,
  sorted. (Which puts a unique index refuses is stated with the call itself.)\<close>

theorem index_history:
  assumes "tree_holds t E" "bt.runs ops t u"
  shows "\<exists>u' res. scan_all None None whole u = Some (u', res) \<and> tree_holds u' (entries_after ops E)
    \<and> res \<in> {Inl (ErrPager ErrPoolExhausted), Inr (sorted_list_of_set (tree_keys (entries_after ops E)))}"
  by (rule bt.history_scan[OF assms])

theorem index_history_witness:
  "\<exists>p t t' res. Open \<lparr>d_main = None, d_wal = None\<rparr> ex_options (1, 2) 3 ex_uuid = Inr p
    \<and> bt.runs [PutOp [5] (RID 7 1)] (ex_tree p False) t
    \<and> scan_all None None whole t = Some (t', res) \<and> res \<in> {Inl (ErrPager ErrPoolExhausted), Inr [treeKey [5] (RID 7 1)]}"
proof (rule ex_entry)
  fix p t recs assume e: "Open \<lparr>d_main = None, d_wal = None\<rparr> ex_options (1, 2) 3 ex_uuid = Inr p" "tree_holds (ex_tree p False) {}" "spacious p"
    "btree_Put False [5] (RID 7 1) (ex_tree p False) = Some (t, Inr ())" "holds_entries (content p) 1 recs t {([5], RID 7 1)}" "catalogued t"
    "index_at (content p) 1 {}" "spacious (t_pgr t)"
  have r: "bt.runs [PutOp [5] (RID 7 1)] (ex_tree p False) t" using e(3,4) by (simp add: btree_Open_def OpenWithRoot_def Let_def)
  show ?thesis using index_history[OF e(2) r] r e(1) by auto
qed

section \<open>Durability\<close>

text \<open>C3. The index survives a crash whole. Let the index have held \<open>E0\<close> at the last commit and \<open>E\<close> now. Let the
  process stop in a page operation, an eviction, a commit or the checkpoint a commit starts; or in a
  checkpoint or close the caller asked for while no page with uncommitted changes has its committed
  bytes in the log alone (\<open>spared\<close>); and let the stop not tear the file's header (\<open>header_whole\<close>). Then
  opening the files succeeds and the index read from them is well-formed and holds \<open>E0\<close> or, when a commit
  was in progress, \<open>E\<close>: never a mixture.\<close>

theorem index_crash_atomic:
  assumes "holds_entries com n recs t E" "catalogued t" "index_at com n E0"
    "interrupted (t_pgr t) d \<or> checkpointing (t_pgr t) d \<and> spared com n (t_pgr t)" "header_whole (t_pgr t) d" "\<not> o_ReadOnly opts"
  shows "\<exists>q com' n' E'. Open d opts salts ws uuid = Inr q \<and> holds_entries com' n' [] (btree_Open q coll u) E' \<and> E' \<in> {E0, E}
    \<and> catalogued (btree_Open q coll u)"
proof -
  have "rooted t" using assms(2) by (simp add: catalogued_def)
  have "survivable com n (t_pgr t) d" using assms(4,5) by (simp add: survivable_def)
  obtain q where "Open d opts salts ws uuid = Inr q"
      "(\<exists>com' n'. holds_entries com' n' [] (btree_Open q coll u) E0) \<or> (\<exists>com' n'. holds_entries com' n' [] (btree_Open q coll u) E)"
    by (rule crash_indexed[OF assms(1) \<open>rooted t\<close> assms(3) \<open>survivable com n (t_pgr t) d\<close> assms(6)])
  then show ?thesis using catalogued_Open by blast
qed

lemma holds_header_whole: "holds_entries com n recs t E \<Longrightarrow> header_whole (t_pgr t) (disk_of (t_pgr t))"
  by (auto simp: header_whole_def disk_of_def holds_entries_def btree_ok_def tok_def pager_ok_def dest!: pages_okD(12))

theorem index_crash_atomic_witness:
  "\<exists>p t q com' n' E. Open \<lparr>d_main = None, d_wal = None\<rparr> ex_options (1, 2) 3 ex_uuid = Inr p
    \<and> btree_Put False [5] (RID 7 1) (ex_tree p False) = Some (t, Inr ())
    \<and> Open (disk_of (t_pgr t)) ex_options (4, 5) 6 ex_uuid = Inr q \<and> holds_entries com' n' [] (ex_tree q True) E \<and> E \<in> {{}, {([5], RID 7 1)}}"
proof (rule ex_entry)
  fix p t recs assume e: "Open \<lparr>d_main = None, d_wal = None\<rparr> ex_options (1, 2) 3 ex_uuid = Inr p" "tree_holds (ex_tree p False) {}" "spacious p"
    "btree_Put False [5] (RID 7 1) (ex_tree p False) = Some (t, Inr ())" "holds_entries (content p) 1 recs t {([5], RID 7 1)}" "catalogued t"
    "index_at (content p) 1 {}" "spacious (t_pgr t)"
  have "interrupted (t_pgr t) (disk_of (t_pgr t))" by (rule interrupted.commit[OF commit_crash.before])
  from index_crash_atomic[OF e(5-7) disjI1[OF this] holds_header_whole[OF e(5)] ex_good(3), of "(4, 5)" 6 ex_uuid 1 True] e(1,4) show ?thesis by blast
qed

text \<open>C8. Committing the index succeeds, keeps its entries, and from then on they are the entries a crash
  falls back to.\<close>

theorem index_commit:
  assumes "holds_entries com n recs t E" "catalogued t" "\<not> tx_readOnly x"
  shows "\<exists>t' recs'. Tx_Commit salts x t = (t', Inr ()) \<and> catalogued t' \<and> holds_entries (content (t_pgr t')) (unat (PageCount (p_hdr (t_pgr t')))) recs' t' E
    \<and> index_at (content (t_pgr t')) (unat (PageCount (p_hdr (t_pgr t')))) E"
proof -
  obtain t' recs' where t': "Tx_Commit salts x t = (t', Inr ())" "holds_entries (content (t_pgr t')) (cnt (t_pgr t')) recs' t' E"
      "t' = t\<lparr>t_pgr := t_pgr t'\<rparr>" "p_hdr (t_pgr t') = p_hdr (t_pgr t)" by (rule Tx_Commit_ok[OF assms(1,3), of salts])
  have "t_root t' = t_root t" "t_onRoot t' = t_onRoot t" by (subst t'(3), simp)+
  then have c: "catalogued t'" using assms(2) t'(4) by (simp add: catalogued_def rooted_def)
  then have "index_at (content (t_pgr t')) (cnt (t_pgr t')) E" using holds_indexed[OF t'(2)] by (simp add: catalogued_def)
  then show ?thesis using t'(1,2) c by blast
qed

theorem index_commit_witness:
  "\<exists>p t t' com' n' recs'. Open \<lparr>d_main = None, d_wal = None\<rparr> ex_options (1, 2) 3 ex_uuid = Inr p
    \<and> btree_Put False [5] (RID 7 1) (ex_tree p False) = Some (t, Inr ())
    \<and> Tx_Commit (1, 2) (snd (btree_Begin t)) t = (t', Inr ()) \<and> holds_entries com' n' recs' t' {([5], RID 7 1)} \<and> catalogued t'"
proof (rule ex_entry)
  fix p t recs assume e: "Open \<lparr>d_main = None, d_wal = None\<rparr> ex_options (1, 2) 3 ex_uuid = Inr p" "tree_holds (ex_tree p False) {}" "spacious p"
    "btree_Put False [5] (RID 7 1) (ex_tree p False) = Some (t, Inr ())" "holds_entries (content p) 1 recs t {([5], RID 7 1)}" "catalogued t"
    "index_at (content p) 1 {}" "spacious (t_pgr t)"
  have "\<not> tx_readOnly (snd (btree_Begin t))" by (simp add: btree_Begin_def Let_def)
  from index_commit[OF e(5,6) this, of "(1, 2)"] e(1,4) show ?thesis by blast
qed

section \<open>A leaf that cannot be split\<close>

text \<open>A leaf is halved by the number of its keys, not by their size. Three large keys and ten small ones
  fit a 4096-byte page; a fourth large key, within the size limit, makes a left half that does not fit.\<close>

definition big_key :: "byte \<Rightarrow> bytes" where
  "big_key i = i # replicate 1010 0"

definition small_key :: "byte \<Rightarrow> bytes" where
  "small_key i = [9, i, 0, 0, 0, 0, 0]"

definition crowded :: "bytes list" where
  "crowded = map big_key [0, 1, 2] @ map small_key [0, 1, 2, 3, 4, 5, 6, 7, 8, 9]"

lemma split_overflows:
  assumes "t_bodyLen t = 4060" "t_maxKey t = 1015" "length b = 4096"
  defines "ks \<equiv> insert_at (sort_Search (length crowded) (\<lambda>i. bytes_cmp (crowded ! i) (big_key 3) \<ge> 0)) (big_key 3) crowded"
  shows "sorted_wrt (<) crowded" "leafFits t crowded" "int (length (big_key 3) + slotDirEntry) \<le> t_maxKey t" "\<not> leafFits t ks"
    "\<exists>b'. fillLeaf b coll (take (length ks div 2) ks) sib = (b', Inl (ErrCells ErrNoSpace))"
proof -
  show s: "sorted_wrt (<) crowded" by (simp add: crowded_def big_key_def small_key_def)
  have ks: "ks = map big_key [0, 1, 2, 3] @ map small_key [0, 1, 2, 3, 4, 5, 6, 7, 8, 9]"
    unfolding ks_def bytes_cmp_iff key_place[OF s] by (simp add: crowded_def big_key_def small_key_def insert_at_def)
  show "leafFits t crowded" using assms(1) by (simp add: leafFits_def crowded_def big_key_def small_key_def)
  show "int (length (big_key 3) + slotDirEntry) \<le> t_maxKey t" using assms(2) by (simp add: big_key_def)
  show "\<not> leafFits t ks" unfolding ks using assms(1) by (simp add: leafFits_def big_key_def small_key_def)
  have "page_len b" using assms(3) by (simp add: page_len_def)
  from fillLeaf_ok[OF this, of "take (length ks div 2) ks" coll sib]
  show "\<exists>b'. fillLeaf b coll (take (length ks div 2) ks) sib = (b', Inl (ErrCells ErrNoSpace))"
    unfolding ks using assms(3) by (auto simp: cells_size_def big_key_def small_key_def split: if_splits)
qed

end
