(* ===== verification/Query_Traverse.thy ===== *)
theory Query_Traverse
  imports Index_Spec
begin

text \<open>
  Resolving a dotted path within a document (\<^verbatim>\<open>src/query/traverse.go\<close>): the walk that fans out
  over arrays, the walk through plain documents that the matcher tries first, and the values a path
  reaches as an inductive relation that both are measured against.
\<close>

section \<open>Array elements\<close>

definition query_arrayElems :: "rawvalue \<Rightarrow> rawvalue list" where
  "query_arrayElems v =
     (if vtype v \<noteq> TypeArray \<and> vtype v \<noteq> TypeDocument then []
      else case Elements (DocumentV v) of Inl _ \<Rightarrow> [] | Inr es \<Rightarrow> map evalue es)"

definition nthElement :: "rawvalue \<Rightarrow> int \<Rightarrow> rawvalue option" where
  "nthElement v idx =
     (let elems = query_arrayElems v in
      if idx < 0 \<or> idx \<ge> int (length elems) then None else Some (elems ! nat idx))"

text \<open>A Go \<^verbatim>\<open>int\<close> has 64 bits here, so a long run of digits wraps around.\<close>

fun index_digits :: "u64 \<Rightarrow> bytes \<Rightarrow> int option" where
  "index_digits n [] = Some (sint n)"
| "index_digits n (c # s) =
     (if c < 0x30 \<or> c > 0x39 then None else index_digits (n * 10 + ucast (c - 0x30)) s)"

definition arrayIndex :: "bytes \<Rightarrow> int option" where
  "arrayIndex s =
     (if s = [] then None
      else if s = [0x30] then Some 0
      else if hd s = 0x30 then None
      else index_digits 0 s)"

section \<open>The walks\<close>

lemma query_arrayElems_shorter: "e \<in> set (query_arrayElems v) \<Longrightarrow> length (vdata e) < length (vdata v)"
  using elements_of_shorter[of _ "DocumentV v"] DocumentV_length[of v]
  by (fastforce simp: query_arrayElems_def elements_of_def split: sum.splits if_splits)

text \<open>The Go code appends to \<^verbatim>\<open>*out\<close>; here the list found so far is threaded through. The loop over the
  elements keeps whether any of them was a hit.\<close>

fun fan_out :: "(rawvalue \<Rightarrow> rawvalue list \<Rightarrow> bool \<times> rawvalue list) \<Rightarrow> rawvalue list \<Rightarrow> bool \<Rightarrow> rawvalue list \<Rightarrow> bool \<times> rawvalue list" where
  "fan_out f [] hit out = (hit, out)"
| "fan_out f (e # es) hit out = (let (h, out') = f e out in fan_out f es (hit \<or> h) out')"

lemma fan_out_cong [fundef_cong]:
  assumes "es = es'" "hit = hit'" "out = out'" "\<And>e o'. e \<in> set es' \<Longrightarrow> f e o' = g e o'"
  shows "fan_out f es hit out = fan_out g es' hit' out'"
  using assms(4) unfolding assms(1-3) by (induction es' arbitrary: hit' out') (auto simp: Let_def split: prod.split)

function query_descend :: "rawvalue \<Rightarrow> bytes list \<Rightarrow> rawvalue list \<Rightarrow> bool \<times> rawvalue list" where
  "query_descend v path out =
     (case path of
        [] \<Rightarrow> (True, out @ [v])
      | p # ps \<Rightarrow>
          (if vtype v = TypeDocument then
             (case Lookup (DocumentV v) p of None \<Rightarrow> (False, out) | Some u \<Rightarrow> query_descend u ps out)
           else if vtype v = TypeArray then
             (let (found, out') =
                (case arrayIndex p of None \<Rightarrow> (False, out)
                 | Some idx \<Rightarrow> (case nthElement v idx of None \<Rightarrow> (False, out) | Some e \<Rightarrow> query_descend e ps out))
              in fan_out (\<lambda>e o'. query_descend e path o') (query_arrayElems v) found out')
           else (False, out)))"
  by pat_completeness auto
termination
  by (relation "measures [\<lambda>(v, path, out). length path, \<lambda>(v, path, out). length (vdata v)]")
    (auto dest: query_arrayElems_shorter)

declare query_descend.simps [simp del]

lemma query_descend_Nil [simp]: "query_descend v [] out = (True, out @ [v])"
  by (simp add: query_descend.simps)

definition traverse :: "bytes \<Rightarrow> bytes list \<Rightarrow> rawvalue list \<times> bool" where
  "traverse doc path = (let (found, out) = query_descend (RawValue TypeDocument doc) path [] in (out, found))"

text \<open>The result is the value, whether the path resolved, and whether no array was met on the way.\<close>

fun single_loop :: "rawvalue \<Rightarrow> bytes list \<Rightarrow> rawvalue \<times> bool \<times> bool" where
  "single_loop cur [] = (cur, True, True)"
| "single_loop cur (cmpnt # path) =
     (if vtype cur = TypeArray then (RawValue 0 [], False, False)
      else if vtype cur \<noteq> TypeDocument then (RawValue 0 [], False, True)
      else case Lookup (DocumentV cur) cmpnt of
          None \<Rightarrow> (RawValue 0 [], False, True)
        | Some u \<Rightarrow> single_loop u path)"

definition traverseSingle :: "bytes \<Rightarrow> bytes list \<Rightarrow> rawvalue \<times> bool \<times> bool" where
  "traverseSingle doc path = single_loop (RawValue TypeDocument doc) path"

section \<open>The values a path reaches\<close>

inductive reaches :: "rawvalue \<Rightarrow> bytes list \<Rightarrow> rawvalue \<Rightarrow> bool" where
  here: "reaches v [] v"
| name: "vtype v = TypeDocument \<Longrightarrow> Lookup (DocumentV v) p = Some u \<Longrightarrow> reaches u ps w \<Longrightarrow> reaches v (p # ps) w"
| position: "vtype v = TypeArray \<Longrightarrow> arrayIndex p = Some i \<Longrightarrow> nthElement v i = Some e \<Longrightarrow> reaches e ps w \<Longrightarrow> reaches v (p # ps) w"
| each: "vtype v = TypeArray \<Longrightarrow> e \<in> set (query_arrayElems v) \<Longrightarrow> reaches e (p # ps) w \<Longrightarrow> reaches v (p # ps) w"

inductive_simps reaches_Nil [simp]: "reaches v [] w"
inductive_simps reaches_Cons: "reaches v (p # ps) w"

text \<open>A walk that appends exactly the values in \<open>S\<close>, and is a hit when there are some.\<close>

definition collects :: "(rawvalue list \<Rightarrow> bool \<times> rawvalue list) \<Rightarrow> rawvalue set \<Rightarrow> bool" where
  "collects f S \<longleftrightarrow> (\<exists>vs. set vs = S \<and> (\<forall>out. f out = (vs \<noteq> [], out @ vs)))"

lemma collects_empty: "collects (\<lambda>out. (False, out)) {}"
  by (simp add: collects_def)

lemma fan_out_collects:
  assumes "\<And>e. e \<in> set es \<Longrightarrow> collects (f e) (S e)"
  shows "\<exists>vs. set vs = (\<Union>e \<in> set es. S e) \<and> (\<forall>hit out. fan_out f es hit out = (hit \<or> vs \<noteq> [], out @ vs))"
  using assms
proof (induction es)
  case (Cons e es)
  obtain vs where vs: "set vs = (\<Union>e \<in> set es. S e)" "\<And>hit out. fan_out f es hit out = (hit \<or> vs \<noteq> [], out @ vs)"
    using Cons by auto
  obtain us where us: "set us = S e" "\<And>out. f e out = (us \<noteq> [], out @ us)" using Cons.prems[of e] by (auto simp: collects_def)
  show ?case by (rule exI[of _ "us @ vs"]) (auto simp: vs us)
qed simp

lemma collects_then:
  assumes "collects f S" "\<exists>vs. set vs = T \<and> (\<forall>hit out. g hit out = (hit \<or> vs \<noteq> [], out @ vs))"
  shows "collects (\<lambda>out. let (h, out') = f out in g h out') (S \<union> T)"
proof -
  obtain us where us: "set us = S" "\<And>out. f out = (us \<noteq> [], out @ us)" using assms(1) by (auto simp: collects_def)
  obtain vs where vs: "set vs = T" "\<And>hit out. g hit out = (hit \<or> vs \<noteq> [], out @ vs)" using assms(2) by auto
  show ?thesis unfolding collects_def by (rule exI[of _ "us @ vs"]) (auto simp: us vs)
qed

lemma descend_collects: "collects (query_descend v path) {w. reaches v path w}"
proof (induction path arbitrary: v)
  case Nil
  show ?case by (auto simp: collects_def intro!: exI[of _ "[v]"])
next
  case (Cons p ps)
  show ?case
  proof (induction "length (vdata v)" arbitrary: v rule: less_induct)
    case less
    let ?at = "\<lambda>out. case arrayIndex p of None \<Rightarrow> (False, out)
      | Some idx \<Rightarrow> (case nthElement v idx of None \<Rightarrow> (False, out) | Some e \<Rightarrow> query_descend e ps out)"
    let ?A = "{w. \<exists>i e. arrayIndex p = Some i \<and> nthElement v i = Some e \<and> reaches e ps w}"
    let ?E = "\<Union>e \<in> set (query_arrayElems v). {w. reaches e (p # ps) w}"
    have at: "collects ?at ?A"
    proof (cases "\<exists>i e. arrayIndex p = Some i \<and> nthElement v i = Some e")
      case True
      then show ?thesis using Cons.IH by auto
    next
      case False
      then have "?at = (\<lambda>out. (False, out))" by (fastforce split: option.splits)
      moreover have "?A = {}" using False by auto
      ultimately show ?thesis by (simp only: collects_empty)
    qed
    have each: "\<exists>vs. set vs = ?E \<and> (\<forall>hit out. fan_out (\<lambda>e o'. query_descend e (p # ps) o') (query_arrayElems v) hit out = (hit \<or> vs \<noteq> [], out @ vs))"
      by (rule fan_out_collects) (use less query_arrayElems_shorter in blast)
    show ?case
    proof (cases "vtype v = TypeArray")
      case True
      have "{w. reaches v (p # ps) w} = ?A \<union> ?E" using True by (auto simp: reaches_Cons[of v])
      moreover have "query_descend v (p # ps) = (\<lambda>out. let (h, out') = ?at out in fan_out (\<lambda>e o'. query_descend e (p # ps) o') (query_arrayElems v) h out')"
        by (rule ext, subst query_descend.simps) (simp add: True)
      ultimately show ?thesis using collects_then[OF at each] by simp
    next
      case False
      have "query_descend v (p # ps) = (\<lambda>out. if vtype v = TypeDocument then
          (case Lookup (DocumentV v) p of None \<Rightarrow> (False, out) | Some u \<Rightarrow> query_descend u ps out) else (False, out))"
        by (rule ext, subst query_descend.simps) (simp add: False)
      moreover have "{w. reaches v (p # ps) w} = (if vtype v = TypeDocument then
          (case Lookup (DocumentV v) p of None \<Rightarrow> {} | Some u \<Rightarrow> {w. reaches u ps w}) else {})"
        using False by (auto simp: reaches_Cons[of v] split: option.splits)
      ultimately show ?thesis using Cons.IH collects_empty by (auto split: option.splits)
    qed
  qed
qed

lemma traverse_reaches:
  "set (fst (traverse doc path)) = {w. reaches (RawValue TypeDocument doc) path w}"
  "snd (traverse doc path) \<longleftrightarrow> (\<exists>w. reaches (RawValue TypeDocument doc) path w)"
proof -
  obtain vs where vs: "set vs = {w. reaches (RawValue TypeDocument doc) path w}" "\<And>out. query_descend (RawValue TypeDocument doc) path out = (vs \<noteq> [], out @ vs)"
    using descend_collects[of "RawValue TypeDocument doc" path] by (auto simp: collects_def)
  have t: "traverse doc path = (vs, vs \<noteq> [])" by (simp add: traverse_def vs(2))
  show "set (fst (traverse doc path)) = {w. reaches (RawValue TypeDocument doc) path w}" by (simp add: t vs(1))
  show "snd (traverse doc path) \<longleftrightarrow> (\<exists>w. reaches (RawValue TypeDocument doc) path w)"
    using vs(1) by (auto simp: t simp flip: set_empty)
qed

text \<open>Where no array is met, the walk through documents finds the one value there is.\<close>

lemma single_descend:
  "single_loop v path = (w, found, True) \<Longrightarrow> query_descend v path out = (if found then (True, out @ [w]) else (False, out))"
proof (induction path arbitrary: v)
  case Nil
  then show ?case by auto
next
  case (Cons p ps)
  then show ?case by (subst query_descend.simps) (auto split: if_splits option.splits)
qed

lemma traverseSingle_traverse:
  "traverseSingle doc path = (w, found, True) \<Longrightarrow> traverse doc path = (if found then ([w], True) else ([], False))"
  unfolding traverseSingle_def traverse_def by (simp add: single_descend)

text \<open>A component of twenty digits can wrap around to a small position.\<close>

lemma arrayIndex_wraps: "arrayIndex (str ''18446744073709551616'') = Some 0"
  by code_simp

end
