(* ===== verification/Query_Match.thy ===== *)
theory Query_Match
  imports Query_Traverse
begin

text \<open>
  The filter language (\<^verbatim>\<open>src/query/match.go\<close>, \<^verbatim>\<open>src/query/leaves.go\<close>): compiling a filter document
  to a predicate tree and evaluating the tree on a document.
\<close>

section \<open>Predicates\<close>

datatype cmpOp = opGt | opGte | opLt | opLte

text \<open>The operators of the \<^verbatim>\<open>fieldLeaf\<close> interface and the nodes of the \<^verbatim>\<open>predicate\<close> interface. The type
  set of \<^verbatim>\<open>typeLeaf\<close> is a list.\<close>

datatype predicate =
    TruePred
  | AndPred "predicate list"
  | OrPred "predicate list"
  | NotPred predicate
  | FieldPred "bytes list" fieldLeaf
and fieldLeaf =
    EqLeaf rawvalue
  | CmpLeaf rawvalue cmpOp
  | InLeaf "rawvalue list" bool
  | ExistsLeaf bool
  | TypeLeaf "byte list"
  | SizeLeaf int
  | AllLeaf "rawvalue list"
  | ElemMatchLeaf predicate bool

datatype query_error = ErrBadQuery | QueryBson bson_error

definition isNullOperand :: "rawvalue \<Rightarrow> bool" where
  "isNullOperand v = (vtype v = TypeNull \<or> vtype v = TypeUndefined)"

definition truthy :: "rawvalue \<Rightarrow> bool" where
  "truthy v =
     (if vtype v = TypeBoolean then BooleanV v
      else if vtype v = TypeNull \<or> vtype v = TypeUndefined then False
      else case AsFloat64 v of Some f \<Rightarrow> \<not> f64_eq f 0 | None \<Rightarrow> True)"

definition cmpLeaf_matchValue :: "rawvalue \<Rightarrow> cmpOp \<Rightarrow> rawvalue \<Rightarrow> bool" where
  "cmpLeaf_matchValue want op v =
     (if CanonicalType (vtype v) \<noteq> CanonicalType (vtype want) then False
      else let c = Compare v want in
        case op of opGt \<Rightarrow> c > 0 | opGte \<Rightarrow> c \<ge> 0 | opLt \<Rightarrow> c < 0 | opLte \<Rightarrow> c \<le> 0)"

definition all_contains :: "rawvalue \<Rightarrow> rawvalue \<Rightarrow> bool" where
  "all_contains v w =
     (Equal v w \<or> vtype v = TypeArray \<and> list_ex (\<lambda>e. Equal e w) (query_arrayElems v))"

primrec matchMissing :: "fieldLeaf \<Rightarrow> bool" where
  "matchMissing (EqLeaf want) = isNullOperand want"
| "matchMissing (CmpLeaf want op) = False"
| "matchMissing (InLeaf wants hasNull) = hasNull"
| "matchMissing (ExistsLeaf want) = (\<not> want)"
| "matchMissing (TypeLeaf want) = False"
| "matchMissing (SizeLeaf n) = False"
| "matchMissing (AllLeaf wants) = False"
| "matchMissing (ElemMatchLeaf inner wrap) = False"

primrec elementWise :: "fieldLeaf \<Rightarrow> bool" where
  "elementWise (EqLeaf want) = True"
| "elementWise (CmpLeaf want op) = True"
| "elementWise (InLeaf wants hasNull) = True"
| "elementWise (ExistsLeaf want) = False"
| "elementWise (TypeLeaf want) = True"
| "elementWise (SizeLeaf n) = False"
| "elementWise (AllLeaf wants) = False"
| "elementWise (ElemMatchLeaf inner wrap) = False"

text \<open>One resolved value: the operator on it, then, where the operator is element-wise, on its elements.\<close>

definition leaf_hits :: "bool \<Rightarrow> (rawvalue \<Rightarrow> bool) \<Rightarrow> rawvalue \<Rightarrow> bool" where
  "leaf_hits ew mv v = (mv v \<or> ew \<and> vtype v = TypeArray \<and> list_ex mv (query_arrayElems v))"

definition field_eval :: "bytes list \<Rightarrow> bool \<Rightarrow> bool \<Rightarrow> (rawvalue \<Rightarrow> bool) \<Rightarrow> bytes \<Rightarrow> bool" where
  "field_eval path missing ew mv doc =
     (let (v, found, simple) = traverseSingle doc path in
      if simple then (if \<not> found then missing else leaf_hits ew mv v)
      else let (values, present) = traverse doc path in
        if \<not> present then missing else list_ex (leaf_hits ew mv) values)"

fun eval :: "predicate \<Rightarrow> bytes \<Rightarrow> bool"
  and matchValue :: "fieldLeaf \<Rightarrow> rawvalue \<Rightarrow> bool" where
  "eval TruePred doc = True"
| "eval (AndPred parts) doc = list_all (\<lambda>c. eval c doc) parts"
| "eval (OrPred parts) doc = list_ex (\<lambda>c. eval c doc) parts"
| "eval (NotPred inner) doc = (\<not> eval inner doc)"
| "eval (FieldPred path leaf) doc = field_eval path (matchMissing leaf) (elementWise leaf) (\<lambda>v. matchValue leaf v) doc"
| "matchValue (EqLeaf want) v = Equal v want"
| "matchValue (CmpLeaf want op) v = cmpLeaf_matchValue want op v"
| "matchValue (InLeaf wants hasNull) v = list_ex (\<lambda>w. Equal v w) wants"
| "matchValue (ExistsLeaf want) v = want"
| "matchValue (TypeLeaf want) v = (vtype v \<in> set want)"
| "matchValue (SizeLeaf n) v = (vtype v = TypeArray \<and> int (length (query_arrayElems v)) = n)"
| "matchValue (AllLeaf wants) v = (wants \<noteq> [] \<and> list_all (\<lambda>w. all_contains v w) wants)"
| "matchValue (ElemMatchLeaf inner wrap) v =
     (vtype v = TypeArray \<and> list_ex (\<lambda>e.
        if wrap then eval inner (Build (AppendValue [] [] e))
        else vtype e = TypeDocument \<and> eval inner (DocumentV e)) (query_arrayElems v))"

section \<open>Operands\<close>

text \<open>\<^verbatim>\<open>int64(f)\<close>. The language leaves a value that does not fit to the implementation; on amd64 it is the
  most negative integer.\<close>

definition f64_to_int64 :: "f64 \<Rightarrow> int" where
  "f64_to_int64 f =
     (let m = \<bar>f64_val f\<bar> div 2 ^ 1074; i = (if f64_sign f then - m else m) in
      if f64_nan f \<or> i < - (2 ^ 63) \<or> i \<ge> 2 ^ 63 then - (2 ^ 63) else i)"

definition f64_integral :: "f64 \<Rightarrow> bool" where
  "f64_integral f = f64_eq f (f64_of_int (f64_to_int64 f))"

definition typeAlias :: "(bytes \<times> byte) list" where
  "typeAlias =
     [(str ''double'', TypeDouble), (str ''string'', TypeString), (str ''object'', TypeDocument), (str ''array'', TypeArray),
      (str ''binData'', TypeBinary), (str ''undefined'', TypeUndefined), (str ''objectId'', TypeObjectID), (str ''bool'', TypeBoolean),
      (str ''date'', TypeDateTime), (str ''null'', TypeNull), (str ''regex'', TypeRegex), (str ''dbPointer'', TypeDBPointer),
      (str ''javascript'', TypeJavaScript), (str ''symbol'', TypeSymbol), (str ''javascriptWithScope'', TypeCodeWithScope),
      (str ''int'', TypeInt32), (str ''timestamp'', TypeTimestamp), (str ''long'', TypeInt64), (str ''decimal'', TypeDecimal128),
      (str ''minKey'', TypeMinKey), (str ''maxKey'', TypeMaxKey)]"

definition resolveTypeArg :: "rawvalue \<Rightarrow> query_error + byte list" where
  "resolveTypeArg v =
     (case StringValueOK v of
        Some s \<Rightarrow>
          (if s = str ''number'' then Inr [TypeDouble, TypeInt32, TypeInt64, TypeDecimal128]
           else case map_of typeAlias s of None \<Rightarrow> Inl ErrBadQuery | Some t \<Rightarrow> Inr [t])
      | None \<Rightarrow>
          (case AsFloat64 v of
             Some f \<Rightarrow> if f64_integral f then Inr [word_of_int (f64_to_int64 f)] else Inl ErrBadQuery
           | None \<Rightarrow> Inl ErrBadQuery))"

text \<open>A loop that collects results until the first error.\<close>

fun map_res :: "('a \<Rightarrow> 'e + 'b) \<Rightarrow> 'a list \<Rightarrow> 'e + 'b list" where
  "map_res f [] = Inr []"
| "map_res f (x # xs) =
     (case f x of Inl e \<Rightarrow> Inl e
      | Inr y \<Rightarrow> (case map_res f xs of Inl e \<Rightarrow> Inl e | Inr ys \<Rightarrow> Inr (y # ys)))"

lemma map_res_cong [fundef_cong]:
  assumes "xs = ys" "\<And>x. x \<in> set ys \<Longrightarrow> f x = g x"
  shows "map_res f xs = map_res g ys"
  using assms(2) unfolding assms(1) by (induction ys) (simp_all split: sum.split)

lemma map_res_Inr: "map_res f xs = Inr ys \<longleftrightarrow> list_all2 (\<lambda>x y. f x = Inr y) xs ys"
proof (induction xs arbitrary: ys)
  case (Cons x xs)
  show ?case by (cases "f x"; cases "map_res f xs") (auto simp: list_all2_Cons1 simp flip: Cons.IH)
qed auto

definition newTypeLeaf :: "rawvalue \<Rightarrow> query_error + fieldLeaf" where
  "newTypeLeaf arg =
     (case map_res resolveTypeArg (if vtype arg = TypeArray then query_arrayElems arg else [arg]) of
        Inl e \<Rightarrow> Inl e | Inr ts \<Rightarrow> Inr (TypeLeaf (concat ts)))"

definition has_dollar :: "bytes \<Rightarrow> bool" where
  "has_dollar key = (case key of [] \<Rightarrow> False | c # _ \<Rightarrow> c = 0x24)"

definition query_isOperatorDoc :: "rawvalue \<Rightarrow> bool" where
  "query_isOperatorDoc v =
     (vtype v = TypeDocument \<and>
      (case Elements (DocumentV v) of Inl _ \<Rightarrow> False | Inr [] \<Rightarrow> False | Inr (e # _) \<Rightarrow> has_dollar (ekey e)))"

definition newInLeaf :: "rawvalue \<Rightarrow> query_error + fieldLeaf" where
  "newInLeaf arg =
     (if vtype arg \<noteq> TypeArray then Inl ErrBadQuery
      else let elems = query_arrayElems arg in
        if list_ex query_isOperatorDoc elems then Inl ErrBadQuery
        else Inr (InLeaf elems (list_ex isNullOperand elems)))"

definition newAllPred :: "bytes list \<Rightarrow> rawvalue \<Rightarrow> query_error + predicate" where
  "newAllPred path arg =
     (if vtype arg \<noteq> TypeArray then Inl ErrBadQuery
      else let elems = query_arrayElems arg in
        if list_ex query_isOperatorDoc elems then Inl ErrBadQuery
        else Inr (FieldPred path (AllLeaf elems)))"

definition sizeArg :: "rawvalue \<Rightarrow> query_error + int" where
  "sizeArg arg =
     (case AsFloat64 arg of None \<Rightarrow> Inl ErrBadQuery
      | Some n \<Rightarrow> if f64_lt n 0 \<or> \<not> f64_integral n then Inl ErrBadQuery else Inr (f64_to_int64 n))"

abbreviation on_ok :: "'e + 'a \<Rightarrow> ('a \<Rightarrow> 'e + 'b) \<Rightarrow> 'e + 'b" where
  "on_ok r f \<equiv> (case r of Inl e \<Rightarrow> Inl e | Inr x \<Rightarrow> f x)"

abbreviation lift_bson :: "bson_error + 'a \<Rightarrow> query_error + 'a" where
  "lift_bson r \<equiv> map_sum QueryBson id r"

text \<open>The conjunction of the compiled parts; a single part stands for itself.\<close>

definition conj_of :: "predicate list \<Rightarrow> predicate" where
  "conj_of parts = (case parts of [p] \<Rightarrow> p | _ \<Rightarrow> AndPred parts)"

section \<open>Compilation\<close>

lemma DocumentV_measure: "4 * length (DocumentV v) < 4 * length (vdata v) + 3" "4 * length (DocumentV v) < Suc (4 * length (vdata v))"
  using DocumentV_length[of v] by simp_all

lemma Elements_arg_shorter: "lift_bson (Elements d) = Inr es \<Longrightarrow> e \<in> set es \<Longrightarrow> length (vdata (evalue e)) < length d"
  using Elements_shorter[of d es e] by (cases "Elements d") auto

function (sequential) compileDoc :: "bytes \<Rightarrow> query_error + predicate"
  and compileLogical :: "bytes \<Rightarrow> rawvalue \<Rightarrow> query_error + predicate"
  and compileFilterArray :: "rawvalue \<Rightarrow> query_error + predicate list"
  and compileField :: "bytes \<Rightarrow> rawvalue \<Rightarrow> query_error + predicate"
  and compileOperators :: "bytes list \<Rightarrow> bytes \<Rightarrow> query_error + predicate"
  and compileOperator :: "bytes list \<Rightarrow> bytes \<Rightarrow> rawvalue \<Rightarrow> query_error + predicate"
  and newElemMatchPred :: "bytes list \<Rightarrow> rawvalue \<Rightarrow> query_error + predicate"
  and compileElemMatch :: "bytes \<Rightarrow> query_error + (predicate \<times> bool)" where
  "compileDoc d =
     (if d = [] then Inr TruePred
      else case WellFormed d of Some e \<Rightarrow> Inl (QueryBson e)
      | None \<Rightarrow> on_ok (lift_bson (Elements d)) (\<lambda>elems.
          on_ok (map_res (\<lambda>e. if has_dollar (ekey e) then compileLogical (ekey e) (evalue e) else compileField (ekey e) (evalue e)) elems)
            (\<lambda>parts. Inr (conj_of parts))))"
| "compileLogical op v =
     (if op = str ''$and'' \<or> op = str ''$or'' \<or> op = str ''$nor'' then
        on_ok (compileFilterArray v) (\<lambda>subs.
          if op = str ''$and'' then Inr (AndPred subs)
          else if op = str ''$or'' then Inr (OrPred subs)
          else Inr (NotPred (OrPred subs)))
      else Inl ErrBadQuery)"
| "compileFilterArray v =
     (if vtype v \<noteq> TypeArray then Inl ErrBadQuery
      else if query_arrayElems v = [] then Inl ErrBadQuery
      else map_res (\<lambda>e. if vtype e \<noteq> TypeDocument then Inl ErrBadQuery else compileDoc (DocumentV e)) (query_arrayElems v))"
| "compileField key v =
     (let path = split_dots key in
      if query_isOperatorDoc v then compileOperators path (DocumentV v)
      else Inr (FieldPred path (EqLeaf v)))"
| "compileOperators path d =
     on_ok (lift_bson (Elements d)) (\<lambda>elems.
       on_ok (map_res (\<lambda>e. compileOperator path (ekey e) (evalue e)) elems)
         (\<lambda>parts. Inr (if parts = [] then TruePred else conj_of parts)))"
| "compileOperator path op arg =
     (if op = str ''$eq'' then Inr (FieldPred path (EqLeaf arg))
      else if op = str ''$ne'' then Inr (NotPred (FieldPred path (EqLeaf arg)))
      else if op = str ''$gt'' then Inr (FieldPred path (CmpLeaf arg opGt))
      else if op = str ''$gte'' then Inr (FieldPred path (CmpLeaf arg opGte))
      else if op = str ''$lt'' then Inr (FieldPred path (CmpLeaf arg opLt))
      else if op = str ''$lte'' then Inr (FieldPred path (CmpLeaf arg opLte))
      else if op = str ''$in'' then on_ok (newInLeaf arg) (\<lambda>leaf. Inr (FieldPred path leaf))
      else if op = str ''$nin'' then on_ok (newInLeaf arg) (\<lambda>leaf. Inr (NotPred (FieldPred path leaf)))
      else if op = str ''$exists'' then Inr (FieldPred path (ExistsLeaf (truthy arg)))
      else if op = str ''$type'' then on_ok (newTypeLeaf arg) (\<lambda>leaf. Inr (FieldPred path leaf))
      else if op = str ''$size'' then on_ok (sizeArg arg) (\<lambda>n. Inr (FieldPred path (SizeLeaf n)))
      else if op = str ''$all'' then newAllPred path arg
      else if op = str ''$elemMatch'' then newElemMatchPred path arg
      else if op = str ''$not'' then
        (if \<not> query_isOperatorDoc arg then Inl ErrBadQuery
         else on_ok (compileOperators path (DocumentV arg)) (\<lambda>inner. Inr (NotPred inner)))
      else Inl ErrBadQuery)"
| "newElemMatchPred path arg =
     (if vtype arg \<noteq> TypeDocument then Inl ErrBadQuery
      else on_ok (compileElemMatch (DocumentV arg)) (\<lambda>(inner, wrap). Inr (FieldPred path (ElemMatchLeaf inner wrap))))"
| "compileElemMatch d =
     on_ok (lift_bson (Elements d)) (\<lambda>elems.
       if elems \<noteq> [] \<and> has_dollar (ekey (hd elems)) then
         on_ok (map_res (\<lambda>e. compileOperator [[]] (ekey e) (evalue e)) elems) (\<lambda>parts. Inr (conj_of parts, True))
       else on_ok (compileDoc d) (\<lambda>inner. Inr (inner, False)))"
  by pat_completeness auto

termination
proof (relation "measure (case_sum
      (case_sum (case_sum (\<lambda>d. 4 * length d) (\<lambda>(op, v). 4 * length (vdata v) + 1)) (case_sum (\<lambda>v. 4 * length (vdata v)) (\<lambda>(key, v). 4 * length (vdata v) + 1)))
      (case_sum (case_sum (\<lambda>(path, d). 4 * length d) (\<lambda>(path, op, a). 4 * length (vdata a) + 3)) (case_sum (\<lambda>(path, a). 4 * length (vdata a) + 2) (\<lambda>d. 4 * length d + 1))))",
    goal_cases)
  case (5 v e)
  then show ?case using query_arrayElems_shorter[of e v] DocumentV_length[of e] by simp
next
  case (6 key v path)
  then show ?case using DocumentV_length[of v] by simp
qed (auto simp: DocumentV_measure dest!: Elements_arg_shorter)

declare compileDoc.simps [simp del] compileLogical.simps [simp del] compileFilterArray.simps [simp del]
  compileField.simps [simp del] compileOperators.simps [simp del] compileOperator.simps [simp del]
  newElemMatchPred.simps [simp del] compileElemMatch.simps [simp del]

definition Compile :: "bytes \<Rightarrow> query_error + predicate" where
  "Compile filt = compileDoc filt"

definition Match :: "predicate \<Rightarrow> bytes \<Rightarrow> bool" where
  "Match m doc = eval m doc"

section \<open>What a predicate says\<close>

lemma field_eval_reaches:
  "field_eval path missing ew mv doc \<longleftrightarrow>
     (if \<exists>w. reaches (RawValue TypeDocument doc) path w
      then \<exists>w. reaches (RawValue TypeDocument doc) path w \<and> leaf_hits ew mv w else missing)"
proof -
  obtain v found simple where s: "traverseSingle doc path = (v, found, simple)" by (metis prod_cases3)
  obtain vs present where t: "traverse doc path = (vs, present)" by fastforce
  have r: "set vs = {w. reaches (RawValue TypeDocument doc) path w}" "present \<longleftrightarrow> (\<exists>w. reaches (RawValue TypeDocument doc) path w)"
    using traverse_reaches[of doc path] t by auto
  show ?thesis
  proof (cases simple)
    case True
    then have "(vs, present) = (if found then ([v], True) else ([], False))" using traverseSingle_traverse[of doc path v found] s t by simp
    then show ?thesis using r True by (auto simp: field_eval_def s split: if_splits)
  next
    case False
    then have "field_eval path missing ew mv doc = (if \<not> present then missing else list_ex (leaf_hits ew mv) vs)"
      by (simp add: field_eval_def s t)
    then show ?thesis using r by (auto simp: list_ex_iff)
  qed
qed

lemma Equal_same_rank: "Equal v w \<Longrightarrow> CanonicalType (vtype v) = CanonicalType (vtype w)"
  using Compare_diff_rank[of v w] by (cases "CanonicalType (vtype v) = CanonicalType (vtype w)") (auto simp: Equal_def split: if_splits)

lemma cmpLeaf_gte: "cmpLeaf_matchValue w opGte v \<longleftrightarrow> cmpLeaf_matchValue w opGt v \<or> Equal v w"
  "cmpLeaf_matchValue w opLte v \<longleftrightarrow> cmpLeaf_matchValue w opLt v \<or> Equal v w"
  using Equal_same_rank[of v w] by (auto simp: cmpLeaf_matchValue_def Equal_def)

lemma leaf_hits_disj: "leaf_hits ew (\<lambda>v. P v \<or> Q v) v \<longleftrightarrow> leaf_hits ew P v \<or> leaf_hits ew Q v"
  by (auto simp: leaf_hits_def list_ex_iff)

lemma leaf_hits_ex: "leaf_hits ew (\<lambda>v. \<exists>w \<in> W. P w v) v \<longleftrightarrow> (\<exists>w \<in> W. leaf_hits ew (P w) v)"
  by (auto simp: leaf_hits_def list_ex_iff)

lemma matchValue_abs:
  "matchValue (EqLeaf w) = (\<lambda>v. Equal v w)"
  "matchValue (CmpLeaf w op) = cmpLeaf_matchValue w op"
  "matchValue (InLeaf ws n) = (\<lambda>v. \<exists>w \<in> set ws. Equal v w)"
  by (auto simp: fun_eq_iff list_ex_iff)

lemma cmpLeaf_abs:
  "cmpLeaf_matchValue w opGte = (\<lambda>v. cmpLeaf_matchValue w opGt v \<or> Equal v w)"
  "cmpLeaf_matchValue w opLte = (\<lambda>v. cmpLeaf_matchValue w opLt v \<or> Equal v w)"
  by (simp_all add: fun_eq_iff cmpLeaf_gte)

lemma eval_conj_of: "eval (conj_of ps) doc \<longleftrightarrow> (\<forall>p \<in> set ps. eval p doc)"
  by (auto simp: conj_of_def list_all_iff split: list.split)

text \<open>\<^verbatim>\<open>$in\<close> is the disjunction of the equalities.\<close>

lemma eval_InLeaf:
  "eval (FieldPred path (InLeaf ws (list_ex isNullOperand ws))) doc \<longleftrightarrow> (\<exists>w \<in> set ws. eval (FieldPred path (EqLeaf w)) doc)"
  by (simp add: field_eval_reaches matchValue_abs leaf_hits_ex) (auto simp: list_ex_iff)

lemma eval_CmpLeaf_le:
  assumes "\<not> isNullOperand w"
  shows "eval (FieldPred path (CmpLeaf w opGte)) doc \<longleftrightarrow> eval (FieldPred path (CmpLeaf w opGt)) doc \<or> eval (FieldPred path (EqLeaf w)) doc"
    "eval (FieldPred path (CmpLeaf w opLte)) doc \<longleftrightarrow> eval (FieldPred path (CmpLeaf w opLt)) doc \<or> eval (FieldPred path (EqLeaf w)) doc"
  using assms by (auto simp: field_eval_reaches matchValue_abs cmpLeaf_abs leaf_hits_disj)

end
