(* ===== verification/Query_Shape.thy ===== *)
theory Query_Shape
  imports Query_Match "HOL-Library.Multiset"
begin

text \<open>
  Shaping results (\<^verbatim>\<open>src/query/sort.go\<close>, \<^verbatim>\<open>project.go\<close>, \<^verbatim>\<open>distinct.go\<close>): sorting by several keys, keeping
  or dropping fields, and the values of a field for \<^verbatim>\<open>distinct\<close>.
\<close>

section \<open>Stable sorting\<close>

text \<open>\<^verbatim>\<open>sort.SliceStable\<close> as insertion after the elements that are not greater; for a strict weak order
  every stable sort gives this list (\<open>stable_unique\<close> below).\<close>

fun insert_stable :: "('a \<Rightarrow> 'a \<Rightarrow> bool) \<Rightarrow> 'a \<Rightarrow> 'a list \<Rightarrow> 'a list" where
  "insert_stable lt x [] = [x]"
| "insert_stable lt x (y # ys) = (if lt x y then x # y # ys else y # insert_stable lt x ys)"

definition SliceStable :: "('a \<Rightarrow> 'a \<Rightarrow> bool) \<Rightarrow> 'a list \<Rightarrow> 'a list" where
  "SliceStable lt xs = foldl (\<lambda>ys x. insert_stable lt x ys) [] xs"

lemma mset_insert_stable [simp]: "mset (insert_stable lt x ys) = add_mset x (mset ys)"
  by (induction ys) auto

lemma set_insert_stable [simp]: "set (insert_stable lt x ys) = insert x (set ys)"
  by (induction ys) auto

lemma SliceStable_snoc: "SliceStable lt (xs @ [x]) = insert_stable lt x (SliceStable lt xs)"
  by (simp add: SliceStable_def)

lemma mset_SliceStable: "mset (SliceStable lt xs) = mset xs"
  by (induction xs rule: rev_induct) (simp add: SliceStable_def, simp add: SliceStable_snoc)

context three_way
begin

lemma insert_stable_sorted:
  assumes "sorted_wrt (\<lambda>a b. cmp a b \<le> 0) ys"
  shows "sorted_wrt (\<lambda>a b. cmp a b \<le> 0) (insert_stable (\<lambda>a b. cmp a b < 0) x ys)"
  using assms
proof (induction ys)
  case (Cons y ys)
  have "cmp x z \<le> 0" if "cmp x y < 0" "z \<in> set ys" for z using that Cons.prems cmp_le_trans[of x y z] by auto
  moreover have "cmp y x \<le> 0" if "\<not> cmp x y < 0" using that cmp_swap[of x y] by simp
  ultimately show ?case using Cons by auto
qed simp

lemma insert_stable_filter:
  assumes "sorted_wrt (\<lambda>a b. cmp a b \<le> 0) ys"
  shows "filter (\<lambda>y. cmp y z = 0) (insert_stable (\<lambda>a b. cmp a b < 0) x ys)
    = filter (\<lambda>y. cmp y z = 0) ys @ (if cmp x z = 0 then [x] else [])"
  using assms
proof (induction ys)
  case (Cons y ys)
  show ?case
  proof (cases "cmp x y < 0 \<and> cmp x z = 0")
    case True
    have "cmp w z \<noteq> 0" if "w \<in> set (y # ys)" for w
    proof -
      have "cmp y w \<le> 0" using that Cons.prems cmp_refl by auto
      then have "cmp x w < 0" using True cmp_less_le_trans by blast
      then show ?thesis using True cmp_eq_left[of x z w] cmp_swap[of z w] by simp
    qed
    then have "filter (\<lambda>y. cmp y z = 0) (y # ys) = []" by (simp add: filter_empty_conv)
    then show ?thesis using True by simp
  next
    case False
    then show ?thesis using Cons by auto
  qed
qed simp

lemma SliceStable_ok:
  "sorted_wrt (\<lambda>a b. cmp a b \<le> 0) (SliceStable (\<lambda>a b. cmp a b < 0) xs)
   \<and> filter (\<lambda>y. cmp y z = 0) (SliceStable (\<lambda>a b. cmp a b < 0) xs) = filter (\<lambda>y. cmp y z = 0) xs"
  by (induction xs rule: rev_induct) (simp add: SliceStable_def, auto simp: SliceStable_snoc insert_stable_sorted insert_stable_filter)

text \<open>Two sorted lists with the same elements in every class of equals are the same list.\<close>

lemma stable_unique:
  assumes "sorted_wrt (\<lambda>a b. cmp a b \<le> 0) xs" "sorted_wrt (\<lambda>a b. cmp a b \<le> 0) ys"
    and "\<And>z. filter (\<lambda>y. cmp y z = 0) xs = filter (\<lambda>y. cmp y z = 0) ys"
  shows "xs = ys"
  using assms
proof (induction xs arbitrary: ys)
  case Nil
  show ?case
  proof (cases ys)
    case (Cons y ys')
    then show ?thesis using Nil(3)[of y] cmp_refl by simp
  qed simp
next
  case (Cons x xs)
  have "x \<in> set (filter (\<lambda>y. cmp y x = 0) ys)" unfolding Cons.prems(3)[of x, symmetric] by (simp add: cmp_refl)
  then have xi: "x \<in> set ys" by simp
  then obtain y ys' where ys: "ys = y # ys'" by (cases ys) auto
  have "y \<in> set (filter (\<lambda>z. cmp z y = 0) (x # xs))" unfolding Cons.prems(3)[of y] ys by (simp add: cmp_refl)
  then have "y \<in> set (x # xs)" by (rule filter_is_subset[THEN subsetD])
  then have xy: "cmp x y \<le> 0" using Cons.prems(1) cmp_refl by auto
  have "cmp y x \<le> 0" using xi Cons.prems(2) cmp_refl unfolding ys by auto
  then have e: "cmp y x = 0" using xy cmp_swap[of x y] by simp
  then have "x = y" using Cons.prems(3)[of x] cmp_refl[of x] by (simp add: ys)
  moreover have "xs = ys'"
  proof (rule Cons.IH)
    show "filter (\<lambda>y. cmp y z = 0) xs = filter (\<lambda>y. cmp y z = 0) ys'" for z
      using Cons.prems(3)[of z] \<open>x = y\<close> by (auto simp: ys split: if_splits)
  qed (use Cons.prems ys in auto)
  ultimately show ?case by (simp add: ys)
qed

end

section \<open>Sort\<close>

record sortKey =
  sk_path :: "bytes list"
  sk_desc :: bool

fun split_loop :: "bytes \<Rightarrow> bytes \<Rightarrow> bytes list" where
  "split_loop [] seg = [seg]"
| "split_loop (c # s) seg = (if c = 0x2E then seg # split_loop s [] else split_loop s (seg @ [c]))"

definition splitPath :: "bytes \<Rightarrow> bytes list" where
  "splitPath key = (if key = [] then [[]] else split_loop key [])"

definition CompileSort :: "bytes \<Rightarrow> query_error + sortKey list" where
  "CompileSort s =
     (if s = [] then Inr []
      else on_ok (lift_bson (Elements s)) (\<lambda>elems.
        map_res (\<lambda>e. case AsFloat64 (evalue e) of
            Some dir \<Rightarrow>
              if f64_eq dir (f64_of_int 1) \<or> f64_eq dir (f64_of_int (-1))
              then Inr \<lparr>sk_path = splitPath (ekey e), sk_desc = f64_eq dir (f64_of_int (-1))\<rparr>
              else Inl ErrBadQuery
          | None \<Rightarrow> Inl ErrBadQuery) elems))"

definition sort_null :: rawvalue where
  "sort_null = default_value (Lookup (Build (AppendNull [] (str ''n''))) (str ''n''))"

definition sortValue :: "bytes \<Rightarrow> bytes list \<Rightarrow> rawvalue" where
  "sortValue d path =
     (let (values, present) = traverse d path in
      if \<not> present \<or> values = [] then sort_null
      else foldl (\<lambda>m v. if Compare v m < 0 then v else m) (hd values) (tl values))"

fun sort_less :: "sortKey list \<Rightarrow> bytes \<Rightarrow> bytes \<Rightarrow> bool" where
  "sort_less [] a b = False"
| "sort_less (k # ks) a b =
     (let c = Compare (sortValue a (sk_path k)) (sortValue b (sk_path k));
          c = (if sk_desc k then - c else c) in
      if c \<noteq> 0 then c < 0 else sort_less ks a b)"

definition Sort_Apply :: "sortKey list \<Rightarrow> bytes list \<Rightarrow> bytes list" where
  "Sort_Apply s docs = (if s = [] \<or> length docs < 2 then docs else SliceStable (sort_less s) docs)"

text \<open>The order the keys describe.\<close>

fun sort_cmp :: "sortKey list \<Rightarrow> bytes \<Rightarrow> bytes \<Rightarrow> int" where
  "sort_cmp [] a b = 0"
| "sort_cmp (k # ks) a b =
     (if Compare (sortValue a (sk_path k)) (sortValue b (sk_path k)) \<noteq> 0
      then (if sk_desc k then - Compare (sortValue a (sk_path k)) (sortValue b (sk_path k))
            else Compare (sortValue a (sk_path k)) (sortValue b (sk_path k)))
      else sort_cmp ks a b)"

lemma sort_less_cmp: "sort_less ks a b \<longleftrightarrow> sort_cmp ks a b < 0"
  by (induction ks) (auto simp: Let_def)

lemma three_way_neg: "three_way_on S c \<Longrightarrow> three_way_on S (\<lambda>a b. - c a b)"
proof -
  assume c: "three_way_on S c"
  then have "three_way_on S (\<lambda>a b. c b a)" unfolding three_way_on_def by blast
  then show ?thesis by (rule three_way_on_cong) (use three_way_onD(2)[OF c] in blast)
qed

lemma sort_cmp_three_way: "three_way_on S (sort_cmp ks)"
proof (induction ks)
  case (Cons k ks)
  let ?c = "\<lambda>a b. Compare (sortValue a (sk_path k)) (sortValue b (sk_path k))"
  have C: "three_way_on S ?c" by (rule three_way_on_vimage[of UNIV]) (simp_all add: three_way_on_UNIV bson_cmp.three_way_axioms)
  have "three_way_on S (\<lambda>a b. if sk_desc k then - ?c a b else ?c a b)" using C three_way_neg[OF C] by (cases "sk_desc k") simp_all
  from three_way_on_lex[OF this Cons] show ?case by (rule three_way_on_cong) auto
qed (simp add: three_way_on_def)

interpretation sort_order: three_way "sort_cmp ks" for ks
  using sort_cmp_three_way[of UNIV ks] by (simp only: three_way_on_UNIV)

text \<open>C28. Sorting results. The sorted list has the same documents, is ordered by the keys in turn, each in its direction, and
  leaves documents with equal keys in the order they came in.\<close>

theorem Sort_Apply_stable:
  "mset (Sort_Apply ks docs) = mset docs \<and> sorted_wrt (\<lambda>a b. sort_cmp ks a b \<le> 0) (Sort_Apply ks docs)
   \<and> filter (\<lambda>d. sort_cmp ks d z = 0) (Sort_Apply ks docs) = filter (\<lambda>d. sort_cmp ks d z = 0) docs"
proof (cases "ks = [] \<or> length docs < 2")
  case True
  then have "sorted_wrt (\<lambda>a b. sort_cmp ks a b \<le> 0) docs"
    by (cases docs rule: list.exhaust; cases "tl docs") (auto intro: sorted_wrt_mono_rel[of _ "\<lambda>a b. True"])
  then show ?thesis using True by (auto simp: Sort_Apply_def)
next
  case False
  have "sort_less ks = (\<lambda>a b. sort_cmp ks a b < 0)" by (simp add: fun_eq_iff sort_less_cmp)
  then show ?thesis using False sort_order.SliceStable_ok[of ks docs z] by (simp add: Sort_Apply_def mset_SliceStable)
qed

text \<open>The key of a document is a least value its path reaches, or null when it reaches none.\<close>

lemma foldl_least:
  "let m = foldl (\<lambda>m v. if Compare v m < 0 then v else m) u vs in m \<in> insert u (set vs) \<and> (\<forall>w \<in> insert u (set vs). Compare m w \<le> 0)"
proof (induction vs arbitrary: u)
  case (Cons v vs)
  let ?u = "if Compare v u < 0 then v else u"
  have "Compare ?u u \<le> 0" "Compare ?u v \<le> 0" using bson_cmp.cmp_refl bson_cmp.cmp_swap[of v u] by auto
  then have "Compare m u \<le> 0" "Compare m v \<le> 0" if "Compare m ?u \<le> 0" for m
    using bson_cmp.cmp_le_trans[OF that] by blast+
  then show ?case using Cons.IH[of ?u] by (auto simp: Let_def)
qed (simp add: bson_cmp.cmp_refl)

lemma sort_null_value: "sort_null = nullValue"
  by code_simp

lemma sortValue_least:
  "if \<exists>w. reaches (RawValue TypeDocument d) path w
   then reaches (RawValue TypeDocument d) path (sortValue d path) \<and> (\<forall>w. reaches (RawValue TypeDocument d) path w \<longrightarrow> Compare (sortValue d path) w \<le> 0)
   else sortValue d path = nullValue"
proof -
  obtain vs present where t: "traverse d path = (vs, present)" by fastforce
  have r: "set vs = {w. reaches (RawValue TypeDocument d) path w}" "present \<longleftrightarrow> (\<exists>w. reaches (RawValue TypeDocument d) path w)"
    using traverse_reaches[of d path] t by auto
  show ?thesis
  proof (cases vs)
    case Nil
    then show ?thesis using r by (auto simp: sortValue_def t sort_null_value)
  next
    case (Cons v vs')
    then have "present" using r by (metis list.set_intros(1) mem_Collect_eq)
    then have "sortValue d path = foldl (\<lambda>m v. if Compare v m < 0 then v else m) v vs'" by (simp add: sortValue_def t Cons)
    then have "sortValue d path \<in> set vs" "\<forall>w \<in> set vs. Compare (sortValue d path) w \<le> 0" using foldl_least[where u = v and vs = vs'] by (simp_all add: Let_def Cons)
    then show ?thesis using r by auto
  qed
qed

lemma split_dots_nonempty: "split_dots s \<noteq> []"
  by (cases s) (auto split: list.splits if_splits)

lemma split_loop_dots: "split_loop s seg = (case split_dots s of p # ps \<Rightarrow> (seg @ p) # ps | [] \<Rightarrow> [seg])"
  by (induction s arbitrary: seg) (use split_dots_nonempty in \<open>auto split: list.splits\<close>)

lemma splitPath_dots: "splitPath key = split_dots key"
  using split_dots_nonempty[of key] by (auto simp: splitPath_def split_loop_dots split: list.split)

section \<open>Distinct\<close>

definition Distinct :: "bytes \<Rightarrow> bytes \<Rightarrow> rawvalue list" where
  "Distinct doc field =
     concat (map (\<lambda>v. if vtype v = TypeArray then query_arrayElems v else [v]) (fst (traverse doc (splitPath field))))"

lemma Distinct_values:
  "set (Distinct doc field) = {v. \<exists>w. reaches (RawValue TypeDocument doc) (split_dots field) w
     \<and> (if vtype w = TypeArray then v \<in> set (query_arrayElems w) else v = w)}"
  by (auto simp: Distinct_def splitPath_dots traverse_reaches split: if_splits)

section \<open>Projection\<close>

record Projection =
  pr_fields :: "bytes list"
  pr_include :: bool
  pr_keepID :: bool
  pr_empty :: bool

definition projectionTruthy :: "rawvalue \<Rightarrow> bool" where
  "projectionTruthy v = truthy v"

text \<open>The loop over the fields, with the flags \<^verbatim>\<open>polaritySet\<close> and \<^verbatim>\<open>idExplicit\<close>.\<close>

fun projection_loop :: "element list \<Rightarrow> Projection \<Rightarrow> bool \<Rightarrow> bool \<Rightarrow> query_error + (Projection \<times> bool \<times> bool)" where
  "projection_loop [] p polaritySet idExplicit = Inr (p, polaritySet, idExplicit)"
| "projection_loop (e # es) p polaritySet idExplicit =
     (let keep = projectionTruthy (evalue e) in
      if ekey e = idField then projection_loop es (p\<lparr>pr_keepID := keep\<rparr>) polaritySet True
      else if \<not> polaritySet then projection_loop es (p\<lparr>pr_include := keep, pr_fields := pr_fields p @ [ekey e]\<rparr>) True idExplicit
      else if keep \<noteq> pr_include p then Inl ErrBadQuery
      else projection_loop es (p\<lparr>pr_fields := pr_fields p @ [ekey e]\<rparr>) polaritySet idExplicit)"

definition CompileProjection :: "bytes \<Rightarrow> query_error + Projection" where
  "CompileProjection proj =
     (let pass = \<lparr>pr_fields = [], pr_include = False, pr_keepID = False, pr_empty = True\<rparr> in
      if proj = [] then Inr pass
      else on_ok (lift_bson (Elements proj)) (\<lambda>elems.
        if elems = [] then Inr pass
        else on_ok (projection_loop elems \<lparr>pr_fields = [], pr_include = False, pr_keepID = True, pr_empty = False\<rparr> False False)
          (\<lambda>(p, polaritySet, idExplicit).
            let p = (if \<not> polaritySet then p\<lparr>pr_include := pr_keepID p\<rparr> else p) in
            Inr (if \<not> idExplicit then p\<lparr>pr_keepID := True\<rparr> else p))))"

definition pr_named :: "Projection \<Rightarrow> bytes \<Rightarrow> bool" where
  "pr_named p field = (field \<in> set (pr_fields p) \<or> list_ex (\<lambda>path. hd (split_dots path) = field) (pr_fields p))"

definition pr_keep :: "Projection \<Rightarrow> bytes \<Rightarrow> bool" where
  "pr_keep p field = (if pr_include p then pr_named p field else \<not> pr_named p field)"

fun project_loop :: "Projection \<Rightarrow> element list \<Rightarrow> bytes \<Rightarrow> bytes" where
  "project_loop p [] b = b"
| "project_loop p (e # es) b =
     (if ekey e = idField then project_loop p es (if pr_keepID p then AppendValue b (ekey e) (evalue e) else b)
      else project_loop p es (if pr_keep p (ekey e) then AppendValue b (ekey e) (evalue e) else b))"

definition Projection_Apply :: "Projection \<Rightarrow> bytes \<Rightarrow> query_error + bytes" where
  "Projection_Apply p d =
     (if pr_empty p then Inr d
      else on_ok (lift_bson (Elements d)) (\<lambda>elems. Inr (Build (project_loop p elems []))))"

definition pr_survives :: "Projection \<Rightarrow> bytes \<Rightarrow> bool" where
  "pr_survives p field = (if field = idField then pr_keepID p else pr_keep p field)"

lemma project_loop_filter: "project_loop p es b = append_all b (filter (\<lambda>e. pr_survives p (ekey e)) es)"
  by (induction es arbitrary: b) (auto simp: append_all_def pr_survives_def)

lemma length_enc_filter: "length (enc_elements (filter P es)) \<le> length (enc_elements es)"
  by (induction es) (auto simp: enc_elements_def)

text \<open>A projected document holds the surviving elements, unchanged and in order.\<close>

lemma Projection_Apply_elements:
  assumes "Elements d = Inr es" "\<not> pr_empty p"
  shows "\<exists>r. Projection_Apply p d = Inr r \<and> Elements r = Inr (filter (\<lambda>e. pr_survives p (ekey e)) es)"
proof -
  let ?es = "filter (\<lambda>e. pr_survives p (ekey e)) es"
  have d: "Build (append_all [] es) = d" "list_all wf_element es" using rebuild_read[OF assms(1)] by auto
  have "unat (get32 d 0) < 2 ^ LENGTH(32)" by (rule unsigned_less)
  then have "length d < 2 ^ 32" using Elements_parse(2)[OF assms(1)] by (simp add: Raw_Len_def)
  moreover have "length d = length (enc_elements es) + 5" using d(1) by (metis append_Nil append_all_enc length_Build)
  ultimately have "length (append_all [] ?es) + 5 < 2 ^ 32" using length_enc_filter[of "\<lambda>e. pr_survives p (ekey e)" es] by (simp add: append_all_enc)
  moreover have "list_all wf_element ?es" using d(2) by (simp add: list_all_iff)
  ultimately have "Elements (Build (append_all [] ?es)) = Inr ?es" using read_built by blast
  then show ?thesis using assms by (simp add: Projection_Apply_def project_loop_filter)
qed

end
