(* ===== verification/Query_Meaning.thy ===== *)
theory Query_Meaning
  imports Query_Match
begin

text \<open>
  What a filter means, read off the filter document itself: no predicate tree, no fast path, only the
  values a path reaches. Compiling a filter and evaluating the tree agrees with it.
\<close>

section \<open>The meaning of filters\<close>

definition some_value :: "bytes list \<Rightarrow> bool \<Rightarrow> (rawvalue \<Rightarrow> bool) \<Rightarrow> bytes \<Rightarrow> bool" where
  "some_value path missing P doc =
     (if \<exists>w. reaches (RawValue TypeDocument doc) path w
      then \<exists>w. reaches (RawValue TypeDocument doc) path w \<and> P w else missing)"

definition self_or_element :: "(rawvalue \<Rightarrow> bool) \<Rightarrow> rawvalue \<Rightarrow> bool" where
  "self_or_element P w \<longleftrightarrow> P w \<or> vtype w = TypeArray \<and> (\<exists>e \<in> set (query_arrayElems w). P e)"

definition type_named :: "rawvalue \<Rightarrow> byte \<Rightarrow> bool" where
  "type_named a t \<longleftrightarrow> (\<exists>ts. resolveTypeArg a = Inr ts \<and> t \<in> set ts)"

lemma doc_element_shorter: "x \<in> set (elements_of (DocumentV v)) \<Longrightarrow> length (vdata (evalue x)) < length (vdata v)"
  using elements_of_shorter[of x "DocumentV v"] DocumentV_length[of v] by simp

function filter_holds :: "bytes \<Rightarrow> bytes \<Rightarrow> bool"
  and op_holds :: "bytes list \<Rightarrow> bytes \<Rightarrow> rawvalue \<Rightarrow> bytes \<Rightarrow> bool" where
  "filter_holds d doc \<longleftrightarrow>
     (\<forall>e \<in> set (elements_of d).
        if ekey e = str ''$and'' then \<forall>s \<in> set (query_arrayElems (evalue e)). filter_holds (DocumentV s) doc
        else if ekey e = str ''$or'' then \<exists>s \<in> set (query_arrayElems (evalue e)). filter_holds (DocumentV s) doc
        else if ekey e = str ''$nor'' then \<not> (\<exists>s \<in> set (query_arrayElems (evalue e)). filter_holds (DocumentV s) doc)
        else if query_isOperatorDoc (evalue e) then
          \<forall>x \<in> set (elements_of (DocumentV (evalue e))). op_holds (split_dots (ekey e)) (ekey x) (evalue x) doc
        else some_value (split_dots (ekey e)) (isNullOperand (evalue e)) (self_or_element (\<lambda>w. Equal w (evalue e))) doc)"
| "op_holds path op arg doc \<longleftrightarrow>
     (if op = str ''$eq'' then some_value path (isNullOperand arg) (self_or_element (\<lambda>w. Equal w arg)) doc
      else if op = str ''$ne'' then \<not> some_value path (isNullOperand arg) (self_or_element (\<lambda>w. Equal w arg)) doc
      else if op = str ''$gt'' then some_value path False (self_or_element (cmpLeaf_matchValue arg opGt)) doc
      else if op = str ''$gte'' then some_value path False (self_or_element (cmpLeaf_matchValue arg opGte)) doc
      else if op = str ''$lt'' then some_value path False (self_or_element (cmpLeaf_matchValue arg opLt)) doc
      else if op = str ''$lte'' then some_value path False (self_or_element (cmpLeaf_matchValue arg opLte)) doc
      else if op = str ''$in'' then
        \<exists>x \<in> set (query_arrayElems arg). some_value path (isNullOperand x) (self_or_element (\<lambda>w. Equal w x)) doc
      else if op = str ''$nin'' then
        \<not> (\<exists>x \<in> set (query_arrayElems arg). some_value path (isNullOperand x) (self_or_element (\<lambda>w. Equal w x)) doc)
      else if op = str ''$exists'' then truthy arg \<longleftrightarrow> (\<exists>w. reaches (RawValue TypeDocument doc) path w)
      else if op = str ''$type'' then
        some_value path False (self_or_element (\<lambda>w. \<exists>a \<in> set (if vtype arg = TypeArray then query_arrayElems arg else [arg]). type_named a (vtype w))) doc
      else if op = str ''$size'' then
        some_value path False (\<lambda>w. vtype w = TypeArray \<and> sizeArg arg = Inr (int (length (query_arrayElems w)))) doc
      else if op = str ''$all'' then
        query_arrayElems arg \<noteq> [] \<and> some_value path False (\<lambda>w. \<forall>x \<in> set (query_arrayElems arg). self_or_element (\<lambda>u. Equal u x) w) doc
      else if op = str ''$elemMatch'' then
        some_value path False (\<lambda>w. vtype w = TypeArray \<and> (\<exists>e \<in> set (query_arrayElems w).
          if query_isOperatorDoc arg
          then \<forall>x \<in> set (elements_of (DocumentV arg)). op_holds [[]] (ekey x) (evalue x) (Build (AppendValue [] [] e))
          else vtype e = TypeDocument \<and> filter_holds (DocumentV arg) (DocumentV e))) doc
      else if op = str ''$not'' then
        \<not> (\<forall>x \<in> set (elements_of (DocumentV arg)). op_holds path (ekey x) (evalue x) doc)
      else False)"
  by pat_completeness auto
termination
proof (relation "measure (case_sum (\<lambda>(d, doc). 4 * length d) (\<lambda>(path, op, a, doc). 4 * length (vdata a) + 3))", goal_cases)
  case (2 d doc e s)
  then show ?case using elements_of_shorter[of e d] query_arrayElems_shorter[of s "evalue e"] DocumentV_length[of s] by simp
next
  case (3 d doc e s)
  then show ?case using elements_of_shorter[of e d] query_arrayElems_shorter[of s "evalue e"] DocumentV_length[of s] by simp
next
  case (4 d doc e s)
  then show ?case using elements_of_shorter[of e d] query_arrayElems_shorter[of s "evalue e"] DocumentV_length[of s] by simp
next
  case (5 d doc e x)
  then show ?case using elements_of_shorter[of e d] doc_element_shorter[of x "evalue e"] by simp
qed (auto simp: DocumentV_measure dest: doc_element_shorter)

declare filter_holds.simps [simp del] op_holds.simps [simp del]

section \<open>Compiling agrees with it\<close>

lemma list_all2_each:
  assumes "list_all2 R xs ys" "\<And>x y. x \<in> set xs \<Longrightarrow> R x y \<Longrightarrow> P y \<longleftrightarrow> Q x"
  shows "(\<forall>y \<in> set ys. P y) \<longleftrightarrow> (\<forall>x \<in> set xs. Q x)" "(\<exists>y \<in> set ys. P y) \<longleftrightarrow> (\<exists>x \<in> set xs. Q x)"
  using assms by (induction rule: list_all2_induct) auto

lemma leaf_some_value:
  "eval (FieldPred path l) doc = some_value path (matchMissing l) (leaf_hits (elementWise l) (matchValue l)) doc"
  by (simp add: field_eval_reaches some_value_def)

lemma leaf_hits_self: "leaf_hits True P = self_or_element P" "leaf_hits False P = P"
  by (auto simp: fun_eq_iff leaf_hits_def self_or_element_def list_ex_iff)

lemma EqLeaf_meaning: "eval (FieldPred path (EqLeaf w)) doc = some_value path (isNullOperand w) (self_or_element (\<lambda>v. Equal v w)) doc"
  by (simp only: leaf_some_value matchValue_abs leaf_hits_self matchMissing.simps elementWise.simps)

lemma CmpLeaf_meaning: "eval (FieldPred path (CmpLeaf w op)) doc = some_value path False (self_or_element (cmpLeaf_matchValue w op)) doc"
  by (simp only: leaf_some_value matchValue_abs leaf_hits_self matchMissing.simps elementWise.simps)

lemma InLeaf_meaning:
  assumes "newInLeaf arg = Inr l"
  shows "eval (FieldPred path l) doc \<longleftrightarrow> (\<exists>x \<in> set (query_arrayElems arg). some_value path (isNullOperand x) (self_or_element (\<lambda>w. Equal w x)) doc)"
proof -
  have "l = InLeaf (query_arrayElems arg) (list_ex isNullOperand (query_arrayElems arg))" using assms by (auto simp: newInLeaf_def Let_def split: if_splits)
  then show ?thesis by (simp only: eval_InLeaf EqLeaf_meaning)
qed

lemma TypeLeaf_meaning:
  assumes "newTypeLeaf arg = Inr l"
  shows "eval (FieldPred path l) doc
    \<longleftrightarrow> some_value path False (self_or_element (\<lambda>w. \<exists>a \<in> set (if vtype arg = TypeArray then query_arrayElems arg else [arg]). type_named a (vtype w))) doc"
proof -
  let ?as = "if vtype arg = TypeArray then query_arrayElems arg else [arg]"
  obtain ts where ts: "map_res resolveTypeArg ?as = Inr ts" and l: "l = TypeLeaf (concat ts)"
    using assms by (auto simp: newTypeLeaf_def split: sum.splits)
  have "(\<exists>y \<in> set ts. t \<in> set y) \<longleftrightarrow> (\<exists>a \<in> set ?as. type_named a t)" for t
    by (rule list_all2_each(2)[OF ts[unfolded map_res_Inr]]) (auto simp: type_named_def)
  then have "matchValue l = (\<lambda>w. \<exists>a \<in> set ?as. type_named a (vtype w))" by (simp add: l fun_eq_iff)
  then show ?thesis by (simp only: leaf_some_value) (simp add: l leaf_hits_self)
qed

lemma AllPred_meaning:
  assumes "newAllPred path arg = Inr p"
  shows "eval p doc \<longleftrightarrow> query_arrayElems arg \<noteq> []
    \<and> some_value path False (\<lambda>w. \<forall>x \<in> set (query_arrayElems arg). self_or_element (\<lambda>u. Equal u x) w) doc"
proof -
  have p: "p = FieldPred path (AllLeaf (query_arrayElems arg))" using assms by (auto simp: newAllPred_def Let_def split: if_splits)
  have "matchValue (AllLeaf ws) = (\<lambda>w. ws \<noteq> [] \<and> (\<forall>x \<in> set ws. self_or_element (\<lambda>u. Equal u x) w))" for ws
    by (auto simp: fun_eq_iff all_contains_def self_or_element_def list_all_iff list_ex_iff)
  then show ?thesis unfolding p by (simp only: leaf_some_value) (auto simp: leaf_hits_self some_value_def)
qed

lemma SizeLeaf_meaning:
  assumes "sizeArg arg = Inr n"
  shows "eval (FieldPred path (SizeLeaf n)) doc
    \<longleftrightarrow> some_value path False (\<lambda>w. vtype w = TypeArray \<and> sizeArg arg = Inr (int (length (query_arrayElems w)))) doc"
proof -
  have "matchValue (SizeLeaf n) = (\<lambda>w. vtype w = TypeArray \<and> sizeArg arg = Inr (int (length (query_arrayElems w))))" by (auto simp: fun_eq_iff assms)
  then show ?thesis by (simp only: leaf_some_value) (simp add: leaf_hits_self)
qed

lemma ExistsLeaf_meaning:
  "eval (FieldPred path (ExistsLeaf b)) doc \<longleftrightarrow> (b \<longleftrightarrow> (\<exists>w. reaches (RawValue TypeDocument doc) path w))"
  by (auto simp: leaf_some_value leaf_hits_self some_value_def simp del: eval.simps)

lemma ElemMatchLeaf_meaning:
  "eval (FieldPred path (ElemMatchLeaf inner wrap)) doc \<longleftrightarrow>
     some_value path False (\<lambda>w. vtype w = TypeArray \<and> (\<exists>e \<in> set (query_arrayElems w).
       if wrap then eval inner (Build (AppendValue [] [] e)) else vtype e = TypeDocument \<and> eval inner (DocumentV e))) doc"
proof -
  have "matchValue (ElemMatchLeaf inner wrap) = (\<lambda>w. vtype w = TypeArray \<and> (\<exists>e \<in> set (query_arrayElems w).
      if wrap then eval inner (Build (AppendValue [] [] e)) else vtype e = TypeDocument \<and> eval inner (DocumentV e)))"
    by (auto simp: fun_eq_iff list_ex_iff)
  then show ?thesis by (simp only: leaf_some_value) (simp add: leaf_hits_self)
qed

lemma has_dollar_ops: "has_dollar (str ''$and'')" "has_dollar (str ''$or'')" "has_dollar (str ''$nor'')"
  by code_simp+

lemma op_names: "str ''$or'' \<noteq> str ''$and''" "str ''$nor'' \<noteq> str ''$and''" "str ''$nor'' \<noteq> str ''$or''"
  by code_simp+

lemma lift_Elements: "lift_bson (Elements d) = Inr es \<Longrightarrow> elements_of d = es"
  by (cases "Elements d") (auto simp: elements_of_def)

text \<open>What one element of a filter demands.\<close>

definition elem_holds :: "element \<Rightarrow> bytes \<Rightarrow> bool" where
  "elem_holds e doc \<longleftrightarrow>
     (if ekey e = str ''$and'' then \<forall>s \<in> set (query_arrayElems (evalue e)). filter_holds (DocumentV s) doc
      else if ekey e = str ''$or'' then \<exists>s \<in> set (query_arrayElems (evalue e)). filter_holds (DocumentV s) doc
      else if ekey e = str ''$nor'' then \<not> (\<exists>s \<in> set (query_arrayElems (evalue e)). filter_holds (DocumentV s) doc)
      else if query_isOperatorDoc (evalue e) then
        \<forall>x \<in> set (elements_of (DocumentV (evalue e))). op_holds (split_dots (ekey e)) (ekey x) (evalue x) doc
      else some_value (split_dots (ekey e)) (isNullOperand (evalue e)) (self_or_element (\<lambda>w. Equal w (evalue e))) doc)"

lemma filter_holds_elem: "filter_holds d doc \<longleftrightarrow> (\<forall>e \<in> set (elements_of d). elem_holds e doc)"
  by (subst filter_holds.simps) (simp only: elem_holds_def)

definition means :: "query_error + predicate \<Rightarrow> (bytes \<Rightarrow> bool) \<Rightarrow> bool" where
  "means r F \<longleftrightarrow> (\<forall>p. r = Inr p \<longrightarrow> (\<forall>doc. eval p doc = F doc))"

lemma means_conj:
  assumes "\<And>e. e \<in> set es \<Longrightarrow> means (f e) (F e)"
  shows "means (on_ok (map_res f es) (\<lambda>ps. Inr (conj_of ps))) (\<lambda>doc. \<forall>e \<in> set es. F e doc)"
  unfolding means_def
proof (intro allI impI)
  fix p doc assume "on_ok (map_res f es) (\<lambda>ps. Inr (conj_of ps)) = Inr p"
  then obtain ps where ps: "list_all2 (\<lambda>e p. f e = Inr p) es ps" "p = conj_of ps" by (auto simp: map_res_Inr split: sum.splits)
  show "eval p doc \<longleftrightarrow> (\<forall>e \<in> set es. F e doc)" unfolding ps(2) eval_conj_of
    by (rule list_all2_each(1)[OF ps(1)]) (use assms in \<open>auto simp: means_def\<close>)
qed

lemma means_Inl: "means (Inl e) F"
  by (simp add: means_def)

lemma means_Inr: "(\<And>doc. eval p doc = F doc) \<Longrightarrow> means (Inr p) F"
  by (simp add: means_def)

lemma means_case:
  assumes "\<And>x. r = Inr x \<Longrightarrow> means (f x) F"
  shows "means (on_ok r f) F"
  using assms by (cases r) (auto simp: means_Inl)

lemma means_cong: "means r F \<Longrightarrow> (\<And>doc. F doc = G doc) \<Longrightarrow> means r G"
  by (simp add: means_def)

lemma compileDoc_means:
  assumes "\<And>e. e \<in> set (elements_of d) \<Longrightarrow> has_dollar (ekey e) \<Longrightarrow> means (compileLogical (ekey e) (evalue e)) (elem_holds e)"
    and "\<And>e. e \<in> set (elements_of d) \<Longrightarrow> \<not> has_dollar (ekey e) \<Longrightarrow> means (compileField (ekey e) (evalue e)) (elem_holds e)"
  shows "means (compileDoc d) (filter_holds d)"
proof (cases "d = []")
  case True
  then show ?thesis by (simp add: compileDoc.simps means_Inr filter_holds_elem elements_of_def Elements_def)
next
  case False
  have "means (on_ok (lift_bson (Elements d)) (\<lambda>elems.
      on_ok (map_res (\<lambda>e. if has_dollar (ekey e) then compileLogical (ekey e) (evalue e) else compileField (ekey e) (evalue e)) elems)
        (\<lambda>parts. Inr (conj_of parts)))) (filter_holds d)"
    by (rule means_case, drule lift_Elements, rule means_cong[OF means_conj]) (use assms in \<open>auto simp: filter_holds_elem\<close>)
  then show ?thesis using False by (simp add: compileDoc.simps means_Inl split: option.split)
qed

lemma compileLogical_means:
  assumes "op \<in> {str ''$and'', str ''$or'', str ''$nor''} \<Longrightarrow>
     \<forall>ps. compileFilterArray v = Inr ps \<longrightarrow> list_all2 (\<lambda>e p. \<forall>doc. eval p doc = filter_holds (DocumentV e) doc) (query_arrayElems v) ps"
  shows "means (compileLogical op v) (elem_holds (Element op v))"
  unfolding compileLogical.simps
proof (cases "op \<in> {str ''$and'', str ''$or'', str ''$nor''}")
  case True
  have "means (on_ok (compileFilterArray v) (\<lambda>subs. if op = str ''$and'' then Inr (AndPred subs)
      else if op = str ''$or'' then Inr (OrPred subs) else Inr (NotPred (OrPred subs)))) (elem_holds (Element op v))"
  proof (rule means_case)
    fix subs assume "compileFilterArray v = Inr subs"
    then have l: "list_all2 (\<lambda>e p. \<forall>doc. eval p doc = filter_holds (DocumentV e) doc) (query_arrayElems v) subs" using assms[OF True] by blast
    note each = list_all2_each[OF l, where P = "\<lambda>p. eval p doc" and Q = "\<lambda>e. filter_holds (DocumentV e) doc" for doc]
    show "means (if op = str ''$and'' then Inr (AndPred subs) else if op = str ''$or'' then Inr (OrPred subs) else Inr (NotPred (OrPred subs)))
        (elem_holds (Element op v))"
      using True each by (auto intro!: means_Inr simp: elem_holds_def op_names op_names[symmetric] list_all_iff list_ex_iff)
  qed
  then show "means (if op = str ''$and'' \<or> op = str ''$or'' \<or> op = str ''$nor'' then on_ok (compileFilterArray v) (\<lambda>subs. if op = str ''$and'' then Inr (AndPred subs)
      else if op = str ''$or'' then Inr (OrPred subs) else Inr (NotPred (OrPred subs))) else Inl ErrBadQuery) (elem_holds (Element op v))"
    using True by simp
qed (simp add: means_Inl)

lemma compileField_means:
  assumes "query_isOperatorDoc v \<Longrightarrow> means (compileOperators (split_dots key) (DocumentV v)) (\<lambda>doc. \<forall>x \<in> set (elements_of (DocumentV v)). op_holds (split_dots key) (ekey x) (evalue x) doc)"
    and "\<not> has_dollar key"
  shows "means (compileField key v) (elem_holds (Element key v))"
proof -
  have "key \<notin> {str ''$and'', str ''$or'', str ''$nor''}" using assms(2) has_dollar_ops by auto
  then have "elem_holds (Element key v) = (if query_isOperatorDoc v then (\<lambda>doc. \<forall>x \<in> set (elements_of (DocumentV v)). op_holds (split_dots key) (ekey x) (evalue x) doc)
      else some_value (split_dots key) (isNullOperand v) (self_or_element (\<lambda>w. Equal w v)))" by (auto simp: elem_holds_def fun_eq_iff)
  then show ?thesis using assms(1) by (auto simp: compileField.simps EqLeaf_meaning simp del: eval.simps intro!: means_Inr)
qed

lemma compileOperators_means:
  assumes "\<And>e. e \<in> set (elements_of d) \<Longrightarrow> means (compileOperator path (ekey e) (evalue e)) (op_holds path (ekey e) (evalue e))"
  shows "means (compileOperators path d) (\<lambda>doc. \<forall>x \<in> set (elements_of d). op_holds path (ekey x) (evalue x) doc)"
proof -
  have c: "on_ok (map_res f es) (\<lambda>parts. Inr (if parts = [] then TruePred else conj_of parts)) = Inr p \<Longrightarrow>
      \<exists>q. on_ok (map_res f es) (\<lambda>ps. Inr (conj_of ps)) = Inr q \<and> (\<forall>doc. eval p doc = eval q doc)" for f :: "element \<Rightarrow> query_error + predicate" and es p
    by (auto simp: conj_of_def split: sum.splits if_splits)
  show ?thesis unfolding compileOperators.simps
  proof (rule means_case, drule lift_Elements)
    fix es assume es: "elements_of d = es"
    have "means (on_ok (map_res (\<lambda>e. compileOperator path (ekey e) (evalue e)) es) (\<lambda>ps. Inr (conj_of ps)))
        (\<lambda>doc. \<forall>x \<in> set es. op_holds path (ekey x) (evalue x) doc)" by (rule means_conj) (use assms es in auto)
    then show "means (on_ok (map_res (\<lambda>e. compileOperator path (ekey e) (evalue e)) es) (\<lambda>parts. Inr (if parts = [] then TruePred else conj_of parts)))
        (\<lambda>doc. \<forall>x \<in> set (elements_of d). op_holds path (ekey x) (evalue x) doc)"
      unfolding es means_def using c by blast
  qed
qed

lemma means_if:
  "(c \<Longrightarrow> means a A) \<Longrightarrow> (\<not> c \<Longrightarrow> means b B) \<Longrightarrow> means (if c then a else b) (\<lambda>doc. if c then A doc else B doc)"
  by simp

lemma newElemMatchPred_means:
  assumes "\<And>p wrap. vtype arg = TypeDocument \<Longrightarrow> compileElemMatch (DocumentV arg) = Inr (p, wrap) \<Longrightarrow>
      (\<forall>doc. eval p doc = (if wrap then \<forall>x \<in> set (elements_of (DocumentV arg)). op_holds [[]] (ekey x) (evalue x) doc else filter_holds (DocumentV arg) doc))
      \<and> wrap = query_isOperatorDoc arg"
  shows "means (newElemMatchPred path arg) (\<lambda>doc. some_value path False (\<lambda>w. vtype w = TypeArray \<and> (\<exists>e \<in> set (query_arrayElems w).
          if query_isOperatorDoc arg
          then \<forall>x \<in> set (elements_of (DocumentV arg)). op_holds [[]] (ekey x) (evalue x) (Build (AppendValue [] [] e))
          else vtype e = TypeDocument \<and> filter_holds (DocumentV arg) (DocumentV e))) doc)"
proof (cases "vtype arg = TypeDocument")
  case True
  show ?thesis unfolding newElemMatchPred.simps if_not_P[OF not_not[THEN iffD2, OF True]]
  proof (rule means_case)
    fix r assume r: "compileElemMatch (DocumentV arg) = Inr r"
    obtain p wrap where pw: "r = (p, wrap)" by fastforce
    note m = assms[OF True r[unfolded pw]]
    show "means (case r of (inner, wrap) \<Rightarrow> Inr (FieldPred path (ElemMatchLeaf inner wrap))) (\<lambda>doc. some_value path False (\<lambda>w. vtype w = TypeArray \<and> (\<exists>e \<in> set (query_arrayElems w).
          if query_isOperatorDoc arg
          then \<forall>x \<in> set (elements_of (DocumentV arg)). op_holds [[]] (ekey x) (evalue x) (Build (AppendValue [] [] e))
          else vtype e = TypeDocument \<and> filter_holds (DocumentV arg) (DocumentV e))) doc)"
      unfolding pw prod.case by (rule means_Inr) (use m in \<open>simp add: ElemMatchLeaf_meaning del: eval.simps cong: if_cong\<close>)
  qed
qed (simp add: newElemMatchPred.simps means_Inl)

lemma op_means:
  "means (Inr (FieldPred path (EqLeaf a))) (some_value path (isNullOperand a) (self_or_element (\<lambda>w. Equal w a)))"
  "means (Inr (NotPred (FieldPred path (EqLeaf a)))) (\<lambda>doc. \<not> some_value path (isNullOperand a) (self_or_element (\<lambda>w. Equal w a)) doc)"
  "means (Inr (FieldPred path (CmpLeaf a op))) (some_value path False (self_or_element (cmpLeaf_matchValue a op)))"
  "means (on_ok (newInLeaf a) (\<lambda>leaf. Inr (FieldPred path leaf)))
     (\<lambda>doc. \<exists>x \<in> set (query_arrayElems a). some_value path (isNullOperand x) (self_or_element (\<lambda>w. Equal w x)) doc)"
  "means (on_ok (newInLeaf a) (\<lambda>leaf. Inr (NotPred (FieldPred path leaf))))
     (\<lambda>doc. \<not> (\<exists>x \<in> set (query_arrayElems a). some_value path (isNullOperand x) (self_or_element (\<lambda>w. Equal w x)) doc))"
  "means (Inr (FieldPred path (ExistsLeaf b))) (\<lambda>doc. b \<longleftrightarrow> (\<exists>w. reaches (RawValue TypeDocument doc) path w))"
  "means (on_ok (newTypeLeaf a) (\<lambda>leaf. Inr (FieldPred path leaf)))
     (some_value path False (self_or_element (\<lambda>w. \<exists>x \<in> set (if vtype a = TypeArray then query_arrayElems a else [a]). type_named x (vtype w))))"
  "means (on_ok (sizeArg a) (\<lambda>n. Inr (FieldPred path (SizeLeaf n))))
     (some_value path False (\<lambda>w. vtype w = TypeArray \<and> sizeArg a = Inr (int (length (query_arrayElems w)))))"
  "means (newAllPred path a) (\<lambda>doc. query_arrayElems a \<noteq> []
     \<and> some_value path False (\<lambda>w. \<forall>x \<in> set (query_arrayElems a). self_or_element (\<lambda>u. Equal u x) w) doc)"
  by (auto intro!: means_case means_Inr simp: EqLeaf_meaning CmpLeaf_meaning InLeaf_meaning ExistsLeaf_meaning simp del: eval.simps(5))
    (auto simp: means_def TypeLeaf_meaning SizeLeaf_meaning AllPred_meaning simp del: eval.simps split: sum.splits)

lemma compileOperator_means:
  assumes E: "op = str ''$elemMatch'' \<Longrightarrow> means (newElemMatchPred path arg) (some_value path False (\<lambda>w. vtype w = TypeArray \<and> (\<exists>e \<in> set (query_arrayElems w).
          if query_isOperatorDoc arg
          then \<forall>x \<in> set (elements_of (DocumentV arg)). op_holds [[]] (ekey x) (evalue x) (Build (AppendValue [] [] e))
          else vtype e = TypeDocument \<and> filter_holds (DocumentV arg) (DocumentV e))))"
    and N: "op = str ''$not'' \<Longrightarrow> query_isOperatorDoc arg \<Longrightarrow>
      means (compileOperators path (DocumentV arg)) (\<lambda>doc. \<forall>x \<in> set (elements_of (DocumentV arg)). op_holds path (ekey x) (evalue x) doc)"
  shows "means (compileOperator path op arg) (op_holds path op arg)"
proof -
  have N': "means (if \<not> query_isOperatorDoc arg then Inl ErrBadQuery else on_ok (compileOperators path (DocumentV arg)) (\<lambda>inner. Inr (NotPred inner)))
      (\<lambda>doc. \<not> (\<forall>x \<in> set (elements_of (DocumentV arg)). op_holds path (ekey x) (evalue x) doc))" if "op = str ''$not''"
    using N[OF that] by (cases "compileOperators path (DocumentV arg)") (auto simp: means_def)
  show ?thesis
    by (rule means_cong[OF _ op_holds.simps[symmetric]], subst compileOperator.simps, intro means_if;
        (rule op_means means_Inl | rule E, assumption | rule N', assumption))
qed

definition elem_means :: "bytes \<Rightarrow> query_error + predicate \<times> bool \<Rightarrow> bool" where
  "elem_means d r \<longleftrightarrow> (\<forall>p wrap. r = Inr (p, wrap) \<longrightarrow>
     (\<forall>doc. eval p doc = (if wrap then \<forall>x \<in> set (elements_of d). op_holds [[]] (ekey x) (evalue x) doc else filter_holds d doc))
     \<and> wrap = (elements_of d \<noteq> [] \<and> has_dollar (ekey (hd (elements_of d)))))"

lemma elem_means_wrap:
  assumes "means r (\<lambda>doc. if wrap then \<forall>x \<in> set (elements_of d). op_holds [[]] (ekey x) (evalue x) doc else filter_holds d doc)"
    and "wrap = (elements_of d \<noteq> [] \<and> has_dollar (ekey (hd (elements_of d))))"
  shows "elem_means d (on_ok r (\<lambda>p. Inr (p, wrap)))"
  using assms by (cases r) (auto simp: elem_means_def means_def)

lemma compileElemMatch_means:
  assumes "\<And>e. e \<in> set (elements_of d) \<Longrightarrow> means (compileOperator [[]] (ekey e) (evalue e)) (op_holds [[]] (ekey e) (evalue e))"
    and "means (compileDoc d) (filter_holds d)"
  shows "elem_means d (compileElemMatch d)"
proof (cases "lift_bson (Elements d)")
  case (Inr es)
  then have es: "elements_of d = es" by (rule lift_Elements)
  let ?w = "es \<noteq> [] \<and> has_dollar (ekey (hd es))"
  have T: "elem_means d (on_ok (on_ok (map_res (\<lambda>e. compileOperator [[]] (ekey e) (evalue e)) es) (\<lambda>ps. Inr (conj_of ps))) (\<lambda>p. Inr (p, True)))" if ?w
    by (rule elem_means_wrap, unfold es) (use means_conj[OF assms(1), unfolded es] that in auto)
  have F: "elem_means d (on_ok (compileDoc d) (\<lambda>p. Inr (p, False)))" if "\<not> ?w"
    by (rule elem_means_wrap) (use assms(2) that es in auto)
  have "compileElemMatch d = (if ?w then on_ok (on_ok (map_res (\<lambda>e. compileOperator [[]] (ekey e) (evalue e)) es) (\<lambda>ps. Inr (conj_of ps))) (\<lambda>p. Inr (p, True))
      else on_ok (compileDoc d) (\<lambda>p. Inr (p, False)))"
    by (subst compileElemMatch.simps) (simp add: Inr split: sum.split)
  then show ?thesis using T F by (cases ?w) simp_all
next
  case (Inl e)
  then show ?thesis by (simp add: compileElemMatch.simps elem_means_def)
qed

lemma isOperatorDoc_first:
  "vtype arg = TypeDocument \<Longrightarrow> query_isOperatorDoc arg = (elements_of (DocumentV arg) \<noteq> [] \<and> has_dollar (ekey (hd (elements_of (DocumentV arg)))))"
  by (auto simp: query_isOperatorDoc_def elements_of_def split: sum.split list.split)

lemma compileFilterArray_means:
  assumes "\<And>e. e \<in> set (query_arrayElems v) \<Longrightarrow> means (compileDoc (DocumentV e)) (filter_holds (DocumentV e))"
    and "compileFilterArray v = Inr ps"
  shows "list_all2 (\<lambda>e p. \<forall>doc. eval p doc = filter_holds (DocumentV e) doc) (query_arrayElems v) ps"
proof -
  have "list_all2 (\<lambda>e p. (if vtype e \<noteq> TypeDocument then Inl ErrBadQuery else compileDoc (DocumentV e)) = Inr p) (query_arrayElems v) ps"
    using assms(2) by (auto simp: compileFilterArray.simps map_res_Inr split: if_splits)
  then show ?thesis using assms(1) by (auto elim!: list.rel_mono_strong simp: means_def split: if_splits)
qed

lemma element_eta [simp]: "Element (ekey (e :: element)) (evalue e) = e"
  by simp

lemma compile_means:
  "means (compileDoc d) (filter_holds d) \<and> (\<forall>path. means (compileOperators path d) (\<lambda>doc. \<forall>x \<in> set (elements_of d). op_holds path (ekey x) (evalue x) doc))
     \<and> elem_means d (compileElemMatch d)"
proof (induction "length d" arbitrary: d rule: less_induct)
  case less
  have sub: "length (DocumentV v) < length d" if "length (vdata v) < length d" for v using that DocumentV_length[of v] by simp
  have op: "means (compileOperator path op v) (op_holds path op v)" if v: "length (vdata v) < length d" for path op v
  proof (rule compileOperator_means)
    have "elem_means (DocumentV v) (compileElemMatch (DocumentV v))" using less sub[OF v] by blast
    then show "means (newElemMatchPred path v) (some_value path False (\<lambda>w. vtype w = TypeArray \<and> (\<exists>e \<in> set (query_arrayElems w).
          if query_isOperatorDoc v
          then \<forall>x \<in> set (elements_of (DocumentV v)). op_holds [[]] (ekey x) (evalue x) (Build (AppendValue [] [] e))
          else vtype e = TypeDocument \<and> filter_holds (DocumentV v) (DocumentV e))))"
      by (intro newElemMatchPred_means) (auto simp: elem_means_def isOperatorDoc_first)
  qed (use less sub[OF v] in blast)
  have fld: "means (compileField (ekey e) (evalue e)) (elem_holds e)" if "e \<in> set (elements_of d)" "\<not> has_dollar (ekey e)" for e
    using compileField_means[of "evalue e" "ekey e"] less sub[OF elements_of_shorter[OF that(1)]] that(2) by (cases e) simp
  have lgc: "means (compileLogical (ekey e) (evalue e)) (elem_holds e)" if "e \<in> set (elements_of d)" for e
  proof -
    have "means (compileDoc (DocumentV x)) (filter_holds (DocumentV x))" if "x \<in> set (query_arrayElems (evalue e))" for x
      using less sub[of x] query_arrayElems_shorter[OF that] elements_of_shorter[OF \<open>e \<in> set (elements_of d)\<close>] by simp
    then show ?thesis using compileLogical_means[of "ekey e" "evalue e"] compileFilterArray_means[of "evalue e"] by (cases e) simp
  qed
  have doc: "means (compileDoc d) (filter_holds d)" by (rule compileDoc_means) (use lgc fld in auto)
  have ops: "means (compileOperator path (ekey e) (evalue e)) (op_holds path (ekey e) (evalue e))" if "e \<in> set (elements_of d)" for e path
    by (rule op[OF elements_of_shorter[OF that]])
  show ?case using doc compileOperators_means[OF ops] compileElemMatch_means[OF ops doc] by blast
qed

text \<open>C12. Filters mean what they say. Compiling a filter and evaluating the predicate tree, with its fast path and its array
  fan-out, decides exactly whether the document satisfies the filter: every element of the filter, read as a condition on the
  values its path reaches, holds.\<close>

theorem Compile_correct:
  assumes "Compile filt = Inr m"
  shows "Match m doc \<longleftrightarrow> filter_holds filt doc"
  using compile_means[of filt] assms by (simp add: means_def Compile_def Match_def)

theorem Compile_correct_witness:
  "filter_holds [9, 0, 0, 0, 8, 97, 0, 1, 0] [12, 0, 0, 0, 10, 98, 0, 8, 97, 0, 1, 0]"
proof -
  have c: "Compile [9, 0, 0, 0, 8, 97, 0, 1, 0] = Inr (FieldPred [[97]] (EqLeaf (RawValue TypeBoolean [1])))" by code_simp
  have "Match (FieldPred [[97]] (EqLeaf (RawValue TypeBoolean [1]))) [12, 0, 0, 0, 10, 98, 0, 8, 97, 0, 1, 0]" by code_simp
  then show ?thesis using Compile_correct[OF c] by blast
qed

end
