(* ===== verification/Plan_Bounds.thy ===== *)
theory Plan_Bounds
  imports Query_Meaning
begin

text \<open>
  From a filter to the byte range of an index scan (\<^verbatim>\<open>src/plan/bounds.go\<close>): the bounds a filter places on
  each field, their intervals, and the range of compound keys.
\<close>

section \<open>Bounds of a filter\<close>

record Interval =
  iv_Lo :: rawvalue
  iv_HasLo :: bool
  iv_LoInclusive :: bool
  iv_Hi :: rawvalue
  iv_HasHi :: bool
  iv_HiInclusive :: bool
  iv_Point :: bool
  iv_AlwaysTrue :: bool
  iv_AlwaysFalse :: bool
  iv_Tight :: bool

abbreviation no_value :: rawvalue where "no_value \<equiv> RawValue 0 []"

definition zero_interval :: Interval where
  "zero_interval = \<lparr>iv_Lo = no_value, iv_HasLo = False, iv_LoInclusive = False, iv_Hi = no_value, iv_HasHi = False,
     iv_HiInclusive = False, iv_Point = False, iv_AlwaysTrue = False, iv_AlwaysFalse = False, iv_Tight = False\<rparr>"

abbreviation unconstrained :: Interval where
  "unconstrained \<equiv> zero_interval\<lparr>iv_AlwaysTrue := True\<rparr>"

record fieldBound =
  fb_hasEq :: bool
  fb_eq :: rawvalue
  fb_hasLo :: bool
  fb_lo :: rawvalue
  fb_loInc :: bool
  fb_hasHi :: bool
  fb_hi :: rawvalue
  fb_hiInc :: bool

definition zero_bound :: fieldBound where
  "zero_bound = \<lparr>fb_hasEq = False, fb_eq = no_value, fb_hasLo = False, fb_lo = no_value, fb_loInc = False,
     fb_hasHi = False, fb_hi = no_value, fb_hiInc = False\<rparr>"

text \<open>The Go map of pointers is a map to the bounds; a method changes the bound of one field.\<close>

type_synonym bounds = "bytes \<Rightarrow> fieldBound option"

definition boundFor :: "bounds \<Rightarrow> bytes \<Rightarrow> fieldBound" where
  "boundFor out field = (case out field of None \<Rightarrow> zero_bound | Some b \<Rightarrow> b)"

definition setEq :: "bounds \<Rightarrow> bytes \<Rightarrow> rawvalue \<Rightarrow> bounds" where
  "setEq out field v = out(field \<mapsto> (boundFor out field)\<lparr>fb_hasEq := True, fb_eq := v\<rparr>)"

definition mergeLo :: "bounds \<Rightarrow> bytes \<Rightarrow> rawvalue \<Rightarrow> bool \<Rightarrow> bounds" where
  "mergeLo out field v inc =
     (let b = boundFor out field;
          b' = (if \<not> fb_hasLo b then b\<lparr>fb_hasLo := True, fb_lo := v, fb_loInc := inc\<rparr>
                else let c = Compare v (fb_lo b) in
                  if c = 1 then b\<lparr>fb_lo := v, fb_loInc := inc\<rparr>
                  else if c = 0 then b\<lparr>fb_loInc := fb_loInc b \<and> inc\<rparr>
                  else b)
      in out(field \<mapsto> b'))"

definition mergeHi :: "bounds \<Rightarrow> bytes \<Rightarrow> rawvalue \<Rightarrow> bool \<Rightarrow> bounds" where
  "mergeHi out field v inc =
     (let b = boundFor out field;
          b' = (if \<not> fb_hasHi b then b\<lparr>fb_hasHi := True, fb_hi := v, fb_hiInc := inc\<rparr>
                else let c = Compare v (fb_hi b) in
                  if c = -1 then b\<lparr>fb_hi := v, fb_hiInc := inc\<rparr>
                  else if c = 0 then b\<lparr>fb_hiInc := fb_hiInc b \<and> inc\<rparr>
                  else b)
      in out(field \<mapsto> b'))"

definition apply_op :: "bytes \<Rightarrow> bounds \<Rightarrow> element \<Rightarrow> bounds" where
  "apply_op field out e =
     (if ekey e = str ''$eq'' then setEq out field (evalue e)
      else if ekey e = str ''$gt'' then mergeLo out field (evalue e) False
      else if ekey e = str ''$gte'' then mergeLo out field (evalue e) True
      else if ekey e = str ''$lt'' then mergeHi out field (evalue e) False
      else if ekey e = str ''$lte'' then mergeHi out field (evalue e) True
      else out)"

definition applyOps :: "bounds \<Rightarrow> bytes \<Rightarrow> bytes \<Rightarrow> bounds" where
  "applyOps out field ops =
     (case Elements ops of Inl _ \<Rightarrow> out | Inr elems \<Rightarrow> foldl (apply_op field) out elems)"

definition plan_isOperatorDoc :: "rawvalue \<Rightarrow> bool" where
  "plan_isOperatorDoc v =
     (vtype v = TypeDocument \<and>
      (case Elements (DocumentV v) of Inl _ \<Rightarrow> False | Inr [] \<Rightarrow> False | Inr (e # _) \<Rightarrow> has_dollar (ekey e)))"

definition arrayDocs :: "rawvalue \<Rightarrow> bytes list" where
  "arrayDocs v =
     (if vtype v \<noteq> TypeArray then []
      else case Elements (DocumentV v) of Inl _ \<Rightarrow> []
        | Inr elems \<Rightarrow> map (\<lambda>e. DocumentV (evalue e)) (filter (\<lambda>e. vtype (evalue e) = TypeDocument) elems))"

lemma arrayDocs_elems: "d \<in> set (arrayDocs v) \<Longrightarrow> \<exists>s \<in> set (query_arrayElems v). d = DocumentV s"
  by (auto simp: arrayDocs_def query_arrayElems_def split: if_splits sum.splits)

lemma arrayDocs_shorter: "d \<in> set (arrayDocs v) \<Longrightarrow> length d < length (vdata v)"
  using arrayDocs_elems[of d v] query_arrayElems_shorter[of _ v] DocumentV_length le_less_trans by blast

function collectBounds :: "bytes \<Rightarrow> bounds \<Rightarrow> bounds" where
  "collectBounds d out =
     (case Elements d of Inl _ \<Rightarrow> out
      | Inr elems \<Rightarrow> foldl (\<lambda>out e.
          if ekey e = str ''$and'' then foldl (\<lambda>out u. collectBounds u out) out (arrayDocs (evalue e))
          else if has_dollar (ekey e) then out
          else if plan_isOperatorDoc (evalue e) then applyOps out (ekey e) (DocumentV (evalue e))
          else setEq out (ekey e) (evalue e)) out elems)"
  by pat_completeness auto
termination
  by (relation "measure (\<lambda>(d, out). length d)") (auto dest!: arrayDocs_shorter Elements_shorter)

declare collectBounds.simps [simp del]

definition extractBounds :: "bytes \<Rightarrow> bounds" where
  "extractBounds filt = collectBounds filt Map.empty"

definition intervalOf :: "fieldBound option \<Rightarrow> Interval" where
  "intervalOf bo =
     (case bo of None \<Rightarrow> unconstrained
      | Some b \<Rightarrow>
        if fb_hasEq b then zero_interval\<lparr>iv_Lo := fb_eq b, iv_Hi := fb_eq b, iv_HasLo := True, iv_HasHi := True,
          iv_LoInclusive := True, iv_HiInclusive := True, iv_Point := True, iv_Tight := True\<rparr>
        else if \<not> fb_hasLo b \<and> \<not> fb_hasHi b then unconstrained
        else
          (let iv = zero_interval\<lparr>iv_Tight := True\<rparr>;
               iv = (if fb_hasLo b then iv\<lparr>iv_HasLo := True, iv_Lo := fb_lo b, iv_LoInclusive := fb_loInc b\<rparr> else iv)
           in if fb_hasHi b then iv\<lparr>iv_HasHi := True, iv_Hi := fb_hi b, iv_HiInclusive := fb_hiInc b\<rparr> else iv))"

section \<open>The range of a scan\<close>

record scanBounds =
  sb_Lo :: bytes
  sb_Hi :: bytes
  sb_Intervals :: "Interval list"
  sb_Usable :: bool
  sb_Empty :: bool
  sb_Tight :: bool

definition encodeRange :: "Interval \<Rightarrow> bool \<Rightarrow> index_error + bytes \<times> bytes" where
  "encodeRange iv desc =
     (let (loVal, loOpen, hiVal, hiOpen) =
        (if desc then (iv_Hi iv, \<not> iv_HasHi iv, iv_Lo iv, \<not> iv_HasLo iv)
         else (iv_Lo iv, \<not> iv_HasLo iv, iv_Hi iv, \<not> iv_HasHi iv)) in
      case (if loOpen then Inr (EncodeBoundMin desc) else EncodeField loVal desc) of
        Inl e \<Rightarrow> Inl e
      | Inr lo \<Rightarrow> (case (if hiOpen then Inr (EncodeBoundMax desc) else EncodeField hiVal desc) of
          Inl e \<Rightarrow> Inl e | Inr hi \<Rightarrow> Inr (lo, hi)))"

text \<open>The loop over the key parts from position \<open>i\<close>, with its local variables.\<close>

fun bounds_loop :: "bounds \<Rightarrow> KeyPart list \<Rightarrow> nat \<Rightarrow> bytes \<Rightarrow> bytes \<Rightarrow> Interval list \<Rightarrow> bool \<Rightarrow> bool \<Rightarrow> bool \<Rightarrow> scanBounds" where
  "bounds_loop fb [] i lo hi ivs usable tight stopped =
     \<lparr>sb_Lo = lo, sb_Hi = hi, sb_Intervals = ivs, sb_Usable = usable, sb_Empty = False, sb_Tight = tight\<rparr>"
| "bounds_loop fb (kp # kps) i lo hi ivs usable tight stopped =
     (let iv = intervalOf (fb (Field kp));
          mn = EncodeBoundMin (Desc kp); mx = EncodeBoundMax (Desc kp);
          widen = (\<lambda>iv. bounds_loop fb kps (i + 1) (lo @ mn) (hi @ mx) (ivs @ [iv]) usable False True) in
      if stopped then widen unconstrained
      else if iv_AlwaysFalse iv then
        \<lparr>sb_Lo = [], sb_Hi = [], sb_Intervals = ivs @ [iv], sb_Usable = (i = 0), sb_Empty = True, sb_Tight = False\<rparr>
      else if iv_AlwaysTrue iv then widen iv
      else if iv_Point iv then
        (case EncodeField (iv_Lo iv) (Desc kp) of
           Inl _ \<Rightarrow> widen unconstrained
         | Inr enc \<Rightarrow> bounds_loop fb kps (i + 1) (lo @ enc) (hi @ enc) (ivs @ [iv]) (usable \<or> i = 0) tight False)
      else
        (case encodeRange iv (Desc kp) of
           Inl _ \<Rightarrow> widen unconstrained
         | Inr (loEnc, hiEnc) \<Rightarrow>
             bounds_loop fb kps (i + 1) (lo @ loEnc) (hi @ hiEnc) (ivs @ [iv]) (usable \<or> i = 0)
               (tight \<and> iv_LoInclusive iv \<and> iv_HiInclusive iv) True))"

definition buildScanBounds :: "KeyPart list \<Rightarrow> bounds \<Rightarrow> scanBounds" where
  "buildScanBounds key fb = bounds_loop fb key 0 [] [] [] False True False"

section \<open>A matching document satisfies the bounds\<close>

definition bound_holds :: "bytes \<Rightarrow> bytes \<Rightarrow> fieldBound \<Rightarrow> bool" where
  "bound_holds doc field b \<longleftrightarrow>
     (fb_hasEq b \<longrightarrow> some_value (split_dots field) (isNullOperand (fb_eq b)) (self_or_element (\<lambda>w. Equal w (fb_eq b))) doc)
     \<and> (fb_hasLo b \<longrightarrow> some_value (split_dots field) False (self_or_element (cmpLeaf_matchValue (fb_lo b) (if fb_loInc b then opGte else opGt))) doc)
     \<and> (fb_hasHi b \<longrightarrow> some_value (split_dots field) False (self_or_element (cmpLeaf_matchValue (fb_hi b) (if fb_hiInc b then opLte else opLt))) doc)"

definition bounds_hold :: "bytes \<Rightarrow> bounds \<Rightarrow> bool" where
  "bounds_hold doc out \<longleftrightarrow> (\<forall>field b. out field = Some b \<longrightarrow> bound_holds doc field b)"

lemma bounds_hold_empty: "bounds_hold doc Map.empty"
  by (simp add: bounds_hold_def)

lemma bounds_hold_update: "bounds_hold doc out \<Longrightarrow> bound_holds doc field b \<Longrightarrow> bounds_hold doc (out(field \<mapsto> b))"
  by (simp add: bounds_hold_def)

lemma boundFor_holds: "bounds_hold doc out \<Longrightarrow> bound_holds doc field (boundFor out field)"
  by (cases "out field") (simp_all add: bounds_hold_def boundFor_def, simp add: bound_holds_def zero_bound_def)

lemma cmpLeaf_equal_operand: "Compare v w = 0 \<Longrightarrow> cmpLeaf_matchValue v op = cmpLeaf_matchValue w op"
  using Equal_same_rank[of v w] bson_cmp.cmp_eq_right[of v w] by (auto simp: fun_eq_iff cmpLeaf_matchValue_def Equal_def)

lemma op_distinct:
  "str ''$gt'' \<noteq> str ''$eq''" "str ''$gt'' \<noteq> str ''$ne''"
  "str ''$gte'' \<noteq> str ''$eq''" "str ''$gte'' \<noteq> str ''$ne''" "str ''$gte'' \<noteq> str ''$gt''"
  "str ''$lt'' \<noteq> str ''$eq''" "str ''$lt'' \<noteq> str ''$ne''" "str ''$lt'' \<noteq> str ''$gt''" "str ''$lt'' \<noteq> str ''$gte''"
  "str ''$lte'' \<noteq> str ''$eq''" "str ''$lte'' \<noteq> str ''$ne''" "str ''$lte'' \<noteq> str ''$gt''" "str ''$lte'' \<noteq> str ''$gte''" "str ''$lte'' \<noteq> str ''$lt''"
  by code_simp+

lemma op_holds_range:
  "op_holds path (str ''$eq'') v doc = some_value path (isNullOperand v) (self_or_element (\<lambda>w. Equal w v)) doc"
  "op_holds path (str ''$gt'') v doc = some_value path False (self_or_element (cmpLeaf_matchValue v opGt)) doc"
  "op_holds path (str ''$gte'') v doc = some_value path False (self_or_element (cmpLeaf_matchValue v opGte)) doc"
  "op_holds path (str ''$lt'') v doc = some_value path False (self_or_element (cmpLeaf_matchValue v opLt)) doc"
  "op_holds path (str ''$lte'') v doc = some_value path False (self_or_element (cmpLeaf_matchValue v opLte)) doc"
  by (subst op_holds.simps, simp add: op_distinct)+

lemma setEq_holds:
  assumes "bounds_hold doc out" "some_value (split_dots field) (isNullOperand v) (self_or_element (\<lambda>w. Equal w v)) doc"
  shows "bounds_hold doc (setEq out field v)"
  unfolding setEq_def
  by (rule bounds_hold_update[OF assms(1)]) (use boundFor_holds[OF assms(1), of field] assms(2) in \<open>simp add: bound_holds_def\<close>)

lemma mergeLo_holds:
  assumes "bounds_hold doc out" "some_value (split_dots field) False (self_or_element (cmpLeaf_matchValue v (if inc then opGte else opGt))) doc"
  shows "bounds_hold doc (mergeLo out field v inc)"
  unfolding mergeLo_def Let_def
  by (rule bounds_hold_update[OF assms(1)])
    (use boundFor_holds[OF assms(1), of field] assms(2) cmpLeaf_equal_operand[of v "fb_lo (boundFor out field)"] in \<open>cases inc; cases "fb_loInc (boundFor out field)"; auto simp: bound_holds_def\<close>)

lemma mergeHi_holds:
  assumes "bounds_hold doc out" "some_value (split_dots field) False (self_or_element (cmpLeaf_matchValue v (if inc then opLte else opLt))) doc"
  shows "bounds_hold doc (mergeHi out field v inc)"
  unfolding mergeHi_def Let_def
  by (rule bounds_hold_update[OF assms(1)])
    (use boundFor_holds[OF assms(1), of field] assms(2) cmpLeaf_equal_operand[of v "fb_hi (boundFor out field)"] in \<open>cases inc; cases "fb_hiInc (boundFor out field)"; auto simp: bound_holds_def\<close>)

lemma foldl_keeps:
  assumes "P s" "\<And>s x. x \<in> set xs \<Longrightarrow> P s \<Longrightarrow> P (f s x)"
  shows "P (foldl f s xs)"
  using assms by (induction xs arbitrary: s) auto

lemma applyOps_holds:
  assumes "bounds_hold doc out" "\<forall>x \<in> set (elements_of ops). op_holds (split_dots field) (ekey x) (evalue x) doc"
  shows "bounds_hold doc (applyOps out field ops)"
proof (cases "Elements ops")
  case (Inr es)
  have "bounds_hold doc (foldl (apply_op field) out es)"
  proof (rule foldl_keeps[of "bounds_hold doc", OF assms(1)])
    fix out e assume "e \<in> set es" and out: "bounds_hold doc out"
    then have h: "op_holds (split_dots field) (ekey e) (evalue e) doc" using assms(2) Inr by (simp add: elements_of_def)
    show "bounds_hold doc (apply_op field out e)" unfolding apply_op_def
      using h out setEq_holds[OF out, of field "evalue e"] mergeLo_holds[OF out, of field "evalue e"] mergeHi_holds[OF out, of field "evalue e"]
      by (auto simp: op_holds_range)
  qed
  then show ?thesis by (simp add: applyOps_def Inr)
qed (simp add: applyOps_def assms(1))

lemma plan_operator_doc: "plan_isOperatorDoc v = query_isOperatorDoc v"
  by (simp add: plan_isOperatorDoc_def query_isOperatorDoc_def)

lemma collectBounds_holds: "filter_holds d doc \<Longrightarrow> bounds_hold doc out \<Longrightarrow> bounds_hold doc (collectBounds d out)"
proof (induction "length d" arbitrary: d out rule: less_induct)
  case less
  show ?case
  proof (cases "Elements d")
    case (Inl e)
    then show ?thesis using less.prems by (simp add: collectBounds.simps)
  next
    case (Inr es)
    have "bounds_hold doc (foldl (\<lambda>out e.
        if ekey e = str ''$and'' then foldl (\<lambda>out u. collectBounds u out) out (arrayDocs (evalue e))
        else if has_dollar (ekey e) then out
        else if plan_isOperatorDoc (evalue e) then applyOps out (ekey e) (DocumentV (evalue e))
        else setEq out (ekey e) (evalue e)) out es)"
    proof (rule foldl_keeps[of "bounds_hold doc", OF less.prems(2)])
      fix out e assume e: "e \<in> set es" and out: "bounds_hold doc out"
      have h: "elem_holds e doc" using less.prems(1) e Inr by (simp add: filter_holds_elem elements_of_def)
      have sub: "bounds_hold doc (foldl (\<lambda>out u. collectBounds u out) out (arrayDocs (evalue e)))" if a: "ekey e = str ''$and''"
      proof (rule foldl_keeps[of "bounds_hold doc", OF out])
        fix out u assume u: "u \<in> set (arrayDocs (evalue e))" and out: "bounds_hold doc out"
        have "length u < length d" using arrayDocs_shorter[OF u] Elements_shorter[OF Inr e] by simp
        moreover have "filter_holds u doc" using h a arrayDocs_elems[OF u] by (auto simp: elem_holds_def)
        ultimately show "bounds_hold doc (collectBounds u out)" using less.hyps out by blast
      qed
      have "ekey e \<notin> {str ''$and'', str ''$or'', str ''$nor''}" if "\<not> has_dollar (ekey e)" using that has_dollar_ops by auto
      then show "bounds_hold doc (if ekey e = str ''$and'' then foldl (\<lambda>out u. collectBounds u out) out (arrayDocs (evalue e))
          else if has_dollar (ekey e) then out
          else if plan_isOperatorDoc (evalue e) then applyOps out (ekey e) (DocumentV (evalue e))
          else setEq out (ekey e) (evalue e))"
        using sub out h applyOps_holds[OF out] setEq_holds[OF out] by (auto simp: elem_holds_def plan_operator_doc)
    qed
    then show ?thesis by (simp add: collectBounds.simps Inr)
  qed
qed

end
