(* ===== verification/Plan_Sound.thy ===== *)
theory Plan_Sound
  imports Plan_Bounds
begin

text \<open>
  The byte range of an index scan holds the keys of every matching document whose indexed fields are
  single values; where a field is an array, or the index sparse, it need not.
\<close>

section \<open>Fields with one value\<close>

definition plain_field :: "bytes \<Rightarrow> bytes \<Rightarrow> bool" where
  "plain_field doc field \<longleftrightarrow>
     (let (v, found, simple) = traverseSingle doc (split_dots field) in simple \<and> (found \<longrightarrow> vtype v \<noteq> TypeArray))"

definition index_value :: "bytes \<Rightarrow> bytes \<Rightarrow> rawvalue" where
  "index_value doc field = (let (v, found, simple) = traverseSingle doc (split_dots field) in if found then v else nullValue)"

lemma single_spec_descend:
  "single_loop v path = (w, found, True) \<Longrightarrow> (found \<Longrightarrow> vtype w \<noteq> TypeArray) \<Longrightarrow>
    spec_descend v path (out, saw) = (found, if found then out @ [w] else out, saw)"
proof (induction path arbitrary: v)
  case Nil
  then show ?case by (subst spec_descend.simps) auto
next
  case (Cons p ps)
  then show ?case by (subst spec_descend.simps) (auto split: if_splits option.splits)
qed

lemma plain_part_values:
  assumes "plain_field doc (Field p)"
  shows "part_values doc p = [index_value doc (Field p)]" "\<not> snd (snd (fieldValues doc (Field p)))"
proof -
  obtain w found simple where t: "traverseSingle doc (split_dots (Field p)) = (w, found, simple)" by (metis prod_cases3)
  then have s: "single_loop (RawValue TypeDocument doc) (split_dots (Field p)) = (w, found, True)" "found \<Longrightarrow> vtype w \<noteq> TypeArray"
    using assms by (auto simp: plain_field_def traverseSingle_def)
  then have f: "fieldValues doc (Field p) = (if found then [w] else [], found, False)" by (simp add: fieldValues_def single_spec_descend)
  show "part_values doc p = [index_value doc (Field p)]" by (simp add: part_values_def f index_value_def t)
  show "\<not> snd (snd (fieldValues doc (Field p)))" by (simp add: f)
qed

lemma plain_some_value:
  assumes "plain_field doc field" "some_value (split_dots field) missing (self_or_element P) doc"
  shows "P (index_value doc field) \<or> missing \<and> index_value doc field = nullValue"
proof -
  obtain w found simple where t: "traverseSingle doc (split_dots field) = (w, found, simple)" by (metis prod_cases3)
  then have s: "simple" "found \<Longrightarrow> vtype w \<noteq> TypeArray" using assms(1) by (auto simp: plain_field_def)
  then have "traverse doc (split_dots field) = (if found then ([w], True) else ([], False))" using traverseSingle_traverse t by simp
  then have "{u. reaches (RawValue TypeDocument doc) (split_dots field) u} = (if found then {w} else {})"
    using traverse_reaches(1)[of doc "split_dots field"] by (auto split: if_splits)
  then have "reaches (RawValue TypeDocument doc) (split_dots field) u \<longleftrightarrow> found \<and> u = w" for u by (auto simp: set_eq_iff split: if_splits)
  then show ?thesis using assms(2) s(2) by (auto simp: some_value_def index_value_def t self_or_element_def split: if_splits)
qed

section \<open>One field of the range\<close>

definition exact_bound :: "byte \<Rightarrow> fieldBound \<Rightarrow> bool" where
  "exact_bound st b \<longleftrightarrow> (fb_hasEq b \<longrightarrow> exact_key st (fb_eq b)) \<and> (fb_hasLo b \<longrightarrow> exact_key st (fb_lo b)) \<and> (fb_hasHi b \<longrightarrow> exact_key st (fb_hi b))"

abbreviation field_key :: "bool \<Rightarrow> rawvalue \<Rightarrow> bytes" where
  "field_key desc v \<equiv> dir_enc value_key (v, desc)"

lemma EncodeField_exact: "exact_key st v \<Longrightarrow> EncodeField v desc = Inr (field_key desc v)"
  by (simp add: EncodeField_def EncodeValue_def encode_exact value_key_exact)

abbreviation MinKeyV :: rawvalue where "MinKeyV \<equiv> RawValue TypeMinKey []"
abbreviation MaxKeyV :: rawvalue where "MaxKeyV \<equiv> RawValue TypeMaxKey []"

lemma exact_ends: "exact_key st MinKeyV" "exact_key st MaxKeyV" "exact_key st nullValue"
  by (simp_all add: exact_key_def Let_def nullValue_def)

lemma rank_ends: "CanonicalType TypeMinKey = rankMinKey" "CanonicalType TypeMaxKey = rankMaxKey"
  by (simp_all add: CanonicalType_def)

lemma bound_ends:
  "EncodeBoundMin desc = field_key desc (if desc then MaxKeyV else MinKeyV)"
  "EncodeBoundMax desc = field_key desc (if desc then MinKeyV else MaxKeyV)"
  using value_key_exact[OF exact_ends(1)] value_key_exact[OF exact_ends(2)]
  by (simp_all add: EncodeBoundMin_def EncodeBoundMax_def rank_ends key_body_def)

lemma min_compare: "Compare MinKeyV v \<le> 0"
proof (cases "CanonicalType (vtype v) = rankMinKey")
  case True
  then show ?thesis using Compare_same_rank[of MinKeyV rankMinKey v] rank_ends by simp
next
  case False
  then have "rank_no rankMinKey < rank_no (CanonicalType (vtype v))" by (cases "CanonicalType (vtype v)") simp_all
  then show ?thesis using False Compare_diff_rank[of MinKeyV v] rank_ends by simp
qed

lemma max_compare: "Compare v MaxKeyV \<le> 0"
proof (cases "CanonicalType (vtype v) = rankMaxKey")
  case True
  then show ?thesis using Compare_same_rank[of v rankMaxKey MaxKeyV] rank_ends by simp
next
  case False
  then have "rank_no (CanonicalType (vtype v)) < rank_no rankMaxKey" by (cases "CanonicalType (vtype v)") simp_all
  then show ?thesis using False Compare_diff_rank[of v MaxKeyV] rank_ends by simp
qed

text \<open>A field that is not above the corresponding field of a key leaves the decision to what follows.\<close>

lemma field_step:
  assumes "exact_key st a" "exact_key st b" "if desc then Compare b a \<le> 0 else Compare a b \<le> 0" "bytes_cmp x y \<le> 0"
  shows "bytes_cmp (field_key desc a @ x) (field_key desc b @ y) \<le> 0"
proof (cases desc)
  case True
  then have "- Compare a b \<le> 0" using assms(3) bson_cmp.cmp_swap[of a b] by simp
  then show ?thesis using assms(4) True by (simp add: key_enc.invert_append[OF assms(1,2)])
next
  case False
  then show ?thesis using assms(3,4) by (simp add: key_enc.enc_append[OF assms(1,2)])
qed

text \<open>The interval of a field encloses a value.\<close>

definition encloses :: "byte \<Rightarrow> Interval \<Rightarrow> rawvalue \<Rightarrow> bool" where
  "encloses st iv v \<longleftrightarrow> \<not> iv_AlwaysFalse iv
     \<and> (iv_HasLo iv \<longrightarrow> exact_key st (iv_Lo iv) \<and> Compare (iv_Lo iv) v \<le> 0)
     \<and> (iv_HasHi iv \<longrightarrow> exact_key st (iv_Hi iv) \<and> Compare v (iv_Hi iv) \<le> 0)
     \<and> (iv_Point iv \<longrightarrow> iv_HasLo iv \<and> iv_HasHi iv \<and> iv_Lo iv = iv_Hi iv)"

lemma cmpLeaf_le: "cmpLeaf_matchValue w (if inc then opGte else opGt) v \<Longrightarrow> Compare w v \<le> 0"
  "cmpLeaf_matchValue w (if inc then opLte else opLt) v \<Longrightarrow> Compare v w \<le> 0"
  using bson_cmp.cmp_swap[of v w] by (auto simp: cmpLeaf_matchValue_def split: if_splits)

lemma null_operand: "isNullOperand w \<Longrightarrow> Compare nullValue w = 0"
  by (subst Compare_same_rank[of _ rankNull]) (auto simp: isNullOperand_def nullValue_def CanonicalType_def)

lemma bound_encloses:
  assumes b: "bound_holds doc field b" and p: "plain_field doc field" and e: "exact_bound st b"
  shows "encloses st (intervalOf (Some b)) (index_value doc field)"
proof -
  let ?v = "index_value doc field"
  have eq: "Compare (fb_eq b) ?v = 0" "Compare ?v (fb_eq b) = 0" if "fb_hasEq b"
    using plain_some_value[OF p, of "isNullOperand (fb_eq b)" "\<lambda>w. Equal w (fb_eq b)"] b that null_operand[of "fb_eq b"]
      bson_cmp.cmp_swap[of ?v "fb_eq b"] by (auto simp: bound_holds_def Equal_def)
  have lo: "Compare (fb_lo b) ?v \<le> 0" if "fb_hasLo b"
    using plain_some_value[OF p, of False "cmpLeaf_matchValue (fb_lo b) (if fb_loInc b then opGte else opGt)"] b that cmpLeaf_le(1)
    unfolding bound_holds_def by blast
  have hi: "Compare ?v (fb_hi b) \<le> 0" if "fb_hasHi b"
    using plain_some_value[OF p, of False "cmpLeaf_matchValue (fb_hi b) (if fb_hiInc b then opLte else opLt)"] b that cmpLeaf_le(2)
    unfolding bound_holds_def by blast
  show ?thesis using eq lo hi e by (auto simp: encloses_def intervalOf_def zero_interval_def exact_bound_def Let_def)
qed

lemma unconstrained_encloses: "encloses st (intervalOf None) v"
  by (simp add: encloses_def intervalOf_def zero_interval_def)

text \<open>Two values whose encodings, in the direction of the field, lie on either side of a value.\<close>

definition straddles :: "byte \<Rightarrow> bool \<Rightarrow> bytes \<Rightarrow> bytes \<Rightarrow> rawvalue \<Rightarrow> bool" where
  "straddles st desc l h v \<longleftrightarrow> (\<exists>a b. l = field_key desc a \<and> h = field_key desc b \<and> exact_key st a \<and> exact_key st b
     \<and> (if desc then Compare v a \<le> 0 \<and> Compare b v \<le> 0 else Compare a v \<le> 0 \<and> Compare v b \<le> 0))"

lemma straddles_step:
  assumes "straddles st desc l h v" "exact_key st v" "bytes_cmp L K \<le> 0" "bytes_cmp K H \<le> 0"
  shows "bytes_cmp (l @ L) (field_key desc v @ K) \<le> 0" "bytes_cmp (field_key desc v @ K) (h @ H) \<le> 0"
proof -
  obtain a b where ab: "l = field_key desc a" "h = field_key desc b" "exact_key st a" "exact_key st b"
    and c: "if desc then Compare v a \<le> 0 \<and> Compare b v \<le> 0 else Compare a v \<le> 0 \<and> Compare v b \<le> 0"
    using assms(1) by (auto simp: straddles_def)
  show "bytes_cmp (l @ L) (field_key desc v @ K) \<le> 0" unfolding ab(1) by (rule field_step[OF ab(3) assms(2) _ assms(3)]) (use c in \<open>auto split: if_splits\<close>)
  show "bytes_cmp (field_key desc v @ K) (h @ H) \<le> 0" unfolding ab(2) by (rule field_step[OF assms(2) ab(4) _ assms(4)]) (use c in \<open>auto split: if_splits\<close>)
qed

lemma ends_straddle: "straddles st desc (EncodeBoundMin desc) (EncodeBoundMax desc) v"
  unfolding straddles_def bound_ends
  by (intro exI conjI) (use exact_ends min_compare max_compare in auto)

lemma point_straddles:
  assumes "encloses st iv v" "iv_Point iv"
  shows "EncodeField (iv_Lo iv) desc = Inr (field_key desc (iv_Lo iv)) \<and> straddles st desc (field_key desc (iv_Lo iv)) (field_key desc (iv_Lo iv)) v"
  using assms EncodeField_exact[of st "iv_Lo iv" desc] by (auto simp: encloses_def straddles_def intro!: exI[of _ "iv_Hi iv"])

lemma range_straddles:
  assumes "encloses st iv v"
  shows "\<exists>l h. encodeRange iv desc = Inr (l, h) \<and> straddles st desc l h v"
proof -
  let ?a = "if desc then (if iv_HasHi iv then iv_Hi iv else MaxKeyV) else (if iv_HasLo iv then iv_Lo iv else MinKeyV)"
  let ?b = "if desc then (if iv_HasLo iv then iv_Lo iv else MinKeyV) else (if iv_HasHi iv then iv_Hi iv else MaxKeyV)"
  have x: "exact_key st ?a" "exact_key st ?b" using assms exact_ends by (auto simp: encloses_def)
  have c: "if desc then Compare v ?a \<le> 0 \<and> Compare ?b v \<le> 0 else Compare ?a v \<le> 0 \<and> Compare v ?b \<le> 0"
    using assms min_compare max_compare by (auto simp: encloses_def)
  have "encodeRange iv desc = Inr (field_key desc ?a, field_key desc ?b)"
    using assms by (cases desc) (simp_all add: encodeRange_def bound_ends EncodeField_exact[of st] encloses_def)
  then show ?thesis using x c by (auto simp only: straddles_def)
qed

section \<open>The whole range\<close>

definition encloses_key :: "scanBounds \<Rightarrow> bytes \<Rightarrow> bytes \<Rightarrow> bytes \<Rightarrow> bool" where
  "encloses_key sb lo hi K \<longleftrightarrow> \<not> sb_Empty sb \<and> (\<exists>L H. sb_Lo sb = lo @ L \<and> sb_Hi sb = hi @ H \<and> bytes_cmp L K \<le> 0 \<and> bytes_cmp K H \<le> 0)"

lemma encloses_key_step:
  assumes "straddles st desc l h v" "exact_key st v" "encloses_key sb (lo @ l) (hi @ h) K"
  shows "encloses_key sb lo hi (field_key desc v @ K)"
  using assms(3) straddles_step[OF assms(1,2)] unfolding encloses_key_def by (metis append_assoc)

lemma bounds_loop_encloses:
  assumes "\<And>kp. kp \<in> set kps \<Longrightarrow> encloses st (intervalOf (fb (Field kp))) (val kp) \<and> exact_key st (val kp)"
  shows "encloses_key (bounds_loop fb kps i lo hi ivs us ti sp) lo hi (concat (map (\<lambda>kp. field_key (Desc kp) (val kp)) kps))"
  using assms
proof (induction kps arbitrary: i lo hi ivs us ti sp)
  case Nil
  show ?case by (simp add: encloses_key_def)
next
  case (Cons kp kps)
  let ?iv = "intervalOf (fb (Field kp))"
  have e: "encloses st ?iv (val kp)" and x: "exact_key st (val kp)" using Cons.prems[of kp] by auto
  have step: "encloses_key (bounds_loop fb kps j (lo @ l) (hi @ h) ivs us ti sp) lo hi (field_key (Desc kp) (val kp) @ concat (map (\<lambda>kp. field_key (Desc kp) (val kp)) kps))"
    if "straddles st (Desc kp) l h (val kp)" for j l h ivs us ti sp
    by (rule encloses_key_step[OF that x]) (rule Cons.IH, use Cons.prems in auto)
  obtain l h where r: "encodeRange ?iv (Desc kp) = Inr (l, h)" "straddles st (Desc kp) l h (val kp)" using range_straddles[OF e] by blast
  have "\<not> iv_AlwaysFalse ?iv" using e by (simp add: encloses_def)
  then show ?case using step[OF ends_straddle] step[OF r(2)] point_straddles[OF e, of "Desc kp"] step r(1) by (auto simp: Let_def)
qed

section \<open>The keys of a document\<close>

lemma plain_collect_fields:
  "\<forall>p \<in> set ps. \<not> snd (snd (fieldValues doc (Field p))) \<Longrightarrow>
    \<exists>anyp'. collect_fields doc ps i per anyp None = Inr (per @ map (part_values doc) ps, anyp', None)"
proof (induction ps arbitrary: i per anyp)
  case (Cons p ps)
  obtain vals pres saw where f: "fieldValues doc (Field p) = (vals, pres, saw)" by (metis prod_cases3)
  then have "\<not> saw" using Cons.prems by auto
  then show ?case using Cons.IH[of "i + 1" "per @ [part_values doc p]" "anyp \<or> pres"] Cons.prems by (cases "vals = []") (simp_all add: f part_values_def Let_def)
qed simp

definition plain_doc :: "byte \<Rightarrow> KeyPart list \<Rightarrow> bytes \<Rightarrow> bool" where
  "plain_doc st key doc \<longleftrightarrow> (\<forall>p \<in> set key. plain_field doc (Field p) \<and> exact_key st (index_value doc (Field p)))"

definition plain_key :: "KeyPart list \<Rightarrow> bytes \<Rightarrow> bytes" where
  "plain_key key doc = concat (map (\<lambda>p. field_key (Desc p) (index_value doc (Field p))) key)"

lemma concat_row: "concat (map (dir_enc value_key) (zip (map f ks) (map Desc ks))) = concat (map (\<lambda>p. field_key (Desc p) (f p)) ks)"
  by (induction ks) simp_all

lemma plain_spec_Keys:
  assumes "plain_doc st (spec_Key s) doc"
  shows "spec_Keys s doc = Inr ([], False, False) \<and> spec_Sparse s \<or> spec_Keys s doc = Inr ([plain_key (spec_Key s) doc], True, False)"
proof -
  let ?key = "spec_Key s" let ?vs = "map (\<lambda>p. index_value doc (Field p)) ?key"
  have pf: "\<forall>p \<in> set ?key. plain_field doc (Field p)" using assms by (simp add: plain_doc_def)
  obtain anyp where c: "collect_fields doc ?key 0 [] False None = Inr (map (part_values doc) ?key, anyp, None)"
    using plain_collect_fields[of ?key doc 0 "[]" False] pf plain_part_values(2) by auto
  have "map (part_values doc) ?key = map (\<lambda>v. [v]) ?vs" using pf plain_part_values(1) by simp
  then have "row_values (map (part_values doc) ?key) None 0 = ?vs" by (auto simp: row_values_def intro!: nth_equalityI)
  moreover have "append_parts [] (zip ?vs (map Desc ?key)) = Inr (concat (map (dir_enc value_key) (zip ?vs (map Desc ?key))))"
    using append_parts_concat[of st ?vs "map Desc ?key" "[]"] assms(1) by (auto simp: plain_doc_def list_all_iff)
  moreover have "concat (map (dir_enc value_key) (zip ?vs (map Desc ?key))) = plain_key ?key doc"
    unfolding plain_key_def by (rule concat_row)
  ultimately show ?thesis by (auto simp: spec_Keys_def c Let_def)
qed

lemma plain_Keys:
  assumes "plain_doc st (spec_Key s) doc" "spec_Keys s doc = Inr (ks, indexed, mk)"
  shows "ks = (if indexed then [plain_key (spec_Key s) doc] else [])"
  using plain_spec_Keys[OF assms(1)] assms(2) by auto

definition exact_bounds :: "byte \<Rightarrow> KeyPart list \<Rightarrow> bounds \<Rightarrow> bool" where
  "exact_bounds st key fb \<longleftrightarrow> (\<forall>p \<in> set key. \<forall>b. fb (Field p) = Some b \<longrightarrow> exact_bound st b)"

lemma matching_key_enclosed:
  assumes "filter_holds filt doc" "plain_doc st key doc" "exact_bounds st key (extractBounds filt)"
  shows "encloses_key (buildScanBounds key (extractBounds filt)) [] [] (plain_key key doc)"
  unfolding buildScanBounds_def plain_key_def
proof (rule bounds_loop_encloses, intro conjI)
  fix kp assume kp: "kp \<in> set key"
  show "exact_key st (index_value doc (Field kp))" using assms(2) kp by (simp add: plain_doc_def)
  have h: "bounds_hold doc (extractBounds filt)" unfolding extractBounds_def by (rule collectBounds_holds[OF assms(1) bounds_hold_empty])
  show "encloses st (intervalOf (extractBounds filt (Field kp))) (index_value doc (Field kp))"
  proof (cases "extractBounds filt (Field kp)")
    case (Some b)
    show ?thesis unfolding Some by (rule bound_encloses) (use h assms(2,3) kp Some in \<open>auto simp: bounds_hold_def plain_doc_def exact_bounds_def\<close>)
  qed (simp add: unconstrained_encloses)
qed

section \<open>Rows are told apart\<close>

fun exact_row :: "byte \<Rightarrow> KeyPart list \<Rightarrow> bytes \<Rightarrow> bool" where
  "exact_row st [] f \<longleftrightarrow> f = []"
| "exact_row st (kp # kps) f \<longleftrightarrow> (\<exists>a g. exact_key st a \<and> f = field_key (Desc kp) a @ g \<and> exact_row st kps g)"

lemma invert_inj: "invert a = invert b \<longleftrightarrow> a = b"
proof -
  have "inj (\<lambda>c :: byte. 0xFF XOR c)" by (rule injI) (metis xor.left_neutral xor.assoc xor_self_eq)
  then show ?thesis by (simp add: inj_map_eq_map)
qed

lemma field_key_prefix:
  assumes "exact_key st a" "exact_key st b" "field_key desc a @ x = field_key desc b @ y"
  shows "field_key desc a = field_key desc b \<and> x = y"
proof (cases desc)
  case True
  have "bytes_cmp (field_key desc a @ x) (field_key desc b @ y) = 0" using assms(3) by (simp add: byte_cmp.cmp_refl)
  then have "Compare a b = 0" using key_enc.invert_append[OF assms(1,2), of x y] True by (auto split: if_splits)
  then have "value_key a = value_key b" using key_enc.enc_order[OF assms(1,2)] bytes_cmp_eq_0 by metis
  then show ?thesis using assms(3) by simp
next
  case False
  then have "value_key a = value_key b" using key_enc.enc_prefix_free[OF assms(1,2)] assms(3) by simp
  then show ?thesis using assms(3) by simp
qed

lemma exact_row_prefix: "exact_row st key f \<Longrightarrow> exact_row st key g \<Longrightarrow> f @ x = g @ y \<Longrightarrow> f = g"
proof (induction key arbitrary: f g)
  case (Cons kp kps)
  obtain a f' where f: "exact_key st a" "f = field_key (Desc kp) a @ f'" "exact_row st kps f'" using Cons.prems(1) by auto
  obtain b g' where g: "exact_key st b" "g = field_key (Desc kp) b @ g'" "exact_row st kps g'" using Cons.prems(2) by auto
  have "field_key (Desc kp) a = field_key (Desc kp) b \<and> f' @ x = g' @ y"
    by (rule field_key_prefix[OF f(1) g(1)]) (use Cons.prems(3) f(2) g(2) in simp)
  then show ?case using Cons.IH[OF f(3) g(3)] f(2) g(2) by simp
qed simp

lemma interval_exact:
  assumes "\<forall>b. bo = Some b \<longrightarrow> exact_bound st b"
  shows "\<not> iv_AlwaysFalse (intervalOf bo)" "iv_HasLo (intervalOf bo) \<Longrightarrow> exact_key st (iv_Lo (intervalOf bo))"
    "iv_HasHi (intervalOf bo) \<Longrightarrow> exact_key st (iv_Hi (intervalOf bo))" "iv_Point (intervalOf bo) \<Longrightarrow> iv_HasLo (intervalOf bo)"
  using assms by (auto simp: intervalOf_def zero_interval_def exact_bound_def Let_def split: option.splits if_splits)

lemma encodeRange_lo:
  assumes "iv_HasLo iv \<Longrightarrow> exact_key st (iv_Lo iv)" "iv_HasHi iv \<Longrightarrow> exact_key st (iv_Hi iv)"
  shows "\<exists>a h. encodeRange iv desc = Inr (field_key desc a, h) \<and> exact_key st a"
proof -
  let ?a = "if desc then (if iv_HasHi iv then iv_Hi iv else MaxKeyV) else (if iv_HasLo iv then iv_Lo iv else MinKeyV)"
  let ?b = "if desc then (if iv_HasLo iv then iv_Lo iv else MinKeyV) else (if iv_HasHi iv then iv_Hi iv else MaxKeyV)"
  have "exact_key st ?a" using assms exact_ends by auto
  moreover have "encodeRange iv desc = Inr (field_key desc ?a, field_key desc ?b)"
    using assms by (cases desc) (simp_all add: encodeRange_def bound_ends EncodeField_exact[of st])
  ultimately show ?thesis by blast
qed

lemma bounds_loop_row:
  assumes "\<And>kp. kp \<in> set kps \<Longrightarrow> \<forall>b. fb (Field kp) = Some b \<longrightarrow> exact_bound st b"
  shows "\<exists>L. sb_Lo (bounds_loop fb kps i lo hi ivs us ti sp) = lo @ L \<and> exact_row st kps L"
  using assms
proof (induction kps arbitrary: i lo hi ivs us ti sp)
  case (Cons kp kps)
  let ?iv = "intervalOf (fb (Field kp))"
  have step: "\<exists>L. sb_Lo (bounds_loop fb kps j (lo @ field_key (Desc kp) a) hi' ivs us ti sp) = lo @ L \<and> exact_row st (kp # kps) L"
    if a: "exact_key st a" for j a hi' ivs us ti sp
  proof -
    have "\<exists>L. sb_Lo (bounds_loop fb kps j (lo @ field_key (Desc kp) a) hi' ivs us ti sp) = (lo @ field_key (Desc kp) a) @ L \<and> exact_row st kps L"
      by (rule Cons.IH) (use Cons.prems in auto)
    then obtain L where L: "sb_Lo (bounds_loop fb kps j (lo @ field_key (Desc kp) a) hi' ivs us ti sp) = lo @ field_key (Desc kp) a @ L" "exact_row st kps L"
      by (auto simp only: append_assoc)
    then have "exact_row st (kp # kps) (field_key (Desc kp) a @ L)" unfolding exact_row.simps using a by blast
    then show ?thesis using L(1) by blast
  qed
  have mn: "\<exists>L. sb_Lo (bounds_loop fb kps j (lo @ EncodeBoundMin (Desc kp)) hi' ivs us ti sp) = lo @ L \<and> exact_row st (kp # kps) L" for j hi' ivs us ti sp
    unfolding bound_ends using step exact_ends by simp
  note x = interval_exact[OF Cons.prems[OF list.set_intros(1)]]
  obtain a h where r: "encodeRange ?iv (Desc kp) = Inr (field_key (Desc kp) a, h)" "exact_key st a" using encodeRange_lo[OF x(2,3)] by blast
  have pt: "EncodeField (iv_Lo ?iv) (Desc kp) = Inr (field_key (Desc kp) (iv_Lo ?iv))" "exact_key st (iv_Lo ?iv)" if "iv_Point ?iv"
    using x(2)[OF x(4)[OF that]] EncodeField_exact by blast+
  show ?case unfolding bounds_loop.simps Let_def
    using mn step[OF r(2)] step[OF pt(2)] pt(1) r(1) x(1) by (simp del: exact_row.simps)
qed simp

end
