(* ===== verification/Plan_Claims.thy ===== *)
theory Plan_Claims
  imports Plan_Sound Btree_Claims
begin

text \<open>
  Planned index scans: the matcher, the planner's bounds, the index keys and the B-tree put together.
\<close>

section \<open>Planned scans\<close>

text \<open>An index that holds the keys of the documents of a collection, all of them rows of exact fields.\<close>

definition index_covers :: "IndexSpec \<Rightarrow> byte \<Rightarrow> index_entries \<Rightarrow> (rid \<Rightarrow> bytes option) \<Rightarrow> bool" where
  "index_covers s st E docs \<longleftrightarrow>
     (\<forall>x \<in> E. exact_row st (spec_Key s) (fst x))
     \<and> (\<forall>r doc. docs r = Some doc \<longrightarrow> plain_doc st (spec_Key s) doc
          \<and> (\<exists>ks mk. spec_Keys s doc = Inr (ks, True, mk) \<and> (\<forall>k \<in> set ks. (k, r) \<in> E)))"

lemma exact_row_apart: "exact_row st key f \<Longrightarrow> exact_row st key g \<Longrightarrow> told_apart f g"
  using exact_row_prefix[of st key f g] exact_row_prefix[of st key g f] by (fastforce simp: told_apart_def prefix_def)

lemma lo_row:
  assumes "exact_bounds st key fb"
  shows "exact_row st key (sb_Lo (buildScanBounds key fb))"
  using bounds_loop_row[of key fb st 0 "[]" "[]" "[]" False True False] assms by (auto simp: buildScanBounds_def exact_bounds_def)

lemma covers_delimited:
  assumes "index_covers s st E docs" "exact_bounds st (spec_Key s) fb"
  shows "delimited (Some (sb_Lo (buildScanBounds (spec_Key s) fb))) E"
  using assms(1) exact_row_apart lo_row[OF assms(2)] unfolding delimited_def index_covers_def by blast

lemma matching_in_range:
  assumes "Compile filt = Inr m" "Match m doc" "plain_doc st key doc" "exact_bounds st key (extractBounds filt)"
  shows "above_lo (Some (sb_Lo (buildScanBounds key (extractBounds filt)))) True (plain_key key doc)"
    "below_hi (Some (sb_Hi (buildScanBounds key (extractBounds filt)))) True (plain_key key doc)"
proof -
  have "filter_holds filt doc" using compile_means[of filt] assms(1,2) by (simp add: means_def Compile_def Match_def)
  from matching_key_enclosed[OF this assms(3,4)]
  show "above_lo (Some (sb_Lo (buildScanBounds key (extractBounds filt)))) True (plain_key key doc)"
    "below_hi (Some (sb_Hi (buildScanBounds key (extractBounds filt)))) True (plain_key key doc)"
    by (auto simp: encloses_key_def above_lo_def below_hi_def bytes_cmp_iff)
qed

text \<open>C11. Planned scans lose nothing, under these conditions: every document of the collection has its keys in the index (it is
  neither sparse nor partial for them), every indexed field of every document is a single value and not an array, and the indexed
  values as well as the filter's bounds on the indexed fields have exact keys (no NaN and no negative zero, integers up to
  $2^{53}$, binaries of one subtype, no decimal128, document or array). Then scanning the byte range the planner derives from the
  filter returns, and unless it met an exhausted pool it finds the record of every document the filter matches.\<close>

theorem planned_scan_complete:
  assumes "holds_entries com n recs t E" "index_covers s st E docs"
    and "Compile filt = Inr m" "exact_bounds st (spec_Key s) (extractBounds filt)"
  shows "\<exists>t' res. scan_all (Some (sb_Lo (buildScanBounds (spec_Key s) (extractBounds filt))))
      (Some (sb_Hi (buildScanBounds (spec_Key s) (extractBounds filt)))) whole t = Some (t', res) \<and> holds_entries com n recs t' E
    \<and> (res = Inl (ErrPager ErrPoolExhausted)
       \<or> (\<exists>ks. res = Inr ks \<and> (\<forall>r doc. docs r = Some doc \<longrightarrow> Match m doc \<longrightarrow> (\<exists>k \<in> set ks. ridFromSuffix k = Some r))))"
proof -
  let ?sb = "buildScanBounds (spec_Key s) (extractBounds filt)"
  define F where "F = {treeKey f r | f r. (f, r) \<in> E \<and> above_lo (Some (sb_Lo ?sb)) True f \<and> below_hi (Some (sb_Hi ?sb)) True f}"
  have "finds t (\<lambda>ks. sorted_wrt (<) ks \<and> set ks = F) (scan_all (Some (sb_Lo ?sb)) (Some (sb_Hi ?sb)) whole t)"
    using holds_scan[OF assms(1) covers_delimited[OF assms(2,4)], of whole "Some (sb_Hi ?sb)"] by (simp add: F_def)
  then obtain t' res where r: "scan_all (Some (sb_Lo ?sb)) (Some (sb_Hi ?sb)) whole t = Some (t', res)" "reads t t'"
      "res = Inl (ErrPager ErrPoolExhausted) \<or> (\<exists>ks. res = Inr ks \<and> set ks = F)" by (auto simp: finds_def)
  have found: "\<exists>k \<in> F. ridFromSuffix k = Some rd" if d: "docs rd = Some doc" "Match m doc" for rd doc
  proof -
    obtain ks mk where p: "plain_doc st (spec_Key s) doc" and ks: "spec_Keys s doc = Inr (ks, True, mk)" "\<forall>k \<in> set ks. (k, rd) \<in> E"
      using assms(2) d(1) unfolding index_covers_def by blast
    have "(plain_key (spec_Key s) doc, rd) \<in> E" using plain_Keys[OF p ks(1)] ks(2) by simp
    then have "treeKey (plain_key (spec_Key s) doc) rd \<in> F" using matching_in_range[OF assms(3) d(2) p assms(4)] unfolding F_def by blast
    then show ?thesis using treeKey_parts by blast
  qed
  have "res = Inl (ErrPager ErrPoolExhausted)
      \<or> (\<exists>ks. res = Inr ks \<and> (\<forall>r doc. docs r = Some doc \<longrightarrow> Match m doc \<longrightarrow> (\<exists>k \<in> set ks. ridFromSuffix k = Some r)))"
    using r(3) found by auto
  then show ?thesis using r(1) holds_reads[OF assms(1) r(2)] by blast
qed

text \<open>A collection with the document \<^verbatim>\<open>{a: 5}\<close> at one place, an ascending index on \<^verbatim>\<open>a\<close> and the filter
  \<^verbatim>\<open>{a: {$gte: 3, $lt: 9}}\<close>.\<close>

definition ex_int :: "byte \<Rightarrow> rawvalue" where
  "ex_int i = RawValue TypeInt32 [i, 0, 0, 0]"

definition plan_doc :: bytes where
  "plan_doc = Build (AppendValue [] (str ''a'') (ex_int 5))"

definition plan_filter :: bytes where
  "plan_filter = Build (AppendDocument [] (str ''a'') (Build (AppendValue (AppendValue [] (str ''$gte'') (ex_int 3)) (str ''$lt'') (ex_int 9))))"

lemma ex_compile: "Compile plan_filter = Inr (AndPred [FieldPred [str ''a''] (CmpLeaf (ex_int 3) opGte), FieldPred [str ''a''] (CmpLeaf (ex_int 9) opLt)])"
  by code_simp

lemma ex_path: "traverseSingle plan_doc [str ''a''] = (ex_int 5, True, True)" "split_dots (str ''a'') = [str ''a'']"
  by code_simp+

lemma ex_extract: "extractBounds plan_filter (str ''a'') = Some \<lparr>fb_hasEq = False, fb_eq = no_value, fb_hasLo = True, fb_lo = ex_int 3, fb_loInc = True,
     fb_hasHi = True, fb_hi = ex_int 9, fb_hiInc = False\<rparr>"
  by code_simp

lemma ex_match: "Match (AndPred [FieldPred [str ''a''] (CmpLeaf (ex_int 3) opGte), FieldPred [str ''a''] (CmpLeaf (ex_int 9) opLt)]) plan_doc"
proof -
  have "cmpLeaf_matchValue (ex_int 3) opGte (ex_int 5)" "cmpLeaf_matchValue (ex_int 9) opLt (ex_int 5)" by code_simp+
  then show ?thesis using ex_path by (simp add: Match_def field_eval_def leaf_hits_def)
qed

definition ex_key :: bytes where
  "ex_key = field_key False (ex_int 5)"

lemma ex_exact: "exact_key 0 (ex_int i)"
  by (simp add: ex_int_def exact_key_def)

lemma ex_key_length: "length ex_key \<le> 1000"
  using ex_exact[of 5] by (simp add: ex_key_def value_key_exact key_body_def CanonicalType_def ex_int_def)

lemma ex_covers: "index_covers tags_spec 0 {(ex_key, RID 7 1)} [RID 7 1 \<mapsto> plan_doc]"
proof -
  have p: "plain_doc 0 (spec_Key tags_spec) plan_doc" using ex_exact by (simp add: plain_doc_def tags_spec_def plain_field_def index_value_def ex_path ex_int_def)
  have k: "plain_key (spec_Key tags_spec) plan_doc = ex_key" by (simp add: plain_key_def ex_key_def tags_spec_def index_value_def ex_path)
  have "spec_Keys tags_spec plan_doc = Inr ([ex_key], True, False)" using plain_spec_Keys[OF p] k by (simp add: tags_spec_def)
  moreover have "exact_row 0 (spec_Key tags_spec) ex_key" unfolding ex_key_def using ex_exact[of 5] by (auto simp: tags_spec_def)
  ultimately show ?thesis using p by (auto simp: index_covers_def)
qed

lemma ex_bounds: "exact_bounds 0 (spec_Key tags_spec) (extractBounds plan_filter)"
  using ex_exact by (simp add: exact_bounds_def tags_spec_def ex_extract exact_bound_def)

theorem planned_scan_complete_witness:
  "\<exists>p t t' res. Open \<lparr>d_main = None, d_wal = None\<rparr> ex_options (1, 2) 3 ex_uuid = Inr p
    \<and> btree_Put False ex_key (RID 7 1) (ex_tree p False) = Some (t, Inr ())
    \<and> scan_all (Some (sb_Lo (buildScanBounds (spec_Key tags_spec) (extractBounds plan_filter))))
        (Some (sb_Hi (buildScanBounds (spec_Key tags_spec) (extractBounds plan_filter)))) whole t = Some (t', res)
    \<and> (res = Inl (ErrPager ErrPoolExhausted) \<or> (\<exists>ks k. res = Inr ks \<and> k \<in> set ks \<and> ridFromSuffix k = Some (RID 7 1)))"
proof (rule ex_entry_of[OF ex_key_length, of "RID 7 1"])
  fix p t recs assume e: "Open \<lparr>d_main = None, d_wal = None\<rparr> ex_options (1, 2) 3 ex_uuid = Inr p"
    "btree_Put False ex_key (RID 7 1) (ex_tree p False) = Some (t, Inr ())" "holds_entries (content p) 1 recs t {(ex_key, RID 7 1)}"
  let ?sb = "buildScanBounds (spec_Key tags_spec) (extractBounds plan_filter)"
  obtain t' res where r: "scan_all (Some (sb_Lo ?sb)) (Some (sb_Hi ?sb)) whole t = Some (t', res)"
    "res = Inl (ErrPager ErrPoolExhausted) \<or> (\<exists>ks. res = Inr ks \<and> (\<forall>r doc. [RID 7 1 \<mapsto> plan_doc] r = Some doc \<longrightarrow>
       Match (AndPred [FieldPred [str ''a''] (CmpLeaf (ex_int 3) opGte), FieldPred [str ''a''] (CmpLeaf (ex_int 9) opLt)]) doc \<longrightarrow> (\<exists>k \<in> set ks. ridFromSuffix k = Some r)))"
    using planned_scan_complete[OF e(3) ex_covers ex_compile ex_bounds] by blast
  have "[RID 7 1 \<mapsto> plan_doc] (RID 7 1) = Some plan_doc" by simp
  then have "res = Inl (ErrPager ErrPoolExhausted) \<or> (\<exists>ks k. res = Inr ks \<and> k \<in> set ks \<and> ridFromSuffix k = Some (RID 7 1))"
    using r(2) ex_match by blast
  then show ?thesis using r(1) e(1,2) by blast
qed

section \<open>Where the range is too narrow\<close>

text \<open>The document \<^verbatim>\<open>{a: ["b", "x"]}\<close> matches \<^verbatim>\<open>{a: {$gt: "m", $lt: "c"}}\<close>, one element for each operator. The planner
  merges both into one interval of the multikey index, which holds neither key.\<close>

definition ex_str :: "string \<Rightarrow> rawvalue" where
  "ex_str s = StringVal (str s)"

definition mk_doc :: bytes where
  "mk_doc = Build (AppendArray [] (str ''a'') (BuildArray [ex_str ''b'', ex_str ''x'']))"

definition mk_filter :: bytes where
  "mk_filter = Build (AppendDocument [] (str ''a'') (Build (AppendValue (AppendValue [] (str ''$gt'') (ex_str ''m'')) (str ''$lt'') (ex_str ''c''))))"

lemma multikey_scan_misses:
  "spec_Keys tags_spec mk_doc = Inr ([[tagString, 0x62, 0, 1], [tagString, 0x78, 0, 1]], True, True)"
  "sb_Lo (buildScanBounds (spec_Key tags_spec) (extractBounds mk_filter)) = [tagString, 0x6D, 0, 1]"
  "sb_Hi (buildScanBounds (spec_Key tags_spec) (extractBounds mk_filter)) = [tagString, 0x63, 0, 1]"
  "sb_Usable (buildScanBounds (spec_Key tags_spec) (extractBounds mk_filter))"
  by code_simp+

lemma mk_match: "case Compile mk_filter of Inl _ \<Rightarrow> False | Inr m \<Rightarrow> Match m mk_doc"
  by code_simp

text \<open>A sparse index has no key for a document without the field, which \<^verbatim>\<open>{a: null}\<close> matches.\<close>

definition sp_doc :: bytes where
  "sp_doc = Build (AppendBoolean [] (str ''b'') True)"

definition sp_filter :: bytes where
  "sp_filter = Build (AppendNull [] (str ''a''))"

lemma sparse_scan_misses:
  "spec_Keys (tags_spec\<lparr>spec_Sparse := True\<rparr>) sp_doc = Inr ([], False, False)"
  "sb_Usable (buildScanBounds (spec_Key tags_spec) (extractBounds sp_filter))"
  "case Compile sp_filter of Inl _ \<Rightarrow> False | Inr m \<Rightarrow> Match m sp_doc"
  by code_simp+

end
