(* ===== verification/Spec2Isabelle.thy ===== *)
theory Spec2Isabelle
  imports Bson_Compare Index_Spec Format_Header Format_Slotted Vfs_Mem Wal_Recovery Mvcc_Isolation Mvcc_Ssi Colstore_Store Pager_Run Btree_Claims Query_Shape Plan_Claims
begin

text \<open>
  This library verifies the core of an embedded document database: a single-file, MongoDB-compatible
  store written in Go. Its parts, from the disk upwards, and the theories that model them:

  \<^item> \<^bold>\<open>Bytes, words and doubles.\<close> \<^verbatim>\<open>Prelude\<close> has the byte type, little- and big-endian codecs,
    region reads and writes on buffers, three-way comparisons as the locale \<^verbatim>\<open>three_way\<close>, and the
    collections \<^verbatim>\<open>codec_simps\<close> and \<^verbatim>\<open>region_simps\<close>. \<^verbatim>\<open>Float64\<close> reads IEEE doubles as bit patterns with
    an exact rational value; conversion from integers rounds to nearest even as Go does.
    \<^verbatim>\<open>Sort_Search\<close> is Go's \<^verbatim>\<open>sort.Search\<close>.

  \<^item> \<^bold>\<open>Documents\<close> (\<^verbatim>\<open>src/bson\<close>). \<^verbatim>\<open>Bson_Raw\<close> models raw documents, typed values, the scanner, validation,
    the builder and \<^verbatim>\<open>EnsureID\<close>. \<^verbatim>\<open>Elements\<close> and \<^verbatim>\<open>Build\<close> are shown inverse, \<^verbatim>\<open>Validate\<close> equivalent to
    an inductive grammar, and identity normalisation correct. \<^verbatim>\<open>Bson_Compare\<close> models the cross-type
    order; it is a total preorder on every value, the malformed ones included, and compares numbers
    of different types exactly.

  \<^item> \<^bold>\<open>Index keys\<close> (\<^verbatim>\<open>src/index/{key,encode,decode,field}.go\<close>, \<^verbatim>\<open>src/catalog/spec.go\<close>,
    \<^verbatim>\<open>src/storage/spi.go\<close>). \<^verbatim>\<open>Index_Key\<close> shows that key bytes sort as values compare for values with
    exact keys, that covered fields decode to their covered form and that scan bounds bracket every field. \<^verbatim>\<open>Index_Spec\<close> lifts the
    order to compound keys through the locale \<^verbatim>\<open>ordered_encoding\<close> and says exactly which keys, one row per
    value of the multikey part, an index stores for a document.

  \<^item> \<^bold>\<open>The file format\<close> (\<^verbatim>\<open>src/format\<close>). \<^verbatim>\<open>Format_Page\<close> has the checksums and page headers,
    \<^verbatim>\<open>Format_Header\<close> the database header, \<^verbatim>\<open>Format_Slotted\<close> the slotted page with all its cell
    operations. A page refines a list of slots; the locale \<^verbatim>\<open>slot_store\<close> states what any sequence of
    operations keeps, and is interpreted on the page bytes.

  \<^item> \<^bold>\<open>Files\<close> (\<^verbatim>\<open>src/vfs\<close>). \<^verbatim>\<open>Vfs_Mem\<close> is the in-memory file system; the locale \<^verbatim>\<open>positional_file\<close> is
    the contract of positional reads and writes.

  \<^item> \<^bold>\<open>The write-ahead log\<close> (\<^verbatim>\<open>src/wal\<close>). \<^verbatim>\<open>Wal\<close> models header, frames, writer and scan on the files of
    \<^verbatim>\<open>Vfs_Mem\<close>; \<^verbatim>\<open>Wal_Scan\<close> relates a scan to the chained frames of the file; \<^verbatim>\<open>Wal_Recovery\<close> proves that
    recovery after a crash or a corrupted byte returns exactly the whole commits before it, and that
    a resumed writer extends the log. The locale \<^verbatim>\<open>commit_log\<close> is the contract of the log.

  \<^item> \<^bold>\<open>Transactions\<close> (\<^verbatim>\<open>src/mvcc\<close>). \<^verbatim>\<open>Mvcc_Version\<close> (version chains and their collection, with the
    locale \<^verbatim>\<open>versioned\<close>), \<^verbatim>\<open>Mvcc_Oracle\<close> (versions, live snapshots, conflict validation), \<^verbatim>\<open>Mvcc_Store\<close>
    (the store and the step relation of its clients), \<^verbatim>\<open>Mvcc_Isolation\<close> (snapshot isolation:
    stable reads, atomic visibility, first committer wins, safe collection) and \<^verbatim>\<open>Mvcc_Ssi\<close>
    (serializable commits: the committed transactions of every reachable state have an acyclic
    conflict order).

  \<^item> \<^bold>\<open>The columnar store\<close> (\<^verbatim>\<open>src/colstore\<close>). \<^verbatim>\<open>Colstore_Value\<close>, \<^verbatim>\<open>Colstore_Encoding\<close> (six column
    encodings, each decoded back), \<^verbatim>\<open>Colstore_Segment\<close> (segments, zone maps, persistence) and
    \<^verbatim>\<open>Colstore_Store\<close> (the store, whose pruned scan refines a plain log of rows, for predicate columns without
    NaN, on which the zone maps of the code are wrong).

  \<^item> \<^bold>\<open>The pager\<close> (\<^verbatim>\<open>src/pager\<close>). \<^verbatim>\<open>Pager_Pool\<close> is the buffer pool with its 2Q policy, \<^verbatim>\<open>Pager\<close> the pages over
    the main file and the log: fetch, dirty, allocate, free, commit, checkpoint, open and recover.
    \<^verbatim>\<open>Pager_Invariant\<close> states that the committed database can be read off the files and the pages in use
    off the pool and the main file; \<^verbatim>\<open>Pager_Steps\<close> shows that page operations keep it,
    \<^verbatim>\<open>Pager_Durability\<close> that commit and checkpoint do, \<^verbatim>\<open>Pager_Recovery\<close> that what a crash leaves
    opens to a committed database, and \<^verbatim>\<open>Pager_Run\<close> puts runs of operations, crashes and reopenings
    together. Two conditions are part of the statements because the code needs them: a checkpoint or
    close that the caller asks for may only run while no page with uncommitted changes has its committed
    bytes in the log alone (\<^verbatim>\<open>spared\<close>; \<^verbatim>\<open>checkpoint_drops_image\<close> shows the loss otherwise), and the crash
    must not tear the 128-byte header of the main file (\<^verbatim>\<open>header_whole\<close>), which is decoded before the
    log is replayed. Byte offsets of pages are 64-bit products that wrap, as in the code; the
    properties that look pages up speak of 32-bit page numbers.

  \<^item> \<^bold>\<open>The B-tree index\<close> (\<^verbatim>\<open>src/index\<close>). \<^verbatim>\<open>Btree_Page\<close> and \<^verbatim>\<open>Btree\<close> are the tree over the pager: node
    encoding, descent, insertion with leaf and interior splits, lookup, deletion, statistics;
    \<^verbatim>\<open>Btree_Cursor\<close> its forward and reverse cursors and its transactions. \<^verbatim>\<open>Btree_Node\<close> and
    \<^verbatim>\<open>Btree_Levels\<close> state what a well-formed tree is (levels of nodes, each a sorted run, linked from
    left to right) as a relation between pages and levels; \<^verbatim>\<open>Btree_Search\<close>, \<^verbatim>\<open>Btree_Insert\<close> and
    \<^verbatim>\<open>Btree_Put\<close> show that descent finds the leaf of a key and that insertion keeps the relation,
    \<^verbatim>\<open>Btree_Index\<close> lifts this to the set of (field, record) entries, \<^verbatim>\<open>Btree_Scan\<close> and \<^verbatim>\<open>Btree_Walk\<close> treat
    cursors and page counts, \<^verbatim>\<open>Btree_Durable\<close> commits and crashes. \<^verbatim>\<open>Btree_Store\<close> states the contract of
    an index store as the locale \<^verbatim>\<open>index_store\<close> and interprets it on the tree, and \<^verbatim>\<open>Btree_Claims\<close> has the
    properties. Errors are part of them: a deletion or an insertion into a leaf with room leaves the
    entries as they were when the pool is exhausted; an error in the middle of a split leaves nothing
    promised, and \<^verbatim>\<open>split_overflows\<close> shows a split that cannot succeed.

  \<^item> \<^bold>\<open>Queries\<close> (\<^verbatim>\<open>src/query\<close>, \<^verbatim>\<open>src/plan/bounds.go\<close>). \<^verbatim>\<open>Query_Traverse\<close> resolves dotted paths, with the values
    a path reaches as an inductive relation; \<^verbatim>\<open>Query_Match\<close> compiles filters to predicate trees and
    evaluates them; \<^verbatim>\<open>Query_Meaning\<close> gives filters a meaning of their own and shows that compiling and
    evaluating decides it; \<^verbatim>\<open>Query_Shape\<close> sorts, projects and collects distinct values. \<^verbatim>\<open>Plan_Bounds\<close>
    derives the byte range of an index scan from a filter, \<^verbatim>\<open>Plan_Sound\<close> shows that the range holds the
    keys of every matching document whose indexed fields are single values, and \<^verbatim>\<open>Plan_Claims\<close> that scanning the
    B-tree over it finds their records; it also shows where a multikey or a sparse index loses some.

  \<^bold>\<open>How the code is read.\<close> A Go struct is a record, an enumeration a datatype or the constants of its
  byte, a method an explicit function from state to state, an error a value of a sum type and a panic
  the value \<^verbatim>\<open>None\<close> (or a constructor of the error type where both occur). Machine integers stay at
  their width as words; a Go \<^verbatim>\<open>int\<close> that indexes memory is a \<^verbatim>\<open>nat\<close> or an \<^verbatim>\<open>int\<close>, since lengths are bounded by
  memory. Maps whose iteration order is invisible are association lists or functions. A method that
  holds its mutex from entry to return is one step, so the interleavings of clients are the runs of
  a step relation or of a list of calls.

  \<^bold>\<open>Bounds and fuel.\<close> Loops are structural or come with a termination proof: the log scan decreases
  the bytes left, document scanning the bytes left, validation the depth \<^verbatim>\<open>MaxDepth\<close> of the code, the
  bounded retry loop its retry count. No definition takes fuel. The loops of the B-tree that follow
  page numbers read from disk (descent, the leaf chain, the page counts) need not end on a damaged
  file; they are partial functions into \<^verbatim>\<open>option\<close>, where \<^verbatim>\<open>None\<close> is a call that does not return, and
  they are shown to return on every well-formed tree. The insertion properties ask for \<^verbatim>\<open>spacious\<close>
  pagers: page numbers and log sequence numbers left for the pages an insertion may write, so that the 32- and
  64-bit counters do not wrap.

  \<^bold>\<open>Parameters.\<close> The ObjectID generator and the durable-commit callback of the oracle are arguments;
  the theorems hold for every value of them.

  \<^bold>\<open>Not modelled.\<close> Of the pager, incremental vacuum, backup and the counters are left out. The integrity checker
  of the B-tree, the heap, the catalog's storage, updates and the planner's choice of an
  access path are not covered. Aggregation
  (\<^verbatim>\<open>src/agg\<close>, columnar \<^verbatim>\<open>GroupBy\<close> and \<^verbatim>\<open>SumField\<close>) adds IEEE doubles and formats dates, which the
  development does not model. Collections, engine, wire protocol, command line and public API are
  glue over locks, goroutines, network and operating system; encryption rests on the Go crypto
  libraries; the clock, the random numbers and the metrics have no logic of their own. File locks,
  \<^verbatim>\<open>fsync\<close> and input/output errors of the operating system are outside the modelled file system.
\<close>

end
